(* ===== verification/Go_Prelude.thy ===== *)
theory Go_Prelude
  imports Main "HOL-Library.Word"
begin

section \<open>Go strings, runes and results\<close>

text \<open>
  Shared base of the development. A Go \<open>string\<close> is a byte sequence: the model uses
  \<^typ>\<open>string\<close>, whose characters are bytes. A rune is a code point, a natural number.
  \<open>decode_rune\<close>, \<open>encode_rune\<close> and \<open>range_str\<close> are \<^verbatim>\<open>utf8.DecodeRuneInString\<close>,
  \<^verbatim>\<open>string(r)\<close> and \<^verbatim>\<open>for i, r := range s\<close> of the Go language and its standard
  library. The lemmas collected in \<open>utf8\<close> reduce them to byte operations on ASCII input;
  the lemmas on \<open>index_byte\<close> describe \<^verbatim>\<open>strings.IndexByte\<close>.
\<close>

named_theorems utf8 "decoding of UTF-8 on ASCII input"

type_synonym rune = nat

abbreviation RuneError :: rune where
  "RuneError \<equiv> 65533"

abbreviation byte :: "char \<Rightarrow> nat" where
  "byte c \<equiv> of_char c"

abbreviation sq :: char where "sq \<equiv> CHR 0x27"
abbreviation dq :: char where "dq \<equiv> CHR 0x22"
abbreviation bsl :: char where "bsl \<equiv> CHR 0x5C"
abbreviation nl :: char where "nl \<equiv> CHR 0x0A"
abbreviation cr :: char where "cr \<equiv> CHR 0x0D"
abbreviation tab :: char where "tab \<equiv> CHR 0x09"
abbreviation sp :: char where "sp \<equiv> CHR 0x20"
abbreviation backq :: char where "backq \<equiv> CHR 0x60"

definition ascii :: "char \<Rightarrow> bool" where
  "ascii c \<longleftrightarrow> byte c < 128"

definition in_range :: "nat \<Rightarrow> nat \<Rightarrow> char \<Rightarrow> bool" where
  "in_range lo hi c \<longleftrightarrow> lo \<le> byte c \<and> byte c \<le> hi"

text \<open>
  The accepted ranges of the second byte are those of Go's \<open>acceptRanges\<close> table: they rule
  out overlong forms, surrogates and values above U+10FFFF. Any invalid prefix decodes to
  \<open>RuneError\<close> of width 1, the empty string to \<open>RuneError\<close> of width 0.
\<close>

definition decode2 :: "nat \<Rightarrow> string \<Rightarrow> rune \<times> nat" where
  "decode2 b0 cs = (case cs of
     c1 # _ \<Rightarrow> if in_range 128 191 c1 then ((b0 - 192) * 64 + (byte c1 - 128), 2)
               else (RuneError, 1)
   | [] \<Rightarrow> (RuneError, 1))"

definition decode3 :: "nat \<Rightarrow> string \<Rightarrow> rune \<times> nat" where
  "decode3 b0 cs = (case cs of
     c1 # c2 # _ \<Rightarrow>
       if in_range (if b0 = 224 then 160 else 128) (if b0 = 237 then 159 else 191) c1
          \<and> in_range 128 191 c2
       then ((b0 - 224) * 4096 + (byte c1 - 128) * 64 + (byte c2 - 128), 3)
       else (RuneError, 1)
   | _ \<Rightarrow> (RuneError, 1))"

definition decode4 :: "nat \<Rightarrow> string \<Rightarrow> rune \<times> nat" where
  "decode4 b0 cs = (case cs of
     c1 # c2 # c3 # _ \<Rightarrow>
       if in_range (if b0 = 240 then 144 else 128) (if b0 = 244 then 143 else 191) c1
          \<and> in_range 128 191 c2 \<and> in_range 128 191 c3
       then ((b0 - 240) * 262144 + (byte c1 - 128) * 4096 + (byte c2 - 128) * 64
              + (byte c3 - 128), 4)
       else (RuneError, 1)
   | _ \<Rightarrow> (RuneError, 1))"

fun decode_rune :: "string \<Rightarrow> rune \<times> nat" where
  "decode_rune [] = (RuneError, 0)"
| "decode_rune (c # cs) =
     (let b0 = byte c in
      if b0 < 128 then (b0, 1)
      else if 194 \<le> b0 \<and> b0 \<le> 223 then decode2 b0 cs
      else if 224 \<le> b0 \<and> b0 \<le> 239 then decode3 b0 cs
      else if 240 \<le> b0 \<and> b0 \<le> 244 then decode4 b0 cs
      else (RuneError, 1))"

definition encode_rune :: "rune \<Rightarrow> string" where
  "encode_rune r0 =
     (let r = (if (55296 \<le> r0 \<and> r0 \<le> 57343) \<or> 1114111 < r0 then RuneError else r0) in
      if r < 128 then [char_of r]
      else if r < 2048 then [char_of (192 + r div 64), char_of (128 + r mod 64)]
      else if r < 65536 then
        [char_of (224 + r div 4096), char_of (128 + r div 64 mod 64), char_of (128 + r mod 64)]
      else [char_of (240 + r div 262144), char_of (128 + r div 4096 mod 64),
            char_of (128 + r div 64 mod 64), char_of (128 + r mod 64)])"

lemma decode_rune_width: "s \<noteq> [] \<Longrightarrow> 0 < snd (decode_rune s)"
  by (cases s)
     (auto simp: decode2_def decode3_def decode4_def Let_def split: list.splits if_splits)

lemma decode_rune_width_le: "snd (decode_rune s) \<le> length s"
  by (cases s)
     (auto simp: decode2_def decode3_def decode4_def Let_def split: list.splits if_splits)

lemma decode_rune_pos: "(c, l) = decode_rune s \<Longrightarrow> s \<noteq> [] \<Longrightarrow> 0 < l"
  using decode_rune_width [of s] by (metis snd_conv)

text \<open>\<^verbatim>\<open>for i, r := range s\<close>: the byte index and the rune of each step.\<close>

function range_str :: "nat \<Rightarrow> string \<Rightarrow> (nat \<times> rune) list" where
  "range_str i s =
     (if s = [] then []
      else (i, fst (decode_rune s))
             # range_str (i + snd (decode_rune s)) (drop (snd (decode_rune s)) s))"
  by pat_completeness auto
termination
  by (relation "measure (\<lambda>(i, s). length s)") (auto simp: decode_rune_width diff_less)

declare range_str.simps [simp del] decode_rune.simps(2) [simp del]

definition runes :: "string \<Rightarrow> rune list" where
  "runes s = map snd (range_str 0 s)"

lemma decode_rune_ascii [utf8]: "ascii c \<Longrightarrow> decode_rune (c # cs) = (byte c, 1)"
  by (simp add: ascii_def decode_rune.simps)

lemma encode_rune_ascii [utf8]: "ascii c \<Longrightarrow> encode_rune (byte c) = [c]"
  by (simp add: ascii_def encode_rune_def)

lemma range_str_Nil [simp]: "range_str i [] = []"
  by (simp add: range_str.simps)

lemma range_str_ascii [utf8]:
  "ascii c \<Longrightarrow> range_str i (c # cs) = (i, byte c) # range_str (Suc i) cs"
  by (subst range_str.simps) (simp add: decode_rune_ascii)

lemma range_str_ascii_append:
  "\<forall>c \<in> set xs. ascii c \<Longrightarrow>
   range_str i (xs @ ys) = enumerate i (map byte xs) @ range_str (i + length xs) ys"
proof (induction xs arbitrary: i)
  case Nil
  then show ?case by simp
next
  case (Cons x xs)
  then show ?case by (simp add: range_str_ascii)
qed

lemma byte_inject [simp]: "byte c = byte d \<longleftrightarrow> c = d"
  by (metis char_of_char)

text \<open>
  A decoded rune is either one ASCII byte or a run of non-ASCII bytes with a value of 128 or
  more: no byte of a multi-byte sequence, valid or not, is an ASCII character.
\<close>

lemma in_range_nonascii: "in_range lo hi c \<Longrightarrow> 128 \<le> lo \<Longrightarrow> \<not> ascii c"
  by (simp add: in_range_def ascii_def)

definition nonascii_run :: "string \<Rightarrow> rune \<times> nat \<Rightarrow> bool" where
  "nonascii_run s d \<longleftrightarrow> 128 \<le> fst d \<and> (\<forall>x \<in> set (take (snd d) s). \<not> ascii x)"

lemma nonascii_run_error: "\<not> ascii c \<Longrightarrow> nonascii_run (c # cs) (RuneError, 1)"
  by (simp add: nonascii_run_def)

lemma decode2_nonascii:
  assumes "\<not> ascii c" "194 \<le> byte c"
  shows "nonascii_run (c # cs) (decode2 (byte c) cs)"
proof (cases cs)
  case (Cons c1 ds)
  have "in_range 128 191 c1 \<Longrightarrow> \<not> ascii c1" by (simp add: in_range_nonascii)
  moreover have "128 \<le> (byte c - 192) * 64 + (byte c1 - 128)" using assms(2) by linarith
  ultimately show ?thesis
    using assms(1) Cons by (simp add: decode2_def nonascii_run_def)
qed (use assms in \<open>simp add: decode2_def nonascii_run_def\<close>)

lemma decode3_nonascii:
  assumes "\<not> ascii c" "224 \<le> byte c"
  shows "nonascii_run (c # cs) (decode3 (byte c) cs)"
proof -
  have err: "nonascii_run (c # cs) (RuneError, 1)"
    using assms(1) by (rule nonascii_run_error)
  have ok: "nonascii_run (c # c1 # c2 # ds)
      ((byte c - 224) * 4096 + (byte c1 - 128) * 64 + (byte c2 - 128), 3)"
    if "in_range (if byte c = 224 then 160 else 128) (if byte c = 237 then 159 else 191) c1"
      "in_range 128 191 c2" for c1 c2 ds
  proof -
    have "\<not> ascii c1" "\<not> ascii c2" using that by (auto dest: in_range_nonascii split: if_splits)
    moreover have "128 \<le> (byte c - 224) * 4096 + (byte c1 - 128) * 64 + (byte c2 - 128)"
      using that assms(2) by (cases "byte c = 224") (auto simp: in_range_def)
    ultimately show ?thesis using assms(1) by (simp add: nonascii_run_def)
  qed
  show ?thesis
    using err ok by (auto simp: decode3_def split: list.split)
qed

lemma decode4_nonascii:
  assumes "\<not> ascii c" "240 \<le> byte c"
  shows "nonascii_run (c # cs) (decode4 (byte c) cs)"
proof -
  have err: "nonascii_run (c # cs) (RuneError, 1)"
    using assms(1) by (rule nonascii_run_error)
  have ok: "nonascii_run (c # c1 # c2 # c3 # ds)
      ((byte c - 240) * 262144 + (byte c1 - 128) * 4096 + (byte c2 - 128) * 64 + (byte c3 - 128), 4)"
    if "in_range (if byte c = 240 then 144 else 128) (if byte c = 244 then 143 else 191) c1"
      "in_range 128 191 c2" "in_range 128 191 c3" for c1 c2 c3 ds
  proof -
    have "\<not> ascii c1" "\<not> ascii c2" "\<not> ascii c3"
      using that by (auto dest: in_range_nonascii split: if_splits)
    moreover have "128 \<le> (byte c - 240) * 262144 + (byte c1 - 128) * 4096
        + (byte c2 - 128) * 64 + (byte c3 - 128)"
      using that assms(2) by (cases "byte c = 240") (auto simp: in_range_def)
    ultimately show ?thesis using assms(1) by (simp add: nonascii_run_def)
  qed
  show ?thesis
    using err ok by (auto simp: decode4_def split: list.split)
qed

lemma decode_rune_nonascii:
  assumes "\<not> ascii c"
  shows "nonascii_run (c # cs) (decode_rune (c # cs))"
  using assms decode2_nonascii [OF assms] decode3_nonascii [OF assms] decode4_nonascii [OF assms]
    nonascii_run_error [OF assms]
  by (simp add: decode_rune.simps Let_def ascii_def)

lemma decode_rune_small: "fst (decode_rune (c # cs)) < 128 \<Longrightarrow> ascii c"
  using decode_rune_nonascii [of c cs] by (fastforce simp: nonascii_run_def)

text \<open>
  Where the code tests a decoded rune against an ASCII constant, it tests the first byte.
\<close>

lemma decode_rune_eq_ascii:
  "ascii d \<Longrightarrow> fst (decode_rune (c # cs)) = byte d \<longleftrightarrow> c = d"
proof
  assume d: "ascii d" and eq: "fst (decode_rune (c # cs)) = byte d"
  from d eq have "fst (decode_rune (c # cs)) < 128" by (simp add: ascii_def)
  then have c: "ascii c" by (rule decode_rune_small)
  with eq show "c = d" by (simp add: decode_rune_ascii)
qed (simp add: decode_rune_ascii)

text \<open>
  \<^verbatim>\<open>strings.ContainsRune\<close>: some step of the range loop over \<open>s\<close> yields the rune.
\<close>

definition contains_rune :: "string \<Rightarrow> rune \<Rightarrow> bool" where
  "contains_rune s r \<longleftrightarrow> r \<in> set (runes s)"

lemma runes_ascii: "\<forall>c \<in> set s. ascii c \<Longrightarrow> runes s = map byte s"
  using range_str_ascii_append [of s 0 "[]"] by (simp add: runes_def)

lemma contains_rune_ascii: "\<forall>c \<in> set s. ascii c \<Longrightarrow> contains_rune s r \<longleftrightarrow> r \<in> byte ` set s"
  by (simp add: contains_rune_def runes_ascii)

lemma contains_rune_decode:
  assumes "\<forall>d \<in> set s. ascii d"
  shows "contains_rune s (fst (decode_rune (c # cs))) \<longleftrightarrow> c \<in> set s"
proof (cases "ascii c")
  case True
  with assms show ?thesis by (auto simp: contains_rune_ascii decode_rune_ascii)
next
  case False
  have "128 \<le> fst (decode_rune (c # cs))"
    using decode_rune_nonascii [OF False] by (simp add: nonascii_run_def)
  moreover have "c \<notin> set s" using False assms by blast
  ultimately show ?thesis using assms by (fastforce simp: contains_rune_ascii ascii_def)
qed

section \<open>White space\<close>

text \<open>
  \<^verbatim>\<open>unicode.IsSpace\<close>, \<^verbatim>\<open>unicode.IsDigit\<close> on the runes the code meets, and
  \<^verbatim>\<open>strings.TrimSpace\<close>. \<open>chunks\<close> pairs every rune of a range loop with its bytes.
\<close>

definition unicode_IsSpace :: "rune \<Rightarrow> bool" where
  "unicode_IsSpace r \<longleftrightarrow>
     (9 \<le> r \<and> r \<le> 13) \<or> r = 32 \<or> r = 133 \<or> r = 160 \<or> r = 5760 \<or> (8192 \<le> r \<and> r \<le> 8202)
     \<or> r = 8232 \<or> r = 8233 \<or> r = 8239 \<or> r = 8287 \<or> r = 12288"

function chunks :: "string \<Rightarrow> (rune \<times> string) list" where
  "chunks s =
     (if s = [] then []
      else (fst (decode_rune s), take (snd (decode_rune s)) s)
             # chunks (drop (snd (decode_rune s)) s))"
  by pat_completeness auto
termination
  by (relation "measure length") (auto simp: decode_rune_width)

declare chunks.simps [simp del]

lemma concat_chunks: "concat (map snd (chunks s)) = s"
proof (induction s rule: chunks.induct)
  case (1 s)
  then show ?case by (subst chunks.simps) simp
qed

definition trim_chunks :: "(rune \<times> string) list \<Rightarrow> (rune \<times> string) list" where
  "trim_chunks xs =
     rev (dropWhile (unicode_IsSpace \<circ> fst) (rev (dropWhile (unicode_IsSpace \<circ> fst) xs)))"

definition TrimSpace :: "string \<Rightarrow> string" where
  "TrimSpace s = concat (map snd (trim_chunks (chunks s)))"

section \<open>Loops with break and error return\<close>

text \<open>
  A \<open>for ... range\<close> loop whose body may continue, break, or return an error from the
  surrounding function.
\<close>

datatype ('e, 's) ctl = Continue 's | Break 's | Fail 'e

fun range_loop :: "('a \<Rightarrow> 's \<Rightarrow> ('e, 's) ctl) \<Rightarrow> 'a list \<Rightarrow> 's \<Rightarrow> 'e + 's" where
  "range_loop f [] s = Inr s"
| "range_loop f (x # xs) s =
     (case f x s of
        Continue s' \<Rightarrow> range_loop f xs s'
      | Break s' \<Rightarrow> Inr s'
      | Fail e \<Rightarrow> Inl e)"

lemma range_loop_append:
  "range_loop f xs s = Inr s' \<Longrightarrow>
   (\<And>x t t'. x \<in> set xs \<Longrightarrow> f x t \<noteq> Break t') \<Longrightarrow>
   range_loop f (xs @ ys) s = range_loop f ys s'"
  by (induction xs arbitrary: s) (auto split: ctl.splits)

text \<open>
  The loop rule: \<open>I\<close> holds before every iteration, \<open>Q\<close> after the loop, \<open>E\<close> of every error.
\<close>

lemma range_loop_rule:
  assumes "I s" "\<And>t. I t \<Longrightarrow> Q t"
    and "\<And>x t. x \<in> set xs \<Longrightarrow> I t \<Longrightarrow>
      (case f x t of Continue t' \<Rightarrow> I t' | Break t' \<Rightarrow> Q t' | Fail e \<Rightarrow> E e)"
  shows "case range_loop f xs s of Inl e \<Rightarrow> E e | Inr s' \<Rightarrow> Q s'"
  using assms(1,3)
proof (induction xs arbitrary: s)
  case Nil
  then show ?case using assms(2) by simp
next
  case (Cons x xs)
  have "case f x s of Continue t' \<Rightarrow> I t' | Break t' \<Rightarrow> Q t' | Fail e \<Rightarrow> E e"
    using Cons.prems by simp
  with Cons show ?case by (cases "f x s") auto
qed

section \<open>Searching bytes\<close>

text \<open>\<^verbatim>\<open>strings.IndexByte\<close>, with \<open>None\<close> for -1.\<close>

fun index_byte :: "string \<Rightarrow> char \<Rightarrow> nat option" where
  "index_byte [] c = None"
| "index_byte (x # xs) c = (if x = c then Some 0 else map_option Suc (index_byte xs c))"

lemma index_byte_None: "index_byte s c = None \<longleftrightarrow> c \<notin> set s"
  by (induction s) auto

lemma index_byte_append: "c \<notin> set xs \<Longrightarrow> index_byte (xs @ c # ys) c = Some (length xs)"
  by (induction xs) auto

lemma index_byte_Some:
  "index_byte s c = Some i \<Longrightarrow> s = take i s @ c # drop (Suc i) s \<and> c \<notin> set (take i s)"
  by (induction s arbitrary: i) (auto split: if_splits)

lemma index_byte_bound: "index_byte s c = Some i \<Longrightarrow> i < length s"
  by (induction s arbitrary: i) (auto split: if_splits)

lemmas index_byte_facts = index_byte_None index_byte_append index_byte_bound

end
