(* ===== verification/Linear_Probing.thy ===== *)
theory Linear_Probing
  imports Main
begin

section \<open>Open addressing with linear probing\<close>

text \<open>
  The theory of the hash table layout, independent of its encoding: a table of \<open>n\<close> slots, each
  empty or holding an entry, and a home slot \<open>h k\<close> for every key. \<open>cdist n a b\<close> is the number of
  steps from slot \<open>a\<close> to slot \<open>b\<close> going up cyclically. The layout invariant \<open>wf\<close> says that no
  empty slot lies between an entry's home and the entry. Deletion works with a table in which one
  slot (the hole) is filled but no longer counts; \<open>wf_hole\<close> is the invariant of that phase, kept
  when an entry moves into the hole and turned into \<open>wf\<close> when the scan meets an empty slot.
\<close>

type_synonym ('k, 'v) table = "nat \<Rightarrow> ('k \<times> 'v) option"

definition cdist :: "nat \<Rightarrow> nat \<Rightarrow> nat \<Rightarrow> nat" where
  "cdist n a b = (b + n - a) mod n"

definition entries :: "nat \<Rightarrow> ('k, 'v) table \<Rightarrow> ('k \<times> 'v) list" where
  "entries n T = List.map_filter T [0..<n]"

definition table_map :: "nat \<Rightarrow> ('k, 'v) table \<Rightarrow> 'k \<Rightarrow> 'v option" where
  "table_map n T = map_of (entries n T)"

definition keys_distinct :: "nat \<Rightarrow> ('k, 'v) table \<Rightarrow> bool" where
  "keys_distinct n T \<longleftrightarrow>
     (\<forall>i < n. \<forall>j < n. \<forall>k v w. T i = Some (k, v) \<longrightarrow> T j = Some (k, w) \<longrightarrow> i = j)"

text \<open>\<open>filled n T a b\<close>: every slot from \<open>a\<close> up to but not including \<open>b\<close> holds an entry.\<close>

definition filled :: "nat \<Rightarrow> ('k, 'v) table \<Rightarrow> nat \<Rightarrow> nat \<Rightarrow> bool" where
  "filled n T a b \<longleftrightarrow> (\<forall>j < cdist n a b. T ((a + j) mod n) \<noteq> None)"

definition probe_wf :: "nat \<Rightarrow> ('k \<Rightarrow> nat) \<Rightarrow> ('k, 'v) table \<Rightarrow> bool" where
  "probe_wf n h T \<longleftrightarrow>
     keys_distinct n T \<and> (\<forall>i < n. \<forall>k v. T i = Some (k, v) \<longrightarrow> filled n T (h k) i)"

definition vacancy :: "nat \<Rightarrow> ('k, 'v) table \<Rightarrow> bool" where
  "vacancy n T \<longleftrightarrow> (\<exists>i < n. T i = None)"

text \<open>
  \<open>hole_wf n h T p\<close>: slot \<open>p\<close> is filled but its entry no longer counts; every other entry is
  reachable from its home over filled slots, the hole included. \<open>settled n h T p q\<close>: no entry
  strictly between the hole and \<open>q\<close> has the hole on its path.
\<close>

definition hole_wf :: "nat \<Rightarrow> ('k \<Rightarrow> nat) \<Rightarrow> ('k, 'v) table \<Rightarrow> nat \<Rightarrow> bool" where
  "hole_wf n h T p \<longleftrightarrow> p < n \<and> T p \<noteq> None \<and> keys_distinct n (T(p := None))
     \<and> (\<forall>i < n. \<forall>k v. i \<noteq> p \<longrightarrow> T i = Some (k, v) \<longrightarrow> filled n T (h k) i)"

definition settled :: "nat \<Rightarrow> ('k \<Rightarrow> nat) \<Rightarrow> ('k, 'v) table \<Rightarrow> nat \<Rightarrow> nat \<Rightarrow> bool" where
  "settled n h T p q \<longleftrightarrow> (\<forall>c < n. 0 < cdist n p c \<longrightarrow> cdist n p c < cdist n p q \<longrightarrow>
     (\<exists>k v. T c = Some (k, v) \<and> \<not> cdist n (h k) p < cdist n (h k) c))"

lemma set_map_filter: "set (List.map_filter f xs) = {y. \<exists>x \<in> set xs. f x = Some y}"
  by (force simp: List.map_filter_def)

lemma set_entries: "set (entries n T) = {e. \<exists>i < n. T i = Some e}"
  by (auto simp: entries_def set_map_filter)

lemma entries_distinct_keys:
  assumes "keys_distinct n T"
  shows "distinct (map fst (entries n T))"
proof -
  have "distinct (map fst (List.map_filter T [0..<m]))" if "m \<le> n" for m
    using that
  proof (induction m)
    case (Suc m)
    show ?case
    proof (cases "T m")
      case (Some e)
      obtain k v where e: "e = (k, v)" by (cases e)
      have "k \<notin> fst ` set (List.map_filter T [0..<m])"
      proof
        assume "k \<in> fst ` set (List.map_filter T [0..<m])"
        then obtain i w where i: "i < m" "T i = Some (k, w)" by (auto simp: set_map_filter)
        then have "i = m" using assms Suc.prems Some e unfolding keys_distinct_def
          by (meson Suc_le_lessD less_trans)
        with i show False by simp
      qed
      moreover have "List.map_filter T [0..<Suc m] = List.map_filter T [0..<m] @ [(k, v)]"
        using Some e by (simp add: List.map_filter_def)
      ultimately show ?thesis using Suc by simp
    qed (use Suc in \<open>simp add: List.map_filter_def\<close>)
  qed (simp add: List.map_filter_def)
  then show ?thesis by (simp add: entries_def)
qed

lemma table_map_Some:
  "keys_distinct n T \<Longrightarrow> table_map n T k = Some v \<longleftrightarrow> (\<exists>i < n. T i = Some (k, v))"
  by (simp add: table_map_def map_of_eq_Some_iff entries_distinct_keys set_entries)

lemma table_map_None: "table_map n T k = None \<longleftrightarrow> (\<forall>i < n. \<forall>v. T i \<noteq> Some (k, v))"
  by (force simp: table_map_def map_of_eq_None_iff set_entries)

lemma length_entries:
  assumes "keys_distinct n T"
  shows "length (entries n T) = card (dom (table_map n T))"
proof -
  have "dom (table_map n T) = set (map fst (entries n T))"
    by (simp add: table_map_def dom_map_of_conv_image_fst)
  then show ?thesis using distinct_card [OF entries_distinct_keys [OF assms]] by simp
qed

locale linear_probe =
  fixes n :: nat and h :: "'k \<Rightarrow> nat"
  assumes n_pos: "0 < n" and h_less: "h k < n"
begin

lemma dist_less [simp]: "cdist n a b < n"
  using n_pos by (simp add: cdist_def)

lemma dist_self [simp]: "cdist n a a = 0"
  by (simp add: cdist_def)

lemma walk_dist: "a < n \<Longrightarrow> b < n \<Longrightarrow> (a + cdist n a b) mod n = b"
  by (simp add: cdist_def mod_add_right_eq)

lemma dist_walk: "a < n \<Longrightarrow> j < n \<Longrightarrow> cdist n a ((a + j) mod n) = j"
proof -
  assume a: "a < n" and j: "j < n"
  have "cdist n a ((a + j) mod n) = ((a + j) mod n + (n - a)) mod n"
    using a by (simp add: cdist_def)
  also have "\<dots> = (a + j + (n - a)) mod n" by (rule mod_add_left_eq)
  also have "\<dots> = j" using a j by simp
  finally show ?thesis .
qed

lemma dist_inj: "a < n \<Longrightarrow> b < n \<Longrightarrow> c < n \<Longrightarrow> cdist n a b = cdist n a c \<longleftrightarrow> b = c"
  using walk_dist [of a b] walk_dist [of a c] by metis

lemma dist_eq_0: "a < n \<Longrightarrow> b < n \<Longrightarrow> cdist n a b = 0 \<longleftrightarrow> a = b"
  using walk_dist [of a b] by auto

lemma dist_Suc:
  assumes "a < n" "b < n" "a \<noteq> b"
  shows "cdist n ((a + 1) mod n) b + 1 = cdist n a b"
proof -
  let ?d = "cdist n a b"
  have d: "0 < ?d" "?d < n" using assms dist_eq_0 by auto
  have "b = ((a + 1) mod n + (?d - 1)) mod n"
    using walk_dist [OF assms(1,2)] d mod_add_left_eq [of "a + 1" n "?d - 1"] by simp
  moreover have "?d - 1 < n" using d by linarith
  moreover have "(a + 1) mod n < n" using n_pos by simp
  ultimately have "cdist n ((a + 1) mod n) b = ?d - 1"
    using dist_walk [of "(a + 1) mod n" "?d - 1"] by simp
  then show ?thesis using d by simp
qed

lemma dist_snoc:
  assumes "a < n" "b < n" "(b + 1) mod n \<noteq> a"
  shows "cdist n a ((b + 1) mod n) = cdist n a b + 1"
proof -
  have "cdist n a b + 1 \<noteq> n"
    using assms walk_dist [of a b] by (metis add.assoc mod_add_left_eq mod_add_self2 mod_less)
  then have "cdist n a b + 1 < n" using dist_less [of a b] by linarith
  moreover have "(b + 1) mod n = (a + (cdist n a b + 1)) mod n"
    using walk_dist [OF assms(1,2)] by (metis add.assoc mod_add_left_eq)
  ultimately show ?thesis using dist_walk [OF assms(1), of "cdist n a b + 1"] by simp
qed

lemma dist_trans:
  assumes "a < n" "b < n" "c < n" "cdist n a b \<le> cdist n a c"
  shows "cdist n a c = cdist n a b + cdist n b c"
proof -
  have "c = (a + cdist n a c) mod n" "b = (a + cdist n a b) mod n"
    using walk_dist assms by simp_all
  then have "(b + (cdist n a c - cdist n a b)) mod n = c"
    using assms(4) by (metis add.assoc le_add_diff_inverse mod_add_left_eq)
  moreover have "cdist n a c - cdist n a b < n" using dist_less [of a c] by linarith
  ultimately have "cdist n b c = cdist n a c - cdist n a b" using dist_walk [OF assms(2)] by metis
  then show ?thesis using assms(4) by simp
qed

lemma mod_n_less [simp]: "m mod n < n"
  using n_pos by simp

lemma filled_nth:
  assumes a: "a < n"
  shows "filled n T a b \<longleftrightarrow> (\<forall>c < n. cdist n a c < cdist n a b \<longrightarrow> T c \<noteq> None)"
proof
  assume f: "filled n T a b"
  show "\<forall>c < n. cdist n a c < cdist n a b \<longrightarrow> T c \<noteq> None"
  proof (intro allI impI)
    fix c assume "c < n" "cdist n a c < cdist n a b"
    then show "T c \<noteq> None" using f walk_dist [OF a, of c] unfolding filled_def by metis
  qed
next
  assume g: "\<forall>c < n. cdist n a c < cdist n a b \<longrightarrow> T c \<noteq> None"
  show "filled n T a b" unfolding filled_def
  proof (intro allI impI)
    fix j assume j: "j < cdist n a b"
    then have "j < n" using dist_less [of a b] by linarith
    then show "T ((a + j) mod n) \<noteq> None" using g j dist_walk [OF a, of j] by simp
  qed
qed

lemma filled_mono:
  "a < n \<Longrightarrow> filled n T a b \<Longrightarrow> (\<And>c. c < n \<Longrightarrow> T c \<noteq> None \<Longrightarrow> T' c \<noteq> None) \<Longrightarrow> filled n T' a b"
  by (simp add: filled_nth)

text \<open>
  A search that starts at the home slot and stops at the first empty slot or at the key finds
  the key exactly when the table holds it.
\<close>

lemma probe_found:
  assumes "probe_wf n h T" "i < n" "T i = Some (k, v)"
  shows "table_map n T k = Some v"
  using assms by (auto simp: probe_wf_def table_map_Some)

lemma probe_absent:
  assumes wf: "probe_wf n h T" and p: "p < n" "T p = None"
    and path: "\<And>c. c < n \<Longrightarrow> cdist n (h k) c < cdist n (h k) p \<Longrightarrow> \<forall>v. T c \<noteq> Some (k, v)"
  shows "table_map n T k = None"
proof -
  have "T i \<noteq> Some (k, v)" if i: "i < n" for i v
  proof
    assume Ti: "T i = Some (k, v)"
    then have "filled n T (h k) i" using wf i unfolding probe_wf_def by blast
    then have "\<not> cdist n (h k) p < cdist n (h k) i"
      using p unfolding filled_nth [OF h_less] by blast
    moreover have "\<not> cdist n (h k) i < cdist n (h k) p" using path [OF i] Ti by blast
    ultimately have "cdist n (h k) i = cdist n (h k) p" by linarith
    then have "i = p" using walk_dist [OF h_less i, of k] walk_dist [OF h_less p(1), of k] by metis
    with p Ti show False by simp
  qed
  then show ?thesis by (simp add: table_map_None)
qed

lemma table_map_upd:
  assumes "keys_distinct n T" "keys_distinct n (T(p := Some (k, v)))" "p < n"
    and "\<And>e. T p = Some e \<Longrightarrow> fst e = k"
    and "\<And>i w. i < n \<Longrightarrow> i \<noteq> p \<Longrightarrow> T i \<noteq> Some (k, w)"
  shows "table_map n (T(p := Some (k, v))) = (table_map n T)(k \<mapsto> v)"
proof
  fix x
  let ?T = "T(p := Some (k, v))"
  have "table_map n ?T x = Some w \<longleftrightarrow> ((table_map n T)(k \<mapsto> v)) x = Some w" for w
  proof (cases "x = k")
    case True
    have "table_map n ?T k = Some v" using assms(2,3) by (auto simp: table_map_Some)
    with True show ?thesis by simp
  next
    case False
    have "?T i = Some (x, w) \<longleftrightarrow> T i = Some (x, w)" for i
      using False assms(4) [of "(x, w)"] by auto
    then show ?thesis using False assms(1,2) by (simp add: table_map_Some)
  qed
  then show "table_map n ?T x = ((table_map n T)(k \<mapsto> v)) x" by (metis option.exhaust)
qed

lemma probe_insert:
  assumes wf: "probe_wf n h T" and p: "p < n" "T p = None" and path: "filled n T (h k) p"
    and absent: "table_map n T k = None"
  shows "probe_wf n h (T(p := Some (k, v)))" "table_map n (T(p := Some (k, v))) = (table_map n T)(k \<mapsto> v)"
proof -
  let ?T = "T(p := Some (k, v))"
  have no: "T i \<noteq> Some (k, w)" if "i < n" for i w using absent that by (simp add: table_map_None)
  have kd: "keys_distinct n T" using wf by (simp add: probe_wf_def)
  then have kd': "keys_distinct n ?T" using no by (auto simp: keys_distinct_def)
  have "filled n ?T (h k') i" if "i < n" "?T i = Some (k', w)" for i k' w
  proof -
    have "filled n T (h k') i"
      using that wf path by (auto simp: probe_wf_def split: if_splits)
    then show ?thesis by (rule filled_mono [OF h_less]) simp
  qed
  with kd' show "probe_wf n h ?T" by (simp add: probe_wf_def)
  show "table_map n ?T = (table_map n T)(k \<mapsto> v)"
    using kd kd' p no by (intro table_map_upd) auto
qed

lemma probe_update:
  assumes wf: "probe_wf n h T" and p: "p < n" "T p = Some (k, u)"
  shows "probe_wf n h (T(p := Some (k, v)))" "table_map n (T(p := Some (k, v))) = (table_map n T)(k \<mapsto> v)"
proof -
  let ?T = "T(p := Some (k, v))"
  have kd: "keys_distinct n T" using wf by (simp add: probe_wf_def)
  have kd': "keys_distinct n ?T" unfolding keys_distinct_def
  proof (intro allI impI)
    fix i j x y z
    assume ij: "i < n" "j < n" and "?T i = Some (x, y)" "?T j = Some (x, z)"
    then have "\<exists>y. T i = Some (x, y)" "\<exists>z. T j = Some (x, z)"
      using p by (auto split: if_splits)
    with kd ij show "i = j" unfolding keys_distinct_def by blast
  qed
  have "filled n ?T (h k') i" if "i < n" "?T i = Some (k', w)" for i k' w
  proof -
    have "filled n T (h k') i"
      using that wf p by (auto simp: probe_wf_def split: if_splits)
    then show ?thesis by (rule filled_mono [OF h_less]) simp
  qed
  with kd' show "probe_wf n h ?T" by (simp add: probe_wf_def)
  show "table_map n ?T = (table_map n T)(k \<mapsto> v)"
  proof (intro table_map_upd)
    show "T i \<noteq> Some (k, w)" if "i < n" "i \<noteq> p" for i w
      using that p kd unfolding keys_distinct_def by blast
  qed (use kd kd' p in auto)
qed

subsection \<open>Deletion\<close>

lemma dist_cases: "a < n \<Longrightarrow> b < n \<Longrightarrow> cdist n a b = (if a \<le> b then b - a else b + n - a)"
proof -
  assume "a < n" "b < n"
  moreover have "a \<le> b \<Longrightarrow> b + n - a = b - a + n" by simp
  ultimately show ?thesis by (auto simp: cdist_def simp del: add_diff_assoc2 diff_add_assoc2)
qed

lemma dist_add:
  assumes "a < n" "b < n" "c < n" "cdist n a b + cdist n b c < n"
  shows "cdist n a c = cdist n a b + cdist n b c"
proof -
  have "c = (a + (cdist n a b + cdist n b c)) mod n"
    using walk_dist [OF assms(1,2)] walk_dist [OF assms(2,3)] by (metis add.assoc mod_add_left_eq)
  then show ?thesis using dist_walk [OF assms(1,4)] by simp
qed

text \<open>The comparison the code makes on slot numbers says that the hole lies on the entry's path.\<close>

lemma movable_iff:
  assumes "p < n" "q < n" "p \<noteq> q" "s < n"
  shows "(if p \<le> q then s \<le> p \<or> q < s else s \<le> p \<and> q < s) \<longleftrightarrow> cdist n s p < cdist n s q"
  using assms by (auto simp: dist_cases)

lemma hole_start:
  assumes "probe_wf n h T" "p < n" "T p = Some (k, v)"
  shows "hole_wf n h T p" "table_map n (T(p := None)) = (table_map n T)(k := None)"
proof -
  have kd: "keys_distinct n T" using assms(1) by (simp add: probe_wf_def)
  then have kd': "keys_distinct n (T(p := None))"
    unfolding keys_distinct_def by (metis fun_upd_apply option.distinct(1))
  with assms show "hole_wf n h T p" by (auto simp: hole_wf_def probe_wf_def)
  have pk: "i = p" if "i < n" "T i = Some (k, w)" for i w
    using kd that assms(2,3) unfolding keys_distinct_def by blast
  show "table_map n (T(p := None)) = (table_map n T)(k := None)"
  proof
    fix x
    have "table_map n (T(p := None)) x = Some w \<longleftrightarrow> ((table_map n T)(k := None)) x = Some w" for w
    proof (cases "x = k")
      case True
      have "(T(p := None)) i \<noteq> Some (k, w)" if "i < n" for i
        using pk [OF that] by auto
      with True show ?thesis by (simp add: table_map_Some [OF kd'])
    next
      case False
      have "(T(p := None)) i = Some (x, w) \<longleftrightarrow> T i = Some (x, w)" for i
        using False assms(3) by auto
      with False show ?thesis by (simp add: table_map_Some [OF kd'] table_map_Some [OF kd])
    qed
    then show "table_map n (T(p := None)) x = ((table_map n T)(k := None)) x"
      by (metis option.exhaust)
  qed
qed

lemma settled_start: "p < n \<Longrightarrow> 1 < n \<Longrightarrow> settled n h T p ((p + 1) mod n)"
  using dist_walk [of p 1] by (simp add: settled_def)

lemma settled_step:
  assumes "settled n h T p q" "p < n" "q < n" "T q = Some (k, v)"
    "\<not> cdist n (h k) p < cdist n (h k) q" "(q + 1) mod n \<noteq> p"
  shows "settled n h T p ((q + 1) mod n)"
  unfolding settled_def
proof (intro allI impI)
  fix c assume c: "c < n" "0 < cdist n p c" "cdist n p c < cdist n p ((q + 1) mod n)"
  then have "cdist n p c \<le> cdist n p q" using dist_snoc [OF assms(2,3,6)] by simp
  then consider "cdist n p c < cdist n p q" | "c = q"
    using walk_dist [OF assms(2) c(1)] walk_dist [OF assms(2,3)] by fastforce
  then show "\<exists>k v. T c = Some (k, v) \<and> \<not> cdist n (h k) p < cdist n (h k) c"
    using assms(1,4,5) c by cases (auto simp: settled_def)
qed

lemma hole_close:
  assumes hole: "hole_wf n h T p" and q: "q < n" "T q = None" and st: "settled n h T p q"
  shows "probe_wf n h (T(p := None))"
proof -
  have p: "p < n" using hole by (simp add: hole_wf_def)
  have "filled n (T(p := None)) (h k) i" if i: "i < n" "i \<noteq> p" "T i = Some (k, v)" for i k v
  proof -
    have f: "\<And>c. c < n \<Longrightarrow> cdist n (h k) c < cdist n (h k) i \<Longrightarrow> T c \<noteq> None"
      using hole i unfolding hole_wf_def filled_nth [OF h_less, symmetric] by (meson filled_nth h_less)
    have "\<not> cdist n (h k) p < cdist n (h k) i"
    proof
      assume lt: "cdist n (h k) p < cdist n (h k) i"
      then have split: "cdist n (h k) i = cdist n (h k) p + cdist n p i"
        using dist_trans [OF h_less p i(1)] by simp
      have pi: "0 < cdist n p i" using dist_eq_0 [OF p i(1)] i(2) by simp
      show False
      proof (cases "cdist n p i < cdist n p q")
        case True
        with st i pi lt show False by (auto simp: settled_def)
      next
        case False
        have "cdist n p q \<noteq> cdist n p i"
          using walk_dist [OF p i(1)] walk_dist [OF p q(1)] i(3) q(2) by auto
        with False have "cdist n (h k) p + cdist n p q < cdist n (h k) i" using split by simp
        then have "cdist n (h k) q < cdist n (h k) i"
          using dist_add [OF h_less p q(1), of k] dist_less [of "h k" i] by simp
        with f q show False by blast
      qed
    qed
    with f show ?thesis unfolding filled_nth [OF h_less] by auto
  qed
  then show ?thesis using hole by (auto simp: probe_wf_def hole_wf_def split: if_splits)
qed

lemma hole_move:
  assumes hole: "hole_wf n h T p" and q: "q < n" "q \<noteq> p" "T q = Some (k, v)"
    and mv: "cdist n (h k) p < cdist n (h k) q"
  shows "hole_wf n h (T(p := Some (k, v))) q"
    "table_map n (T(p := Some (k, v), q := None)) = table_map n (T(p := None))"
proof -
  let ?T = "T(p := Some (k, v))" and ?sw = "\<lambda>i. if i = p then q else i"
  have p: "p < n" and kd: "keys_distinct n (T(p := None))"
    and f: "\<And>i k v. i < n \<Longrightarrow> i \<noteq> p \<Longrightarrow> T i = Some (k, v) \<Longrightarrow> filled n T (h k) i"
    using hole by (auto simp: hole_wf_def)
  have sw: "(?T(q := None)) i = (if i = q then None else (T(p := None)) (?sw i))" for i
    using q by auto
  have kd': "keys_distinct n (?T(q := None))" unfolding keys_distinct_def
  proof (intro allI impI)
    fix i j x y z
    assume ij: "i < n" "j < n"
      and e: "(?T(q := None)) i = Some (x, y)" "(?T(q := None)) j = Some (x, z)"
    then have iq: "i \<noteq> q" "j \<noteq> q" by auto
    have "?sw i < n" "?sw j < n" using ij q(1) by auto
    moreover have "(T(p := None)) (?sw i) = Some (x, y)" "(T(p := None)) (?sw j) = Some (x, z)"
      using e iq unfolding sw by auto
    ultimately have "?sw i = ?sw j" using kd unfolding keys_distinct_def by blast
    with iq show "i = j" by (auto split: if_splits)
  qed
  have "filled n ?T (h x) i" if i: "i < n" "i \<noteq> q" "?T i = Some (x, y)" for i x y
  proof (cases "i = p")
    case True
    have "filled n T (h k) q" using f q by blast
    then have "filled n T (h k) p" using mv p unfolding filled_nth [OF h_less] by force
    with True i show ?thesis by (auto intro: filled_mono [OF h_less])
  next
    case False
    with i f have "filled n T (h x) i" by auto
    then show ?thesis by (rule filled_mono [OF h_less]) simp
  qed
  with kd' q show "hole_wf n h ?T q" by (simp add: hole_wf_def)
  show "table_map n (?T(q := None)) = table_map n (T(p := None))"
  proof
    fix x
    have "(\<exists>i < n. (?T(q := None)) i = Some (x, w)) \<longleftrightarrow> (\<exists>i < n. (T(p := None)) i = Some (x, w))" for w
    proof
      assume "\<exists>i < n. (?T(q := None)) i = Some (x, w)"
      then obtain i where "i < n" "(?T(q := None)) i = Some (x, w)" by blast
      then show "\<exists>i < n. (T(p := None)) i = Some (x, w)"
        using q(1) unfolding sw by (intro exI [of _ "?sw i"]) (auto split: if_splits)
    next
      assume "\<exists>i < n. (T(p := None)) i = Some (x, w)"
      then obtain i where i: "i < n" "(T(p := None)) i = Some (x, w)" by blast
      show "\<exists>i < n. (?T(q := None)) i = Some (x, w)"
      proof (cases "i = q")
        case True
        then show ?thesis using p q i by (intro exI [of _ p]) auto
      next
        case False
        then show ?thesis using i by (intro exI [of _ i]) (auto split: if_splits)
      qed
    qed
    then have "table_map n (?T(q := None)) x = Some w \<longleftrightarrow> table_map n (T(p := None)) x = Some w" for w
      unfolding table_map_Some [OF kd] table_map_Some [OF kd'] .
    then show "table_map n (?T(q := None)) x = table_map n (T(p := None)) x"
      by (metis option.exhaust)
  qed
qed

end

end
