(* ===== verification/Outcome.thy ===== *)
theory Outcome
  imports Main
begin

section \<open>Outcomes of operations\<close>

text \<open>
  An operation that may loop forever, block forever or panic returns an option of an outcome:
  \<open>None\<close> when it never returns, \<open>Some Panic\<close> for a run-time panic, \<open>Some (Ret x)\<close> for a normal
  return.
\<close>

datatype 'a outcome = Panic | Ret 'a

type_synonym 'a res = "'a outcome option"

definition bind_res :: "'a res \<Rightarrow> ('a \<Rightarrow> 'b res) \<Rightarrow> 'b res" where
  "bind_res x f = (case x of None \<Rightarrow> None | Some Panic \<Rightarrow> Some Panic | Some (Ret a) \<Rightarrow> f a)"

lemma bind_res_simps [simp]:
  "bind_res None f = None" "bind_res (Some Panic) f = Some Panic" "bind_res (Some (Ret a)) f = f a"
  by (simp_all add: bind_res_def)

end
