(* ===== verification/Map_Spec.thy ===== *)
theory Map_Spec
  imports Outcome
begin

section \<open>The contract of a finite map\<close>

text \<open>
  What a client of a map may rely on, independent of its representation. An operation returns an
  option of an outcome: \<open>None\<close> when it never ends, \<open>Some Panic\<close> when it panics. \<open>room m n\<close> bounds
  the insertions still possible and \<open>deletable m k\<close> is the side condition of a deletion.
\<close>

datatype ('k, 'v) map_op = OpGet 'k | OpPut 'k 'v | OpDel 'k

text \<open>The answers of a sequence of operations: the result of each \<open>OpGet\<close>, in order.\<close>

fun answers :: "('k, 'v) map_op list \<Rightarrow> ('k \<Rightarrow> 'v option) \<Rightarrow> 'v option list" where
  "answers [] M = []"
| "answers (OpGet k # ops) M = M k # answers ops M"
| "answers (OpPut k v # ops) M = answers ops (M(k \<mapsto> v))"
| "answers (OpDel k # ops) M = answers ops (M(k := None))"

fun final_map :: "('k, 'v) map_op list \<Rightarrow> ('k \<Rightarrow> 'v option) \<Rightarrow> 'k \<Rightarrow> 'v option" where
  "final_map [] M = M"
| "final_map (OpGet k # ops) M = final_map ops M"
| "final_map (OpPut k v # ops) M = final_map ops (M(k \<mapsto> v))"
| "final_map (OpDel k # ops) M = final_map ops (M(k := None))"

fun ops_safe :: "(('k \<Rightarrow> 'v option) \<Rightarrow> 'k \<Rightarrow> bool) \<Rightarrow> ('k, 'v) map_op list \<Rightarrow> ('k \<Rightarrow> 'v option) \<Rightarrow> bool" where
  "ops_safe safe [] M \<longleftrightarrow> True"
| "ops_safe safe (OpGet k # ops) M \<longleftrightarrow> ops_safe safe ops M"
| "ops_safe safe (OpPut k v # ops) M \<longleftrightarrow> ops_safe safe ops (M(k \<mapsto> v))"
| "ops_safe safe (OpDel k # ops) M \<longleftrightarrow> safe M k \<and> ops_safe safe ops (M(k := None))"

text \<open>The same sequence run by an implementation.\<close>

fun run_ops :: "('m \<Rightarrow> 'k \<Rightarrow> ('v \<times> bool) res) \<Rightarrow> ('m \<Rightarrow> 'k \<Rightarrow> 'v \<Rightarrow> 'm res) \<Rightarrow> ('m \<Rightarrow> 'k \<Rightarrow> 'm res)
    \<Rightarrow> ('k, 'v) map_op list \<Rightarrow> 'm \<Rightarrow> ('v option list \<times> 'm) res" where
  "run_ops get put del [] m = Some (Ret ([], m))"
| "run_ops get put del (OpGet k # ops) m = bind_res (get m k) (\<lambda>(v, ok).
     bind_res (run_ops get put del ops m) (\<lambda>(as, m'). Some (Ret ((if ok then Some v else None) # as, m'))))"
| "run_ops get put del (OpPut k v # ops) m = bind_res (put m k v) (run_ops get put del ops)"
| "run_ops get put del (OpDel k # ops) m = bind_res (del m k) (run_ops get put del ops)"

locale map_adt =
  fixes inv :: "'m \<Rightarrow> bool"
    and lookup :: "'m \<Rightarrow> 'k \<Rightarrow> 'v option"
    and safe :: "('k \<Rightarrow> 'v option) \<Rightarrow> 'k \<Rightarrow> bool"
    and space :: "'m \<Rightarrow> nat \<Rightarrow> bool"
    and get :: "'m \<Rightarrow> 'k \<Rightarrow> ('v \<times> bool) res"
    and put :: "'m \<Rightarrow> 'k \<Rightarrow> 'v \<Rightarrow> 'm res"
    and del :: "'m \<Rightarrow> 'k \<Rightarrow> 'm res"
  assumes get_found: "inv m \<Longrightarrow> lookup m k = Some v \<Longrightarrow> get m k = Some (Ret (v, True))"
    and get_missing: "inv m \<Longrightarrow> lookup m k = None \<Longrightarrow> \<exists>v. get m k = Some (Ret (v, False))"
    and put_law: "inv m \<Longrightarrow> space m (Suc n) \<Longrightarrow>
      \<exists>m'. put m k v = Some (Ret m') \<and> inv m' \<and> lookup m' = (lookup m)(k \<mapsto> v) \<and> space m' n"
    and del_law: "inv m \<Longrightarrow> space m n \<Longrightarrow> safe (lookup m) k \<Longrightarrow>
      \<exists>m'. del m k = Some (Ret m') \<and> inv m' \<and> lookup m' = (lookup m)(k := None) \<and> space m' n"
    and space_le: "space m (Suc n) \<Longrightarrow> space m n"
begin

lemma get_law:
  assumes "inv m"
  obtains v where "get m k = Some (Ret (v, lookup m k \<noteq> None))" "lookup m k \<noteq> None \<longrightarrow> lookup m k = Some v"
  using get_found [OF assms, of k] get_missing [OF assms, of k] by (cases "lookup m k") auto

text \<open>Every sequence of operations ends without a panic and answers as the mathematical map does.\<close>

lemma run_refines:
  "inv m \<Longrightarrow> space m (length ops) \<Longrightarrow> ops_safe safe ops (lookup m) \<Longrightarrow>
   \<exists>m'. run_ops get put del ops m = Some (Ret (answers ops (lookup m), m')) \<and> inv m'
     \<and> lookup m' = final_map ops (lookup m)"
proof (induction ops arbitrary: m)
  case Nil
  then show ?case by simp
next
  case (Cons op ops)
  show ?case
  proof (cases op)
    case (OpGet k)
    obtain v where v: "get m k = Some (Ret (v, lookup m k \<noteq> None))" "lookup m k \<noteq> None \<longrightarrow> lookup m k = Some v"
      using get_law [OF Cons.prems(1), of k] .
    have "space m (length ops)" using Cons.prems(2) space_le by simp
    then obtain m' where m': "run_ops get put del ops m = Some (Ret (answers ops (lookup m), m'))" "inv m'"
        "lookup m' = final_map ops (lookup m)"
      using Cons OpGet by auto
    show ?thesis using v m' OpGet by (cases "lookup m k") auto
  next
    case (OpPut k v)
    obtain m1 where "put m k v = Some (Ret m1)" "inv m1" "lookup m1 = (lookup m)(k \<mapsto> v)" "space m1 (length ops)"
      using put_law [OF Cons.prems(1), of "length ops" k v] Cons.prems(2) by auto
    then show ?thesis using Cons.IH [of m1] Cons.prems(3) OpPut by (simp del: fun_upd_apply)
  next
    case (OpDel k)
    have "space m (length ops)" using Cons.prems(2) space_le by simp
    then obtain m1 where "del m k = Some (Ret m1)" "inv m1" "lookup m1 = (lookup m)(k := None)" "space m1 (length ops)"
      using del_law [OF Cons.prems(1), of "length ops" k] Cons.prems(3) OpDel by auto
    then show ?thesis using Cons.IH [of m1] Cons.prems(3) OpDel by (simp del: fun_upd_apply)
  qed
qed

lemma get_after_put:
  assumes "inv m" "space m 1"
  obtains m' where "put m k v = Some (Ret m')" "get m' k = Some (Ret (v, True))"
proof -
  obtain m' where "put m k v = Some (Ret m')" "inv m'" "lookup m' = (lookup m)(k \<mapsto> v)"
    using put_law [OF assms(1), of 0 k v] assms(2) by auto
  then show ?thesis using that get_found [of m' k v] by auto
qed

end

end
