(* ===== verification/Map_Int64.thy ===== *)
theory Map_Int64
  imports Go_Prelude Linear_Probing Map_Spec "HOL-Library.Log_Nat"
begin

section \<open>Package hashmap: MapInt64\<close>

text \<open>
  \<^verbatim>\<open>hashmap/mapint64.go\<close>: an open-addressing map from int64 to int64. Keys and values are
  interleaved in \<open>data\<close>; key 0 marks a free slot and has its own fields. An int64 is a
  \<open>64 word\<close>, compared and indexed as a signed number. An operation returns an option: \<open>None\<close> is
  a loop that never ends, \<open>Some Panic\<close> a run-time panic (an index out of range, or an explicit
  one), \<open>Some (Ret x)\<close> a normal return. The mutex is not modelled: every exported operation
  runs under it, so operations are atomic steps.
\<close>

unbundle bit_operations_syntax

type_synonym int64 = "64 word"

definition FREE_KEY :: int64 where "FREE_KEY = 0"

definition phiMix :: "int64 \<Rightarrow> int64" where
  "phiMix x = (let h = x * 0x9E3779B9 in h XOR signed_drop_bit 16 h)"

record MapInt64 =
  data :: "int64 list"
  fillFactor :: rat
  threshold :: int
  msize :: int
  mmask :: int64
  mmask2 :: int64
  hasFreeKey :: bool
  freeVal :: int64

definition nextPowerOf2 :: "32 word \<Rightarrow> 32 word" where
  "nextPowerOf2 x0 =
     (if x0 = -1 then x0
      else if x0 = 0 then 1
      else let x = x0 - 1;
               x = x OR drop_bit 1 x;
               x = x OR drop_bit 2 x;
               x = x OR drop_bit 4 x;
               x = x OR drop_bit 8 x;
               x = x OR drop_bit 16 x
           in x + 1)"

subsection \<open>Float arithmetic\<close>

text \<open>
  The fill factor is a float64 between 0 and 1, an exact rational. \<open>float_div\<close> is IEEE-754
  division of positive numbers in the normal range: the quotient rounded to 53 significant bits,
  ties to even. The product of the fill factor and a power of two is exact.
\<close>

definition round_half_even :: "rat \<Rightarrow> int" where
  "round_half_even q =
     (let f = \<lfloor>q\<rfloor>; d = q - of_int f
      in if d < 1 / 2 then f else if d > 1 / 2 then f + 1 else if even f then f else f + 1)"

definition two_powr :: "int \<Rightarrow> rat" where
  "two_powr e = (if 0 \<le> e then 2 ^ nat e else 1 / 2 ^ nat (- e))"

definition exponent_of :: "rat \<Rightarrow> int" where
  "exponent_of q =
     (let k = bitlen (fst (quotient_of q)) - bitlen (snd (quotient_of q))
      in if two_powr k \<le> q then k else k - 1)"

definition float_div :: "rat \<Rightarrow> rat \<Rightarrow> rat" where
  "float_div a b =
     (let q = a / b; ulp = two_powr (exponent_of q - 52)
      in of_int (round_half_even (q / ulp)) * ulp)"

definition arraySize :: "int \<Rightarrow> rat \<Rightarrow> int" where
  "arraySize ex fill =
     (let s = nextPowerOf2 (of_int \<lceil>float_div (of_int ex) fill\<rceil>)
      in if s < 2 then 2 else uint s)"

definition NewMapInt64 :: "int \<Rightarrow> rat \<Rightarrow> MapInt64 res" where
  "NewMapInt64 sz fill =
     (if fill \<le> 0 \<or> 1 \<le> fill then Some Panic
      else if sz \<le> 0 then Some Panic
      else let capacity = arraySize sz fill
           in Some (Ret \<lparr>data = replicate (nat (2 * capacity)) 0, fillFactor = fill,
                threshold = \<lfloor>of_int capacity * fill\<rfloor>, msize = 0,
                mmask = of_int (capacity - 1), mmask2 = of_int (2 * capacity - 1),
                hasFreeKey = False, freeVal = 0\<rparr>))"

subsection \<open>Indexing and probing\<close>

definition idx :: "int64 list \<Rightarrow> int64 \<Rightarrow> int64 res" where
  "idx d p = (if 0 \<le> sint p \<and> sint p < int (length d) then Some (Ret (d ! nat (sint p)))
              else Some Panic)"

definition upd :: "int64 list \<Rightarrow> int64 \<Rightarrow> int64 \<Rightarrow> int64 list res" where
  "upd d p x = (if 0 \<le> sint p \<and> sint p < int (length d) then Some (Ret (d[nat (sint p) := x]))
                else Some Panic)"

definition home :: "int64 \<Rightarrow> int64 \<Rightarrow> int64" where
  "home msk key = push_bit 1 (phiMix key AND msk)"

text \<open>
  The first test and the loop of \<open>get\<close>, \<open>putNoLock\<close> and \<open>Del\<close> make the same tests on one slot
  after another: \<open>probe\<close> is that walk. It returns the slot where it stops and whether the slot
  holds the key.
\<close>

partial_function (option) probe ::
    "int64 list \<Rightarrow> int64 \<Rightarrow> int64 \<Rightarrow> int64 \<Rightarrow> (int64 \<times> bool) res" where
  "probe d mask2 key ptr =
     (case idx d ptr of
        Some (Ret k) \<Rightarrow>
          if k = FREE_KEY then Some (Ret (ptr, False))
          else if k = key then Some (Ret (ptr, True))
          else probe d mask2 key ((ptr + 2) AND mask2)
      | _ \<Rightarrow> Some Panic)"

definition map_get :: "MapInt64 \<Rightarrow> int64 \<Rightarrow> (int64 \<times> bool) res" where
  "map_get m key =
     (if key = FREE_KEY
      then Some (Ret (if hasFreeKey m then (freeVal m, True) else (0, False)))
      else let ptr = home (mmask m) key
           in if sint ptr < 0 \<or> int (length (data m)) \<le> sint ptr then Some (Ret (0, False))
              else bind_res (probe (data m) (mmask2 m) key ptr)
                     (\<lambda>(p, found).
                        if found then bind_res (idx (data m) (p + 1)) (\<lambda>v. Some (Ret (v, True)))
                        else Some (Ret (0, False))))"

subsection \<open>Insertion and rehashing\<close>

text \<open>
  \<open>putNoLock\<close> and \<open>rehash\<close> call each other. \<open>put_with\<close> is the body of the first over the
  rehash it calls, \<open>rehash_with\<close> the body of the second over the insertion it calls; fuel
  bounds the nesting, and an insertion that does not rehash needs none.
\<close>

definition put_with :: "(MapInt64 \<Rightarrow> MapInt64 res) \<Rightarrow> MapInt64 \<Rightarrow> int64 \<Rightarrow> int64 \<Rightarrow> MapInt64 res" where
  "put_with rehash m key val =
     (if key = FREE_KEY
      then Some (Ret (m\<lparr>msize := (if hasFreeKey m then msize m else msize m + 1),
                        hasFreeKey := True, freeVal := val\<rparr>))
      else bind_res (probe (data m) (mmask2 m) key (home (mmask m) key))
        (\<lambda>(p, found).
           if found
           then bind_res (upd (data m) (p + 1) val) (\<lambda>d. Some (Ret (m\<lparr>data := d\<rparr>)))
           else bind_res (upd (data m) p key) (\<lambda>d1.
                bind_res (upd d1 (p + 1) val) (\<lambda>d2.
                  if threshold m \<le> msize m then rehash (m\<lparr>data := d2\<rparr>)
                  else Some (Ret (m\<lparr>data := d2, msize := msize m + 1\<rparr>))))))"

fun pairs :: "int64 list \<Rightarrow> (int64 \<times> int64) list" where
  "pairs (k # v # xs) = (if k = FREE_KEY then pairs xs else (k, v) # pairs xs)"
| "pairs _ = []"

fun put_all :: "(MapInt64 \<Rightarrow> int64 \<Rightarrow> int64 \<Rightarrow> MapInt64 res) \<Rightarrow> (int64 \<times> int64) list \<Rightarrow> MapInt64
    \<Rightarrow> MapInt64 res" where
  "put_all put [] m = Some (Ret m)"
| "put_all put ((k, v) # xs) m = bind_res (put m k v) (put_all put xs)"

definition resized :: "MapInt64 \<Rightarrow> MapInt64" where
  "resized m =
     (let newCapacity = length (data m) * 2
      in m\<lparr>threshold := \<lfloor>of_nat (newCapacity div 2) * fillFactor m\<rfloor>,
           mmask := of_int (int (newCapacity div 2) - 1), mmask2 := of_int (int newCapacity - 1),
           data := replicate newCapacity 0, msize := (if hasFreeKey m then 1 else 0)\<rparr>)"

definition rehash_with :: "(MapInt64 \<Rightarrow> int64 \<Rightarrow> int64 \<Rightarrow> MapInt64 res) \<Rightarrow> MapInt64 \<Rightarrow> MapInt64 res" where
  "rehash_with put m = put_all put (pairs (data m)) (resized m)"

fun putNoLock :: "nat \<Rightarrow> MapInt64 \<Rightarrow> int64 \<Rightarrow> int64 \<Rightarrow> MapInt64 res" where
  "putNoLock 0 m key val = put_with (\<lambda>_. None) m key val"
| "putNoLock (Suc fuel) m key val = put_with (rehash_with (putNoLock fuel)) m key val"

subsection \<open>Deletion\<close>

text \<open>
  The inner loop of \<open>shiftKeys\<close>: from \<open>pos\<close> on, the first slot that is free or whose key may
  move into \<open>last\<close>.
\<close>

partial_function (option) shift_scan ::
    "int64 list \<Rightarrow> int64 \<Rightarrow> int64 \<Rightarrow> int64 \<Rightarrow> int64 \<Rightarrow> (int64 \<times> int64) res" where
  "shift_scan d msk mask2 lst pos =
     (case idx d pos of
        Some (Ret k) \<Rightarrow>
          if k = FREE_KEY then Some (Ret (pos, k))
          else let slot = home msk k in
            if (if sint lst \<le> sint pos then sint slot \<le> sint lst \<or> sint pos < sint slot
                else sint slot \<le> sint lst \<and> sint pos < sint slot)
            then Some (Ret (pos, k))
            else shift_scan d msk mask2 lst ((pos + 2) AND mask2)
      | _ \<Rightarrow> Some Panic)"

partial_function (option) shiftKeys ::
    "int64 list \<Rightarrow> int64 \<Rightarrow> int64 \<Rightarrow> int64 \<Rightarrow> (int64 list \<times> int64) res" where
  "shiftKeys d msk mask2 lst =
     Option.bind (shift_scan d msk mask2 lst ((lst + 2) AND mask2))
       (\<lambda>r. case r of
          Panic \<Rightarrow> Some Panic
        | Ret (pos, k) \<Rightarrow>
            if k = FREE_KEY
            then bind_res (upd d lst FREE_KEY) (\<lambda>d'. Some (Ret (d', lst)))
            else (case bind_res (upd d lst k) (\<lambda>d1. bind_res (idx d1 (pos + 1)) (upd d1 (lst + 1))) of
                    Some (Ret d') \<Rightarrow> shiftKeys d' msk mask2 pos
                  | _ \<Rightarrow> Some Panic))"

definition Del :: "MapInt64 \<Rightarrow> int64 \<Rightarrow> MapInt64 res" where
  "Del m key =
     (if key = FREE_KEY
      then Some (Ret (m\<lparr>hasFreeKey := False, msize := msize m - 1\<rparr>))
      else bind_res (probe (data m) (mmask2 m) key (home (mmask m) key))
        (\<lambda>(p, found).
           if found
           then bind_res (shiftKeys (data m) (mmask m) (mmask2 m) p)
                  (\<lambda>(d, _). Some (Ret (m\<lparr>data := d, msize := msize m - 1\<rparr>)))
           else Some (Ret m)))"

subsection \<open>Iteration\<close>

definition Keys :: "MapInt64 \<Rightarrow> int64 list" where
  "Keys m = (if hasFreeKey m then [FREE_KEY] else []) @ map fst (pairs (data m))"

definition Items :: "MapInt64 \<Rightarrow> (int64 \<times> int64) list" where
  "Items m = (if hasFreeKey m then [(FREE_KEY, freeVal m)] else []) @ pairs (data m)"

text \<open>\<open>CreateKey\<close> draws random keys (the stream \<open>rnd\<close>) until one is not in the map.\<close>

partial_function (option) CreateKey :: "(nat \<Rightarrow> int64) \<Rightarrow> MapInt64 \<Rightarrow> int64 res" where
  "CreateKey rnd m =
     (case map_get m (rnd 0) of
        Some (Ret (_, ok)) \<Rightarrow> if ok then CreateKey (\<lambda>i. rnd (Suc i)) m else Some (Ret (rnd 0))
      | Some Panic \<Rightarrow> Some Panic
      | None \<Rightarrow> None)"

declare probe.simps [code] shift_scan.simps [code] shiftKeys.simps [code] CreateKey.simps [code]

subsection \<open>Pointers\<close>

text \<open>
  In a map of \<open>2 ^ b\<close> slots a pointer is twice a slot number; the masks reduce slot numbers
  modulo the capacity. Capacities are bounded by \<open>2 ^ 60\<close>, so that twice a slot number is
  positive as an int64.
\<close>

definition ptr :: "nat \<Rightarrow> int64" where
  "ptr p = of_nat (2 * p)"

definition hash_slot :: "nat \<Rightarrow> int64 \<Rightarrow> nat" where
  "hash_slot b k = unat (phiMix k) mod 2 ^ b"

lemma unat_ptr: "p < 2 ^ 61 \<Longrightarrow> unat (ptr p) = 2 * p"
  unfolding ptr_def by (subst unat_of_nat) simp

lemma sint_eq_unat: "unat (x :: int64) < 2 ^ 63 \<Longrightarrow> sint x = int (unat x)"
proof -
  assume "unat x < 2 ^ 63"
  then have "uint x < 2 ^ 63" by (metis uint_nat of_nat_less_iff of_nat_numeral of_nat_power)
  then have "signed_take_bit 63 (uint x) = uint x"
    by (intro signed_take_bit_int_eq_self) (simp_all add: order.trans [OF _ uint_nonnegative])
  then have "sint x = uint x" using sint_uint [of x] by simp
  then show ?thesis by (simp only: uint_nat)
qed

lemma sint_ptr: "p < 2 ^ 61 \<Longrightarrow> sint (ptr p) = 2 * int p"
  using sint_eq_unat [of "ptr p"] by (simp add: unat_ptr)

lemma unat_ptr_Suc: "p < 2 ^ 61 \<Longrightarrow> unat (ptr p + 1) = 2 * p + 1"
  using unat_ptr [of p] by (simp add: unat_word_ariths)

lemma sint_ptr_Suc: "p < 2 ^ 61 \<Longrightarrow> sint (ptr p + 1) = 2 * int p + 1"
  using sint_eq_unat [of "ptr p + 1"] by (simp add: unat_ptr_Suc)

lemma exp_bound: "b \<le> 60 \<Longrightarrow> (2::nat) ^ b \<le> 2 ^ 60"
  by (rule power_increasing) simp_all

lemma ptr_in_range: "b \<le> 60 \<Longrightarrow> (p::nat) < 2 ^ b \<Longrightarrow> p < 2 ^ 61"
  using exp_bound [of b] by (simp add: order_less_le_trans)

lemma unat_and_mask: "unat ((x :: int64) AND mask b) = unat x mod 2 ^ b"
proof -
  have "unat (take_bit b x) = take_bit b (unat x)" by (rule unsigned_take_bit_eq)
  then show ?thesis unfolding take_bit_eq_mask [of b x] by (simp add: take_bit_eq_mod)
qed

lemma home_ptr:
  assumes "b \<le> 60"
  shows "home (mask b) k = ptr (hash_slot b k)"
proof -
  have *: "unat (phiMix k AND mask b) = hash_slot b k"
    by (simp add: unat_and_mask hash_slot_def)
  have "phiMix k AND mask b = of_nat (hash_slot b k)"
    using * by (metis of_nat_unat ucast_id)
  then show ?thesis by (simp add: home_def ptr_def push_bit_eq_mult)
qed

lemma next_ptr:
  assumes "b \<le> 60" "p < 2 ^ b"
  shows "(ptr p + 2) AND mask (Suc b) = ptr (Suc p mod 2 ^ b)"
proof -
  have p: "p < 2 ^ 61" using ptr_in_range [OF assms] .
  have "unat (ptr p + 2) = 2 * p + 2" using unat_ptr [OF p] p by (simp add: unat_word_ariths)
  then have "unat ((ptr p + 2) AND mask (Suc b)) = (2 * Suc p) mod (2 * 2 ^ b)"
    by (simp add: unat_and_mask)
  also have "\<dots> = 2 * (Suc p mod 2 ^ b)" by (rule mult_mod_right [symmetric])
  also have "\<dots> = unat (ptr (Suc p mod 2 ^ b))"
    by (rule unat_ptr [symmetric], rule ptr_in_range [OF assms(1)]) simp
  finally show ?thesis by (simp add: word_unat_eq_iff)
qed

lemma hash_slot_less [simp]: "hash_slot b k < 2 ^ b"
  by (simp add: hash_slot_def)

interpretation lp: linear_probe "2 ^ b" "hash_slot b" for b
  by unfold_locales simp_all

subsection \<open>Slots\<close>

definition slot_of :: "int64 list \<Rightarrow> (int64, int64) table" where
  "slot_of d i = (if d ! (2 * i) = FREE_KEY then None else Some (d ! (2 * i), d ! (2 * i + 1)))"

lemma slot_of_None: "slot_of d i = None \<longleftrightarrow> d ! (2 * i) = FREE_KEY"
  by (simp add: slot_of_def)

lemma slot_of_Some:
  "slot_of d i = Some (k, v) \<longleftrightarrow> d ! (2 * i) = k \<and> k \<noteq> FREE_KEY \<and> d ! (2 * i + 1) = v"
  by (auto simp: slot_of_def)

definition sized :: "nat \<Rightarrow> int64 list \<Rightarrow> bool" where
  "sized b d \<longleftrightarrow> b \<le> 60 \<and> length d = 2 * 2 ^ b"

lemma idx_ptr:
  assumes "sized b d" "p < 2 ^ b"
  shows "idx d (ptr p) = Some (Ret (d ! (2 * p)))" "idx d (ptr p + 1) = Some (Ret (d ! (2 * p + 1)))"
    "upd d (ptr p) x = Some (Ret (d[2 * p := x]))" "upd d (ptr p + 1) x = Some (Ret (d[2 * p + 1 := x]))"
proof -
  have p: "p < 2 ^ 61" using assms ptr_in_range by (auto simp: sized_def)
  have len: "2 * int p + 1 < int (length d)" using assms by (simp add: sized_def flip: of_nat_power)
  show "idx d (ptr p) = Some (Ret (d ! (2 * p)))" "idx d (ptr p + 1) = Some (Ret (d ! (2 * p + 1)))"
    "upd d (ptr p) x = Some (Ret (d[2 * p := x]))" "upd d (ptr p + 1) x = Some (Ret (d[2 * p + 1 := x]))"
    using len by (simp_all add: idx_def upd_def sint_ptr [OF p] sint_ptr_Suc [OF p] nat_mult_distrib nat_add_distrib)
qed

lemma slot_of_update:
  assumes "sized b d" "p < 2 ^ b"
  shows "slot_of (d[2 * p := k, 2 * p + 1 := v]) i =
    (if i = p then (if k = FREE_KEY then None else Some (k, v)) else slot_of d i)"
    "slot_of (d[2 * p + 1 := v]) i = (if i = p \<and> d ! (2 * p) \<noteq> FREE_KEY then Some (d ! (2 * p), v)
       else slot_of d i)"
    "slot_of (d[2 * p := FREE_KEY]) i = (if i = p then None else slot_of d i)"
proof -
  have "2 * p + 1 < length d" using assms by (simp add: sized_def)
  moreover have "2 * i \<noteq> Suc (2 * p)" "2 * p \<noteq> Suc (2 * i)" by presburger+
  ultimately show "slot_of (d[2 * p := k, 2 * p + 1 := v]) i =
    (if i = p then (if k = FREE_KEY then None else Some (k, v)) else slot_of d i)"
    "slot_of (d[2 * p + 1 := v]) i = (if i = p \<and> d ! (2 * p) \<noteq> FREE_KEY then Some (d ! (2 * p), v)
       else slot_of d i)"
    "slot_of (d[2 * p := FREE_KEY]) i = (if i = p then None else slot_of d i)"
    by (auto simp: slot_of_def nth_list_update)
qed

lemma sized_update [simp]: "sized b (d[i := x]) = sized b d"
  by (simp add: sized_def)

subsection \<open>The probe walk\<close>

definition scanned :: "nat \<Rightarrow> int64 list \<Rightarrow> int64 \<Rightarrow> nat \<Rightarrow> bool" where
  "scanned b d key p \<longleftrightarrow> (\<forall>c < 2 ^ b. cdist (2 ^ b) (hash_slot b key) c < cdist (2 ^ b) (hash_slot b key) p
     \<longrightarrow> d ! (2 * c) \<noteq> FREE_KEY \<and> d ! (2 * c) \<noteq> key)"

definition probe_stop :: "nat \<Rightarrow> int64 list \<Rightarrow> int64 \<Rightarrow> nat \<Rightarrow> bool" where
  "probe_stop b d key p \<longleftrightarrow> p < 2 ^ b \<and> scanned b d key p \<and> d ! (2 * p) \<in> {FREE_KEY, key}"

lemma scanned_home: "scanned b d key (hash_slot b key)"
  by (simp add: scanned_def)

lemma scanned_next:
  assumes "scanned b d key p" "p < 2 ^ b" "d ! (2 * p) \<noteq> FREE_KEY" "d ! (2 * p) \<noteq> key"
    and e: "e < 2 ^ b" "d ! (2 * e) = FREE_KEY"
  shows "scanned b d key ((p + 1) mod 2 ^ b)"
    "cdist (2 ^ b) ((p + 1) mod 2 ^ b) e < cdist (2 ^ b) p e"
proof -
  let ?h = "hash_slot b key" and ?q = "(p + 1) mod 2 ^ b"
  have pe: "p \<noteq> e" using assms by auto
  show "cdist (2 ^ b) ?q e < cdist (2 ^ b) p e"
    using lp.dist_Suc [OF assms(2) e(1) pe] by simp
  have he: "cdist (2 ^ b) ?h p < cdist (2 ^ b) ?h e"
  proof -
    have "\<not> cdist (2 ^ b) ?h e < cdist (2 ^ b) ?h p" using assms(1) e by (auto simp: scanned_def)
    moreover have "cdist (2 ^ b) ?h e \<noteq> cdist (2 ^ b) ?h p"
      using lp.dist_inj [of ?h b e p] assms(2) e(1) pe by simp
    ultimately show ?thesis by simp
  qed
  have "?q \<noteq> ?h"
  proof
    assume q: "?q = ?h"
    have "cdist (2 ^ b) p e = cdist (2 ^ b) ?h e + 1"
      using lp.dist_Suc [OF assms(2) e(1) pe] unfolding q by simp
    moreover have "cdist (2 ^ b) ?h e = cdist (2 ^ b) ?h p + cdist (2 ^ b) p e"
      using lp.dist_trans [of ?h b p e] assms(2) e(1) he by simp
    ultimately show False by linarith
  qed
  then have snoc: "cdist (2 ^ b) ?h ?q = cdist (2 ^ b) ?h p + 1"
    using lp.dist_snoc [of ?h b p] assms(2) by simp
  show "scanned b d key ?q" unfolding scanned_def
  proof (intro allI impI)
    fix c assume c: "c < 2 ^ b" "cdist (2 ^ b) ?h c < cdist (2 ^ b) ?h ?q"
    then consider "cdist (2 ^ b) ?h c < cdist (2 ^ b) ?h p" | "cdist (2 ^ b) ?h c = cdist (2 ^ b) ?h p"
      using snoc by linarith
    then show "d ! (2 * c) \<noteq> FREE_KEY \<and> d ! (2 * c) \<noteq> key"
    proof cases
      case 1
      then show ?thesis using assms(1) c by (simp add: scanned_def)
    next
      case 2
      then have "c = p" using lp.dist_inj [of ?h b c p] c(1) assms(2) by simp
      then show ?thesis using assms(3,4) by simp
    qed
  qed
qed

lemma probe_from:
  assumes "sized b d" "p < 2 ^ b" "scanned b d key p" "e < 2 ^ b" "d ! (2 * e) = FREE_KEY" "key \<noteq> FREE_KEY"
  shows "\<exists>q. probe d (mask (Suc b)) key (ptr p) = Some (Ret (ptr q, d ! (2 * q) = key)) \<and> probe_stop b d key q"
  using assms(2,3)
proof (induction "cdist (2 ^ b) p e" arbitrary: p rule: less_induct)
  case less
  note i = idx_ptr(1) [OF assms(1) less.prems(1)]
  show ?case
  proof (cases "d ! (2 * p) \<in> {FREE_KEY, key}")
    case True
    then show ?thesis using less.prems assms(6) i
      by (intro exI [of _ p]) (auto simp: probe_stop_def probe.simps)
  next
    case False
    note nx = scanned_next [OF less.prems(2,1) _ _ assms(4,5)]
    have step: "probe d (mask (Suc b)) key (ptr p) = probe d (mask (Suc b)) key (ptr (Suc p mod 2 ^ b))"
      using False i assms(1) less.prems(1)
      by (subst probe.simps) (simp add: next_ptr sized_def)
    show ?thesis unfolding step using less.hyps [OF nx(2)] nx(1) False by simp
  qed
qed

subsection \<open>The map invariant\<close>

definition count_of :: "nat \<Rightarrow> int64 list \<Rightarrow> nat" where
  "count_of b d = length (entries (2 ^ b) (slot_of d))"

definition map_inv :: "nat \<Rightarrow> MapInt64 \<Rightarrow> bool" where
  "map_inv b m \<longleftrightarrow> sized b (data m) \<and> 1 \<le> b \<and> mmask m = mask b \<and> mmask2 m = mask (Suc b)
     \<and> 0 < fillFactor m \<and> fillFactor m < 1 \<and> threshold m = \<lfloor>2 ^ b * fillFactor m\<rfloor>
     \<and> probe_wf (2 ^ b) (hash_slot b) (slot_of (data m))
     \<and> msize m = int (count_of b (data m)) + (if hasFreeKey m then 1 else 0)
     \<and> int (count_of b (data m)) \<le> threshold m"

definition abs_map :: "nat \<Rightarrow> MapInt64 \<Rightarrow> int64 \<Rightarrow> int64 option" where
  "abs_map b m k = (if k = FREE_KEY then (if hasFreeKey m then Some (freeVal m) else None)
     else table_map (2 ^ b) (slot_of (data m)) k)"

lemma entries_full: "(\<And>i. i < n \<Longrightarrow> T i \<noteq> None) \<Longrightarrow> length (entries n T) = n"
  by (auto simp: entries_def List.map_filter_def filter_empty_conv intro!: arg_cong [where f = length])

lemma threshold_less:
  assumes "0 < f" "f < (1::rat)"
  shows "\<lfloor>2 ^ b * f\<rfloor> < 2 ^ b"
proof -
  have "2 ^ b * f < 2 ^ b" using assms by simp
  then show ?thesis by (simp add: floor_less_iff)
qed

lemma map_inv_vacancy:
  assumes "map_inv b m"
  obtains e where "e < 2 ^ b" "data m ! (2 * e) = FREE_KEY"
proof -
  have "int (count_of b (data m)) \<le> \<lfloor>2 ^ b * fillFactor m\<rfloor>" "\<lfloor>2 ^ b * fillFactor m\<rfloor> < 2 ^ b"
    using assms threshold_less [of "fillFactor m" b] by (simp_all add: map_inv_def)
  then have "int (count_of b (data m)) < 2 ^ b" by linarith
  then have "count_of b (data m) \<noteq> 2 ^ b" by (metis nat_less_le of_nat_less_iff of_nat_numeral of_nat_power)
  then have "\<not> (\<forall>e < 2 ^ b. slot_of (data m) e \<noteq> None)"
    using entries_full [of "2 ^ b" "slot_of (data m)"] unfolding count_of_def by blast
  then show ?thesis using that by (auto simp: slot_of_None)
qed

text \<open>
  Where the probe stops at the key it found its entry; where it stops at a free slot the key is
  not in the table and the slot ends its probe path.
\<close>

lemma probe_stop_found:
  assumes "probe_wf (2 ^ b) (hash_slot b) (slot_of d)" "probe_stop b d key q" "d ! (2 * q) = key"
    "key \<noteq> FREE_KEY"
  shows "slot_of d q = Some (key, d ! (2 * q + 1))"
    "table_map (2 ^ b) (slot_of d) key = Some (d ! (2 * q + 1))"
proof -
  show s: "slot_of d q = Some (key, d ! (2 * q + 1))" using assms by (simp add: slot_of_Some)
  show "table_map (2 ^ b) (slot_of d) key = Some (d ! (2 * q + 1))"
    using lp.probe_found [OF assms(1) _ s] assms(2) by (simp add: probe_stop_def)
qed

lemma probe_stop_free:
  assumes "probe_wf (2 ^ b) (hash_slot b) (slot_of d)" "probe_stop b d key q" "d ! (2 * q) \<noteq> key"
  shows "slot_of d q = None" "table_map (2 ^ b) (slot_of d) key = None"
    "filled (2 ^ b) (slot_of d) (hash_slot b key) q"
proof -
  have q: "q < 2 ^ b" "d ! (2 * q) = FREE_KEY" and sc: "scanned b d key q"
    using assms by (auto simp: probe_stop_def)
  show s: "slot_of d q = None" using q by (simp add: slot_of_None)
  show "table_map (2 ^ b) (slot_of d) key = None"
    by (rule lp.probe_absent [OF assms(1) q(1) s]) (use sc in \<open>auto simp: scanned_def slot_of_Some\<close>)
  show "filled (2 ^ b) (slot_of d) (hash_slot b key) q"
    using sc by (auto simp: lp.filled_nth scanned_def slot_of_None)
qed

lemma map_probe:
  assumes "map_inv b m" "key \<noteq> FREE_KEY"
  obtains q where "probe (data m) (mmask2 m) key (home (mmask m) key)
      = Some (Ret (ptr q, data m ! (2 * q) = key))" "probe_stop b (data m) key q"
proof -
  obtain e where "e < 2 ^ b" "data m ! (2 * e) = FREE_KEY" using map_inv_vacancy [OF assms(1)] .
  then show ?thesis
    using probe_from [of b "data m" "hash_slot b key" key e] assms that
    by (auto simp: map_inv_def scanned_home home_ptr sized_def)
qed

lemma map_get_correct:
  assumes "map_inv b m"
  shows "map_get m key = Some (Ret (case abs_map b m key of Some v \<Rightarrow> (v, True) | None \<Rightarrow> (0, False)))"
proof (cases "key = FREE_KEY")
  case True
  then show ?thesis by (simp add: map_get_def abs_map_def)
next
  case False
  obtain q where q: "probe (data m) (mmask2 m) key (home (mmask m) key)
      = Some (Ret (ptr q, data m ! (2 * q) = key))" "probe_stop b (data m) key q"
    using map_probe [OF assms False] .
  have inv: "sized b (data m)" "probe_wf (2 ^ b) (hash_slot b) (slot_of (data m))" "mmask m = mask b"
    using assms by (auto simp: map_inv_def)
  have rng: "\<not> (sint (home (mmask m) key) < 0 \<or> int (length (data m)) \<le> sint (home (mmask m) key))"
    using inv ptr_in_range [of b "hash_slot b key"]
    by (simp add: home_ptr sized_def sint_ptr not_le flip: of_nat_power)
  have qb: "q < 2 ^ b" using q(2) by (simp add: probe_stop_def)
  show ?thesis
    using False rng q(1) probe_stop_found [OF inv(2) q(2)] probe_stop_free [OF inv(2) q(2)]
      idx_ptr(2) [OF inv(1) qb]
    by (cases "data m ! (2 * q) = key") (simp_all add: map_get_def Let_def abs_map_def bind_res_def)
qed

subsection \<open>Insertion\<close>

definition tmap :: "nat \<Rightarrow> MapInt64 \<Rightarrow> int64 \<Rightarrow> int64 option" where
  "tmap b m = table_map (2 ^ b) (slot_of (data m))"

lemma map_inv_distinct: "map_inv b m \<Longrightarrow> keys_distinct (2 ^ b) (slot_of (data m))"
  by (simp add: map_inv_def probe_wf_def)

lemma count_card:
  "keys_distinct (2 ^ b) (slot_of d) \<Longrightarrow> count_of b d = card (dom (table_map (2 ^ b) (slot_of d)))"
  by (simp add: count_of_def length_entries)

lemma finite_tmap [simp]: "finite (dom (tmap b m))"
  by (simp add: tmap_def table_map_def finite_dom_map_of)

lemma abs_map_simps:
  "abs_map b m FREE_KEY = (if hasFreeKey m then Some (freeVal m) else None)"
  "k \<noteq> FREE_KEY \<Longrightarrow> abs_map b m k = tmap b m k"
  by (simp_all add: abs_map_def tmap_def)

lemma tmap_FREE: "tmap b m FREE_KEY = None"
  by (simp add: tmap_def table_map_None slot_of_Some)

text \<open>Writing a key that the table holds: only its value changes.\<close>

lemma put_found:
  fixes val :: int64
  assumes inv: "map_inv b m" and st: "probe_stop b (data m) key q" "data m ! (2 * q) = key"
    and key: "key \<noteq> FREE_KEY"
  defines "d \<equiv> (data m)[2 * q + 1 := val]"
  shows "map_inv b (m\<lparr>data := d\<rparr>)" "tmap b (m\<lparr>data := d\<rparr>) = (tmap b m)(key \<mapsto> val)"
proof -
  let ?T = "slot_of (data m)"
  have wf: "probe_wf (2 ^ b) (hash_slot b) ?T" and sz: "sized b (data m)"
    using inv by (auto simp: map_inv_def)
  have q: "q < 2 ^ b" using st(1) by (simp add: probe_stop_def)
  have s: "?T q = Some (key, data m ! (2 * q + 1))" "table_map (2 ^ b) ?T key = Some (data m ! (2 * q + 1))"
    using probe_stop_found [OF wf st key] .
  have T': "slot_of d = ?T(q := Some (key, val))"
    using slot_of_update(2) [OF sz q] st(2) key by (auto simp: fun_eq_iff d_def)
  note up = lp.probe_update [OF wf q s(1), of val]
  have "keys_distinct (2 ^ b) (slot_of d)" "keys_distinct (2 ^ b) ?T"
    using up(1) wf unfolding T' probe_wf_def by blast+
  moreover have "dom (table_map (2 ^ b) (slot_of d)) = dom (table_map (2 ^ b) ?T)"
    using up(2) s(2) unfolding T' by auto
  ultimately have cnt: "count_of b d = count_of b (data m)" by (simp only: count_card)
  have "sized b d" using sz by (simp add: d_def)
  then show "map_inv b (m\<lparr>data := d\<rparr>)" using inv up(1) by (simp add: map_inv_def T' cnt)
  show "tmap b (m\<lparr>data := d\<rparr>) = (tmap b m)(key \<mapsto> val)" using up(2) by (simp add: tmap_def T')
qed

text \<open>
  Writing a new key into the free slot that ends its path; \<open>map_inv\<close> but for the size and the
  threshold, which the two continuations of the code set.
\<close>

lemma put_free:
  fixes val :: int64
  assumes inv: "map_inv b m" and st: "probe_stop b (data m) key q" "data m ! (2 * q) \<noteq> key"
    and key: "key \<noteq> FREE_KEY"
  defines "d \<equiv> (data m)[2 * q := key, 2 * q + 1 := val]"
  shows "sized b d" "probe_wf (2 ^ b) (hash_slot b) (slot_of d)"
    "table_map (2 ^ b) (slot_of d) = (tmap b m)(key \<mapsto> val)"
    "count_of b d = count_of b (data m) + 1" "tmap b m key = None"
proof -
  let ?T = "slot_of (data m)"
  have wf: "probe_wf (2 ^ b) (hash_slot b) ?T" and sz: "sized b (data m)"
    using inv by (auto simp: map_inv_def)
  have q: "q < 2 ^ b" using st(1) by (simp add: probe_stop_def)
  note fr = probe_stop_free [OF wf st]
  have T': "slot_of d = ?T(q := Some (key, val))"
    using slot_of_update(1) [OF sz q] key by (auto simp: fun_eq_iff d_def)
  note up = lp.probe_insert [OF wf q fr(1,3,2), of val]
  show "sized b d" using sz by (simp add: d_def)
  show wf': "probe_wf (2 ^ b) (hash_slot b) (slot_of d)" using up(1) T' by simp
  show tm: "table_map (2 ^ b) (slot_of d) = (tmap b m)(key \<mapsto> val)" using up(2) T' by (simp add: tmap_def)
  show no: "tmap b m key = None" using fr(2) by (simp add: tmap_def)
  have "card (insert key (dom (tmap b m))) = card (dom (tmap b m)) + 1"
    using no by (simp add: domIff)
  then show "count_of b d = count_of b (data m) + 1"
    using wf wf' tm by (simp add: count_card probe_wf_def tmap_def)
qed

subsection \<open>Rehashing\<close>

lemma pairs_slots: "length d = 2 * n \<Longrightarrow> pairs d = entries n (slot_of d)"
proof (induction n arbitrary: d)
  case 0
  then show ?case by (simp add: entries_def List.map_filter_def)
next
  case (Suc n)
  then obtain k v xs where d: "d = k # v # xs" "length xs = 2 * n"
    by (auto simp: length_Suc_conv)
  have shift: "slot_of d (Suc i) = slot_of xs i" for i by (simp add: slot_of_def d(1))
  have "entries (Suc n) (slot_of d)
      = (case slot_of d 0 of None \<Rightarrow> [] | Some e \<Rightarrow> [e]) @ entries n (slot_of xs)"
    by (auto simp: entries_def List.map_filter_def upt_conv_Cons map_Suc_upt [symmetric] filter_map
        o_def shift simp del: upt_Suc split: option.split)
  moreover have "slot_of d 0 = (if k = FREE_KEY then None else Some (k, v))"
    by (simp add: slot_of_def d(1))
  ultimately show ?case using Suc.IH [OF d(2)] by (simp add: d(1))
qed

lemma map_inv_pairs:
  "sized b (data m) \<Longrightarrow> pairs (data m) = entries (2 ^ b) (slot_of (data m))"
  by (simp add: sized_def pairs_slots)

lemma slot_of_empty: "i < n \<Longrightarrow> slot_of (replicate (2 * n) 0) i = None"
  by (simp add: slot_of_def FREE_KEY_def)

lemma entries_empty: "entries n (slot_of (replicate (2 * n) 0)) = []"
  by (simp add: entries_def List.map_filter_def filter_empty_conv slot_of_empty)

lemma probe_wf_empty: "probe_wf n h (slot_of (replicate (2 * n) 0))"
  by (simp add: probe_wf_def keys_distinct_def slot_of_empty)

lemma mask_int: "of_int (2 ^ b - 1) = (mask b :: int64)"
  by (simp add: mask_eq_exp_minus_1)

lemma resized_inv:
  assumes "sized b (data m)" "1 \<le> b" "0 < fillFactor m" "fillFactor m < 1" "b < 60"
  shows "map_inv (Suc b) (resized m)" "tmap (Suc b) (resized m) = Map.empty"
proof -
  have len: "length (data m) * 2 = 2 * 2 ^ Suc b" using assms by (simp add: sized_def)
  have dat: "data (resized m) = replicate (2 * 2 ^ Suc b) 0"
    using len by (simp add: resized_def)
  have thr: "(0::int) \<le> \<lfloor>2 ^ Suc b * fillFactor m\<rfloor>" using assms by simp
  have cnt: "count_of (Suc b) (data (resized m)) = 0"
    unfolding dat count_of_def using entries_empty [of "2 ^ Suc b"] by simp
  have m1: "of_int (int (length (data m) * 2 div 2) - 1) = (mask (Suc b) :: int64)"
    unfolding len using mask_int [of "Suc b"] by simp
  have m2: "of_int (int (length (data m) * 2) - 1) = (mask (Suc (Suc b)) :: int64)"
    unfolding len using mask_int [of "Suc (Suc b)"] by simp
  have flds: "mmask (resized m) = mask (Suc b)" "mmask2 (resized m) = mask (Suc (Suc b))"
      "threshold (resized m) = \<lfloor>2 ^ Suc b * fillFactor m\<rfloor>" "fillFactor (resized m) = fillFactor m"
      "msize (resized m) = (if hasFreeKey (resized m) then 1 else 0)"
    using m1 m2 len by (simp_all add: resized_def Let_def)
  have "sized (Suc b) (data (resized m))" unfolding dat using assms(5) by (simp add: sized_def)
  then show "map_inv (Suc b) (resized m)"
    unfolding map_inv_def flds cnt unfolding dat
    using probe_wf_empty [of "2 ^ Suc b" "hash_slot (Suc b)"] assms thr by simp
  show "tmap (Suc b) (resized m) = Map.empty"
    unfolding tmap_def dat table_map_def using entries_empty [of "2 ^ Suc b"] by simp
qed

text \<open>
  \<open>put_ok put B N\<close>: an insertion that stays below \<open>N\<close> keys returns, keeps the invariant and
  updates the map; \<open>B\<close> is an exponent at which \<open>N\<close> keys are below the threshold, so that no
  capacity above \<open>2 ^ B\<close> is ever allocated.
\<close>

definition enough :: "rat \<Rightarrow> nat \<Rightarrow> nat \<Rightarrow> bool" where
  "enough f B N \<longleftrightarrow> B \<le> 60 \<and> int N < \<lfloor>2 ^ B * f\<rfloor>"

definition put_result :: "nat \<Rightarrow> nat \<Rightarrow> MapInt64 \<Rightarrow> (int64 \<Rightarrow> int64 option) \<Rightarrow> MapInt64 res \<Rightarrow> bool" where
  "put_result B b m M r \<longleftrightarrow> (\<exists>b' m'. r = Some (Ret m') \<and> b \<le> b' \<and> b' \<le> max b B \<and> map_inv b' m'
     \<and> tmap b' m' = M \<and> hasFreeKey m' = hasFreeKey m \<and> freeVal m' = freeVal m
     \<and> fillFactor m' = fillFactor m)"

lemma put_result_trans:
  "put_result B b1 m1 M r \<Longrightarrow> b \<le> b1 \<Longrightarrow> b1 \<le> max b B \<Longrightarrow> hasFreeKey m1 = hasFreeKey m \<Longrightarrow>
   freeVal m1 = freeVal m \<Longrightarrow> fillFactor m1 = fillFactor m \<Longrightarrow> put_result B b m M r"
  unfolding put_result_def by (elim exE conjE, intro exI conjI, assumption) (auto simp: max_def split: if_splits)

definition put_ok :: "(MapInt64 \<Rightarrow> int64 \<Rightarrow> int64 \<Rightarrow> MapInt64 res) \<Rightarrow> rat \<Rightarrow> nat \<Rightarrow> nat \<Rightarrow> nat \<Rightarrow> bool" where
  "put_ok put f B N lo \<longleftrightarrow> (\<forall>b m key val. lo \<le> b \<longrightarrow> map_inv b m \<longrightarrow> fillFactor m = f \<longrightarrow> key \<noteq> FREE_KEY
     \<longrightarrow> card (insert key (dom (tmap b m))) \<le> N \<longrightarrow>
     put_result B b m ((tmap b m)(key \<mapsto> val)) (put m key val))"

lemma put_all_ok:
  assumes ok: "put_ok put f B N lo"
  shows "lo \<le> b \<Longrightarrow> map_inv b m \<Longrightarrow> fillFactor m = f \<Longrightarrow> distinct (map fst xs) \<Longrightarrow> FREE_KEY \<notin> set (map fst xs)
     \<Longrightarrow> card (dom (tmap b m) \<union> set (map fst xs)) \<le> N \<Longrightarrow>
     put_result B b m (tmap b m ++ map_of xs) (put_all put xs m)"
proof (induction xs arbitrary: b m)
  case Nil
  then show ?case by (auto simp: put_result_def)
next
  case (Cons e xs)
  obtain k v where e: "e = (k, v)" by (cases e)
  have "card (insert k (dom (tmap b m))) \<le> card (dom (tmap b m) \<union> set (map fst (e # xs)))"
    using e by (intro card_mono) auto
  then have "put_result B b m ((tmap b m)(k \<mapsto> v)) (put m k v)"
    using ok Cons.prems e unfolding put_ok_def by auto
  then obtain b1 m1 where p: "put m k v = Some (Ret m1)" "b \<le> b1" "b1 \<le> max b B" "map_inv b1 m1"
      "tmap b1 m1 = (tmap b m)(k \<mapsto> v)" "hasFreeKey m1 = hasFreeKey m" "freeVal m1 = freeVal m"
      "fillFactor m1 = fillFactor m"
    by (auto simp: put_result_def)
  have "dom (tmap b1 m1) \<union> set (map fst xs) = dom (tmap b m) \<union> set (map fst (e # xs))"
    unfolding p(5) e by auto
  then have "card (dom (tmap b1 m1) \<union> set (map fst xs)) \<le> N" using Cons.prems(6) by simp
  then have "put_result B b1 m1 (tmap b1 m1 ++ map_of xs) (put_all put xs m1)"
    using Cons.prems(1-5) p(2,4,8) e by (intro Cons.IH) auto
  moreover have "tmap b1 m1 ++ map_of xs = tmap b m ++ map_of (e # xs)"
    using Cons.prems(4) e p(5) map_add_upd_left [of k "map_of xs" "tmap b m" v]
    by (auto simp: map_add_def fun_eq_iff dom_map_of_conv_image_fst split: option.split)
       (metis fst_conv image_eqI map_of_SomeD)
  ultimately have "put_result B b1 m1 (tmap b m ++ map_of (e # xs)) (put_all put xs m1)" by simp
  then have "put_result B b m (tmap b m ++ map_of (e # xs)) (put_all put xs m1)"
    using put_result_trans [OF _ p(2,3,6,7,8)] by blast
  moreover have "put_all put (e # xs) m = put_all put xs m1" using p(1) e by (simp add: bind_res_def)
  ultimately show ?case by (simp only:)
qed

lemma enough_rehash:
  assumes "enough f B N" "0 < f" "\<lfloor>2 ^ b * f\<rfloor> \<le> int N"
  shows "b < B"
proof (rule ccontr)
  assume "\<not> b < B"
  then have "(2::rat) ^ B * f \<le> 2 ^ b * f" using assms(2) by (simp add: power_increasing)
  then have "\<lfloor>2 ^ B * f\<rfloor> \<le> \<lfloor>2 ^ b * f\<rfloor>" by (rule floor_mono)
  then show False using assms by (simp add: enough_def)
qed

text \<open>The body of \<open>putNoLock\<close> over a rehash whose insertions are \<open>put_ok\<close>.\<close>

lemma put_with_ok:
  assumes inv: "map_inv b m" and key: "key \<noteq> FREE_KEY" and en: "enough (fillFactor m) B N"
    and card: "card (insert key (dom (tmap b m))) \<le> N"
    and re: "b < B \<Longrightarrow> \<exists>put. rehash = rehash_with put \<and> put_ok put (fillFactor m) B N (Suc b)"
  shows "put_result B b m ((tmap b m)(key \<mapsto> val)) (put_with rehash m key val)"
proof -
  obtain q where q: "probe (data m) (mmask2 m) key (home (mmask m) key)
      = Some (Ret (ptr q, data m ! (2 * q) = key))" "probe_stop b (data m) key q"
    using map_probe [OF inv key] .
  have qb: "q < 2 ^ b" using q(2) by (simp add: probe_stop_def)
  have sz: "sized b (data m)" using inv by (simp add: map_inv_def)
  show ?thesis
  proof (cases "data m ! (2 * q) = key")
    case True
    have "put_with rehash m key val = Some (Ret (m\<lparr>data := (data m)[2 * q + 1 := val]\<rparr>))"
      using key q(1) True idx_ptr(4) [OF sz qb] by (simp add: put_with_def bind_res_def)
    with put_found [OF inv q(2) True key, where val = val] show ?thesis
      by (auto simp: put_result_def)
  next
    case False
    define d where "d = (data m)[2 * q := key, 2 * q + 1 := val]"
    note pf = put_free(1-4) [OF inv q(2) False key, where val = val, folded d_def]
      put_free(5) [OF inv q(2) False key]
    have eq: "put_with rehash m key val = (if threshold m \<le> msize m then rehash (m\<lparr>data := d\<rparr>)
        else Some (Ret (m\<lparr>data := d, msize := msize m + 1\<rparr>)))"
      using key q(1) False idx_ptr(3) [OF sz qb] idx_ptr(4) [of b "(data m)[2 * q := key]" q] sz qb
      by (simp add: put_with_def bind_res_def d_def)
    have tm: "table_map (2 ^ b) (slot_of d) = (tmap b m)(key \<mapsto> val)" by (rule pf(3))
    show ?thesis
    proof (cases "threshold m \<le> msize m")
      case False
      have "map_inv b (m\<lparr>data := d, msize := msize m + 1\<rparr>)"
        using inv pf(1,2,4) False by (auto simp: map_inv_def split: if_splits)
      with False eq tm show ?thesis by (auto simp: put_result_def tmap_def)
    next
      case True
      have cnt: "count_of b (data m) = card (dom (tmap b m))"
        using count_card [OF map_inv_distinct [OF inv]] by (simp add: tmap_def)
      have "card (insert key (dom (tmap b m))) = card (dom (tmap b m)) + 1"
        using pf(5) by (simp add: domIff)
      then have "\<lfloor>2 ^ b * fillFactor m\<rfloor> \<le> int N"
        using True inv card cnt by (auto simp: map_inv_def split: if_splits)
      then have b: "b < B" using enough_rehash [OF en] inv by (simp add: map_inv_def)
      then obtain put where put: "rehash = rehash_with put" "put_ok put (fillFactor m) B N (Suc b)"
        using re by blast
      let ?m = "m\<lparr>data := d\<rparr>"
      have rs: "map_inv (Suc b) (resized ?m)" "tmap (Suc b) (resized ?m) = Map.empty"
        using resized_inv [of b ?m] pf(1) inv b en by (auto simp: map_inv_def enough_def)
      have kd: "keys_distinct (2 ^ b) (slot_of d)" using pf(2) by (simp add: probe_wf_def)
      have pr: "pairs d = entries (2 ^ b) (slot_of d)" using map_inv_pairs [of b ?m] pf(1) by simp
      have dm: "set (map fst (pairs d)) = insert key (dom (tmap b m))"
        using tm unfolding pr table_map_def by (metis dom_fun_upd dom_map_of_conv_image_fst option.distinct(1) set_map)
      have "put_result B (Suc b) (resized ?m) (tmap (Suc b) (resized ?m) ++ map_of (pairs d))
          (put_all put (pairs d) (resized ?m))"
      proof (rule put_all_ok [OF put(2) le_refl rs(1)])
        show "fillFactor (resized ?m) = fillFactor m" by (simp add: resized_def Let_def)
        show "distinct (map fst (pairs d))" using entries_distinct_keys [OF kd] pr by simp
        show "FREE_KEY \<notin> set (map fst (pairs d))" using dm key tmap_FREE [of b m] by auto
        show "card (dom (tmap (Suc b) (resized ?m)) \<union> set (map fst (pairs d))) \<le> N"
          using dm rs(2) card by simp
      qed
      moreover have "map_of (pairs d) = (tmap b m)(key \<mapsto> val)" using tm pr by (simp add: table_map_def)
      ultimately have all: "put_result B (Suc b) (resized ?m) ((tmap b m)(key \<mapsto> val))
          (put_all put (pairs d) (resized ?m))"
        using rs(2) by simp
      have "put_result B b m ((tmap b m)(key \<mapsto> val)) (put_all put (pairs d) (resized ?m))"
        by (rule put_result_trans [OF all]) (use b in \<open>simp_all add: resized_def Let_def\<close>)
      with True eq put(1) show ?thesis by (simp add: rehash_with_def)
    qed
  qed
qed

lemma putNoLock_ok:
  assumes "enough f B N" "B \<le> lo + fuel"
  shows "put_ok (putNoLock fuel) f B N lo"
  using assms(2)
proof (induction fuel arbitrary: lo)
  case 0
  then show ?case
    unfolding put_ok_def using assms(1) by (auto intro!: put_with_ok)
next
  case (Suc fuel)
  have IH: "put_ok (putNoLock fuel) f B N (Suc b)" if "lo \<le> b" for b
    using Suc.prems that by (intro Suc.IH) simp
  show ?case
    unfolding put_ok_def using assms(1) IH by (auto intro!: put_with_ok)
qed

end
