(* ===== verification/Map_Int64_Ops.thy ===== *)
theory Map_Int64_Ops
  imports Map_Int64
begin

section \<open>Package hashmap: deletion from MapInt64\<close>

text \<open>
  Deletion with backward shift: the hole left by the deleted entry is moved forward over entries
  that may move back, until the scan meets a free slot. The measure is the cyclic distance from
  the hole, or from the scanning position, to a free slot.
\<close>

subsection \<open>The inner scan\<close>

definition scan_stop :: "nat \<Rightarrow> int64 list \<Rightarrow> nat \<Rightarrow> nat \<Rightarrow> nat \<Rightarrow> bool" where
  "scan_stop b d p e q \<longleftrightarrow> q < 2 ^ b \<and> q \<noteq> p \<and> cdist (2 ^ b) p q \<le> cdist (2 ^ b) p e
     \<and> (if d ! (2 * q) = FREE_KEY then settled (2 ^ b) (hash_slot b) (slot_of d) p q
        else cdist (2 ^ b) (hash_slot b (d ! (2 * q))) p < cdist (2 ^ b) (hash_slot b (d ! (2 * q))) q)"

lemma shift_test:
  assumes "b \<le> 60" "p < 2 ^ b" "q < 2 ^ b" "p \<noteq> q"
  shows "(if sint (ptr p) \<le> sint (ptr q)
          then sint (home (mask b) k) \<le> sint (ptr p) \<or> sint (ptr q) < sint (home (mask b) k)
          else sint (home (mask b) k) \<le> sint (ptr p) \<and> sint (ptr q) < sint (home (mask b) k))
     \<longleftrightarrow> cdist (2 ^ b) (hash_slot b k) p < cdist (2 ^ b) (hash_slot b k) q"
proof -
  have "p < 2 ^ 61" "q < 2 ^ 61" "hash_slot b k < 2 ^ 61"
    using assms ptr_in_range by auto
  then show ?thesis
    using lp.movable_iff [OF assms(2-4), of "hash_slot b k"]
    by (simp add: home_ptr [OF assms(1)] sint_ptr split: if_splits)
qed

lemma dist_past:
  assumes "p < 2 ^ b" "q < 2 ^ b" "e < 2 ^ b" "q \<noteq> p" "cdist (2 ^ b) p q \<le> cdist (2 ^ b) p e"
  shows "cdist (2 ^ b) q e < cdist (2 ^ b) p e"
proof -
  have "cdist (2 ^ b) p e = cdist (2 ^ b) p q + cdist (2 ^ b) q e"
    using lp.dist_trans [OF assms(1-3)] assms(5) by simp
  moreover have "0 < cdist (2 ^ b) p q" using lp.dist_eq_0 [OF assms(1,2)] assms(4) by simp
  ultimately show ?thesis by linarith
qed

lemma shift_scan_ok:
  assumes sz: "sized b d" and p: "p < 2 ^ b" and e: "e < 2 ^ b" "d ! (2 * e) = FREE_KEY"
    and ep: "d ! (2 * p) \<noteq> FREE_KEY"
  shows "q < 2 ^ b \<Longrightarrow> q \<noteq> p \<Longrightarrow> cdist (2 ^ b) p q \<le> cdist (2 ^ b) p e \<Longrightarrow>
    settled (2 ^ b) (hash_slot b) (slot_of d) p q \<Longrightarrow>
    \<exists>r. shift_scan d (mask b) (mask (Suc b)) (ptr p) (ptr q) = Some (Ret (ptr r, d ! (2 * r)))
      \<and> scan_stop b d p e r"
proof (induction "cdist (2 ^ b) q e" arbitrary: q rule: less_induct)
  case less
  have b: "b \<le> 60" using sz by (simp add: sized_def)
  note i = idx_ptr(1) [OF sz less.prems(1)]
  let ?k = "d ! (2 * q)"
  note test = shift_test [OF b p less.prems(1) less.prems(2) [symmetric], of ?k]
  let ?mv = "cdist (2 ^ b) (hash_slot b ?k) p < cdist (2 ^ b) (hash_slot b ?k) q"
  have step: "shift_scan d (mask b) (mask (Suc b)) (ptr p) (ptr q) =
      (if ?k = FREE_KEY \<or> ?mv then Some (Ret (ptr q, ?k))
       else shift_scan d (mask b) (mask (Suc b)) (ptr p) (ptr (Suc q mod 2 ^ b)))"
    using i test next_ptr [OF b less.prems(1)] by (subst shift_scan.simps) (simp add: Let_def)
  show ?case
  proof (cases "?k = FREE_KEY \<or> ?mv")
    case True
    then have "scan_stop b d p e q" using less.prems by (auto simp: scan_stop_def)
    with True step show ?thesis by auto
  next
    case False
    let ?q = "(q + 1) mod 2 ^ b"
    have qe: "q \<noteq> e" using False e by auto
    have nx: "cdist (2 ^ b) q e = cdist (2 ^ b) ?q e + 1"
      using lp.dist_Suc [OF less.prems(1) e(1) qe] by simp
    have tr: "cdist (2 ^ b) p e = cdist (2 ^ b) p q + cdist (2 ^ b) q e"
      using lp.dist_trans [OF p less.prems(1) e(1)] less.prems(3) by simp
    have qp: "?q \<noteq> p"
    proof
      assume "?q = p"
      then show False using nx tr by simp
    qed
    have snoc: "cdist (2 ^ b) p ?q = cdist (2 ^ b) p q + 1"
      using lp.dist_snoc [OF p less.prems(1) qp] .
    have "slot_of d q = Some (?k, d ! (2 * q + 1))" using False by (simp add: slot_of_Some)
    then have "settled (2 ^ b) (hash_slot b) (slot_of d) p ?q"
      using lp.settled_step [OF less.prems(4) p less.prems(1) _ _ qp] False by blast
    then have "\<exists>r. shift_scan d (mask b) (mask (Suc b)) (ptr p) (ptr ?q) = Some (Ret (ptr r, d ! (2 * r)))
      \<and> scan_stop b d p e r"
      using nx tr snoc qp by (intro less.hyps) auto
    then show ?thesis using False step by simp
  qed
qed

subsection \<open>The backward shift\<close>

lemma shiftKeys_ok:
  "sized b d \<Longrightarrow> 1 \<le> b \<Longrightarrow> e < 2 ^ b \<Longrightarrow> d ! (2 * e) = FREE_KEY \<Longrightarrow>
   hole_wf (2 ^ b) (hash_slot b) (slot_of d) p \<Longrightarrow>
   \<exists>d' r. shiftKeys d (mask b) (mask (Suc b)) (ptr p) = Some (Ret (d', r)) \<and> sized b d'
     \<and> probe_wf (2 ^ b) (hash_slot b) (slot_of d')
     \<and> table_map (2 ^ b) (slot_of d') = table_map (2 ^ b) ((slot_of d)(p := None))"
proof (induction "cdist (2 ^ b) p e" arbitrary: d p rule: less_induct)
  case less
  note sz = less.prems(1) and e = less.prems(3,4) and hole = less.prems(5)
  have b: "b \<le> 60" using sz by (simp add: sized_def)
  have p: "p < 2 ^ b" and pf: "d ! (2 * p) \<noteq> FREE_KEY"
    using hole by (auto simp: hole_wf_def slot_of_None)
  have n1: "(1::nat) < 2 ^ b" using less.prems(2) one_less_power [of "2::nat" b] by simp
  have pe: "p \<noteq> e" using e pf by auto
  let ?q = "(p + 1) mod 2 ^ b"
  have q: "?q < 2 ^ b" "cdist (2 ^ b) p ?q = 1" "?q \<noteq> p"
    using lp.dist_walk [OF p, of 1] n1 lp.dist_eq_0 [OF p p] by auto
  have "cdist (2 ^ b) p ?q \<le> cdist (2 ^ b) p e"
    using q(2) lp.dist_eq_0 [OF p e(1)] pe by simp
  then obtain r where r: "shift_scan d (mask b) (mask (Suc b)) (ptr p) (ptr ?q) = Some (Ret (ptr r, d ! (2 * r)))"
      "scan_stop b d p e r"
    using shift_scan_ok [OF sz p e pf q(1,3)] lp.settled_start [OF p n1] by blast
  then have r': "shift_scan d (mask b) (mask (Suc b)) (ptr p) ((ptr p + 2) AND mask (Suc b))
      = Some (Ret (ptr r, d ! (2 * r)))"
    using next_ptr [OF b p] by simp
  have rb: "r < 2 ^ b" "r \<noteq> p" "cdist (2 ^ b) p r \<le> cdist (2 ^ b) p e" using r(2) by (simp_all add: scan_stop_def)
  show ?case
  proof (cases "d ! (2 * r) = FREE_KEY")
    case True
    have st: "settled (2 ^ b) (hash_slot b) (slot_of d) p r" using r(2) True by (simp add: scan_stop_def)
    have T: "slot_of (d[2 * p := FREE_KEY]) = (slot_of d)(p := None)"
      using slot_of_update(3) [OF sz p] by (auto simp: fun_eq_iff)
    have "probe_wf (2 ^ b) (hash_slot b) ((slot_of d)(p := None))"
      using lp.hole_close [OF hole rb(1) _ st] True by (simp add: slot_of_None)
    moreover have "shiftKeys d (mask b) (mask (Suc b)) (ptr p) = Some (Ret (d[2 * p := FREE_KEY], ptr p))"
      using r' True idx_ptr(3) [OF sz p] by (subst shiftKeys.simps) (simp add: bind_res_def)
    ultimately show ?thesis using sz T by auto
  next
    case False
    let ?k = "d ! (2 * r)" and ?v = "d ! (2 * r + 1)"
    let ?d = "d[2 * p := ?k, 2 * p + 1 := ?v]"
    have s: "slot_of d r = Some (?k, ?v)" using False by (simp add: slot_of_Some)
    have mv: "cdist (2 ^ b) (hash_slot b ?k) p < cdist (2 ^ b) (hash_slot b ?k) r"
      using r(2) False by (simp add: scan_stop_def)
    note mvd = lp.hole_move [OF hole rb(1,2) s mv]
    have T: "slot_of ?d = (slot_of d)(p := Some (?k, ?v))"
      using slot_of_update(1) [OF sz p] False by (auto simp: fun_eq_iff)
    have "2 * r + 1 \<noteq> 2 * p" by presburger
    then have "bind_res (upd d (ptr p) ?k) (\<lambda>d1. bind_res (idx d1 (ptr r + 1)) (upd d1 (ptr p + 1)))
        = Some (Ret ?d)"
      using idx_ptr(3) [OF sz p] idx_ptr(2) [of b "d[2 * p := ?k]" r] idx_ptr(4) [of b "d[2 * p := ?k]" p] sz p rb(1)
      by (simp add: bind_res_def)
    then have step: "shiftKeys d (mask b) (mask (Suc b)) (ptr p) = shiftKeys ?d (mask b) (mask (Suc b)) (ptr r)"
      using r' False by (subst shiftKeys.simps) simp
    have e': "?d ! (2 * e) = FREE_KEY"
      using e pe by (metis T fun_upd_other slot_of_None)
    have "\<exists>d' x. shiftKeys ?d (mask b) (mask (Suc b)) (ptr r) = Some (Ret (d', x)) \<and> sized b d'
       \<and> probe_wf (2 ^ b) (hash_slot b) (slot_of d')
       \<and> table_map (2 ^ b) (slot_of d') = table_map (2 ^ b) ((slot_of ?d)(r := None))"
      using less.hyps [OF dist_past [OF p rb(1) e(1) rb(2,3)], of ?d] sz less.prems(2) e(1) e' mvd(1) T
      by simp
    then show ?thesis unfolding step T mvd(2) .
  qed
qed

subsection \<open>Del\<close>

lemma Del_ok:
  assumes inv: "map_inv b m" and key: "key \<noteq> FREE_KEY \<or> hasFreeKey m"
  obtains m' where "Del m key = Some (Ret m')" "map_inv b m'" "abs_map b m' = (abs_map b m)(key := None)"
    "fillFactor m' = fillFactor m"
proof (cases "key = FREE_KEY")
  case True
  then show ?thesis using inv key
    by (intro that [of "m\<lparr>hasFreeKey := False, msize := msize m - 1\<rparr>"])
      (auto simp: Del_def map_inv_def abs_map_def fun_eq_iff)
next
  case False
  obtain q where q: "probe (data m) (mmask2 m) key (home (mmask m) key)
      = Some (Ret (ptr q, data m ! (2 * q) = key))" "probe_stop b (data m) key q"
    using map_probe [OF inv False] .
  have wf: "probe_wf (2 ^ b) (hash_slot b) (slot_of (data m))" "sized b (data m)" "1 \<le> b"
    and msk: "mmask m = mask b" "mmask2 m = mask (Suc b)"
    using inv by (auto simp: map_inv_def)
  have qb: "q < 2 ^ b" using q(2) by (simp add: probe_stop_def)
  show ?thesis
  proof (cases "data m ! (2 * q) = key")
    case found: True
    obtain e where e: "e < 2 ^ b" "data m ! (2 * e) = FREE_KEY" using map_inv_vacancy [OF inv] .
    note s = probe_stop_found [OF wf(1) q(2) found False]
    note hs = lp.hole_start [OF wf(1) qb s(1)]
    obtain d' r where d': "shiftKeys (data m) (mask b) (mask (Suc b)) (ptr q) = Some (Ret (d', r))"
        "sized b d'" "probe_wf (2 ^ b) (hash_slot b) (slot_of d')"
        "table_map (2 ^ b) (slot_of d') = (table_map (2 ^ b) (slot_of (data m)))(key := None)"
      using shiftKeys_ok [OF wf(2,3) e hs(1)] unfolding hs(2) by blast
    let ?m = "m\<lparr>data := d', msize := msize m - 1\<rparr>"
    have eq: "Del m key = Some (Ret ?m)"
      using False q(1) found d'(1) msk by (simp add: Del_def bind_res_def)
    have "dom (table_map (2 ^ b) (slot_of d')) = dom (tmap b m) - {key}" using d'(4) by (auto simp: tmap_def)
    moreover have "card (dom (tmap b m) - {key}) = card (dom (tmap b m)) - 1" "card (dom (tmap b m)) > 0"
      using s(2) by (auto simp: tmap_def [symmetric] card_gt_0_iff card_Diff_singleton domI)
    ultimately have "int (count_of b d') = int (count_of b (data m)) - 1"
      using d'(3) wf(1) by (simp add: count_card probe_wf_def tmap_def)
    then have "map_inv b ?m" using inv d'(2,3) by (auto simp: map_inv_def)
    moreover have "abs_map b ?m = (abs_map b m)(key := None)"
      using d'(4) False by (auto simp: abs_map_def fun_eq_iff)
    ultimately show ?thesis using eq by (intro that [of ?m]) auto
  next
    case absent: False
    have "Del m key = Some (Ret m)" using False q(1) absent by (simp add: Del_def bind_res_def)
    moreover have "abs_map b m key = None"
      using probe_stop_free(2) [OF wf(1) q(2) absent] False by (simp add: abs_map_def)
    ultimately show ?thesis using inv by (intro that [of m]) (auto simp: fun_eq_iff)
  qed
qed

section \<open>Package hashmap: MapInt64 as a map\<close>

text \<open>
  The constructor, the exported operations and what they promise together: the contents of a
  \<open>MapInt64\<close> are the map its \<open>Items\<close> enumerate, and every sequence of \<open>Get\<close>, \<open>Put\<close> and \<open>Del\<close> answers
  as that map does. The interface between the table and its clients is the locale \<open>map_adt\<close>.
\<close>

subsection \<open>Powers of two\<close>

text \<open>
  \<open>smear m x y\<close>: a bit of \<open>y\<close> is set when one of the \<open>m\<close> bits of \<open>x\<close> from there on is. The five
  shifts of \<open>nextPowerOf2\<close> double \<open>m\<close> from 1 to 32.
\<close>

definition smear :: "nat \<Rightarrow> 32 word \<Rightarrow> 32 word \<Rightarrow> bool" where
  "smear m x y \<longleftrightarrow> (\<forall>n. bit y n \<longleftrightarrow> (\<exists>j < m. bit x (n + j)))"

lemma smear_1: "smear 1 x x"
  by (simp add: smear_def)

lemma smear_step:
  assumes "smear m x y" "m2 = m + m"
  shows "smear m2 x (y OR drop_bit m y)"
  unfolding smear_def assms(2)
proof
  fix n
  have "bit (y OR drop_bit m y) n \<longleftrightarrow> (\<exists>j < m. bit x (n + j)) \<or> (\<exists>j < m. bit x (m + n + j))"
    using assms(1) by (simp add: smear_def bit_or_iff bit_drop_bit_eq)
  also have "\<dots> \<longleftrightarrow> (\<exists>j < m + m. bit x (n + j))"
  proof
    assume "(\<exists>j < m. bit x (n + j)) \<or> (\<exists>j < m. bit x (m + n + j))"
    then show "\<exists>j < m + m. bit x (n + j)"
    proof
      assume "\<exists>j < m. bit x (m + n + j)"
      then obtain j where "j < m" "bit x (m + n + j)" by blast
      then show ?thesis by (intro exI [of _ "m + j"]) (simp add: ac_simps)
    qed (auto intro: trans_less_add1)
  next
    assume "\<exists>j < m + m. bit x (n + j)"
    then obtain j where j: "j < m + m" "bit x (n + j)" by blast
    show "(\<exists>j < m. bit x (n + j)) \<or> (\<exists>j < m. bit x (m + n + j))"
    proof (cases "j < m")
      case False
      then have "j - m < m" "bit x (m + n + (j - m))" using j by (simp_all add: ac_simps)
      then show ?thesis by blast
    qed (use j in blast)
  qed
  finally show "bit (y OR drop_bit m y) n \<longleftrightarrow> (\<exists>j < m + m. bit x (n + j))" .
qed

lemma bit_length:
  fixes x :: "32 word"
  obtains k where "k \<le> 32" "unat x < 2 ^ k" "\<forall>j < k. 2 ^ j \<le> unat x"
proof -
  define k where "k = (LEAST k. unat x < 2 ^ k)"
  have b: "unat x < 2 ^ 32" using unsigned_less [of x] by simp
  then have "unat x < 2 ^ k" unfolding k_def by (rule LeastI)
  moreover have "k \<le> 32" unfolding k_def using b by (rule Least_le)
  moreover have "\<forall>j < k. 2 ^ j \<le> unat x" unfolding k_def using not_less_Least not_less by blast
  ultimately show ?thesis using that by blast
qed

lemma smear_mask:
  assumes "smear 32 x y" and k: "k \<le> 32" "unat x < 2 ^ k" "\<forall>j < k. 2 ^ j \<le> unat x"
  shows "y = mask k"
proof (rule bit_word_eqI)
  fix n assume n: "n < LENGTH(32)"
  have bx: "bit x i \<longleftrightarrow> odd (unat x div 2 ^ i)" for i
    using bit_unsigned_iff [where 'a = nat, of x i] by (auto simp: bit_iff_odd dest: bit_imp_le_length)
  have hi: "\<not> bit x i" if "k \<le> i" for i
  proof -
    have "unat x < 2 ^ i" using k(2) power_increasing [OF that, of "2::nat"] by linarith
    then show ?thesis using bx by simp
  qed
  have "bit y n \<longleftrightarrow> n < k"
  proof
    assume "bit y n"
    then obtain j where "bit x (n + j)" using assms(1) by (auto simp: smear_def)
    then show "n < k" using hi [of "n + j"] by (meson leI le_add1 order.trans)
  next
    assume nk: "n < k"
    have "2 ^ (k - 1) \<le> unat x" "unat x < 2 * 2 ^ (k - 1)"
      using k nk power_Suc [of "2::nat" "k - 1"] by simp_all
    then have "unat x div 2 ^ (k - 1) = 1" by (simp add: div_nat_eqI)
    then have "bit x (n + (k - 1 - n))" using bx [of "k - 1"] nk by simp
    moreover have "k - 1 - n < 32" using k(1) nk by linarith
    ultimately show "bit y n" using assms(1) unfolding smear_def by blast
  qed
  then show "bit y n = bit (mask k :: 32 word) n" using n by (simp add: bit_mask_iff)
qed

lemma nextPowerOf2_exp:
  assumes "x \<noteq> -1" "x \<noteq> 0"
  obtains k where "k \<le> 32" "nextPowerOf2 x = 2 ^ k" "unat x \<le> 2 ^ k" "\<forall>j < k. 2 ^ j < unat x"
proof -
  obtain k where k: "k \<le> 32" "unat (x - 1) < 2 ^ k" "\<forall>j < k. 2 ^ j \<le> unat (x - 1)"
    using bit_length .
  define y1 where "y1 = (x - 1) OR drop_bit 1 (x - 1)"
  define y2 where "y2 = y1 OR drop_bit 2 y1"
  define y4 where "y4 = y2 OR drop_bit 4 y2"
  define y8 where "y8 = y4 OR drop_bit 8 y4"
  define y16 where "y16 = y8 OR drop_bit 16 y8"
  have "smear 2 (x - 1) y1" unfolding y1_def by (rule smear_step [OF smear_1]) simp
  then have "smear 4 (x - 1) y2" unfolding y2_def by (rule smear_step) simp
  then have "smear 8 (x - 1) y4" unfolding y4_def by (rule smear_step) simp
  then have "smear 16 (x - 1) y8" unfolding y8_def by (rule smear_step) simp
  then have "smear 32 (x - 1) y16" unfolding y16_def by (rule smear_step) simp
  from smear_mask [OF this k] have "y16 = mask k" .
  then have "nextPowerOf2 x = mask k + 1"
    using assms by (simp add: nextPowerOf2_def Let_def y1_def y2_def y4_def y8_def y16_def)
  then have "nextPowerOf2 x = 2 ^ k" by (simp add: mask_eq_exp_minus_1)
  moreover have "unat x = unat (x - 1) + 1"
    using assms(2) unat_minus_one [of x] unat_gt_0 [of x] by simp
  ultimately show ?thesis using that [of k] k by (auto simp: less_Suc_eq_le)
qed

text \<open>
  Below 2^31 the result is the least power of two that is not smaller; above it the result wraps
  to 0, and \<open>MaxUint32\<close> is returned as it is.
\<close>

lemma nextPowerOf2_spec:
  assumes "unat x \<le> 2 ^ 31"
  obtains k where "k \<le> 31" "unat (nextPowerOf2 x) = 2 ^ k" "unat x \<le> 2 ^ k" "\<forall>j < k. 2 ^ j < unat x"
proof (cases "x = 0")
  case True
  then show ?thesis by (intro that [of 0]) (simp_all add: nextPowerOf2_def)
next
  case False
  have "x \<noteq> -1"
  proof
    assume "x = -1"
    then have "unat x = 2 ^ 32 - 1" by (simp add: unsigned_minus_1_eq_mask mask_eq_exp_minus_1)
    with assms show False by simp
  qed
  then obtain k where k: "k \<le> 32" "nextPowerOf2 x = 2 ^ k" "unat x \<le> 2 ^ k" "\<forall>j < k. 2 ^ j < unat x"
    using nextPowerOf2_exp False by blast
  have "k \<noteq> 32" using spec [OF k(4), of 31] assms by auto
  then have "k \<le> 31" using k(1) by simp
  moreover have "unat (2 ^ k :: 32 word) = 2 ^ k"
  proof -
    have "(2::nat) ^ k < 2 ^ 32" using \<open>k \<le> 31\<close> by (intro power_strict_increasing) auto
    moreover have "(2 ^ k :: 32 word) = of_nat (2 ^ k)" by simp
    ultimately show ?thesis using unat_of_nat [where 'a = 32, of "2 ^ k"] by simp
  qed
  ultimately show ?thesis using that [of k] k by simp
qed

lemma nextPowerOf2_wraps:
  assumes "2 ^ 31 < unat x" "x \<noteq> -1"
  shows "nextPowerOf2 x = 0"
proof -
  have "x \<noteq> 0" using assms(1) by auto
  then obtain k where k: "k \<le> 32" "nextPowerOf2 x = 2 ^ k" "unat x \<le> 2 ^ k"
    using nextPowerOf2_exp assms(2) by metis
  have "\<not> k \<le> 31"
  proof
    assume "k \<le> 31"
    then have "(2::nat) ^ k \<le> 2 ^ 31" by (intro power_increasing) auto
    then show False using k(3) assms(1) by simp
  qed
  then have "k = 32" using k(1) by simp
  with k(2) show ?thesis by simp
qed

lemma arraySize_exp:
  assumes "(of_int \<lceil>float_div (of_int sz) fill\<rceil> :: 32 word) \<noteq> -1"
  obtains k where "1 \<le> k" "k \<le> 31" "arraySize sz fill = 2 ^ k"
proof -
  let ?x = "of_int \<lceil>float_div (of_int sz) fill\<rceil> :: 32 word"
  consider "unat ?x \<le> 2 ^ 31" | "2 ^ 31 < unat ?x" by linarith
  then show ?thesis
  proof cases
    case 1
    then obtain k where k: "k \<le> 31" "unat (nextPowerOf2 ?x) = 2 ^ k" using nextPowerOf2_spec by metis
    show ?thesis
    proof (cases "k = 0")
      case True
      then have "nextPowerOf2 ?x < 2" using k(2) by (simp add: word_less_nat_alt)
      then show ?thesis by (intro that [of 1]) (simp_all add: arraySize_def Let_def)
    next
      case False
      then have "(2::nat) ^ 1 \<le> 2 ^ k" by (intro power_increasing) auto
      then have "\<not> nextPowerOf2 ?x < 2" using k(2) by (simp add: word_less_nat_alt)
      moreover have "uint (nextPowerOf2 ?x) = 2 ^ k" using k(2) by (simp add: uint_nat)
      ultimately show ?thesis using that [of k] k(1) False by (simp add: arraySize_def Let_def)
    qed
  next
    case 2
    then show ?thesis
      using nextPowerOf2_wraps [OF 2 assms] by (intro that [of 1]) (simp_all add: arraySize_def)
  qed
qed

subsection \<open>The constructor\<close>

lemma NewMapInt64_ok:
  assumes "0 < fill" "fill < 1" "0 < sz" "(of_int \<lceil>float_div (of_int sz) fill\<rceil> :: 32 word) \<noteq> -1"
  obtains b m where "NewMapInt64 sz fill = Some (Ret m)" "map_inv b m" "abs_map b m = Map.empty"
    "fillFactor m = fill" "b \<le> 31" "arraySize sz fill = 2 ^ b"
proof -
  obtain b where b: "1 \<le> b" "b \<le> 31" "arraySize sz fill = 2 ^ b" using arraySize_exp [OF assms(4)] .
  let ?m = "\<lparr>data = replicate (2 * 2 ^ b) 0, fillFactor = fill, threshold = \<lfloor>2 ^ b * fill\<rfloor>, msize = 0,
    mmask = mask b, mmask2 = mask (Suc b), hasFreeKey = False, freeVal = 0\<rparr>"
  have "nat (2 * 2 ^ b) = 2 * 2 ^ b" by (simp add: nat_mult_distrib nat_power_eq)
  moreover have "of_int (2 * 2 ^ b - 1) = (mask (Suc b) :: int64)" using mask_int [of "Suc b"] by simp
  ultimately have "NewMapInt64 sz fill = Some (Ret ?m)"
    using assms(1-3) mask_int [of b] by (simp add: NewMapInt64_def Let_def b(3))
  moreover have e: "entries (2 ^ b) (slot_of (replicate (2 * 2 ^ b) 0)) = []" by (rule entries_empty)
  then have "map_inv b ?m"
    using assms b probe_wf_empty [of "2 ^ b" "hash_slot b"]
    by (simp add: map_inv_def sized_def count_of_def)
  moreover have "abs_map b ?m = Map.empty" using e by (simp add: abs_map_def table_map_def fun_eq_iff)
  ultimately show ?thesis using b by (intro that [of ?m b]) simp_all
qed

subsection \<open>Contents\<close>

text \<open>The map that \<open>Items\<close> enumerates: the abstraction a client sees, free of the table's layout.\<close>

definition contents :: "MapInt64 \<Rightarrow> int64 \<Rightarrow> int64 option" where
  "contents m = map_of (Items m)"

definition wf_map :: "MapInt64 \<Rightarrow> bool" where
  "wf_map m \<longleftrightarrow> (\<exists>b. map_inv b m)"

lemma contents_abs:
  assumes "map_inv b m"
  shows "contents m = abs_map b m"
proof -
  have sz: "sized b (data m)" using assms by (simp add: map_inv_def)
  have "map_of (pairs (data m)) = tmap b m"
    by (simp add: map_inv_pairs [OF sz] tmap_def table_map_def)
  then show ?thesis using tmap_FREE [of b m]
    by (auto simp: contents_def Items_def fun_eq_iff abs_map_simps abs_map_def tmap_def)
qed

lemma Keys_Items: "Keys m = map fst (Items m)"
  by (simp add: Keys_def Items_def)

lemma Keys_distinct:
  assumes "map_inv b m"
  shows "distinct (Keys m)"
proof -
  have sz: "sized b (data m)" using assms by (simp add: map_inv_def)
  note pr = map_inv_pairs [OF sz]
  have "distinct (map fst (pairs (data m)))"
    using entries_distinct_keys [OF map_inv_distinct [OF assms]] pr by simp
  moreover have "FREE_KEY \<notin> set (map fst (pairs (data m)))"
    by (auto simp: pr set_entries slot_of_Some)
  ultimately show ?thesis by (simp add: Keys_def)
qed

lemma Keys_dom: "set (Keys m) = dom (contents m)"
  by (simp add: Keys_Items contents_def dom_map_of_conv_image_fst)

lemma Size_card:
  assumes "map_inv b m"
  shows "msize m = int (card (dom (contents m)))"
proof -
  have sz: "sized b (data m)" using assms by (simp add: map_inv_def)
  have "length (Keys m) = count_of b (data m) + (if hasFreeKey m then 1 else 0)"
    by (simp add: Keys_def map_inv_pairs [OF sz] count_of_def)
  then have "msize m = int (length (Keys m))" using assms by (simp add: map_inv_def)
  then show ?thesis using distinct_card [OF Keys_distinct [OF assms]] by (simp add: Keys_dom)
qed

subsection \<open>Put\<close>

text \<open>
  \<open>Put\<close> is \<open>putNoLock\<close> under the lock. Every nested call to \<open>rehash\<close> doubles the capacity, so 60
  levels reach a capacity of 2^60 slots, beyond what can be allocated; \<open>room m n\<close> says that \<open>n\<close>
  more keys stay below the threshold of that capacity.
\<close>

definition Put :: "MapInt64 \<Rightarrow> int64 \<Rightarrow> int64 \<Rightarrow> MapInt64 res" where
  "Put = putNoLock 60"

definition room :: "MapInt64 \<Rightarrow> nat \<Rightarrow> bool" where
  "room m n \<longleftrightarrow> int (card (dom (contents m)) + n) < \<lfloor>2 ^ 60 * fillFactor m\<rfloor>"

lemma putNoLock_FREE:
  "putNoLock fuel m FREE_KEY val = Some (Ret (m\<lparr>msize := (if hasFreeKey m then msize m else msize m + 1),
     hasFreeKey := True, freeVal := val\<rparr>))"
  by (cases fuel) (simp_all add: put_with_def)

lemma finite_contents [simp]: "finite (dom (contents m))"
  by (simp add: contents_def finite_dom_map_of)

lemma Put_ok:
  assumes inv: "map_inv b m" and rm: "room m 1"
  obtains b' m' where "Put m key val = Some (Ret m')" "map_inv b' m'"
    "contents m' = (contents m)(key \<mapsto> val)" "fillFactor m' = fillFactor m" "b \<le> b'"
proof (cases "key = FREE_KEY")
  case True
  let ?m = "m\<lparr>msize := (if hasFreeKey m then msize m else msize m + 1), hasFreeKey := True, freeVal := val\<rparr>"
  have "map_inv b ?m" using inv by (auto simp: map_inv_def)
  moreover from this have "contents ?m = (contents m)(key \<mapsto> val)"
    using True by (auto simp: contents_abs [OF inv] contents_abs [of b ?m] abs_map_def fun_eq_iff)
  ultimately show ?thesis using that [of ?m b] True by (simp add: Put_def putNoLock_FREE)
next
  case False
  have "card (insert key (dom (tmap b m))) \<le> card (insert key (dom (contents m)))"
    using contents_abs [OF inv] tmap_FREE [of b m]
    by (intro card_mono) (auto simp: abs_map_simps abs_map_def tmap_def split: if_splits)
  also have "\<dots> \<le> card (dom (contents m)) + 1" by (simp add: card_insert_le_m1 card_insert_if)
  finally have card: "card (insert key (dom (tmap b m))) \<le> card (dom (contents m)) + 1" .
  have "put_ok (putNoLock 60) (fillFactor m) 60 (card (dom (contents m)) + 1) b"
    using rm by (intro putNoLock_ok) (simp_all add: enough_def room_def)
  then have "put_result 60 b m ((tmap b m)(key \<mapsto> val)) (putNoLock 60 m key val)"
    using inv False card unfolding put_ok_def by blast
  then obtain b' m' where r: "Put m key val = Some (Ret m')" "map_inv b' m'" "b \<le> b'"
      "tmap b' m' = (tmap b m)(key \<mapsto> val)" "hasFreeKey m' = hasFreeKey m" "freeVal m' = freeVal m"
      "fillFactor m' = fillFactor m"
    by (auto simp: put_result_def Put_def)
  have "contents m' = (contents m)(key \<mapsto> val)"
  proof
    fix k show "contents m' k = ((contents m)(key \<mapsto> val)) k"
      unfolding contents_abs [OF inv] contents_abs [OF r(2)]
      by (cases "k = FREE_KEY") (use False r(4-6) in \<open>simp_all add: abs_map_simps\<close>)
  qed
  with r show ?thesis using that by blast
qed

subsection \<open>MapInt64 keeps the contract\<close>

definition safe_del :: "(int64 \<Rightarrow> int64 option) \<Rightarrow> int64 \<Rightarrow> bool" where
  "safe_del M k \<longleftrightarrow> k \<noteq> FREE_KEY \<or> M k \<noteq> None"

lemma contents_FREE: "map_inv b m \<Longrightarrow> contents m FREE_KEY \<noteq> None \<longleftrightarrow> hasFreeKey m"
  by (simp add: contents_abs abs_map_def)

lemma Del_contents:
  assumes "wf_map m" "safe_del (contents m) k"
  obtains m' where "Del m k = Some (Ret m')" "wf_map m'" "contents m' = (contents m)(k := None)"
    "fillFactor m' = fillFactor m"
proof -
  obtain b where b: "map_inv b m" using assms(1) by (auto simp: wf_map_def)
  then have "k \<noteq> FREE_KEY \<or> hasFreeKey m" using assms(2) contents_FREE [OF b] by (auto simp: safe_del_def)
  from Del_ok [OF b this] obtain m' where "Del m k = Some (Ret m')" "map_inv b m'"
      "abs_map b m' = (abs_map b m)(k := None)" "fillFactor m' = fillFactor m" .
  with b show ?thesis by (intro that [of m']) (auto simp: wf_map_def contents_abs)
qed

lemma card_dom_upd: "card (dom ((contents m)(k \<mapsto> v))) \<le> card (dom (contents m)) + 1"
  by (simp add: card_insert_if)

lemma card_dom_del: "card (dom ((contents m)(k := None))) \<le> card (dom (contents m))"
  by (auto intro: card_mono)

interpretation mi: map_adt wf_map contents safe_del room map_get Put Del
proof
  fix m k and v :: int64
  assume "wf_map m" "contents m k = Some v"
  then show "map_get m k = Some (Ret (v, True))"
    by (auto simp: wf_map_def contents_abs map_get_correct)
next
  fix m k
  assume "wf_map m" "contents m k = None"
  then show "\<exists>v. map_get m k = Some (Ret (v, False))"
    by (auto simp: wf_map_def contents_abs map_get_correct)
next
  fix m n k v
  assume "wf_map m" and r: "room m (Suc n)"
  then obtain b where b: "map_inv b m" by (auto simp: wf_map_def)
  have "room m 1" using r by (simp add: room_def)
  from Put_ok [OF b this, of k v] obtain b' m' where p: "Put m k v = Some (Ret m')" "map_inv b' m'"
      "contents m' = (contents m)(k \<mapsto> v)" "fillFactor m' = fillFactor m" .
  have "room m' n" using r card_dom_upd [of m k v] p(3,4) by (simp add: room_def)
  with p show "\<exists>m'. Put m k v = Some (Ret m') \<and> wf_map m' \<and> contents m' = (contents m)(k \<mapsto> v) \<and> room m' n"
    by (auto simp: wf_map_def)
next
  fix m n k
  assume "wf_map m" "room m n" "safe_del (contents m) k"
  then obtain m' where d: "Del m k = Some (Ret m')" "wf_map m'" "contents m' = (contents m)(k := None)"
      "fillFactor m' = fillFactor m"
    using Del_contents by blast
  have "room m' n" using \<open>room m n\<close> card_dom_del [of m k] d(3,4) by (simp add: room_def)
  with d show "\<exists>m'. Del m k = Some (Ret m') \<and> wf_map m' \<and> contents m' = (contents m)(k := None) \<and> room m' n"
    by auto
qed (simp add: room_def)

lemma room_new:
  assumes "NewMapInt64 sz fill = Some (Ret m)" "int n < \<lfloor>2 ^ 60 * fill\<rfloor>" "contents m = Map.empty"
  shows "room m n"
proof -
  have "fillFactor m = fill" using assms(1) by (auto simp: NewMapInt64_def Let_def split: if_splits)
  with assms show ?thesis by (simp add: room_def)
qed

lemma new_map_refines:
  assumes "0 < fill" "fill < 1" "0 < sz" "(of_int \<lceil>float_div (of_int sz) fill\<rceil> :: 32 word) \<noteq> -1"
    "int (length ops) < \<lfloor>2 ^ 60 * fill\<rfloor>" "ops_safe safe_del ops Map.empty"
  obtains m0 m where "NewMapInt64 sz fill = Some (Ret m0)"
    "run_ops map_get Put Del ops m0 = Some (Ret (answers ops Map.empty, m))"
    "contents m = final_map ops Map.empty" "msize m = int (card (dom (contents m)))"
proof -
  obtain b m0 where m0: "NewMapInt64 sz fill = Some (Ret m0)" "map_inv b m0" "abs_map b m0 = Map.empty"
    using NewMapInt64_ok [OF assms(1-4)] by metis
  then have c: "contents m0 = Map.empty" "wf_map m0" by (auto simp: contents_abs wf_map_def)
  then obtain m where "run_ops map_get Put Del ops m0 = Some (Ret (answers ops Map.empty, m))" "wf_map m"
      "contents m = final_map ops Map.empty"
    using mi.run_refines [of m0 ops] room_new [OF m0(1) assms(5)] assms(6) by auto
  then show ?thesis using that m0(1) Size_card by (auto simp: wf_map_def)
qed

subsection \<open>A full table\<close>

text \<open>
  On a table with no free slot the probe for a missing key goes round forever. \<open>Del\<close> of the free
  key lowers the size whether the key is present or not, so the size test of \<open>Put\<close> can let the
  table fill up.
\<close>

lemma probe_full:
  assumes "sized b d" "\<forall>p < 2 ^ b. d ! (2 * p) \<noteq> FREE_KEY \<and> d ! (2 * p) \<noteq> key" "p < 2 ^ b"
  shows "probe d (mask (Suc b)) key (ptr p) = None"
proof (rule ccontr)
  assume "probe d (mask (Suc b)) key (ptr p) \<noteq> None"
  then obtain y where y: "probe d (mask (Suc b)) key (ptr p) = Some y" by blast
  have "\<not> (d = d \<and> mask (Suc b) = (mask (Suc b) :: int64) \<and> key = key \<and> (\<exists>p' < 2 ^ b. ptr p = ptr p'))"
  proof (rule probe.raw_induct [OF _ y, where P = "\<lambda>d' m2 k' x y. \<not> (d' = d \<and> m2 = mask (Suc b)
      \<and> k' = key \<and> (\<exists>p' < 2 ^ b. x = ptr p'))"])
    fix pr d' m2 k' x y'
    assume ih: "\<And>d' m2 k' x y. pr d' m2 k' x = Some y \<Longrightarrow>
        \<not> (d' = d \<and> m2 = mask (Suc b) \<and> k' = key \<and> (\<exists>p' < 2 ^ b. x = ptr p'))"
      and step: "(case idx d' x of None \<Rightarrow> Some Panic | Some Panic \<Rightarrow> Some Panic
        | Some (Ret k) \<Rightarrow> if k = FREE_KEY then Some (Ret (x, False))
            else if k = k' then Some (Ret (x, True)) else pr d' m2 k' ((x + 2) AND m2)) = Some y'"
    show "\<not> (d' = d \<and> m2 = mask (Suc b) \<and> k' = key \<and> (\<exists>p' < 2 ^ b. x = ptr p'))"
    proof
      assume "d' = d \<and> m2 = mask (Suc b) \<and> k' = key \<and> (\<exists>p' < 2 ^ b. x = ptr p')"
      then obtain r where r: "r < 2 ^ b" "x = ptr r" and eq: "d' = d" "m2 = mask (Suc b)" "k' = key" by blast
      have "pr d (mask (Suc b)) key (ptr (Suc r mod 2 ^ b)) = Some y'"
        using step idx_ptr(1) [OF assms(1) r(1)] next_ptr [of b r] assms(1,2) r eq
        by (simp add: sized_def)
      moreover have "Suc r mod 2 ^ b < 2 ^ b" by simp
      ultimately show False using ih by blast
    qed
  qed
  with y assms(3) show False by blast
qed

lemma map_get_full:
  assumes "sized b (data m)" "mmask m = mask b" "mmask2 m = mask (Suc b)" "key \<noteq> FREE_KEY"
    "\<forall>p < 2 ^ b. data m ! (2 * p) \<noteq> FREE_KEY \<and> data m ! (2 * p) \<noteq> key"
  shows "map_get m key = None"
proof -
  have b: "b \<le> 60" using assms(1) by (simp add: sized_def)
  have h: "home (mmask m) key = ptr (hash_slot b key)" using home_ptr [OF b] assms(2) by simp
  have "\<not> (sint (home (mmask m) key) < 0 \<or> int (length (data m)) \<le> sint (home (mmask m) key))"
    using assms(1) ptr_in_range [of b "hash_slot b key"]
    by (simp add: h sized_def sint_ptr not_le flip: of_nat_power)
  with probe_full [OF assms(1,5), of "hash_slot b key"] assms(3,4) show ?thesis
    by (simp add: map_get_def Let_def h)
qed

subsection \<open>CreateKey\<close>

lemma CreateKey_step:
  "wf_map m \<Longrightarrow> CreateKey rnd m = (if contents m (rnd 0) = None then Some (Ret (rnd 0))
     else CreateKey (\<lambda>i. rnd (Suc i)) m)"
  by (subst CreateKey.simps) (auto simp: wf_map_def contents_abs map_get_correct)

lemma CreateKey_fresh:
  assumes "wf_map m"
  shows "contents m (rnd n) = None \<Longrightarrow> (\<And>i. i < n \<Longrightarrow> contents m (rnd i) \<noteq> None) \<Longrightarrow>
    CreateKey rnd m = Some (Ret (rnd n))"
proof (induction n arbitrary: rnd)
  case 0
  then show ?case using CreateKey_step [OF assms, of rnd] by simp
next
  case (Suc n)
  have "contents m (rnd 0) \<noteq> None" using Suc.prems(2) by blast
  moreover have "CreateKey (\<lambda>i. rnd (Suc i)) m = Some (Ret (rnd (Suc n)))"
    using Suc.prems by (intro Suc.IH) auto
  ultimately show ?case using CreateKey_step [OF assms, of rnd] by (simp only: if_False)
qed

end
