(* ===== verification/Hashmap_Props.thy ===== *)
theory Hashmap_Props
  imports Map_Int64_Ops
begin

section \<open>Properties of package hashmap\<close>

text \<open>
  The properties of \<open>MapInt64\<close> and their witnesses. They rest on the interpretation \<open>mi\<close> of the
  map contract and on the lemmas of the three theories of the table.
\<close>




text \<open>
  \<open>Put\<close> on a well-formed map returns (no endless probe, no index panic, every nested rehash
  included), keeps the layout invariant, and changes the contents at its key only.
\<close>

lemma Put_updates:
  assumes "wf_map m" "room m 1"
  shows "\<exists>m'. Put m key val = Some (Ret m') \<and> wf_map m' \<and> contents m' = (contents m)(key \<mapsto> val)
    \<and> length (data m) \<le> length (data m')"
proof -
  obtain b where b: "map_inv b m" using assms(1) by (auto simp: wf_map_def)
  obtain b' m' where p: "Put m key val = Some (Ret m')" "map_inv b' m'" "contents m' = (contents m)(key \<mapsto> val)"
      "b \<le> b'"
    using Put_ok [OF b assms(2)] by metis
  have "(2::nat) ^ b \<le> 2 ^ b'" using p(4) by (intro power_increasing) auto
  then have "length (data m) \<le> length (data m')" using b p(2) by (simp add: map_inv_def sized_def)
  with p show ?thesis by (auto simp: wf_map_def)
qed

text \<open>The map of capacity 2 and threshold 1 that the witnesses start from.\<close>

definition small_map :: MapInt64 where
  "small_map = \<lparr>data = [0, 0, 0, 0], fillFactor = 1 / 2, threshold = 1, msize = 0, mmask = 1, mmask2 = 3,
     hasFreeKey = False, freeVal = 0\<rparr>"

lemma small_map_new: "NewMapInt64 1 (1 / 2) = Some (Ret small_map)"
  by code_simp

lemma small_map_wf: "wf_map small_map" "contents small_map = Map.empty"
proof -
  have f: "(of_int \<lceil>float_div (of_int 1) (1 / 2)\<rceil> :: 32 word) \<noteq> -1" by code_simp
  obtain b m where "NewMapInt64 1 (1 / 2) = Some (Ret m)" "map_inv b m" "abs_map b m = Map.empty"
    using NewMapInt64_ok [OF _ _ _ f] by (metis half_gt_zero_iff less_numeral_extra(1) one_less_numeral_iff divide_less_eq_1_pos semiring_norm(76) zero_less_numeral)
  then show "wf_map small_map" "contents small_map = Map.empty"
    using small_map_new by (auto simp: wf_map_def contents_abs)
qed

lemma small_map_room: "n < 2 ^ 59 \<Longrightarrow> room small_map n"
  unfolding room_def small_map_wf(2) by (simp add: small_map_def)

text \<open>
  \<open>Del\<close> of a present key, or of any key other than 0, returns, keeps the layout invariant
  (the backward shift leaves every remaining entry reachable from its home slot) and removes just
  that key.
\<close>

lemma Del_removes:
  assumes "wf_map m" "key \<noteq> FREE_KEY \<or> contents m key \<noteq> None"
  shows "\<exists>m'. Del m key = Some (Ret m') \<and> wf_map m' \<and> contents m' = (contents m)(key := None)
    \<and> msize m' = int (card (dom (contents m) - {key}))"
proof -
  obtain m' where "Del m key = Some (Ret m')" "wf_map m'" "contents m' = (contents m)(key := None)"
    using Del_contents [OF assms(1), of key] assms(2) by (auto simp: safe_del_def)
  moreover from this have "msize m' = int (card (dom (contents m) - {key}))"
    using Size_card by (auto simp: wf_map_def)
  ultimately show ?thesis by blast
qed

definition small_map1 :: MapInt64 where
  "small_map1 = small_map\<lparr>data := [5, 7, 0, 0], msize := 1\<rparr>"

lemma small_map1_put: "Put small_map 5 7 = Some (Ret small_map1)"
  by code_simp

lemma small_map1_wf: "wf_map small_map1" "contents small_map1 = [5 \<mapsto> 7]"
  using mi.put_law [OF small_map_wf(1), of 0 5 7] small_map_room [of 1] small_map1_put
  by (auto simp: small_map_wf(2))

text \<open>
  On a well-formed map \<open>Keys\<close> sends every key once, \<open>Items\<close> the same keys with the value \<open>Get\<close>
  returns for them, and \<open>Size\<close> is the number of keys.
\<close>

lemma iteration_exact:
  assumes "wf_map m"
  shows "distinct (Keys m) \<and> map fst (Items m) = Keys m
    \<and> (\<forall>k v. (k, v) \<in> set (Items m) \<longleftrightarrow> map_get m k = Some (Ret (v, True)))
    \<and> msize m = int (length (Keys m))"
proof -
  obtain b where b: "map_inv b m" using assms by (auto simp: wf_map_def)
  have d: "distinct (map fst (Items m))" using Keys_distinct [OF b] by (simp add: Keys_Items)
  have "(k, v) \<in> set (Items m) \<longleftrightarrow> map_get m k = Some (Ret (v, True))" for k v
    using map_of_eq_Some_iff [OF d, of k v] map_get_correct [OF b, of k]
    by (auto simp: contents_def [symmetric] contents_abs [OF b] split: option.splits)
  moreover have "msize m = int (length (Keys m))"
    using Size_card [OF b] distinct_card [OF Keys_distinct [OF b]] by (simp add: Keys_dom)
  ultimately show ?thesis using Keys_distinct [OF b] by (simp add: Keys_Items)
qed

text \<open>
  \<open>nextPowerOf2\<close> returns the least power of two that is not smaller than its argument, up to
  2^31; above 2^31 it wraps to 0, except that \<open>MaxUint32\<close> is returned unchanged.
\<close>

lemma nextPowerOf2_correct:
  "(if unat x \<le> 2 ^ 31
    then \<exists>k \<le> 31. unat (nextPowerOf2 x) = 2 ^ k \<and> unat x \<le> 2 ^ k \<and> \<not> (\<exists>j < k. unat x \<le> 2 ^ j)
    else nextPowerOf2 x = (if x = -1 then -1 else 0))"
proof (cases "unat x \<le> 2 ^ 31")
  case True
  then show ?thesis using nextPowerOf2_spec [of x] by (metis not_less)
next
  case False
  then show ?thesis using nextPowerOf2_wraps [of x] by (auto simp: nextPowerOf2_def)
qed

text \<open>
  C2. \<open>Del\<close> of the free key lowers the size even when the key is absent. After one such call the
  table can fill up: two insertions into a map of two slots leave no free slot, and \<open>Get\<close> of a
  missing key never returns.
\<close>

theorem Del_free_key_then_Get_diverges:
  "\<exists>m. run_ops map_get Put Del [OpDel FREE_KEY, OpPut 1 10, OpPut 2 20] small_map = Some (Ret ([], m))
    \<and> NewMapInt64 1 (1 / 2) = Some (Ret small_map)
    \<and> msize m = 1 \<and> length (Keys m) = 2 \<and> map_get m 3 = None"
proof -
  let ?m = "small_map\<lparr>data := [1, 10, 2, 20], msize := 1\<rparr>"
  have r: "run_ops map_get Put Del [OpDel FREE_KEY, OpPut 1 10, OpPut 2 20] small_map = Some (Ret ([], ?m))"
    by code_simp
  have full: "\<forall>p < 2 ^ 1. data ?m ! (2 * p) \<noteq> FREE_KEY \<and> data ?m ! (2 * p) \<noteq> 3"
    by (auto simp: FREE_KEY_def less_Suc_eq numeral_2_eq_2)
  have "map_get ?m 3 = None"
    by (rule map_get_full [OF _ _ _ _ full])
      (simp_all add: sized_def small_map_def FREE_KEY_def mask_eq_exp_minus_1)
  moreover have "length (Keys ?m) = 2" by code_simp
  ultimately show ?thesis using r small_map_new by (intro exI [of _ ?m]) simp
qed

text \<open>
  \<open>CreateKey\<close> returns the first of the random keys it draws that is not in the map; it goes on
  only over keys that are present.
\<close>

lemma CreateKey_first_absent:
  assumes "wf_map m" "contents m (rnd n) = None" "\<forall>i < n. contents m (rnd i) \<noteq> None"
  shows "CreateKey rnd m = Some (Ret (rnd n)) \<and> map_get m (rnd n) = Some (Ret (0, False))"
proof -
  obtain b where b: "map_inv b m" using assms(1) by (auto simp: wf_map_def)
  have "CreateKey rnd m = Some (Ret (rnd n))"
    using assms by (intro CreateKey_fresh [OF assms(1)]) auto
  then show ?thesis using map_get_correct [OF b] assms(2) by (simp add: contents_abs [OF b])
qed

end
