(* ===== verification/Map_Empty.thy ===== *)
theory Map_Empty
  imports Main "HOL-Library.FSet"
begin

section \<open>Package hashmap: MapEmpty\<close>

text \<open>
  \<^verbatim>\<open>hashmap/mapempty.go\<close>: a set over a built-in map with empty values. The built-in map is a finite
  set of keys; \<open>Range\<close> visits it in an order the language leaves open, a parameter of the model.
\<close>

record 'a MapEmpty =
  keyset :: "'a fset"

definition NewMapEmpty :: "'a MapEmpty" where
  "NewMapEmpty = \<lparr>keyset = {||}\<rparr>"

definition Add :: "'a MapEmpty \<Rightarrow> 'a \<Rightarrow> 'a MapEmpty \<times> bool" where
  "Add hs value = (hs\<lparr>keyset := finsert value (keyset hs)\<rparr>, True)"

definition Contains :: "'a MapEmpty \<Rightarrow> 'a \<Rightarrow> bool" where
  "Contains hs value \<longleftrightarrow> value |\<in>| keyset hs"

definition Remove :: "'a MapEmpty \<Rightarrow> 'a \<Rightarrow> 'a MapEmpty \<times> bool" where
  "Remove hs value = (hs\<lparr>keyset := keyset hs - {|value|}\<rparr>, True)"

definition Flush :: "'a MapEmpty \<Rightarrow> 'a MapEmpty" where
  "Flush hs = hs\<lparr>keyset := {||}\<rparr>"

definition Len :: "'a MapEmpty \<Rightarrow> nat" where
  "Len hs = fcard (keyset hs)"

text \<open>\<open>Range\<close> threads the callback's own state and stops after a call that returns false.\<close>

fun range_keys :: "('a \<Rightarrow> 's \<Rightarrow> bool \<times> 's) \<Rightarrow> 'a list \<Rightarrow> 's \<Rightarrow> 's" where
  "range_keys f [] s = s"
| "range_keys f (k # ks) s = (let (ok, s') = f k s in if ok then range_keys f ks s' else s')"

definition Range_with :: "('a fset \<Rightarrow> 'a list) \<Rightarrow> 'a MapEmpty \<Rightarrow> ('a \<Rightarrow> 's \<Rightarrow> bool \<times> 's) \<Rightarrow> 's \<Rightarrow> 's" where
  "Range_with order hs f s = range_keys f (order (keyset hs)) s"

text \<open>The contract of a mutable set.\<close>

locale set_adt =
  fixes mem :: "'s \<Rightarrow> 'a \<Rightarrow> bool" and new :: 's
    and add remove :: "'s \<Rightarrow> 'a \<Rightarrow> 's" and count :: "'s \<Rightarrow> nat"
  assumes mem_new: "\<not> mem new x"
    and mem_add: "mem (add s y) x \<longleftrightarrow> x = y \<or> mem s x"
    and mem_remove: "mem (remove s y) x \<longleftrightarrow> x \<noteq> y \<and> mem s x"
    and count_card: "finite {x. mem s x} \<and> count s = card {x. mem s x}"
begin

lemma count_add: "count (add s y) = (if mem s y then count s else count s + 1)"
proof -
  have "{x. mem (add s y) x} = insert y {x. mem s x}" by (auto simp: mem_add)
  then show ?thesis using count_card [of s] count_card [of "add s y"] by (simp add: card_insert_if)
qed

lemma count_remove: "count (remove s y) = (if mem s y then count s - 1 else count s)"
proof -
  have "{x. mem (remove s y) x} = {x. mem s x} - {y}" by (auto simp: mem_remove)
  then show ?thesis using count_card [of s] count_card [of "remove s y"] by (simp add: card_Diff_singleton_if)
qed

lemma mem_fold_add: "mem (fold (\<lambda>y s. add s y) ys s) x \<longleftrightarrow> x \<in> set ys \<or> mem s x"
  by (induction ys arbitrary: s) (auto simp: mem_add)

end

interpretation me: set_adt Contains NewMapEmpty "\<lambda>hs x. fst (Add hs x)" "\<lambda>hs x. fst (Remove hs x)" Len
proof
  fix s :: "'a MapEmpty"
  have "{x. Contains s x} = fset (keyset s)" by (auto simp: Contains_def)
  then show "finite {x. Contains s x} \<and> Len s = card {x. Contains s x}"
    by (simp add: Len_def fcard.rep_eq)
qed (auto simp: Contains_def NewMapEmpty_def Add_def Remove_def)

lemma range_keys_stop:
  "(\<And>k s. fst (f k s) = (k \<noteq> x)) \<Longrightarrow>
   range_keys f ks s = range_keys (\<lambda>k s. (True, snd (f k s))) (takeWhile (\<lambda>k. k \<noteq> x) ks @ (if x \<in> set ks then [x] else [])) s"
proof (induction ks arbitrary: s)
  case (Cons k ks)
  have "fst (f k s) = (k \<noteq> x)" using Cons.prems by blast
  then show ?case using Cons.IH [OF Cons.prems, of "snd (f k s)"]
    by (auto simp: Let_def split: prod.splits)
qed simp

end
