(* ===== verification/Argv_Spec.thy ===== *)
theory Argv_Spec
  imports Main
begin

section \<open>The contract of an argument-vector codec\<close>

text \<open>
  Two packages render an argument list as one command line and read it back. \<open>parses l as\<close> says
  that the reader accepts line \<open>l\<close> with arguments \<open>as\<close>; \<open>valid\<close> is the set of argument lists the
  writer is right for.
\<close>

locale argv_codec =
  fixes parses :: "string \<Rightarrow> string list \<Rightarrow> bool"
    and render :: "string list \<Rightarrow> string"
    and valid :: "string list \<Rightarrow> bool"
  assumes parses_det: "parses l as \<Longrightarrow> parses l bs \<Longrightarrow> as = bs"
    and parses_render: "valid as \<Longrightarrow> parses (render as) as"
begin

lemma parses_iff: "valid as \<Longrightarrow> parses (render as) bs \<longleftrightarrow> bs = as"
  using parses_det parses_render by blast

lemma render_inj: "valid as \<Longrightarrow> valid bs \<Longrightarrow> render as = render bs \<longleftrightarrow> as = bs"
  by (metis parses_iff)

text \<open>Reading and writing again normalises a line: a second round changes nothing.\<close>

lemma render_normal:
  assumes "parses l as" "valid as" "parses (render as) bs"
  shows "render bs = render as"
  using parses_iff [OF assms(2)] assms(3) by simp

end

end
