(* ===== verification/Sconv.thy ===== *)
theory Sconv
  imports Go_Prelude Argv_Spec
begin

section \<open>Package sconv: shell words\<close>

text \<open>
  \<^verbatim>\<open>sconv/sconv.go\<close>: \<open>StringToArgs\<close> splits a command line by the quoting rules of
  \<^verbatim>\<open>/bin/sh\<close>, \<open>ArgsToString\<close> quotes an argument list. The splitter's four \<open>goto\<close> labels are
  the values of \<open>label\<close>; \<open>input\<close> is the start of the pending segment and \<open>cur\<close> the scanning
  position, as in the code, and the buffer is a string. The named results of \<open>StringToArgs\<close>
  are a pair: the words read so far and the error, if any.
\<close>

datatype error =
    UnterminatedSingleQuoteError
  | UnterminatedDoubleQuoteError
  | UnterminatedEscapeError

definition splitChars :: string where "splitChars = [sp, nl, tab]"
definition doubleEscapeChars :: string where "doubleEscapeChars = [CHR ''$'', backq, dq, nl, bsl]"

datatype label = Raw | Escape | Single | Double

function splitWord_go :: "label \<Rightarrow> string \<Rightarrow> string \<Rightarrow> string \<Rightarrow> error + string \<times> string" where
  "splitWord_go Raw buf input cur =
     (if cur = [] then Inr (buf @ input, [])
      else let (c, l) = decode_rune cur; cur' = drop l cur;
               seg = take (length input - length cur' - l) input
           in if c = byte sq then splitWord_go Single (buf @ seg) cur' cur'
              else if c = byte dq then splitWord_go Double (buf @ seg) cur' cur'
              else if c = byte bsl then splitWord_go Escape (buf @ seg) cur' cur'
              else if contains_rune splitChars c then Inr (buf @ seg, cur')
              else splitWord_go Raw buf input cur')"
| "splitWord_go Escape buf input cur =
     (if cur = [] then Inl UnterminatedEscapeError
      else let (c, l) = decode_rune cur
           in splitWord_go Raw (if c = byte nl then buf else buf @ take l cur)
                (drop l cur) (drop l cur))"
| "splitWord_go Single buf input cur =
     (case index_byte cur sq of
        None \<Rightarrow> Inl UnterminatedSingleQuoteError
      | Some i \<Rightarrow> splitWord_go Raw (buf @ take i cur) (drop (i + 1) cur) (drop (i + 1) cur))"
| "splitWord_go Double buf input cur =
     (if cur = [] then Inl UnterminatedDoubleQuoteError
      else let (c, l) = decode_rune cur; cur' = drop l cur
           in if c = byte dq
              then splitWord_go Raw (buf @ take (length input - length cur' - l) input) cur' cur'
              else if c = byte bsl
              then (let (c2, l2) = decode_rune cur'; cur'' = drop l2 cur'
                    in if contains_rune doubleEscapeChars c2
                       then splitWord_go Double
                              (buf @ take (length input - length cur'' - l - l2) input
                                 @ (if c2 = byte nl then [] else encode_rune c2))
                              cur'' cur''
                       else splitWord_go Double buf input cur'')
              else splitWord_go Double buf input cur')"
  by pat_completeness auto

termination splitWord_go
proof (relation "measure (\<lambda>(lb, buf, input, cur). length cur)", goal_cases)
  case (7 buf input cur x2)
  then show ?case by (auto dest: index_byte_bound)
qed (auto dest: decode_rune_pos)

definition splitWord :: "string \<Rightarrow> error + string \<times> string" where
  "splitWord input = splitWord_go Raw [] input input"


declare splitWord_go.simps [simp del]

subsection \<open>A byte-level reference for the splitter\<close>

text \<open>
  The word grammar over bytes: one equation per label and next byte, no segments and no
  decoding. \<open>splitWord_ref\<close> shows that the scanner of the code computes it on every input,
  valid UTF-8 or not.
\<close>

fun sh_word :: "label \<Rightarrow> string \<Rightarrow> string \<Rightarrow> error + string \<times> string" where
  "sh_word Raw buf [] = Inr (buf, [])"
| "sh_word Raw buf (c # cs) =
     (if c = sq then sh_word Single buf cs
      else if c = dq then sh_word Double buf cs
      else if c = bsl then sh_word Escape buf cs
      else if c \<in> set splitChars then Inr (buf, cs)
      else sh_word Raw (buf @ [c]) cs)"
| "sh_word Escape buf [] = Inl UnterminatedEscapeError"
| "sh_word Escape buf (c # cs) = sh_word Raw (if c = nl then buf else buf @ [c]) cs"
| "sh_word Single buf [] = Inl UnterminatedSingleQuoteError"
| "sh_word Single buf (c # cs) =
     (if c = sq then sh_word Raw buf cs else sh_word Single (buf @ [c]) cs)"
| "sh_word Double buf [] = Inl UnterminatedDoubleQuoteError"
| "sh_word Double buf [c] =
     (if c = dq then sh_word Raw buf [] else Inl UnterminatedDoubleQuoteError)"
| "sh_word Double buf (c # d # cs) =
     (if c = dq then sh_word Raw buf (d # cs)
      else if c = bsl
      then (if d \<in> set doubleEscapeChars
            then sh_word Double (if d = nl then buf else buf @ [d]) cs
            else sh_word Double (buf @ [c, d]) cs)
      else sh_word Double (buf @ [c]) (d # cs))"

lemma special_ascii [simp]:
  "ascii sq" "ascii dq" "ascii bsl" "ascii nl" "ascii sp" "ascii tab" "ascii cr"
  "\<forall>c \<in> set splitChars. ascii c" "\<forall>c \<in> set doubleEscapeChars. ascii c"
  by (simp_all add: ascii_def splitChars_def doubleEscapeChars_def)

lemma nonascii_special:
  "\<not> ascii c \<Longrightarrow> c \<noteq> sq \<and> c \<noteq> dq \<and> c \<noteq> bsl \<and> c \<noteq> nl \<and> c \<notin> set splitChars \<and> c \<notin> set doubleEscapeChars"
  using special_ascii by blast

lemma sh_word_Raw_nonascii:
  "\<forall>x \<in> set xs. \<not> ascii x \<Longrightarrow> sh_word Raw buf (xs @ ys) = sh_word Raw (buf @ xs) ys"
  by (induction xs arbitrary: buf) (auto dest: nonascii_special)

lemma sh_word_Double_nonascii:
  "\<forall>x \<in> set xs. \<not> ascii x \<Longrightarrow> sh_word Double buf (xs @ ys) = sh_word Double (buf @ xs) ys"
proof (induction xs arbitrary: buf)
  case (Cons x xs)
  then have x: "x \<noteq> dq" "x \<noteq> bsl" by (auto dest: nonascii_special)
  show ?case using Cons x by (cases "xs @ ys") auto
qed simp

lemma sh_word_Single:
  "sh_word Single buf cur =
     (case index_byte cur sq of None \<Rightarrow> Inl UnterminatedSingleQuoteError
      | Some i \<Rightarrow> sh_word Raw (buf @ take i cur) (drop (Suc i) cur))"
  by (induction cur arbitrary: buf) (auto split: option.splits)

lemma take_seg [simp]:
  "take (length (seg @ xs @ ys) - length ys - length xs) (seg @ xs @ ys) = seg"
  by simp

lemma decode_split:
  assumes "\<not> ascii c"
  obtains r xs ys where "decode_rune (c # cs) = (r, length xs)" "c # cs = xs @ ys" "128 \<le> r"
    "xs \<noteq> []" "\<forall>x \<in> set xs. \<not> ascii x"
proof -
  obtain r l where d: "decode_rune (c # cs) = (r, l)" by fastforce
  have l: "l \<le> length (c # cs)" "0 < l"
    using d decode_rune_width_le [of "c # cs"] decode_rune_pos [of r l "c # cs"] by auto
  have "nonascii_run (c # cs) (r, l)" using decode_rune_nonascii [OF assms, of cs] d by simp
  then show ?thesis
    using that [of r "take l (c # cs)" "drop l (c # cs)"] d l by (simp add: nonascii_run_def)
qed

lemma rune_not_special:
  assumes "128 \<le> (r::rune)"
  shows "r \<noteq> byte sq" "r \<noteq> byte dq" "r \<noteq> byte bsl" "r \<noteq> byte nl"
    "\<not> contains_rune splitChars r" "\<not> contains_rune doubleEscapeChars r"
  using assms
  by (auto simp: contains_rune_ascii) (auto simp: splitChars_def doubleEscapeChars_def)

lemma go_Raw_ascii:
  "ascii c \<Longrightarrow> splitWord_go Raw buf (seg @ c # cs) (c # cs) =
     (if c = sq then splitWord_go Single (buf @ seg) cs cs
      else if c = dq then splitWord_go Double (buf @ seg) cs cs
      else if c = bsl then splitWord_go Escape (buf @ seg) cs cs
      else if c \<in> set splitChars then Inr (buf @ seg, cs)
      else splitWord_go Raw buf (seg @ c # cs) cs)"
  using byte_inject [of c sq] byte_inject [of c dq] byte_inject [of c bsl]
  by (subst splitWord_go.simps(1)) (simp add: decode_rune_ascii contains_rune_ascii image_iff)

lemma go_Raw_nonascii:
  assumes "decode_rune (xs @ ys) = (r, length xs)" "128 \<le> r" "xs \<noteq> []"
  shows "splitWord_go Raw buf input (xs @ ys) = splitWord_go Raw buf input ys"
  using assms(1,3) rune_not_special [OF assms(2)]
  by (subst splitWord_go.simps) simp

lemma go_Double_ascii:
  "ascii c \<Longrightarrow> c \<noteq> bsl \<Longrightarrow> splitWord_go Double buf (seg @ c # cs) (c # cs) =
     (if c = dq then splitWord_go Raw (buf @ seg) cs cs
      else splitWord_go Double buf (seg @ c # cs) cs)"
  using byte_inject [of c dq] byte_inject [of c bsl]
  by (subst splitWord_go.simps(4)) (simp add: decode_rune_ascii)

lemma go_Double_escape_end: "splitWord_go Double buf input [bsl] = Inl UnterminatedDoubleQuoteError"
  using rune_not_special [of RuneError]
  by (simp add: splitWord_go.simps(4) decode_rune_ascii)

lemma go_Double_escape_ascii:
  "ascii d \<Longrightarrow> splitWord_go Double buf (seg @ bsl # d # cs) (bsl # d # cs) =
     (if d \<in> set doubleEscapeChars
      then splitWord_go Double (buf @ seg @ (if d = nl then [] else [d])) cs cs
      else splitWord_go Double buf (seg @ bsl # d # cs) cs)"
  using byte_inject [of d nl]
  by (subst splitWord_go.simps(4))
     (simp add: decode_rune_ascii contains_rune_ascii image_iff encode_rune_ascii)

lemma go_Double_escape_nonascii:
  assumes "decode_rune (xs @ ys) = (r, length xs)" "128 \<le> r"
  shows "splitWord_go Double buf input (bsl # xs @ ys) = splitWord_go Double buf input ys"
  using assms(1) rune_not_special [OF assms(2)]
  by (subst splitWord_go.simps(4)) (simp add: decode_rune_ascii)

lemma go_Double_nonascii:
  assumes "decode_rune (xs @ ys) = (r, length xs)" "128 \<le> r" "xs \<noteq> []"
  shows "splitWord_go Double buf input (xs @ ys) = splitWord_go Double buf input ys"
  using assms(1,3) rune_not_special [OF assms(2)]
  by (subst splitWord_go.simps) simp

lemma go_Escape:
  assumes "decode_rune (xs @ ys) = (r, length xs)" "128 \<le> r" "xs \<noteq> []"
  shows "splitWord_go Escape buf input (xs @ ys) = splitWord_go Raw (buf @ xs) ys ys"
  using assms(1,3) rune_not_special [OF assms(2)]
  by (subst splitWord_go.simps(2)) simp

lemma go_Escape_ascii:
  "ascii c \<Longrightarrow> splitWord_go Escape buf input (c # cs) =
     splitWord_go Raw (if c = nl then buf else buf @ [c]) cs cs"
  using byte_inject [of c nl] by (subst splitWord_go.simps(2)) (simp add: decode_rune_ascii)

text \<open>
  The scanner with pending segment \<open>seg\<close> is the reference with \<open>seg\<close> already written. The
  induction is on the length of the unread input; \<open>agree n\<close> is its hypothesis.
\<close>

definition agree :: "nat \<Rightarrow> bool" where
  "agree n \<longleftrightarrow> (\<forall>lb buf seg cur. length cur < n \<longrightarrow> lb \<in> {Raw, Double} \<or> seg = [] \<longrightarrow>
     splitWord_go lb buf (seg @ cur) cur = sh_word lb (buf @ seg) cur)"

lemma agreeD:
  "agree n \<Longrightarrow> length cur < n \<Longrightarrow> lb \<in> {Raw, Double} \<Longrightarrow>
     splitWord_go lb buf (seg @ cur) cur = sh_word lb (buf @ seg) cur"
  "agree n \<Longrightarrow> length cur < n \<Longrightarrow> splitWord_go lb buf cur cur = sh_word lb buf cur"
  unfolding agree_def by (blast, metis append_Nil append_Nil2)

lemma agree_Raw:
  assumes "agree (length cur)"
  shows "splitWord_go Raw buf (seg @ cur) cur = sh_word Raw (buf @ seg) cur"
proof (cases cur)
  case Nil
  then show ?thesis by (simp add: splitWord_go.simps)
next
  case (Cons c cs)
  note IH = agreeD [OF assms]
  show ?thesis
  proof (cases "ascii c")
    case True
    have "splitWord_go Raw buf ((seg @ [c]) @ cs) cs = sh_word Raw (buf @ seg @ [c]) cs"
      using IH(1) [of cs Raw buf "seg @ [c]"] Cons by simp
    then show ?thesis using True Cons by (simp add: go_Raw_ascii IH(2))
  next
    case False
    then obtain r xs ys where d: "decode_rune (c # cs) = (r, length xs)" "c # cs = xs @ ys"
        "128 \<le> r" "xs \<noteq> []" "\<forall>x \<in> set xs. \<not> ascii x"
      by (rule decode_split)
    have "splitWord_go Raw buf ((seg @ xs) @ ys) ys = sh_word Raw (buf @ seg @ xs) ys"
      using IH(1) [of ys Raw buf "seg @ xs"] d(4) Cons d(2) by simp
    with d Cons show ?thesis
      by (simp add: go_Raw_nonascii sh_word_Raw_nonascii)
  qed
qed

lemma agree_Escape:
  assumes "agree (length cur)"
  shows "splitWord_go Escape buf cur cur = sh_word Escape buf cur"
proof (cases cur)
  case Nil
  then show ?thesis by (simp add: splitWord_go.simps)
next
  case (Cons c cs)
  note IH = agreeD [OF assms]
  show ?thesis
  proof (cases "ascii c")
    case True
    with Cons show ?thesis by (simp add: go_Escape_ascii IH(2))
  next
    case False
    then obtain r xs ys where d: "decode_rune (c # cs) = (r, length xs)" "c # cs = xs @ ys"
        "128 \<le> r" "xs \<noteq> []" "\<forall>x \<in> set xs. \<not> ascii x"
      by (rule decode_split)
    from d(2,4) obtain xs' where xs: "xs = c # xs'" "cs = xs' @ ys" by (cases xs) auto
    have "sh_word Escape buf cur = sh_word Raw (buf @ xs) ys"
      using nonascii_special [OF False] d(5) by (simp add: Cons xs sh_word_Raw_nonascii)
    with d Cons show ?thesis by (simp add: go_Escape IH(2))
  qed
qed

lemma agree_Double:
  assumes "agree (length cur)"
  shows "splitWord_go Double buf (seg @ cur) cur = sh_word Double (buf @ seg) cur"
proof (cases cur)
  case Nil
  then show ?thesis by (simp add: splitWord_go.simps)
next
  case (Cons c cs)
  note IH = agreeD [OF assms]
  consider (esc) "c = bsl" | (plain) "ascii c" "c \<noteq> bsl" | (run) "\<not> ascii c" "c \<noteq> bsl"
    by blast
  then show ?thesis
  proof cases
    case esc
    show ?thesis
    proof (cases cs)
      case Nil
      with esc Cons show ?thesis by (simp add: go_Double_escape_end)
    next
      case cs: (Cons d ds)
      show ?thesis
      proof (cases "ascii d")
        case True
        have "splitWord_go Double buf ((seg @ [bsl, d]) @ ds) ds
            = sh_word Double (buf @ seg @ [bsl, d]) ds"
          using IH(1) [of ds Double buf "seg @ [bsl, d]"] Cons cs by simp
        with True esc Cons cs show ?thesis by (simp add: go_Double_escape_ascii IH(2))
      next
        case False
        then obtain r xs ys where d: "decode_rune (d # ds) = (r, length xs)" "d # ds = xs @ ys"
            "128 \<le> r" "xs \<noteq> []" "\<forall>x \<in> set xs. \<not> ascii x"
          by (rule decode_split)
        from d(2,4) obtain xs' where xs: "xs = d # xs'" "ds = xs' @ ys" by (cases xs) auto
        have "splitWord_go Double buf ((seg @ bsl # xs) @ ys) ys
            = sh_word Double (buf @ seg @ bsl # xs) ys"
          using IH(1) [of ys Double buf "seg @ bsl # xs"] Cons cs d(2) by simp
        moreover have "sh_word Double (buf @ seg) cur = sh_word Double (buf @ seg @ bsl # xs) ys"
          using nonascii_special [OF False] d(5)
          by (simp add: Cons cs esc xs sh_word_Double_nonascii)
        ultimately show ?thesis
          using d esc Cons cs by (simp add: go_Double_escape_nonascii)
      qed
    qed
  next
    case plain
    have "splitWord_go Double buf ((seg @ [c]) @ cs) cs = sh_word Double (buf @ seg @ [c]) cs"
      using IH(1) [of cs Double buf "seg @ [c]"] Cons by simp
    with plain Cons show ?thesis
      by (cases cs) (simp_all add: go_Double_ascii IH(2))
  next
    case run
    then obtain r xs ys where d: "decode_rune (c # cs) = (r, length xs)" "c # cs = xs @ ys"
        "128 \<le> r" "xs \<noteq> []" "\<forall>x \<in> set xs. \<not> ascii x"
      using decode_split by metis
    have "splitWord_go Double buf ((seg @ xs) @ ys) ys = sh_word Double (buf @ seg @ xs) ys"
      using IH(1) [of ys Double buf "seg @ xs"] d(4) Cons d(2) by simp
    with d Cons show ?thesis
      by (simp add: go_Double_nonascii sh_word_Double_nonascii)
  qed
qed

lemma agree_Single:
  assumes "agree (length cur)"
  shows "splitWord_go Single buf cur cur = sh_word Single buf cur"
  using agreeD(2) [OF assms]
  by (auto simp: splitWord_go.simps(3) sh_word_Single dest: index_byte_bound split: option.split)

lemma agree_all: "agree n"
proof (induction n)
  case (Suc n)
  have "splitWord_go lb buf (seg @ cur) cur = sh_word lb (buf @ seg) cur"
    if "length cur < Suc n" "lb \<in> {Raw, Double} \<or> seg = []" for lb buf seg cur
  proof -
    have "agree (length cur)" using Suc that(1) by (auto simp: agree_def)
    with that(2) show ?thesis
      by (cases lb) (auto simp: agree_Raw agree_Double agree_Single agree_Escape)
  qed
  then show ?case by (simp add: agree_def)
qed (simp add: agree_def)

lemma splitWord_ref: "splitWord input = sh_word Raw [] input"
  using agreeD(2) [OF agree_all [of "Suc (length input)"], of input Raw "[]"]
  by (simp add: splitWord_def)

lemma sh_word_rest:
  "sh_word lb buf cur = Inr (w, rest) \<Longrightarrow> cur \<noteq> [] \<Longrightarrow> length rest < length cur"
proof (induction lb buf cur arbitrary: w rest rule: sh_word.induct)
  case (2 buf c cs)
  then show ?case by (cases cs) (auto split: if_splits)
next
  case (4 buf c cs)
  then show ?case by (cases cs) auto
next
  case (6 buf c cs)
  then show ?case by (cases cs) (auto split: if_splits)
next
  case (9 buf c d cs)
  then show ?case by (cases cs) (fastforce split: if_splits)+
qed (auto split: if_splits)

subsection \<open>Splitting a line\<close>

function StringToArgs_loop :: "string \<Rightarrow> string list \<Rightarrow> string list \<times> error option" where
  "StringToArgs_loop input words =
     (if input = [] then (words, None)
      else let (c, l) = decode_rune input
           in if contains_rune splitChars c then StringToArgs_loop (drop l input) words
              else if c = byte bsl \<and> drop l input = []
              then (words, Some UnterminatedEscapeError)
              else if c = byte bsl \<and> fst (decode_rune (drop l input)) = byte nl
              then StringToArgs_loop (drop (snd (decode_rune (drop l input))) (drop l input)) words
              else (case splitWord input of
                      Inl e \<Rightarrow> (words, Some e)
                    | Inr (word, rest) \<Rightarrow> StringToArgs_loop rest (words @ [word])))"
  by pat_completeness auto
termination
  by (relation "measure (\<lambda>(input, words). length input)")
     (auto simp: splitWord_ref dest: decode_rune_pos sh_word_rest)

declare StringToArgs_loop.simps [simp del]

definition StringToArgs :: "string \<Rightarrow> string list \<times> error option" where
  "StringToArgs input = StringToArgs_loop input []"

subsection \<open>Quoting\<close>

definition specialChars :: string where
  "specialChars = [bsl, sq, dq, backq] @ ''${[|&;<>()*?!''"
definition extraSpecialChars :: string where "extraSpecialChars = [sp, tab, nl]"
definition prefixChars :: string where "prefixChars = ''~''"

text \<open>
  The first loop of \<open>quote\<close>: \<open>prev\<close> is the text not yet copied. \<open>None\<close> is the jump to
  quote mode, where the buffer is truncated to its length on entry.
\<close>

function quote_scan :: "string \<Rightarrow> string \<Rightarrow> string \<Rightarrow> bool \<Rightarrow> string option" where
  "quote_scan buf prev cur atStart =
     (if cur = [] then Some (buf @ prev)
      else let (c, l) = decode_rune cur; cur' = drop l cur
           in if contains_rune specialChars c \<or> (atStart \<and> contains_rune prefixChars c)
              then quote_scan (buf @ (if length cur' < length prev
                                      then take (length prev - length cur' - l) prev else [])
                                 @ [bsl] @ encode_rune c) cur' cur' False
              else if contains_rune extraSpecialChars c then None
              else quote_scan buf prev cur' False)"
  by pat_completeness auto
termination
  by (relation "measure (\<lambda>(buf, prev, cur, atStart). length cur)") (auto dest: decode_rune_pos)

declare quote_scan.simps [simp del]

function quote_mode :: "string \<Rightarrow> string \<Rightarrow> bool \<Rightarrow> string" where
  "quote_mode buf word inQuote =
     (case index_byte word sq of
        Some i \<Rightarrow>
          (let opens = i > 0 \<and> \<not> inQuote;
               buf1 = buf @ (if i > 0 then (if opens then [sq] else []) @ take i word else []);
               inQuote1 = (if i > 0 then True else inQuote);
               buf2 = buf1 @ (if inQuote1 then [sq] else []) @ [bsl, sq]
           in quote_mode buf2 (drop (i + 1) word) False)
      | None \<Rightarrow>
          if word = [] then buf
          else buf @ (if inQuote then [] else [sq]) @ word @ [sq])"
  by pat_completeness auto
termination
  by (relation "measure (\<lambda>(buf, word, inQuote). length word)") (auto dest: index_byte_bound)

declare quote_mode.simps [simp del]

definition quote :: "string \<Rightarrow> string \<Rightarrow> string" where
  "quote word buf =
     (if word = [] then buf @ [sq, sq]
      else case quote_scan buf word word True of
             Some buf' \<Rightarrow> buf'
           | None \<Rightarrow> quote_mode buf word False)"

fun ArgsToString_loop :: "bool \<Rightarrow> string \<Rightarrow> string list \<Rightarrow> string" where
  "ArgsToString_loop first buf [] = buf"
| "ArgsToString_loop first buf (arg # args) =
     ArgsToString_loop False (quote arg (if first then buf else buf @ [sp])) args"

definition ArgsToString :: "string list \<Rightarrow> string" where
  "ArgsToString args = ArgsToString_loop True [] args"

subsection \<open>What the quoter writes\<close>

fun esc_word :: "bool \<Rightarrow> string \<Rightarrow> string" where
  "esc_word st [] = []"
| "esc_word st (c # cs) =
     (if c \<in> set specialChars \<or> (st \<and> c \<in> set prefixChars) then [bsl, c] else [c])
       @ esc_word False cs"

lemma special_ascii2 [simp]:
  "\<forall>c \<in> set specialChars. ascii c" "\<forall>c \<in> set extraSpecialChars. ascii c"
  "\<forall>c \<in> set prefixChars. ascii c"
  by (simp_all add: ascii_def specialChars_def extraSpecialChars_def prefixChars_def)

lemma esc_word_nonascii:
  "\<forall>x \<in> set xs. \<not> ascii x \<Longrightarrow> xs \<noteq> [] \<Longrightarrow> esc_word st (xs @ ys) = xs @ esc_word False ys"
proof (induction xs arbitrary: st)
  case (Cons x xs)
  then have "x \<notin> set specialChars" "x \<notin> set prefixChars" using special_ascii2 by auto
  with Cons.IH [of False] Cons.prems show ?case by (cases xs) auto
qed simp

lemma quote_scan_spec:
  "quote_scan buf (seg @ cur) cur st =
     (if set cur \<inter> set extraSpecialChars = {} then Some (buf @ seg @ esc_word st cur) else None)"
proof (induction cur arbitrary: buf seg st rule: length_induct)
  case (1 cur)
  show ?case
  proof (cases cur)
    case Nil
    then show ?thesis by (simp add: quote_scan.simps)
  next
    case cur: (Cons c cs)
    show ?thesis
    proof (cases "ascii c")
      case True
      have IH: "quote_scan buf' (seg' @ cs) cs False =
          (if set cs \<inter> set extraSpecialChars = {} then Some (buf' @ seg' @ esc_word False cs)
           else None)" for buf' seg'
        using 1 cur by simp
      have dis: "set specialChars \<inter> set extraSpecialChars = {}"
        "set prefixChars \<inter> set extraSpecialChars = {}"
        by (auto simp: specialChars_def extraSpecialChars_def prefixChars_def)
      show ?thesis
        using True dis IH [of _ "[]"] IH [of buf "seg @ [c]"] special_ascii2
        by (subst quote_scan.simps)
           (auto simp: cur decode_rune_ascii contains_rune_ascii encode_rune_ascii)
    next
      case False
      then obtain r xs ys where d: "decode_rune (c # cs) = (r, length xs)" "c # cs = xs @ ys"
          "128 \<le> r" "xs \<noteq> []" "\<forall>x \<in> set xs. \<not> ascii x"
        by (rule decode_split)
      have r: "\<not> contains_rune specialChars r" "\<not> contains_rune prefixChars r"
        "\<not> contains_rune extraSpecialChars r"
        using d(3) by (auto simp: contains_rune_ascii)
          (auto simp: specialChars_def prefixChars_def extraSpecialChars_def)
      have xs: "set xs \<inter> set extraSpecialChars = {}" using d(5) special_ascii2 by blast
      have "quote_scan buf ((seg @ xs) @ ys) ys False =
          (if set ys \<inter> set extraSpecialChars = {} then Some (buf @ (seg @ xs) @ esc_word False ys)
           else None)"
        using 1 [rule_format, of ys buf "seg @ xs" False] cur d(2,4) by simp
      then show ?thesis
        using d r xs by (subst quote_scan.simps) (auto simp: cur esc_word_nonascii)
    qed
  qed
qed

text \<open>
  Reading back what the quoter wrote, before the end of the line or a separator: the reference
  reader appends exactly the word.
\<close>

lemma sh_word_esc_word:
  "set w \<inter> set extraSpecialChars = {} \<Longrightarrow>
   sh_word Raw buf (esc_word st w @ tail) = sh_word Raw (buf @ w) tail"
proof (induction w arbitrary: buf st)
  case (Cons c w)
  then have c: "c \<noteq> nl" "c \<notin> set splitChars"
    by (auto simp: extraSpecialChars_def splitChars_def)
  have esc: "c \<in> set specialChars \<Longrightarrow> c \<noteq> bsl \<and> c \<noteq> sq \<and> c \<noteq> dq \<or> c \<in> {bsl, sq, dq}" by blast
  have plain: "c \<notin> set specialChars \<Longrightarrow> c \<noteq> sq \<and> c \<noteq> dq \<and> c \<noteq> bsl"
    by (auto simp: specialChars_def)
  show ?case using Cons c plain by auto
qed simp

lemma sh_word_Single_run:
  "sq \<notin> set w \<Longrightarrow> sh_word Single buf (w @ sq # tail) = sh_word Raw (buf @ w) tail"
  by (simp add: sh_word_Single index_byte_append)

lemma quote_mode_acc: "quote_mode buf word False = buf @ quote_mode [] word False"
proof (induction word arbitrary: buf rule: length_induct)
  case (1 word)
  show ?case
  proof (cases "index_byte word sq")
    case (Some i)
    then have "length (drop (Suc i) word) < length word" by (auto dest: index_byte_bound)
    with 1 have IH: "quote_mode b (drop (Suc i) word) False
        = b @ quote_mode [] (drop (Suc i) word) False" for b by blast
    show ?thesis
      using IH [of "buf @ sq # take i word @ [sq, bsl, sq]"] IH [of "sq # take i word @ [sq, bsl, sq]"]
        IH [of "buf @ [bsl, sq]"] IH [of "[bsl, sq]"]
      by (subst (1 2) quote_mode.simps) (auto simp: Some Let_def)
  qed (simp add: quote_mode.simps)
qed

lemma sh_word_quote_mode:
  "sh_word Raw buf (quote_mode [] word False @ tail) = sh_word Raw (buf @ word) tail"
proof (induction word arbitrary: buf rule: length_induct)
  case (1 word)
  show ?case
  proof (cases "index_byte word sq")
    case None
    then have "sq \<notin> set word" by (simp add: index_byte_None)
    then show ?thesis
      by (subst quote_mode.simps) (simp add: None sh_word_Single_run)
  next
    case (Some i)
    let ?rest = "drop (Suc i) word"
    note w = index_byte_Some [OF Some]
    have "length ?rest < length word" using index_byte_bound [OF Some] by auto
    with 1 have IH: "sh_word Raw b (quote_mode [] ?rest False @ tail) = sh_word Raw (b @ ?rest) tail"
      for b by blast
    have q: "quote_mode [] word False =
        (if 0 < i then sq # take i word @ [sq] else []) @ bsl # sq # quote_mode [] ?rest False"
      by (subst quote_mode.simps, subst quote_mode_acc) (simp add: Some Let_def)
    have "sh_word Raw buf (quote_mode [] word False @ tail)
        = sh_word Raw (buf @ take i word @ sq # ?rest) tail"
      using w IH by (auto simp: q sh_word_Single_run)
    with w show ?thesis by (metis)
  qed
qed

definition quoted :: "string \<Rightarrow> string" where
  "quoted w = quote w []"

lemma quote_acc: "quote w buf = buf @ quoted w"
  using quote_scan_spec [of buf "[]" w True] quote_scan_spec [of "[]" "[]" w True]
    quote_mode_acc [of buf w]
  by (simp add: quoted_def quote_def)

lemma sh_word_quoted: "sh_word Raw buf (quoted w @ tail) = sh_word Raw (buf @ w) tail"
  using quote_scan_spec [of "[]" "[]" w True] sh_word_quote_mode sh_word_esc_word
  by (auto simp: quoted_def quote_def)

text \<open>
  A quoted word is not empty and starts neither with a separator nor with an escaped newline,
  so the splitter's outer loop hands it to \<open>splitWord\<close>.
\<close>

definition word_start :: "string \<Rightarrow> bool" where
  "word_start s \<longleftrightarrow> (case s of [] \<Rightarrow> False
     | c # cs \<Rightarrow> c \<notin> set splitChars \<and> (c = bsl \<longrightarrow> (case cs of [] \<Rightarrow> False | d # _ \<Rightarrow> d \<noteq> nl)))"

lemma word_start_esc:
  "set w \<inter> set extraSpecialChars = {} \<Longrightarrow> w \<noteq> [] \<Longrightarrow> word_start (esc_word st w @ tail)"
  by (cases w)
     (auto simp: word_start_def extraSpecialChars_def splitChars_def specialChars_def)

lemma word_start_quote_mode: "w \<noteq> [] \<Longrightarrow> word_start (quote_mode [] w False @ tail)"
  by (subst quote_mode.simps)
     (auto simp: word_start_def splitChars_def Let_def quote_mode_acc [of "_ # _"]
           split: option.split)

lemma word_start_quoted: "word_start (quoted w @ tail)"
  using quote_scan_spec [of "[]" "[]" w True] word_start_esc [of w True tail]
    word_start_quote_mode [of w tail]
  by (auto simp: quoted_def quote_def word_start_def [of "sq # _"] splitChars_def)

lemma StringToArgs_loop_word:
  assumes "word_start s"
  shows "StringToArgs_loop s words =
    (case sh_word Raw [] s of Inl e \<Rightarrow> (words, Some e)
     | Inr (w, rest) \<Rightarrow> StringToArgs_loop rest (words @ [w]))"
proof -
  from assms obtain c cs where s: "s = c # cs" and c: "c \<notin> set splitChars"
    and esc: "c = bsl \<longrightarrow> cs \<noteq> [] \<and> hd cs \<noteq> nl"
    by (auto simp: word_start_def split: list.splits)
  obtain r l where d: "decode_rune (c # cs) = (r, l)" by fastforce
  have r: "\<not> contains_rune splitChars r" using contains_rune_decode [of splitChars c cs] c d by simp
  have bs: "r = byte bsl \<longleftrightarrow> c = bsl" using decode_rune_eq_ascii [of bsl c cs] d by simp
  have nb: "fst (decode_rune cs) \<noteq> byte nl" if "c = bsl"
    using esc that decode_rune_eq_ascii [of nl "hd cs" "tl cs"] by (cases cs) auto
  have l1: "l = 1" if "c = bsl" using d that by (simp add: decode_rune_ascii)
  show ?thesis
    using r bs nb l1 esc
    by (subst StringToArgs_loop.simps) (auto simp: s d splitWord_ref)
qed

lemma StringToArgs_loop_sp: "StringToArgs_loop (sp # s) words = StringToArgs_loop s words"
  by (subst StringToArgs_loop.simps)
     (simp add: decode_rune_ascii contains_rune_ascii splitChars_def)

lemma ArgsToString_loop_spec:
  "ArgsToString_loop False buf args = buf @ concat (map (\<lambda>w. sp # quoted w) args)"
  by (induction args arbitrary: buf) (simp_all add: quote_acc)

lemma StringToArgs_loop_args:
  "StringToArgs_loop (concat (map (\<lambda>w. sp # quoted w) args)) words = (words @ args, None)"
proof (induction args arbitrary: words)
  case Nil
  then show ?case by (simp add: StringToArgs_loop.simps)
next
  case (Cons w args)
  let ?tail = "concat (map (\<lambda>w. sp # quoted w) args)"
  have tail: "sh_word Raw w ?tail = Inr (w, drop (Suc 0) ?tail)"
    by (cases args) (simp_all add: splitChars_def)
  have rest: "StringToArgs_loop (drop (Suc 0) ?tail) ws = StringToArgs_loop ?tail ws" for ws
    by (cases args) (simp_all add: StringToArgs_loop_sp)
  show ?case
    using sh_word_quoted [of "[]" w ?tail]
    by (simp add: StringToArgs_loop_sp StringToArgs_loop_word [OF word_start_quoted] tail rest Cons)
qed

lemma StringToArgs_ArgsToString: "StringToArgs (ArgsToString args) = (args, None)"
proof -
  have "StringToArgs (ArgsToString args)
      = StringToArgs_loop (concat (map (\<lambda>w. sp # quoted w) args)) []"
    by (cases args)
       (simp_all add: StringToArgs_def ArgsToString_def quote_acc ArgsToString_loop_spec
          StringToArgs_loop_sp)
  then show ?thesis by (simp add: StringToArgs_loop_args)
qed

subsection \<open>The codec contract\<close>

interpretation sc: argv_codec "\<lambda>l as. StringToArgs l = (as, None)" ArgsToString "\<lambda>_. True"
  by unfold_locales (auto simp: StringToArgs_ArgsToString)

end
