(* ===== verification/Shellwords.thy ===== *)
theory Shellwords
  imports Go_Prelude Argv_Spec
begin

section \<open>Package cmdshellwords: a Bourne-shell word parser\<close>

text \<open>
  \<^verbatim>\<open>cmdshellwords/{cmdshellwords,parser,util,util_posix}.go\<close>. The parser is one loop over the
  runes of the line; its local variables are the record \<open>pstate\<close>, one iteration is
  \<open>parser_step\<close>, whose result says how the iteration ends: the next iteration, \<open>break loop\<close>, or
  a return with an error. A slice expression with a negative bound panics (\<open>Panic\<close>). The
  operating system is a parameter: \<open>getenv\<close> is \<^verbatim>\<open>os.Getenv\<close>, \<open>exec_output\<close> the result of
  running \<^verbatim>\<open>shell -c line\<close> in a directory.
\<close>

datatype perror = InvalidCommandLine | ShellError string | Panic

record sys =
  getenv :: "string \<Rightarrow> string"
  exec_output :: "string \<Rightarrow> string \<Rightarrow> string \<Rightarrow> string + string"

record Parser =
  ParseEnv :: bool
  ParseBacktick :: bool
  Position :: int
  Dir :: string
  Getenv :: "(string \<Rightarrow> string) option"

record pstate =
  args :: "string list"
  buf :: string
  escaped :: bool
  doubleQuoted :: bool
  singleQuoted :: bool
  backQuote :: bool
  dollarQuote :: bool
  backtick :: string
  pos :: int
  got :: bool

definition isSpace :: "rune \<Rightarrow> bool" where
  "isSpace r \<longleftrightarrow> r = byte sp \<or> r = byte tab \<or> r = byte cr \<or> r = byte nl"

definition NewParser :: "bool \<Rightarrow> bool \<Rightarrow> Parser" where
  "NewParser parseEnv parseBacktick =
     \<lparr>ParseEnv = parseEnv, ParseBacktick = parseBacktick, Position = 0, Dir = [], Getenv = None\<rparr>"

text \<open>
  \<open>shellRun\<close> runs \<^verbatim>\<open>$SHELL -c line\<close>, \<^verbatim>\<open>/bin/sh\<close> when the variable is empty. The parameter
  \<open>exec_output\<close> gives \<open>Inl\<close> the error text or \<open>Inr\<close> the standard output.
\<close>

definition shellRun :: "sys \<Rightarrow> string \<Rightarrow> string \<Rightarrow> perror + string" where
  "shellRun sy line dir =
     (let shell = (if getenv sy ''SHELL'' = [] then ''/bin/sh'' else getenv sy ''SHELL'')
      in case exec_output sy shell line dir of
           Inl e \<Rightarrow> Inl (ShellError e)
         | Inr b \<Rightarrow> Inr (TrimSpace b))"

subsection \<open>Environment references\<close>

text \<open>
  The regular expression \<^verbatim>\<open>\$({[a-zA-Z0-9_]+}|[a-zA-Z0-9_]+)\<close> at the start of a string:
  the name it captures and the rest after the match.
\<close>

definition word_char :: "char \<Rightarrow> bool" where
  "word_char c \<longleftrightarrow> in_range 97 122 c \<or> in_range 65 90 c \<or> in_range 48 57 c \<or> c = CHR ''_''"

definition env_match :: "string \<Rightarrow> (string \<times> string) option" where
  "env_match s =
     (case s of
        [] \<Rightarrow> None
      | c # t \<Rightarrow>
          if c \<noteq> CHR ''$'' then None
          else if t \<noteq> [] \<and> hd t = CHR ''{'' \<and> takeWhile word_char (tl t) \<noteq> []
                  \<and> dropWhile word_char (tl t) \<noteq> [] \<and> hd (dropWhile word_char (tl t)) = CHR ''}''
          then Some (takeWhile word_char (tl t), tl (dropWhile word_char (tl t)))
          else if takeWhile word_char t \<noteq> [] then Some (takeWhile word_char t, dropWhile word_char t)
          else None)"

lemma env_match_shorter: "env_match s = Some (name, rest) \<Longrightarrow> length rest < length s"
  using length_dropWhile_le [of word_char]
  by (auto simp: env_match_def less_Suc_eq_le le_diff_conv intro: le_trans
      split: list.splits if_splits)
     (metis diff_le_self le_SucI le_trans length_dropWhile_le length_tl)

function replaceEnv :: "(string \<Rightarrow> string) \<Rightarrow> string \<Rightarrow> string" where
  "replaceEnv genv s =
     (if s = [] then []
      else case env_match s of
             Some (name, rest) \<Rightarrow> genv name @ replaceEnv genv rest
           | None \<Rightarrow> hd s # replaceEnv genv (tl s))"
  by pat_completeness auto
termination
  by (relation "measure (\<lambda>(genv, s). length s)") (auto dest: env_match_shorter)

declare replaceEnv.simps [simp del]

subsection \<open>The parser loop\<close>

definition pstate0 :: pstate where
  "pstate0 = \<lparr>args = [], buf = [], escaped = False, doubleQuoted = False, singleQuoted = False,
     backQuote = False, dollarQuote = False, backtick = [], pos = -1, got = False\<rparr>"

text \<open>
  Ending a word: with \<open>ParseEnv\<close> the buffer is expanded and parsed again by a parser with both
  flags off (\<open>sub\<close>), otherwise it is one argument.
\<close>

definition flush :: "sys \<Rightarrow> Parser \<Rightarrow> (string \<Rightarrow> perror + string list \<times> int) \<Rightarrow> pstate
    \<Rightarrow> perror + pstate" where
  "flush sy p sub s =
     (if ParseEnv p
      then (case sub (replaceEnv (case Getenv p of None \<Rightarrow> getenv sy | Some g \<Rightarrow> g) (buf s)) of
              Inl e \<Rightarrow> Inl e
            | Inr (strs, _) \<Rightarrow> Inr (s\<lparr>args := args s @ strs\<rparr>))
      else Inr (s\<lparr>args := args s @ [buf s]\<rparr>))"

definition in_quote :: "pstate \<Rightarrow> bool" where
  "in_quote s \<longleftrightarrow> singleQuoted s \<or> doubleQuoted s \<or> backQuote s \<or> dollarQuote s"

text \<open>The end of the loop body, reached by every rune no case continues on.\<close>

definition take_rune :: "rune \<Rightarrow> pstate \<Rightarrow> (perror, pstate) ctl" where
  "take_rune r s =
     Continue (s\<lparr>got := True, buf := buf s @ encode_rune r,
       backtick := (if backQuote s \<or> dollarQuote s then backtick s @ encode_rune r
                    else backtick s)\<rparr>)"

text \<open>
  \<^verbatim>\<open>buf[:len(buf)-len(backtick)-k] + out\<close> after running the command.
\<close>

definition substitute :: "sys \<Rightarrow> Parser \<Rightarrow> nat \<Rightarrow> pstate \<Rightarrow> perror + string" where
  "substitute sy p k s =
     (case shellRun sy (backtick s) (Dir p) of
        Inl e \<Rightarrow> Inl e
      | Inr out \<Rightarrow>
          if length (buf s) < length (backtick s) + k then Inl Panic
          else Inr (take (length (buf s) - length (backtick s) - k) (buf s) @ out))"

definition step_backquote :: "sys \<Rightarrow> Parser \<Rightarrow> rune \<Rightarrow> pstate \<Rightarrow> (perror, pstate) ctl" where
  "step_backquote sy p r s =
     (if \<not> singleQuoted s \<and> \<not> doubleQuoted s \<and> \<not> dollarQuote s
      then if ParseBacktick p
           then if backQuote s
                then (case substitute sy p 0 s of
                        Inl e \<Rightarrow> Fail e
                      | Inr b \<Rightarrow> Continue (s\<lparr>buf := b, backtick := [], backQuote := False\<rparr>))
                else Continue (s\<lparr>backtick := [], backQuote := True\<rparr>)
           else take_rune r (s\<lparr>backtick := [], backQuote := \<not> backQuote s\<rparr>)
      else take_rune r s)"

definition step_close :: "sys \<Rightarrow> Parser \<Rightarrow> rune \<Rightarrow> pstate \<Rightarrow> (perror, pstate) ctl" where
  "step_close sy p r s =
     (if \<not> singleQuoted s \<and> \<not> doubleQuoted s \<and> \<not> backQuote s
      then if ParseBacktick p
           then if dollarQuote s
                then (case substitute sy p 2 s of
                        Inl e \<Rightarrow> Fail e
                      | Inr b \<Rightarrow> Continue (s\<lparr>buf := b, backtick := [], dollarQuote := False\<rparr>))
                else Continue (s\<lparr>backtick := [], dollarQuote := True\<rparr>)
           else take_rune r (s\<lparr>backtick := [], dollarQuote := \<not> dollarQuote s\<rparr>)
      else take_rune r s)"

definition step_open :: "rune \<Rightarrow> pstate \<Rightarrow> (perror, pstate) ctl" where
  "step_open r s =
     (if \<not> singleQuoted s \<and> \<not> doubleQuoted s \<and> \<not> backQuote s
      then if \<not> dollarQuote s \<and> buf s \<noteq> [] \<and> last (buf s) = CHR ''$''
           then Continue (s\<lparr>dollarQuote := True, buf := buf s @ ''(''\<rparr>)
           else Fail InvalidCommandLine
      else take_rune r s)"

definition step_meta :: "nat \<Rightarrow> rune \<Rightarrow> pstate \<Rightarrow> (perror, pstate) ctl" where
  "step_meta i r s =
     (if \<not> (escaped s \<or> in_quote s)
      then if r = byte CHR ''>'' \<and> buf s \<noteq> [] \<and> in_range 48 57 (hd (buf s))
           then Break (s\<lparr>pos := int i - 1, got := False\<rparr>)
           else Break (s\<lparr>pos := int i\<rparr>)
      else take_rune r s)"

definition parser_step :: "sys \<Rightarrow> Parser \<Rightarrow> (string \<Rightarrow> perror + string list \<times> int)
    \<Rightarrow> nat \<times> rune \<Rightarrow> pstate \<Rightarrow> (perror, pstate) ctl" where
  "parser_step sy p sub ir s =
     (let i = fst ir; r = snd ir in
      if escaped s then Continue (s\<lparr>buf := buf s @ encode_rune r, escaped := False\<rparr>)
      else if r = byte bsl
      then (if singleQuoted s then Continue (s\<lparr>buf := buf s @ encode_rune r\<rparr>)
            else Continue (s\<lparr>escaped := True\<rparr>))
      else if isSpace r
      then (if in_quote s
            then Continue (s\<lparr>buf := buf s @ encode_rune r, backtick := backtick s @ encode_rune r\<rparr>)
            else if got s
            then (case flush sy p sub s of
                    Inl e \<Rightarrow> Fail e
                  | Inr s' \<Rightarrow> Continue (s'\<lparr>buf := [], got := False\<rparr>))
            else Continue s)
      else if r = byte backq then step_backquote sy p r s
      else if r = byte CHR '')'' then step_close sy p r s
      else if r = byte CHR ''('' then step_open r s
      else if r = byte dq \<and> \<not> singleQuoted s \<and> \<not> dollarQuote s
      then Continue (s\<lparr>got := got s \<or> doubleQuoted s, doubleQuoted := \<not> doubleQuoted s\<rparr>)
      else if r = byte sq \<and> \<not> doubleQuoted s \<and> \<not> dollarQuote s
      then Continue (s\<lparr>got := got s \<or> singleQuoted s, singleQuoted := \<not> singleQuoted s\<rparr>)
      else if r \<in> {byte CHR '';'', byte CHR ''&'', byte CHR ''|'', byte CHR ''<'', byte CHR ''>''}
      then step_meta i r s
      else take_rune r s)"

definition parserposix_with :: "(string \<Rightarrow> perror + string list \<times> int) \<Rightarrow> sys \<Rightarrow> string \<Rightarrow> Parser
    \<Rightarrow> perror + string list \<times> int" where
  "parserposix_with sub sy line p =
     (case range_loop (parser_step sy p sub) (range_str 0 line) pstate0 of
        Inl e \<Rightarrow> Inl e
      | Inr s \<Rightarrow>
          (case (if got s then flush sy p sub s else Inr s) of
             Inl e \<Rightarrow> Inl e
           | Inr s' \<Rightarrow>
               if escaped s' \<or> in_quote s' then Inl InvalidCommandLine
               else Inr (args s', pos s')))"

text \<open>
  The result pairs the arguments with the new \<open>Position\<close> of the parser. The inner parser made
  for an expansion has \<open>ParseEnv\<close> off, so it never reaches its own \<open>sub\<close>.
\<close>

definition parserposix :: "sys \<Rightarrow> string \<Rightarrow> Parser \<Rightarrow> perror + string list \<times> int" where
  "parserposix sy line p =
     parserposix_with
       (\<lambda>s. parserposix_with (\<lambda>_. Inl InvalidCommandLine) sy s (NewParser False False\<lparr>Dir := Dir p\<rparr>))
       sy line p"

definition Split :: "sys \<Rightarrow> bool \<Rightarrow> bool \<Rightarrow> string \<Rightarrow> perror + string list" where
  "Split sy parseEnv parseBacktick line =
     map_sum id fst (parserposix sy line (NewParser parseEnv parseBacktick))"

subsection \<open>Escaping and joining\<close>

definition safe_byte :: "char \<Rightarrow> bool" where
  "safe_byte b \<longleftrightarrow> in_range 97 122 b \<or> in_range 65 90 b \<or> in_range 48 57 b \<or> b \<in> set ''_-.,:/@''"

definition escape_byte :: "char \<Rightarrow> string" where
  "escape_byte b = (if safe_byte b then [b] else if b = nl then [sq, nl, sq] else [bsl, b])"

definition Escape :: "string \<Rightarrow> string" where
  "Escape str = (if str = [] then [sq, sq] else concat (map escape_byte str))"

fun joinposix_loop :: "bool \<Rightarrow> string \<Rightarrow> string list \<Rightarrow> string" where
  "joinposix_loop first b [] = b"
| "joinposix_loop first b (w # ws) =
     joinposix_loop False ((if first then b else b @ [sp]) @ Escape w) ws"

definition joinposix :: "string list \<Rightarrow> string" where
  "joinposix words = joinposix_loop True [] words"

subsection \<open>Parsing what the escaper wrote\<close>

definition clean :: "pstate \<Rightarrow> bool" where
  "clean s \<longleftrightarrow> \<not> escaped s \<and> \<not> in_quote s"

definition visible :: "char \<Rightarrow> bool" where
  "visible c \<longleftrightarrow> safe_byte c \<or> c = nl"

text \<open>
  \<open>after w s\<close> is the state after reading the escaped form of \<open>w\<close>: a backslash-escaped byte
  enters the buffer but does not mark the word as present (\<open>got\<close>).
\<close>

definition after :: "string \<Rightarrow> pstate \<Rightarrow> pstate" where
  "after w s = s\<lparr>buf := buf s @ w, got := got s \<or> (\<exists>c \<in> set w. visible c),
     backtick := backtick s @ filter (\<lambda>c. c = nl) w\<rparr>"

lemma clean_after [simp]: "clean (after w s) = clean s"
  by (simp add: after_def clean_def in_quote_def)

lemma after_simps [simp]:
  "args (after w s) = args s" "buf (after w s) = buf s @ w" "pos (after w s) = pos s"
  "got (after w s) = (got s \<or> (\<exists>c \<in> set w. visible c))"
  by (simp_all add: after_def)

lemma after_Nil [simp]: "after [] s = s"
  by (simp add: after_def)

lemma after_Cons: "after w (after [c] s) = after (c # w) s"
  by (simp add: after_def)

lemma ascii_consts [simp]: "ascii sq" "ascii bsl" "ascii nl" "ascii sp"
  by (simp_all add: ascii_def)

lemma safe_byte_cases:
  assumes "safe_byte c"
  shows "ascii c" "\<not> isSpace (byte c)" "byte c \<noteq> byte bsl" "byte c \<noteq> byte backq"
    "byte c \<noteq> byte CHR '')''" "byte c \<noteq> byte CHR ''(''" "byte c \<noteq> byte dq" "byte c \<noteq> byte sq"
    "byte c \<notin> {byte CHR '';'', byte CHR ''&'', byte CHR ''|'', byte CHR ''<'', byte CHR ''>''}"
  using assms
  by (auto simp: safe_byte_def in_range_def isSpace_def ascii_def)

lemma run_escape_byte:
  assumes "clean s" "ascii c"
  shows "range_loop (parser_step sy p sub) (range_str i (escape_byte c @ t)) s
    = range_loop (parser_step sy p sub) (range_str (i + length (escape_byte c)) t) (after [c] s)"
proof -
  consider (safe) "safe_byte c" | (nl) "\<not> safe_byte c" "c = nl" | (esc) "\<not> safe_byte c" "c \<noteq> nl"
    by blast
  then show ?thesis
  proof cases
    case safe
    note sb = safe_byte_cases [OF safe]
    have "parser_step sy p sub (i, byte c) s = take_rune (byte c) s"
      using sb assms(1) unfolding parser_step_def Let_def clean_def by simp
    moreover have "c \<noteq> nl" using sb(2) by (auto simp: isSpace_def)
    then have "take_rune (byte c) s = Continue (after [c] s)"
      using safe sb(1) assms(1)
      by (cases s)
         (simp add: take_rune_def encode_rune_ascii after_def visible_def clean_def in_quote_def)
    ultimately show ?thesis
      using safe sb(1) by (simp add: escape_byte_def range_str_ascii)
  next
    case nl
    with assms show ?thesis
      by (cases s)
         (simp add: escape_byte_def range_str_ascii parser_step_def isSpace_def
          after_def visible_def clean_def in_quote_def encode_rune_ascii [of nl, simplified])
  next
    case esc
    with assms show ?thesis
      by (cases s)
         (simp add: escape_byte_def range_str_ascii parser_step_def encode_rune_ascii
          after_def visible_def clean_def in_quote_def)
  qed
qed

lemma run_escaped_word:
  assumes "clean s" "\<forall>c \<in> set w. ascii c"
  shows "range_loop (parser_step sy p sub) (range_str i (concat (map escape_byte w) @ t)) s
    = range_loop (parser_step sy p sub)
        (range_str (i + length (concat (map escape_byte w))) t) (after w s)"
  using assms
proof (induction w arbitrary: s i)
  case (Cons c w)
  then show ?case by (simp add: run_escape_byte after_Cons add.assoc)
qed simp

definition word_ok :: "string \<Rightarrow> bool" where
  "word_ok w \<longleftrightarrow> (\<forall>c \<in> set w. ascii c) \<and> (w = [] \<or> (\<exists>c \<in> set w. visible c))"

definition after_word :: "string \<Rightarrow> pstate \<Rightarrow> pstate" where
  "after_word w s = (if w = [] then s\<lparr>got := True\<rparr> else after w s)"

lemma run_Escape:
  assumes "clean s" "\<forall>c \<in> set w. ascii c"
  shows "range_loop (parser_step sy p sub) (range_str i (Escape w @ t)) s
    = range_loop (parser_step sy p sub) (range_str (i + length (Escape w)) t) (after_word w s)"
proof (cases "w = []")
  case True
  with assms(1) show ?thesis
    by (cases s)
       (simp add: Escape_def range_str_ascii after_word_def parser_step_def isSpace_def
        clean_def in_quote_def)
next
  case False
  with run_escaped_word [OF assms] show ?thesis by (simp add: Escape_def after_word_def)
qed

lemma clean_after_word: "clean s \<Longrightarrow> clean (after_word w s)"
  by (cases "w = []") (simp_all add: after_word_def, simp add: clean_def in_quote_def)

lemma after_word_simps:
  "args (after_word w s) = args s"
  "buf (after_word w s) = buf s @ w" "pos (after_word w s) = pos s"
  "word_ok w \<Longrightarrow> got (after_word w s)"
  by (auto simp: after_word_def word_ok_def)

lemma joinposix_loop_spec:
  "joinposix_loop False b ws = b @ concat (map (\<lambda>w. sp # Escape w) ws)"
  by (induction ws arbitrary: b) simp_all

lemma run_joined:
  assumes "list_all word_ok ws" "clean s" "got s" "\<not> ParseEnv p"
  shows "\<exists>s'. range_loop (parser_step sy p sub)
           (range_str i (concat (map (\<lambda>w. sp # Escape w) ws))) s = Inr s'
     \<and> clean s' \<and> got s' \<and> pos s' = pos s \<and> args s' @ [buf s'] = args s @ buf s # ws"
  using assms
proof (induction ws arbitrary: s i)
  case (Cons w ws)
  let ?s1 = "s\<lparr>args := args s @ [buf s], buf := [], got := False\<rparr>"
  have s1: "clean ?s1" using Cons.prems by (simp add: clean_def in_quote_def)
  have w: "word_ok w" "\<forall>c \<in> set w. ascii c" using Cons.prems by (auto simp: word_ok_def)
  have step: "range_loop (parser_step sy p sub)
        (range_str i (sp # Escape w @ concat (map (\<lambda>w. sp # Escape w) ws))) s
      = range_loop (parser_step sy p sub)
        (range_str (Suc i + length (Escape w)) (concat (map (\<lambda>w. sp # Escape w) ws)))
        (after_word w ?s1)"
    using Cons.prems run_Escape [OF s1 w(2)]
    by (simp add: range_str_ascii parser_step_def isSpace_def clean_def flush_def in_quote_def)
  show ?case
    using Cons.IH [of "after_word w ?s1" "Suc i + length (Escape w)"] Cons.prems s1 w
    by (simp add: step after_word_simps clean_after_word)
qed auto

lemma parserposix_joinposix:
  assumes "list_all word_ok ws" "\<not> ParseEnv p"
  shows "parserposix sy (joinposix ws) p = Inr (ws, -1)"
proof (cases ws)
  case Nil
  then show ?thesis
    by (simp add: parserposix_def parserposix_with_def joinposix_def pstate0_def in_quote_def)
next
  case (Cons w vs)
  have c0: "clean pstate0" by (simp add: clean_def in_quote_def pstate0_def)
  have w: "word_ok w" "\<forall>c \<in> set w. ascii c" using assms Cons by (auto simp: word_ok_def)
  let ?sub = "\<lambda>s. parserposix_with (\<lambda>_. Inl InvalidCommandLine) sy s
    (NewParser False False\<lparr>Dir := Dir p\<rparr>)"
  let ?tail = "concat (map (\<lambda>w. sp # Escape w) vs)"
  obtain s' where s': "range_loop (parser_step sy p ?sub)
      (range_str (length (Escape w)) ?tail) (after_word w pstate0) = Inr s'"
    "clean s'" "got s'" "pos s' = -1" "args s' @ [buf s'] = w # vs"
    using run_joined [of vs "after_word w pstate0" p sy ?sub "length (Escape w)"] assms Cons w c0
    by (auto simp: after_word_simps clean_after_word) (simp_all add: pstate0_def)
  have "joinposix ws = Escape w @ ?tail"
    by (simp add: Cons joinposix_def joinposix_loop_spec)
  then have "range_loop (parser_step sy p ?sub) (range_str 0 (joinposix ws)) pstate0 = Inr s'"
    using run_Escape [OF c0 w(2), of sy p ?sub 0 ?tail] s'(1) by simp
  with s' assms(2) Cons show ?thesis
    by (simp add: parserposix_def parserposix_with_def flush_def clean_def in_quote_def)
qed

subsection \<open>Errors and positions\<close>

lemmas step_defs = step_backquote_def step_close_def step_open_def step_meta_def take_rune_def

lemma flush_cases:
  "flush sy p sub s = Inl e \<Longrightarrow> \<exists>l. sub l = Inl e"
  "flush sy p sub s = Inr s' \<Longrightarrow> \<exists>as. s' = s\<lparr>args := as\<rparr>"
  by (auto simp: flush_def split: if_splits sum.splits option.splits)

lemma parser_step_Fail:
  assumes "parser_step sy p sub ir s = Fail e" "\<not> ParseBacktick p"
  shows "e = InvalidCommandLine \<or> (\<exists>l. sub l = Inl e)"
  using assms by (auto simp: parser_step_def step_defs Let_def dest: flush_cases split: if_splits sum.splits)

lemma parserposix_with_error:
  assumes "parserposix_with sub sy line p = Inl e" "\<not> ParseBacktick p"
  shows "e = InvalidCommandLine \<or> (\<exists>l. sub l = Inl e)"
proof -
  let ?E = "\<lambda>e. e = InvalidCommandLine \<or> (\<exists>l. sub l = Inl e)"
  have "case range_loop (parser_step sy p sub) (range_str 0 line) pstate0 of Inl e \<Rightarrow> ?E e | Inr _ \<Rightarrow> True"
    using parser_step_Fail [OF _ assms(2)]
    by (intro range_loop_rule [where I = "\<lambda>_. True"]) (auto split: ctl.split)
  with assms(1) show ?thesis
    by (auto simp: parserposix_with_def dest: flush_cases split: sum.splits if_splits)
qed

definition meta_runes :: "rune set" where
  "meta_runes = {byte CHR '';'', byte CHR ''&'', byte CHR ''|'', byte CHR ''<'', byte CHR ''>''}"

lemma parser_step_pos:
  "parser_step sy p sub ir s = Continue s' \<Longrightarrow> pos s' = pos s"
  "parser_step sy p sub ir s = Break s' \<Longrightarrow>
     snd ir \<in> meta_runes \<and> pos s' \<in> {int (fst ir), int (fst ir) - 1}"
  by (auto simp: parser_step_def step_defs meta_runes_def Let_def dest!: flush_cases
      split: if_splits sum.splits)

lemma parserposix_position:
  assumes "parserposix sy line p = Inr (as, q)"
  shows "q = -1 \<or> (\<exists>i r. (i, r) \<in> set (range_str 0 line) \<and> r \<in> meta_runes \<and> q \<in> {int i, int i - 1})"
proof -
  let ?sub = "\<lambda>s. parserposix_with (\<lambda>_. Inl InvalidCommandLine) sy s (NewParser False False\<lparr>Dir := Dir p\<rparr>)"
  let ?P = "\<lambda>q. q = -1 \<or> (\<exists>i r. (i, r) \<in> set (range_str 0 line) \<and> r \<in> meta_runes \<and> q \<in> {int i, int i - 1})"
  have "case range_loop (parser_step sy p ?sub) (range_str 0 line) pstate0 of Inl e \<Rightarrow> True | Inr s \<Rightarrow> ?P (pos s)"
    by (intro range_loop_rule [where I = "\<lambda>s. pos s = -1"])
      (auto simp: pstate0_def dest: parser_step_pos(1) dest!: parser_step_pos(2) split: ctl.split, blast+)
  moreover obtain s where "range_loop (parser_step sy p ?sub) (range_str 0 line) pstate0 = Inr s" "pos s = q"
    using assms unfolding parserposix_def parserposix_with_def [of ?sub]
    by (auto dest!: flush_cases split: sum.splits if_splits)
  ultimately show ?thesis by simp
qed

subsection \<open>The codec contract\<close>

interpretation sw: argv_codec "\<lambda>l as. map_sum id fst (parserposix sy l p) = Inr as" joinposix
    "\<lambda>as. list_all word_ok as \<and> \<not> ParseEnv p" for sy p
  by unfold_locales (auto simp: parserposix_joinposix)

subsection \<open>Words the parser loses\<close>

lemma parserposix_lost:
  assumes "w \<noteq> []" "\<forall>c \<in> set w. ascii c \<and> \<not> visible c"
  shows "parserposix sy (Escape w) p = Inr ([], -1)"
proof -
  have c0: "clean pstate0" by (simp add: clean_def in_quote_def pstate0_def)
  have "range_loop (parser_step sy p sub) (range_str 0 (Escape w)) pstate0 = Inr (after w pstate0)" for sub
    using run_Escape [OF c0, of w sy p sub 0 "[]"] assms by (simp add: after_word_def)
  moreover have "\<not> got (after w pstate0)" using assms by (simp add: pstate0_def)
  moreover have "clean (after w pstate0)" using c0 by simp
  ultimately show ?thesis
    by (simp add: parserposix_def parserposix_with_def clean_def) (simp add: pstate0_def)
qed

end
