(* ===== verification/Words_Props.thy ===== *)
theory Words_Props
  imports Sconv Shellwords
begin

section \<open>Properties of packages sconv and cmdshellwords\<close>

text \<open>
  Both packages keep the contract \<open>argv_codec\<close>: \<open>sc\<close> on every argument list, \<open>sw\<close> on the lists
  whose words show a byte the escaper leaves alone.
\<close>

text \<open>
  C3. \<open>StringToArgs\<close> reads back exactly what \<open>ArgsToString\<close> wrote, for every list of byte strings
  (quotes, newlines, empty arguments and invalid UTF-8 included), and no two argument lists are
  written as the same line.
\<close>

theorem sconv_roundtrip:
  "StringToArgs (ArgsToString ws) = (ws, None) \<and> (ArgsToString ws = ArgsToString vs \<longleftrightarrow> ws = vs)"
  using sc.parses_render sc.render_inj by simp

text \<open>
  \<open>splitWord\<close>, which decodes runes and copies segments lazily, computes the byte-level word
  grammar of the shell on every input, errors included.
\<close>

lemma splitWord_is_grammar:
  "splitWord input = sh_word Raw [] input"
  by (rule splitWord_ref)

text \<open>
  C4. \<open>Split\<close> reads back what \<open>Join\<close> wrote when every word is ASCII and is empty or has a byte
  that \<open>Escape\<close> does not escape with a backslash; the whole line is consumed (position -1).
\<close>

theorem shellwords_roundtrip:
  assumes "list_all word_ok ws" "\<not> ParseEnv p"
  shows "parserposix sy (joinposix ws) p = Inr (ws, -1)
    \<and> (\<forall>vs. list_all word_ok vs \<longrightarrow> joinposix vs = joinposix ws \<longrightarrow> vs = ws)"
  using parserposix_joinposix [OF assms] sw.render_inj [of _ p ws] assms by blast

text \<open>The operating system of the witnesses: an empty environment and commands without output.\<close>

definition sys0 :: sys where
  "sys0 = \<lparr>getenv = (\<lambda>_. []), exec_output = (\<lambda>_ _ _. Inr [])\<rparr>"

lemmas run_simps = parserposix_def parserposix_with_def pstate0_def range_str_ascii ascii_def parser_step_def
  step_defs isSpace_def in_quote_def NewParser_def substitute_def shellRun_def sys0_def encode_rune_def
  char_of_def bit_0 flush_def

theorem shellwords_roundtrip_witness:
  "list_all word_ok [''a b'', [], ''x'' @ [nl, sq]]
   \<and> parserposix sys0 (joinposix [''a b'', [], ''x'' @ [nl, sq]]) (NewParser False True)
     = Inr ([''a b'', [], ''x'' @ [nl, sq]], -1)"
proof -
  have w: "list_all word_ok [''a b'', [], ''x'' @ [nl, sq]]" by code_simp
  show ?thesis
    using shellwords_roundtrip [OF w, of "NewParser False True" sys0] w by (simp add: NewParser_def)
qed

text \<open>
  A non-empty word whose every byte is escaped with a backslash is lost: \<open>Split\<close> of its
  \<open>Escape\<close> form returns no argument and no error, with any parser flags.
\<close>

lemma escaped_only_word_lost:
  assumes "w \<noteq> []" "\<forall>c \<in> set w. ascii c \<and> \<not> safe_byte c \<and> c \<noteq> nl"
  shows "Split sy parseEnv parseBacktick (joinposix [w]) = Inr []"
  using parserposix_lost [OF assms(1), of sy] assms(2)
  by (simp add: Split_def joinposix_def visible_def)

text \<open>
  Without backtick parsing the only error is the invalid-command-line error: no panic and no
  shell error, whatever the line and the environment, expansion included.
\<close>

lemma parser_only_invalid_line:
  assumes "\<not> ParseBacktick p" "parserposix sy line p = Inl e"
  shows "e = InvalidCommandLine"
proof -
  let ?sub = "\<lambda>s. parserposix_with (\<lambda>_. Inl InvalidCommandLine) sy s (NewParser False False\<lparr>Dir := Dir p\<rparr>)"
  have "e' = InvalidCommandLine" if "?sub l = Inl e'" for l e'
    using parserposix_with_error [OF that] by (auto simp: NewParser_def)
  then show ?thesis
    using parserposix_with_error [of ?sub sy line p e] assms by (auto simp: parserposix_def)
qed

text \<open>
  With backtick parsing, a \<^verbatim>\<open>$(\<close> that follows quoted blanks panics when it is closed: the text
  collected for the command still holds the blanks, and the slice bound is negative.
\<close>

lemma dollar_paren_panics:
  "parserposix sys0 ([sq, sp, sp, sp, sq, sp] @ ''$(x)'')
     (NewParser False True) = Inl Panic"
  by (simp add: run_simps)

text \<open>
  The reported position is -1 when the line was read to its end, and otherwise the offset of
  an unquoted shell metacharacter of the line, or the offset before it for a redirection with a
  file-descriptor number.
\<close>

lemma position_at_metacharacter:
  assumes "parserposix sy line p = Inr (as, q)"
  shows "q = -1 \<or> (\<exists>i r. (i, r) \<in> set (range_str 0 line) \<and> r \<in> meta_runes \<and> q \<in> {int i, int i - 1})"
  by (rule parserposix_position [OF assms])

end
