(* ===== verification/Wire.thy ===== *)
theory Wire
  imports Main "HOL-Library.Word" "HOL-Library.Monad_Syntax"
begin

section \<open>Byte slices and wire formats\<close>

text \<open>
  What the packet packages use of Go's slices, of \<^verbatim>\<open>encoding/binary\<close> and of \<^verbatim>\<open>hash/crc32\<close>. An
  operation on a slice is an option, \<open>None\<close> a panic for a bound out of range. (Go bounds the upper
  index of a slice expression by the capacity; the packages only use bounds up to the length.)
  The contract of a marshaller and its unmarshaller is the locale \<open>wire_codec\<close>.
\<close>

unbundle bit_operations_syntax

type_synonym bytes = "8 word list"

definition slice :: "'a list \<Rightarrow> nat \<Rightarrow> nat \<Rightarrow> 'a list option" where
  "slice b lo hi = (if lo \<le> hi \<and> hi \<le> length b then Some (take (hi - lo) (drop lo b)) else None)"

text \<open>\<open>copy_slice b lo hi src\<close> is \<^verbatim>\<open>copy(b[lo:hi], src)\<close>.\<close>

definition copy_slice :: "'a list \<Rightarrow> nat \<Rightarrow> nat \<Rightarrow> 'a list \<Rightarrow> 'a list option" where
  "copy_slice b lo hi src =
     (if lo \<le> hi \<and> hi \<le> length b
      then Some (take lo b @ take (hi - lo) src @ drop (lo + min (hi - lo) (length src)) b)
      else None)"

definition be16 :: "16 word \<Rightarrow> bytes" where
  "be16 v = [ucast (drop_bit 8 v), ucast v]"

definition of_be16 :: "bytes \<Rightarrow> 16 word option" where
  "of_be16 b = (if length b < 2 then None else Some (ucast (b ! 1) OR push_bit 8 (ucast (b ! 0))))"

definition PutUint16 :: "bytes \<Rightarrow> nat \<Rightarrow> 16 word \<Rightarrow> bytes option" where
  "PutUint16 b n v = copy_slice b n (n + 2) (be16 v)"

definition Uint16 :: "bytes \<Rightarrow> nat \<Rightarrow> 16 word option" where
  "Uint16 b n = Option.bind (slice b n (n + 2)) of_be16"

definition be32 :: "32 word \<Rightarrow> bytes" where
  "be32 v = [ucast (drop_bit 24 v), ucast (drop_bit 16 v), ucast (drop_bit 8 v), ucast v]"

definition of_be32 :: "bytes \<Rightarrow> 32 word" where
  "of_be32 b = ucast (b ! 3) OR push_bit 8 (ucast (b ! 2)) OR push_bit 16 (ucast (b ! 1))
     OR push_bit 24 (ucast (b ! 0))"

lemma bit_small:
  fixes w :: "'a::len word"
  assumes "unat w < 2 ^ k" "k \<le> n"
  shows "\<not> bit w n"
proof -
  have "unat w < 2 ^ n" using assms power_increasing [OF assms(2), of "2::nat"] by linarith
  then have "\<not> bit (unat w) n" by (simp add: bit_iff_odd)
  then show ?thesis using bit_unsigned_iff [where 'a = nat, of w n] by (auto dest: bit_imp_le_length)
qed

definition pad :: "nat \<Rightarrow> bytes \<Rightarrow> bytes" where
  "pad k src = take k src @ replicate (k - length src) 0"

lemma length_pad [simp]: "length (pad k src) = k"
  by (simp add: pad_def min_def)

lemma pad_same: "length src = k \<Longrightarrow> pad k src = src"
  by (simp add: pad_def)

lemma length_be16 [simp]: "length (be16 v) = 2"
  by (simp add: be16_def)

lemma length_be32 [simp]: "length (be32 v) = 4"
  by (simp add: be32_def)

lemma of_be16_be16 [simp]: "of_be16 (be16 v @ xs) = Some v"
proof -
  have "(ucast (ucast v :: 8 word) OR push_bit 8 (ucast (ucast (drop_bit 8 v) :: 8 word)) :: 16 word) = v"
    by (rule bit_word_eqI) (auto simp: bit_simps)
  then show ?thesis by (simp add: of_be16_def be16_def)
qed

lemma of_be32_be32 [simp]: "of_be32 (be32 v) = v"
proof -
  have "(ucast (ucast v :: 8 word) OR push_bit 8 (ucast (ucast (drop_bit 8 v) :: 8 word))
      OR push_bit 16 (ucast (ucast (drop_bit 16 v) :: 8 word))
      OR push_bit 24 (ucast (ucast (drop_bit 24 v) :: 8 word)) :: 32 word) = v"
    by (rule bit_word_eqI, auto simp: bit_simps not_less le_diff_conv2 less_diff_conv2)
      (metis le_add_diff_inverse not_less)
  then show ?thesis by (simp add: of_be32_def be32_def)
qed

text \<open>Writing into a buffer of zeros from the left.\<close>

lemma copy_pad:
  assumes "lo = length pre" "hi = length pre + k"
  shows "copy_slice (pre @ replicate (k + m) 0) lo hi src = Some (pre @ pad k src @ replicate m 0)"
  using assms by (auto simp: copy_slice_def pad_def min_def replicate_add [symmetric])

lemma put16_pad:
  "n = length pre \<Longrightarrow> PutUint16 (pre @ replicate (2 + m) 0) n v = Some (pre @ be16 v @ replicate m 0)"
  using copy_pad [of n pre "n + 2" 2 m "be16 v"] by (simp add: PutUint16_def pad_same)

lemma slice_app: "lo = length xs \<Longrightarrow> hi = length xs + length ys \<Longrightarrow> slice (xs @ ys @ zs) lo hi = Some ys"
  by (simp add: slice_def)

lemma Uint16_app: "n = length xs \<Longrightarrow> Uint16 (xs @ be16 v @ ys) n = Some v"
  using slice_app [of n xs "n + 2" "be16 v" ys] of_be16_be16 [of v "[]"] by (simp add: Uint16_def)

lemma slice_length: "slice b lo hi = Some s \<Longrightarrow> length s = hi - lo"
  by (auto simp: slice_def split: if_splits)

lemma slice_ok: "lo \<le> hi \<Longrightarrow> hi \<le> length b \<Longrightarrow> slice b lo hi = Some (take (hi - lo) (drop lo b))"
  by (simp add: slice_def)

lemma Uint16_ok: "n + 2 \<le> length b \<Longrightarrow> \<exists>v. Uint16 b n = Some v"
  by (simp add: Uint16_def slice_def of_be16_def)

subsection \<open>CRC-32\<close>

text \<open>
  \<^verbatim>\<open>crc32.ChecksumIEEE\<close>: the reflected polynomial 0xEDB88320, initial value and final
  complement all ones, one byte at a time and eight bit steps a byte.
\<close>

definition crc_bit :: "32 word \<Rightarrow> 32 word" where
  "crc_bit s = (if bit s 0 then drop_bit 1 s XOR 0xEDB88320 else drop_bit 1 s)"

definition crc_byte :: "8 word \<Rightarrow> 32 word \<Rightarrow> 32 word" where
  "crc_byte x s = (crc_bit ^^ 8) (s XOR ucast x)"

definition ChecksumIEEE :: "bytes \<Rightarrow> 32 word" where
  "ChecksumIEEE b = NOT (fold crc_byte b (NOT 0))"

text \<open>
  A bit step can be undone (the top bit of the polynomial is set, so the result tells whether the
  low bit was), hence a change of one byte always changes the checksum.
\<close>

lemma crc_bit_top: "bit (crc_bit s) 31 = bit s 0"
  by (auto simp: crc_bit_def bit_simps dest: bit_imp_le_length)

lemma word_xor_inj: "(s :: 32 word) XOR x = s XOR y \<longleftrightarrow> x = y"
proof
  assume "s XOR x = s XOR y"
  then have "s XOR (s XOR x) = s XOR (s XOR y)" by simp
  then show "x = y" by (simp flip: xor.assoc)
qed simp

lemma crc_bit_inj: "inj crc_bit"
proof (rule injI)
  fix s t :: "32 word"
  assume e: "crc_bit s = crc_bit t"
  then have b0: "bit s 0 = bit t 0" using crc_bit_top by metis
  have "drop_bit 1 s = drop_bit 1 t"
    using e b0 word_xor_inj [of "0xEDB88320" "drop_bit 1 s" "drop_bit 1 t"]
    by (simp add: crc_bit_def xor.commute split: if_splits)
  then have "bit (drop_bit 1 s) n = bit (drop_bit 1 t) n" for n by simp
  then have "bit s (Suc n) = bit t (Suc n)" for n by (simp add: bit_drop_bit_eq)
  then show "s = t" using b0 by (intro bit_word_eqI) (metis not0_implies_Suc)
qed

lemma crc_byte_inj: "crc_byte x s = crc_byte x t \<longleftrightarrow> s = t"
proof -
  have "inj (crc_bit ^^ 8)" using crc_bit_inj by (rule inj_fn)
  then have "crc_byte x s = crc_byte x t \<longleftrightarrow> s XOR ucast x = t XOR ucast x"
    by (auto simp: crc_byte_def inj_eq)
  also have "\<dots> \<longleftrightarrow> s = t" using word_xor_inj [of "ucast x" s t] by (simp add: xor.commute)
  finally show ?thesis .
qed

lemma crc_byte_inj2: "crc_byte x s = crc_byte y s \<longleftrightarrow> x = y"
proof -
  have "inj (crc_bit ^^ 8)" using crc_bit_inj by (rule inj_fn)
  then have "crc_byte x s = crc_byte y s \<longleftrightarrow> s XOR ucast x = s XOR ucast y"
    by (auto simp: crc_byte_def inj_eq)
  also have "\<dots> \<longleftrightarrow> (ucast x :: 32 word) = ucast y" by (rule word_xor_inj)
  also have "\<dots> \<longleftrightarrow> x = y"
  proof
    assume e: "(ucast x :: 32 word) = ucast y"
    show "x = y"
    proof (rule bit_word_eqI)
      fix n assume "n < LENGTH(8)"
      then show "bit x n = bit y n" using arg_cong [OF e, of "\<lambda>w. bit w n"] by (simp add: bit_simps)
    qed
  qed simp
  finally show ?thesis .
qed

lemma fold_crc_inj: "fold crc_byte b s = fold crc_byte b t \<longleftrightarrow> s = t"
  by (induction b arbitrary: s t) (simp_all add: crc_byte_inj)

lemma checksum_detects:
  assumes "x \<noteq> y"
  shows "ChecksumIEEE (as @ x # bs) \<noteq> ChecksumIEEE (as @ y # bs)"
  using assms by (simp add: ChecksumIEEE_def fold_crc_inj crc_byte_inj2)

subsection \<open>The contract of a codec\<close>

locale wire_codec =
  fixes marshal :: "'a \<Rightarrow> bytes option" and unmarshal :: "bytes \<Rightarrow> 'a option"
    and valid :: "'a \<Rightarrow> bool" and norm :: "'a \<Rightarrow> 'a"
  assumes marshal_valid: "valid x \<Longrightarrow> \<exists>b. marshal x = Some b \<and> unmarshal b = Some (norm x)"
    and norm_valid: "valid x \<Longrightarrow> valid (norm x)"
    and norm_norm: "valid x \<Longrightarrow> norm (norm x) = norm x"
    and marshal_norm: "valid x \<Longrightarrow> marshal (norm x) = marshal x"
begin

text \<open>Two values have the same wire form exactly when their normal forms agree.\<close>

lemma marshal_eq_iff:
  assumes "valid x" "valid y"
  shows "marshal x = marshal y \<longleftrightarrow> norm x = norm y"
  using marshal_valid [OF assms(1)] marshal_valid [OF assms(2)] marshal_norm [OF assms(1)] marshal_norm [OF assms(2)]
  by (metis option.inject)

text \<open>What was read back is written as the same bytes.\<close>

lemma remarshal:
  assumes "valid x" "marshal x = Some b"
  obtains y where "unmarshal b = Some y" "valid y" "marshal y = Some b"
  using marshal_valid [OF assms(1)] assms norm_valid marshal_norm by (metis option.inject)

end

end
