(* ===== verification/Ethernet.thy ===== *)
theory Ethernet
  imports Wire
begin

section \<open>Package ethernet: frames and VLAN tags\<close>

text \<open>
  \<^verbatim>\<open>ethernet/{ethernet,vlan}.go\<close>. A method on a pointer receiver takes and returns the record. A
  marshaller returns the buffer with the error, as the code does; the outer option is \<open>None\<close> for a
  panic. \<open>Unmarshal\<close> methods write into the frame they are called on, so fields they do not set
  keep their values.
\<close>

datatype eth_error = ErrUnexpectedEOF | ErrInvalidVLAN | ErrInvalidFCS

definition minPayload :: nat where "minPayload = 46"
definition Broadcast :: bytes where "Broadcast = [0xff, 0xff, 0xff, 0xff, 0xff, 0xff]"

type_synonym EtherType = "16 word"

definition EtherTypeIPv4 :: EtherType where "EtherTypeIPv4 = 0x0800"
definition EtherTypeARP :: EtherType where "EtherTypeARP = 0x0806"
definition EtherTypeIPv6 :: EtherType where "EtherTypeIPv6 = 0x86DD"
definition EtherTypeVLAN :: EtherType where "EtherTypeVLAN = 0x8100"
definition EtherTypeServiceVLAN :: EtherType where "EtherTypeServiceVLAN = 0x88a8"

definition VLANMax :: "16 word" where "VLANMax = 0xfff"
definition PriorityNetworkControl :: "8 word" where "PriorityNetworkControl = 7"

record VLAN =
  Priority :: "8 word"
  DropEligible :: bool
  ID :: "16 word"

record Frame =
  Destination :: bytes
  Source :: bytes
  ServiceVLAN :: "VLAN option"
  CVLAN :: "VLAN option"
  EType :: EtherType
  Payload :: bytes

subsection \<open>VLAN tags\<close>

definition VLAN_bits :: "VLAN \<Rightarrow> 16 word" where
  "VLAN_bits v =
     (let ub = push_bit 13 (ucast (Priority v)); drop1 = (if DropEligible v then 1 else 0)
      in (ub OR push_bit 12 drop1) OR ID v)"

definition VLAN_read :: "VLAN \<Rightarrow> bytes \<Rightarrow> (bytes \<times> eth_error option) option" where
  "VLAN_read v b =
     (if PriorityNetworkControl < Priority v then Some (b, Some ErrInvalidVLAN)
      else if VLANMax \<le> ID v then Some (b, Some ErrInvalidVLAN)
      else do { b' \<leftarrow> PutUint16 b 0 (VLAN_bits v); Some (b', None) })"

definition VLAN_MarshalBinary :: "VLAN \<Rightarrow> (bytes \<times> eth_error option) option" where
  "VLAN_MarshalBinary v = VLAN_read v [0, 0]"

definition VLAN_UnmarshalBinary :: "VLAN \<Rightarrow> bytes \<Rightarrow> (VLAN \<times> eth_error option) option" where
  "VLAN_UnmarshalBinary v b =
     (if length b \<noteq> 2 then Some (v, Some ErrUnexpectedEOF)
      else do {
        ub \<leftarrow> Uint16 b 0;
        let v' = \<lparr>Priority = ucast (drop_bit 13 ub), DropEligible = (ub AND 0x1000 \<noteq> 0), ID = ub AND 0x0fff\<rparr>;
        Some (v', if VLANMax \<le> ID v' then Some ErrInvalidVLAN else None)
      })"

definition VLAN_zero :: VLAN where
  "VLAN_zero = \<lparr>Priority = 0, DropEligible = False, ID = 0\<rparr>"

subsection \<open>Marshalling a frame\<close>

fun read_vlans :: "(VLAN option \<times> EtherType) list \<Rightarrow> nat \<Rightarrow> bytes \<Rightarrow> (bytes \<times> (eth_error + nat)) option" where
  "read_vlans [] n b = Some (b, Inr n)"
| "read_vlans ((None, tpid) # vts) n b = read_vlans vts n b"
| "read_vlans ((Some v, tpid) # vts) n b = do {
     b1 \<leftarrow> PutUint16 b n tpid;
     sub \<leftarrow> slice b1 (n + 2) (n + 4);
     r \<leftarrow> VLAN_read v sub;
     b2 \<leftarrow> copy_slice b1 (n + 2) (n + 4) (fst r);
     (case snd r of Some e \<Rightarrow> Some (b2, Inl e) | None \<Rightarrow> read_vlans vts (n + 4) b2)
   }"

definition frame_read :: "Frame \<Rightarrow> bytes \<Rightarrow> (bytes \<times> (eth_error + nat)) option" where
  "frame_read f b =
     (if ServiceVLAN f \<noteq> None \<and> CVLAN f = None then Some (b, Inl ErrInvalidVLAN)
      else do {
        b1 \<leftarrow> copy_slice b 0 6 (Destination f);
        b2 \<leftarrow> copy_slice b1 6 12 (Source f);
        r \<leftarrow> read_vlans [(ServiceVLAN f, EtherTypeServiceVLAN), (CVLAN f, EtherTypeVLAN)] 12 b2;
        (case snd r of
           Inl e \<Rightarrow> Some (fst r, Inl e)
         | Inr n \<Rightarrow> do {
             b3 \<leftarrow> PutUint16 (fst r) n (EType f);
             b4 \<leftarrow> copy_slice b3 (n + 2) (length b3) (Payload f);
             Some (b4, Inr (length b4))
           })
      })"

definition frame_length :: "Frame \<Rightarrow> nat" where
  "frame_length f =
     (let pl = (if length (Payload f) < minPayload then minPayload else length (Payload f));
          vlanLen = (if ServiceVLAN f \<noteq> None \<and> CVLAN f \<noteq> None then 8 else if CVLAN f \<noteq> None then 4 else 0)
      in 6 + 6 + vlanLen + 2 + pl)"

definition MarshalBinary :: "Frame \<Rightarrow> (bytes \<times> eth_error option) option" where
  "MarshalBinary f = do {
     r \<leftarrow> frame_read f (replicate (frame_length f) 0);
     Some (fst r, case snd r of Inl e \<Rightarrow> Some e | Inr _ \<Rightarrow> None)
   }"

definition MarshalFCS :: "Frame \<Rightarrow> (eth_error + bytes) option" where
  "MarshalFCS f = do {
     r \<leftarrow> frame_read f (replicate (frame_length f + 4) 0);
     (case snd r of
        Inl e \<Rightarrow> Some (Inl e)
      | Inr _ \<Rightarrow> do {
          body \<leftarrow> slice (fst r) 0 (length (fst r) - 4);
          b \<leftarrow> copy_slice (fst r) (length (fst r) - 4) (length (fst r)) (be32 (ChecksumIEEE body));
          Some (Inr b)
        })
   }"

subsection \<open>Unmarshalling a frame\<close>

text \<open>\<open>unmarshal_cvlan\<close> is the case \<open>EtherTypeVLAN\<close>, which the service case falls through to.\<close>

definition unmarshal_cvlan :: "Frame \<Rightarrow> bytes \<Rightarrow> nat \<Rightarrow> (Frame \<times> (eth_error + nat)) option" where
  "unmarshal_cvlan f b n = do {
     s \<leftarrow> slice b n (n + 2);
     r \<leftarrow> VLAN_UnmarshalBinary VLAN_zero s;
     (case snd r of
        Some e \<Rightarrow> Some (f, Inl e)
      | None \<Rightarrow> do {
          et \<leftarrow> Uint16 b (n + 2);
          Some (f\<lparr>CVLAN := Some (fst r), EType := et\<rparr>, Inr (n + 4))
        })
   }"

definition unmarshalVLANs :: "Frame \<Rightarrow> EtherType \<Rightarrow> bytes \<Rightarrow> (Frame \<times> (eth_error + nat)) option" where
  "unmarshalVLANs f tpid b =
     (if length b < 4 then Some (f, Inl ErrUnexpectedEOF)
      else if tpid = EtherTypeServiceVLAN then do {
        s \<leftarrow> slice b 0 2;
        r \<leftarrow> VLAN_UnmarshalBinary VLAN_zero s;
        (case snd r of
           Some e \<Rightarrow> Some (f, Inl e)
         | None \<Rightarrow> do {
             et \<leftarrow> Uint16 b 2;
             (let f1 = f\<lparr>ServiceVLAN := Some (fst r)\<rparr> in
              if et \<noteq> EtherTypeVLAN then Some (f1, Inl ErrInvalidVLAN)
              else if length (drop 4 b) < 4 then Some (f1, Inl ErrUnexpectedEOF)
              else unmarshal_cvlan f1 b 4)
           })
      }
      else if tpid = EtherTypeVLAN then unmarshal_cvlan f b 0
      else None)"

definition UnmarshalBinary :: "Frame \<Rightarrow> bytes \<Rightarrow> (Frame \<times> eth_error option) option" where
  "UnmarshalBinary f b =
     (if length b < 14 then Some (f, Some ErrUnexpectedEOF)
      else do {
        et \<leftarrow> Uint16 b 12;
        r \<leftarrow> (if et = EtherTypeServiceVLAN \<or> et = EtherTypeVLAN
              then do {
                v \<leftarrow> unmarshalVLANs f et (drop 14 b);
                Some (fst v, map_sum id (\<lambda>nn. 14 + nn) (snd v))
              }
              else Some (f\<lparr>EType := et\<rparr>, Inr 14));
        (case snd r of
           Inl e \<Rightarrow> Some (fst r, Some e)
         | Inr n \<Rightarrow> do {
             dst \<leftarrow> slice b 0 6;
             src \<leftarrow> slice b 6 12;
             pl \<leftarrow> slice b n (length b);
             Some ((fst r)\<lparr>Destination := dst, Source := src, Payload := pl\<rparr>, None)
           })
      })"

definition UnmarshalFCS :: "Frame \<Rightarrow> bytes \<Rightarrow> (Frame \<times> eth_error option) option" where
  "UnmarshalFCS f b =
     (if length b < 4 then Some (f, Some ErrUnexpectedEOF)
      else do {
        tail \<leftarrow> slice b (length b - 4) (length b);
        body \<leftarrow> slice b 0 (length b - 4);
        if of_be32 tail \<noteq> ChecksumIEEE body then Some (f, Some ErrInvalidFCS)
        else UnmarshalBinary f body
      })"

definition Frame_zero :: Frame where
  "Frame_zero = \<lparr>Destination = [], Source = [], ServiceVLAN = None, CVLAN = None, EType = 0, Payload = []\<rparr>"

subsection \<open>The wire form\<close>

definition valid_vlan :: "VLAN \<Rightarrow> bool" where
  "valid_vlan v \<longleftrightarrow> Priority v \<le> 7 \<and> ID v < 0xfff"

definition tag_bytes :: "VLAN option \<Rightarrow> EtherType \<Rightarrow> bytes" where
  "tag_bytes vo tpid = (case vo of None \<Rightarrow> [] | Some v \<Rightarrow> be16 tpid @ be16 (VLAN_bits v))"

definition wire_payload :: "bytes \<Rightarrow> bytes" where
  "wire_payload p = (if length p < minPayload then pad minPayload p else p)"

definition frame_wire :: "Frame \<Rightarrow> bytes" where
  "frame_wire f = pad 6 (Destination f) @ pad 6 (Source f) @ tag_bytes (ServiceVLAN f) EtherTypeServiceVLAN
     @ tag_bytes (CVLAN f) EtherTypeVLAN @ be16 (EType f) @ wire_payload (Payload f)"

definition frame_marshals :: "Frame \<Rightarrow> bool" where
  "frame_marshals f \<longleftrightarrow> (ServiceVLAN f \<noteq> None \<longrightarrow> CVLAN f \<noteq> None)
     \<and> pred_option valid_vlan (ServiceVLAN f) \<and> pred_option valid_vlan (CVLAN f)"

lemma VLAN_bits_fields:
  assumes "valid_vlan v"
  shows "ucast (drop_bit 13 (VLAN_bits v)) = Priority v" "(VLAN_bits v AND 0x1000 \<noteq> 0) = DropEligible v"
    "VLAN_bits v AND 0x0fff = ID v"
proof -
  have "unat (Priority v) < 2 ^ 3" "unat (ID v) < 2 ^ 12"
    using assms by (simp_all add: valid_vlan_def word_le_nat_alt word_less_nat_alt)
  then have p: "\<And>n. 3 \<le> n \<Longrightarrow> \<not> bit (Priority v) n" and i: "\<And>n. 12 \<le> n \<Longrightarrow> \<not> bit (ID v) n"
    using bit_small by blast+
  have b: "bit (VLAN_bits v) n \<longleftrightarrow> n < 16 \<and> (13 \<le> n \<and> bit (Priority v) (n - 13) \<or> n = 12 \<and> DropEligible v \<or> bit (ID v) n)" for n
    by (auto simp: VLAN_bits_def Let_def bit_simps dest: bit_imp_le_length)
  have p': "\<And>n. bit (Priority v) n \<Longrightarrow> n < 3" using p not_less by blast
  show "ucast (drop_bit 13 (VLAN_bits v)) = Priority v"
    by (rule bit_word_eqI) (use i in \<open>auto simp: bit_simps b dest: p'\<close>)
  have m: "(0x0fff :: 16 word) = mask 12" by (simp add: mask_eq_exp_minus_1)
  have i': "\<And>n. bit (ID v) n \<Longrightarrow> n < 12" using i not_less by blast
  show "VLAN_bits v AND 0x0fff = ID v" unfolding m
    by (rule bit_word_eqI) (auto simp: bit_simps b bit_mask_iff dest: i')
  have "(0x1000 :: 16 word) = 2 ^ 12" by simp
  then have "(VLAN_bits v AND 0x1000 \<noteq> 0) = bit (VLAN_bits v) 12"
    by (simp add: bit_iff_and_push_bit_not_eq_0 push_bit_eq_mult)
  then show "(VLAN_bits v AND 0x1000 \<noteq> 0) = DropEligible v" using i by (simp add: b)
qed

lemma VLAN_read_bytes:
  "length b = 2 \<Longrightarrow> VLAN_read v b = Some (if valid_vlan v then (be16 (VLAN_bits v), None) else (b, Some ErrInvalidVLAN))"
  by (auto simp: VLAN_read_def valid_vlan_def PriorityNetworkControl_def VLANMax_def PutUint16_def copy_slice_def
      not_less not_le)

lemma VLAN_unmarshal_bits:
  assumes "valid_vlan v"
  shows "VLAN_UnmarshalBinary v0 (be16 (VLAN_bits v)) = Some (v, None)"
proof -
  have u: "Uint16 (be16 (VLAN_bits v)) 0 = Some (VLAN_bits v)"
    using Uint16_app [of 0 "[]" "VLAN_bits v" "[]"] by simp
  have "\<not> VLANMax \<le> ID v" using assms by (simp add: valid_vlan_def VLANMax_def not_le)
  then show ?thesis unfolding VLAN_UnmarshalBinary_def
    using VLAN_bits_fields [OF assms] u by (simp add: Let_def)
qed

subsection \<open>Marshalling writes the wire form\<close>

lemma read_vlans_step:
  assumes "length pre = n" "valid_vlan v"
  shows "read_vlans ((Some v, tpid) # vts) n (pre @ replicate (4 + m) 0)
    = read_vlans vts (n + 4) ((pre @ tag_bytes (Some v) tpid) @ replicate m 0)"
proof -
  have r: "4 + m = 2 + (2 + m)" by simp
  have p1: "PutUint16 (pre @ replicate (4 + m) 0) n tpid = Some ((pre @ be16 tpid) @ replicate (2 + m) 0)"
    unfolding r append_assoc by (rule put16_pad) (simp add: assms(1))
  have sl: "slice ((pre @ be16 tpid) @ replicate (2 + m) 0) (n + 2) (n + 4) = Some [0, 0]"
    using assms(1) by (simp add: slice_def numeral_2_eq_2)
  have c: "copy_slice ((pre @ be16 tpid) @ replicate (2 + m) 0) (n + 2) (n + 4) (be16 (VLAN_bits v))
      = Some ((pre @ be16 tpid) @ be16 (VLAN_bits v) @ replicate m 0)"
    using copy_pad [of "n + 2" "pre @ be16 tpid" "n + 4" 2 m "be16 (VLAN_bits v)"] assms(1) by (simp add: pad_same)
  show ?thesis using p1 sl c assms(2) VLAN_read_bytes [of "[0, 0]" v]
    by (simp add: tag_bytes_def)
qed

lemma read_vlans_invalid:
  assumes "length pre = n" "\<not> valid_vlan v"
  shows "\<exists>b. read_vlans ((Some v, tpid) # vts) n (pre @ replicate (4 + m) 0) = Some (b, Inl ErrInvalidVLAN)"
proof -
  have r: "4 + m = 2 + (2 + m)" by simp
  have p1: "PutUint16 (pre @ replicate (4 + m) 0) n tpid = Some ((pre @ be16 tpid) @ replicate (2 + m) 0)"
    unfolding r append_assoc by (rule put16_pad) (simp add: assms(1))
  have sl: "slice ((pre @ be16 tpid) @ replicate (2 + m) 0) (n + 2) (n + 4) = Some [0, 0]"
    using assms(1) by (simp add: slice_def numeral_2_eq_2)
  have "\<exists>b. copy_slice ((pre @ be16 tpid) @ replicate (2 + m) 0) (n + 2) (n + 4) [0, 0] = Some b"
    using assms(1) by (simp add: copy_slice_def)
  then show ?thesis using p1 sl assms(2) VLAN_read_bytes [of "[0, 0]" v] by auto
qed

lemma length_tag_bytes [simp]: "length (tag_bytes vo tpid) = (if vo = None then 0 else 4)"
  by (auto simp: tag_bytes_def)

lemma read_vlans_wire:
  assumes "list_all (\<lambda>(vo, _). pred_option valid_vlan vo) vts" "length pre = n"
  shows "read_vlans vts n (pre @ replicate (length (concat (map (\<lambda>(vo, t). tag_bytes vo t) vts)) + m) 0)
    = Some (pre @ concat (map (\<lambda>(vo, t). tag_bytes vo t) vts) @ replicate m 0,
        Inr (n + length (concat (map (\<lambda>(vo, t). tag_bytes vo t) vts))))"
  using assms
proof (induction vts arbitrary: pre n)
  case (Cons vt vts)
  let ?L = "length (concat (map (\<lambda>(vo, t). tag_bytes vo t) vts))"
  obtain vo t where vt: "vt = (vo, t)" by (cases vt)
  show ?case
  proof (cases vo)
    case None
    then show ?thesis using Cons.IH [of pre n] Cons.prems vt by simp (simp add: tag_bytes_def)
  next
    case (Some v)
    have v: "valid_vlan v" using Cons.prems Some vt by simp
    have "replicate (length (concat (map (\<lambda>(vo, t). tag_bytes vo t) (vt # vts))) + m) (0 :: 8 word)
        = replicate (4 + (?L + m)) 0" using Some vt by simp
    then show ?thesis
      using read_vlans_step [OF Cons.prems(2) v, of t vts "?L + m"] Cons.IH [of "pre @ tag_bytes (Some v) t" "n + 4"]
        Cons.prems Some vt by (simp add: add.assoc)
  qed
qed simp

lemma length_wire_payload: "length (wire_payload p) = max minPayload (length p)"
  by (simp add: wire_payload_def max_def)

lemma frame_length_wire: "frame_marshals f \<Longrightarrow> frame_length f = length (frame_wire f)"
  by (auto simp: frame_length_def frame_wire_def length_wire_payload frame_marshals_def Let_def max_def)

lemma copy_payload:
  assumes "lo = length pre" "length p \<le> k"
  shows "copy_slice (pre @ replicate k 0) lo (length (pre @ replicate k 0)) p = Some (pre @ pad k p)"
  using copy_pad [OF assms(1), of "length pre + k" k 0 p] by simp

lemma frame_read_wire:
  assumes "frame_marshals f"
  shows "frame_read f (replicate (frame_length f + m) 0)
    = Some (frame_wire f @ replicate m 0, Inr (length (frame_wire f) + m))"
proof -
  let ?d = "pad 6 (Destination f)" and ?s = "pad 6 (Source f)"
  let ?vts = "[(ServiceVLAN f, EtherTypeServiceVLAN), (CVLAN f, EtherTypeVLAN)]"
  let ?tags = "concat (map (\<lambda>(vo, t). tag_bytes vo t) ?vts)"
  let ?k = "max minPayload (length (Payload f)) + m"
  have tags: "?tags = tag_bytes (ServiceVLAN f) EtherTypeServiceVLAN @ tag_bytes (CVLAN f) EtherTypeVLAN" by simp
  have len: "frame_length f + m = 6 + (6 + (length ?tags + (2 + ?k)))"
    using frame_length_wire [OF assms] by (simp add: frame_wire_def length_wire_payload)
  have c1: "copy_slice (replicate (frame_length f + m) 0) 0 6 (Destination f)
      = Some (?d @ replicate (6 + (length ?tags + (2 + ?k))) 0)"
    unfolding len by (rule copy_pad [where pre = "[]" and lo = 0 and hi = 6 and k = 6, simplified])
  have c2: "copy_slice (?d @ replicate (6 + (length ?tags + (2 + ?k))) 0) 6 12 (Source f)
      = Some ((?d @ ?s) @ replicate (length ?tags + (2 + ?k)) 0)"
    unfolding append_assoc by (rule copy_pad) simp_all
  have c3: "read_vlans ?vts 12 ((?d @ ?s) @ replicate (length ?tags + (2 + ?k)) 0)
      = Some (((?d @ ?s) @ ?tags) @ replicate (2 + ?k) 0, Inr (12 + length ?tags))"
    using read_vlans_wire [of ?vts "?d @ ?s" 12 "2 + ?k"] assms by (simp add: frame_marshals_def)
  have c4: "PutUint16 (((?d @ ?s) @ ?tags) @ replicate (2 + ?k) 0) (12 + length ?tags) (EType f)
      = Some (((?d @ ?s) @ ?tags @ be16 (EType f)) @ replicate ?k 0)"
    using put16_pad [of "12 + length ?tags" "(?d @ ?s) @ ?tags" ?k "EType f"] by simp
  have c5: "copy_slice (((?d @ ?s) @ ?tags @ be16 (EType f)) @ replicate ?k 0) (12 + length ?tags + 2)
        (length (((?d @ ?s) @ ?tags @ be16 (EType f)) @ replicate ?k 0)) (Payload f)
      = Some (((?d @ ?s) @ ?tags @ be16 (EType f)) @ pad ?k (Payload f))"
    by (rule copy_payload) simp_all
  have ok: "\<not> (ServiceVLAN f \<noteq> None \<and> CVLAN f = None)" using assms by (auto simp: frame_marshals_def)
  have "frame_read f (replicate (frame_length f + m) 0)
      = Some (((?d @ ?s) @ ?tags @ be16 (EType f)) @ pad ?k (Payload f),
          Inr (length (((?d @ ?s) @ ?tags @ be16 (EType f)) @ pad ?k (Payload f))))"
    unfolding frame_read_def if_not_P [OF ok]
    by (simp only: c1 c2 c3 c4 c5 Option.bind.bind_lunit fst_conv snd_conv sum.case)
  moreover have "pad ?k (Payload f) = wire_payload (Payload f) @ replicate m 0"
    by (auto simp: pad_def wire_payload_def max_def replicate_add [symmetric])
  ultimately show ?thesis by (simp add: frame_wire_def tags)
qed

lemma MarshalBinary_wire: "frame_marshals f \<Longrightarrow> MarshalBinary f = Some (frame_wire f, None)"
  using frame_read_wire [of f 0] by (simp add: MarshalBinary_def)

text \<open>Every frame that cannot be written is reported, with no panic.\<close>

lemma frame_read_invalid:
  assumes "\<not> frame_marshals f"
  shows "\<exists>b. frame_read f (replicate (frame_length f + m) 0) = Some (b, Inl ErrInvalidVLAN)"
proof (cases "ServiceVLAN f \<noteq> None \<and> CVLAN f = None")
  case True
  then show ?thesis by (auto simp: frame_read_def)
next
  case False
  let ?d = "pad 6 (Destination f)" and ?s = "pad 6 (Source f)"
  let ?vts = "[(ServiceVLAN f, EtherTypeServiceVLAN), (CVLAN f, EtherTypeVLAN)]"
  obtain k where len: "frame_length f + m = 6 + (6 + k)" and k: "4 * length (filter (\<lambda>(v, _). v \<noteq> None) ?vts) \<le> k"
  proof
    show "frame_length f + m = 6 + (6 + (frame_length f + m - 12))" by (simp add: frame_length_def Let_def)
    show "4 * length (filter (\<lambda>(v, _). v \<noteq> None) ?vts) \<le> frame_length f + m - 12"
      using False by (auto simp: frame_length_def Let_def)
  qed
  have c1: "copy_slice (replicate (frame_length f + m) 0) 0 6 (Destination f) = Some (?d @ replicate (6 + k) 0)"
    unfolding len by (rule copy_pad [where pre = "[]" and lo = 0 and hi = 6 and k = 6, simplified])
  have c2: "copy_slice (?d @ replicate (6 + k) 0) 6 12 (Source f) = Some ((?d @ ?s) @ replicate k 0)"
    unfolding append_assoc by (rule copy_pad) simp_all
  have "\<exists>b. read_vlans ?vts 12 ((?d @ ?s) @ replicate k 0) = Some (b, Inl ErrInvalidVLAN)"
  proof (cases "ServiceVLAN f")
    case None
    then obtain c where c: "CVLAN f = Some c" "\<not> valid_vlan c"
      using assms by (cases "CVLAN f") (auto simp: frame_marshals_def)
    have "k = 4 + (k - 4)" using k c None by simp
    then show ?thesis using read_vlans_invalid [of "?d @ ?s" 12 c EtherTypeVLAN "[]" "k - 4"] None c by simp
  next
    case (Some v)
    then obtain c where c: "CVLAN f = Some c" using False by auto
    have k4: "k = 4 + (4 + (k - 8))" "k = 4 + (k - 4)" using k c Some by simp_all
    show ?thesis
    proof (cases "valid_vlan v")
      case True
      then have "\<not> valid_vlan c" using assms Some c by (simp add: frame_marshals_def)
      moreover have "read_vlans ?vts 12 ((?d @ ?s) @ replicate k 0)
          = read_vlans [(Some c, EtherTypeVLAN)] 16 (((?d @ ?s) @ tag_bytes (Some v) EtherTypeServiceVLAN) @ replicate (4 + (k - 8)) 0)"
        using read_vlans_step [of "?d @ ?s" 12 v EtherTypeServiceVLAN _ "4 + (k - 8)"] True Some c k4(1) by simp
      ultimately show ?thesis
        using read_vlans_invalid [of "(?d @ ?s) @ tag_bytes (Some v) EtherTypeServiceVLAN" 16 c EtherTypeVLAN "[]" "k - 8"]
        by simp
    next
      case no: False
      then show ?thesis
        using read_vlans_invalid [of "?d @ ?s" 12 v EtherTypeServiceVLAN _ "k - 4"] Some c k4(2) by simp
    qed
  qed
  then show ?thesis unfolding frame_read_def using c1 c2 False by auto
qed

subsection \<open>Unmarshalling reads the wire form\<close>

text \<open>\<open>overlay f0 f\<close>: what reading \<open>f\<close> into \<open>f0\<close> leaves: a tag absent from the wire keeps its old value.\<close>

definition overlay :: "Frame \<Rightarrow> Frame \<Rightarrow> Frame" where
  "overlay f0 f = f\<lparr>ServiceVLAN := (case ServiceVLAN f of None \<Rightarrow> ServiceVLAN f0 | Some v \<Rightarrow> Some v),
     CVLAN := (case CVLAN f of None \<Rightarrow> CVLAN f0 | Some v \<Rightarrow> Some v)\<rparr>"

definition wire_norm :: "Frame \<Rightarrow> Frame" where
  "wire_norm f = f\<lparr>Destination := pad 6 (Destination f), Source := pad 6 (Source f), Payload := wire_payload (Payload f)\<rparr>"

definition frame_readable :: "Frame \<Rightarrow> bool" where
  "frame_readable f \<longleftrightarrow> frame_marshals f
     \<and> (CVLAN f = None \<longrightarrow> EType f \<noteq> EtherTypeVLAN \<and> EType f \<noteq> EtherTypeServiceVLAN)"

lemma unmarshal_cvlan_bytes:
  assumes "valid_vlan v" "n = length pre"
  shows "unmarshal_cvlan f (pre @ be16 (VLAN_bits v) @ be16 et @ rest) n
    = Some (f\<lparr>CVLAN := Some v, EType := et\<rparr>, Inr (n + 4))"
proof -
  have "slice (pre @ be16 (VLAN_bits v) @ be16 et @ rest) n (n + 2) = Some (be16 (VLAN_bits v))"
    using assms(2) by (intro slice_app) simp_all
  moreover have "Uint16 (pre @ be16 (VLAN_bits v) @ be16 et @ rest) (n + 2) = Some et"
    using Uint16_app [of "n + 2" "pre @ be16 (VLAN_bits v)" et rest] assms(2) by simp
  ultimately show ?thesis using VLAN_unmarshal_bits [OF assms(1)] by (simp add: unmarshal_cvlan_def)
qed

lemma unmarshalVLANs_service:
  assumes "valid_vlan s" "valid_vlan v"
  shows "unmarshalVLANs f EtherTypeServiceVLAN (be16 (VLAN_bits s) @ be16 EtherTypeVLAN @ be16 (VLAN_bits v) @ be16 et @ rest)
    = Some (f\<lparr>ServiceVLAN := Some s, CVLAN := Some v, EType := et\<rparr>, Inr 8)"
proof -
  let ?b = "be16 (VLAN_bits s) @ be16 EtherTypeVLAN @ be16 (VLAN_bits v) @ be16 et @ rest"
  have s: "slice ?b 0 2 = Some (be16 (VLAN_bits s))" using slice_app [of 0 "[]" 2 "be16 (VLAN_bits s)"] by simp
  have u: "Uint16 ?b 2 = Some EtherTypeVLAN" using Uint16_app [of 2 "be16 (VLAN_bits s)" EtherTypeVLAN] by simp
  have c: "unmarshal_cvlan (f\<lparr>ServiceVLAN := Some s\<rparr>) ?b 4
      = Some (f\<lparr>ServiceVLAN := Some s, CVLAN := Some v, EType := et\<rparr>, Inr 8)"
    using unmarshal_cvlan_bytes [OF assms(2), of 4 "be16 (VLAN_bits s) @ be16 EtherTypeVLAN"] by simp
  show ?thesis unfolding unmarshalVLANs_def
    using s u c VLAN_unmarshal_bits [OF assms(1)] by (simp add: Let_def)
qed

lemma UnmarshalBinary_wire:
  assumes "frame_readable f"
  shows "UnmarshalBinary f0 (frame_wire f) = Some (overlay f0 (wire_norm f), None)"
proof -
  let ?d = "pad 6 (Destination f)" and ?s = "pad 6 (Source f)" and ?p = "wire_payload (Payload f)"
  have ne: "EtherTypeServiceVLAN \<noteq> EtherTypeVLAN" by (simp add: EtherTypeServiceVLAN_def EtherTypeVLAN_def)
  have m: "frame_marshals f" using assms by (simp add: frame_readable_def)
  have tl: "slice (?d @ ?s @ rest) 0 6 = Some ?d" "slice (?d @ ?s @ rest) 6 12 = Some ?s"
    "12 \<le> n \<Longrightarrow> n \<le> 12 + length rest \<Longrightarrow> slice (?d @ ?s @ rest) n (12 + length rest) = Some (drop (n - 12) rest)"
    for n rest by (simp_all add: slice_def)
  have u: "Uint16 (?d @ ?s @ be16 t @ r) 12 = Some t" for t r
    using Uint16_app [of 12 "?d @ ?s" t r] by simp
  consider (plain) "ServiceVLAN f = None" "CVLAN f = None"
    | (tagged) c where "ServiceVLAN f = None" "CVLAN f = Some c" "valid_vlan c"
    | (double) v c where "ServiceVLAN f = Some v" "CVLAN f = Some c" "valid_vlan v" "valid_vlan c"
    using m by (cases "ServiceVLAN f"; cases "CVLAN f") (auto simp: frame_marshals_def)
  then show ?thesis
  proof cases
    case plain
    then have w: "frame_wire f = ?d @ ?s @ be16 (EType f) @ ?p" by (simp add: frame_wire_def tag_bytes_def)
    show ?thesis unfolding w UnmarshalBinary_def u
      using plain assms tl(1,2) [of "be16 (EType f) @ ?p"] tl(3) [of 14 "be16 (EType f) @ ?p"]
      by (simp add: frame_readable_def overlay_def wire_norm_def)
  next
    case tagged
    then have w: "frame_wire f = ?d @ ?s @ be16 EtherTypeVLAN @ be16 (VLAN_bits c) @ be16 (EType f) @ ?p"
      by (simp add: frame_wire_def tag_bytes_def)
    let ?r = "be16 EtherTypeVLAN @ be16 (VLAN_bits c) @ be16 (EType f) @ ?p"
    have v: "unmarshalVLANs f0 EtherTypeVLAN (be16 (VLAN_bits c) @ be16 (EType f) @ ?p)
        = Some (f0\<lparr>CVLAN := Some c, EType := EType f\<rparr>, Inr 4)"
      using unmarshal_cvlan_bytes [OF tagged(3), of 0 "[]"] ne [symmetric] by (simp add: unmarshalVLANs_def)
    show ?thesis unfolding w UnmarshalBinary_def u
      using tagged v tl(1,2) [of ?r] tl(3) [of 18 ?r] by (simp add: overlay_def wire_norm_def)
  next
    case double
    let ?r = "be16 EtherTypeServiceVLAN @ be16 (VLAN_bits v) @ be16 EtherTypeVLAN @ be16 (VLAN_bits c) @ be16 (EType f) @ ?p"
    have w: "frame_wire f = ?d @ ?s @ ?r" using double by (simp add: frame_wire_def tag_bytes_def)
    show ?thesis unfolding w UnmarshalBinary_def u
      using double unmarshalVLANs_service [OF double(3,4), of f0 "EType f" ?p] tl(1,2) [of ?r] tl(3) [of 22 ?r]
      by (simp add: overlay_def wire_norm_def)
  qed
qed

end
