(* ===== verification/Ethernet_Laws.thy ===== *)
theory Ethernet_Laws
  imports Ethernet
begin

section \<open>Package ethernet: laws of the codec\<close>

text \<open>
  Unmarshalling never panics, reading and writing are inverse in both directions (up to the
  padding), and the frame check sequence catches every change of one byte.
\<close>

subsection \<open>Words from bytes\<close>

lemma be16_of_be16: "of_be16 [x, y] = Some v \<Longrightarrow> be16 v = [x, y]"
proof -
  assume "of_be16 [x, y] = Some v"
  then have v: "v = ucast y OR push_bit 8 (ucast x)" by (simp add: of_be16_def)
  have "ucast (drop_bit 8 v) = x" unfolding v
    by (rule bit_word_eqI) (auto simp: bit_simps dest: bit_imp_le_length)
  moreover have "ucast v = y" unfolding v
    by (rule bit_word_eqI) (auto simp: bit_simps dest: bit_imp_le_length)
  ultimately show ?thesis by (simp add: be16_def)
qed

lemma two_bytes:
  assumes "length l = 2"
  obtains x y where "l = [x, y]"
  using assms by (auto simp: numeral_2_eq_2 length_Suc_conv)

lemma Uint16_slice: "Uint16 b n = Some v \<Longrightarrow> n + 2 \<le> length b \<and> take 2 (drop n b) = be16 v"
proof -
  assume u: "Uint16 b n = Some v"
  then have l: "n + 2 \<le> length b" by (auto simp: Uint16_def slice_def split: if_splits)
  then have "length (take 2 (drop n b)) = 2" by simp
  then obtain x y where xy: "take 2 (drop n b) = [x, y]" by (rule two_bytes)
  then have "of_be16 [x, y] = Some v" using u l by (simp add: Uint16_def slice_def)
  then show ?thesis using l xy be16_of_be16 by simp
qed

lemma be32_of_be32: "length l = 4 \<Longrightarrow> be32 (of_be32 l) = l"
proof -
  assume "length l = 4"
  then obtain a b c d where l: "l = [a, b, c, d]" by (auto simp: eval_nat_numeral length_Suc_conv)
  let ?v = "of_be32 l"
  have v: "bit ?v n \<longleftrightarrow> (if n < 8 then bit d n else if n < 16 then bit c (n - 8)
      else if n < 24 then bit b (n - 16) else n < 32 \<and> bit a (n - 24))" for n
    by (auto simp: l of_be32_def bit_simps dest: bit_imp_le_length)
  have "ucast (drop_bit 24 ?v) = a" "ucast (drop_bit 16 ?v) = b" "ucast (drop_bit 8 ?v) = c" "ucast ?v = d"
    by (rule bit_word_eqI; auto simp: bit_simps v dest: bit_imp_le_length)+
  then show ?thesis by (simp add: be32_def l)
qed

subsection \<open>Reading VLAN tags\<close>

lemma VLAN_bits_of:
  "VLAN_bits \<lparr>Priority = ucast (drop_bit 13 ub), DropEligible = (ub AND 0x1000 \<noteq> 0), ID = ub AND 0x0fff\<rparr> = ub"
proof -
  have "(0x1000 :: 16 word) = 2 ^ 12" by simp
  then have d: "(ub AND 0x1000 \<noteq> 0) = bit ub 12"
    by (simp add: bit_iff_and_push_bit_not_eq_0 push_bit_eq_mult)
  have m: "(0x0fff :: 16 word) = mask 12" by (simp add: mask_eq_exp_minus_1)
  show ?thesis
    unfolding VLAN_bits_def Let_def d m
  proof (rule bit_word_eqI, goal_cases)
    case (1 n)
    consider "n < 12" | "n = 12" | "13 \<le> n" by linarith
    then show ?case using 1 by cases (auto simp: bit_simps bit_mask_iff)
  qed
qed

lemma VLAN_unmarshal_sound:
  assumes "VLAN_UnmarshalBinary v0 s = Some (v, None)"
  shows "length s = 2" "valid_vlan v" "be16 (VLAN_bits v) = s"
proof -
  show l: "length s = 2" using assms by (auto simp: VLAN_UnmarshalBinary_def split: if_splits)
  then obtain ub where ub: "Uint16 s 0 = Some ub" using Uint16_ok [of 0 s] by auto
  then have v: "v = \<lparr>Priority = ucast (drop_bit 13 ub), DropEligible = (ub AND 0x1000 \<noteq> 0), ID = ub AND 0x0fff\<rparr>"
    and i: "\<not> VLANMax \<le> ID v"
    using assms l by (auto simp: VLAN_UnmarshalBinary_def Let_def split: if_splits)
  show "be16 (VLAN_bits v) = s" using Uint16_slice [OF ub] l unfolding v VLAN_bits_of by simp
  have "unat (drop_bit 13 ub) \<le> 7"
  proof -
    have "unat (drop_bit 13 ub) = unat ub div 2 ^ 13" by (simp add: drop_bit_eq_div unat_div)
    then show ?thesis using unsigned_less [where ?'a = nat, of ub] by simp
  qed
  then have "Priority v \<le> 7" unfolding v
    by (simp add: word_le_nat_alt unsigned_ucast_eq take_bit_nat_eq_self)
  then show "valid_vlan v" using i by (simp add: valid_vlan_def VLANMax_def)
qed

lemma VLAN_unmarshal_total: "length s = 2 \<Longrightarrow> \<exists>v e. VLAN_UnmarshalBinary v0 s = Some (v, e) \<and> e \<in> {None, Some ErrInvalidVLAN}"
  using Uint16_ok [of 0 s] by (auto simp: VLAN_UnmarshalBinary_def Let_def)

subsection \<open>No panic\<close>

text \<open>\<open>vlans_ok\<close>: no panic, an error of the two kinds, or a count of bytes that were there.\<close>

definition vlans_ok :: "nat \<Rightarrow> (Frame \<times> (eth_error + nat)) option \<Rightarrow> bool" where
  "vlans_ok len r \<longleftrightarrow> (case r of None \<Rightarrow> False
     | Some (_, Inl e) \<Rightarrow> e = ErrUnexpectedEOF \<or> e = ErrInvalidVLAN | Some (_, Inr k) \<Rightarrow> k \<le> len)"

lemma unmarshal_cvlan_total: "n + 4 \<le> length b \<Longrightarrow> vlans_ok (length b) (unmarshal_cvlan f b n)"
  using VLAN_unmarshal_total [of "take 2 (drop n b)" VLAN_zero] Uint16_ok [of "n + 2" b]
  by (auto simp: unmarshal_cvlan_def slice_def vlans_ok_def)

lemma unmarshalVLANs_total:
  assumes "tpid = EtherTypeServiceVLAN \<or> tpid = EtherTypeVLAN"
  shows "vlans_ok (length b) (unmarshalVLANs f tpid b)"
proof (cases "length b < 4")
  case True
  then show ?thesis by (simp add: unmarshalVLANs_def vlans_ok_def)
next
  case False
  show ?thesis
  proof (cases "tpid = EtherTypeServiceVLAN")
    case True
    obtain v e where v: "VLAN_UnmarshalBinary VLAN_zero (take 2 b) = Some (v, e)" "e \<in> {None, Some ErrInvalidVLAN}"
      using VLAN_unmarshal_total [of "take 2 b" VLAN_zero] False by auto
    obtain et where et: "Uint16 b 2 = Some et" using Uint16_ok [of 2 b] False by auto
    show ?thesis
      using True False v et unmarshal_cvlan_total [of 4 b "f\<lparr>ServiceVLAN := Some v\<rparr>"]
      by (auto simp: unmarshalVLANs_def slice_def Let_def) (auto simp: vlans_ok_def)
  next
    case no: False
    then show ?thesis
      using assms False unmarshal_cvlan_total [of 0 b f] by (simp add: unmarshalVLANs_def)
  qed
qed

lemma UnmarshalBinary_total:
  "\<exists>f' e. UnmarshalBinary f b = Some (f', e) \<and> e \<in> {None, Some ErrUnexpectedEOF, Some ErrInvalidVLAN}"
proof (cases "length b < 14")
  case True
  then show ?thesis by (simp add: UnmarshalBinary_def)
next
  case False
  obtain et where et: "Uint16 b 12 = Some et" using Uint16_ok [of 12 b] False by auto
  show ?thesis
  proof (cases "et = EtherTypeServiceVLAN \<or> et = EtherTypeVLAN")
    case True
    obtain f' r where r: "unmarshalVLANs f et (drop 14 b) = Some (f', r)"
        "case r of Inl e \<Rightarrow> e = ErrUnexpectedEOF \<or> e = ErrInvalidVLAN | Inr k \<Rightarrow> k \<le> length (drop 14 b)"
      using unmarshalVLANs_total [OF True, of "drop 14 b" f]
      by (auto simp: vlans_ok_def split: option.splits sum.splits)
    show ?thesis
      unfolding UnmarshalBinary_def if_not_P [OF False] et Option.bind.bind_lunit if_P [OF True] r(1) fst_conv snd_conv
      using r(2) False by (cases r) (auto simp: slice_def)
  next
    case no: False
    then show ?thesis using et False by (simp add: UnmarshalBinary_def slice_def)
  qed
qed

subsection \<open>Writing back what was read\<close>

lemma take_drop_split: "take m (drop n b) @ drop (n + m) b = drop n b"
  by (metis append_take_drop_id drop_drop add.commute)

lemma unmarshal_cvlan_sound:
  assumes "unmarshal_cvlan f b n = Some (f', Inr k)"
  obtains c where "valid_vlan c" "f' = f\<lparr>CVLAN := Some c, EType := EType f'\<rparr>" "k = n + 4" "n + 4 \<le> length b"
    "drop n b = be16 (VLAN_bits c) @ be16 (EType f') @ drop (n + 4) b"
proof -
  obtain c where c: "VLAN_UnmarshalBinary VLAN_zero (take 2 (drop n b)) = Some (c, None)"
    and u: "Uint16 b (n + 2) = Some (EType f')" and f': "f' = f\<lparr>CVLAN := Some c, EType := EType f'\<rparr>" "k = n + 4"
    using assms by (auto simp: unmarshal_cvlan_def slice_def Option.bind_eq_Some_conv split: if_splits option.splits)
  note s = VLAN_unmarshal_sound [OF c]
  note w = Uint16_slice [OF u]
  have "drop n b = take 2 (drop n b) @ take 2 (drop (n + 2) b) @ drop (n + 4) b"
    using take_drop_split [of 2 n b] take_drop_split [of 2 "n + 2" b] by (simp add: numeral_eq_Suc)
  then show ?thesis using that [of c] s w f' by simp
qed

lemma unmarshalVLANs_sound:
  assumes "unmarshalVLANs f EtherTypeServiceVLAN b = Some (f', Inr k)"
  obtains v c where "valid_vlan v" "valid_vlan c" "k = 8" "8 \<le> length b"
    "f' = f\<lparr>ServiceVLAN := Some v, CVLAN := Some c, EType := EType f'\<rparr>"
    "b = be16 (VLAN_bits v) @ be16 EtherTypeVLAN @ be16 (VLAN_bits c) @ be16 (EType f') @ drop 8 b"
proof -
  obtain v where v: "VLAN_UnmarshalBinary VLAN_zero (take 2 b) = Some (v, None)"
    and u: "Uint16 b 2 = Some EtherTypeVLAN" and l: "4 \<le> length b"
    and c: "unmarshal_cvlan (f\<lparr>ServiceVLAN := Some v\<rparr>) b 4 = Some (f', Inr k)"
    using assms by (auto simp: unmarshalVLANs_def slice_def Let_def Option.bind_eq_Some_conv split: if_splits option.splits)
  obtain c where c': "valid_vlan c" "f' = f\<lparr>ServiceVLAN := Some v, CVLAN := Some c, EType := EType f'\<rparr>"
      "k = 8" "8 \<le> length b" "drop 4 b = be16 (VLAN_bits c) @ be16 (EType f') @ drop 8 b"
    using unmarshal_cvlan_sound [OF c] by auto
  have "b = take 2 b @ take 2 (drop 2 b) @ drop 4 b"
    using take_drop_split [of 2 0 b] take_drop_split [of 2 2 b] by simp
  then show ?thesis
    using that [of v c] VLAN_unmarshal_sound [OF v] Uint16_slice [OF u] c' by simp
qed

lemma UnmarshalBinary_parts:
  assumes "UnmarshalBinary f0 b = Some (f, None)"
  obtains et g n where "14 \<le> length b" "Uint16 b 12 = Some et" "n \<le> length b"
    "f = g\<lparr>Destination := take 6 b, Source := take 6 (drop 6 b), Payload := drop n b\<rparr>"
    "if et = EtherTypeServiceVLAN \<or> et = EtherTypeVLAN
     then \<exists>k. unmarshalVLANs f0 et (drop 14 b) = Some (g, Inr k) \<and> n = 14 + k
     else g = f0\<lparr>EType := et\<rparr> \<and> n = 14"
proof -
  have l: "14 \<le> length b" using assms by (auto simp: UnmarshalBinary_def split: if_splits)
  obtain et where u: "Uint16 b 12 = Some et" using Uint16_ok [of 12 b] l by auto
  show ?thesis
  proof (cases "et = EtherTypeServiceVLAN \<or> et = EtherTypeVLAN")
    case True
    obtain g r where r: "unmarshalVLANs f0 et (drop 14 b) = Some (g, r)" "vlans_ok (length (drop 14 b)) (Some (g, r))"
      using unmarshalVLANs_total [OF True, of "drop 14 b" f0]
      by (cases "unmarshalVLANs f0 et (drop 14 b)") (auto simp: vlans_ok_def)
    have eq: "UnmarshalBinary f0 b = (case map_sum id ((+) 14) r of
           Inl e \<Rightarrow> Some (g, Some e)
         | Inr n \<Rightarrow> do {
             dst \<leftarrow> slice b 0 6; src \<leftarrow> slice b 6 12; pl \<leftarrow> slice b n (length b);
             Some (g\<lparr>Destination := dst, Source := src, Payload := pl\<rparr>, None) })"
      using l u True r(1) by (cases r) (simp_all add: UnmarshalBinary_def)
    show ?thesis
    proof (cases r)
      case (Inl e)
      with eq assms show ?thesis by simp
    next
      case (Inr k)
      then have "14 + k \<le> length b" using r(2) l by (simp add: vlans_ok_def)
      then show ?thesis using eq Inr assms l u True r(1)
        by (intro that [of et "14 + k" g]) (auto simp: slice_def)
    qed
  next
    case False
    then show ?thesis using assms l u by (intro that [of et 14 "f0\<lparr>EType := et\<rparr>"]) (auto simp: UnmarshalBinary_def slice_def)
  qed
qed

lemma UnmarshalBinary_sound:
  assumes "UnmarshalBinary Frame_zero b = Some (f, None)" "minPayload \<le> length (Payload f)"
  shows "frame_readable f" "frame_wire f = b"
proof -
  obtain et g n where p: "14 \<le> length b" "Uint16 b 12 = Some et" "n \<le> length b"
    "f = g\<lparr>Destination := take 6 b, Source := take 6 (drop 6 b), Payload := drop n b\<rparr>"
    "if et = EtherTypeServiceVLAN \<or> et = EtherTypeVLAN
     then \<exists>k. unmarshalVLANs Frame_zero et (drop 14 b) = Some (g, Inr k) \<and> n = 14 + k
     else g = Frame_zero\<lparr>EType := et\<rparr> \<and> n = 14"
    using UnmarshalBinary_parts [OF assms(1)] .
  have b12: "b = take 6 b @ take 6 (drop 6 b) @ be16 et @ drop 14 b"
    using take_drop_split [of 6 0 b] take_drop_split [of 6 6 b] take_drop_split [of 2 12 b] Uint16_slice [OF p(2)] by simp
  have pads: "pad 6 (take 6 b) = take 6 b" "pad 6 (take 6 (drop 6 b)) = take 6 (drop 6 b)"
    "wire_payload (drop n b) = drop n b"
    using p(1,4) assms(2) by (simp_all add: pad_same wire_payload_def)
  have ne: "EtherTypeServiceVLAN \<noteq> EtherTypeVLAN" by (simp add: EtherTypeServiceVLAN_def EtherTypeVLAN_def)
  consider (plain) "et \<noteq> EtherTypeServiceVLAN" "et \<noteq> EtherTypeVLAN" | (c) "et = EtherTypeVLAN"
    | (s) "et = EtherTypeServiceVLAN" by blast
  then have "frame_readable f \<and> frame_wire f = b"
  proof cases
    case plain
    then show ?thesis using p(4,5) pads b12
      by (simp add: frame_readable_def frame_marshals_def frame_wire_def tag_bytes_def Frame_zero_def)
  next
    case c
    then obtain k where k: "unmarshal_cvlan Frame_zero (drop 14 b) 0 = Some (g, Inr k)" "n = 14 + k"
      using p(5) ne [symmetric] by (auto simp: unmarshalVLANs_def split: if_splits)
    from unmarshal_cvlan_sound [OF k(1)] obtain v where v: "valid_vlan v"
        "g = Frame_zero\<lparr>CVLAN := Some v, EType := EType g\<rparr>" "k = 4"
        "drop 14 b = be16 (VLAN_bits v) @ be16 (EType g) @ drop 18 b" by auto
    have "ServiceVLAN g = None" "CVLAN g = Some v" by (subst v(2), simp add: Frame_zero_def)+
    then show ?thesis using p(4) pads b12 v(1,3,4) k(2) c
      by (simp add: frame_readable_def frame_marshals_def frame_wire_def tag_bytes_def)
  next
    case s
    then obtain k where k: "unmarshalVLANs Frame_zero EtherTypeServiceVLAN (drop 14 b) = Some (g, Inr k)" "n = 14 + k"
      using p(5) by auto
    obtain v c where v: "valid_vlan v" "valid_vlan c" "k = 8" "8 \<le> length (drop 14 b)"
        "g = Frame_zero\<lparr>ServiceVLAN := Some v, CVLAN := Some c, EType := EType g\<rparr>"
        "drop 14 b = be16 (VLAN_bits v) @ be16 EtherTypeVLAN @ be16 (VLAN_bits c) @ be16 (EType g) @ drop 8 (drop 14 b)"
      using unmarshalVLANs_sound [OF k(1)] .
    have "ServiceVLAN g = Some v" "CVLAN g = Some c" by (subst v(5), simp)+
    then show ?thesis using p(4) pads b12 v(1,2,3,6) k(2) s
      by (simp add: frame_readable_def frame_marshals_def frame_wire_def tag_bytes_def)
  qed
  then show "frame_readable f" "frame_wire f = b" by blast+
qed

subsection \<open>The frame check sequence\<close>

lemma MarshalFCS_wire:
  assumes "frame_marshals f"
  shows "MarshalFCS f = Some (Inr (frame_wire f @ be32 (ChecksumIEEE (frame_wire f))))"
proof -
  let ?w = "frame_wire f"
  have "frame_read f (replicate (frame_length f + 4) 0) = Some (?w @ replicate 4 0, Inr (length ?w + 4))"
    by (rule frame_read_wire [OF assms])
  moreover have "slice (?w @ replicate 4 0) 0 (length ?w) = Some ?w" by (simp add: slice_def)
  moreover have "copy_slice (?w @ replicate 4 0) (length ?w) (length ?w + 4) (be32 c) = Some (?w @ be32 c)" for c
    by (simp add: copy_slice_def)
  ultimately show ?thesis by (simp add: MarshalFCS_def)
qed

lemma UnmarshalFCS_split:
  assumes "length t = 4"
  shows "UnmarshalFCS f (w @ t) = (if of_be32 t \<noteq> ChecksumIEEE w then Some (f, Some ErrInvalidFCS) else UnmarshalBinary f w)"
  using assms by (simp add: UnmarshalFCS_def slice_def)

lemma UnmarshalFCS_corrupt:
  assumes "i < length w + 4" "x \<noteq> (w @ be32 (ChecksumIEEE w)) ! i"
  shows "UnmarshalFCS f ((w @ be32 (ChecksumIEEE w))[i := x]) = Some (f, Some ErrInvalidFCS)"
proof (cases "i < length w")
  case True
  have "w = take i w @ (w ! i) # drop (Suc i) w" "w[i := x] = take i w @ x # drop (Suc i) w"
    using True by (simp_all add: id_take_nth_drop upd_conv_take_nth_drop)
  moreover have "w ! i \<noteq> x" using assms(2) True by (simp add: nth_append)
  ultimately have "ChecksumIEEE w \<noteq> ChecksumIEEE (w[i := x])" using checksum_detects by metis
  then show ?thesis using True by (simp add: list_update_append UnmarshalFCS_split)
next
  case False
  let ?t = "(be32 (ChecksumIEEE w))[i - length w := x]"
  have "?t \<noteq> be32 (ChecksumIEEE w)"
    using assms False by (metis (no_types, lifting) add.commute le_add_diff_inverse length_be32 less_diff_conv2 not_less nth_append nth_list_update_eq)
  then have "of_be32 ?t \<noteq> ChecksumIEEE w" using be32_of_be32 [of ?t] by fastforce
  then show ?thesis using False UnmarshalFCS_split [of ?t f w] by (simp add: list_update_append)
qed

subsection \<open>The codec contracts\<close>

interpretation vlan: wire_codec "\<lambda>v. Option.bind (VLAN_MarshalBinary v) (\<lambda>(b, e). if e = None then Some b else None)"
    "\<lambda>b. Option.bind (VLAN_UnmarshalBinary VLAN_zero b) (\<lambda>(v, e). if e = None then Some v else None)"
    valid_vlan id
  by unfold_locales (simp_all add: VLAN_MarshalBinary_def VLAN_read_bytes VLAN_unmarshal_bits)

lemma wire_norm_simps:
  "frame_readable (wire_norm f) = frame_readable f" "frame_marshals (wire_norm f) = frame_marshals f"
  "wire_norm (wire_norm f) = wire_norm f" "frame_wire (wire_norm f) = frame_wire f"
  by (simp_all add: wire_norm_def frame_readable_def frame_marshals_def frame_wire_def wire_payload_def pad_same)

lemma overlay_zero: "overlay Frame_zero f = f"
  by (simp add: overlay_def Frame_zero_def split: option.split)

interpretation frame: wire_codec "\<lambda>f. Option.bind (MarshalBinary f) (\<lambda>(b, e). if e = None then Some b else None)"
    "\<lambda>b. Option.bind (UnmarshalBinary Frame_zero b) (\<lambda>(f, e). if e = None then Some f else None)"
    frame_readable wire_norm
proof
  fix f assume r: "frame_readable f"
  then have m: "frame_marshals f" "frame_marshals (wire_norm f)" by (simp_all add: frame_readable_def wire_norm_simps)
  show "\<exists>b. Option.bind (MarshalBinary f) (\<lambda>(b, e). if e = None then Some b else None) = Some b
      \<and> Option.bind (UnmarshalBinary Frame_zero b) (\<lambda>(f, e). if e = None then Some f else None) = Some (wire_norm f)"
    using MarshalBinary_wire [OF m(1)] UnmarshalBinary_wire [OF r, of Frame_zero] by (simp add: overlay_zero)
  show "Option.bind (MarshalBinary (wire_norm f)) (\<lambda>(b, e). if e = None then Some b else None)
      = Option.bind (MarshalBinary f) (\<lambda>(b, e). if e = None then Some b else None)"
    using MarshalBinary_wire [OF m(1)] MarshalBinary_wire [OF m(2)] by (simp add: wire_norm_simps)
qed (simp_all add: wire_norm_simps)

end
