(* ===== verification/Arp.thy ===== *)
theory Arp
  imports Ethernet_Laws
begin

section \<open>Package arp: packets\<close>

text \<open>
  \<^verbatim>\<open>arp/packet.go\<close>: the ARP packet format and its transport in an Ethernet frame. \<open>IP_To4\<close> is the
  method \<open>To4\<close> of \<^verbatim>\<open>net.IP\<close>. The buffer size of \<open>MarshalBinary\<close> is computed in uint8 arithmetic, as
  the code does, so it wraps.
\<close>

datatype arp_error = ErrInvalidHardwareAddr | ErrInvalidIP | ErrInvalidARPPacket | FrameError eth_error

record Packet =
  HardwareType :: "16 word"
  ProtocolType :: "16 word"
  HardwareAddrLength :: "8 word"
  IPLength :: "8 word"
  Operation :: "16 word"
  SenderHardwareAddr :: bytes
  SenderIP :: bytes
  TargetHardwareAddr :: bytes
  TargetIP :: bytes

definition OperationRequest :: "16 word" where "OperationRequest = 1"
definition OperationReply :: "16 word" where "OperationReply = 2"

definition IP_To4 :: "bytes \<Rightarrow> bytes option" where
  "IP_To4 ip =
     (if length ip = 4 then Some ip
      else if length ip = 16 \<and> take 10 ip = replicate 10 0 \<and> ip ! 10 = 0xff \<and> ip ! 11 = 0xff
      then Some (drop 12 ip)
      else None)"

definition NewPacket :: "16 word \<Rightarrow> bytes \<Rightarrow> bytes \<Rightarrow> bytes \<Rightarrow> bytes \<Rightarrow> arp_error + Packet" where
  "NewPacket op srcHW srcIP dstHW dstIP =
     (if length srcHW < 6 then Inl ErrInvalidHardwareAddr
      else if length dstHW < 6 then Inl ErrInvalidHardwareAddr
      else if Broadcast \<noteq> dstHW \<and> length srcHW \<noteq> length dstHW then Inl ErrInvalidHardwareAddr
      else case IP_To4 srcIP of
             None \<Rightarrow> Inl ErrInvalidIP
           | Some src4 \<Rightarrow>
               (case IP_To4 dstIP of
                  None \<Rightarrow> Inl ErrInvalidIP
                | Some dst4 \<Rightarrow>
                    Inr \<lparr>HardwareType = 1, ProtocolType = EtherTypeIPv4,
                         HardwareAddrLength = of_nat (length srcHW), IPLength = of_nat (length src4),
                         Operation = op, SenderHardwareAddr = srcHW, SenderIP = src4,
                         TargetHardwareAddr = dstHW, TargetIP = dst4\<rparr>))"

definition set_byte :: "bytes \<Rightarrow> nat \<Rightarrow> 8 word \<Rightarrow> bytes option" where
  "set_byte b i x = (if i < length b then Some (b[i := x]) else None)"

definition Packet_MarshalBinary :: "Packet \<Rightarrow> bytes option" where
  "Packet_MarshalBinary p = do {
     let b0 = replicate (unat (8 + IPLength p * 2 + HardwareAddrLength p * 2)) 0;
     b1 \<leftarrow> PutUint16 b0 0 (HardwareType p);
     b2 \<leftarrow> PutUint16 b1 2 (ProtocolType p);
     b3 \<leftarrow> set_byte b2 4 (HardwareAddrLength p);
     b4 \<leftarrow> set_byte b3 5 (IPLength p);
     b5 \<leftarrow> PutUint16 b4 6 (Operation p);
     let hal = unat (HardwareAddrLength p);
     let pl = unat (IPLength p);
     b6 \<leftarrow> copy_slice b5 8 (8 + hal) (SenderHardwareAddr p);
     b7 \<leftarrow> copy_slice b6 (8 + hal) (8 + hal + pl) (SenderIP p);
     b8 \<leftarrow> copy_slice b7 (8 + hal + pl) (8 + hal + pl + hal) (TargetHardwareAddr p);
     copy_slice b8 (8 + hal + pl + hal) (8 + hal + pl + hal + pl) (TargetIP p)
   }"

definition Packet_UnmarshalBinary :: "Packet \<Rightarrow> bytes \<Rightarrow> (Packet \<times> eth_error option) option" where
  "Packet_UnmarshalBinary p b =
     (if length b < 8 then Some (p, Some ErrUnexpectedEOF)
      else do {
        ht \<leftarrow> Uint16 b 0;
        pt \<leftarrow> Uint16 b 2;
        opn \<leftarrow> Uint16 b 6;
        let p1 = p\<lparr>HardwareType := ht, ProtocolType := pt, HardwareAddrLength := b ! 4, IPLength := b ! 5,
                   Operation := opn\<rparr>;
        let ml = unat (HardwareAddrLength p1);
        let il = unat (IPLength p1);
        if length b < 8 + 2 * ml + 2 * il then Some (p1, Some ErrUnexpectedEOF)
        else do {
          sha \<leftarrow> slice b 8 (8 + ml);
          sip \<leftarrow> slice b (8 + ml) (8 + ml + il);
          tha \<leftarrow> slice b (8 + ml + il) (8 + ml + il + ml);
          tip \<leftarrow> slice b (8 + ml + il + ml) (8 + ml + il + ml + il);
          Some (p1\<lparr>SenderHardwareAddr := sha, SenderIP := sip, TargetHardwareAddr := tha, TargetIP := tip\<rparr>, None)
        }
      })"

definition Packet_zero :: Packet where
  "Packet_zero = \<lparr>HardwareType = 0, ProtocolType = 0, HardwareAddrLength = 0, IPLength = 0, Operation = 0,
     SenderHardwareAddr = [], SenderIP = [], TargetHardwareAddr = [], TargetIP = []\<rparr>"

definition parsePacket :: "bytes \<Rightarrow> (arp_error + Packet \<times> Frame) option" where
  "parsePacket buf = do {
     r \<leftarrow> UnmarshalBinary Frame_zero buf;
     (case snd r of
        Some e \<Rightarrow> Some (Inl (FrameError e))
      | None \<Rightarrow>
          if EType (fst r) \<noteq> EtherTypeARP then Some (Inl ErrInvalidARPPacket)
          else do {
            q \<leftarrow> Packet_UnmarshalBinary Packet_zero (Payload (fst r));
            (case snd q of
               Some e \<Rightarrow> Some (Inl (FrameError e))
             | None \<Rightarrow> Some (Inr (fst q, fst r)))
          })
   }"

subsection \<open>The wire form\<close>

definition packet_wire :: "Packet \<Rightarrow> bytes" where
  "packet_wire p =
     (let hal = unat (HardwareAddrLength p); pl = unat (IPLength p)
      in be16 (HardwareType p) @ be16 (ProtocolType p) @ [HardwareAddrLength p, IPLength p] @ be16 (Operation p)
         @ pad hal (SenderHardwareAddr p) @ pad pl (SenderIP p) @ pad hal (TargetHardwareAddr p) @ pad pl (TargetIP p))"

definition packet_len :: "Packet \<Rightarrow> nat" where
  "packet_len p = 8 + 2 * unat (HardwareAddrLength p) + 2 * unat (IPLength p)"

lemma length_packet_wire [simp]: "length (packet_wire p) = packet_len p"
  by (simp add: packet_wire_def packet_len_def Let_def)

lemma buffer_len:
  "unat (8 + IPLength p * 2 + HardwareAddrLength p * 2) = packet_len p mod 256"
proof -
  have e: "8 + IPLength p * 2 + HardwareAddrLength p * 2 = (of_nat (packet_len p) :: 8 word)"
    by (simp add: packet_len_def algebra_simps)
  show ?thesis unfolding e by (simp add: unat_of_nat)
qed

lemma set_byte_pad: "i = length pre \<Longrightarrow> set_byte (pre @ replicate (Suc m) 0) i x = Some ((pre @ [x]) @ replicate m 0)"
  by (simp add: set_byte_def list_update_append)

lemma copy_pad_last: "lo = length pre \<Longrightarrow> hi = length pre + k \<Longrightarrow> copy_slice (pre @ replicate k 0) lo hi src = Some (pre @ pad k src)"
  using copy_pad [of lo pre hi k 0 src] by simp

text \<open>The four addresses, after eight fixed bytes \<open>fx\<close>.\<close>

lemma copy_addrs:
  assumes "length fx = 8"
  shows "do { b6 \<leftarrow> copy_slice (fx @ replicate (h + (l + (h + l))) 0) 8 (8 + h) sha;
      b7 \<leftarrow> copy_slice b6 (8 + h) (8 + h + l) sip;
      b8 \<leftarrow> copy_slice b7 (8 + h + l) (8 + h + l + h) tha;
      copy_slice b8 (8 + h + l + h) (8 + h + l + h + l) tip }
    = Some (fx @ pad h sha @ pad l sip @ pad h tha @ pad l tip)"
proof -
  have 1: "copy_slice (fx @ replicate (h + (l + (h + l))) 0) 8 (8 + h) sha
      = Some (fx @ pad h sha @ replicate (l + (h + l)) 0)"
    by (rule copy_pad) (simp_all add: assms)
  have 2: "copy_slice (fx @ pad h sha @ replicate (l + (h + l)) 0) (8 + h) (8 + h + l) sip
      = Some (fx @ pad h sha @ pad l sip @ replicate (h + l) 0)"
    using copy_pad [of "8 + h" "fx @ pad h sha" "8 + h + l" l "h + l" sip] assms by simp
  have 3: "copy_slice (fx @ pad h sha @ pad l sip @ replicate (h + l) 0) (8 + h + l) (8 + h + l + h) tha
      = Some (fx @ pad h sha @ pad l sip @ pad h tha @ replicate l 0)"
    using copy_pad [of "8 + h + l" "fx @ pad h sha @ pad l sip" "8 + h + l + h" h l tha] assms by simp
  have 4: "copy_slice (fx @ pad h sha @ pad l sip @ pad h tha @ replicate l 0) (8 + h + l + h) (8 + h + l + h + l) tip
      = Some (fx @ pad h sha @ pad l sip @ pad h tha @ pad l tip)"
    using copy_pad_last [of "8 + h + l + h" "fx @ pad h sha @ pad l sip @ pad h tha" "8 + h + l + h + l" l tip] assms
    by simp
  show ?thesis by (simp only: 1 2 3 4 Option.bind.bind_lunit)
qed

lemma slice_addrs:
  assumes "length fx = 8" "length sha = h" "length sip = l" "length tha = h" "length tip = l"
  shows "slice (fx @ sha @ sip @ tha @ tip @ rest) 8 (8 + h) = Some sha"
    "slice (fx @ sha @ sip @ tha @ tip @ rest) (8 + h) (8 + h + l) = Some sip"
    "slice (fx @ sha @ sip @ tha @ tip @ rest) (8 + h + l) (8 + h + l + h) = Some tha"
    "slice (fx @ sha @ sip @ tha @ tip @ rest) (8 + h + l + h) (8 + h + l + h + l) = Some tip"
  using slice_app [of 8 fx "8 + h" sha "sip @ tha @ tip @ rest"]
    slice_app [of "8 + h" "fx @ sha" "8 + h + l" sip "tha @ tip @ rest"]
    slice_app [of "8 + h + l" "fx @ sha @ sip" "8 + h + l + h" tha "tip @ rest"]
    slice_app [of "8 + h + l + h" "fx @ sha @ sip @ tha" "8 + h + l + h + l" tip rest] assms
  by simp_all

lemma Packet_MarshalBinary_wire:
  assumes "packet_len p < 256"
  shows "Packet_MarshalBinary p = Some (packet_wire p)"
proof -
  let ?h = "unat (HardwareAddrLength p)" and ?l = "unat (IPLength p)"
  let ?k = "?h + (?l + (?h + ?l))"
  let ?fx = "be16 (HardwareType p) @ be16 (ProtocolType p) @ [HardwareAddrLength p] @ [IPLength p] @ be16 (Operation p)"
  have len: "unat (8 + IPLength p * 2 + HardwareAddrLength p * 2) = 2 + (2 + Suc (Suc (2 + ?k)))"
    using assms by (simp add: buffer_len packet_len_def)
  have 1: "PutUint16 (replicate (unat (8 + IPLength p * 2 + HardwareAddrLength p * 2)) 0) 0 (HardwareType p)
      = Some (be16 (HardwareType p) @ replicate (2 + Suc (Suc (2 + ?k))) 0)"
    unfolding len by (rule put16_pad [where pre = "[]" and n = 0, unfolded append_Nil]) simp
  have 2: "PutUint16 (be16 (HardwareType p) @ replicate (2 + Suc (Suc (2 + ?k))) 0) 2 (ProtocolType p)
      = Some ((be16 (HardwareType p) @ be16 (ProtocolType p)) @ replicate (Suc (Suc (2 + ?k))) 0)"
    unfolding append_assoc by (rule put16_pad) simp
  have 3: "set_byte ((be16 (HardwareType p) @ be16 (ProtocolType p)) @ replicate (Suc (Suc (2 + ?k))) 0) 4 (HardwareAddrLength p)
      = Some (((be16 (HardwareType p) @ be16 (ProtocolType p)) @ [HardwareAddrLength p]) @ replicate (Suc (2 + ?k)) 0)"
    by (rule set_byte_pad) simp
  have 4: "set_byte (((be16 (HardwareType p) @ be16 (ProtocolType p)) @ [HardwareAddrLength p]) @ replicate (Suc (2 + ?k)) 0) 5 (IPLength p)
      = Some ((((be16 (HardwareType p) @ be16 (ProtocolType p)) @ [HardwareAddrLength p]) @ [IPLength p]) @ replicate (2 + ?k) 0)"
    by (rule set_byte_pad) simp
  have 5: "PutUint16 ((((be16 (HardwareType p) @ be16 (ProtocolType p)) @ [HardwareAddrLength p]) @ [IPLength p]) @ replicate (2 + ?k) 0) 6 (Operation p)
      = Some (?fx @ replicate ?k 0)"
    using put16_pad [of 6 "((be16 (HardwareType p) @ be16 (ProtocolType p)) @ [HardwareAddrLength p]) @ [IPLength p]" ?k "Operation p"]
    by simp
  have w: "packet_wire p = ?fx @ pad ?h (SenderHardwareAddr p) @ pad ?l (SenderIP p) @ pad ?h (TargetHardwareAddr p) @ pad ?l (TargetIP p)"
    by (simp add: packet_wire_def Let_def)
  have "length ?fx = 8" by simp
  then show ?thesis unfolding Packet_MarshalBinary_def Let_def w
    by (simp only: 1 2 3 4 5 Option.bind.bind_lunit copy_addrs)
qed

text \<open>A packet whose size does not fit in a byte makes the marshaller panic.\<close>

lemma copy_slice_length: "copy_slice b lo hi src = Some b' \<Longrightarrow> length b' = length b \<and> hi \<le> length b"
  by (auto simp: copy_slice_def split: if_splits)

lemma PutUint16_length: "PutUint16 b n v = Some b' \<Longrightarrow> length b' = length b"
  by (auto simp: PutUint16_def dest: copy_slice_length)

lemma set_byte_length: "set_byte b i x = Some b' \<Longrightarrow> length b' = length b"
  by (auto simp: set_byte_def split: if_splits)

lemma Packet_MarshalBinary_panics:
  assumes "256 \<le> packet_len p"
  shows "Packet_MarshalBinary p = None"
proof (rule ccontr)
  let ?L = "unat (8 + IPLength p * 2 + HardwareAddrLength p * 2)"
  assume "Packet_MarshalBinary p \<noteq> None"
  then have "packet_len p \<le> ?L"
    unfolding Packet_MarshalBinary_def Let_def packet_len_def
    by (auto simp: Option.bind_eq_Some_conv dest!: copy_slice_length PutUint16_length set_byte_length)
  moreover have "?L < 256" unfolding buffer_len by simp
  ultimately show False using assms by linarith
qed

subsection \<open>Reading a packet\<close>

lemma Packet_UnmarshalBinary_total:
  "\<exists>p' e. Packet_UnmarshalBinary p b = Some (p', e) \<and> e \<in> {None, Some ErrUnexpectedEOF}"
proof (cases "length b < 8")
  case True
  then show ?thesis by (simp add: Packet_UnmarshalBinary_def)
next
  case False
  obtain x y z where "Uint16 b 0 = Some x" "Uint16 b 2 = Some y" "Uint16 b 6 = Some z"
    using Uint16_ok [of 0 b] Uint16_ok [of 2 b] Uint16_ok [of 6 b] False by auto
  then show ?thesis using False by (simp add: Packet_UnmarshalBinary_def Let_def slice_def)
qed

definition packet_norm :: "Packet \<Rightarrow> Packet" where
  "packet_norm p = p\<lparr>SenderHardwareAddr := pad (unat (HardwareAddrLength p)) (SenderHardwareAddr p),
     SenderIP := pad (unat (IPLength p)) (SenderIP p),
     TargetHardwareAddr := pad (unat (HardwareAddrLength p)) (TargetHardwareAddr p),
     TargetIP := pad (unat (IPLength p)) (TargetIP p)\<rparr>"

lemma Packet_UnmarshalBinary_wire:
  "Packet_UnmarshalBinary p0 (packet_wire p @ rest) = Some (packet_norm p, None)"
proof -
  let ?h = "unat (HardwareAddrLength p)" and ?l = "unat (IPLength p)"
  let ?b = "packet_wire p @ rest"
  let ?sha = "pad ?h (SenderHardwareAddr p)" and ?sip = "pad ?l (SenderIP p)"
  let ?tha = "pad ?h (TargetHardwareAddr p)" and ?tip = "pad ?l (TargetIP p)"
  let ?fx = "be16 (HardwareType p) @ be16 (ProtocolType p) @ [HardwareAddrLength p, IPLength p] @ be16 (Operation p)"
  have b: "?b = ?fx @ ?sha @ ?sip @ ?tha @ ?tip @ rest" by (simp add: packet_wire_def Let_def)
  have u: "Uint16 ?b 0 = Some (HardwareType p)" "Uint16 ?b 2 = Some (ProtocolType p)" "Uint16 ?b 6 = Some (Operation p)"
    using Uint16_app [of 0 "[]" "HardwareType p"] Uint16_app [of 2 "be16 (HardwareType p)" "ProtocolType p"]
      Uint16_app [of 6 "be16 (HardwareType p) @ be16 (ProtocolType p) @ [HardwareAddrLength p, IPLength p]" "Operation p"]
    by (simp_all add: b)
  have n: "?b ! 4 = HardwareAddrLength p" "?b ! 5 = IPLength p" by (simp_all add: b nth_append be16_def)
  have s: "slice ?b 8 (8 + ?h) = Some ?sha" "slice ?b (8 + ?h) (8 + ?h + ?l) = Some ?sip"
      "slice ?b (8 + ?h + ?l) (8 + ?h + ?l + ?h) = Some ?tha"
      "slice ?b (8 + ?h + ?l + ?h) (8 + ?h + ?l + ?h + ?l) = Some ?tip"
    unfolding b by (rule slice_addrs; simp)+
  have l: "length ?b = 8 + 2 * ?h + 2 * ?l + length rest" by (simp add: packet_len_def)
  have sel: "HardwareAddrLength (p0\<lparr>HardwareType := v, ProtocolType := w, HardwareAddrLength := x, IPLength := y, Operation := z\<rparr>) = x"
      "IPLength (p0\<lparr>HardwareType := v, ProtocolType := w, HardwareAddrLength := x, IPLength := y, Operation := z\<rparr>) = y"
    for v w x y z by simp_all
  have c: "\<not> length ?b < 8" "\<not> length ?b < 8 + 2 * ?h + 2 * ?l" unfolding l by simp_all
  show ?thesis
    unfolding Packet_UnmarshalBinary_def if_not_P [OF c(1)] u Let_def
    by (simp only: Option.bind.bind_lunit n sel if_not_P [OF c(2)] s) (simp add: packet_norm_def)
qed

interpretation arp: wire_codec Packet_MarshalBinary
    "\<lambda>b. Option.bind (Packet_UnmarshalBinary Packet_zero b) (\<lambda>(p, e). if e = None then Some p else None)"
    "\<lambda>p. packet_len p < 256" packet_norm
proof
  fix p assume "packet_len p < 256"
  moreover have "packet_len (packet_norm p) = packet_len p" "packet_wire (packet_norm p) = packet_wire p"
    by (simp_all add: packet_norm_def packet_len_def packet_wire_def Let_def pad_same)
  ultimately show "packet_len (packet_norm p) < 256" "Packet_MarshalBinary (packet_norm p) = Packet_MarshalBinary p"
    "\<exists>b. Packet_MarshalBinary p = Some b
      \<and> Option.bind (Packet_UnmarshalBinary Packet_zero b) (\<lambda>(p, e). if e = None then Some p else None) = Some (packet_norm p)"
    using Packet_UnmarshalBinary_wire [of Packet_zero p "[]"] by (simp_all add: Packet_MarshalBinary_wire)
qed (simp add: packet_norm_def pad_same)

subsection \<open>Packets in frames\<close>

lemma parsePacket_total: "\<exists>r. parsePacket buf = Some r"
proof -
  obtain f e where f: "UnmarshalBinary Frame_zero buf = Some (f, e)" using UnmarshalBinary_total by blast
  obtain q e' where "Packet_UnmarshalBinary Packet_zero (Payload f) = Some (q, e')"
    using Packet_UnmarshalBinary_total by blast
  with f show ?thesis by (auto simp: parsePacket_def split: option.split)
qed

lemma wire_payload_prefix: "\<exists>rest. wire_payload p = p @ rest"
  by (auto simp: wire_payload_def pad_def)

lemma parsePacket_frame:
  assumes "frame_readable f" "EType f = EtherTypeARP" "Payload f = packet_wire p"
  shows "parsePacket (frame_wire f) = Some (Inr (packet_norm p, wire_norm f))"
proof -
  obtain rest where r: "wire_payload (packet_wire p) = packet_wire p @ rest" using wire_payload_prefix by blast
  have "UnmarshalBinary Frame_zero (frame_wire f) = Some (wire_norm f, None)"
    using UnmarshalBinary_wire [OF assms(1), of Frame_zero] by (simp add: overlay_zero)
  then show ?thesis using assms(2,3) Packet_UnmarshalBinary_wire [of Packet_zero p rest] r
    by (simp add: parsePacket_def wire_norm_def)
qed

end
