(* ===== verification/Arp_Client.thy ===== *)
theory Arp_Client
  imports Arp Outcome
begin

section \<open>Package arp: the client\<close>

text \<open>
  \<^verbatim>\<open>arp/client.go\<close>. The packet connection is explicit: \<open>inbox\<close> lists what the successive calls of
  \<open>ReadFrom\<close> will give (an error, or a datagram, of which at most 128 bytes fit the buffer), \<open>outbox\<close>
  the datagrams written so far, \<open>werr\<close> the error the next writes give, if any. A read on an empty
  inbox blocks: the operation does not return (\<open>None\<close>). Errors of the connection are strings.
\<close>

datatype client_error = ConnError string | NoIPv4Addr | PacketError arp_error

record conn =
  inbox :: "(string + bytes) list"
  outbox :: "(bytes \<times> bytes) list"
  werr :: "string option"

record Client =
  ifi_hw :: bytes
  cip :: "bytes option"

definition v4InV6Prefix :: bytes where
  "v4InV6Prefix = replicate 10 0 @ [0xff, 0xff]"

definition IP_Equal :: "bytes \<Rightarrow> bytes \<Rightarrow> bool" where
  "IP_Equal ip x \<longleftrightarrow>
     (if length ip = length x then ip = x
      else if length ip = 4 \<and> length x = 16 then take 12 x = v4InV6Prefix \<and> ip = drop 12 x
      else if length ip = 16 \<and> length x = 4 then take 12 ip = v4InV6Prefix \<and> drop 12 ip = x
      else False)"

text \<open>\<open>parseCIDR\<close> is \<^verbatim>\<open>net.ParseCIDR\<close>: an error or the address before the slash.\<close>

fun firstIPv4Addr :: "(string \<Rightarrow> string + bytes) \<Rightarrow> (string \<times> string) list \<Rightarrow> string + bytes option" where
  "firstIPv4Addr parseCIDR [] = Inr None"
| "firstIPv4Addr parseCIDR ((net, str) # addrs) =
     (if net \<noteq> ''ip+net'' then firstIPv4Addr parseCIDR addrs
      else case parseCIDR str of
             Inl e \<Rightarrow> Inl e
           | Inr ip \<Rightarrow> (case IP_To4 ip of Some ip4 \<Rightarrow> Inr (Some ip4) | None \<Rightarrow> firstIPv4Addr parseCIDR addrs))"

definition newClient :: "(string \<Rightarrow> string + bytes) \<Rightarrow> bytes \<Rightarrow> (string \<times> string) list \<Rightarrow> string + Client" where
  "newClient parseCIDR hw addrs =
     (case firstIPv4Addr parseCIDR addrs of
        Inl e \<Rightarrow> Inl e
      | Inr ip \<Rightarrow> Inr \<lparr>ifi_hw = hw, cip = ip\<rparr>)"

definition conn_write :: "bytes \<Rightarrow> bytes \<Rightarrow> conn \<Rightarrow> conn \<times> client_error option" where
  "conn_write fb addr cn =
     (case werr cn of
        Some e \<Rightarrow> (cn, Some (ConnError e))
      | None \<Rightarrow> (cn\<lparr>outbox := outbox cn @ [(fb, addr)]\<rparr>, None))"

definition WriteTo :: "Packet \<Rightarrow> bytes \<Rightarrow> conn \<Rightarrow> (conn \<times> client_error option) res" where
  "WriteTo p addr cn =
     (case Packet_MarshalBinary p of
        None \<Rightarrow> Some Panic
      | Some pb \<Rightarrow>
          (let f = Frame_zero\<lparr>Destination := addr, Source := SenderHardwareAddr p, EType := EtherTypeARP, Payload := pb\<rparr>
           in case MarshalBinary f of
                None \<Rightarrow> Some Panic
              | Some (fb, Some e) \<Rightarrow> Some (Ret (cn, Some (PacketError (FrameError e))))
              | Some (fb, None) \<Rightarrow> Some (Ret (conn_write fb addr cn))))"

definition Request :: "Client \<Rightarrow> bytes \<Rightarrow> conn \<Rightarrow> (conn \<times> client_error option) res" where
  "Request c ip cn =
     (case cip c of
        None \<Rightarrow> Some (Ret (cn, Some NoIPv4Addr))
      | Some own \<Rightarrow>
          (case NewPacket OperationRequest (ifi_hw c) own Broadcast ip of
             Inl e \<Rightarrow> Some (Ret (cn, Some (PacketError e)))
           | Inr p \<Rightarrow> WriteTo p Broadcast cn))"

definition Reply :: "Packet \<Rightarrow> bytes \<Rightarrow> bytes \<Rightarrow> conn \<Rightarrow> (conn \<times> client_error option) res" where
  "Reply req hwAddr ip cn =
     (case NewPacket OperationReply hwAddr ip (SenderHardwareAddr req) (SenderIP req) of
        Inl e \<Rightarrow> Some (Ret (cn, Some (PacketError e)))
      | Inr p \<Rightarrow> WriteTo p (SenderHardwareAddr req) cn)"

fun read_loop :: "(string + bytes) list \<Rightarrow> ((string + bytes) list \<times> (client_error + Packet \<times> Frame)) res" where
  "read_loop [] = None"
| "read_loop (Inl e # ib) = Some (Ret (ib, Inl (ConnError e)))"
| "read_loop (Inr d # ib) =
     (case parsePacket (take 128 d) of
        None \<Rightarrow> Some Panic
      | Some (Inl ErrInvalidARPPacket) \<Rightarrow> read_loop ib
      | Some (Inl e) \<Rightarrow> Some (Ret (ib, Inl (PacketError e)))
      | Some (Inr pf) \<Rightarrow> Some (Ret (ib, Inr pf)))"

definition Read :: "conn \<Rightarrow> (conn \<times> (client_error + Packet \<times> Frame)) res" where
  "Read cn = bind_res (read_loop (inbox cn)) (\<lambda>(ib, r). Some (Ret (cn\<lparr>inbox := ib\<rparr>, r)))"

lemma read_loop_shorter: "read_loop ib = Some (Ret (ib', r)) \<Longrightarrow> length ib' < length ib"
proof (induction ib)
  case (Cons x ib)
  then show ?case
    by (cases x) (auto split: option.splits sum.splits arp_error.splits intro: less_SucI)
qed simp

lemma Read_shorter: "Read cn = Some (Ret (cn', r)) \<Longrightarrow> length (inbox cn') < length (inbox cn)"
  by (auto simp: Read_def bind_res_def split: option.splits outcome.splits dest!: read_loop_shorter)

function resolve_loop :: "bytes \<Rightarrow> conn \<Rightarrow> (conn \<times> (client_error + bytes)) res" where
  "resolve_loop ip cn =
     (case Read cn of
        None \<Rightarrow> None
      | Some Panic \<Rightarrow> Some Panic
      | Some (Ret (cn', Inl e)) \<Rightarrow> Some (Ret (cn', Inl e))
      | Some (Ret (cn', Inr (arp, _))) \<Rightarrow>
          if Operation arp \<noteq> OperationReply \<or> \<not> IP_Equal (SenderIP arp) ip then resolve_loop ip cn'
          else Some (Ret (cn', Inr (SenderHardwareAddr arp))))"
  by pat_completeness auto
termination
  by (relation "measure (\<lambda>(ip, cn). length (inbox cn))") (auto dest: Read_shorter)

declare resolve_loop.simps [simp del]

definition Resolve :: "Client \<Rightarrow> bytes \<Rightarrow> conn \<Rightarrow> (conn \<times> (client_error + bytes)) res" where
  "Resolve c ip cn =
     bind_res (Request c ip cn) (\<lambda>(cn', e).
       case e of Some e' \<Rightarrow> Some (Ret (cn', Inl e')) | None \<Rightarrow> resolve_loop ip cn')"

subsection \<open>Sending\<close>

definition arp_frame :: "Packet \<Rightarrow> bytes \<Rightarrow> Frame" where
  "arp_frame p addr = Frame_zero\<lparr>Destination := addr, Source := SenderHardwareAddr p, EType := EtherTypeARP,
     Payload := packet_wire p\<rparr>"

lemma arp_frame_readable: "frame_readable (arp_frame p addr)"
  by (simp add: arp_frame_def frame_readable_def frame_marshals_def Frame_zero_def EtherTypeARP_def
      EtherTypeVLAN_def EtherTypeServiceVLAN_def)

lemma WriteTo_sends:
  assumes "packet_len p < 256"
  shows "WriteTo p addr cn = Some (Ret (conn_write (frame_wire (arp_frame p addr)) addr cn))"
proof -
  have "frame_marshals (arp_frame p addr)" using arp_frame_readable by (simp add: frame_readable_def)
  from MarshalBinary_wire [OF this] show ?thesis
    using Packet_MarshalBinary_wire [OF assms] by (simp add: WriteTo_def arp_frame_def)
qed

lemma parsePacket_sent: "parsePacket (frame_wire (arp_frame p addr)) = Some (Inr (packet_norm p, wire_norm (arp_frame p addr)))"
  by (rule parsePacket_frame [OF arp_frame_readable]) (simp_all add: arp_frame_def)

text \<open>An Ethernet packet is 60 bytes on the wire and fits the buffer of \<open>Read\<close>.\<close>

lemma sent_fits:
  assumes "packet_len p \<le> 46"
  shows "take 128 (frame_wire (arp_frame p addr)) = frame_wire (arp_frame p addr)"
  using assms by (simp add: arp_frame_def frame_wire_def tag_bytes_def Frame_zero_def length_wire_payload minPayload_def)

lemma Read_sent:
  assumes "packet_len p \<le> 46" "inbox cn = Inr (frame_wire (arp_frame p addr)) # ib"
  shows "Read cn = Some (Ret (cn\<lparr>inbox := ib\<rparr>, Inr (packet_norm p, wire_norm (arp_frame p addr))))"
  using assms(2) by (simp add: Read_def sent_fits [OF assms(1)] parsePacket_sent)

lemma NewPacket_fields:
  assumes "length srcHW = 6" "length dstHW = 6" "length srcIP = 4" "length dstIP = 4"
  shows "NewPacket opn srcHW srcIP dstHW dstIP
    = Inr \<lparr>HardwareType = 1, ProtocolType = EtherTypeIPv4, HardwareAddrLength = 6, IPLength = 4, Operation = opn,
        SenderHardwareAddr = srcHW, SenderIP = srcIP, TargetHardwareAddr = dstHW, TargetIP = dstIP\<rparr>"
  using assms by (simp add: NewPacket_def IP_To4_def)

lemma Broadcast_length [simp]: "length Broadcast = 6"
  by (simp add: Broadcast_def)

subsection \<open>Resolving\<close>

text \<open>The datagrams \<open>Resolve\<close> passes over: frames that are not ARP and packets that do not answer.\<close>

definition ignored :: "bytes \<Rightarrow> bytes \<Rightarrow> bool" where
  "ignored ip d \<longleftrightarrow> (case parsePacket (take 128 d) of
       Some (Inl ErrInvalidARPPacket) \<Rightarrow> True
     | Some (Inr (p, _)) \<Rightarrow> Operation p \<noteq> OperationReply \<or> \<not> IP_Equal (SenderIP p) ip
     | _ \<Rightarrow> False)"

lemma resolve_ignored:
  assumes "ignored ip d" "inbox cn = Inr d # ib"
  shows "resolve_loop ip cn = resolve_loop ip (cn\<lparr>inbox := ib\<rparr>)"
proof -
  consider (skip) "parsePacket (take 128 d) = Some (Inl ErrInvalidARPPacket)"
    | (pkt) p f where "parsePacket (take 128 d) = Some (Inr (p, f))" "Operation p \<noteq> OperationReply \<or> \<not> IP_Equal (SenderIP p) ip"
    using assms(1) by (auto simp: ignored_def split: option.splits sum.splits arp_error.splits)
  then show ?thesis
  proof cases
    case skip
    then have "Read cn = Read (cn\<lparr>inbox := ib\<rparr>)" using assms(2) by (simp add: Read_def)
    then show ?thesis by (subst (1 2) resolve_loop.simps) simp
  next
    case pkt
    then have "Read cn = Some (Ret (cn\<lparr>inbox := ib\<rparr>, Inr (p, f)))" using assms(2) by (simp add: Read_def)
    then show ?thesis using pkt(2) by (subst resolve_loop.simps) simp
  qed
qed

lemma resolve_skips:
  assumes "list_all (ignored ip) noise" "inbox cn = map Inr noise @ Inr d # ib"
    and "parsePacket (take 128 d) = Some (Inr (p, f))" "Operation p = OperationReply" "IP_Equal (SenderIP p) ip"
  shows "resolve_loop ip cn = Some (Ret (cn\<lparr>inbox := ib\<rparr>, Inr (SenderHardwareAddr p)))"
  using assms(1,2)
proof (induction noise arbitrary: cn)
  case Nil
  then have "Read cn = Some (Ret (cn\<lparr>inbox := ib\<rparr>, Inr (p, f)))" using assms(3) by (simp add: Read_def)
  then show ?case using assms(4,5) by (subst resolve_loop.simps) simp
next
  case (Cons x noise)
  then show ?case using resolve_ignored [of ip x cn] Cons.IH [of "cn\<lparr>inbox := map Inr noise @ Inr d # ib\<rparr>"] by simp
qed

text \<open>
  A request, the answer of the asked host, and the resolution: \<open>A\<close> asks for the address of \<open>B\<close>; \<open>B\<close>
  reads the frame and replies; whatever unrelated traffic \<open>A\<close> sees first, it returns \<open>B\<close>'s address.
\<close>

definition request_packet :: "bytes \<Rightarrow> bytes \<Rightarrow> bytes \<Rightarrow> Packet" where
  "request_packet hw own ip = \<lparr>HardwareType = 1, ProtocolType = EtherTypeIPv4, HardwareAddrLength = 6, IPLength = 4,
     Operation = OperationRequest, SenderHardwareAddr = hw, SenderIP = own, TargetHardwareAddr = Broadcast, TargetIP = ip\<rparr>"

definition reply_packet :: "bytes \<Rightarrow> bytes \<Rightarrow> bytes \<Rightarrow> bytes \<Rightarrow> Packet" where
  "reply_packet hw ip hw' ip' = \<lparr>HardwareType = 1, ProtocolType = EtherTypeIPv4, HardwareAddrLength = 6, IPLength = 4,
     Operation = OperationReply, SenderHardwareAddr = hw, SenderIP = ip, TargetHardwareAddr = hw', TargetIP = ip'\<rparr>"

lemma arp_packet_len: "packet_len (request_packet hw own ip) = 28" "packet_len (reply_packet hw ip hw' ip') = 28"
  by (simp_all add: packet_len_def request_packet_def reply_packet_def)

lemma arp_packet_norm:
  "length hw = 6 \<Longrightarrow> length own = 4 \<Longrightarrow> length ip = 4 \<Longrightarrow> packet_norm (request_packet hw own ip) = request_packet hw own ip"
  "length hw = 6 \<Longrightarrow> length ip = 4 \<Longrightarrow> length hw' = 6 \<Longrightarrow> length ip' = 4 \<Longrightarrow>
     packet_norm (reply_packet hw ip hw' ip') = reply_packet hw ip hw' ip'"
  by (simp_all add: packet_norm_def request_packet_def reply_packet_def pad_same)

lemma Request_sends:
  assumes "length (ifi_hw c) = 6" "cip c = Some own" "length own = 4" "length ip = 4" "werr cn = None"
  shows "Request c ip cn = Some (Ret (cn\<lparr>outbox := outbox cn
    @ [(frame_wire (arp_frame (request_packet (ifi_hw c) own ip) Broadcast), Broadcast)]\<rparr>, None))"
  using assms WriteTo_sends [of "request_packet (ifi_hw c) own ip" Broadcast cn] arp_packet_len(1)
  by (simp add: Request_def NewPacket_fields request_packet_def [symmetric] conn_write_def)

lemma Reply_sends:
  assumes "length hw = 6" "length ip = 4" "length hw' = 6" "length own = 4" "werr cn = None"
  shows "Reply (request_packet hw' own ip) hw ip cn = Some (Ret (cn\<lparr>outbox := outbox cn
    @ [(frame_wire (arp_frame (reply_packet hw ip hw' own) hw'), hw')]\<rparr>, None))"
proof -
  have "NewPacket OperationReply hw ip hw' own = Inr (reply_packet hw ip hw' own)"
    using NewPacket_fields [OF assms(1,3,2,4)] by (simp add: reply_packet_def)
  then show ?thesis
    using WriteTo_sends [of "reply_packet hw ip hw' own" hw' cn] arp_packet_len(2) assms(5)
    by (simp add: Reply_def request_packet_def conn_write_def)
qed

lemma Resolve_answer:
  assumes "length (ifi_hw c) = 6" "cip c = Some own" "length own = 4" "length ip = 4" "werr cn = None"
    "list_all (ignored ip) noise" "inbox cn = map Inr noise @ Inr d # ib"
    "parsePacket (take 128 d) = Some (Inr (p, f))" "Operation p = OperationReply" "IP_Equal (SenderIP p) ip"
  shows "Resolve c ip cn = Some (Ret (cn\<lparr>inbox := ib, outbox := outbox cn
    @ [(frame_wire (arp_frame (request_packet (ifi_hw c) own ip) Broadcast), Broadcast)]\<rparr>, Inr (SenderHardwareAddr p)))"
proof -
  let ?cn = "cn\<lparr>outbox := outbox cn @ [(frame_wire (arp_frame (request_packet (ifi_hw c) own ip) Broadcast), Broadcast)]\<rparr>"
  have "resolve_loop ip ?cn = Some (Ret (?cn\<lparr>inbox := ib\<rparr>, Inr (SenderHardwareAddr p)))"
    using assms(7) by (intro resolve_skips [OF assms(6) _ assms(8-10)]) simp
  then show ?thesis using Request_sends [OF assms(1-5)] by (simp add: Resolve_def)
qed

text \<open>The reply of another host is such an answer.\<close>

lemma reply_answers:
  assumes "length hw = 6" "length ip = 4" "length hw' = 6" "length own = 4"
  shows "parsePacket (take 128 (frame_wire (arp_frame (reply_packet hw ip hw' own) hw')))
      = Some (Inr (reply_packet hw ip hw' own, wire_norm (arp_frame (reply_packet hw ip hw' own) hw')))"
    "Operation (reply_packet hw ip hw' own) = OperationReply" "IP_Equal (SenderIP (reply_packet hw ip hw' own)) ip"
    "SenderHardwareAddr (reply_packet hw ip hw' own) = hw"
  using sent_fits [of "reply_packet hw ip hw' own"] arp_packet_len(2) parsePacket_sent [of "reply_packet hw ip hw' own"] arp_packet_norm(2) [OF assms]
  by (simp_all add: reply_packet_def IP_Equal_def)

end
