(* ===== verification/Net_Props.thy ===== *)
theory Net_Props
  imports Arp_Client
begin

section \<open>Properties of packages ethernet and arp\<close>

text \<open>
  The properties of the frame and packet codecs and of the ARP client, with their witnesses. They
  rest on the interpretations \<open>frame\<close>, \<open>vlan\<close> and \<open>arp\<close> of the codec contract.
\<close>

definition demo_vlan :: VLAN where
  "demo_vlan = \<lparr>Priority = 5, DropEligible = True, ID = 100\<rparr>"

definition demo_frame :: Frame where
  "demo_frame = \<lparr>Destination = [1, 2, 3, 4, 5, 6], Source = [7, 8, 9, 10, 11, 12], ServiceVLAN = None,
     CVLAN = Some demo_vlan, EType = EtherTypeIPv4, Payload = [42]\<rparr>"

lemma demo_frame_ok:
  "frame_readable demo_frame" "frame_marshals demo_frame" "frame_readable (demo_frame\<lparr>CVLAN := None\<rparr>)"
  by (simp_all add: demo_frame_def demo_vlan_def frame_readable_def frame_marshals_def valid_vlan_def
      EtherTypeIPv4_def EtherTypeVLAN_def EtherTypeServiceVLAN_def)

text \<open>
  C5. A frame with valid tags (a service tag only with a customer tag, and no bare tag EtherType)
  marshals without error into as many bytes as \<open>length\<close> computes, and unmarshals to the same frame
  with addresses and payload padded; frames with the same bytes agree up to that padding.
\<close>

theorem frame_roundtrip:
  assumes "frame_readable f"
  shows "\<exists>b. MarshalBinary f = Some (b, None) \<and> length b = frame_length f
    \<and> UnmarshalBinary Frame_zero b = Some (wire_norm f, None)
    \<and> (\<forall>g. frame_readable g \<longrightarrow> MarshalBinary g = Some (b, None) \<longrightarrow> wire_norm g = wire_norm f)"
proof -
  have m: "frame_marshals f" using assms by (simp add: frame_readable_def)
  have "wire_norm g = wire_norm f" if "frame_readable g" "MarshalBinary g = Some (frame_wire f, None)" for g
    using frame.marshal_eq_iff [OF that(1) assms] that(2) MarshalBinary_wire [OF m] by simp
  then show ?thesis
    using MarshalBinary_wire [OF m] frame_length_wire [OF m] UnmarshalBinary_wire [OF assms, of Frame_zero]
    by (auto simp: overlay_zero)
qed

theorem frame_roundtrip_witness:
  "\<exists>b. MarshalBinary demo_frame = Some (b, None) \<and> length b = 64
    \<and> UnmarshalBinary Frame_zero b = Some (demo_frame\<lparr>Payload := 42 # replicate 45 0\<rparr>, None)"
proof -
  have "wire_norm demo_frame = demo_frame\<lparr>Payload := 42 # replicate 45 0\<rparr>" by code_simp
  moreover have "frame_length demo_frame = 64" by code_simp
  ultimately show ?thesis using frame_roundtrip [OF demo_frame_ok(1)] by auto
qed

text \<open>
  Conversely, when a byte string unmarshals and its payload needs no padding, marshalling the
  frame again gives the same bytes.
\<close>

lemma frame_reencode:
  assumes "UnmarshalBinary Frame_zero b = Some (f, None)" "minPayload \<le> length (Payload f)"
  shows "MarshalBinary f = Some (b, None)"
proof -
  have "frame_marshals f" using UnmarshalBinary_sound(1) [OF assms] by (simp add: frame_readable_def)
  then show ?thesis using MarshalBinary_wire UnmarshalBinary_sound(2) [OF assms] by simp
qed

text \<open>
  Marshalling never panics; it fails exactly on a service tag without a customer tag, a
  priority above 7 or an ID above 4094, always with the invalid-VLAN error, with or without a
  frame check sequence.
\<close>

lemma marshal_errors:
  "(\<exists>b e. MarshalBinary f = Some (b, e) \<and> (e = None \<longleftrightarrow> frame_marshals f) \<and> (e \<noteq> None \<longleftrightarrow> e = Some ErrInvalidVLAN))
   \<and> (\<exists>r. MarshalFCS f = Some r \<and> (isl r \<longleftrightarrow> r = Inl ErrInvalidVLAN) \<and> (isl r \<longleftrightarrow> \<not> frame_marshals f))"
proof (cases "frame_marshals f")
  case True
  then show ?thesis using MarshalBinary_wire MarshalFCS_wire by simp
next
  case False
  obtain b0 b4 where "frame_read f (replicate (frame_length f) 0) = Some (b0, Inl ErrInvalidVLAN)"
      "frame_read f (replicate (frame_length f + 4) 0) = Some (b4, Inl ErrInvalidVLAN)"
    using frame_read_invalid [OF False, of 0] frame_read_invalid [OF False, of 4] by auto
  with False show ?thesis by (simp add: MarshalBinary_def MarshalFCS_def)
qed

text \<open>
  C6. Unmarshalling a frame or a packet never panics, whatever the bytes: no index or slice out
  of range, and the only errors are the documented ones.
\<close>

theorem unmarshal_never_panics:
  "(\<exists>f' e. UnmarshalBinary f b = Some (f', e) \<and> e \<in> {None, Some ErrUnexpectedEOF, Some ErrInvalidVLAN})
   \<and> (\<exists>p' e. Packet_UnmarshalBinary p b = Some (p', e) \<and> e \<in> {None, Some ErrUnexpectedEOF})
   \<and> (\<exists>r. parsePacket b = Some r)"
  using UnmarshalBinary_total Packet_UnmarshalBinary_total parsePacket_total by blast

text \<open>
  C7. A frame marshalled with its check sequence is accepted by \<open>UnmarshalFCS\<close> and rejected with
  \<open>ErrInvalidFCS\<close>, the receiver unchanged, after any change of any one of its bytes, those of the
  check sequence included.
\<close>

theorem fcs_detects_byte_change:
  assumes "frame_readable f" "MarshalFCS f = Some (Inr b)" "i < length b" "x \<noteq> b ! i"
  shows "UnmarshalFCS Frame_zero b = Some (wire_norm f, None)
    \<and> UnmarshalFCS f0 (b[i := x]) = Some (f0, Some ErrInvalidFCS)"
proof -
  have b: "b = frame_wire f @ be32 (ChecksumIEEE (frame_wire f))"
    using MarshalFCS_wire [of f] assms(1,2) by (simp add: frame_readable_def)
  show ?thesis
    using UnmarshalFCS_corrupt [of i "frame_wire f" x f0] UnmarshalBinary_wire [OF assms(1), of Frame_zero] assms(3,4)
    by (simp add: b UnmarshalFCS_split overlay_zero)
qed

theorem fcs_detects_byte_change_witness:
  "\<exists>b. MarshalFCS demo_frame = Some (Inr b)
    \<and> (\<exists>x. UnmarshalFCS Frame_zero (b[0 := x]) = Some (Frame_zero, Some ErrInvalidFCS))"
proof -
  let ?b = "frame_wire demo_frame @ be32 (ChecksumIEEE (frame_wire demo_frame))"
  have b: "MarshalFCS demo_frame = Some (Inr ?b)" by (rule MarshalFCS_wire [OF demo_frame_ok(2)])
  have "0 < length ?b" by (simp add: frame_wire_def)
  moreover have "?b ! 0 + 1 \<noteq> ?b ! 0" by simp
  ultimately show ?thesis using fcs_detects_byte_change [OF demo_frame_ok(1) b] b by blast
qed

text \<open>
  \<open>UnmarshalBinary\<close> keeps the receiver's old VLAN tags when the bytes carry none: reading an
  untagged frame into a used \<open>Frame\<close> leaves stale tags in it.
\<close>

lemma unmarshal_keeps_stale_tags:
  assumes "frame_readable f" "ServiceVLAN f = None" "CVLAN f = None" "MarshalBinary f = Some (b, None)"
  shows "\<exists>f'. UnmarshalBinary f0 b = Some (f', None) \<and> ServiceVLAN f' = ServiceVLAN f0 \<and> CVLAN f' = CVLAN f0"
proof -
  have "b = frame_wire f" using MarshalBinary_wire [of f] assms(1,4) by (simp add: frame_readable_def)
  then show ?thesis using UnmarshalBinary_wire [OF assms(1), of f0] assms(2,3)
    by (simp add: overlay_def wire_norm_def)
qed

text \<open>
  \<open>Packet.MarshalBinary\<close> computes its buffer size in uint8 arithmetic: it writes the packet
  and the packet reads back (also with padding behind it) when the true size is below 256 bytes,
  and panics for every larger packet, although it is documented never to fail.
\<close>

lemma packet_marshal_exact:
  "(if packet_len p < 256
    then \<exists>b. Packet_MarshalBinary p = Some b \<and> length b = packet_len p
      \<and> (\<forall>rest. Packet_UnmarshalBinary p0 (b @ rest) = Some (packet_norm p, None))
    else Packet_MarshalBinary p = None)"
  using Packet_MarshalBinary_wire [of p] Packet_MarshalBinary_panics [of p] Packet_UnmarshalBinary_wire [of p0 p]
  by auto

text \<open>
  C8. Resolution end to end, for 6-byte hardware and 4-byte IP addresses: the frame \<open>Request\<close>
  writes is read by the other host's \<open>Read\<close> as that request, and its \<open>Reply\<close> writes a frame. \<open>Resolve\<close> writes this
  one request and nothing else, passes over any number of other frames and unrelated packets, takes the first
  packet that is a reply from the requested address, whoever built it, leaves what follows unread, and returns the
  hardware address in it; for the frame of \<open>Reply\<close> this is the address of the replying host.
\<close>

theorem arp_resolution:
  assumes "length (ifi_hw c) = 6" "cip c = Some own" "length own = 4"
    and "length ip = 4" "length hw = 6" "werr cn = None" "werr cnB = None" "list_all (ignored ip) noise"
  shows "\<exists>q r. Request c ip cn = Some (Ret (cn\<lparr>outbox := outbox cn @ [(q, Broadcast)]\<rparr>, None))
    \<and> (\<exists>pkt f. Read (cnB\<lparr>inbox := [Inr q]\<rparr>) = Some (Ret (cnB\<lparr>inbox := []\<rparr>, Inr (pkt, f)))
        \<and> Operation pkt = OperationRequest \<and> TargetIP pkt = ip
        \<and> Reply pkt hw ip cnB = Some (Ret (cnB\<lparr>outbox := outbox cnB @ [(r, ifi_hw c)]\<rparr>, None)))
    \<and> (\<forall>d p f rest. parsePacket (take 128 d) = Some (Inr (p, f)) \<longrightarrow> Operation p = OperationReply \<longrightarrow> IP_Equal (SenderIP p) ip \<longrightarrow>
         Resolve c ip (cn\<lparr>inbox := map Inr noise @ Inr d # rest\<rparr>)
         = Some (Ret (cn\<lparr>inbox := rest, outbox := outbox cn @ [(q, Broadcast)]\<rparr>, Inr (SenderHardwareAddr p))))
    \<and> (\<forall>rest. Resolve c ip (cn\<lparr>inbox := map Inr noise @ Inr r # rest\<rparr>)
         = Some (Ret (cn\<lparr>inbox := rest, outbox := outbox cn @ [(q, Broadcast)]\<rparr>, Inr hw)))"
proof -
  let ?q = "request_packet (ifi_hw c) own ip" and ?r = "reply_packet hw ip (ifi_hw c) own"
  have n: "packet_norm ?q = ?q" using assms by (simp add: arp_packet_norm)
  have l: "packet_len ?q \<le> 46" by (simp add: arp_packet_len)
  have rd: "Read (cnB\<lparr>inbox := [Inr (frame_wire (arp_frame ?q Broadcast))]\<rparr>)
      = Some (Ret (cnB\<lparr>inbox := []\<rparr>, Inr (?q, wire_norm (arp_frame ?q Broadcast))))"
    using Read_sent [OF l, of "cnB\<lparr>inbox := [Inr (frame_wire (arp_frame ?q Broadcast))]\<rparr>"] n by simp
  have rs: "Resolve c ip (cn\<lparr>inbox := map Inr noise @ Inr d # rest\<rparr>)
      = Some (Ret (cn\<lparr>inbox := rest, outbox := outbox cn @ [(frame_wire (arp_frame ?q Broadcast), Broadcast)]\<rparr>, Inr (SenderHardwareAddr p)))"
    if "parsePacket (take 128 d) = Some (Inr (p, f))" "Operation p = OperationReply" "IP_Equal (SenderIP p) ip" for d p f rest
    using Resolve_answer [OF assms(1-4), of "cn\<lparr>inbox := map Inr noise @ Inr d # rest\<rparr>" noise d rest p f] assms(6,8) that by simp
  have f: "Operation ?q = OperationRequest" "TargetIP ?q = ip" by (simp_all add: request_packet_def)
  note a = reply_answers [OF assms(5,4,1,3)]
  show ?thesis
    by (intro exI [of _ "frame_wire (arp_frame ?q Broadcast)"] exI [of _ "frame_wire (arp_frame ?r (ifi_hw c))"]
        conjI exI [of _ ?q] exI [of _ "wire_norm (arp_frame ?q Broadcast)"] Request_sends rd f Reply_sends assms allI impI rs rs [OF a(1-3), unfolded a(4)])
qed

definition demo_client :: Client where
  "demo_client = \<lparr>ifi_hw = [1, 2, 3, 4, 5, 6], cip = Some [10, 0, 0, 1]\<rparr>"

definition conn0 :: conn where
  "conn0 = \<lparr>inbox = [], outbox = [], werr = None\<rparr>"

theorem arp_resolution_witness:
  "ignored [10, 0, 0, 2] (replicate 60 7)
   \<and> (\<exists>q r. Resolve demo_client [10, 0, 0, 2] (conn0\<lparr>inbox := [Inr (replicate 60 7), Inr r]\<rparr>)
        = Some (Ret (conn0\<lparr>outbox := [(q, Broadcast)]\<rparr>, Inr [2, 2, 2, 2, 2, 2])))"
proof -
  have i: "ignored [10, 0, 0, 2] (replicate 60 7)" by code_simp
  obtain q r where "\<forall>rest. Resolve demo_client [10, 0, 0, 2] (conn0\<lparr>inbox := map Inr [replicate 60 7] @ Inr r # rest\<rparr>)
      = Some (Ret (conn0\<lparr>inbox := rest, outbox := outbox conn0 @ [(q, Broadcast)]\<rparr>, Inr [2, 2, 2, 2, 2, 2]))"
    using arp_resolution [of demo_client "[10, 0, 0, 1]" "[10, 0, 0, 2]" "[2, 2, 2, 2, 2, 2]" conn0 conn0 "[replicate 60 7]"] i
    by (auto simp: demo_client_def conn0_def)
  from spec [OF this, of "[]"] have "Resolve demo_client [10, 0, 0, 2] (conn0\<lparr>inbox := [Inr (replicate 60 7), Inr r]\<rparr>)
      = Some (Ret (conn0\<lparr>outbox := [(q, Broadcast)]\<rparr>, Inr [2, 2, 2, 2, 2, 2]))" by (simp add: conn0_def)
  then show ?thesis using i by blast
qed

end
