(* ===== verification/Sed_VM.thy ===== *)
theory Sed_VM
  imports Go_Prelude Outcome "HOL-Library.Monad_Syntax"
begin

section \<open>Package gosed: the virtual machine\<close>

text \<open>
  \<^verbatim>\<open>gosed/{engine,instructions,conditions,substitution}.go\<close>. An instruction of the code is a closure
  over the machine; here it is a value of \<open>instr\<close>, one constructor per instruction maker, and
  \<open>step\<close> runs it. Two-address conditions are pointers the engine shares: \<open>ITwoCond\<close> carries the
  number of its cell in the machine's \<open>cells\<close>, and a guarded change command the same number.

  The output slice of a \<open>Read\<close> call is its remaining length (\<open>room\<close>) and the bytes written to it
  (\<open>written\<close>). \<open>room = None\<close> is a slice that never fills up, which the code never has: it gives the
  reference semantics the lazy reader is compared with. The regular expressions are those of the
  package \<^verbatim>\<open>regexp\<close> and the files those of the operating system: both are the parameters in
  \<open>sed_env\<close>. The input is read without errors other than its end.
\<close>

datatype sed_err = FullBuffer | EOF | FileError string

record 're sed_env =
  rx_compile :: "string \<Rightarrow> string + 're"
  rx_match :: "'re \<Rightarrow> string \<Rightarrow> bool"
  rx_find :: "'re \<Rightarrow> string \<Rightarrow> int list list"
  rx_expand :: "'re \<Rightarrow> string \<Rightarrow> string \<Rightarrow> int list \<Rightarrow> string"
  read_file :: "string \<Rightarrow> string + string"
  append_err :: "string \<Rightarrow> string option"

datatype 're condition = NumberCond int | EofCond | RegexpCond 're

datatype 're instr =
    IQuit | ISwap | IGet | IHold | IGetApp | IHoldApp
  | IBranch nat | IChangedBranch nat
  | IPrint | IPrintFirstLine | IDeleteFirstLine | ILineno
  | IFillNext | IFillNextAppend
  | ISimpleCond "'re condition" nat nat
  | ITwoCond nat "'re condition" "'re condition" nat nat
  | IChanger string "nat option"
  | IAppender string | IInserter string | IWriter string
  | ISubst 're string int bool bool
  | ITranslate "(rune \<times> rune) list"

record vm =
  nxtl :: string
  pat :: string
  hold :: string
  appl :: "string option"
  overflow :: string
  lastl :: bool
  ip :: int
  input :: string
  room :: "nat option"
  written :: string
  lineno :: int
  modified :: bool
  cells :: "nat \<Rightarrow> bool \<times> int"
  files :: "(string \<times> string) list"

type_synonym result = "vm \<times> sed_err option"

definition writeString :: "vm \<Rightarrow> string \<Rightarrow> result" where
  "writeString v str =
     (case room v of
        None \<Rightarrow> (v\<lparr>written := written v @ str\<rparr>, None)
      | Some n \<Rightarrow>
          if n < length str
          then (v\<lparr>overflow := overflow v @ drop n str, written := written v @ take n str, room := Some 0\<rparr>, Some FullBuffer)
          else (v\<lparr>written := written v @ str, room := Some (n - length str)\<rparr>, None))"

subsection \<open>Plain commands\<close>

definition next_ip :: "vm \<Rightarrow> vm" where
  "next_ip v = v\<lparr>ip := ip v + 1\<rparr>"

definition cmd_quit :: "vm \<Rightarrow> result" where
  "cmd_quit v = (v, Some EOF)"

definition cmd_swap :: "vm \<Rightarrow> result" where
  "cmd_swap v = (next_ip (v\<lparr>pat := hold v, hold := pat v\<rparr>), None)"

definition cmd_get :: "vm \<Rightarrow> result" where
  "cmd_get v = (next_ip (v\<lparr>pat := hold v\<rparr>), None)"

definition cmd_hold :: "vm \<Rightarrow> result" where
  "cmd_hold v = (next_ip (v\<lparr>hold := pat v\<rparr>), None)"

definition cmd_getapp :: "vm \<Rightarrow> result" where
  "cmd_getapp v = (next_ip (v\<lparr>pat := pat v @ [nl] @ hold v\<rparr>), None)"

definition cmd_holdapp :: "vm \<Rightarrow> result" where
  "cmd_holdapp v = (next_ip (v\<lparr>hold := hold v @ [nl] @ pat v\<rparr>), None)"

definition cmd_branch :: "nat \<Rightarrow> vm \<Rightarrow> result" where
  "cmd_branch target v = (v\<lparr>ip := int target\<rparr>, None)"

definition cmd_changedBranch :: "nat \<Rightarrow> vm \<Rightarrow> result" where
  "cmd_changedBranch target v =
     (if modified v then (v\<lparr>ip := int target, modified := False\<rparr>, None) else (next_ip v, None))"

definition cmd_print :: "vm \<Rightarrow> result" where
  "cmd_print v = (let v1 = next_ip v in writeString (fst (writeString v1 (pat v1))) [nl])"

definition cmd_printFirstLine :: "vm \<Rightarrow> result" where
  "cmd_printFirstLine v =
     (let v1 = next_ip v; idx = (case index_byte (pat v1) nl of None \<Rightarrow> length (pat v1) | Some i \<Rightarrow> i)
      in writeString (fst (writeString v1 (take idx (pat v1)))) [nl])"

definition cmd_deleteFirstLine :: "vm \<Rightarrow> result" where
  "cmd_deleteFirstLine v =
     (case index_byte (pat v) nl of
        None \<Rightarrow> (v\<lparr>pat := [], ip := 0\<rparr>, None)
      | Some i \<Rightarrow> (v\<lparr>pat := drop (i + 1) (pat v), ip := 1\<rparr>, None))"

fun digits :: "nat \<Rightarrow> string" where
  "digits n = (if n < 10 then [char_of (48 + n)] else digits (n div 10) @ [char_of (48 + n mod 10)])"

declare digits.simps [simp del]

definition itoa :: "int \<Rightarrow> string" where
  "itoa i = (if i < 0 then CHR ''-'' # digits (nat (- i)) else digits (nat i))"

definition cmd_lineno :: "vm \<Rightarrow> result" where
  "cmd_lineno v = (let v1 = next_ip v in writeString v1 (itoa (lineno v1) @ [nl]))"

subsection \<open>Filling the pattern space\<close>

text \<open>
  The loop over \<^verbatim>\<open>bufio.Reader.ReadLine\<close>, whose pieces the code joins: the next line without its
  end (a line feed, or a carriage return and a line feed), \<open>None\<close> at the end of the input.
\<close>

definition drop_cr :: "string \<Rightarrow> string" where
  "drop_cr l = (if l \<noteq> [] \<and> last l = cr then butlast l else l)"

definition read_line :: "string \<Rightarrow> (string \<times> string) option" where
  "read_line s =
     (if s = [] then None
      else case index_byte s nl of
             None \<Rightarrow> Some (s, [])
           | Some i \<Rightarrow> Some (drop_cr (take i s), drop (i + 1) s))"

definition refill :: "vm \<Rightarrow> vm" where
  "refill v =
     (let v1 = (next_ip v)\<lparr>pat := nxtl v, lineno := lineno v + 1, modified := False\<rparr>
      in case read_line (input v1) of
           None \<Rightarrow> v1\<lparr>nxtl := [], lastl := True\<rparr>
         | Some (line, rest) \<Rightarrow> v1\<lparr>nxtl := line, input := rest\<rparr>)"

definition cmd_fillNext :: "vm \<Rightarrow> result" where
  "cmd_fillNext v =
     (let (v1, err) = (case appl v of
                         None \<Rightarrow> (v, None)
                       | Some a \<Rightarrow> (let (w, e) = writeString v a in (w\<lparr>appl := None\<rparr>, e)))
      in if err \<noteq> None then (v1, err)
         else if lastl v1 then (v1, Some EOF)
         else (refill v1, None))"

definition cmd_fillNextAppend :: "vm \<Rightarrow> result" where
  "cmd_fillNextAppend v =
     (let (v1, err) = cmd_fillNext v in (v1\<lparr>pat := pat v @ [nl] @ pat v1\<rparr>, err))"

subsection \<open>Conditions\<close>

definition isMet :: "'re sed_env \<Rightarrow> 're condition \<Rightarrow> vm \<Rightarrow> bool" where
  "isMet env c v =
     (case c of NumberCond n \<Rightarrow> lineno v = n | EofCond \<Rightarrow> lastl v | RegexpCond re \<Rightarrow> rx_match env re (pat v))"

definition run_simplecond :: "'re sed_env \<Rightarrow> 're condition \<Rightarrow> nat \<Rightarrow> nat \<Rightarrow> vm \<Rightarrow> result" where
  "run_simplecond env c metloc unmetloc v =
     (v\<lparr>ip := int (if isMet env c v then metloc else unmetloc)\<rparr>, None)"

definition isLastLine :: "nat \<Rightarrow> vm \<Rightarrow> bool" where
  "isLastLine n v \<longleftrightarrow> fst (cells v n) \<and> snd (cells v n) = lineno v"

definition run_twocond :: "'re sed_env \<Rightarrow> nat \<Rightarrow> 're condition \<Rightarrow> 're condition \<Rightarrow> nat \<Rightarrow> nat \<Rightarrow> vm \<Rightarrow> result" where
  "run_twocond env n c1 c2 metloc unmetloc v =
     (let (isOn, offFrom) = cells v n;
          (isOn, offFrom) = (if isOn \<and> 0 < offFrom \<and> offFrom < lineno v then (False, 0) else (isOn, offFrom))
      in if \<not> isOn
         then (if isMet env c1 v
               then (v\<lparr>ip := int metloc, cells := (cells v)(n := (True, offFrom))\<rparr>, None)
               else (v\<lparr>ip := int unmetloc, cells := (cells v)(n := (False, offFrom))\<rparr>, None))
         else (v\<lparr>ip := int metloc,
                 cells := (cells v)(n := (True, if isMet env c2 v then lineno v else offFrom))\<rparr>, None))"

subsection \<open>Text commands\<close>

definition run_changer :: "string \<Rightarrow> nat option \<Rightarrow> vm \<Rightarrow> result" where
  "run_changer txt guard v =
     (let v1 = v\<lparr>ip := 0\<rparr>
      in if (case guard of None \<Rightarrow> True | Some n \<Rightarrow> isLastLine n v1) then writeString v1 txt else (v1, None))"

definition run_appender :: "string \<Rightarrow> vm \<Rightarrow> result" where
  "run_appender txt v =
     ((next_ip v)\<lparr>appl := Some (case appl v of None \<Rightarrow> txt | Some a \<Rightarrow> a @ txt)\<rparr>, None)"

definition run_inserter :: "string \<Rightarrow> vm \<Rightarrow> result" where
  "run_inserter txt v = writeString (next_ip v) txt"

text \<open>\<open>append_err\<close> gives the error of opening or writing the file, if any.\<close>

definition run_writer :: "'re sed_env \<Rightarrow> string \<Rightarrow> vm \<Rightarrow> result" where
  "run_writer env filename v =
     (let v1 = next_ip v
      in case append_err env filename of
           Some e \<Rightarrow> (v1, Some (FileError e))
         | None \<Rightarrow> (v1\<lparr>files := files v1 @ [(filename, pat v1 @ [nl])]\<rparr>, None))"

subsection \<open>Substitution and translation\<close>

definition str_slice :: "string \<Rightarrow> int \<Rightarrow> int \<Rightarrow> string option" where
  "str_slice s lo hi =
     (if 0 \<le> lo \<and> lo \<le> hi \<and> hi \<le> int (length s) then Some (take (nat hi - nat lo) (drop (nat lo) s)) else None)"

fun subst_replaceAll :: "'re sed_env \<Rightarrow> 're \<Rightarrow> string \<Rightarrow> string \<Rightarrow> int \<Rightarrow> int list list \<Rightarrow> string option" where
  "subst_replaceAll env re repl src endpt [] = str_slice src endpt (int (length src))"
| "subst_replaceAll env re repl src endpt (idx # idxs) =
     (case idx of
        a # b # _ \<Rightarrow> do {
          gap \<leftarrow> str_slice src endpt a;
          rest \<leftarrow> subst_replaceAll env re repl src b idxs;
          Some (gap @ rx_expand env re repl src idx @ rest)
        }
      | _ \<Rightarrow> None)"

text \<open>The result is \<open>None\<close> for a panic.\<close>

definition run_subst :: "'re sed_env \<Rightarrow> 're \<Rightarrow> string \<Rightarrow> int \<Rightarrow> bool \<Rightarrow> bool \<Rightarrow> vm \<Rightarrow> result option" where
  "run_subst env re repl which pflag gflag v =
     (let v1 = next_ip v; matches = rx_find env re (pat v1)
      in if int (length matches) \<le> which then Some (v1, None)
         else if which < 0 then None
         else let ms = (if gflag then drop (nat which) matches else [matches ! nat which])
              in do {
                new \<leftarrow> subst_replaceAll env re repl (pat v1) 0 ms;
                (let v2 = v1\<lparr>pat := new, modified := True\<rparr>
                 in if pflag then (let (v3, e) = cmd_print v2 in Some (v3\<lparr>ip := ip v3 - 1\<rparr>, e))
                    else Some (v2, None))
              })"

text \<open>
  \<^verbatim>\<open>strings.Replacer\<close> over pairs of encoded runes: at each position the first pair whose pattern
  is a prefix, else one byte is copied.
\<close>

function translate :: "(rune \<times> rune) list \<Rightarrow> string \<Rightarrow> string" where
  "translate tbl s =
     (if s = [] then []
      else case find (\<lambda>(a, b). take (length (encode_rune a)) s = encode_rune a) tbl of
             Some (a, b) \<Rightarrow> encode_rune b @ translate tbl (drop (length (encode_rune a)) s)
           | None \<Rightarrow> hd s # translate tbl (tl s))"
  by pat_completeness auto
termination
proof (relation "measure (\<lambda>(tbl, s). length s)", goal_cases)
  case (3 tbl s x a b)
  have "encode_rune a \<noteq> []" by (simp add: encode_rune_def Let_def)
  then show ?case using 3 by (cases s) simp_all
qed auto

declare translate.simps [simp del]

definition run_translate :: "(rune \<times> rune) list \<Rightarrow> vm \<Rightarrow> result" where
  "run_translate tbl v = (next_ip (v\<lparr>pat := translate tbl (pat v)\<rparr>), None)"

subsection \<open>Running a program\<close>

definition step :: "'re sed_env \<Rightarrow> 're instr \<Rightarrow> vm \<Rightarrow> result option" where
  "step env i v =
     (case i of
        IQuit \<Rightarrow> Some (cmd_quit v)
      | ISwap \<Rightarrow> Some (cmd_swap v)
      | IGet \<Rightarrow> Some (cmd_get v)
      | IHold \<Rightarrow> Some (cmd_hold v)
      | IGetApp \<Rightarrow> Some (cmd_getapp v)
      | IHoldApp \<Rightarrow> Some (cmd_holdapp v)
      | IBranch t \<Rightarrow> Some (cmd_branch t v)
      | IChangedBranch t \<Rightarrow> Some (cmd_changedBranch t v)
      | IPrint \<Rightarrow> Some (cmd_print v)
      | IPrintFirstLine \<Rightarrow> Some (cmd_printFirstLine v)
      | IDeleteFirstLine \<Rightarrow> Some (cmd_deleteFirstLine v)
      | ILineno \<Rightarrow> Some (cmd_lineno v)
      | IFillNext \<Rightarrow> Some (cmd_fillNext v)
      | IFillNextAppend \<Rightarrow> Some (cmd_fillNextAppend v)
      | ISimpleCond c m u \<Rightarrow> Some (run_simplecond env c m u v)
      | ITwoCond n c1 c2 m u \<Rightarrow> Some (run_twocond env n c1 c2 m u v)
      | IChanger txt g \<Rightarrow> Some (run_changer txt g v)
      | IAppender txt \<Rightarrow> Some (run_appender txt v)
      | IInserter txt \<Rightarrow> Some (run_inserter txt v)
      | IWriter f \<Rightarrow> Some (run_writer env f v)
      | ISubst re repl w p g \<Rightarrow> run_subst env re repl w p g v
      | ITranslate tbl \<Rightarrow> Some (run_translate tbl v))"

text \<open>The loop of \<open>Read\<close>: it may run forever (\<open>None\<close>) or panic on an address out of range.\<close>

partial_function (option) run :: "'re sed_env \<Rightarrow> 're instr list \<Rightarrow> vm \<Rightarrow> (vm \<times> sed_err) res" where
  "run env ins v =
     (if 0 \<le> ip v \<and> ip v < int (length ins)
      then (case step env (ins ! nat (ip v)) v of
              None \<Rightarrow> Some Panic
            | Some (v', Some e) \<Rightarrow> Some (Ret (v', e))
            | Some (v', None) \<Rightarrow> run env ins v')
      else Some Panic)"

declare run.simps [code]

definition Wrap :: "(nat \<Rightarrow> bool \<times> int) \<Rightarrow> string \<Rightarrow> vm" where
  "Wrap cs inp =
     \<lparr>nxtl = [], pat = [], hold = [], appl = None, overflow = [], lastl = False, ip = -1, input = inp,
      room = Some 0, written = [], lineno = -1, modified = False, cells = cs, files = []\<rparr>"

text \<open>The part of \<open>Read\<close> before the loop.\<close>

definition read_start :: "vm \<Rightarrow> result" where
  "read_start v =
     (if lineno v = -1 then (let (v', e) = cmd_fillNext v in (v'\<lparr>ip := 0\<rparr>, e))
      else if overflow v \<noteq> [] then writeString (v\<lparr>overflow := []\<rparr>) (overflow v)
      else (v, None))"

definition vm_Read :: "'re sed_env \<Rightarrow> 're instr list \<Rightarrow> nat option \<Rightarrow> vm \<Rightarrow> (string \<times> sed_err option \<times> vm) res" where
  "vm_Read env ins p v =
     (let (v1, e) = read_start (v\<lparr>room := p, written := []\<rparr>)
      in bind_res (case e of Some e \<Rightarrow> Some (Ret (v1, e)) | None \<Rightarrow> run env ins v1)
           (\<lambda>(v2, e).
              Some (Ret (written v2,
                if (e = FullBuffer \<or> e = EOF) \<and> written v2 \<noteq> [] then None else Some e, v2))))"

text \<open>
  \<open>RunString\<close> copies the reader into a \<^verbatim>\<open>bytes.Buffer\<close>, which calls \<open>Read\<close> with the free space it
  has, at least 512 bytes, until an error; \<open>sizes\<close> are the lengths of the successive slices. The
  end of the input is no error.
\<close>

partial_function (option) copy_from :: "'re sed_env \<Rightarrow> 're instr list \<Rightarrow> (nat \<Rightarrow> nat) \<Rightarrow> string \<Rightarrow> vm
    \<Rightarrow> (string \<times> sed_err option \<times> vm) res" where
  "copy_from env ins sizes acc v =
     (case vm_Read env ins (Some (sizes 0)) v of
        None \<Rightarrow> None
      | Some Panic \<Rightarrow> Some Panic
      | Some (Ret (out, Some e, v')) \<Rightarrow> Some (Ret (acc @ out, if e = EOF then None else Some e, v'))
      | Some (Ret (out, None, v')) \<Rightarrow> copy_from env ins (\<lambda>i. sizes (Suc i)) (acc @ out) v')"

declare copy_from.simps [code]

definition RunString :: "'re sed_env \<Rightarrow> 're instr list \<Rightarrow> (nat \<Rightarrow> nat) \<Rightarrow> (nat \<Rightarrow> bool \<times> int) \<Rightarrow> string
    \<Rightarrow> (string \<times> sed_err option \<times> vm) res" where
  "RunString env ins sizes cs inp = copy_from env ins sizes [] (Wrap cs inp)"

end
