(* ===== verification/Sed_Parse.thy ===== *)
theory Sed_Parse
  imports Sed_VM
begin

section \<open>Package gosed: the compiler\<close>

text \<open>
  \<^verbatim>\<open>gosed/parse.go\<close> and the instruction makers of \<^verbatim>\<open>substitution.go\<close> and \<^verbatim>\<open>instructions.go\<close>. The token
  channel is the list \<open>toks\<close>. \<open>parse_toplevel\<close> and \<open>compile_block\<close> call each other; the functions
  between them take the recursive call as an argument, and fuel bounds the nesting: every call and
  every turn of the loop takes a token, so one more than the number of tokens is enough
  (\<open>None\<close> stands for fuel that ran out). A condition is patched in place when the length of its
  block is known, as the code patches the closure's record.
\<close>

datatype tok_type =
    tok_NUM | tok_RX | tok_COMMA | tok_BANG | tok_DOLLAR | tok_LBRACE | tok_RBRACE | tok_EOL | tok_CMD
  | tok_CHANGE | tok_LABEL

record location =
  line :: int
  pos :: int

record token =
  loc :: location
  ttyp :: tok_type
  letter :: rune
  args :: "string list"

datatype parse_error =
    MissingBrace | EndOfScript
  | UnknownLabel string location | BadNumber string location | RegexpError string location
  | UnexpectedBrace location | UnexpectedToken rune location | ExpectedSecond location
  | UnexpectedAtBlock rune location | ReaderError string location | SubstError string location
  | BadModifier location | BadCount location | TranslationError location
  | UnknownCommand rune location | BadLabel location

record waitingBranch =
  wip :: nat
  wlabel :: string
  wletter :: rune
  wloc :: location

record 're parseState =
  toks :: "token list"
  ins :: "'re instr list"
  branches :: "waitingBranch list"
  b_labels :: "string \<Rightarrow> nat option"
  t_labels :: "string \<Rightarrow> nat option"
  blockLevel :: int
  quiet :: bool
  err :: "parse_error option"

definition end_of_program_label :: string where
  "end_of_program_label = ''the end''"

abbreviation ch :: "char \<Rightarrow> rune" where "ch c \<equiv> byte c"

text \<open>Arguments of a token; the lexer gives every command the arguments it needs.\<close>

definition arg :: "token \<Rightarrow> nat \<Rightarrow> string" where
  "arg t i = (if i < length (args t) then args t ! i else [])"

definition emit :: "'re instr list \<Rightarrow> 're parseState \<Rightarrow> 're parseState" where
  "emit is ps = ps\<lparr>ins := ins ps @ is\<rparr>"

subsection \<open>Numbers\<close>

fun decimal :: "nat \<Rightarrow> string \<Rightarrow> nat option" where
  "decimal acc [] = Some acc"
| "decimal acc (c # cs) = (if in_range 48 57 c then decimal (10 * acc + (byte c - 48)) cs else None)"

text \<open>\<^verbatim>\<open>strconv.Atoi\<close> on digit strings: \<open>None\<close> for a bad digit or a value above the int range.\<close>

definition Atoi :: "string \<Rightarrow> int option" where
  "Atoi s = (if s = [] then None
     else case decimal 0 s of None \<Rightarrow> None | Some n \<Rightarrow> if n < 2 ^ 63 then Some (int n) else None)"

definition Atoi_value :: "string \<Rightarrow> int" where
  "Atoi_value s = (case decimal 0 s of None \<Rightarrow> 0 | Some n \<Rightarrow> if n < 2 ^ 63 then int n else 2 ^ 63 - 1)"

subsection \<open>Instruction makers\<close>

fun subst_mods :: "rune list \<Rightarrow> bool \<Rightarrow> bool \<Rightarrow> string \<Rightarrow> bool \<times> bool \<times> string \<times> bool" where
  "subst_mods [] p g nums = (p, g, nums, False)"
| "subst_mods (r # rs) p g nums =
     (if r = ch CHR ''p'' then subst_mods rs True g nums
      else if r = ch CHR ''g'' then subst_mods rs p True nums
      else if 48 \<le> r \<and> r \<le> 57 then subst_mods rs p g (nums @ [char_of r])
      else (p, g, nums, True))"

definition newSubstitution :: "'re sed_env \<Rightarrow> string \<Rightarrow> string \<Rightarrow> string \<Rightarrow> location \<Rightarrow> parse_error + 're instr" where
  "newSubstitution env pattern replacement mods l =
     (case rx_compile env pattern of
        Inl e \<Rightarrow> Inl (SubstError e l)
      | Inr rx \<Rightarrow>
          (let (p, g, nums, bad) = subst_mods (runes mods) False False []
           in if nums \<noteq> [] \<and> Atoi_value nums \<le> 0 then Inl (BadCount l)
              else if bad then Inl (BadModifier l)
              else Inr (ISubst rx replacement (if nums \<noteq> [] then Atoi_value nums - 1 else 0) p g)))"

definition newTranslation :: "string \<Rightarrow> string \<Rightarrow> location \<Rightarrow> parse_error + 're instr" where
  "newTranslation pattern replacement l =
     (if length (runes pattern) \<noteq> length (runes replacement) then Inl (TranslationError l)
      else Inr (ITranslate (zip (runes pattern) (runes replacement))))"

definition cmd_newReader :: "'re sed_env \<Rightarrow> string \<Rightarrow> location \<Rightarrow> parse_error + 're instr" where
  "cmd_newReader env filename l =
     (case read_file env filename of Inl e \<Rightarrow> Inl (ReaderError e l) | Inr txt \<Rightarrow> Inr (IAppender txt))"

definition newRECondition :: "'re sed_env \<Rightarrow> string \<Rightarrow> location \<Rightarrow> parse_error + 're condition" where
  "newRECondition env s l =
     (case rx_compile env s of Inl e \<Rightarrow> Inl (RegexpError e l) | Inr re \<Rightarrow> Inr (RegexpCond re))"

definition numbercond :: "token \<Rightarrow> parse_error + 're condition" where
  "numbercond t = (case Atoi (arg t 0) of None \<Rightarrow> Inl (BadNumber (arg t 0) (loc t)) | Some n \<Rightarrow> Inr (NumberCond n))"

subsection \<open>Commands and labels\<close>

definition compile_branchTarget :: "nat \<Rightarrow> token \<Rightarrow> 're parseState \<Rightarrow> 're parseState" where
  "compile_branchTarget k cmd ps =
     ps\<lparr>branches := branches ps @ [\<lparr>wip = k, wlabel = (if arg cmd 0 = [] then end_of_program_label else arg cmd 0),
        wletter = letter cmd, wloc = loc cmd\<rparr>]\<rparr>"

definition emit_or_fail :: "parse_error + 're instr \<Rightarrow> 're parseState \<Rightarrow> 're parseState" where
  "emit_or_fail r ps = (case r of Inl e \<Rightarrow> ps\<lparr>err := Some e\<rparr> | Inr i \<Rightarrow> emit [i] ps)"

definition compile_cmd :: "'re sed_env \<Rightarrow> token \<Rightarrow> 're parseState \<Rightarrow> 're parseState" where
  "compile_cmd env cmd ps =
     (let c = letter cmd; pr = (if quiet ps then [] else [IPrint]) in
      if c = ch CHR ''='' then emit [ILineno] ps
      else if c = ch CHR ''D'' then emit [IDeleteFirstLine] ps
      else if c = ch CHR ''G'' then emit [IGetApp] ps
      else if c = ch CHR ''H'' then emit [IHoldApp] ps
      else if c = ch CHR ''N'' then emit [IFillNextAppend] ps
      else if c = ch CHR ''P'' then emit [IPrintFirstLine] ps
      else if c = ch CHR ''a'' then emit [IAppender (arg cmd 0)] ps
      else if c = ch CHR ''b'' \<or> c = ch CHR ''t''
      then emit [IBranch 0] (compile_branchTarget (length (ins ps)) cmd ps)
      else if c = ch CHR ''c'' then emit [IChanger (arg cmd 0) None] ps
      else if c = ch CHR ''d'' then emit [IBranch 0] ps
      else if c = ch CHR ''g'' then emit [IGet] ps
      else if c = ch CHR ''h'' then emit [IHold] ps
      else if c = ch CHR ''i'' then emit [IInserter (arg cmd 0)] ps
      else if c = ch CHR ''n'' then emit (pr @ [IFillNext]) ps
      else if c = ch CHR ''p'' then emit [IPrint] ps
      else if c = ch CHR ''q'' then emit (pr @ [IQuit]) ps
      else if c = ch CHR ''r'' then emit_or_fail (cmd_newReader env (arg cmd 0) (loc cmd)) ps
      else if c = ch CHR ''s''
      then emit_or_fail (newSubstitution env (arg cmd 0) (arg cmd 1) (arg cmd 2) (loc cmd)) ps
      else if c = ch CHR ''w'' then emit [IWriter (arg cmd 0)] ps
      else if c = ch CHR ''x'' then emit [ISwap] ps
      else if c = ch CHR ''y'' then emit_or_fail (newTranslation (arg cmd 0) (arg cmd 1) (loc cmd)) ps
      else ps\<lparr>err := Some (UnknownCommand c (loc cmd))\<rparr>)"

definition compile_label :: "token \<Rightarrow> 're parseState \<Rightarrow> 're parseState" where
  "compile_label lbl ps =
     (let name = arg lbl 0
      in if name = [] then ps\<lparr>err := Some (BadLabel (loc lbl))\<rparr>
         else ps\<lparr>b_labels := (b_labels ps)(name \<mapsto> length (ins ps)), t_labels := (t_labels ps)(name \<mapsto> length (ins ps))\<rparr>)"

subsection \<open>Blocks and conditions\<close>

type_synonym 're recur = "'re parseState \<Rightarrow> 're parseState option"

definition mustGetToken :: "'re parseState \<Rightarrow> token option \<times> 're parseState" where
  "mustGetToken ps =
     (case toks ps of [] \<Rightarrow> (None, ps\<lparr>err := Some EndOfScript\<rparr>) | t # ts \<Rightarrow> (Some t, ps\<lparr>toks := ts\<rparr>))"

definition compile_block :: "'re sed_env \<Rightarrow> 're recur \<Rightarrow> token \<Rightarrow> 're parseState \<Rightarrow> 're parseState option" where
  "compile_block env self cmd ps =
     (case ttyp cmd of
        tok_LBRACE \<Rightarrow> self (ps\<lparr>blockLevel := blockLevel ps + 1\<rparr>)
      | tok_CMD \<Rightarrow> Some (compile_cmd env cmd ps)
      | tok_CHANGE \<Rightarrow> Some (compile_cmd env cmd ps)
      | _ \<Rightarrow> Some (ps\<lparr>err := Some (UnexpectedAtBlock (letter cmd) (loc cmd))\<rparr>))"

text \<open>
  A condition at address \<open>k\<close>: it is appended with a provisional target, the block is compiled and
  the instruction is patched; \<open>mk a b\<close> is the condition with the two targets.
\<close>

definition guarded :: "'re sed_env \<Rightarrow> 're recur \<Rightarrow> (nat \<Rightarrow> nat \<Rightarrow> 're instr) \<Rightarrow> bool \<Rightarrow> token \<Rightarrow> 're parseState
    \<Rightarrow> 're parseState option" where
  "guarded env self mk negate tok ps =
     (let k = length (ins ps); mk' = (\<lambda>far. if negate then mk far (k + 1) else mk (k + 1) far)
      in do {
        ps1 \<leftarrow> compile_block env self tok (emit [mk' 0] ps);
        Some (ps1\<lparr>ins := (ins ps1)[k := mk' (length (ins ps1))]\<rparr>)
      })"

definition second_cond :: "'re sed_env \<Rightarrow> token \<Rightarrow> parse_error + 're condition" where
  "second_cond env tok =
     (case ttyp tok of
        tok_NUM \<Rightarrow> numbercond tok
      | tok_DOLLAR \<Rightarrow> Inr EofCond
      | tok_RX \<Rightarrow> newRECondition env (arg tok 0) (loc tok)
      | _ \<Rightarrow> Inl (ExpectedSecond (loc tok)))"

definition compile_twocond :: "'re sed_env \<Rightarrow> 're recur \<Rightarrow> 're condition \<Rightarrow> 're parseState \<Rightarrow> 're parseState option" where
  "compile_twocond env self c1 ps =
     (case mustGetToken ps of
        (None, ps1) \<Rightarrow> Some ps1
      | (Some tok, ps1) \<Rightarrow>
          (case second_cond env tok of
             Inl e \<Rightarrow> Some (ps1\<lparr>err := Some e\<rparr>)
           | Inr c2 \<Rightarrow>
               (case mustGetToken ps1 of
                  (None, ps2) \<Rightarrow> Some ps2
                | (Some tok2, ps2) \<Rightarrow>
                    (let k = length (ins ps2); mk = ITwoCond k c1 c2 in
                     case ttyp tok2 of
                       tok_BANG \<Rightarrow>
                         (case mustGetToken ps2 of
                            (None, ps3) \<Rightarrow> Some ps3
                          | (Some tok3, ps3) \<Rightarrow> guarded env self mk True tok3 ps3)
                     | tok_CHANGE \<Rightarrow> Some (emit [mk (k + 1) (k + 2), IChanger (arg tok2 0) (Some k)] ps2)
                     | _ \<Rightarrow> guarded env self mk False tok2 ps2))))"

definition compile_cond :: "'re sed_env \<Rightarrow> 're recur \<Rightarrow> 're condition \<Rightarrow> 're parseState \<Rightarrow> 're parseState option" where
  "compile_cond env self c ps =
     (case mustGetToken ps of
        (None, ps1) \<Rightarrow> Some ps1
      | (Some tok, ps1) \<Rightarrow>
          (case ttyp tok of
             tok_COMMA \<Rightarrow> compile_twocond env self c ps1
           | tok_BANG \<Rightarrow>
               (case mustGetToken ps1 of
                  (None, ps2) \<Rightarrow> Some ps2
                | (Some tok2, ps2) \<Rightarrow> guarded env self (ISimpleCond c) True tok2 ps2)
           | _ \<Rightarrow> guarded env self (ISimpleCond c) False tok ps1))"

text \<open>One turn of the loop: the state after a token, and whether the function returns at once.\<close>

definition toplevel_token :: "'re sed_env \<Rightarrow> 're recur \<Rightarrow> token \<Rightarrow> 're parseState \<Rightarrow> ('re parseState \<times> bool) option" where
  "toplevel_token env self tok ps =
     (let cond = (\<lambda>r. case r of
                    Inl e \<Rightarrow> Some (ps\<lparr>err := Some e\<rparr>, False)
                  | Inr c \<Rightarrow> map_option (\<lambda>ps'. (ps', False)) (compile_cond env self c ps))
      in case ttyp tok of
           tok_CMD \<Rightarrow> Some (compile_cmd env tok ps, False)
         | tok_LABEL \<Rightarrow> Some (compile_label tok ps, False)
         | tok_NUM \<Rightarrow> cond (numbercond tok)
         | tok_DOLLAR \<Rightarrow> cond (Inr EofCond)
         | tok_RX \<Rightarrow> cond (newRECondition env (arg tok 0) (loc tok))
         | tok_EOL \<Rightarrow> Some (ps, False)
         | tok_RBRACE \<Rightarrow>
             Some ((if blockLevel ps = 0 then ps\<lparr>err := Some (UnexpectedBrace (loc tok))\<rparr> else ps)
                     \<lparr>blockLevel := blockLevel ps - 1\<rparr>, True)
         | _ \<Rightarrow> Some (ps\<lparr>err := Some (UnexpectedToken (letter tok) (loc tok))\<rparr>, False))"

fun parse_toplevel :: "'re sed_env \<Rightarrow> nat \<Rightarrow> 're recur" where
  "parse_toplevel env 0 ps = None"
| "parse_toplevel env (Suc fuel) ps =
     (case toks ps of
        [] \<Rightarrow> Some ps
      | tok # ts \<Rightarrow> do {
          (ps1, return) \<leftarrow> toplevel_token env (parse_toplevel env fuel) tok (ps\<lparr>toks := ts\<rparr>);
          if return \<or> err ps1 \<noteq> None then Some ps1 else parse_toplevel env fuel ps1
        })"

fun parse_resolveBranches :: "waitingBranch list \<Rightarrow> 're parseState \<Rightarrow> 're parseState" where
  "parse_resolveBranches [] ps = ps"
| "parse_resolveBranches (w # ws) ps =
     (let target = (if wletter w = ch CHR ''b'' then b_labels ps (wlabel w) else t_labels ps (wlabel w))
      in case target of
           None \<Rightarrow> ps\<lparr>err := Some (UnknownLabel (wlabel w) (wloc w))\<rparr>
         | Some t \<Rightarrow>
             parse_resolveBranches ws
               (ps\<lparr>ins := (ins ps)[wip w := (if wletter w = ch CHR ''b'' then IBranch t else IChangedBranch t)]\<rparr>))"

definition parse_init :: "token list \<Rightarrow> bool \<Rightarrow> 're parseState" where
  "parse_init ts q =
     \<lparr>toks = ts, ins = [IFillNext], branches = [], b_labels = Map.empty, t_labels = Map.empty, blockLevel = 0,
      quiet = q, err = None\<rparr>"

text \<open>The rest of \<open>parse\<close> after the top level; the result is the program, and the tokens left over.\<close>

definition parse_finish :: "'re parseState \<Rightarrow> parse_error + 're instr list" where
  "parse_finish ps =
     (let e = (if err ps = None \<and> blockLevel ps > 0 then Some MissingBrace else err ps)
      in case e of
           Some e \<Rightarrow> Inl e
         | None \<Rightarrow>
             (let n = length (ins ps);
                  ps1 = ps\<lparr>b_labels := (b_labels ps)(end_of_program_label \<mapsto> n),
                           t_labels := (t_labels ps)(end_of_program_label \<mapsto> n)\<rparr>;
                  ps2 = emit ((if quiet ps1 then [] else [IPrint]) @ [IBranch 0]) ps1;
                  ps3 = parse_resolveBranches (branches ps2) ps2
              in case err ps3 of Some e \<Rightarrow> Inl e | None \<Rightarrow> Inr (ins ps3)))"

definition parse :: "'re sed_env \<Rightarrow> token list \<Rightarrow> bool \<Rightarrow> ((parse_error + 're instr list) \<times> token list) option" where
  "parse env ts q =
     map_option (\<lambda>ps. (parse_finish ps, toks ps)) (parse_toplevel env (Suc (length ts)) (parse_init ts q))"

end
