(* ===== verification/Sed_Lex.thy ===== *)
theory Sed_Lex
  imports Sed_Parse
begin

section \<open>Package gosed: the lexer\<close>

text \<open>
  \<^verbatim>\<open>gosed/lex.go\<close>. A \<open>locReader\<close> is the unread text with the position the code keeps; \<open>lastRune\<close>
  holds the bytes \<^verbatim>\<open>bufio.Reader.UnreadRune\<close> can put back. Every reading function returns its
  result, its error and the reader. The loops end because each turn reads a rune or a line.
\<close>

datatype lex_error = LexEOF | EndOfLine rune | EndOfFile rune | InvalidUnread

record locReader =
  rloc :: location
  eol :: bool
  rest :: string
  lastRune :: "string option"

subsection \<open>Digits\<close>

text \<open>\<^verbatim>\<open>unicode.IsDigit\<close>: the category Nd of Unicode 15, the first rune of each block of ten.\<close>

definition digit_blocks :: "rune list" where
  "digit_blocks =
     [48, 1632, 1776, 1984, 2406, 2534, 2662, 2790, 2918, 3046, 3174, 3302, 3430, 3558, 3664, 3792, 3872, 4160,
      4240, 6112, 6160, 6470, 6608, 6784, 6800, 6992, 7088, 7232, 7248, 42528, 43216, 43264, 43472, 43504, 43600,
      44016, 65296, 66720, 68912, 69734, 69872, 69942, 70096, 70384, 70736, 70864, 71248, 71360, 71472, 71904,
      72016, 72784, 73040, 73120, 73552, 92768, 92864, 93008, 120782, 120792, 120802, 120812, 120822, 123200,
      123632, 124144, 125264, 130032]"

definition unicode_IsDigit :: "rune \<Rightarrow> bool" where
  "unicode_IsDigit r \<longleftrightarrow> (\<exists>b \<in> set digit_blocks. b \<le> r \<and> r \<le> b + 9)"

subsection \<open>The location-tracking reader\<close>

definition ReadRune :: "locReader \<Rightarrow> rune \<times> lex_error option \<times> locReader" where
  "ReadRune lr =
     (let (r, w, er) = (if rest lr = [] then (0, 0, Some LexEOF)
                         else (fst (decode_rune (rest lr)), snd (decode_rune (rest lr)), None));
          l1 = (if eol lr then \<lparr>line = line (rloc lr) + 1, pos = 1\<rparr> else (rloc lr)\<lparr>pos := pos (rloc lr) + 1\<rparr>)
      in (r, er, \<lparr>rloc = l1, eol = (r = byte nl), rest = drop w (rest lr),
            lastRune = (if er = None then Some (take w (rest lr)) else None)\<rparr>))"

definition UnreadRune :: "locReader \<Rightarrow> lex_error option \<times> locReader" where
  "UnreadRune lr =
     (let p = pos (rloc lr) - 1;
          l1 = \<lparr>line = (if p = 0 then line (rloc lr) - 1 else line (rloc lr)), pos = p\<rparr>
      in case lastRune lr of
           None \<Rightarrow> (Some InvalidUnread, lr\<lparr>rloc := l1, eol := (p = 0)\<rparr>)
         | Some s \<Rightarrow> (None, lr\<lparr>rloc := l1, eol := (p = 0), rest := s @ rest lr, lastRune := None\<rparr>))"

text \<open>
  \<^verbatim>\<open>bufio.Reader.ReadLine\<close> gives a line longer than its 4096 byte buffer in pieces. A last line
  without its end whose pieces fill the buffer exactly is followed by the end of the input, which
  the loop reports together with the line; a carriage return at the end of a full buffer is put
  back for the next piece.
\<close>

function full_pieces :: "string \<Rightarrow> bool" where
  "full_pieces s =
     (if s = [] then True
      else if length s < 4096 then False
      else full_pieces (drop (if s ! 4095 = cr then 4095 else 4096) s))"
  by pat_completeness auto
termination by (relation "measure length") auto

declare full_pieces.simps [simp del]

definition ReadLine :: "locReader \<Rightarrow> string \<times> lex_error option \<times> locReader" where
  "ReadLine lr =
     (let (nxtl, er, s) =
            (case read_line (rest lr) of
               None \<Rightarrow> ([], Some LexEOF, [])
             | Some (l, s) \<Rightarrow>
                 (l, if nl \<notin> set (rest lr) \<and> full_pieces (rest lr) then Some LexEOF else None, s))
      in (nxtl, er, \<lparr>rloc = (rloc lr)\<lparr>pos := pos (rloc lr) + int (length nxtl)\<rparr>, eol = True, rest = s, lastRune = None\<rparr>))"

lemma ReadRune_shorter: "ReadRune lr = (c, None, lr') \<Longrightarrow> length (rest lr') < length (rest lr)"
  using decode_rune_width [of "rest lr"]
  by (auto simp: ReadRune_def Let_def split: if_splits prod.splits)

lemma ReadRune_err: "ReadRune lr = (c, Some e, lr') \<Longrightarrow> c = 0 \<and> e = LexEOF \<and> rest lr = []"
  by (auto simp: ReadRune_def Let_def split: if_splits prod.splits)

lemma ReadRune_shorter': "ReadRune lr = (c, e, lr') \<Longrightarrow> c \<noteq> 0 \<Longrightarrow> length (rest lr') < length (rest lr)"
  using ReadRune_shorter ReadRune_err by (cases e) blast+

lemma ReadLine_shorter: "ReadLine lr = (l, None, lr') \<Longrightarrow> length (rest lr') < length (rest lr)"
  by (auto simp: ReadLine_def read_line_def Let_def dest: index_byte_bound split: if_splits option.splits)

subsection \<open>White space, numbers and delimited texts\<close>

function skipComment :: "locReader \<Rightarrow> rune \<times> lex_error option \<times> locReader" where
  "skipComment r =
     (case ReadRune r of (cur, er, r1) \<Rightarrow>
        if cur \<noteq> byte nl \<and> er = None then skipComment r1 else (ch CHR '';'', er, r1))"
  by pat_completeness auto
termination by (relation "measure (\<lambda>r. length (rest r))") (auto dest: ReadRune_shorter [OF sym])

function skipWS :: "locReader \<Rightarrow> rune \<times> lex_error option \<times> locReader" where
  "skipWS r =
     (case ReadRune r of (cur, er, r1) \<Rightarrow>
        if cur = byte nl then (ch CHR '';'', er, r1)
        else if cur = ch CHR ''#'' then skipComment r1
        else if \<not> unicode_IsSpace cur then (cur, er, r1)
        else skipWS r1)"
  by pat_completeness auto
termination
  by (relation "measure (\<lambda>r. length (rest r))")
    (auto intro!: ReadRune_shorter' [OF sym] simp: unicode_IsSpace_def)

function readNumber_loop :: "locReader \<Rightarrow> rune \<Rightarrow> string \<Rightarrow> string \<times> lex_error option \<times> locReader" where
  "readNumber_loop r character buffer =
     (if unicode_IsDigit character
      then (case ReadRune r of
              (c, None, r1) \<Rightarrow> readNumber_loop r1 c (buffer @ encode_rune character)
            | (c, Some e, r1) \<Rightarrow> (buffer @ encode_rune character, Some e, r1))
      else (buffer, None, r))"
  by pat_completeness auto
termination by (relation "measure (\<lambda>(r, c, b). length (rest r))") (auto dest: ReadRune_shorter [OF sym])

definition unread_if_ok :: "string \<times> lex_error option \<times> locReader \<Rightarrow> string \<times> lex_error option \<times> locReader" where
  "unread_if_ok x =
     (case x of (s, er, r) \<Rightarrow> if er = None then (let (e, r1) = UnreadRune r in (s, e, r1)) else (s, er, r))"

definition readNumber :: "locReader \<Rightarrow> rune \<Rightarrow> string \<times> lex_error option \<times> locReader" where
  "readNumber r character = unread_if_ok (readNumber_loop r character [])"

text \<open>The errors of the two functions that look for a delimiter, from the last rune read.\<close>

definition delimiter_error :: "rune \<Rightarrow> rune \<Rightarrow> lex_error option \<Rightarrow> lex_error option" where
  "delimiter_error delimiter character er =
     (if character = byte nl then Some (EndOfLine delimiter)
      else if er = Some LexEOF then Some (EndOfFile delimiter) else er)"

function readDelimited_loop :: "rune \<Rightarrow> locReader \<Rightarrow> rune \<Rightarrow> string \<Rightarrow> string \<times> lex_error option \<times> locReader" where
  "readDelimited_loop delimiter r previous buffer =
     (case ReadRune r of (character, er, r1) \<Rightarrow>
        if er = None \<and> character \<noteq> byte nl \<and> (character \<noteq> delimiter \<or> previous = byte bsl)
        then readDelimited_loop delimiter r1 character (buffer @ encode_rune character)
        else (buffer, delimiter_error delimiter character er, r1))"
  by pat_completeness auto
termination by (relation "measure (\<lambda>(d, r, p, b). length (rest r))") (auto dest: ReadRune_shorter [OF sym])

definition readDelimited :: "locReader \<Rightarrow> rune \<Rightarrow> string \<times> lex_error option \<times> locReader" where
  "readDelimited r delimiter = readDelimited_loop delimiter r 0 []"

text \<open>What an escaped rune adds to the replacement, and what counts as the previous rune.\<close>

definition unescape :: "rune \<Rightarrow> string \<times> rune" where
  "unescape c =
     (if c = ch CHR ''r'' then ([cr], c)
      else if c = ch CHR ''t'' then ([tab], c)
      else if c = ch CHR ''n'' then ([nl], c)
      else if c = byte bsl then (encode_rune c, byte sp)
      else (encode_rune c, c))"

function readReplacement_loop :: "rune \<Rightarrow> locReader \<Rightarrow> rune \<Rightarrow> string \<Rightarrow> string \<times> lex_error option \<times> locReader" where
  "readReplacement_loop delimiter r previous buffer =
     (case ReadRune r of (character, er, r1) \<Rightarrow>
        if er \<noteq> None then (buffer, delimiter_error delimiter character er, r1)
        else if character = byte cr then readReplacement_loop delimiter r1 previous buffer
        else if previous = byte bsl
        then (let (s, prev) = unescape character in readReplacement_loop delimiter r1 prev (buffer @ s))
        else if character = delimiter \<or> character = byte nl
        then (buffer, delimiter_error delimiter character er, r1)
        else readReplacement_loop delimiter r1 character
               (buffer @ (if character = byte bsl then [] else encode_rune character)))"
  by pat_completeness auto
termination by (relation "measure (\<lambda>(d, r, p, b). length (rest r))") (auto dest: ReadRune_shorter [OF sym])

definition readReplacement :: "locReader \<Rightarrow> rune \<Rightarrow> string \<times> lex_error option \<times> locReader" where
  "readReplacement r delimiter = readReplacement_loop delimiter r 0 []"

subsection \<open>Texts, names and arguments\<close>

function readMultiLine_loop :: "locReader \<Rightarrow> bool \<Rightarrow> string list \<Rightarrow> string list \<times> locReader" where
  "readMultiLine_loop r first lines =
     (case ReadLine r of
        (l, Some e, r1) \<Rightarrow> (lines, r1)
      | (l, None, r1) \<Rightarrow>
          (let tlen = length l;
               hasSlash = (tlen > 0 \<and> l ! (tlen - 1) = bsl);
               l1 = (if hasSlash then take (tlen - 1) l else l);
               lines1 = (if \<not> first \<or> tlen > 1 then lines @ [l1] else lines)
           in if hasSlash then readMultiLine_loop r1 False lines1 else (lines1, r1)))"
  by pat_completeness auto
termination by (relation "measure (\<lambda>(r, f, ls). length (rest r))") (auto simp: Let_def dest: ReadLine_shorter [OF sym])

fun join_lines :: "string list \<Rightarrow> string" where
  "join_lines [] = []"
| "join_lines [l] = l"
| "join_lines (l # ls) = l @ [nl] @ join_lines ls"

text \<open>The error variable of the loop hides that of the function, which is never set.\<close>

definition readMultiLine :: "locReader \<Rightarrow> string \<times> lex_error option \<times> locReader" where
  "readMultiLine r = (let (lines, r1) = readMultiLine_loop r True [] in (join_lines (lines @ [[]]), None, r1))"

function readIdentifier_loop :: "locReader \<Rightarrow> rune \<Rightarrow> string \<Rightarrow> string \<times> lex_error option \<times> locReader" where
  "readIdentifier_loop r character buffer =
     (if character \<noteq> ch CHR '';'' \<and> \<not> unicode_IsSpace character
      then (case ReadRune r of
              (c, None, r1) \<Rightarrow> readIdentifier_loop r1 c (buffer @ encode_rune character)
            | (c, Some e, r1) \<Rightarrow> (buffer @ encode_rune character, Some e, r1))
      else (buffer, None, r))"
  by pat_completeness auto
termination by (relation "measure (\<lambda>(r, c, b). length (rest r))") (auto dest: ReadRune_shorter [OF sym])

definition readIdentifier :: "locReader \<Rightarrow> string \<times> lex_error option \<times> locReader" where
  "readIdentifier r =
     (case skipWS r of
        (c, None, r1) \<Rightarrow> unread_if_ok (readIdentifier_loop r1 c [])
      | (c, Some e, r1) \<Rightarrow> ([], Some e, r1))"

definition readSubstitution :: "locReader \<Rightarrow> string list \<times> lex_error option \<times> locReader" where
  "readSubstitution r =
     (case ReadRune r of
        (d, Some e, r1) \<Rightarrow> ([[], [], []], Some e, r1)
      | (d, None, r1) \<Rightarrow>
          (case readDelimited r1 d of
             (rx, Some e, r2) \<Rightarrow> ([rx, [], []], Some e, r2)
           | (rx, None, r2) \<Rightarrow>
               (case readReplacement r2 d of
                  (repl, Some e, r3) \<Rightarrow> ([rx, repl, []], Some e, r3)
                | (repl, None, r3) \<Rightarrow> (case readIdentifier r3 of (mods, e, r4) \<Rightarrow> ([rx, repl, mods], e, r4)))))"

definition readTranslation :: "locReader \<Rightarrow> string list \<times> lex_error option \<times> locReader" where
  "readTranslation r =
     (case ReadRune r of
        (d, Some e, r1) \<Rightarrow> ([[], []], Some e, r1)
      | (d, None, r1) \<Rightarrow>
          (case readDelimited r1 d of
             (a, Some e, r2) \<Rightarrow> ([a, []], Some e, r2)
           | (a, None, r2) \<Rightarrow> (case readDelimited r2 d of (b, e, r3) \<Rightarrow> ([a, b], e, r3))))"

declare skipComment.simps [simp del] skipWS.simps [simp del] readNumber_loop.simps [simp del]
  readDelimited_loop.simps [simp del] readReplacement_loop.simps [simp del] readMultiLine_loop.simps [simp del]
  readIdentifier_loop.simps [simp del]

subsection \<open>How much is left\<close>

text \<open>\<open>unread_len r\<close> bounds what is left after the last rune is put back.\<close>

definition unread_len :: "locReader \<Rightarrow> nat" where
  "unread_len r = length (rest r) + (case lastRune r of None \<Rightarrow> 0 | Some s \<Rightarrow> length s)"

lemma rest_le_back: "length (rest r) \<le> unread_len r"
  by (simp add: unread_len_def)

lemma ReadRune_back: "ReadRune r = (c, e, r1) \<Longrightarrow> unread_len r1 \<le> length (rest r)"
  by (auto simp: ReadRune_def unread_len_def Let_def split: if_splits prod.splits)

lemma UnreadRune_back: "UnreadRune r = (e, r1) \<Longrightarrow> length (rest r1) \<le> unread_len r"
  by (auto simp: UnreadRune_def unread_len_def Let_def split: option.splits)

lemma skipComment_back: "skipComment r = (c, e, r1) \<Longrightarrow> unread_len r1 \<le> length (rest r)"
proof (induction r rule: skipComment.induct)
  case (1 r)
  obtain cur er r2 where rd: "ReadRune r = (cur, er, r2)" by (cases "ReadRune r")
  have "length (rest r2) \<le> length (rest r)" using ReadRune_back [OF rd] rest_le_back [of r2] by simp
  then show ?case using 1 rd ReadRune_back [OF rd] by (fastforce simp: skipComment.simps [of r] split: if_splits)
qed

lemma skipWS_back: "skipWS r = (c, e, r1) \<Longrightarrow> unread_len r1 \<le> length (rest r)"
proof (induction r rule: skipWS.induct)
  case (1 r)
  obtain cur er r2 where rd: "ReadRune r = (cur, er, r2)" by (cases "ReadRune r")
  have "length (rest r2) \<le> length (rest r)" using ReadRune_back [OF rd] rest_le_back [of r2] by simp
  then show ?case using 1 rd ReadRune_back [OF rd] skipComment_back [of r2 c e r1]
    by (fastforce simp: skipWS.simps [of r] split: if_splits)
qed

lemma skipComment_shorter: "skipComment r = (c, None, r1) \<Longrightarrow> length (rest r1) < length (rest r)"
proof (induction r rule: skipComment.induct)
  case (1 r)
  obtain cur er r2 where rd: "ReadRune r = (cur, er, r2)" by (cases "ReadRune r")
  then show ?case using 1 ReadRune_shorter [of r cur r2] by (fastforce simp: skipComment.simps [of r] split: if_splits)
qed

lemma skipWS_shorter: "skipWS r = (c, None, r1) \<Longrightarrow> length (rest r1) < length (rest r)"
proof (induction r rule: skipWS.induct)
  case (1 r)
  obtain cur er r2 where rd: "ReadRune r = (cur, er, r2)" by (cases "ReadRune r")
  have "length (rest r2) \<le> length (rest r)" using ReadRune_back [OF rd] rest_le_back [of r2] by simp
  then show ?case using 1 rd ReadRune_shorter [of r cur r2] skipComment_shorter [of r2 c r1]
    by (fastforce simp: skipWS.simps [of r] split: if_splits)
qed

lemma readNumber_back: "readNumber_loop r c b = (s, e, r1) \<Longrightarrow> unread_len r1 \<le> unread_len r"
proof (induction r c b rule: readNumber_loop.induct)
  case (1 r c b)
  obtain cur er r2 where rd: "ReadRune r = (cur, er, r2)" by (cases "ReadRune r")
  then show ?case using 1 ReadRune_back [OF rd] rest_le_back [of r]
    by (fastforce simp: readNumber_loop.simps [of r] split: if_splits option.splits)
qed

lemma readIdentifier_back: "readIdentifier_loop r c b = (s, e, r1) \<Longrightarrow> unread_len r1 \<le> unread_len r"
proof (induction r c b rule: readIdentifier_loop.induct)
  case (1 r c b)
  obtain cur er r2 where rd: "ReadRune r = (cur, er, r2)" by (cases "ReadRune r")
  then show ?case using 1 ReadRune_back [OF rd] rest_le_back [of r]
    by (fastforce simp: readIdentifier_loop.simps [of r] split: if_splits option.splits)
qed

lemma readDelimited_back: "readDelimited_loop d r p b = (s, e, r1) \<Longrightarrow> unread_len r1 \<le> length (rest r)"
proof (induction d r p b rule: readDelimited_loop.induct)
  case (1 d r p b)
  obtain cur er r2 where rd: "ReadRune r = (cur, er, r2)" by (cases "ReadRune r")
  have "length (rest r2) \<le> length (rest r)" using ReadRune_back [OF rd] rest_le_back [of r2] by simp
  then show ?case using 1 rd ReadRune_back [OF rd] by (fastforce simp: readDelimited_loop.simps [of d r] split: if_splits)
qed

lemma readReplacement_back: "readReplacement_loop d r p b = (s, e, r1) \<Longrightarrow> unread_len r1 \<le> length (rest r)"
proof (induction d r p b rule: readReplacement_loop.induct)
  case (1 d r p b)
  obtain cur er r2 where rd: "ReadRune r = (cur, er, r2)" by (cases "ReadRune r")
  have "length (rest r2) \<le> length (rest r)" using ReadRune_back [OF rd] rest_le_back [of r2] by simp
  then show ?case using 1 rd ReadRune_back [OF rd]
    by (fastforce simp: readReplacement_loop.simps [of d r] Let_def split: if_splits prod.splits)
qed

lemma readMultiLine_back: "readMultiLine_loop r f ls = (s, r1) \<Longrightarrow> length (rest r1) \<le> length (rest r)"
proof (induction r f ls rule: readMultiLine_loop.induct)
  case (1 r f ls)
  obtain l er r2 where rd: "ReadLine r = (l, er, r2)" by (cases "ReadLine r")
  have "length (rest r2) \<le> length (rest r)"
    using rd by (auto simp: ReadLine_def read_line_def Let_def split: if_splits option.splits)
  then show ?case using 1 rd by (fastforce simp: readMultiLine_loop.simps [of r] Let_def split: if_splits option.splits)
qed

subsection \<open>The token stream\<close>

definition tok :: "location \<Rightarrow> tok_type \<Rightarrow> rune \<Rightarrow> string list \<Rightarrow> token" where
  "tok l ty cur as = \<lparr>loc = l, ttyp = ty, letter = cur, args = as\<rparr>"

text \<open>The switch of \<open>lex\<close>: the token sent for the rune \<open>cur\<close>, the error and the reader.\<close>

definition lex_token :: "rune \<Rightarrow> locReader \<Rightarrow> token \<times> lex_error option \<times> locReader" where
  "lex_token cur r =
     (let l = rloc r;
          one = (\<lambda>ty (s, e, r1). (tok l ty cur [s], e, r1));
          many = (\<lambda>(ss, e, r1). (tok l tok_CMD cur ss, e, r1))
      in if cur = ch CHR '';'' then (tok l tok_EOL cur [], None, r)
         else if cur = ch CHR '','' then (tok l tok_COMMA cur [], None, r)
         else if cur = ch CHR ''{'' then (tok l tok_LBRACE cur [], None, r)
         else if cur = ch CHR ''}'' then (tok l tok_RBRACE cur [], None, r)
         else if cur = ch CHR ''!'' then (tok l tok_BANG cur [], None, r)
         else if cur = ch CHR ''/'' then one tok_RX (readDelimited r (ch CHR ''/''))
         else if cur = ch CHR ''$'' then (tok l tok_DOLLAR cur [], None, r)
         else if cur = ch CHR '':'' then one tok_LABEL (readIdentifier r)
         else if cur = ch CHR ''b'' \<or> cur = ch CHR ''t'' then one tok_CMD (readIdentifier r)
         else if cur = ch CHR ''s'' then many (readSubstitution r)
         else if cur = ch CHR ''y'' then many (readTranslation r)
         else if cur = ch CHR ''c'' then one tok_CHANGE (readMultiLine r)
         else if cur = ch CHR ''i'' \<or> cur = ch CHR ''a'' then one tok_CMD (readMultiLine r)
         else if cur = ch CHR ''r'' \<or> cur = ch CHR ''w'' then one tok_CMD (readIdentifier r)
         else if unicode_IsDigit cur then one tok_NUM (readNumber r cur)
         else (tok l tok_CMD cur [], None, r))"

lemma unread_if_ok_len: "unread_if_ok (s0, e0, r0) = (s, e, r1) \<Longrightarrow> length (rest r1) \<le> unread_len r0"
  using UnreadRune_back [of r0] rest_le_back [of r0] by (auto simp: unread_if_ok_def split: if_splits prod.splits)

lemma readNumber_len:
  assumes "unicode_IsDigit c" "readNumber r c = (s, e, r1)"
  shows "length (rest r1) \<le> length (rest r)"
proof -
  obtain c2 er r2 where rd: "ReadRune r = (c2, er, r2)" by (cases "ReadRune r")
  obtain s3 e3 r3 where l: "readNumber_loop r c [] = (s3, e3, r3)" by (cases "readNumber_loop r c []")
  have "unread_len r3 \<le> length (rest r)"
    using l rd assms(1) ReadRune_back [OF rd] readNumber_back [of r2 c2 "encode_rune c" s3 e3 r3]
    by (auto simp: readNumber_loop.simps [of r] split: option.splits)
  then show ?thesis using assms(2) l unread_if_ok_len [of s3 e3 r3 s e r1] by (simp add: readNumber_def)
qed

lemma readIdentifier_len:
  assumes "readIdentifier r = (s, e, r1)"
  shows "length (rest r1) \<le> length (rest r)"
proof -
  obtain c er r2 where ws: "skipWS r = (c, er, r2)" by (cases "skipWS r")
  obtain s3 e3 r3 where l: "readIdentifier_loop r2 c [] = (s3, e3, r3)" by (cases "readIdentifier_loop r2 c []")
  have "unread_len r3 \<le> length (rest r)" using readIdentifier_back [OF l] skipWS_back [OF ws] by simp
  moreover have "length (rest r2) \<le> length (rest r)" using rest_le_back [of r2] skipWS_back [OF ws] by simp
  ultimately show ?thesis
    using assms ws l unread_if_ok_len [of s3 e3 r3 s e r1] by (auto simp: readIdentifier_def split: option.splits)
qed

lemma readDelimited_len: "readDelimited r d = (s, e, r1) \<Longrightarrow> length (rest r1) \<le> length (rest r)"
  unfolding readDelimited_def using readDelimited_back rest_le_back order.trans by metis

lemma readReplacement_len: "readReplacement r d = (s, e, r1) \<Longrightarrow> length (rest r1) \<le> length (rest r)"
  unfolding readReplacement_def using readReplacement_back rest_le_back order.trans by metis

lemma ReadRune_len: "ReadRune r = (c, e, r1) \<Longrightarrow> length (rest r1) \<le> length (rest r)"
  using ReadRune_back rest_le_back order.trans by metis

lemma readMultiLine_len: "readMultiLine r = (s, e, r1) \<Longrightarrow> length (rest r1) \<le> length (rest r)"
  by (auto simp: readMultiLine_def dest: readMultiLine_back split: prod.splits)

lemmas reader_lens = readIdentifier_len readDelimited_len readReplacement_len ReadRune_len readMultiLine_len

lemma readSubstitution_len: "readSubstitution r = (s, e, r1) \<Longrightarrow> length (rest r1) \<le> length (rest r)"
  by (auto simp: readSubstitution_def split: prod.splits option.splits dest!: reader_lens)

lemma readTranslation_len: "readTranslation r = (s, e, r1) \<Longrightarrow> length (rest r1) \<le> length (rest r)"
  by (auto simp: readTranslation_def split: prod.splits option.splits dest!: reader_lens)

lemma lex_token_len: "lex_token cur r = (t, e, r1) \<Longrightarrow> length (rest r1) \<le> length (rest r)"
  unfolding lex_token_def Let_def
  by (auto split: if_splits prod.splits dest: reader_lens readSubstitution_len readTranslation_len readNumber_len)

text \<open>The loop: the tokens sent, and the error with the position of the command it stopped at.\<close>

function lex_loop :: "locReader \<Rightarrow> location \<Rightarrow> token list \<times> lex_error \<times> location" where
  "lex_loop r topLoc =
     (case skipWS r of
        (cur, Some e, r1) \<Rightarrow> ([], e, topLoc)
      | (cur, None, r1) \<Rightarrow>
          (case lex_token cur r1 of
             (t, Some e, r2) \<Rightarrow> ([t], e, rloc r1)
           | (t, None, r2) \<Rightarrow>
               (let (ts, e, l) = lex_loop r2 (rloc r1) in (t # ts, e, l))))"
  by pat_completeness auto
termination
  by (relation "measure (\<lambda>(r, l). length (rest r))")
    (auto dest!: skipWS_shorter [OF sym] lex_token_len [OF sym])

declare lex_loop.simps [simp del]

definition new_reader :: "string \<Rightarrow> locReader" where
  "new_reader s = \<lparr>rloc = \<lparr>line = 0, pos = 0\<rparr>, eol = True, rest = s, lastRune = None\<rparr>"

text \<open>The tokens put on the channel and what is put on the error channel.\<close>

definition lex :: "string \<Rightarrow> token list \<times> (lex_error \<times> location) option" where
  "lex s =
     (let (ts, e, l) = lex_loop (new_reader s) \<lparr>line = 0, pos = 0\<rparr>
      in (ts, if e = LexEOF then None else Some (e, l)))"

end
