(* ===== verification/Sed_Lazy.thy ===== *)
theory Sed_Lazy
  imports Sed_VM
begin

section \<open>Package gosed: lazy reading\<close>

text \<open>
  The machine writes into whatever slice its reader passes and keeps the rest for the next call.
  The reference is the same machine with a slice that never fills: \<open>ample v\<close> starts it from the
  state of \<open>v\<close>. The simulation below shows that the slices do not matter, for programs in which no
  \<open>N\<close> command runs while text is waiting to be appended.
\<close>

definition ample :: "vm \<Rightarrow> vm" where
  "ample v = v\<lparr>room := None, written := [], overflow := []\<rparr>"

definition prepend :: "string \<Rightarrow> result \<Rightarrow> result" where
  "prepend w r = ((fst r)\<lparr>written := w @ written (fst r)\<rparr>, snd r)"

lemmas cmd_defs = cmd_quit_def cmd_swap_def cmd_get_def cmd_hold_def cmd_getapp_def cmd_holdapp_def cmd_branch_def
  cmd_changedBranch_def cmd_deleteFirstLine_def run_simplecond_def run_twocond_def run_appender_def run_writer_def
  run_translate_def next_ip_def

lemmas write_defs = cmd_print_def cmd_printFirstLine_def cmd_lineno_def run_changer_def run_inserter_def next_ip_def
  Let_def

subsection \<open>The reference machine only appends\<close>

lemma writeString_ample:
  "room v = None \<Longrightarrow> writeString v s = (v\<lparr>written := written v @ s\<rparr>, None)"
  by (simp add: writeString_def)

lemma isMet_written [simp]: "isMet env c (v\<lparr>written := w\<rparr>) = isMet env c v"
  by (cases c) (simp_all add: isMet_def)

lemma refill_written: "refill (v\<lparr>written := w\<rparr>) = (refill v)\<lparr>written := w\<rparr>"
  by (simp add: refill_def next_ip_def Let_def split: option.split prod.split)

lemma refill_fields [simp]:
  "room (refill v) = room v" "written (refill v) = written v" "overflow (refill v) = overflow v" "appl (refill v) = appl v"
  by (simp_all add: refill_def next_ip_def Let_def split: option.split prod.split)

lemma fillNext_ample:
  assumes "room v = None"
  shows "cmd_fillNext v = (let u = v\<lparr>written := written v @ (case appl v of None \<Rightarrow> [] | Some a \<Rightarrow> a), appl := None\<rparr>
    in if lastl v then (u, Some EOF) else (refill u, None))"
proof (cases "appl v")
  case None
  have "v\<lparr>written := written v @ [], appl := None\<rparr> = v" using None by (cases v) simp
  with None show ?thesis by (simp only: cmd_fillNext_def Let_def option.case) simp
next
  case (Some a)
  then show ?thesis using assms by (simp add: cmd_fillNext_def Let_def writeString_ample)
qed

lemma cmd_print_ample:
  "room v = None \<Longrightarrow> cmd_print v = (v\<lparr>ip := ip v + 1, written := written v @ pat v @ [nl]\<rparr>, None)"
  by (simp add: cmd_print_def next_ip_def writeString_ample Let_def)

text \<open>A substitution as a function of the pattern space: a panic, no match, or the new pattern space.\<close>

definition subst_new :: "'re sed_env \<Rightarrow> 're \<Rightarrow> string \<Rightarrow> int \<Rightarrow> bool \<Rightarrow> string \<Rightarrow> string option option" where
  "subst_new env re repl which gflag s =
     (let matches = rx_find env re s
      in if int (length matches) \<le> which then Some None
         else if which < 0 then None
         else map_option Some (subst_replaceAll env re repl s 0
                (if gflag then drop (nat which) matches else [matches ! nat which])))"

lemma run_subst_new:
  "run_subst env re repl which p g v = (case subst_new env re repl which g (pat v) of
     None \<Rightarrow> None
   | Some None \<Rightarrow> Some (next_ip v, None)
   | Some (Some new) \<Rightarrow>
       if p then Some ((fst (cmd_print ((next_ip v)\<lparr>pat := new, modified := True\<rparr>)))
                   \<lparr>ip := ip (fst (cmd_print ((next_ip v)\<lparr>pat := new, modified := True\<rparr>))) - 1\<rparr>,
                 snd (cmd_print ((next_ip v)\<lparr>pat := new, modified := True\<rparr>)))
       else Some ((next_ip v)\<lparr>pat := new, modified := True\<rparr>, None))"
  by (simp add: run_subst_def subst_new_def next_ip_def Let_def split: Option.bind_split prod.split option.split)

lemma step_written:
  assumes "room v = None"
  shows "step env i (v\<lparr>written := w\<rparr>) = map_option (prepend w) (step env i (v\<lparr>written := []\<rparr>))"
proof (cases i)
  case (ISubst re repl which p g)
  then show ?thesis using assms
    by (simp add: step_def run_subst_new prepend_def next_ip_def cmd_print_ample split: option.split)
next
  case (IChanger t g)
  then show ?thesis using assms
    by (cases g) (simp_all add: step_def run_changer_def prepend_def writeString_ample isLastLine_def Let_def)
next
  case IFillNext
  then show ?thesis using assms
    by (simp add: step_def fillNext_ample prepend_def refill_def next_ip_def Let_def split: option.split)
next
  case IFillNextAppend
  then show ?thesis using assms
    by (simp add: step_def cmd_fillNextAppend_def fillNext_ample prepend_def refill_def next_ip_def Let_def split: option.split)
qed (use assms in \<open>simp_all add: step_def cmd_defs write_defs prepend_def writeString_ample split: option.split prod.split\<close>)

lemma step_ample:
  assumes "step env i v = Some (v', e)" "room v = None"
  shows "room v' = None \<and> overflow v' = overflow v \<and> e \<noteq> Some FullBuffer"
proof (cases i)
  case (ISubst re repl which p g)
  then show ?thesis using assms
    by (auto simp: step_def run_subst_new next_ip_def cmd_print_ample split: option.splits if_splits)
next
  case (IChanger t g)
  then show ?thesis using assms by (auto simp: step_def run_changer_def writeString_ample Let_def split: if_splits)
next
  case IFillNext
  then show ?thesis using assms by (auto simp: step_def fillNext_ample Let_def split: if_splits)
next
  case IFillNextAppend
  then show ?thesis using assms by (auto simp: step_def cmd_fillNextAppend_def fillNext_ample Let_def split: if_splits)
qed (use assms in \<open>auto simp: step_def cmd_defs write_defs writeString_ample split: option.splits prod.splits if_splits\<close>)

subsection \<open>One step with a slice\<close>

text \<open>
  \<open>matches v r u\<close>: the result \<open>r\<close> of a step from \<open>v\<close> and the result \<open>u\<close> of the reference agree:
  either nothing overflowed, or the step wrote everything and its tail waits in the overflow.
\<close>

definition matches :: "vm \<Rightarrow> result \<Rightarrow> result \<Rightarrow> bool" where
  "matches v r u \<longleftrightarrow> (\<exists>out. written (fst r) = written v @ out
     \<and> fst u = (ample (fst r))\<lparr>written := out @ overflow (fst r)\<rparr> \<and> room (fst r) \<noteq> None
     \<and> (if snd r = Some FullBuffer then snd u = None else overflow (fst r) = [] \<and> snd u = snd r))"

lemma matchesI:
  "written v' = written v @ out \<Longrightarrow> u = (ample v')\<lparr>written := out @ overflow v'\<rparr> \<Longrightarrow> room v' \<noteq> None \<Longrightarrow>
   (if e = Some FullBuffer then eu = None else overflow v' = [] \<and> eu = e) \<Longrightarrow> matches v (v', e) (u, eu)"
  by (auto simp: matches_def)

lemma writeString_matches:
  assumes "room v = Some n" "overflow v = []" "written v0 = written v"
  shows "matches v0 (writeString v s) (writeString (ample v) s)"
proof (cases "n < length s")
  case True
  then show ?thesis using assms unfolding matches_def
    by (intro exI [of _ "take n s"]) (simp add: writeString_def ample_def)
next
  case False
  then show ?thesis using assms unfolding matches_def
    by (intro exI [of _ s]) (simp add: writeString_def ample_def)
qed

lemma write2_matches:
  assumes "room v = Some n" "overflow v = []" "t \<noteq> []" "written v0 = written v"
  shows "matches v0 (writeString (fst (writeString v s)) t) (writeString (fst (writeString (ample v) s)) t)"
proof (cases "n < length s")
  case True
  then show ?thesis using assms unfolding matches_def
    by (intro exI [of _ "take n s"]) (simp add: writeString_def ample_def)
next
  case False
  then show ?thesis using assms unfolding matches_def
    by (cases "n - length s < length t")
      (intro exI [of _ "s @ take (n - length s) t"] exI [of _ "s @ t"]; simp add: writeString_def ample_def)+
qed

lemma matches_upd:
  assumes "matches v r u"
  shows "matches v ((fst r)\<lparr>ip := k\<rparr>, snd r) ((fst u)\<lparr>ip := k\<rparr>, snd u)"
  using assms by (auto simp: matches_def ample_def)

lemma ample_simps [simp]:
  "pat (ample v) = pat v" "hold (ample v) = hold v" "ip (ample v) = ip v" "lineno (ample v) = lineno v"
  "lastl (ample v) = lastl v" "appl (ample v) = appl v" "cells (ample v) = cells v" "modified (ample v) = modified v"
  "nxtl (ample v) = nxtl v" "input (ample v) = input v" "room (ample v) = None" "written (ample v) = []"
  "overflow (ample v) = []" "files (ample v) = files v" "ample (ample v) = ample v"
  by (simp_all add: ample_def)

lemma ample_upds:
  "ample (v\<lparr>ip := k\<rparr>) = (ample v)\<lparr>ip := k\<rparr>" "ample (v\<lparr>pat := s\<rparr>) = (ample v)\<lparr>pat := s\<rparr>"
  "ample (v\<lparr>modified := b\<rparr>) = (ample v)\<lparr>modified := b\<rparr>" "ample (next_ip v) = next_ip (ample v)"
  "ample (v\<lparr>written := w\<rparr>) = ample v" "ample (v\<lparr>overflow := w\<rparr>) = ample v" "ample (v\<lparr>room := p\<rparr>) = ample v"
  by (simp_all add: ample_def next_ip_def)

lemma next_ip_simps [simp]:
  "pat (next_ip v) = pat v" "lineno (next_ip v) = lineno v" "room (next_ip v) = room v"
  "written (next_ip v) = written v" "overflow (next_ip v) = overflow v"
  by (simp_all add: next_ip_def)

lemma isMet_ample [simp]: "isMet env c (ample v) = isMet env c v"
  by (cases c) (simp_all add: isMet_def)

lemma print_matches:
  assumes "room v = Some n" "overflow v = []" "written v0 = written v"
  shows "matches v0 (cmd_print v) (cmd_print (ample v))"
  using write2_matches [of "next_ip v" n "[nl]" v0 "pat v"] assms
  by (simp add: cmd_print_def Let_def ample_upds)

lemma silent_matches:
  "room v' \<noteq> None \<Longrightarrow> overflow v' = [] \<Longrightarrow> written v' = written v \<Longrightarrow> e \<noteq> Some FullBuffer \<Longrightarrow> u = ample v' \<Longrightarrow>
   matches v (v', e) (u, e)"
  by (intro matchesI [of _ _ "[]"]) (auto simp: ample_def)

lemma refill_matches:
  assumes "room v = Some n" "overflow v = []"
  shows "matches v (refill v, None) (refill (ample v), None)"
  by (rule silent_matches)
    (use assms in \<open>simp_all add: ample_def refill_def next_ip_def Let_def split: option.split\<close>)

text \<open>The step a full slice can interrupt is the one that fills the pattern space.\<close>

definition interrupted :: "'re sed_env \<Rightarrow> 're instr \<Rightarrow> vm \<Rightarrow> result \<Rightarrow> bool" where
  "interrupted env i v r \<longleftrightarrow> snd r = Some FullBuffer \<and> ip (fst r) = ip v \<and>
     (\<exists>out. written (fst r) = written v @ out
       \<and> step env i (ample v) = step env i ((ample (fst r))\<lparr>written := out @ overflow (fst r)\<rparr>))"

lemma fillNext_step:
  assumes "room v = Some n" "overflow v = []"
  shows "matches v (cmd_fillNext v) (cmd_fillNext (ample v)) \<or> interrupted env IFillNext v (cmd_fillNext v)"
proof (cases "appl v")
  case None
  show ?thesis
  proof (cases "lastl v")
    case True
    then have "matches v (v, Some EOF) (ample v, Some EOF)" using assms by (intro silent_matches) simp_all
    with True None show ?thesis by (simp add: cmd_fillNext_def)
  next
    case False
    with None refill_matches [OF assms] show ?thesis by (simp add: cmd_fillNext_def)
  qed
next
  case (Some a)
  show ?thesis
  proof (cases "n < length a")
    case True
    then show ?thesis using Some assms
      by (intro disjI2) (auto simp: interrupted_def step_def cmd_fillNext_def writeString_def ample_def
          refill_def next_ip_def Let_def split: option.split)
  next
    case False
    let ?w = "v\<lparr>written := written v @ a, room := Some (n - length a), appl := None\<rparr>"
    have f: "cmd_fillNext v = (if lastl v then (?w, Some EOF) else (refill ?w, None))"
      using Some assms False by (simp add: cmd_fillNext_def writeString_def Let_def)
    have g: "cmd_fillNext (ample v) = (let u = (ample ?w)\<lparr>written := a\<rparr> in if lastl v then (u, Some EOF) else (refill u, None))"
      using Some by (simp add: fillNext_ample) (simp add: ample_def refill_def next_ip_def Let_def split: option.split)
    have "matches v (refill ?w, None) (refill ((ample ?w)\<lparr>written := a\<rparr>), None)"
      by (rule matchesI [of _ _ a])
        (use assms in \<open>simp_all add: ample_def refill_def next_ip_def Let_def split: option.split\<close>)
    moreover have "matches v (?w, Some EOF) ((ample ?w)\<lparr>written := a\<rparr>, Some EOF)"
      by (rule matchesI [of _ _ a]) (use assms in \<open>simp_all add: ample_def\<close>)
    ultimately show ?thesis unfolding f g by (simp add: Let_def)
  qed
qed

definition step_sim :: "'re sed_env \<Rightarrow> 're instr \<Rightarrow> vm \<Rightarrow> bool" where
  "step_sim env i v \<longleftrightarrow> (case step env i v of
       None \<Rightarrow> step env i (ample v) = None
     | Some r \<Rightarrow> (\<exists>u. step env i (ample v) = Some u \<and> matches v r u) \<or> interrupted env i v r)"

lemma step_sim_silent:
  assumes "room v = Some n" "overflow v = []" "step env i v = Some (v', e)" "e \<noteq> Some FullBuffer"
    "step env i (ample v) = Some (ample v', e)" "room v' = room v" "overflow v' = overflow v" "written v' = written v"
  shows "step_sim env i v"
  using assms silent_matches [of v' v e "ample v'"] by (auto simp: step_sim_def)

lemma step_sim_all:
  assumes v: "room v = Some n" "overflow v = []" and N: "i \<noteq> IFillNextAppend \<or> appl v = None"
  shows "step_sim env i v"
proof (cases i)
  case IPrint
  then show ?thesis using print_matches [OF v refl] by (simp add: step_sim_def step_def)
next
  case IPrintFirstLine
  let ?idx = "case index_byte (pat v) nl of None \<Rightarrow> length (pat v) | Some i \<Rightarrow> i"
  have "matches v (writeString (fst (writeString (next_ip v) (take ?idx (pat v)))) [nl])
      (writeString (fst (writeString (ample (next_ip v)) (take ?idx (pat v)))) [nl])"
    using v by (intro write2_matches) (simp_all add: next_ip_def)
  then show ?thesis using IPrintFirstLine
    by (cases "index_byte (pat v) nl") (simp_all add: step_sim_def step_def cmd_printFirstLine_def Let_def ample_upds)
next
  case ILineno
  have "matches v (writeString (next_ip v) (itoa (lineno v) @ [nl])) (writeString (ample (next_ip v)) (itoa (lineno v) @ [nl]))"
    using v by (intro writeString_matches) (simp_all add: next_ip_def)
  then show ?thesis using ILineno
    by (simp add: step_sim_def step_def cmd_lineno_def Let_def ample_upds)
next
  case (IInserter t)
  have "matches v (writeString (next_ip v) t) (writeString (ample (next_ip v)) t)"
    using v by (intro writeString_matches) (simp_all add: next_ip_def)
  then show ?thesis using IInserter by (simp add: step_sim_def step_def run_inserter_def ample_upds)
next
  case (IChanger t g)
  have w: "matches v (writeString (v\<lparr>ip := 0\<rparr>) t) (writeString (ample (v\<lparr>ip := 0\<rparr>)) t)"
    using v by (intro writeString_matches) simp_all
  have s: "matches v (v\<lparr>ip := 0\<rparr>, None) (ample (v\<lparr>ip := 0\<rparr>), None)" using v by (intro silent_matches) simp_all
  show ?thesis using IChanger w s
    by (cases g) (simp_all add: step_sim_def step_def run_changer_def ample_upds isLastLine_def Let_def)
next
  case IFillNext
  then show ?thesis using fillNext_step [OF v, of env] by (simp add: step_sim_def step_def)
next
  case IFillNextAppend
  then have a: "appl v = None" using N by simp
  show ?thesis
  proof (cases "lastl v")
    case True
    then show ?thesis using v a IFillNextAppend
      by (intro step_sim_silent [OF v, of _ _ "v\<lparr>pat := pat v @ [nl] @ pat v\<rparr>" "Some EOF"])
        (simp_all add: step_def cmd_fillNextAppend_def cmd_fillNext_def ample_upds)
  next
    case False
    have "refill (ample v) = ample (refill v)" by (simp add: ample_def refill_def next_ip_def Let_def split: option.split)
    then show ?thesis using v a IFillNextAppend False
      by (intro step_sim_silent [OF v, of _ _ "(refill v)\<lparr>pat := pat v @ [nl] @ pat (refill v)\<rparr>" None])
        (simp_all add: step_def cmd_fillNextAppend_def cmd_fillNext_def ample_upds)
  qed
next
  case (ISubst re repl which p g)
  show ?thesis
  proof (cases "subst_new env re repl which g (pat v)")
    case None
    then show ?thesis using ISubst by (simp add: step_sim_def step_def run_subst_new)
  next
    case (Some new)
    show ?thesis
    proof (cases new)
      case None
      then show ?thesis using ISubst Some v
        by (intro step_sim_silent [OF v, of _ _ "next_ip v" None]) (simp_all add: step_def run_subst_new ample_upds next_ip_def)
    next
      case (Some s)
      let ?w = "(next_ip v)\<lparr>pat := s, modified := True\<rparr>"
      have m: "matches v (cmd_print ?w) (cmd_print (ample ?w))"
        using v by (intro print_matches [of _ n]) (simp_all add: next_ip_def)
      have aw: "ample ?w = (next_ip (ample v))\<lparr>pat := s, modified := True\<rparr>" by (simp add: ample_upds)
      have k: "ip (fst (cmd_print ?w)) = ip v + 2" "ip (fst (cmd_print (ample ?w))) = ip v + 2"
        by (simp_all add: cmd_print_def next_ip_def writeString_def ample_def Let_def split: option.split)
      have "matches v (?w, None) (ample ?w, None)" using v by (intro silent_matches) (simp_all add: next_ip_def)
      then show ?thesis
        using ISubst \<open>subst_new env re repl which g (pat v) = Some new\<close> Some matches_upd [OF m, of "1 + ip v"] k
        by (cases p) (simp_all add: step_sim_def step_def run_subst_new aw)
    qed
  qed
qed (rule step_sim_silent [OF v, of env i "fst (the (step env i v))" "snd (the (step env i v))"]; use v in \<open>auto simp: step_def cmd_defs ample_def isMet_def Let_def split: option.splits prod.splits condition.splits if_splits\<close>)+

subsection \<open>Runs of bounded length\<close>

fun run_n :: "nat \<Rightarrow> 're sed_env \<Rightarrow> 're instr list \<Rightarrow> vm \<Rightarrow> (vm \<times> sed_err) res" where
  "run_n 0 env ins v = None"
| "run_n (Suc n) env ins v =
     (if 0 \<le> ip v \<and> ip v < int (length ins)
      then (case step env (ins ! nat (ip v)) v of
              None \<Rightarrow> Some Panic
            | Some (v', Some e) \<Rightarrow> Some (Ret (v', e))
            | Some (v', None) \<Rightarrow> run_n n env ins v')
      else Some Panic)"

lemma run_of_run_n: "run_n n env ins v = Some y \<Longrightarrow> run env ins v = Some y"
  by (induction n arbitrary: v) (simp, subst run.simps, auto split: option.splits prod.splits if_splits)

lemma run_n_of_run:
  assumes "run env ins v = Some y"
  shows "\<exists>n. run_n n env ins v = Some y"
proof (rule run.raw_induct [OF _ assms, where P = "\<lambda>env ins v y. \<exists>n. run_n n env ins v = Some y"])
  fix rn env ins v y
  assume ih: "\<And>(env :: 're sed_env) ins v y. rn env ins v = Some y \<Longrightarrow> \<exists>n. run_n n env ins v = Some y"
    and body: "(if 0 \<le> ip v \<and> ip v < int (length ins)
      then (case step env (ins ! nat (ip v)) v of
              None \<Rightarrow> Some Panic
            | Some (v', None) \<Rightarrow> rn env ins v'
            | Some (v', Some e) \<Rightarrow> Some (Ret (v', e)))
      else Some Panic) = Some y"
  show "\<exists>n. run_n n env ins v = Some y"
  proof (cases "0 \<le> ip v \<and> ip v < int (length ins) \<and> (\<exists>v'. step env (ins ! nat (ip v)) v = Some (v', None))")
    case True
    then obtain v' where v': "step env (ins ! nat (ip v)) v = Some (v', None)" by blast
    then have "rn env ins v' = Some y" using body True by simp
    then obtain n where "run_n n env ins v' = Some y" using ih by blast
    then show ?thesis using True v' by (intro exI [of _ "Suc n"]) simp
  next
    case False
    then show ?thesis using body by (intro exI [of _ "Suc 0"]) (auto split: option.splits prod.splits if_splits)
  qed
qed

lemma run_iff: "run env ins v = Some y \<longleftrightarrow> (\<exists>n. run_n n env ins v = Some y)"
  using run_of_run_n run_n_of_run by metis

definition prepend_res :: "string \<Rightarrow> (vm \<times> sed_err) res \<Rightarrow> (vm \<times> sed_err) res" where
  "prepend_res w r = bind_res r (\<lambda>(u, e). Some (Ret (u\<lparr>written := w @ written u\<rparr>, e)))"

lemma prepend_res_simps [simp]:
  "prepend_res w None = None" "prepend_res w (Some Panic) = Some Panic"
  "prepend_res w (Some (Ret (u, e))) = Some (Ret (u\<lparr>written := w @ written u\<rparr>, e))"
  "prepend_res a (prepend_res b r) = prepend_res (a @ b) r"
  by (simp_all add: prepend_res_def bind_res_def split: option.split outcome.split)

lemma prepend_res_Nil [simp]: "prepend_res [] r = r"
  by (auto simp: prepend_res_def bind_res_def split: option.split outcome.split)

lemma run_n_written:
  "room u = None \<Longrightarrow> run_n n env ins (u\<lparr>written := w\<rparr>) = prepend_res w (run_n n env ins (u\<lparr>written := []\<rparr>))"
proof (induction n arbitrary: u w)
  case (Suc n)
  show ?case
  proof (cases "0 \<le> ip u \<and> ip u < int (length ins)")
    case True
    let ?i = "ins ! nat (ip u)"
    note sw = step_written [OF Suc.prems, of env ?i w]
    show ?thesis
    proof (cases "step env ?i (u\<lparr>written := []\<rparr>)")
      case None
      then show ?thesis using True sw by simp
    next
      case (Some r)
      obtain x e where r: "r = (x, e)" by (cases r)
      have rx: "room x = None" using step_ample [of env ?i "u\<lparr>written := []\<rparr>" x e] Some r Suc.prems by simp
      have "run_n n env ins (x\<lparr>written := w @ written x\<rparr>) = prepend_res w (run_n n env ins x)"
        using Suc.IH [OF rx, of "w @ written x"] Suc.IH [OF rx, of "written x"] by simp
      then show ?thesis using True sw Some r by (cases e) (simp_all add: prepend_def)
    qed
  next
    case False
    then show ?thesis by (cases "0 \<le> ip u") auto
  qed
qed simp

lemma run_written:
  assumes "room u = None"
  shows "run env ins (u\<lparr>written := w\<rparr>) = prepend_res w (run env ins (u\<lparr>written := []\<rparr>))"
proof (cases "run env ins (u\<lparr>written := []\<rparr>)")
  case None
  have "run_n n env ins (u\<lparr>written := w\<rparr>) = None" for n
  proof -
    have "run_n n env ins (u\<lparr>written := []\<rparr>) = None" using None run_of_run_n by (metis not_None_eq)
    then show ?thesis by (simp add: run_n_written [OF assms, of n env ins w])
  qed
  then show ?thesis using None run_n_of_run by (metis not_None_eq option.distinct(1) prepend_res_simps(1))
next
  case (Some y)
  then obtain n where "run_n n env ins (u\<lparr>written := []\<rparr>) = Some y" using run_n_of_run by blast
  then have "run_n n env ins (u\<lparr>written := w\<rparr>) = prepend_res w (Some y)"
    by (simp add: run_n_written [OF assms, of n env ins w])
  moreover obtain z where "prepend_res w (Some y) = Some z" by (cases y) auto
  ultimately show ?thesis using run_of_run_n Some by metis
qed

subsection \<open>A run with a slice against the reference\<close>

lemma run_step:
  assumes "0 \<le> ip v" "ip v < int (length ins)"
  shows "run env ins v = (case step env (ins ! nat (ip v)) v of
      None \<Rightarrow> Some Panic | Some (v', Some e) \<Rightarrow> Some (Ret (v', e)) | Some (v', None) \<Rightarrow> run env ins v')"
  using assms by (subst run.simps) simp

lemma ample_written_Nil: "(ample v)\<lparr>written := []\<rparr> = ample v"
  by (cases v) (simp add: ample_def)

lemma run_ample_written:
  "run env ins ((ample v)\<lparr>written := w\<rparr>) = prepend_res w (run env ins (ample v))"
  using run_written [of "ample v" env ins w] by (simp add: ample_written_Nil)

text \<open>What a run from \<open>v\<close> that stopped in \<open>r\<close> says about the reference run from \<open>v\<close>.\<close>

definition run_agrees :: "'re sed_env \<Rightarrow> 're instr list \<Rightarrow> vm \<Rightarrow> (vm \<times> sed_err) outcome \<Rightarrow> bool" where
  "run_agrees env ins v r \<longleftrightarrow> (case r of
       Panic \<Rightarrow> run env ins (ample v) = Some Panic
     | Ret (v', e) \<Rightarrow> (\<exists>out. written v' = written v @ out \<and>
         (if e = FullBuffer then run env ins (ample v) = prepend_res (out @ overflow v') (run env ins (ample v'))
          else overflow v' = [] \<and> run env ins (ample v) = Some (Ret ((ample v')\<lparr>written := out\<rparr>, e)))))"

lemma run_sim:
  assumes "IFillNextAppend \<notin> set ins"
  shows "run_n n env ins v = Some r \<Longrightarrow> room v \<noteq> None \<Longrightarrow> overflow v = [] \<Longrightarrow> run_agrees env ins v r"
proof (induction n arbitrary: v)
  case (Suc n)
  then obtain k where k: "room v = Some k" by auto
  show ?case
  proof (cases "0 \<le> ip v \<and> ip v < int (length ins)")
    case False
    then have "r = Panic" using Suc.prems(1) by auto
    moreover have "run env ins (ample v) = Some Panic" using False by (subst run.simps) auto
    ultimately show ?thesis by (simp add: run_agrees_def)
  next
    case True
    let ?i = "ins ! nat (ip v)"
    have "?i \<noteq> IFillNextAppend" using assms True by (metis nat_less_iff nth_mem)
    then have sim: "step_sim env ?i v" using step_sim_all [OF k Suc.prems(3)] by blast
    have ru: "run env ins x = (case step env ?i x of None \<Rightarrow> Some Panic | Some (v', Some e) \<Rightarrow> Some (Ret (v', e))
        | Some (v', None) \<Rightarrow> run env ins v')" if "ip x = ip v" for x
      using run_step [of x ins env] True that by simp
    show ?thesis
    proof (cases "step env ?i v")
      case None
      then have "r = Panic" "run env ins (ample v) = Some Panic"
        using sim Suc.prems(1) True ru [of "ample v"] by (auto simp: step_sim_def)
      then show ?thesis by (simp add: run_agrees_def)
    next
      case (Some p)
      obtain v' e where p: "p = (v', e)" by (cases p)
      from sim Some p consider (m) u eu where "step env ?i (ample v) = Some (u, eu)" "matches v (v', e) (u, eu)"
        | (i) "interrupted env ?i v (v', e)"
        by (auto simp: step_sim_def)
      then show ?thesis
      proof cases
        case i
        then obtain out where o: "e = Some FullBuffer" "ip v' = ip v" "written v' = written v @ out"
            "step env ?i (ample v) = step env ?i ((ample v')\<lparr>written := out @ overflow v'\<rparr>)"
          by (auto simp: interrupted_def)
        have "run env ins (ample v) = run env ins ((ample v')\<lparr>written := out @ overflow v'\<rparr>)"
          using ru [of "ample v"] ru [of "(ample v')\<lparr>written := out @ overflow v'\<rparr>"] o(2,4) by simp
        also have "\<dots> = prepend_res (out @ overflow v') (run env ins (ample v'))" by (rule run_ample_written)
        finally show ?thesis using Suc.prems(1) Some p o True by (auto simp: run_agrees_def)
      next
        case m
        then obtain out where o: "written v' = written v @ out" "u = (ample v')\<lparr>written := out @ overflow v'\<rparr>" "room v' \<noteq> None"
            "if e = Some FullBuffer then eu = None else overflow v' = [] \<and> eu = e"
          unfolding matches_def fst_conv snd_conv by blast
        show ?thesis
        proof (cases e)
          case None
          then have ov: "overflow v' = []" "eu = None" using o(4) by auto
          have a: "run_agrees env ins v' r" using Suc.IH [of v'] Suc.prems(1) Some p None True o(3) ov by auto
          have b: "run env ins (ample v) = prepend_res out (run env ins (ample v'))"
            using ru [of "ample v"] m(1) ov o(2) run_ample_written [where v = v' and w = out] by simp
          show ?thesis
          proof (cases r)
            case (Ret x)
            with a b o(1) show ?thesis
              by (cases x) (auto simp: run_agrees_def split: if_splits)
          qed (use a b in \<open>simp add: run_agrees_def\<close>)
        next
          case (Some e')
          then have r: "r = Ret (v', e')" using Suc.prems(1) \<open>step env ?i v = Some p\<close> p True by auto
          show ?thesis
          proof (cases "e' = FullBuffer")
            case True
            then have "run env ins (ample v) = prepend_res (out @ overflow v') (run env ins (ample v'))"
              using ru [of "ample v"] m(1) o(2,4) Some run_ample_written [where v = v'] by simp
            then show ?thesis using r True o(1) by (auto simp: run_agrees_def)
          next
            case False
            then show ?thesis using ru [of "ample v"] m(1) o Some r by (auto simp: run_agrees_def)
          qed
        qed
      qed
    qed
  qed
qed simp

text \<open>When the reference run ends, so does every run with slices.\<close>

lemma run_n_terminates:
  assumes "IFillNextAppend \<notin> set ins"
  shows "run_n n env ins (ample v) = Some y \<Longrightarrow> room v \<noteq> None \<Longrightarrow> overflow v = [] \<Longrightarrow> \<exists>r. run_n n env ins v = Some r"
proof (induction n arbitrary: v y)
  case (Suc n)
  then obtain k where k: "room v = Some k" by auto
  show ?case
  proof (cases "0 \<le> ip v \<and> ip v < int (length ins)")
    case False
    then show ?thesis by auto
  next
    case True
    let ?i = "ins ! nat (ip v)"
    have "?i \<noteq> IFillNextAppend" using assms True by (metis nat_less_iff nth_mem)
    then have sim: "step_sim env ?i v" using step_sim_all [OF k Suc.prems(3)] by blast
    show ?thesis
    proof (cases "\<exists>v'. step env ?i v = Some (v', None)")
      case False
      then show ?thesis using True by (auto split: option.splits)
    next
      case step: True
      then obtain v' where v': "step env ?i v = Some (v', None)" by blast
      then obtain out where o: "step env ?i (ample v) = Some ((ample v')\<lparr>written := out\<rparr>, None)"
          "room v' \<noteq> None" "overflow v' = []"
        using sim by (auto simp: step_sim_def matches_def interrupted_def)
      then have "run_n n env ins ((ample v')\<lparr>written := out\<rparr>) = Some y" using Suc.prems(1) True by simp
      then obtain z where "run_n n env ins (ample v') = Some z"
        using run_n_written [of "ample v'" n env ins out]
        by (cases "run_n n env ins (ample v')") (auto simp: ample_written_Nil)
      then show ?thesis using Suc.IH [of v'] o(2,3) v' True by auto
    qed
  qed
qed simp

lemma run_terminates:
  assumes "IFillNextAppend \<notin> set ins" "run env ins (ample v) \<noteq> None" "room v \<noteq> None" "overflow v = []"
  obtains r where "run env ins v = Some r" "run_agrees env ins v r"
proof -
  obtain y n where "run_n n env ins (ample v) = Some y" using assms(2) run_n_of_run by blast
  then obtain r where r: "run_n n env ins v = Some r" using run_n_terminates [OF assms(1)] assms(3,4) by blast
  then show ?thesis using that [of r] run_of_run_n run_sim [OF assms(1) r assms(3,4)] by blast
qed

end
