(* ===== verification/Sed_Copy.thy ===== *)
theory Sed_Copy
  imports Sed_Lazy
begin

section \<open>Package gosed: reading a whole output\<close>

text \<open>
  From runs to calls: one \<open>Read\<close> returns a piece of the reference output and leaves a machine whose
  reference output is the rest; copying with slices of any positive lengths therefore returns the
  reference output.
\<close>

subsection \<open>Invariants of runs\<close>

lemma run_n_last:
  assumes "\<And>i x y e. I x \<Longrightarrow> step env i x = Some (y, e) \<Longrightarrow> I y"
  shows "run_n n env ins v = Some (Ret (v', e)) \<Longrightarrow> I v \<Longrightarrow>
    \<exists>w. I w \<and> 0 \<le> ip w \<and> ip w < int (length ins) \<and> step env (ins ! nat (ip w)) w = Some (v', Some e)"
proof (induction n arbitrary: v)
  case (Suc n)
  show ?case
  proof (cases "\<exists>x. step env (ins ! nat (ip v)) v = Some (x, None)")
    case True
    then obtain x where x: "step env (ins ! nat (ip v)) v = Some (x, None)" by blast
    moreover have "I x" using assms [OF Suc.prems(2) x] .
    ultimately show ?thesis using Suc.IH [of x] Suc.prems by (auto split: if_splits)
  next
    case False
    then show ?thesis using Suc.prems by (intro exI [of _ v]) (auto split: if_splits option.splits)
  qed
qed simp

definition space_left :: "nat \<Rightarrow> vm \<Rightarrow> bool" where
  "space_left n v \<longleftrightarrow> 0 \<le> lineno v \<and> (\<exists>m. room v = Some m \<and> length (written v) + m = n)"

lemma writeString_space:
  assumes "writeString v s = (v', e)" "space_left n v"
  shows "space_left n v' \<and> (e \<noteq> None \<longrightarrow> e = Some FullBuffer \<and> room v' = Some 0)"
  using assms by (auto simp: writeString_def space_left_def split: option.splits if_splits)

lemma space_upds:
  "space_left n (v\<lparr>ip := k\<rparr>) = space_left n v" "space_left n (v\<lparr>pat := s\<rparr>) = space_left n v"
  "space_left n (next_ip v) = space_left n v" "space_left n (v\<lparr>modified := b\<rparr>) = space_left n v"
  "space_left n (v\<lparr>appl := a\<rparr>) = space_left n v" "space_left n (v\<lparr>hold := h\<rparr>) = space_left n v"
  "space_left n (v\<lparr>cells := c\<rparr>) = space_left n v" "space_left n (v\<lparr>files := f\<rparr>) = space_left n v"
  by (simp_all add: space_left_def next_ip_def)

text \<open>\<open>full_ok n r\<close>: the space is accounted for, and a full-buffer error means that none is left.\<close>

definition full_ok :: "nat \<Rightarrow> result \<Rightarrow> bool" where
  "full_ok n r \<longleftrightarrow> space_left n (fst r) \<and> (snd r = Some FullBuffer \<longrightarrow> room (fst r) = Some 0)"

lemma full_ok_pair: "full_ok n (v, e) \<longleftrightarrow> space_left n v \<and> (e = Some FullBuffer \<longrightarrow> room v = Some 0)"
  by (simp add: full_ok_def)

lemma writeString_full_ok: "space_left n v \<Longrightarrow> full_ok n (writeString v s)"
  by (auto simp: full_ok_def writeString_def space_left_def split: option.splits if_splits)

lemma write2_full_ok: "space_left n v \<Longrightarrow> full_ok n (writeString (fst (writeString v s)) t)"
  using writeString_full_ok [of n v s] writeString_full_ok [of n "fst (writeString v s)" t] by (simp add: full_ok_def)

lemma print_full_ok: "space_left n v \<Longrightarrow> full_ok n (cmd_print v)"
  by (simp add: cmd_print_def Let_def write2_full_ok space_upds)

lemma refill_space: "space_left n v \<Longrightarrow> space_left n (refill v)"
  by (simp add: space_left_def refill_def next_ip_def Let_def split: option.split prod.split)

lemma fillNext_full_ok: "space_left n v \<Longrightarrow> full_ok n (cmd_fillNext v)"
proof (cases "appl v")
  case (Some a)
  assume v: "space_left n v"
  obtain w e where w: "writeString v a = (w, e)" by fastforce
  have "full_ok n (w, e)" using writeString_full_ok [OF v, of a] w by simp
  then show ?thesis using Some w refill_space [of n "w\<lparr>appl := None\<rparr>"]
    by (auto simp: cmd_fillNext_def full_ok_def space_upds Let_def)
qed (auto simp: cmd_fillNext_def full_ok_def refill_space Let_def)

lemma step_full_ok:
  assumes "step env i v = Some r" "space_left n v"
  shows "full_ok n r"
proof (cases i)
  case (ISubst re repl which p g)
  let ?w = "\<lambda>s. (next_ip v)\<lparr>pat := s, modified := True\<rparr>"
  have "full_ok n (cmd_print (?w s))" for s using assms(2) by (intro print_full_ok) (simp add: space_upds)
  then show ?thesis using ISubst assms
    by (auto simp: step_def run_subst_new full_ok_def space_upds split: option.splits if_splits)
next
  case IFillNextAppend
  then show ?thesis using assms fillNext_full_ok [OF assms(2)]
    by (cases "cmd_fillNext v") (auto simp: step_def cmd_fillNextAppend_def full_ok_def space_upds)
next
  case (IChanger t g)
  then show ?thesis using assms writeString_full_ok [of n "v\<lparr>ip := 0\<rparr>" t]
    by (auto simp: step_def run_changer_def full_ok_def space_upds Let_def split: if_splits)
qed (use assms print_full_ok fillNext_full_ok in
  \<open>auto simp: step_def cmd_quit_def cmd_swap_def cmd_get_def cmd_hold_def cmd_getapp_def cmd_holdapp_def cmd_branch_def
    cmd_changedBranch_def cmd_deleteFirstLine_def run_simplecond_def run_twocond_def run_appender_def run_writer_def
    run_translate_def cmd_printFirstLine_def cmd_lineno_def run_inserter_def Let_def
    writeString_full_ok write2_full_ok space_upds full_ok_pair split: option.splits prod.splits if_splits\<close>)

lemma step_space: "space_left n x \<Longrightarrow> step env i x = Some (y, e) \<Longrightarrow> space_left n y"
  using step_full_ok [of env i x "(y, e)" n] by (simp add: full_ok_pair)

subsection \<open>The end of the input\<close>

lemma step_EOF:
  assumes "step env i v = Some (v', Some EOF)" "i \<noteq> IFillNextAppend"
  shows "ip v' = ip v \<and> step env i (ample v') = Some (ample v', Some EOF)"
proof (cases i)
  case IFillNext
  then have c: "cmd_fillNext v = (v', Some EOF)" using assms by (simp add: step_def)
  have "appl v' = None \<and> lastl v' \<and> ip v' = ip v"
    using c by (auto simp: cmd_fillNext_def writeString_def Let_def split: option.splits if_splits)
  then show ?thesis using IFillNext by (simp add: step_def cmd_fillNext_def)
next
  case IQuit
  then show ?thesis using assms by (simp add: step_def cmd_quit_def)
next
  case (ISubst re repl which p g)
  then show ?thesis using assms
    by (auto simp: step_def run_subst_new cmd_print_def writeString_def Let_def split: option.splits if_splits)
qed (use assms in \<open>auto simp: step_def cmd_defs write_defs writeString_def split: option.splits prod.splits if_splits\<close>)

lemma run_EOF_again:
  assumes "run_n n env ins v = Some (Ret (v', EOF))" "IFillNextAppend \<notin> set ins"
  shows "run env ins (ample v') = Some (Ret (ample v', EOF))"
proof -
  obtain w where w: "0 \<le> ip w" "ip w < int (length ins)" "step env (ins ! nat (ip w)) w = Some (v', Some EOF)"
    using run_n_last [where I = "\<lambda>_. True", OF _ assms(1)] by auto
  have "ins ! nat (ip w) \<noteq> IFillNextAppend" using assms(2) w by (metis nat_less_iff nth_mem)
  from step_EOF [OF w(3) this] show ?thesis using w(1,2) run_step [of "ample v'" ins env] by simp
qed

subsection \<open>The reference output\<close>

definition reference :: "'re sed_env \<Rightarrow> 're instr list \<Rightarrow> vm \<Rightarrow> (vm \<times> sed_err) res" where
  "reference env ins v = prepend_res (overflow v) (run env ins (ample v))"

text \<open>\<open>read_law env ins v\<close>: the result of one call in terms of the reference output.\<close>

definition read_law :: "'re sed_env \<Rightarrow> 're instr list \<Rightarrow> vm \<Rightarrow> string \<times> sed_err option \<times> vm \<Rightarrow> bool" where
  "read_law env ins v r \<longleftrightarrow> (case r of (out, err, v') \<Rightarrow> 0 \<le> lineno v' \<and>
     (case err of
        None \<Rightarrow> out \<noteq> [] \<and> reference env ins v = prepend_res out (reference env ins v')
      | Some e \<Rightarrow> e \<noteq> FullBuffer \<and> reference env ins v = Some (Ret ((ample v')\<lparr>written := out\<rparr>, e))))"

lemma ample_read: "ample (v\<lparr>room := p, written := w, overflow := x\<rparr>) = ample v"
  by (simp add: ample_def)

lemma Read_run:
  assumes noN: "IFillNextAppend \<notin> set ins" and s: "space_left n v" "0 < n" "overflow v = []"
    and a: "ample v = ample v0" "written v = overflow v0" and t: "reference env ins v0 \<noteq> None"
    and p: "reference env ins v0 \<noteq> Some Panic"
  obtains v' e where "run env ins v = Some (Ret (v', e))"
    "read_law env ins v0 (written v', if (e = FullBuffer \<or> e = EOF) \<and> written v' \<noteq> [] then None else Some e, v')"
proof -
  have t': "run env ins (ample v) \<noteq> None" using t a(1) by (cases "run env ins (ample v0)") (simp_all add: reference_def)
  have "room v \<noteq> None" using s(1) by (auto simp: space_left_def)
  from run_terminates [OF noN t' this s(3)] obtain r where r: "run env ins v = Some r" "run_agrees env ins v r" .
  have "r \<noteq> Panic" using r(2) p a(1) by (auto simp: run_agrees_def reference_def)
  then obtain v' e where ve: "r = Ret (v', e)" by (cases r) auto
  obtain k where k: "run_n k env ins v = Some (Ret (v', e))" using run_n_of_run [OF r(1)] ve by blast
  have "\<exists>w. space_left n w \<and> 0 \<le> ip w \<and> ip w < int (length ins) \<and> step env (ins ! nat (ip w)) w = Some (v', Some e)"
    by (rule run_n_last [where I = "space_left n", OF _ k s(1)]) (rule step_space)
  then obtain w where w: "space_left n w" "step env (ins ! nat (ip w)) w = Some (v', Some e)" by blast
  have f: "space_left n v'" "e = FullBuffer \<Longrightarrow> room v' = Some 0"
    using step_full_ok [OF w(2,1)] by (simp_all add: full_ok_pair)
  have l: "0 \<le> lineno v'" using f(1) by (simp add: space_left_def)
  obtain out where o: "written v' = written v @ out"
      "if e = FullBuffer then run env ins (ample v) = prepend_res (out @ overflow v') (run env ins (ample v'))
       else overflow v' = [] \<and> run env ins (ample v) = Some (Ret ((ample v')\<lparr>written := out\<rparr>, e))"
    using r(2) ve by (auto simp: run_agrees_def)
  have ref: "reference env ins v0 = prepend_res (written v) (run env ins (ample v))"
    using a by (simp add: reference_def)
  have "read_law env ins v0 (written v', if (e = FullBuffer \<or> e = EOF) \<and> written v' \<noteq> [] then None else Some e, v')"
  proof (cases e)
    case FullBuffer
    then have "written v' \<noteq> []" using f s(2) by (auto simp: space_left_def)
    then show ?thesis using FullBuffer o ref l by (simp add: read_law_def reference_def)
  next
    case EOF
    then have "run env ins (ample v') = Some (Ret (ample v', EOF))" using run_EOF_again [OF _ noN] k by simp
    then show ?thesis using EOF o ref l by (auto simp: read_law_def reference_def)
  next
    case (FileError x)
    then show ?thesis using o ref l by (simp add: read_law_def)
  qed
  then show ?thesis using that r(1) ve by blast
qed

lemma Read_correct:
  assumes noN: "IFillNextAppend \<notin> set ins" and v: "0 \<le> lineno v" "0 < n"
    and t: "reference env ins v \<noteq> None" "reference env ins v \<noteq> Some Panic"
  obtains r where "vm_Read env ins (Some n) v = Some (Ret r)" "read_law env ins v r"
proof (cases "n < length (overflow v)")
  case True
  let ?v = "v\<lparr>room := Some 0, written := take n (overflow v), overflow := drop n (overflow v)\<rparr>"
  have "vm_Read env ins (Some n) v = Some (Ret (take n (overflow v), None, ?v))"
    using True v by (auto simp: vm_Read_def read_start_def writeString_def)
  moreover have "read_law env ins v (take n (overflow v), None, ?v)"
    using True v by (auto simp: read_law_def reference_def ample_read)
  ultimately show ?thesis using that by blast
next
  case False
  let ?v = "v\<lparr>room := Some (n - length (overflow v)), written := overflow v, overflow := []\<rparr>"
  have start: "read_start (v\<lparr>room := Some n, written := []\<rparr>) = (?v, None)"
    using False v(1) by (cases v) (auto simp: read_start_def writeString_def)
  have "space_left n ?v" using v(1) False by (simp add: space_left_def)
  moreover have "overflow ?v = []" "ample ?v = ample v" "written ?v = overflow v" by (simp_all add: ample_read)
  ultimately obtain v' e where r: "run env ins ?v = Some (Ret (v', e))"
    "read_law env ins v (written v', if (e = FullBuffer \<or> e = EOF) \<and> written v' \<noteq> [] then None else Some e, v')"
    using Read_run [OF noN _ v(2), of ?v v] t by blast
  then show ?thesis using that start by (simp add: vm_Read_def)
qed

subsection \<open>Copying\<close>

lemma copy_from_correct:
  assumes noN: "IFillNextAppend \<notin> set ins"
  shows "0 \<le> lineno v \<Longrightarrow> \<forall>i. 0 < sizes i \<Longrightarrow> reference env ins v = Some (Ret (u, e)) \<Longrightarrow>
    \<exists>v'. copy_from env ins sizes acc v = Some (Ret (acc @ written u, if e = EOF then None else Some e, v'))
      \<and> ample v' = ample u"
proof (induction "length (written u)" arbitrary: v sizes acc u rule: less_induct)
  case less
  have n: "0 < sizes 0" using less.prems(2) by blast
  have t: "reference env ins v \<noteq> None" "reference env ins v \<noteq> Some Panic" using less.prems(3) by simp_all
  obtain out err v' where r: "vm_Read env ins (Some (sizes 0)) v = Some (Ret (out, err, v'))"
      and law: "read_law env ins v (out, err, v')"
    by (rule Read_correct [OF noN less.prems(1) n t]) (metis prod_cases3)
  show ?case
  proof (cases err)
    case None
    then have l: "0 \<le> lineno v'" "out \<noteq> []" "prepend_res out (reference env ins v') = Some (Ret (u, e))"
      using law less.prems(3) by (auto simp: read_law_def)
    then obtain u' where u': "reference env ins v' = Some (Ret (u', e))" "u = u'\<lparr>written := out @ written u'\<rparr>"
      by (auto simp: prepend_res_def bind_res_def split: option.splits outcome.splits)
    have "length (written u') < length (written u)" using u'(2) l(2) by simp
    from less.hyps [OF this l(1) _ u'(1), of "\<lambda>i. sizes (Suc i)" "acc @ out"] less.prems(2)
    obtain v'' where "copy_from env ins (\<lambda>i. sizes (Suc i)) (acc @ out) v'
        = Some (Ret ((acc @ out) @ written u', if e = EOF then None else Some e, v''))" "ample v'' = ample u'" by auto
    then show ?thesis using r None u'(2)
      by (subst copy_from.simps) (simp add: ample_def)
  next
    case (Some e')
    then have "u = (ample v')\<lparr>written := out\<rparr>" "e' = e" using law less.prems(3) by (auto simp: read_law_def)
    then show ?thesis using r Some by (subst copy_from.simps) (auto simp: ample_def)
  qed
qed

text \<open>The first call of \<open>Read\<close> reads the first line; \<open>primed\<close> is the state it starts the program in.\<close>

definition primed :: "(nat \<Rightarrow> bool \<times> int) \<Rightarrow> string \<Rightarrow> vm" where
  "primed cs inp = (refill (Wrap cs inp))\<lparr>ip := 0\<rparr>"

lemma Read_primed: "vm_Read env ins p (Wrap cs inp) = vm_Read env ins p (primed cs inp)"
proof -
  have "read_start ((Wrap cs inp)\<lparr>room := p, written := []\<rparr>) = ((primed cs inp)\<lparr>room := p, written := []\<rparr>, None)"
    by (simp add: read_start_def Wrap_def primed_def cmd_fillNext_def refill_def next_ip_def Let_def split: option.split)
  moreover have "read_start ((primed cs inp)\<lparr>room := p, written := []\<rparr>) = ((primed cs inp)\<lparr>room := p, written := []\<rparr>, None)"
    by (simp add: read_start_def Wrap_def primed_def refill_def next_ip_def Let_def split: option.split)
  ultimately show ?thesis by (simp add: vm_Read_def)
qed

definition sed_output :: "'re sed_env \<Rightarrow> 're instr list \<Rightarrow> (nat \<Rightarrow> bool \<times> int) \<Rightarrow> string \<Rightarrow> (vm \<times> sed_err) res" where
  "sed_output env ins cs inp = run env ins (ample (primed cs inp))"

lemma RunString_correct:
  assumes "IFillNextAppend \<notin> set ins" "\<forall>i. 0 < sizes i" "sed_output env ins cs inp = Some (Ret (u, e))"
  shows "\<exists>v'. RunString env ins sizes cs inp = Some (Ret (written u, if e = EOF then None else Some e, v'))
    \<and> files v' = files u"
proof -
  have p: "0 \<le> lineno (primed cs inp)" "overflow (primed cs inp) = []"
    by (simp_all add: primed_def Wrap_def refill_def next_ip_def Let_def split: option.split)
  then have "reference env ins (primed cs inp) = Some (Ret (u, e))"
    using assms(3) by (simp add: reference_def sed_output_def)
  from copy_from_correct [OF assms(1) p(1) assms(2) this, of "[]"]
  obtain v' where v': "copy_from env ins sizes [] (primed cs inp) = Some (Ret (written u, if e = EOF then None else Some e, v'))"
      "ample v' = ample u" by auto
  have "copy_from env ins sizes [] (Wrap cs inp) = copy_from env ins sizes [] (primed cs inp)"
    by (subst (1 2) copy_from.simps) (simp add: Read_primed)
  moreover have "files v' = files u" using arg_cong [OF v'(2), of files] by simp
  ultimately show ?thesis using v'(1) by (simp add: RunString_def)
qed

end
