(* ===== verification/Sed_Safe.thy ===== *)
theory Sed_Safe
  imports Sed_Parse Sed_Copy
begin

section \<open>Package gosed: compiled programs are safe\<close>

text \<open>
  The compiler always ends (its fuel is enough), every jump of a program it accepts stays inside
  the program, and such a program never makes the machine panic, provided the regular expressions
  report matches in order and within the string.
\<close>

subsection \<open>The compiler keeps jumps inside the program\<close>

fun targets :: "'re instr \<Rightarrow> nat list" where
  "targets (IBranch t) = [t]"
| "targets (IChangedBranch t) = [t]"
| "targets (ISimpleCond c m u) = [m, u]"
| "targets (ITwoCond k c1 c2 m u) = [m, u]"
| "targets _ = []"

text \<open>A substitution counts from 0, so that the match it picks exists.\<close>

fun count_ok :: "'re instr \<Rightarrow> bool" where
  "count_ok (ISubst re repl w p g) = (0 \<le> w)"
| "count_ok _ = True"

definition parse_inv :: "'re parseState \<Rightarrow> bool" where
  "parse_inv ps \<longleftrightarrow> ins ps \<noteq> [] \<and> (\<forall>i \<in> set (ins ps). \<forall>t \<in> set (targets i). t \<le> length (ins ps)) \<and> (\<forall>i \<in> set (ins ps). count_ok i)
     \<and> (\<forall>l t. b_labels ps l = Some t \<longrightarrow> t \<le> length (ins ps)) \<and> (\<forall>l t. t_labels ps l = Some t \<longrightarrow> t \<le> length (ins ps))
     \<and> (\<forall>w \<in> set (branches ps). wip w < length (ins ps))"

text \<open>
  What every function of the compiler keeps: tokens are only taken, code is only added, an error
  stays; a call that succeeds before the end of the tokens leaves the nesting as it was, and the
  loop itself ends one level up.
\<close>

definition grows :: "'re parseState \<Rightarrow> 're parseState \<Rightarrow> bool" where
  "grows ps ps' \<longleftrightarrow> length (toks ps') \<le> length (toks ps) \<and> length (ins ps) \<le> length (ins ps')
     \<and> (parse_inv ps \<longrightarrow> parse_inv ps') \<and> (err ps \<noteq> None \<longrightarrow> err ps' \<noteq> None)"

definition live :: "'re parseState \<Rightarrow> bool" where
  "live ps \<longleftrightarrow> err ps = None \<and> toks ps \<noteq> []"

definition advances :: "'re parseState \<Rightarrow> 're parseState \<Rightarrow> bool" where
  "advances ps ps' \<longleftrightarrow> grows ps ps' \<and> (live ps' \<longrightarrow> blockLevel ps' = blockLevel ps)"

definition leaves :: "'re parseState \<Rightarrow> 're parseState \<Rightarrow> bool" where
  "leaves ps ps' \<longleftrightarrow> grows ps ps' \<and> (live ps' \<longrightarrow> blockLevel ps' = blockLevel ps - 1 \<and> blockLevel ps \<noteq> 0)"

definition recur_ok :: "nat \<Rightarrow> 're recur \<Rightarrow> bool" where
  "recur_ok n self \<longleftrightarrow> (\<forall>ps. length (toks ps) < n \<longrightarrow> (\<exists>ps'. self ps = Some ps' \<and> leaves ps ps'))"

lemma recur_okD: "recur_ok n self \<Longrightarrow> length (toks ps) < n \<Longrightarrow> \<exists>ps'. self ps = Some ps' \<and> leaves ps ps'"
  by (simp add: recur_ok_def)

lemmas grow_defs = advances_def leaves_def grows_def live_def

lemma advances_refl: "advances ps ps"
  by (simp add: grow_defs)

lemma advances_trans: "advances a b \<Longrightarrow> advances b c \<Longrightarrow> advances a c"
  by (fastforce simp: grow_defs)

lemma leaves_trans: "advances a b \<Longrightarrow> leaves b c \<Longrightarrow> leaves a c"
  by (fastforce simp: grow_defs)

lemma advances_err: "advances ps (ps\<lparr>err := Some e\<rparr>)" "advances ps (ps\<lparr>err := Some e, blockLevel := b\<rparr>)"
  by (simp_all add: grow_defs parse_inv_def)

lemma advances_emit:
  assumes "\<forall>i \<in> set is. \<forall>t \<in> set (targets i). t \<le> length (ins ps) + length is" "\<forall>i \<in> set is. count_ok i"
  shows "advances ps (emit is ps)"
  using assms by (auto simp: grow_defs emit_def parse_inv_def intro: trans_le_add1 less_le_trans)

lemma advances_take: "toks ps = t # ts \<Longrightarrow> advances ps (ps\<lparr>toks := ts\<rparr>)"
  by (simp add: grow_defs parse_inv_def)

lemma makers_targets:
  "newSubstitution env a b c l = Inr i \<Longrightarrow> targets i = [] \<and> count_ok i"
  "newTranslation a b l = Inr i \<Longrightarrow> targets i = [] \<and> count_ok i"
  "cmd_newReader env a l = Inr i \<Longrightarrow> targets i = [] \<and> count_ok i"
  by (auto simp: newSubstitution_def newTranslation_def cmd_newReader_def Let_def split: sum.splits prod.splits if_splits)

lemma advances_emit_or_fail:
  assumes "\<And>i. r = Inr i \<Longrightarrow> targets i = [] \<and> count_ok i"
  shows "advances ps (emit_or_fail r ps)"
proof (cases r)
  case (Inl e)
  then show ?thesis by (simp add: emit_or_fail_def advances_err)
next
  case (Inr i)
  then show ?thesis using assms [OF Inr] by (auto simp: emit_or_fail_def intro: advances_emit)
qed

lemma advances_branch:
  "advances ps (emit [IBranch 0] (compile_branchTarget (length (ins ps)) cmd ps))"
  by (auto simp: grow_defs parse_inv_def emit_def compile_branchTarget_def intro: less_SucI le_SucI)

lemma advances_cmd: "advances ps (compile_cmd env cmd ps)"
proof -
  have s: "advances ps (emit is ps)" if "\<forall>i \<in> set is. targets i = [] \<and> count_ok i" for "is"
    using that by (intro advances_emit) simp_all
  have d: "advances ps (emit [IBranch 0] ps)" by (intro advances_emit) simp_all
  show ?thesis
    unfolding compile_cmd_def Let_def
    by (auto intro!: s d advances_branch advances_emit_or_fail advances_err dest: makers_targets split: if_splits)
qed

lemma advances_label: "advances ps (compile_label lbl ps)"
  by (auto simp: compile_label_def grow_defs parse_inv_def Let_def)

lemma block_ok:
  assumes "recur_ok n self" "length (toks ps) < n"
  shows "\<exists>ps'. compile_block env self cmd ps = Some ps' \<and> advances ps ps'"
proof (cases "ttyp cmd = tok_LBRACE")
  case True
  let ?ps = "ps\<lparr>blockLevel := blockLevel ps + 1\<rparr>"
  obtain ps' where s: "self ?ps = Some ps'" "leaves ?ps ps'" using recur_okD [OF assms(1), of ?ps] assms(2) by auto
  then have "advances ps ps'" by (simp add: grow_defs parse_inv_def)
  then show ?thesis using True s(1) by (simp add: compile_block_def)
next
  case False
  then show ?thesis by (auto simp: compile_block_def advances_cmd advances_err split: tok_type.split)
qed

lemma guarded_ok:
  assumes "recur_ok n self" "length (toks ps) < n" "\<And>a b. set (targets (mk a b)) = {a, b} \<and> count_ok (mk a b)"
  shows "\<exists>ps'. guarded env self mk neg cmd ps = Some ps' \<and> advances ps ps'"
proof -
  let ?k = "length (ins ps)" and ?mk = "\<lambda>far. if neg then mk far (length (ins ps) + 1) else mk (length (ins ps) + 1) far"
  have e: "advances ps (emit [?mk 0] ps)" using assms(3) by (intro advances_emit) auto
  have "length (toks (emit [?mk 0] ps)) < n" using assms(2) by (simp add: emit_def)
  then obtain ps1 where p: "compile_block env self cmd (emit [?mk 0] ps) = Some ps1" "advances (emit [?mk 0] ps) ps1"
    using block_ok [OF assms(1)] by blast
  have l: "Suc ?k \<le> length (ins ps1)" using p(2) by (simp add: grow_defs emit_def)
  have "advances ps1 (ps1\<lparr>ins := (ins ps1)[?k := ?mk (length (ins ps1))]\<rparr>)"
    using l assms(3) by (auto simp: grow_defs parse_inv_def dest!: set_update_subset_insert [THEN subsetD] split: if_splits)
  then show ?thesis using p e advances_trans by (auto simp: guarded_def Let_def cong: if_cong intro: advances_trans)
qed

lemma mustGetToken_ok:
  assumes "mustGetToken ps = (t, ps')"
  shows "advances ps ps'"
  using assms advances_take [of ps] advances_err(1) [of ps EndOfScript]
  by (auto simp: mustGetToken_def split: list.splits)

lemma advances_len: "advances ps ps' \<Longrightarrow> length (toks ps) < n \<Longrightarrow> length (toks ps') < n"
  by (simp add: grow_defs)

text \<open>\<open>goes n ps r\<close>: the call from \<open>ps\<close> ends in a state that \<open>ps\<close> advances to.\<close>

definition goes :: "'re parseState \<Rightarrow> 're parseState option \<Rightarrow> bool" where
  "goes ps r \<longleftrightarrow> (\<exists>ps'. r = Some ps' \<and> advances ps ps')"

lemma goes_guarded:
  assumes "recur_ok n self" "length (toks ps) < n" "advances ps ps1" "\<And>a b. set (targets (mk a b)) = {a, b} \<and> count_ok (mk a b)"
  shows "goes ps (guarded env self mk neg cmd ps1)"
proof -
  obtain ps' where "guarded env self mk neg cmd ps1 = Some ps'" "advances ps1 ps'"
    using guarded_ok [of n self ps1 mk env neg cmd, OF assms(1) advances_len [OF assms(3,2)] assms(4)] by blast
  then show ?thesis using advances_trans [OF assms(3)] by (auto simp: goes_def)
qed

lemma twocond_ok:
  assumes "recur_ok n self" "length (toks ps0) < n" "advances ps0 ps"
  shows "goes ps0 (compile_twocond env self c ps)"
proof -
  obtain t1 ps1 where 1: "mustGetToken ps = (t1, ps1)" by fastforce
  obtain t2 ps2 where 2: "mustGetToken ps1 = (t2, ps2)" by fastforce
  obtain t3 ps3 where 3: "mustGetToken ps2 = (t3, ps3)" by fastforce
  have a1: "advances ps0 ps1" using advances_trans [OF assms(3) mustGetToken_ok [OF 1]] .
  have a2: "advances ps0 ps2" using advances_trans [OF a1 mustGetToken_ok [OF 2]] .
  have a3: "advances ps0 ps3" using advances_trans [OF a2 mustGetToken_ok [OF 3]] .
  let ?mk = "ITwoCond (length (ins ps2)) c"
  have g2: "goes ps0 (guarded env self (?mk d) neg t ps2)" and g3: "goes ps0 (guarded env self (?mk d) neg t ps3)"
    for d neg t using goes_guarded [OF assms(1,2)] a2 a3 by auto
  have ch: "advances ps0 (emit [?mk d (length (ins ps2) + 1) (length (ins ps2) + 2), IChanger s g] ps2)" for d s g
    by (rule advances_trans [OF a2], rule advances_emit) simp_all
  have er: "advances ps0 (ps1\<lparr>err := Some e\<rparr>)" for e by (rule advances_trans [OF a1 advances_err(1)])
  show ?thesis
    unfolding compile_twocond_def 1 using a1 a2 a3 g2 g3 ch er 2 3
    by (auto simp: Let_def goes_def split: option.split sum.split tok_type.split)
qed

lemma cond_ok:
  assumes "recur_ok n self" "length (toks ps) < n"
  shows "goes ps (compile_cond env self c ps)"
proof -
  obtain t1 ps1 where 1: "mustGetToken ps = (t1, ps1)" by fastforce
  obtain t2 ps2 where 2: "mustGetToken ps1 = (t2, ps2)" by fastforce
  have a1: "advances ps ps1" using mustGetToken_ok [OF 1] .
  have a2: "advances ps ps2" using advances_trans [OF a1 mustGetToken_ok [OF 2]] .
  have g: "goes ps (guarded env self (ISimpleCond c) neg t ps1)" "goes ps (guarded env self (ISimpleCond c) neg t ps2)"
    for neg t using goes_guarded [OF assms] a1 a2 by auto
  show ?thesis
    unfolding compile_cond_def 1 using a1 a2 g 2 twocond_ok [OF assms a1]
    by (auto simp: goes_def split: option.split tok_type.split)
qed

lemma token_ok:
  assumes "recur_ok n self" "length (toks ps) < n"
  shows "\<exists>ps' b. toplevel_token env self tok ps = Some (ps', b) \<and> (if b then leaves ps ps' else advances ps ps')"
proof -
  have c: "\<exists>ps'. compile_cond env self c ps = Some ps' \<and> advances ps ps'" for c
    using cond_ok [OF assms] by (auto simp: goes_def)
  have e: "\<exists>ps' b. (case r of Inl e \<Rightarrow> Some (ps\<lparr>err := Some e\<rparr>, False)
      | Inr c \<Rightarrow> map_option (\<lambda>ps'. (ps', False)) (compile_cond env self c ps)) = Some (ps', b)
      \<and> (if b then leaves ps ps' else advances ps ps')" for r
  proof (cases r)
    case (Inr d)
    then show ?thesis using c [of d] by auto
  qed (auto simp: advances_err)
  show ?thesis
  proof (cases "ttyp tok")
    case tok_NUM
    then show ?thesis using e [of "numbercond tok"] by (simp add: toplevel_token_def)
  next
    case tok_RX
    then show ?thesis using e [of "newRECondition env (arg tok 0) (loc tok)"] by (simp add: toplevel_token_def)
  next
    case tok_DOLLAR
    then show ?thesis using c [of EofCond] by (auto simp: toplevel_token_def)
  next
    case tok_RBRACE
    then show ?thesis by (auto simp: toplevel_token_def grow_defs parse_inv_def)
  qed (auto simp: toplevel_token_def advances_cmd advances_label advances_err advances_refl)
qed

lemma parse_toplevel_ok: "recur_ok n (parse_toplevel env n)"
proof (induction n)
  case (Suc n)
  show ?case unfolding recur_ok_def
  proof (intro allI impI)
    fix ps :: "'a parseState"
    assume l: "length (toks ps) < Suc n"
    show "\<exists>ps'. parse_toplevel env (Suc n) ps = Some ps' \<and> leaves ps ps'"
    proof (cases "toks ps")
      case Nil
      then show ?thesis by (simp add: grow_defs)
    next
      case (Cons tok ts)
      let ?ps = "ps\<lparr>toks := ts\<rparr>"
      have "length (toks ?ps) < n" using l Cons by simp
      from token_ok [OF Suc.IH this] obtain ps1 b
        where p: "toplevel_token env (parse_toplevel env n) tok ?ps = Some (ps1, b)"
          "if b then leaves ?ps ps1 else advances ?ps ps1" by blast
      note t = advances_take [OF Cons]
      show ?thesis
      proof (cases "b \<or> err ps1 \<noteq> None")
        case True
        then have "leaves ?ps ps1" using p(2) by (auto simp: grow_defs split: if_splits)
        then show ?thesis using Cons p(1) True leaves_trans [OF t] by auto
      next
        case False
        then have a: "advances ?ps ps1" using p(2) by simp
        have "length (toks ps1) < n" using a l Cons by (simp add: grow_defs)
        then obtain ps2 where "parse_toplevel env n ps1 = Some ps2" "leaves ps1 ps2" using recur_okD [OF Suc.IH] by blast
        then show ?thesis using Cons p(1) False leaves_trans [OF t] leaves_trans [OF a] by auto
      qed
    qed
  qed
qed (simp add: recur_ok_def)

lemma parse_total:
  fixes env :: "'re sed_env"
  obtains ps where "parse_toplevel env (Suc (length ts)) (parse_init ts q) = Some ps" "parse_inv ps" "\<not> live ps"
    "length (toks ps) \<le> length ts" "parse env ts q = Some (parse_finish ps, toks ps)"
proof -
  let ?i = "parse_init ts q :: 're parseState"
  have i: "parse_inv ?i" "blockLevel ?i = 0" "toks ?i = ts" by (simp_all add: parse_init_def parse_inv_def)
  have "length (toks ?i) < Suc (length ts)" by (simp add: parse_init_def)
  from recur_okD [OF parse_toplevel_ok this] obtain ps
    where p: "parse_toplevel env (Suc (length ts)) ?i = Some ps" "leaves ?i ps" by blast
  then have "parse_inv ps" "\<not> live ps" "length (toks ps) \<le> length ts" using i by (auto simp: leaves_def grows_def)
  then show ?thesis using that p(1) by (simp add: parse_def del: parse_toplevel.simps)
qed

lemma parse_accepts_all:
  assumes "parse env ts q = Some (Inr prog, left)"
  shows "left = []"
proof -
  obtain ps where p: "\<not> live ps" "parse env ts q = Some (parse_finish ps, toks ps)" using parse_total [of env ts q] .
  then have "err ps = None" using assms by (auto simp: parse_finish_def Let_def split: if_splits option.splits)
  then show ?thesis using p assms by (simp add: live_def)
qed

subsection \<open>Accepted programs\<close>

definition jumps_inside :: "'re instr list \<Rightarrow> bool" where
  "jumps_inside prog \<longleftrightarrow> (\<forall>i \<in> set prog. (\<forall>t \<in> set (targets i). t < length prog) \<and> count_ok i)"

definition wf_prog :: "'re instr list \<Rightarrow> bool" where
  "wf_prog prog \<longleftrightarrow> 2 \<le> length prog \<and> last prog = IBranch 0 \<and> jumps_inside prog"

lemma resolve_keeps:
  assumes "wf_prog (ins ps)" "\<forall>w \<in> set ws. Suc (wip w) < length (ins ps)"
    "\<And>l t. b_labels ps l = Some t \<Longrightarrow> t < length (ins ps)" "\<And>l t. t_labels ps l = Some t \<Longrightarrow> t < length (ins ps)"
  shows "wf_prog (ins (parse_resolveBranches ws ps))"
  using assms
proof (induction ws arbitrary: ps)
  case (Cons w ws)
  let ?target = "if wletter w = ch CHR ''b'' then b_labels ps (wlabel w) else t_labels ps (wlabel w)"
  show ?case
  proof (cases ?target)
    case None
    then show ?thesis using Cons.prems(1) by (simp add: Let_def)
  next
    case (Some t)
    let ?i = "if wletter w = ch CHR ''b'' then IBranch t else IChangedBranch t"
    have t: "t < length (ins ps)" using Some Cons.prems(3,4) by (auto split: if_splits)
    have w: "Suc (wip w) < length (ins ps)" using Cons.prems(2) by simp
    have "jumps_inside ((ins ps)[wip w := ?i])"
      using Cons.prems(1) t by (auto simp: wf_prog_def jumps_inside_def dest!: set_update_subset_insert [THEN subsetD])
    moreover have "last ((ins ps)[wip w := ?i]) = IBranch 0"
      using w Cons.prems(1) by (cases "ins ps" rule: rev_cases) (auto simp: wf_prog_def list_update_append)
    ultimately have "wf_prog (ins (ps\<lparr>ins := (ins ps)[wip w := ?i]\<rparr>))" using Cons.prems(1) by (simp add: wf_prog_def)
    from Cons.IH [OF this] show ?thesis using Some Cons.prems by (simp add: Let_def)
  qed
qed simp

lemma parse_finish_wf:
  assumes "parse_inv ps" "parse_finish ps = Inr prog"
  shows "wf_prog prog"
proof -
  let ?n = "length (ins ps)" and ?tail = "(if quiet ps then [] else [IPrint]) @ [IBranch 0]"
  define ps1 where "ps1 = ps\<lparr>b_labels := (b_labels ps)(end_of_program_label \<mapsto> ?n),
                           t_labels := (t_labels ps)(end_of_program_label \<mapsto> ?n)\<rparr>"
  have p: "prog = ins (parse_resolveBranches (branches ps) (emit ?tail ps1))"
    using assms(2) by (auto simp: parse_finish_def Let_def ps1_def [symmetric] split: option.splits if_splits)
      (simp_all add: ps1_def emit_def)
  have l: "\<And>i t. i \<in> set (ins ps) \<Longrightarrow> t \<in> set (targets i) \<Longrightarrow> t \<le> ?n" "\<And>i. i \<in> set (ins ps) \<Longrightarrow> count_ok i" "ins ps \<noteq> []"
    using assms(1) by (auto simp: parse_inv_def)
  have len: "length (ins (emit ?tail ps1)) \<ge> Suc ?n" by (simp add: emit_def ps1_def)
  have "jumps_inside (ins (emit ?tail ps1))"
    using l(1,2) by (force simp: jumps_inside_def emit_def ps1_def less_Suc_eq_le)
  then have wf: "wf_prog (ins (emit ?tail ps1))"
    using l(3) by (cases "ins ps") (auto simp: wf_prog_def emit_def ps1_def)
  show ?thesis unfolding p
    by (rule resolve_keeps [OF wf]; use assms(1) len in \<open>force simp: parse_inv_def emit_def ps1_def less_Suc_eq_le split: if_splits\<close>)
qed

lemma parse_wf:
  assumes "parse env ts q = Some (Inr prog, rest)"
  shows "wf_prog prog"
proof -
  obtain ps where "parse_inv ps" "parse env ts q = Some (parse_finish ps, toks ps)" using parse_total [of env ts q] .
  then show ?thesis using assms parse_finish_wf [of ps prog] by simp
qed

subsection \<open>Accepted programs do not panic\<close>

text \<open>
  What the machine relies on of \<^verbatim>\<open>regexp\<close>: \<open>FindAllSubmatchIndex\<close> gives each match as a list that
  starts with its first and last index, the matches are in order and do not overlap, and they are
  inside the string.
\<close>

fun ordered_matches :: "int \<Rightarrow> int \<Rightarrow> int list list \<Rightarrow> bool" where
  "ordered_matches lo n [] = (lo \<le> n)"
| "ordered_matches lo n (m # ms) = (case m of a # b # _ \<Rightarrow> lo \<le> a \<and> a \<le> b \<and> b \<le> n \<and> ordered_matches b n ms | _ \<Rightarrow> False)"

definition rx_ok :: "'re sed_env \<Rightarrow> bool" where
  "rx_ok env \<longleftrightarrow> (\<forall>re s. ordered_matches 0 (int (length s)) (rx_find env re s))"

lemma ordered_mono: "ordered_matches lo n ms \<Longrightarrow> lo' \<le> lo \<Longrightarrow> ordered_matches lo' n ms"
  by (cases ms) (auto split: list.splits)

lemma ordered_drop: "ordered_matches lo n ms \<Longrightarrow> ordered_matches lo n (drop k ms)"
proof (induction ms arbitrary: lo k)
  case (Cons m ms)
  show ?case
  proof (cases k)
    case (Suc j)
    obtain a b r where m: "m = a # b # r" "lo \<le> a" "a \<le> b" "ordered_matches b n ms"
      using Cons.prems by (auto split: list.splits)
    have "ordered_matches lo n ms" by (rule ordered_mono [OF m(4)]) (use m in simp)
    then show ?thesis using Cons.IH Suc by simp
  qed (use Cons.prems in simp)
qed simp

lemma ordered_le: "ordered_matches lo n ms \<Longrightarrow> lo \<le> n"
  by (cases ms) (auto split: list.splits)

lemma ordered_take1: "ordered_matches lo n (m # ms) \<Longrightarrow> ordered_matches lo n [m]"
  by (auto split: list.splits)

lemma replaceAll_some:
  assumes "ordered_matches lo (int (length s)) ms" "0 \<le> lo"
  shows "\<exists>t. subst_replaceAll env re repl s lo ms = Some t"
  using assms
proof (induction ms arbitrary: lo)
  case Nil
  then show ?case by (simp add: str_slice_def)
next
  case (Cons m ms)
  obtain a b r where m: "m = a # b # r" "lo \<le> a" "a \<le> b" "b \<le> int (length s)" "ordered_matches b (int (length s)) ms"
    using Cons.prems(1) by (auto split: list.splits)
  moreover obtain t where "subst_replaceAll env re repl s b ms = Some t" using Cons.IH [OF m(5)] m Cons.prems(2) by auto
  ultimately show ?case using Cons.prems(2) by (simp add: str_slice_def)
qed

lemma write_ip [simp]: "ip (fst (writeString v s)) = ip v"
  by (simp add: writeString_def split: option.split)

lemma print_ip [simp]: "ip (fst (cmd_print v)) = ip v + 1"
  by (simp add: cmd_print_def next_ip_def)

lemma subst_safe:
  assumes "rx_ok env" "0 \<le> w"
  shows "\<exists>v' e. run_subst env re repl w p g v = Some (v', e) \<and> ip v' = ip v + 1"
proof (cases "int (length (rx_find env re (pat v))) \<le> w")
  case False
  let ?m = "rx_find env re (pat v)"
  let ?ms = "if g then drop (nat w) ?m else [?m ! nat w]"
  have o: "ordered_matches 0 (int (length (pat v))) (drop (nat w) ?m)" using assms(1) ordered_drop by (auto simp: rx_ok_def)
  have "drop (nat w) ?m = ?m ! nat w # drop (Suc (nat w)) ?m" using False assms(2) by (intro Cons_nth_drop_Suc [symmetric]) auto
  then have "ordered_matches 0 (int (length (pat v))) ?ms" using o ordered_take1 by metis
  from replaceAll_some [OF this, of env re repl] obtain t where "subst_replaceAll env re repl (pat v) 0 ?ms = Some t"
    by blast
  then have r: "run_subst env re repl w p g v = (let v2 = (next_ip v)\<lparr>pat := t, modified := True\<rparr>
      in if p then (let (v3, e) = cmd_print v2 in Some (v3\<lparr>ip := ip v3 - 1\<rparr>, e)) else Some (v2, None))"
    using False assms(2) by (simp add: run_subst_def next_ip_def)
  have "cmd_print w = (x, e) \<Longrightarrow> ip x = ip w + 1" for w x e using print_ip [of w] by simp
  then show ?thesis unfolding r by (auto simp: Let_def next_ip_def split: prod.split)
qed (simp add: run_subst_def next_ip_def)

definition inside :: "'re instr list \<Rightarrow> vm \<Rightarrow> bool" where
  "inside prog v \<longleftrightarrow> 0 \<le> ip v \<and> ip v < int (length prog)"

lemma inside_next:
  assumes "wf_prog prog" "inside prog v" "prog ! nat (ip v) \<noteq> IBranch 0"
  shows "ip v + 1 < int (length prog)"
proof (rule ccontr)
  assume "\<not> ?thesis"
  then have "nat (ip v) = length prog - 1" using assms(2) unfolding inside_def by linarith
  moreover have "prog \<noteq> []" using assms(1) by (auto simp: wf_prog_def)
  ultimately have "prog ! nat (ip v) = last prog" by (simp add: last_conv_nth)
  then show False using assms(1,3) by (simp add: wf_prog_def)
qed

lemma fill_ip: "ip (fst (cmd_fillNext v)) = ip v \<or> ip (fst (cmd_fillNext v)) = ip v + 1"
proof -
  have "ip (refill w) = ip w + 1" for w by (simp add: refill_def next_ip_def Let_def split: option.split)
  moreover have "writeString v s = (w, e) \<Longrightarrow> ip w = ip v" for s w e using write_ip [of v s] by simp
  ultimately show ?thesis by (auto simp: cmd_fillNext_def Let_def split: option.splits prod.splits)
qed

lemma step_inside:
  assumes "wf_prog prog" "rx_ok env" "inside prog v"
  shows "\<exists>v' e. step env (prog ! nat (ip v)) v = Some (v', e) \<and> inside prog v'"
proof -
  let ?i = "prog ! nat (ip v)"
  have m: "?i \<in> set prog" using assms(3) by (auto simp: inside_def intro!: nth_mem)
  have t: "t < length prog" if "t \<in> set (targets ?i)" for t using m that assms(1) by (auto simp: wf_prog_def jumps_inside_def)
  have c: "count_ok ?i" using m assms(1) by (auto simp: wf_prog_def jumps_inside_def)
  have b: "inside prog v" "0 \<le> ip v" "ip v < int (length prog)" "1 < int (length prog)"
    using assms(1,3) by (auto simp: inside_def wf_prog_def)
  have n: "?i \<noteq> IBranch 0 \<Longrightarrow> ip v + 1 < int (length prog)" using inside_next [OF assms(1,3)] .
  have g: "inside prog (fst r) \<Longrightarrow> \<exists>v' e. Some r = Some (v', e) \<and> inside prog v'" for r :: result by (cases r) auto
  have wr: "(\<exists>v'. (\<exists>e. writeString w s = (v', e)) \<and> 0 \<le> ip v' \<and> ip v' < k) \<longleftrightarrow> 0 \<le> ip w \<and> ip w < k" for w s k
    using write_ip [of w s] by (cases "writeString w s") auto
  note ops = cmd_print_def cmd_quit_def cmd_swap_def cmd_get_def cmd_hold_def cmd_getapp_def cmd_holdapp_def cmd_branch_def
    cmd_changedBranch_def cmd_printFirstLine_def cmd_deleteFirstLine_def cmd_lineno_def run_simplecond_def
    run_appender_def run_inserter_def run_translate_def next_ip_def
  show ?thesis
  proof (cases ?i)
    case (ISubst re repl w p gl)
    then show ?thesis using subst_safe [OF assms(2), of w re repl p gl v] c n b by (auto simp: step_def inside_def)
  next
    case IFillNext
    have "inside prog (fst (cmd_fillNext v))" using fill_ip [of v] n b IFillNext by (auto simp: inside_def)
    then show ?thesis using IFillNext g by (simp add: step_def)
  next
    case IFillNextAppend
    then show ?thesis using fill_ip [of v] n b
      by (auto simp: step_def cmd_fillNextAppend_def inside_def split: prod.split intro!: g)
  next
    case (ITwoCond k c1 c2 mt ut)
    then show ?thesis using t b by (auto simp: step_def run_twocond_def inside_def split: prod.split intro!: g)
  next
    case (IChanger s gd)
    have "inside prog (fst (run_changer s gd v))" using b by (auto simp: run_changer_def inside_def Let_def)
    then show ?thesis using IChanger g by (simp add: step_def)
  next
    case (IWriter f)
    then show ?thesis using n b by (auto simp: step_def run_writer_def next_ip_def inside_def Let_def split: option.split intro!: g)
  next
    case (IBranch k)
    then show ?thesis using t b by (auto simp: step_def ops inside_def intro!: g)
  qed (use t n b in \<open>auto simp: step_def ops inside_def wr Let_def split: option.split intro!: g\<close>)
qed

lemma run_inside:
  assumes "wf_prog prog" "rx_ok env" "run env prog v = Some r" "inside prog v"
  shows "\<exists>v' e. r = Ret (v', e) \<and> inside prog v'"
  using assms(3,4)
proof (induction env\<equiv>env ins\<equiv>prog v r rule: run.raw_induct [rotated 1, consumes 1, case_names loop])
  case (loop self v r)
  obtain v' e where "step env (prog ! nat (ip v)) v = Some (v', e)" "inside prog v'"
    using step_inside [OF assms(1,2) loop(3)] by blast
  then show ?case using loop by (auto simp: inside_def split: option.splits)
qed

lemma start_inside:
  assumes "wf_prog prog" "lineno v = -1 \<or> inside prog v"
  shows "inside prog (fst (read_start v))"
  using assms by (auto simp: read_start_def inside_def wf_prog_def split: prod.split)

lemma read_inside:
  assumes "wf_prog prog" "rx_ok env" "vm_Read env prog p v = Some r" "lineno v = -1 \<or> inside prog v"
  shows "\<exists>out e v'. r = Ret (out, e, v') \<and> inside prog v'"
proof -
  obtain v1 e where s: "read_start (v\<lparr>room := p, written := []\<rparr>) = (v1, e)" by fastforce
  have i: "inside prog v1" using start_inside [OF assms(1), of "v\<lparr>room := p, written := []\<rparr>"] assms(4) s by (simp add: inside_def)
  show ?thesis
  proof (cases e)
    case None
    obtain r' where r': "run env prog v1 = Some r'" using assms(3) s None by (cases "run env prog v1") (auto simp: vm_Read_def bind_res_def)
    then obtain v2 e2 where "r' = Ret (v2, e2)" "inside prog v2" using run_inside [OF assms(1,2) _ i] by blast
    then show ?thesis using assms(3) s None r' by (auto simp: vm_Read_def bind_res_def)
  next
    case (Some x)
    then show ?thesis using assms(3) s i by (auto simp: vm_Read_def bind_res_def)
  qed
qed

lemma copy_no_panic:
  assumes "wf_prog prog" "rx_ok env" "copy_from env prog sizes acc v = Some r" "lineno v = -1 \<or> inside prog v"
  shows "r \<noteq> Panic"
  using assms(3,4)
proof (induction env\<equiv>env ins\<equiv>prog sizes acc v r rule: copy_from.raw_induct [rotated 1, consumes 1, case_names loop])
  case (loop self sizes acc v r)
  show ?case
  proof (cases "vm_Read env prog (Some (sizes 0)) v")
    case None
    then show ?thesis using loop by simp
  next
    case (Some x)
    then obtain out e v' where "x = Ret (out, e, v')" "inside prog v'" using read_inside [OF assms(1,2) _ loop(3)] by blast
    then show ?thesis using loop Some by (auto split: option.splits)
  qed
qed

end
