(* ===== verification/Sed_Engine.thy ===== *)
theory Sed_Engine
  imports Sed_Lex Sed_Safe
begin

section \<open>Package gosed: engines and whole files\<close>

text \<open>
  \<^verbatim>\<open>makeEngine\<close> of \<^verbatim>\<open>gosed/engine.go\<close> and the functions of \<^verbatim>\<open>gosed/gosed.go\<close>. The lexer runs beside
  the parser and hands it tokens through a channel of 128 places; when the parser stops early,
  \<^verbatim>\<open>makeEngine\<close> waits for the lexer, which waits for a free place if more than 128 tokens are left:
  the result \<open>None\<close>. The operating system is a parameter; what the functions change is the list of
  writes that succeeded. The input of a run is the file as it was when it was opened: a \<open>w\<close> command
  that writes to the very file being edited is outside the model.
\<close>

datatype engine_error = LexError lex_error location | ParseError parse_error

definition channel_capacity :: nat where
  "channel_capacity = 128"

definition makeEngine :: "'re sed_env \<Rightarrow> string \<Rightarrow> bool \<Rightarrow> (engine_error + 're instr list) option" where
  "makeEngine env program isQuiet =
     (let (ts, lexErr) = lex program
      in case parse env ts isQuiet of
           None \<Rightarrow> None
         | Some (r, left) \<Rightarrow>
             if length left > channel_capacity then None
             else Some (case lexErr of
                          Some (e, l) \<Rightarrow> Inl (LexError e l)
                        | None \<Rightarrow> (case r of Inl e \<Rightarrow> Inl (ParseError e) | Inr prog \<Rightarrow> Inr prog)))"

definition New :: "'re sed_env \<Rightarrow> string \<Rightarrow> (engine_error + 're instr list) option" where
  "New env program = makeEngine env program False"

definition NewQuiet :: "'re sed_env \<Rightarrow> string \<Rightarrow> (engine_error + 're instr list) option" where
  "NewQuiet env program = makeEngine env program True"

subsection \<open>Files\<close>

datatype func_error = CompileError engine_error | RunError sed_err | OSError string

record file_os =
  os_ReadFile :: "string \<Rightarrow> string + string"
  os_Open :: "string \<Rightarrow> string option"
  os_Stat :: "string \<Rightarrow> string + nat"
  os_WriteFile :: "string \<Rightarrow> string \<Rightarrow> nat \<Rightarrow> string option"

type_synonym file_write = "string \<times> string \<times> nat"
type_synonym func_result = "(bool \<times> string \<times> func_error option) \<times> file_write list"

definition fresh_cells :: "nat \<Rightarrow> bool \<times> int" where
  "fresh_cells n = (False, 0)"

definition failed :: "func_error \<Rightarrow> func_result" where
  "failed e = ((False, [], Some e), [])"

text \<open>The branch for a file, after the program is compiled.\<close>

definition edit_file :: "'re sed_env \<Rightarrow> file_os \<Rightarrow> (nat \<Rightarrow> nat) \<Rightarrow> 're instr list \<Rightarrow> string \<Rightarrow> func_result res" where
  "edit_file env os sizes prog path =
     (case os_ReadFile os path of
        Inl e \<Rightarrow> Some (Ret (failed (OSError e)))
      | Inr orgcontents \<Rightarrow>
          (case os_Open os path of
             Some e \<Rightarrow> Some (Ret (failed (OSError e)))
           | None \<Rightarrow>
               bind_res (RunString env prog sizes fresh_cells orgcontents)
                 (\<lambda>(buf, er, v). Some (Ret (
                    case er of
                      Some e \<Rightarrow> failed (RunError e)
                    | None \<Rightarrow>
                        if buf = orgcontents then ((False, [], None), [])
                        else (case os_Stat os path of
                                Inl e \<Rightarrow> failed (OSError e)
                              | Inr mode \<Rightarrow>
                                  (case os_WriteFile os path buf mode of
                                     Some e \<Rightarrow> failed (OSError e)
                                   | None \<Rightarrow> ((True, [], None), [(path, buf, mode)]))))))))"

definition SedFunc :: "'re sed_env \<Rightarrow> file_os \<Rightarrow> (nat \<Rightarrow> nat) \<Rightarrow> string \<Rightarrow> string \<Rightarrow> bool \<Rightarrow> func_result res" where
  "SedFunc env os sizes sedscript filepath_or_string isFile =
     (case New env sedscript of
        None \<Rightarrow> None
      | Some (Inl e) \<Rightarrow> Some (Ret (failed (CompileError e)))
      | Some (Inr prog) \<Rightarrow>
          if isFile then edit_file env os sizes prog filepath_or_string
          else bind_res (RunString env prog sizes fresh_cells filepath_or_string)
                 (\<lambda>(retstring, er, v). Some (Ret (
                    if er \<noteq> None then ((retstring \<noteq> filepath_or_string, retstring, None), [])
                    else ((False, retstring, None), [])))))"

definition Sed :: "'re sed_env \<Rightarrow> file_os \<Rightarrow> (nat \<Rightarrow> nat) \<Rightarrow> string \<Rightarrow> string \<Rightarrow> func_result res" where
  "Sed env os sizes sedscript path = SedFunc env os sizes sedscript path True"

definition SedString :: "'re sed_env \<Rightarrow> file_os \<Rightarrow> (nat \<Rightarrow> nat) \<Rightarrow> string \<Rightarrow> string \<Rightarrow> func_result res" where
  "SedString env os sizes sedscript data = SedFunc env os sizes sedscript data False"

text \<open>\<open>replaceAll literal\<close> is \<^verbatim>\<open>ReplaceAllLiteralString\<close> or \<^verbatim>\<open>ReplaceAllString\<close> of the compiled pattern.\<close>

definition FileReplaceRegex :: "'re sed_env \<Rightarrow> file_os \<Rightarrow> (bool \<Rightarrow> 're \<Rightarrow> string \<Rightarrow> string \<Rightarrow> string) \<Rightarrow> string \<Rightarrow> string
    \<Rightarrow> string \<Rightarrow> bool list \<Rightarrow> func_error option \<times> file_write list" where
  "FileReplaceRegex env os replaceAll patt tostring path literalFlags =
     (let literalFlag = (literalFlags \<noteq> [] \<and> hd literalFlags)
      in case os_ReadFile os path of
           Inl e \<Rightarrow> (Some (OSError e), [])
         | Inr allbytes \<Rightarrow>
             (case rx_compile env patt of
                Inl e \<Rightarrow> (Some (OSError e), [])
              | Inr r \<Rightarrow>
                  (let newstring = replaceAll literalFlag r allbytes tostring
                   in if newstring = allbytes then (None, [])
                      else (case os_WriteFile os path newstring 420 of
                              Some e \<Rightarrow> (Some (OSError e), [])
                            | None \<Rightarrow> (None, [(path, newstring, 420)])))))"

lemma edit_file_cases:
  assumes "edit_file env os sizes prog path = Some (Ret R)"
  shows "(\<exists>e. R = failed e) \<or> R = ((False, [], None), [])
    \<or> (\<exists>old new mode v. os_ReadFile os path = Inr old \<and> RunString env prog sizes fresh_cells old = Some (Ret (new, None, v))
         \<and> new \<noteq> old \<and> os_Stat os path = Inr mode \<and> R = ((True, [], None), [(path, new, mode)]))"
proof (cases "os_ReadFile os path")
  case (Inl e)
  then show ?thesis using assms by (auto simp: edit_file_def)
next
  case (Inr old)
  show ?thesis
  proof (cases "os_Open os path")
    case (Some e)
    then show ?thesis using assms Inr by (auto simp: edit_file_def)
  next
    case None
    then have b: "bind_res (RunString env prog sizes fresh_cells old) (\<lambda>(new, er, v). Some (Ret (
        case er of Some e \<Rightarrow> failed (RunError e)
        | None \<Rightarrow> if new = old then ((False, [], None), [])
            else (case os_Stat os path of Inl e \<Rightarrow> failed (OSError e)
                  | Inr mode \<Rightarrow> (case os_WriteFile os path new mode of Some e \<Rightarrow> failed (OSError e)
                      | None \<Rightarrow> ((True, [], None), [(path, new, mode)])))))) = Some (Ret R)"
      using assms Inr by (simp add: edit_file_def cong: option.case_cong sum.case_cong)
    then obtain new er v where r: "RunString env prog sizes fresh_cells old = Some (Ret (new, er, v))"
      by (cases "RunString env prog sizes fresh_cells old" rule: option.exhaust) (auto simp: bind_res_def split: outcome.splits)
    show ?thesis using b r Inr by (auto split: option.splits if_splits sum.splits)
  qed
qed

end
