(* ===== verification/Sed_Script.thy ===== *)
theory Sed_Script
  imports Sed_Engine
begin

section \<open>Package gosed: what commands do\<close>

text \<open>
  Facts about single commands and small programs, from which the properties of the package follow:
  the lines of an input, the program without commands, substitution by position, ranges of line
  numbers, and the lexer on plain texts.
\<close>

subsection \<open>Lines\<close>

lemma read_line_shorter: "read_line s = Some (l, r) \<Longrightarrow> length r < length s"
  by (auto simp: read_line_def dest: index_byte_bound split: if_splits option.splits)

text \<open>The lines of an input, without their ends.\<close>

function lines_of :: "string \<Rightarrow> string list" where
  "lines_of s = (case read_line s of None \<Rightarrow> [] | Some (l, r) \<Rightarrow> l # lines_of r)"
  by pat_completeness auto
termination by (relation "measure length") (auto dest: read_line_shorter)

declare lines_of.simps [simp del]

definition print_lines :: "string list \<Rightarrow> string" where
  "print_lines ls = concat (map (\<lambda>l. l @ [nl]) ls)"

lemma print_lines_simps [simp]: "print_lines [] = []" "print_lines (l # ls) = l @ nl # print_lines ls"
  by (simp_all add: print_lines_def)

lemma lines_of_line: "nl \<notin> set l \<Longrightarrow> (l = [] \<or> last l \<noteq> cr) \<Longrightarrow> lines_of (l @ nl # s) = l # lines_of s"
  by (subst lines_of.simps) (auto simp: read_line_def drop_cr_def index_byte_append)

lemma lines_of_print:
  assumes "\<forall>l \<in> set ls. nl \<notin> set l \<and> (l = [] \<or> last l \<noteq> cr)"
  shows "lines_of (print_lines ls) = ls"
  using assms
proof (induction ls)
  case Nil
  then show ?case by (subst lines_of.simps) (simp add: read_line_def)
next
  case (Cons l ls)
  then show ?case by (simp add: lines_of_line)
qed

subsection \<open>Programs that edit each line\<close>

text \<open>
  A command that only changes the pattern space is a function on strings; a program of such
  commands applies their composition to every line.
\<close>

definition edits :: "'re sed_env \<Rightarrow> 're instr \<Rightarrow> (string \<Rightarrow> string) \<Rightarrow> bool" where
  "edits env i f \<longleftrightarrow> (\<forall>v. \<exists>m. step env i v = Some (v\<lparr>ip := ip v + 1, pat := f (pat v), modified := m\<rparr>, None))"

definition line_prog :: "'re instr list \<Rightarrow> 're instr list" where
  "line_prog is = IFillNext # is @ [IPrint, IBranch 0]"

lemma edit_steps:
  assumes "list_all2 (edits env) ys fs" "ip v = int (Suc (length xs))"
  shows "\<exists>m. run env (line_prog (xs @ ys)) v = run env (line_prog (xs @ ys))
    (v\<lparr>ip := int (Suc (length (xs @ ys))), pat := fold (\<lambda>f. f) fs (pat v), modified := m\<rparr>)"
  using assms
proof (induction ys arbitrary: xs fs v)
  case Nil
  then have "v = v\<lparr>ip := int (Suc (length (xs @ []))), pat := fold (\<lambda>f. f) fs (pat v), modified := modified v\<rparr>" by (cases v) simp
  then show ?case by (intro exI [of _ "modified v"] arg_cong [of _ _ "run env (line_prog (xs @ []))"])
next
  case (Cons y ys)
  obtain f fs' where fs: "fs = f # fs'" "edits env y f" "list_all2 (edits env) ys fs'"
    using Cons.prems(1) by (auto simp: list_all2_Cons1)
  obtain m where m: "step env y v = Some (v\<lparr>ip := ip v + 1, pat := f (pat v), modified := m\<rparr>, None)"
    using fs(2) by (auto simp: edits_def)
  let ?w = "v\<lparr>ip := ip v + 1, pat := f (pat v), modified := m\<rparr>"
  have "line_prog (xs @ y # ys) ! nat (ip v) = y"
    unfolding Cons.prems(2) nat_int by (simp add: line_prog_def nth_append)
  then have "run env (line_prog (xs @ y # ys)) v = run env (line_prog (xs @ y # ys)) ?w"
    using m Cons.prems(2) by (subst run.simps) (simp add: line_prog_def)
  moreover obtain m2 where "run env (line_prog ((xs @ [y]) @ ys)) ?w = run env (line_prog ((xs @ [y]) @ ys))
      (?w\<lparr>ip := int (Suc (length ((xs @ [y]) @ ys))), pat := fold (\<lambda>f. f) fs' (pat ?w), modified := m2\<rparr>)"
    using Cons.IH [OF fs(3), of ?w "xs @ [y]"] Cons.prems(2) by auto
  ultimately show ?case using fs(1) by (intro exI [of _ m2]) simp
qed

lemma edit_line:
  assumes "list_all2 (edits env) is fs" "room v = None" "appl v = None" "ip v = 0" "\<not> lastl v"
  shows "\<exists>m. run env (line_prog is) v = run env (line_prog is)
    ((refill v)\<lparr>pat := fold (\<lambda>f. f) fs (nxtl v), modified := m,
      written := written v @ fold (\<lambda>f. f) fs (nxtl v) @ [nl], ip := 0\<rparr>)"
proof -
  let ?P = "line_prog is" and ?s = "fold (\<lambda>f. f) fs (nxtl v)"
  have f: "ip (refill v) = 1" "room (refill v) = None" "pat (refill v) = nxtl v" "written (refill v) = written v"
    using assms by (simp_all add: refill_def next_ip_def Let_def split: option.split)
  have "run env ?P v = run env ?P (refill v)"
    using assms by (subst run.simps) (simp add: line_prog_def step_def cmd_fillNext_def)
  moreover obtain m where "run env ?P (refill v) = run env ?P ((refill v)\<lparr>ip := int (Suc (length is)), pat := ?s, modified := m\<rparr>)"
    using edit_steps [OF assms(1), of "refill v" "[]"] f by auto
  moreover have "\<dots> = run env ?P ((refill v)\<lparr>pat := ?s, modified := m, ip := int (Suc (length is)) + 1, written := written v @ ?s @ [nl]\<rparr>)"
    using f by (subst run.simps) (simp add: line_prog_def nat_add_distrib nth_append step_def cmd_print_ample)
  moreover have "\<dots> = run env ?P ((refill v)\<lparr>pat := ?s, modified := m, written := written v @ ?s @ [nl], ip := 0\<rparr>)"
    by (subst run.simps) (simp add: line_prog_def nat_add_distrib nth_append step_def cmd_branch_def)
  ultimately show ?thesis by auto
qed

lemma edit_run:
  assumes "list_all2 (edits env) is fs" "room v = None" "appl v = None" "ip v = 0"
  shows "\<exists>v'. run env (line_prog is) v = Some (Ret (v', EOF))
    \<and> written v' = written v @ (if lastl v then [] else print_lines (map (fold (\<lambda>f. f) fs) (nxtl v # lines_of (input v))))"
  using assms(2-)
proof (induction "length (input v)" arbitrary: v rule: less_induct)
  case less
  have stop: "\<exists>v'. run env (line_prog is) w = Some (Ret (v', EOF)) \<and> written v' = written w"
    if "room w = None" "appl w = None" "ip w = 0" "lastl w" for w
    using that by (subst run.simps) (simp add: line_prog_def step_def cmd_fillNext_def)
  show ?case
  proof (cases "lastl v")
    case True
    then show ?thesis using stop less.prems by auto
  next
    case False
    let ?s = "fold (\<lambda>f. f) fs (nxtl v)"
    obtain m where r: "run env (line_prog is) v = run env (line_prog is)
        ((refill v)\<lparr>pat := ?s, modified := m, written := written v @ ?s @ [nl], ip := 0\<rparr>)"
      using edit_line [OF assms(1) less.prems False] by blast
    define w where "w = (refill v)\<lparr>pat := ?s, modified := m, written := written v @ ?s @ [nl], ip := 0\<rparr>"
    have w: "room w = None" "appl w = None" "ip w = 0" "written w = written v @ ?s @ [nl]"
      using less.prems by (simp_all add: w_def)
    show ?thesis
    proof (cases "read_line (input v)")
      case None
      then have "lastl w" by (simp add: w_def refill_def next_ip_def Let_def)
      then show ?thesis using r w stop [of w] False None by (simp add: w_def [symmetric] lines_of.simps [of "input v"])
    next
      case (Some p)
      obtain l t where p: "p = (l, t)" by fastforce
      have f: "input w = t" "nxtl w = l" "lastl w = False"
        using Some p False by (simp_all add: w_def refill_def next_ip_def Let_def)
      then have "\<exists>v'. run env (line_prog is) w = Some (Ret (v', EOF))
          \<and> written v' = written w @ print_lines (map (fold (\<lambda>f. f) fs) (l # lines_of t))"
        using less.hyps [of w] w read_line_shorter [of "input v" l t] Some p by auto
      then show ?thesis using r w(4) Some p False by (auto simp: w_def [symmetric] lines_of.simps [of "input v"])
    qed
  qed
qed

lemma edit_output:
  assumes "list_all2 (edits env) is fs"
  shows "\<exists>u. sed_output env (line_prog is) cs inp = Some (Ret (u, EOF))
    \<and> written u = print_lines (map (fold (\<lambda>f. f) fs) (lines_of inp))"
proof -
  let ?v = "ample (primed cs inp)"
  have a: "room ?v = None" "appl ?v = None" "ip ?v = 0" "written ?v = []" by (simp_all add: primed_def Wrap_def)
  have l: "lastl ?v = (read_line inp = None)"
    "read_line inp = Some (x, y) \<Longrightarrow> nxtl ?v = x \<and> input ?v = y" for x y
    by (simp_all add: primed_def Wrap_def refill_def next_ip_def Let_def split: option.split)
  obtain v' where v': "run env (line_prog is) ?v = Some (Ret (v', EOF))"
      "written v' = written ?v @ (if lastl ?v then [] else print_lines (map (fold (\<lambda>f. f) fs) (nxtl ?v # lines_of (input ?v))))"
    using edit_run [OF assms a(1-3)] by blast
  have "written v' = print_lines (map (fold (\<lambda>f. f) fs) (lines_of inp))"
  proof (cases "read_line inp")
    case None
    then show ?thesis using v'(2) l(1) a(4) by (simp add: lines_of.simps [of inp])
  next
    case (Some p)
    then show ?thesis using v'(2) l(1) l(2) [of "fst p" "snd p"] a(4) by (cases p) (simp add: lines_of.simps [of inp])
  qed
  then show ?thesis using v'(1) by (auto simp: sed_output_def)
qed

lemma edit_RunString:
  assumes "list_all2 (edits env) is fs" "IFillNextAppend \<notin> set is" "\<forall>i. 0 < sizes i"
  shows "\<exists>v'. RunString env (line_prog is) sizes cs inp
    = Some (Ret (print_lines (map (fold (\<lambda>f. f) fs) (lines_of inp)), None, v'))"
proof -
  obtain u where u: "sed_output env (line_prog is) cs inp = Some (Ret (u, EOF))"
      "written u = print_lines (map (fold (\<lambda>f. f) fs) (lines_of inp))"
    using edit_output [OF assms(1)] by blast
  have "IFillNextAppend \<notin> set (line_prog is)" using assms(2) by (simp add: line_prog_def)
  from RunString_correct [OF this assms(3) u(1)] show ?thesis using u(2) by auto
qed

subsection \<open>Substitution\<close>

text \<open>
  One line after \<open>s/re/repl/g\<close>, position by position: the replacements of the matches that start there, and the character there unless
  a match covers it.
\<close>

definition covers :: "int list \<Rightarrow> nat \<Rightarrow> bool" where
  "covers m i = (case m of a # b # _ \<Rightarrow> a \<le> int i \<and> int i < b | _ \<Rightarrow> False)"

definition replaced_at :: "'re sed_env \<Rightarrow> 're \<Rightarrow> string \<Rightarrow> string \<Rightarrow> int list list \<Rightarrow> nat \<Rightarrow> string" where
  "replaced_at env re repl s ms i =
     concat (map (rx_expand env re repl s) (filter (\<lambda>m. take 1 m = [int i]) ms))
     @ (if i < length s \<and> \<not> (\<exists>m \<in> set ms. covers m i) then [s ! i] else [])"

definition replace_all :: "'re sed_env \<Rightarrow> 're \<Rightarrow> string \<Rightarrow> string \<Rightarrow> string" where
  "replace_all env re repl s = concat (map (replaced_at env re repl s (rx_find env re s)) [0..<Suc (length s)])"

lemma ordered_later: "ordered_matches lo n ms \<Longrightarrow> m \<in> set ms \<Longrightarrow> \<exists>a b r. m = a # b # r \<and> lo \<le> a \<and> a \<le> b"
proof (induction ms arbitrary: lo)
  case (Cons x ms)
  obtain a b r where x: "x = a # b # r" "lo \<le> a" "a \<le> b" "ordered_matches b n ms" using Cons.prems(1) by (auto split: list.splits)
  then show ?case using Cons.IH [OF x(4)] Cons.prems(2) by fastforce
qed simp

text \<open>Before its first match a line is kept.\<close>

lemma replaced_before:
  assumes "ordered_matches (int B) n ms" "i < B"
  shows "filter (\<lambda>m. take 1 m = [int i]) ms = []" "\<not> (\<exists>m \<in> set ms. covers m i)"
  using ordered_later [OF assms(1)] assms(2) by (fastforce simp: filter_empty_conv, fastforce simp: covers_def)

lemma upt_split: "i \<le> j \<Longrightarrow> j \<le> k \<Longrightarrow> [i..<k] = [i..<j] @ [j..<k]"
  by (metis le_add_diff_inverse upt_add_eq_append)

lemma chars_between: "concat (map (\<lambda>i. [s ! i]) [lo..<hi]) = take (hi - lo) (drop lo s)" if "hi \<le> length s" for s :: string
  using that by (auto intro!: nth_equalityI simp: concat_map_singleton)

lemma replaced_first:
  assumes "ordered_matches (int B) (int (length s)) ms" "A \<le> B" "B \<le> length s"
  shows "concat (map (replaced_at env re repl s ((int A # int B # r) # ms)) [A..<Suc (length s)])
    = rx_expand env re repl s (int A # int B # r) @ concat (map (replaced_at env re repl s ms) [B..<Suc (length s)])"
proof (cases "A = B")
  case True
  have "replaced_at env re repl s ((int A # int B # r) # ms) A = rx_expand env re repl s (int A # int B # r) @ replaced_at env re repl s ms A"
    using True by (simp add: replaced_at_def covers_def)
  moreover have "replaced_at env re repl s ((int A # int B # r) # ms) i = replaced_at env re repl s ms i" if "A < i" for i
    using True that by (simp add: replaced_at_def covers_def)
  then have "concat (map (replaced_at env re repl s ((int A # int B # r) # ms)) [Suc A..<Suc (length s)]) = concat (map (replaced_at env re repl s ms) [Suc A..<Suc (length s)])"
    by (intro arg_cong [of _ _ concat] map_cong) auto
  moreover have "[A..<Suc (length s)] = A # [Suc A..<Suc (length s)]" using True assms(3) by (intro upt_conv_Cons) simp
  ultimately show ?thesis using True by (simp del: upt_Suc)
next
  case False
  then have ab: "A < B" using assms(2) by simp
  note none = replaced_before [OF assms(1)]
  have first: "replaced_at env re repl s ((int A # int B # r) # ms) A = rx_expand env re repl s (int A # int B # r)"
    using none [OF ab] ab by (simp add: replaced_at_def covers_def)
  have mid: "replaced_at env re repl s ((int A # int B # r) # ms) i = []" if "A < i" "i < B" for i
    using none [OF that(2)] that by (simp add: replaced_at_def covers_def)
  have rest: "replaced_at env re repl s ((int A # int B # r) # ms) i = replaced_at env re repl s ms i" if "B \<le> i" for i
    using that ab by (simp add: replaced_at_def covers_def)
  have "[A..<Suc (length s)] = A # [Suc A..<B] @ [B..<Suc (length s)]"
    using ab assms(3) upt_split [of "Suc A" B "Suc (length s)"] by (simp add: upt_conv_Cons del: upt_Suc)
  moreover have "concat (map (replaced_at env re repl s ((int A # int B # r) # ms)) [Suc A..<B]) = []" using mid by (simp add: concat_eq_Nil_conv)
  moreover have "concat (map (replaced_at env re repl s ((int A # int B # r) # ms)) [B..<Suc (length s)]) = concat (map (replaced_at env re repl s ms) [B..<Suc (length s)])"
    using rest by (intro arg_cong [of _ _ concat] map_cong) auto
  ultimately show ?thesis using first by (simp only: list.map concat.simps map_append concat_append append_Nil)
qed

lemma replaceAll_spec:
  assumes "ordered_matches (int lo) (int (length s)) ms"
  shows "subst_replaceAll env re repl s (int lo) ms = Some (concat (map (replaced_at env re repl s ms) [lo..<Suc (length s)]))"
  using assms
proof (induction ms arbitrary: lo)
  case Nil
  then have "lo \<le> length s" by simp
  moreover have "concat (map (replaced_at env re repl s []) [lo..<length s]) = concat (map (\<lambda>i. [s ! i]) [lo..<length s])"
    by (intro arg_cong [of _ _ concat] map_cong) (auto simp: replaced_at_def)
  ultimately have "concat (map (replaced_at env re repl s []) [lo..<Suc (length s)]) = concat (map (\<lambda>i. [s ! i]) [lo..<length s])"
    by (simp add: replaced_at_def [of _ _ _ _ _ "length s"])
  then show ?case using Nil chars_between [of "length s" s lo] by (simp add: str_slice_def)
next
  case (Cons m ms)
  obtain a b r where m: "m = a # b # r" "int lo \<le> a" "a \<le> b" "b \<le> int (length s)" "ordered_matches b (int (length s)) ms"
    using Cons.prems by (auto split: list.splits)
  define A B where "A = nat a" and "B = nat b"
  have ab: "a = int A" "b = int B" "lo \<le> A" "A \<le> B" "B \<le> length s" using m A_def B_def by auto
  have o: "ordered_matches (int B) (int (length s)) ms" using m(5) ab(2) by simp
  have before: "replaced_at env re repl s (m # ms) i = [s ! i]" if "i < A" for i
    using replaced_before [OF o, of i] that ab m(1) by (simp add: replaced_at_def covers_def)
  have "[lo..<Suc (length s)] = [lo..<A] @ [A..<Suc (length s)]" using ab by (intro upt_split) simp_all
  moreover have "concat (map (replaced_at env re repl s (m # ms)) [lo..<A]) = concat (map (\<lambda>i. [s ! i]) [lo..<A])"
    using before by (intro arg_cong [of _ _ concat] map_cong) auto
  ultimately have "concat (map (replaced_at env re repl s (m # ms)) [lo..<Suc (length s)])
      = take (A - lo) (drop lo s) @ rx_expand env re repl s m @ concat (map (replaced_at env re repl s ms) [B..<Suc (length s)])"
    using replaced_first [OF o ab(4,5), of env re repl r] chars_between [of A s lo] m(1) ab by (simp del: upt_Suc)
  then show ?case using Cons.IH [OF o] m(1) ab by (simp add: str_slice_def)
qed

lemma edits_subst_all:
  assumes "rx_ok env"
  shows "edits env (ISubst re repl 0 False True) (replace_all env re repl)"
  unfolding edits_def
proof
  fix v :: vm
  have o: "ordered_matches 0 (int (length (pat v))) (rx_find env re (pat v))" using assms by (simp add: rx_ok_def)
  then have r: "subst_replaceAll env re repl (pat v) 0 (rx_find env re (pat v)) = Some (replace_all env re repl (pat v))"
    using replaceAll_spec [of 0 "pat v"] by (simp add: replace_all_def)
  show "\<exists>m. step env (ISubst re repl 0 False True) v
    = Some (v\<lparr>ip := ip v + 1, pat := replace_all env re repl (pat v), modified := m\<rparr>, None)"
  proof (cases "rx_find env re (pat v)")
    case Nil
    then have "replace_all env re repl (pat v) = pat v" using r by (simp add: str_slice_def)
    moreover have "v\<lparr>ip := ip v + 1\<rparr> = v\<lparr>ip := ip v + 1, pat := pat v, modified := modified v\<rparr>" by (cases v) simp
    ultimately show ?thesis using Nil by (intro exI [of _ "modified v"]) (simp add: step_def run_subst_def next_ip_def)
  next
    case (Cons m ms)
    then show ?thesis using r
      by (intro exI [of _ True]) (simp add: step_def run_subst_def next_ip_def)
  qed
qed

lemma edits_translate: "edits env (ITranslate tbl) (translate tbl)"
  unfolding edits_def
proof
  fix v :: vm
  have "v\<lparr>pat := x, ip := ip v + 1\<rparr> = v\<lparr>ip := ip v + 1, pat := x, modified := modified v\<rparr>" for x by (cases v) simp
  then show "\<exists>m. step env (ITranslate tbl) v
    = Some (v\<lparr>ip := ip v + 1, pat := translate tbl (pat v), modified := m\<rparr>, None)"
    by (intro exI [of _ "modified v"]) (simp add: step_def run_translate_def next_ip_def)
qed

lemma nth_match:
  assumes "ordered_matches lo n ms" "k < length ms"
  shows "\<exists>a b r. ms ! k = a # b # r \<and> lo \<le> a \<and> a \<le> b \<and> b \<le> n"
  using assms
proof (induction ms arbitrary: lo k)
  case (Cons m ms)
  obtain a b r where m: "m = a # b # r" "lo \<le> a" "a \<le> b" "b \<le> n" "ordered_matches b n ms"
    using Cons.prems(1) by (auto split: list.splits)
  have "ordered_matches lo n ms" using ordered_mono [OF m(5)] m(2,3) by simp
  then show ?case using Cons.IH m Cons.prems(2) by (cases k) auto
qed simp

lemma subst_one:
  assumes "rx_ok env" "k < length (rx_find env re (pat v))" "rx_find env re (pat v) ! k = a # b # r"
  shows "step env (ISubst re repl (int k) False False) v = Some (v\<lparr>ip := ip v + 1,
    pat := take (nat a) (pat v) @ rx_expand env re repl (pat v) (a # b # r) @ drop (nat b) (pat v), modified := True\<rparr>, None)"
proof -
  have "0 \<le> a" "a \<le> b" "b \<le> int (length (pat v))"
    using nth_match [of 0 "int (length (pat v))" "rx_find env re (pat v)" k] assms by (auto simp: rx_ok_def)
  then show ?thesis using assms(2,3)
    by (simp add: step_def run_subst_def next_ip_def str_slice_def take_all nat_diff_distrib)
qed

subsection \<open>Ranges of line numbers\<close>

text \<open>A two-address condition on line numbers, met on the lines 1, 2, \dots, \<open>n\<close> in turn.\<close>

fun visit_lines :: "'re sed_env \<Rightarrow> nat \<Rightarrow> int \<Rightarrow> int \<Rightarrow> nat \<Rightarrow> nat \<Rightarrow> nat \<Rightarrow> vm \<Rightarrow> vm" where
  "visit_lines env k a b m u 0 v = v"
| "visit_lines env k a b m u (Suc n) v =
     fst (run_twocond env k (NumberCond a) (NumberCond b) m u
       ((visit_lines env k a b m u n v)\<lparr>lineno := int (Suc n)\<rparr>))"

lemma visit_cells:
  assumes "cells v k = (False, 0)" "1 \<le> a"
  shows "cells (visit_lines env k a b m u n v) k =
    (if int n < a then (False, 0) else if b \<le> a \<or> int n < b then (True, 0) else if int n = b then (True, b) else (False, 0))"
proof (induction n)
  case (Suc n)
  then show ?case using assms(2) by (auto simp: run_twocond_def isMet_def Let_def split: prod.split if_splits)
qed (use assms in simp)

lemma visit_ip:
  assumes "cells v k = (False, 0)" "1 \<le> a"
  shows "ip (visit_lines env k a b m u (Suc n) v)
    = int (if a \<le> int (Suc n) \<and> (b \<le> a \<or> int (Suc n) \<le> b) then m else u)"
  using visit_cells [OF assms, of env b m u n] assms(2)
  by (auto simp: run_twocond_def isMet_def Let_def split: prod.split if_splits)

section \<open>Package gosed: from a script to a program\<close>

text \<open>
  The lexer on plain texts, the program of a global substitution, and the scripts on which
  \<open>makeEngine\<close> never returns.
\<close>

subsection \<open>Reading plain texts\<close>

lemma ReadRune_ascii:
  assumes "rest r = c # t" "ascii c"
  shows "\<exists>r'. ReadRune r = (byte c, None, r') \<and> rest r' = t"
  using assms by (simp add: ReadRune_def decode_rune_ascii Let_def)

lemma ReadRune_end: "rest r = [] \<Longrightarrow> \<exists>r'. ReadRune r = (0, Some LexEOF, r') \<and> rest r' = []"
  by (simp add: ReadRune_def)

text \<open>Texts that need no escape between delimiters.\<close>

definition plain :: "char \<Rightarrow> string \<Rightarrow> bool" where
  "plain d s \<longleftrightarrow> list_all ascii s \<and> d \<notin> set s \<and> nl \<notin> set s \<and> cr \<notin> set s \<and> bsl \<notin> set s"

lemma byte_inj: "byte c = byte d \<longleftrightarrow> c = d"
  by simp

lemma readDelimited_loop_plain:
  assumes "plain d s" "ascii d" "d \<noteq> nl" "rest r = s @ d # t" "prev \<noteq> byte bsl"
  shows "\<exists>r'. readDelimited_loop (byte d) r prev buf = (buf @ s, None, r') \<and> rest r' = t"
  using assms
proof (induction s arbitrary: r prev buf)
  case Nil
  obtain r' where "ReadRune r = (byte d, None, r')" "rest r' = t" using ReadRune_ascii [of r d t] Nil.prems by auto
  moreover have "byte d \<noteq> byte nl" using Nil.prems(3) by (simp only: byte_inj not_False_eq_True)
  ultimately show ?case using Nil.prems(5) by (subst readDelimited_loop.simps) (simp add: delimiter_error_def)
next
  case (Cons c s)
  have c: "ascii c" "c \<noteq> d" "c \<noteq> nl" "c \<noteq> bsl" "plain d s" using Cons.prems(1) by (auto simp: plain_def)
  obtain r' where r': "ReadRune r = (byte c, None, r')" "rest r' = s @ d # t"
    using ReadRune_ascii [of r c "s @ d # t"] Cons.prems c by auto
  have b: "byte c \<noteq> byte d" "byte c \<noteq> byte nl" "byte c \<noteq> byte bsl" using c by (simp_all only: byte_inj not_False_eq_True)
  have "\<exists>r2. readDelimited_loop (byte d) r' (byte c) (buf @ [c]) = ((buf @ [c]) @ s, None, r2) \<and> rest r2 = t"
    using Cons.IH [OF c(5) Cons.prems(2,3) r'(2) b(3)] .
  then show ?case using r'(1) c(1) b by (subst readDelimited_loop.simps) (simp add: encode_rune_ascii)
qed

lemma readReplacement_loop_plain:
  assumes "plain d s" "ascii d" "d \<noteq> nl" "d \<noteq> cr" "rest r = s @ d # t" "prev \<noteq> byte bsl"
  shows "\<exists>r'. readReplacement_loop (byte d) r prev buf = (buf @ s, None, r') \<and> rest r' = t"
  using assms
proof (induction s arbitrary: r prev buf)
  case Nil
  obtain r' where "ReadRune r = (byte d, None, r')" "rest r' = t" using ReadRune_ascii [of r d t] Nil.prems by auto
  moreover have "byte d \<noteq> byte nl" "byte d \<noteq> byte cr" using Nil.prems by (simp_all only: byte_inj not_False_eq_True)
  ultimately show ?case using Nil.prems(6) by (subst readReplacement_loop.simps) (simp add: delimiter_error_def)
next
  case (Cons c s)
  have c: "ascii c" "c \<noteq> d" "c \<noteq> nl" "c \<noteq> bsl" "c \<noteq> cr" "plain d s" using Cons.prems(1) by (auto simp: plain_def)
  obtain r' where r': "ReadRune r = (byte c, None, r')" "rest r' = s @ d # t"
    using ReadRune_ascii [of r c "s @ d # t"] Cons.prems c by auto
  have b: "byte c \<noteq> byte d" "byte c \<noteq> byte nl" "byte c \<noteq> byte bsl" "byte c \<noteq> byte cr" using c by (simp_all only: byte_inj not_False_eq_True)
  have "\<exists>r2. readReplacement_loop (byte d) r' (byte c) (buf @ [c]) = ((buf @ [c]) @ s, None, r2) \<and> rest r2 = t"
    using Cons.IH [OF c(6) Cons.prems(2-4) r'(2) b(3)] .
  then show ?case using r'(1) c(1) b Cons.prems(6) by (subst readReplacement_loop.simps) (simp add: encode_rune_ascii)
qed

lemma readDelimited_plain:
  assumes "plain d s" "ascii d" "d \<noteq> nl" "rest r = s @ d # t"
  shows "\<exists>r'. readDelimited r (byte d) = (s, None, r') \<and> rest r' = t"
  using readDelimited_loop_plain [OF assms, of 0 "[]"] by (simp add: readDelimited_def)

lemma readReplacement_plain:
  assumes "plain d s" "ascii d" "d \<noteq> nl" "d \<noteq> cr" "rest r = s @ d # t"
  shows "\<exists>r'. readReplacement r (byte d) = (s, None, r') \<and> rest r' = t"
  using readReplacement_loop_plain [OF assms, of 0 "[]"] by (simp add: readReplacement_def)

subsection \<open>A global substitution\<close>

definition s_script :: "string \<Rightarrow> string \<Rightarrow> string" where
  "s_script p r = ''s/'' @ p @ ''/'' @ r @ ''/g''"

lemma ws_ascii:
  assumes "rest r = c # t" "ascii c" "\<not> unicode_IsSpace (byte c)" "c \<noteq> CHR ''#''"
  shows "\<exists>r'. skipWS r = (byte c, None, r') \<and> rest r' = t"
proof -
  obtain r' where "ReadRune r = (byte c, None, r')" "rest r' = t" using ReadRune_ascii [OF assms(1,2)] by blast
  moreover have "byte c \<noteq> byte nl" using assms(3) by (auto simp: unicode_IsSpace_def)
  moreover have "byte c \<noteq> byte CHR ''#''" using assms(4) by (simp only: byte_inj not_False_eq_True)
  ultimately show ?thesis using assms(3) by (subst skipWS.simps) simp
qed

lemma ws_end:
  assumes "rest r = []"
  shows "\<exists>r'. skipWS r = (0, Some LexEOF, r')"
  using ReadRune_end [OF assms] by (subst skipWS.simps) (auto simp: unicode_IsSpace_def)

lemma readIdentifier_g:
  assumes "rest r = ''g''"
  shows "\<exists>r'. readIdentifier r = (''g'', Some LexEOF, r') \<and> rest r' = []"
proof -
  obtain r1 where 1: "skipWS r = (byte CHR ''g'', None, r1)" "rest r1 = []"
    using ws_ascii [of r "CHR ''g''" "[]"] assms by (auto simp: ascii_def unicode_IsSpace_def)
  obtain r2 where "ReadRune r1 = (0, Some LexEOF, r2)" "rest r2 = []" using ReadRune_end [OF 1(2)] by blast
  then show ?thesis using 1(1) encode_rune_ascii [of "CHR ''g''"]
    by (simp add: readIdentifier_def readIdentifier_loop.simps [of r1] unread_if_ok_def unicode_IsSpace_def ascii_def)
qed

lemma lex_s_script:
  assumes "plain CHR ''/'' p" "plain CHR ''/'' r"
  shows "\<exists>l. lex (s_script p r) = ([tok l tok_CMD (byte CHR ''s'') [p, r, ''g'']], None)"
proof -
  let ?d = "CHR ''/''" and ?r0 = "new_reader (s_script p r)"
  obtain r1 where 1: "skipWS ?r0 = (byte CHR ''s'', None, r1)" "rest r1 = ?d # p @ ?d # r @ ?d # ''g''"
    using ws_ascii [of ?r0 "CHR ''s''" "?d # p @ ?d # r @ ?d # ''g''"]
    by (auto simp: new_reader_def s_script_def ascii_def unicode_IsSpace_def)
  obtain r2 where 2: "ReadRune r1 = (byte ?d, None, r2)" "rest r2 = p @ ?d # r @ ?d # ''g''"
    using ReadRune_ascii [OF 1(2)] by (auto simp: ascii_def)
  obtain r3 where 3: "readDelimited r2 (byte ?d) = (p, None, r3)" "rest r3 = r @ ?d # ''g''"
    using readDelimited_plain [OF assms(1) _ _ 2(2)] by (auto simp: ascii_def)
  obtain r4 where 4: "readReplacement r3 (byte ?d) = (r, None, r4)" "rest r4 = ''g''"
    using readReplacement_plain [OF assms(2) _ _ _ 3(2)] by (auto simp: ascii_def)
  obtain r5 where 5: "readIdentifier r4 = (''g'', Some LexEOF, r5)" using readIdentifier_g [OF 4(2)] by blast
  have "readSubstitution r1 = ([p, r, ''g''], Some LexEOF, r5)" using 2 3 4 5 by (simp add: readSubstitution_def)
  then show ?thesis using 1 by (auto simp: lex_def lex_loop.simps [of ?r0] lex_token_def)
qed

lemma New_s_script:
  assumes "plain CHR ''/'' p" "plain CHR ''/'' r" "rx_compile env p = Inr rx"
  shows "New env (s_script p r) = Some (Inr (line_prog [ISubst rx r 0 False True]))"
proof -
  obtain l where l: "lex (s_script p r) = ([tok l tok_CMD (byte CHR ''s'') [p, r, ''g'']], None)"
    using lex_s_script [OF assms(1,2)] by blast
  have "runes ''g'' = [103]" by (simp add: runes_def range_str.simps decode_rune.simps)
  then have "newSubstitution env p r ''g'' l = Inr (ISubst rx r 0 False True)"
    using assms(3) by (simp add: newSubstitution_def Let_def)
  then show ?thesis using l
    by (simp add: New_def makeEngine_def parse_def parse_init_def toplevel_token_def compile_cmd_def tok_def arg_def
        emit_or_fail_def emit_def parse_finish_def line_prog_def channel_capacity_def)
qed

lemma New_empty: "New env [] = Some (Inr (line_prog []))"
  by (simp add: New_def makeEngine_def lex_def lex_loop.simps new_reader_def skipWS.simps ReadRune_def parse_def
      parse_init_def parse_finish_def emit_def line_prog_def channel_capacity_def unicode_IsSpace_def)

subsection \<open>Scripts that never compile\<close>

lemma lex_prints:
  "rest r = replicate n CHR ''p'' \<Longrightarrow> \<exists>ts l'. lex_loop r l = (ts, LexEOF, l') \<and> length ts = n"
proof (induction n arbitrary: r l)
  case 0
  then show ?case using ws_end [of r] by (auto simp: lex_loop.simps [of r])
next
  case (Suc n)
  obtain r1 where 1: "skipWS r = (byte CHR ''p'', None, r1)" "rest r1 = replicate n CHR ''p''"
    using ws_ascii [of r "CHR ''p''" "replicate n CHR ''p''"] Suc.prems by (auto simp: ascii_def unicode_IsSpace_def)
  have "lex_token (byte CHR ''p'') r1 = (tok (rloc r1) tok_CMD (byte CHR ''p'') [], None, r1)"
    by (simp add: lex_token_def Let_def unicode_IsDigit_def digit_blocks_def)
  moreover obtain ts l' where "lex_loop r1 (rloc r1) = (ts, LexEOF, l')" "length ts = n" using Suc.IH [OF 1(2)] by blast
  ultimately show ?case using 1(1) by (simp add: lex_loop.simps [of r])
qed

lemma lex_brace_prints:
  "\<exists>l ts. lex (CHR ''}'' # replicate n CHR ''p'') = (tok l tok_RBRACE (byte CHR ''}'') [] # ts, None) \<and> length ts = n"
proof -
  let ?r = "new_reader (CHR ''}'' # replicate n CHR ''p'')"
  obtain r1 where 1: "skipWS ?r = (byte CHR ''}'', None, r1)" "rest r1 = replicate n CHR ''p''"
    using ws_ascii [of ?r "CHR ''}''" "replicate n CHR ''p''"] by (auto simp: new_reader_def ascii_def unicode_IsSpace_def)
  moreover obtain ts l' where "lex_loop r1 (rloc r1) = (ts, LexEOF, l')" "length ts = n" using lex_prints [OF 1(2)] by blast
  ultimately show ?thesis by (auto simp: lex_def lex_loop.simps [of ?r] lex_token_def Let_def)
qed

lemma makeEngine_total:
  assumes "makeEngine env s q = None"
  shows "\<exists>e left. parse env (fst (lex s)) q = Some (Inl e, left) \<and> channel_capacity < length left"
proof -
  obtain ts le where l: "lex s = (ts, le)" by fastforce
  obtain ps where p: "parse env ts q = Some (parse_finish ps, toks ps)" using parse_total [of env ts q] .
  then have g: "channel_capacity < length (toks ps)"
    using assms l by (auto simp: makeEngine_def split: if_splits)
  then have "parse_finish ps \<noteq> Inr prog" for prog using parse_accepts_all [of env ts q prog] p by auto
  then show ?thesis using p g l by (cases "parse_finish ps") auto
qed

subsection \<open>Evaluating concrete scripts and runs\<close>

lemma run_next:
  "0 \<le> ip v \<Longrightarrow> ip v < int (length prog) \<Longrightarrow> step env (prog ! nat (ip v)) v = Some (v', None) \<Longrightarrow>
   run env prog v = run env prog v'"
  by (subst run.simps) simp

lemma run_stop:
  "0 \<le> ip v \<Longrightarrow> ip v < int (length prog) \<Longrightarrow> step env (prog ! nat (ip v)) v = Some (v', Some e) \<Longrightarrow>
   run env prog v = Some (Ret (v', e))"
  by (subst run.simps) simp

lemma copy_next:
  "vm_Read env prog (Some (sizes 0)) v = Some (Ret (out, None, v')) \<Longrightarrow>
   copy_from env prog sizes acc v = copy_from env prog (\<lambda>i. sizes (Suc i)) (acc @ out) v'"
  by (subst copy_from.simps) simp

lemma copy_stop:
  "vm_Read env prog (Some (sizes 0)) v = Some (Ret (out, Some e, v')) \<Longrightarrow>
   copy_from env prog sizes acc v = Some (Ret (acc @ out, if e = EOF then None else Some e, v'))"
  by (subst copy_from.simps) simp

lemmas vm_simps = RunString_def vm_Read_def read_start_def step_def Wrap_def fresh_cells_def cmd_fillNext_def refill_def
  read_line_def next_ip_def drop_cr_def writeString_def run_appender_def cmd_fillNextAppend_def cmd_print_def
  cmd_branch_def bind_res_def run_next run_stop copy_next copy_stop

lemmas lex_simps = lex_def lex_loop.simps new_reader_def skipWS.simps ReadRune_def decode_rune.simps lex_token_def tok_def
  readMultiLine_def readMultiLine_loop.simps ReadLine_def read_line_def full_pieces.simps drop_cr_def unicode_IsSpace_def
  unicode_IsDigit_def digit_blocks_def

lemmas parse_simps = parse_def parse_init_def parse_finish_def toplevel_token_def compile_cmd_def arg_def emit_def

end
