(* ===== verification/Sed_Props.thy ===== *)
theory Sed_Props
  imports Sed_Script
begin

section \<open>Package gosed: properties\<close>

text \<open>
  What holds of the sed engine: its output does not depend on the buffers it is read with, the
  programs it accepts never panic, and a script is followed from its text to the edited file.
  \<open>letter_env\<close> is an instance of the regular expressions, with patterns of one letter.
\<close>

subsection \<open>An instance\<close>

fun letter_find :: "char \<Rightarrow> int \<Rightarrow> string \<Rightarrow> int list list" where
  "letter_find c i [] = []"
| "letter_find c i (x # xs) = (if x = c then [[i, i + 1]] else []) @ letter_find c (i + 1) xs"

definition letter_env :: "char sed_env" where
  "letter_env = \<lparr>rx_compile = (\<lambda>p. case p of [c] \<Rightarrow> Inr c | _ \<Rightarrow> Inl ''pattern''),
     rx_match = (\<lambda>c s. c \<in> set s), rx_find = (\<lambda>c s. letter_find c 0 s),
     rx_expand = (\<lambda>c repl s idx. repl), read_file = (\<lambda>f. Inl ''no file''), append_err = (\<lambda>f. None)\<rparr>"

definition letter_os :: "string \<Rightarrow> file_os" where
  "letter_os s = \<lparr>os_ReadFile = (\<lambda>p. Inr s), os_Open = (\<lambda>p. None), os_Stat = (\<lambda>p. Inr 420),
     os_WriteFile = (\<lambda>p t m. None)\<rparr>"

lemma letter_find_ordered: "lo \<le> i \<Longrightarrow> ordered_matches lo (i + int (length s)) (letter_find c i s)"
proof (induction s arbitrary: i lo)
  case (Cons x xs)
  then show ?case using Cons.IH [of "i + 1" "i + 1"] Cons.IH [of lo "i + 1"] by (simp add: add.assoc)
qed simp

lemma letter_env_ok: "rx_ok letter_env"
  using letter_find_ordered [of 0 0] by (simp add: rx_ok_def letter_env_def)

lemma letter_compile [simp]: "rx_compile letter_env [c] = Inr c"
  by (simp add: letter_env_def)

lemma New_ab: "New letter_env (s_script ''a'' ''b'') = Some (Inr (line_prog [ISubst CHR ''a'' ''b'' 0 False True]))"
  by (rule New_s_script) (simp_all add: plain_def ascii_def)

lemma replace_ab: "replace_all letter_env CHR ''a'' ''b'' ''xaya'' = ''xbyb''"
  by (simp add: replace_all_def replaced_at_def covers_def letter_env_def)

lemma lines_xaya: "lines_of ''xaya'' = [''xaya'']"
  by (simp add: lines_of.simps read_line_def)

subsection \<open>Running programs\<close>

text \<open>
  C9. The lazy reader is independent of its buffers: whatever the sizes of the slices that \<open>Read\<close>
  is called with, as long as none is empty, the bytes \<open>RunString\<close> collects, the error and the files
  written are those of the machine that has room for everything, for every program without the
  command \<open>N\<close>.
\<close>

theorem reading_in_pieces:
  assumes "IFillNextAppend \<notin> set prog" "\<forall>i. 0 < sizes i" "sed_output env prog cs inp = Some (Ret (u, e))"
  shows "\<exists>v. RunString env prog sizes cs inp = Some (Ret (written u, if e = EOF then None else Some e, v)) \<and> files v = files u"
  using assms by (rule RunString_correct)

theorem reading_in_pieces_witness:
  "\<exists>u v. sed_output letter_env (line_prog []) fresh_cells ''xaya'' = Some (Ret (u, EOF)) \<and> written u = ''xaya'' @ [nl]
     \<and> RunString letter_env (line_prog []) (\<lambda>i. 1) fresh_cells ''xaya'' = Some (Ret (written u, None, v))"
proof -
  obtain u where u: "sed_output letter_env (line_prog []) fresh_cells ''xaya'' = Some (Ret (u, EOF))"
      "written u = print_lines (lines_of ''xaya'')"
    using edit_output [of letter_env "[]" "[]"] by auto
  have "IFillNextAppend \<notin> set (line_prog [])" by (simp add: line_prog_def)
  from reading_in_pieces [OF this _ u(1), of "\<lambda>i. 1"] u show ?thesis by (auto simp: lines_xaya)
qed

text \<open>
  C10. A script that compiles gives a program whose jumps all stay inside it and which never makes
  the machine panic, on any input and with any buffers, provided the regular expressions report
  matches in order and within the line.
\<close>

theorem compiled_programs_never_panic:
  assumes "makeEngine env script q = Some (Inr prog)" "rx_ok env"
  shows "jumps_inside prog \<and> RunString env prog sizes cs inp \<noteq> Some Panic"
proof -
  obtain ts l left where "lex script = (ts, l)" "parse env ts q = Some (Inr prog, left)"
    using assms(1) by (auto simp: makeEngine_def split: prod.splits option.splits sum.splits if_splits)
  then have w: "wf_prog prog" using parse_wf by blast
  have "copy_from env prog sizes [] (Wrap cs inp) = Some r \<Longrightarrow> r \<noteq> Panic" for r
    using copy_no_panic [OF w assms(2)] by (simp add: Wrap_def)
  then show ?thesis using w by (auto simp: RunString_def wf_prog_def)
qed

theorem compiled_programs_never_panic_witness:
  "RunString letter_env (line_prog [ISubst CHR ''a'' ''b'' 0 False True]) (\<lambda>i. 1) fresh_cells ''xaya'' \<noteq> Some Panic"
  using compiled_programs_never_panic [of letter_env "s_script ''a'' ''b''" False] New_ab letter_env_ok by (auto simp: New_def)

text \<open>
  C11. A global substitution from its text to its result: for a pattern that compiles and a pattern
  and replacement without special characters, \<open>SedString\<close> returns every line of the data with all
  matches replaced, each line ended by a line feed, whatever the buffers: at each position of a line stand the
  replacements of the matches that start there, and the character there if no match covers it (\<open>replace_all\<close>). The
  regular expressions report matches in order and within the line.
\<close>

theorem global_substitution:
  assumes "plain CHR ''/'' p" "plain CHR ''/'' r" "rx_compile env p = Inr rx" "rx_ok env" "\<forall>i. 0 < sizes i"
  shows "SedString env os sizes (s_script p r) data
    = Some (Ret ((False, print_lines (map (replace_all env rx r) (lines_of data)), None), []))"
proof -
  have "list_all2 (edits env) [ISubst rx r 0 False True] [replace_all env rx r]" using edits_subst_all [OF assms(4)] by simp
  from edit_RunString [OF this _ assms(5), of fresh_cells data] show ?thesis
    using New_s_script [OF assms(1-3)] by (auto simp: SedString_def SedFunc_def)
qed

theorem global_substitution_witness:
  "SedString letter_env (letter_os []) (\<lambda>i. 1) (s_script ''a'' ''b'') ''xaya'' = Some (Ret ((False, ''xbyb'' @ [nl], None), []))"
  using global_substitution [of "''a''" "''b''" letter_env "CHR ''a''" "\<lambda>i. 1"] letter_env_ok
  by (simp add: plain_def ascii_def lines_xaya replace_ab)

text \<open>
  Editing a file: \<open>Sed\<close> writes the file at most once, only when it reports a change, and then
  with the mode it had and exactly the output of the program, which differs from the contents. An
  error leaves the file alone.
\<close>

lemma file_written_once:
  assumes "Sed env os sizes script path = Some (Ret ((changed, ret, er), ws))"
  shows "ret = [] \<and> (if changed
     then er = None \<and> (\<exists>prog old new mode v. New env script = Some (Inr prog) \<and> os_ReadFile os path = Inr old
            \<and> RunString env prog sizes fresh_cells old = Some (Ret (new, None, v)) \<and> new \<noteq> old
            \<and> os_Stat os path = Inr mode \<and> ws = [(path, new, mode)])
     else ws = [])"
proof -
  have "\<exists>prog. New env script = Some (Inr prog) \<and> edit_file env os sizes prog path = Some (Ret ((changed, ret, er), ws))
    \<or> (changed, ret, ws) = (False, [], [])"
    using assms by (auto simp: Sed_def SedFunc_def failed_def split: option.splits sum.splits)
  then show ?thesis by (fastforce dest: edit_file_cases simp: failed_def)
qed

text \<open>
  The empty script copies a text: on lines without line ends of their own, \<open>SedString\<close> returns
  the text it was given.
\<close>

lemma empty_script_copies:
  assumes "\<forall>l \<in> set ls. nl \<notin> set l \<and> (l = [] \<or> last l \<noteq> cr)" "\<forall>i. 0 < sizes i"
  shows "SedString env os sizes [] (print_lines ls) = Some (Ret ((False, print_lines ls, None), []))"
proof -
  obtain v where "RunString env (line_prog []) sizes fresh_cells (print_lines ls)
      = Some (Ret (print_lines (map id (lines_of (print_lines ls))), None, v))"
    using edit_RunString [of env "[]" "[]" sizes fresh_cells "print_lines ls"] assms(2) by (auto simp: id_def)
  then show ?thesis using lines_of_print [OF assms(1)] New_empty [of env] by (simp add: SedString_def SedFunc_def)
qed

subsection \<open>Compiling\<close>

text \<open>
  C12. Compiling ends: \<open>makeEngine\<close> returns on every script, except when the parser has stopped at an
  error with more tokens left than the channel of the lexer holds; then it waits forever. A script
  that the parser accepts is always compiled.
\<close>

theorem makeEngine_blocks_iff:
  "makeEngine env script q = None \<longleftrightarrow>
     (\<exists>e left. parse env (fst (lex script)) q = Some (Inl e, left) \<and> 128 < length left)"
proof
  show "makeEngine env script q = None" if "\<exists>e left. parse env (fst (lex script)) q = Some (Inl e, left) \<and> 128 < length left"
    using that by (auto simp: makeEngine_def channel_capacity_def split: prod.split)
qed (use makeEngine_total [of env script q] in \<open>simp add: channel_capacity_def\<close>)

text \<open>
  It does happen: a closing brace that is not open, followed by more than 128 commands, makes
  \<open>New\<close> wait forever instead of reporting the brace.
\<close>

lemma unopened_brace_blocks:
  assumes "128 < n"
  shows "New env (CHR ''}'' # replicate n CHR ''p'') = None"
proof -
  obtain l ts where l: "lex (CHR ''}'' # replicate n CHR ''p'') = (tok l tok_RBRACE (byte CHR ''}'') [] # ts, None)" "length ts = n"
    using lex_brace_prints by blast
  have "parse env (tok l tok_RBRACE (byte CHR ''}'') [] # ts) False = Some (Inl (UnexpectedBrace l), ts)"
    by (simp add: parse_def parse_init_def toplevel_token_def tok_def parse_finish_def)
  then show ?thesis using l assms by (simp add: New_def makeEngine_def channel_capacity_def)
qed

text \<open>
  The text of an \<open>a\<close>, \<open>i\<close> or \<open>c\<close> command that is a single character on the line of the command
  is lost, because the length of the line is compared before the backslash is taken off; two
  characters, or the same character on a line of its own, are kept.
\<close>

lemma short_text_lost:
  "map args (fst (lex ''ax'')) = [[[]]] \<and> map args (fst (lex ''axy'')) = [[''xy'' @ [nl]]]
   \<and> map args (fst (lex (''a'' @ [bsl, nl] @ ''x''))) = [[''x'' @ [nl]]]"
  by (simp add: lex_simps)

subsection \<open>Commands\<close>

text \<open>
  A range of line numbers \<open>a,b\<close> selects the lines from \<open>a\<close> to \<open>b\<close> when \<open>b\<close> comes after \<open>a\<close>;
  otherwise it selects every line from \<open>a\<close> on, because the end is not looked for on the line that
  starts the range.
\<close>

lemma number_ranges:
  assumes "cells v k = (False, 0)" "1 \<le> a"
  shows "ip (visit_lines env k a b m u (Suc n) v)
    = int (if a \<le> int (Suc n) \<and> (b \<le> a \<or> int (Suc n) \<le> b) then m else u)"
  using assms by (rule visit_ip)

text \<open>
  A substitution with a count replaces that match only: the text before and after it is kept
  byte for byte, and the flag tested by \<open>t\<close> is set.
\<close>

lemma nth_match_replaced:
  assumes "rx_ok env" "k < length (rx_find env re (pat v))" "rx_find env re (pat v) ! k = a # b # r"
  shows "step env (ISubst re repl (int k) False False) v = Some (v\<lparr>ip := ip v + 1,
    pat := take (nat a) (pat v) @ rx_expand env re repl (pat v) (a # b # r) @ drop (nat b) (pat v), modified := True\<rparr>, None)"
  using assms by (rule subst_one)

text \<open>
  The command \<open>N\<close> does depend on the buffers: when the text of an \<open>a\<close> command fills the slice
  before the next line is read, the pattern space is doubled.
\<close>

definition append_next :: "'re instr list" where
  "append_next = [IFillNext, IAppender (''t'' @ [nl]), IFillNextAppend, IPrint, IBranch 0]"

lemma next_line_doubled:
  "makeEngine env (''a'' @ [bsl, nl] @ ''t'' @ [nl] @ ''N'') False = Some (Inr append_next)
   \<and> (\<exists>v. RunString env append_next (\<lambda>i. 9) fresh_cells (''x'' @ [nl] @ ''y'')
          = Some (Ret (''t'' @ [nl] @ ''x'' @ [nl] @ ''y'' @ [nl], None, v)))
   \<and> (\<exists>v. RunString env append_next (\<lambda>i. 1) fresh_cells (''x'' @ [nl] @ ''y'')
          = Some (Ret (''t'' @ [nl] @ ''x'' @ [nl] @ ''x'' @ [nl] @ ''y'' @ [nl], None, v)))"
  by (intro conjI)
    (simp add: makeEngine_def lex_simps parse_simps channel_capacity_def append_next_def,
     simp_all add: vm_simps append_next_def)

end
