(* ===== verification/Ssh_Lex.thy ===== *)
theory Ssh_Lex
  imports Go_Prelude
begin

section \<open>Package ssh\_config: the lexer\<close>

text \<open>
  \<^verbatim>\<open>ssh_config/{lexer,token,position}.go\<close>. The state functions of the code are the values of
  \<open>lexState\<close>, and \<open>lex_state\<close> runs one of them; \<open>lexComment\<close> is only ever called with \<open>lexVoid\<close> to
  go back to. The input that is still unread is the list \<open>rest\<close> (the code keeps the whole input and
  an index into it), so \<open>peek\<close> gives \<open>None\<close> for the rune -1 that stands for the end. The channel is
  the list of the tokens sent.
\<close>

record Position =
  Line :: int
  Col :: int

definition Position_Invalid :: "Position \<Rightarrow> bool" where
  "Position_Invalid p \<longleftrightarrow> Line p \<le> 0 \<or> Col p \<le> 0"

datatype tokenType = tokenError | tokenEOF | tokenEmptyLine | tokenComment | tokenKey | tokenEquals | tokenString

record token =
  tpos :: Position
  ttype :: tokenType
  val :: string

definition isSpace :: "rune option \<Rightarrow> bool" where
  "isSpace r \<longleftrightarrow> r = Some (byte sp) \<or> r = Some (byte tab)"

definition isKeyStartChar :: "rune option \<Rightarrow> bool" where
  "isKeyStartChar r \<longleftrightarrow> \<not> (isSpace r \<or> r = Some (byte cr) \<or> r = Some (byte nl) \<or> r = None)"

definition isKeyChar :: "rune option \<Rightarrow> bool" where
  "isKeyChar r \<longleftrightarrow> \<not> (r = Some (byte cr) \<or> r = Some (byte nl) \<or> r = None \<or> r = Some (byte CHR ''=''))"

record sshLexer =
  rest :: "rune list"
  buffer :: "rune list"
  tokens :: "token list"
  lline :: int
  lcol :: int
  endbufferLine :: int
  endbufferCol :: int

subsection \<open>Reading and sending\<close>

definition peek :: "sshLexer \<Rightarrow> rune option" where
  "peek s = (case rest s of [] \<Rightarrow> None | r # rs \<Rightarrow> Some r)"

definition read :: "sshLexer \<Rightarrow> rune option \<times> sshLexer" where
  "read s =
     (let r = peek s;
          s1 = (if r = Some (byte nl) then s\<lparr>endbufferLine := endbufferLine s + 1, endbufferCol := 1\<rparr>
                else s\<lparr>endbufferCol := endbufferCol s + 1\<rparr>)
      in (r, s1\<lparr>rest := tl (rest s)\<rparr>))"

definition lexer_next :: "sshLexer \<Rightarrow> sshLexer" where
  "lexer_next s =
     (let (r, s1) = read s in case r of None \<Rightarrow> s1 | Some c \<Rightarrow> s1\<lparr>buffer := buffer s1 @ [c]\<rparr>)"

definition ignore :: "sshLexer \<Rightarrow> sshLexer" where
  "ignore s = s\<lparr>buffer := [], lline := endbufferLine s, lcol := endbufferCol s\<rparr>"

definition skip :: "sshLexer \<Rightarrow> sshLexer" where
  "skip s = ignore (lexer_next s)"

definition emitWithValue :: "tokenType \<Rightarrow> string \<Rightarrow> sshLexer \<Rightarrow> sshLexer" where
  "emitWithValue t v s =
     ignore (s\<lparr>tokens := tokens s @ [\<lparr>tpos = \<lparr>Line = lline s, Col = lcol s\<rparr>, ttype = t, val = v\<rparr>]\<rparr>)"

definition string_of_runes :: "rune list \<Rightarrow> string" where
  "string_of_runes rs = concat (map encode_rune rs)"

definition emit :: "tokenType \<Rightarrow> sshLexer \<Rightarrow> sshLexer" where
  "emit t s = emitWithValue t (string_of_runes (buffer s)) s"

definition follow :: "rune list \<Rightarrow> sshLexer \<Rightarrow> bool" where
  "follow nxt s \<longleftrightarrow> take (length nxt) (rest s) = nxt"

lemma rest_simps [simp]:
  "rest (lexer_next s) = tl (rest s)" "rest (ignore s) = rest s" "rest (skip s) = tl (rest s)"
  "rest (emitWithValue t v s) = rest s" "rest (emit t s) = rest s"
  by (simp_all add: lexer_next_def read_def ignore_def skip_def emitWithValue_def emit_def Let_def split: option.split)

lemma peek_Some: "peek s = Some r \<Longrightarrow> length (tl (rest s)) < length (rest s)"
  by (simp add: peek_def split: list.splits)

subsection \<open>The state functions\<close>

datatype lexState = LexVoid | LexComment | LexKey | LexEquals | LexRspace | LexRvalue

definition crlf :: "rune list" where
  "crlf = [byte cr, byte nl]"

function comment_loop :: "sshLexer \<Rightarrow> string \<Rightarrow> sshLexer \<times> string" where
  "comment_loop s growing =
     (case peek s of
        None \<Rightarrow> (s, growing)
      | Some c \<Rightarrow>
          if c = byte nl \<or> (c = byte cr \<and> follow crlf s) then (s, growing)
          else comment_loop (lexer_next s) (growing @ encode_rune c))"
  by pat_completeness auto
termination by (relation "measure (\<lambda>(s, g). length (rest s))") (auto dest: peek_Some)

definition lexComment :: "sshLexer \<Rightarrow> lexState option \<times> sshLexer" where
  "lexComment s =
     (let (s1, growing) = comment_loop s [] in (Some LexVoid, skip (emitWithValue tokenComment growing s1)))"

function lexRspace :: "sshLexer \<Rightarrow> lexState option \<times> sshLexer" where
  "lexRspace s = (if isSpace (peek s) then lexRspace (skip s) else (Some LexRvalue, s))"
  by pat_completeness auto
termination by (relation "measure (\<lambda>s. length (rest s))") (auto simp: isSpace_def dest: peek_Some)

function lexEquals :: "sshLexer \<Rightarrow> lexState option \<times> sshLexer" where
  "lexEquals s =
     (if peek s = Some (byte CHR ''='') then (Some LexRspace, skip (emit tokenEquals s))
      else if isSpace (peek s) then lexEquals (skip s)
      else (Some LexRvalue, s))"
  by pat_completeness auto
termination by (relation "measure (\<lambda>s. length (rest s))") (auto simp: isSpace_def dest: peek_Some)

function lexKey_loop :: "sshLexer \<Rightarrow> string \<Rightarrow> lexState option \<times> sshLexer" where
  "lexKey_loop s growing =
     (case peek s of
        None \<Rightarrow> (Some LexEquals, emitWithValue tokenKey growing s)
      | Some r \<Rightarrow>
          if isKeyChar (Some r)
          then if isSpace (Some r) \<or> r = byte CHR ''=''
               then (Some LexEquals, skip (emitWithValue tokenKey growing s))
               else lexKey_loop (lexer_next s) (growing @ encode_rune r)
          else (Some LexEquals, emitWithValue tokenKey growing s))"
  by pat_completeness auto
termination by (relation "measure (\<lambda>(s, g). length (rest s))") (auto dest: peek_Some)

definition lexKey :: "sshLexer \<Rightarrow> lexState option \<times> sshLexer" where
  "lexKey s = lexKey_loop s []"

function lexRvalue_loop :: "sshLexer \<Rightarrow> string \<Rightarrow> lexState option \<times> sshLexer" where
  "lexRvalue_loop s growing =
     (case peek s of
        None \<Rightarrow> (None, emit tokenEOF (lexer_next s))
      | Some c \<Rightarrow>
          if (c = byte cr \<and> follow crlf s) \<or> c = byte nl
          then (Some LexVoid, skip (emitWithValue tokenString growing s))
          else if c = byte CHR ''#'' then (Some LexComment, skip (emitWithValue tokenString growing s))
          else lexRvalue_loop (lexer_next s) (growing @ encode_rune c))"
  by pat_completeness auto
termination by (relation "measure (\<lambda>(s, g). length (rest s))") (auto dest: peek_Some)

definition lexRvalue :: "sshLexer \<Rightarrow> lexState option \<times> sshLexer" where
  "lexRvalue s = lexRvalue_loop s []"

function lexVoid :: "sshLexer \<Rightarrow> lexState option \<times> sshLexer" where
  "lexVoid s =
     (case peek s of
        None \<Rightarrow> (None, emit tokenEOF (lexer_next s))
      | Some c \<Rightarrow>
          if c = byte CHR ''#'' then (Some LexComment, skip s)
          else if c = byte cr \<or> c = byte nl then lexVoid (skip (emit tokenEmptyLine s))
          else if isSpace (Some c) then lexVoid (skip s)
          else (Some LexKey, s))"
  by pat_completeness auto
termination by (relation "measure (\<lambda>s. length (rest s))") (auto dest: peek_Some)

declare comment_loop.simps [simp del] lexRspace.simps [simp del] lexEquals.simps [simp del] lexKey_loop.simps [simp del]
  lexRvalue_loop.simps [simp del] lexVoid.simps [simp del]

definition lex_state :: "lexState \<Rightarrow> sshLexer \<Rightarrow> lexState option \<times> sshLexer" where
  "lex_state st s =
     (case st of
        LexVoid \<Rightarrow> lexVoid s
      | LexComment \<Rightarrow> lexComment s
      | LexKey \<Rightarrow> lexKey s
      | LexEquals \<Rightarrow> lexEquals s
      | LexRspace \<Rightarrow> lexRspace s
      | LexRvalue \<Rightarrow> lexRvalue s)"

subsection \<open>Every state reads on\<close>

fun rank :: "lexState \<Rightarrow> nat" where
  "rank LexComment = 5"
| "rank LexVoid = 4"
| "rank LexKey = 3"
| "rank LexEquals = 2"
| "rank LexRspace = 1"
| "rank LexRvalue = 0"

definition lower :: "lexState option \<times> sshLexer \<Rightarrow> nat \<Rightarrow> nat \<Rightarrow> bool" where
  "lower x n k \<longleftrightarrow> (case x of (None, s) \<Rightarrow> True | (Some st, s) \<Rightarrow> length (rest s) < n \<or> length (rest s) = n \<and> rank st < k)"

lemma lower_mono: "lower x n k \<Longrightarrow> n < n' \<Longrightarrow> lower x n' k'"
  by (auto simp: lower_def split: option.splits)

lemma comment_loop_rest: "comment_loop s g = (s', g') \<Longrightarrow> length (rest s') \<le> length (rest s)"
proof (induction s g rule: comment_loop.induct)
  case (1 s g)
  then show ?case by (fastforce simp: comment_loop.simps [of s] split: option.splits if_splits dest: peek_Some)
qed

lemma lexComment_lower: "lower (lexComment s) (length (rest s)) 5"
proof -
  obtain s' g' where c: "comment_loop s [] = (s', g')" by fastforce
  then show ?thesis using comment_loop_rest [OF c] by (auto simp: lexComment_def lower_def)
qed

lemma lexRspace_lower: "lower (lexRspace s) (length (rest s)) 1"
proof (induction s rule: lexRspace.induct)
  case (1 s)
  show ?case
  proof (cases "isSpace (peek s)")
    case True
    then have "length (tl (rest s)) < length (rest s)" by (auto simp: isSpace_def dest: peek_Some)
    then show ?thesis using lower_mono [OF 1 [OF True]] True by (simp add: lexRspace.simps [of s])
  qed (simp add: lexRspace.simps [of s] lower_def)
qed

lemma lexEquals_lower: "lower (lexEquals s) (length (rest s)) 2"
proof (induction s rule: lexEquals.induct)
  case (1 s)
  consider (eq) "peek s = Some (byte CHR ''='')" | (space) "peek s \<noteq> Some (byte CHR ''='')" "isSpace (peek s)"
    | (other) "peek s \<noteq> Some (byte CHR ''='')" "\<not> isSpace (peek s)" by blast
  then show ?case
  proof cases
    case eq
    then show ?thesis using peek_Some [OF eq] by (simp add: lexEquals.simps [of s] lower_def)
  next
    case space
    then have "length (tl (rest s)) < length (rest s)" by (auto simp: isSpace_def dest: peek_Some)
    then show ?thesis using lower_mono [OF 1] space by (simp add: lexEquals.simps [of s])
  next
    case other
    then show ?thesis by (simp add: lexEquals.simps [of s] lower_def)
  qed
qed

lemma lexKey_lower: "lower (lexKey_loop s g) (length (rest s)) 3"
proof (induction s g rule: lexKey_loop.induct)
  case (1 s g)
  show ?case
  proof (cases "peek s")
    case None
    then show ?thesis by (simp add: lexKey_loop.simps [of s] lower_def)
  next
    case (Some c)
    then show ?thesis using peek_Some [OF Some] 1 [OF Some] lower_mono [of _ "length (tl (rest s))" 3 "length (rest s)" 3]
      by (auto simp: lexKey_loop.simps [of s]) (auto simp: lower_def)
  qed
qed

lemma lexRvalue_lower: "lower (lexRvalue_loop s g) (length (rest s)) 0"
proof (induction s g rule: lexRvalue_loop.induct)
  case (1 s g)
  show ?case
  proof (cases "peek s")
    case None
    then show ?thesis by (simp add: lexRvalue_loop.simps [of s] lower_def)
  next
    case (Some c)
    then show ?thesis using peek_Some [OF Some] 1 [OF Some] lower_mono [of _ "length (tl (rest s))" 0 "length (rest s)" 0]
      by (auto simp: lexRvalue_loop.simps [of s]) (auto simp: lower_def)
  qed
qed

lemma lexVoid_lower: "lower (lexVoid s) (length (rest s)) 4"
proof (induction s rule: lexVoid.induct)
  case (1 s)
  show ?case
  proof (cases "peek s")
    case None
    then show ?thesis by (simp add: lexVoid.simps [of s] lower_def)
  next
    case (Some c)
    note l = peek_Some [OF Some]
    show ?thesis using Some l 1 [OF Some] lower_mono [of _ "length (tl (rest s))" 4 "length (rest s)" 4]
      by (auto simp: lexVoid.simps [of s]) (auto simp: lower_def)
  qed
qed

lemma lex_state_lower: "lower (lex_state st s) (length (rest s)) (rank st)"
  using lexVoid_lower [of s] lexComment_lower [of s] lexKey_lower [of s "[]"] lexEquals_lower [of s]
    lexRspace_lower [of s] lexRvalue_lower [of s "[]"]
  by (cases st) (simp_all add: lex_state_def lexKey_def lexRvalue_def)

subsection \<open>The whole input\<close>

function run :: "lexState \<Rightarrow> sshLexer \<Rightarrow> sshLexer" where
  "run st s = (case lex_state st s of (None, s1) \<Rightarrow> s1 | (Some st1, s1) \<Rightarrow> run st1 s1)"
  by pat_completeness auto
termination
proof (relation "measures [\<lambda>(st, s). length (rest s), \<lambda>(st, s). rank st]", goal_cases)
  case (2 st s x s1 st1)
  then show ?case using lex_state_lower [of st s] by (auto simp: lower_def split: option.splits)
qed simp

declare run.simps [simp del]

definition lexSSH :: "string \<Rightarrow> token list" where
  "lexSSH b =
     tokens (run LexVoid \<lparr>rest = runes b, buffer = [], tokens = [], lline = 1, lcol = 1, endbufferLine = 1,
       endbufferCol = 1\<rparr>)"

end
