(* ===== verification/Ssh_Config.thy ===== *)
theory Ssh_Config
  imports Ssh_Lex Outcome
begin

section \<open>Package ssh\_config: configurations\<close>

text \<open>
  \<^verbatim>\<open>ssh_config/config.go\<close>: patterns, hosts, nodes, lookup and printing. A file included by a directive
  is part of the \<open>Include\<close> node, so nodes, hosts and configurations are one recursive type. The table
  of lower case letters beyond ASCII, the files and the home directory are the parameters in
  \<open>ssh_env\<close>; \<open>ReadFile\<close> gives an error with the answer of \<^verbatim>\<open>os.IsNotExist\<close>.
\<close>

datatype os_error = OSErr string bool

record ssh_env =
  unicode_lower :: "rune \<Rightarrow> rune"
  ReadFile :: "string \<Rightarrow> os_error + string"
  Glob :: "string \<Rightarrow> string + string list"
  homedir :: string

subsection \<open>Strings and paths\<close>

definition lower_rune :: "ssh_env \<Rightarrow> rune \<Rightarrow> rune" where
  "lower_rune env r = (if r < 128 then (if 65 \<le> r \<and> r \<le> 90 then r + 32 else r) else unicode_lower env r)"

definition ToLower :: "ssh_env \<Rightarrow> string \<Rightarrow> string" where
  "ToLower env s = string_of_runes (map (lower_rune env) (runes s))"

text \<open>\<^verbatim>\<open>strings.Split\<close> at one byte.\<close>

fun split_at :: "char \<Rightarrow> string \<Rightarrow> string list" where
  "split_at c [] = [[]]"
| "split_at c (x # xs) =
     (if x = c then [] # split_at c xs
      else case split_at c xs of [] \<Rightarrow> [[x]] | w # ws \<Rightarrow> (x # w) # ws)"

fun join_with :: "string \<Rightarrow> string list \<Rightarrow> string" where
  "join_with sep [] = []"
| "join_with sep [w] = w"
| "join_with sep (w # ws) = w @ sep @ join_with sep ws"

text \<open>\<^verbatim>\<open>filepath.Clean\<close>, \<^verbatim>\<open>Join\<close> and \<^verbatim>\<open>IsAbs\<close> on Unix; the components kept so far are in reverse.\<close>

fun clean_comps :: "bool \<Rightarrow> string list \<Rightarrow> string list \<Rightarrow> string list" where
  "clean_comps rooted acc [] = rev acc"
| "clean_comps rooted acc (c # cs) =
     (if c = [] \<or> c = ''.'' then clean_comps rooted acc cs
      else if c = ''..'' then
        (case acc of
           [] \<Rightarrow> clean_comps rooted (if rooted then [] else [c]) cs
         | a # as \<Rightarrow> clean_comps rooted (if a = ''..'' then c # acc else as) cs)
      else clean_comps rooted (c # acc) cs)"

definition IsAbs :: "string \<Rightarrow> bool" where
  "IsAbs p \<longleftrightarrow> p \<noteq> [] \<and> hd p = CHR ''/''"

definition Clean :: "string \<Rightarrow> string" where
  "Clean p =
     (let q = (if IsAbs p then ''/'' else []) @ join_with ''/'' (clean_comps (IsAbs p) [] (split_at CHR ''/'' p))
      in if q = [] then ''.'' else q)"

definition path_join :: "string list \<Rightarrow> string" where
  "path_join elems = (case dropWhile (\<lambda>e. e = []) elems of [] \<Rightarrow> [] | es \<Rightarrow> Clean (join_with ''/'' es))"

definition isSystem :: "string \<Rightarrow> bool" where
  "isSystem filename \<longleftrightarrow> take 8 (Clean filename) = ''/etc/ssh''"

definition userConfigFinder :: "ssh_env \<Rightarrow> string" where
  "userConfigFinder env = path_join [homedir env, ''.ssh'', ''config'']"

definition systemConfigFinder :: string where
  "systemConfigFinder = path_join [''/'', ''etc'', ''ssh'', ''ssh_config'']"

subsection \<open>Patterns\<close>

text \<open>
  The regular expressions \<open>NewPattern\<close> builds: between the anchors, any number of characters
  (\<^verbatim>\<open>.*\<close>), at most one (\<^verbatim>\<open>.?\<close>), an escaped character or a plain one; the dot does not match a line
  feed. \<^verbatim>\<open>regexp.Compile\<close> refuses invalid UTF-8. \<open>rx_items\<close> reads the text between the anchors.
\<close>

datatype rx_item = AnyMany | AnyOpt | Lit rune

record Pattern =
  pstr :: string
  regex :: "rx_item list"
  neg :: bool

definition specialBytes :: string where
  "specialBytes = [bsl] @ ''.+()|[]{}^$''"

definition special :: "char \<Rightarrow> bool" where
  "special b \<longleftrightarrow> b \<in> set specialBytes"

definition pattern_byte :: "char \<Rightarrow> string" where
  "pattern_byte b =
     (if b = CHR ''*'' then ''.*'' else if b = CHR ''?'' then ''.?'' else if special b then [bsl, b] else [b])"

fun rx_items :: "rune list \<Rightarrow> rx_item list" where
  "rx_items [] = []"
| "rx_items [r] = [Lit r]"
| "rx_items (r # q # rs) =
     (if r = byte CHR ''.'' \<and> q = byte CHR ''*'' then AnyMany # rx_items rs
      else if r = byte CHR ''.'' \<and> q = byte CHR ''?'' then AnyOpt # rx_items rs
      else if r = byte bsl then Lit q # rx_items rs
      else Lit r # rx_items (q # rs))"

definition utf8_valid :: "string \<Rightarrow> bool" where
  "utf8_valid s \<longleftrightarrow> string_of_runes (runes s) = s"

text \<open>The text of the expression, with its anchors.\<close>

definition pattern_text :: "string \<Rightarrow> string" where
  "pattern_text s = ''^'' @ concat (map pattern_byte s) @ ''$''"

definition regexp_Compile :: "string \<Rightarrow> string + rx_item list" where
  "regexp_Compile t = (if utf8_valid t then Inr (rx_items (runes (butlast (tl t)))) else Inl ''invalid UTF-8'')"

definition NewPattern :: "string \<Rightarrow> string + Pattern" where
  "NewPattern s0 =
     (if s0 = [] then Inl ''ssh_config: empty pattern''
      else let negated = (hd s0 = CHR ''!''); s = (if negated then tl s0 else s0)
           in case regexp_Compile (pattern_text s) of
                Inl e \<Rightarrow> Inl e
              | Inr r \<Rightarrow> Inr \<lparr>pstr = s, regex = r, neg = negated\<rparr>)"

fun rx_match :: "rx_item list \<Rightarrow> rune list \<Rightarrow> bool" where
  "rx_match [] s = (s = [])"
| "rx_match (Lit r # is) s = (case s of [] \<Rightarrow> False | c # cs \<Rightarrow> c = r \<and> rx_match is cs)"
| "rx_match (AnyOpt # is) s = (rx_match is s \<or> (case s of [] \<Rightarrow> False | c # cs \<Rightarrow> c \<noteq> byte nl \<and> rx_match is cs))"
| "rx_match (AnyMany # is) [] = rx_match is []"
| "rx_match (AnyMany # is) (c # cs) = (rx_match is (c # cs) \<or> (c \<noteq> byte nl \<and> rx_match (AnyMany # is) cs))"

definition MatchString :: "rx_item list \<Rightarrow> string \<Rightarrow> bool" where
  "MatchString re s = rx_match re (runes s)"

definition matchAll :: Pattern where
  "matchAll = \<lparr>pstr = ''*'', regex = [AnyMany], neg = False\<rparr>"

subsection \<open>Nodes, hosts and configurations\<close>

record KV =
  Key :: string
  Value :: string
  Comment :: string
  kv_hasEquals :: bool
  kv_leadingSpace :: int
  kv_position :: Position

record EmptyLine =
  e_Comment :: string
  e_leadingSpace :: int
  e_position :: Position

record Include_info =
  i_Comment :: string
  directives :: "string list"
  i_leadingSpace :: int
  i_position :: Position
  i_depth :: nat
  i_hasEquals :: bool

record Host_info =
  Patterns :: "Pattern list"
  EOLComment :: string
  h_hasEquals :: bool
  h_leadingSpace :: int
  implicit :: bool

text \<open>The files of an \<open>Include\<close> are listed in the order of its matches.\<close>

datatype Node =
    NodeKV KV
  | NodeEmpty EmptyLine
  | NodeInclude Include_info "(string \<times> Config) list"
and Host = Host Host_info "Node list"
and Config = Config "Host list"

fun Host_info_of :: "Host \<Rightarrow> Host_info" where
  "Host_info_of (Host i ns) = i"

fun Nodes :: "Host \<Rightarrow> Node list" where
  "Nodes (Host i ns) = ns"

fun Hosts :: "Config \<Rightarrow> Host list" where
  "Hosts (Config hs) = hs"

definition newConfig :: Config where
  "newConfig = Config [Host \<lparr>Patterns = [matchAll], EOLComment = [], h_hasEquals = False, h_leadingSpace = 0,
     implicit = True\<rparr> []]"

fun patterns_match :: "string \<Rightarrow> Pattern list \<Rightarrow> bool \<Rightarrow> bool" where
  "patterns_match alias [] found = found"
| "patterns_match alias (p # ps) found =
     (if MatchString (regex p) alias then (if neg p then False else patterns_match alias ps True)
      else patterns_match alias ps found)"

definition Matches :: "Host_info \<Rightarrow> string \<Rightarrow> bool" where
  "Matches h alias = patterns_match alias (Patterns h) False"

subsection \<open>Lookup\<close>

text \<open>
  \<open>Get\<close> of a configuration: \<open>None\<close> is the panic on a \<open>Match\<close> directive, \<open>Some None\<close> no value. The
  lookup of an \<open>Include\<close> gives the first value that is not empty.
\<close>

fun Config_Get :: "ssh_env \<Rightarrow> string \<Rightarrow> string \<Rightarrow> Config \<Rightarrow> string option option"
  and Hosts_Get :: "ssh_env \<Rightarrow> string \<Rightarrow> string \<Rightarrow> Host list \<Rightarrow> string option option"
  and Nodes_Get :: "ssh_env \<Rightarrow> string \<Rightarrow> string \<Rightarrow> Node list \<Rightarrow> string option option"
  and Include_Get :: "ssh_env \<Rightarrow> string \<Rightarrow> string \<Rightarrow> (string \<times> Config) list \<Rightarrow> string option option" where
  "Config_Get env alias key (Config hs) = Hosts_Get env alias key hs"
| "Hosts_Get env alias key [] = Some None"
| "Hosts_Get env alias key (Host i ns # hs) =
     (if \<not> Matches i alias then Hosts_Get env alias key hs
      else case Nodes_Get env alias key ns of
             None \<Rightarrow> None
           | Some (Some v) \<Rightarrow> Some (Some v)
           | Some None \<Rightarrow> Hosts_Get env alias key hs)"
| "Nodes_Get env alias key [] = Some None"
| "Nodes_Get env alias key (NodeEmpty e # ns) = Nodes_Get env alias key ns"
| "Nodes_Get env alias key (NodeKV kv # ns) =
     (if ToLower env (Key kv) = ''match'' then None
      else if ToLower env (Key kv) = ToLower env key then Some (Some (Value kv))
      else Nodes_Get env alias key ns)"
| "Nodes_Get env alias key (NodeInclude i fs # ns) =
     (case Include_Get env alias key fs of
        None \<Rightarrow> None
      | Some (Some v) \<Rightarrow> Some (Some v)
      | Some None \<Rightarrow> Nodes_Get env alias key ns)"
| "Include_Get env alias key [] = Some None"
| "Include_Get env alias key ((f, c) # fs) =
     (case Config_Get env alias key c of
        None \<Rightarrow> None
      | Some (Some v) \<Rightarrow> if v \<noteq> [] then Some (Some v) else Include_Get env alias key fs
      | Some None \<Rightarrow> Include_Get env alias key fs)"

text \<open>The result of \<^verbatim>\<open>Config.Get\<close>: the empty string when there is no value.\<close>

definition Get_value :: "string option option \<Rightarrow> string res" where
  "Get_value r = Some (case r of None \<Rightarrow> Panic | Some None \<Rightarrow> Ret [] | Some (Some v) \<Rightarrow> Ret v)"

subsection \<open>Printing\<close>

text \<open>\<^verbatim>\<open>strings.Repeat\<close> of a blank: \<open>None\<close> is the panic on a negative count.\<close>

definition blanks :: "int \<Rightarrow> string option" where
  "blanks n = (if n < 0 then None else Some (replicate (nat n) sp))"

definition equals_text :: "bool \<Rightarrow> string" where
  "equals_text b = (if b then '' = '' else '' '')"

definition comment_text :: "string \<Rightarrow> string" where
  "comment_text c = (if c \<noteq> [] then '' #'' @ c else [])"

definition KV_String :: "KV \<Rightarrow> string option" where
  "KV_String k =
     map_option (\<lambda>b. b @ Key k @ equals_text (kv_hasEquals k) @ Value k @ comment_text (Comment k))
       (blanks (kv_leadingSpace k))"

definition Empty_String :: "EmptyLine \<Rightarrow> string option" where
  "Empty_String e =
     (if e_Comment e = [] then Some []
      else map_option (\<lambda>b. b @ ''#'' @ e_Comment e) (blanks (e_leadingSpace e)))"

definition Include_String :: "Include_info \<Rightarrow> string option" where
  "Include_String i =
     map_option (\<lambda>b. b @ ''Include'' @ equals_text (i_hasEquals i) @ join_with '' '' (directives i) @ comment_text (i_Comment i))
       (blanks (i_leadingSpace i))"

fun Node_String :: "Node \<Rightarrow> string option" where
  "Node_String (NodeKV k) = KV_String k"
| "Node_String (NodeEmpty e) = Empty_String e"
| "Node_String (NodeInclude i fs) = Include_String i"

fun Nodes_String :: "Node list \<Rightarrow> string option" where
  "Nodes_String [] = Some []"
| "Nodes_String (n # ns) =
     (case (Node_String n, Nodes_String ns) of (Some a, Some b) \<Rightarrow> Some (a @ [nl] @ b) | _ \<Rightarrow> None)"

definition Host_line :: "Host_info \<Rightarrow> string option" where
  "Host_line h =
     (if implicit h then Some []
      else map_option (\<lambda>b. b @ ''Host'' @ equals_text (h_hasEquals h) @ join_with '' '' (map pstr (Patterns h))
             @ comment_text (EOLComment h) @ [nl]) (blanks (h_leadingSpace h)))"

definition Host_String :: "Host \<Rightarrow> string option" where
  "Host_String h =
     (case (Host_line (Host_info_of h), Nodes_String (Nodes h)) of (Some a, Some b) \<Rightarrow> Some (a @ b) | _ \<Rightarrow> None)"

fun marshal_hosts :: "Host list \<Rightarrow> string option" where
  "marshal_hosts [] = Some []"
| "marshal_hosts (h # hs) =
     (case (Host_String h, marshal_hosts hs) of (Some a, Some b) \<Rightarrow> Some (a @ b) | _ \<Rightarrow> None)"

definition Config_String :: "Config \<Rightarrow> string option" where
  "Config_String c = marshal_hosts (Hosts c)"

end
