(* ===== verification/Ssh_Parse.thy ===== *)
theory Ssh_Parse
  imports Ssh_Config "HOL-Library.Monad_Syntax"
begin

section \<open>Package ssh\_config: the parser, files and settings\<close>

text \<open>
  \<^verbatim>\<open>ssh_config/{parser,config,validators}.go\<close>. The panics the parser raises on purpose and
  \<open>decodeBytes\<close> recovers are the errors of \<open>decode_error\<close>; \<open>Panic\<close> is a run-time error (a nil token,
  an empty list of hosts), which \<open>decodeBytes\<close> lets through. Parsing an \<open>Include\<close> parses the files it
  names: the parser takes that call as an argument, and fuel bounds the nesting, which the depth
  check limits to 5 files, so that 7 is enough (\<open>None\<close> stands for fuel that ran out).
\<close>

datatype decode_error =
    ErrDepthExceeded
  | MatchUnsupported Position
  | InvalidPattern Position string
  | IncludeError Position include_error
  | UnexpectedToken Position
and include_error = GlobError string | IncludeRead os_error | IncludeParse decode_error

datatype file_error = ReadErr os_error | DecodeErr decode_error

definition maxRecurseDepth :: nat where
  "maxRecurseDepth = 5"

subsection \<open>Includes\<close>

fun removeDups :: "string list \<Rightarrow> string list \<Rightarrow> string list" where
  "removeDups seen [] = []"
| "removeDups seen (x # xs) = (if x \<in> set seen then removeDups seen xs else x # removeDups (x # seen) xs)"

definition include_path :: "ssh_env \<Rightarrow> bool \<Rightarrow> string \<Rightarrow> string" where
  "include_path env system d =
     (if IsAbs d then d else if system then path_join [''/etc/ssh'', d] else path_join [homedir env, ''.ssh'', d])"

fun include_matches :: "ssh_env \<Rightarrow> bool \<Rightarrow> string list \<Rightarrow> string + string list" where
  "include_matches env system [] = Inr []"
| "include_matches env system (d # ds) =
     (case Glob env (include_path env system d) of
        Inl e \<Rightarrow> Inl e
      | Inr ms \<Rightarrow> (case include_matches env system ds of Inl e \<Rightarrow> Inl e | Inr ms' \<Rightarrow> Inr (ms @ ms')))"

type_synonym parse_file = "string \<Rightarrow> nat \<Rightarrow> (file_error + Config) res"

fun include_files :: "parse_file \<Rightarrow> nat \<Rightarrow> string list \<Rightarrow> (file_error + (string \<times> Config) list) res" where
  "include_files pf depth [] = Some (Ret (Inr []))"
| "include_files pf depth (f # fs) =
     bind_res (pf f depth) (\<lambda>r. case r of
        Inl e \<Rightarrow> Some (Ret (Inl e))
      | Inr c \<Rightarrow> bind_res (include_files pf depth fs) (\<lambda>r'. Some (Ret (case r' of
          Inl e \<Rightarrow> Inl e | Inr cs \<Rightarrow> Inr ((f, c) # cs)))))"

text \<open>The error of an \<open>Include\<close>: the depth error itself, or any other.\<close>

definition NewInclude :: "ssh_env \<Rightarrow> parse_file \<Rightarrow> string list \<Rightarrow> bool \<Rightarrow> Position \<Rightarrow> string \<Rightarrow> bool \<Rightarrow> nat
    \<Rightarrow> (include_error option + Node) res" where
  "NewInclude env pf ds hasEq p comment system depth =
     (if depth > maxRecurseDepth then Some (Ret (Inl None))
      else case include_matches env system ds of
             Inl e \<Rightarrow> Some (Ret (Inl (Some (GlobError e))))
           | Inr ms \<Rightarrow>
               bind_res (include_files pf depth (removeDups [] ms)) (\<lambda>r. Some (Ret (case r of
                  Inl (ReadErr e) \<Rightarrow> Inl (Some (IncludeRead e))
                | Inl (DecodeErr e) \<Rightarrow> Inl (if e = ErrDepthExceeded then None else Some (IncludeParse e))
                | Inr fs \<Rightarrow> Inr (NodeInclude \<lparr>i_Comment = comment, directives = ds, i_leadingSpace = Col p - 1,
                    i_position = p, i_depth = depth, i_hasEquals = hasEq\<rparr> fs)))))"

subsection \<open>The parser\<close>

text \<open>
  \<open>peek\<close> and \<open>getToken\<close> with the token buffer are reading the list of tokens. Each state returns the
  tokens left and the hosts, or an error.
\<close>

fun add_node :: "Host list \<Rightarrow> Node \<Rightarrow> Host list outcome" where
  "add_node [] n = Panic"
| "add_node hs n = Ret (butlast hs @ [Host (Host_info_of (last hs)) (Nodes (last hs) @ [n])])"

fun host_patterns :: "string list \<Rightarrow> string + Pattern list" where
  "host_patterns [] = Inr []"
| "host_patterns (w # ws) =
     (if w = [] then host_patterns ws
      else case NewPattern w of
             Inl e \<Rightarrow> Inl e
           | Inr p \<Rightarrow> (case host_patterns ws of Inl e \<Rightarrow> Inl e | Inr ps \<Rightarrow> Inr (p # ps)))"

type_synonym parse_state = "token list \<times> Host list"
type_synonym parse_result = "(decode_error + parse_state) res"

definition parseComment :: "token \<Rightarrow> token list \<Rightarrow> Host list \<Rightarrow> parse_result" where
  "parseComment comment ts hs =
     Some (case add_node hs (NodeEmpty \<lparr>e_Comment = val comment, e_leadingSpace = Col (tpos comment) - 2,
             e_position = tpos comment\<rparr>) of
             Panic \<Rightarrow> Panic
           | Ret hs' \<Rightarrow> Ret (Inr (ts, hs')))"

text \<open>The value, whether it follows an equals sign, and the comment on its line.\<close>

definition kv_value :: "token list \<Rightarrow> (token \<times> bool \<times> string \<times> token list) outcome" where
  "kv_value ts =
     (case (case ts of
              [] \<Rightarrow> Panic
            | v # ts1 \<Rightarrow>
                if ttype v = tokenEquals then (case ts1 of [] \<Rightarrow> Panic | w # ts2 \<Rightarrow> Ret (w, True, ts2))
                else Ret (v, False, ts1)) of
        Panic \<Rightarrow> Panic
      | Ret (v, hasEq, ts1) \<Rightarrow>
          (case ts1 of
             [] \<Rightarrow> Ret (v, hasEq, [], ts1)
           | t # ts2 \<Rightarrow>
               if ttype t = tokenComment \<and> Line (tpos t) = Line (tpos v) then Ret (v, hasEq, val t, ts2)
               else Ret (v, hasEq, [], ts1)))"

definition parseKV :: "ssh_env \<Rightarrow> parse_file \<Rightarrow> bool \<Rightarrow> nat \<Rightarrow> token \<Rightarrow> token list \<Rightarrow> Host list \<Rightarrow> parse_result" where
  "parseKV env pf system depth key ts hs =
     (case kv_value ts of
        Panic \<Rightarrow> Some Panic
      | Ret (v, hasEq, comment, ts1) \<Rightarrow>
          (let lkey = ToLower env (val key);
               add = (\<lambda>n. Some (case add_node hs n of Panic \<Rightarrow> Panic | Ret hs' \<Rightarrow> Ret (Inr (ts1, hs'))))
           in if lkey = ''match'' then Some (Ret (Inl (MatchUnsupported (tpos v))))
              else if lkey = ''host'' then
                (case host_patterns (split_at sp (val v)) of
                   Inl e \<Rightarrow> Some (Ret (Inl (InvalidPattern (tpos v) e)))
                 | Inr ps \<Rightarrow> Some (Ret (Inr (ts1, hs @ [Host \<lparr>Patterns = ps, EOLComment = comment, h_hasEquals = hasEq,
                     h_leadingSpace = 0, implicit = False\<rparr> []]))))
              else if hs = [] then Some Panic
              else if lkey = ''include'' then
                bind_res (NewInclude env pf (split_at sp (val v)) hasEq (tpos key) comment system (depth + 1))
                  (\<lambda>r. case r of
                     Inl None \<Rightarrow> Some (Ret (Inl ErrDepthExceeded))
                   | Inl (Some e) \<Rightarrow> Some (Ret (Inl (IncludeError (tpos v) e)))
                   | Inr n \<Rightarrow> add n)
              else add (NodeKV \<lparr>Key = val key, Value = val v, Comment = comment, kv_hasEquals = hasEq,
                     kv_leadingSpace = Col (tpos key) - 1, kv_position = tpos key\<rparr>)))"

text \<open>The rest of the tokens never grows, so the loop of the parser ends.\<close>

lemma kv_value_shorter: "kv_value ts = Ret (v, b, c, ts') \<Longrightarrow> length ts' < length ts"
  by (auto simp: kv_value_def split: list.splits outcome.splits if_splits)

lemma parseKV_shorter:
  "parseKV env pf system depth key ts hs = Some (Ret (Inr (ts', hs'))) \<Longrightarrow> length ts' < length ts"
  by (auto simp: parseKV_def Let_def bind_res_def dest: kv_value_shorter
      split: outcome.splits if_splits sum.splits option.splits)

lemma parseComment_rest: "parseComment t ts hs = Some (Ret (Inr (ts', hs'))) \<Longrightarrow> ts' = ts"
  by (auto simp: parseComment_def split: outcome.splits)

function parseStart :: "ssh_env \<Rightarrow> parse_file \<Rightarrow> bool \<Rightarrow> nat \<Rightarrow> token list \<Rightarrow> Host list \<Rightarrow> (decode_error + Host list) res" where
  "parseStart env pf system depth ts hs =
     (case ts of
        [] \<Rightarrow> Some (Ret (Inr hs))
      | t # ts1 \<Rightarrow>
          if ttype t = tokenEOF then Some (Ret (Inr hs))
          else let r = (if ttype t = tokenComment \<or> ttype t = tokenEmptyLine then parseComment t ts1 hs
                        else if ttype t = tokenKey then parseKV env pf system depth t ts1 hs
                        else Some (Ret (Inl (UnexpectedToken (tpos t)))))
               in (case r of
                     None \<Rightarrow> None
                   | Some Panic \<Rightarrow> Some Panic
                   | Some (Ret (Inl e)) \<Rightarrow> Some (Ret (Inl e))
                   | Some (Ret (Inr (ts2, hs2))) \<Rightarrow> parseStart env pf system depth ts2 hs2))"
  by pat_completeness auto
termination
  by (relation "measure (\<lambda>(env, pf, system, depth, ts, hs). length ts)")
    (auto split: if_splits dest: parseKV_shorter [OF sym] parseComment_rest [OF sym] parseKV_shorter parseComment_rest)

declare parseStart.simps [simp del]

definition parseSSH :: "ssh_env \<Rightarrow> parse_file \<Rightarrow> token list \<Rightarrow> bool \<Rightarrow> nat \<Rightarrow> (decode_error + Config) res" where
  "parseSSH env pf flow system depth =
     bind_res (parseStart env pf system depth flow (Hosts newConfig)) (\<lambda>r. Some (Ret (map_sum id Config r)))"

fun decodeBytes :: "nat \<Rightarrow> ssh_env \<Rightarrow> string \<Rightarrow> bool \<Rightarrow> nat \<Rightarrow> (decode_error + Config) res" where
  "decodeBytes 0 env b system depth = None"
| "decodeBytes (Suc n) env b system depth =
     parseSSH env
       (\<lambda>f d. case ReadFile env f of
                Inl e \<Rightarrow> Some (Ret (Inl (ReadErr e)))
              | Inr text \<Rightarrow> bind_res (decodeBytes n env text (isSystem f) d) (\<lambda>r. Some (Ret (map_sum DecodeErr id r))))
       (lexSSH b) system depth"

definition enough :: nat where
  "enough = 7"

definition Decode :: "ssh_env \<Rightarrow> string \<Rightarrow> (decode_error + Config) res" where
  "Decode env b = decodeBytes enough env b False 0"

definition parseWithDepth :: "ssh_env \<Rightarrow> parse_file" where
  "parseWithDepth env f d =
     (case ReadFile env f of
        Inl e \<Rightarrow> Some (Ret (Inl (ReadErr e)))
      | Inr text \<Rightarrow> bind_res (decodeBytes enough env text (isSystem f) d) (\<lambda>r. Some (Ret (map_sum DecodeErr id r))))"

definition parseFile :: "ssh_env \<Rightarrow> string \<Rightarrow> (file_error + Config) res" where
  "parseFile env f = parseWithDepth env f 0"

end
