(* ===== verification/Ssh_Settings.thy ===== *)
theory Ssh_Settings
  imports Ssh_Parse
begin

section \<open>Package ssh\_config: settings\<close>

text \<open>
  \<^verbatim>\<open>ssh_config/validators.go\<close> and \<^verbatim>\<open>UserSettings\<close> of \<^verbatim>\<open>config.go\<close>: the tables of keywords, the check of a
  value and the lookup over the user's file, the system's file and the defaults. \<open>loaded\<close> is the
  state of the \<^verbatim>\<open>sync.Once\<close> that reads the two files.
\<close>

subsection \<open>Keywords\<close>

definition yesnos :: "string list" where
  "yesnos =
     [''batchmode'', ''canonicalizefallbacklocal'', ''challengeresponseauthentication'', ''checkhostip'',
      ''clearallforwardings'', ''compression'', ''enablesshkeysign'', ''exitonforwardfailure'', ''forwardagent'',
      ''forwardx11'', ''forwardx11trusted'', ''gatewayports'', ''gssapiauthentication'',
      ''gssapidelegatecredentials'', ''hostbasedauthentication'', ''identitiesonly'',
      ''kbdinteractiveauthentication'', ''nohostauthenticationforlocalhost'', ''passwordauthentication'',
      ''permitlocalcommand'', ''pubkeyauthentication'', ''rhostsrsaauthentication'', ''rsaauthentication'',
      ''streamlocalbindunlink'', ''tcpkeepalive'', ''usekeychain'', ''useprivilegedport'', ''visualhostkey'']"

definition uints :: "string list" where
  "uints =
     [''canonicalizemaxdots'', ''compressionlevel'', ''connectionattempts'', ''connecttimeout'',
      ''numberofpasswordprompts'', ''port'', ''serveralivecountmax'', ''serveraliveinterval'']"

definition defaults :: "(string \<times> string) list" where
  "defaults =
     [(''addkeystoagent'', ''no''), (''addressfamily'', ''any''), (''batchmode'', ''no''),
      (''canonicalizefallbacklocal'', ''yes''), (''canonicalizehostname'', ''no''), (''canonicalizemaxdots'', ''1''),
      (''challengeresponseauthentication'', ''yes''), (''checkhostip'', ''yes''), (''cipher'', ''3des''),
      (''ciphers'', ''chacha20-poly1305@openssh.com,aes128-ctr,aes192-ctr,aes256-ctr,aes128-gcm@openssh.com,aes256-gcm@openssh.com,aes128-cbc,aes192-cbc,aes256-cbc''),
      (''clearallforwardings'', ''no''), (''compression'', ''no''), (''compressionlevel'', ''6''),
      (''connectionattempts'', ''1''), (''controlmaster'', ''no''), (''enablesshkeysign'', ''no''),
      (''escapechar'', ''~''), (''exitonforwardfailure'', ''no''), (''fingerprinthash'', ''sha256''),
      (''forwardagent'', ''no''), (''forwardx11'', ''no''), (''forwardx11timeout'', ''20m''),
      (''forwardx11trusted'', ''no''), (''gatewayports'', ''no''),
      (''globalknownhostsfile'', ''/etc/ssh/ssh_known_hosts /etc/ssh/ssh_known_hosts2''),
      (''gssapiauthentication'', ''no''), (''gssapidelegatecredentials'', ''no''), (''hashknownhosts'', ''no''),
      (''hostbasedauthentication'', ''no''),
      (''hostbasedkeytypes'', ''ecdsa-sha2-nistp256-cert-v01@openssh.com,ecdsa-sha2-nistp384-cert-v01@openssh.com,ecdsa-sha2-nistp521-cert-v01@openssh.com,ssh-ed25519-cert-v01@openssh.com,ssh-rsa-cert-v01@openssh.com,ecdsa-sha2-nistp256,ecdsa-sha2-nistp384,ecdsa-sha2-nistp521,ssh-ed25519,ssh-rsa''),
      (''hostkeyalgorithms'', ''ecdsa-sha2-nistp256-cert-v01@openssh.com,ecdsa-sha2-nistp384-cert-v01@openssh.com,ecdsa-sha2-nistp521-cert-v01@openssh.com,ssh-ed25519-cert-v01@openssh.com,ssh-rsa-cert-v01@openssh.com,ecdsa-sha2-nistp256,ecdsa-sha2-nistp384,ecdsa-sha2-nistp521,ssh-ed25519,ssh-rsa''),
      (''identitiesonly'', ''no''), (''identityfile'', ''~/.ssh/identity''),
      (''kbdinteractiveauthentication'', ''yes''),
      (''kexalgorithms'', ''curve25519-sha256,curve25519-sha256@libssh.org,ecdh-sha2-nistp256,ecdh-sha2-nistp384,ecdh-sha2-nistp521,diffie-hellman-group-exchange-sha256,diffie-hellman-group-exchange-sha1,diffie-hellman-group14-sha1''),
      (''loglevel'', ''INFO''),
      (''macs'', ''umac-64-etm@openssh.com,umac-128-etm@openssh.com,hmac-sha2-256-etm@openssh.com,hmac-sha2-512-etm@openssh.com,hmac-sha1-etm@openssh.com,umac-64@openssh.com,umac-128@openssh.com,hmac-sha2-256,hmac-sha2-512,hmac-sha1''),
      (''nohostauthenticationforlocalhost'', ''no''), (''numberofpasswordprompts'', ''3''),
      (''passwordauthentication'', ''yes''), (''permitlocalcommand'', ''no''), (''port'', ''22''),
      (''preferredauthentications'', ''gssapi-with-mic,hostbased,publickey,keyboard-interactive,password''),
      (''protocol'', ''2''), (''proxyusefdpass'', ''no''),
      (''pubkeyacceptedkeytypes'', ''ecdsa-sha2-nistp256-cert-v01@openssh.com,ecdsa-sha2-nistp384-cert-v01@openssh.com,ecdsa-sha2-nistp521-cert-v01@openssh.com,ssh-ed25519-cert-v01@openssh.com,ssh-rsa-cert-v01@openssh.com,ecdsa-sha2-nistp256,ecdsa-sha2-nistp384,ecdsa-sha2-nistp521,ssh-ed25519,ssh-rsa''),
      (''pubkeyauthentication'', ''yes''), (''rekeylimit'', ''default none''), (''rhostsrsaauthentication'', ''no''),
      (''rsaauthentication'', ''yes''), (''serveralivecountmax'', ''3''), (''serveraliveinterval'', ''0''),
      (''streamlocalbindmask'', ''0177''), (''streamlocalbindunlink'', ''no''), (''stricthostkeychecking'', ''ask''),
      (''tcpkeepalive'', ''yes''), (''tunnel'', ''no''), (''tunneldevice'', ''any:any''),
      (''updatehostkeys'', ''no''), (''usekeychain'', ''no''), (''useprivilegedport'', ''no''),
      (''userknownhostsfile'', ''~/.ssh/known_hosts ~/.ssh/known_hosts2''), (''verifyhostkeydns'', ''no''),
      (''visualhostkey'', ''no''), (''xauthlocation'', ''/usr/X11R6/bin/xauth'')]"

definition Default :: "ssh_env \<Rightarrow> string \<Rightarrow> string" where
  "Default env keyword = (case map_of defaults (ToLower env keyword) of None \<Rightarrow> [] | Some v \<Rightarrow> v)"

definition mustBeYesOrNo :: "string \<Rightarrow> bool" where
  "mustBeYesOrNo lkey \<longleftrightarrow> lkey \<in> set yesnos"

definition mustBeUint :: "string \<Rightarrow> bool" where
  "mustBeUint lkey \<longleftrightarrow> lkey \<in> set uints"

text \<open>\<^verbatim>\<open>strconv.ParseUint\<close> with base 10 and 64 bits.\<close>

definition digit_value :: "string \<Rightarrow> nat" where
  "digit_value s = foldl (\<lambda>n c. 10 * n + (byte c - 48)) 0 s"

definition ParseUint_ok :: "string \<Rightarrow> bool" where
  "ParseUint_ok s \<longleftrightarrow> s \<noteq> [] \<and> list_all (in_range 48 57) s \<and> digit_value s < 2 ^ 64"

datatype validate_error = NotYesNo string string | NotUint string

definition validate :: "ssh_env \<Rightarrow> string \<Rightarrow> string \<Rightarrow> validate_error option" where
  "validate env key v =
     (let lkey = ToLower env key
      in if mustBeYesOrNo lkey \<and> v \<noteq> ''yes'' \<and> v \<noteq> ''no'' then Some (NotYesNo key v)
         else if mustBeUint lkey \<and> \<not> ParseUint_ok v then Some (NotUint v)
         else None)"

subsection \<open>Lookup\<close>

datatype get_error = LoadError file_error | ValueError validate_error

definition findVal :: "ssh_env \<Rightarrow> Config option \<Rightarrow> string \<Rightarrow> string \<Rightarrow> (get_error + string) res" where
  "findVal env c alias key =
     (case c of
        None \<Rightarrow> Some (Ret (Inr []))
      | Some cfg \<Rightarrow>
          bind_res (Get_value (Config_Get env alias key cfg)) (\<lambda>v.
            if v = [] then Some (Ret (Inr []))
            else case validate env key v of
                   Some e \<Rightarrow> Some (Ret (Inl (ValueError e)))
                 | None \<Rightarrow> Some (Ret (Inr v))))"

record UserSettings =
  IgnoreErrors :: bool
  systemConfig :: "Config option"
  systemFinder :: "string option"
  userConfig :: "Config option"
  userFinder :: "string option"
  loaded :: bool
  onceErr :: "file_error option"

definition not_exist :: "file_error \<Rightarrow> bool" where
  "not_exist e \<longleftrightarrow> (case e of ReadErr (OSErr msg missing) \<Rightarrow> missing | _ \<Rightarrow> False)"

text \<open>The function the \<^verbatim>\<open>Once\<close> runs; a file that cannot be read leaves its configuration nil.\<close>

definition load_system :: "ssh_env \<Rightarrow> UserSettings \<Rightarrow> UserSettings res" where
  "load_system env u =
     bind_res (parseFile env (case systemFinder u of None \<Rightarrow> systemConfigFinder | Some f \<Rightarrow> f)) (\<lambda>r.
       Some (Ret (case r of
         Inr c \<Rightarrow> u\<lparr>systemConfig := Some c\<rparr>
       | Inl e \<Rightarrow> if not_exist e then u\<lparr>systemConfig := None\<rparr> else u\<lparr>systemConfig := None, onceErr := Some e\<rparr>)))"

definition loadConfigs :: "ssh_env \<Rightarrow> UserSettings \<Rightarrow> UserSettings res" where
  "loadConfigs env u =
     bind_res (parseFile env (case userFinder u of None \<Rightarrow> userConfigFinder env | Some f \<Rightarrow> f)) (\<lambda>r1.
       let u1 = u\<lparr>loaded := True, userConfig := (case r1 of Inl e \<Rightarrow> None | Inr c \<Rightarrow> Some c)\<rparr>
       in case r1 of
            Inl e \<Rightarrow> if not_exist e then load_system env u1 else Some (Ret (u1\<lparr>onceErr := Some e\<rparr>))
          | Inr c \<Rightarrow> load_system env u1)"

definition GetStrict :: "ssh_env \<Rightarrow> UserSettings \<Rightarrow> string \<Rightarrow> string \<Rightarrow> (UserSettings \<times> (get_error + string)) res" where
  "GetStrict env u0 alias key =
     bind_res (if loaded u0 then Some (Ret u0) else loadConfigs env u0) (\<lambda>u.
       if onceErr u \<noteq> None \<and> \<not> IgnoreErrors u then Some (Ret (u, Inl (LoadError (the (onceErr u)))))
       else bind_res (findVal env (userConfig u) alias key) (\<lambda>r.
              if r \<noteq> Inr [] then Some (Ret (u, r))
              else bind_res (findVal env (systemConfig u) alias key) (\<lambda>r2.
                     Some (Ret (u, if r2 \<noteq> Inr [] then r2 else Inr (Default env key))))))"

definition Settings_Get :: "ssh_env \<Rightarrow> UserSettings \<Rightarrow> string \<Rightarrow> string \<Rightarrow> (UserSettings \<times> string) res" where
  "Settings_Get env u alias key =
     bind_res (GetStrict env u alias key) (\<lambda>(u1, r). Some (Ret (u1, case r of Inl e \<Rightarrow> [] | Inr v \<Rightarrow> v)))"

definition DefaultUserSettings :: "ssh_env \<Rightarrow> UserSettings" where
  "DefaultUserSettings env =
     \<lparr>IgnoreErrors = False, systemConfig = None, systemFinder = Some systemConfigFinder, userConfig = None,
      userFinder = Some (userConfigFinder env), loaded = False, onceErr = None\<rparr>"

end
