(* ===== verification/Ssh_Safe.thy ===== *)
theory Ssh_Safe
  imports Ssh_Settings
begin

section \<open>Package ssh\_config: decoding is safe\<close>

text \<open>
  The lexer sends a key always followed by its value, and every sequence ends with the end token;
  therefore the parser meets no unexpected token and no run-time error, and decoding returns on
  every input, however files include each other. What is decoded can be printed.
\<close>

subsection \<open>The shape of the token stream\<close>

fun stream_ok :: "token list \<Rightarrow> bool" and value_ok :: "token list \<Rightarrow> bool" and string_ok :: "token list \<Rightarrow> bool" where
  "stream_ok [] = False"
| "stream_ok (t # ts) =
     (if ttype t = tokenEOF then ts = []
      else if ttype t = tokenComment then 2 \<le> Col (tpos t) \<and> stream_ok ts
      else if ttype t = tokenEmptyLine then val t = [] \<and> stream_ok ts
      else ttype t = tokenKey \<and> 1 \<le> Col (tpos t) \<and> value_ok ts)"
| "value_ok [] = False"
| "value_ok (t # ts) = (if ttype t = tokenEquals then string_ok ts else string_ok (t # ts))"
| "string_ok [] = False"
| "string_ok (t # ts) = (if ttype t = tokenEOF then ts = [] else ttype t = tokenString \<and> stream_ok ts)"

text \<open>What is still to come in each state of the lexer.\<close>

fun coming :: "lexState \<Rightarrow> token list \<Rightarrow> bool" where
  "coming LexVoid ts = stream_ok ts"
| "coming LexComment ts = (\<exists>t ts'. ts = t # ts' \<and> ttype t = tokenComment \<and> 2 \<le> Col (tpos t) \<and> stream_ok ts')"
| "coming LexKey ts = (\<exists>t ts'. ts = t # ts' \<and> ttype t = tokenKey \<and> 1 \<le> Col (tpos t) \<and> value_ok ts')"
| "coming LexEquals ts = value_ok ts"
| "coming LexRspace ts = string_ok ts"
| "coming LexRvalue ts = string_ok ts"

definition cols_ok :: "lexState \<Rightarrow> sshLexer \<Rightarrow> bool" where
  "cols_ok st s \<longleftrightarrow> 1 \<le> lcol s \<and> 1 \<le> endbufferCol s \<and> (st = LexComment \<longrightarrow> 2 \<le> lcol s)
     \<and> (st = LexVoid \<longrightarrow> buffer s = [])"

lemma lexer_simps [simp]:
  "tokens (lexer_next s) = tokens s" "tokens (ignore s) = tokens s" "tokens (skip s) = tokens s"
  "tokens (emitWithValue t v s) = tokens s @ [\<lparr>tpos = \<lparr>Line = lline s, Col = lcol s\<rparr>, ttype = t, val = v\<rparr>]"
  "lcol (lexer_next s) = lcol s" "lline (lexer_next s) = lline s" "lcol (ignore s) = endbufferCol s"
  "endbufferCol (ignore s) = endbufferCol s" "endbufferCol (emitWithValue t v s) = endbufferCol s"
  "lcol (emitWithValue t v s) = endbufferCol s" "buffer (ignore s) = []" "buffer (skip s) = []"
  "buffer (emitWithValue t v s) = []" "lcol (skip s) = endbufferCol (lexer_next s)"
  "endbufferCol (skip s) = endbufferCol (lexer_next s)"
  by (simp_all add: lexer_next_def read_def ignore_def skip_def emitWithValue_def Let_def split: option.split)

lemma endcol_next: "1 \<le> endbufferCol s \<Longrightarrow> 1 \<le> endbufferCol (lexer_next s)"
  by (simp add: lexer_next_def read_def Let_def split: option.split)

lemma endcol_next': "1 \<le> endbufferCol s \<Longrightarrow> peek s \<noteq> Some (byte nl) \<Longrightarrow> 2 \<le> endbufferCol (lexer_next s)"
  by (simp add: lexer_next_def read_def Let_def split: option.split)

text \<open>
  \<open>goes st s x\<close>: the state function at \<open>s\<close> gives \<open>x\<close>, which sends what completes the tokens of
  \<open>st\<close> in front of whatever the next state sends.
\<close>

definition goes :: "lexState \<Rightarrow> sshLexer \<Rightarrow> lexState option \<times> sshLexer \<Rightarrow> bool" where
  "goes st s x \<longleftrightarrow> (\<exists>out. tokens (snd x) = tokens s @ out
     \<and> (case fst x of
          None \<Rightarrow> coming st out
        | Some st' \<Rightarrow> cols_ok st' (snd x) \<and> (\<forall>ts. coming st' ts \<longrightarrow> coming st (out @ ts))))"

lemma goes_more:
  assumes "goes st s' x" "tokens s' = tokens s"
  shows "goes st s x"
  using assms by (simp add: goes_def)

lemma lexRspace_goes: "1 \<le> lcol s \<Longrightarrow> 1 \<le> endbufferCol s \<Longrightarrow> goes LexRspace s (lexRspace s)"
proof (induction s rule: lexRspace.induct)
  case (1 s)
  show ?case
  proof (cases "isSpace (peek s)")
    case True
    then show ?thesis using 1 endcol_next [of s] goes_more [of LexRspace "skip s" "lexRspace (skip s)" s]
      by (simp add: lexRspace.simps [of s])
  qed (use 1 in \<open>simp add: lexRspace.simps [of s] goes_def cols_ok_def\<close>)
qed

lemma lexEquals_goes: "1 \<le> lcol s \<Longrightarrow> 1 \<le> endbufferCol s \<Longrightarrow> goes LexEquals s (lexEquals s)"
proof (induction s rule: lexEquals.induct)
  case (1 s)
  consider (eq) "peek s = Some (byte CHR ''='')" | (space) "peek s \<noteq> Some (byte CHR ''='')" "isSpace (peek s)"
    | (other) "peek s \<noteq> Some (byte CHR ''='')" "\<not> isSpace (peek s)" by blast
  then show ?case
  proof cases
    case eq
    then show ?thesis using 1 endcol_next [of "emit tokenEquals s"]
      by (simp add: lexEquals.simps [of s] goes_def cols_ok_def emit_def)
  next
    case space
    then show ?thesis using 1 endcol_next [of s] goes_more [of LexEquals "skip s" "lexEquals (skip s)" s]
      by (simp add: lexEquals.simps [of s])
  next
    case other
    have "string_ok ts \<Longrightarrow> value_ok ts" for ts by (cases ts) (auto split: if_splits)
    then show ?thesis using 1 other by (simp add: lexEquals.simps [of s] goes_def cols_ok_def)
  qed
qed

lemma lexKey_goes: "1 \<le> lcol s \<Longrightarrow> 1 \<le> endbufferCol s \<Longrightarrow> goes LexKey s (lexKey_loop s g)"
proof (induction s g rule: lexKey_loop.induct)
  case (1 s g)
  show ?case
  proof (cases "peek s")
    case None
    then show ?thesis using 1 by (simp add: lexKey_loop.simps [of s] goes_def cols_ok_def)
  next
    case (Some c)
    then show ?thesis
      using 1 endcol_next [of s] endcol_next [of "emitWithValue tokenKey g s"]
        goes_more [of LexKey "lexer_next s" "lexKey_loop (lexer_next s) (g @ encode_rune c)" s]
      by (auto simp: lexKey_loop.simps [of s] goes_def cols_ok_def)
  qed
qed

lemma peek_emit [simp]: "peek (emitWithValue t v s) = peek s"
  by (simp add: peek_def)

lemma lexRvalue_goes: "1 \<le> lcol s \<Longrightarrow> 1 \<le> endbufferCol s \<Longrightarrow> goes LexRvalue s (lexRvalue_loop s g)"
proof (induction s g rule: lexRvalue_loop.induct)
  case (1 s g)
  show ?case
  proof (cases "peek s")
    case None
    then show ?thesis using 1 by (simp add: lexRvalue_loop.simps [of s] goes_def emit_def)
  next
    case (Some c)
    then show ?thesis
      using 1 endcol_next [of s] endcol_next [of "emitWithValue tokenString g s"]
        endcol_next' [of "emitWithValue tokenString g s"]
        goes_more [of LexRvalue "lexer_next s" "lexRvalue_loop (lexer_next s) (g @ encode_rune c)" s]
      by (auto simp: lexRvalue_loop.simps [of s] goes_def cols_ok_def)
  qed
qed

lemma comment_loop_keeps:
  "1 \<le> endbufferCol s \<Longrightarrow> comment_loop s g = (s', g') \<Longrightarrow> tokens s' = tokens s \<and> lcol s' = lcol s \<and> 1 \<le> endbufferCol s'"
proof (induction s g rule: comment_loop.induct)
  case (1 s g)
  then show ?case using endcol_next [of s]
    by (fastforce simp: comment_loop.simps [of s] split: option.splits if_splits)
qed

lemma lexComment_goes:
  assumes "2 \<le> lcol s" "1 \<le> endbufferCol s"
  shows "goes LexComment s (lexComment s)"
proof -
  obtain s' g where c: "comment_loop s [] = (s', g)" by fastforce
  from comment_loop_keeps [OF assms(2) c] show ?thesis
    using c assms endcol_next [of "emitWithValue tokenComment g s'"] by (auto simp: lexComment_def goes_def cols_ok_def)
qed

lemma lexVoid_goes: "1 \<le> lcol s \<Longrightarrow> 1 \<le> endbufferCol s \<Longrightarrow> buffer s = [] \<Longrightarrow> goes LexVoid s (lexVoid s)"
proof (induction s rule: lexVoid.induct)
  case (1 s)
  show ?case
  proof (cases "peek s")
    case None
    then show ?thesis using 1 by (simp add: lexVoid.simps [of s] goes_def emit_def)
  next
    case (Some c)
    show ?thesis
    proof (cases "c \<noteq> byte CHR ''#'' \<and> (c = byte cr \<or> c = byte nl)")
      case True
      let ?s = "skip (emit tokenEmptyLine s)"
      have "goes LexVoid ?s (lexVoid ?s)"
        using 1 Some True endcol_next [of "emit tokenEmptyLine s"] by (simp add: emit_def)
      moreover have "lexVoid s = lexVoid ?s" using Some True by (subst lexVoid.simps) auto
      ultimately show ?thesis using 1(5)
        by (auto simp: goes_def emit_def string_of_runes_def split: option.splits)
    next
      case False
      then show ?thesis
        using 1 Some endcol_next [of s] endcol_next' [of s] goes_more [of LexVoid "skip s" "lexVoid (skip s)" s]
        by (auto simp: lexVoid.simps [of s] goes_def cols_ok_def)
    qed
  qed
qed

lemma lex_state_goes: "cols_ok st s \<Longrightarrow> goes st s (lex_state st s)"
  using lexVoid_goes [of s] lexComment_goes [of s] lexKey_goes [of s "[]"] lexEquals_goes [of s]
    lexRspace_goes [of s] lexRvalue_goes [of s "[]"]
  by (cases st) (simp_all add: lex_state_def lexKey_def lexRvalue_def cols_ok_def)

lemma run_coming: "cols_ok st s \<Longrightarrow> \<exists>out. tokens (run st s) = tokens s @ out \<and> coming st out"
proof (induction st s rule: run.induct)
  case (1 st s)
  obtain o' s' where l: "lex_state st s = (o', s')" by fastforce
  with lex_state_goes [OF 1(2)] have g: "goes st s (o', s')" by simp
  show ?case
  proof (cases o')
    case None
    then show ?thesis using l g by (simp add: run.simps [of st] goes_def)
  next
    case (Some st')
    then have "cols_ok st' s'" using g by (auto simp: goes_def)
    then show ?thesis using 1(1) [OF l [symmetric] Some] l g Some by (auto simp: run.simps [of st] goes_def)
  qed
qed

lemma lexSSH_stream: "stream_ok (lexSSH b)"
  using run_coming [of LexVoid "\<lparr>rest = runes b, buffer = [], tokens = [], lline = 1, lcol = 1, endbufferLine = 1,
       endbufferCol = 1\<rparr>"] by (auto simp: lexSSH_def cols_ok_def)

subsection \<open>The parser\<close>

definition printable :: "Host \<Rightarrow> bool" where
  "printable h \<longleftrightarrow> Host_String h \<noteq> None"

definition hosts_ok :: "Host list \<Rightarrow> bool" where
  "hosts_ok hs \<longleftrightarrow> hs \<noteq> [] \<and> (\<forall>h \<in> set hs. printable h)"

lemma Nodes_String_append:
  "Nodes_String (ns @ ms) = (case (Nodes_String ns, Nodes_String ms) of (Some a, Some b) \<Rightarrow> Some (a @ b) | _ \<Rightarrow> None)"
  by (induction ns) (auto split: option.splits)

lemma printable_iff: "printable (Host i ns) \<longleftrightarrow> Host_line i \<noteq> None \<and> Nodes_String ns \<noteq> None"
  by (auto simp: printable_def Host_String_def split: option.splits)

lemma add_node_ok:
  assumes "hosts_ok hs" "Node_String n \<noteq> None"
  shows "\<exists>hs'. add_node hs n = Ret hs' \<and> hosts_ok hs'"
proof -
  obtain ks i ns where h: "hs = ks @ [Host i ns]"
    using assms(1) by (metis Host.exhaust hosts_ok_def rev_exhaust)
  have "printable (Host i (ns @ [n]))" using assms h by (auto simp: hosts_ok_def printable_iff Nodes_String_append)
  then show ?thesis using assms(1) h by (cases ks) (auto simp: hosts_ok_def)
qed

text \<open>The parser of an included file returns, and what it returns is never an unexpected token.\<close>

definition file_ok :: "parse_file \<Rightarrow> nat \<Rightarrow> bool" where
  "file_ok pf d \<longleftrightarrow> (\<forall>f. \<exists>r. pf f d = Some (Ret r))"

lemma include_files_ok: "file_ok pf d \<Longrightarrow> \<exists>r. include_files pf d fs = Some (Ret r)"
proof (induction fs)
  case (Cons f fs)
  obtain r where "pf f d = Some (Ret r)" using Cons.prems by (auto simp: file_ok_def)
  then show ?case using Cons by (cases r) auto
qed simp

lemma NewInclude_ok:
  assumes "maxRecurseDepth < d \<or> file_ok pf d" "1 \<le> Col p"
  shows "\<exists>r. NewInclude env pf ds he p c sys d = Some (Ret r) \<and> (\<forall>n. r = Inr n \<longrightarrow> Node_String n \<noteq> None)"
proof (cases "maxRecurseDepth < d")
  case False
  then have f: "file_ok pf d" using assms(1) by simp
  show ?thesis
  proof (cases "include_matches env sys ds")
    case (Inr ms)
    obtain r where "include_files pf d (removeDups [] ms) = Some (Ret r)" using include_files_ok [OF f] by blast
    then show ?thesis using False Inr assms(2)
      by (auto simp: NewInclude_def Include_String_def blanks_def split: sum.splits file_error.splits)
  qed (use False in \<open>simp add: NewInclude_def\<close>)
qed (simp add: NewInclude_def)

definition step_ok :: "parse_result \<Rightarrow> bool" where
  "step_ok r \<longleftrightarrow> (\<exists>e. r = Some (Ret (Inl e)) \<and> (\<forall>p. e \<noteq> UnexpectedToken p))
     \<or> (\<exists>ts hs. r = Some (Ret (Inr (ts, hs))) \<and> hosts_ok hs \<and> (stream_ok ts \<or> ts = []))"

lemma parseComment_ok:
  assumes "hosts_ok hs" "stream_ok ts" "val t = [] \<or> 2 \<le> Col (tpos t)"
  shows "step_ok (parseComment t ts hs)"
proof -
  have "Node_String (NodeEmpty \<lparr>e_Comment = val t, e_leadingSpace = Col (tpos t) - 2, e_position = tpos t\<rparr>) \<noteq> None"
    using assms(3) by (auto simp: Empty_String_def blanks_def)
  from add_node_ok [OF assms(1) this] show ?thesis using assms(2) by (auto simp: parseComment_def step_ok_def)
qed

lemma kv_value_ok:
  assumes "value_ok ts"
  shows "\<exists>v he c ts'. kv_value ts = Ret (v, he, c, ts') \<and> (stream_ok ts' \<or> ts' = [])"
proof -
  have "\<exists>v he ts1. (case ts of [] \<Rightarrow> Panic | v # ts1 \<Rightarrow>
      if ttype v = tokenEquals then (case ts1 of [] \<Rightarrow> Panic | w # ts2 \<Rightarrow> Ret (w, True, ts2)) else Ret (v, False, ts1))
      = Ret (v, he, ts1) \<and> (stream_ok ts1 \<or> ts1 = [])"
    using assms by (cases ts; cases "tl ts") (auto split: if_splits)
  then show ?thesis
    by (fastforce simp: kv_value_def split: list.split if_splits)
qed

lemma parseKV_ok:
  assumes "hosts_ok hs" "value_ok ts" "1 \<le> Col (tpos key)" "maxRecurseDepth < Suc d \<or> file_ok pf (Suc d)"
  shows "step_ok (parseKV env pf sys d key ts hs)"
proof -
  obtain v he c ts' where v: "kv_value ts = Ret (v, he, c, ts')" "stream_ok ts' \<or> ts' = []"
    using kv_value_ok [OF assms(2)] by blast
  let ?kv = "NodeKV \<lparr>Key = val key, Value = val v, Comment = c, kv_hasEquals = he,
      kv_leadingSpace = Col (tpos key) - 1, kv_position = tpos key\<rparr>"
  have "Node_String ?kv \<noteq> None" using assms(3) by (simp add: KV_String_def blanks_def)
  then obtain hs1 where kv: "add_node hs ?kv = Ret hs1" "hosts_ok hs1" using add_node_ok [OF assms(1)] by blast
  obtain r where r: "NewInclude env pf (split_at sp (val v)) he (tpos key) c sys (Suc d) = Some (Ret r)"
      "\<forall>n. r = Inr n \<longrightarrow> Node_String n \<noteq> None"
    using NewInclude_ok [OF assms(4,3)] by blast
  have inc: "\<exists>hs'. add_node hs n = Ret hs' \<and> hosts_ok hs'" if "r = Inr n" for n
    using add_node_ok [OF assms(1)] r(2) that by blast
  have host: "hosts_ok (hs @ [Host \<lparr>Patterns = ps, EOLComment = c, h_hasEquals = he, h_leadingSpace = 0, implicit = False\<rparr> []])" for ps
    using assms(1) by (auto simp: hosts_ok_def printable_iff Host_line_def blanks_def)
  have "hs \<noteq> []" using assms(1) by (simp add: hosts_ok_def)
  then show ?thesis using v kv r(1) inc host
    by (auto simp: parseKV_def Let_def step_ok_def split: sum.split option.split outcome.split)
qed

lemma parseStart_ok:
  assumes "maxRecurseDepth < Suc d \<or> file_ok pf (Suc d)"
  shows "hosts_ok hs \<Longrightarrow> stream_ok ts \<or> ts = [] \<Longrightarrow>
    \<exists>r. parseStart env pf sys d ts hs = Some (Ret r) \<and> (\<forall>p. r \<noteq> Inl (UnexpectedToken p)) \<and> (\<forall>hs'. r = Inr hs' \<longrightarrow> hosts_ok hs')"
proof (induction "length ts" arbitrary: ts hs rule: less_induct)
  case less
  show ?case
  proof (cases ts)
    case Nil
    then show ?thesis using less.prems by (simp add: parseStart.simps)
  next
    case (Cons t ts1)
    show ?thesis
    proof (cases "ttype t = tokenEOF")
      case True
      then show ?thesis using Cons less.prems by (simp add: parseStart.simps)
    next
      case False
      define r where "r = (if ttype t = tokenComment \<or> ttype t = tokenEmptyLine then parseComment t ts1 hs
                        else if ttype t = tokenKey then parseKV env pf sys d t ts1 hs
                        else Some (Ret (Inl (UnexpectedToken (tpos t)))))"
      have ps: "parseStart env pf sys d ts hs = (case r of None \<Rightarrow> None | Some Panic \<Rightarrow> Some Panic
          | Some (Ret (Inl e)) \<Rightarrow> Some (Ret (Inl e)) | Some (Ret (Inr (ts2, hs2))) \<Rightarrow> parseStart env pf sys d ts2 hs2)"
        unfolding Cons by (subst parseStart.simps) (simp add: False r_def Let_def)
      have "step_ok r" using less.prems Cons False parseComment_ok parseKV_ok assms
        by (auto simp: r_def split: if_splits)
      then consider (err) e where "r = Some (Ret (Inl e))" "\<forall>p. e \<noteq> UnexpectedToken p"
        | (go) ts2 hs2 where "r = Some (Ret (Inr (ts2, hs2)))" "hosts_ok hs2" "stream_ok ts2 \<or> ts2 = []"
        by (auto simp: step_ok_def)
      then show ?thesis
      proof cases
        case err
        then show ?thesis by (simp add: ps)
      next
        case go
        then have "length ts2 < length ts" using Cons
          by (auto simp: r_def split: if_splits dest!: parseKV_shorter parseComment_rest)
        from less.hyps [OF this go(2,3)] show ?thesis using go(1) by (simp add: ps)
      qed
    qed
  qed
qed

subsection \<open>Decoding\<close>

definition decoded_ok :: "decode_error + Config \<Rightarrow> bool" where
  "decoded_ok r \<longleftrightarrow> (case r of Inl e \<Rightarrow> (\<forall>p. e \<noteq> UnexpectedToken p) | Inr c \<Rightarrow> hosts_ok (Hosts c))"

lemma newConfig_ok: "hosts_ok (Hosts newConfig)"
  by (simp add: newConfig_def hosts_ok_def printable_iff Host_line_def)

lemma decodeBytes_ok:
  "Suc maxRecurseDepth - d < n \<Longrightarrow> \<exists>r. decodeBytes n env b sys d = Some (Ret r) \<and> decoded_ok r"
proof (induction n arbitrary: b sys d)
  case (Suc n)
  define pf :: parse_file where "pf f d = (case ReadFile env f of
                Inl e \<Rightarrow> Some (Ret (Inl (ReadErr e)))
              | Inr text \<Rightarrow> bind_res (decodeBytes n env text (isSystem f) d) (\<lambda>r. Some (Ret (map_sum DecodeErr id r))))" for f d
  have "file_ok pf (Suc d)" if "\<not> maxRecurseDepth < Suc d"
    unfolding file_ok_def
  proof
    fix f
    have "Suc maxRecurseDepth - Suc d < n" using Suc.prems that by simp
    note ih = Suc.IH [OF this]
    show "\<exists>r. pf f (Suc d) = Some (Ret r)"
    proof (cases "ReadFile env f")
      case (Inr body)
      then show ?thesis using ih [of body "isSystem f"] by (auto simp: pf_def)
    qed (simp add: pf_def)
  qed
  then obtain r where "parseStart env pf sys d (lexSSH b) (Hosts newConfig) = Some (Ret r)"
      "\<forall>p. r \<noteq> Inl (UnexpectedToken p)" "\<forall>hs'. r = Inr hs' \<longrightarrow> hosts_ok hs'"
    using parseStart_ok [OF _ newConfig_ok] lexSSH_stream [of b] by blast
  then show ?case
    by (cases r) (auto simp: pf_def [symmetric, abs_def] parseSSH_def decoded_ok_def)
qed simp

lemma Decode_ok: "\<exists>r. Decode env b = Some (Ret r) \<and> decoded_ok r"
  unfolding Decode_def by (rule decodeBytes_ok) (simp add: maxRecurseDepth_def enough_def)

lemma parseWithDepth_ok: "\<exists>r. parseWithDepth env f d = Some (Ret r)"
proof (cases "ReadFile env f")
  case (Inr body)
  obtain r where "decodeBytes enough env body (isSystem f) d = Some (Ret r)"
    using decodeBytes_ok [of d enough env body "isSystem f"] by (fastforce simp: maxRecurseDepth_def enough_def)
  then show ?thesis using Inr by (simp add: parseWithDepth_def)
qed (simp add: parseWithDepth_def)

lemma marshal_ok: "\<forall>h \<in> set hs. printable h \<Longrightarrow> marshal_hosts hs \<noteq> None"
  by (induction hs) (auto simp: printable_def split: option.splits)

end
