(* ===== verification/Ssh_Print.thy ===== *)
theory Ssh_Print
  imports Ssh_Safe
begin

section \<open>Package ssh\_config: printing and reading back\<close>

text \<open>
  The lexer on the lines that \<open>String\<close> prints. \<open>fresh ts l c rs\<close> is the lexer between two tokens, at
  line \<open>l\<close> and column \<open>c\<close>, with the tokens \<open>ts\<close> sent and \<open>rs\<close> to read.
\<close>

definition fresh :: "token list \<Rightarrow> int \<Rightarrow> int \<Rightarrow> rune list \<Rightarrow> sshLexer" where
  "fresh ts l c rs = \<lparr>rest = rs, buffer = [], tokens = ts, lline = l, lcol = c, endbufferLine = l, endbufferCol = c\<rparr>"

definition mktok :: "int \<Rightarrow> int \<Rightarrow> tokenType \<Rightarrow> string \<Rightarrow> token" where
  "mktok l c t v = \<lparr>tpos = \<lparr>Line = l, Col = c\<rparr>, ttype = t, val = v\<rparr>"

abbreviation bytes_of :: "string \<Rightarrow> rune list" where
  "bytes_of s \<equiv> map byte s"

lemma peek_fresh [simp]: "peek (fresh ts l c rs) = (case rs of [] \<Rightarrow> None | r # x \<Rightarrow> Some r)"
  by (simp add: fresh_def peek_def)

lemma skip_fresh: "r \<noteq> byte nl \<Longrightarrow> skip (fresh ts l c (r # rs)) = fresh ts l (c + 1) rs"
  by (simp add: skip_def lexer_next_def read_def ignore_def fresh_def peek_def)

lemma skip_fresh_nl: "skip (fresh ts l c (byte nl # rs)) = fresh ts (l + 1) 1 rs"
  by (simp add: skip_def lexer_next_def read_def ignore_def fresh_def peek_def)

lemma emit_fresh: "emitWithValue t v (fresh ts l c rs) = fresh (ts @ [mktok l c t v]) l c rs"
  by (simp add: emitWithValue_def ignore_def fresh_def mktok_def)

lemma emit_fresh_buffer: "emit t (fresh ts l c rs) = fresh (ts @ [mktok l c t []]) l c rs"
  using emit_fresh [of t "[]"] by (simp add: emit_def) (simp add: fresh_def string_of_runes_def)

text \<open>In the middle of a token that started at column \<open>c\<close>.\<close>

definition inside :: "token list \<Rightarrow> int \<Rightarrow> int \<Rightarrow> int \<Rightarrow> rune list \<Rightarrow> rune list \<Rightarrow> sshLexer" where
  "inside ts l c ec buf rs = \<lparr>rest = rs, buffer = buf, tokens = ts, lline = l, lcol = c, endbufferLine = l, endbufferCol = ec\<rparr>"

lemma fresh_inside: "fresh ts l c rs = inside ts l c c [] rs"
  by (simp add: fresh_def inside_def)

lemma peek_inside [simp]: "peek (inside ts l c ec buf rs) = (case rs of [] \<Rightarrow> None | r # x \<Rightarrow> Some r)"
  by (simp add: inside_def peek_def)

lemma next_inside: "r \<noteq> byte nl \<Longrightarrow> lexer_next (inside ts l c ec buf (r # rs)) = inside ts l c (ec + 1) (buf @ [r]) rs"
  by (simp add: lexer_next_def read_def inside_def peek_def)

lemma emit_inside: "emitWithValue t v (inside ts l c ec buf rs) = fresh (ts @ [mktok l c t v]) l ec rs"
  by (simp add: emitWithValue_def ignore_def fresh_def inside_def mktok_def)

subsection \<open>Words, values and comments\<close>

definition key_char :: "char \<Rightarrow> bool" where
  "key_char c \<longleftrightarrow> ascii c \<and> c \<notin> {sp, tab, cr, nl, CHR ''=''}"

definition value_char :: "char \<Rightarrow> bool" where
  "value_char c \<longleftrightarrow> ascii c \<and> c \<notin> {cr, nl, CHR ''#''}"

definition comment_char :: "char \<Rightarrow> bool" where
  "comment_char c \<longleftrightarrow> ascii c \<and> c \<notin> {cr, nl}"

lemma byte_eq: "byte c = byte d \<longleftrightarrow> c = d"
  by simp

lemma key_char_byte:
  "key_char c \<Longrightarrow> isKeyChar (Some (byte c)) \<and> \<not> isSpace (Some (byte c)) \<and> byte c \<noteq> byte CHR ''='' \<and> byte c \<noteq> byte nl
     \<and> encode_rune (byte c) = [c]"
  unfolding key_char_def isKeyChar_def isSpace_def option.inject byte_eq by (auto simp: encode_rune_ascii)

lemma value_char_byte:
  "value_char c \<Longrightarrow> byte c \<noteq> byte cr \<and> byte c \<noteq> byte nl \<and> byte c \<noteq> byte CHR ''#'' \<and> encode_rune (byte c) = [c]"
  unfolding value_char_def byte_eq by (auto simp: encode_rune_ascii)

lemma comment_char_byte:
  "comment_char c \<Longrightarrow> byte c \<noteq> byte cr \<and> byte c \<noteq> byte nl \<and> encode_rune (byte c) = [c]"
  unfolding comment_char_def byte_eq by (auto simp: encode_rune_ascii)

lemma lexKey_word:
  "list_all key_char w \<Longrightarrow>
   lexKey_loop (inside ts l c ec buf (bytes_of w @ byte sp # rs)) g
     = (Some LexEquals, fresh (ts @ [mktok l c tokenKey (g @ w)]) l (ec + int (length w) + 1) rs)"
proof (induction w arbitrary: ec buf g)
  case Nil
  have "isKeyChar (Some (byte sp))" "isSpace (Some (byte sp))" by (simp_all add: isKeyChar_def isSpace_def)
  then show ?case by (subst lexKey_loop.simps) (simp add: emit_inside skip_fresh)
next
  case (Cons x w)
  then show ?case using key_char_byte [of x] by (subst lexKey_loop.simps) (simp add: next_inside)
qed

lemma lexRvalue_line:
  "list_all value_char v \<Longrightarrow>
   lexRvalue_loop (inside ts l c ec buf (bytes_of v @ byte nl # rs)) g
     = (Some LexVoid, fresh (ts @ [mktok l c tokenString (g @ v)]) (l + 1) 1 rs)"
proof (induction v arbitrary: ec buf g)
  case Nil
  have "byte nl = byte nl" by simp
  then show ?case using skip_fresh_nl by (subst lexRvalue_loop.simps) (simp add: emit_inside)
next
  case (Cons x w)
  then show ?case using value_char_byte [of x] by (subst lexRvalue_loop.simps) (simp add: next_inside)
qed

lemma lexRvalue_comment:
  "list_all value_char v \<Longrightarrow>
   lexRvalue_loop (inside ts l c ec buf (bytes_of v @ byte CHR ''#'' # rs)) g
     = (Some LexComment, fresh (ts @ [mktok l c tokenString (g @ v)]) l (ec + int (length v) + 1) rs)"
proof (induction v arbitrary: ec buf g)
  case Nil
  then show ?case using skip_fresh [of "byte CHR ''#''"] by (subst lexRvalue_loop.simps) (simp add: emit_inside)
next
  case (Cons x w)
  then show ?case using value_char_byte [of x] by (subst lexRvalue_loop.simps) (simp add: next_inside)
qed

lemma comment_loop_line:
  "list_all comment_char v \<Longrightarrow>
   comment_loop (inside ts l c ec buf (bytes_of v @ byte nl # rs)) g
     = (inside ts l c (ec + int (length v)) (buf @ bytes_of v) (byte nl # rs), g @ v)"
proof (induction v arbitrary: ec buf g)
  case Nil
  then show ?case by (subst comment_loop.simps) simp
next
  case (Cons x w)
  then show ?case using comment_char_byte [of x] by (subst comment_loop.simps) (simp add: next_inside add.assoc)
qed

lemma lexComment_line:
  "list_all comment_char v \<Longrightarrow>
   lexComment (fresh ts l c (bytes_of v @ byte nl # rs))
     = (Some LexVoid, fresh (ts @ [mktok l c tokenComment v]) (l + 1) 1 rs)"
  using comment_loop_line [of v ts l c c "[]" rs "[]"] skip_fresh_nl
  unfolding lexComment_def fresh_inside [of ts l c] by (simp add: emit_inside)

lemma lexVoid_blanks:
  "lexVoid (fresh ts l c (replicate n (byte sp) @ rs)) = lexVoid (fresh ts l (c + int n) rs)"
proof (induction n arbitrary: c)
  case (Suc n)
  then show ?case by (subst lexVoid.simps) (simp add: skip_fresh isSpace_def ac_simps)
qed simp

subsection \<open>Lines\<close>

lemma run_state: "lex_state st s = (Some st', s') \<Longrightarrow> run st s = run st' s'"
  by (subst run.simps) simp

lemma run_blanks: "run LexVoid (fresh ts l c (replicate n (byte sp) @ rs)) = run LexVoid (fresh ts l (c + int n) rs)"
  by (simp only: run.simps [of LexVoid] lex_state_def lexVoid_blanks lexState.case)

text \<open>A keyword, its optional equals sign and the value, up to what ends the value.\<close>

definition start_ok :: "string \<Rightarrow> bool" where
  "start_ok k \<longleftrightarrow> k \<noteq> [] \<and> list_all key_char k \<and> hd k \<noteq> CHR ''#''"

definition value_start :: "string \<Rightarrow> bool" where
  "value_start v \<longleftrightarrow> list_all value_char v \<and> (v = [] \<or> hd v \<notin> {sp, tab, CHR ''=''})"

lemma run_key:
  assumes "start_ok k"
  shows "run LexVoid (fresh ts l c (bytes_of k @ byte sp # rs))
    = run LexEquals (fresh (ts @ [mktok l c tokenKey k]) l (c + int (length k) + 1) rs)"
proof -
  obtain x w where k: "k = x # w" "key_char x" "x \<noteq> CHR ''#''" using assms by (cases k) (auto simp: start_ok_def)
  have n: "byte x \<noteq> byte CHR ''#''" "byte x \<noteq> byte cr" "byte x \<noteq> byte nl" "\<not> isSpace (Some (byte x))"
    using k(2,3) unfolding byte_eq key_char_def isSpace_def option.inject by auto
  then have "lexVoid (fresh ts l c (bytes_of k @ byte sp # rs)) = (Some LexKey, fresh ts l c (bytes_of k @ byte sp # rs))"
    using k(1) by (subst lexVoid.simps) simp
  moreover have "lexKey (fresh ts l c (bytes_of k @ byte sp # rs))
      = (Some LexEquals, fresh (ts @ [mktok l c tokenKey k]) l (c + int (length k) + 1) rs)"
    using lexKey_word [of k ts l c c "[]" rs "[]"] assms by (simp add: lexKey_def fresh_inside [of ts l c] start_ok_def)
  ultimately show ?thesis by (simp add: run_state lex_state_def)
qed

lemma value_first:
  assumes "value_start v" "r \<notin> {byte sp, byte tab, byte CHR ''=''}" "rs = bytes_of v @ r # x"
  shows "\<exists>a y. rs = a # y \<and> a \<noteq> byte CHR ''='' \<and> \<not> isSpace (Some a)"
proof (cases v)
  case Nil
  then show ?thesis using assms(2,3) by (simp add: isSpace_def)
next
  case (Cons a w)
  then have "a \<noteq> sp" "a \<noteq> tab" "a \<noteq> CHR ''=''" using assms(1) by (auto simp: value_start_def)
  then have "byte a \<noteq> byte CHR ''=''" "\<not> isSpace (Some (byte a))"
    unfolding isSpace_def option.inject byte_eq by auto
  then show ?thesis using Cons assms(3) by simp
qed

lemma run_equals:
  assumes "value_start v" "r \<notin> {byte sp, byte tab, byte CHR ''=''}" "rs = bytes_of v @ r # x"
  shows "\<exists>out c'. run LexEquals (fresh ts l c ((if he then [byte CHR ''='', byte sp] else []) @ rs))
      = run LexRvalue (fresh (ts @ out) l c' rs)
    \<and> out = (if he then [mktok l c tokenEquals []] else [])"
proof -
  obtain a y where a: "rs = a # y" "a \<noteq> byte CHR ''=''" "\<not> isSpace (Some a)" using value_first [OF assms] by blast
  have sp1: "isSpace (Some (byte sp))" by (simp add: isSpace_def)
  show ?thesis
  proof (cases he)
    case True
    have "lexEquals (fresh ts l c (byte CHR ''='' # byte sp # rs))
        = (Some LexRspace, fresh (ts @ [mktok l c tokenEquals []]) l (c + 1) (byte sp # rs))"
      using skip_fresh [of "byte CHR ''=''"] by (subst lexEquals.simps) (simp add: emit_fresh_buffer)
    moreover have "lexRspace (fresh ts' l c' (byte sp # rs)) = (Some LexRvalue, fresh ts' l (c' + 1) rs)" for ts' c'
      using a sp1 skip_fresh [of "byte sp" ts' l c' rs]
      by (subst lexRspace.simps) (simp, subst lexRspace.simps, simp)
    ultimately show ?thesis using True by (fastforce simp: run_state lex_state_def)
  next
    case False
    have "lexEquals (fresh ts l c rs) = (Some LexRvalue, fresh ts l c rs)"
      using a by (subst lexEquals.simps) simp
    then show ?thesis using False by (fastforce simp: run_state lex_state_def)
  qed
qed

text \<open>The tokens of a line with a keyword, at column \<open>c\<close> of line \<open>l\<close>, and of the comment behind it.\<close>

definition key_tokens :: "int \<Rightarrow> int \<Rightarrow> string \<Rightarrow> bool \<Rightarrow> string \<Rightarrow> token list \<Rightarrow> bool" where
  "key_tokens l c k he v ts \<longleftrightarrow> (\<exists>c1 c2. ts = [mktok l c tokenKey k] @ (if he then [mktok l c1 tokenEquals []] else [])
     @ [mktok l c2 tokenString v])"

lemma run_key_value:
  assumes "start_ok k" "value_start v" "r \<notin> {byte sp, byte tab, byte CHR ''=''}"
  shows "\<exists>out c'. run LexVoid (fresh ts l c (bytes_of (k @ equals_text he @ v) @ r # x))
      = run LexRvalue (fresh (ts @ out) l c' (bytes_of v @ r # x))
    \<and> (\<exists>c1. out = [mktok l c tokenKey k] @ (if he then [mktok l c1 tokenEquals []] else []))"
proof -
  let ?ts = "ts @ [mktok l c tokenKey k]" and ?c = "c + int (length k) + 1"
  have e: "bytes_of (k @ equals_text he @ v) @ r # x
      = bytes_of k @ byte sp # (if he then [byte CHR ''='', byte sp] else []) @ bytes_of v @ r # x"
    by (simp add: equals_text_def)
  obtain out c' where "run LexEquals (fresh ?ts l ?c ((if he then [byte CHR ''='', byte sp] else []) @ bytes_of v @ r # x))
      = run LexRvalue (fresh (?ts @ out) l c' (bytes_of v @ r # x))" "out = (if he then [mktok l ?c tokenEquals []] else [])"
    using run_equals [OF assms(2,3) refl] by blast
  then show ?thesis unfolding e run_key [OF assms(1)]
    by (intro exI [of _ "[mktok l c tokenKey k] @ out"] exI [of _ c']) auto
qed

lemma run_plain_line:
  assumes "start_ok k" "value_start v"
  shows "\<exists>out. run LexVoid (fresh ts l 1 (bytes_of (replicate n sp @ k @ equals_text he @ v) @ byte nl # x))
      = run LexVoid (fresh (ts @ out) (l + 1) 1 x) \<and> key_tokens l (int n + 1) k he v out"
proof -
  obtain out c' where o: "run LexVoid (fresh ts l (1 + int n) (bytes_of (k @ equals_text he @ v) @ byte nl # x))
      = run LexRvalue (fresh (ts @ out) l c' (bytes_of v @ byte nl # x))"
      "\<exists>c1. out = [mktok l (1 + int n) tokenKey k] @ (if he then [mktok l c1 tokenEquals []] else [])"
    using run_key_value [OF assms, of "byte nl" ts l "1 + int n" he x] by auto
  have "run LexRvalue (fresh (ts @ out) l c' (bytes_of v @ byte nl # x))
      = run LexVoid (fresh (ts @ out @ [mktok l c' tokenString v]) (l + 1) 1 x)"
    using lexRvalue_line [of v "ts @ out" l c' c' "[]" x "[]"] assms(2)
    by (simp add: run_state lex_state_def lexRvalue_def fresh_inside [of "ts @ out" l c'] value_start_def)
  moreover have "bytes_of (replicate n sp @ k @ equals_text he @ v) @ byte nl # x
      = replicate n (byte sp) @ bytes_of (k @ equals_text he @ v) @ byte nl # x" by simp
  ultimately show ?thesis using o unfolding key_tokens_def
    by (intro exI [of _ "out @ [mktok l c' tokenString v]"]) (fastforce simp only: run_blanks append_assoc add.commute)
qed

lemma run_commented_line:
  assumes "start_ok k" "value_start v" "v \<noteq> []" "list_all comment_char cm"
  shows "\<exists>out c2. run LexVoid (fresh ts l 1 (bytes_of (replicate n sp @ k @ equals_text he @ v @ '' #'' @ cm) @ byte nl # x))
      = run LexVoid (fresh (ts @ out @ [mktok l c2 tokenComment cm]) (l + 1) 1 x)
      \<and> key_tokens l (int n + 1) k he (v @ '' '') out"
proof -
  let ?v = "v @ '' ''"
  have v: "value_start ?v" using assms(2,3) by (auto simp: value_start_def value_char_def ascii_def)
  obtain out c' where o: "run LexVoid (fresh ts l (1 + int n) (bytes_of (k @ equals_text he @ ?v) @ byte CHR ''#'' # bytes_of cm @ byte nl # x))
      = run LexRvalue (fresh (ts @ out) l c' (bytes_of ?v @ byte CHR ''#'' # bytes_of cm @ byte nl # x))"
      "\<exists>c1. out = [mktok l (1 + int n) tokenKey k] @ (if he then [mktok l c1 tokenEquals []] else [])"
    using run_key_value [OF assms(1) v, of "byte CHR ''#''" ts l "1 + int n" he "bytes_of cm @ byte nl # x"] by auto
  have "run LexRvalue (fresh (ts @ out) l c' (bytes_of ?v @ byte CHR ''#'' # bytes_of cm @ byte nl # x))
      = run LexComment (fresh (ts @ out @ [mktok l c' tokenString ?v]) l (c' + int (length ?v) + 1) (bytes_of cm @ byte nl # x))"
    using lexRvalue_comment [of ?v "ts @ out" l c' c' "[]" "bytes_of cm @ byte nl # x" "[]"] v
    by (simp add: run_state lex_state_def lexRvalue_def fresh_inside [of "ts @ out" l c'] value_start_def)
  also have "\<dots> = run LexVoid (fresh (ts @ out @ [mktok l c' tokenString ?v, mktok l (c' + int (length ?v) + 1) tokenComment cm]) (l + 1) 1 x)"
    using lexComment_line [OF assms(4)] by (simp add: run_state lex_state_def)
  finally have "run LexRvalue (fresh (ts @ out) l c' (bytes_of ?v @ byte CHR ''#'' # bytes_of cm @ byte nl # x))
      = run LexVoid (fresh (ts @ (out @ [mktok l c' tokenString ?v]) @ [mktok l (c' + int (length ?v) + 1) tokenComment cm]) (l + 1) 1 x)"
    by simp
  moreover have "bytes_of (replicate n sp @ k @ equals_text he @ v @ '' #'' @ cm) @ byte nl # x
      = replicate n (byte sp) @ bytes_of (k @ equals_text he @ ?v) @ byte CHR ''#'' # bytes_of cm @ byte nl # x" by simp
  ultimately show ?thesis using o unfolding key_tokens_def
    by (intro exI [of _ "out @ [mktok l c' tokenString ?v]"] exI [of _ "c' + int (length ?v) + 1"])
      (fastforce simp only: run_blanks append_assoc add.commute)
qed

lemma run_empty_line: "run LexVoid (fresh ts l 1 (byte nl # x)) = run LexVoid (fresh (ts @ [mktok l 1 tokenEmptyLine []]) (l + 1) 1 x)"
proof -
  have "lexVoid (fresh ts l 1 (byte nl # x)) = lexVoid (fresh (ts @ [mktok l 1 tokenEmptyLine []]) (l + 1) 1 x)"
    using skip_fresh_nl by (subst lexVoid.simps) (simp add: emit_fresh_buffer)
  then show ?thesis by (simp only: run.simps [of LexVoid] lex_state_def lexState.case)
qed

lemma run_comment_line:
  assumes "list_all comment_char cm"
  shows "run LexVoid (fresh ts l 1 (bytes_of (replicate n sp @ ''#'' @ cm) @ byte nl # x))
    = run LexVoid (fresh (ts @ [mktok l (int n + 2) tokenComment cm]) (l + 1) 1 x)"
proof -
  have "lexVoid (fresh ts l (1 + int n) (byte CHR ''#'' # bytes_of cm @ byte nl # x))
      = (Some LexComment, fresh ts l (1 + int n + 1) (bytes_of cm @ byte nl # x))"
    using skip_fresh [of "byte CHR ''#''"] by (subst lexVoid.simps) simp
  then have "run LexVoid (fresh ts l (1 + int n) (byte CHR ''#'' # bytes_of cm @ byte nl # x))
      = run LexVoid (fresh (ts @ [mktok l (int n + 2) tokenComment cm]) (l + 1) 1 x)"
    using lexComment_line [OF assms, of ts l "1 + int n + 1" x] by (simp add: run_state lex_state_def add.commute)
  moreover have "bytes_of (replicate n sp @ ''#'' @ cm) @ byte nl # x
      = replicate n (byte sp) @ byte CHR ''#'' # bytes_of cm @ byte nl # x" by simp
  ultimately show ?thesis by (simp only: run_blanks)
qed

lemma run_end: "tokens (run LexVoid (fresh ts l c [])) = ts @ [mktok l c tokenEOF []]"
proof -
  have "emit tokenEOF (lexer_next (fresh ts l c [])) = emit tokenEOF (fresh ts l (c + 1) [])\<lparr>tokens := ts @ [mktok l c tokenEOF []]\<rparr>"
    by (simp add: emit_def emitWithValue_def ignore_def lexer_next_def read_def peek_def fresh_def mktok_def string_of_runes_def)
  then show ?thesis by (simp add: run.simps lex_state_def lexVoid.simps)
qed

end
