(* ===== verification/Ssh_Roundtrip.thy ===== *)
theory Ssh_Roundtrip
  imports Ssh_Print
begin

section \<open>Package ssh\_config: the round trip\<close>

text \<open>
  Configurations that \<open>String\<close> prints and \<open>Decode\<close> reads back: plain keywords and values, comments on
  their own lines or behind a \<open>Host\<close> line, patterns that are not negated. Only the positions of the
  nodes differ, which \<open>strip\<close> forgets.
\<close>

definition no_pos :: Position where
  "no_pos = \<lparr>Line = 0, Col = 0\<rparr>"

fun strip_node :: "Node \<Rightarrow> Node" where
  "strip_node (NodeKV k) = NodeKV (k\<lparr>kv_position := no_pos\<rparr>)"
| "strip_node (NodeEmpty e) = NodeEmpty (e\<lparr>e_position := no_pos\<rparr>)"
| "strip_node (NodeInclude i fs) = NodeInclude i fs"

fun strip_host :: "Host \<Rightarrow> Host" where
  "strip_host (Host i ns) = Host i (map strip_node ns)"

definition strip :: "Config \<Rightarrow> Host list" where
  "strip c = map strip_host (Hosts c)"

subsection \<open>Canonical configurations\<close>

definition canon_kv :: "ssh_env \<Rightarrow> KV \<Rightarrow> bool" where
  "canon_kv env k \<longleftrightarrow> start_ok (Key k) \<and> value_start (Value k) \<and> Comment k = [] \<and> 0 \<le> kv_leadingSpace k
     \<and> ToLower env (Key k) \<notin> {''match'', ''host'', ''include''}"

definition canon_empty :: "EmptyLine \<Rightarrow> bool" where
  "canon_empty e \<longleftrightarrow> list_all comment_char (e_Comment e)
     \<and> (if e_Comment e = [] then e_leadingSpace e = -1 else 0 \<le> e_leadingSpace e)"

fun canon_node :: "ssh_env \<Rightarrow> Node \<Rightarrow> bool" where
  "canon_node env (NodeKV k) = canon_kv env k"
| "canon_node env (NodeEmpty e) = canon_empty e"
| "canon_node env (NodeInclude i fs) = False"

definition word_char :: "char \<Rightarrow> bool" where
  "word_char c \<longleftrightarrow> value_char c \<and> c \<notin> {sp, tab, CHR ''=''}"

definition canon_pattern :: "Pattern \<Rightarrow> bool" where
  "canon_pattern p \<longleftrightarrow> pstr p \<noteq> [] \<and> list_all word_char (pstr p) \<and> NewPattern (pstr p) = Inr p"

definition canon_info :: "Host_info \<Rightarrow> bool" where
  "canon_info i \<longleftrightarrow> Patterns i \<noteq> [] \<and> list_all canon_pattern (Patterns i) \<and> list_all comment_char (EOLComment i)
     \<and> h_leadingSpace i = 0 \<and> \<not> implicit i"

fun canon_host :: "ssh_env \<Rightarrow> Host \<Rightarrow> bool" where
  "canon_host env (Host i ns) = (canon_info i \<and> list_all (canon_node env) ns)"

definition canon :: "ssh_env \<Rightarrow> Config \<Rightarrow> bool" where
  "canon env c \<longleftrightarrow> (case Hosts c of
       [] \<Rightarrow> False
     | h # hs \<Rightarrow> Host_info_of h = Host_info_of (hd (Hosts newConfig)) \<and> list_all (canon_node env) (Nodes h)
         \<and> list_all (canon_host env) hs)"

subsection \<open>Lines of nodes\<close>

fun node_tokens :: "int \<Rightarrow> Node \<Rightarrow> token list \<Rightarrow> bool" where
  "node_tokens l (NodeKV k) ts = key_tokens l (kv_leadingSpace k + 1) (Key k) (kv_hasEquals k) (Value k) ts"
| "node_tokens l (NodeEmpty e) ts =
     (ts = [if e_Comment e = [] then mktok l 1 tokenEmptyLine [] else mktok l (e_leadingSpace e + 2) tokenComment (e_Comment e)])"
| "node_tokens l (NodeInclude i fs) ts = False"

fun nodes_tokens :: "int \<Rightarrow> Node list \<Rightarrow> token list \<Rightarrow> bool" where
  "nodes_tokens l [] ts = (ts = [])"
| "nodes_tokens l (n # ns) ts = (\<exists>a b. ts = a @ b \<and> node_tokens l n a \<and> nodes_tokens (l + 1) ns b)"

lemma ascii_texts:
  "list_all key_char s \<Longrightarrow> list_all ascii s" "list_all value_char s \<Longrightarrow> list_all ascii s"
  "list_all comment_char s \<Longrightarrow> list_all ascii s" "list_all word_char s \<Longrightarrow> list_all ascii s"
  "list_all ascii (replicate n sp)" "list_all ascii (equals_text he)" "list_all ascii (x # s) \<longleftrightarrow> ascii x \<and> list_all ascii s"
  by (simp_all add: list_all_iff key_char_def value_char_def comment_char_def word_char_def equals_text_def ascii_def)

lemma run_node:
  assumes "canon_node env n"
  shows "\<exists>t out. Node_String n = Some t \<and> list_all ascii t \<and> node_tokens l n out
    \<and> run LexVoid (fresh ts l 1 (bytes_of t @ byte nl # x)) = run LexVoid (fresh (ts @ out) (l + 1) 1 x)"
proof (cases n)
  case (NodeKV k)
  then have k: "start_ok (Key k)" "value_start (Value k)" "Comment k = []" "0 \<le> kv_leadingSpace k"
    using assms by (auto simp: canon_kv_def)
  let ?t = "replicate (nat (kv_leadingSpace k)) sp @ Key k @ equals_text (kv_hasEquals k) @ Value k"
  have "Node_String n = Some ?t" using NodeKV k by (simp add: KV_String_def blanks_def comment_text_def)
  moreover have "list_all ascii ?t"
    using k(1,2) by (simp add: start_ok_def value_start_def ascii_texts)
  ultimately show ?thesis
    using run_plain_line [OF k(1,2), of ts l "nat (kv_leadingSpace k)" "kv_hasEquals k" x] NodeKV k(4) by auto
next
  case (NodeEmpty e)
  show ?thesis
  proof (cases "e_Comment e = []")
    case True
    then show ?thesis using NodeEmpty run_empty_line [of ts l x] by (simp add: Empty_String_def)
  next
    case False
    then have e: "list_all comment_char (e_Comment e)" "0 \<le> e_leadingSpace e"
      using assms NodeEmpty by (auto simp: canon_empty_def)
    let ?t = "replicate (nat (e_leadingSpace e)) sp @ ''#'' @ e_Comment e"
    have "Node_String n = Some ?t" using NodeEmpty e False by (simp add: Empty_String_def blanks_def)
    moreover have "list_all ascii ?t" using e(1) by (simp add: ascii_texts ascii_def)
    ultimately show ?thesis
      using run_comment_line [OF e(1), of ts l "nat (e_leadingSpace e)" x] NodeEmpty False e(2) by auto
  qed
qed (use assms in simp)

lemma run_nodes:
  "list_all (canon_node env) ns \<Longrightarrow> \<exists>t out. Nodes_String ns = Some t \<and> list_all ascii t \<and> nodes_tokens l ns out
    \<and> run LexVoid (fresh ts l 1 (bytes_of t @ x)) = run LexVoid (fresh (ts @ out) (l + int (length ns)) 1 x)"
proof (induction ns arbitrary: l ts)
  case (Cons n ns)
  from Cons.IH Cons.prems obtain t2 o2 where 2: "Nodes_String ns = Some t2" "list_all ascii t2" "nodes_tokens (l + 1) ns o2" by fastforce
  obtain t1 o1 where 1: "Node_String n = Some t1" "list_all ascii t1" "node_tokens l n o1"
      "run LexVoid (fresh ts l 1 (bytes_of t1 @ byte nl # bytes_of t2 @ x)) = run LexVoid (fresh (ts @ o1) (l + 1) 1 (bytes_of t2 @ x))"
    using run_node [of env n l ts "bytes_of t2 @ x"] Cons.prems by auto
  obtain o3 where 3: "nodes_tokens (l + 1) ns o3" "run LexVoid (fresh (ts @ o1) (l + 1) 1 (bytes_of t2 @ x))
      = run LexVoid (fresh ((ts @ o1) @ o3) (l + 1 + int (length ns)) 1 x)"
    using Cons.IH [of "l + 1" "ts @ o1"] Cons.prems 2(1) by auto
  have "list_all ascii (t1 @ [nl] @ t2)" using 1(2) 2(2) by (simp add: ascii_def)
  moreover have "nodes_tokens l (n # ns) (o1 @ o3)" using 1(3) 3(1) by auto
  ultimately show ?case using 1 2(1) 3(2) by (intro exI [of _ "t1 @ [nl] @ t2"] exI [of _ "o1 @ o3"]) (simp add: add.assoc)
qed simp

subsection \<open>Parsing the lines of nodes\<close>

text \<open>The tokens to come do not start with a comment on a line before \<open>l\<close>.\<close>

definition later :: "int \<Rightarrow> token list \<Rightarrow> bool" where
  "later l ts \<longleftrightarrow> (case ts of [] \<Rightarrow> True | t # x \<Rightarrow> ttype t \<noteq> tokenComment \<or> l \<le> Line (tpos t))"

lemma key_tokens_later: "key_tokens l c k he v out \<Longrightarrow> later l (out @ ts)"
  by (auto simp: key_tokens_def later_def mktok_def)

lemma nodes_tokens_later: "nodes_tokens l ns out \<Longrightarrow> later (l + int (length ns)) ts \<Longrightarrow> later l (out @ ts)"
proof (cases ns)
  case (Cons n ms)
  moreover assume "nodes_tokens l ns out"
  ultimately show ?thesis by (cases n) (auto simp: later_def mktok_def key_tokens_def)
qed simp

lemma kv_value_key:
  assumes "later (l + 1) ts" "key_tokens l c k he v (t # out)"
  shows "\<exists>p. kv_value (out @ ts) = Ret (\<lparr>tpos = p, ttype = tokenString, val = v\<rparr>, he, [], ts) \<and> Line p = l
    \<and> t = mktok l c tokenKey k"
  using assms by (cases ts) (auto simp: key_tokens_def kv_value_def mktok_def later_def)

lemma parse_node:
  assumes "canon_node env n" "node_tokens l n out" "later (l + 1) ts"
  shows "\<exists>n'. strip_node n' = strip_node n
    \<and> parseStart env pf sys d (out @ ts) (ks @ [Host i ns]) = parseStart env pf sys d ts (ks @ [Host i (ns @ [n'])])"
proof (cases n)
  case (NodeKV k)
  obtain t o1 where o: "out = t # o1" using assms(2) NodeKV by (cases out) (auto simp: key_tokens_def)
  obtain p where v: "kv_value (o1 @ ts) = Ret (\<lparr>tpos = p, ttype = tokenString, val = Value k\<rparr>, kv_hasEquals k, [], ts)"
      "t = mktok l (kv_leadingSpace k + 1) tokenKey (Key k)"
    using kv_value_key [OF assms(3)] assms(2) NodeKV o by fastforce
  let ?k = "k\<lparr>kv_position := \<lparr>Line = l, Col = kv_leadingSpace k + 1\<rparr>\<rparr>"
  have k: "Comment k = []" "ToLower env (Key k) \<notin> {''match'', ''host'', ''include''}"
    using assms(1) NodeKV by (auto simp: canon_kv_def)
  have "parseKV env pf sys d t (o1 @ ts) (ks @ [Host i ns]) = Some (Ret (Inr (ts, ks @ [Host i (ns @ [NodeKV ?k])])))"
    using v k by (cases ks) (auto simp: parseKV_def mktok_def Let_def)
  then have "parseStart env pf sys d (out @ ts) (ks @ [Host i ns]) = parseStart env pf sys d ts (ks @ [Host i (ns @ [NodeKV ?k])])"
    using o v(2) by (subst parseStart.simps) (simp add: mktok_def)
  then show ?thesis using NodeKV by (intro exI [of _ "NodeKV ?k"]) simp
next
  case (NodeEmpty e)
  define t where "t = (if e_Comment e = [] then mktok l 1 tokenEmptyLine [] else mktok l (e_leadingSpace e + 2) tokenComment (e_Comment e))"
  let ?e = "e\<lparr>e_position := tpos t\<rparr>"
  have "parseComment t ts (ks @ [Host i ns]) = Some (Ret (Inr (ts, ks @ [Host i (ns @ [NodeEmpty ?e])])))"
    using assms(1) NodeEmpty by (cases ks) (auto simp: parseComment_def mktok_def t_def canon_empty_def)
  then have "parseStart env pf sys d (out @ ts) (ks @ [Host i ns]) = parseStart env pf sys d ts (ks @ [Host i (ns @ [NodeEmpty ?e])])"
    using assms(2) NodeEmpty by (subst parseStart.simps) (auto simp: mktok_def t_def)
  then show ?thesis using NodeEmpty by (intro exI [of _ "NodeEmpty ?e"]) simp
qed (use assms in simp)

lemma parse_nodes:
  assumes "later (l + int (length ms)) ts" "list_all (canon_node env) ms" "nodes_tokens l ms out"
  shows "\<exists>ms'. map strip_node ms' = map strip_node ms
    \<and> parseStart env pf sys d (out @ ts) (ks @ [Host i ns]) = parseStart env pf sys d ts (ks @ [Host i (ns @ ms')])"
  using assms
proof (induction ms arbitrary: l out ns)
  case (Cons m ms)
  obtain a b where ab: "out = a @ b" "node_tokens l m a" "nodes_tokens (l + 1) ms b" using Cons.prems(3) by auto
  have c: "canon_node env m" "list_all (canon_node env) ms" using Cons.prems(2) by simp_all
  have lt: "later (l + 1 + int (length ms)) ts" using Cons.prems(1) by (simp add: add.assoc)
  obtain n' where n: "strip_node n' = strip_node m"
      "parseStart env pf sys d (a @ b @ ts) (ks @ [Host i ns]) = parseStart env pf sys d (b @ ts) (ks @ [Host i (ns @ [n'])])"
    using parse_node [OF _ ab(2) nodes_tokens_later [OF ab(3) lt]] c(1) by blast
  obtain ms' where m: "map strip_node ms' = map strip_node ms"
      "parseStart env pf sys d (b @ ts) (ks @ [Host i (ns @ [n'])]) = parseStart env pf sys d ts (ks @ [Host i ((ns @ [n']) @ ms')])"
    using Cons.IH [OF lt c(2) ab(3)] by blast
  show ?case using ab(1) n m by (intro exI [of _ "n' # ms'"]) simp
qed simp

subsection \<open>Hosts\<close>

fun host_tokens :: "int \<Rightarrow> Host_info \<Rightarrow> token list \<Rightarrow> bool" where
  "host_tokens l i ts =
     (let v = join_with '' '' (map pstr (Patterns i)) in
      if EOLComment i = [] then key_tokens l 1 ''Host'' (h_hasEquals i) v ts
      else \<exists>a c. ts = a @ [mktok l c tokenComment (EOLComment i)] \<and> key_tokens l 1 ''Host'' (h_hasEquals i) (v @ '' '') a)"

declare host_tokens.simps [simp del]

fun hosts_tokens :: "int \<Rightarrow> Host list \<Rightarrow> token list \<Rightarrow> bool" where
  "hosts_tokens l [] ts = (ts = [])"
| "hosts_tokens l (Host i ns # hs) ts =
     (\<exists>a b c. ts = a @ b @ c \<and> host_tokens l i a \<and> nodes_tokens (l + 1) ns b
        \<and> hosts_tokens (l + 1 + int (length ns)) hs c)"

lemma split_at_word: "c \<notin> set w \<Longrightarrow> split_at c (w @ c # s) = w # split_at c s"
  by (induction w) auto

lemma split_at_single: "c \<notin> set w \<Longrightarrow> split_at c w = [w]"
  by (induction w) auto

lemma split_join: "ws \<noteq> [] \<Longrightarrow> \<forall>w \<in> set ws. sp \<notin> set w \<Longrightarrow> split_at sp (join_with '' '' ws) = ws"
  by (induction ws rule: induct_list012) (auto simp: split_at_single split_at_word)

lemma split_append: "split_at c (s @ [c]) = split_at c s @ [[]]"
proof (induction s)
  case (Cons x s)
  have "split_at c s \<noteq> []" by (cases s) (auto split: list.splits)
  then show ?case using Cons by (auto split: list.splits)
qed simp

lemma word_value: "list_all word_char w \<Longrightarrow> list_all value_char w"
  by (simp add: list_all_iff word_char_def)

lemma join_words: "list_all (\<lambda>w. list_all word_char w) ws \<Longrightarrow> list_all value_char (join_with '' '' ws)"
proof (induction ws rule: induct_list012)
  case (3 x y zs)
  have "value_char sp" by (simp add: value_char_def ascii_def)
  then show ?case using 3 by (simp add: word_value)
qed (simp_all add: word_value)

lemma host_value:
  assumes "canon_info i"
  defines "v \<equiv> join_with '' '' (map pstr (Patterns i))"
  shows "value_start v" "v \<noteq> []" "split_at sp v = map pstr (Patterns i)"
proof -
  obtain p ps where p: "Patterns i = p # ps" using assms(1) by (cases "Patterns i") (auto simp: canon_info_def)
  have w: "list_all (\<lambda>w. list_all word_char w) (map pstr (Patterns i))" "\<forall>q \<in> set (Patterns i). pstr q \<noteq> []"
    using assms(1) by (auto simp: canon_info_def canon_pattern_def list_all_iff)
  have h: "\<exists>x. v = pstr p @ x" using p by (cases ps) (auto simp: v_def)
  have "pstr p \<noteq> []" "hd (pstr p) \<notin> {sp, tab, CHR ''=''}"
    using w p by (auto simp: word_char_def) (cases "pstr p"; auto simp: word_char_def)+
  then show "value_start v" "v \<noteq> []" using h join_words [OF w(1)] by (auto simp: value_start_def v_def)
  have "\<forall>w \<in> set (map pstr (Patterns i)). sp \<notin> set w" using w(1) by (auto simp: list_all_iff word_char_def)
  then show "split_at sp v = map pstr (Patterns i)" using split_join [of "map pstr (Patterns i)"] p by (simp add: v_def)
qed

lemma host_patterns_canon: "list_all canon_pattern ps \<Longrightarrow> host_patterns (map pstr ps @ tl') = (case host_patterns tl' of Inl e \<Rightarrow> Inl e | Inr qs \<Rightarrow> Inr (ps @ qs))"
  by (induction ps) (auto simp: canon_pattern_def split: sum.split)

lemma start_Host: "start_ok ''Host''"
  by (simp add: start_ok_def key_char_def ascii_def)

lemma run_host_line:
  assumes "canon_info i"
  shows "\<exists>t out. Host_line i = Some t \<and> list_all ascii t \<and> host_tokens l i out
    \<and> run LexVoid (fresh ts l 1 (bytes_of t @ x)) = run LexVoid (fresh (ts @ out) (l + 1) 1 x)"
proof -
  let ?v = "join_with '' '' (map pstr (Patterns i))" and ?c = "EOLComment i"
  note v = host_value [OF assms]
  have i: "\<not> implicit i" "h_leadingSpace i = 0" "list_all comment_char ?c" using assms by (auto simp: canon_info_def)
  let ?t = "''Host'' @ equals_text (h_hasEquals i) @ ?v @ comment_text ?c @ [nl]"
  have "Host_line i = Some ?t" using i by (simp add: Host_line_def blanks_def)
  moreover have "list_all ascii ?t"
    using v(1) i(3) by (simp add: value_start_def comment_text_def ascii_texts ascii_def)
  moreover have "\<exists>out. host_tokens l i out \<and> run LexVoid (fresh ts l 1 (bytes_of ?t @ x)) = run LexVoid (fresh (ts @ out) (l + 1) 1 x)"
  proof (cases "?c = []")
    case True
    have e: "bytes_of ?t @ x = bytes_of (replicate 0 sp @ ''Host'' @ equals_text (h_hasEquals i) @ ?v) @ byte nl # x"
      using True by (simp add: comment_text_def)
    show ?thesis using run_plain_line [OF start_Host v(1), of ts l 0 "h_hasEquals i" x] True unfolding e
      by (auto simp: host_tokens.simps)
  next
    case False
    have e: "bytes_of ?t @ x = bytes_of (replicate 0 sp @ ''Host'' @ equals_text (h_hasEquals i) @ ?v @ '' #'' @ ?c) @ byte nl # x"
      using False by (simp add: comment_text_def)
    show ?thesis using run_commented_line [OF start_Host v(1,2) i(3), of ts l 0 "h_hasEquals i" x] False unfolding e
      by (auto simp: host_tokens.simps)
  qed
  ultimately show ?thesis by blast
qed

lemma run_hosts:
  "list_all (canon_host env) hs \<Longrightarrow> \<exists>t out l'. marshal_hosts hs = Some t \<and> list_all ascii t \<and> hosts_tokens l hs out
    \<and> run LexVoid (fresh ts l 1 (bytes_of t)) = run LexVoid (fresh (ts @ out) l' 1 [])"
proof (induction hs arbitrary: l ts)
  case (Cons h hs)
  obtain i ns where h: "h = Host i ns" by (cases h)
  have c: "canon_info i" "list_all (canon_node env) ns" "list_all (canon_host env) hs" using Cons.prems h by simp_all
  obtain t3 where t3: "marshal_hosts hs = Some t3" "list_all ascii t3" using Cons.IH [OF c(3)] by blast
  obtain t2 where t2: "Nodes_String ns = Some t2" "list_all ascii t2" using run_nodes [OF c(2)] by blast
  obtain t1 o1 where 1: "Host_line i = Some t1" "list_all ascii t1" "host_tokens l i o1"
      "run LexVoid (fresh ts l 1 (bytes_of t1 @ bytes_of t2 @ bytes_of t3)) = run LexVoid (fresh (ts @ o1) (l + 1) 1 (bytes_of t2 @ bytes_of t3))"
    using run_host_line [OF c(1)] by blast
  obtain o2 where 2: "nodes_tokens (l + 1) ns o2" "run LexVoid (fresh (ts @ o1) (l + 1) 1 (bytes_of t2 @ bytes_of t3))
      = run LexVoid (fresh ((ts @ o1) @ o2) (l + 1 + int (length ns)) 1 (bytes_of t3))"
    using run_nodes [OF c(2), of "l + 1" "ts @ o1" "bytes_of t3"] t2(1) by auto
  obtain o3 l' where 3: "hosts_tokens (l + 1 + int (length ns)) hs o3"
      "run LexVoid (fresh ((ts @ o1) @ o2) (l + 1 + int (length ns)) 1 (bytes_of t3)) = run LexVoid (fresh (((ts @ o1) @ o2) @ o3) l' 1 [])"
    using Cons.IH [OF c(3), of "l + 1 + int (length ns)" "(ts @ o1) @ o2"] t3(1) by auto
  have "hosts_tokens l (h # hs) (o1 @ o2 @ o3)" using 1(3) 2(1) 3(1) h by auto
  moreover have "marshal_hosts (h # hs) = Some (t1 @ t2 @ t3)" using 1(1) t2(1) t3(1) h by (simp add: Host_String_def)
  ultimately show ?case using 1 2 3 t2(2) t3(2)
    by (intro exI [of _ "t1 @ t2 @ t3"] exI [of _ "o1 @ o2 @ o3"] exI [of _ l']) simp
qed (auto intro: exI)

lemma host_tokens_later: "host_tokens l i out \<Longrightarrow> later l (out @ ts)"
  using key_tokens_later by (auto simp: host_tokens.simps Let_def split: if_splits)

lemma hosts_tokens_later: "hosts_tokens l hs out \<Longrightarrow> later l (out @ [mktok l' c tokenEOF []])"
proof (cases hs)
  case (Cons h ks)
  moreover assume "hosts_tokens l hs out"
  ultimately show ?thesis by (cases h) (auto simp: host_tokens_later)
qed (simp add: later_def mktok_def)

lemma kv_value_commented:
  assumes "key_tokens l c k he v (t # a)"
  shows "\<exists>p. kv_value (a @ mktok l c2 tokenComment cm # ts) = Ret (\<lparr>tpos = p, ttype = tokenString, val = v\<rparr>, he, cm, ts)
    \<and> t = mktok l c tokenKey k"
  using assms by (auto simp: key_tokens_def kv_value_def mktok_def)

lemma lower_Host: "ToLower env ''Host'' = ''host''"
  by (simp add: ToLower_def runes_def range_str_ascii ascii_def string_of_runes_def lower_rune_def)
    (simp add: encode_rune_def char_of_def bit_0)

lemma parse_host:
  assumes "canon_info i" "host_tokens l i out" "later (l + 1) ts"
  shows "parseStart env pf sys d (out @ ts) hs = parseStart env pf sys d ts (hs @ [Host i []])"
proof -
  let ?v = "join_with '' '' (map pstr (Patterns i))" and ?c = "EOLComment i"
  note v = host_value [OF assms(1)]
  have i: "list_all canon_pattern (Patterns i)" "i = \<lparr>Patterns = Patterns i, EOLComment = ?c, h_hasEquals = h_hasEquals i,
      h_leadingSpace = 0, implicit = False\<rparr>"
    using assms(1) by (auto simp: canon_info_def)
  have "\<exists>t o1 w p. out = t # o1 \<and> t = mktok l 1 tokenKey ''Host'' \<and> split_at sp w \<in> {map pstr (Patterns i), map pstr (Patterns i) @ [[]]}
      \<and> kv_value (o1 @ ts) = Ret (\<lparr>tpos = p, ttype = tokenString, val = w\<rparr>, h_hasEquals i, ?c, ts)"
  proof (cases "?c = []")
    case True
    then have k: "key_tokens l 1 ''Host'' (h_hasEquals i) ?v out" using assms(2) by (simp add: host_tokens.simps)
    then obtain t o1 where o: "out = t # o1" by (cases out) (auto simp: key_tokens_def)
    show ?thesis using kv_value_key [OF assms(3) k [unfolded o]] o True v(3) by auto
  next
    case False
    then obtain a c where k: "out = a @ [mktok l c tokenComment ?c]" "key_tokens l 1 ''Host'' (h_hasEquals i) (?v @ '' '') a"
      using assms(2) by (auto simp: host_tokens.simps Let_def)
    then obtain t o1 where o: "a = t # o1" by (cases a) (auto simp: key_tokens_def)
    show ?thesis using kv_value_commented [OF k(2) [unfolded o], of c ?c ts] k(1) o v(3) split_append [of sp ?v] by auto
  qed
  then obtain t o1 w p where t: "out = t # o1" "t = mktok l 1 tokenKey ''Host''"
      "split_at sp w \<in> {map pstr (Patterns i), map pstr (Patterns i) @ [[]]}"
      "kv_value (o1 @ ts) = Ret (\<lparr>tpos = p, ttype = tokenString, val = w\<rparr>, h_hasEquals i, ?c, ts)" by blast
  have "host_patterns (split_at sp w) = Inr (Patterns i)"
    using t(3) host_patterns_canon [OF i(1), of "[]"] host_patterns_canon [OF i(1), of "[[]]"] by auto
  then have "parseKV env pf sys d t (o1 @ ts) hs = Some (Ret (Inr (ts, hs @ [Host i []])))"
    using t(2,4) i(2) lower_Host [of env] by (simp add: parseKV_def mktok_def)
  then show ?thesis using t(1,2) by (subst parseStart.simps) (simp add: mktok_def)
qed

lemma parse_hosts:
  assumes "list_all (canon_host env) gs" "hosts_tokens l gs out"
  shows "\<exists>gs'. map strip_host gs' = map strip_host gs
    \<and> parseStart env pf sys d (out @ [mktok l' c tokenEOF []]) hs = Some (Ret (Inr (hs @ gs')))"
  using assms
proof (induction gs arbitrary: l out hs)
  case Nil
  then show ?case by (simp add: parseStart.simps mktok_def)
next
  case (Cons g gs)
  let ?e = "[mktok l' c tokenEOF []]"
  obtain i ns where g: "g = Host i ns" by (cases g)
  have cn: "canon_info i" "list_all (canon_node env) ns" "list_all (canon_host env) gs" using Cons.prems(1) g by simp_all
  obtain a b e where o: "out = a @ b @ e" "host_tokens l i a" "nodes_tokens (l + 1) ns b"
      "hosts_tokens (l + 1 + int (length ns)) gs e" using Cons.prems(2) g by auto
  note l2 = hosts_tokens_later [OF o(4), of l' c]
  note l1 = nodes_tokens_later [OF o(3) l2]
  have 1: "parseStart env pf sys d (a @ b @ e @ ?e) hs = parseStart env pf sys d (b @ e @ ?e) (hs @ [Host i []])"
    using parse_host [OF cn(1) o(2) l1] .
  obtain ns' where 2: "map strip_node ns' = map strip_node ns"
      "parseStart env pf sys d (b @ e @ ?e) (hs @ [Host i []]) = parseStart env pf sys d (e @ ?e) (hs @ [Host i ([] @ ns')])"
    using parse_nodes [OF l2 cn(2) o(3)] by blast
  obtain gs' where 3: "map strip_host gs' = map strip_host gs"
      "parseStart env pf sys d (e @ ?e) (hs @ [Host i ns']) = Some (Ret (Inr ((hs @ [Host i ns']) @ gs')))"
    using Cons.IH [OF cn(3) o(4)] by blast
  show ?case using o(1) 1 2 3 g by (intro exI [of _ "Host i ns' # gs'"]) simp
qed

lemma runes_bytes: "list_all ascii s \<Longrightarrow> runes s = bytes_of s"
  by (simp add: runes_ascii list_all_iff)

lemma Decode_String:
  assumes "canon env c"
  shows "\<exists>t c'. Config_String c = Some t \<and> Decode env t = Some (Ret (Inr c')) \<and> strip c' = strip c"
proof -
  obtain i ns hs where h: "Hosts c = Host i ns # hs" using assms by (cases c; cases "Hosts c") (auto simp: canon_def, metis Host.exhaust)
  let ?i = "Host_info_of (hd (Hosts newConfig))"
  have cn: "i = ?i" "list_all (canon_node env) ns" "list_all (canon_host env) hs" using assms h by (auto simp: canon_def)
  obtain t2 where t2: "marshal_hosts hs = Some t2" "list_all ascii t2" using run_hosts [OF cn(3)] by blast
  obtain t1 o1 where 1: "Nodes_String ns = Some t1" "list_all ascii t1" "nodes_tokens 1 ns o1"
      "run LexVoid (fresh [] 1 1 (bytes_of t1 @ bytes_of t2)) = run LexVoid (fresh ([] @ o1) (1 + int (length ns)) 1 (bytes_of t2))"
    using run_nodes [OF cn(2), of 1 "[]" "bytes_of t2"] by blast
  obtain o2 l' where 2: "hosts_tokens (1 + int (length ns)) hs o2"
      "run LexVoid (fresh o1 (1 + int (length ns)) 1 (bytes_of t2)) = run LexVoid (fresh (o1 @ o2) l' 1 [])"
    using run_hosts [OF cn(3), of "1 + int (length ns)" o1] t2(1) by auto
  have "runes (t1 @ t2) = bytes_of t1 @ bytes_of t2" using runes_bytes [of "t1 @ t2"] 1(2) t2(2) by simp
  then have lx: "lexSSH (t1 @ t2) = o1 @ o2 @ [mktok l' 1 tokenEOF []]"
    using 1(4) 2(2) run_end [of "o1 @ o2" l' 1] by (simp add: lexSSH_def fresh_def [symmetric])
  define pf :: parse_file where "pf f d = (case ReadFile env f of
                Inl e \<Rightarrow> Some (Ret (Inl (ReadErr e)))
              | Inr text \<Rightarrow> bind_res (decodeBytes 6 env text (isSystem f) d) (\<lambda>r. Some (Ret (map_sum DecodeErr id r))))" for f d
  note l2 = hosts_tokens_later [OF 2(1), of l' 1]
  obtain ns' where 3: "map strip_node ns' = map strip_node ns" "parseStart env pf False 0 (o1 @ o2 @ [mktok l' 1 tokenEOF []]) ([] @ [Host ?i []])
      = parseStart env pf False 0 (o2 @ [mktok l' 1 tokenEOF []]) ([] @ [Host ?i ([] @ ns')])"
    using parse_nodes [OF l2 cn(2) 1(3)] by blast
  obtain hs' where 4: "map strip_host hs' = map strip_host hs"
      "parseStart env pf False 0 (o2 @ [mktok l' 1 tokenEOF []]) [Host ?i ns'] = Some (Ret (Inr ([Host ?i ns'] @ hs')))"
    using parse_hosts [OF cn(3) 2(1)] by blast
  have n: "Hosts newConfig = [Host ?i []]" by (simp add: newConfig_def)
  have e: "enough = Suc 6" by (simp add: enough_def)
  have "Decode env (t1 @ t2) = parseSSH env pf (lexSSH (t1 @ t2)) False 0"
    by (simp only: Decode_def e decodeBytes.simps pf_def [abs_def])
  then have "Decode env (t1 @ t2) = Some (Ret (Inr (Config (Host ?i ns' # hs'))))"
    using 3(2) 4(2) lx n by (simp add: parseSSH_def)
  moreover have "Config_String c = Some (t1 @ t2)"
    using h t2(1) 1(1) cn(1) by (simp add: Config_String_def Host_String_def Host_line_def newConfig_def)
  moreover have "strip (Config (Host ?i ns' # hs')) = strip c" using h 3(1) 4(1) cn(1) by (simp add: strip_def)
  ultimately show ?thesis by blast
qed

end
