(* ===== verification/Ssh_Lookup.thy ===== *)
theory Ssh_Lookup
  imports Ssh_Roundtrip
begin

section \<open>Package ssh\_config: patterns and lookup\<close>

text \<open>
  What a pattern matches, which hosts apply, and which value a lookup finds: the first of the
  candidates in the order of the file, where an included file contributes its first value unless it
  is empty. Decoded configurations hold no \<open>Match\<close> keyword, so that a lookup does not panic.
\<close>

subsection \<open>Patterns\<close>

text \<open>Wildcards: \<^verbatim>\<open>*\<close> is any text on one line, \<^verbatim>\<open>?\<close> at most one character.\<close>

fun glob :: "string \<Rightarrow> rune list \<Rightarrow> bool" where
  "glob [] s = (s = [])"
| "glob (c # p) s =
     (if c = CHR ''*'' then (\<exists>n \<in> {0..length s}. byte nl \<notin> set (take n s) \<and> glob p (drop n s))
      else if c = CHR ''?'' then glob p s \<or> (s \<noteq> [] \<and> hd s \<noteq> byte nl \<and> glob p (tl s))
      else s \<noteq> [] \<and> hd s = byte c \<and> glob p (tl s))"

definition item_of :: "char \<Rightarrow> rx_item" where
  "item_of c = (if c = CHR ''*'' then AnyMany else if c = CHR ''?'' then AnyOpt else Lit (byte c))"

lemma rx_items_plain: "r \<noteq> byte CHR ''.'' \<Longrightarrow> r \<noteq> byte bsl \<Longrightarrow> rx_items (r # rs) = Lit r # rx_items rs"
  by (cases rs) simp_all

lemma rx_items_pattern: "rx_items (bytes_of (concat (map pattern_byte s))) = map item_of s"
proof (induction s)
  case (Cons c s)
  let ?r = "bytes_of (concat (map pattern_byte s))"
  consider (many) "c = CHR ''*''" | (opt) "c = CHR ''?''" | (spec) "c \<noteq> CHR ''*''" "c \<noteq> CHR ''?''" "special c"
    | (plain) "c \<noteq> CHR ''*''" "c \<noteq> CHR ''?''" "\<not> special c" by blast
  then show ?case
  proof cases
    case plain
    then have "c \<noteq> CHR ''.''" "c \<noteq> bsl" by (auto simp: special_def specialBytes_def)
    then have "byte c \<noteq> byte CHR ''.''" "byte c \<noteq> byte bsl" unfolding byte_eq by auto
    then have "rx_items (byte c # ?r) = Lit (byte c) # rx_items ?r" by (rule rx_items_plain)
    moreover have "pattern_byte c = [c]" "item_of c = Lit (byte c)" using plain by (simp_all add: pattern_byte_def item_of_def)
    ultimately show ?thesis using Cons by simp
  qed (use Cons in \<open>simp_all add: pattern_byte_def item_of_def\<close>)
qed simp

lemma ascii_bytes: "list_all ascii s \<Longrightarrow> string_of_runes (bytes_of s) = s"
  by (induction s) (auto simp: string_of_runes_def encode_rune_ascii)

lemma pattern_byte_ascii: "list_all ascii s \<Longrightarrow> list_all ascii (concat (map pattern_byte s))"
  by (induction s) (auto simp: pattern_byte_def ascii_def)

lemma NewPattern_ascii:
  assumes "list_all ascii s" "s \<noteq> []" "hd s \<noteq> CHR ''!''"
  shows "NewPattern s = Inr \<lparr>pstr = s, regex = map item_of s, neg = False\<rparr>"
    "NewPattern (CHR ''!'' # s) = Inr \<lparr>pstr = s, regex = map item_of s, neg = True\<rparr>"
proof -
  let ?t = "concat (map pattern_byte s)"
  have a: "list_all ascii (''^'' @ ?t @ ''$'')" using pattern_byte_ascii [OF assms(1)] by (simp add: ascii_def)
  then have "utf8_valid (''^'' @ ?t @ ''$'')" unfolding utf8_valid_def by (simp only: runes_bytes [OF a] ascii_bytes [OF a])
  moreover have "runes ?t = bytes_of ?t" using runes_bytes pattern_byte_ascii [OF assms(1)] by blast
  ultimately have "regexp_Compile (pattern_text s) = Inr (map item_of s)"
    by (simp add: regexp_Compile_def pattern_text_def butlast_append rx_items_pattern)
  then show "NewPattern s = Inr \<lparr>pstr = s, regex = map item_of s, neg = False\<rparr>"
    "NewPattern (CHR ''!'' # s) = Inr \<lparr>pstr = s, regex = map item_of s, neg = True\<rparr>"
    using assms(2,3) by (simp_all add: NewPattern_def Let_def)
qed

lemma match_many:
  "rx_match (AnyMany # is) s \<longleftrightarrow> (\<exists>n \<in> {0..length s}. byte nl \<notin> set (take n s) \<and> rx_match is (drop n s))"
proof (induction s)
  case (Cons c cs)
  have "(\<exists>n \<in> {0..length (c # cs)}. byte nl \<notin> set (take n (c # cs)) \<and> rx_match is (drop n (c # cs)))
      \<longleftrightarrow> rx_match is (c # cs) \<or> (c \<noteq> byte nl \<and> (\<exists>n \<in> {0..length cs}. byte nl \<notin> set (take n cs) \<and> rx_match is (drop n cs)))"
    (is "?l \<longleftrightarrow> ?r")
  proof
    assume ?l
    then obtain n where n: "n \<le> length (c # cs)" "byte nl \<notin> set (take n (c # cs))" "rx_match is (drop n (c # cs))" by auto
    then show ?r by (cases n) auto
  next
    assume ?r
    then show ?l
    proof
      assume "rx_match is (c # cs)"
      then show ?l by (intro bexI [of _ 0]) auto
    next
      assume "c \<noteq> byte nl \<and> (\<exists>n \<in> {0..length cs}. byte nl \<notin> set (take n cs) \<and> rx_match is (drop n cs))"
      then obtain n where "c \<noteq> byte nl" "n \<le> length cs" "byte nl \<notin> set (take n cs)" "rx_match is (drop n cs)" by auto
      then show ?l by (intro bexI [of _ "Suc n"]) auto
    qed
  qed
  then show ?case using Cons by simp
qed simp

lemma match_glob: "rx_match (map item_of p) s = glob p s"
proof (induction p arbitrary: s)
  case (Cons c p)
  show ?case
  proof (cases "c = CHR ''*''")
    case True
    then show ?thesis using Cons by (simp add: item_of_def match_many)
  next
    case False
    then show ?thesis using Cons by (cases s) (auto simp: item_of_def)
  qed
qed simp

lemma patterns_match_iff:
  "patterns_match alias ps found \<longleftrightarrow> (found \<or> (\<exists>p \<in> set ps. MatchString (regex p) alias \<and> \<not> neg p))
     \<and> (\<forall>p \<in> set ps. MatchString (regex p) alias \<longrightarrow> \<not> neg p)"
  by (induction ps arbitrary: found) auto

subsection \<open>Lookup\<close>

fun cands :: "ssh_env \<Rightarrow> string \<Rightarrow> string \<Rightarrow> Config \<Rightarrow> string list"
  and cands_hosts :: "ssh_env \<Rightarrow> string \<Rightarrow> string \<Rightarrow> Host list \<Rightarrow> string list"
  and cands_nodes :: "ssh_env \<Rightarrow> string \<Rightarrow> string \<Rightarrow> Node list \<Rightarrow> string list"
  and cands_files :: "ssh_env \<Rightarrow> string \<Rightarrow> string \<Rightarrow> (string \<times> Config) list \<Rightarrow> string list" where
  "cands env alias key (Config hs) = cands_hosts env alias key hs"
| "cands_hosts env alias key [] = []"
| "cands_hosts env alias key (Host i ns # hs) =
     (if Matches i alias then cands_nodes env alias key ns else []) @ cands_hosts env alias key hs"
| "cands_nodes env alias key [] = []"
| "cands_nodes env alias key (NodeEmpty e # ns) = cands_nodes env alias key ns"
| "cands_nodes env alias key (NodeKV kv # ns) =
     (if ToLower env (Key kv) = ToLower env key then [Value kv] else []) @ cands_nodes env alias key ns"
| "cands_nodes env alias key (NodeInclude i fs # ns) = cands_files env alias key fs @ cands_nodes env alias key ns"
| "cands_files env alias key [] = []"
| "cands_files env alias key ((f, c) # fs) =
     filter (\<lambda>v. v \<noteq> []) (take 1 (cands env alias key c)) @ cands_files env alias key fs"

fun no_match :: "ssh_env \<Rightarrow> Config \<Rightarrow> bool"
  and no_match_hosts :: "ssh_env \<Rightarrow> Host list \<Rightarrow> bool"
  and no_match_nodes :: "ssh_env \<Rightarrow> Node list \<Rightarrow> bool"
  and no_match_files :: "ssh_env \<Rightarrow> (string \<times> Config) list \<Rightarrow> bool" where
  "no_match env (Config hs) = no_match_hosts env hs"
| "no_match_hosts env [] = True"
| "no_match_hosts env (Host i ns # hs) = (no_match_nodes env ns \<and> no_match_hosts env hs)"
| "no_match_nodes env [] = True"
| "no_match_nodes env (NodeEmpty e # ns) = no_match_nodes env ns"
| "no_match_nodes env (NodeKV kv # ns) = (ToLower env (Key kv) \<noteq> ''match'' \<and> no_match_nodes env ns)"
| "no_match_nodes env (NodeInclude i fs # ns) = (no_match_files env fs \<and> no_match_nodes env ns)"
| "no_match_files env [] = True"
| "no_match_files env ((f, c) # fs) = (no_match env c \<and> no_match_files env fs)"

abbreviation first :: "string list \<Rightarrow> string option" where
  "first vs \<equiv> (case vs of [] \<Rightarrow> None | v # x \<Rightarrow> Some v)"

lemma Get_first:
  "no_match env c \<Longrightarrow> Config_Get env al key c = Some (first (cands env al key c))"
  "no_match_hosts env hs \<Longrightarrow> Hosts_Get env al key hs = Some (first (cands_hosts env al key hs))"
  "no_match_nodes env ns \<Longrightarrow> Nodes_Get env al key ns = Some (first (cands_nodes env al key ns))"
  "no_match_files env fs \<Longrightarrow> Include_Get env al key fs = Some (first (cands_files env al key fs))"
proof (induction env al key c and env al key hs and env al key ns and env al key fs
    rule: Config_Get_Hosts_Get_Nodes_Get_Include_Get.induct)
qed (auto split: list.splits)

subsection \<open>Decoded configurations hold no Match\<close>

lemma no_match_hosts_append: "no_match_hosts env (a @ b) \<longleftrightarrow> no_match_hosts env a \<and> no_match_hosts env b"
proof (induction a)
  case (Cons h a)
  then show ?case by (cases h) auto
qed simp

lemma no_match_nodes_append: "no_match_nodes env (a @ b) \<longleftrightarrow> no_match_nodes env a \<and> no_match_nodes env b"
proof (induction a)
  case (Cons n a)
  then show ?case by (cases n) auto
qed simp

lemma add_node_no_match:
  assumes "add_node hs n = Ret hs'" "no_match_hosts env hs" "no_match_nodes env [n]"
  shows "no_match_hosts env hs'"
proof -
  obtain ks i ns where h: "hs = ks @ [Host i ns]" using assms(1) by (metis Host.exhaust add_node.simps(1) outcome.distinct(1) rev_exhaust)
  have "hs' = ks @ [Host i (ns @ [n])]" using assms(1) h by (cases ks) auto
  then show ?thesis using assms(2,3) h by (auto simp: no_match_hosts_append no_match_nodes_append)
qed

definition files_no_match :: "ssh_env \<Rightarrow> parse_file \<Rightarrow> bool" where
  "files_no_match env pf \<longleftrightarrow> (\<forall>f d c. pf f d = Some (Ret (Inr c)) \<longrightarrow> no_match env c)"

lemma include_files_no_match:
  "files_no_match env pf \<Longrightarrow> include_files pf d fs = Some (Ret (Inr cs)) \<Longrightarrow> no_match_files env cs"
proof (induction fs arbitrary: cs)
  case (Cons f fs)
  then show ?case
    by (auto simp: files_no_match_def bind_res_def split: option.splits outcome.splits sum.splits)
qed simp

lemma NewInclude_no_match:
  "files_no_match env pf \<Longrightarrow> NewInclude env pf ds he p c sys d = Some (Ret (Inr n)) \<Longrightarrow> no_match_nodes env [n]"
  by (auto simp: NewInclude_def bind_res_def dest: include_files_no_match
      split: if_splits option.splits outcome.splits sum.splits file_error.splits)

lemma parseKV_no_match:
  assumes "files_no_match env pf" "no_match_hosts env hs" "parseKV env pf sys d key ts hs = Some (Ret (Inr (ts', hs')))"
  shows "no_match_hosts env hs'"
  using assms(2,3)
  by (auto simp: parseKV_def Let_def bind_res_def no_match_hosts_append
      dest!: NewInclude_no_match [OF assms(1)] elim!: add_node_no_match
      split: if_splits option.splits outcome.splits sum.splits)

lemma parseStart_no_match:
  assumes "files_no_match env pf"
  shows "no_match_hosts env hs \<Longrightarrow> parseStart env pf sys d ts hs = Some (Ret (Inr hs')) \<Longrightarrow> no_match_hosts env hs'"
proof (induction "length ts" arbitrary: ts hs rule: less_induct)
  case less
  show ?case
  proof (cases ts)
    case Nil
    then show ?thesis using less.prems by (simp add: parseStart.simps)
  next
    case (Cons t ts1)
    define r where "r = (if ttype t = tokenComment \<or> ttype t = tokenEmptyLine then parseComment t ts1 hs
                      else if ttype t = tokenKey then parseKV env pf sys d t ts1 hs
                      else Some (Ret (Inl (UnexpectedToken (tpos t)))))"
    have ps: "parseStart env pf sys d ts hs = (if ttype t = tokenEOF then Some (Ret (Inr hs)) else
        case r of None \<Rightarrow> None | Some Panic \<Rightarrow> Some Panic
        | Some (Ret (Inl e)) \<Rightarrow> Some (Ret (Inl e)) | Some (Ret (Inr (ts2, hs2))) \<Rightarrow> parseStart env pf sys d ts2 hs2)"
      unfolding Cons by (subst parseStart.simps) (simp add: r_def Let_def)
    show ?thesis
    proof (cases "ttype t = tokenEOF")
      case False
      then obtain ts2 hs2 where r: "r = Some (Ret (Inr (ts2, hs2)))" "parseStart env pf sys d ts2 hs2 = Some (Ret (Inr hs'))"
        using less.prems(2) ps by (auto split: option.splits outcome.splits sum.splits)
      have "length ts2 < length ts" using r(1) Cons
        by (auto simp: r_def split: if_splits dest!: parseKV_shorter parseComment_rest)
      moreover have "no_match_hosts env hs2" using r(1) less.prems(1) parseKV_no_match [OF assms]
        by (auto simp: r_def parseComment_def intro: add_node_no_match split: if_splits outcome.splits)
      ultimately show ?thesis using less.hyps r(2) by blast
    qed (use less.prems ps in simp)
  qed
qed

lemma bind_map_sum:
  "bind_res x (\<lambda>r. Some (Ret (map_sum f g r))) = Some (Ret (Inr c)) \<longleftrightarrow> (\<exists>y. x = Some (Ret (Inr y)) \<and> c = g y)"
proof (cases "\<exists>r. x = Some (Ret r)")
  case True
  then obtain r where "x = Some (Ret r)" by blast
  then show ?thesis by (cases r) auto
qed (auto simp: bind_res_def split: option.splits outcome.splits)

lemma decode_no_match: "decodeBytes n env b sys d = Some (Ret (Inr c)) \<Longrightarrow> no_match env c"
proof (induction n arbitrary: b sys d c)
  case (Suc n)
  define pf :: parse_file where "pf f d = (case ReadFile env f of Inl e \<Rightarrow> Some (Ret (Inl (ReadErr e)))
      | Inr text \<Rightarrow> bind_res (decodeBytes n env text (isSystem f) d) (\<lambda>r. Some (Ret (map_sum DecodeErr id r))))" for f d
  have "files_no_match env pf"
    unfolding files_no_match_def pf_def using Suc.IH by (auto simp: bind_map_sum split: sum.splits)
  moreover have "no_match_hosts env (Hosts newConfig)" by (simp add: newConfig_def)
  moreover obtain hs where "parseStart env pf sys d (lexSSH b) (Hosts newConfig) = Some (Ret (Inr hs))" "c = Config hs"
    using Suc.prems by (auto simp: parseSSH_def bind_map_sum pf_def [abs_def])
  ultimately show ?case using parseStart_no_match by auto
qed simp

end
