(* ===== verification/Ssh_Props.thy ===== *)
theory Ssh_Props
  imports Ssh_Lookup Ssh_Settings
begin

section \<open>Package ssh\_config: properties\<close>

text \<open>
  Decoding, printing, lookup, the settings and the limits of the format, stated over the definitions
  of the lexer, the parser and the settings.
\<close>

subsection \<open>One line\<close>

text \<open>The environment of the examples: no files, the letters of ASCII.\<close>

definition no_files :: ssh_env where
  "no_files = \<lparr>unicode_lower = id, ReadFile = (\<lambda>f. Inl (OSErr f True)), Glob = (\<lambda>p. Inr []), homedir = ''/home/u''\<rparr>"

lemma lexSSH_lines:
  assumes "list_all ascii t" "run LexVoid (fresh [] 1 1 (bytes_of t)) = run LexVoid (fresh ts l c [])"
  shows "lexSSH t = ts @ [mktok l c tokenEOF []]"
  using assms(2) run_end [of ts l c] by (simp add: lexSSH_def runes_bytes [OF assms(1)] fresh_def [symmetric])

lemma lexSSH_prefix:
  assumes "list_all ascii t" "run LexVoid (fresh [] 1 1 (bytes_of t)) = run LexVoid (fresh ts l 1 x)"
  shows "\<exists>out. lexSSH t = ts @ out"
proof -
  obtain out where "tokens (run LexVoid (fresh ts l 1 x)) = ts @ out"
    using run_coming [of LexVoid "fresh ts l 1 x"] by (auto simp: fresh_def cols_ok_def)
  then show ?thesis using assms(2) by (simp add: lexSSH_def runes_bytes [OF assms(1)] fresh_def [symmetric])
qed

definition the_pf :: "nat \<Rightarrow> ssh_env \<Rightarrow> parse_file" where
  "the_pf n env f d = (case ReadFile env f of
      Inl e \<Rightarrow> Some (Ret (Inl (ReadErr e)))
    | Inr text \<Rightarrow> bind_res (decodeBytes n env text (isSystem f) d) (\<lambda>r. Some (Ret (map_sum DecodeErr id r))))"

lemma decode_step: "decodeBytes (Suc n) env b sys d = parseSSH env (the_pf n env) (lexSSH b) sys d"
  by (simp add: the_pf_def [abs_def])

subsection \<open>A file that includes itself\<close>

lemma lower_Include: "ToLower env ''Include'' = ''include''"
  by (simp add: ToLower_def runes_def range_str_ascii ascii_def string_of_runes_def lower_rune_def)
    (simp add: encode_rune_def char_of_def bit_0)

lemma self_include_depth:
  assumes "IsAbs f" "list_all word_char f" "Glob env f = Inr [f]" "ReadFile env f = Inr (''Include '' @ f @ [nl] @ body)"
    "list_all ascii body" "Suc maxRecurseDepth - d < n"
  shows "decodeBytes n env (''Include '' @ f @ [nl] @ body) sys d = Some (Ret (Inl ErrDepthExceeded))"
  using assms(6)
proof (induction n arbitrary: sys d)
  case (Suc n)
  let ?b = "''Include '' @ f @ [nl] @ body"
  have w: "sp \<notin> set f" "f \<noteq> []" "list_all value_char f" using assms(1,2) by (auto simp: list_all_iff word_char_def IsAbs_def)
  have k: "start_ok ''Include''" by (simp add: start_ok_def key_char_def ascii_def)
  have v: "value_start f" using assms(1,2) w by (cases f) (auto simp: value_start_def word_char_def)
  have a: "list_all ascii ?b" using assms(5) w(3) by (auto simp: list_all_iff value_char_def ascii_def)
  obtain out where o: "run LexVoid (fresh [] 1 1 (bytes_of ?b)) = run LexVoid (fresh out 2 1 (bytes_of body))"
      "key_tokens 1 1 ''Include'' False f out"
    using run_plain_line [OF k v, of "[]" 1 0 False "bytes_of body"] by (auto simp: equals_text_def)
  obtain ts where ts: "lexSSH ?b = out @ ts" using lexSSH_prefix [OF a o(1)] by blast
  obtain c2 where out: "out = [mktok 1 1 tokenKey ''Include'', mktok 1 c2 tokenString f]" using o(2) by (auto simp: key_tokens_def)
  obtain cm ts' where kv: "kv_value (mktok 1 c2 tokenString f # ts) = Ret (mktok 1 c2 tokenString f, False, cm, ts')"
    by (cases ts; cases "ttype (hd ts) = tokenComment \<and> Line (tpos (hd ts)) = 1") (auto simp: kv_value_def mktok_def)
  have m: "include_matches env sys [f] = Inr [f]" using assms(1,3) by (simp add: include_path_def)
  have "NewInclude env (the_pf n env) [f] False p cm sys (Suc d) = Some (Ret (Inl None))" for p
  proof (cases "Suc d > maxRecurseDepth")
    case False
    then have "the_pf n env f (Suc d) = Some (Ret (Inl (DecodeErr ErrDepthExceeded)))"
      using Suc.IH [of "Suc d" "isSystem f"] Suc.prems assms(4) by (simp add: the_pf_def)
    then show ?thesis using False m by (simp add: NewInclude_def)
  qed (simp add: NewInclude_def)
  then have "parseKV env (the_pf n env) sys d (mktok 1 1 tokenKey ''Include'') (mktok 1 c2 tokenString f # ts) (Hosts newConfig)
      = Some (Ret (Inl ErrDepthExceeded))"
    using kv split_at_single [OF w(1)] lower_Include [of env] by (simp add: parseKV_def mktok_def newConfig_def)
  then have "parseStart env (the_pf n env) sys d (out @ ts) (Hosts newConfig) = Some (Ret (Inl ErrDepthExceeded))"
    using out by (subst parseStart.simps) (simp add: mktok_def)
  then show ?case unfolding decode_step ts parseSSH_def by simp
qed simp

subsection \<open>A value with a comment on its line\<close>

lemma Decode_commented:
  assumes "start_ok k" "value_start v" "v \<noteq> []" "list_all comment_char cm" "ToLower env k \<notin> {''match'', ''host'', ''include''}"
  shows "\<exists>p. Decode env (k @ equals_text he @ v @ '' #'' @ cm @ [nl]) = Some (Ret (Inr (Config
    [Host (Host_info_of (hd (Hosts newConfig))) [NodeKV \<lparr>Key = k, Value = v @ '' '', Comment = cm, kv_hasEquals = he,
       kv_leadingSpace = 0, kv_position = p\<rparr>]])))"
proof -
  let ?t = "k @ equals_text he @ v @ '' #'' @ cm @ [nl]"
  have a: "list_all ascii ?t" using assms(1,2,4)
    by (auto simp: start_ok_def value_start_def list_all_iff key_char_def value_char_def comment_char_def ascii_def equals_text_def)
  obtain out c2 where o: "run LexVoid (fresh [] 1 1 (bytes_of ?t)) = run LexVoid (fresh (out @ [mktok 1 c2 tokenComment cm]) 2 1 [])"
      "key_tokens 1 1 k he (v @ '' '') out"
    using run_commented_line [OF assms(1-4), of "[]" 1 0 he "[]"] by auto
  have lx: "lexSSH ?t = out @ [mktok 1 c2 tokenComment cm, mktok 2 1 tokenEOF []]" using lexSSH_lines [OF a o(1)] by simp
  obtain t o1 where t: "out = t # o1" using o(2) by (cases out) (auto simp: key_tokens_def)
  obtain q where q: "kv_value (o1 @ mktok 1 c2 tokenComment cm # [mktok 2 1 tokenEOF []])
      = Ret (\<lparr>tpos = q, ttype = tokenString, val = v @ '' ''\<rparr>, he, cm, [mktok 2 1 tokenEOF []])" "t = mktok 1 1 tokenKey k"
    using kv_value_commented [OF o(2) [unfolded t]] by blast
  let ?n = "NodeKV \<lparr>Key = k, Value = v @ '' '', Comment = cm, kv_hasEquals = he, kv_leadingSpace = 0,
      kv_position = \<lparr>Line = 1, Col = 1\<rparr>\<rparr>"
  have "parseKV env pf False 0 t (o1 @ [mktok 1 c2 tokenComment cm, mktok 2 1 tokenEOF []]) (Hosts newConfig)
      = Some (Ret (Inr ([mktok 2 1 tokenEOF []], [Host (Host_info_of (hd (Hosts newConfig))) [?n]])))" for pf
    using q assms(5) by (simp add: parseKV_def mktok_def newConfig_def)
  then have "parseStart env pf False 0 (lexSSH ?t) (Hosts newConfig) = Some (Ret (Inr [Host (Host_info_of (hd (Hosts newConfig))) [?n]]))" for pf
    unfolding lx t using q(2) by (subst parseStart.simps) (simp add: mktok_def parseStart.simps)
  then have "Decode env ?t = Some (Ret (Inr (Config [Host (Host_info_of (hd (Hosts newConfig))) [?n]])))"
    using decode_step [of 6 env ?t False 0] by (simp add: Decode_def enough_def parseSSH_def numeral_eq_Suc)
  then show ?thesis by blast
qed

lemma match_all: "byte nl \<notin> set s \<Longrightarrow> rx_match [AnyMany] s"
  by (induction s) auto

lemma blank_not_uint: "\<not> ParseUint_ok (v @ '' '')"
  by (simp add: ParseUint_ok_def in_range_def)

lemma blank_invalid: "mustBeYesOrNo (ToLower env k) \<or> mustBeUint (ToLower env k) \<Longrightarrow> validate env k (v @ '' '') \<noteq> None"
proof -
  have "v @ '' '' \<noteq> ''yes''" "v @ '' '' \<noteq> ''no''" by (auto dest: arg_cong [where f = last])
  then show "mustBeYesOrNo (ToLower env k) \<or> mustBeUint (ToLower env k) \<Longrightarrow> validate env k (v @ '' '') \<noteq> None"
    using blank_not_uint [of v] by (auto simp: validate_def Let_def)
qed

subsection \<open>Settings\<close>

text \<open>The loaded configurations can be searched without a panic.\<close>

definition settings_ok :: "ssh_env \<Rightarrow> UserSettings \<Rightarrow> bool" where
  "settings_ok env u \<longleftrightarrow> pred_option (no_match env) (userConfig u) \<and> pred_option (no_match env) (systemConfig u)"

definition value_valid :: "ssh_env \<Rightarrow> string \<Rightarrow> get_error + string \<Rightarrow> bool" where
  "value_valid env key r \<longleftrightarrow> (case r of Inl e \<Rightarrow> True | Inr v \<Rightarrow> v = [] \<or> validate env key v = None)"

lemma parseFile_ok: "\<exists>r. parseFile env f = Some (Ret r) \<and> (\<forall>c. r = Inr c \<longrightarrow> no_match env c)"
proof -
  obtain r where r: "parseFile env f = Some (Ret r)" using parseWithDepth_ok [of env f 0] by (auto simp: parseFile_def)
  then have "no_match env c" if "r = Inr c" for c
    using that by (auto simp: parseFile_def parseWithDepth_def bind_map_sum split: sum.splits intro: decode_no_match)
  then show ?thesis using r by blast
qed

lemma load_system_ok:
  assumes "settings_ok env u"
  shows "\<exists>u'. load_system env u = Some (Ret u') \<and> settings_ok env u' \<and> loaded u' = loaded u"
proof -
  obtain r where "parseFile env (case systemFinder u of None \<Rightarrow> systemConfigFinder | Some f \<Rightarrow> f) = Some (Ret r)"
      "\<forall>c. r = Inr c \<longrightarrow> no_match env c" using parseFile_ok by blast
  then show ?thesis using assms by (cases r) (auto simp: load_system_def settings_ok_def)
qed

lemma loadConfigs_ok:
  assumes "settings_ok env u"
  shows "\<exists>u'. loadConfigs env u = Some (Ret u') \<and> settings_ok env u' \<and> loaded u'"
proof -
  obtain r where r: "parseFile env (case userFinder u of None \<Rightarrow> userConfigFinder env | Some f \<Rightarrow> f) = Some (Ret r)"
      "\<forall>c. r = Inr c \<longrightarrow> no_match env c" using parseFile_ok by blast
  let ?u = "u\<lparr>loaded := True, userConfig := (case r of Inl e \<Rightarrow> None | Inr c \<Rightarrow> Some c)\<rparr>"
  have u: "settings_ok env ?u" "loaded ?u" using assms r(2) by (auto simp: settings_ok_def split: sum.splits)
  then have "settings_ok env (?u\<lparr>onceErr := e\<rparr>)" "loaded (?u\<lparr>onceErr := e\<rparr>)" for e by (simp_all add: settings_ok_def)
  with load_system_ok [OF u(1)] u(2) r(1) show ?thesis
    by (cases r) (auto simp: loadConfigs_def Let_def)
qed

lemma findVal_ok:
  "pred_option (no_match env) c \<Longrightarrow> \<exists>r. findVal env c al key = Some (Ret r) \<and> value_valid env key r"
proof (cases c)
  case (Some cfg)
  moreover assume "pred_option (no_match env) c"
  ultimately have g: "Config_Get env al key cfg = Some (first (cands env al key cfg))" using Get_first(1) by simp
  show ?thesis
    unfolding findVal_def Some
    by (cases "cands env al key cfg"; cases "hd (cands env al key cfg) = []";
        cases "validate env key (hd (cands env al key cfg))") (auto simp: g Get_value_def value_valid_def)
qed (simp add: findVal_def value_valid_def)

lemma defaults_valid:
  "list_all (\<lambda>(k, v). (k \<in> set yesnos \<longrightarrow> v = ''yes'' \<or> v = ''no'') \<and> (k \<in> set uints \<longrightarrow> ParseUint_ok v)) defaults"
  unfolding defaults_def yesnos_def uints_def list.pred_inject(2) prod.case
  by (intro conjI TrueI) (simp_all add: ParseUint_ok_def in_range_def digit_value_def)

lemma Default_valid: "value_valid env key (Inr (Default env key))"
proof (cases "map_of defaults (ToLower env key)")
  case (Some v)
  then have "(ToLower env key, v) \<in> set defaults" by (rule map_of_SomeD)
  then have "(mustBeYesOrNo (ToLower env key) \<longrightarrow> v = ''yes'' \<or> v = ''no'') \<and> (mustBeUint (ToLower env key) \<longrightarrow> ParseUint_ok v)"
    using defaults_valid unfolding list_all_iff mustBeYesOrNo_def mustBeUint_def by blast
  then show ?thesis using Some by (auto simp: value_valid_def Default_def validate_def Let_def)
qed (simp add: value_valid_def Default_def)

lemma GetStrict_ok:
  assumes "settings_ok env u"
  shows "\<exists>u' r. GetStrict env u al key = Some (Ret (u', r)) \<and> settings_ok env u' \<and> loaded u' \<and> value_valid env key r
    \<and> (loaded u \<longrightarrow> u' = u)"
proof -
  obtain u' where u: "(if loaded u then Some (Ret u) else loadConfigs env u) = Some (Ret u')" "settings_ok env u'"
      "loaded u'" "loaded u \<longrightarrow> u' = u"
    using loadConfigs_ok [OF assms] assms by (cases "loaded u") auto
  obtain r1 r2 where r: "findVal env (userConfig u') al key = Some (Ret r1)" "value_valid env key r1"
      "findVal env (systemConfig u') al key = Some (Ret r2)" "value_valid env key r2"
    using findVal_ok u(2) unfolding settings_ok_def by blast
  show ?thesis
  proof (cases "onceErr u' \<noteq> None \<and> \<not> IgnoreErrors u'")
    case True
    then show ?thesis using u by (auto simp: GetStrict_def value_valid_def)
  next
    case False
    then show ?thesis unfolding GetStrict_def u(1)
      using r u(2-4) Default_valid [of env key] by (cases "r1 = Inr []"; cases "r2 = Inr []") (auto simp del: not_None_eq)
  qed
qed

subsection \<open>Properties\<close>

text \<open>
  C13. \<open>Decode\<close> returns a configuration or an error on every input: it neither panics nor meets an
  unexpected token, the nesting of included files is within the fuel, and what it returns can be
  printed and searched without a panic.
\<close>

theorem Decode_total:
  "\<exists>r. Decode env b = Some (Ret r) \<and>
    (case r of Inl e \<Rightarrow> \<forall>p. e \<noteq> UnexpectedToken p
     | Inr c \<Rightarrow> Config_String c \<noteq> None \<and> (\<forall>al key. Config_Get env al key c \<noteq> None))"
proof -
  obtain r where r: "Decode env b = Some (Ret r)" "decoded_ok r" using Decode_ok by blast
  show ?thesis
  proof (cases r)
    case (Inr c)
    have "no_match env c" using r(1) Inr decode_no_match by (simp add: Decode_def)
    then have "Config_Get env al key c \<noteq> None" for al key using Get_first(1) by simp
    moreover have "Config_String c \<noteq> None" using r(2) Inr marshal_ok by (auto simp: decoded_ok_def hosts_ok_def Config_String_def)
    ultimately show ?thesis using r(1) Inr by auto
  qed (use r in \<open>auto simp: decoded_ok_def\<close>)
qed

text \<open>
  C14. Decoding what \<open>String\<close> prints of a configuration of plain lines gives the configuration back, up
  to the positions of its nodes.
\<close>

theorem print_decode:
  "canon env c \<Longrightarrow> \<exists>t c'. Config_String c = Some t \<and> Decode env t = Some (Ret (Inr c')) \<and> strip c' = strip c"
  by (rule Decode_String)

definition example_config :: Config where
  "example_config = Config
     [Host (Host_info_of (hd (Hosts newConfig)))
        [NodeEmpty \<lparr>e_Comment = '' defaults'', e_leadingSpace = 0, e_position = no_pos\<rparr>,
         NodeKV \<lparr>Key = ''User'', Value = ''root'', Comment = [], kv_hasEquals = True, kv_leadingSpace = 0, kv_position = no_pos\<rparr>],
      Host \<lparr>Patterns = [\<lparr>pstr = ''*.org'', regex = map item_of ''*.org'', neg = False\<rparr>], EOLComment = [],
          h_hasEquals = False, h_leadingSpace = 0, implicit = False\<rparr>
        [NodeKV \<lparr>Key = ''Port'', Value = ''22'', Comment = [], kv_hasEquals = False, kv_leadingSpace = 2, kv_position = no_pos\<rparr>]]"

lemma lower_words:
  "ToLower env ''User'' = ''user''" "ToLower env ''Port'' = ''port''"
  by (simp_all add: ToLower_def runes_def range_str_ascii ascii_def string_of_runes_def lower_rune_def)
    (simp_all add: encode_rune_def char_of_def bit_0)

lemma example_canon: "canon no_files example_config"
proof -
  have "NewPattern ''*.org'' = Inr \<lparr>pstr = ''*.org'', regex = map item_of ''*.org'', neg = False\<rparr>"
    by (rule NewPattern_ascii(1)) (simp_all add: ascii_def)
  then show ?thesis
    by (simp add: canon_def example_config_def newConfig_def canon_kv_def canon_empty_def canon_info_def canon_pattern_def
        start_ok_def value_start_def key_char_def value_char_def comment_char_def word_char_def ascii_def lower_words)
qed

theorem print_decode_witness:
  "\<exists>t c'. Config_String example_config = Some t \<and> Decode no_files t = Some (Ret (Inr c')) \<and> strip c' = strip example_config"
  using print_decode [OF example_canon] .

text \<open>
  C15. A lookup in a decoded configuration gives the first of the values set for the keyword in the
  order of the file, where an \<open>Include\<close> stands for the first value of each of its files, in the order of its matches, that is not
  empty; a host section counts when one of its patterns matches the alias and none of the negated
  ones does.
\<close>

theorem lookup_first_value:
  "Decode env b = Some (Ret (Inr c)) \<Longrightarrow>
     Config_Get env al key c = Some (case cands env al key c of [] \<Rightarrow> None | v # vs \<Rightarrow> Some v)
     \<and> (\<forall>h. Matches h al = ((\<exists>p \<in> set (Patterns h). \<not> neg p \<and> MatchString (regex p) al)
           \<and> \<not> (\<exists>p \<in> set (Patterns h). neg p \<and> MatchString (regex p) al)))"
  using Get_first(1) decode_no_match unfolding Decode_def Matches_def patterns_match_iff by auto

text \<open>
  A pattern of ASCII characters compiles; it matches as a glob, where a star is any text without
  a line feed and a question mark is at most one character, and a leading exclamation mark sets the
  negation and is left out of the text of the pattern.
\<close>

lemma pattern_is_glob:
  assumes "list_all ascii s" "s \<noteq> []" "hd s \<noteq> CHR ''!''"
  shows "\<exists>p q. NewPattern s = Inr p \<and> NewPattern (CHR ''!'' # s) = Inr q \<and> \<not> neg p \<and> neg q
    \<and> pstr p = s \<and> pstr q = s \<and> regex q = regex p \<and> (\<forall>t. MatchString (regex p) t = glob s (runes t))"
  using NewPattern_ascii [OF assms] by (simp add: MatchString_def match_glob)

text \<open>
  C16. A lookup through the settings returns for every contents of the files: it never panics, reads
  the two files on the first call only, and a value it gives is empty or one the keyword allows,
  defaults included.
\<close>

theorem settings_lookup:
  assumes "settings_ok env u"
  shows "\<exists>u' r. GetStrict env u al key = Some (Ret (u', r)) \<and> settings_ok env u' \<and> loaded u'
    \<and> (case r of Inl e \<Rightarrow> True | Inr v \<Rightarrow> v = [] \<or> validate env key v = None) \<and> (loaded u \<longrightarrow> u' = u)"
  using GetStrict_ok [OF assms] by (simp add: value_valid_def)

theorem settings_lookup_witness:
  "\<exists>u' r. GetStrict no_files (DefaultUserSettings no_files) ''h'' ''Port'' = Some (Ret (u', r)) \<and> settings_ok no_files u'
    \<and> (case r of Inl e \<Rightarrow> True | Inr v \<Rightarrow> v = [] \<or> validate no_files ''Port'' v = None)"
  using settings_lookup [of no_files "DefaultUserSettings no_files" "''h''" "''Port''"]
  by (auto simp: DefaultUserSettings_def settings_ok_def)

text \<open>
  A file whose first line includes the file itself is refused with the error for the depth of
  includes, so that decoding it ends.
\<close>

lemma self_include_refused:
  assumes "IsAbs f" "list_all word_char f" "Glob env f = Inr [f]" "ReadFile env f = Inr (''Include '' @ f @ [nl] @ body)"
    "list_all ascii body"
  shows "Decode env (''Include '' @ f @ [nl] @ body) = Some (Ret (Inl ErrDepthExceeded))
    \<and> parseFile env f = Some (Ret (Inl (DecodeErr ErrDepthExceeded)))"
  using self_include_depth [OF assms, of 0 enough] assms(4)
  by (simp_all add: Decode_def parseFile_def parseWithDepth_def maxRecurseDepth_def enough_def)

text \<open>
  A comment behind a value leaves a blank in the value: the value that is read ends with it, printing
  the line and reading it again adds one more, and a keyword that wants a number or \<open>yes\<close> or \<open>no\<close>
  refuses the value.
\<close>

lemma comment_keeps_blank:
  assumes "start_ok k" "value_start v" "v \<noteq> []" "list_all comment_char cm" "cm \<noteq> []"
    "ToLower env k \<notin> {''match'', ''host'', ''include''}" "byte nl \<notin> set (runes al)"
  shows "\<exists>c. Decode env (k @ equals_text he @ v @ '' #'' @ cm @ [nl]) = Some (Ret (Inr c))
    \<and> Config_Get env al k c = Some (Some (v @ '' ''))
    \<and> Config_String c = Some (k @ equals_text he @ v @ ''  #'' @ cm @ [nl])
    \<and> (mustBeYesOrNo (ToLower env k) \<or> mustBeUint (ToLower env k) \<longrightarrow>
         (\<exists>e. findVal env (Some c) al k = Some (Ret (Inl (ValueError e)))))"
proof -
  obtain p where d: "Decode env (k @ equals_text he @ v @ '' #'' @ cm @ [nl]) = Some (Ret (Inr (Config
    [Host (Host_info_of (hd (Hosts newConfig))) [NodeKV \<lparr>Key = k, Value = v @ '' '', Comment = cm, kv_hasEquals = he,
       kv_leadingSpace = 0, kv_position = p\<rparr>]])))" (is "_ = Some (Ret (Inr ?c))")
    using Decode_commented [OF assms(1-4,6)] by blast
  have g: "Config_Get env al k ?c = Some (Some (v @ '' ''))"
    using assms(6,7) match_all by (simp add: newConfig_def Matches_def matchAll_def MatchString_def)
  have "Config_String ?c = Some (k @ equals_text he @ v @ ''  #'' @ cm @ [nl])"
    using assms(5) by (simp add: Config_String_def newConfig_def Host_String_def Host_line_def KV_String_def blanks_def comment_text_def)
  moreover have "\<exists>e. findVal env (Some ?c) al k = Some (Ret (Inl (ValueError e)))"
    if "mustBeYesOrNo (ToLower env k) \<or> mustBeUint (ToLower env k)"
    using blank_invalid [OF that, of v] unfolding findVal_def option.case g Get_value_def by auto
  ultimately show ?thesis using d g by blast
qed

text \<open>The witness of the lookup: the value of the first section that matches.\<close>

theorem lookup_first_value_witness:
  "\<exists>c. Decode no_files (''Port 22 # ssh'' @ [nl]) = Some (Ret (Inr c))
     \<and> Config_Get no_files ''h'' ''Port'' c = Some (case cands no_files ''h'' ''Port'' c of [] \<Rightarrow> None | v # vs \<Rightarrow> Some v)"
proof -
  obtain c where "Decode no_files (''Port'' @ equals_text False @ ''22'' @ '' #'' @ '' ssh'' @ [nl]) = Some (Ret (Inr c))"
    using Decode_commented [of "''Port''" "''22''" "'' ssh''" no_files False]
    by (auto simp: start_ok_def value_start_def key_char_def value_char_def comment_char_def ascii_def lower_words)
  then show ?thesis using lookup_first_value [of no_files "''Port 22 # ssh'' @ [nl]" c "''h''" "''Port''"] by (simp add: equals_text_def)
qed

end
