(* ===== verification/Vnc_Des.thy ===== *)
theory Vnc_Des
  imports Wire Outcome
begin

section \<open>Package vncpasswd: the cipher\<close>

text \<open>
  \<^verbatim>\<open>endec/vncpasswd/vncpasswd.go\<close>: DES with the bit order of VNC, its key schedule in a global array.
  A \<open>uint32\<close> is a \<open>32 word\<close>. The key schedule \<open>_KnL\<close> is passed in and returned by what changes it. The
  entries of \<open>pc1m\<close> and \<open>pcr\<close>, bytes that are 0 or 1, are truth values. An index out of range panics.
\<close>

type_synonym w32 = "32 word"

subsection \<open>Tables\<close>

definition SP1 :: "w32 list" where
  "SP1 =
    [0x01010400, 0x00000000, 0x00010000, 0x01010404, 0x01010004, 0x00010404, 0x00000004, 0x00010000,
     0x00000400, 0x01010400, 0x01010404, 0x00000400, 0x01000404, 0x01010004, 0x01000000, 0x00000004,
     0x00000404, 0x01000400, 0x01000400, 0x00010400, 0x00010400, 0x01010000, 0x01010000, 0x01000404,
     0x00010004, 0x01000004, 0x01000004, 0x00010004, 0x00000000, 0x00000404, 0x00010404, 0x01000000,
     0x00010000, 0x01010404, 0x00000004, 0x01010000, 0x01010400, 0x01000000, 0x01000000, 0x00000400,
     0x01010004, 0x00010000, 0x00010400, 0x01000004, 0x00000400, 0x00000004, 0x01000404, 0x00010404,
     0x01010404, 0x00010004, 0x01010000, 0x01000404, 0x01000004, 0x00000404, 0x00010404, 0x01010400,
     0x00000404, 0x01000400, 0x01000400, 0x00000000, 0x00010004, 0x00010400, 0x00000000, 0x01010004]"

definition SP2 :: "w32 list" where
  "SP2 =
    [0x80108020, 0x80008000, 0x00008000, 0x00108020, 0x00100000, 0x00000020, 0x80100020, 0x80008020,
     0x80000020, 0x80108020, 0x80108000, 0x80000000, 0x80008000, 0x00100000, 0x00000020, 0x80100020,
     0x00108000, 0x00100020, 0x80008020, 0x00000000, 0x80000000, 0x00008000, 0x00108020, 0x80100000,
     0x00100020, 0x80000020, 0x00000000, 0x00108000, 0x00008020, 0x80108000, 0x80100000, 0x00008020,
     0x00000000, 0x00108020, 0x80100020, 0x00100000, 0x80008020, 0x80100000, 0x80108000, 0x00008000,
     0x80100000, 0x80008000, 0x00000020, 0x80108020, 0x00108020, 0x00000020, 0x00008000, 0x80000000,
     0x00008020, 0x80108000, 0x00100000, 0x80000020, 0x00100020, 0x80008020, 0x80000020, 0x00100020,
     0x00108000, 0x00000000, 0x80008000, 0x00008020, 0x80000000, 0x80100020, 0x80108020, 0x00108000]"

definition SP3 :: "w32 list" where
  "SP3 =
    [0x00000208, 0x08020200, 0x00000000, 0x08020008, 0x08000200, 0x00000000, 0x00020208, 0x08000200,
     0x00020008, 0x08000008, 0x08000008, 0x00020000, 0x08020208, 0x00020008, 0x08020000, 0x00000208,
     0x08000000, 0x00000008, 0x08020200, 0x00000200, 0x00020200, 0x08020000, 0x08020008, 0x00020208,
     0x08000208, 0x00020200, 0x00020000, 0x08000208, 0x00000008, 0x08020208, 0x00000200, 0x08000000,
     0x08020200, 0x08000000, 0x00020008, 0x00000208, 0x00020000, 0x08020200, 0x08000200, 0x00000000,
     0x00000200, 0x00020008, 0x08020208, 0x08000200, 0x08000008, 0x00000200, 0x00000000, 0x08020008,
     0x08000208, 0x00020000, 0x08000000, 0x08020208, 0x00000008, 0x00020208, 0x00020200, 0x08000008,
     0x08020000, 0x08000208, 0x00000208, 0x08020000, 0x00020208, 0x00000008, 0x08020008, 0x00020200]"

definition SP4 :: "w32 list" where
  "SP4 =
    [0x00802001, 0x00002081, 0x00002081, 0x00000080, 0x00802080, 0x00800081, 0x00800001, 0x00002001,
     0x00000000, 0x00802000, 0x00802000, 0x00802081, 0x00000081, 0x00000000, 0x00800080, 0x00800001,
     0x00000001, 0x00002000, 0x00800000, 0x00802001, 0x00000080, 0x00800000, 0x00002001, 0x00002080,
     0x00800081, 0x00000001, 0x00002080, 0x00800080, 0x00002000, 0x00802080, 0x00802081, 0x00000081,
     0x00800080, 0x00800001, 0x00802000, 0x00802081, 0x00000081, 0x00000000, 0x00000000, 0x00802000,
     0x00002080, 0x00800080, 0x00800081, 0x00000001, 0x00802001, 0x00002081, 0x00002081, 0x00000080,
     0x00802081, 0x00000081, 0x00000001, 0x00002000, 0x00800001, 0x00002001, 0x00802080, 0x00800081,
     0x00002001, 0x00002080, 0x00800000, 0x00802001, 0x00000080, 0x00800000, 0x00002000, 0x00802080]"

definition SP5 :: "w32 list" where
  "SP5 =
    [0x00000100, 0x02080100, 0x02080000, 0x42000100, 0x00080000, 0x00000100, 0x40000000, 0x02080000,
     0x40080100, 0x00080000, 0x02000100, 0x40080100, 0x42000100, 0x42080000, 0x00080100, 0x40000000,
     0x02000000, 0x40080000, 0x40080000, 0x00000000, 0x40000100, 0x42080100, 0x42080100, 0x02000100,
     0x42080000, 0x40000100, 0x00000000, 0x42000000, 0x02080100, 0x02000000, 0x42000000, 0x00080100,
     0x00080000, 0x42000100, 0x00000100, 0x02000000, 0x40000000, 0x02080000, 0x42000100, 0x40080100,
     0x02000100, 0x40000000, 0x42080000, 0x02080100, 0x40080100, 0x00000100, 0x02000000, 0x42080000,
     0x42080100, 0x00080100, 0x42000000, 0x42080100, 0x02080000, 0x00000000, 0x40080000, 0x42000000,
     0x00080100, 0x02000100, 0x40000100, 0x00080000, 0x00000000, 0x40080000, 0x02080100, 0x40000100]"

definition SP6 :: "w32 list" where
  "SP6 =
    [0x20000010, 0x20400000, 0x00004000, 0x20404010, 0x20400000, 0x00000010, 0x20404010, 0x00400000,
     0x20004000, 0x00404010, 0x00400000, 0x20000010, 0x00400010, 0x20004000, 0x20000000, 0x00004010,
     0x00000000, 0x00400010, 0x20004010, 0x00004000, 0x00404000, 0x20004010, 0x00000010, 0x20400010,
     0x20400010, 0x00000000, 0x00404010, 0x20404000, 0x00004010, 0x00404000, 0x20404000, 0x20000000,
     0x20004000, 0x00000010, 0x20400010, 0x00404000, 0x20404010, 0x00400000, 0x00004010, 0x20000010,
     0x00400000, 0x20004000, 0x20000000, 0x00004010, 0x20000010, 0x20404010, 0x00404000, 0x20400000,
     0x00404010, 0x20404000, 0x00000000, 0x20400010, 0x00000010, 0x00004000, 0x20400000, 0x00404010,
     0x00004000, 0x00400010, 0x20004010, 0x00000000, 0x20404000, 0x20000000, 0x00400010, 0x20004010]"

definition SP7 :: "w32 list" where
  "SP7 =
    [0x00200000, 0x04200002, 0x04000802, 0x00000000, 0x00000800, 0x04000802, 0x00200802, 0x04200800,
     0x04200802, 0x00200000, 0x00000000, 0x04000002, 0x00000002, 0x04000000, 0x04200002, 0x00000802,
     0x04000800, 0x00200802, 0x00200002, 0x04000800, 0x04000002, 0x04200000, 0x04200800, 0x00200002,
     0x04200000, 0x00000800, 0x00000802, 0x04200802, 0x00200800, 0x00000002, 0x04000000, 0x00200800,
     0x04000000, 0x00200800, 0x00200000, 0x04000802, 0x04000802, 0x04200002, 0x04200002, 0x00000002,
     0x00200002, 0x04000000, 0x04000800, 0x00200000, 0x04200800, 0x00000802, 0x00200802, 0x04200800,
     0x00000802, 0x04000002, 0x04200802, 0x04200000, 0x00200800, 0x00000000, 0x00000002, 0x04200802,
     0x00000000, 0x00200802, 0x04200000, 0x00000800, 0x04000002, 0x04000800, 0x00000800, 0x00200002]"

definition SP8 :: "w32 list" where
  "SP8 =
    [0x10001040, 0x00001000, 0x00040000, 0x10041040, 0x10000000, 0x10001040, 0x00000040, 0x10000000,
     0x00040040, 0x10040000, 0x10041040, 0x00041000, 0x10041000, 0x00041040, 0x00001000, 0x00000040,
     0x10040000, 0x10000040, 0x10001000, 0x00001040, 0x00041000, 0x00040040, 0x10040040, 0x10041000,
     0x00001040, 0x00000000, 0x00000000, 0x10040040, 0x10000040, 0x10001000, 0x00041040, 0x00040000,
     0x00041040, 0x00040000, 0x10041000, 0x00001000, 0x00000040, 0x10040040, 0x00001000, 0x00041040,
     0x10001000, 0x00000040, 0x10000040, 0x10040000, 0x10040040, 0x10000000, 0x00040000, 0x10001040,
     0x00000000, 0x10041040, 0x00040040, 0x10000040, 0x10040000, 0x10001000, 0x10001040, 0x00000000,
     0x10041040, 0x00041000, 0x00041000, 0x00001040, 0x00001040, 0x00040040, 0x10000000, 0x10041000]"

definition EN0 :: int where
  "EN0 = 0"

definition DE1 :: int where
  "DE1 = 1"

definition MAXPWLEN :: nat where
  "MAXPWLEN = 8"

definition CHALLENGESIZE :: nat where
  "CHALLENGESIZE = 16"

definition s_fixedkey :: bytes where
  "s_fixedkey = [23, 82, 107, 6, 35, 78, 88, 7]"

definition bytebit :: bytes where
  "bytebit = [1, 2, 4, 8, 16, 32, 64, 128]"

definition bigbyte :: "w32 list" where
  "bigbyte =
    [0x800000, 0x400000, 0x200000, 0x100000, 0x80000, 0x40000, 0x20000, 0x10000,
     0x8000, 0x4000, 0x2000, 0x1000, 0x800, 0x400, 0x200, 0x100,
     0x80, 0x40, 0x20, 0x10, 0x8, 0x4, 0x2, 0x1]"

definition pc1 :: "nat list" where
  "pc1 =
    [56, 48, 40, 32, 24, 16, 8, 0, 57, 49, 41, 33, 25, 17,
     9, 1, 58, 50, 42, 34, 26, 18, 10, 2, 59, 51, 43, 35,
     62, 54, 46, 38, 30, 22, 14, 6, 61, 53, 45, 37, 29, 21,
     13, 5, 60, 52, 44, 36, 28, 20, 12, 4, 27, 19, 11, 3]"

definition totrot :: "nat list" where
  "totrot = [1, 2, 4, 6, 8, 10, 12, 14, 15, 17, 19, 21, 23, 25, 27, 28]"

definition pc2 :: "nat list" where
  "pc2 =
    [13, 16, 10, 23, 0, 4, 2, 27, 14, 5, 20, 9,
     22, 18, 11, 3, 25, 7, 15, 6, 26, 19, 12, 1,
     40, 51, 30, 36, 46, 54, 29, 39, 50, 44, 32, 47,
     43, 48, 38, 55, 33, 52, 45, 41, 49, 35, 28, 31]"

subsection \<open>The key schedule\<close>

definition pc1_bits :: "bytes \<Rightarrow> bool list" where
  "pc1_bits key = map (\<lambda>l. key ! (l div 8) AND bytebit ! (l mod 8) \<noteq> 0) pc1"

text \<open>The two halves are rotated by \<open>totrot[i]\<close>.\<close>

definition pcr_bits :: "bool list \<Rightarrow> nat \<Rightarrow> bool list" where
  "pcr_bits pc1m i =
     map (\<lambda>j. let l = j + totrot ! i in if l < 28 then pc1m ! l else pc1m ! (l - 28)) [0..<28] @
     map (\<lambda>j. let l = j + totrot ! i in if l < 56 then pc1m ! l else pc1m ! (l - 28)) [28..<56]"

definition kn_word :: "bool list \<Rightarrow> nat \<Rightarrow> w32" where
  "kn_word pcr off = foldl (\<lambda>w j. if pcr ! (pc2 ! (j + off)) then w OR bigbyte ! j else w) 0 [0..<24]"

definition key_round :: "bool list \<Rightarrow> int \<Rightarrow> w32 list \<Rightarrow> nat \<Rightarrow> w32 list" where
  "key_round pc1m edf kn i =
     (let m = (if edf = DE1 then 2 * (15 - i) else 2 * i); n = m + 1; pcr = pcr_bits pc1m i
      in kn[m := kn_word pcr 0, n := kn_word pcr 24])"

definition cook0 :: "w32 \<Rightarrow> w32 \<Rightarrow> w32" where
  "cook0 raw0 raw1 =
     push_bit 6 (raw0 AND 0x00fc0000) OR push_bit 10 (raw0 AND 0x00000fc0)
       OR drop_bit 10 (raw1 AND 0x00fc0000) OR drop_bit 6 (raw1 AND 0x00000fc0)"

definition cook1 :: "w32 \<Rightarrow> w32 \<Rightarrow> w32" where
  "cook1 raw0 raw1 =
     push_bit 12 (raw0 AND 0x0003f000) OR push_bit 16 (raw0 AND 0x0000003f)
       OR drop_bit 4 (raw1 AND 0x0003f000) OR (raw1 AND 0x0000003f)"

text \<open>\<open>cookey\<close> ends with \<open>usekey\<close>, which stores the result in \<open>_KnL\<close>.\<close>

definition usekey :: "w32 list \<Rightarrow> w32 list" where
  "usekey src = map (\<lambda>i. src ! i) [0..<32]"

definition cookey :: "w32 list \<Rightarrow> w32 list" where
  "cookey aw1 =
     usekey (concat (map (\<lambda>i. [cook0 (aw1 ! (2 * i)) (aw1 ! (2 * i + 1)), cook1 (aw1 ! (2 * i)) (aw1 ! (2 * i + 1))]) [0..<16]))"

definition deskey :: "bytes \<Rightarrow> int \<Rightarrow> w32 list outcome" where
  "deskey key edf =
     (if length key < 8 then Panic
      else Ret (cookey (foldl (key_round (pc1_bits key) edf) (replicate 32 0) [0..<16])))"

definition cpkey :: "w32 list \<Rightarrow> w32 list" where
  "cpkey KnL = map (\<lambda>i. KnL ! i) [0..<32]"

subsection \<open>Blocks\<close>

definition scrunch :: "bytes \<Rightarrow> (w32 \<times> w32) outcome" where
  "scrunch outof =
     (if length outof < 8 then Panic
      else Ret (push_bit 24 (ucast (outof ! 0) AND 0xff) OR push_bit 16 (ucast (outof ! 1) AND 0xff)
                  OR push_bit 8 (ucast (outof ! 2) AND 0xff) OR (ucast (outof ! 3) AND 0xff),
                push_bit 24 (ucast (outof ! 4) AND 0xff) OR push_bit 16 (ucast (outof ! 5) AND 0xff)
                  OR push_bit 8 (ucast (outof ! 6) AND 0xff) OR (ucast (outof ! 7) AND 0xff)))"

definition unscrun :: "w32 \<times> w32 \<Rightarrow> bytes \<Rightarrow> bytes outcome" where
  "unscrun outof into =
     (if length into < 8 then Panic
      else Ret ([ucast (drop_bit 24 (fst outof) AND 0xff), ucast (drop_bit 16 (fst outof) AND 0xff),
                 ucast (drop_bit 8 (fst outof) AND 0xff), ucast (fst outof AND 0xff),
                 ucast (drop_bit 24 (snd outof) AND 0xff), ucast (drop_bit 16 (snd outof) AND 0xff),
                 ucast (drop_bit 8 (snd outof) AND 0xff), ucast (snd outof AND 0xff)] @ drop 8 into))"

text \<open>
  The permutations are exchanges of bits: \<open>swap_bits n mask\<close> exchanges the bits of \<open>b\<close> in the mask with
  those of \<open>a\<close> that are \<open>n\<close> places higher.
\<close>

definition swap_bits :: "nat \<Rightarrow> w32 \<Rightarrow> w32 \<times> w32 \<Rightarrow> w32 \<times> w32" where
  "swap_bits n m p = (let w = (drop_bit n (fst p) XOR snd p) AND m in (fst p XOR push_bit n w, snd p XOR w))"

definition initial_perm :: "w32 \<times> w32 \<Rightarrow> w32 \<times> w32" where
  "initial_perm block =
     (let (leftt, right) = swap_bits 4 0x0f0f0f0f block;
          (leftt, right) = swap_bits 16 0x0000ffff (leftt, right);
          (right, leftt) = swap_bits 2 0x33333333 (right, leftt);
          (right, leftt) = swap_bits 8 0x00ff00ff (right, leftt);
          right = (push_bit 1 right OR (drop_bit 31 right AND 1)) AND 0xffffffff;
          (leftt, right) = swap_bits 0 0xaaaaaaaa (leftt, right);
          leftt = (push_bit 1 leftt OR (drop_bit 31 leftt AND 1)) AND 0xffffffff
      in (leftt, right))"

definition final_perm :: "w32 \<times> w32 \<Rightarrow> w32 \<times> w32" where
  "final_perm p =
     (let (leftt, right) = p;
          right = push_bit 31 right OR drop_bit 1 right;
          (leftt, right) = swap_bits 0 0xaaaaaaaa (leftt, right);
          leftt = push_bit 31 leftt OR drop_bit 1 leftt;
          (leftt, right) = swap_bits 8 0x00ff00ff (leftt, right);
          (leftt, right) = swap_bits 2 0x33333333 (leftt, right);
          (right, leftt) = swap_bits 16 0x0000ffff (right, leftt);
          (right, leftt) = swap_bits 4 0x0f0f0f0f (right, leftt)
      in (right, leftt))"

definition six :: "w32 \<Rightarrow> nat \<Rightarrow> nat" where
  "six work n = unat (drop_bit n work AND 0x3f)"

text \<open>The value xored into the other half in one round, with two words of the key.\<close>

definition round_fval :: "w32 \<Rightarrow> w32 \<Rightarrow> w32 \<Rightarrow> w32" where
  "round_fval k0 k1 x =
     (let work = (push_bit 28 x OR drop_bit 4 x) XOR k0;
          fval = SP7 ! six work 0 OR SP5 ! six work 8 OR SP3 ! six work 16 OR SP1 ! six work 24;
          work = x XOR k1
      in fval OR SP8 ! six work 0 OR SP6 ! six work 8 OR SP4 ! six work 16 OR SP2 ! six work 24)"

definition two_rounds :: "w32 list \<Rightarrow> w32 \<times> w32 \<Rightarrow> nat \<Rightarrow> w32 \<times> w32" where
  "two_rounds keys p round =
     (let (leftt, right) = p;
          leftt = leftt XOR round_fval (keys ! (4 * round)) (keys ! (4 * round + 1)) right;
          right = right XOR round_fval (keys ! (4 * round + 2)) (keys ! (4 * round + 3)) leftt
      in (leftt, right))"

definition desfunc :: "w32 \<times> w32 \<Rightarrow> w32 list \<Rightarrow> w32 \<times> w32" where
  "desfunc block keys = final_perm (foldl (two_rounds keys) (initial_perm block) [0..<8])"

definition des :: "w32 list \<Rightarrow> bytes \<Rightarrow> bytes \<Rightarrow> bytes outcome" where
  "des KnL inblock outblock =
     (case scrunch inblock of Panic \<Rightarrow> Panic | Ret work \<Rightarrow> unscrun (desfunc work KnL) outblock)"

end
