(* ===== verification/Vnc_Cipher.thy ===== *)
theory Vnc_Cipher
  imports Vnc_Des
begin

section \<open>Package vncpasswd: the cipher can be undone\<close>

text \<open>
  Encryption is a Feistel network between two permutations of bits that undo each other, and the
  schedule for decryption is the one for encryption with its sixteen pairs of words in reverse.
\<close>

subsection \<open>The permutations\<close>

lemma swap_bits_twice:
  assumes "drop_bit n (push_bit n m) = m"
  shows "swap_bits n m (swap_bits n m p) = p"
proof -
  obtain a b where p: "p = (a, b)" by (cases p)
  define w where "w = (drop_bit n a XOR b) AND m"
  have m: "bit m i \<Longrightarrow> i + n < 32" for i
  proof -
    assume "bit m i"
    then have "bit (drop_bit n (push_bit n m)) i" using assms by simp
    then show "i + n < 32" by (auto simp: bit_simps dest: bit_imp_le_length)
  qed
  have "(drop_bit n (a XOR push_bit n w) XOR (b XOR w)) AND m = w"
  proof (rule bit_word_eqI)
    fix i
    assume "i < LENGTH(32)"
    show "bit ((drop_bit n (a XOR push_bit n w) XOR (b XOR w)) AND m) i = bit w i"
      using m [of i] by (auto simp: w_def bit_simps)
  qed
  then show ?thesis using p by (simp add: swap_bits_def Let_def w_def [symmetric] xor.assoc)
qed

lemma masks:
  "drop_bit 4 (push_bit 4 0x0f0f0f0f) = (0x0f0f0f0f :: w32)" "drop_bit 16 (push_bit 16 0x0000ffff) = (0x0000ffff :: w32)"
  "drop_bit 2 (push_bit 2 0x33333333) = (0x33333333 :: w32)" "drop_bit 8 (push_bit 8 0x00ff00ff) = (0x00ff00ff :: w32)"
  "drop_bit 0 (push_bit 0 0xaaaaaaaa) = (0xaaaaaaaa :: w32)"
  by simp_all

definition rol1 :: "w32 \<Rightarrow> w32" where
  "rol1 x = (push_bit 1 x OR (drop_bit 31 x AND 1)) AND 0xffffffff"

definition ror1 :: "w32 \<Rightarrow> w32" where
  "ror1 x = push_bit 31 x OR drop_bit 1 x"

lemma all_ones: "(x :: w32) AND 0xffffffff = x"
proof -
  have "(0xffffffff :: w32) = - 1" by simp
  then show ?thesis by (simp only: bit.conj_one_right)
qed

lemma bit_rol1: "i < 32 \<Longrightarrow> bit (rol1 x) i = (if i = 0 then bit x 31 else bit x (i - 1))"
  unfolding rol1_def all_ones bit_or_iff bit_and_iff bit_push_bit_iff bit_drop_bit_eq comp_def bit_1_iff
  by (auto dest: bit_imp_le_length)

lemma bit_ror1: "i < 32 \<Longrightarrow> bit (ror1 x) i = (if i = 31 then bit x 0 else bit x (i + 1))"
  unfolding ror1_def by (auto simp: bit_simps dest: bit_imp_le_length)

lemma rotate_back [simp]: "ror1 (rol1 x) = x" "rol1 (ror1 x) = x"
  by (rule bit_word_eqI, auto simp: bit_rol1 bit_ror1)+


lemma swap_bits_0: "swap_bits 0 m (b, a) = prod.swap (swap_bits 0 m (a, b))"
  by (simp add: swap_bits_def Let_def xor.commute)

text \<open>An exchange and the equation that undoes it.\<close>

lemma exchange:
  assumes "drop_bit n (push_bit n m) = m"
  obtains x y where "swap_bits n m (a, b) = (x, y)" "swap_bits n m (x, y) = (a, b)"
  using swap_bits_twice [OF assms, of "(a, b)"] by (cases "swap_bits n m (a, b)") auto

lemma final_initial: "final_perm (prod.swap (initial_perm p)) = p"
proof -
  obtain l0 r0 where p: "p = (l0, r0)" by (cases p)
  obtain l1 r1 where 1: "swap_bits 4 0x0f0f0f0f (l0, r0) = (l1, r1)" "swap_bits 4 0x0f0f0f0f (l1, r1) = (l0, r0)" by (rule exchange [OF masks(1)])
  obtain l2 r2 where 2: "swap_bits 16 0x0000ffff (l1, r1) = (l2, r2)" "swap_bits 16 0x0000ffff (l2, r2) = (l1, r1)" by (rule exchange [OF masks(2)])
  obtain r3 l3 where 3: "swap_bits 2 0x33333333 (r2, l2) = (r3, l3)" "swap_bits 2 0x33333333 (r3, l3) = (r2, l2)" by (rule exchange [OF masks(3)])
  obtain r4 l4 where 4: "swap_bits 8 0x00ff00ff (r3, l3) = (r4, l4)" "swap_bits 8 0x00ff00ff (r4, l4) = (r3, l3)" by (rule exchange [OF masks(4)])
  obtain l5 r5 where 5: "swap_bits 0 0xaaaaaaaa (l4, rol1 r4) = (l5, r5)" "swap_bits 0 0xaaaaaaaa (l5, r5) = (l4, rol1 r4)"
    by (rule exchange [OF masks(5)])
  have "initial_perm p = (rol1 l5, r5)"
    using 1 2 3 4 5 unfolding p initial_perm_def rol1_def [symmetric] by (simp add: Let_def)
  then show ?thesis
    using 1 2 3 4 5 swap_bits_0 [of _ r5 l5] unfolding p final_perm_def ror1_def [symmetric] by (simp add: Let_def)
qed

lemma initial_final: "initial_perm (final_perm p) = prod.swap p"
proof -
  obtain l0 r0 where p: "p = (l0, r0)" by (cases p)
  obtain l1 r1 where 1: "swap_bits 0 0xaaaaaaaa (l0, ror1 r0) = (l1, r1)" "swap_bits 0 0xaaaaaaaa (l1, r1) = (l0, ror1 r0)"
    by (rule exchange [OF masks(5)])
  obtain l2 r2 where 2: "swap_bits 8 0x00ff00ff (ror1 l1, r1) = (l2, r2)" "swap_bits 8 0x00ff00ff (l2, r2) = (ror1 l1, r1)" by (rule exchange [OF masks(4)])
  obtain l3 r3 where 3: "swap_bits 2 0x33333333 (l2, r2) = (l3, r3)" "swap_bits 2 0x33333333 (l3, r3) = (l2, r2)" by (rule exchange [OF masks(3)])
  obtain r4 l4 where 4: "swap_bits 16 0x0000ffff (r3, l3) = (r4, l4)" "swap_bits 16 0x0000ffff (r4, l4) = (r3, l3)" by (rule exchange [OF masks(2)])
  obtain r5 l5 where 5: "swap_bits 4 0x0f0f0f0f (r4, l4) = (r5, l5)" "swap_bits 4 0x0f0f0f0f (r5, l5) = (r4, l4)" by (rule exchange [OF masks(1)])
  have "final_perm p = (r5, l5)"
    using 1 2 3 4 5 unfolding p final_perm_def ror1_def [symmetric] by (simp add: Let_def)
  then show ?thesis
    using 1 2 3 4 5 swap_bits_0 [of _ r1 l1] unfolding p initial_perm_def rol1_def [symmetric] by (simp add: Let_def)
qed

subsection \<open>The rounds\<close>

text \<open>The key pairs as a list; one round exchanges the halves.\<close>

definition feistel :: "(w32 \<times> w32) list \<Rightarrow> w32 \<times> w32 \<Rightarrow> w32 \<times> w32" where
  "feistel = fold (\<lambda>(k0, k1) (l, r). (r, l XOR round_fval k0 k1 r))"

definition pairs :: "w32 list \<Rightarrow> (w32 \<times> w32) list" where
  "pairs ks = map (\<lambda>i. (ks ! (2 * i), ks ! (2 * i + 1))) [0..<16]"

lemma feistel_simps [simp]:
  "feistel [] p = p" "feistel ((k0, k1) # ks) (l, r) = feistel ks (r, l XOR round_fval k0 k1 r)"
  "feistel (as @ bs) p = feistel bs (feistel as p)"
  by (simp_all add: feistel_def)

lemma two_rounds_feistel:
  "two_rounds ks p i = feistel [(ks ! (4 * i), ks ! (4 * i + 1)), (ks ! (4 * i + 2), ks ! (4 * i + 3))] p"
  by (cases p) (simp add: two_rounds_def Let_def)

lemma rounds_feistel: "foldl (two_rounds ks) p [0..<8] = feistel (pairs ks) p"
proof -
  have "pairs ks = concat (map (\<lambda>i. [(ks ! (4 * i), ks ! (4 * i + 1)), (ks ! (4 * i + 2), ks ! (4 * i + 3))]) [0..<8])"
    by (simp add: pairs_def upt_rec) (simp add: numeral_2_eq_2)
  moreover have "foldl (two_rounds ks) p is
      = feistel (concat (map (\<lambda>i. [(ks ! (4 * i), ks ! (4 * i + 1)), (ks ! (4 * i + 2), ks ! (4 * i + 3))]) is)) p" for "is"
    by (induction "is" arbitrary: p) (auto simp: two_rounds_feistel)
  ultimately show ?thesis by simp
qed

lemma feistel_undo: "feistel (rev ks) (prod.swap (feistel ks p)) = prod.swap p"
proof (induction ks arbitrary: p)
  case (Cons k ks)
  obtain k0 k1 l r where e: "k = (k0, k1)" "p = (l, r)" by (cases k, cases p)
  show ?case using Cons [of "(r, l XOR round_fval k0 k1 r)"] e by (simp add: xor.assoc)
qed simp

lemma desfunc_undo:
  assumes "pairs ds = rev (pairs ks)"
  shows "desfunc (desfunc b ks) ds = b"
proof -
  have "desfunc (desfunc b ks) ds = final_perm (feistel (rev (pairs ks)) (prod.swap (feistel (pairs ks) (initial_perm b))))"
    by (simp add: desfunc_def rounds_feistel initial_final assms)
  then show ?thesis by (simp add: feistel_undo final_initial)
qed

subsection \<open>The key schedules\<close>

lemma nth_concat_pairs:
  "i < n \<Longrightarrow> concat (map (\<lambda>i. [f i, g i]) [0..<n]) ! (2 * i) = f i \<and> concat (map (\<lambda>i. [f i, g i]) [0..<n]) ! (2 * i + 1) = g i"
proof (induction n)
  case (Suc n)
  have l: "length (concat (map (\<lambda>i. [f i, g i]) [0..<n])) = 2 * n" by (induction n) simp_all
  show ?case
  proof (cases "i = n")
    case True
    then show ?thesis using l by (simp add: nth_append)
  next
    case False
    then show ?thesis using Suc l by (simp add: nth_append)
  qed
qed simp

lemma length_concat_pairs: "length (concat (map (\<lambda>i. [f i, g i]) [0..<n])) = 2 * n"
  by (induction n) simp_all

lemma pairs_cookey:
  "pairs (cookey aw) = map (\<lambda>i. (cook0 (aw ! (2 * i)) (aw ! (2 * i + 1)), cook1 (aw ! (2 * i)) (aw ! (2 * i + 1)))) [0..<16]"
proof -
  let ?c = "concat (map (\<lambda>i. [cook0 (aw ! (2 * i)) (aw ! (2 * i + 1)), cook1 (aw ! (2 * i)) (aw ! (2 * i + 1))]) [0..<16])"
  have "cookey aw ! j = ?c ! j" if "j < 32" for j using that by (simp add: cookey_def usekey_def)
  moreover have "?c ! (2 * i) = cook0 (aw ! (2 * i)) (aw ! (2 * i + 1)) \<and> ?c ! (2 * i + 1) = cook1 (aw ! (2 * i)) (aw ! (2 * i + 1))" if "i < 16" for i
    using nth_concat_pairs [OF that] .
  ultimately show ?thesis by (simp add: pairs_def)
qed

definition kn_pos :: "int \<Rightarrow> nat \<Rightarrow> nat" where
  "kn_pos edf i = (if edf = DE1 then 15 - i else i)"

lemma rounds_kn:
  "n \<le> 16 \<Longrightarrow> length (foldl (key_round pm edf) (replicate 32 0) [0..<n]) = 32
    \<and> (\<forall>i < n. foldl (key_round pm edf) (replicate 32 0) [0..<n] ! (2 * kn_pos edf i) = kn_word (pcr_bits pm i) 0
             \<and> foldl (key_round pm edf) (replicate 32 0) [0..<n] ! (2 * kn_pos edf i + 1) = kn_word (pcr_bits pm i) 24)"
proof (induction n)
  case (Suc n)
  let ?k = "foldl (key_round pm edf) (replicate 32 0) [0..<n]"
  have k: "foldl (key_round pm edf) (replicate 32 0) [0..<Suc n]
      = ?k[2 * kn_pos edf n := kn_word (pcr_bits pm n) 0, 2 * kn_pos edf n + 1 := kn_word (pcr_bits pm n) 24]"
    by (simp add: key_round_def Let_def kn_pos_def)
  have p: "kn_pos edf i < 16" "kn_pos edf i = kn_pos edf n \<longleftrightarrow> i = n" if "i \<le> n" for i
    using that Suc.prems by (auto simp: kn_pos_def)
  have o: "2 * kn_pos edf i \<noteq> 2 * kn_pos edf n + 1" "2 * kn_pos edf i + 1 \<noteq> 2 * kn_pos edf n" for i by presburger+
  show ?case
  proof (intro conjI allI impI)
    fix i assume "i < Suc n"
    then consider "i = n" | "i < n" by linarith
    then have "?k[2 * kn_pos edf n := kn_word (pcr_bits pm n) 0, 2 * kn_pos edf n + 1 := kn_word (pcr_bits pm n) 24] ! (2 * kn_pos edf i) = kn_word (pcr_bits pm i) 0
       \<and> ?k[2 * kn_pos edf n := kn_word (pcr_bits pm n) 0, 2 * kn_pos edf n + 1 := kn_word (pcr_bits pm n) 24] ! (2 * kn_pos edf i + 1) = kn_word (pcr_bits pm i) 24"
      using Suc p [of i] p [of n] o [of i] by cases (auto simp: nth_list_update)
    then show "foldl (key_round pm edf) (replicate 32 0) [0..<Suc n] ! (2 * kn_pos edf i) = kn_word (pcr_bits pm i) 0"
      "foldl (key_round pm edf) (replicate 32 0) [0..<Suc n] ! (2 * kn_pos edf i + 1) = kn_word (pcr_bits pm i) 24"
      unfolding k by blast+
  qed (use Suc k in simp)
qed simp

text \<open>The pair of round \<open>i\<close> of the standard schedule.\<close>

definition round_key :: "bytes \<Rightarrow> nat \<Rightarrow> w32 \<times> w32" where
  "round_key key i =
     (let pcr = pcr_bits (pc1_bits key) i; a = kn_word pcr 0; b = kn_word pcr 24 in (cook0 a b, cook1 a b))"

lemma deskey_pairs:
  assumes "8 \<le> length key"
  shows "\<exists>ks ds. deskey key EN0 = Ret ks \<and> deskey key DE1 = Ret ds
    \<and> pairs ks = map (round_key key) [0..<16] \<and> pairs ds = rev (map (round_key key) [0..<16])"
proof -
  let ?kn = "\<lambda>edf. foldl (key_round (pc1_bits key) edf) (replicate 32 0) [0..<16]"
  have "pairs (cookey (?kn EN0)) = map (round_key key) [0..<16]"
    unfolding pairs_cookey using rounds_kn [of 16 "pc1_bits key" EN0] by (auto simp: round_key_def Let_def kn_pos_def EN0_def DE1_def)
  moreover have "pairs (cookey (?kn DE1)) = rev (map (round_key key) [0..<16])"
  proof (rule nth_equalityI)
    fix i assume "i < length (pairs (cookey (?kn DE1)))"
    then have i: "i < 16" by (simp add: pairs_def)
    then have k: "15 - i < 16" "kn_pos DE1 (15 - i) = i" by (auto simp: kn_pos_def)
    have "?kn DE1 ! (2 * i) = kn_word (pcr_bits (pc1_bits key) (15 - i)) 0 \<and> ?kn DE1 ! (2 * i + 1) = kn_word (pcr_bits (pc1_bits key) (15 - i)) 24"
      using conjunct2 [OF rounds_kn [of 16 "pc1_bits key" DE1], rule_format, OF order_refl k(1)] unfolding k(2) .
    then show "pairs (cookey (?kn DE1)) ! i = rev (map (round_key key) [0..<16]) ! i"
      using i unfolding pairs_cookey by (simp add: rev_nth round_key_def Let_def)
  qed (simp add: pairs_def)
  ultimately show ?thesis using assms by (simp add: deskey_def)
qed

subsection \<open>Blocks\<close>

abbreviation join4 :: "8 word \<Rightarrow> 8 word \<Rightarrow> 8 word \<Rightarrow> 8 word \<Rightarrow> w32" where
  "join4 a b c d \<equiv> push_bit 24 (ucast a AND 0xff) OR push_bit 16 (ucast b AND 0xff) OR push_bit 8 (ucast c AND 0xff) OR (ucast d AND 0xff)"

lemma ff_mask: "(0xff :: w32) = mask 8"
  by (simp add: mask_eq_exp_minus_1)

lemma split_join4:
  "ucast (drop_bit 24 (join4 a b c d) AND 0xff) = a" "ucast (drop_bit 16 (join4 a b c d) AND 0xff) = b"
  "ucast (drop_bit 8 (join4 a b c d) AND 0xff) = c" "ucast (join4 a b c d AND 0xff) = d"
  unfolding ff_mask by (rule bit_word_eqI, auto simp: bit_simps dest: bit_imp_le_length)+

lemma join4_split:
  "join4 (ucast (drop_bit 24 w AND 0xff)) (ucast (drop_bit 16 w AND 0xff)) (ucast (drop_bit 8 w AND 0xff)) (ucast (w AND 0xff)) = w"
proof (rule bit_word_eqI)
  fix i assume "i < LENGTH(32)"
  then consider "i < 8" | "8 \<le> i" "i < 16" | "16 \<le> i" "i < 24" | "24 \<le> i" "i < 32" by fastforce
  then show "bit (join4 (ucast (drop_bit 24 w AND 0xff)) (ucast (drop_bit 16 w AND 0xff)) (ucast (drop_bit 8 w AND 0xff)) (ucast (w AND 0xff))) i = bit w i"
    unfolding ff_mask by cases (auto simp: bit_simps)
qed

lemma bytes_words:
  assumes "length b = 8" "scrunch b = Ret w" "length out = 8"
  shows "unscrun w out = Ret b"
proof -
  obtain a0 a1 a2 a3 a4 a5 a6 a7 where b: "b = [a0, a1, a2, a3, a4, a5, a6, a7]"
    using assms(1) by (auto simp: length_Suc_conv numeral_eq_Suc)
  have "w = (join4 a0 a1 a2 a3, join4 a4 a5 a6 a7)" using assms(2) b by (simp add: scrunch_def)
  then show ?thesis using assms(3) b by (simp only: unscrun_def fst_conv snd_conv split_join4) simp
qed

lemma words_bytes:
  assumes "length out = 8"
  shows "\<exists>b. unscrun w out = Ret b \<and> length b = 8 \<and> scrunch b = Ret w"
proof -
  let ?b = "\<lambda>w :: w32. [ucast (drop_bit 24 w AND 0xff), ucast (drop_bit 16 w AND 0xff), ucast (drop_bit 8 w AND 0xff), ucast (w AND 0xff)] :: bytes"
  have "unscrun w out = Ret (?b (fst w) @ ?b (snd w))" using assms by (simp add: unscrun_def)
  moreover have "scrunch (?b (fst w) @ ?b (snd w)) = Ret (join4 (ucast (drop_bit 24 (fst w) AND 0xff)) (ucast (drop_bit 16 (fst w) AND 0xff))
      (ucast (drop_bit 8 (fst w) AND 0xff)) (ucast (fst w AND 0xff)), join4 (ucast (drop_bit 24 (snd w) AND 0xff)) (ucast (drop_bit 16 (snd w) AND 0xff))
      (ucast (drop_bit 8 (snd w) AND 0xff)) (ucast (snd w AND 0xff)))"
    by (simp add: scrunch_def del: One_nat_def)
  ultimately show ?thesis unfolding join4_split by simp
qed

lemma des_blocks: "length b = 8 \<Longrightarrow> length out = 8 \<Longrightarrow> \<exists>c. des ks b out = Ret c \<and> length c = 8"
  using words_bytes [of out] by (fastforce simp: des_def scrunch_def)

lemma des_undo:
  assumes "8 \<le> length key" "length b = 8" "length out = 8" "length out' = 8"
  shows "\<exists>ks ds c. deskey key EN0 = Ret ks \<and> deskey key DE1 = Ret ds \<and> des ks b out = Ret c \<and> length c = 8 \<and> des ds c out' = Ret b"
proof -
  obtain ks ds where k: "deskey key EN0 = Ret ks" "deskey key DE1 = Ret ds" "pairs ds = rev (pairs ks)"
    using deskey_pairs [OF assms(1)] by auto
  obtain w where w: "scrunch b = Ret w" using assms(2) by (auto simp: scrunch_def)
  obtain c where c: "unscrun (desfunc w ks) out = Ret c" "length c = 8" "scrunch c = Ret (desfunc w ks)"
    using words_bytes [OF assms(3)] by blast
  have "des ks b out = Ret c" using w c by (simp add: des_def)
  moreover have "des ds c out' = Ret b" using c desfunc_undo [OF k(3)] bytes_words [OF assms(2) w assms(4)] by (simp add: des_def)
  ultimately show ?thesis using k c(2) by blast
qed

end
