(* ===== verification/Vnc_Passwd.thy ===== *)
theory Vnc_Passwd
  imports Vnc_Cipher Go_Prelude
begin

section \<open>Package vncpasswd: passwords\<close>

text \<open>
  The exported functions of \<^verbatim>\<open>endec/vncpasswd/vncpasswd.go\<close>. Each starts with \<open>deskey\<close>, which replaces the
  global key schedule; they return the schedule they leave with their result. \<open>append\<close> to a slice
  with spare capacity writes into the array of its owner: \<open>VncEncryptBytes\<close> takes the capacity of the
  caller's slice and returns its contents afterwards too.
\<close>

definition to_bytes :: "string \<Rightarrow> bytes" where
  "to_bytes s = map (\<lambda>c. word_of_nat (byte c)) s"

definition of_bytes :: "bytes \<Rightarrow> string" where
  "of_bytes b = map (\<lambda>w. char_of (unat w)) b"

subsection \<open>Hexadecimal digits\<close>

text \<open>\<^verbatim>\<open>hex.EncodeToString\<close> with \<^verbatim>\<open>strings.ToUpper\<close>, and \<^verbatim>\<open>hex.DecodeString\<close> up to the kind of error.\<close>

definition hex_digit :: "nat \<Rightarrow> char" where
  "hex_digit n = ''0123456789abcdef'' ! n"

definition upper :: "char \<Rightarrow> char" where
  "upper c = (if 97 \<le> byte c \<and> byte c \<le> 122 then char_of (byte c - 32) else c)"

definition EncodeToString :: "bytes \<Rightarrow> string" where
  "EncodeToString b = concat (map (\<lambda>w. [hex_digit (unat w div 16), hex_digit (unat w mod 16)]) b)"

definition hex_value :: "char \<Rightarrow> nat option" where
  "hex_value c =
     (let n = byte c
      in if 48 \<le> n \<and> n \<le> 57 then Some (n - 48)
         else if 97 \<le> n \<and> n \<le> 102 then Some (n - 87)
         else if 65 \<le> n \<and> n \<le> 70 then Some (n - 55)
         else None)"

fun DecodeString :: "string \<Rightarrow> bytes option" where
  "DecodeString [] = Some []"
| "DecodeString [c] = None"
| "DecodeString (c # d # s) =
     (case (hex_value c, hex_value d, DecodeString s) of
        (Some a, Some b, Some r) \<Rightarrow> Some (word_of_nat (16 * a + b) # r)
      | _ \<Rightarrow> None)"

subsection \<open>Operations\<close>

definition passwd_key :: "bytes \<Rightarrow> bytes" where
  "passwd_key passwd = map (\<lambda>i. if i < length passwd then passwd ! i else 0) [0..<8]"

text \<open>The challenge after it is cut and padded, and the caller's slice after the \<open>append\<close>.\<close>

definition pad_challenge :: "nat \<Rightarrow> bytes \<Rightarrow> bytes \<Rightarrow> (bytes \<times> bytes) outcome" where
  "pad_challenge cap raw passwd =
     (let raw1 = (if length raw > MAXPWLEN then take MAXPWLEN raw else raw);
          n = int CHALLENGESIZE - int (length passwd) + 1
      in if \<not> length raw1 < CHALLENGESIZE then Ret (raw1, raw)
         else if n < 0 then Panic
         else Ret (raw1 @ replicate (nat n) 0,
                   if length raw1 < length raw \<and> length raw1 + nat n \<le> cap
                   then raw1 @ replicate (min (nat n) (length raw - length raw1)) 0 @ drop (length raw1 + nat n) raw
                   else raw))"

definition VncEncryptBytes :: "nat \<Rightarrow> bytes \<Rightarrow> bytes \<Rightarrow> (w32 list \<times> bytes \<times> bytes) outcome" where
  "VncEncryptBytes cap raw passwd =
     (case pad_challenge cap raw passwd of
        Panic \<Rightarrow> Panic
      | Ret (raw2, raw') \<Rightarrow>
          (case deskey (passwd_key passwd) EN0 of
             Panic \<Rightarrow> Panic
           | Ret KnL \<Rightarrow>
               (case des KnL raw2 (passwd_key passwd) of
                  Panic \<Rightarrow> Panic
                | Ret key \<Rightarrow>
                    (case des KnL (drop 8 raw2) key of
                       Panic \<Rightarrow> Panic
                     | Ret key' \<Rightarrow> Ret (KnL, take 8 key @ take 8 key', raw')))))"

definition VncEncryptPasswd :: "string \<Rightarrow> (w32 list \<times> bytes) outcome" where
  "VncEncryptPasswd passwd =
     (case deskey s_fixedkey EN0 of
        Panic \<Rightarrow> Panic
      | Ret KnL \<Rightarrow>
          (let pb = to_bytes passwd;
               rawpasswd = (if length pb \<ge> MAXPWLEN then take MAXPWLEN pb else pb @ replicate (MAXPWLEN - length pb) 0)
           in case des KnL rawpasswd (replicate MAXPWLEN 0) of Panic \<Rightarrow> Panic | Ret e \<Rightarrow> Ret (KnL, e)))"

definition VncEncryptPasswdToHexString :: "string \<Rightarrow> (w32 list \<times> string) outcome" where
  "VncEncryptPasswdToHexString passwd =
     (case VncEncryptPasswd passwd of Panic \<Rightarrow> Panic | Ret (KnL, b) \<Rightarrow> Ret (KnL, map upper (EncodeToString b)))"

text \<open>The schedule is left alone when the call returns early.\<close>

definition VncDecryptPasswd :: "w32 list \<Rightarrow> bytes \<Rightarrow> (w32 list \<times> string \<times> bool) outcome" where
  "VncDecryptPasswd KnL0 encryptedPasswd =
     (if length encryptedPasswd = 0 then Ret (KnL0, [], False)
      else case deskey s_fixedkey DE1 of
             Panic \<Rightarrow> Panic
           | Ret KnL \<Rightarrow>
               (case des KnL encryptedPasswd (replicate 8 0) of Panic \<Rightarrow> Panic | Ret key \<Rightarrow> Ret (KnL, of_bytes key, True)))"

definition VncDecryptPasswdFromHexString :: "w32 list \<Rightarrow> string \<Rightarrow> (w32 list \<times> string \<times> bool) outcome" where
  "VncDecryptPasswdFromHexString KnL0 s =
     (if length s = 0 then Ret (KnL0, [], False)
      else case DecodeString s of
             None \<Rightarrow> Ret (KnL0, [], False)
           | Some byteArr \<Rightarrow>
               (case deskey s_fixedkey DE1 of
                  Panic \<Rightarrow> Panic
                | Ret KnL \<Rightarrow>
                    (case des KnL byteArr (replicate 8 0) of Panic \<Rightarrow> Panic | Ret key \<Rightarrow> Ret (KnL, of_bytes key, True))))"

subsection \<open>Laws\<close>

lemma of_to_bytes [simp]: "of_bytes (to_bytes s) = s"
proof -
  have "byte c < 256" for c :: char by simp
  then have "unat (word_of_nat (byte c) :: 8 word) = byte c" for c :: char by (simp add: unat_of_nat take_bit_nat_eq_self)
  then show ?thesis by (simp add: of_bytes_def to_bytes_def o_def)
qed

lemma length_to_bytes [simp]: "length (to_bytes s) = length s" "length (of_bytes b) = length b"
  by (simp_all add: to_bytes_def of_bytes_def)

lemma of_bytes_append [simp]: "of_bytes (a @ b) = of_bytes a @ of_bytes b" "of_bytes (replicate n 0) = replicate n (CHR 0x00)"
  "of_bytes (take n b) = take n (of_bytes b)"
  by (simp_all add: of_bytes_def take_map char_of_def)

lemma hex_value_upper: "n < 16 \<Longrightarrow> hex_value (upper (hex_digit n)) = Some n"
proof -
  have "list_all (\<lambda>n. hex_value (upper (hex_digit n)) = Some n) [0..<16]"
    by (simp add: upt_rec hex_value_def upper_def hex_digit_def Let_def)
  then show "n < 16 \<Longrightarrow> hex_value (upper (hex_digit n)) = Some n" by (simp add: list_all_iff)
qed

lemma Decode_Encode: "DecodeString (map upper (EncodeToString b)) = Some b"
proof (induction b)
  case (Cons w b)
  have "unat w < 256" using unsigned_less [of w, where ?'a = nat] by simp
  then have "hex_value (upper (hex_digit (unat w div 16))) = Some (unat w div 16)"
    "hex_value (upper (hex_digit (unat w mod 16))) = Some (unat w mod 16)" by (simp_all add: hex_value_upper)
  then show ?case using Cons by (simp add: EncodeToString_def)
qed (simp add: EncodeToString_def)

lemma length_Encode: "length (EncodeToString b) = 2 * length b"
  by (induction b) (simp_all add: EncodeToString_def)

lemma fixedkey_length: "length s_fixedkey = 8"
  by (simp add: s_fixedkey_def)

lemma passwd_key_length [simp]: "length (passwd_key p) = 8"
  by (simp add: passwd_key_def)

definition clipped :: "bytes \<Rightarrow> bytes" where
  "clipped b = take 8 b @ replicate (8 - length b) 0"

lemma clipped_length [simp]: "length (clipped b) = 8"
  by (simp add: clipped_def)

definition des_block :: "bytes \<Rightarrow> bytes \<Rightarrow> bytes" where
  "des_block key b =
     (case deskey key EN0 of
        Panic \<Rightarrow> []
      | Ret ks \<Rightarrow> (case des ks b (replicate 8 0) of Panic \<Rightarrow> [] | Ret c \<Rightarrow> c))"

lemma scrunch_take: "scrunch b = scrunch (take 8 b)"
  by (simp add: scrunch_def)

lemma unscrun_out: "length o1 = 8 \<Longrightarrow> length o2 = 8 \<Longrightarrow> unscrun w o1 = unscrun w o2"
  by (simp add: unscrun_def)

lemma des_short: "length b < 8 \<Longrightarrow> des ks b out = Panic"
  by (simp add: des_def scrunch_def)

lemma des_first:
  assumes "8 \<le> length key" "8 \<le> length b" "length out = 8" "deskey key EN0 = Ret ks"
  shows "des ks b out = Ret (des_block key (take 8 b)) \<and> length (des_block key (take 8 b)) = 8"
proof -
  obtain c where c: "des ks (take 8 b) (replicate 8 0) = Ret c" "length c = 8" using des_blocks [of "take 8 b" "replicate 8 0"] assms(2) by auto
  have "des ks b out = des ks (take 8 b) (replicate 8 0)"
    using scrunch_take [of b] unscrun_out [OF assms(3), of "replicate 8 0"] by (simp add: des_def split: outcome.split)
  then show ?thesis using c assms(4) by (simp add: des_block_def)
qed

lemma deskey_EN0: "8 \<le> length key \<Longrightarrow> \<exists>ks. deskey key EN0 = Ret ks"
  by (simp add: deskey_def)

lemma pad_challenge_eq:
  "pad_challenge cap raw passwd =
     (let n = 17 - length passwd
      in if length passwd > 17 then Panic
         else Ret (take 8 raw @ replicate n 0,
                   if 8 < length raw \<and> 8 + n \<le> cap then take 8 raw @ replicate (min n (length raw - 8)) 0 @ drop (8 + n) raw
                   else raw))"
proof -
  have r: "(if length raw > MAXPWLEN then take MAXPWLEN raw else raw) = take 8 raw" by (simp add: MAXPWLEN_def)
  have n: "nat (int CHALLENGESIZE - int (length passwd) + 1) = 17 - length passwd"
    "int CHALLENGESIZE - int (length passwd) + 1 < 0 \<longleftrightarrow> length passwd > 17" by (auto simp: CHALLENGESIZE_def)
  have l: "length (take 8 raw) < CHALLENGESIZE" "length (take 8 raw) < length raw \<longleftrightarrow> 8 < length raw" by (auto simp: CHALLENGESIZE_def)
  show ?thesis unfolding pad_challenge_def r Let_def n l(2) using l(1) by (auto simp: min_def)
qed

lemma VncEncryptBytes_exact:
  "map_outcome (\<lambda>(ks, e, r). e) (VncEncryptBytes cap raw passwd) =
     (if length passwd \<le> min 8 (length raw) + 1
      then Ret (des_block (passwd_key passwd) (clipped raw) @ des_block (passwd_key passwd) (replicate 8 0))
      else Panic)"
proof -
  let ?k = "passwd_key passwd" and ?n = "17 - length passwd"
  obtain ks where ks: "deskey ?k EN0 = Ret ks" using deskey_EN0 [of ?k] by auto
  show ?thesis
  proof (cases "length passwd \<le> 17")
    case True
    then obtain r where p: "pad_challenge cap raw passwd = Ret (take 8 raw @ replicate ?n 0, r)"
      by (simp add: pad_challenge_eq Let_def)
    show ?thesis
    proof (cases "length passwd \<le> min 8 (length raw) + 1")
      case True
      let ?b = "take 8 raw @ replicate ?n 0"
      have "8 \<le> length (drop 8 ?b)" "take 8 ?b = clipped raw" "take 8 (drop 8 ?b) = replicate 8 0"
        using True \<open>length passwd \<le> 17\<close> by (auto simp: clipped_def min_def)
      moreover from this have "8 \<le> length ?b" by simp
      ultimately show ?thesis
        using True p ks des_first [of ?k ?b ?k ks] des_first [of ?k "drop 8 ?b" "des_block ?k (clipped raw)" ks] by (simp add: VncEncryptBytes_def)
    next
      case False
      then have "length (drop 8 (take 8 raw @ replicate ?n 0)) < 8" using \<open>length passwd \<le> 17\<close> by (auto simp: min_def)
      then show ?thesis using False p ks des_short by (auto simp: VncEncryptBytes_def split: outcome.split)
    qed
  next
    case False
    then show ?thesis by (simp add: VncEncryptBytes_def pad_challenge_eq Let_def)
  qed
qed

lemma Encrypt_Decrypt:
  "\<exists>ks ds e. VncEncryptPasswd passwd = Ret (ks, e) \<and> length e = 8
     \<and> VncDecryptPasswd ks e = Ret (ds, take 8 passwd @ replicate (8 - length passwd) (CHR 0x00), True)
     \<and> deskey s_fixedkey DE1 = Ret ds \<and> des ds e (replicate 8 0) = Ret (clipped (to_bytes passwd))"
proof -
  obtain ks ds e where k: "deskey s_fixedkey EN0 = Ret ks" "deskey s_fixedkey DE1 = Ret ds"
      "des ks (clipped (to_bytes passwd)) (replicate 8 0) = Ret e" "length e = 8" "des ds e (replicate 8 0) = Ret (clipped (to_bytes passwd))"
    using des_undo [of s_fixedkey "clipped (to_bytes passwd)" "replicate 8 0" "replicate 8 0"] fixedkey_length by auto
  have "VncEncryptPasswd passwd = Ret (ks, e)"
    using k(1,3) by (auto simp: VncEncryptPasswd_def MAXPWLEN_def clipped_def Let_def)
  moreover have "VncDecryptPasswd ks e = Ret (ds, take 8 passwd @ replicate (8 - length passwd) (CHR 0x00), True)"
    using k(2,4,5) by (auto simp: VncDecryptPasswd_def clipped_def)
  ultimately show ?thesis using k by blast
qed

end
