(* ===== verification/Des_Standard.thy ===== *)
theory Des_Standard
  imports Main
begin

section \<open>The data encryption standard\<close>

text \<open>
  The cipher of FIPS 46-3 on lists of bits, as the standard writes it: bits are numbered from one, the
  most significant first, and a table of selections \<open>t\<close> picks the bits of its argument.
\<close>

definition select :: "nat list \<Rightarrow> bool list \<Rightarrow> bool list" where
  "select t x = map (\<lambda>i. x ! (i - 1)) t"

definition xor_bits :: "bool list \<Rightarrow> bool list \<Rightarrow> bool list" where
  "xor_bits = map2 (\<noteq>)"

definition IP :: "nat list" where
  "IP =
    [58, 50, 42, 34, 26, 18, 10, 2,
     60, 52, 44, 36, 28, 20, 12, 4,
     62, 54, 46, 38, 30, 22, 14, 6,
     64, 56, 48, 40, 32, 24, 16, 8,
     57, 49, 41, 33, 25, 17, 9, 1,
     59, 51, 43, 35, 27, 19, 11, 3,
     61, 53, 45, 37, 29, 21, 13, 5,
     63, 55, 47, 39, 31, 23, 15, 7]"

definition FP :: "nat list" where
  "FP =
    [40, 8, 48, 16, 56, 24, 64, 32,
     39, 7, 47, 15, 55, 23, 63, 31,
     38, 6, 46, 14, 54, 22, 62, 30,
     37, 5, 45, 13, 53, 21, 61, 29,
     36, 4, 44, 12, 52, 20, 60, 28,
     35, 3, 43, 11, 51, 19, 59, 27,
     34, 2, 42, 10, 50, 18, 58, 26,
     33, 1, 41, 9, 49, 17, 57, 25]"

definition Ebits :: "nat list" where
  "Ebits =
    [32, 1, 2, 3, 4, 5,
     4, 5, 6, 7, 8, 9,
     8, 9, 10, 11, 12, 13,
     12, 13, 14, 15, 16, 17,
     16, 17, 18, 19, 20, 21,
     20, 21, 22, 23, 24, 25,
     24, 25, 26, 27, 28, 29,
     28, 29, 30, 31, 32, 1]"

definition Pbits :: "nat list" where
  "Pbits =
    [16, 7, 20, 21, 29, 12, 28, 17,
     1, 15, 23, 26, 5, 18, 31, 10,
     2, 8, 24, 14, 32, 27, 3, 9,
     19, 13, 30, 6, 22, 11, 4, 25]"

definition PC1 :: "nat list" where
  "PC1 =
    [57, 49, 41, 33, 25, 17, 9, 1, 58, 50, 42, 34, 26, 18,
     10, 2, 59, 51, 43, 35, 27, 19, 11, 3, 60, 52, 44, 36,
     63, 55, 47, 39, 31, 23, 15, 7, 62, 54, 46, 38, 30, 22,
     14, 6, 61, 53, 45, 37, 29, 21, 13, 5, 28, 20, 12, 4]"

definition PC2 :: "nat list" where
  "PC2 =
    [14, 17, 11, 24, 1, 5, 3, 28, 15, 6, 21, 10,
     23, 19, 12, 4, 26, 8, 16, 7, 27, 20, 13, 2,
     41, 52, 31, 37, 47, 55, 30, 40, 51, 45, 33, 48,
     44, 49, 39, 56, 34, 53, 46, 42, 50, 36, 29, 32]"

definition shifts :: "nat list" where
  "shifts =
    [1, 1, 2, 2, 2, 2, 2, 2, 1, 2, 2, 2, 2, 2, 2, 1]"

definition S_boxes :: "nat list list" where
  "S_boxes =
    [[14, 4, 13, 1, 2, 15, 11, 8, 3, 10, 6, 12, 5, 9, 0, 7,
      0, 15, 7, 4, 14, 2, 13, 1, 10, 6, 12, 11, 9, 5, 3, 8,
      4, 1, 14, 8, 13, 6, 2, 11, 15, 12, 9, 7, 3, 10, 5, 0,
      15, 12, 8, 2, 4, 9, 1, 7, 5, 11, 3, 14, 10, 0, 6, 13],
     [15, 1, 8, 14, 6, 11, 3, 4, 9, 7, 2, 13, 12, 0, 5, 10,
      3, 13, 4, 7, 15, 2, 8, 14, 12, 0, 1, 10, 6, 9, 11, 5,
      0, 14, 7, 11, 10, 4, 13, 1, 5, 8, 12, 6, 9, 3, 2, 15,
      13, 8, 10, 1, 3, 15, 4, 2, 11, 6, 7, 12, 0, 5, 14, 9],
     [10, 0, 9, 14, 6, 3, 15, 5, 1, 13, 12, 7, 11, 4, 2, 8,
      13, 7, 0, 9, 3, 4, 6, 10, 2, 8, 5, 14, 12, 11, 15, 1,
      13, 6, 4, 9, 8, 15, 3, 0, 11, 1, 2, 12, 5, 10, 14, 7,
      1, 10, 13, 0, 6, 9, 8, 7, 4, 15, 14, 3, 11, 5, 2, 12],
     [7, 13, 14, 3, 0, 6, 9, 10, 1, 2, 8, 5, 11, 12, 4, 15,
      13, 8, 11, 5, 6, 15, 0, 3, 4, 7, 2, 12, 1, 10, 14, 9,
      10, 6, 9, 0, 12, 11, 7, 13, 15, 1, 3, 14, 5, 2, 8, 4,
      3, 15, 0, 6, 10, 1, 13, 8, 9, 4, 5, 11, 12, 7, 2, 14],
     [2, 12, 4, 1, 7, 10, 11, 6, 8, 5, 3, 15, 13, 0, 14, 9,
      14, 11, 2, 12, 4, 7, 13, 1, 5, 0, 15, 10, 3, 9, 8, 6,
      4, 2, 1, 11, 10, 13, 7, 8, 15, 9, 12, 5, 6, 3, 0, 14,
      11, 8, 12, 7, 1, 14, 2, 13, 6, 15, 0, 9, 10, 4, 5, 3],
     [12, 1, 10, 15, 9, 2, 6, 8, 0, 13, 3, 4, 14, 7, 5, 11,
      10, 15, 4, 2, 7, 12, 9, 5, 6, 1, 13, 14, 0, 11, 3, 8,
      9, 14, 15, 5, 2, 8, 12, 3, 7, 0, 4, 10, 1, 13, 11, 6,
      4, 3, 2, 12, 9, 5, 15, 10, 11, 14, 1, 7, 6, 0, 8, 13],
     [4, 11, 2, 14, 15, 0, 8, 13, 3, 12, 9, 7, 5, 10, 6, 1,
      13, 0, 11, 7, 4, 9, 1, 10, 14, 3, 5, 12, 2, 15, 8, 6,
      1, 4, 11, 13, 12, 3, 7, 14, 10, 15, 6, 8, 0, 5, 9, 2,
      6, 11, 13, 8, 1, 4, 10, 7, 9, 5, 0, 15, 14, 2, 3, 12],
     [13, 2, 8, 4, 6, 15, 11, 1, 10, 9, 3, 14, 5, 0, 12, 7,
      1, 15, 13, 8, 10, 3, 7, 4, 12, 5, 6, 11, 0, 14, 9, 2,
      7, 11, 4, 1, 9, 12, 14, 2, 0, 6, 10, 13, 15, 3, 5, 8,
      2, 1, 14, 7, 4, 10, 8, 13, 15, 12, 9, 0, 3, 5, 6, 11]]"

text \<open>A selection function: the outer bits give the row, the inner bits the column.\<close>

definition number :: "bool list \<Rightarrow> nat" where
  "number = foldl (\<lambda>n b. 2 * n + of_bool b) 0"

definition nibble :: "nat \<Rightarrow> bool list" where
  "nibble n = [bit n 3, bit n 2, bit n 1, bit n 0]"

definition S_value :: "nat \<Rightarrow> bool list \<Rightarrow> nat" where
  "S_value k b = S_boxes ! k ! (16 * number [b ! 0, b ! 5] + number [b ! 1, b ! 2, b ! 3, b ! 4])"

definition cipher_function :: "bool list \<Rightarrow> bool list \<Rightarrow> bool list" where
  "cipher_function R K =
     select Pbits (concat (map (\<lambda>k. nibble (S_value k (take 6 (drop (6 * k) (xor_bits (select Ebits R) K))))) [0..<8]))"

definition key_schedule :: "bool list \<Rightarrow> nat \<Rightarrow> bool list" where
  "key_schedule key i =
     (let cd = select PC1 key; n = sum_list (take (i + 1) shifts)
      in select PC2 (rotate n (take 28 cd) @ rotate n (drop 28 cd)))"

definition DES :: "bool list \<Rightarrow> bool list \<Rightarrow> bool list" where
  "DES key block =
     (let x = select IP block;
          (L, R) = fold (\<lambda>i (L, R). (R, xor_bits L (cipher_function R (key_schedule key i)))) [0..<16] (take 32 x, drop 32 x)
      in select FP (R @ L))"

lemma length_select [simp]: "length (select t x) = length t"
  by (simp add: select_def)

lemma number_acc: "foldl (\<lambda>n b. 2 * n + of_bool b) a bs = a * 2 ^ length bs + number bs" for a :: nat
proof (induction bs arbitrary: a)
  case (Cons b bs)
  show ?case using Cons [of "2 * a + of_bool b"] Cons [of "of_bool b"] by (simp add: number_def algebra_simps)
qed (simp add: number_def)

lemma number_cons: "number [] = 0" "number (b # bs) = of_bool b * 2 ^ length bs + number bs"
  using number_acc [of "of_bool b" bs] by (simp_all add: number_def)

lemma number_horner: "number bs = horner_sum of_bool 2 (rev bs)"
  by (induction bs) (simp_all add: number_cons horner_sum_append algebra_simps)

text \<open>The permutations undo each other.\<close>

lemma table_lengths [simp]: "length IP = 64" "length FP = 64" "length Pbits = 32"
  by (simp_all add: IP_def FP_def Pbits_def)

lemma IP_FP: "length x = 64 \<Longrightarrow> select IP (select FP x) = x"
proof -
  have "\<forall>i \<in> set IP. i - 1 < length FP" by (simp add: FP_def IP_def)
  then have "select IP (select FP x) = map (\<lambda>i. x ! (i - 1)) (map (\<lambda>i. FP ! (i - 1)) IP)" by (simp add: select_def)
  also have "map (\<lambda>i. FP ! (i - 1)) IP = [1..<65]" by (simp add: FP_def IP_def upt_rec)
  finally show "length x = 64 \<Longrightarrow> select IP (select FP x) = x"
    by (intro nth_equalityI) (simp_all del: upt_rec_numeral)
qed

lemma FP_IP: "length x = 64 \<Longrightarrow> select FP (select IP x) = x"
proof -
  have "\<forall>i \<in> set FP. i - 1 < length IP" by (simp add: FP_def IP_def)
  then have "select FP (select IP x) = map (\<lambda>i. x ! (i - 1)) (map (\<lambda>i. IP ! (i - 1)) FP)" by (simp add: select_def)
  also have "map (\<lambda>i. IP ! (i - 1)) FP = [1..<65]" by (simp add: FP_def IP_def upt_rec)
  finally show "length x = 64 \<Longrightarrow> select FP (select IP x) = x"
    by (intro nth_equalityI) (simp_all del: upt_rec_numeral)
qed

end
