(* ===== verification/Block_Modes.thy ===== *)
theory Block_Modes
  imports Wire Des_Standard
begin

section \<open>Block ciphers and their modes\<close>

text \<open>
  The interface of a block cipher, as the locale \<open>block_cipher\<close>, and the two modes the package \<open>endec\<close>
  uses over it: block by block (a loop of the package), and chained (\<^verbatim>\<open>cipher.NewCBCEncrypter\<close> and
  \<^verbatim>\<open>NewCBCDecrypter\<close> of the library). The block cipher of \<^verbatim>\<open>crypto/des\<close> is the standard one, on bytes.
\<close>

fun ecb :: "nat \<Rightarrow> (bytes \<Rightarrow> bytes) \<Rightarrow> nat \<Rightarrow> bytes \<Rightarrow> bytes" where
  "ecb bs f 0 src = []"
| "ecb bs f (Suc n) src = f (take bs src) @ ecb bs f n (drop bs src)"

definition xor_block :: "bytes \<Rightarrow> bytes \<Rightarrow> bytes" where
  "xor_block = map2 (\<lambda>a b. a XOR b)"

fun cbc_encrypt :: "nat \<Rightarrow> (bytes \<Rightarrow> bytes) \<Rightarrow> nat \<Rightarrow> bytes \<Rightarrow> bytes \<Rightarrow> bytes" where
  "cbc_encrypt bs e 0 iv src = []"
| "cbc_encrypt bs e (Suc n) iv src =
     (let c = e (xor_block (take bs src) iv) in c @ cbc_encrypt bs e n c (drop bs src))"

fun cbc_decrypt :: "nat \<Rightarrow> (bytes \<Rightarrow> bytes) \<Rightarrow> nat \<Rightarrow> bytes \<Rightarrow> bytes \<Rightarrow> bytes" where
  "cbc_decrypt bs d 0 iv src = []"
| "cbc_decrypt bs d (Suc n) iv src =
     xor_block (d (take bs src)) iv @ cbc_decrypt bs d n (take bs src) (drop bs src)"

lemma length_xor_block [simp]: "length (xor_block a b) = min (length a) (length b)"
  by (simp add: xor_block_def)

lemma xor_block_twice: "length a = length b \<Longrightarrow> xor_block (xor_block a b) b = a"
  by (induction a b rule: list_induct2) (simp_all add: xor_block_def xor.assoc)

locale block_cipher =
  fixes bs :: nat and enc :: "bytes \<Rightarrow> bytes" and dec :: "bytes \<Rightarrow> bytes"
  assumes block_size: "0 < bs"
    and enc_length: "length b = bs \<Longrightarrow> length (enc b) = bs"
    and dec_length: "length b = bs \<Longrightarrow> length (dec b) = bs"
    and dec_enc: "length b = bs \<Longrightarrow> dec (enc b) = b"
    and enc_dec: "length b = bs \<Longrightarrow> enc (dec b) = b"
begin

lemma ecb_length: "length src = n * bs \<Longrightarrow> length (ecb bs enc n src) = n * bs \<and> length (ecb bs dec n src) = n * bs"
  by (induction n arbitrary: src) (simp_all add: enc_length dec_length)

lemma ecb_dec_enc: "length src = n * bs \<Longrightarrow> ecb bs dec n (ecb bs enc n src) = src"
  by (induction n arbitrary: src) (simp_all add: enc_length dec_enc)

lemma cbc_length: "length iv = bs \<Longrightarrow> length src = n * bs \<Longrightarrow> length (cbc_encrypt bs enc n iv src) = n * bs"
  by (induction n arbitrary: iv src) (simp_all add: Let_def enc_length)

lemma cbc_dec_enc:
  "length iv = bs \<Longrightarrow> length src = n * bs \<Longrightarrow> cbc_decrypt bs dec n iv (cbc_encrypt bs enc n iv src) = src"
  by (induction n arbitrary: iv src) (simp_all add: Let_def enc_length dec_enc xor_block_twice)

end

text \<open>A cipher that uses the operations the other way round.\<close>

sublocale block_cipher \<subseteq> inverse: block_cipher bs dec enc
  by unfold_locales (simp_all add: block_size enc_length dec_length dec_enc enc_dec)

subsection \<open>The standard cipher can be undone\<close>

definition DES_inverse :: "bool list \<Rightarrow> bool list \<Rightarrow> bool list" where
  "DES_inverse key block =
     (let x = select IP block;
          (L, R) = fold (\<lambda>i (L, R). (R, xor_bits L (cipher_function R (key_schedule key i)))) (rev [0..<16]) (take 32 x, drop 32 x)
      in select FP (R @ L))"

lemma xor_bits_twice: "length a = length b \<Longrightarrow> xor_bits (xor_bits a b) b = a"
  by (induction a b rule: list_induct2) (auto simp: xor_bits_def)

lemma length_xor_bits [simp]: "length (xor_bits a b) = min (length a) (length b)"
  by (simp add: xor_bits_def)

lemma length_cipher_function [simp]: "length (cipher_function R K) = 32"
  by (simp add: cipher_function_def)

definition des_round :: "bool list \<Rightarrow> nat \<Rightarrow> bool list \<times> bool list \<Rightarrow> bool list \<times> bool list" where
  "des_round key = (\<lambda>i (L, R). (R, xor_bits L (cipher_function R (key_schedule key i))))"

definition halves :: "bool list \<times> bool list \<Rightarrow> bool" where
  "halves p \<longleftrightarrow> length (fst p) = 32 \<and> length (snd p) = 32"

lemma rounds_halves: "halves p \<Longrightarrow> halves (fold (des_round key) is p)"
  by (induction "is" arbitrary: p) (auto simp: halves_def des_round_def split: prod.split)

lemma rounds_undo:
  "halves p \<Longrightarrow> fold (des_round key) (rev is) (prod.swap (fold (des_round key) is p)) = prod.swap p"
proof (induction "is" arbitrary: p)
  case (Cons i "is")
  obtain L R where p: "p = (L, R)" by (cases p)
  have "halves (des_round key i p)" using Cons.prems p by (simp add: halves_def des_round_def)
  then show ?case using Cons p by (simp add: halves_def des_round_def xor_bits_twice)
qed simp

definition des_with :: "bool list \<Rightarrow> nat list \<Rightarrow> bool list \<Rightarrow> bool list" where
  "des_with key is b =
     (let p = fold (des_round key) is (take 32 (select IP b), drop 32 (select IP b)) in select FP (snd p @ fst p))"

lemma DES_parts: "DES key b = des_with key [0..<16] b" "DES_inverse key b = des_with key (rev [0..<16]) b"
  unfolding DES_def DES_inverse_def des_with_def des_round_def by (simp_all add: Let_def split_beta del: upt_rec_numeral)

lemma des_with_undo:
  assumes "length b = 64"
  shows "des_with key (rev is) (des_with key is b) = b \<and> length (des_with key is b) = 64"
proof -
  let ?p = "(take 32 (select IP b), drop 32 (select IP b))"
  have h: "halves ?p" by (simp add: halves_def)
  obtain L R where p: "fold (des_round key) is ?p = (L, R)" by fastforce
  have l: "length L = 32" "length R = 32" using rounds_halves [OF h, of key "is"] p by (simp_all add: halves_def)
  have b: "des_with key is b = select FP (R @ L)" by (simp add: des_with_def p)
  then have ip: "select IP (des_with key is b) = R @ L" using l by (simp add: IP_FP)
  then have "des_with key (rev is) (des_with key is b) = select FP (snd (prod.swap ?p) @ fst (prod.swap ?p))"
    using rounds_undo [OF h, of key "is"] p l by (simp add: des_with_def [of key "rev is"] ip)
  then show ?thesis using FP_IP [OF assms(1)] b by simp
qed

lemma DES_inverse_DES: "length b = 64 \<Longrightarrow> DES_inverse key (DES key b) = b \<and> length (DES key b) = 64"
  unfolding DES_parts by (rule des_with_undo)

lemma DES_DES_inverse: "length b = 64 \<Longrightarrow> DES key (DES_inverse key b) = b \<and> length (DES_inverse key b) = 64"
  using des_with_undo [of b key "rev [0..<16]"] unfolding DES_parts by (simp del: upt_rec_numeral)

subsection \<open>Bytes\<close>

definition block_bits :: "bytes \<Rightarrow> bool list" where
  "block_bits b = concat (map (\<lambda>w. map (\<lambda>i. bit w (7 - i)) [0..<8]) b)"

fun bytes_of_bits :: "nat \<Rightarrow> bool list \<Rightarrow> bytes" where
  "bytes_of_bits 0 bs = []"
| "bytes_of_bits (Suc n) bs = word_of_nat (number (take 8 bs)) # bytes_of_bits n (drop 8 bs)"

definition des_encrypt :: "bytes \<Rightarrow> bytes \<Rightarrow> bytes" where
  "des_encrypt key b = bytes_of_bits 8 (DES (block_bits key) (block_bits b))"

definition des_decrypt :: "bytes \<Rightarrow> bytes \<Rightarrow> bytes" where
  "des_decrypt key b = bytes_of_bits 8 (DES_inverse (block_bits key) (block_bits b))"

lemma length_block_bits [simp]: "length (block_bits b) = 8 * length b"
  by (induction b) (simp_all add: block_bits_def)

lemma length_bytes_of_bits [simp]: "length (bytes_of_bits n bs) = n"
  by (induction n arbitrary: bs) simp_all

lemma byte_bits_number: "length bs = 8 \<Longrightarrow> map (\<lambda>i. bit (word_of_nat (number bs) :: 8 word) (7 - i)) [0..<8] = bs"
proof -
  assume l: "length bs = 8"
  have "(word_of_nat (number bs) :: 8 word) = horner_sum of_bool 2 (rev bs)"
    unfolding number_horner by (simp add: horner_sum_eq_sum)
  then show ?thesis using l by (intro nth_equalityI) (auto simp: bit_horner_sum_bit_word_iff rev_nth simp del: upt_rec_numeral)
qed

lemma block_bits_of_bits: "length bs = 8 * n \<Longrightarrow> block_bits (bytes_of_bits n bs) = bs"
proof (induction n arbitrary: bs)
  case (Suc n)
  then have "block_bits (bytes_of_bits n (drop 8 bs)) = drop 8 bs" by simp
  moreover have "map (\<lambda>i. bit (word_of_nat (number (take 8 bs)) :: 8 word) (7 - i)) [0..<8] = take 8 bs"
    using Suc.prems by (intro byte_bits_number) simp
  ultimately show ?case by (simp add: block_bits_def del: upt_rec_numeral)
qed (simp add: block_bits_def)

lemma block_bits_inj: "length a = length b \<Longrightarrow> block_bits a = block_bits b \<Longrightarrow> a = b"
proof (induction a b rule: list_induct2)
  case (Cons v a w b)
  have e: "map (\<lambda>i. bit v (7 - i)) [0..<8] = map (\<lambda>i. bit w (7 - i)) [0..<8]" "block_bits a = block_bits b"
    using Cons.prems by (simp_all add: block_bits_def del: upt_rec_numeral)
  have "v = w"
  proof (rule bit_word_eqI)
    fix n assume "n < LENGTH(8)"
    then have "7 - n < 8" "7 - (7 - n) = n" by auto
    then show "bit v n = bit w n" using arg_cong [OF e(1), of "\<lambda>l. l ! (7 - n)"] by (simp del: upt_rec_numeral)
  qed
  then show ?case using Cons e by simp
qed simp

lemma bits_of_block: "bytes_of_bits (length b) (block_bits b) = b"
  by (rule block_bits_inj) (simp_all add: block_bits_of_bits)

lemma des_decrypt_encrypt:
  assumes "length b = 8"
  shows "des_decrypt key (des_encrypt key b) = b" "des_encrypt key (des_decrypt key b) = b"
  using DES_inverse_DES [of "block_bits b" "block_bits key"] DES_DES_inverse [of "block_bits b" "block_bits key"]
    bits_of_block [of b] assms
  by (simp_all add: des_decrypt_def des_encrypt_def block_bits_of_bits)

interpretation des: block_cipher 8 "des_encrypt key" "des_decrypt key" for key
  by unfold_locales (simp_all add: des_decrypt_encrypt, simp_all add: des_encrypt_def des_decrypt_def)

end
