(* ===== verification/Vnc_Standard.thy ===== *)
theory Vnc_Standard
  imports Vnc_Passwd Block_Modes
begin

section \<open>Package vncpasswd: the cipher is the standard one\<close>

text \<open>
  The cipher of the package keeps the two halves rotated by one bit and joins substitution and
  permutation in its tables; here it is shown to be the standard cipher, for the key whose bytes
  have their bits in reverse. \<open>bits32\<close> lists the bits of a word, the most significant first.
\<close>

subsection \<open>The initial permutation\<close>

lemma bit_swap:
  "i < 32 \<Longrightarrow> bit (fst (swap_bits n m p)) i = (if n \<le> i \<and> bit m (i - n) then bit (snd p) (i - n) else bit (fst p) i)"
  "i < 32 \<Longrightarrow> bit (snd (swap_bits n m p)) i = (if bit m i then n + i < 32 \<and> bit (fst p) (n + i) else bit (snd p) i)"
  by (auto simp: swap_bits_def Let_def bit_simps dest: bit_imp_le_length)

definition bits32 :: "w32 \<Rightarrow> bool list" where
  "bits32 w = map (\<lambda>i. bit w (31 - i)) [0..<32]"

lemma initial_parts:
  "initial_perm p = (let q1 = swap_bits 4 0x0f0f0f0f p; q2 = swap_bits 16 0x0000ffff q1;
     q3 = swap_bits 2 0x33333333 (prod.swap q2); q4 = swap_bits 8 0x00ff00ff q3;
     q5 = swap_bits 0 0xaaaaaaaa (snd q4, rol1 (fst q4)) in (rol1 (fst q5), snd q5))"
  unfolding initial_perm_def rol1_def [symmetric] by (simp add: Let_def split_beta prod.swap_def)

lemma initial_IP:
  "bits32 (ror1 (fst (initial_perm (a, b)))) @ bits32 (ror1 (snd (initial_perm (a, b)))) = select IP (bits32 a @ bits32 b)"
proof -
  have n: "(bits32 a @ bits32 b) ! j = (if j < 32 then bit a (31 - j) else bit b (63 - j))" if "j < 64" for j
    using that by (cases "j < 32") (auto simp: bits32_def nth_append)
  have "select IP (bits32 a @ bits32 b) = map (\<lambda>i. if i \<le> 32 then bit a (32 - i) else bit b (64 - i)) IP"
    by (auto simp: select_def IP_def n)
  then show ?thesis
    by (simp add: IP_def bits32_def upt_rec initial_parts Let_def bit_swap bit_rol1 bit_ror1)
qed

subsection \<open>Selection functions\<close>

definition spread :: "nat \<Rightarrow> nat \<Rightarrow> nat \<Rightarrow> nat \<Rightarrow> nat \<Rightarrow> w32" where
  "spread p0 p1 p2 p3 s = (if bit s 3 then push_bit p0 1 else 0) OR (if bit s 2 then push_bit p1 1 else 0)
     OR (if bit s 1 then push_bit p2 1 else 0) OR (if bit s 0 then push_bit p3 1 else 0)"

definition sv :: "nat \<Rightarrow> nat \<Rightarrow> nat" where
  "sv k v = S_boxes ! k ! (16 * (2 * (v div 32) + v mod 2) + v div 2 mod 16)"

lemma SP_spread:
  "SP1 = map (\<lambda>v. spread 24 16 10 2 (sv 0 v)) [0..<64]" "SP2 = map (\<lambda>v. spread 20 5 31 15 (sv 1 v)) [0..<64]"
  "SP3 = map (\<lambda>v. spread 9 17 3 27 (sv 2 v)) [0..<64]" "SP4 = map (\<lambda>v. spread 7 13 23 0 (sv 3 v)) [0..<64]"
  "SP5 = map (\<lambda>v. spread 25 19 8 30 (sv 4 v)) [0..<64]" "SP6 = map (\<lambda>v. spread 29 4 22 14 (sv 5 v)) [0..<64]"
  "SP7 = map (\<lambda>v. spread 1 21 11 26 (sv 6 v)) [0..<64]" "SP8 = map (\<lambda>v. spread 28 6 18 12 (sv 7 v)) [0..<64]"
  by (simp_all add: upt_rec sv_def S_boxes_def spread_def bit_Suc_0_iff SP1_def SP2_def SP3_def SP4_def SP5_def SP6_def SP7_def SP8_def)

definition six_list :: "w32 \<Rightarrow> nat \<Rightarrow> bool list" where
  "six_list w n = [bit w (n + 5), bit w (n + 4), bit w (n + 3), bit w (n + 2), bit w (n + 1), bit w n]"

lemma six_number: "six w n = number (six_list w n)"
proof -
  have m: "(0x3f :: w32) = mask 6" by (simp add: mask_eq_exp_minus_1)
  have "six w n = take_bit 6 (unat (drop_bit n w))"
    unfolding six_def m by (simp add: take_bit_eq_mask [symmetric] unsigned_take_bit_eq)
  also have "\<dots> = horner_sum of_bool 2 (map (bit (unat (drop_bit n w))) [0..<6])"
    by (simp add: horner_sum_bit_eq_take_bit)
  also have "\<dots> = number (six_list w n)"
    by (simp add: upt_rec six_list_def number_cons bit_simps) (simp add: numeral_eq_Suc)
  finally show ?thesis .
qed

lemma sv_value: "sv k (number [a, b, c, d, e, f]) = S_value k [a, b, c, d, e, f]"
  unfolding sv_def S_value_def
  by (cases a; cases b; cases c; cases d; cases e; cases f) (simp_all add: number_cons)


definition key48 :: "w32 \<Rightarrow> w32 \<Rightarrow> bool list" where
  "key48 k0 k1 = six_list k0 24 @ six_list k1 24 @ six_list k0 16 @ six_list k1 16 @ six_list k0 8 @ six_list k1 8
     @ six_list k0 0 @ six_list k1 0"

abbreviation ror4 :: "w32 \<Rightarrow> w32" where
  "ror4 x \<equiv> push_bit 28 x OR drop_bit 4 x"

lemma bit_ror4: "i < 32 \<Longrightarrow> bit (ror4 x) i = bit x (if i < 28 then 4 + i else i - 28)"
  by (auto simp: bit_simps dest: bit_imp_le_length)

lemma select_E:
  "select Ebits (bits32 (ror1 x)) = map (\<lambda>i. bit x (if i = 32 then 1 else if i = 1 then 0 else 33 - i)) Ebits"
proof -
  have "bits32 (ror1 x) ! j = bit x (if j = 31 then 1 else if j = 0 then 0 else 32 - j)" if "j < 32" for j
  proof -
    have "Suc (31 - j) = 32 - j" using that by simp
    then show ?thesis using that by (auto simp: bits32_def bit_ror1)
  qed
  then have "bits32 (ror1 x) ! (i - 1) = bit x (if i = 32 then 1 else if i = 1 then 0 else 33 - i)" if "1 \<le> i" "i \<le> 32" for i
    using that by auto
  moreover have "\<forall>i \<in> set Ebits. 1 \<le> i \<and> i \<le> 32" by (simp add: Ebits_def)
  ultimately show ?thesis unfolding select_def by (intro map_cong) blast+
qed

lemma expanded:
  "xor_bits (select Ebits (bits32 (ror1 x))) (key48 k0 k1) =
     key48 (ror4 x XOR k0) (x XOR k1)"
  unfolding select_E by (simp add: Ebits_def xor_bits_def key48_def six_list_def bit_xor_iff bit_ror4) (simp add: numeral_2_eq_2)


lemma six_value: "six w n < 64" "sv k (six w n) = S_value k (six_list w n)"
proof -
  show "six w n < 64" unfolding six_number six_list_def by (simp add: number_cons split: if_splits)
  show "sv k (six w n) = S_value k (six_list w n)" unfolding six_number six_list_def by (rule sv_value)
qed

lemma key48_groups:
  "map (\<lambda>k. nibble (S_value k (take 6 (drop (6 * k) (key48 w v))))) [0..<8] =
     [nibble (S_value 0 (six_list w 24)), nibble (S_value 1 (six_list v 24)), nibble (S_value 2 (six_list w 16)),
      nibble (S_value 3 (six_list v 16)), nibble (S_value 4 (six_list w 8)), nibble (S_value 5 (six_list v 8)),
      nibble (S_value 6 (six_list w 0)), nibble (S_value 7 (six_list v 0))]"
proof -
  have "[0..<8] = [0, 1, 2, 3, 4, 5, 6, 7 :: nat]" by (simp add: upt_rec numeral_eq_Suc)
  then show ?thesis by (simp add: key48_def six_list_def)
qed

lemma bit_spread:
  "p0 < 32 \<Longrightarrow> p1 < 32 \<Longrightarrow> p2 < 32 \<Longrightarrow> p3 < 32 \<Longrightarrow>
   bit (spread p0 p1 p2 p3 s) i \<longleftrightarrow> (i = p0 \<and> bit s 3) \<or> (i = p1 \<and> bit s 2) \<or> (i = p2 \<and> bit s 1) \<or> (i = p3 \<and> bit s 0)"
  by (auto simp: spread_def bit_simps)

lemma fval_cipher:
  "bits32 (ror1 (round_fval k0 k1 x)) = cipher_function (bits32 (ror1 x)) (key48 k0 k1)"
proof -
  define w v where "w = ror4 x XOR k0" and "v = x XOR k1"
  have f: "round_fval k0 k1 x = spread 1 21 11 26 (S_value 6 (six_list w 0)) OR spread 25 19 8 30 (S_value 4 (six_list w 8))
      OR spread 9 17 3 27 (S_value 2 (six_list w 16)) OR spread 24 16 10 2 (S_value 0 (six_list w 24))
      OR spread 28 6 18 12 (S_value 7 (six_list v 0)) OR spread 29 4 22 14 (S_value 5 (six_list v 8))
      OR spread 7 13 23 0 (S_value 3 (six_list v 16)) OR spread 20 5 31 15 (S_value 1 (six_list v 24))"
    by (simp add: round_fval_def Let_def SP_spread six_value w_def v_def or.assoc)
  have "cipher_function (bits32 (ror1 x)) (key48 k0 k1) = select Pbits (concat
     [nibble (S_value 0 (six_list w 24)), nibble (S_value 1 (six_list v 24)), nibble (S_value 2 (six_list w 16)),
      nibble (S_value 3 (six_list v 16)), nibble (S_value 4 (six_list w 8)), nibble (S_value 5 (six_list v 8)),
      nibble (S_value 6 (six_list w 0)), nibble (S_value 7 (six_list v 0))])"
    unfolding cipher_function_def expanded w_def [symmetric] v_def [symmetric] key48_groups ..
  then show ?thesis
    by (simp add: f bits32_def upt_rec bit_ror1 bit_or_iff bit_spread select_def Pbits_def nibble_def)
qed


subsection \<open>The schedule\<close>

definition key_bits :: "bytes \<Rightarrow> bool list" where
  "key_bits key = concat (map (\<lambda>w. map (bit w) [0..<8]) key)"

lemma key_bits_nth: "l < 8 * length key \<Longrightarrow> key_bits key ! l = bit (key ! (l div 8)) (l mod 8)"
proof (induction key arbitrary: l)
  case (Cons w key)
  show ?case
  proof (cases "l < 8")
    case True
    then show ?thesis by (simp add: key_bits_def nth_append)
  next
    case False
    then obtain m where m: "l = 8 + m" using le_Suc_ex not_less by metis
    then have "l div 8 = Suc (m div 8)" "l mod 8 = m mod 8" by simp_all
    then show ?thesis using Cons m by (simp add: key_bits_def nth_append)
  qed
qed simp

lemma bytebit_bit: "m < 8 \<Longrightarrow> (w AND bytebit ! m \<noteq> 0) = bit w m"
proof -
  have "list_all (\<lambda>m. bytebit ! m = 2 ^ m) [0..<8]" by (simp add: upt_rec bytebit_def)
  then show "m < 8 \<Longrightarrow> (w AND bytebit ! m \<noteq> 0) = bit w m" by (simp add: list_all_iff and_exp_eq_0_iff_not_bit)
qed

lemma pc1_bits_select: "8 \<le> length key \<Longrightarrow> pc1_bits key = select PC1 (key_bits key)"
proof -
  assume k: "8 \<le> length key"
  have c: "PC1 = map Suc pc1" by (simp add: PC1_def pc1_def)
  have p: "select PC1 (key_bits key) = map (\<lambda>l. key_bits key ! l) pc1" unfolding select_def c by simp
  have "\<forall>l \<in> set pc1. l < 64" by (simp add: pc1_def)
  then have "\<forall>l \<in> set pc1. l < 8 * length key" using k by force
  then have "\<forall>l \<in> set pc1. (key ! (l div 8) AND bytebit ! (l mod 8) \<noteq> 0) = key_bits key ! l"
    by (simp add: key_bits_nth bytebit_bit)
  then show ?thesis unfolding p pc1_bits_def by simp
qed

lemma totrot_shifts: "i < 16 \<Longrightarrow> totrot ! i = sum_list (take (i + 1) shifts)" "i < 16 \<Longrightarrow> totrot ! i \<le> 28"
proof -
  have "totrot = map (\<lambda>i. sum_list (take (i + 1) shifts)) [0..<16]" by (simp add: upt_rec totrot_def shifts_def)
  then have "totrot ! i = map (\<lambda>i. sum_list (take (i + 1) shifts)) [0..<16] ! i" by (rule arg_cong)
  then show "i < 16 \<Longrightarrow> totrot ! i = sum_list (take (i + 1) shifts)" by simp
  have "\<forall>n \<in> set totrot. n \<le> 28" "length totrot = 16" by (simp_all add: totrot_def)
  then show "i < 16 \<Longrightarrow> totrot ! i \<le> 28" by simp
qed

lemma mod28: "n \<le> 28 \<Longrightarrow> j < 28 \<Longrightarrow> (n + j) mod 28 = (if n + j < 28 then n + j else n + j - 28)" for n j :: nat
  by (simp add: le_mod_geq)

lemma pcr_rotate:
  assumes "length c = 56" "i < 16"
  shows "pcr_bits c i = rotate (totrot ! i) (take 28 c) @ rotate (totrot ! i) (drop 28 c)"
proof (rule nth_equalityI)
  fix j assume "j < length (pcr_bits c i)"
  then have j: "j < 56" by (simp add: pcr_bits_def)
  have n: "totrot ! i \<le> 28" by (rule totrot_shifts(2) [OF assms(2)])
  show "pcr_bits c i ! j = (rotate (totrot ! i) (take 28 c) @ rotate (totrot ! i) (drop 28 c)) ! j"
  proof (cases "j < 28")
    case True
    then show ?thesis using assms mod28 [OF n True] by (simp add: pcr_bits_def nth_append nth_rotate Let_def add.commute)
  next
    case False
    then obtain m where m: "j = 28 + m" using le_Suc_ex not_less by metis
    then have "m < 28" using j by simp
    then show ?thesis using assms m mod28 [OF n, of m] by (simp add: pcr_bits_def nth_append nth_rotate Let_def ac_simps del: upt_rec_numeral)
  qed
qed (use assms in \<open>simp add: pcr_bits_def\<close>)

lemma bigbyte_exp: "j < 24 \<Longrightarrow> bigbyte ! j = 2 ^ (23 - j)"
proof -
  have "list_all (\<lambda>j. bigbyte ! j = 2 ^ (23 - j)) [0..<24]" by (simp add: upt_rec bigbyte_def)
  then show "j < 24 \<Longrightarrow> bigbyte ! j = 2 ^ (23 - j)" by (simp add: list_all_iff)
qed

lemma bit_kn_word: "b < 24 \<Longrightarrow> bit (kn_word pcr off) b = pcr ! (pc2 ! (23 - b + off))"
proof -
  have "n \<le> 24 \<Longrightarrow> bit (foldl (\<lambda>w j. if pcr ! (pc2 ! (j + off)) then w OR bigbyte ! j else w) 0 [0..<n]) b
      \<longleftrightarrow> (\<exists>j < n. pcr ! (pc2 ! (j + off)) \<and> b = 23 - j)" for n
    by (induction n) (auto simp: bit_or_iff bigbyte_exp bit_exp_iff less_Suc_eq)
  from this [of 24] show "b < 24 \<Longrightarrow> bit (kn_word pcr off) b = pcr ! (pc2 ! (23 - b + off))"
    unfolding kn_word_def by (auto simp: add.commute intro!: exI [of _ "23 - b"])
qed

lemma key48_cook:
  "key48 (cook0 a b) (cook1 a b) = map (\<lambda>i. bit a (23 - i)) [0..<24] @ map (\<lambda>i. bit b (23 - i)) [0..<24]"
  by (simp add: key48_def six_list_def cook0_def cook1_def upt_rec bit_or_iff bit_and_iff bit_push_bit_iff bit_drop_bit_eq) (simp add: numeral_2_eq_2)

lemma schedule:
  assumes "8 \<le> length key" "i < 16"
  shows "(case round_key key i of (k0, k1) \<Rightarrow> key48 k0 k1) = key_schedule (key_bits key) i"
proof -
  let ?pcr = "pcr_bits (pc1_bits key) i"
  have "map (\<lambda>i. bit (kn_word ?pcr 0) (23 - i)) [0..<24] @ map (\<lambda>i. bit (kn_word ?pcr 24) (23 - i)) [0..<24] = map (\<lambda>i. ?pcr ! i) pc2"
  proof -
    have "map (\<lambda>i. bit (kn_word ?pcr 0) (23 - i)) [0..<24] = map (\<lambda>i. ?pcr ! (pc2 ! i)) [0..<24]"
      "map (\<lambda>i. bit (kn_word ?pcr 24) (23 - i)) [0..<24] = map (\<lambda>i. ?pcr ! (pc2 ! (i + 24))) [0..<24]"
      by (simp_all add: bit_kn_word add.commute)
    then show ?thesis by (simp add: upt_rec pc2_def)
  qed
  moreover have "select PC2 ?pcr = map (\<lambda>i. ?pcr ! i) pc2" by (simp add: select_def PC2_def pc2_def)
  moreover have "?pcr = rotate (totrot ! i) (take 28 (pc1_bits key)) @ rotate (totrot ! i) (drop 28 (pc1_bits key))"
    by (rule pcr_rotate [OF _ assms(2)]) (simp add: pc1_bits_def pc1_def)
  ultimately show ?thesis
    using totrot_shifts(1) [OF assms(2)] pc1_bits_select [OF assms(1)]
    by (simp add: round_key_def Let_def key48_cook key_schedule_def)
qed


subsection \<open>The cipher\<close>

lemma bits32_xor: "bits32 (ror1 (a XOR b)) = xor_bits (bits32 (ror1 a)) (bits32 (ror1 b))"
  by (simp add: bits32_def xor_bits_def bit_ror1 bit_xor_iff upt_rec)

lemma rounds_standard:
  assumes "8 \<le> length key" "set is \<subseteq> {..<16}"
  shows "map_prod (bits32 \<circ> ror1) (bits32 \<circ> ror1) (feistel (map (round_key key) is) p) =
    fold (\<lambda>i (L, R). (R, xor_bits L (cipher_function R (key_schedule (key_bits key) i)))) is (map_prod (bits32 \<circ> ror1) (bits32 \<circ> ror1) p)"
  using assms(2)
proof (induction "is" arbitrary: p)
  case (Cons i "is")
  obtain l r k0 k1 where e: "p = (l, r)" "round_key key i = (k0, k1)" by (cases p, cases "round_key key i")
  have "key48 k0 k1 = key_schedule (key_bits key) i" using schedule [OF assms(1), of i] Cons.prems e by simp
  then have "bits32 (ror1 (l XOR round_fval k0 k1 r)) = xor_bits (bits32 (ror1 l)) (cipher_function (bits32 (ror1 r)) (key_schedule (key_bits key) i))"
    by (simp add: bits32_xor fval_cipher)
  then show ?case using Cons e by simp
qed simp

lemma desfunc_standard:
  assumes "8 \<le> length key" "deskey key EN0 = Ret ks"
  shows "(case desfunc (a, b) ks of (c, d) \<Rightarrow> bits32 c @ bits32 d) = DES (key_bits key) (bits32 a @ bits32 b)"
proof -
  have k: "pairs ks = map (round_key key) [0..<16]" using deskey_pairs [OF assms(1)] assms(2) by auto
  obtain l r where f: "feistel (map (round_key key) [0..<16]) (initial_perm (a, b)) = (l, r)" by fastforce
  obtain c d where o: "final_perm (l, r) = (c, d)" by fastforce
  obtain l0 r0 where i: "initial_perm (a, b) = (l0, r0)" by fastforce
  have "initial_perm (c, d) = (r, l)" using initial_final [of "(l, r)"] o by simp
  then have ip: "bits32 (ror1 r) @ bits32 (ror1 l) = select IP (bits32 c @ bits32 d)" using initial_IP [of c d] by simp
  have l: "length (bits32 w) = 32" for w by (simp add: bits32_def)
  have s: "select IP (bits32 a @ bits32 b) = bits32 (ror1 l0) @ bits32 (ror1 r0)" using initial_IP [of a b] i by simp
  have "fold (\<lambda>i (L, R). (R, xor_bits L (cipher_function R (key_schedule (key_bits key) i)))) [0..<16]
      (bits32 (ror1 l0), bits32 (ror1 r0)) = (bits32 (ror1 l), bits32 (ror1 r))"
    using rounds_standard [OF assms(1), of "[0..<16]" "(l0, r0)"] f i by (simp add: atLeast0LessThan del: upt_rec_numeral)
  then have "DES (key_bits key) (bits32 a @ bits32 b) = select FP (bits32 (ror1 r) @ bits32 (ror1 l))"
    unfolding DES_def s by (simp add: l del: upt_rec_numeral)
  also have "\<dots> = bits32 c @ bits32 d" unfolding ip by (rule FP_IP) (simp add: l)
  finally show ?thesis using f o i by (simp add: desfunc_def rounds_feistel k)
qed

lemma bits32_join4: "bits32 (join4 a b c d) = block_bits [a, b, c, d]"
  unfolding ff_mask by (simp add: bits32_def block_bits_def upt_rec bit_simps)

lemma scrunch_bits: "length b = 8 \<Longrightarrow> \<exists>x y. scrunch b = Ret (x, y) \<and> block_bits b = bits32 x @ bits32 y"
proof -
  assume "length b = 8"
  then obtain a0 a1 a2 a3 a4 a5 a6 a7 where b: "b = [a0, a1, a2, a3, a4, a5, a6, a7]"
    by (auto simp: length_Suc_conv numeral_eq_Suc)
  have "scrunch b = Ret (join4 a0 a1 a2 a3, join4 a4 a5 a6 a7)" using b by (simp add: scrunch_def)
  moreover have "block_bits b = bits32 (join4 a0 a1 a2 a3) @ bits32 (join4 a4 a5 a6 a7)"
    unfolding bits32_join4 b by (simp add: block_bits_def)
  ultimately show ?thesis by blast
qed

lemma des_block_standard:
  assumes "8 \<le> length key" "length b = 8"
  shows "block_bits (des_block key b) = DES (key_bits key) (block_bits b)"
proof -
  obtain ks where ks: "deskey key EN0 = Ret ks" using deskey_EN0 [OF assms(1)] by blast
  obtain x y where x: "scrunch b = Ret (x, y)" "block_bits b = bits32 x @ bits32 y" using scrunch_bits [OF assms(2)] by blast
  obtain c where c: "unscrun (desfunc (x, y) ks) (replicate 8 0) = Ret c" "length c = 8" "scrunch c = Ret (desfunc (x, y) ks)"
    using words_bytes [of "replicate 8 0" "desfunc (x, y) ks"] by auto
  obtain u v where "scrunch c = Ret (u, v)" "block_bits c = bits32 u @ bits32 v" using scrunch_bits [OF c(2)] by blast
  then have "block_bits c = DES (key_bits key) (block_bits b)"
    using desfunc_standard [OF assms(1) ks, of x y] c(3) x(2) by simp
  moreover have "des_block key b = c" using ks x(1) c(1) by (simp add: des_block_def des_def)
  ultimately show ?thesis by simp
qed

end
