(* ===== verification/Vnc_Props.thy ===== *)
theory Vnc_Props
  imports Vnc_Standard
begin

section \<open>Package vncpasswd: properties\<close>

text \<open>
  The cipher against the standard, the round trips of passwords, and what becomes of a challenge.
\<close>

text \<open>
  C17. The block cipher of the package is DES: for every key of eight bytes, encrypting a block with the
  schedule of \<open>deskey\<close> gives the block of the standard for the key with the bits of each byte in
  reverse, so that the eight combined tables, the bit exchanges and the schedule are right.
\<close>

theorem cipher_is_DES:
  assumes "length key = 8" "length b = 8"
  shows "\<exists>ks c. deskey key EN0 = Ret ks \<and> des ks b (replicate 8 0) = Ret c \<and> length c = 8
    \<and> block_bits c = DES (key_bits key) (block_bits b)"
proof -
  obtain ks where ks: "deskey key EN0 = Ret ks" using deskey_EN0 assms(1) by fastforce
  obtain c where c: "des ks b (replicate 8 0) = Ret c" "length c = 8" using des_blocks [of b "replicate 8 0"] assms(2) by auto
  moreover have "des_block key b = c" using ks c by (simp add: des_block_def)
  ultimately show ?thesis using ks des_block_standard [of key b] assms by auto
qed

theorem cipher_is_DES_witness:
  "\<exists>ks c. deskey s_fixedkey EN0 = Ret ks \<and> des ks (replicate 8 0) (replicate 8 0) = Ret c
    \<and> block_bits c = DES (key_bits s_fixedkey) (block_bits (replicate 8 0))"
  using cipher_is_DES [of s_fixedkey "replicate 8 0"] by (auto simp: s_fixedkey_def)

text \<open>
  Decryption undoes encryption, for every key of at least eight bytes and every block.
\<close>

lemma decrypt_encrypt:
  assumes "8 \<le> length key" "length b = 8" "length out = 8" "length out' = 8"
  shows "\<exists>ks ds c. deskey key EN0 = Ret ks \<and> deskey key DE1 = Ret ds \<and> des ks b out = Ret c \<and> des ds c out' = Ret b"
  using des_undo [OF assms] by blast

text \<open>
  A password comes back from its hexadecimal form cut to eight bytes or filled up with zero bytes,
  whatever key schedule was in use before.
\<close>

lemma passwd_roundtrip:
  "\<exists>ks ds h. VncEncryptPasswdToHexString passwd = Ret (ks, h) \<and> length h = 16
    \<and> VncDecryptPasswdFromHexString ks h = Ret (ds, take 8 passwd @ replicate (8 - length passwd) (CHR 0x00), True)"
proof -
  obtain ks ds e where e: "VncEncryptPasswd passwd = Ret (ks, e)" "length e = 8"
      "deskey s_fixedkey DE1 = Ret ds" "des ds e (replicate 8 0) = Ret (clipped (to_bytes passwd))"
    using Encrypt_Decrypt [of passwd] by blast
  let ?h = "map upper (EncodeToString e)"
  have h: "length ?h = 16" using e(2) by (simp add: length_Encode)
  then have "VncDecryptPasswdFromHexString ks ?h = Ret (ds, of_bytes (clipped (to_bytes passwd)), True)"
    using e(3,4) by (simp add: VncDecryptPasswdFromHexString_def Decode_Encode)
  then show ?thesis using e(1) h by (simp add: VncEncryptPasswdToHexString_def clipped_def)
qed

text \<open>
  \<open>VncEncryptBytes\<close> panics exactly when the password is more than one byte longer than the challenge
  or than eight bytes; otherwise the answer encrypts the first eight bytes of the challenge, followed
  by the encryption of eight zero bytes: the second half of a challenge is ignored.
\<close>

lemma challenge_answer:
  "map_outcome (\<lambda>(ks, answer, raw'). answer) (VncEncryptBytes cap raw passwd) =
     (if length passwd \<le> min 8 (length raw) + 1
      then Ret (des_block (passwd_key passwd) (clipped raw) @ des_block (passwd_key passwd) (replicate 8 0))
      else Panic)"
  by (rule VncEncryptBytes_exact)

text \<open>
  The padding of a challenge is written into the array of the caller when it has room: a challenge
  of sixteen bytes in an array of that size loses its second half to a password of nine bytes.
\<close>

lemma challenge_overwritten:
  assumes "length raw = 16" "length passwd = 9"
  shows "map_outcome (\<lambda>(ks, answer, raw'). raw') (VncEncryptBytes 16 raw passwd) = Ret (take 8 raw @ replicate 8 0)"
proof -
  have "VncEncryptBytes 16 raw passwd \<noteq> Panic"
    using VncEncryptBytes_exact [of 16 raw passwd] assms by (cases "VncEncryptBytes 16 raw passwd") auto
  then show ?thesis using assms
    by (auto simp: VncEncryptBytes_def pad_challenge_eq Let_def split: outcome.splits)
qed

end
