(* ===== verification/Endec_Des.thy ===== *)
theory Endec_Des
  imports Block_Modes Outcome
begin

section \<open>Package endec: triple DES\<close>

text \<open>
  \<^verbatim>\<open>endec/d3des.go\<close>. The cipher of \<^verbatim>\<open>crypto/des\<close> is the standard one; \<open>NewCipher\<close> refuses keys that are not
  eight bytes long. An error is a string, and \<open>Panic\<close> an index or a count out of range.
\<close>

type_synonym result = "(string + bytes) outcome"

definition PKCS5Padding :: "bytes \<Rightarrow> int \<Rightarrow> bytes outcome" where
  "PKCS5Padding ciphertext blockSize =
     (if blockSize \<le> 0 then Panic
      else let padding = blockSize - int (length ciphertext) mod blockSize
           in Ret (ciphertext @ replicate (nat padding) (word_of_int padding)))"

definition PKCS5Unpadding :: "bytes \<Rightarrow> bytes outcome" where
  "PKCS5Unpadding origData =
     (if origData = [] then Panic
      else let unpadding = unat (last origData)
           in if unpadding > length origData then Panic else Ret (take (length origData - unpadding) origData))"

definition NewCipher :: "bytes \<Rightarrow> string + bytes" where
  "NewCipher key = (if length key = 8 then Inr key else Inl ''crypto/des: invalid key size'')"

definition bind_result :: "result \<Rightarrow> (bytes \<Rightarrow> result) \<Rightarrow> result" where
  "bind_result r f = (case r of Panic \<Rightarrow> Panic | Ret (Inl e) \<Rightarrow> Ret (Inl e) | Ret (Inr b) \<Rightarrow> f b)"

definition encrypt :: "bytes \<Rightarrow> bytes \<Rightarrow> result" where
  "encrypt origData key =
     (if length origData < 1 \<or> length key < 1 then Ret (Inl ''wrong data or key'')
      else case NewCipher key of
             Inl e \<Rightarrow> Ret (Inl e)
           | Inr k \<Rightarrow>
               if length origData mod 8 \<noteq> 0 then Ret (Inl ''wrong padding'')
               else Ret (Inr (ecb 8 (des_encrypt k) (length origData div 8) origData)))"

definition decrypt :: "bytes \<Rightarrow> bytes \<Rightarrow> result" where
  "decrypt crypted key =
     (if length crypted < 1 \<or> length key < 1 then Ret (Inl ''wrong data or key'')
      else case NewCipher key of
             Inl e \<Rightarrow> Ret (Inl e)
           | Inr k \<Rightarrow>
               if length crypted mod 8 \<noteq> 0 then Ret (Inl ''wrong crypted size'')
               else Ret (Inr (ecb 8 (des_decrypt k) (length crypted div 8) crypted)))"

definition tkey :: "bytes \<Rightarrow> bytes" where
  "tkey key = take 24 key @ replicate (24 - length key) 0"

definition TripleEcbDesEncrypt :: "bytes \<Rightarrow> bytes \<Rightarrow> result" where
  "TripleEcbDesEncrypt origData key =
     (let k1 = take 8 (tkey key); k2 = take 8 (drop 8 (tkey key)); k3 = drop 16 (tkey key)
      in case NewCipher k1 of
           Inl e \<Rightarrow> Ret (Inl e)
         | Inr _ \<Rightarrow>
             (case PKCS5Padding origData 8 of
                Panic \<Rightarrow> Panic
              | Ret padded \<Rightarrow>
                  bind_result (encrypt padded k1) (\<lambda>buf1.
                  bind_result (decrypt buf1 k2) (\<lambda>buf2.
                  encrypt buf2 k3))))"

definition TripleEcbDesDecrypt :: "bytes \<Rightarrow> bytes \<Rightarrow> result" where
  "TripleEcbDesDecrypt crypted key =
     (let k1 = take 8 (tkey key); k2 = take 8 (drop 8 (tkey key)); k3 = drop 16 (tkey key)
      in bind_result (decrypt crypted k3) (\<lambda>buf1.
         bind_result (encrypt buf1 k2) (\<lambda>buf2.
         bind_result (decrypt buf2 k1) (\<lambda>out.
         case PKCS5Unpadding out of Panic \<Rightarrow> Panic | Ret b \<Rightarrow> Ret (Inr b)))))"

text \<open>
  \<open>TripleDesEncrypt\<close> runs the decrypter of the chained mode, with the first eight bytes of the key as
  initial vector; \<open>TripleDesDecrypt\<close> returns nil without an error.
\<close>

definition tdes_decrypt :: "bytes \<Rightarrow> bytes \<Rightarrow> bytes" where
  "tdes_decrypt key b = des_decrypt (take 8 key) (des_encrypt (take 8 (drop 8 key)) (des_decrypt (drop 16 key) b))"

definition tdes_encrypt :: "bytes \<Rightarrow> bytes \<Rightarrow> bytes" where
  "tdes_encrypt key b = des_encrypt (drop 16 key) (des_decrypt (take 8 (drop 8 key)) (des_encrypt (take 8 key) b))"

definition TripleDesEncrypt :: "bytes \<Rightarrow> bytes \<Rightarrow> result" where
  "TripleDesEncrypt crypted key0 =
     (let key = (if length key0 < 24 then key0 @ replicate (24 - length key0) 0 else key0)
      in if length key \<noteq> 24 then Ret (Inl ''crypto/des: invalid key size'')
         else if length crypted mod 8 \<noteq> 0 then Panic
         else Ret (Inr (cbc_decrypt 8 (tdes_decrypt key) (length crypted div 8) (take 8 key) crypted)))"

definition TripleDesDecrypt :: "bytes \<Rightarrow> bytes \<Rightarrow> result" where
  "TripleDesDecrypt crypted key = Ret (Inr [])"

subsection \<open>Laws\<close>

lemma PKCS5_pad:
  obtains k where "k \<in> {1..8}" "PKCS5Padding b 8 = Ret (b @ replicate k (word_of_nat k))" "(length b + k) mod 8 = 0"
proof -
  let ?k = "8 - length b mod 8"
  have r: "length b mod 8 < 8" "length b = 8 * (length b div 8) + length b mod 8" by simp_all
  then have "8 - int (length b) mod 8 = int ?k" by (simp add: of_nat_diff zmod_int)
  then have p: "PKCS5Padding b 8 = Ret (b @ replicate ?k (word_of_nat ?k))" by (simp add: PKCS5Padding_def)
  have "(n + (8 - n mod 8)) mod 8 = 0" for n :: nat by presburger
  then have m: "(length b + ?k) mod 8 = 0" .
  have "?k \<in> {1..8}" using r(1) by (simp add: Suc_le_eq)
  then show thesis using p m by (rule that)
qed

lemma PKCS5_unpad: "k \<in> {1..8} \<Longrightarrow> PKCS5Unpadding (b @ replicate k (word_of_nat k)) = Ret b"
proof -
  assume k: "k \<in> {1..8}"
  then have "unat (word_of_nat k :: 8 word) = k" by (simp add: unat_of_nat take_bit_nat_eq_self)
  then show ?thesis using k by (cases k) (auto simp: PKCS5Unpadding_def)
qed

lemma blocks: "length b mod 8 = 0 \<Longrightarrow> length b = length b div 8 * 8" for b :: bytes
  by auto

lemma encrypt_ok:
  "length k = 8 \<Longrightarrow> b \<noteq> [] \<Longrightarrow> length b mod 8 = 0 \<Longrightarrow>
   encrypt b k = Ret (Inr (ecb 8 (des_encrypt k) (length b div 8) b)) \<and> length (ecb 8 (des_encrypt k) (length b div 8) b) = length b"
  using conjunct1 [OF des.ecb_length [OF blocks [of b]]] by (auto simp: encrypt_def NewCipher_def)

lemma decrypt_ok:
  "length k = 8 \<Longrightarrow> b \<noteq> [] \<Longrightarrow> length b mod 8 = 0 \<Longrightarrow>
   decrypt b k = Ret (Inr (ecb 8 (des_decrypt k) (length b div 8) b)) \<and> length (ecb 8 (des_decrypt k) (length b div 8) b) = length b"
  using conjunct2 [OF des.ecb_length [OF blocks [of b]]] by (auto simp: decrypt_def NewCipher_def)

lemma pass_decrypt_encrypt:
  assumes "length k = 8" "b \<noteq> []" "length b mod 8 = 0"
  shows "\<exists>c. encrypt b k = Ret (Inr c) \<and> length c = length b \<and> decrypt c k = Ret (Inr b)"
  using encrypt_ok [OF assms] decrypt_ok [OF assms(1), of "ecb 8 (des_encrypt k) (length b div 8) b"] assms(2,3)
    des.ecb_dec_enc [OF blocks [OF assms(3)]] by (metis length_0_conv)

lemma pass_encrypt_decrypt:
  assumes "length k = 8" "b \<noteq> []" "length b mod 8 = 0"
  shows "\<exists>c. decrypt b k = Ret (Inr c) \<and> length c = length b \<and> encrypt c k = Ret (Inr b)"
  using decrypt_ok [OF assms] encrypt_ok [OF assms(1), of "ecb 8 (des_decrypt k) (length b div 8) b"] assms(2,3)
    des.inverse.ecb_dec_enc [OF blocks [OF assms(3)]] by (metis length_0_conv)

lemma tkey_parts: "length (take 8 (tkey key)) = 8" "length (take 8 (drop 8 (tkey key))) = 8" "length (drop 16 (tkey key)) = 8"
  by (simp_all add: tkey_def)

lemma triple_roundtrip:
  "\<exists>c. TripleEcbDesEncrypt b key = Ret (Inr c) \<and> length c mod 8 = 0 \<and> length b < length c \<and> TripleEcbDesDecrypt c key = Ret (Inr b)"
proof -
  obtain k where k: "k \<in> {1..8}" "PKCS5Padding b 8 = Ret (b @ replicate k (word_of_nat k))" "(length b + k) mod 8 = 0"
    by (rule PKCS5_pad)
  let ?p = "b @ replicate k (word_of_nat k)"
  have p: "?p \<noteq> []" "length ?p mod 8 = 0" using k by auto
  obtain c1 where 1: "encrypt ?p (take 8 (tkey key)) = Ret (Inr c1)" "length c1 = length ?p" "decrypt c1 (take 8 (tkey key)) = Ret (Inr ?p)"
    using pass_decrypt_encrypt [OF tkey_parts(1) p] by blast
  have n1: "c1 \<noteq> []" using 1(2) k(1) by auto
  have m1: "length c1 mod 8 = 0" using 1(2) p(2) by (simp only:)
  obtain c2 where 2: "decrypt c1 (take 8 (drop 8 (tkey key))) = Ret (Inr c2)" "length c2 = length c1" "encrypt c2 (take 8 (drop 8 (tkey key))) = Ret (Inr c1)"
    using pass_encrypt_decrypt [OF tkey_parts(2) n1 m1] by blast
  have n2: "c2 \<noteq> []" "length c2 mod 8 = 0" using 2(2) n1 m1 by (cases c2; simp)+
  obtain c3 where 3: "encrypt c2 (drop 16 (tkey key)) = Ret (Inr c3)" "length c3 = length c2" "decrypt c3 (drop 16 (tkey key)) = Ret (Inr c2)"
    using pass_decrypt_encrypt [OF tkey_parts(3) n2] by blast
  have "TripleEcbDesEncrypt b key = Ret (Inr c3)"
    using 1(1) 2(1) 3(1) k(2) tkey_parts(1) [of key] by (simp add: TripleEcbDesEncrypt_def bind_result_def NewCipher_def Let_def)
  moreover have "TripleEcbDesDecrypt c3 key = Ret (Inr b)"
    using 1(3) 2(3) 3(3) PKCS5_unpad [OF k(1)] by (simp add: TripleEcbDesDecrypt_def bind_result_def Let_def)
  ultimately show ?thesis using 1(2) 2(2) 3(2) k(1) n2(2) by auto
qed

end
