(* ===== verification/Base64.thy ===== *)
theory Base64
  imports Wire Go_Prelude
begin

section \<open>Base64\<close>

text \<open>
  What the package \<open>endec\<close> uses of \<^verbatim>\<open>encoding/base64\<close>: the standard alphabet, without padding
  (\<open>RawStdEncoding\<close>) and with it (\<open>StdEncoding\<close>). Decoding skips carriage returns and line feeds, does not
  check the unused bits of the last character, and reports any other fault as an error (\<open>None\<close>).
\<close>

definition alphabet :: string where
  "alphabet = ''ABCDEFGHIJKLMNOPQRSTUVWXYZabcdefghijklmnopqrstuvwxyz0123456789+/''"

definition code64 :: "nat \<Rightarrow> char" where
  "code64 n = alphabet ! n"

definition value64 :: "char \<Rightarrow> nat option" where
  "value64 c =
     (let n = byte c
      in if 65 \<le> n \<and> n \<le> 90 then Some (n - 65)
         else if 97 \<le> n \<and> n \<le> 122 then Some (n - 71)
         else if 48 \<le> n \<and> n \<le> 57 then Some (n + 4)
         else if n = 43 then Some 62
         else if n = 47 then Some 63
         else None)"

definition pad_text :: "bool \<Rightarrow> nat \<Rightarrow> string" where
  "pad_text std n = (if std then replicate n (CHR ''='') else [])"

fun encode64 :: "bool \<Rightarrow> nat list \<Rightarrow> string" where
  "encode64 std [] = []"
| "encode64 std [a] = [code64 (a div 4), code64 (a mod 4 * 16)] @ pad_text std 2"
| "encode64 std [a, b] = [code64 (a div 4), code64 (a mod 4 * 16 + b div 16), code64 (b mod 16 * 4)] @ pad_text std 1"
| "encode64 std (a # b # c # r) =
     [code64 (a div 4), code64 (a mod 4 * 16 + b div 16), code64 (b mod 16 * 4 + c div 64), code64 (c mod 64)] @ encode64 std r"

text \<open>The values of the characters of a group give its bytes.\<close>

definition group_bytes :: "nat list \<Rightarrow> nat list" where
  "group_bytes vs = (case vs of
       [x, y] \<Rightarrow> [x * 4 + y div 16]
     | [x, y, z] \<Rightarrow> [x * 4 + y div 16, y mod 16 * 16 + z div 4]
     | [x, y, z, w] \<Rightarrow> [x * 4 + y div 16, y mod 16 * 16 + z div 4, z mod 4 * 64 + w]
     | _ \<Rightarrow> [])"

definition group :: "string \<Rightarrow> nat list option" where
  "group cs = map_option group_bytes (those (map value64 cs))"

fun decode64 :: "bool \<Rightarrow> string \<Rightarrow> nat list option" where
  "decode64 std [] = Some []"
| "decode64 std [x] = None"
| "decode64 std [x, y] = (if std then None else group [x, y])"
| "decode64 std [x, y, z] = (if std then None else group [x, y, z])"
| "decode64 std (x # y # z # w # r) =
     (if std \<and> z = CHR ''='' then (if w = CHR ''='' \<and> r = [] then group [x, y] else None)
      else if std \<and> w = CHR ''='' then (if r = [] then group [x, y, z] else None)
      else case (group [x, y, z, w], decode64 std r) of (Some a, Some b) \<Rightarrow> Some (a @ b) | _ \<Rightarrow> None)"

definition Encode64 :: "bool \<Rightarrow> bytes \<Rightarrow> string" where
  "Encode64 std b = encode64 std (map unat b)"

definition Decode64 :: "bool \<Rightarrow> string \<Rightarrow> bytes option" where
  "Decode64 std s = map_option (map word_of_nat) (decode64 std (filter (\<lambda>c. c \<noteq> cr \<and> c \<noteq> nl) s))"

subsection \<open>The round trip\<close>

lemma value_code: "n < 64 \<Longrightarrow> value64 (code64 n) = Some n \<and> code64 n \<notin> {CHR ''='', cr, nl}"
proof -
  have "list_all (\<lambda>n. value64 (code64 n) = Some n \<and> code64 n \<notin> {CHR ''='', cr, nl}) [0..<64]"
    by (simp add: upt_rec value64_def code64_def alphabet_def Let_def)
  then show "n < 64 \<Longrightarrow> value64 (code64 n) = Some n \<and> code64 n \<notin> {CHR ''='', cr, nl}" unfolding list_all_iff by simp
qed

lemma digits: "y < m \<Longrightarrow> (x * m + y) div m = x \<and> (x * m + y) mod m = y" for x y m :: nat
  by simp

lemma group_codes:
  assumes "a < 256" "b < 256" "c < 256"
  shows "group [code64 (a div 4), code64 (a mod 4 * 16)] = Some [a]"
    "group [code64 (a div 4), code64 (a mod 4 * 16 + b div 16), code64 (b mod 16 * 4)] = Some [a, b]"
    "group [code64 (a div 4), code64 (a mod 4 * 16 + b div 16), code64 (b mod 16 * 4 + c div 64), code64 (c mod 64)] = Some [a, b, c]"
proof -
  have s: "b div 16 < 16" "c div 64 < 4" "a div 4 < 64" "c mod 64 < 64" using assms by (simp_all add: less_mult_imp_div_less)
  have q: "(a mod 4 * 16 + b div 16) div 16 = a mod 4" "(a mod 4 * 16 + b div 16) mod 16 = b div 16"
    "(b mod 16 * 4 + c div 64) div 4 = b mod 16" "(b mod 16 * 4 + c div 64) mod 4 = c div 64"
    "b div 16 mod 16 = b div 16" "c div 64 mod 4 = c div 64"
    using digits [OF s(1)] digits [OF s(2)] s(1,2) by simp_all
  have "a mod 4 \<le> 3" "b mod 16 \<le> 15" by simp_all
  then have "a mod 4 * 16 < 64" "a mod 4 * 16 + b div 16 < 64" "b mod 16 * 4 < 64" "b mod 16 * 4 + c div 64 < 64"
    using s(1,2) by linarith+
  then show "group [code64 (a div 4), code64 (a mod 4 * 16)] = Some [a]"
    "group [code64 (a div 4), code64 (a mod 4 * 16 + b div 16), code64 (b mod 16 * 4)] = Some [a, b]"
    "group [code64 (a div 4), code64 (a mod 4 * 16 + b div 16), code64 (b mod 16 * 4 + c div 64), code64 (c mod 64)] = Some [a, b, c]"
    using s(3,4) by (simp_all add: group_def value_code group_bytes_def q)
qed

lemma encode64_chars: "\<forall>a \<in> set bs. a < 256 \<Longrightarrow> \<forall>x \<in> set (encode64 std bs). x \<noteq> cr \<and> x \<noteq> nl"
proof (induction std bs rule: encode64.induct)
  case (4 std a b c r)
  have "b div 16 < 16" "c div 64 < 4" "a div 4 < 64" using 4 by (simp_all add: less_mult_imp_div_less)
  moreover have "a mod 4 \<le> 3" "b mod 16 \<le> 15" by simp_all
  ultimately have "a mod 4 * 16 + b div 16 < 64" "b mod 16 * 4 + c div 64 < 64" "a div 4 < 64" "c mod 64 < 64" by linarith+
  then show ?case using 4 value_code by auto
next
  case (3 std a b)
  have "b div 16 < 16" "a div 4 < 64" using 3 by (simp_all add: less_mult_imp_div_less)
  moreover have "a mod 4 \<le> 3" "b mod 16 \<le> 15" by simp_all
  ultimately have "a mod 4 * 16 + b div 16 < 64" "b mod 16 * 4 < 64" "a div 4 < 64" by linarith+
  then show ?case using value_code by (auto simp: pad_text_def)
next
  case (2 std a)
  have "a div 4 < 64" using 2 by (simp add: less_mult_imp_div_less)
  moreover have "a mod 4 \<le> 3" by simp
  ultimately have "a mod 4 * 16 < 64" "a div 4 < 64" by linarith+
  then show ?case using value_code by (auto simp: pad_text_def)
qed simp

lemma decode_encode64: "\<forall>a \<in> set bs. a < 256 \<Longrightarrow> decode64 std (encode64 std bs) = Some bs"
proof (induction std bs rule: encode64.induct)
  case (4 std a b c r)
  have "c mod 64 < 64" "c div 64 < 4" "b mod 16 \<le> 15" using 4 by (simp_all add: less_mult_imp_div_less)
  then have "b mod 16 * 4 + c div 64 < 64" "c mod 64 < 64" by linarith+
  then show ?case using 4 value_code group_codes(3) [of a b c] by simp
next
  case (3 std a b)
  have "b mod 16 \<le> 15" by simp
  then have "b mod 16 * 4 < 64" by linarith
  then show ?case using 3 value_code group_codes(2) [of a b 0] by (simp add: pad_text_def)
next
  case (2 std a)
  then show ?case using group_codes(1) [of a 0 0] by (simp add: pad_text_def numeral_2_eq_2)
qed simp

lemma unat_bytes: "\<forall>a \<in> set (map unat b). a < 256" for b :: bytes
  using unsigned_less [where ?'a = nat and ?'b = 8] by auto

lemma Decode_Encode64: "Decode64 std (Encode64 std b) = Some b"
proof -
  have "filter (\<lambda>c. c \<noteq> cr \<and> c \<noteq> nl) (encode64 std (map unat b)) = encode64 std (map unat b)"
    using encode64_chars [OF unat_bytes, of std b] by (intro filter_True) blast
  then show ?thesis unfolding Decode64_def Encode64_def using decode_encode64 [OF unat_bytes, of std b]
    by (simp add: o_def)
qed

end
