(* ===== verification/Endec_Aes.thy ===== *)
theory Endec_Aes
  imports Block_Modes Base64 Outcome
begin

section \<open>Package endec: AES and paddings\<close>

text \<open>
  \<^verbatim>\<open>endec/aes.go\<close> and the functions of \<^verbatim>\<open>endec/endec.go\<close> that seal data with a passphrase. The block cipher,
  the authenticated mode and the MD5 sum are those of the Go library, parameters in \<open>crypto\<close>; what is
  random is an argument, the result of filling the buffer. A function returns its result with its
  error. The panics of the chained mode (an initial vector of the wrong size, a part of a block) are
  recovered by the code and reported as errors; the result then is what had been assigned before.
\<close>

record crypto =
  aes_enc :: "bytes \<Rightarrow> bytes \<Rightarrow> bytes"
  aes_dec :: "bytes \<Rightarrow> bytes \<Rightarrow> bytes"
  gcm_Seal :: "bytes \<Rightarrow> bytes \<Rightarrow> bytes \<Rightarrow> bytes"
  gcm_Open :: "bytes \<Rightarrow> bytes \<Rightarrow> bytes \<Rightarrow> bytes option"
  MD5Bytes :: "bytes \<Rightarrow> bytes"

type_synonym random = "string + bytes"
type_synonym checked = "bytes \<times> string option"

definition aes_BlockSize :: nat where
  "aes_BlockSize = 16"

definition aes_key :: "bytes \<Rightarrow> bool" where
  "aes_key key \<longleftrightarrow> length key \<in> {16, 24, 32}"

definition nonce_size :: nat where
  "nonce_size = 12"

subsection \<open>Paddings\<close>

text \<open>Go's remainder has the sign of the dividend, here a length.\<close>

definition Pkcs7Padding :: "bytes \<Rightarrow> int \<Rightarrow> bytes outcome" where
  "Pkcs7Padding data blockSize =
     (if blockSize = 0 then Panic
      else let paddingSize = blockSize - int (length data) mod \<bar>blockSize\<bar>
           in if paddingSize = blockSize then Ret data
              else if paddingSize < 0 then Panic
              else Ret (data @ replicate (nat paddingSize) (word_of_int paddingSize)))"

definition Pkcs7Unpadding :: "bytes \<Rightarrow> int list \<Rightarrow> bytes" where
  "Pkcs7Unpadding data blockSizes =
     (if data = [] then []
      else let blockSize = (if blockSizes = [] then 256 else word_of_int (hd blockSizes));
               padding = last data; n = unat padding
           in if (ucast padding :: 16 word) < blockSize \<and> length data > n
              then if list_all (\<lambda>b. b = padding) (drop (length data - n) data) then take (length data - n) data else data
              else data)"

definition PLPPadding :: "bytes \<Rightarrow> int \<Rightarrow> bytes" where
  "PLPPadding data blocksize =
     (if blocksize < 1 then []
      else let P = int (length data) mod blocksize; paddingLen = (if P = 0 then 0 else blocksize - P)
           in data @ replicate (nat paddingLen) (word_of_int paddingLen))"

definition PLPUnpadding :: "bytes \<Rightarrow> checked" where
  "PLPUnpadding data =
     (if length data < 1 then ([], Some ''invalid data'')
      else let paddingLen = unat (hd data)
           in if paddingLen > length data - 1 then ([], Some ''the length of the padding is invalid'')
              else (take (length data - paddingLen - 1) (drop 1 data), None))"

subsection \<open>The chained mode\<close>

definition AESCBCEncrypt :: "crypto \<Rightarrow> bytes \<Rightarrow> bytes \<Rightarrow> bytes list \<Rightarrow> random \<Rightarrow> checked" where
  "AESCBCEncrypt cy key plaintext ivs rnd =
     (if \<not> aes_key key then ([], Some ''crypto/aes: invalid key size'')
      else case (case ivs of [] \<Rightarrow> rnd | iv # _ \<Rightarrow> Inr iv) of
             Inl e \<Rightarrow> ([], Some e)
           | Inr iv \<Rightarrow>
               (case Pkcs7Padding plaintext (int aes_BlockSize) of
                  Panic \<Rightarrow> ([], Some ''recovered'')
                | Ret p \<Rightarrow>
                    if length iv \<noteq> aes_BlockSize then ([], Some ''recovered'')
                    else let ciphertext = cbc_encrypt aes_BlockSize (aes_enc cy key) (length p div aes_BlockSize) iv p
                         in (if ivs = [] then ciphertext @ iv else ciphertext, None)))"

definition AESCBCDecrypt :: "crypto \<Rightarrow> bytes \<Rightarrow> bytes \<Rightarrow> bytes list \<Rightarrow> checked" where
  "AESCBCDecrypt cy key ciphertext ivs =
     (if length ciphertext < aes_BlockSize then ([], Some ''ciphertext length is smaller than AES Blocksize'')
      else case (case ivs of
                   [] \<Rightarrow> Inr (take (length ciphertext - aes_BlockSize) ciphertext, drop (length ciphertext - aes_BlockSize) ciphertext)
                 | iv # _ \<Rightarrow> if length iv \<noteq> aes_BlockSize then Inl ''iv length is smaller than AES Blocksize''
                            else Inr (ciphertext, iv)) of
             Inl e \<Rightarrow> ([], Some e)
           | Inr (body, iv) \<Rightarrow>
               if \<not> aes_key key then ([], Some ''crypto/aes: invalid key size'')
               else if length body mod aes_BlockSize \<noteq> 0 then (replicate (length body) 0, Some ''recovered'')
               else (Pkcs7Unpadding (cbc_decrypt aes_BlockSize (aes_dec cy key) (length body div aes_BlockSize) iv body) [], None))"

definition AESCBCEncryptToBase64 :: "crypto \<Rightarrow> bytes \<Rightarrow> bytes \<Rightarrow> bytes list \<Rightarrow> random \<Rightarrow> string \<times> string option" where
  "AESCBCEncryptToBase64 cy key plaintext ivs rnd =
     (case AESCBCEncrypt cy key plaintext ivs rnd of (enb, Some e) \<Rightarrow> ([], Some e) | (enb, None) \<Rightarrow> (Encode64 True enb, None))"

definition AESCBCDecryptFromBase64 :: "crypto \<Rightarrow> bytes \<Rightarrow> string \<Rightarrow> bytes list \<Rightarrow> checked" where
  "AESCBCDecryptFromBase64 cy key ciphertext ivs =
     (case Decode64 True ciphertext of
        None \<Rightarrow> ([], Some ''illegal base64 data'')
      | Some data \<Rightarrow> AESCBCDecrypt cy key data ivs)"

subsection \<open>The authenticated mode\<close>

definition AESGCMEncrypt :: "crypto \<Rightarrow> bytes \<Rightarrow> bytes \<Rightarrow> random \<Rightarrow> checked" where
  "AESGCMEncrypt cy key plaintext rnd =
     (if \<not> aes_key key then ([], Some ''crypto/aes: invalid key size'')
      else case rnd of
             Inl e \<Rightarrow> ([], Some e)
           | Inr nonce \<Rightarrow> (nonce @ gcm_Seal cy key nonce plaintext, None))"

definition AESGCMDecrypt :: "crypto \<Rightarrow> bytes \<Rightarrow> bytes \<Rightarrow> checked" where
  "AESGCMDecrypt cy key ciphertext =
     (if \<not> aes_key key then ([], Some ''crypto/aes: invalid key size'')
      else if length ciphertext \<le> nonce_size then ([], Some ''ciphertext too short'')
      else case gcm_Open cy key (take nonce_size ciphertext) (drop nonce_size ciphertext) of
             None \<Rightarrow> ([], Some ''cipher: message authentication failed'')
           | Some p \<Rightarrow> (p, None))"

definition AESGCMEncryptToBase64 :: "crypto \<Rightarrow> bytes \<Rightarrow> bytes \<Rightarrow> random \<Rightarrow> string \<times> string option" where
  "AESGCMEncryptToBase64 cy key plaintext rnd =
     (case AESGCMEncrypt cy key plaintext rnd of (b, Some e) \<Rightarrow> ([], Some e) | (b, None) \<Rightarrow> (Encode64 False b, None))"

definition AESGCMDecryptFromBase64 :: "crypto \<Rightarrow> bytes \<Rightarrow> string \<Rightarrow> checked" where
  "AESGCMDecryptFromBase64 cy key str =
     (case Decode64 False str of
        None \<Rightarrow> ([], Some ''illegal base64 data'')
      | Some data \<Rightarrow> AESGCMDecrypt cy key data)"

text \<open>With a passphrase, whose MD5 sum of sixteen bytes is a key.\<close>

definition EncrypBytes :: "crypto \<Rightarrow> bytes \<Rightarrow> bytes \<Rightarrow> random \<Rightarrow> checked" where
  "EncrypBytes cy data passphrase rnd =
     (case rnd of
        Inl e \<Rightarrow> ([], Some e)
      | Inr nonce \<Rightarrow> (nonce @ gcm_Seal cy (MD5Bytes cy passphrase) nonce data, None))"

definition EncrypBytesToString :: "crypto \<Rightarrow> bytes \<Rightarrow> bytes \<Rightarrow> random \<Rightarrow> string \<times> string option" where
  "EncrypBytesToString cy data passphrase rnd =
     (case rnd of
        Inl e \<Rightarrow> ([], Some e)
      | Inr nonce \<Rightarrow> (Encode64 False (nonce @ gcm_Seal cy (MD5Bytes cy passphrase) nonce data), None))"

definition DecryptBytes :: "crypto \<Rightarrow> bytes \<Rightarrow> bytes \<Rightarrow> checked" where
  "DecryptBytes cy data passphrase =
     (let key = MD5Bytes cy passphrase
      in if \<not> aes_key key then ([], Some ''crypto/aes: invalid key size'')
         else if length data < nonce_size + 1 then ([], Some ''data length not guaranteed'')
         else case gcm_Open cy key (take nonce_size data) (drop nonce_size data) of
                None \<Rightarrow> ([], Some ''cipher: message authentication failed'')
              | Some p \<Rightarrow> (p, None))"

definition DecryptBytesFromString :: "crypto \<Rightarrow> string \<Rightarrow> bytes \<Rightarrow> checked" where
  "DecryptBytesFromString cy datastr passphrase =
     (case Decode64 False datastr of
        None \<Rightarrow> ([], Some ''illegal base64 data'')
      | Some data \<Rightarrow> DecryptBytes cy data passphrase)"

subsection \<open>Laws of the padding\<close>

lemma Pkcs7_pad_16:
  "Pkcs7Padding p 16 = Ret (if length p mod 16 = 0 then p else let k = 16 - length p mod 16 in p @ replicate k (word_of_nat k))"
proof -
  have r: "length p mod 16 < 16" by simp
  then have k: "16 - int (length p) mod 16 = int (16 - length p mod 16)" by (simp add: of_nat_diff zmod_int)
  show ?thesis
  proof (cases "length p mod 16 = 0")
    case True
    then have "int (length p) mod 16 = 0" by presburger
    then show ?thesis using True by (simp add: Pkcs7Padding_def Let_def)
  next
    case False
    then have "int (16 - length p mod 16) \<noteq> 16" by linarith
    then show ?thesis unfolding Pkcs7Padding_def abs_numeral k Let_def using False r by (simp del: of_nat_diff)
  qed
qed

text \<open>Data that ends in what looks like a padding of \<open>n\<close> bytes.\<close>

definition looks_padded :: "bytes \<Rightarrow> bool" where
  "looks_padded b \<longleftrightarrow> (\<exists>n. 0 < n \<and> n < 256 \<and> n < length b \<and> drop (length b - n) b = replicate n (word_of_nat n))"

lemma byte_padding: "n < 256 \<Longrightarrow> unat (word_of_nat n :: 8 word) = n"
  by (simp add: unat_of_nat take_bit_nat_eq_self)

lemma small_byte: "(ucast (w :: 8 word) :: 16 word) < 256"
proof -
  have "unat w < 256" using unsigned_less [of w, where ?'a = nat] by simp
  then show ?thesis by (simp add: word_less_nat_alt unsigned_ucast_eq take_bit_nat_eq_self)
qed

lemma Unpad_padded:
  assumes "0 < n" "n < 256" "p \<noteq> []"
  shows "Pkcs7Unpadding (p @ replicate n (word_of_nat n)) [] = p"
proof -
  have "last (p @ replicate n (word_of_nat n :: 8 word)) = word_of_nat n" using assms(1) by simp
  then show ?thesis using assms byte_padding [OF assms(2)] small_byte [of "word_of_nat n"]
    by (simp add: Pkcs7Unpadding_def Let_def list_all_iff)
qed

lemma Unpad_unpadded: "Pkcs7Unpadding p [] = p \<longleftrightarrow> \<not> looks_padded p"
proof (cases "p = []")
  case False
  let ?n = "unat (last p)"
  have n: "?n < 256" "word_of_nat ?n = last p" using unsigned_less [of "last p", where ?'a = nat] by simp_all
  have "looks_padded p \<longleftrightarrow> 0 < ?n \<and> ?n < length p \<and> list_all (\<lambda>b. b = last p) (drop (length p - ?n) p)"
  proof
    assume "looks_padded p"
    then obtain k where k: "0 < k" "k < 256" "k < length p" "drop (length p - k) p = replicate k (word_of_nat k)"
      by (auto simp: looks_padded_def)
    then have "last p = word_of_nat k" using last_drop [of "length p - k" p] by simp
    then show "0 < ?n \<and> ?n < length p \<and> list_all (\<lambda>b. b = last p) (drop (length p - ?n) p)"
      using k byte_padding [OF k(2)] by (simp add: list_all_iff)
  next
    assume a: "0 < ?n \<and> ?n < length p \<and> list_all (\<lambda>b. b = last p) (drop (length p - ?n) p)"
    then have "drop (length p - ?n) p = replicate ?n (word_of_nat ?n)"
      using n(2) by (intro replicate_eqI) (auto simp: list_all_iff)
    then show "looks_padded p" unfolding looks_padded_def using a n(1) by blast
  qed
  then show ?thesis using False small_byte [of "last p"] by (auto simp: Pkcs7Unpadding_def Let_def)
qed (simp add: looks_padded_def Pkcs7Unpadding_def)

end
