(* ===== verification/Endec_Text.thy ===== *)
theory Endec_Text
  imports Endec_Aes
begin

section \<open>Package endec: strings, random choices and files\<close>

text \<open>
  The rest of \<^verbatim>\<open>endec/endec.go\<close> that is not a call of a library: the simple string cipher, random numbers
  in a range and random strings, and files encrypted under a passphrase that is part of their name.
  Go strings are byte sequences; the random numbers are arguments.
\<close>

subsection \<open>Base64 without padding\<close>

definition TrimRight :: "char \<Rightarrow> string \<Rightarrow> string" where
  "TrimRight c s = rev (dropWhile (\<lambda>x. x = c) (rev s))"

definition Base64EncodeNoPadding :: "bytes \<Rightarrow> string" where
  "Base64EncodeNoPadding data = TrimRight (CHR ''='') (Encode64 True data)"

definition Base64DecodeNoPadding :: "string \<Rightarrow> bytes option" where
  "Base64DecodeNoPadding encoded =
     (let padding = length encoded mod 4
      in Decode64 True (if padding > 0 then encoded @ replicate (4 - padding) (CHR ''='') else encoded))"

subsection \<open>The simple string cipher\<close>

text \<open>\<open>string(b)\<close> of a byte is the UTF-8 form of the character with that number.\<close>

definition string_of_byte :: "8 word \<Rightarrow> bytes" where
  "string_of_byte b = (if b < 128 then [b] else [0xC0 OR drop_bit 6 b, 0x80 OR (b AND 0x3F)])"

fun xor_key :: "bytes \<Rightarrow> nat \<Rightarrow> bytes \<Rightarrow> bytes" where
  "xor_key key i [] = []"
| "xor_key key i (b # bs) = string_of_byte (b XOR key ! (i mod length key)) @ xor_key key (Suc i) bs"

definition StringSimpleEncrypt :: "bytes \<Rightarrow> bytes \<Rightarrow> string outcome" where
  "StringSimpleEncrypt data key =
     (if data \<noteq> [] \<and> key = [] then Panic else Ret (Encode64 False (xor_key key 0 data)))"

definition StringSimpleDecrypt :: "string \<Rightarrow> bytes \<Rightarrow> checked outcome" where
  "StringSimpleDecrypt s key =
     (case Decode64 False s of
        None \<Rightarrow> Ret ([], Some ''illegal base64 data'')
      | Some data \<Rightarrow> if data \<noteq> [] \<and> key = [] then Panic else Ret (xor_key key 0 data, None))"

lemma string_of_byte_length: "length (string_of_byte b) = (if b < 128 then 1 else 2)"
  by (simp add: string_of_byte_def)

lemma xor_key_length: "length b \<le> length (xor_key key i b)"
  by (induction b arbitrary: i) (auto simp: string_of_byte_length intro: le_SucI)

lemma xor_key_ascii:
  "length (xor_key key i b) = length b \<longleftrightarrow> (\<forall>j < length b. b ! j XOR key ! ((i + j) mod length key) < 128)"
proof (induction b arbitrary: i)
  case (Cons x b)
  have "(\<forall>j < length (x # b). (x # b) ! j XOR key ! ((i + j) mod length key) < 128) \<longleftrightarrow>
      x XOR key ! (i mod length key) < 128 \<and> (\<forall>j < length b. b ! j XOR key ! ((Suc i + j) mod length key) < 128)"
    by (auto simp: less_Suc_eq_0_disj)
  moreover have "length b \<le> length (xor_key key (Suc i) b)" by (rule xor_key_length)
  ultimately show ?case using Cons [of "Suc i"] by (auto simp: string_of_byte_length)
qed simp

lemma xor_key_plain:
  "\<forall>j < length b. b ! j XOR key ! ((i + j) mod length key) < 128 \<Longrightarrow>
   xor_key key i b = map (\<lambda>j. b ! j XOR key ! ((i + j) mod length key)) [0..<length b]"
proof (induction b arbitrary: i)
  case (Cons x b)
  have "x XOR key ! (i mod length key) < 128" using Cons.prems by fastforce
  moreover have "\<forall>j < length b. b ! j XOR key ! ((Suc i + j) mod length key) < 128" using Cons.prems by fastforce
  then have "xor_key key (Suc i) b = map (\<lambda>j. b ! j XOR key ! ((Suc i + j) mod length key)) [0..<length b]" by (rule Cons.IH)
  ultimately show ?case
    by (simp add: string_of_byte_def upt_rec [of 0] map_Suc_upt [symmetric] del: upt_Suc)
qed simp

lemma small_bit7: "w < 128 \<longleftrightarrow> \<not> bit w 7" for w :: "8 word"
proof -
  have u: "unat w < 256" using unsigned_less [of w, where ?'a = nat] by simp
  have "bit w 7 \<longleftrightarrow> bit (unat w) 7" by (simp add: bit_unsigned_iff)
  also have "\<dots> \<longleftrightarrow> odd (unat w div 128)" by (simp add: bit_iff_odd)
  also have "\<dots> \<longleftrightarrow> 128 \<le> unat w"
  proof (cases "unat w < 128")
    case False
    then have "unat w div 128 = 1" using u by (simp add: div_nat_eqI)
    then show ?thesis using False by simp
  qed simp
  finally show ?thesis by (simp add: word_less_nat_alt not_le)
qed

lemma xor_small: "a XOR k < 128 \<Longrightarrow> a < 128 \<longleftrightarrow> k < 128" for a k :: "8 word"
  by (simp add: small_bit7 bit_xor_iff)

lemma simple_decrypts:
  assumes "key \<noteq> []"
  shows "(case StringSimpleEncrypt data key of Panic \<Rightarrow> Panic | Ret s \<Rightarrow> StringSimpleDecrypt s key) = Ret (data, None)
    \<longleftrightarrow> (\<forall>j < length data. data ! j < 128 \<and> key ! (j mod length key) < 128)"
proof -
  let ?e = "xor_key key 0 data"
  have "(case StringSimpleEncrypt data key of Panic \<Rightarrow> Panic | Ret s \<Rightarrow> StringSimpleDecrypt s key) = Ret (xor_key key 0 ?e, None)"
    using assms by (simp add: StringSimpleEncrypt_def StringSimpleDecrypt_def Decode_Encode64)
  moreover have "xor_key key 0 ?e = data \<longleftrightarrow> (\<forall>j < length data. data ! j < 128 \<and> key ! (j mod length key) < 128)"
  proof
    assume eq: "xor_key key 0 ?e = data"
    then have l: "length ?e = length data" using xor_key_length [of ?e key 0] xor_key_length [of data key 0] by simp
    then have x: "data ! j XOR key ! (j mod length key) < 128" if "j < length data" for j
      using xor_key_ascii [of key 0 data] that by simp
    have "length (xor_key key 0 ?e) = length ?e" using eq l by simp
    then have "\<forall>j < length data. ?e ! j XOR key ! (j mod length key) < 128" using xor_key_ascii [of key 0 ?e] l by simp
    moreover have "?e = map (\<lambda>j. data ! j XOR key ! (j mod length key)) [0..<length data]" using xor_key_plain [of data key 0] x by simp
    ultimately have "data ! j < 128" if "j < length data" for j using that by (simp add: xor.assoc)
    then show "\<forall>j < length data. data ! j < 128 \<and> key ! (j mod length key) < 128" using x xor_small by blast
  next
    assume a: "\<forall>j < length data. data ! j < 128 \<and> key ! (j mod length key) < 128"
    then have "\<forall>j < length data. data ! j XOR key ! ((0 + j) mod length key) < 128" by (simp add: small_bit7 bit_xor_iff)
    then have e: "?e = map (\<lambda>j. data ! j XOR key ! (j mod length key)) [0..<length data]" using xor_key_plain [of data key 0] by simp
    then have "\<forall>j < length ?e. ?e ! j XOR key ! ((0 + j) mod length key) < 128" using a by (simp add: xor.assoc)
    then have "xor_key key 0 ?e = map (\<lambda>j. ?e ! j XOR key ! (j mod length key)) [0..<length ?e]" using xor_key_plain [of ?e key 0] by simp
    then show "xor_key key 0 ?e = data" unfolding e by (intro nth_equalityI) (simp_all add: xor.assoc)
  qed
  ultimately show ?thesis by simp
qed

subsection \<open>Random choices\<close>

text \<open>An \<open>int\<close> has 64 bits and wraps; the remainder has the sign of the dividend.\<close>

definition wrap64 :: "int \<Rightarrow> int" where
  "wrap64 x = signed_take_bit 63 x"

definition go_rem :: "int \<Rightarrow> int \<Rightarrow> int" where
  "go_rem a b = sgn a * (\<bar>a\<bar> mod \<bar>b\<bar>)"

definition RandInt32 :: "int \<Rightarrow> int" where
  "RandInt32 val = signed_take_bit 31 val"

definition RandRangeInterger :: "int \<Rightarrow> int \<Rightarrow> int \<Rightarrow> int" where
  "RandRangeInterger lo hi randi =
     (let delta = wrap64 (hi - lo)
      in if delta = 0 then lo
         else if randi > 0 then wrap64 (lo + go_rem randi delta)
         else wrap64 (lo - go_rem randi delta))"

definition RandRangeInt64 :: "int \<Rightarrow> int \<Rightarrow> int \<Rightarrow> int" where
  "RandRangeInt64 lo hi randi64 =
     (let delta = wrap64 (hi - lo)
      in if delta = 0 then lo
         else if randi64 > 0 then wrap64 (lo + go_rem randi64 delta)
         else wrap64 (lo - go_rem randi64 delta))"

text \<open>\<open>GenerateRandomAssci\<close> draws one number for each character.\<close>

definition letterRunes :: string where
  "letterRunes = ''abcdefghijklmnopqrstuvwxyzABCDEFGHIJKLMNOPQRSTUVWXYZ0123456789''"

fun random_chars :: "'a list \<Rightarrow> int list \<Rightarrow> 'a list outcome" where
  "random_chars chars [] = Ret []"
| "random_chars chars (r # rs) =
     (let i = RandRangeInterger 0 (int (length chars) - 1) r
      in if i < 0 \<or> int (length chars) \<le> i then Panic
         else case random_chars chars rs of Panic \<Rightarrow> Panic | Ret cs \<Rightarrow> Ret (chars ! nat i # cs))"

definition GenerateRandomAssci :: "int \<Rightarrow> string list \<Rightarrow> int list \<Rightarrow> string outcome" where
  "GenerateRandomAssci n runs draws =
     (if n < 0 then Panic else random_chars (if runs = [] then letterRunes else hd runs) (take (nat n) draws))"

lemma wrap64_small: "- (2 ^ 63) \<le> x \<Longrightarrow> x < 2 ^ 63 \<Longrightarrow> wrap64 x = x"
  unfolding wrap64_def by (simp add: signed_take_bit_int_eq_self)

lemma rand_offset:
  assumes "- (2 ^ 63) \<le> lo" "lo < 2 ^ 63" "- (2 ^ 63) \<le> hi" "hi < 2 ^ 63" "hi \<noteq> lo" "\<bar>hi - lo\<bar> < 2 ^ 63" "lo + \<bar>hi - lo\<bar> \<le> 2 ^ 63"
  shows "\<exists>k. 0 \<le> k \<and> k < \<bar>hi - lo\<bar> \<and> RandRangeInterger lo hi r = lo + k"
proof -
  let ?d = "hi - lo" and ?k = "\<bar>r\<bar> mod \<bar>hi - lo\<bar>"
  have d: "wrap64 ?d = ?d" using assms(6) by (intro wrap64_small) auto
  have k: "0 \<le> ?k" "?k < \<bar>?d\<bar>" using assms(5) by simp_all
  have "wrap64 (lo + ?k) = lo + ?k" using assms(1,7) k by (intro wrap64_small) linarith+
  moreover have "(if r > 0 then lo + go_rem r ?d else lo - go_rem r ?d) = lo + ?k"
    by (cases "r > 0"; cases "r = 0") (simp_all add: go_rem_def)
  ultimately have "RandRangeInterger lo hi r = lo + ?k"
    using assms(5) unfolding RandRangeInterger_def d Let_def by (metis eq_iff_diff_eq_0)
  then show ?thesis using k by blast
qed

lemma random_chars_butlast:
  assumes "2 \<le> length chars" "int (length chars) < 2 ^ 63"
  shows "\<exists>cs. random_chars chars draws = Ret cs \<and> length cs = length draws \<and> set cs \<subseteq> set (butlast chars)"
proof (induction draws)
  case (Cons r draws)
  obtain k where k: "0 \<le> k" "k < int (length chars) - 1" "RandRangeInterger 0 (int (length chars) - 1) r = k"
  proof -
    have "\<bar>int (length chars) - 1\<bar> = int (length chars) - 1" using assms(1) by simp
    then show thesis using rand_offset [of 0 "int (length chars) - 1" r] assms that by auto
  qed
  have "chars ! nat k = butlast chars ! nat k" using k by (simp add: nth_butlast nat_less_iff)
  then have "chars ! nat k \<in> set (butlast chars)" using k by (simp add: nat_less_iff)
  then show ?case using Cons k by auto
qed simp

subsection \<open>Files\<close>

text \<open>
  The operating system: the files by name, whether a file cannot be created, and what reading one
  gives. \<open>cut\<close> is \<^verbatim>\<open>strings.Cut\<close>, \<open>path_base\<close> is \<^verbatim>\<open>filepath.Base\<close>.
\<close>

record system =
  files :: "string \<Rightarrow> bytes option"
  create_error :: "string \<Rightarrow> string option"

fun cut :: "string \<Rightarrow> string \<Rightarrow> (string \<times> string) option" where
  "cut sep [] = (if sep = [] then Some ([], []) else None)"
| "cut sep (c # s) =
     (if take (length sep) (c # s) = sep then Some ([], drop (length sep) (c # s))
      else map_option (\<lambda>(a, b). (c # a, b)) (cut sep s))"

definition path_base :: "string \<Rightarrow> string" where
  "path_base p =
     (if p = [] then ''.''
      else let q = TrimRight (CHR ''/'') p
           in if q = [] then ''/'' else rev (takeWhile (\<lambda>c. c \<noteq> CHR ''/'') (rev q)))"

definition os_ReadFile :: "system \<Rightarrow> string \<Rightarrow> string + bytes" where
  "os_ReadFile sys f = (case files sys f of None \<Rightarrow> Inl ''no such file or directory'' | Some b \<Rightarrow> Inr b)"

text \<open>The case of a file name; the file is there, and empty, before the data is encrypted.\<close>

definition EncryptBytesToFile :: "crypto \<Rightarrow> system \<Rightarrow> string \<Rightarrow> bytes \<Rightarrow> bytes \<Rightarrow> random \<Rightarrow> system \<times> string option" where
  "EncryptBytesToFile cy sys filename data passphrase rnd =
     (case create_error sys filename of
        Some e \<Rightarrow> (sys, Some e)
      | None \<Rightarrow>
          (case EncrypBytes cy data passphrase rnd of
             (_, Some e) \<Rightarrow> (sys\<lparr>files := (files sys)(filename \<mapsto> [])\<rparr>, Some e)
           | (b, None) \<Rightarrow> (sys\<lparr>files := (files sys)(filename \<mapsto> b)\<rparr>, None)))"

definition marker :: string where
  "marker = ''s-nt''"

definition text_bytes :: "string \<Rightarrow> bytes" where
  "text_bytes s = map (\<lambda>c. word_of_nat (byte c)) s"

definition EncryptFileWithRandomPassword ::
  "crypto \<Rightarrow> system \<Rightarrow> string \<Rightarrow> string list \<Rightarrow> int list \<Rightarrow> random \<Rightarrow> (system \<times> string option) outcome" where
  "EncryptFileWithRandomPassword cy sys pathfile dstpathprefixs draws rnd =
     (case os_ReadFile sys pathfile of
        Inl e \<Rightarrow> Ret (sys, Some e)
      | Inr data \<Rightarrow>
          (case GenerateRandomAssci 16 [letterRunes] draws of
             Panic \<Rightarrow> Panic
           | Ret passphrase \<Rightarrow>
               (let pathprefix = (case dstpathprefixs of [] \<Rightarrow> pathfile | p # _ \<Rightarrow> p)
                in Ret (EncryptBytesToFile cy sys (pathprefix @ marker @ passphrase) data (text_bytes passphrase) rnd))))"

definition DecryptFileToBytes :: "crypto \<Rightarrow> system \<Rightarrow> string \<Rightarrow> bytes \<Rightarrow> checked" where
  "DecryptFileToBytes cy sys filename passphrase =
     (case os_ReadFile sys filename of Inl e \<Rightarrow> ([], Some e) | Inr data \<Rightarrow> DecryptBytes cy data passphrase)"

definition DecryptFileWithPasswordInFileToBytes :: "crypto \<Rightarrow> system \<Rightarrow> string \<Rightarrow> checked" where
  "DecryptFileWithPasswordInFileToBytes cy sys pathfile =
     (case cut marker (path_base pathfile) of
        None \<Rightarrow> ([], None)
      | Some (_, passwd) \<Rightarrow> DecryptFileToBytes cy sys pathfile (text_bytes passwd))"

text \<open>Where the marker is found: at the end of a prefix that does not hold it already.\<close>

lemma cut_length: "cut sep s = Some (a, b) \<Longrightarrow> s = a @ sep @ b"
proof (induction s arbitrary: a b)
  case (Cons c s)
  then show ?case by (auto split: if_splits simp: append_eq_conv_conj) (metis append_take_drop_id)
qed (auto split: if_splits)

lemma cut_marker:
  "cut marker (p @ marker @ w) = (case cut marker p of None \<Rightarrow> Some (p, w) | Some (a, b) \<Rightarrow> Some (a, b @ marker @ w))"
proof (induction p)
  case (Cons c p)
  have no: "take 4 (c # p @ marker @ w) \<noteq> marker" if "length p < 3" "take 4 (c # p) \<noteq> marker"
    using that by (auto simp: marker_def numeral_eq_Suc less_Suc_eq length_Suc_conv)
  have four: "take 4 (c # p @ marker @ w) = marker \<longleftrightarrow> take 4 (c # p) = marker"
  proof (cases "length p < 3")
    case True
    have "take 4 (c # p) \<noteq> marker" using True by (auto simp: marker_def dest: arg_cong [where f = length])
    then show ?thesis using no True by blast
  next
    case False
    then show ?thesis by (simp add: take_append)
  qed
  have iff: "take (length marker) (c # p @ marker @ w) = marker \<longleftrightarrow> take (length marker) (c # p) = marker"
  proof -
    have "length marker = 4" by (simp add: marker_def)
    then show ?thesis using four by (simp only:)
  qed
  show ?case
  proof (cases "take (length marker) (c # p) = marker")
    case True
    then have "length marker \<le> length (c # p)" by (metis length_take min.absorb_iff2)
    then have "drop (length marker) (c # p @ marker @ w) = drop (length marker) (c # p) @ marker @ w"
      using drop_append [of "length marker" "c # p" "marker @ w"] by simp
    then show ?thesis using True iff by simp
  next
    case False
    then show ?thesis using Cons iff by (simp split: option.split)
  qed
qed (simp add: marker_def)

end
