(* ===== verification/Endec_Props.thy ===== *)
theory Endec_Props
  imports Endec_Des Endec_Text
begin

section \<open>Package endec: properties\<close>

text \<open>
  Round trips of the encryption functions, with the inputs on which they fail, and the range of the
  random choices.
\<close>

text \<open>
  C18. Triple DES in the block mode: for every key, of any length, and all data, encryption succeeds and
  decryption gives the data back.
\<close>

theorem triple_des_roundtrip:
  "\<exists>c. TripleEcbDesEncrypt b key = Ret (Inr c) \<and> length c mod 8 = 0 \<and> length b < length c
     \<and> TripleEcbDesDecrypt c key = Ret (Inr b)"
  by (rule triple_roundtrip)

text \<open>
  C19. AES in the chained mode, given a block cipher that can be undone: decryption of what encryption
  gives with a random initial vector succeeds, and returns the data unless its length is a multiple
  of sixteen and it ends in what looks like a padding.
\<close>

theorem aes_cbc_roundtrip:
  assumes "aes_key key" "block_cipher 16 (aes_enc cy key) (aes_dec cy key)" "length iv = 16"
  shows "\<exists>c p'. AESCBCEncrypt cy key p [] (Inr iv) = (c, None) \<and> AESCBCDecrypt cy key c [] = (p', None)
    \<and> (p' = p \<longleftrightarrow> \<not> (length p mod 16 = 0 \<and> looks_padded p))"
proof -
  let ?k = "16 - length p mod 16"
  define q where "q = (if length p mod 16 = 0 then p else p @ replicate ?k (word_of_nat ?k))"
  have pad: "Pkcs7Padding p 16 = Ret q" by (simp add: Pkcs7_pad_16 q_def Let_def)
  have "(n + (16 - n mod 16)) mod 16 = 0" for n :: nat by presburger
  then have m: "length q mod 16 = 0" by (simp add: q_def)
  then have b: "length q = length q div 16 * 16" by auto
  let ?c = "cbc_encrypt 16 (aes_enc cy key) (length q div 16) iv q"
  have c: "length ?c = length q" using block_cipher.cbc_length [OF assms(2,3) b] b by simp
  have e: "AESCBCEncrypt cy key p [] (Inr iv) = (?c @ iv, None)"
    using assms(1,3) pad by (simp add: AESCBCEncrypt_def aes_BlockSize_def)
  have d: "AESCBCDecrypt cy key (?c @ iv) [] = (Pkcs7Unpadding q [], None)"
    using assms(1,3) m c block_cipher.cbc_dec_enc [OF assms(2,3) b] by (simp add: AESCBCDecrypt_def aes_BlockSize_def)
  have u: "Pkcs7Unpadding q [] = p \<longleftrightarrow> \<not> (length p mod 16 = 0 \<and> looks_padded p)"
  proof (cases "length p mod 16 = 0")
    case False
    then have "p \<noteq> []" "0 < ?k" "?k < 256" by auto
    then show ?thesis using Unpad_padded [of ?k p] False by (simp add: q_def)
  qed (simp add: q_def Unpad_unpadded)
  show ?thesis using e d u by (intro exI conjI)
qed

text \<open>A block cipher for the example: the exclusive or with the key.\<close>

definition xor_crypto :: crypto where
  "xor_crypto = \<lparr>aes_enc = (\<lambda>k b. xor_block b (take 16 k)), aes_dec = (\<lambda>k b. xor_block b (take 16 k)),
     gcm_Seal = (\<lambda>k n p. p @ k), gcm_Open = (\<lambda>k n c. Some (take (length c - length k) c)), MD5Bytes = (\<lambda>p. replicate 16 0)\<rparr>"

theorem aes_cbc_roundtrip_witness:
  "\<exists>c p'. AESCBCEncrypt xor_crypto (replicate 16 7) (replicate 15 9 @ [1]) [] (Inr (replicate 16 0)) = (c, None)
    \<and> AESCBCDecrypt xor_crypto (replicate 16 7) c [] = (p', None) \<and> p' \<noteq> replicate 15 9 @ [1]"
proof -
  have "block_cipher 16 (aes_enc xor_crypto (replicate 16 7)) (aes_dec xor_crypto (replicate 16 7))"
    by unfold_locales (simp_all add: xor_crypto_def xor_block_twice)
  moreover have "looks_padded (replicate 15 9 @ [1])" unfolding looks_padded_def by (intro exI [of _ 1]) simp
  ultimately show ?thesis
    using aes_cbc_roundtrip [of "replicate 16 7" xor_crypto "replicate 16 0" "replicate 15 9 @ [1]"]
    by (auto simp: aes_key_def)
qed

text \<open>
  The simple string cipher gives a string back exactly when the string and the part of the key it
  meets are ASCII: other bytes become two bytes each time they pass through \<open>string\<close>.
\<close>

lemma simple_cipher_roundtrip:
  assumes "key \<noteq> []"
  shows "(case StringSimpleEncrypt data key of Panic \<Rightarrow> Panic | Ret s \<Rightarrow> StringSimpleDecrypt s key) = Ret (data, None)
    \<longleftrightarrow> (\<forall>j < length data. data ! j < 128 \<and> key ! (j mod length key) < 128)"
  by (rule simple_decrypts [OF assms])

text \<open>
  A random number from a range is at least its lower end and below its upper end, which is never
  drawn; with the ends the wrong way round it is not below the larger one. A random string of the
  letters and digits therefore never holds the last of them.
\<close>

lemma random_range:
  assumes "- (2 ^ 61) \<le> lo" "lo < 2 ^ 61" "- (2 ^ 61) \<le> hi" "hi < 2 ^ 61"
  shows "(lo < hi \<longrightarrow> lo \<le> RandRangeInterger lo hi r \<and> RandRangeInterger lo hi r < hi)
    \<and> (hi < lo \<longrightarrow> lo \<le> RandRangeInterger lo hi r)
    \<and> (\<exists>cs. random_chars letterRunes draws = Ret cs \<and> length cs = length draws \<and> CHR ''9'' \<notin> set cs)"
proof (intro conjI impI)
  have k: "\<exists>k. 0 \<le> k \<and> k < \<bar>hi - lo\<bar> \<and> RandRangeInterger lo hi r = lo + k" if "hi \<noteq> lo"
    using that assms by (intro rand_offset) auto
  show "lo \<le> RandRangeInterger lo hi r" "RandRangeInterger lo hi r < hi" if "lo < hi" using k that by auto
  show "lo \<le> RandRangeInterger lo hi r" if "hi < lo" using k that by auto
  have "CHR ''9'' \<notin> set (butlast letterRunes)" by (simp add: letterRunes_def)
  then show "\<exists>cs. random_chars letterRunes draws = Ret cs \<and> length cs = length draws \<and> CHR ''9'' \<notin> set cs"
    using random_chars_butlast [of letterRunes draws] by (auto simp: letterRunes_def)
qed

text \<open>
  A file encrypted under a random passphrase and decrypted under the passphrase in its name: the
  name gives the passphrase back exactly when the name of the file does not hold the marker before,
  and then, given an authenticated cipher that can be undone, the data comes back.
\<close>

lemma file_passphrase:
  assumes "\<forall>k n p. gcm_Open cy k n (gcm_Seal cy k n p) = Some p" "\<forall>k n p. length k = 16 \<longrightarrow> gcm_Seal cy k n p \<noteq> []"
    "\<forall>p. length (MD5Bytes cy p) = 16" "length nonce = 12"
    "create_error sys (dir @ name @ marker @ w) = None" "path_base (dir @ name @ marker @ w) = name @ marker @ w"
  shows "(map_option snd (cut marker (name @ marker @ w)) = Some w \<longleftrightarrow> cut marker name = None)
    \<and> (cut marker name = None \<longrightarrow>
         DecryptFileWithPasswordInFileToBytes cy
           (fst (EncryptBytesToFile cy sys (dir @ name @ marker @ w) data (text_bytes w) (Inr nonce))) (dir @ name @ marker @ w) = (data, None))"
proof -
  let ?sys = "fst (EncryptBytesToFile cy sys (dir @ name @ marker @ w) data (text_bytes w) (Inr nonce))"
  have "map_option snd (cut marker (name @ marker @ w)) = Some w \<longleftrightarrow> cut marker name = None"
    unfolding cut_marker by (auto simp: marker_def split: option.split dest: arg_cong [where f = length])
  moreover have "files ?sys (dir @ name @ marker @ w) = Some (nonce @ gcm_Seal cy (MD5Bytes cy (text_bytes w)) nonce data)"
    using assms(5) by (simp add: EncryptBytesToFile_def EncrypBytes_def)
  then have "DecryptFileToBytes cy ?sys (dir @ name @ marker @ w) (text_bytes w) = (data, None)"
    using assms(1-4) by (simp add: DecryptFileToBytes_def os_ReadFile_def DecryptBytes_def Let_def aes_key_def nonce_size_def Suc_le_eq)
  ultimately show ?thesis
    using assms(6) by (auto simp: DecryptFileWithPasswordInFileToBytes_def cut_marker)
qed

end
