(* ===== verification/Xml_Text.thy ===== *)
theory Xml_Text
  imports Go_Prelude
begin

section \<open>Package goxml: strings\<close>

text \<open>
  The string functions of \<^verbatim>\<open>goxml/helpers.go\<close>. Their counterpart for escaped text is what a reader of XML
  does with it: line ends are normalised (\<open>eol\<close>) and character references resolved (\<open>unescape\<close>).
\<close>

definition isWhitespace :: "string \<Rightarrow> bool" where
  "isWhitespace s \<longleftrightarrow> list_all (\<lambda>c. \<not> (c \<noteq> sp \<and> c \<noteq> tab \<and> c \<noteq> nl \<and> c \<noteq> cr)) s"

definition spaceMatch :: "string \<Rightarrow> string \<Rightarrow> bool" where
  "spaceMatch a b \<longleftrightarrow> (if a = [] then True else a = b)"

definition spaceDecompose :: "string \<Rightarrow> string \<times> string" where
  "spaceDecompose str = (case index_byte str (CHR '':'') of None \<Rightarrow> ([], str) | Some colon \<Rightarrow> (take colon str, drop (Suc colon) str))"

definition indentSpaces :: string where
  "indentSpaces = [cr, nl] @ replicate 64 sp"

definition indentTabs :: string where
  "indentTabs = [cr, nl] @ replicate 16 tab"

definition indentCRLF :: "int \<Rightarrow> string \<Rightarrow> string" where
  "indentCRLF n source =
     (if n < 0 then take 2 source
      else if n < int (length source) - 1 then take (nat (n + 2)) source
      else source @ concat (replicate (nat (n - int (length source) + 2)) (take 1 (drop 2 source))))"

definition indentLF :: "int \<Rightarrow> string \<Rightarrow> string" where
  "indentLF n source =
     (if n < 0 then take 1 (drop 1 source)
      else if n < int (length source) - 1 then drop 1 (take (nat (n + 2)) source)
      else drop 1 source @ concat (replicate (nat (n - int (length source) + 2)) (take 1 (drop 2 source))))"

text \<open>\<^verbatim>\<open>strings.Index\<close>, with \<open>None\<close> for -1.\<close>

fun str_index :: "string \<Rightarrow> string \<Rightarrow> nat option" where
  "str_index sub [] = (if sub = [] then Some 0 else None)"
| "str_index sub (c # cs) =
     (if take (length sub) (c # cs) = sub then Some 0 else map_option Suc (str_index sub cs))"

definition nextIndex :: "string \<Rightarrow> string \<Rightarrow> nat \<Rightarrow> nat option" where
  "nextIndex s sep offset = map_option (\<lambda>i. offset + i) (str_index sep (drop offset s))"

definition digit :: "char \<Rightarrow> bool" where
  "digit c \<longleftrightarrow> 48 \<le> byte c \<and> byte c \<le> 57"

definition isInteger :: "string \<Rightarrow> bool" where
  "isInteger s \<longleftrightarrow> list_all (\<lambda>(i, c). digit c \<or> (i = 0 \<and> c = CHR ''-'')) (enumerate 0 s)"

subsection \<open>Escaping\<close>

datatype escapeMode = escapeNormal | escapeCanonicalText | escapeCanonicalAttr

definition isInCharacterRange :: "rune \<Rightarrow> bool" where
  "isInCharacterRange r \<longleftrightarrow>
     r = 0x09 \<or> r = 0x0A \<or> r = 0x0D \<or> (0x20 \<le> r \<and> r \<le> 0xD7FF) \<or> (0xE000 \<le> r \<and> r \<le> 0xFFFD)
     \<or> (0x10000 \<le> r \<and> r \<le> 0x10FFFF)"

definition replacement :: string where
  "replacement = [CHR 0xEF, CHR 0xBF, CHR 0xBD]"

text \<open>The switch of the loop: \<open>None\<close> where the code continues, else what is written.\<close>

definition escape_rune :: "escapeMode \<Rightarrow> rune \<Rightarrow> nat \<Rightarrow> string option" where
  "escape_rune m r width =
     (if r = byte (CHR ''&'') then Some ''&amp;''
      else if r = byte (CHR ''<'') then Some ''&lt;''
      else if r = byte (CHR ''>'') then (if m = escapeCanonicalAttr then None else Some ''&gt;'')
      else if r = byte sq then (if m \<noteq> escapeNormal then None else Some ''&apos;'')
      else if r = byte dq then (if m = escapeCanonicalText then None else Some ''&quot;'')
      else if r = byte tab then (if m \<noteq> escapeCanonicalAttr then None else Some ''&#x9;'')
      else if r = byte nl then (if m \<noteq> escapeCanonicalAttr then None else Some ''&#xA;'')
      else if r = byte cr then (if m = escapeNormal then None else Some ''&#xD;'')
      else if \<not> isInCharacterRange r \<or> (r = 0xFFFD \<and> width = 1) then Some replacement
      else None)"

text \<open>\<open>pending\<close> is \<open>s[last:i]\<close>, what has been passed over and not written yet.\<close>

function escape_loop :: "escapeMode \<Rightarrow> string \<Rightarrow> string \<Rightarrow> string" where
  "escape_loop m s pending =
     (if s = [] then pending
      else let (r, width) = decode_rune s
           in case escape_rune m r width of
                None \<Rightarrow> escape_loop m (drop width s) (pending @ take width s)
              | Some esc \<Rightarrow> pending @ esc @ escape_loop m (drop width s) [])"
  by pat_completeness auto
termination
  by (relation "measure (\<lambda>(m, s, p). length s)") (auto dest: decode_rune_pos intro!: diff_less)

declare escape_loop.simps [simp del]

definition escapeString :: "string \<Rightarrow> escapeMode \<Rightarrow> string" where
  "escapeString s m = escape_loop m s []"

subsection \<open>What a reader makes of it\<close>

definition references :: "(string \<times> char) list" where
  "references = [(''amp;'', CHR ''&''), (''lt;'', CHR ''<''), (''gt;'', CHR ''>''), (''apos;'', sq), (''quot;'', dq),
     (''#x9;'', tab), (''#xA;'', nl), (''#xD;'', cr)]"

function unescape :: "string \<Rightarrow> string" where
  "unescape s =
     (case s of
        [] \<Rightarrow> []
      | c # cs \<Rightarrow>
          if c = CHR ''&''
          then case find (\<lambda>(name, x). take (length name) cs = name) references of
                 None \<Rightarrow> c # unescape cs
               | Some (name, x) \<Rightarrow> x # unescape (drop (length name) cs)
          else c # unescape cs)"
  by pat_completeness auto
termination
  by (relation "measure length") auto

declare unescape.simps [simp del]

function eol :: "string \<Rightarrow> string" where
  "eol s =
     (case s of
        [] \<Rightarrow> []
      | c # cs \<Rightarrow> if c = cr then nl # eol (if take 1 cs = [nl] then drop 1 cs else cs) else c # eol cs)"
  by pat_completeness auto
termination
  by (relation "measure length") auto

declare eol.simps [simp del]

text \<open>Bytes that are no characters of XML are replaced.\<close>

definition sanitize :: "string \<Rightarrow> string" where
  "sanitize s = concat (map (\<lambda>(r, b). if \<not> isInCharacterRange r \<or> (r = 0xFFFD \<and> length b = 1) then replacement else b) (chunks s))"

lemma unescape_Nil [simp]: "unescape [] = []"
  by (simp add: unescape.simps)

lemma unescape_plain: "CHR ''&'' \<notin> set x \<Longrightarrow> unescape (x @ y) = x @ unescape y"
proof (induction x)
  case (Cons c x)
  then show ?case using unescape.simps [of "c # x @ y"] by auto
qed simp

lemma unescape_reference:
  "(name, x) \<in> set references \<Longrightarrow> unescape (CHR ''&'' # name @ y) = x # unescape y"
  unfolding references_def by (subst unescape.simps) (simp add: references_def, elim disjE conjE, simp_all)

lemma escape_step:
  "s \<noteq> [] \<Longrightarrow> decode_rune s = (r, w) \<Longrightarrow>
   escape_loop m s [] = (case escape_rune m r w of None \<Rightarrow> take w s | Some e \<Rightarrow> e) @ escape_loop m (drop w s) []"
proof -
  have pend: "escape_loop m s p = p @ escape_loop m s []" for s p
  proof (induction "length s" arbitrary: s p rule: less_induct)
    case less
    show ?case
    proof (cases "s = []")
      case False
      obtain r w where d: "decode_rune s = (r, w)" by (cases "decode_rune s")
      then have "0 < w" using decode_rune_width [OF False] by simp
      then have "length (drop w s) < length s" using False by simp
      note IH = less [OF this]
      show ?thesis
        using False d IH [of "p @ take w s"] IH [of "take w s"]
        by (simp add: escape_loop.simps [of m s] split: option.split)
    qed (simp add: escape_loop.simps)
  qed
  assume "s \<noteq> []" "decode_rune s = (r, w)"
  then show ?thesis using pend [of "drop w s" "take w s"] by (subst escape_loop.simps) (simp split: option.split)
qed


definition bad_rune :: "rune \<Rightarrow> nat \<Rightarrow> bool" where
  "bad_rune r w \<longleftrightarrow> \<not> isInCharacterRange r \<or> (r = 0xFFFD \<and> w = 1)"

lemma sanitize_step:
  "s \<noteq> [] \<Longrightarrow> decode_rune s = (r, w) \<Longrightarrow> sanitize s = (if bad_rune r w then replacement else take w s) @ sanitize (drop w s)"
  using decode_rune_width_le [of s] unfolding sanitize_def
  by (subst chunks.simps) (simp add: bad_rune_def min_absorb2)

lemma sanitize_Nil [simp]: "sanitize [] = []"
  by (simp add: sanitize_def chunks.simps)

lemma escapeString_Nil [simp]: "escapeString [] m = []"
  by (simp add: escapeString_def escape_loop.simps)

text \<open>What one rune gives: a reference, the replacement, or its own bytes.\<close>

lemma escape_rune_reference:
  "escape_rune m r w = Some e \<Longrightarrow> \<not> bad_rune r w \<Longrightarrow> (tl e, char_of r) \<in> set references \<and> e = CHR ''&'' # tl e"
  by (simp add: escape_rune_def references_def bad_rune_def char_of_def split: if_splits) (auto simp: bit_0)

lemma escape_rune_None:
  assumes "escape_rune m r w = None"
  shows "r \<noteq> byte (CHR ''&'')" "r \<noteq> byte (CHR ''<'')" "isInCharacterRange r" "m \<noteq> escapeCanonicalText \<Longrightarrow> r \<noteq> byte dq" "m \<noteq> escapeNormal \<Longrightarrow> r \<noteq> byte cr"
proof -
  show "isInCharacterRange r"
  proof (rule ccontr)
    assume n: "\<not> isInCharacterRange r"
    then have "r \<notin> {62, 39, 34, 9, 10, 13}" by (auto simp: isInCharacterRange_def)
    then show False using assms n by (simp add: escape_rune_def split: if_splits)
  qed
qed (use assms in \<open>auto simp: escape_rune_def\<close>)

lemma escape_rune_cases:
  assumes "s \<noteq> []" "decode_rune s = (r, w)"
  obtains (ref) name x where "(name, x) \<in> set references" "escape_rune m r w = Some (CHR ''&'' # name)" "take w s = [x]" "\<not> bad_rune r w"
    | (bad) "escape_rune m r w = Some replacement" "bad_rune r w"
    | (raw) "escape_rune m r w = None" "\<not> bad_rune r w" "CHR ''&'' \<notin> set (take w s)" "CHR ''<'' \<notin> set (take w s)"
        "m \<noteq> escapeCanonicalText \<Longrightarrow> dq \<notin> set (take w s)" "m \<noteq> escapeNormal \<Longrightarrow> cr \<notin> set (take w s)"
proof -
  obtain c cs where s: "s = c # cs" using assms(1) by (cases s) auto
  show thesis
  proof (cases "ascii c")
    case True
    then have d: "r = byte c" "w = 1" "byte c < 128" using assms(2) s by (auto simp: decode_rune_ascii ascii_def)
    have bad: "bad_rune r w \<longleftrightarrow> \<not> isInCharacterRange r" using d by (simp add: bad_rune_def)
    show thesis
    proof (cases "escape_rune m r w")
      case None
      then have "c \<noteq> CHR ''&''" "c \<noteq> CHR ''<''" "isInCharacterRange r" "m \<noteq> escapeCanonicalText \<Longrightarrow> c \<noteq> dq" "m \<noteq> escapeNormal \<Longrightarrow> c \<noteq> cr"
        using escape_rune_None [OF None] d(1) by auto
      then show thesis using raw None bad s d by auto
    next
      case (Some e)
      show thesis
      proof (cases "bad_rune r w")
        case True
        then have "r \<noteq> 38 \<and> r \<noteq> 60 \<and> r \<noteq> 62 \<and> r \<noteq> 39 \<and> r \<noteq> 34 \<and> r \<noteq> 9 \<and> r \<noteq> 10 \<and> r \<noteq> 13"
          using bad by (auto simp: isInCharacterRange_def)
        then have "e = replacement" using Some by (simp add: escape_rune_def split: if_splits)
        then show thesis using bad True Some that(2) by simp
      next
        case False
        then have "(tl e, c) \<in> set references \<and> e = CHR ''&'' # tl e"
          using escape_rune_reference [OF Some] d(1) by simp
        then show thesis using that(1) [of "tl e" c] Some False s d by simp
      qed
    qed
  next
    case False
    have n: "128 \<le> r" "\<forall>x \<in> set (take w s). \<not> ascii x"
      using decode_rune_nonascii [OF False, of cs] assms(2) s by (simp_all add: nonascii_run_def)
    have no: "x \<notin> set (take w s)" if "ascii x" for x using n(2) that by blast
    have e: "escape_rune m r w = (if bad_rune r w then Some replacement else None)"
      using n(1) by (simp add: escape_rune_def bad_rune_def)
    show thesis using that(2,3) e by (cases "bad_rune r w") (simp_all add: no ascii_def)
  qed
qed

lemma escape_induct [case_names Nil step]:
  assumes "P []" "\<And>s r w. s \<noteq> [] \<Longrightarrow> decode_rune s = (r, w) \<Longrightarrow> P (drop w s) \<Longrightarrow> P s"
  shows "P s"
proof (induction "length s" arbitrary: s rule: less_induct)
  case less
  show ?case
  proof (cases "s = []")
    case False
    obtain r w where d: "decode_rune s = (r, w)" by (cases "decode_rune s")
    then have "0 < w" using decode_rune_width [OF False] by simp
    then have "length (drop w s) < length s" using False by simp
    then show ?thesis using assms(2) [OF False d] less by blast
  qed (use assms(1) in simp)
qed

lemma unescape_escape: "unescape (escapeString s m) = sanitize s"
proof (induction s rule: escape_induct)
  case (step s r w)
  note e = escape_step [OF step(1,2), of m, folded escapeString_def] and z = sanitize_step [OF step(1,2)]
  from step(1,2) show ?case
  proof (cases rule: escape_rune_cases [where m = m])
    case (ref name x)
    then show ?thesis using e z step(3) unescape_reference [of name x] by simp
  next
    case bad
    then show ?thesis using e z step(3) unescape_plain [of replacement] by (simp add: replacement_def)
  next
    case raw
    then show ?thesis using e z step(3) unescape_plain [of "take w s"] by simp
  qed
qed simp

lemma reference_chars: "(name, x) \<in> set references \<Longrightarrow> CHR ''<'' \<notin> set name \<and> dq \<notin> set name \<and> cr \<notin> set name \<and> nl \<notin> set name \<and> name \<noteq> []"
  by (auto simp: references_def)

lemma escape_safe:
  "CHR ''<'' \<notin> set (escapeString s m) \<and> (m \<noteq> escapeCanonicalText \<longrightarrow> dq \<notin> set (escapeString s m))
    \<and> (m \<noteq> escapeNormal \<longrightarrow> cr \<notin> set (escapeString s m))"
proof (induction s rule: escape_induct)
  case (step s r w)
  note e = escape_step [OF step(1,2), of m, folded escapeString_def]
  from step(1,2) show ?case
  proof (cases rule: escape_rune_cases [where m = m])
    case (ref name x)
    then show ?thesis using e step(3) reference_chars [of name x] by simp
  next
    case bad
    then show ?thesis using e step(3) by (simp add: replacement_def)
  next
    case raw
    then show ?thesis using e step(3) by auto
  qed
qed simp

lemma eol_simps [simp]:
  "eol [] = []" "c \<noteq> cr \<Longrightarrow> eol (c # cs) = c # eol cs" "eol (cr # nl # cs) = nl # eol cs"
  "take 1 cs \<noteq> [nl] \<Longrightarrow> eol (cr # cs) = nl # eol cs"
  by (simp add: eol.simps, subst eol.simps, simp, subst eol.simps, simp, subst eol.simps, simp)

lemma eol_Cons: "eol (c # cs) = (if c = cr then nl else c) # eol (if c = cr \<and> take 1 cs = [nl] then tl cs else cs)"
  by (subst eol.simps) (simp add: drop_Suc)

lemma eol_plain: "cr \<notin> set x \<Longrightarrow> eol (x @ y) = x @ eol y"
  by (induction x) auto

lemma eol_id: "cr \<notin> set x \<Longrightarrow> eol x = x"
  using eol_plain [of x "[]"] by simp

lemma cr_eol: "cr \<notin> set (eol s)"
proof (induction s rule: eol.induct)
  case (1 s)
  show ?case
  proof (cases s)
    case (Cons c cs)
    then show ?thesis using 1 eol.simps [of s] by (cases "c = cr") simp_all
  qed simp
qed

text \<open>Line ends pass through the escaping of plain text.\<close>

lemma escape_ascii:
  "ascii c \<Longrightarrow> escapeString (c # cs) m = (case escape_rune m (byte c) 1 of None \<Rightarrow> [c] | Some e \<Rightarrow> e) @ escapeString cs m"
  using escape_step [of "c # cs" "byte c" 1 m] by (simp add: escapeString_def decode_rune_ascii split: option.split)

lemma escape_line_ends: "escapeString (cr # cs) escapeNormal = cr # escapeString cs escapeNormal"
  "escapeString (nl # cs) escapeNormal = nl # escapeString cs escapeNormal"
  by (simp_all add: escape_ascii ascii_def escape_rune_def)

lemma escape_hd: "take 1 (escapeString s escapeNormal) = [nl] \<longleftrightarrow> take 1 s = [nl]"
proof (cases s)
  case (Cons c cs)
  show ?thesis
  proof (cases "c = nl")
    case False
    obtain r w where d: "decode_rune (c # cs) = (r, w)" by fastforce
    then obtain k where k: "w = Suc k" using decode_rune_width [of "c # cs"] by (cases w) auto
    show ?thesis
      using list.distinct(2) d
    proof (cases rule: escape_rune_cases [of "c # cs" r w escapeNormal])
      case (ref name x)
      then show ?thesis using escape_step [of "c # cs" r w escapeNormal] d False Cons by (simp add: escapeString_def)
    next
      case bad
      then show ?thesis using escape_step [of "c # cs" r w escapeNormal] d False Cons by (simp add: escapeString_def replacement_def)
    next
      case raw
      then show ?thesis using escape_step [of "c # cs" r w escapeNormal] d False Cons k by (simp add: escapeString_def)
    qed
  qed (use Cons in \<open>simp add: escape_line_ends\<close>)
qed simp

lemma decode2_eol: "decode2 b (eol cs) = decode2 b cs"
  by (cases cs) (auto simp: decode2_def in_range_def eol_Cons)

lemma decode3_eol: "decode3 b (eol cs) = decode3 b cs"
proof (cases cs)
  case (Cons c1 ds)
  then show ?thesis by (cases ds) (auto simp: decode3_def in_range_def eol_Cons split: list.split)
qed (simp add: decode3_def)

lemma decode4_eol: "decode4 b (eol cs) = decode4 b cs"
proof (cases cs)
  case (Cons c1 ds)
  show ?thesis
  proof (cases ds)
    case Nil
    then show ?thesis using Cons by (auto simp: decode4_def in_range_def eol_Cons)
  next
    case (Cons c2 es)
    then show ?thesis using \<open>cs = c1 # ds\<close> by (cases es) (auto simp: decode4_def in_range_def eol_Cons split: list.split)
  qed
qed (simp add: decode4_def)

lemma decode_eol: "c \<noteq> cr \<Longrightarrow> decode_rune (eol (c # cs)) = decode_rune (c # cs)"
  by (simp add: decode_rune.simps Let_def decode2_eol decode3_eol decode4_eol)

lemma escape_no_cr: "escape_rune m r w = Some e \<Longrightarrow> cr \<notin> set e"
  by (auto simp: escape_rune_def replacement_def split: if_splits)

lemma eol_escape: "eol (escapeString s escapeNormal) = escapeString (eol s) escapeNormal"
proof (induction "length s" arbitrary: s rule: less_induct)
  case less
  show ?case
  proof (cases s)
    case (Cons c cs)
    show ?thesis
    proof (cases "c = cr")
      case True
      consider ds where "cs = nl # ds" | "take 1 cs \<noteq> [nl]" by (cases cs) auto
      then show ?thesis
        by cases (use less True Cons escape_hd [of cs] in \<open>simp_all add: escape_line_ends\<close>)
    next
      case False
      obtain r w where d: "decode_rune s = (r, w)" by fastforce
      have w: "0 < w" "w \<le> length s" using decode_rune_width [of s] decode_rune_width_le [of s] Cons d by auto
      then have IH: "eol (escapeString (drop w s) escapeNormal) = escapeString (eol (drop w s)) escapeNormal" using less Cons by simp
      have nocr: "cr \<notin> set (take w s)"
      proof (cases "ascii c")
        case True
        then have "w = 1" using d Cons by (simp add: decode_rune_ascii)
        then show ?thesis using Cons False by simp
      next
        case False
        then show ?thesis using decode_rune_nonascii [OF False, of cs] d Cons by (auto simp: nonascii_run_def ascii_def)
      qed
      have split: "eol s = take w s @ eol (drop w s)" using eol_plain [OF nocr, of "drop w s"] by simp
      have e: "escapeString s escapeNormal = (case escape_rune escapeNormal r w of None \<Rightarrow> take w s | Some e \<Rightarrow> e) @ escapeString (drop w s) escapeNormal"
        using escape_step [of s r w escapeNormal] d Cons by (simp add: escapeString_def)
      have "decode_rune (eol s) = (r, w)" "eol s \<noteq> []" using decode_eol [OF False, of cs] d Cons False by simp_all
      then have f: "escapeString (eol s) escapeNormal
          = (case escape_rune escapeNormal r w of None \<Rightarrow> take w s | Some e \<Rightarrow> e) @ escapeString (eol (drop w s)) escapeNormal"
        using escape_step [of "eol s" r w escapeNormal] w(2) by (simp add: escapeString_def split min_absorb2 split: option.split)
      have "cr \<notin> set (case escape_rune escapeNormal r w of None \<Rightarrow> take w s | Some e \<Rightarrow> e)"
        using nocr escape_no_cr by (auto split: option.split)
      then show ?thesis using IH e f eol_plain by simp
    qed
  qed simp
qed


text \<open>Reading what was escaped: only carriage returns of plain text are lost.\<close>

lemma read_escaped: "unescape (eol (escapeString s m)) = sanitize (if m = escapeNormal then eol s else s)"
proof (cases "m = escapeNormal")
  case True
  then show ?thesis by (simp add: eol_escape unescape_escape)
next
  case False
  then have "cr \<notin> set (escapeString s m)" using escape_safe by blast
  then show ?thesis using False by (simp add: eol_id unescape_escape)
qed

lemma cr_sanitize: "cr \<in> set (sanitize s) \<longleftrightarrow> cr \<in> set s"
proof (induction s rule: escape_induct)
  case (step s r w)
  have b: "cr \<notin> set (take w s)" if "bad_rune r w"
  proof -
    obtain c cs where s: "s = c # cs" using step(1) by (cases s) auto
    show ?thesis
    proof (cases "ascii c")
      case True
      then have "r = byte c" "w = 1" using step(2) s by (simp_all add: decode_rune_ascii)
      then have "c \<noteq> cr" using that by (auto simp: bad_rune_def isInCharacterRange_def)
      then show ?thesis using s \<open>w = 1\<close> by simp
    next
      case False
      then show ?thesis using decode_rune_nonascii [OF False, of cs] step(2) s by (auto simp: nonascii_run_def ascii_def)
    qed
  qed
  have "set s = set (take w s) \<union> set (drop w s)" by (metis append_take_drop_id set_append)
  then show ?case using sanitize_step [OF step(1,2)] step(3) b by (auto simp: replacement_def split: if_splits)
qed simp

lemma escape_roundtrip:
  "unescape (eol (escapeString s m)) = sanitize s \<longleftrightarrow> (m = escapeNormal \<longrightarrow> cr \<notin> set s)"
proof (cases "m = escapeNormal \<and> cr \<in> set s")
  case True
  then have "sanitize (eol s) \<noteq> sanitize s" using cr_sanitize [of s] cr_sanitize [of "eol s"] cr_eol by metis
  then show ?thesis using True read_escaped by simp
qed (auto simp: read_escaped eol_id)

lemma indent_source:
  assumes "0 < k"
  shows "indentLF n ([cr, nl] @ replicate k x) = nl # replicate (nat n) x"
    "indentCRLF n ([cr, nl] @ replicate k x) = cr # nl # replicate (nat n) x"
proof -
  have c: "concat (replicate j [x]) = replicate j x" for j by (induction j) auto
  obtain k' where k: "k = Suc k'" using assms by (cases k) auto
  have m: "replicate k x @ replicate (nat (n - int k)) x = replicate (nat n) x" if "int k < n"
    using that by (simp flip: replicate_add)
  have s: "take (nat n) (replicate k x) = replicate (nat n) x" if "0 \<le> n" "n \<le> int k"
    using that by (simp add: min_absorb2 nat_le_iff)
  have t: "nat (n + 2) = Suc (Suc (nat n))" if "0 \<le> n" using that by simp
  have one: "take 1 (drop 2 ([cr, nl] @ replicate k x)) = [x]" by (simp add: k)
  show "indentLF n ([cr, nl] @ replicate k x) = nl # replicate (nat n) x"
    unfolding indentLF_def one c using m s t by (auto simp: not_less)
  show "indentCRLF n ([cr, nl] @ replicate k x) = cr # nl # replicate (nat n) x"
    unfolding indentCRLF_def one c using m s t by (auto simp: not_less)
qed

lemma indent_line: "indentLF n indentSpaces = nl # replicate (nat n) sp" "indentLF n indentTabs = nl # replicate (nat n) tab"
  "indentCRLF n indentSpaces = cr # nl # replicate (nat n) sp" "indentCRLF n indentTabs = cr # nl # replicate (nat n) tab"
  unfolding indentSpaces_def indentTabs_def by (rule indent_source; simp)+

end
