(* ===== verification/Xml_Fifo.thy ===== *)
theory Xml_Fifo
  imports Outcome "HOL-Library.Word"
begin

section \<open>Package goxml: queues and stacks\<close>

text \<open>
  \<^verbatim>\<open>goxml/helpers.go\<close>: the queue in a ring of slots that doubles when it is full, and the stack. A slot
  holds \<open>None\<close> for nil; \<open>Panic\<close> is an index out of range. The contract of a queue is the locale
  \<open>fifo_queue\<close>; the loops of the package that run until their queue is empty are instances of \<open>drain\<close>,
  about which the locale proves that the ring does not matter.
\<close>

record 'a fifo =
  fdata :: "'a option list"
  head :: nat
  tail :: nat

definition new_fifo :: "'a fifo" where
  "new_fifo = \<lparr>fdata = [], head = 0, tail = 0\<rparr>"

definition fifo_len :: "'a fifo \<Rightarrow> nat" where
  "fifo_len f = (if tail f \<ge> head f then tail f - head f else length (fdata f) - head f + tail f)"

text \<open>\<open>copy(buf[0:k], src)\<close> copies as many slots as both sides have.\<close>

definition grow :: "'a fifo \<Rightarrow> 'a fifo" where
  "grow f =
     (let c = (if length (fdata f) * 2 = 0 then 4 else length (fdata f) * 2);
          count = fifo_len f;
          used = (if tail f \<ge> head f then take (tail f - head f) (drop (head f) (fdata f))
                  else drop (head f) (fdata f) @ take (tail f) (fdata f))
      in \<lparr>fdata = used @ replicate (c - length used) None, head = 0, tail = count\<rparr>)"

definition fifo_add :: "'a \<Rightarrow> 'a fifo \<Rightarrow> 'a fifo outcome" where
  "fifo_add v f0 =
     (let f = (if fifo_len f0 + 1 \<ge> length (fdata f0) then grow f0 else f0)
      in if tail f \<ge> length (fdata f) then Panic
         else Ret (f\<lparr>fdata := (fdata f)[tail f := Some v],
                     tail := (if Suc (tail f) = length (fdata f) then 0 else Suc (tail f))\<rparr>))"

definition fifo_remove :: "'a fifo \<Rightarrow> ('a option \<times> 'a fifo) outcome" where
  "fifo_remove f =
     (if head f \<ge> length (fdata f) then Panic
      else Ret (fdata f ! head f,
                f\<lparr>fdata := (fdata f)[head f := None],
                  head := (if Suc (head f) = length (fdata f) then 0 else Suc (head f))\<rparr>))"

type_synonym 'a stack = "'a list"

definition stack_empty :: "'a stack \<Rightarrow> bool" where
  "stack_empty s \<longleftrightarrow> length s = 0"

definition push :: "'a stack \<Rightarrow> 'a \<Rightarrow> 'a stack" where
  "push s v = s @ [v]"

definition pop :: "'a stack \<Rightarrow> ('a \<times> 'a stack) outcome" where
  "pop s = (if s = [] then Panic else Ret (last s, butlast s))"

definition peek :: "'a stack \<Rightarrow> 'a outcome" where
  "peek s = (if s = [] then Panic else Ret (last s))"

lemma pop_push: "pop (push s v) = Ret (v, s)" "peek (push s v) = Ret v" "\<not> stack_empty (push s v)"
  by (simp_all add: pop_def push_def peek_def stack_empty_def)

subsection \<open>The contract of a queue\<close>

text \<open>
  The loop \<open>for q.add(x); q.len() > 0;\<close> with a body that takes an item and may add more. A body that
  never returns is \<open>None\<close>, as is a loop that never ends.
\<close>

partial_function (option) drain ::
  "('q \<Rightarrow> nat) \<Rightarrow> ('q \<Rightarrow> ('x option \<times> 'q) outcome) \<Rightarrow> ('x \<Rightarrow> 's \<Rightarrow> 'q \<Rightarrow> ('s \<times> 'q) res) \<Rightarrow> 'q \<Rightarrow> 's \<Rightarrow> 's res" where
  "drain len rem bdy q s =
     (if len q > 0
      then case rem q of
             Panic \<Rightarrow> Some Panic
           | Ret (None, q') \<Rightarrow> Some Panic
           | Ret (Some x, q') \<Rightarrow>
               Option.bind (bdy x s q')
                 (\<lambda>r. case r of Panic \<Rightarrow> Some Panic | Ret (s', q'') \<Rightarrow> drain len rem bdy q'' s')
      else Some (Ret s))"

text \<open>The same loop on a list: a step gives the new state and the items to add.\<close>

partial_function (option) list_drain :: "('x \<Rightarrow> 's \<Rightarrow> ('s \<times> 'x list) res) \<Rightarrow> 'x list \<Rightarrow> 's \<Rightarrow> 's res" where
  "list_drain step xs s =
     (case xs of
        [] \<Rightarrow> Some (Ret s)
      | x # xs' \<Rightarrow>
          Option.bind (step x s)
            (\<lambda>r. case r of Panic \<Rightarrow> Some Panic | Ret (s', ys) \<Rightarrow> list_drain step (xs' @ ys) s'))"

fun add_all :: "('x \<Rightarrow> 'q \<Rightarrow> 'q outcome) \<Rightarrow> 'x list \<Rightarrow> 'q \<Rightarrow> 'q outcome" where
  "add_all add [] q = Ret q"
| "add_all add (x # xs) q = (case add x q of Panic \<Rightarrow> Panic | Ret q' \<Rightarrow> add_all add xs q')"

locale fifo_queue =
  fixes empty :: 'q
    and add :: "'x \<Rightarrow> 'q \<Rightarrow> 'q outcome"
    and remove :: "'q \<Rightarrow> ('x option \<times> 'q) outcome"
    and len :: "'q \<Rightarrow> nat"
    and contents :: "'q \<Rightarrow> 'x list"
    and inv :: "'q \<Rightarrow> bool"
  assumes empty: "inv empty" "contents empty = []"
    and add: "inv q \<Longrightarrow> \<exists>q'. add x q = Ret q' \<and> inv q' \<and> contents q' = contents q @ [x]"
    and remove: "inv q \<Longrightarrow> contents q = x # xs \<Longrightarrow> \<exists>q'. remove q = Ret (Some x, q') \<and> inv q' \<and> contents q' = xs"
    and len: "inv q \<Longrightarrow> len q = length (contents q)"
begin

lemma add_all: "inv q \<Longrightarrow> \<exists>q'. add_all add xs q = Ret q' \<and> inv q' \<and> contents q' = contents q @ xs"
proof (induction xs arbitrary: q)
  case (Cons x xs)
  obtain q1 where q1: "add x q = Ret q1" "inv q1" "contents q1 = contents q @ [x]" using add [OF Cons.prems] by blast
  then show ?case using Cons.IH [OF q1(2)] by simp
qed simp

text \<open>A body that does to the queue what a step does to a list.\<close>

definition follows :: "('x \<Rightarrow> 's \<Rightarrow> 'q \<Rightarrow> ('s \<times> 'q) res) \<Rightarrow> ('x \<Rightarrow> 's \<Rightarrow> ('s \<times> 'x list) res) \<Rightarrow> bool" where
  "follows bdy step \<longleftrightarrow> (\<forall>x s q. inv q \<longrightarrow>
     (case step x s of
        None \<Rightarrow> bdy x s q = None
      | Some Panic \<Rightarrow> bdy x s q = Some Panic
      | Some (Ret (s', ys)) \<Rightarrow> \<exists>q'. bdy x s q = Some (Ret (s', q')) \<and> inv q' \<and> contents q' = contents q @ ys))"

lemma follows_cases:
  assumes "follows bdy step" "inv q"
  obtains "step x s = None" "bdy x s q = None" | "step x s = Some Panic" "bdy x s q = Some Panic"
    | s' ys q' where "step x s = Some (Ret (s', ys))" "bdy x s q = Some (Ret (s', q'))" "inv q'" "contents q' = contents q @ ys"
proof -
  have "case step x s of
      None \<Rightarrow> bdy x s q = None
    | Some Panic \<Rightarrow> bdy x s q = Some Panic
    | Some (Ret (s', ys)) \<Rightarrow> \<exists>q'. bdy x s q = Some (Ret (s', q')) \<and> inv q' \<and> contents q' = contents q @ ys"
    using assms by (simp add: follows_def)
  then show thesis using that by (cases "step x s") (auto split: outcome.splits)
qed

text \<open>One round of the loop takes the first item.\<close>

lemma drain_Nil: "inv q \<Longrightarrow> contents q = [] \<Longrightarrow> drain len remove bdy q s = Some (Ret s)"
  using len [of q] by (subst drain.simps) simp

lemma drain_Cons:
  assumes "inv q" "contents q = x # xs"
  obtains q' where "inv q'" "contents q' = xs"
    "drain len remove bdy q s = Option.bind (bdy x s q') (\<lambda>r. case r of Panic \<Rightarrow> Some Panic | Ret (s', q'') \<Rightarrow> drain len remove bdy q'' s')"
proof -
  obtain q' where q': "remove q = Ret (Some x, q')" "inv q'" "contents q' = xs" using remove [OF assms] by blast
  show thesis using that [OF q'(2,3)] assms q'(1) len [OF assms(1)] by (simp add: drain.simps [of len remove bdy q])
qed

lemma drain_to_list:
  assumes "follows bdy step" "list_drain step xs s = Some r" "inv q" "contents q = xs"
  shows "drain len remove bdy q s = Some r"
proof -
  have "st = step \<longrightarrow> (\<forall>q. inv q \<longrightarrow> contents q = xs \<longrightarrow> drain len remove bdy q s = Some r)"
    if "list_drain st xs s = Some r" for st xs s r
  proof (rule list_drain.raw_induct [where P = "\<lambda>st xs s r. st = step \<longrightarrow> (\<forall>q. inv q \<longrightarrow> contents q = xs \<longrightarrow> drain len remove bdy q s = Some r)", OF _ that])
    fix ld st xs s r
    assume 1: "\<And>st xs s r. ld st xs s = Some r \<Longrightarrow> st = step \<longrightarrow> (\<forall>q. inv q \<longrightarrow> contents q = xs \<longrightarrow> drain len remove bdy q s = Some r)"
      "(case xs of [] \<Rightarrow> Some (Ret s) | x # xs' \<Rightarrow>
          Option.bind (st x s) (\<lambda>r. case r of Panic \<Rightarrow> Some Panic | Ret (s', ys) \<Rightarrow> ld st (xs' @ ys) s')) = Some r"
    show "st = step \<longrightarrow> (\<forall>q. inv q \<longrightarrow> contents q = xs \<longrightarrow> drain len remove bdy q s = Some r)"
    proof (intro impI allI)
      fix q assume q: "st = step" "inv q" "contents q = xs"
      show "drain len remove bdy q s = Some r"
      proof (cases xs)
        case Nil
        then show ?thesis using 1(2) q by (simp add: drain_Nil)
      next
        case (Cons x xs')
        obtain q1 where q1: "inv q1" "contents q1 = xs'" "drain len remove bdy q s =
            Option.bind (bdy x s q1) (\<lambda>r. case r of Panic \<Rightarrow> Some Panic | Ret (s', q'') \<Rightarrow> drain len remove bdy q'' s')"
          by (rule drain_Cons [OF q(2), of x xs' bdy s]) (use q(3) Cons in simp)
        show ?thesis
          using assms(1) q1(1)
        proof (cases rule: follows_cases [of bdy step q1 x s])
          case (3 s' ys q')
          then show ?thesis using 1(1) [of step "xs' @ ys" s' r] 1(2) q(1) Cons q1 by simp
        qed (use 1(2) q(1) Cons q1(3) in simp_all)
      qed
    qed
  qed
  then show ?thesis using assms by blast
qed

end

subsection \<open>The ring keeps the contract\<close>

definition slot :: "'a fifo \<Rightarrow> nat \<Rightarrow> nat" where
  "slot f i = (head f + i) mod length (fdata f)"

definition fifo_contents :: "'a fifo \<Rightarrow> 'a list" where
  "fifo_contents f = map (\<lambda>i. the (fdata f ! slot f i)) [0..<fifo_len f]"

definition fifo_inv :: "'a fifo \<Rightarrow> bool" where
  "fifo_inv f \<longleftrightarrow> fdata f = [] \<and> head f = 0 \<and> tail f = 0
     \<or> head f < length (fdata f) \<and> tail f < length (fdata f) \<and> (\<forall>i < fifo_len f. fdata f ! slot f i \<noteq> None)"

lemma mod_once: "a < 2 * n \<Longrightarrow> a mod n = (if a < n then a else a - n)" for a n :: nat
  by (simp add: mod_if)

lemma fifo_tail:
  assumes "head f < length (fdata f)" "tail f < length (fdata f)"
  shows "fifo_len f < length (fdata f)" "tail f = slot f (fifo_len f)"
  using assms by (auto simp: fifo_len_def slot_def mod_once)

lemma slot_inj:
  assumes "head f < length (fdata f)" "i < length (fdata f)" "j < length (fdata f)" "slot f i = slot f j"
  shows "i = j"
  using assms by (auto simp: slot_def mod_once split: if_splits)

lemma used_slots:
  assumes "head f < length (fdata f)" "tail f < length (fdata f)"
  shows "(if tail f \<ge> head f then take (tail f - head f) (drop (head f) (fdata f))
          else drop (head f) (fdata f) @ take (tail f) (fdata f)) = map (\<lambda>i. fdata f ! slot f i) [0..<fifo_len f]"
  using assms by (intro nth_equalityI) (auto simp: fifo_len_def slot_def mod_once nth_append add.commute)

lemma grow_ok:
  assumes "fifo_inv f"
  shows "fifo_inv (grow f) \<and> fifo_contents (grow f) = fifo_contents f \<and> fifo_len (grow f) = fifo_len f
    \<and> fifo_len f + 1 < length (fdata (grow f)) \<and> tail (grow f) = fifo_len f \<and> head (grow f) = 0"
proof (cases "fdata f = []")
  case True
  then have "head f = 0" "tail f = 0" using assms by (auto simp: fifo_inv_def)
  then show ?thesis using True by (simp add: grow_def fifo_len_def fifo_inv_def fifo_contents_def)
next
  case False
  then have a: "head f < length (fdata f)" "tail f < length (fdata f)" "\<forall>i < fifo_len f. fdata f ! slot f i \<noteq> None"
    using assms by (auto simp: fifo_inv_def)
  let ?u = "map (\<lambda>i. fdata f ! slot f i) [0..<fifo_len f]"
  have g: "grow f = \<lparr>fdata = ?u @ replicate (length (fdata f) * 2 - fifo_len f) None, head = 0, tail = fifo_len f\<rparr>"
    using False used_slots [OF a(1,2)] by (simp add: grow_def Let_def)
  have l: "fifo_len f < length (fdata f)" using fifo_tail [OF a(1,2)] by simp
  then have len: "fifo_len (grow f) = fifo_len f" "length (fdata (grow f)) = length (fdata f) * 2"
    by (simp_all add: g) (simp add: fifo_len_def)
  have s: "fdata (grow f) ! slot (grow f) i = fdata f ! slot f i" if "i < fifo_len f" for i
    using that l by (simp add: g slot_def [of "\<lparr>fdata = _, head = _, tail = _\<rparr>"] nth_append)
  show ?thesis using a(3) l s len by (auto simp: fifo_inv_def fifo_contents_def) (simp_all add: g)
qed

lemma add_room:
  fixes v :: 'a
  assumes "fifo_inv f" "fifo_len f + 1 < length (fdata f)"
  defines "f' \<equiv> f\<lparr>fdata := (fdata f)[tail f := Some v], tail := (if Suc (tail f) = length (fdata f) then 0 else Suc (tail f))\<rparr>"
  shows "fifo_inv f' \<and> fifo_contents f' = fifo_contents f @ [v] \<and> tail f < length (fdata f)"
proof -
  have a: "head f < length (fdata f)" "tail f < length (fdata f)" "\<forall>i < fifo_len f. fdata f ! slot f i \<noteq> None"
    using assms(1,2) by (auto simp: fifo_inv_def)
  note t = fifo_tail [OF a(1,2)]
  have len: "fifo_len f' = Suc (fifo_len f)"
    using a(1,2) assms(2) unfolding f'_def by (auto simp: fifo_len_def)
  have sl: "slot f' i = slot f i" for i by (simp add: f'_def slot_def)
  have old: "fdata f' ! slot f i = fdata f ! slot f i" if "i < fifo_len f" for i
  proof -
    have "tail f \<noteq> slot f i" using that slot_inj [OF a(1), of i "fifo_len f"] t by auto
    then show ?thesis by (simp add: f'_def)
  qed
  have new: "fdata f' ! slot f (fifo_len f) = Some v" using t a(2) by (simp add: f'_def)
  have r: "head f' < length (fdata f')" "tail f' < length (fdata f')" using a(1,2) by (auto simp: f'_def)
  show ?thesis using a old new len r by (auto simp: fifo_inv_def fifo_contents_def sl less_Suc_eq)
qed

lemma fifo_add_ok: "fifo_inv f \<Longrightarrow> \<exists>f'. fifo_add v f = Ret f' \<and> fifo_inv f' \<and> fifo_contents f' = fifo_contents f @ [v]"
proof -
  assume f: "fifo_inv f"
  show ?thesis
  proof (cases "fifo_len f + 1 \<ge> length (fdata f)")
    case True
    then show ?thesis using grow_ok [OF f] add_room [of "grow f" v] by (simp add: fifo_add_def Let_def)
  next
    case False
    then show ?thesis using add_room [OF f, of v] by (simp add: fifo_add_def Let_def)
  qed
qed

lemma fifo_remove_ok:
  assumes "fifo_inv f" "fifo_contents f = x # xs"
  shows "\<exists>f'. fifo_remove f = Ret (Some x, f') \<and> fifo_inv f' \<and> fifo_contents f' = xs"
proof -
  have pos: "0 < fifo_len f" using arg_cong [OF assms(2), of length] by (simp add: fifo_contents_def)
  then have a: "head f < length (fdata f)" "tail f < length (fdata f)" "\<forall>i < fifo_len f. fdata f ! slot f i \<noteq> None"
    using assms(1) by (auto simp: fifo_inv_def fifo_len_def)
  note t = fifo_tail [OF a(1,2)]
  define f' where "f' = f\<lparr>fdata := (fdata f)[head f := None], head := (if Suc (head f) = length (fdata f) then 0 else Suc (head f))\<rparr>"
  have len: "fifo_len f = Suc (fifo_len f')" using a(1,2) pos unfolding f'_def by (auto simp: fifo_len_def)
  have sl: "slot f' i = slot f (Suc i)" if "i < fifo_len f'" for i
    using that a(1) t(1) len by (auto simp: f'_def slot_def mod_once)
  have h: "slot f 0 = head f" using a(1) by (simp add: slot_def)
  have old: "fdata f' ! slot f (Suc i) = fdata f ! slot f (Suc i)" if "i < fifo_len f'" for i
  proof -
    have "head f \<noteq> slot f (Suc i)" using that slot_inj [OF a(1), of "Suc i" 0] t(1) len h a(1) by fastforce
    then show ?thesis by (simp add: f'_def)
  qed
  have "fifo_contents f = the (fdata f ! head f) # map (\<lambda>i. the (fdata f ! slot f (Suc i))) [0..<fifo_len f']"
    by (simp add: fifo_contents_def len map_upt_Suc h del: upt_Suc)
  moreover have "fifo_contents f' = map (\<lambda>i. the (fdata f ! slot f (Suc i))) [0..<fifo_len f']"
    using sl old by (simp add: fifo_contents_def)
  moreover have "fdata f ! head f = Some (the (fdata f ! head f))" using a(3) pos h by (metis option.exhaust_sel)
  moreover have "head f' < length (fdata f')" "tail f' < length (fdata f')" using a(1,2) by (auto simp: f'_def)
  then have "fifo_inv f'" using a sl old len by (auto simp: fifo_inv_def)
  ultimately show ?thesis using a(1) assms(2) by (auto simp: fifo_remove_def f'_def)
qed

interpretation ring: fifo_queue new_fifo fifo_add fifo_remove fifo_len fifo_contents fifo_inv
proof
  show "fifo_inv new_fifo" "fifo_contents new_fifo = []" by (simp_all add: fifo_inv_def fifo_contents_def new_fifo_def fifo_len_def)
  show "\<exists>q'. fifo_add x q = Ret q' \<and> fifo_inv q' \<and> fifo_contents q' = fifo_contents q @ [x]" if "fifo_inv q" for q :: "'a fifo" and x
    using that by (rule fifo_add_ok)
  show "\<exists>q'. fifo_remove q = Ret (Some x, q') \<and> fifo_inv q' \<and> fifo_contents q' = xs"
    if "fifo_inv q" "fifo_contents q = x # xs" for q :: "'a fifo" and x xs
    using that by (rule fifo_remove_ok)
  show "fifo_len q = length (fifo_contents q)" for q :: "'a fifo" by (simp add: fifo_contents_def)
qed

end
