(* ===== verification/Xml_Heap.thy ===== *)
theory Xml_Heap
  imports Xml_Text Xml_Fifo "HOL-Library.List_Lexorder" "HOL-Library.Product_Lexorder"
begin

section \<open>Package goxml: tokens and trees in memory\<close>

text \<open>
  \<^verbatim>\<open>goxml/goxml.go\<close>. Tokens point to their parent and elements to their children, so the model has a
  memory: the list of all tokens made so far, in which an address is a position, new tokens are put at
  the end, and nil is \<open>None\<close>. The five kinds of token share the fields \<open>parent\<close> and \<open>index\<close>; the rest is
  their \<open>body\<close>. A pointer of type \<open>*Element\<close> is the address of a token with an element body. A function
  that changes tokens takes the memory and returns it; \<open>Panic\<close> is an index out of range.
\<close>

type_synonym addr = nat

record Attr =
  ASpace :: string
  Key :: string
  Value :: string
  element :: "addr option"

datatype body =
    Element (Space: string) (Tag: string) (Attrs: "Attr list") (Child: "addr list")
  | CharData (Data: string) (flags: "8 word")
  | Comment string
  | Directive string
  | ProcInst string string

record token =
  body :: body
  parent :: "addr option"
  index :: int

type_synonym heap = "token list"

definition whitespaceFlag :: "8 word" where
  "whitespaceFlag = push_bit 0 1"

definition cdataFlag :: "8 word" where
  "cdataFlag = push_bit 1 1"

definition child :: "heap \<Rightarrow> addr \<Rightarrow> addr list" where
  "child h e = (case body (h ! e) of Element _ _ _ cs \<Rightarrow> cs | _ \<Rightarrow> [])"

definition attrs :: "heap \<Rightarrow> addr \<Rightarrow> Attr list" where
  "attrs h e = (case body (h ! e) of Element _ _ as _ \<Rightarrow> as | _ \<Rightarrow> [])"

definition space :: "heap \<Rightarrow> addr \<Rightarrow> string" where
  "space h e = (case body (h ! e) of Element s _ _ _ \<Rightarrow> s | _ \<Rightarrow> [])"

definition tag :: "heap \<Rightarrow> addr \<Rightarrow> string" where
  "tag h e = (case body (h ! e) of Element _ t _ _ \<Rightarrow> t | _ \<Rightarrow> [])"

definition is_Elem :: "heap \<Rightarrow> addr \<Rightarrow> bool" where
  "is_Elem h t \<longleftrightarrow> (case body (h ! t) of Element _ _ _ _ \<Rightarrow> True | _ \<Rightarrow> False)"

definition is_Char :: "heap \<Rightarrow> addr \<Rightarrow> bool" where
  "is_Char h t \<longleftrightarrow> (case body (h ! t) of CharData _ _ \<Rightarrow> True | _ \<Rightarrow> False)"

definition IsCData :: "8 word \<Rightarrow> bool" where
  "IsCData f \<longleftrightarrow> and f cdataFlag \<noteq> 0"

definition IsWhitespace :: "8 word \<Rightarrow> bool" where
  "IsWhitespace f \<longleftrightarrow> and f whitespaceFlag \<noteq> 0"

definition is_indent :: "heap \<Rightarrow> addr \<Rightarrow> bool" where
  "is_indent h t \<longleftrightarrow> (case body (h ! t) of CharData _ f \<Rightarrow> IsWhitespace f | _ \<Rightarrow> False)"

subsection \<open>Fields\<close>

definition setParent :: "heap \<Rightarrow> addr \<Rightarrow> addr option \<Rightarrow> heap" where
  "setParent h t p = h[t := (h ! t)\<lparr>parent := p\<rparr>]"

definition setIndex :: "heap \<Rightarrow> addr \<Rightarrow> int \<Rightarrow> heap" where
  "setIndex h t i = h[t := (h ! t)\<lparr>index := i\<rparr>]"

definition setBody :: "heap \<Rightarrow> addr \<Rightarrow> body \<Rightarrow> heap" where
  "setBody h t b = h[t := (h ! t)\<lparr>body := b\<rparr>]"

definition setChild :: "heap \<Rightarrow> addr \<Rightarrow> addr list \<Rightarrow> heap" where
  "setChild h e cs = (case body (h ! e) of Element s t as _ \<Rightarrow> setBody h e (Element s t as cs) | _ \<Rightarrow> h)"

definition setAttrs :: "heap \<Rightarrow> addr \<Rightarrow> Attr list \<Rightarrow> heap" where
  "setAttrs h e as = (case body (h ! e) of Element s t _ cs \<Rightarrow> setBody h e (Element s t as cs) | _ \<Rightarrow> h)"

text \<open>The loops \<open>for j := k; j < len(e.Child); j++ { e.Child[j].setIndex(j) }\<close>.\<close>

fun renumber :: "heap \<Rightarrow> int \<Rightarrow> addr list \<Rightarrow> heap" where
  "renumber h k [] = h"
| "renumber h k (t # ts) = renumber (setIndex h t k) (k + 1) ts"

subsection \<open>Children\<close>

definition addChild :: "heap \<Rightarrow> addr \<Rightarrow> addr \<Rightarrow> heap" where
  "addChild h e t =
     (let h1 = setParent h t (Some e);
          h2 = setIndex h1 t (int (length (child h1 e)))
      in setChild h2 e (child h2 e @ [t]))"

definition RemoveChildAt :: "heap \<Rightarrow> addr \<Rightarrow> int \<Rightarrow> (addr option \<times> heap) outcome" where
  "RemoveChildAt h e i =
     (let cs = child h e
      in if i \<ge> int (length cs) then Ret (None, h)
         else if i < 0 then Panic
         else let t = cs ! nat i;
                  h1 = renumber h i (drop (Suc (nat i)) cs);
                  h2 = setChild h1 e (take (nat i) cs @ drop (Suc (nat i)) cs)
              in Ret (Some t, setParent (setIndex h2 t (- 1)) t None))"

definition RemoveChild :: "heap \<Rightarrow> addr \<Rightarrow> addr \<Rightarrow> (addr option \<times> heap) outcome" where
  "RemoveChild h e t =
     (if parent (h ! t) \<noteq> Some e then Ret (None, h) else RemoveChildAt h e (index (h ! t)))"

text \<open>\<open>if t.Parent() != nil { t.Parent().RemoveChild(t) }\<close>\<close>

definition detach :: "heap \<Rightarrow> addr \<Rightarrow> heap outcome" where
  "detach h t =
     (case parent (h ! t) of
        None \<Rightarrow> Ret h
      | Some p \<Rightarrow> (case RemoveChild h p t of Panic \<Rightarrow> Panic | Ret (_, h') \<Rightarrow> Ret h'))"

definition AddChild :: "heap \<Rightarrow> addr \<Rightarrow> addr \<Rightarrow> heap outcome" where
  "AddChild h e t = (case detach h t of Panic \<Rightarrow> Panic | Ret h1 \<Rightarrow> Ret (addChild h1 e t))"

text \<open>The common end of the two insertions: room is made at the slot, and the tokens from there numbered.\<close>

definition insert_slot :: "heap \<Rightarrow> addr \<Rightarrow> int \<Rightarrow> addr \<Rightarrow> heap outcome" where
  "insert_slot h0 e i t =
     (let h = setParent h0 t (Some e); cs = child h e
      in if i < 0 \<or> i > int (length cs) then Panic
         else let cs' = take (nat i) cs @ t # drop (nat i) cs
              in Ret (renumber (setChild h e cs') i (drop (nat i) cs')))"

definition InsertChild :: "heap \<Rightarrow> addr \<Rightarrow> addr option \<Rightarrow> addr \<Rightarrow> heap outcome" where
  "InsertChild h e ex t =
     (case ex of
        None \<Rightarrow> AddChild h e t
      | Some x \<Rightarrow>
          if parent (h ! x) \<noteq> Some e then AddChild h e t
          else case detach h t of
                 Panic \<Rightarrow> Panic
               | Ret h1 \<Rightarrow> insert_slot h1 e (index (h1 ! x)) t)"

definition InsertChildAt :: "heap \<Rightarrow> addr \<Rightarrow> int \<Rightarrow> addr \<Rightarrow> heap outcome" where
  "InsertChildAt h e i t =
     (if i \<ge> int (length (child h e)) then AddChild h e t
      else let i' = (if parent (h ! t) = Some e \<and> index (h ! t) > i then i - 1 else i)
           in case detach h t of Panic \<Rightarrow> Panic | Ret h1 \<Rightarrow> insert_slot h1 e i' t)"

subsection \<open>New tokens\<close>

definition new_token :: "heap \<Rightarrow> body \<Rightarrow> addr option \<Rightarrow> addr \<times> heap" where
  "new_token h b p =
     (let t = length h; h1 = h @ [\<lparr>body = b, parent = None, index = - 1\<rparr>]
      in (t, case p of None \<Rightarrow> h1 | Some e \<Rightarrow> addChild h1 e t))"

definition newElement :: "heap \<Rightarrow> string \<Rightarrow> string \<Rightarrow> addr option \<Rightarrow> addr \<times> heap" where
  "newElement h s tg p =
     (let t = length h; h1 = h @ [\<lparr>body = Element s tg [] [], parent = p, index = - 1\<rparr>]
      in (t, case p of None \<Rightarrow> h1 | Some e \<Rightarrow> addChild h1 e t))"

definition newCharData :: "heap \<Rightarrow> string \<Rightarrow> 8 word \<Rightarrow> addr option \<Rightarrow> addr \<times> heap" where
  "newCharData h data fl p = new_token h (CharData data fl) p"

definition newComment :: "heap \<Rightarrow> string \<Rightarrow> addr option \<Rightarrow> addr \<times> heap" where
  "newComment h c p = new_token h (Comment c) p"

definition newDirective :: "heap \<Rightarrow> string \<Rightarrow> addr option \<Rightarrow> addr \<times> heap" where
  "newDirective h d p = new_token h (Directive d) p"

definition newProcInst :: "heap \<Rightarrow> string \<Rightarrow> string \<Rightarrow> addr option \<Rightarrow> addr \<times> heap" where
  "newProcInst h tgt inst p = new_token h (ProcInst tgt inst) p"

definition NewElement :: "heap \<Rightarrow> string \<Rightarrow> addr \<times> heap" where
  "NewElement h tg = (let (s, stag) = spaceDecompose tg in newElement h s stag None)"

definition CreateElement :: "heap \<Rightarrow> addr \<Rightarrow> string \<Rightarrow> addr \<times> heap" where
  "CreateElement h e tg = (let (s, stag) = spaceDecompose tg in newElement h s stag (Some e))"

definition NewText :: "heap \<Rightarrow> string \<Rightarrow> addr \<times> heap" where
  "NewText h s = newCharData h s 0 None"

definition NewCData :: "heap \<Rightarrow> string \<Rightarrow> addr \<times> heap" where
  "NewCData h s = newCharData h s cdataFlag None"

definition NewCharData :: "heap \<Rightarrow> string \<Rightarrow> addr \<times> heap" where
  "NewCharData h s = newCharData h s 0 None"

definition CreateText :: "heap \<Rightarrow> addr \<Rightarrow> string \<Rightarrow> addr \<times> heap" where
  "CreateText h e s = newCharData h s 0 (Some e)"

definition CreateCData :: "heap \<Rightarrow> addr \<Rightarrow> string \<Rightarrow> addr \<times> heap" where
  "CreateCData h e s = newCharData h s cdataFlag (Some e)"

definition CreateCharData :: "heap \<Rightarrow> addr \<Rightarrow> string \<Rightarrow> addr \<times> heap" where
  "CreateCharData h e s = newCharData h s 0 (Some e)"

definition NewComment :: "heap \<Rightarrow> string \<Rightarrow> addr \<times> heap" where
  "NewComment h s = newComment h s None"

definition CreateComment :: "heap \<Rightarrow> addr \<Rightarrow> string \<Rightarrow> addr \<times> heap" where
  "CreateComment h e s = newComment h s (Some e)"

definition NewDirective :: "heap \<Rightarrow> string \<Rightarrow> addr \<times> heap" where
  "NewDirective h s = newDirective h s None"

definition CreateDirective :: "heap \<Rightarrow> addr \<Rightarrow> string \<Rightarrow> addr \<times> heap" where
  "CreateDirective h e s = newDirective h s (Some e)"

definition NewProcInst :: "heap \<Rightarrow> string \<Rightarrow> string \<Rightarrow> addr \<times> heap" where
  "NewProcInst h t i = newProcInst h t i None"

definition CreateProcInst :: "heap \<Rightarrow> addr \<Rightarrow> string \<Rightarrow> string \<Rightarrow> addr \<times> heap" where
  "CreateProcInst h e t i = newProcInst h t i (Some e)"

definition SetData :: "heap \<Rightarrow> addr \<Rightarrow> string \<Rightarrow> heap" where
  "SetData h c s =
     (case body (h ! c) of
        CharData _ f \<Rightarrow>
          setBody h c (CharData s (if isWhitespace s then or f whitespaceFlag else and f (not whitespaceFlag)))
      | _ \<Rightarrow> h)"

subsection \<open>Text\<close>

text \<open>The character data at the start of a list of tokens, as \<open>Text\<close> and \<open>Tail\<close> collect it.\<close>

fun char_run :: "heap \<Rightarrow> addr list \<Rightarrow> string" where
  "char_run h [] = []"
| "char_run h (t # ts) = (case body (h ! t) of CharData d _ \<Rightarrow> d @ char_run h ts | _ \<Rightarrow> [])"

definition Text :: "heap \<Rightarrow> addr \<Rightarrow> string" where
  "Text h e = char_run h (child h e)"

definition Tail :: "heap \<Rightarrow> addr \<Rightarrow> string outcome" where
  "Tail h e =
     (case parent (h ! e) of
        None \<Rightarrow> Ret []
      | Some p \<Rightarrow>
          let i = index (h ! e) + 1
          in if i < 0 \<or> i > int (length (child h p)) then Panic else Ret (char_run h (drop (nat i) (child h p))))"

definition findTermCharDataIndex :: "heap \<Rightarrow> addr \<Rightarrow> nat \<Rightarrow> nat" where
  "findTermCharDataIndex h e start =
     (if start \<ge> length (child h e) then length (child h e)
      else start + length (takeWhile (is_Char h) (drop start (child h e))))"

definition replaceText :: "heap \<Rightarrow> addr \<Rightarrow> nat \<Rightarrow> string \<Rightarrow> 8 word \<Rightarrow> heap outcome" where
  "replaceText h e i str fl =
     (let end' = findTermCharDataIndex h e i; cs = child h e
      in if end' = i then
           (if str \<noteq> [] then let (cd, h1) = newCharData h str fl None in InsertChildAt h1 e (int i) cd else Ret h)
         else if end' = i + 1 then
           (if str = [] then (case RemoveChildAt h e (int i) of Panic \<Rightarrow> Panic | Ret (_, h1) \<Rightarrow> Ret h1)
            else Ret (setBody h (cs ! i) (CharData str fl)))
         else if i > length cs then Panic
         else if str = [] then Ret (renumber (setChild h e (take i cs @ drop end' cs)) (int i) (drop end' cs))
         else Ret (renumber (setChild (setBody h (cs ! i) (CharData str fl)) e (take (Suc i) cs @ drop end' cs))
                     (int (Suc i)) (drop end' cs)))"

definition SetText :: "heap \<Rightarrow> addr \<Rightarrow> string \<Rightarrow> heap outcome" where
  "SetText h e str = replaceText h e 0 str 0"

definition SetCData :: "heap \<Rightarrow> addr \<Rightarrow> string \<Rightarrow> heap outcome" where
  "SetCData h e str = replaceText h e 0 str cdataFlag"

definition SetTail :: "heap \<Rightarrow> addr \<Rightarrow> string \<Rightarrow> heap outcome" where
  "SetTail h e str =
     (case parent (h ! e) of
        None \<Rightarrow> Ret h
      | Some p \<Rightarrow> replaceText h p (nat (index (h ! e) + 1)) str 0)"

end
