(* ===== verification/Xml_Doc.thy ===== *)
theory Xml_Doc
  imports Xml_Heap
begin

section \<open>Package goxml: attributes, documents, reading and writing\<close>

text \<open>
  The rest of \<^verbatim>\<open>goxml/goxml.go\<close>. Walks along parents and over subtrees do not end on a tree that contains
  itself: they return an option, \<open>None\<close> when they never return. A list of tokens stands for the loop
  \<open>for _, c := range e.Child\<close> in the functions that call themselves on each child. The decoder of
  \<^verbatim>\<open>encoding/xml\<close> is the sequence of tokens it yields with how that ends.
\<close>

lemma map_option_mono [partial_function_mono]: "mono_option B \<Longrightarrow> mono_option (\<lambda>f. map_option g (B f))"
  unfolding map_conv_bind_option by (intro bind_mono option.const_mono)

subsection \<open>Attributes\<close>

definition attr_match :: "string \<Rightarrow> string \<Rightarrow> Attr \<Rightarrow> bool" where
  "attr_match s k a \<longleftrightarrow> spaceMatch s (ASpace a) \<and> k = Key a"

definition SelectAttr :: "heap \<Rightarrow> addr \<Rightarrow> string \<Rightarrow> Attr option" where
  "SelectAttr h e key = (let (s, skey) = spaceDecompose key in find (attr_match s skey) (attrs h e))"

definition SelectAttrValue :: "heap \<Rightarrow> addr \<Rightarrow> string \<Rightarrow> string \<Rightarrow> string" where
  "SelectAttrValue h e key dflt =
     (let (s, skey) = spaceDecompose key
      in case find (attr_match s skey) (attrs h e) of None \<Rightarrow> dflt | Some a \<Rightarrow> Value a)"

fun set_attr :: "string \<Rightarrow> string \<Rightarrow> string \<Rightarrow> addr \<Rightarrow> Attr list \<Rightarrow> Attr list" where
  "set_attr s k v p [] = [\<lparr>ASpace = s, Key = k, Value = v, element = Some p\<rparr>]"
| "set_attr s k v p (a # as) =
     (if s = ASpace a \<and> k = Key a then a\<lparr>Value := v\<rparr> # as else a # set_attr s k v p as)"

definition createAttr :: "heap \<Rightarrow> addr \<Rightarrow> string \<Rightarrow> string \<Rightarrow> string \<Rightarrow> addr \<Rightarrow> heap" where
  "createAttr h e s k v p = setAttrs h e (set_attr s k v p (attrs h e))"

definition CreateAttr :: "heap \<Rightarrow> addr \<Rightarrow> string \<Rightarrow> string \<Rightarrow> heap" where
  "CreateAttr h e key v = (let (s, skey) = spaceDecompose key in createAttr h e s skey v e)"

fun remove_attr :: "string \<Rightarrow> string \<Rightarrow> Attr list \<Rightarrow> (Attr \<times> Attr list) option" where
  "remove_attr s k [] = None"
| "remove_attr s k (a # as) =
     (if s = ASpace a \<and> k = Key a then Some (a\<lparr>element := None\<rparr>, as)
      else map_option (\<lambda>(r, as'). (r, a # as')) (remove_attr s k as))"

definition RemoveAttr :: "heap \<Rightarrow> addr \<Rightarrow> string \<Rightarrow> Attr option \<times> heap" where
  "RemoveAttr h e key =
     (let (s, skey) = spaceDecompose key
      in case remove_attr s skey (attrs h e) of
           None \<Rightarrow> (None, h)
         | Some (a, as) \<Rightarrow> (Some a, setAttrs h e as))"

definition attr_key :: "Attr \<Rightarrow> nat list \<times> nat list" where
  "attr_key a = (map byte (ASpace a), map byte (Key a))"

definition SortAttrs :: "heap \<Rightarrow> addr \<Rightarrow> heap" where
  "SortAttrs h e = setAttrs h e (sort_key attr_key (attrs h e))"

definition FullKey :: "Attr \<Rightarrow> string" where
  "FullKey a = (if ASpace a = [] then Key a else ASpace a @ '':'' @ Key a)"

definition FullTag :: "heap \<Rightarrow> addr \<Rightarrow> string" where
  "FullTag h e = (if space h e = [] then tag h e else space h e @ '':'' @ tag h e)"

subsection \<open>Name spaces\<close>

partial_function (option) findLocalNamespaceURI :: "heap \<Rightarrow> addr \<Rightarrow> string \<Rightarrow> string option" where
  "findLocalNamespaceURI h e prefix =
     (case find (\<lambda>a. ASpace a = ''xmlns'' \<and> Key a = prefix) (attrs h e) of
        Some a \<Rightarrow> Some (Value a)
      | None \<Rightarrow> (case parent (h ! e) of None \<Rightarrow> Some [] | Some p \<Rightarrow> findLocalNamespaceURI h p prefix))"

partial_function (option) findDefaultNamespaceURI :: "heap \<Rightarrow> addr \<Rightarrow> string option" where
  "findDefaultNamespaceURI h e =
     (case find (\<lambda>a. ASpace a = [] \<and> Key a = ''xmlns'') (attrs h e) of
        Some a \<Rightarrow> Some (Value a)
      | None \<Rightarrow> (case parent (h ! e) of None \<Rightarrow> Some [] | Some p \<Rightarrow> findDefaultNamespaceURI h p))"

definition NamespaceURI :: "heap \<Rightarrow> addr \<Rightarrow> string option" where
  "NamespaceURI h e = (if space h e = [] then findDefaultNamespaceURI h e else findLocalNamespaceURI h e (space h e))"

definition Attr_NamespaceURI :: "heap \<Rightarrow> Attr \<Rightarrow> string res" where
  "Attr_NamespaceURI h a =
     (if ASpace a = [] then Some (Ret [])
      else case element a of
             None \<Rightarrow> Some Panic
           | Some e \<Rightarrow> map_option Ret (findLocalNamespaceURI h e (ASpace a)))"

subsection \<open>Selecting children\<close>

definition ChildElements :: "heap \<Rightarrow> addr \<Rightarrow> addr list" where
  "ChildElements h e = filter (is_Elem h) (child h e)"

definition elem_match :: "heap \<Rightarrow> string \<Rightarrow> string \<Rightarrow> addr \<Rightarrow> bool" where
  "elem_match h s tg c \<longleftrightarrow> is_Elem h c \<and> spaceMatch s (space h c) \<and> tg = tag h c"

definition SelectElement :: "heap \<Rightarrow> addr \<Rightarrow> string \<Rightarrow> addr option" where
  "SelectElement h e tg = (let (s, stag) = spaceDecompose tg in find (elem_match h s stag) (child h e))"

definition SelectElements :: "heap \<Rightarrow> addr \<Rightarrow> string \<Rightarrow> addr list" where
  "SelectElements h e tg = (let (s, stag) = spaceDecompose tg in filter (elem_match h s stag) (child h e))"

subsection \<open>Paths of elements\<close>

text \<open>\<^verbatim>\<open>strings.Join\<close>\<close>

fun strings_Join :: "string list \<Rightarrow> string \<Rightarrow> string" where
  "strings_Join [] sep = []"
| "strings_Join [s] sep = s"
| "strings_Join (s # t # ts) sep = s @ sep @ strings_Join (t # ts) sep"

partial_function (option) path_tags :: "heap \<Rightarrow> addr option \<Rightarrow> string list \<Rightarrow> string list option" where
  "path_tags h seg path =
     (case seg of
        None \<Rightarrow> Some path
      | Some a \<Rightarrow> path_tags h (parent (h ! a)) (if tag h a \<noteq> [] then path @ [tag h a] else path))"

definition GetPath :: "heap \<Rightarrow> addr \<Rightarrow> string option" where
  "GetPath h e = map_option (\<lambda>path. ''/'' @ strings_Join (rev path) ''/'') (path_tags h (Some e) [])"

partial_function (option) walk_to :: "heap \<Rightarrow> addr \<Rightarrow> addr option \<Rightarrow> addr list \<Rightarrow> (addr list \<times> addr option) option" where
  "walk_to h source seg path =
     (case seg of
        None \<Rightarrow> Some (path, None)
      | Some a \<Rightarrow> if a = source then Some (path, seg) else walk_to h source (parent (h ! a)) (path @ [a]))"

fun findPathIndex :: "addr \<Rightarrow> addr list \<Rightarrow> nat option" where
  "findPathIndex e [] = None"
| "findPathIndex e (a # as) = (if e = a then Some 0 else map_option Suc (findPathIndex e as))"

partial_function (option) climb_to :: "heap \<Rightarrow> addr list \<Rightarrow> addr option \<Rightarrow> nat \<Rightarrow> (nat \<times> nat option) option" where
  "climb_to h path seg n =
     (case seg of
        None \<Rightarrow> Some (n, None)
      | Some a \<Rightarrow>
          (case findPathIndex a path of
             Some i \<Rightarrow> Some (n, Some i)
           | None \<Rightarrow> climb_to h path (parent (h ! a)) (Suc n)))"

definition GetRelativePath :: "heap \<Rightarrow> addr \<Rightarrow> addr option \<Rightarrow> string option" where
  "GetRelativePath h e source =
     (case source of
        None \<Rightarrow> Some []
      | Some src \<Rightarrow>
          Option.bind (walk_to h src (Some e) []) (\<lambda>(path, seg).
            if seg = Some src
            then Some (if path = [] then ''.'' else ''./'' @ strings_Join (map (tag h) (rev path)) ''/'')
            else map_option (\<lambda>(n, found).
                   case found of
                     None \<Rightarrow> []
                   | Some i \<Rightarrow> strings_Join (replicate n ''..'' @ map (tag h) (rev (take i path))) ''/'')
                 (climb_to h path source 0)))"

subsection \<open>Copies\<close>

text \<open>Each function copies a list of tokens for a new parent and returns the addresses of the copies.\<close>

definition shallow :: "token \<Rightarrow> addr option \<Rightarrow> token" where
  "shallow t p = t\<lparr>body := (case body t of Element s tg as _ \<Rightarrow> Element s tg as [] | b \<Rightarrow> b), parent := p\<rparr>"

partial_function (option) dup_all :: "heap \<Rightarrow> addr list \<Rightarrow> addr option \<Rightarrow> (addr list \<times> heap) option" where
  "dup_all h ts p =
     (case ts of
        [] \<Rightarrow> Some ([], h)
      | t # ts' \<Rightarrow>
          Option.bind
            (let ne = length h; h1 = h @ [shallow (h ! t) p]
             in if is_Elem h t
                then map_option (\<lambda>(cs, h2). setChild h2 ne cs) (dup_all h1 (child h t) (Some ne))
                else Some h1)
            (\<lambda>h'. map_option (\<lambda>(as, h''). (length h # as, h'')) (dup_all h' ts' p)))"

definition dup :: "heap \<Rightarrow> addr \<Rightarrow> addr option \<Rightarrow> (addr \<times> heap) option" where
  "dup h t p = map_option (\<lambda>(as, h'). (hd as, h')) (dup_all h [t] p)"

definition Element_Copy :: "heap \<Rightarrow> addr \<Rightarrow> (addr \<times> heap) option" where
  "Element_Copy h e = dup h e None"

subsection \<open>Writing\<close>

record WriteSettings =
  CanonicalEndTags :: bool
  CanonicalText :: bool
  CanonicalAttrVal :: bool
  UseCRLF :: bool

definition newWriteSettings :: WriteSettings where
  "newWriteSettings = \<lparr>CanonicalEndTags = False, CanonicalText = False, CanonicalAttrVal = False, UseCRLF = False\<rparr>"

definition write_attr :: "WriteSettings \<Rightarrow> Attr \<Rightarrow> string" where
  "write_attr s a =
     FullKey a @ [CHR ''='', dq] @ escapeString (Value a) (if CanonicalAttrVal s then escapeCanonicalAttr else escapeNormal) @ [dq]"

definition write_text :: "WriteSettings \<Rightarrow> string \<Rightarrow> 8 word \<Rightarrow> string" where
  "write_text s d f =
     (if IsCData f then ''<![CDATA['' @ d @ '']]>''
      else escapeString d (if CanonicalText s then escapeCanonicalText else escapeNormal))"

definition full_name :: "string \<Rightarrow> string \<Rightarrow> string" where
  "full_name s t = (if s = [] then t else s @ '':'' @ t)"

definition write_element :: "WriteSettings \<Rightarrow> string \<Rightarrow> string \<Rightarrow> Attr list \<Rightarrow> bool \<Rightarrow> string \<Rightarrow> string" where
  "write_element s sp' t as has_children inner =
     ''<'' @ full_name sp' t @ concat (map (\<lambda>a. '' '' @ write_attr s a) as)
     @ (if has_children then ''>'' @ inner @ ''</'' @ full_name sp' t @ ''>''
        else if CanonicalEndTags s then ''></'' @ full_name sp' t @ ''>'' else ''/>'')"

definition write_procinst :: "string \<Rightarrow> string \<Rightarrow> string" where
  "write_procinst tgt inst = ''<?'' @ tgt @ (if inst \<noteq> [] then '' '' @ inst else []) @ ''?>''"

partial_function (option) writeTo :: "heap \<Rightarrow> WriteSettings \<Rightarrow> addr list \<Rightarrow> string option" where
  "writeTo h s ts =
     (case ts of
        [] \<Rightarrow> Some []
      | t # ts' \<Rightarrow>
          Option.bind
            (case body (h ! t) of
               Element sp' tg as cs \<Rightarrow> map_option (write_element s sp' tg as (cs \<noteq> [])) (writeTo h s cs)
             | CharData d f \<Rightarrow> Some (write_text s d f)
             | Comment d \<Rightarrow> Some (''<!--'' @ d @ ''-->'')
             | Directive d \<Rightarrow> Some (''<!'' @ d @ ''>'')
             | ProcInst tgt inst \<Rightarrow> Some (write_procinst tgt inst))
            (\<lambda>out. map_option (\<lambda>rest. out @ rest) (writeTo h s ts')))"

subsection \<open>Indentation\<close>

definition stripIndent :: "heap \<Rightarrow> addr \<Rightarrow> heap" where
  "stripIndent h e =
     (let cs = child h e; keep = filter (\<lambda>c. \<not> is_indent h c) cs
      in if length keep = length cs then h else setChild (renumber h 0 keep) e keep)"

definition indent_break :: "(int \<Rightarrow> string) \<Rightarrow> heap \<Rightarrow> addr \<Rightarrow> int \<Rightarrow> heap" where
  "indent_break ind h e depth =
     (let s = ind depth in if s \<noteq> [] then snd (newCharData h s whitespaceFlag (Some e)) else h)"

text \<open>\<open>indent_loop\<close> is the loop over the old children of \<open>e\<close>, with the two flags of the code.\<close>

partial_function (option) indent_loop :: "(int \<Rightarrow> string) \<Rightarrow> addr \<Rightarrow> int \<Rightarrow> addr list \<Rightarrow> bool \<Rightarrow> bool \<Rightarrow> heap \<Rightarrow> heap option" where
  "indent_loop ind e depth cs isCharData firstNonCharData h =
     (case cs of
        [] \<Rightarrow>
          Some (if \<not> isCharData \<and> (\<not> firstNonCharData \<or> depth > 0) then indent_break ind h e (depth - 1) else h)
      | c # cs' \<Rightarrow>
          (let isc = is_Char h c;
               h1 = (if \<not> isc \<and> (\<not> firstNonCharData \<or> depth > 0) then indent_break ind h e depth else h);
               h2 = addChild h1 e c
           in Option.bind
                (if is_Elem h2 c
                 then let h3 = stripIndent h2 c; old = child h3 c
                      in if old = [] then Some h3 else indent_loop ind c (depth + 1) old False True (setChild h3 c [])
                 else Some h2)
                (indent_loop ind e depth cs' isc (firstNonCharData \<and> isc))))"

definition indent :: "(int \<Rightarrow> string) \<Rightarrow> heap \<Rightarrow> addr \<Rightarrow> int \<Rightarrow> heap option" where
  "indent ind h e depth =
     (let h1 = stripIndent h e; old = child h1 e
      in if old = [] then Some h1 else indent_loop ind e depth old False True (setChild h1 e []))"

subsection \<open>Reading\<close>

datatype raw =
    RStart string string "(string \<times> string \<times> string) list"
  | REnd string string
  | RChar string
  | RComment string
  | RDirective string
  | RProcInst string string

datatype read_error = ErrXML | DecodeError string

definition create_attrs :: "heap \<Rightarrow> addr \<Rightarrow> (string \<times> string \<times> string) list \<Rightarrow> heap" where
  "create_attrs h e as = fold (\<lambda>(s, k, v) h. createAttr h e s k v e) as h"

fun read_loop :: "heap \<Rightarrow> addr stack \<Rightarrow> raw list \<Rightarrow> string option \<Rightarrow> heap \<times> read_error option" where
  "read_loop h stk [] fin =
     (h, case fin of None \<Rightarrow> if length stk \<noteq> 1 then Some ErrXML else None | Some e \<Rightarrow> Some (DecodeError e))"
| "read_loop h stk (t # ts) fin =
     (case peek stk of
        Panic \<Rightarrow> (h, Some ErrXML)
      | Ret top' \<Rightarrow>
          (case t of
             RStart s l as \<Rightarrow>
               let (e, h1) = newElement h s l (Some top') in read_loop (create_attrs h1 e as) (push stk e) ts fin
           | REnd s l \<Rightarrow>
               if tag h top' \<noteq> l \<or> space h top' \<noteq> s then (h, Some ErrXML) else read_loop h (butlast stk) ts fin
           | RChar d \<Rightarrow> read_loop (snd (newCharData h d (if isWhitespace d then whitespaceFlag else 0) (Some top'))) stk ts fin
           | RComment d \<Rightarrow> read_loop (snd (newComment h d (Some top'))) stk ts fin
           | RDirective d \<Rightarrow> read_loop (snd (newDirective h d (Some top'))) stk ts fin
           | RProcInst tgt inst \<Rightarrow> read_loop (snd (newProcInst h tgt inst (Some top'))) stk ts fin))"

definition readFrom :: "heap \<Rightarrow> addr \<Rightarrow> raw list \<times> string option \<Rightarrow> heap \<times> read_error option" where
  "readFrom h e dec = read_loop h (push [] e) (fst dec) (snd dec)"

subsection \<open>Documents\<close>

record ReadSettings =
  CharsetReader :: "string \<Rightarrow> string \<Rightarrow> string"
  Permissive :: bool
  Entity :: "(string \<rightharpoonup> string) option"

definition newReadSettings :: ReadSettings where
  "newReadSettings = \<lparr>CharsetReader = (\<lambda>label inp. inp), Permissive = False, Entity = None\<rparr>"

record Document =
  embedded :: addr
  readSettings :: ReadSettings
  writeSettings :: WriteSettings

definition NewDocument :: "heap \<Rightarrow> Document \<times> heap" where
  "NewDocument h =
     (\<lparr>embedded = length h, readSettings = newReadSettings, writeSettings = newWriteSettings\<rparr>,
      h @ [\<lparr>body = Element [] [] [] [], parent = None, index = 0\<rparr>])"

definition Root :: "heap \<Rightarrow> Document \<Rightarrow> addr option" where
  "Root h d = find (is_Elem h) (child h (embedded d))"

fun first_element :: "heap \<Rightarrow> addr list \<Rightarrow> nat option" where
  "first_element h [] = None"
| "first_element h (t # ts) = (if is_Elem h t then Some 0 else map_option Suc (first_element h ts))"

definition SetRoot :: "heap \<Rightarrow> Document \<Rightarrow> addr \<Rightarrow> heap outcome" where
  "SetRoot h d e =
     (case detach h e of
        Panic \<Rightarrow> Panic
      | Ret h1 \<Rightarrow>
          let p = embedded d; cs = child h1 p
          in case first_element h1 cs of
               None \<Rightarrow> Ret (addChild h1 p e)
             | Some i \<Rightarrow>
                 let h2 = setIndex (setParent h1 (cs ! i) None) (cs ! i) (- 1);
                     h3 = setChild h2 p (cs[i := e])
                 in Ret (setIndex (setParent h3 e (Some p)) e (int i)))"

definition NewDocumentWithRoot :: "heap \<Rightarrow> addr \<Rightarrow> (Document \<times> heap) outcome" where
  "NewDocumentWithRoot h e =
     (let (d, h1) = NewDocument h in case SetRoot h1 d e of Panic \<Rightarrow> Panic | Ret h2 \<Rightarrow> Ret (d, h2))"

text \<open>
  \<open>Copy\<close> puts a copy of the structure that \<open>dup\<close> returns into the new document: its children have the
  returned one as parent.
\<close>

definition Document_Copy :: "heap \<Rightarrow> Document \<Rightarrow> (Document \<times> heap) option" where
  "Document_Copy h d =
     map_option (\<lambda>(ne, h1). (d\<lparr>embedded := length h1\<rparr>, h1 @ [h1 ! ne])) (dup h (embedded d) None)"

text \<open>The decoder is a function of the settings and the bytes; \<open>Xml_Decode\<close> has the one of Go.\<close>

definition ReadFromString :: "(ReadSettings \<Rightarrow> string \<Rightarrow> raw list \<times> string option) \<Rightarrow> heap \<Rightarrow> Document \<Rightarrow> string \<Rightarrow> heap \<times> read_error option" where
  "ReadFromString decoder h d s = readFrom h (embedded d) (decoder (readSettings d) s)"

definition WriteToString :: "heap \<Rightarrow> Document \<Rightarrow> string option" where
  "WriteToString h d = writeTo h (writeSettings d) (child h (embedded d))"

text \<open>The product \<open>depth*spaces\<close> is a 64 bit integer.\<close>

definition Indent :: "heap \<Rightarrow> Document \<Rightarrow> int \<Rightarrow> heap option" where
  "Indent h d spaces =
     indent (if spaces < 0 then (\<lambda>depth. [])
             else if UseCRLF (writeSettings d) then (\<lambda>depth. indentCRLF (signed_take_bit 63 (depth * spaces)) indentSpaces)
             else (\<lambda>depth. indentLF (signed_take_bit 63 (depth * spaces)) indentSpaces)) h (embedded d) 0"

definition IndentTabs :: "heap \<Rightarrow> Document \<Rightarrow> heap option" where
  "IndentTabs h d =
     indent (if UseCRLF (writeSettings d) then (\<lambda>depth. indentCRLF depth indentTabs) else (\<lambda>depth. indentLF depth indentTabs))
       h (embedded d) 0"

end
