(* ===== verification/Xml_Path.thy ===== *)
theory Xml_Path
  imports Xml_Doc
begin

section \<open>Package goxml: paths\<close>

text \<open>
  \<^verbatim>\<open>goxml/path.go\<close>: the compiler from strings to segments and the search. A compiled filter is nil, \<open>None\<close>,
  only where an error has been set. Selectors and filters are data with a function that applies them;
  the slices \<open>candidates\<close> and \<open>scratch\<close> are the list that goes in and the list that comes out.
\<close>

datatype selector =
    selectSelf | selectRoot | selectParent | selectChildren | selectDescendants | selectChildrenByTag string string

text \<open>The entries of \<open>fnTable\<close>.\<close>

datatype path_fn = FnLocalName | FnName | FnPrefix | FnURI | FnText

datatype path_filter =
    filterPos int | filterAttr string string | filterAttrVal string string string | filterFunc path_fn
  | filterFuncVal path_fn string | filterChild string string | filterChildText string string string

record segment =
  sel :: selector
  filters :: "path_filter option list"

subsection \<open>Compiling\<close>

definition fnTable :: "string \<Rightarrow> path_fn option" where
  "fnTable = map_of [(''local-name'', FnLocalName), (''name'', FnName), (''namespace-prefix'', FnPrefix),
     (''namespace-uri'', FnURI), (''text'', FnText)]"

fun split_byte :: "char \<Rightarrow> string \<Rightarrow> string list" where
  "split_byte c [] = [[]]"
| "split_byte c (x # xs) =
     (if x = c then [] # split_byte c xs else case split_byte c xs of [] \<Rightarrow> [[x]] | p # ps \<Rightarrow> (x # p) # ps)"

fun split_path :: "bool \<Rightarrow> string \<Rightarrow> string \<Rightarrow> string list" where
  "split_path inquote cur [] = [cur]"
| "split_path inquote cur (c # cs) =
     (if c = sq then split_path (\<not> inquote) (cur @ [c]) cs
      else if c = CHR ''/'' \<and> \<not> inquote then cur # split_path inquote [] cs
      else split_path inquote (cur @ [c]) cs)"

definition splitPath :: "string \<Rightarrow> string list" where
  "splitPath path = split_path False [] path"

definition has_suffix :: "string \<Rightarrow> string \<Rightarrow> bool" where
  "has_suffix s suf \<longleftrightarrow> length suf \<le> length s \<and> drop (length s - length suf) s = suf"

definition parseSelector :: "string \<Rightarrow> selector" where
  "parseSelector path =
     (if path = ''.'' then selectSelf
      else if path = ''..'' then selectParent
      else if path = ''*'' then selectChildren
      else if path = [] then selectDescendants
      else let (s, l) = spaceDecompose path in selectChildrenByTag s l)"

text \<open>\<^verbatim>\<open>strconv.Atoi\<close> with its error ignored: out of range it is the nearest 64 bit integer, without digits 0.\<close>

definition digits_value :: "string \<Rightarrow> int" where
  "digits_value ds = foldl (\<lambda>n c. 10 * n + (int (byte c) - 48)) 0 ds"

definition Atoi :: "string \<Rightarrow> int" where
  "Atoi s =
     (case s of
        [] \<Rightarrow> 0
      | c # cs \<Rightarrow> if c = CHR ''-'' then max (- (2 ^ 63)) (- digits_value cs) else min (2 ^ 63 - 1) (digits_value s))"

definition parseFilter :: "string \<Rightarrow> (path_filter option \<times> string option) outcome" where
  "parseFilter path =
     (if path = [] then Ret (None, Some ''path contains an empty filter expression.'')
      else case str_index [CHR ''='', sq] path of
        Some eqindex \<Rightarrow>
          if nextIndex path [sq] (eqindex + 2) \<noteq> Some (length path - 1)
          then Ret (None, Some ''path has mismatched filter quotes.'')
          else let key = take eqindex path;
                   value' = take (length path - 1 - (eqindex + 2)) (drop (eqindex + 2) path)
               in if key = [] then Panic
                  else if hd key = CHR ''@'' then let (s, l) = spaceDecompose (tl key) in Ret (Some (filterAttrVal s l value'), None)
                  else if has_suffix key ''()''
                  then case fnTable (take (length key - 2) key) of
                         Some fn \<Rightarrow> Ret (Some (filterFuncVal fn value'), None)
                       | None \<Rightarrow> Ret (None, Some (''path has unknown function '' @ take (length key - 2) key))
                  else let (s, l) = spaceDecompose key in Ret (Some (filterChildText s l value'), None)
      | None \<Rightarrow>
          if hd path = CHR ''@'' then let (s, l) = spaceDecompose (tl path) in Ret (Some (filterAttr s l), None)
          else if has_suffix path ''()''
          then case fnTable (take (length path - 2) path) of
                 Some fn \<Rightarrow> Ret (Some (filterFunc fn), None)
               | None \<Rightarrow> Ret (None, Some (''path has unknown function '' @ take (length path - 2) path))
          else if isInteger path
          then let pos = Atoi path in Ret (Some (filterPos (if pos > 0 then pos - 1 else pos)), None)
          else let (s, l) = spaceDecompose path in Ret (Some (filterChild s l), None))"

text \<open>The loop over the pieces after the selector; an error does not end it, unless the bracket is missing.\<close>

fun parse_filters :: "string list \<Rightarrow> path_filter option list \<Rightarrow> string option \<Rightarrow> (path_filter option list \<times> string option) outcome" where
  "parse_filters [] fs err = Ret (fs, err)"
| "parse_filters (fpath # rest) fs err =
     (if fpath = [] then Panic
      else if last fpath \<noteq> CHR '']'' then Ret (fs, Some ''path has invalid filter [brackets].'')
      else case parseFilter (butlast fpath) of
             Panic \<Rightarrow> Panic
           | Ret (f, e) \<Rightarrow> parse_filters rest (fs @ [f]) (if e = None then err else e))"

definition parseSegment :: "string \<Rightarrow> (segment \<times> string option) outcome" where
  "parseSegment path =
     (let pieces = split_byte (CHR ''['') path
      in case parse_filters (tl pieces) [] None of
           Panic \<Rightarrow> Panic
         | Ret (fs, err) \<Rightarrow> Ret (\<lparr>sel = parseSelector (hd pieces), filters = fs\<rparr>, err))"

fun parse_segments :: "string list \<Rightarrow> segment list \<Rightarrow> (segment list \<times> string option) outcome" where
  "parse_segments [] segs = Ret (segs, None)"
| "parse_segments (s # ss) segs =
     (case parseSegment s of
        Panic \<Rightarrow> Panic
      | Ret (seg, Some e) \<Rightarrow> Ret (segs @ [seg], Some e)
      | Ret (seg, None) \<Rightarrow> parse_segments ss (segs @ [seg]))"

definition parsePath :: "string \<Rightarrow> (segment list \<times> string option) outcome" where
  "parsePath path0 =
     (let path = (if has_suffix path0 ''//'' then path0 @ ''*'' else path0)
      in if take 1 path = ''/''
         then parse_segments (splitPath (drop 1 path)) [\<lparr>sel = selectRoot, filters = []\<rparr>]
         else parse_segments (splitPath path) [])"

definition CompilePath :: "string \<Rightarrow> (string + segment list) outcome" where
  "CompilePath path =
     (case parsePath path of
        Panic \<Rightarrow> Panic
      | Ret (segs, Some e) \<Rightarrow> Ret (Inl e)
      | Ret (segs, None) \<Rightarrow> Ret (Inr segs))"

definition MustCompilePath :: "string \<Rightarrow> segment list outcome" where
  "MustCompilePath path = (case CompilePath path of Panic \<Rightarrow> Panic | Ret (Inl e) \<Rightarrow> Panic | Ret (Inr segs) \<Rightarrow> Ret segs)"

subsection \<open>Searching\<close>

definition fn_value :: "heap \<Rightarrow> path_fn \<Rightarrow> addr \<Rightarrow> string option" where
  "fn_value h fn e =
     (case fn of
        FnLocalName \<Rightarrow> Some (tag h e)
      | FnName \<Rightarrow> Some (FullTag h e)
      | FnPrefix \<Rightarrow> Some (space h e)
      | FnURI \<Rightarrow> NamespaceURI h e
      | FnText \<Rightarrow> Some (Text h e))"

fun filter_fn :: "heap \<Rightarrow> path_fn \<Rightarrow> (string \<Rightarrow> bool) \<Rightarrow> addr list \<Rightarrow> addr list option" where
  "filter_fn h fn P [] = Some []"
| "filter_fn h fn P (c # cs) =
     Option.bind (fn_value h fn c) (\<lambda>v. map_option (\<lambda>r. if P v then c # r else r) (filter_fn h fn P cs))"

text \<open>\<open>filterChild\<close> appends an element once for each matching child.\<close>

definition apply_filter :: "heap \<Rightarrow> path_filter option \<Rightarrow> addr list \<Rightarrow> addr list res" where
  "apply_filter h f cands =
     (case f of
        None \<Rightarrow> Some Panic
      | Some (filterPos i) \<Rightarrow>
          if i \<ge> 0 then Some (Ret (if i < int (length cands) then [cands ! nat i] else []))
          else if signed_take_bit 63 (- i) \<le> int (length cands)
          then if int (length cands) + i < 0 then Some Panic else Some (Ret [cands ! nat (int (length cands) + i)])
          else Some (Ret [])
      | Some (filterAttr s k) \<Rightarrow> Some (Ret (filter (\<lambda>c. list_ex (attr_match s k) (attrs h c)) cands))
      | Some (filterAttrVal s k v) \<Rightarrow>
          Some (Ret (filter (\<lambda>c. list_ex (\<lambda>a. attr_match s k a \<and> v = Value a) (attrs h c)) cands))
      | Some (filterFunc fn) \<Rightarrow> map_option Ret (filter_fn h fn (\<lambda>v. v \<noteq> []) cands)
      | Some (filterFuncVal fn w) \<Rightarrow> map_option Ret (filter_fn h fn (\<lambda>v. v = w) cands)
      | Some (filterChild s t) \<Rightarrow>
          Some (Ret (concat (map (\<lambda>c. map (\<lambda>_. c) (filter (elem_match h s t) (child h c))) cands)))
      | Some (filterChildText s t w) \<Rightarrow>
          Some (Ret (concat (map (\<lambda>c. map (\<lambda>_. c) (filter (\<lambda>cc. elem_match h s t cc \<and> w = Text h cc) (child h c))) cands))))"

partial_function (option) find_root :: "heap \<Rightarrow> addr \<Rightarrow> addr option" where
  "find_root h e = (case parent (h ! e) of None \<Rightarrow> Some e | Some p \<Rightarrow> find_root h p)"

definition descend :: "heap \<Rightarrow> addr \<Rightarrow> addr list \<Rightarrow> addr fifo \<Rightarrow> (addr list \<times> addr fifo) res" where
  "descend h e cands q =
     Some (case add_all fifo_add (filter (is_Elem h) (child h e)) q of Panic \<Rightarrow> Panic | Ret q' \<Rightarrow> Ret (cands @ [e], q'))"

definition apply_selector :: "heap \<Rightarrow> selector \<Rightarrow> addr \<Rightarrow> addr list res" where
  "apply_selector h s e =
     (case s of
        selectSelf \<Rightarrow> Some (Ret [e])
      | selectRoot \<Rightarrow> map_option (\<lambda>r. Ret [r]) (find_root h e)
      | selectParent \<Rightarrow> Some (Ret (case parent (h ! e) of None \<Rightarrow> [] | Some p \<Rightarrow> [p]))
      | selectChildren \<Rightarrow> Some (Ret (filter (is_Elem h) (child h e)))
      | selectDescendants \<Rightarrow>
          (case fifo_add e new_fifo of Panic \<Rightarrow> Some Panic | Ret q \<Rightarrow> drain fifo_len fifo_remove (descend h) q [])
      | selectChildrenByTag s t \<Rightarrow> Some (Ret (filter (elem_match h s t) (child h e))))"

fun apply_filters :: "heap \<Rightarrow> path_filter option list \<Rightarrow> addr list \<Rightarrow> addr list res" where
  "apply_filters h [] cands = Some (Ret cands)"
| "apply_filters h (f # fs) cands = bind_res (apply_filter h f cands) (apply_filters h fs)"

definition segment_apply :: "heap \<Rightarrow> segment \<Rightarrow> addr \<Rightarrow> addr list res" where
  "segment_apply h seg e = bind_res (apply_selector h (sel seg) e) (apply_filters h (filters seg))"

type_synonym found = "addr list \<times> (addr \<Rightarrow> bool)"

definition add_result :: "addr \<Rightarrow> found \<Rightarrow> found" where
  "add_result c = (\<lambda>(results, inResults). if inResults c then (results, inResults) else (results @ [c], inResults(c := True)))"

definition eval :: "heap \<Rightarrow> addr \<times> segment list \<Rightarrow> found \<Rightarrow> (addr \<times> segment list) fifo \<Rightarrow> (found \<times> (addr \<times> segment list) fifo) res" where
  "eval h n st q =
     (case snd n of
        [] \<Rightarrow> Some Panic
      | seg # remain \<Rightarrow>
          bind_res (segment_apply h seg (fst n)) (\<lambda>cands.
            Some (if remain = [] then Ret (fold add_result cands st, q)
                  else case add_all fifo_add (map (\<lambda>c. (c, remain)) cands) q of Panic \<Rightarrow> Panic | Ret q' \<Rightarrow> Ret (st, q'))))"

definition traverse :: "heap \<Rightarrow> addr \<Rightarrow> segment list \<Rightarrow> addr list res" where
  "traverse h e path =
     (case fifo_add (e, path) new_fifo of
        Panic \<Rightarrow> Some Panic
      | Ret q \<Rightarrow> bind_res (drain fifo_len fifo_remove (eval h) q ([], \<lambda>_. False)) (\<lambda>st. Some (Ret (fst st))))"

definition FindElementsPath :: "heap \<Rightarrow> addr \<Rightarrow> segment list \<Rightarrow> addr list res" where
  "FindElementsPath h e path = traverse h e path"

definition FindElementPath :: "heap \<Rightarrow> addr \<Rightarrow> segment list \<Rightarrow> addr option res" where
  "FindElementPath h e path =
     bind_res (traverse h e path) (\<lambda>es. Some (Ret (case es of [] \<Rightarrow> None | x # _ \<Rightarrow> Some x)))"

definition FindElements :: "heap \<Rightarrow> addr \<Rightarrow> string \<Rightarrow> addr list res" where
  "FindElements h e path = (case MustCompilePath path of Panic \<Rightarrow> Some Panic | Ret p \<Rightarrow> FindElementsPath h e p)"

definition FindElement :: "heap \<Rightarrow> addr \<Rightarrow> string \<Rightarrow> addr option res" where
  "FindElement h e path = (case MustCompilePath path of Panic \<Rightarrow> Some Panic | Ret p \<Rightarrow> FindElementPath h e p)"

end
