(* ===== verification/Xml_Links.thy ===== *)
theory Xml_Links
  imports Xml_Doc
begin

section \<open>Package goxml: links between tokens\<close>

text \<open>
  \<open>linked\<close>: the children of an element know their parent and their position, and a parent is an
  element. Every operation on trees keeps it, except the copy of a document. \<open>owned\<close> is the other
  direction, that a token with a parent is among its children: the operations on single children keep
  it as well.
\<close>

named_theorems fields "fields of tokens after an update"

lemma field_lengths [simp]:
  "length (setParent h t p) = length h" "length (setIndex h t i) = length h" "length (setBody h t b) = length h"
  "length (setChild h e cs) = length h" "length (setAttrs h e as) = length h" "length (renumber h k ts) = length h"
  "length (addChild h e t) = length h"
proof -
  show r: "length (renumber h k ts) = length h" for h k
    by (induction ts arbitrary: h k) (simp_all add: setIndex_def)
qed (simp_all add: setParent_def setIndex_def setBody_def setChild_def setAttrs_def addChild_def Let_def split: body.split)

lemma nth_update: "h[t := x] ! a = (if a = t \<and> t < length h then x else h ! a)"
  by (cases "a = t"; cases "t < length h") (simp_all add: list_update_beyond)

lemma setParent_fields [fields]:
  "body (setParent h t p ! a) = body (h ! a)"
  "parent (setParent h t p ! a) = (if a = t \<and> t < length h then p else parent (h ! a))"
  "index (setParent h t p ! a) = index (h ! a)"
  by (simp_all add: setParent_def nth_update)

lemma setIndex_fields [fields]:
  "body (setIndex h t i ! a) = body (h ! a)"
  "parent (setIndex h t i ! a) = parent (h ! a)"
  "index (setIndex h t i ! a) = (if a = t \<and> t < length h then i else index (h ! a))"
  by (simp_all add: setIndex_def nth_update)

lemma setBody_fields [fields]:
  "body (setBody h t b ! a) = (if a = t \<and> t < length h then b else body (h ! a))"
  "parent (setBody h t b ! a) = parent (h ! a)"
  "index (setBody h t b ! a) = index (h ! a)"
  by (simp_all add: setBody_def nth_update)

lemma setChild_fields [fields]:
  "parent (setChild h e cs ! a) = parent (h ! a)" "index (setChild h e cs ! a) = index (h ! a)"
  "a \<noteq> e \<Longrightarrow> body (setChild h e cs ! a) = body (h ! a)"
  by (auto simp: setChild_def setBody_fields split: body.split)

lemma setAttrs_fields [fields]:
  "parent (setAttrs h e as ! a) = parent (h ! a)" "index (setAttrs h e as ! a) = index (h ! a)"
  "a \<noteq> e \<Longrightarrow> body (setAttrs h e as ! a) = body (h ! a)"
  by (auto simp: setAttrs_def setBody_fields split: body.split)

lemma renumber_fields [fields]:
  "body (renumber h k ts ! a) = body (h ! a)" "parent (renumber h k ts ! a) = parent (h ! a)"
  "a \<notin> set ts \<Longrightarrow> index (renumber h k ts ! a) = index (h ! a)"
  by (induction ts arbitrary: h k) (auto simp: setIndex_fields)

lemma renumber_index:
  "distinct ts \<Longrightarrow> \<forall>t \<in> set ts. t < length h \<Longrightarrow> i < length ts \<Longrightarrow> index (renumber h k ts ! (ts ! i)) = k + int i"
proof (induction ts arbitrary: h k i)
  case (Cons t ts)
  show ?case
  proof (cases i)
    case 0
    then show ?thesis using Cons.prems by (simp add: renumber_fields setIndex_fields)
  next
    case (Suc j)
    then show ?thesis using Cons by simp
  qed
qed simp

text \<open>What depends on bodies only.\<close>

lemma body_cong:
  assumes "body (h' ! a) = body (h ! a)"
  shows "child h' a = child h a" "attrs h' a = attrs h a" "space h' a = space h a" "tag h' a = tag h a"
    "is_Elem h' a = is_Elem h a" "is_Char h' a = is_Char h a" "is_indent h' a = is_indent h a"
  using assms by (simp_all add: child_def attrs_def space_def tag_def is_Elem_def is_Char_def is_indent_def)

lemmas body_same [fields] =
  body_cong [OF setParent_fields(1)] body_cong [OF setIndex_fields(1)] body_cong [OF renumber_fields(1)]

lemma setChild_view [fields]:
  "child (setChild h e cs) a = (if a = e \<and> is_Elem h e \<and> e < length h then cs else child h a)"
  "is_Elem (setChild h e cs) a = is_Elem h a" "is_Char (setChild h e cs) a = is_Char h a" "is_indent (setChild h e cs) a = is_indent h a"
  "space (setChild h e cs) a = space h a" "tag (setChild h e cs) a = tag h a" "attrs (setChild h e cs) a = attrs h a"
  by (cases "body (h ! e)"; simp add: setChild_def setBody_fields child_def is_Elem_def is_Char_def is_indent_def space_def tag_def attrs_def)+

lemma setAttrs_view [fields]:
  "child (setAttrs h e as) a = child h a" "is_Elem (setAttrs h e as) a = is_Elem h a"
  "is_Char (setAttrs h e as) a = is_Char h a" "is_indent (setAttrs h e as) a = is_indent h a"
  "space (setAttrs h e as) a = space h a" "tag (setAttrs h e as) a = tag h a"
  "attrs (setAttrs h e as) a = (if a = e \<and> is_Elem h e \<and> e < length h then as else attrs h a)"
  by (cases "body (h ! e)"; simp add: setAttrs_def setBody_fields child_def is_Elem_def is_Char_def is_indent_def space_def tag_def attrs_def)+

lemma child_Elem: "child h e \<noteq> [] \<Longrightarrow> is_Elem h e"
  by (auto simp: child_def is_Elem_def split: body.splits)

lemma addChild_fields [fields]:
  assumes "is_Elem h e" "e < length h" "t < length h"
  shows "child (addChild h e t) a = (if a = e then child h e @ [t] else child h a)"
    "parent (addChild h e t ! a) = (if a = t then Some e else parent (h ! a))"
    "index (addChild h e t ! a) = (if a = t then int (length (child h e)) else index (h ! a))"
    "is_Elem (addChild h e t) a = is_Elem h a" "is_Char (addChild h e t) a = is_Char h a"
    "a \<noteq> e \<Longrightarrow> body (addChild h e t ! a) = body (h ! a)"
  using assms by (auto simp: addChild_def Let_def fields)

subsection \<open>The invariant\<close>

definition linked :: "heap \<Rightarrow> bool" where
  "linked h \<longleftrightarrow>
     (\<forall>e < length h. \<forall>i < length (child h e).
        child h e ! i < length h \<and> parent (h ! (child h e ! i)) = Some e \<and> index (h ! (child h e ! i)) = int i)
   \<and> (\<forall>t < length h. \<forall>p. parent (h ! t) = Some p \<longrightarrow> p < length h \<and> is_Elem h p \<and> 0 \<le> index (h ! t))"

definition listed :: "heap \<Rightarrow> addr \<Rightarrow> bool" where
  "listed h t \<longleftrightarrow> (\<exists>e < length h. t \<in> set (child h e))"

definition owned :: "heap \<Rightarrow> bool" where
  "owned h \<longleftrightarrow> (\<forall>t < length h. parent (h ! t) \<noteq> None \<longrightarrow> listed h t)"

lemma linked_child:
  assumes "linked h" "e < length h" "i < length (child h e)"
  shows "child h e ! i < length h" "parent (h ! (child h e ! i)) = Some e" "index (h ! (child h e ! i)) = int i"
  using assms unfolding linked_def by blast+

lemma linked_parent:
  assumes "linked h" "t < length h" "parent (h ! t) = Some p"
  shows "p < length h" "is_Elem h p" "0 \<le> index (h ! t)"
  using assms unfolding linked_def by blast+

lemma linked_member:
  assumes "linked h" "e < length h" "t \<in> set (child h e)"
  shows "t < length h" "parent (h ! t) = Some e" "\<exists>i < length (child h e). child h e ! i = t \<and> index (h ! t) = int i"
proof -
  obtain i where i: "i < length (child h e)" "child h e ! i = t" using assms(3) by (auto simp: in_set_conv_nth)
  then show "t < length h" "parent (h ! t) = Some e" "\<exists>i < length (child h e). child h e ! i = t \<and> index (h ! t) = int i"
    using linked_child [OF assms(1,2) i(1)] by auto
qed

lemma linked_distinct: "linked h \<Longrightarrow> e < length h \<Longrightarrow> distinct (child h e)"
  unfolding distinct_conv_nth using linked_child(3) by (metis of_nat_eq_iff)

lemma linked_once: "linked h \<Longrightarrow> e < length h \<Longrightarrow> e' < length h \<Longrightarrow> t \<in> set (child h e) \<Longrightarrow> t \<in> set (child h e') \<Longrightarrow> e = e'"
  using linked_member(2) by (metis option.inject)

lemma listed_parent: "linked h \<Longrightarrow> listed h t \<Longrightarrow> \<exists>p < length h. parent (h ! t) = Some p \<and> t \<in> set (child h p) \<and> t < length h"
  using linked_member by (metis listed_def)

text \<open>The rule all preservation proofs use: the children of one element change.\<close>

lemma linked_update:
  assumes "linked h" "length h' = length h" "\<And>a. is_Elem h' a = is_Elem h a" "e < length h" "is_Elem h e"
    and "\<And>a. child h' a = (if a = e then cs else child h a)"
    and "\<And>i. i < length cs \<Longrightarrow> cs ! i < length h \<and> parent (h' ! (cs ! i)) = Some e \<and> index (h' ! (cs ! i)) = int i"
    and "\<And>a t. a < length h \<Longrightarrow> a \<noteq> e \<Longrightarrow> t \<in> set (child h a) \<Longrightarrow> parent (h' ! t) = parent (h ! t) \<and> index (h' ! t) = index (h ! t)"
    and "\<And>t. t < length h \<Longrightarrow> parent (h' ! t) = None \<or> 0 \<le> index (h' ! t) \<and> (parent (h' ! t) = Some e \<or> parent (h' ! t) = parent (h ! t))"
  shows "linked h'"
  unfolding linked_def
proof (intro conjI allI impI)
  fix a i assume a: "a < length h'" "i < length (child h' a)"
  have "child h' a ! i < length h' \<and> parent (h' ! (child h' a ! i)) = Some a \<and> index (h' ! (child h' a ! i)) = int i"
  proof (cases "a = e")
    case True
    then show ?thesis using assms(2,6,7) a by simp
  next
    case False
    then have "i < length (child h a)" "a < length h" using a assms(2,6) by simp_all
    then show ?thesis using False assms(2,6) assms(8) [of a "child h a ! i"] linked_child [OF assms(1), of a i] by simp
  qed
  then show "child h' a ! i < length h'" "parent (h' ! (child h' a ! i)) = Some a" "index (h' ! (child h' a ! i)) = int i" by simp_all
next
  fix t p assume "t < length h'" "parent (h' ! t) = Some p"
  then have t: "t < length h" and c: "0 \<le> index (h' ! t)" "p = e \<or> parent (h ! t) = Some p"
    using assms(2) assms(9) [of t] by auto
  then have "p < length h \<and> is_Elem h p" using assms(4,5) linked_parent [OF assms(1) t] by auto
  then show "p < length h'" "is_Elem h' p" "0 \<le> index (h' ! t)" using c assms(2,3) by auto
qed

subsection \<open>Removing a child\<close>

lemma drop_index:
  assumes "linked h" "e < length h" "i \<le> length (child h e)" "t \<in> set (drop i (child h e))"
  obtains j where "i \<le> j" "j < length (child h e)" "child h e ! j = t" "index (h ! t) = int j"
proof -
  obtain k where k: "k < length (drop i (child h e))" "drop i (child h e) ! k = t" using assms(4) by (auto simp: in_set_conv_nth)
  then have "child h e ! (i + k) = t" "i + k < length (child h e)" using assms(3) by auto
  then show thesis using that [of "i + k"] linked_child(3) [OF assms(1,2), of "i + k"] by simp
qed

lemma RemoveChildAt_spec:
  assumes "linked h" "e < length h" "i < length (child h e)"
  defines "t \<equiv> child h e ! i"
  obtains h' where "RemoveChildAt h e (int i) = Ret (Some t, h')" "length h' = length h" "\<And>a. is_Elem h' a = is_Elem h a"
    "\<And>a. child h' a = (if a = e then take i (child h e) @ drop (Suc i) (child h e) else child h a)"
    "\<And>a. parent (h' ! a) = (if a = t then None else parent (h ! a))"
    "\<And>a. index (h' ! a) = (if a = t then - 1 else if a \<in> set (drop (Suc i) (child h e)) then index (h ! a) - 1 else index (h ! a))"
    "\<And>a. a \<noteq> e \<Longrightarrow> body (h' ! a) = body (h ! a)" "linked h'"
proof -
  let ?cs = "child h e"
  define h1 where "h1 = renumber h (int i) (drop (Suc i) ?cs)"
  define h2 where "h2 = setChild h1 e (take i ?cs @ drop (Suc i) ?cs)"
  define h' where "h' = setParent (setIndex h2 t (- 1)) t None"
  have el: "is_Elem h e" using assms(3) by (intro child_Elem) auto
  have d: "distinct ?cs" using assms(1,2) by (rule linked_distinct)
  have t: "t < length h" using linked_child(1) [OF assms(1,2,3)] by (simp add: t_def)
  have r: "RemoveChildAt h e (int i) = Ret (Some t, h')"
    using assms(3) by (simp add: RemoveChildAt_def Let_def h'_def h2_def h1_def t_def)
  have len: "length h' = length h" by (simp add: h'_def h2_def h1_def)
  have ch: "child h' a = (if a = e then take i ?cs @ drop (Suc i) ?cs else child h a)" for a
    using el assms(2) by (simp add: h'_def h2_def h1_def fields)
  have ie: "is_Elem h' a = is_Elem h a" for a by (simp add: h'_def h2_def h1_def fields)
  have pa: "parent (h' ! a) = (if a = t then None else parent (h ! a))" for a using t by (simp add: h'_def h2_def h1_def fields)
  have b: "body (h' ! a) = body (h ! a)" if "a \<noteq> e" for a using that by (simp add: h'_def h2_def h1_def fields)
  have re: "index (h1 ! a) = index (h ! a) - 1" if a: "a \<in> set (drop (Suc i) ?cs)" for a
  proof -
    obtain k where k: "k < length (drop (Suc i) ?cs)" "drop (Suc i) ?cs ! k = a" using a unfolding in_set_conv_nth by blast
    have "index (h1 ! a) = int i + int k"
      using renumber_index [of "drop (Suc i) ?cs" h k "int i"] k d linked_member(1) [OF assms(1,2)] set_drop_subset [of "Suc i" ?cs]
      by (auto simp: h1_def)
    moreover have "index (h ! a) = int (Suc i + k)" using k linked_child(3) [OF assms(1,2), of "Suc i + k"] by simp
    ultimately show ?thesis by simp
  qed
  have ix: "index (h' ! a) = (if a = t then - 1 else if a \<in> set (drop (Suc i) ?cs) then index (h ! a) - 1 else index (h ! a))" for a
    using t re [of a] by (simp add: h'_def h2_def fields) (simp add: h1_def fields)
  have "linked h'"
  proof (rule linked_update [OF assms(1) len ie assms(2) el ch])
    fix j assume j: "j < length (take i ?cs @ drop (Suc i) ?cs)"
    let ?j = "if j < i then j else Suc j"
    have n: "(take i ?cs @ drop (Suc i) ?cs) ! j = ?cs ! ?j" "?j < length ?cs" using j assms(3) by (auto simp: nth_append)
    then have ne: "?cs ! ?j \<noteq> t" using d assms(3) by (simp add: t_def nth_eq_iff_index_eq)
    have "?cs ! ?j \<in> set (drop (Suc i) ?cs) \<longleftrightarrow> \<not> j < i"
    proof
      assume "?cs ! ?j \<in> set (drop (Suc i) ?cs)"
      then obtain k where "Suc i \<le> k" "k < length ?cs" "?cs ! k = ?cs ! ?j"
        using drop_index [OF assms(1,2), of "Suc i"] assms(3) by (metis Suc_leI)
      then show "\<not> j < i" using d n(2) by (auto simp: nth_eq_iff_index_eq)
    next
      assume "\<not> j < i"
      then show "?cs ! ?j \<in> set (drop (Suc i) ?cs)" using n(2) by (auto simp: in_set_conv_nth intro!: exI [of _ "j - i"])
    qed
    then have "index (h' ! (?cs ! ?j)) = int j" using ne linked_child(3) [OF assms(1,2) n(2)] by (cases "j < i") (simp_all add: ix)
    then show "(take i ?cs @ drop (Suc i) ?cs) ! j < length h \<and> parent (h' ! ((take i ?cs @ drop (Suc i) ?cs) ! j)) = Some e
        \<and> index (h' ! ((take i ?cs @ drop (Suc i) ?cs) ! j)) = int j"
      unfolding n(1) using ne linked_child [OF assms(1,2) n(2)] by (simp add: pa)
  next
    fix a u assume a: "a < length h" "a \<noteq> e" "u \<in> set (child h a)"
    have "u \<notin> set ?cs" using linked_once [OF assms(1,2) a(1) _ a(3)] a(2) by blast
    then have "u \<noteq> t" "u \<notin> set (drop (Suc i) ?cs)" using assms(3) set_drop_subset [of "Suc i" ?cs] by (auto simp: t_def)
    then show "parent (h' ! u) = parent (h ! u) \<and> index (h' ! u) = index (h ! u)" by (simp add: pa ix)
  next
    fix u assume u: "u < length h"
    have "0 \<le> index (h ! u) - 1" if "u \<in> set (drop (Suc i) ?cs)"
      by (rule drop_index [OF assms(1,2) _ that]) (use assms(3) in auto)
    then show "parent (h' ! u) = None \<or> 0 \<le> index (h' ! u) \<and> (parent (h' ! u) = Some e \<or> parent (h' ! u) = parent (h ! u))"
      using linked_parent(3) [OF assms(1) u] by (cases "parent (h ! u)") (auto simp: pa ix)
  qed
  then show thesis using r len ie ch pa ix b by (intro that)
qed

lemma RemoveChildAt_linked: "linked h \<Longrightarrow> e < length h \<Longrightarrow> RemoveChildAt h e i = Ret (t, h') \<Longrightarrow> linked h' \<and> length h' = length h \<and> (\<forall>a. is_Elem h' a = is_Elem h a)"
proof (cases "i \<ge> int (length (child h e)) \<or> i < 0")
  case False
  assume a: "linked h" "e < length h" "RemoveChildAt h e i = Ret (t, h')"
  have i: "nat i < length (child h e)" "int (nat i) = i" using False by auto
  show ?thesis by (rule RemoveChildAt_spec [OF a(1,2) i(1)]) (use a(3) i(2) in auto)
qed (auto simp: RemoveChildAt_def Let_def split: if_splits)

text \<open>
  A token whose parent is nil, or which was forgotten by its parent, is in no list; any other token is
  where its index says.
\<close>

lemma listed_index:
  assumes "linked h" "t < length h" "parent (h ! t) = Some p" "index (h ! t) = int i"
  shows "listed h t \<longleftrightarrow> i < length (child h p) \<and> child h p ! i = t"
proof
  assume "listed h t"
  then have "p < length h" "t \<in> set (child h p)" using listed_parent [OF assms(1)] assms(3) by fastforce+
  then show "i < length (child h p) \<and> child h p ! i = t" using linked_member(3) [OF assms(1), of p t] assms(4) by auto
next
  assume i: "i < length (child h p) \<and> child h p ! i = t"
  then have "t \<in> set (child h p)" by auto
  then show "listed h t" using linked_parent(1) [OF assms(1-3)] by (auto simp: listed_def)
qed

lemma remove1_nth: "distinct xs \<Longrightarrow> i < length xs \<Longrightarrow> remove1 (xs ! i) xs = take i xs @ drop (Suc i) xs"
proof (induction xs arbitrary: i)
  case (Cons x xs)
  then show ?case by (cases i) auto
qed simp

lemma detach_spec:
  assumes "linked h" "t < length h"
  obtains h' where "detach h t = Ret h'" "linked h'" "length h' = length h" "\<And>a. is_Elem h' a = is_Elem h a" "\<not> listed h' t"
    "\<And>a. listed h' a \<Longrightarrow> listed h a" "\<And>a. listed h t \<Longrightarrow> a < length h \<Longrightarrow> child h' a = remove1 t (child h a)"
    "\<And>a. listed h t \<Longrightarrow> parent (h' ! a) = (if a = t then None else parent (h ! a))"
    "\<And>a. parent (h ! t) = None \<Longrightarrow> h' = h"
proof (cases "parent (h ! t)")
  case None
  then have "\<not> listed h t" using listed_parent [OF assms(1)] by fastforce
  then show thesis using that [of h] None assms by (simp add: detach_def)
next
  case (Some p)
  have p: "p < length h" "is_Elem h p" "0 \<le> index (h ! t)" using linked_parent [OF assms Some] by simp_all
  then obtain i where i: "index (h ! t) = int i" using nonneg_int_cases by blast
  have r: "detach h t = (case RemoveChildAt h p (int i) of Panic \<Rightarrow> Panic | Ret (_, h') \<Rightarrow> Ret h')"
    using i Some by (simp add: detach_def RemoveChild_def)
  note li = listed_index [OF assms Some i]
  show thesis
  proof (cases "i < length (child h p)")
    case False
    then show thesis using that [of h] r assms(1) li Some by (simp add: RemoveChildAt_def)
  next
    case True
    let ?u = "child h p ! i"
    obtain h' where h': "RemoveChildAt h p (int i) = Ret (Some ?u, h')" "length h' = length h" "\<And>a. is_Elem h' a = is_Elem h a"
      "\<And>a. child h' a = (if a = p then take i (child h p) @ drop (Suc i) (child h p) else child h a)"
      "\<And>a. parent (h' ! a) = (if a = ?u then None else parent (h ! a))" "linked h'"
      by (rule RemoveChildAt_spec [OF assms(1) p(1) True]) blast
    have d: "distinct (child h p)" using assms(1) p(1) by (rule linked_distinct)
    have sub: "listed h a" if "listed h' a" for a
      using that h'(2,4) set_take_subset [of i "child h p"] set_drop_subset [of "Suc i" "child h p"]
      by (auto simp: listed_def split: if_splits)
    have ch: "child h' a = remove1 t (child h a)" if "listed h t" "a < length h" for a
    proof (cases "a = p")
      case True
      then show ?thesis using h'(4) remove1_nth [OF d, of i] that li by simp
    next
      case False
      then have "t \<notin> set (child h a)" using linked_member(2) [OF assms(1) that(2)] Some by auto
      then show ?thesis using False h'(4) by (simp add: remove1_idem)
    qed
    have nl: "\<not> listed h' t"
    proof (cases "listed h t")
      case True
      then have "parent (h' ! t) = None" using h'(5) li by simp
      then show ?thesis using listed_parent [OF h'(6)] by fastforce
    qed (use sub in blast)
    show thesis
      by (rule that [of h']) (use r h' sub ch nl li Some in auto)
  qed
qed

subsection \<open>Adding a child\<close>

lemma unlisted: "\<not> listed h t \<Longrightarrow> a < length h \<Longrightarrow> t \<notin> set (child h a)"
  by (auto simp: listed_def)

lemma addChild_linked:
  assumes "linked h" "e < length h" "is_Elem h e" "t < length h" "\<not> listed h t"
  shows "linked (addChild h e t)"
proof (rule linked_update [OF assms(1) _ _ assms(2,3), where cs = "child h e @ [t]"])
  note f = addChild_fields [OF assms(3,2,4)]
  show "length (addChild h e t) = length h" by simp
  show "is_Elem (addChild h e t) a = is_Elem h a" "child (addChild h e t) a = (if a = e then child h e @ [t] else child h a)" for a
    by (simp_all add: f)
  show "(child h e @ [t]) ! i < length h \<and> parent (addChild h e t ! ((child h e @ [t]) ! i)) = Some e
      \<and> index (addChild h e t ! ((child h e @ [t]) ! i)) = int i" if "i < length (child h e @ [t])" for i
  proof (cases "i < length (child h e)")
    case True
    then have "child h e ! i \<noteq> t" using unlisted [OF assms(5,2)] nth_mem by metis
    then show ?thesis using True linked_child [OF assms(1,2) True] by (simp add: f nth_append)
  next
    case False
    then have "i = length (child h e)" using that by simp
    then show ?thesis using assms(4) by (simp add: f)
  qed
  show "parent (addChild h e t ! u) = parent (h ! u) \<and> index (addChild h e t ! u) = index (h ! u)"
    if "a < length h" "a \<noteq> e" "u \<in> set (child h a)" for a u
    using unlisted [OF assms(5) that(1)] that(3) by (auto simp: f)
  show "parent (addChild h e t ! u) = None \<or> 0 \<le> index (addChild h e t ! u)
      \<and> (parent (addChild h e t ! u) = Some e \<or> parent (addChild h e t ! u) = parent (h ! u))" if "u < length h" for u
    using linked_parent(3) [OF assms(1) that] by (cases "parent (h ! u)") (auto simp: f)
qed

lemma addChild_listed:
  "e < length h \<Longrightarrow> is_Elem h e \<Longrightarrow> t < length h \<Longrightarrow> listed (addChild h e t) a \<longleftrightarrow> listed h a \<or> a = t"
  unfolding listed_def by (auto simp: addChild_fields)

lemma insert_slot_spec:
  assumes "linked h" "e < length h" "is_Elem h e" "t < length h" "\<not> listed h t" "i \<le> length (child h e)"
  obtains h' where "insert_slot h e (int i) t = Ret h'" "linked h'" "length h' = length h" "\<And>a. is_Elem h' a = is_Elem h a"
    "\<And>a. child h' a = (if a = e then take i (child h e) @ t # drop i (child h e) else child h a)"
    "\<And>a. parent (h' ! a) = (if a = t then Some e else parent (h ! a))" "\<And>a. a \<noteq> e \<Longrightarrow> body (h' ! a) = body (h ! a)"
proof -
  let ?cs = "child h e"
  let ?cs' = "take i ?cs @ t # drop i ?cs"
  define h1 where "h1 = setChild (setParent h t (Some e)) e ?cs'"
  define h' where "h' = renumber h1 (int i) (drop i ?cs')"
  have r: "insert_slot h e (int i) t = Ret h'"
    using assms(6) by (simp add: insert_slot_def Let_def h'_def h1_def fields)
  have len: "length h' = length h" by (simp add: h'_def h1_def)
  have ie: "is_Elem h' a = is_Elem h a" for a by (simp add: h'_def h1_def fields)
  have ch: "child h' a = (if a = e then ?cs' else child h a)" for a using assms(2,3) by (simp add: h'_def h1_def fields)
  have pa: "parent (h' ! a) = (if a = t then Some e else parent (h ! a))" for a using assms(4) by (simp add: h'_def h1_def fields)
  have b: "body (h' ! a) = body (h ! a)" if "a \<noteq> e" for a using that by (simp add: h'_def h1_def fields)
  have t: "t \<notin> set ?cs" using unlisted [OF assms(5,2)] .
  have dr: "drop i ?cs' = t # drop i ?cs" using assms(6) by simp
  have d: "distinct (t # drop i ?cs)" using t linked_distinct [OF assms(1,2)] set_drop_subset [of i ?cs] by auto
  have lt: "\<forall>u \<in> set (t # drop i ?cs). u < length h1"
    using assms(4) linked_member(1) [OF assms(1,2)] set_drop_subset [of i ?cs] by (auto simp: h1_def)
  have new: "index (h' ! ((t # drop i ?cs) ! k)) = int i + int k" if "k < length (t # drop i ?cs)" for k
    unfolding h'_def dr by (rule renumber_index [OF d lt that])
  have old: "index (h' ! u) = index (h ! u)" if "u \<notin> set (t # drop i ?cs)" for u
    using that unfolding h'_def dr by (simp add: h1_def fields del: renumber.simps)
  have "linked h'"
  proof (rule linked_update [OF assms(1) len ie assms(2,3) ch])
    fix j assume j: "j < length ?cs'"
    show "?cs' ! j < length h \<and> parent (h' ! (?cs' ! j)) = Some e \<and> index (h' ! (?cs' ! j)) = int j"
    proof (cases "j < i")
      case True
      then have n: "?cs' ! j = ?cs ! j" "j < length ?cs" using assms(6) by (simp_all add: nth_append)
      have "?cs ! j \<notin> set (drop i ?cs)"
        using True n(2) linked_distinct [OF assms(1,2)] by (auto simp: in_set_conv_nth nth_eq_iff_index_eq)
      moreover have "?cs ! j \<noteq> t" using t n(2) nth_mem by metis
      ultimately show ?thesis using linked_child [OF assms(1,2) n(2)] old [of "?cs ! j"] n(1) by (simp add: pa)
    next
      case False
      then have n: "?cs' ! j = (t # drop i ?cs) ! (j - i)" "j - i < length (t # drop i ?cs)" using assms(6) j by (auto simp: nth_append)
      have "index (h' ! (?cs' ! j)) = int j" using new [OF n(2)] False by (simp add: n(1))
      moreover have "?cs' ! j = t \<or> ?cs' ! j \<in> set ?cs" using j nth_mem [OF j] set_take_subset [of i ?cs] set_drop_subset [of i ?cs] by auto
      ultimately show ?thesis using assms(4) linked_member [OF assms(1,2)] by (auto simp: pa)
    qed
  next
    fix a u assume a: "a < length h" "a \<noteq> e" "u \<in> set (child h a)"
    have "u \<notin> set ?cs" "u \<noteq> t" using linked_once [OF assms(1,2) a(1) _ a(3)] a unlisted [OF assms(5) a(1)] by blast+
    then have "u \<notin> set (t # drop i ?cs)" using set_drop_subset [of i ?cs] by auto
    then show "parent (h' ! u) = parent (h ! u) \<and> index (h' ! u) = index (h ! u)" using old [of u] \<open>u \<noteq> t\<close> by (simp add: pa)
  next
    fix u assume u: "u < length h"
    show "parent (h' ! u) = None \<or> 0 \<le> index (h' ! u) \<and> (parent (h' ! u) = Some e \<or> parent (h' ! u) = parent (h ! u))"
    proof (cases "u \<in> set (t # drop i ?cs)")
      case True
      then obtain k where k: "k < length (t # drop i ?cs)" "(t # drop i ?cs) ! k = u" unfolding in_set_conv_nth by blast
      then have "0 \<le> index (h' ! u)" using new [OF k(1)] by simp
      then show ?thesis by (simp add: pa)
    next
      case False
      then show ?thesis using old [OF False] linked_parent(3) [OF assms(1) u] by (cases "parent (h ! u)") (auto simp: pa)
    qed
  qed
  then show thesis using r len ie ch pa b by (intro that)
qed

subsection \<open>New tokens\<close>

lemma append_view:
  assumes "a < length h"
  shows "child (h @ x) a = child h a" "is_Elem (h @ x) a = is_Elem h a" "(h @ x) ! a = h ! a"
  using assms by (simp_all add: child_def is_Elem_def nth_append)

lemma append_linked:
  assumes "linked h" "Child (body t) = [] \<or> \<not> is_Element (body t)" "parent t = None"
  shows "linked (h @ [t])"
proof -
  have n: "child (h @ [t]) (length h) = []" using assms(2) by (cases "body t") (simp_all add: child_def)
  have p: "parent ((h @ [t]) ! length h) = None" using assms(3) by simp
  have lt: "a < length h \<longleftrightarrow> a < Suc (length h) \<and> a \<noteq> length h" for a by auto
  show ?thesis
    unfolding linked_def
  proof (intro conjI allI impI)
    fix e i assume e: "e < length (h @ [t])" "i < length (child (h @ [t]) e)"
    then have "e \<noteq> length h" using n by auto
    then have e': "e < length h" "i < length (child h e)" using e by (simp_all add: append_view)
    show "child (h @ [t]) e ! i < length (h @ [t])" "parent ((h @ [t]) ! (child (h @ [t]) e ! i)) = Some e"
      "index ((h @ [t]) ! (child (h @ [t]) e ! i)) = int i"
      using linked_child [OF assms(1) e'] e'(1) by (simp_all add: append_view)
  next
    fix u p' assume u: "u < length (h @ [t])" "parent ((h @ [t]) ! u) = Some p'"
    then have "u < length h" using p by (cases "u = length h") auto
    then show "p' < length (h @ [t])" "is_Elem (h @ [t]) p'" "0 \<le> index ((h @ [t]) ! u)"
      using linked_parent [OF assms(1), of u p'] u(2) by (simp_all add: append_view)
  qed
qed

lemma append_listed: "Child (body t) = [] \<or> \<not> is_Element (body t) \<Longrightarrow> listed (h @ [t]) a \<longleftrightarrow> listed h a"
proof -
  assume "Child (body t) = [] \<or> \<not> is_Element (body t)"
  then have n: "child (h @ [t]) (length h) = []" by (cases "body t") (simp_all add: child_def)
  show ?thesis
    unfolding listed_def
  proof
    assume "\<exists>e < length (h @ [t]). a \<in> set (child (h @ [t]) e)"
    then obtain e where e: "e < length (h @ [t])" "a \<in> set (child (h @ [t]) e)" by blast
    then have "e < length h" using n by (cases "e = length h") auto
    then show "\<exists>e < length h. a \<in> set (child h e)" using e by (auto simp: append_view)
  next
    assume "\<exists>e < length h. a \<in> set (child h e)"
    then show "\<exists>e < length (h @ [t]). a \<in> set (child (h @ [t]) e)" by (auto simp: append_view less_Suc_eq)
  qed
qed

lemma newElement_token: "newElement h s tg p = new_token h (Element s tg [] []) p"
proof (cases p)
  case (Some e)
  have "setParent (h @ [x\<lparr>parent := p\<rparr>]) (length h) q = setParent (h @ [x]) (length h) q" for x :: token and q
    by (simp add: setParent_def)
  from this [of "\<lparr>body = Element s tg [] [], parent = None, index = - 1\<rparr>"]
  show ?thesis using Some by (simp add: newElement_def new_token_def addChild_def Let_def)
qed (simp add: newElement_def new_token_def)

lemmas creators = newElement_token newCharData_def newComment_def newDirective_def newProcInst_def

lemma unlisted_new: "linked h \<Longrightarrow> \<not> listed h (length h)"
  using listed_parent [of h "length h"] by auto

lemma new_token_spec:
  assumes "linked h" "Child b = [] \<or> \<not> is_Element b" "\<And>e. p = Some e \<Longrightarrow> e < length h \<and> is_Elem h e"
  obtains h' where "new_token h b p = (length h, h')" "linked h'" "length h' = Suc (length h)"
    "\<And>a. a < length h \<Longrightarrow> is_Elem h' a = is_Elem h a" "body (h' ! length h) = b"
    "\<And>a. a < length h \<Longrightarrow> child h' a = (if p = Some a then child h a @ [length h] else child h a)"
    "\<And>a. a < length h \<Longrightarrow> p \<noteq> Some a \<Longrightarrow> h' ! a = h ! a"
    "\<And>a. a < length h \<Longrightarrow> parent (h' ! a) = parent (h ! a) \<and> index (h' ! a) = index (h ! a)"
    "parent (h' ! length h) = p" "\<And>a. listed h' a \<longleftrightarrow> listed h a \<or> (a = length h \<and> p \<noteq> None)"
proof -
  define h1 where "h1 = h @ [\<lparr>body = b, parent = None, index = - 1\<rparr>]"
  have l1: "linked h1" "length h1 = Suc (length h)" using assms(1,2) by (simp_all add: h1_def append_linked)
  have li: "listed h1 a \<longleftrightarrow> listed h a" for a using assms(2) by (simp add: h1_def append_listed)
  have v: "child h1 a = child h a" "is_Elem h1 a = is_Elem h a" "h1 ! a = h ! a" if "a < length h" for a
    using that by (simp_all add: h1_def append_view)
  have n: "body (h1 ! length h) = b" "parent (h1 ! length h) = None" by (simp_all add: h1_def)
  show thesis
  proof (cases p)
    case None
    then show thesis using that [of h1] l1 v n li by (simp add: new_token_def h1_def [symmetric])
  next
    case (Some e)
    then have e: "e < length h" "is_Elem h e" using assms(3) by simp_all
    then have e1: "e < length h1" "is_Elem h1 e" "length h < length h1" using l1(2) v by simp_all
    note f = addChild_fields [OF e1(2,1,3)]
    have same: "addChild h1 e (length h) ! a = h1 ! a" if "a < length h" "a \<noteq> e" for a
      using that e f(2,3,6) [of a] by (intro token.equality) simp_all
    show thesis
    proof (rule that [of "addChild h1 e (length h)"])
      show "linked (addChild h1 e (length h))" using l1(1) e1 unlisted_new [OF assms(1)] li by (intro addChild_linked) simp_all
      show "body (addChild h1 e (length h) ! length h) = b" using f(6) [of "length h"] e n by simp
      show "addChild h1 e (length h) ! a = h ! a" if "a < length h" "p \<noteq> Some a" for a using same [of a] that Some v by simp
      show "listed (addChild h1 e (length h)) a \<longleftrightarrow> listed h a \<or> (a = length h \<and> p \<noteq> None)" for a
        using addChild_listed [OF e1] li Some by simp
    qed (use Some l1 e f v in \<open>simp_all add: new_token_def h1_def [symmetric] Let_def\<close>)
  qed
qed

end
