(* ===== verification/Xml_Ops.thy ===== *)
theory Xml_Ops
  imports Xml_Links
begin

section \<open>Package goxml: what the operations do\<close>

text \<open>
  For each operation on children: that it keeps \<open>linked\<close>, when it panics, and the lists of children it
  leaves. A token is \<open>proper\<close> when it has no parent or its parent lists it.
\<close>

definition proper :: "heap \<Rightarrow> addr \<Rightarrow> bool" where
  "proper h t \<longleftrightarrow> parent (h ! t) = None \<or> listed h t"

lemma detach_proper:
  assumes "linked h" "t < length h" "proper h t"
  obtains h' where "detach h t = Ret h'" "linked h'" "length h' = length h" "\<And>a. is_Elem h' a = is_Elem h a" "\<not> listed h' t"
    "\<And>a. listed h' a \<Longrightarrow> listed h a" "\<And>a. a < length h \<Longrightarrow> child h' a = remove1 t (child h a)"
    "\<And>a. parent (h' ! a) = (if a = t then None else parent (h ! a))"
proof (rule detach_spec [OF assms(1,2)])
  fix h'
  assume h': "detach h t = Ret h'" "linked h'" "length h' = length h" "\<And>a. is_Elem h' a = is_Elem h a" "\<not> listed h' t"
    "\<And>a. listed h' a \<Longrightarrow> listed h a" "\<And>a. listed h t \<Longrightarrow> a < length h \<Longrightarrow> child h' a = remove1 t (child h a)"
    "\<And>a. listed h t \<Longrightarrow> parent (h' ! a) = (if a = t then None else parent (h ! a))" "\<And>a. parent (h ! t) = None \<Longrightarrow> h' = h"
  have c: "child h' a = remove1 t (child h a)" if "a < length h" for a
  proof (cases "listed h t")
    case False
    then have "h' = h" "t \<notin> set (child h a)" using assms(3) h'(9) unlisted that by (auto simp: proper_def)
    then show ?thesis by (simp add: remove1_idem)
  qed (use h'(7) that in simp)
  have p: "parent (h' ! a) = (if a = t then None else parent (h ! a))" for a
    using h'(8,9) assms(3) by (cases "listed h t") (auto simp: proper_def)
  show thesis using that h'(1-6) c p by blast
qed

subsection \<open>Adding and inserting\<close>

lemma AddChild_linked:
  assumes "linked h" "e < length h" "is_Elem h e" "t < length h"
  obtains h' where "AddChild h e t = Ret h'" "linked h'" "length h' = length h" "\<And>a. is_Elem h' a = is_Elem h a"
proof (rule detach_spec [OF assms(1,4)])
  fix h1
  assume h1: "detach h t = Ret h1" "linked h1" "length h1 = length h" "\<And>a. is_Elem h1 a = is_Elem h a" "\<not> listed h1 t"
  have "linked (addChild h1 e t)" using h1 assms by (intro addChild_linked) simp_all
  moreover have "is_Elem (addChild h1 e t) a = is_Elem h a" for a using addChild_fields(4) [of h1 e t] h1(3,4) assms by simp
  ultimately show thesis using that [of "addChild h1 e t"] h1 by (simp add: AddChild_def)
qed

lemma AddChild_spec:
  assumes "linked h" "e < length h" "is_Elem h e" "t < length h" "proper h t"
  obtains h' where "AddChild h e t = Ret h'" "linked h'" "length h' = length h" "\<And>a. is_Elem h' a = is_Elem h a"
    "\<And>a. a < length h \<Longrightarrow> child h' a = remove1 t (child h a) @ (if a = e then [t] else [])"
    "\<And>a. parent (h' ! a) = (if a = t then Some e else parent (h ! a))"
proof (rule detach_proper [OF assms(1,4,5)])
  fix h1
  assume h1: "detach h t = Ret h1" "linked h1" "length h1 = length h" "\<And>a. is_Elem h1 a = is_Elem h a" "\<not> listed h1 t"
    "\<And>a. a < length h \<Longrightarrow> child h1 a = remove1 t (child h a)" "\<And>a. parent (h1 ! a) = (if a = t then None else parent (h ! a))"
  note f = addChild_fields [of h1 e t]
  have "linked (addChild h1 e t)" using h1 assms by (intro addChild_linked) simp_all
  then show thesis using that [of "addChild h1 e t"] h1 assms f by (simp add: AddChild_def)
qed

lemma insert_slot_linked:
  assumes "linked h" "e < length h" "is_Elem h e" "t < length h" "\<not> listed h t" "insert_slot h e i t = Ret h'"
  shows "linked h' \<and> length h' = length h \<and> (\<forall>a. is_Elem h' a = is_Elem h a)"
proof -
  have i: "0 \<le> i" "nat i \<le> length (child h e)"
    using assms(6) by (auto simp: insert_slot_def Let_def fields split: if_splits)
  show ?thesis by (rule insert_slot_spec [OF assms(1-5) i(2)]) (use assms(6) i(1) in auto)
qed

lemma InsertChildAt_linked:
  assumes "linked h" "e < length h" "is_Elem h e" "t < length h" "InsertChildAt h e i t = Ret h'"
  shows "linked h' \<and> length h' = length h \<and> (\<forall>a. is_Elem h' a = is_Elem h a)"
proof (cases "i \<ge> int (length (child h e))")
  case True
  then have "AddChild h e t = Ret h'" using assms(5) by (simp add: InsertChildAt_def)
  then show ?thesis using AddChild_linked [OF assms(1-4)] by (metis outcome.inject)
next
  case False
  show ?thesis
  proof (rule detach_spec [OF assms(1,4)])
    fix h1
    assume h1: "detach h t = Ret h1" "linked h1" "length h1 = length h" "\<And>a. is_Elem h1 a = is_Elem h a" "\<not> listed h1 t"
    then have "insert_slot h1 e (if parent (h ! t) = Some e \<and> index (h ! t) > i then i - 1 else i) t = Ret h'"
      using assms(5) False by (simp add: InsertChildAt_def Let_def)
    then show ?thesis using insert_slot_linked [OF h1(2) _ _ _ h1(5)] h1(3,4) assms by metis
  qed
qed

lemma InsertChild_linked:
  assumes "linked h" "e < length h" "is_Elem h e" "t < length h" "InsertChild h e ex t = Ret h'"
  shows "linked h' \<and> length h' = length h \<and> (\<forall>a. is_Elem h' a = is_Elem h a)"
proof (cases "\<exists>x. ex = Some x \<and> parent (h ! x) = Some e")
  case False
  then have "InsertChild h e ex t = AddChild h e t" by (auto simp: InsertChild_def split: option.split)
  then have "AddChild h e t = Ret h'" using assms(5) by simp
  then show ?thesis using AddChild_linked [OF assms(1-4)] by (metis outcome.inject)
next
  case True
  then obtain x where x: "ex = Some x" "parent (h ! x) = Some e" by blast
  show ?thesis
  proof (rule detach_spec [OF assms(1,4)])
    fix h1
    assume h1: "detach h t = Ret h1" "linked h1" "length h1 = length h" "\<And>a. is_Elem h1 a = is_Elem h a" "\<not> listed h1 t"
    then have "insert_slot h1 e (index (h1 ! x)) t = Ret h'" using assms(5) x by (simp add: InsertChild_def)
    then show ?thesis using insert_slot_linked [OF h1(2) _ _ _ h1(5)] h1(3,4) assms by metis
  qed
qed

text \<open>
  Where \<open>InsertChildAt\<close> puts a token: the index is corrected for the removal of the token from the same
  element in the wrong direction.
\<close>

definition insert_position :: "addr list \<Rightarrow> nat \<Rightarrow> addr \<Rightarrow> nat option" where
  "insert_position cs i t =
     (if t \<in> set (drop (Suc i) cs) then (if i = 0 then None else Some (i - 1)) else Some i)"

lemma InsertChildAt_spec:
  assumes "linked h" "e < length h" "t < length h" "proper h t" "i < length (child h e)"
  shows "case insert_position (child h e) i t of
      None \<Rightarrow> InsertChildAt h e (int i) t = Panic
    | Some k \<Rightarrow> \<exists>h'. InsertChildAt h e (int i) t = Ret h' \<and> linked h'
        \<and> child h' e = take k (remove1 t (child h e)) @ t # drop k (remove1 t (child h e))
        \<and> (\<forall>a < length h. a \<noteq> e \<longrightarrow> child h' a = remove1 t (child h a))"
proof -
  have el: "is_Elem h e" using assms(5) by (intro child_Elem) auto
  have later: "t \<in> set (drop (Suc i) (child h e)) \<longleftrightarrow> parent (h ! t) = Some e \<and> index (h ! t) > int i"
  proof
    assume t: "t \<in> set (drop (Suc i) (child h e))"
    then have "t \<in> set (child h e)" by (rule in_set_dropD)
    moreover have "index (h ! t) > int i" by (rule drop_index [OF assms(1,2) _ t]) (use assms(5) in auto)
    ultimately show "parent (h ! t) = Some e \<and> index (h ! t) > int i" using linked_member(2) [OF assms(1,2)] by simp
  next
    assume t: "parent (h ! t) = Some e \<and> index (h ! t) > int i"
    then have "listed h t" using assms(4) by (simp add: proper_def)
    then have "t \<in> set (child h e)" using listed_parent [OF assms(1)] t by fastforce
    then obtain j where "j < length (child h e)" "child h e ! j = t" "index (h ! t) = int j" using linked_member(3) [OF assms(1,2)] by blast
    then show "t \<in> set (drop (Suc i) (child h e))" using t by (auto simp: in_set_conv_nth intro!: exI [of _ "j - Suc i"])
  qed
  show ?thesis
  proof (rule detach_proper [OF assms(1,3,4)])
    fix h1
    assume h1: "detach h t = Ret h1" "linked h1" "length h1 = length h" "\<And>a. is_Elem h1 a = is_Elem h a" "\<not> listed h1 t"
      "\<And>a. a < length h \<Longrightarrow> child h1 a = remove1 t (child h a)"
    have r: "InsertChildAt h e (int i) t = insert_slot h1 e (if t \<in> set (drop (Suc i) (child h e)) then int i - 1 else int i) t"
      using assms(5) h1(1) by (simp add: InsertChildAt_def Let_def later)
    have c1: "child h1 e = remove1 t (child h e)" using h1(6) assms(2) by simp
    have len: "length (child h1 e) \<ge> length (child h e) - 1" unfolding c1 by (simp add: length_remove1)
    show ?thesis
    proof (cases "insert_position (child h e) i t")
      case None
      then have "t \<in> set (drop (Suc i) (child h e))" "i = 0" by (auto simp: insert_position_def split: if_splits)
      then show ?thesis using None r by (simp add: insert_slot_def Let_def)
    next
      case (Some k)
      then have k: "(if t \<in> set (drop (Suc i) (child h e)) then int i - 1 else int i) = int k" "k \<le> i"
        by (auto simp: insert_position_def split: if_splits)
      have "k \<le> length (child h1 e)" "e < length h1" "is_Elem h1 e" "t < length h1" using k(2) len assms(2,3,5) h1(3,4) el by simp_all
      note slot = insert_slot_spec [OF h1(2) this(2,3,4) h1(5) this(1)]
      obtain h' where h': "insert_slot h1 e (int k) t = Ret h'" "linked h'"
        "\<And>a. child h' a = (if a = e then take k (child h1 e) @ t # drop k (child h1 e) else child h1 a)"
        by (rule slot) blast
      then show ?thesis using Some r k(1) h1(6) assms(2) by simp
    qed
  qed
qed

lemma remove1_position: "x \<noteq> t \<Longrightarrow> x \<in> set cs \<Longrightarrow> distinct cs \<Longrightarrow> \<exists>k < length (remove1 t cs). remove1 t cs ! k = x"
  by (metis in_set_conv_nth in_set_remove1)

lemma InsertChild_spec:
  assumes "linked h" "e < length h" "t < length h" "proper h t" "x \<in> set (child h e)"
  shows "if x = t then InsertChild h e (Some x) t = Panic
    else \<exists>h' k. InsertChild h e (Some x) t = Ret h' \<and> linked h'
      \<and> k < length (remove1 t (child h e)) \<and> remove1 t (child h e) ! k = x
      \<and> child h' e = take k (remove1 t (child h e)) @ t # drop k (remove1 t (child h e))
      \<and> (\<forall>a < length h. a \<noteq> e \<longrightarrow> child h' a = remove1 t (child h a))"
proof (rule detach_proper [OF assms(1,3,4)])
  fix h1
  assume h1: "detach h t = Ret h1" "linked h1" "length h1 = length h" "\<And>a. is_Elem h1 a = is_Elem h a" "\<not> listed h1 t"
    "\<And>a. a < length h \<Longrightarrow> child h1 a = remove1 t (child h a)"
  have el: "is_Elem h e" using assms(5) by (intro child_Elem) auto
  have r: "InsertChild h e (Some x) t = insert_slot h1 e (index (h1 ! x)) t"
    using linked_member(2) [OF assms(1,2,5)] h1(1) by (simp add: InsertChild_def)
  have c1: "child h1 e = remove1 t (child h e)" using h1(6) assms(2) by simp
  show ?thesis
  proof (cases "x = t")
    case True
    have "index (h1 ! t) = - 1"
    proof -
      obtain i where i: "i < length (child h e)" "child h e ! i = t" "index (h ! t) = int i"
        using linked_member(3) [OF assms(1,2,5)] True by blast
      obtain h2 where h2: "RemoveChildAt h e (int i) = Ret (Some (child h e ! i), h2)"
        "\<And>a. index (h2 ! a) = (if a = child h e ! i then - 1 else if a \<in> set (drop (Suc i) (child h e)) then index (h ! a) - 1 else index (h ! a))"
        by (rule RemoveChildAt_spec [OF assms(1,2) i(1)]) blast
      have "detach h t = Ret h2" using h2(1) i linked_member(2) [OF assms(1,2,5)] True by (simp add: detach_def RemoveChild_def)
      then show ?thesis using h1(1) h2(2) i(2) by simp
    qed
    then show ?thesis using True r by (simp add: insert_slot_def Let_def)
  next
    case False
    then obtain k where k: "k < length (child h1 e)" "child h1 e ! k = x"
      using remove1_position [OF False assms(5)] linked_distinct [OF assms(1,2)] c1 by auto
    have e1: "e < length h1" "is_Elem h1 e" "t < length h1" using assms(2,3) h1(3,4) el by simp_all
    have ix: "index (h1 ! x) = int k" using linked_child(3) [OF h1(2) e1(1) k(1)] k(2) by simp
    obtain h' where h': "insert_slot h1 e (int k) t = Ret h'" "linked h'"
      "\<And>a. child h' a = (if a = e then take k (child h1 e) @ t # drop k (child h1 e) else child h1 a)"
      by (rule insert_slot_spec [OF h1(2) e1 h1(5) less_imp_le [OF k(1)]]) blast
    then have "InsertChild h e (Some x) t = Ret h' \<and> linked h' \<and> k < length (remove1 t (child h e)) \<and> remove1 t (child h e) ! k = x
      \<and> child h' e = take k (remove1 t (child h e)) @ t # drop k (remove1 t (child h e))
      \<and> (\<forall>a < length h. a \<noteq> e \<longrightarrow> child h' a = remove1 t (child h a))"
      using r ix k h1(6) c1 by simp
    then show ?thesis using False by auto
  qed
qed

subsection \<open>Fewer children\<close>

lemma linked_keep:
  assumes "linked h" "e < length h" "is_Elem h e" "length h' = length h" "\<And>a. is_Elem h' a = is_Elem h a"
    and "\<And>a. child h' a = (if a = e then keep else child h a)" "set keep \<subseteq> set (child h e)"
    and "\<And>a. parent (h' ! a) = parent (h ! a)" "\<And>j. j < length keep \<Longrightarrow> index (h' ! (keep ! j)) = int j"
    and "\<And>a. a \<notin> set keep \<Longrightarrow> index (h' ! a) = index (h ! a)"
  shows "linked h'"
proof (rule linked_update [OF assms(1,4,5,2,3,6)])
  show "keep ! i < length h \<and> parent (h' ! (keep ! i)) = Some e \<and> index (h' ! (keep ! i)) = int i" if "i < length keep" for i
    using linked_member(1,2) [OF assms(1,2)] assms(7-9) that by (metis nth_mem subsetD)
  show "parent (h' ! t) = parent (h ! t) \<and> index (h' ! t) = index (h ! t)" if "a < length h" "a \<noteq> e" "t \<in> set (child h a)" for a t
    using linked_once [OF assms(1,2) that(1) _ that(3)] that(2) assms(7,8,10) by blast
  show "parent (h' ! t) = None \<or> 0 \<le> index (h' ! t) \<and> (parent (h' ! t) = Some e \<or> parent (h' ! t) = parent (h ! t))" if "t < length h" for t
  proof (cases "t \<in> set keep")
    case True
    then show ?thesis using assms(8,9) by (auto simp: in_set_conv_nth)
  next
    case False
    then show ?thesis using assms(8,10) linked_parent(3) [OF assms(1) that] by (cases "parent (h ! t)") auto
  qed
qed

lemma setBody_linked:
  assumes "linked h" "is_Element b = is_Elem h t" "is_Element b \<Longrightarrow> Child b = child h t"
  shows "linked (setBody h t b)" "is_Elem (setBody h t b) a = is_Elem h a" "child (setBody h t b) a = child h a"
proof -
  show c: "child (setBody h t b) a = child h a" for a
    using assms(2,3) by (cases b) (auto simp: child_def setBody_fields is_Elem_def split: body.splits)
  show e: "is_Elem (setBody h t b) a = is_Elem h a" for a
    using assms(2) by (cases b) (auto simp: setBody_fields is_Elem_def split: body.splits)
  show "linked (setBody h t b)" using assms(1) by (simp add: linked_def c e setBody_fields)
qed

lemma setAttrs_linked: "linked h \<Longrightarrow> linked (setAttrs h e as)"
  by (simp add: linked_def fields)

lemma nth_keep: "i \<le> j \<Longrightarrow> j \<le> length cs \<Longrightarrow> k < length (take i cs @ drop j cs) \<Longrightarrow> (take i cs @ drop j cs) ! k = cs ! (if k < i then k else k - i + j)"
  by (auto simp: nth_append add.commute)

lemma splice_linked:
  assumes "linked h" "e < length h" "i \<le> j" "j \<le> length (child h e)" "is_Elem h e"
  defines "keep \<equiv> take i (child h e) @ drop j (child h e)"
  shows "linked (renumber (setChild h e keep) (int i) (drop j (child h e)))"
proof (rule linked_keep [OF assms(1,2,5), where keep = keep])
  let ?cs = "child h e" and ?h' = "renumber (setChild h e keep) (int i) (drop j (child h e))"
  have d: "distinct ?cs" using assms(1,2) by (rule linked_distinct)
  have dd: "distinct (drop j ?cs)" "\<forall>t \<in> set (drop j ?cs). t < length (setChild h e keep)"
    using d linked_member(1) [OF assms(1,2)] by (auto dest: in_set_dropD)
  show "set keep \<subseteq> set ?cs" by (auto simp: keep_def dest: in_set_takeD in_set_dropD)
  show "index (?h' ! (keep ! k)) = int k" if "k < length keep" for k
  proof (cases "k < i")
    case True
    then have k: "keep ! k = ?cs ! k" "k < length ?cs" using assms(3,4) by (simp_all add: keep_def nth_append)
    have "?cs ! k \<notin> set (drop j ?cs)" using True assms(3,4) d by (auto simp: in_set_conv_nth nth_eq_iff_index_eq)
    then show ?thesis using k linked_child(3) [OF assms(1,2) k(2)] by (simp add: fields)
  next
    case False
    then have k: "keep ! k = drop j ?cs ! (k - i)" "k - i < length (drop j ?cs)"
      using that assms(3,4) by (auto simp: keep_def nth_append)
    show ?thesis unfolding k(1) using renumber_index [OF dd k(2), of "int i"] False by simp
  qed
  show "index (?h' ! a) = index (h ! a)" if "a \<notin> set keep" for a
    using that by (simp add: keep_def fields)
qed (use assms(2,5) in \<open>simp_all add: fields\<close>)

lemma stripIndent_linked:
  assumes "linked h" "e < length h" "is_Elem h e"
  shows "linked (stripIndent h e)" "length (stripIndent h e) = length h" "is_Elem (stripIndent h e) a = is_Elem h a"
    "child (stripIndent h e) a = (if a = e then filter (\<lambda>c. \<not> is_indent h c) (child h e) else child h a)"
    "a \<noteq> e \<Longrightarrow> body (stripIndent h e ! a) = body (h ! a)"
proof -
  let ?k = "filter (\<lambda>c. \<not> is_indent h c) (child h e)"
  let ?h = "setChild (renumber h 0 ?k) e ?k"
  have same: "?k = child h e" if "length ?k = length (child h e)"
    using that by (metis filter_id_conv length_filter_less order_less_irrefl)
  have k: "distinct ?k" "\<forall>t \<in> set ?k. t < length h" using linked_distinct [OF assms(1,2)] linked_member(1) [OF assms(1,2)] by auto
  have "linked ?h"
  proof (rule linked_keep [OF assms(1-3), where keep = ?k])
    show "index (?h ! (?k ! j)) = int j" if "j < length ?k" for j using renumber_index [OF k that, of 0] by (simp add: fields)
  qed (use assms(2,3) in \<open>auto simp: fields\<close>)
  then show "linked (stripIndent h e)" using assms(1) by (simp add: stripIndent_def Let_def)
  show "child (stripIndent h e) a = (if a = e then ?k else child h a)"
    using same assms(2,3) by (auto simp: stripIndent_def Let_def fields)
qed (simp_all add: stripIndent_def Let_def fields)

subsection \<open>Text\<close>

lemma findTerm_bounds:
  assumes "i \<le> length (child h e)"
  shows "i \<le> findTermCharDataIndex h e i" "findTermCharDataIndex h e i \<le> length (child h e)"
  using assms length_takeWhile_le [of "is_Char h" "drop i (child h e)"] by (auto simp: findTermCharDataIndex_def)

lemma findTerm_chars:
  assumes "i \<le> k" "k < findTermCharDataIndex h e i" "i \<le> length (child h e)"
  shows "is_Char h (child h e ! k)"
proof -
  have k: "k - i < length (takeWhile (is_Char h) (drop i (child h e)))" "i < length (child h e)"
    using assms by (auto simp: findTermCharDataIndex_def split: if_splits)
  then show ?thesis using nth_mem [OF k(1)] takeWhile_nth [OF k(1)] assms(1) by (auto dest: set_takeWhileD)
qed

lemma is_Char_Elem: "is_Char h t \<Longrightarrow> \<not> is_Elem h t"
  by (auto simp: is_Char_def is_Elem_def split: body.splits)

text \<open>The three forms that \<open>replaceText\<close> can take.\<close>

lemma replaceText_cases:
  assumes "i \<le> length (child h e)"
  defines "k \<equiv> findTermCharDataIndex h e i" and "cs \<equiv> child h e"
  obtains (none) "k = i" "str = []" "replaceText h e i str fl = Ret h"
    | (new) "k = i" "str \<noteq> []" "replaceText h e i str fl = InsertChildAt (snd (new_token h (CharData str fl) None)) e (int i) (length h)"
    | (remove) "i < k" "str = []" "replaceText h e i str fl = (if k = Suc i then (case RemoveChildAt h e (int i) of Panic \<Rightarrow> Panic | Ret (_, h1) \<Rightarrow> Ret h1)
          else Ret (renumber (setChild h e (take i cs @ drop k cs)) (int i) (drop k cs)))"
    | (set) "i < k" "str \<noteq> []" "replaceText h e i str fl = Ret (if k = Suc i then setBody h (cs ! i) (CharData str fl)
          else renumber (setChild (setBody h (cs ! i) (CharData str fl)) e (take (Suc i) cs @ drop k cs)) (int (Suc i)) (drop k cs))"
proof -
  have b: "i \<le> k" using findTerm_bounds [OF assms(1)] by (simp add: k_def)
  have n: "newCharData h str fl None = (length h, snd (new_token h (CharData str fl) None))"
    by (simp add: newCharData_def new_token_def Let_def)
  show thesis
    using that b assms(1) n unfolding replaceText_def Let_def k_def [symmetric] cs_def [symmetric]
    by (cases "k = i"; cases "str = []") (auto simp: Let_def)
qed

lemma replaceText_linked:
  assumes "linked h" "e < length h" "is_Elem h e" "i \<le> length (child h e)"
  obtains h' where "replaceText h e i str fl = Ret h'" "linked h'" "\<And>a. a < length h \<Longrightarrow> is_Elem h' a = is_Elem h a" "length h \<le> length h'"
  using assms(4)
proof (cases rule: replaceText_cases [where str = str and fl = fl])
  case none
  then show thesis using that assms(1) by blast
next
  case new
  obtain h1 where h1: "new_token h (CharData str fl) None = (length h, h1)" "linked h1" "length h1 = Suc (length h)"
    "\<And>a. a < length h \<Longrightarrow> is_Elem h1 a = is_Elem h a" "\<And>a. a < length h \<Longrightarrow> child h1 a = child h a"
    "parent (h1 ! length h) = None"
    by (rule new_token_spec [OF assms(1), of "CharData str fl" None]) auto
  have p: "proper h1 (length h)" using h1(6) by (simp add: proper_def)
  have c: "child h1 e = child h e" "length h \<notin> set (child h e)" using h1(5) assms(2) linked_member(1) [OF assms(1,2)] by auto
  have "\<exists>h'. InsertChildAt h1 e (int i) (length h) = Ret h'"
  proof (cases "i < length (child h e)")
    case True
    then have "insert_position (child h1 e) i (length h) = Some i" using c by (auto simp: insert_position_def dest: in_set_dropD)
    then show ?thesis using InsertChildAt_spec [OF h1(2) _ _ p, of e i] h1(3) True c assms(2) by auto
  next
    case False
    then show ?thesis using AddChild_linked [OF h1(2), of e "length h"] h1(3,4) assms(2,3) c assms(4)
      by (metis InsertChildAt_def leI less_Suc_eq of_nat_le_iff)
  qed
  then obtain h' where h': "InsertChildAt h1 e (int i) (length h) = Ret h'" by blast
  then show thesis
    using that [of h'] InsertChildAt_linked [OF h1(2) _ _ _ h'] new h1 assms(2,3) by simp
next
  case remove
  note b = findTerm_bounds [OF assms(4)]
  show thesis
  proof (cases "findTermCharDataIndex h e i = Suc i")
    case True
    then have i: "i < length (child h e)" using b by simp
    obtain h' where "RemoveChildAt h e (int i) = Ret (Some (child h e ! i), h')" "linked h'" "length h' = length h" "\<And>a. is_Elem h' a = is_Elem h a"
      by (rule RemoveChildAt_spec [OF assms(1,2) i]) blast
    then show thesis using that [of h'] remove True by simp
  next
    case False
    then show thesis using that splice_linked [OF assms(1,2) b(1,2) assms(3)] remove by (simp add: fields)
  qed
next
  case set
  note b = findTerm_bounds [OF assms(4)]
  let ?t = "child h e ! i" and ?k = "findTermCharDataIndex h e i"
  have "is_Char h ?t" using findTerm_chars [of i i] set(1) assms(4) by simp
  then have t: "\<not> is_Elem h ?t" by (rule is_Char_Elem)
  note sb = setBody_linked [OF assms(1), of "CharData str fl" ?t]
  have l: "linked (setBody h ?t (CharData str fl))" and same: "\<And>a. is_Elem (setBody h ?t (CharData str fl)) a = is_Elem h a"
    "\<And>a. child (setBody h ?t (CharData str fl)) a = child h a"
    using sb t by simp_all
  show thesis
  proof (cases "?k = Suc i")
    case True
    then show thesis using that l same set by simp
  next
    case False
    then have "Suc i \<le> ?k" using set(1) by simp
    then show thesis
      using that splice_linked [OF l, of e "Suc i" ?k] same set False b assms(2,3) by (simp add: fields)
  qed
qed

text \<open>What is left in the place of the character data: nothing, or one token with the text.\<close>

lemma drop_run: "i \<le> length (child h e) \<Longrightarrow> \<exists>ts. drop (findTermCharDataIndex h e i) (child h e) = ts \<and> (ts \<noteq> [] \<longrightarrow> \<not> is_Char h (hd ts))"
proof -
  assume "i \<le> length (child h e)"
  let ?ds = "drop i (child h e)"
  have "drop (length (takeWhile (is_Char h) ?ds)) ?ds = dropWhile (is_Char h) ?ds" by (simp add: dropWhile_eq_drop)
  then have "drop (findTermCharDataIndex h e i) (child h e) = dropWhile (is_Char h) ?ds"
    by (auto simp: findTermCharDataIndex_def add.commute)
  then show ?thesis using hd_dropWhile [of "is_Char h" ?ds] by auto
qed

lemma char_run_stop: "ts = [] \<or> \<not> is_Char h (hd ts) \<Longrightarrow> char_run h ts = []"
  by (cases ts) (auto simp: is_Char_def split: body.split)

lemma replaceText_children:
  assumes "linked h" "e < length h" "is_Elem h e" "i \<le> length (child h e)" "replaceText h e i str fl = Ret h'"
  defines "rest \<equiv> drop (findTermCharDataIndex h e i) (child h e)"
  shows "\<exists>t. child h' e = take i (child h e) @ (if str = [] then [] else [t]) @ rest
      \<and> (str \<noteq> [] \<longrightarrow> body (h' ! t) = CharData str fl) \<and> (\<forall>a < length h. is_Char h' a = is_Char h a)"
  using assms(4)
proof (cases rule: replaceText_cases [where str = str and fl = fl])
  case none
  then show ?thesis using assms(5) by (simp add: rest_def)
next
  case new
  obtain h1 where h1: "new_token h (CharData str fl) None = (length h, h1)" "linked h1" "length h1 = Suc (length h)"
    "\<And>a. a < length h \<Longrightarrow> is_Elem h1 a = is_Elem h a" "body (h1 ! length h) = CharData str fl"
    "\<And>a. a < length h \<Longrightarrow> child h1 a = child h a" "\<And>a. a < length h \<Longrightarrow> h1 ! a = h ! a" "parent (h1 ! length h) = None"
    by (rule new_token_spec [OF assms(1), of "CharData str fl" None]) auto
  have e1: "e < length h1" "is_Elem h1 e" "length h < length h1" using h1(3,4) assms(2,3) by simp_all
  have nl: "\<not> listed h1 (length h)" using listed_parent [OF h1(2)] h1(8) by fastforce
  have det: "detach h1 (length h) = Ret h1" using h1(8) by (simp add: detach_def)
  have ins: "InsertChildAt h1 e (int i) (length h) = Ret h'" using new(3) assms(5) h1(1) by simp
  have "child h' e = take i (child h e) @ length h # drop i (child h e) \<and> (\<forall>a. a \<noteq> e \<longrightarrow> body (h' ! a) = body (h1 ! a)) \<and> is_Elem h' e"
  proof (cases "i < length (child h e)")
    case True
    then have r: "insert_slot h1 e (int i) (length h) = Ret h'" using ins det h1(6,8) assms(2) by (simp add: InsertChildAt_def)
    have le: "i \<le> length (child h1 e)" using True h1(6) assms(2) by simp
    show ?thesis by (rule insert_slot_spec [OF h1(2) e1 nl le]) (use r h1(6) assms(2) e1 in auto)
  next
    case False
    then have "h' = addChild h1 e (length h)" using ins det h1(6) assms(2,4) by (simp add: InsertChildAt_def AddChild_def)
    then show ?thesis using addChild_fields [OF e1(2,1,3)] False h1(6) assms(2,4) e1(2) by simp
  qed
  moreover have "is_Char h' a = is_Char h a" if "a < length h" for a
    using calculation that h1(7) assms(3) body_cong(6) [of h' a h1] is_Char_Elem by (cases "a = e") (auto simp: is_Char_def)
  moreover have "body (h' ! length h) = CharData str fl" using calculation(1) h1(5) assms(2) by simp
  ultimately show ?thesis using new by (intro exI [of _ "length h"]) (simp add: rest_def)
next
  case remove
  note b = findTerm_bounds [OF assms(4)]
  show ?thesis
  proof (cases "findTermCharDataIndex h e i = Suc i")
    case True
    then have i: "i < length (child h e)" using b by simp
    obtain h2 where h2: "RemoveChildAt h e (int i) = Ret (Some (child h e ! i), h2)" "\<And>a. is_Elem h2 a = is_Elem h a"
      "\<And>a. child h2 a = (if a = e then take i (child h e) @ drop (Suc i) (child h e) else child h a)"
      "\<And>a. a \<noteq> e \<Longrightarrow> body (h2 ! a) = body (h ! a)"
      by (rule RemoveChildAt_spec [OF assms(1,2) i]) blast
    then have "h' = h2" using remove assms(5) True by simp
    moreover have "is_Char h2 a = is_Char h a" for a
      using h2(2,4) [of a] assms(3) is_Char_Elem by (cases "a = e") (auto simp: is_Char_def)
    ultimately show ?thesis using h2(3) remove True by (simp add: rest_def)
  next
    case False
    then show ?thesis using remove assms(2,3,5) by (auto simp: rest_def fields)
  qed
next
  case set
  let ?t = "child h e ! i" and ?k = "findTermCharDataIndex h e i"
  have ch: "is_Char h ?t" using findTerm_chars [of i i] set(1) assms(4) by simp
  have i: "i < length (child h e)" using set(1) findTerm_bounds [OF assms(4)] by simp
  then have t: "?t < length h" "?t \<noteq> e" using linked_child(1) [OF assms(1,2) i] ch is_Char_Elem assms(3) by auto
  have sp: "take (Suc i) (child h e) = take i (child h e) @ [?t]" using i by (simp add: take_Suc_conv_app_nth)
  let ?b = "setBody h ?t (CharData str fl)"
  have same: "child ?b a = child h a" "is_Elem ?b a = is_Elem h a" "is_Char ?b a = is_Char h a" for a
    using setBody_linked(2,3) [OF assms(1), of "CharData str fl" ?t] ch is_Char_Elem t by (auto simp: is_Char_def setBody_fields)
  have bt: "body (?b ! ?t) = CharData str fl" using t by (simp add: setBody_fields)
  show ?thesis
  proof (cases "?k = Suc i")
    case True
    then have "h' = ?b" using set assms(5) by simp
    moreover have "child h e = take i (child h e) @ [?t] @ rest" using True sp unfolding rest_def by (metis append_assoc append_take_drop_id)
    ultimately show ?thesis using same bt set by auto
  next
    case False
    then have "h' = renumber (setChild ?b e (take (Suc i) (child h e) @ drop ?k (child h e))) (int (Suc i)) (drop ?k (child h e))"
      using set assms(5) by simp
    then have "child h' e = take i (child h e) @ [?t] @ rest" "body (h' ! ?t) = CharData str fl" "\<forall>a. is_Char h' a = is_Char h a"
      using same bt t assms(2,3) sp by (simp_all add: fields rest_def)
    then show ?thesis using set by auto
  qed
qed

lemma replaceText_run:
  assumes "linked h" "e < length h" "is_Elem h e" "i \<le> length (child h e)"
  obtains h' where "replaceText h e i str fl = Ret h'" "linked h'" "length h \<le> length h'" "take i (child h' e) = take i (child h e)"
    "char_run h' (drop i (child h' e)) = str"
proof (rule replaceText_linked [OF assms, of str fl])
  fix h' assume h': "replaceText h e i str fl = Ret h'" "linked h'" "length h \<le> length h'"
  let ?rest = "drop (findTermCharDataIndex h e i) (child h e)"
  obtain t where t: "child h' e = take i (child h e) @ (if str = [] then [] else [t]) @ ?rest"
    "str \<noteq> [] \<longrightarrow> body (h' ! t) = CharData str fl" "\<forall>a < length h. is_Char h' a = is_Char h a"
    using replaceText_children [OF assms h'(1)] by blast
  have "?rest = [] \<or> \<not> is_Char h' (hd ?rest)"
    using drop_run [OF assms(4)] t(3) linked_member(1) [OF assms(1,2)] by (metis hd_in_set in_set_dropD)
  then have "char_run h' ?rest = []" by (rule char_run_stop)
  then show thesis using that h' t(1,2) assms(4) by simp
qed

lemma SetText_Text: "linked h \<Longrightarrow> e < length h \<Longrightarrow> is_Elem h e \<Longrightarrow> \<exists>h'. SetText h e str = Ret h' \<and> linked h' \<and> Text h' e = str"
  by (rule replaceText_run [of h e 0 str 0]) (auto simp: SetText_def Text_def)

lemma SetTail_Tail:
  assumes "linked h" "e < length h" "listed h e"
  shows "\<exists>h'. SetTail h e str = Ret h' \<and> linked h' \<and> Tail h' e = Ret str"
proof -
  obtain p where p: "p < length h" "parent (h ! e) = Some p" "e \<in> set (child h p)" using listed_parent [OF assms(1,3)] by blast
  then obtain i where i: "i < length (child h p)" "child h p ! i = e" "index (h ! e) = int i" using linked_member(3) [OF assms(1)] by blast
  have el: "is_Elem h p" using p(3) by (intro child_Elem) auto
  have le: "Suc i \<le> length (child h p)" using i(1) by simp
  show ?thesis
  proof (rule replaceText_run [OF assms(1) p(1) el le, of str 0])
    fix h' assume h': "replaceText h p (Suc i) str 0 = Ret h'" "linked h'" "length h \<le> length h'" "take (Suc i) (child h' p) = take (Suc i) (child h p)"
      "char_run h' (drop (Suc i) (child h' p)) = str"
    have l: "i < length (child h' p)" using arg_cong [OF h'(4), of length] le by simp
    then have "child h' p ! i = e" using arg_cong [OF h'(4), of "\<lambda>l. l ! i"] i(2) by simp
    then have "parent (h' ! e) = Some p" "index (h' ! e) = int i" using linked_child [OF h'(2), of p i] l p(1) h'(3) by auto
    then have "Tail h' e = Ret str" using h'(5) l by (simp add: Tail_def Let_def nat_add_distrib)
    then show ?thesis using h' p(2) i(3) by (simp add: SetTail_def nat_add_distrib)
  qed
qed

end
