(* ===== verification/Xml_Edits.thy ===== *)
theory Xml_Edits
  imports Xml_Ops
begin

section \<open>Package goxml: every edit keeps the links\<close>

text \<open>
  The operations on whole trees (new roots, copies, reading, indentation) and the step relation of all
  edits. The copy of a document is not among them: it breaks the links.
\<close>

subsection \<open>Roots\<close>

lemma first_element_Some: "first_element h ts = Some i \<Longrightarrow> i < length ts \<and> is_Elem h (ts ! i) \<and> (\<forall>j < i. \<not> is_Elem h (ts ! j))"
proof (induction ts arbitrary: i)
  case (Cons t ts)
  then show ?case by (cases i) (auto simp: less_Suc_eq_0_disj split: if_splits)
qed simp

lemma first_element_None: "first_element h ts = None \<longleftrightarrow> (\<forall>t \<in> set ts. \<not> is_Elem h t)"
  by (induction ts) auto

lemma replace_child_linked:
  assumes "linked h" "p < length h" "is_Elem h p" "e < length h" "\<not> listed h e" "i < length (child h p)"
  defines "t \<equiv> child h p ! i"
  defines "h' \<equiv> setIndex (setParent (setChild (setIndex (setParent h t None) t (- 1)) p ((child h p)[i := e])) e (Some p)) e (int i)"
  shows "linked h'" "length h' = length h" "is_Elem h' a = is_Elem h a" "child h' a = (if a = p then (child h p)[i := e] else child h a)"
    "parent (h' ! a) = (if a = e then Some p else if a = t then None else parent (h ! a))"
proof -
  let ?cs = "child h p"
  have t: "t < length h" "t \<in> set ?cs" using linked_child(1) [OF assms(1,2,6)] assms(6) by (simp_all add: t_def)
  have e: "e \<notin> set ?cs" using unlisted [OF assms(5,2)] .
  then have te: "t \<noteq> e" using t by auto
  show len: "length h' = length h" and ie: "is_Elem h' a = is_Elem h a" for a by (simp_all add: h'_def fields)
  show ch: "child h' a = (if a = p then ?cs[i := e] else child h a)" for a using assms(2,3) by (simp add: h'_def fields)
  show pa: "parent (h' ! a) = (if a = e then Some p else if a = t then None else parent (h ! a))" for a
    using assms(4) t by (simp add: h'_def fields)
  have ix: "index (h' ! a) = (if a = e then int i else if a = t then - 1 else index (h ! a))" for a
    using assms(4) t by (simp add: h'_def fields)
  have d: "distinct ?cs" using assms(1,2) by (rule linked_distinct)
  show "linked h'"
  proof (rule linked_update [OF assms(1) len ie assms(2,3) ch])
    fix j assume j: "j < length (?cs[i := e])"
    show "?cs[i := e] ! j < length h \<and> parent (h' ! (?cs[i := e] ! j)) = Some p \<and> index (h' ! (?cs[i := e] ! j)) = int j"
    proof (cases "j = i")
      case True
      then show ?thesis using assms(4,6) by (simp add: pa ix)
    next
      case False
      then have "?cs ! j \<noteq> t" "?cs ! j \<noteq> e" using d e j assms(6) nth_mem [of j ?cs] by (auto simp: t_def nth_eq_iff_index_eq)
      then show ?thesis using False j linked_child [OF assms(1,2), of j] by (simp add: pa ix)
    qed
  next
    fix a u assume a: "a < length h" "a \<noteq> p" "u \<in> set (child h a)"
    then have "u \<noteq> e" "u \<noteq> t" using unlisted [OF assms(5)] linked_once [OF assms(1,2) a(1) t(2)] by auto
    then show "parent (h' ! u) = parent (h ! u) \<and> index (h' ! u) = index (h ! u)" by (simp add: pa ix)
  next
    fix u assume u: "u < length h"
    show "parent (h' ! u) = None \<or> 0 \<le> index (h' ! u) \<and> (parent (h' ! u) = Some p \<or> parent (h' ! u) = parent (h ! u))"
      using linked_parent(3) [OF assms(1) u] by (cases "parent (h ! u)") (auto simp: pa ix)
  qed
qed

text \<open>The children of the document after \<open>SetRoot\<close>.\<close>

definition root_children :: "heap \<Rightarrow> addr list \<Rightarrow> addr \<Rightarrow> addr list" where
  "root_children h cs e = (case first_element h cs of None \<Rightarrow> cs @ [e] | Some i \<Rightarrow> cs[i := e])"

lemma SetRoot_linked:
  assumes "linked h" "embedded d < length h" "is_Elem h (embedded d)" "e < length h"
  obtains h' where "SetRoot h d e = Ret h'" "linked h'" "length h' = length h" "\<And>a. is_Elem h' a = is_Elem h a"
    "proper h e \<Longrightarrow> child h' (embedded d) = root_children h (remove1 e (child h (embedded d))) e"
proof (rule detach_spec [OF assms(1,4)])
  fix h1
  assume h1: "detach h e = Ret h1" "linked h1" "length h1 = length h" "\<And>a. is_Elem h1 a = is_Elem h a" "\<not> listed h1 e"
    "\<And>a. listed h e \<Longrightarrow> a < length h \<Longrightarrow> child h1 a = remove1 e (child h a)" "\<And>a. parent (h ! e) = None \<Longrightarrow> h1 = h"
  let ?p = "embedded d"
  have d1: "?p < length h1" "is_Elem h1 ?p" "e < length h1" using h1(3,4) assms by simp_all
  have fe: "first_element h1 cs = first_element h cs" for cs using h1(4) by (induction cs) auto
  have c: "child h1 ?p = remove1 e (child h ?p)" if "proper h e"
    using that h1(6) [of ?p] h1(7) assms(2) unlisted [of h e ?p] by (cases "listed h e") (auto simp: proper_def remove1_idem)
  show thesis
  proof (cases "first_element h1 (child h1 ?p)")
    case None
    then have r: "SetRoot h d e = Ret (addChild h1 ?p e)" using h1(1) by (simp add: SetRoot_def)
    show thesis
      by (rule that [OF r]) (use addChild_linked [OF h1(2) d1 h1(5)] addChild_fields [OF d1(2,1,3)] h1(3,4) c fe None in \<open>simp_all add: root_children_def\<close>)
  next
    case (Some i)
    then have i: "i < length (child h1 ?p)" using first_element_Some by blast
    note rc = replace_child_linked [OF h1(2) d1(1,2,3) h1(5) i]
    show thesis
    proof (rule that)
      show "SetRoot h d e = Ret (setIndex (setParent (setChild (setIndex (setParent h1 (child h1 ?p ! i) None) (child h1 ?p ! i) (- 1)) ?p
          ((child h1 ?p)[i := e])) e (Some ?p)) e (int i))"
        using h1(1) Some by (simp add: SetRoot_def Let_def)
    qed (use rc h1(3,4) c fe Some in \<open>simp_all add: root_children_def\<close>)
  qed
qed

subsection \<open>Copies\<close>

lemma shallow_fields:
  "parent (shallow t p) = p" "index (shallow t p) = index t" "child (h @ [shallow t p]) (length h) = []"
  "is_Elem (h @ [shallow (h ! a) p]) (length h) = is_Elem h a"
  by (simp_all add: shallow_def child_def is_Elem_def split: body.split)

lemma append_child_linked:
  assumes "linked h" "child (h @ [t]) (length h) = []" "\<And>p. parent t = Some p \<Longrightarrow> p < length h \<and> is_Elem h p \<and> 0 \<le> index t"
  shows "linked (h @ [t])"
  unfolding linked_def
proof (intro conjI allI impI)
  fix e i assume e: "e < length (h @ [t])" "i < length (child (h @ [t]) e)"
  then have "e \<noteq> length h" using assms(2) by auto
  then have e': "e < length h" "i < length (child h e)" using e by (simp_all add: append_view)
  show "child (h @ [t]) e ! i < length (h @ [t])" "parent ((h @ [t]) ! (child (h @ [t]) e ! i)) = Some e"
    "index ((h @ [t]) ! (child (h @ [t]) e ! i)) = int i"
    using linked_child [OF assms(1) e'] e'(1) by (simp_all add: append_view)
next
  fix u p assume u: "u < length (h @ [t])" "parent ((h @ [t]) ! u) = Some p"
  show "p < length (h @ [t])" "is_Elem (h @ [t]) p" "0 \<le> index ((h @ [t]) ! u)"
  proof -
    have "p < length h \<and> is_Elem h p \<and> 0 \<le> index ((h @ [t]) ! u)"
      using u assms(3) [of p] linked_parent [OF assms(1), of u p] by (cases "u = length h") (auto simp: append_view)
    then show "p < length (h @ [t])" "is_Elem (h @ [t]) p" "0 \<le> index ((h @ [t]) ! u)" by (simp_all add: append_view)
  qed
qed

text \<open>What copying a list of tokens does: the old tokens stay, the new ones have the new parent and the old indices.\<close>

definition copied :: "heap \<Rightarrow> addr list \<Rightarrow> addr option \<Rightarrow> addr list \<Rightarrow> heap \<Rightarrow> bool" where
  "copied h ts p as h' \<longleftrightarrow> linked h' \<and> length h \<le> length h' \<and> (\<forall>a < length h. h' ! a = h ! a) \<and> length as = length ts
     \<and> (\<forall>i < length ts. length h \<le> as ! i \<and> as ! i < length h' \<and> parent (h' ! (as ! i)) = p \<and> index (h' ! (as ! i)) = index (h ! (ts ! i)))"

definition copyable :: "heap \<Rightarrow> addr list \<Rightarrow> addr option \<Rightarrow> bool" where
  "copyable h ts p \<longleftrightarrow> linked h \<and> (\<forall>t \<in> set ts. t < length h)
     \<and> (\<forall>e. p = Some e \<longrightarrow> e < length h \<and> is_Elem h e \<and> (\<forall>t \<in> set ts. 0 \<le> index (h ! t)))"

lemma copied_child:
  assumes "linked h" "t < length h" "is_Elem h t" "\<And>e. p = Some e \<Longrightarrow> e < length h \<and> is_Elem h e \<and> 0 \<le> index (h ! t)"
    and "copyable (h @ [shallow (h ! t) p]) (child h t) (Some (length h)) \<Longrightarrow> copied (h @ [shallow (h ! t) p]) (child h t) (Some (length h)) cs h2"
  shows "copied h [t] p [length h] (setChild h2 (length h) cs)"
proof -
  let ?h1 = "h @ [shallow (h ! t) p]"
  have l1: "linked ?h1" by (rule append_child_linked [OF assms(1)]) (use assms(4) shallow_fields in auto)
  have m: "c < length h \<and> 0 \<le> index (h ! c)" if "c \<in> set (child h t)" for c
    using linked_member(1,3) [OF assms(1,2) that] by auto
  have "copyable ?h1 (child h t) (Some (length h))"
    using l1 m assms(3) by (auto simp: copyable_def append_view shallow_fields less_SucI)
  then have c: "linked h2" "Suc (length h) \<le> length h2" "\<And>a. a < Suc (length h) \<Longrightarrow> h2 ! a = ?h1 ! a" "length cs = length (child h t)"
    "\<And>i. i < length (child h t) \<Longrightarrow> length h < cs ! i \<and> cs ! i < length h2 \<and> parent (h2 ! (cs ! i)) = Some (length h)
       \<and> index (h2 ! (cs ! i)) = index (?h1 ! (child h t ! i))"
    using assms(5) by (auto simp: copied_def Suc_le_eq)
  have ne: "h2 ! length h = shallow (h ! t) p" "is_Elem h2 (length h)"
    using c(3) [of "length h"] assms(3) shallow_fields(4) [of h t p] by (simp_all add: is_Elem_def)
  have old: "index (?h1 ! (child h t ! i)) = int i" if "i < length (child h t)" for i
    using linked_child(1,3) [OF assms(1,2) that] by (simp add: append_view)
  have "linked (setChild h2 (length h) cs)"
  proof (rule linked_update [OF c(1), where e = "length h" and cs = cs])
    show "parent (setChild h2 (length h) cs ! u) = None \<or> 0 \<le> index (setChild h2 (length h) cs ! u)
        \<and> (parent (setChild h2 (length h) cs ! u) = Some (length h) \<or> parent (setChild h2 (length h) cs ! u) = parent (h2 ! u))"
      if "u < length h2" for u
      using linked_parent(3) [OF c(1) that] by (cases "parent (h2 ! u)") (auto simp: fields)
  qed (use c ne old in \<open>auto simp: fields\<close>)
  moreover have "setChild h2 (length h) cs ! a = h ! a" if "a < length h" for a
    using that c(3) [of a] by (simp add: setChild_def setBody_def append_view split: body.split)
  ultimately show ?thesis using c(2) ne by (simp add: copied_def fields shallow_fields)
qed

lemma copied_leaf:
  assumes "linked h" "t < length h" "\<not> is_Elem h t" "\<And>e. p = Some e \<Longrightarrow> e < length h \<and> is_Elem h e \<and> 0 \<le> index (h ! t)"
  shows "copied h [t] p [length h] (h @ [shallow (h ! t) p])"
proof -
  have "linked (h @ [shallow (h ! t) p])" by (rule append_child_linked [OF assms(1)]) (use assms(4) shallow_fields in auto)
  then show ?thesis by (simp add: copied_def append_view shallow_fields)
qed

lemma copied_Cons:
  assumes "copied h [t] p [a] h1" "copied h1 ts p as h2" "\<forall>u \<in> set ts. u < length h"
  shows "copied h (t # ts) p (a # as) h2"
proof -
  have "index (h1 ! (ts ! i)) = index (h ! (ts ! i))" if "i < length ts" for i using assms(1,3) that by (auto simp: copied_def)
  then show ?thesis using assms by (auto simp: copied_def less_Suc_eq_0_disj intro: order.trans less_le_trans)
qed

lemma dup_all_copied: "dup_all h ts p = Some y \<Longrightarrow> copyable h ts p \<longrightarrow> copied h ts p (fst y) (snd y)"
proof (rule dup_all.raw_induct [where P = "\<lambda>h ts p y. copyable h ts p \<longrightarrow> copied h ts p (fst y) (snd y)"])
  fix da and h :: heap and ts p y
  assume IH: "\<And>h ts p y. da h ts p = Some y \<Longrightarrow> copyable h ts p \<longrightarrow> copied h ts p (fst y) (snd y)"
  assume e: "(case ts of
        [] \<Rightarrow> Some ([], h)
      | t # ts' \<Rightarrow>
          Option.bind
            (let ne = length h; h1 = h @ [shallow (h ! t) p]
             in if is_Elem h t then map_option (\<lambda>(cs, h2). setChild h2 ne cs) (da h1 (child h t) (Some ne)) else Some h1)
            (\<lambda>h'. map_option (\<lambda>(as, h''). (length h # as, h'')) (da h' ts' p))) = Some y"
  show "copyable h ts p \<longrightarrow> copied h ts p (fst y) (snd y)"
  proof
    assume c: "copyable h ts p"
    show "copied h ts p (fst y) (snd y)"
    proof (cases ts)
      case Nil
      then show ?thesis using e c by (auto simp: copied_def copyable_def)
    next
      case (Cons t ts')
      have t: "linked h" "t < length h" "\<forall>u \<in> set ts'. u < length h"
        "\<And>e. p = Some e \<Longrightarrow> e < length h \<and> is_Elem h e \<and> 0 \<le> index (h ! t) \<and> (\<forall>u \<in> set ts'. 0 \<le> index (h ! u))"
        using c Cons by (auto simp: copyable_def)
      obtain h1 as where h1: "da h1 ts' p = Some (as, snd y)" "fst y = length h # as"
        "(if is_Elem h t then map_option (\<lambda>(cs, h2). setChild h2 (length h) cs) (da (h @ [shallow (h ! t) p]) (child h t) (Some (length h)))
          else Some (h @ [shallow (h ! t) p])) = Some h1"
        using e Cons by (auto simp: bind_eq_Some_conv Let_def)
      have one: "copied h [t] p [length h] h1"
      proof (cases "is_Elem h t")
        case True
        then obtain cs h2 where h2: "da (h @ [shallow (h ! t) p]) (child h t) (Some (length h)) = Some (cs, h2)" "h1 = setChild h2 (length h) cs"
          using h1(3) by auto
        show ?thesis unfolding h2(2) using IH [OF h2(1)] t True by (intro copied_child) auto
      next
        case False
        then show ?thesis using h1(3) copied_leaf [of h t p] t by auto
      qed
      have "copyable h1 ts' p"
        using one t by (auto simp: copied_def copyable_def is_Elem_def intro: less_le_trans)
      then show ?thesis using copied_Cons [OF one _ t(3)] IH [OF h1(1)] h1(2) Cons by simp
    qed
  qed
qed

lemma Element_Copy_linked:
  assumes "linked h" "e < length h" "Element_Copy h e = Some (c, h')"
  shows "linked h' \<and> length h \<le> length h' \<and> (\<forall>a < length h. h' ! a = h ! a) \<and> length h \<le> c \<and> c < length h' \<and> parent (h' ! c) = None"
proof -
  obtain as where "dup_all h [e] None = Some (as, h')" "c = hd as" using assms(3) by (auto simp: Element_Copy_def dup_def)
  moreover have "copyable h [e] None" using assms(1,2) by (simp add: copyable_def)
  ultimately have "copied h [e] None as h'" "c = hd as" using dup_all_copied by fastforce+
  then show ?thesis by (cases as) (auto simp: copied_def)
qed

subsection \<open>Reading\<close>

lemma create_attrs_fields:
  "linked h \<Longrightarrow> linked (create_attrs h e as)" "length (create_attrs h e as) = length h" "is_Elem (create_attrs h e as) a = is_Elem h a"
  "child (create_attrs h e as) a = child h a" "listed (create_attrs h e as) a = listed h a"
  unfolding create_attrs_def listed_def
  by (induction as arbitrary: h) (auto simp: createAttr_def setAttrs_linked fields)

definition elements :: "heap \<Rightarrow> addr list \<Rightarrow> bool" where
  "elements h es \<longleftrightarrow> (\<forall>e \<in> set es. e < length h \<and> is_Elem h e)"

text \<open>All kinds of token but elements are added in the same way.\<close>

lemma new_child:
  assumes "linked h" "elements h stk" "stk \<noteq> []" "Child b = [] \<or> \<not> is_Element b"
  obtains h' where "new_token h b (Some (last stk)) = (length h, h')" "linked h'" "elements h' stk"
    "length h' = Suc (length h)" "body (h' ! length h) = b" "\<And>a. a < length h \<Longrightarrow> is_Elem h' a = is_Elem h a"
proof -
  have "last stk < length h" "is_Elem h (last stk)" using assms(2,3) by (simp_all add: elements_def)
  then obtain h' where "new_token h b (Some (last stk)) = (length h, h')" "linked h'" "length h' = Suc (length h)"
    "\<And>a. a < length h \<Longrightarrow> is_Elem h' a = is_Elem h a" "body (h' ! length h) = b"
    by (rule_tac new_token_spec [OF assms(1,4), of "Some (last stk)"]) auto
  then show thesis using that assms(2) by (auto simp: elements_def less_SucI)
qed

lemma read_loop_linked: "linked h \<Longrightarrow> elements h stk \<Longrightarrow> linked (fst (read_loop h stk ts fin))"
proof (induction h stk ts fin rule: read_loop.induct)
  case (2 h stk t ts fin)
  show ?case
  proof (cases "stk = []")
    case True
    then show ?thesis using 2 by (simp add: peek_def)
  next
    case False
    then have p: "peek stk = Ret (last stk)" by (simp add: peek_def)
    note new = new_child [OF 2(7,8) False]
    show ?thesis
    proof (cases t)
      case (RStart s l as)
      show ?thesis
      proof (rule new [of "Element s l [] []"])
        fix h' assume h': "new_token h (Element s l [] []) (Some (last stk)) = (length h, h')" "linked h'" "elements h' stk"
          "length h' = Suc (length h)" "body (h' ! length h) = Element s l [] []"
        have "is_Elem h' (length h)" using h'(5) by (simp add: is_Elem_def)
        then have "elements (create_attrs h' (length h) as) (push stk (length h))"
          using h' by (auto simp: elements_def push_def create_attrs_fields)
        then show ?thesis using 2(1) [OF p RStart] h' p RStart by (simp add: newElement_token create_attrs_fields)
      qed simp
    next
      case (REnd s l)
      have "elements h (butlast stk)" using 2(8) by (auto simp: elements_def dest: in_set_butlastD)
      then show ?thesis using 2(2) [OF p REnd] 2(7) p REnd by simp
    next
      case (RChar d)
      show ?thesis by (rule new [of "CharData d (if isWhitespace d then whitespaceFlag else 0)"])
          (use 2(3) [OF p RChar] p RChar in \<open>simp_all add: newCharData_def\<close>)
    next
      case (RComment d)
      show ?thesis by (rule new [of "Comment d"]) (use 2(4) [OF p RComment] p RComment in \<open>simp_all add: newComment_def\<close>)
    next
      case (RDirective d)
      show ?thesis by (rule new [of "Directive d"]) (use 2(5) [OF p RDirective] p RDirective in \<open>simp_all add: newDirective_def\<close>)
    next
      case (RProcInst tgt inst)
      show ?thesis by (rule new [of "ProcInst tgt inst"]) (use 2(6) [OF p RProcInst] p RProcInst in \<open>simp_all add: newProcInst_def\<close>)
    qed
  qed
qed simp

lemma readFrom_linked: "linked h \<Longrightarrow> e < length h \<Longrightarrow> is_Elem h e \<Longrightarrow> linked (fst (readFrom h e dec))"
  by (simp add: readFrom_def read_loop_linked elements_def push_def)

subsection \<open>Indentation\<close>

lemma indent_break_linked:
  assumes "linked h" "e < length h" "is_Elem h e"
  shows "linked (indent_break ind h e d)" "length h \<le> length (indent_break ind h e d)"
    "a < length h \<Longrightarrow> is_Elem (indent_break ind h e d) a = is_Elem h a" "a < length h \<Longrightarrow> listed (indent_break ind h e d) a = listed h a"
    "a < length h \<Longrightarrow> a \<noteq> e \<Longrightarrow> indent_break ind h e d ! a = h ! a"
proof -
  have "linked (indent_break ind h e d) \<and> length h \<le> length (indent_break ind h e d)
      \<and> (\<forall>a < length h. is_Elem (indent_break ind h e d) a = is_Elem h a \<and> listed (indent_break ind h e d) a = listed h a
          \<and> (a \<noteq> e \<longrightarrow> indent_break ind h e d ! a = h ! a))"
  proof (cases "ind d = []")
    case False
    show ?thesis
      by (rule new_token_spec [OF assms(1), of "CharData (ind d) whitespaceFlag" "Some e"])
        (use False assms in \<open>auto simp: indent_break_def newCharData_def\<close>)
  qed (use assms in \<open>simp add: indent_break_def\<close>)
  then show "linked (indent_break ind h e d)" "length h \<le> length (indent_break ind h e d)"
    "a < length h \<Longrightarrow> is_Elem (indent_break ind h e d) a = is_Elem h a" "a < length h \<Longrightarrow> listed (indent_break ind h e d) a = listed h a"
    "a < length h \<Longrightarrow> a \<noteq> e \<Longrightarrow> indent_break ind h e d ! a = h ! a"
    by blast+
qed

definition indentable :: "heap \<Rightarrow> addr \<Rightarrow> addr list \<Rightarrow> bool" where
  "indentable h e cs \<longleftrightarrow> linked h \<and> e < length h \<and> is_Elem h e \<and> distinct cs \<and> (\<forall>c \<in> set cs. c < length h \<and> \<not> listed h c)"

definition indented :: "heap \<Rightarrow> addr list \<Rightarrow> heap \<Rightarrow> bool" where
  "indented h cs h' \<longleftrightarrow> linked h' \<and> length h \<le> length h' \<and> (\<forall>a < length h. is_Elem h' a = is_Elem h a)
     \<and> (\<forall>a < length h. listed h' a \<longrightarrow> listed h a \<or> a \<in> set cs)"

lemma strip_clear:
  assumes "linked h" "e < length h" "is_Elem h e"
  defines "h1 \<equiv> stripIndent h e" and "old \<equiv> child (stripIndent h e) e"
  shows "indentable (setChild h1 e []) e old" "\<And>a. a < length h \<Longrightarrow> listed (setChild h1 e []) a \<or> a \<in> set old \<Longrightarrow> listed h a"
    "length (setChild h1 e []) = length h" "\<And>a. is_Elem (setChild h1 e []) a = is_Elem h a" "linked h1"
    "\<And>a. a < length h \<Longrightarrow> listed h1 a \<Longrightarrow> listed h a"
proof -
  note st = stripIndent_linked [OF assms(1-3), folded h1_def]
  have e1: "e < length h1" "is_Elem h1 e" using st(2,3) assms(2,3) by simp_all
  have old: "old = child h1 e" by (simp add: old_def h1_def)
  have c: "child (setChild h1 e []) a = (if a = e then [] else child h1 a)" for a using e1 by (simp add: fields)
  have l: "linked (setChild h1 e [])"
    by (rule linked_keep [OF st(1) e1, where keep = "[]"]) (use e1 in \<open>simp_all add: fields\<close>)
  have "\<not> listed (setChild h1 e []) u" if "u \<in> set old" for u
  proof
    assume "listed (setChild h1 e []) u"
    then obtain a where "a < length h1" "a \<noteq> e" "u \<in> set (child h1 a)" unfolding listed_def c by (auto split: if_splits)
    then show False using linked_once [OF st(1) e1(1)] that old by blast
  qed
  then show "indentable (setChild h1 e []) e old"
    using l e1 old linked_distinct [OF st(1) e1(1)] linked_member(1) [OF st(1) e1(1)] by (simp add: indentable_def fields)
  show sub: "listed h a" if "a < length h" "listed h1 a" for a
    using that st(2,4) assms(2) by (auto simp: listed_def split: if_splits)
  show "listed h a" if "a < length h" "listed (setChild h1 e []) a \<or> a \<in> set old" for a
  proof (rule sub [OF that(1)])
    show "listed h1 a" using that(2) old e1(1) unfolding listed_def c by (auto split: if_splits)
  qed
  show "length (setChild h1 e []) = length h" "\<And>a. is_Elem (setChild h1 e []) a = is_Elem h a" "linked h1"
    using st by (simp_all add: fields)
qed

lemma indented_trans:
  assumes "indented h cs h1" "indented h1 ds h2" "\<And>a. a < length h \<Longrightarrow> a \<in> set ds \<Longrightarrow> listed h a \<or> a \<in> set cs"
  shows "indented h cs h2"
proof -
  have "a < length h1" if "a < length h" for a using assms(1) that by (simp add: indented_def)
  then show ?thesis using assms unfolding indented_def by (meson order.trans)
qed

lemma indent_step_linked:
  assumes "indentable h e (c # cs)" "h1 = h \<or> h1 = indent_break ind h e d"
  shows "indented h [c] (addChild h1 e c)" "indentable (addChild h1 e c) e cs" "is_Elem (addChild h1 e c) c = is_Elem h c"
    "c < length (addChild h1 e c)"
proof -
  have h: "linked h" "e < length h" "is_Elem h e" "distinct (c # cs)" "\<forall>u \<in> set (c # cs). u < length h \<and> \<not> listed h u"
    using assms(1) by (simp_all add: indentable_def)
  have h1: "linked h1" "length h \<le> length h1" "\<And>a. a < length h \<Longrightarrow> is_Elem h1 a = is_Elem h a" "\<And>a. a < length h \<Longrightarrow> listed h1 a = listed h a"
    using assms(2) h(1) indent_break_linked [OF h(1-3), where ind = ind and d = d] by auto
  have e1: "e < length h1" "is_Elem h1 e" "c < length h1" "\<not> listed h1 c" using h h1(2-4) by auto
  note f = addChild_fields [OF e1(2,1,3)] and li = addChild_listed [OF e1(1,2,3)]
  have l: "linked (addChild h1 e c)" using h1(1) e1 by (intro addChild_linked)
  show "indented h [c] (addChild h1 e c)" using l h1 f(4) li by (auto simp: indented_def)
  show "indentable (addChild h1 e c) e cs" using l e1 f(4) li h h1 by (auto simp: indentable_def)
  show "is_Elem (addChild h1 e c) c = is_Elem h c" "c < length (addChild h1 e c)" using f(4) h1 h e1 by auto
qed

lemma indent_loop_linked:
  "indent_loop ind e d cs isc first h = Some h' \<Longrightarrow> indentable h e cs \<longrightarrow> indented h cs h'"
proof (rule indent_loop.raw_induct [where P = "\<lambda>ind e d cs isc first h h'. indentable h e cs \<longrightarrow> indented h cs h'"])
  fix il and ind :: "int \<Rightarrow> string" and e d cs isc first h h'
  assume IH: "\<And>(ind :: int \<Rightarrow> string) e (d :: int) cs (isc :: bool) (first :: bool) h h'. il ind e d cs isc first h = Some h' \<Longrightarrow> indentable h e cs \<longrightarrow> indented h cs h'"
  assume r: "(case cs of
        [] \<Rightarrow> Some (if \<not> isc \<and> (\<not> first \<or> d > 0) then indent_break ind h e (d - 1) else h)
      | c # cs' \<Rightarrow>
          (let isc = is_Char h c;
               h1 = (if \<not> isc \<and> (\<not> first \<or> d > 0) then indent_break ind h e d else h);
               h2 = addChild h1 e c
           in Option.bind
                (if is_Elem h2 c
                 then let h3 = stripIndent h2 c; old = child h3 c
                      in if old = [] then Some h3 else il ind c (d + 1) old False True (setChild h3 c [])
                 else Some h2)
                (il ind e d cs' isc (first \<and> isc)))) = Some h'"
  show "indentable h e cs \<longrightarrow> indented h cs h'"
  proof
    assume a: "indentable h e cs"
    show "indented h cs h'"
    proof (cases cs)
      case Nil
      then show ?thesis using a r indent_break_linked [where h = h and e = e and ind = ind and d = "d - 1"] by (auto simp: indentable_def indented_def split: if_splits)
    next
      case (Cons c cs')
      define h1 where "h1 = (if \<not> is_Char h c \<and> (\<not> first \<or> d > 0) then indent_break ind h e d else h)"
      define h2 where "h2 = addChild h1 e c"
      have "Option.bind (if is_Elem h2 c then let h3 = stripIndent h2 c; old = child h3 c
              in if old = [] then Some h3 else il ind c (d + 1) old False True (setChild h3 c []) else Some h2)
            (il ind e d cs' (is_Char h c) (first \<and> is_Char h c)) = Some h'"
        using r by (simp only: Cons list.case Let_def h1_def h2_def)
      then obtain h4 where h4: "(if is_Elem h2 c then let h3 = stripIndent h2 c; old = child h3 c
              in if old = [] then Some h3 else il ind c (d + 1) old False True (setChild h3 c []) else Some h2) = Some h4"
        "il ind e d cs' (is_Char h c) (first \<and> is_Char h c) h4 = Some h'"
        unfolding bind_eq_Some_conv by blast
      note st = indent_step_linked [of h e c cs' h1 ind d, folded h2_def]
      have s: "indented h [c] h2" "indentable h2 e cs'" "c < length h2" using st a Cons by (auto simp: h1_def)
      then have l2: "linked h2" "e < length h2" "is_Elem h2 e" by (auto simp: indentable_def)
      have s4: "indented h2 [] h4"
      proof (cases "is_Elem h2 c")
        case True
        note sc = strip_clear [OF l2(1) s(3) True]
        show ?thesis
        proof (cases "child (stripIndent h2 c) c = []")
          case True': True
          then have "h4 = stripIndent h2 c" using h4(1) True by (simp add: Let_def)
          then show ?thesis using sc(5,6) stripIndent_linked(2,3) [OF l2(1) s(3) True] by (simp add: indented_def)
        next
          case False
          then have "il ind c (d + 1) (child (stripIndent h2 c) c) False True (setChild (stripIndent h2 c) c []) = Some h4"
            using h4(1) True by (simp add: Let_def)
          then have "indented (setChild (stripIndent h2 c) c []) (child (stripIndent h2 c) c) h4" using IH sc(1) by blast
          then show ?thesis using sc(2-4) by (simp add: indented_def)
        qed
      next
        case False
        then show ?thesis using h4(1) l2(1) by (simp add: indented_def)
      qed
      have a4: "indentable h4 e cs'" using s(2) s4 by (auto simp: indentable_def indented_def)
      then have "indented h4 cs' h'" using IH [OF h4(2)] by blast
      moreover have "indented h [c] h4" using s(1) s4 by (rule indented_trans) simp
      then have "indented h cs h4" using Cons by (auto simp: indented_def)
      ultimately show ?thesis using indented_trans [of h cs h4 cs' h'] Cons by simp
    qed
  qed
qed

lemma indent_linked:
  assumes "linked h" "e < length h" "is_Elem h e" "indent ind h e d = Some h'"
  shows "linked h'"
proof -
  note sc = strip_clear [OF assms(1-3)]
  show ?thesis
  proof (cases "child (stripIndent h e) e = []")
    case True
    then show ?thesis using assms(4) sc(5) by (simp add: indent_def Let_def)
  next
    case False
    then have "indent_loop ind e d (child (stripIndent h e) e) False True (setChild (stripIndent h e) e []) = Some h'"
      using assms(4) by (simp add: indent_def Let_def)
    then show ?thesis using indent_loop_linked sc(1) by (auto simp: indented_def)
  qed
qed

subsection \<open>All edits\<close>

definition elem_at :: "heap \<Rightarrow> addr \<Rightarrow> bool" where
  "elem_at h e \<longleftrightarrow> e < length h \<and> is_Elem h e"

inductive edit :: "heap \<Rightarrow> heap \<Rightarrow> bool" where
  new_document: "edit h (snd (NewDocument h))"
| new_token: "Child b = [] \<or> \<not> is_Element b \<Longrightarrow> (\<And>e. p = Some e \<Longrightarrow> elem_at h e) \<Longrightarrow> edit h (snd (new_token h b p))"
| add_child: "elem_at h e \<Longrightarrow> t < length h \<Longrightarrow> AddChild h e t = Ret h' \<Longrightarrow> edit h h'"
| insert_child: "elem_at h e \<Longrightarrow> t < length h \<Longrightarrow> InsertChild h e ex t = Ret h' \<Longrightarrow> edit h h'"
| insert_child_at: "elem_at h e \<Longrightarrow> t < length h \<Longrightarrow> InsertChildAt h e i t = Ret h' \<Longrightarrow> edit h h'"
| remove_child: "elem_at h e \<Longrightarrow> RemoveChild h e t = Ret (r, h') \<Longrightarrow> edit h h'"
| remove_child_at: "elem_at h e \<Longrightarrow> RemoveChildAt h e i = Ret (r, h') \<Longrightarrow> edit h h'"
| set_data: "edit h (SetData h c str)"
| set_text: "elem_at h e \<Longrightarrow> SetText h e str = Ret h' \<Longrightarrow> edit h h'"
| set_cdata: "elem_at h e \<Longrightarrow> SetCData h e str = Ret h' \<Longrightarrow> edit h h'"
| set_tail: "elem_at h e \<Longrightarrow> SetTail h e str = Ret h' \<Longrightarrow> edit h h'"
| create_attr: "edit h (CreateAttr h e key v)"
| remove_attr: "edit h (snd (RemoveAttr h e key))"
| sort_attrs: "edit h (SortAttrs h e)"
| set_root: "elem_at h (embedded d) \<Longrightarrow> elem_at h e \<Longrightarrow> SetRoot h d e = Ret h' \<Longrightarrow> edit h h'"
| copy: "elem_at h e \<Longrightarrow> Element_Copy h e = Some (c, h') \<Longrightarrow> edit h h'"
| indent: "elem_at h e \<Longrightarrow> indent ind h e d = Some h' \<Longrightarrow> edit h h'"
| read: "elem_at h e \<Longrightarrow> edit h (fst (readFrom h e dec))"

inductive_cases edit_cases: "edit h h'"

text \<open>A token that its parent has forgotten can make \<open>SetTail\<close> panic, but only elements have tails.\<close>

lemma SetTail_linked:
  assumes "linked h" "elem_at h e" "SetTail h e str = Ret h'"
  shows "linked h'"
proof (cases "parent (h ! e)")
  case (Some p)
  then have p: "p < length h" "is_Elem h p" "0 \<le> index (h ! e)" using linked_parent [OF assms(1)] assms(2) by (auto simp: elem_at_def)
  let ?i = "nat (index (h ! e) + 1)"
  have r: "replaceText h p ?i str 0 = Ret h'" using Some assms(3) by (simp add: SetTail_def)
  show ?thesis
  proof (cases "?i \<le> length (child h p)")
    case True
    then show ?thesis using replaceText_linked [OF assms(1) p(1,2) True] r by (metis outcome.inject)
  next
    case False
    then have "findTermCharDataIndex h p ?i = length (child h p)" by (simp add: findTermCharDataIndex_def)
    then have "replaceText h p ?i str 0 = Panic" using False by (simp add: replaceText_def Let_def)
    then show ?thesis using r by simp
  qed
qed (use assms in \<open>simp add: SetTail_def\<close>)

lemma edit_linked: "edit h h' \<Longrightarrow> linked h \<Longrightarrow> linked h'"
proof (induction rule: edit.induct)
  case (new_document h)
  then show ?case by (simp add: NewDocument_def append_linked)
next
  case (new_token b p h)
  show ?case by (rule new_token_spec [OF new_token(3,1), of p]) (use new_token(2) in \<open>auto simp: elem_at_def\<close>)
next
  case (add_child h e t h')
  then show ?case using AddChild_linked [of h e t] by (metis elem_at_def outcome.inject)
next
  case (insert_child h e t ex h')
  then show ?case using InsertChild_linked [of h e t ex h'] by (simp add: elem_at_def)
next
  case (insert_child_at h e t i h')
  then show ?case using InsertChildAt_linked [of h e t i h'] by (simp add: elem_at_def)
next
  case (remove_child h e t r h')
  then show ?case using RemoveChildAt_linked [of h e "index (h ! t)" r h']
    by (cases "parent (h ! t) = Some e") (simp_all add: elem_at_def RemoveChild_def)
next
  case (remove_child_at h e i r h')
  then show ?case using RemoveChildAt_linked [of h e i r h'] by (simp add: elem_at_def)
next
  case (set_data h c str)
  show ?case
  proof (cases "body (h ! c)")
    case (CharData d f)
    then have "\<not> is_Elem h c" by (simp add: is_Elem_def)
    then show ?thesis using CharData set_data setBody_linked(1) [OF set_data, of "CharData _ _" c] by (simp add: SetData_def)
  qed (use set_data in \<open>simp_all add: SetData_def\<close>)
next
  case (set_text h e str h')
  then show ?case using replaceText_linked [of h e 0 str 0] by (metis SetText_def elem_at_def le0 outcome.inject)
next
  case (set_cdata h e str h')
  then show ?case using replaceText_linked [of h e 0 str cdataFlag] by (metis SetCData_def elem_at_def le0 outcome.inject)
next
  case (set_tail h e str h')
  then show ?case using SetTail_linked by blast
next
  case (create_attr h e key v)
  then show ?case by (simp add: CreateAttr_def createAttr_def setAttrs_linked split_beta)
next
  case (remove_attr h e key)
  then show ?case by (simp add: RemoveAttr_def setAttrs_linked split_beta split: option.split)
next
  case (sort_attrs h e)
  then show ?case by (simp add: SortAttrs_def setAttrs_linked)
next
  case (set_root h d e h')
  then show ?case using SetRoot_linked [of h d e] by (metis elem_at_def outcome.inject)
next
  case (copy h e c h')
  then show ?case using Element_Copy_linked [of h e c h'] by (simp add: elem_at_def)
next
  case (indent h e ind d h')
  then show ?case using indent_linked [of h e ind d h'] by (simp add: elem_at_def)
next
  case (read h e dec)
  then show ?case by (simp add: readFrom_linked elem_at_def)
qed

lemma linked_Nil: "linked []"
  by (simp add: linked_def)

lemma reachable_linked: "edit\<^sup>*\<^sup>* [] h \<Longrightarrow> linked h"
  by (induction rule: rtranclp_induct) (auto intro: edit_linked simp: linked_Nil)

end
