(* ===== verification/Xml_Tree.thy ===== *)
theory Xml_Tree
  imports Xml_Edits
begin

section \<open>Package goxml: trees\<close>

text \<open>
  The abstraction: a datatype of trees, and the relation \<open>repr\<close> that a token in memory stands for a tree,
  all of whose tokens lie in a given set. On memories that stand for trees the functions that walk over
  subtrees end, and writing, copying, reading and indentation are functions on trees.
\<close>

datatype xml =
    XElement string string "(string \<times> string \<times> string) list" "xml list"
  | XChar string "8 word"
  | XComment string
  | XDirective string
  | XProcInst string string

definition attr_of :: "Attr \<Rightarrow> string \<times> string \<times> string" where
  "attr_of a = (ASpace a, Key a, Value a)"

inductive repr :: "heap \<Rightarrow> addr set \<Rightarrow> addr \<Rightarrow> xml \<Rightarrow> bool" for h S where
  "a < length h \<Longrightarrow> a \<in> S \<Longrightarrow> body (h ! a) = Element s t as cs \<Longrightarrow> list_all2 (repr h S) cs xs \<Longrightarrow>
     repr h S a (XElement s t (map attr_of as) xs)"
| "a < length h \<Longrightarrow> a \<in> S \<Longrightarrow> body (h ! a) = CharData d f \<Longrightarrow> repr h S a (XChar d f)"
| "a < length h \<Longrightarrow> a \<in> S \<Longrightarrow> body (h ! a) = Comment d \<Longrightarrow> repr h S a (XComment d)"
| "a < length h \<Longrightarrow> a \<in> S \<Longrightarrow> body (h ! a) = Directive d \<Longrightarrow> repr h S a (XDirective d)"
| "a < length h \<Longrightarrow> a \<in> S \<Longrightarrow> body (h ! a) = ProcInst d i \<Longrightarrow> repr h S a (XProcInst d i)"

inductive_simps repr_simps:
  "repr h S a (XElement s t as xs)" "repr h S a (XChar d f)" "repr h S a (XComment d)" "repr h S a (XDirective d)"
  "repr h S a (XProcInst d i)"

lemma repr_frame:
  assumes "repr h S a x" "\<And>b. b \<in> S \<Longrightarrow> b < length h \<Longrightarrow> b \<in> T \<and> b < length h' \<and> body (h' ! b) = body (h ! b)"
  shows "repr h' T a x"
  using assms(1)
proof (induction rule: repr.induct)
  case (1 a s t as cs xs)
  have "list_all2 (repr h' T) cs xs" using 1(4) by (rule list_all2_mono) simp
  then show ?case using 1 assms(2) [of a] by (auto intro: repr.intros(1))
qed (use assms(2) in \<open>auto intro: repr.intros\<close>)

lemma repr_mono: "repr h S a x \<Longrightarrow> S \<subseteq> T \<Longrightarrow> repr h T a x"
  using repr_frame [of h S a x T h] by blast

lemma repr_in: "repr h S a x \<Longrightarrow> a < length h \<and> a \<in> S"
  by (cases rule: repr.cases) auto

lemma repr_list_frame:
  assumes "list_all2 (repr h S) ts xs" "\<And>b. b \<in> S \<Longrightarrow> b < length h \<Longrightarrow> b \<in> T \<and> b < length h' \<and> body (h' ! b) = body (h ! b)"
  shows "list_all2 (repr h' T) ts xs"
  using assms(1) by (rule list_all2_mono) (rule repr_frame [OF _ assms(2)])

text \<open>A token stands for one tree at most.\<close>

lemma repr_unique: "repr h S a x \<Longrightarrow> repr h T a y \<Longrightarrow> x = y"
proof (induction arbitrary: y rule: repr.induct)
  case (1 a s t as cs xs)
  obtain ys where y: "y = XElement s t (map attr_of as) ys" "list_all2 (repr h T) cs ys"
    using 1(5,3) by (cases rule: repr.cases) auto
  have "list_all2 (=) xs ys"
    using 1(4) y(2) by (auto simp: list_all2_conv_all_nth)
  then show ?case using y(1) by (simp add: list.rel_eq)
qed (erule repr.cases, auto)+

subsection \<open>Writing\<close>

definition write_triple :: "WriteSettings \<Rightarrow> string \<times> string \<times> string \<Rightarrow> string" where
  "write_triple s = (\<lambda>(k, n, v). full_name k n @ [CHR ''='', dq]
     @ escapeString v (if CanonicalAttrVal s then escapeCanonicalAttr else escapeNormal) @ [dq])"

fun write_xml :: "WriteSettings \<Rightarrow> xml \<Rightarrow> string" where
  "write_xml s (XElement sp' t as xs) =
     ''<'' @ full_name sp' t @ concat (map (\<lambda>a. '' '' @ write_triple s a) as)
     @ (if xs \<noteq> [] then ''>'' @ concat (map (write_xml s) xs) @ ''</'' @ full_name sp' t @ ''>''
        else if CanonicalEndTags s then ''></'' @ full_name sp' t @ ''>'' else ''/>'')"
| "write_xml s (XChar d f) = write_text s d f"
| "write_xml s (XComment d) = ''<!--'' @ d @ ''-->''"
| "write_xml s (XDirective d) = ''<!'' @ d @ ''>''"
| "write_xml s (XProcInst t i) = write_procinst t i"

lemma write_attr_of: "write_triple s (attr_of a) = write_attr s a"
  by (simp add: write_triple_def attr_of_def write_attr_def FullKey_def full_name_def)

lemma writeTo_Cons:
  assumes "repr h S t x" "writeTo h s [t] = Some (write_xml s x)" "writeTo h s ts = Some out"
  shows "writeTo h s (t # ts) = Some (write_xml s x @ out)"
proof -
  have n: "writeTo h s [] = Some []" by (simp add: writeTo.simps)
  let ?w = "case body (h ! t) of
               Element sp' tg as cs \<Rightarrow> map_option (write_element s sp' tg as (cs \<noteq> [])) (writeTo h s cs)
             | CharData d f \<Rightarrow> Some (write_text s d f)
             | Comment d \<Rightarrow> Some (''<!--'' @ d @ ''-->'')
             | Directive d \<Rightarrow> Some (''<!'' @ d @ ''>'')
             | ProcInst tgt inst \<Rightarrow> Some (write_procinst tgt inst)"
  have "Option.bind ?w (\<lambda>out. Some (out @ [])) = Some (write_xml s x)"
    using assms(2) n by (subst (asm) writeTo.simps) simp
  then have "?w = Some (write_xml s x)" by (simp add: bind_eq_Some_conv)
  then show ?thesis using assms(3) by (subst writeTo.simps) simp
qed

lemma writeTo_repr: "repr h S a x \<Longrightarrow> writeTo h s [a] = Some (write_xml s x)"
proof (induction rule: repr.induct)
  case (1 a sp' t as cs xs)
  have n: "writeTo h s [] = Some []" by (simp add: writeTo.simps)
  have "writeTo h s cs = Some (concat (map (write_xml s) xs))"
    using 1(4)
  proof (induction rule: list_all2_induct)
    case (Cons c cs y ys)
    then show ?case using writeTo_Cons [of h S c y s cs] by simp
  qed (simp add: n)
  moreover have "cs = [] \<longleftrightarrow> xs = []" using 1(4) list_all2_lengthD by fastforce
  ultimately show ?case using 1(3) n by (subst writeTo.simps) (simp add: write_element_def write_attr_of comp_def)
qed (subst writeTo.simps, simp add: writeTo.simps [of h s "[]"])+

lemma writeTo_list: "list_all2 (repr h S) ts xs \<Longrightarrow> writeTo h s ts = Some (concat (map (write_xml s) xs))"
proof (induction rule: list_all2_induct)
  case (Cons t ts x xs)
  then show ?case using writeTo_Cons [OF Cons(1) writeTo_repr [OF Cons(1)]] by simp
qed (simp add: writeTo.simps)

subsection \<open>Copies\<close>

lemma dup_all_Cons:
  assumes "dup_all h [t] p = Some ([length h], h1)" "dup_all h1 ts p = Some (as, h2)"
  shows "dup_all h (t # ts) p = Some (length h # as, h2)"
proof -
  have n: "dup_all h' [] p = Some ([], h')" for h' by (simp add: dup_all.simps)
  let ?d = "let ne = length h; h1 = h @ [shallow (h ! t) p]
             in if is_Elem h t then map_option (\<lambda>(cs, h2). setChild h2 ne cs) (dup_all h1 (child h t) (Some ne)) else Some h1"
  have "Option.bind ?d (\<lambda>h'. map_option (\<lambda>(as, h''). (length h # as, h'')) (dup_all h' [] p)) = Some ([length h], h1)"
    using assms(1) by (subst (asm) dup_all.simps) simp
  then have "?d = Some h1" by (auto simp: bind_eq_Some_conv n)
  then show ?thesis using assms(2) by (subst dup_all.simps) simp
qed

text \<open>The copy of a tree is the same tree in new memory; the old memory stays.\<close>

definition copies :: "heap \<Rightarrow> addr list \<Rightarrow> xml list \<Rightarrow> heap \<Rightarrow> bool" where
  "copies h as xs h' \<longleftrightarrow> length h \<le> length h' \<and> (\<forall>b < length h. h' ! b = h ! b) \<and> list_all2 (repr h' {length h..<length h'}) as xs"

lemma copies_trans:
  assumes "copies h as xs h1" "copies h1 bs ys h2"
  shows "copies h (as @ bs) (xs @ ys) h2"
proof -
  have "list_all2 (repr h2 {length h..<length h2}) as xs"
    by (rule repr_list_frame [of h1 "{length h..<length h1}"]) (use assms in \<open>auto simp: copies_def\<close>)
  moreover have "list_all2 (repr h2 {length h..<length h2}) bs ys"
    by (rule repr_list_frame [of h2 "{length h1..<length h2}"]) (use assms in \<open>auto simp: copies_def\<close>)
  ultimately show ?thesis using assms by (auto simp: copies_def intro: list_all2_appendI)
qed

lemma dup_leaf:
  assumes "\<not> is_Element (body (h0 ! a))" "\<And>h S b. b < length h \<Longrightarrow> b \<in> S \<Longrightarrow> body (h ! b) = body (h0 ! a) \<Longrightarrow> repr h S b x"
  shows "\<exists>h'. dup_all h0 [a] p = Some ([length h0], h') \<and> copies h0 [length h0] [x] h'"
proof -
  let ?h' = "h0 @ [shallow (h0 ! a) p]"
  have ne: "\<not> is_Elem h0 a" using assms(1) by (cases "body (h0 ! a)") (simp_all add: is_Elem_def)
  have "dup_all h0 [a] p = Some ([length h0], ?h')"
    using ne by (subst dup_all.simps) (simp add: Let_def dup_all.simps [of _ "[]"])
  moreover have "body (?h' ! length h0) = body (h0 ! a)" using assms(1) by (cases "body (h0 ! a)") (simp_all add: shallow_def)
  then have "copies h0 [length h0] [x] ?h'" using assms(2) [of "length h0" ?h'] by (simp add: copies_def nth_append)
  ultimately show ?thesis by blast
qed

lemma dup_repr:
  "repr h S a x \<Longrightarrow> length h \<le> length h0 \<Longrightarrow> (\<And>b. b < length h \<Longrightarrow> body (h0 ! b) = body (h ! b)) \<Longrightarrow>
   \<exists>h'. dup_all h0 [a] p = Some ([length h0], h') \<and> copies h0 [length h0] [x] h'"
proof (induction arbitrary: h0 p rule: repr.induct)
  case (1 a s t as cs xs)
  let ?h1 = "h0 @ [shallow (h0 ! a) p]" and ?ne = "length h0"
  have b: "body (h0 ! a) = Element s t as cs" using 1 by simp
  have h1: "length h \<le> length ?h1" "\<And>b. b < length h \<Longrightarrow> body (?h1 ! b) = body (h ! b)" using 1 by (simp_all add: append_view)
  have "\<exists>bs h2. dup_all h' cs (Some ?ne) = Some (bs, h2) \<and> copies h' bs xs h2"
    if "length h \<le> length h'" "\<And>b. b < length h \<Longrightarrow> body (h' ! b) = body (h ! b)" for h'
    using 1(4) that
  proof (induction arbitrary: h' rule: list_all2_induct)
    case Nil
    then show ?case by (simp add: dup_all.simps copies_def)
  next
    case (Cons c cs y ys)
    obtain h2 where h2: "dup_all h' [c] (Some ?ne) = Some ([length h'], h2)" "copies h' [length h'] [y] h2" using Cons by blast
    have "length h \<le> length h2" "\<And>b. b < length h \<Longrightarrow> body (h2 ! b) = body (h ! b)" using h2(2) Cons.prems by (auto simp: copies_def)
    then obtain bs h3 where "dup_all h2 cs (Some ?ne) = Some (bs, h3)" "copies h2 bs ys h3" using Cons.IH by blast
    then show ?case using dup_all_Cons [OF h2(1)] copies_trans [OF h2(2)] by fastforce
  qed
  then obtain bs h2 where h2: "dup_all ?h1 cs (Some ?ne) = Some (bs, h2)" "copies ?h1 bs xs h2" using h1 by blast
  have el: "is_Elem h0 a" "child h0 a = cs" using b by (simp_all add: is_Elem_def child_def)
  let ?h' = "setChild h2 ?ne bs"
  have ne: "body (h2 ! ?ne) = Element s t as []" "?ne < length h2"
    using h2(2) b by (auto simp: copies_def shallow_def nth_append)
  have o: "?h' ! b = h0 ! b" if "b < length h0" for b
    using that h2(2) by (auto simp: copies_def setChild_def setBody_def nth_append split: body.split)
  have "list_all2 (repr ?h' {length h0..<length ?h'}) bs xs"
    by (rule repr_list_frame [of h2 "{length ?h1..<length h2}"]) (use h2(2) in \<open>auto simp: copies_def fields\<close>)
  then have "repr ?h' {length h0..<length ?h'} ?ne (XElement s t (map attr_of as) xs)"
    using ne by (intro repr.intros(1)) (simp_all add: setChild_def setBody_def)
  then have c: "copies h0 [?ne] [XElement s t (map attr_of as) xs] ?h'" using o h2(2) by (simp add: copies_def)
  have "dup_all h0 [a] p = Some ([?ne], ?h')"
    using el h2(1) by (subst dup_all.simps) (simp add: Let_def dup_all.simps [of _ "[]"])
  then show ?case using c by blast
qed (rule dup_leaf, simp, simp add: repr_simps)+

lemma Copy_tree:
  assumes "repr h S e x"
  obtains h' where "Element_Copy h e = Some (length h, h')" "length h \<le> length h'" "\<And>b. b < length h \<Longrightarrow> h' ! b = h ! b"
    "repr h' {length h..<length h'} (length h) x"
proof -
  obtain h' where "dup_all h [e] None = Some ([length h], h')" "copies h [length h] [x] h'"
    using dup_repr [OF assms, of h None] by auto
  then show thesis using that by (simp add: Element_Copy_def dup_def copies_def)
qed

subsection \<open>Reading\<close>

fun raws :: "xml \<Rightarrow> raw list" where
  "raws (XElement s t as xs) = RStart s t as # concat (map raws xs) @ [REnd s t]"
| "raws (XChar d f) = [RChar d]"
| "raws (XComment d) = [RComment d]"
| "raws (XDirective d) = [RDirective d]"
| "raws (XProcInst t i) = [RProcInst t i]"

definition attr_id :: "string \<times> string \<times> string \<Rightarrow> string \<times> string" where
  "attr_id = (\<lambda>(s, k, v). (s, k))"

text \<open>What reading gives: no attribute twice, and the flags that the reader sets.\<close>

fun readable :: "xml \<Rightarrow> bool" where
  "readable (XElement s t as xs) \<longleftrightarrow> distinct (map attr_id as) \<and> list_all readable xs"
| "readable (XChar d f) \<longleftrightarrow> f = (if isWhitespace d then whitespaceFlag else 0)"
| "readable x \<longleftrightarrow> True"

lemma elem_body: "is_Elem h e \<Longrightarrow> body (h ! e) = Element (space h e) (tag h e) (attrs h e) (child h e)"
  by (simp add: is_Elem_def space_def tag_def attrs_def child_def split: body.splits)

lemma attr_id_simp [simp]: "attr_id (s, k, v) = (s, k)"
  by (simp add: attr_id_def)

lemma set_attr_new: "(s, k) \<notin> attr_id ` set (map attr_of as) \<Longrightarrow> map attr_of (set_attr s k v p as) = map attr_of as @ [(s, k, v)]"
  by (induction as) (auto simp: attr_of_def)

lemma create_attrs_keep:
  "space (create_attrs h e as) a = space h a" "tag (create_attrs h e as) a = tag h a" "a \<noteq> e \<Longrightarrow> body (create_attrs h e as ! a) = body (h ! a)"
  unfolding create_attrs_def by (induction as arbitrary: h) (auto simp: createAttr_def fields)

lemma create_attrs_attrs:
  "e < length h \<Longrightarrow> is_Elem h e \<Longrightarrow> distinct (map attr_id (map attr_of (attrs h e) @ as)) \<Longrightarrow>
   map attr_of (attrs (create_attrs h e as) e) = map attr_of (attrs h e) @ as"
  unfolding create_attrs_def
proof (induction as arbitrary: h)
  case (Cons a as)
  obtain s k v where a: "a = (s, k, v)" by (cases a)
  let ?h = "createAttr h e s k v e"
  have "(s, k) \<notin> attr_id ` set (map attr_of (attrs h e))" using Cons.prems(3) a by (auto simp del: map_map)
  then have m: "map attr_of (attrs ?h e) = map attr_of (attrs h e) @ [(s, k, v)]"
    using Cons.prems(1,2) set_attr_new by (simp add: createAttr_def fields)
  have "map attr_of (attrs (fold (\<lambda>(s, k, v) h. createAttr h e s k v e) as ?h) e) = map attr_of (attrs ?h e) @ as"
  proof (rule Cons.IH)
    show "distinct (map attr_id (map attr_of (attrs ?h e) @ as))" unfolding m using Cons.prems(3) a by (simp del: map_map)
  qed (use Cons.prems(1,2) in \<open>simp_all add: createAttr_def fields\<close>)
  then show ?case using m a by simp
qed simp

text \<open>\<open>e\<close> has got new children that stand for the trees \<open>xs\<close>; nothing else has changed.\<close>

definition adds :: "heap \<Rightarrow> addr \<Rightarrow> xml list \<Rightarrow> heap \<Rightarrow> bool" where
  "adds h e xs h' \<longleftrightarrow> length h \<le> length h' \<and> (\<forall>b < length h. b \<noteq> e \<longrightarrow> body (h' ! b) = body (h ! b)) \<and> is_Elem h' e
     \<and> space h' e = space h e \<and> tag h' e = tag h e \<and> attrs h' e = attrs h e
     \<and> (\<exists>new. child h' e = child h e @ new \<and> list_all2 (repr h' {length h..<length h'}) new xs)"

lemma adds_trans:
  assumes "adds h e xs h1" "adds h1 e ys h2" "e < length h"
  shows "adds h e (xs @ ys) h2"
proof -
  obtain new new' where n: "child h1 e = child h e @ new" "list_all2 (repr h1 {length h..<length h1}) new xs"
    "child h2 e = child h1 e @ new'" "list_all2 (repr h2 {length h1..<length h2}) new' ys"
    using assms(1,2) by (auto simp: adds_def)
  have "list_all2 (repr h2 {length h..<length h2}) new xs"
    by (rule repr_list_frame [OF n(2)]) (use assms in \<open>auto simp: adds_def\<close>)
  moreover have "list_all2 (repr h2 {length h..<length h2}) new' ys"
    by (rule repr_list_frame [OF n(4)]) (use assms in \<open>auto simp: adds_def\<close>)
  ultimately have "list_all2 (repr h2 {length h..<length h2}) (new @ new') (xs @ ys)" by (rule list_all2_appendI)
  then show ?thesis using assms n(1,3) by (auto simp: adds_def)
qed

lemma new_token_view:
  fixes b :: body
  assumes "e < length h" "is_Elem h e"
  defines "h' \<equiv> snd (new_token h b (Some e))"
  shows "length h' = Suc (length h)" "\<And>a. a < length h \<Longrightarrow> a \<noteq> e \<Longrightarrow> body (h' ! a) = body (h ! a)" "body (h' ! length h) = b"
    "\<And>a. a < length h \<Longrightarrow> is_Elem h' a = is_Elem h a" "space h' e = space h e" "tag h' e = tag h e" "attrs h' e = attrs h e"
    "child h' e = child h e @ [length h]" "fst (new_token h b (Some e)) = length h"
proof -
  let ?h1 = "h @ [\<lparr>body = b, parent = None, index = - 1\<rparr>]"
  have h': "h' = addChild ?h1 e (length h)" by (simp add: h'_def new_token_def Let_def)
  have e1: "is_Elem ?h1 e" "e < length ?h1" "length h < length ?h1" using assms(1,2) by (simp_all add: append_view)
  note f = addChild_fields [OF e1]
  have same: "body (?h1 ! a) = body (h ! a)" if "a < length h" for a using that by (simp add: nth_append)
  show "length h' = Suc (length h)" by (simp add: h')
  show "body (h' ! a) = body (h ! a)" if "a < length h" "a \<noteq> e" for a using that f(6) same by (simp add: h')
  show "body (h' ! length h) = b" using f(6) [of "length h"] assms(1) by (simp add: h')
  show "is_Elem h' a = is_Elem h a" if "a < length h" for a using that f(4) by (simp add: h' append_view)
  show "child h' e = child h e @ [length h]" using f(1) assms(1) by (simp add: h' append_view)
  show "space h' e = space h e" "tag h' e = tag h e" "attrs h' e = attrs h e"
    using body_cong [OF same, of e] assms(1) by (simp_all add: h' addChild_def Let_def fields)
  show "fst (new_token h b (Some e)) = length h" by (simp add: new_token_def Let_def)
qed

lemma adds_leaf:
  assumes "e < length h" "is_Elem h e" "\<And>h S a. a < length h \<Longrightarrow> a \<in> S \<Longrightarrow> body (h ! a) = b \<Longrightarrow> repr h S a x"
  shows "adds h e [x] (snd (new_token h b (Some e)))"
  using new_token_view [OF assms(1,2), where b = b] assms(3) by (simp add: adds_def) (simp add: assms(1,2))

lemma adds_element:
  fixes s l :: string and as :: "(string \<times> string \<times> string) list"
  assumes "e < length h" "is_Elem h e" "distinct (map attr_id as)"
  defines "h2 \<equiv> create_attrs (snd (new_token h (Element s l [] []) (Some e))) (length h) as"
  assumes "adds h2 (length h) xs h3"
  shows "adds h e [XElement s l as xs] h3" "tag h3 (length h) = l" "space h3 (length h) = s"
proof -
  let ?h1 = "snd (new_token h (Element s l [] []) (Some e))" and ?ne = "length h"
  note v = new_token_view [OF assms(1,2), where b = "Element s l [] []"]
  have ne1: "is_Elem ?h1 ?ne" "?ne < length ?h1" "attrs ?h1 ?ne = []" "space ?h1 ?ne = s" "tag ?h1 ?ne = l" "child ?h1 ?ne = []"
    using v(1,3) by (simp_all add: is_Elem_def attrs_def space_def tag_def child_def)
  have h2: "length h2 = Suc (length h)" "map attr_of (attrs h2 ?ne) = as" "space h2 ?ne = s" "tag h2 ?ne = l" "child h2 ?ne = []"
    using create_attrs_attrs [OF ne1(2,1), of as] assms(3) ne1 v(1)
    by (simp_all add: h2_def create_attrs_fields create_attrs_keep)
  have b2: "body (h2 ! a) = body (?h1 ! a)" if "a < length h" for a using that by (simp add: h2_def create_attrs_keep)
  obtain new where n: "child h3 ?ne = new" "list_all2 (repr h3 {length h2..<length h3}) new xs" "is_Elem h3 ?ne"
    "length h2 \<le> length h3" "space h3 ?ne = s" "tag h3 ?ne = l" "attrs h3 ?ne = attrs h2 ?ne"
    "\<And>a. a < length h \<Longrightarrow> body (h3 ! a) = body (?h1 ! a)"
    using assms(5) h2 b2 by (auto simp: adds_def)
  show "tag h3 ?ne = l" "space h3 ?ne = s" by (rule n)+
  have "list_all2 (repr h3 {length h..<length h3}) new xs" by (rule repr_list_frame [OF n(2)]) (use h2(1) in auto)
  then have "repr h3 {length h..<length h3} ?ne (XElement s l (map attr_of (attrs h2 ?ne)) xs)"
    using elem_body [OF n(3)] n h2(1) by (intro repr.intros(1)) simp_all
  then have r: "repr h3 {length h..<length h3} ?ne (XElement s l as xs)" using h2(2) by simp
  have "body (h3 ! e) = body (?h1 ! e)" using n(8) assms(1) .
  note same = body_cong [OF this]
  show "adds h e [XElement s l as xs] h3"
    using r n(4,8) v h2(1) assms(1,2) same by (auto simp: adds_def)
qed

text \<open>Reading the tokens of a tree adds the tree.\<close>

lemma peek_last: "stk \<noteq> [] \<Longrightarrow> peek stk = Ret (last stk)"
  by (simp add: peek_def)

lemma read_list:
  assumes "\<And>x h stk rest. x \<in> set xs \<Longrightarrow> stk \<noteq> [] \<Longrightarrow> last stk < length h \<Longrightarrow> is_Elem h (last stk) \<Longrightarrow>
      \<exists>h'. read_loop h stk (raws x @ rest) fin = read_loop h' stk rest fin \<and> adds h (last stk) [x] h'"
    and "stk \<noteq> []" "last stk < length h" "is_Elem h (last stk)"
  shows "\<exists>h'. read_loop h stk (concat (map raws xs) @ rest) fin = read_loop h' stk rest fin \<and> adds h (last stk) xs h'"
  using assms(1,3,4)
proof (induction xs arbitrary: h)
  case Nil
  then show ?case by (auto simp: adds_def intro!: exI [of _ h])
next
  case (Cons x xs)
  have "\<exists>h1. read_loop h stk (raws x @ concat (map raws xs) @ rest) fin = read_loop h1 stk (concat (map raws xs) @ rest) fin
      \<and> adds h (last stk) [x] h1"
    by (rule Cons.prems(1)) (use assms(2) Cons.prems(2,3) in simp_all)
  then obtain h1 where h1: "read_loop h stk (raws x @ concat (map raws xs) @ rest) fin = read_loop h1 stk (concat (map raws xs) @ rest) fin"
    "adds h (last stk) [x] h1" by blast
  have e1: "last stk < length h1" "is_Elem h1 (last stk)" using h1(2) Cons.prems(2) by (auto simp: adds_def)
  have "\<exists>h2. read_loop h1 stk (concat (map raws xs) @ rest) fin = read_loop h2 stk rest fin \<and> adds h1 (last stk) xs h2"
    by (rule Cons.IH) (rule Cons.prems(1), simp, assumption+, rule e1, rule e1)
  then obtain h2 where h2: "read_loop h1 stk (concat (map raws xs) @ rest) fin = read_loop h2 stk rest fin" "adds h1 (last stk) xs h2" by blast
  show ?case using h1(1) h2(1) adds_trans [OF h1(2) h2(2) Cons.prems(2)] by (intro exI [of _ h2]) simp
qed

lemma read_tree:
  "readable x \<Longrightarrow> stk \<noteq> [] \<Longrightarrow> last stk < length h \<Longrightarrow> is_Elem h (last stk) \<Longrightarrow>
   \<exists>h'. read_loop h stk (raws x @ rest) fin = read_loop h' stk rest fin \<and> adds h (last stk) [x] h'"
proof (induction x arbitrary: h stk rest)
  case (XElement s l as xs)
  let ?h1 = "snd (new_token h (Element s l [] []) (Some (last stk)))" and ?ne = "length h"
  let ?h2 = "create_attrs ?h1 ?ne as"
  note v = new_token_view [OF XElement.prems(3,4), where b = "Element s l [] []"]
  have ne: "is_Elem ?h2 ?ne" "?ne < length ?h2" using v(1,3) by (simp_all add: create_attrs_fields) (simp add: is_Elem_def)
  have nt: "newElement h s l (Some (last stk)) = (?ne, ?h1)" using v(9) by (simp add: newElement_token prod_eq_iff)
  have step: "read_loop h stk (raws (XElement s l as xs) @ rest) fin
      = read_loop ?h2 (stk @ [?ne]) (concat (map raws xs) @ REnd s l # rest) fin"
    using nt XElement.prems(2) by (simp add: peek_last push_def)
  obtain h3 where h3: "read_loop ?h2 (stk @ [?ne]) (concat (map raws xs) @ REnd s l # rest) fin = read_loop h3 (stk @ [?ne]) (REnd s l # rest) fin"
    "adds ?h2 ?ne xs h3"
    using read_list [of xs fin "stk @ [?ne]" ?h2 "REnd s l # rest"] XElement ne by (auto simp: list_all_iff)
  have d: "distinct (map attr_id as)" using XElement.prems(1) by simp
  note a = adds_element [OF XElement.prems(3,4) d h3(2)]
  have "read_loop h3 (stk @ [?ne]) (REnd s l # rest) fin = read_loop h3 stk rest fin" using a(2,3) by (simp add: peek_def)
  then show ?case using step h3(1) a(1) by metis
qed (auto simp: peek_last newCharData_def newComment_def newDirective_def newProcInst_def intro!: exI conjI [OF refl] adds_leaf repr.intros)

lemma readFrom_trees:
  assumes "list_all readable xs" "e < length h" "is_Elem h e"
  obtains h' where "readFrom h e (concat (map raws xs), None) = (h', None)" "adds h e xs h'"
proof -
  obtain h' where "read_loop h [e] (concat (map raws xs) @ []) None = read_loop h' [e] [] None" "adds h e xs h'"
    using read_list [of xs None "[e]" h "[]"] read_tree assms by (auto simp: list_all_iff)
  then show thesis using that by (simp add: readFrom_def push_def)
qed

end
