(* ===== verification/Xml_Indent.thy ===== *)
theory Xml_Indent
  imports Xml_Tree
begin

section \<open>Package goxml: indentation\<close>

text \<open>
  Indentation as a function on trees, and that the function on memory computes it. The loop changes
  tokens of a subtree while other subtrees wait, so the proof needs that the subtrees of different
  children share no token: this follows from the links.
\<close>

subsection \<open>The tokens of a tree\<close>

fun nodes :: "heap \<Rightarrow> xml \<Rightarrow> addr \<Rightarrow> addr list" and nodes_list :: "heap \<Rightarrow> xml list \<Rightarrow> addr list \<Rightarrow> addr list" where
  "nodes h (XElement s t as xs) a = a # nodes_list h xs (child h a)"
| "nodes h (XChar d f) a = [a]"
| "nodes h (XComment d) a = [a]"
| "nodes h (XDirective d) a = [a]"
| "nodes h (XProcInst d i) a = [a]"
| "nodes_list h [] cs = []"
| "nodes_list h (x # xs) [] = []"
| "nodes_list h (x # xs) (c # cs) = nodes h x c @ nodes_list h xs cs"

lemma size_child: "i < length xs \<Longrightarrow> size (xs ! i) < size (XElement s t as xs)"
  using size_list_estimation' [OF nth_mem order_refl, of i xs size] by (simp add: less_Suc_eq_le)

lemma nodes_self: "a \<in> set (nodes h x a)"
  by (cases x) simp_all

lemma nodes_list_mem:
  "length cs = length xs \<Longrightarrow> b \<in> set (nodes_list h xs cs) \<longleftrightarrow> (\<exists>i < length xs. b \<in> set (nodes h (xs ! i) (cs ! i)))"
proof (induction xs arbitrary: cs)
  case (Cons x xs)
  then obtain c cs' where "cs = c # cs'" by (cases cs) auto
  then show ?case using Cons by (auto simp: less_Suc_eq_0_disj)
qed simp

lemma element_children:
  assumes "repr h S a (XElement s t as xs)"
  shows "a < length h" "is_Elem h a" "length (child h a) = length xs" "\<And>i. i < length xs \<Longrightarrow> repr h S (child h a ! i) (xs ! i)"
  using assms by (auto simp: repr_simps child_def is_Elem_def list_all2_conv_all_nth)

text \<open>A token of a tree stands for a subtree, and its parent is in the tree as well.\<close>

lemma nodes_repr: "repr h S a x \<Longrightarrow> b \<in> set (nodes h x a) \<Longrightarrow> \<exists>y. repr h S b y \<and> size y \<le> size x \<and> (b \<noteq> a \<longrightarrow> size y < size x)"
proof (induction x arbitrary: a)
  case (XElement s t as xs)
  note c = element_children [OF XElement.prems(1)]
  show ?case
  proof (cases "b = a")
    case False
    then obtain i where i: "i < length xs" "b \<in> set (nodes h (xs ! i) (child h a ! i))"
      using XElement.prems(2) c(3) by (auto simp: nodes_list_mem)
    then obtain y where "repr h S b y" "size y \<le> size (xs ! i)" using XElement.IH [of "xs ! i"] c(4) by fastforce
    moreover have "size (xs ! i) < size (XElement s t as xs)" using i(1) by (rule size_child)
    ultimately show ?thesis using False by (auto intro: le_less_trans)
  qed (use XElement.prems in auto)
qed auto

lemma nodes_parent:
  "linked h \<Longrightarrow> repr h S a x \<Longrightarrow> b \<in> set (nodes h x a) \<Longrightarrow> b \<noteq> a \<Longrightarrow>
   \<exists>p \<in> set (nodes h x a). parent (h ! b) = Some p \<and> (\<exists>y z. repr h S b y \<and> repr h S p z \<and> size y < size z)"
proof (induction x arbitrary: a)
  case (XElement s t as xs)
  note c = element_children [OF XElement.prems(2)]
  obtain i where i: "i < length xs" "b \<in> set (nodes h (xs ! i) (child h a ! i))"
    using XElement.prems(3,4) c(3) by (auto simp: nodes_list_mem)
  show ?case
  proof (cases "b = child h a ! i")
    case True
    have "\<exists>y z. repr h S b y \<and> repr h S a z \<and> size y < size z"
      using c(4) [OF i(1)] XElement.prems(2) size_child [OF i(1)] True by blast
    then show ?thesis using True linked_child(2) [OF XElement.prems(1) c(1), of i] i(1) c(3) by auto
  next
    case False
    then obtain p where p: "p \<in> set (nodes h (xs ! i) (child h a ! i))" "parent (h ! b) = Some p"
      "\<exists>y z. repr h S b y \<and> repr h S p z \<and> size y < size z"
      using XElement.IH [of "xs ! i"] i c(4) XElement.prems(1) by fastforce
    then show ?thesis using i(1) c(3) by (auto simp: nodes_list_mem)
  qed
qed auto

lemma nodes_disjoint:
  assumes "linked h" "repr h S e (XElement s t as xs)" "i < length xs" "j < length xs" "i \<noteq> j"
    and "b \<in> set (nodes h (xs ! i) (child h e ! i))" "b \<in> set (nodes h (xs ! j) (child h e ! j))"
  shows False
proof -
  let ?x = "XElement s t as xs"
  note c = element_children [OF assms(2)]
  have smaller: "size (xs ! k) < size ?x" if "k < length xs" for k using that by (rule size_child)
  have e: "e \<notin> set (nodes h (xs ! k) (child h e ! k))" if k: "k < length xs" for k
  proof
    assume "e \<in> set (nodes h (xs ! k) (child h e ! k))"
    then obtain y where "repr h S e y" "size y \<le> size (xs ! k)" using nodes_repr [OF c(4) [OF k]] by blast
    then show False using repr_unique [OF assms(2)] smaller [OF k] by fastforce
  qed
  have top': "parent (h ! (child h e ! k)) = Some e" if "k < length xs" for k
    using linked_child(2) [OF assms(1) c(1), of k] that c(3) by simp
  have ne: "child h e ! i \<noteq> child h e ! j"
    using linked_distinct [OF assms(1) c(1)] assms(3-5) c(3) by (simp add: nth_eq_iff_index_eq)
  have "False" if "repr h S b y" "n = size ?x - size y" "b \<in> set (nodes h (xs ! i) (child h e ! i))" "b \<in> set (nodes h (xs ! j) (child h e ! j))" for n b y
    using that
  proof (induction n arbitrary: b y rule: less_induct)
    case (less n)
    have up: "\<exists>p. parent (h ! b) = Some p \<and> (p = e \<or> p \<in> set (nodes h (xs ! k) (child h e ! k)))"
      if "k < length xs" "b \<in> set (nodes h (xs ! k) (child h e ! k))" for k
      using top' [OF that(1)] nodes_parent [OF assms(1) c(4) [OF that(1)] that(2)] by (cases "b = child h e ! k") auto
    obtain p where p: "parent (h ! b) = Some p" using up [OF assms(3) less.prems(3)] by blast
    show False
    proof (cases "b = child h e ! i \<or> b = child h e ! j")
      case True
      then have "p = e" using p top' assms(3,4) by auto
      have "\<exists>k \<in> {i, j}. b \<in> set (nodes h (xs ! k) (child h e ! k)) \<and> b \<noteq> child h e ! k" using True ne less.prems(3,4) by auto
      then obtain k where k: "k < length xs" "b \<in> set (nodes h (xs ! k) (child h e ! k))" "b \<noteq> child h e ! k" using assms(3,4) by auto
      then show False using nodes_parent [OF assms(1) c(4) [OF k(1)] k(2,3)] p e [OF k(1)] \<open>p = e\<close> by auto
    next
      case False
      obtain z where z: "p \<in> set (nodes h (xs ! i) (child h e ! i))" "repr h S p z" "size y < size z"
        using nodes_parent [OF assms(1) c(4) [OF assms(3)] less.prems(3)] False p repr_unique [OF less.prems(1)] by fastforce
      have pj: "p \<in> set (nodes h (xs ! j) (child h e ! j))"
        using nodes_parent [OF assms(1) c(4) [OF assms(4)] less.prems(4)] False p by fastforce
      have "size z \<le> size (xs ! i)" using nodes_repr [OF c(4) [OF assms(3)] z(1)] repr_unique [OF z(2)] by fastforce
      then have "size ?x - size z < n" using less.prems(2) z(3) smaller [OF assms(3)] by simp
      then show False using less.IH [OF _ z(2) refl z(1) pj] by blast
    qed
  qed
  moreover obtain y where "repr h S b y" using nodes_repr [OF c(4) [OF assms(3)] assms(6)] by blast
  ultimately show False using assms(6,7) by blast
qed

lemma distinct_nodes_list:
  assumes "length cs = length xs" "\<And>i. i < length xs \<Longrightarrow> distinct (nodes h (xs ! i) (cs ! i))"
    and "\<And>i j b. i < length xs \<Longrightarrow> j < length xs \<Longrightarrow> i \<noteq> j \<Longrightarrow> b \<in> set (nodes h (xs ! i) (cs ! i)) \<Longrightarrow> b \<notin> set (nodes h (xs ! j) (cs ! j))"
  shows "distinct (nodes_list h xs cs)"
  using assms
proof (induction xs arbitrary: cs)
  case (Cons x xs)
  then obtain c cs' where c: "cs = c # cs'" by (cases cs) auto
  have "distinct (nodes_list h xs cs')"
  proof (rule Cons.IH)
    show "length cs' = length xs" using Cons.prems(1) c by simp
    show "distinct (nodes h (xs ! i) (cs' ! i))" if "i < length xs" for i using Cons.prems(2) [of "Suc i"] that c by simp
    show "b \<notin> set (nodes h (xs ! j) (cs' ! j))" if "i < length xs" "j < length xs" "i \<noteq> j" "b \<in> set (nodes h (xs ! i) (cs' ! i))" for i j b
      using Cons.prems(3) [of "Suc i" "Suc j"] that c by simp
  qed
  moreover have "distinct (nodes h x c)" using Cons.prems(2) [of 0] c by simp
  moreover have "b \<notin> set (nodes_list h xs cs')" if "b \<in> set (nodes h x c)" for b
  proof
    assume "b \<in> set (nodes_list h xs cs')"
    then obtain j where "j < length xs" "b \<in> set (nodes h (xs ! j) (cs' ! j))" using nodes_list_mem Cons.prems(1) c by auto
    then show False using Cons.prems(3) [of 0 "Suc j" b] that c by simp
  qed
  ultimately show ?case using c by auto
qed simp

lemma nodes_distinct: "linked h \<Longrightarrow> repr h S a x \<Longrightarrow> distinct (nodes h x a)"
proof (induction x arbitrary: a)
  case (XElement s t as xs)
  note c = element_children [OF XElement.prems(2)]
  have "distinct (nodes_list h xs (child h a))"
  proof (rule distinct_nodes_list [OF c(3)])
    show "distinct (nodes h (xs ! i) (child h a ! i))" if "i < length xs" for i using XElement that c(4) by simp
    show "b \<notin> set (nodes h (xs ! j) (child h a ! j))" if "i < length xs" "j < length xs" "i \<noteq> j" "b \<in> set (nodes h (xs ! i) (child h a ! i))" for i j b
      using nodes_disjoint [OF XElement.prems that] by blast
  qed
  moreover have "a \<notin> set (nodes_list h xs (child h a))"
  proof
    assume "a \<in> set (nodes_list h xs (child h a))"
    then obtain i where i: "i < length xs" "a \<in> set (nodes h (xs ! i) (child h a ! i))" using nodes_list_mem [OF c(3)] by blast
    then obtain y where "repr h S a y" "size y \<le> size (xs ! i)" using nodes_repr [OF c(4)] by blast
    then show False using repr_unique [OF XElement.prems(2)] size_child [OF i(1)] by fastforce
  qed
  ultimately show ?case by simp
qed simp_all

lemma repr_nodes: "repr h S a x \<Longrightarrow> repr h (set (nodes h x a)) a x"
proof (induction rule: repr.induct)
  case (1 a s t as cs xs)
  have ch: "child h a = cs" using 1(3) by (simp add: child_def)
  have len: "length cs = length xs" using 1(4) by (rule list_all2_lengthD)
  have "list_all2 (repr h (set (nodes_list h xs cs))) cs xs"
    unfolding list_all2_conv_all_nth
  proof (intro conjI allI impI len)
    fix i assume i: "i < length cs"
    then have "repr h (set (nodes h (xs ! i) (cs ! i))) (cs ! i) (xs ! i)" using 1(4) by (auto simp: list_all2_conv_all_nth)
    moreover have "set (nodes h (xs ! i) (cs ! i)) \<subseteq> set (nodes_list h xs cs)" using nodes_list_mem [OF len] i len by auto
    ultimately show "repr h (set (nodes_list h xs cs)) (cs ! i) (xs ! i)" by (rule repr_mono)
  qed
  then have "list_all2 (repr h (set (nodes h (XElement s t (map attr_of as) xs) a))) cs xs"
    by (rule list_all2_mono) (auto intro: repr_mono simp: ch)
  then show ?case using 1(1-3) by (intro repr.intros(1)) auto
qed (auto intro: repr.intros)

lemma nodes_cong:
  "(\<And>b. b \<in> set (nodes h x a) \<Longrightarrow> body (h' ! b) = body (h ! b)) \<Longrightarrow> nodes h' x a = nodes h x a"
  "(\<And>b. b \<in> set (nodes_list h xs cs) \<Longrightarrow> body (h' ! b) = body (h ! b)) \<Longrightarrow> nodes_list h' xs cs = nodes_list h xs cs"
proof (induction h x a and h xs cs rule: nodes_nodes_list.induct)
  case (1 h s t as xs a)
  then have "child h' a = child h a" by (intro body_cong) simp
  then show ?case using 1 by simp
qed simp_all

subsection \<open>Indentation of trees\<close>

definition ws_char :: "xml \<Rightarrow> bool" where
  "ws_char x \<longleftrightarrow> (case x of XChar d f \<Rightarrow> IsWhitespace f | _ \<Rightarrow> False)"

definition x_char :: "xml \<Rightarrow> bool" where
  "x_char x \<longleftrightarrow> (case x of XChar d f \<Rightarrow> True | _ \<Rightarrow> False)"

definition strip :: "xml list \<Rightarrow> xml list" where
  "strip xs = filter (\<lambda>x. \<not> ws_char x) xs"

definition break_at :: "(int \<Rightarrow> string) \<Rightarrow> int \<Rightarrow> xml list" where
  "break_at ind d = (if ind d = [] then [] else [XChar (ind d) whitespaceFlag])"

lemma size_strip: "size_list size (strip xs) \<le> size_list size xs"
  by (induction xs) (auto simp: strip_def)

function indent_tree :: "(int \<Rightarrow> string) \<Rightarrow> int \<Rightarrow> xml \<Rightarrow> xml"
  and indent_list :: "(int \<Rightarrow> string) \<Rightarrow> int \<Rightarrow> xml list \<Rightarrow> bool \<Rightarrow> bool \<Rightarrow> xml list" where
  "indent_tree ind d (XElement s t as xs) = XElement s t as (if strip xs = [] then [] else indent_list ind d (strip xs) False True)"
| "indent_tree ind d (XChar c f) = XChar c f"
| "indent_tree ind d (XComment c) = XComment c"
| "indent_tree ind d (XDirective c) = XDirective c"
| "indent_tree ind d (XProcInst c i) = XProcInst c i"
| "indent_list ind d [] isc first = (if \<not> isc \<and> (\<not> first \<or> d > 0) then break_at ind (d - 1) else [])"
| "indent_list ind d (x # xs) isc first =
     (if \<not> x_char x \<and> (\<not> first \<or> d > 0) then break_at ind d else []) @ indent_tree ind (d + 1) x
       # indent_list ind d xs (x_char x) (first \<and> x_char x)"
  by pat_completeness auto
termination
  by (relation "measure (case_sum (\<lambda>(ind, d, x). size x) (\<lambda>(ind, d, xs, isc, first). size_list size xs))")
    (auto simp: less_Suc_eq_le size_strip intro: le_trans)

subsection \<open>The loop computes it\<close>

text \<open>\<open>e\<close> has got new children that stand for \<open>xs\<close>, made of the tokens \<open>N\<close> and new ones; nothing else has changed.\<close>

definition builds :: "heap \<Rightarrow> addr \<Rightarrow> addr set \<Rightarrow> xml list \<Rightarrow> heap \<Rightarrow> bool" where
  "builds h e N xs h' \<longleftrightarrow> length h \<le> length h' \<and> (\<forall>b < length h. b \<noteq> e \<and> b \<notin> N \<longrightarrow> body (h' ! b) = body (h ! b)) \<and> is_Elem h' e
     \<and> space h' e = space h e \<and> tag h' e = tag h e \<and> attrs h' e = attrs h e
     \<and> (\<exists>new. child h' e = child h e @ new \<and> list_all2 (repr h' (N \<union> {length h..<length h'})) new xs)"

lemma builds_adds: "adds h e xs h' \<Longrightarrow> builds h e {} xs h'"
  by (simp add: adds_def builds_def)

lemma builds_refl: "is_Elem h e \<Longrightarrow> builds h e {} [] h"
  by (simp add: builds_def)

lemma builds_trans:
  assumes "builds h e N xs h1" "builds h1 e M ys h2" "e < length h" "e \<notin> N" "N \<inter> M = {}" "M \<subseteq> {..<length h}"
  shows "builds h e (N \<union> M) (xs @ ys) h2"
proof -
  obtain new new' where n: "child h1 e = child h e @ new" "list_all2 (repr h1 (N \<union> {length h..<length h1})) new xs"
    "child h2 e = child h1 e @ new'" "list_all2 (repr h2 (M \<union> {length h1..<length h2})) new' ys"
    using assms(1,2) by (auto simp: builds_def)
  have len: "length h \<le> length h1" "length h1 \<le> length h2" using assms(1,2) by (simp_all add: builds_def)
  have "list_all2 (repr h2 (N \<union> M \<union> {length h..<length h2})) new xs"
  proof (rule repr_list_frame [OF n(2)])
    fix b assume b: "b \<in> N \<union> {length h..<length h1}" "b < length h1"
    then have "b \<noteq> e" "b \<notin> M" using assms(3-6) by auto
    then show "b \<in> N \<union> M \<union> {length h..<length h2} \<and> b < length h2 \<and> body (h2 ! b) = body (h1 ! b)"
      using b len assms(2) by (auto simp: builds_def)
  qed
  moreover have "list_all2 (repr h2 (N \<union> M \<union> {length h..<length h2})) new' ys"
    by (rule repr_list_frame [OF n(4)]) (use len in auto)
  ultimately have "list_all2 (repr h2 (N \<union> M \<union> {length h..<length h2})) (new @ new') (xs @ ys)" by (rule list_all2_appendI)
  then show ?thesis using assms n(1,3) len by (auto simp: builds_def)
qed

definition forest :: "heap \<Rightarrow> addr list \<Rightarrow> xml list \<Rightarrow> bool" where
  "forest h cs xs \<longleftrightarrow> list_all2 (\<lambda>c x. repr h (set (nodes h x c)) c x) cs xs \<and> distinct (nodes_list h xs cs)"

lemma forest_Cons:
  "forest h (c # cs) (x # xs) \<longleftrightarrow> repr h (set (nodes h x c)) c x \<and> distinct (nodes h x c) \<and> forest h cs xs
     \<and> set (nodes h x c) \<inter> set (nodes_list h xs cs) = {}"
  by (auto simp: forest_def)

lemma nodes_bound: "repr h S a x \<Longrightarrow> b \<in> set (nodes h x a) \<Longrightarrow> b < length h"
  using nodes_repr repr_in by blast

lemma forest_bound: "forest h cs xs \<Longrightarrow> set (nodes_list h xs cs) \<subseteq> {..<length h}"
proof (induction xs arbitrary: cs)
  case (Cons x xs)
  then obtain c cs' where c: "cs = c # cs'" by (cases cs) (auto simp: forest_def)
  then show ?case using Cons nodes_bound [of h "set (nodes h x c)" c x] by (auto simp: forest_Cons)
qed simp

lemma forest_frame:
  assumes "forest h cs xs" "length h \<le> length h'" "\<And>b. b \<in> set (nodes_list h xs cs) \<Longrightarrow> body (h' ! b) = body (h ! b)"
  shows "forest h' cs xs" "nodes_list h' xs cs = nodes_list h xs cs"
proof -
  show n: "nodes_list h' xs cs = nodes_list h xs cs" using assms(3) by (rule nodes_cong(2))
  have len: "length cs = length xs" using assms(1) by (auto simp: forest_def dest: list_all2_lengthD)
  have "repr h' (set (nodes h' (xs ! i) (cs ! i))) (cs ! i) (xs ! i)" if "i < length xs" for i
  proof -
    have sub: "b \<in> set (nodes_list h xs cs)" if "b \<in> set (nodes h (xs ! i) (cs ! i))" for b
      using that \<open>i < length xs\<close> nodes_list_mem [OF len] by blast
    then have "nodes h' (xs ! i) (cs ! i) = nodes h (xs ! i) (cs ! i)" using assms(3) by (intro nodes_cong(1)) blast
    moreover have "repr h (set (nodes h (xs ! i) (cs ! i))) (cs ! i) (xs ! i)" using assms(1) that len by (auto simp: forest_def list_all2_conv_all_nth)
    then have "repr h' (set (nodes h (xs ! i) (cs ! i))) (cs ! i) (xs ! i)"
      by (rule repr_frame) (use assms(2,3) sub in auto)
    ultimately show ?thesis by simp
  qed
  then show "forest h' cs xs" using assms(1) n len by (auto simp: forest_def list_all2_conv_all_nth)
qed

lemma repr_kind: "repr h S c x \<Longrightarrow> is_indent h c = ws_char x \<and> is_Char h c = x_char x"
  by (cases rule: repr.cases) (auto simp: is_indent_def is_Char_def ws_char_def x_char_def)

lemma forest_strip:
  "forest h cs xs \<Longrightarrow> forest h (filter (\<lambda>c. \<not> is_indent h c) cs) (strip xs)
     \<and> set (nodes_list h (strip xs) (filter (\<lambda>c. \<not> is_indent h c) cs)) \<subseteq> set (nodes_list h xs cs)"
proof (induction xs arbitrary: cs)
  case Nil
  then show ?case by (simp add: forest_def strip_def)
next
  case (Cons x xs)
  then obtain c cs' where c: "cs = c # cs'" by (cases cs) (auto simp: forest_def)
  have "is_indent h c = ws_char x" using Cons.prems c repr_kind by (auto simp: forest_Cons)
  then show ?case using Cons c by (auto simp: forest_Cons strip_def)
qed

lemma forest_children:
  assumes "repr h S c (XElement s t as xs)" "distinct (nodes h (XElement s t as xs) c)"
  shows "forest h (child h c) xs"
proof -
  note e = element_children [OF assms(1)]
  show ?thesis using assms(2) e(3) repr_nodes [OF e(4)] by (auto simp: forest_def list_all2_conv_all_nth)
qed

lemma addChild_body:
  assumes "is_Elem h e" "e < length h" "t < length h"
  shows "length (addChild h e t) = length h" "space (addChild h e t) e = space h e" "tag (addChild h e t) e = tag h e" "attrs (addChild h e t) e = attrs h e"
  using assms by (simp_all add: addChild_def Let_def fields)

lemma stripIndent_view:
  assumes "e < length h" "is_Elem h e"
  shows "length (stripIndent h e) = length h" "child (stripIndent h e) e = filter (\<lambda>c. \<not> is_indent h c) (child h e)"
    "\<And>a. a \<noteq> e \<Longrightarrow> body (stripIndent h e ! a) = body (h ! a)" "is_Elem (stripIndent h e) e"
    "space (stripIndent h e) e = space h e" "tag (stripIndent h e) e = tag h e" "attrs (stripIndent h e) e = attrs h e"
proof -
  let ?k = "filter (\<lambda>c. \<not> is_indent h c) (child h e)"
  have same: "?k = child h e" if "length ?k = length (child h e)"
    using that by (metis filter_id_conv length_filter_less order_less_irrefl)
  show "child (stripIndent h e) e = ?k" using same assms by (auto simp: stripIndent_def Let_def fields)
qed (use assms in \<open>simp_all add: stripIndent_def Let_def fields\<close>)

lemma break_builds:
  assumes "e < length h" "is_Elem h e"
  shows "builds h e {} (break_at ind d) (indent_break ind h e d)"
proof (cases "ind d = []")
  case True
  then show ?thesis using builds_refl [OF assms(2)] by (simp add: break_at_def indent_break_def)
next
  case False
  have "adds h e [XChar (ind d) whitespaceFlag] (snd (new_token h (CharData (ind d) whitespaceFlag) (Some e)))"
    using assms by (intro adds_leaf repr.intros)
  then show ?thesis using False builds_adds by (simp add: break_at_def indent_break_def newCharData_def)
qed

lemma repr_Elem: "repr h S a x \<Longrightarrow> is_Elem h a \<longleftrightarrow> (\<exists>s t as xs. x = XElement s t as xs)"
  by (cases rule: repr.cases) (auto simp: is_Elem_def)

definition enter :: "(int \<Rightarrow> string) \<Rightarrow> heap \<Rightarrow> addr \<Rightarrow> int \<Rightarrow> heap option" where
  "enter ind h c d = (if is_Elem h c then indent ind h c d else Some h)"

lemma indent_loop_Cons:
  "indent_loop ind e d (c # cs) isc first h =
     Option.bind (enter ind (addChild (if \<not> is_Char h c \<and> (\<not> first \<or> d > 0) then indent_break ind h e d else h) e c) c (d + 1))
       (indent_loop ind e d cs (is_Char h c) (first \<and> is_Char h c))"
  by (subst indent_loop.simps) (simp only: list.case Let_def enter_def indent_def)

text \<open>Entering a child whose subtree waits, after it has been added again.\<close>

lemma enter_leaf:
  assumes "e < length h" "is_Elem h e" "repr h (set (nodes h x c)) c x" "e \<notin> set (nodes h x c)" "\<not> is_Elem h c"
  shows "builds h e (set (nodes h x c)) [x] (addChild h e c)" "enter ind (addChild h e c) c d = Some (addChild h e c)"
proof -
  have c: "c < length h" using repr_in [OF assms(3)] by simp
  note f = addChild_fields [OF assms(2,1) c] and g = addChild_body [OF assms(2,1) c]
  have "repr (addChild h e c) (set (nodes h x c) \<union> {length h..<length (addChild h e c)}) c x"
    by (rule repr_frame [OF assms(3)]) (use f(6) assms(4) in \<open>auto; metis\<close>)
  then show "builds h e (set (nodes h x c)) [x] (addChild h e c)" using f g assms(2) by (simp add: builds_def)
  show "enter ind (addChild h e c) c d = Some (addChild h e c)" using f(4) assms(5) by (simp add: enter_def)
qed

lemma enter_leaf_ex:
  assumes "e < length h" "is_Elem h e" "repr h (set (nodes h x c)) c x" "e \<notin> set (nodes h x c)" "\<And>s t as xs. x \<noteq> XElement s t as xs"
  shows "\<exists>h'. enter ind (addChild h e c) c d = Some h' \<and> builds h e (set (nodes h x c)) [x] h'"
  using enter_leaf [OF assms(1-4)] repr_Elem [OF assms(3)] assms(5) by blast

text \<open>\<open>c\<close> now stands for \<open>y\<close>, with the tokens \<open>N\<close> and new ones; nothing else has changed.\<close>

definition becomes :: "heap \<Rightarrow> addr set \<Rightarrow> addr \<Rightarrow> xml \<Rightarrow> heap \<Rightarrow> bool" where
  "becomes h N c y h' \<longleftrightarrow> length h \<le> length h' \<and> (\<forall>b < length h. b \<notin> N \<longrightarrow> body (h' ! b) = body (h ! b))
     \<and> repr h' (N \<union> {length h..<length h'}) c y"

lemma indent_element:
  fixes s t :: string
  assumes "repr h S c (XElement s t as xs)" "distinct (nodes h (XElement s t as xs) c)"
    and IH: "\<And>h cs. strip xs \<noteq> [] \<Longrightarrow> c < length h \<Longrightarrow> is_Elem h c \<Longrightarrow> forest h cs (strip xs) \<Longrightarrow> c \<notin> set (nodes_list h (strip xs) cs) \<Longrightarrow>
      \<exists>h'. indent_loop ind c d cs False True h = Some h' \<and> builds h c (set (nodes_list h (strip xs) cs)) (indent_list ind d (strip xs) False True) h'"
  shows "\<exists>h'. indent ind h c d = Some h' \<and> becomes h (set (nodes h (XElement s t as xs) c)) c (indent_tree ind d (XElement s t as xs)) h'"
proof -
  let ?x = "XElement s t as xs"
  let ?N = "set (nodes h ?x c)"
  define h3 where "h3 = stripIndent h c"
  define h3' where "h3' = setChild h3 c []"
  have c: "c < length h" "c \<in> ?N" using repr_in [OF assms(1)] by auto
  have ec: "is_Elem h c" "space h c = s" "tag h c = t" "map attr_of (attrs h c) = as" using assms(1) by (auto simp: repr_simps is_Elem_def space_def tag_def attrs_def)
  have fo: "forest h (child h c) xs" using forest_children [OF assms(1,2)] .
  have cn: "c \<notin> set (nodes_list h xs (child h c))" using assms(2) by simp
  note v = stripIndent_view [OF c(1) ec(1), folded h3_def]
  let ?old = "filter (\<lambda>a. \<not> is_indent h a) (child h c)"
  let ?M = "set (nodes_list h (strip xs) ?old)"
  have fs: "forest h ?old (strip xs)" "?M \<subseteq> set (nodes_list h xs (child h c))" using forest_strip [OF fo] by simp_all
  have lens: "length ?old = length (strip xs)" using fs(1) by (auto simp: forest_def dest: list_all2_lengthD)
  show ?thesis
  proof (cases "?old = []")
    case True
    then have r: "indent ind h c d = Some h3" using v(2) by (simp add: indent_def h3_def)
    have "repr h3 (?N \<union> {length h..<length h3}) c (XElement s t as [])"
      using elem_body [OF v(4)] v ec c True by (auto simp: repr_simps)
    moreover have "strip xs = []" using lens True by simp
    ultimately have "becomes h ?N c (indent_tree ind d ?x) h3" using v(1,3) c(2) by (auto simp: becomes_def)
    then show ?thesis using r by blast
  next
    case False
    have h3': "length h3' = length h" "is_Elem h3' c" "child h3' c = []" "\<And>a. a \<noteq> c \<Longrightarrow> body (h3' ! a) = body (h ! a)"
      "space h3' c = s" "tag h3' c = t" "map attr_of (attrs h3' c) = as"
      using v ec c(1) by (simp_all add: h3'_def fields)
    have cs: "c \<notin> ?M" using fs(2) cn by auto
    have fo3: "forest h3' ?old (strip xs)" "nodes_list h3' (strip xs) ?old = nodes_list h (strip xs) ?old"
      using forest_frame [OF fs(1), of h3'] h3'(1,4) cs by (metis order_refl)+
    have "strip xs \<noteq> []" using False lens by auto
    then obtain h4 where h4: "indent_loop ind c d ?old False True h3' = Some h4"
      "builds h3' c ?M (indent_list ind d (strip xs) False True) h4"
      using IH [of h3' ?old] fo3 cs h3'(1,2) c(1) by auto
    have r: "indent ind h c d = Some h4" using v(2) False h4(1) by (simp add: indent_def Let_def h3_def [symmetric] h3'_def [symmetric])
    obtain new where n: "child h4 c = new" "list_all2 (repr h4 (?M \<union> {length h..<length h4})) new (indent_list ind d (strip xs) False True)"
      using h4(2) h3'(1,3) by (auto simp: builds_def)
    have l4: "length h \<le> length h4" "is_Elem h4 c" "space h4 c = s" "tag h4 c = t" "map attr_of (attrs h4 c) = as"
      using h4(2) h3' by (auto simp: builds_def)
    have M: "?M \<subseteq> ?N" using fs(2) by auto
    have "list_all2 (repr h4 (?N \<union> {length h..<length h4})) new (indent_list ind d (strip xs) False True)"
      by (rule repr_list_frame [OF n(2)]) (use M in auto)
    then have "repr h4 (?N \<union> {length h..<length h4}) c (XElement s t (map attr_of (attrs h4 c)) (indent_list ind d (strip xs) False True))"
      using elem_body [OF l4(2)] l4 n(1) c by (intro repr.intros(1)) auto
    then have t: "repr h4 (?N \<union> {length h..<length h4}) c (indent_tree ind d ?x)" using l4(5) \<open>strip xs \<noteq> []\<close> by simp
    have "body (h4 ! b) = body (h ! b)" if "b < length h" "b \<notin> ?N" for b
    proof -
      have "b \<noteq> c" "b \<notin> ?M" using that(2) c(2) M by auto
      then show ?thesis using that(1) h4(2) h3'(1,4) by (simp add: builds_def)
    qed
    then show ?thesis using r t l4(1) by (auto simp: becomes_def)
  qed
qed

lemma enter_element:
  fixes s t :: string
  assumes "e < length h" "is_Elem h e" "repr h (set (nodes h (XElement s t as xs) c)) c (XElement s t as xs)"
    "distinct (nodes h (XElement s t as xs) c)" "e \<notin> set (nodes h (XElement s t as xs) c)"
    and IH: "\<And>h cs. strip xs \<noteq> [] \<Longrightarrow> c < length h \<Longrightarrow> is_Elem h c \<Longrightarrow> forest h cs (strip xs) \<Longrightarrow> c \<notin> set (nodes_list h (strip xs) cs) \<Longrightarrow>
      \<exists>h'. indent_loop ind c d cs False True h = Some h' \<and> builds h c (set (nodes_list h (strip xs) cs)) (indent_list ind d (strip xs) False True) h'"
  shows "\<exists>h'. enter ind (addChild h e c) c d = Some h' \<and> builds h e (set (nodes h (XElement s t as xs) c)) [indent_tree ind d (XElement s t as xs)] h'"
proof -
  let ?x = "XElement s t as xs"
  let ?N = "set (nodes h ?x c)"
  define h2 where "h2 = addChild h e c"
  have c: "c < length h" "is_Elem h c" using repr_in [OF assms(3)] repr_Elem [OF assms(3)] by auto
  note f = addChild_fields [OF assms(2,1) c(1), folded h2_def] and g = addChild_body [OF assms(2,1) c(1), folded h2_def]
  have same: "body (h2 ! b) = body (h ! b)" if "b \<in> ?N" for b using that f(6) assms(5) by metis
  have n2: "nodes h2 ?x c = nodes h ?x c" using same by (rule nodes_cong(1))
  have "repr h2 ?N c ?x" by (rule repr_frame [OF assms(3)]) (use same g(1) in auto)
  then obtain h4 where h4: "indent ind h2 c d = Some h4" "becomes h2 ?N c (indent_tree ind d ?x) h4"
    using indent_element [of h2 ?N c s t as xs ind d, OF _ _ IH] assms(4) n2 by auto
  have be: "body (h4 ! e) = body (h2 ! e)" using h4(2) assms(1,5) g(1) by (simp add: becomes_def)
  have "builds h e ?N [indent_tree ind d ?x] h4"
    using h4(2) g f(1,4,6) body_cong [OF be] assms(2) by (auto simp: becomes_def builds_def)
  then show ?thesis using h4(1) c(2) f(4) by (auto simp: enter_def h2_def)
qed

lemma indent_loop_Nil:
  "indent_loop ind e d [] isc first h = Some (if \<not> isc \<and> (\<not> first \<or> d > 0) then indent_break ind h e (d - 1) else h)"
  by (simp add: indent_loop.simps)

lemma builds_elem: "builds h e N xs h' \<Longrightarrow> e < length h \<Longrightarrow> e < length h' \<and> is_Elem h' e"
  by (simp add: builds_def)

lemma loop_step:
  assumes "e < length h" "is_Elem h e" "forest h (c # cs) (x # xs)" "e \<notin> set (nodes_list h (x # xs) (c # cs))"
    and enter: "\<And>h. e < length h \<Longrightarrow> is_Elem h e \<Longrightarrow> repr h (set (nodes h x c)) c x \<Longrightarrow> distinct (nodes h x c) \<Longrightarrow> e \<notin> set (nodes h x c) \<Longrightarrow>
      \<exists>h'. enter ind (addChild h e c) c (d + 1) = Some h' \<and> builds h e (set (nodes h x c)) [indent_tree ind (d + 1) x] h'"
    and rest: "\<And>h. e < length h \<Longrightarrow> is_Elem h e \<Longrightarrow> forest h cs xs \<Longrightarrow> e \<notin> set (nodes_list h xs cs) \<Longrightarrow>
      \<exists>h'. indent_loop ind e d cs (x_char x) (first \<and> x_char x) h = Some h'
        \<and> builds h e (set (nodes_list h xs cs)) (indent_list ind d xs (x_char x) (first \<and> x_char x)) h'"
  shows "\<exists>h'. indent_loop ind e d (c # cs) isc first h = Some h'
    \<and> builds h e (set (nodes_list h (x # xs) (c # cs))) (indent_list ind d (x # xs) isc first) h'"
proof -
  let ?brk = "\<not> x_char x \<and> (\<not> first \<or> d > 0)"
  have x: "repr h (set (nodes h x c)) c x" "distinct (nodes h x c)" "forest h cs xs" "set (nodes h x c) \<inter> set (nodes_list h xs cs) = {}"
    using assms(3) by (simp_all add: forest_Cons)
  have isc: "is_Char h c = x_char x" using repr_kind [OF x(1)] by simp
  define h1 where "h1 = (if ?brk then indent_break ind h e d else h)"
  have b1: "builds h e {} (if ?brk then break_at ind d else []) h1"
    using break_builds [OF assms(1,2)] builds_refl [OF assms(2)] by (simp add: h1_def)
  have e1: "e < length h1" "is_Elem h1 e" using builds_elem [OF b1 assms(1)] by simp_all
  have fr: "body (h1 ! b) = body (h ! b)" if "b \<in> set (nodes_list h (x # xs) (c # cs))" for b
    using that b1 forest_bound [OF assms(3)] assms(4) by (auto simp: builds_def)
  have l1: "length h \<le> length h1" using b1 by (simp add: builds_def)
  have f1: "forest h1 (c # cs) (x # xs)" "nodes_list h1 (x # xs) (c # cs) = nodes_list h (x # xs) (c # cs)"
    using forest_frame [OF assms(3) l1 fr] by simp_all
  have n1: "nodes h1 x c = nodes h x c" "nodes_list h1 xs cs = nodes_list h xs cs"
    using fr nodes_cong(1) [of h x c h1] nodes_cong(2) [of h xs cs h1] by simp_all
  obtain h2 where h2: "enter ind (addChild h1 e c) c (d + 1) = Some h2" "builds h1 e (set (nodes h x c)) [indent_tree ind (d + 1) x] h2"
    using enter [OF e1] f1(1) assms(4) n1 by (auto simp: forest_Cons)
  have e2: "e < length h2" "is_Elem h2 e" using builds_elem [OF h2(2) e1(1)] by simp_all
  have b12: "builds h e (set (nodes h x c)) ((if ?brk then break_at ind d else []) @ [indent_tree ind (d + 1) x]) h2"
    using builds_trans [OF b1 h2(2) assms(1)] forest_bound [OF assms(3)] by simp
  have fr2: "body (h2 ! b) = body (h ! b)" if "b \<in> set (nodes_list h xs cs)" for b
    using that b12 forest_bound [OF x(3)] assms(4) x(4) by (auto simp: builds_def)
  have f2: "forest h2 cs xs" "nodes_list h2 xs cs = nodes_list h xs cs"
    using forest_frame [OF x(3) _ fr2] b12 by (auto simp: builds_def)
  obtain h3 where h3: "indent_loop ind e d cs (x_char x) (first \<and> x_char x) h2 = Some h3"
    "builds h2 e (set (nodes_list h xs cs)) (indent_list ind d xs (x_char x) (first \<and> x_char x)) h3"
    using rest [OF e2 f2(1)] assms(4) f2(2) by auto
  have "builds h e (set (nodes h x c) \<union> set (nodes_list h xs cs))
      (((if ?brk then break_at ind d else []) @ [indent_tree ind (d + 1) x]) @ indent_list ind d xs (x_char x) (first \<and> x_char x)) h3"
    by (rule builds_trans [OF b12 h3(2) assms(1) _ x(4)]) (use assms(4) forest_bound [OF x(3)] in auto)
  then have "builds h e (set (nodes_list h (x # xs) (c # cs))) (indent_list ind d (x # xs) isc first) h3" by simp
  moreover have "indent_loop ind e d (c # cs) isc first h = Some h3"
    unfolding indent_loop_Cons isc h1_def [symmetric] using h2(1) h3(1) by simp
  ultimately show ?thesis by blast
qed

lemma indent_builds:
  fixes ind :: "int \<Rightarrow> string"
  shows "e < length h \<Longrightarrow> is_Elem h e \<Longrightarrow> repr h (set (nodes h x c)) c x \<Longrightarrow> distinct (nodes h x c) \<Longrightarrow> e \<notin> set (nodes h x c) \<Longrightarrow>
      \<exists>h'. enter ind (addChild h e c) c d = Some h' \<and> builds h e (set (nodes h x c)) [indent_tree ind d x] h'"
    and "e < length h \<Longrightarrow> is_Elem h e \<Longrightarrow> forest h cs xs \<Longrightarrow> e \<notin> set (nodes_list h xs cs) \<Longrightarrow>
      \<exists>h'. indent_loop ind e d cs isc first h = Some h' \<and> builds h e (set (nodes_list h xs cs)) (indent_list ind d xs isc first) h'"
proof (induction ind d x and ind d xs isc first arbitrary: h e c and h e cs rule: indent_tree_indent_list.induct)
  case (1 ind d s t as xs)
  show ?case by (rule enter_element [OF 1(2-6)]) (rule 1(1))
next
  case (6 ind d isc first)
  then show ?case using break_builds [of e h ind "d - 1"] builds_refl [of h e] by (auto simp: forest_def indent_loop_Nil)
next
  case (7 ind d x xs isc first)
  then obtain c cs' where c: "cs = c # cs'" by (cases cs) (auto simp: forest_def)
  show ?case unfolding c by (rule loop_step [OF 7(3,4)]) (use 7 c in auto)
next
  case (2 ind d c' f)
  then show ?case using enter_leaf_ex [of e h "XChar c' f" c ind d] by simp
next
  case (3 ind d c')
  then show ?case using enter_leaf_ex [of e h "XComment c'" c ind d] by simp
next
  case (4 ind d c')
  then show ?case using enter_leaf_ex [of e h "XDirective c'" c ind d] by simp
next
  case (5 ind d c' i)
  then show ?case using enter_leaf_ex [of e h "XProcInst c' i" c ind d] by simp
qed

lemma indent_repr:
  assumes "linked h" "repr h S e (XElement s t as xs)"
  shows "\<exists>h'. indent ind h e d = Some h' \<and> becomes h (set (nodes h (XElement s t as xs) e)) e (indent_tree ind d (XElement s t as xs)) h'"
  using assms(2) nodes_distinct [OF assms] by (rule indent_element) (rule indent_builds(2))

subsection \<open>What indentation keeps\<close>

text \<open>The content of a tree: all but the character data that is marked as white space.\<close>

function content :: "xml \<Rightarrow> xml" where
  "content (XElement s t as xs) = XElement s t as (map content (strip xs))"
| "content (XChar d f) = XChar d f"
| "content (XComment d) = XComment d"
| "content (XDirective d) = XDirective d"
| "content (XProcInst t i) = XProcInst t i"
  by pat_completeness auto
termination
proof (relation "measure size")
  fix s t as xs z assume "z \<in> set (strip xs)"
  then have "z \<in> set xs" by (auto simp: strip_def)
  then show "(z, XElement s t as xs) \<in> measure size" using size_list_estimation' [OF _ order_refl, of z xs size] by (simp add: less_Suc_eq_le)
qed simp

lemma indent_tree_kind: "ws_char (indent_tree ind d x) = ws_char x" "x_char (indent_tree ind d x) = x_char x"
  by (cases x; simp add: ws_char_def x_char_def)+

lemma strip_break: "strip (break_at ind d) = []"
  by (simp add: strip_def break_at_def ws_char_def IsWhitespace_def whitespaceFlag_def)

lemma strip_append: "strip (xs @ ys) = strip xs @ strip ys" "strip (x # xs) = (if ws_char x then strip xs else x # strip xs)" "strip [] = []"
  by (simp_all add: strip_def)

lemma strip_indent_list: "\<forall>x \<in> set xs. \<not> ws_char x \<Longrightarrow> strip (indent_list ind d xs isc first) = map (indent_tree ind (d + 1)) xs"
  by (induction xs arbitrary: isc first) (simp_all add: strip_append strip_break indent_tree_kind)

lemma strip_strip: "\<forall>x \<in> set (strip xs). \<not> ws_char x"
  by (simp add: strip_def)

lemma strip_indented: "strip (if strip xs = [] then [] else indent_list ind d (strip xs) False True) = map (indent_tree ind (d + 1)) (strip xs)"
  using strip_indent_list [OF strip_strip [of xs], of ind d False True] by (auto simp: strip_append)

lemma content_indent: "content (indent_tree ind d x) = content x"
proof (induction x arbitrary: d)
  case (XElement s t as xs)
  have "content (indent_tree ind d (XElement s t as xs)) = XElement s t as (map content (map (indent_tree ind (d + 1)) (strip xs)))"
    by (simp only: indent_tree.simps content.simps strip_indented)
  also have "map content (map (indent_tree ind (d + 1)) (strip xs)) = map content (strip xs)"
    using XElement.IH by (simp add: strip_def)
  finally show ?case by simp
qed simp_all

lemma indent_list_cong: "map (indent_tree ind (d + 1)) xs = map (indent_tree ind (d + 1)) ys \<Longrightarrow> map x_char xs = map x_char ys \<Longrightarrow>
   indent_list ind d xs isc first = indent_list ind d ys isc first"
proof (induction xs arbitrary: ys isc first)
  case (Cons x xs)
  then obtain y ys' where "ys = y # ys'" by (cases ys) auto
  then show ?case using Cons by simp
qed simp

lemma indent_idem: "indent_tree ind d (indent_tree ind d x) = indent_tree ind d x"
proof (induction x arbitrary: d)
  case (XElement s t as xs)
  let ?ys = "map (indent_tree ind (d + 1)) (strip xs)"
  have "map (indent_tree ind (d + 1)) ?ys = ?ys" using XElement.IH by (simp add: strip_def)
  moreover have "map x_char ?ys = map x_char (strip xs)" by (simp add: indent_tree_kind)
  ultimately have "indent_list ind d ?ys False True = indent_list ind d (strip xs) False True" by (intro indent_list_cong)
  moreover have "strip (if strip xs = [] then [] else indent_list ind d (strip xs) False True) = ?ys" by (rule strip_indented)
  ultimately show ?case by (simp only: indent_tree.simps) simp
qed simp_all

end
