(* ===== verification/Xml_Traverse.thy ===== *)
theory Xml_Traverse
  imports Xml_Path Xml_Indent "HOL-Library.Multiset"
begin

section \<open>Package goxml: what a search finds\<close>

text \<open>
  The search of \<^verbatim>\<open>goxml/path.go\<close> keeps pairs of an element and the segments left in a queue. Here it is
  shown to be the composition of the segments, level by level, without the elements already found; that
  it ends on trees; and that the relative path of an element leads back to it.
\<close>

subsection \<open>Level by level\<close>

definition eval_step :: "heap \<Rightarrow> addr \<times> segment list \<Rightarrow> found \<Rightarrow> (found \<times> (addr \<times> segment list) list) res" where
  "eval_step h n st =
     (case snd n of
        [] \<Rightarrow> Some Panic
      | seg # remain \<Rightarrow>
          bind_res (segment_apply h seg (fst n)) (\<lambda>cands.
            Some (Ret (if remain = [] then (fold add_result cands st, []) else (st, map (\<lambda>c. (c, remain)) cands)))))"

definition desc_step :: "heap \<Rightarrow> addr \<Rightarrow> addr list \<Rightarrow> (addr list \<times> addr list) res" where
  "desc_step h e cands = Some (Ret (cands @ [e], filter (is_Elem h) (child h e)))"

lemma eval_follows: "ring.follows (eval h) (eval_step h)"
  unfolding ring.follows_def
proof (intro allI impI)
  fix n :: "addr \<times> segment list" and st and q :: "(addr \<times> segment list) fifo"
  assume q: "fifo_inv q"
  obtain e p where n: "n = (e, p)" by (cases n)
  show "case eval_step h n st of None \<Rightarrow> eval h n st q = None | Some Panic \<Rightarrow> eval h n st q = Some Panic
    | Some (Ret (s', ys)) \<Rightarrow> \<exists>q'. eval h n st q = Some (Ret (s', q')) \<and> fifo_inv q' \<and> fifo_contents q' = fifo_contents q @ ys"
  proof (cases p)
    case (Cons seg remain)
    consider "segment_apply h seg e = None" | "segment_apply h seg e = Some Panic" | cs where "segment_apply h seg e = Some (Ret cs)"
      by (metis not_None_eq outcome.exhaust)
    then show ?thesis
    proof cases
      case (3 cs)
      then show ?thesis
        using q Cons n ring.add_all [OF q, of "map (\<lambda>c. (c, remain)) cs"] by (auto simp: eval_def eval_step_def)
    qed (simp_all add: eval_def eval_step_def n Cons)
  qed (simp add: eval_def eval_step_def n)
qed

lemma desc_follows: "ring.follows (descend h) (desc_step h)"
  unfolding ring.follows_def
proof (intro allI impI)
  fix e cands and q :: "addr fifo"
  assume "fifo_inv q"
  from ring.add_all [OF this, of "filter (is_Elem h) (child h e)"]
  show "case desc_step h e cands of None \<Rightarrow> descend h e cands q = None | Some Panic \<Rightarrow> descend h e cands q = Some Panic
    | Some (Ret (s', ys)) \<Rightarrow> \<exists>q'. descend h e cands q = Some (Ret (s', q')) \<and> fifo_inv q' \<and> fifo_contents q' = fifo_contents q @ ys"
    by (auto simp: descend_def desc_step_def)
qed

lemma ring_start:
  obtains q where "fifo_add x new_fifo = Ret q" "fifo_inv q" "fifo_contents q = [x]"
  using ring.add [OF ring.empty(1), of x] ring.empty(2) by auto

fun apply_all :: "heap \<Rightarrow> segment \<Rightarrow> addr list \<Rightarrow> addr list res" where
  "apply_all h seg [] = Some (Ret [])"
| "apply_all h seg (e # es) =
     bind_res (segment_apply h seg e) (\<lambda>cs. bind_res (apply_all h seg es) (\<lambda>ds. Some (Ret (cs @ ds))))"

fun path_elems :: "heap \<Rightarrow> segment list \<Rightarrow> addr list \<Rightarrow> addr list res" where
  "path_elems h [] es = Some (Ret es)"
| "path_elems h (seg # segs) es = bind_res (apply_all h seg es) (path_elems h segs)"

definition keep_first :: "addr list \<Rightarrow> addr list" where
  "keep_first cs = rev (remdups (rev cs))"

lemma add_results:
  "fst (fold add_result cs ([], \<lambda>_. False)) = keep_first cs \<and> (\<forall>c. snd (fold add_result cs ([], \<lambda>_. False)) c \<longleftrightarrow> c \<in> set cs)"
proof (induction cs rule: rev_induct)
  case (snoc c cs)
  obtain rs f where "fold add_result cs ([], \<lambda>_. False) = (rs, f)" by (cases "fold add_result cs ([], \<lambda>_. False)")
  then show ?case using snoc by (auto simp: add_result_def [of c] keep_first_def)
qed (simp add: keep_first_def)

lemma list_drain_Cons:
  "list_drain step (x # xs) s = bind_res (step x s) (\<lambda>(s', ys). list_drain step (xs @ ys) s')"
  by (subst list_drain.simps) (auto simp: bind_res_def split: option.splits outcome.splits)

lemma list_drain_Nil: "list_drain step [] s = Some (Ret s)"
  by (subst list_drain.simps) simp

lemma level_inner:
  assumes "remain \<noteq> []" "apply_all h seg es = Some r"
  shows "list_drain (eval_step h) (map (\<lambda>c. (c, seg # remain)) es @ map (\<lambda>c. (c, remain)) ds) st =
    (case r of Panic \<Rightarrow> Some Panic | Ret cs \<Rightarrow> list_drain (eval_step h) (map (\<lambda>c. (c, remain)) (ds @ cs)) st)"
  using assms(2)
proof (induction es arbitrary: ds r)
  case (Cons e es)
  consider "segment_apply h seg e = None" | "segment_apply h seg e = Some Panic" | cs where "segment_apply h seg e = Some (Ret cs)"
    by (metis not_None_eq outcome.exhaust)
  then show ?case
  proof cases
    case (3 cs)
    then obtain r' where r': "apply_all h seg es = Some r'" using Cons.prems by (cases "apply_all h seg es") auto
    show ?thesis
      using Cons.IH [OF r', of "ds @ cs"] Cons.prems 3 r' assms(1)
      by (cases r') (auto simp: list_drain_Cons eval_step_def)
  qed (use Cons.prems in \<open>auto simp: list_drain_Cons eval_step_def\<close>)
qed simp

lemma level_last:
  assumes "apply_all h seg es = Some r"
  shows "list_drain (eval_step h) (map (\<lambda>c. (c, [seg])) es) st =
    Some (case r of Panic \<Rightarrow> Panic | Ret cs \<Rightarrow> Ret (fold add_result cs st))"
  using assms
proof (induction es arbitrary: st r)
  case (Cons e es)
  consider "segment_apply h seg e = None" | "segment_apply h seg e = Some Panic" | cs where "segment_apply h seg e = Some (Ret cs)"
    by (metis not_None_eq outcome.exhaust)
  then show ?case
  proof cases
    case (3 cs)
    then obtain r' where r': "apply_all h seg es = Some r'" using Cons.prems by (cases "apply_all h seg es") auto
    then show ?thesis
      using Cons.IH [OF r', of "fold add_result cs st"] Cons.prems 3
      by (cases r') (auto simp: list_drain_Cons eval_step_def)
  qed (use Cons.prems in \<open>auto simp: list_drain_Cons eval_step_def\<close>)
qed (simp add: list_drain_Nil)

lemma levels:
  "path \<noteq> [] \<Longrightarrow> path_elems h path es = Some r \<Longrightarrow>
   list_drain (eval_step h) (map (\<lambda>c. (c, path)) es) st = Some (case r of Panic \<Rightarrow> Panic | Ret cs \<Rightarrow> Ret (fold add_result cs st))"
proof (induction path arbitrary: es)
  case (Cons seg path)
  obtain r' where r': "apply_all h seg es = Some r'" using Cons.prems by (cases "apply_all h seg es") auto
  show ?case
  proof (cases "path = []")
    case True
    then show ?thesis using level_last [OF r', of st] Cons.prems(2) r' by (cases r') auto
  next
    case False
    then show ?thesis using level_inner [OF False r', of "[]" st] Cons r' by (cases r') auto
  qed
qed simp

lemma traverse_levels:
  assumes "path \<noteq> []" "path_elems h path [e] = Some r"
  shows "traverse h e path = Some (case r of Panic \<Rightarrow> Panic | Ret cs \<Rightarrow> Ret (keep_first cs))"
proof -
  obtain q where q: "fifo_add (e, path) new_fifo = Ret q" "fifo_inv q" "fifo_contents q = [(e, path)]" by (rule ring_start)
  have "drain fifo_len fifo_remove (eval h) q ([], \<lambda>_. False)
      = Some (case r of Panic \<Rightarrow> Panic | Ret cs \<Rightarrow> Ret (fold add_result cs ([], \<lambda>_. False)))"
    using levels [OF assms, of "([], \<lambda>_. False)"] by (intro ring.drain_to_list [OF eval_follows _ q(2,3)]) simp
  then show ?thesis by (cases r) (simp_all add: traverse_def q(1) add_results)
qed

subsection \<open>Searching in a tree ends\<close>

text \<open>The way from a token of a tree up to its top.\<close>

fun rises :: "heap \<Rightarrow> addr \<Rightarrow> addr list \<Rightarrow> addr \<Rightarrow> bool" where
  "rises h b [] a \<longleftrightarrow> b = a"
| "rises h b (c # ps) a \<longleftrightarrow> c = b \<and> (\<exists>p. parent (h ! b) = Some p \<and> b \<in> set (child h p) \<and> rises h p ps a)"

lemma rises_append: "rises h b ps c \<Longrightarrow> rises h c qs a \<Longrightarrow> rises h b (ps @ qs) a"
  by (induction ps arbitrary: b) auto

lemma rises_nodes:
  "linked h \<Longrightarrow> repr h S a x \<Longrightarrow> b \<in> set (nodes h x a) \<Longrightarrow> \<exists>ps. rises h b ps a \<and> set ps \<subseteq> set (nodes h x a) - {a}"
proof (induction x arbitrary: a)
  case (XElement s t as xs)
  note c = element_children [OF XElement.prems(2)]
  show ?case
  proof (cases "b = a")
    case True
    then have "rises h b [] a" by simp
    then show ?thesis by (metis empty_set empty_subsetI)
  next
    case False
    then obtain i where i: "i < length xs" "b \<in> set (nodes h (xs ! i) (child h a ! i))"
      using XElement.prems(3) c(3) by (auto simp: nodes_list_mem)
    let ?c = "child h a ! i"
    obtain ps where ps: "rises h b ps ?c" "set ps \<subseteq> set (nodes h (xs ! i) ?c)"
      using XElement.IH [of "xs ! i" ?c] i c(4) XElement.prems(1) by auto
    have "rises h ?c [?c] a" using linked_child(2) [OF XElement.prems(1) c(1), of i] i(1) c(3) by simp
    moreover have "a \<notin> set (nodes_list h xs (child h a))"
      using nodes_distinct [OF XElement.prems(1,2)] by simp
    moreover have "set (ps @ [?c]) \<subseteq> set (nodes_list h xs (child h a))"
    proof -
      have "set (nodes h (xs ! i) ?c) \<subseteq> set (nodes_list h xs (child h a))" using i(1) c(3) by (auto simp: nodes_list_mem)
      then show ?thesis using ps(2) nodes_self [of ?c h "xs ! i"] by auto
    qed
    ultimately show ?thesis using rises_append [OF ps(1)] by (intro exI [of _ "ps @ [?c]"]) auto
  qed
qed (auto intro!: exI [of _ "[]"])

lemma up_steps:
  "parent (h ! b) = None \<Longrightarrow> find_root h b = Some b" "parent (h ! b) = Some p \<Longrightarrow> find_root h b = find_root h p"
  "parent (h ! b) = None \<Longrightarrow> \<exists>v. findLocalNamespaceURI h b prefix = Some v"
  "parent (h ! b) = Some p \<Longrightarrow> findLocalNamespaceURI h p prefix = Some v \<Longrightarrow> \<exists>v. findLocalNamespaceURI h b prefix = Some v"
  "parent (h ! b) = None \<Longrightarrow> \<exists>v. findDefaultNamespaceURI h b = Some v"
  "parent (h ! b) = Some p \<Longrightarrow> findDefaultNamespaceURI h p = Some v \<Longrightarrow> \<exists>v. findDefaultNamespaceURI h b = Some v"
  using find_root.simps [of h b] findLocalNamespaceURI.simps [of h b prefix] findDefaultNamespaceURI.simps [of h b]
  by (simp_all split: option.splits)

lemma rises_root: "rises h b ps a \<Longrightarrow> parent (h ! a) = None \<Longrightarrow> find_root h b = Some a"
  by (induction ps arbitrary: b) (auto simp: up_steps)

lemma rises_local: "rises h b ps a \<Longrightarrow> parent (h ! a) = None \<Longrightarrow> \<exists>v. findLocalNamespaceURI h b prefix = Some v"
  by (induction ps arbitrary: b) (use up_steps(3,4) in fastforce)+

lemma rises_default: "rises h b ps a \<Longrightarrow> parent (h ! a) = None \<Longrightarrow> \<exists>v. findDefaultNamespaceURI h b = Some v"
  by (induction ps arbitrary: b) (use up_steps(5,6) in fastforce)+

text \<open>The elements of a tree, and the search through all of them.\<close>

definition elems :: "heap \<Rightarrow> xml \<Rightarrow> addr \<Rightarrow> addr list" where
  "elems h x a = filter (is_Elem h) (nodes h x a)"

lemma nodes_list_append:
  "length q = length xs \<Longrightarrow> nodes_list h (xs @ ys) (q @ cs) = nodes_list h xs q @ nodes_list h ys cs"
  by (induction xs q rule: list_induct2') auto

lemma element_trees:
  "list_all2 (repr h S) cs ys \<Longrightarrow> \<exists>zs. list_all2 (repr h S) (filter (is_Elem h) cs) zs \<and> size_list size zs \<le> size_list size ys
     \<and> filter (is_Elem h) (nodes_list h zs (filter (is_Elem h) cs)) = filter (is_Elem h) (nodes_list h ys cs)"
proof (induction rule: list_all2_induct)
  case (Cons c cs y ys)
  then obtain zs where zs: "list_all2 (repr h S) (filter (is_Elem h) cs) zs" "size_list size zs \<le> size_list size ys"
    "filter (is_Elem h) (nodes_list h zs (filter (is_Elem h) cs)) = filter (is_Elem h) (nodes_list h ys cs)" by blast
  show ?case
  proof (cases "is_Elem h c")
    case True
    then show ?thesis using zs Cons.hyps by (intro exI [of _ "y # zs"]) simp
  next
    case False
    then have "nodes h y c = [c]" using repr_Elem [OF Cons.hyps(1)] by (cases y) auto
    then show ?thesis using zs False by (intro exI [of _ zs]) simp
  qed
qed simp

lemma descend_all:
  "list_all2 (repr h S) q xs \<Longrightarrow> \<forall>a \<in> set q. is_Elem h a \<Longrightarrow>
   \<exists>ds. list_drain (desc_step h) q acc = Some (Ret (acc @ ds)) \<and> mset ds = mset (filter (is_Elem h) (nodes_list h xs q))"
proof (induction "size_list size xs" arbitrary: q xs acc rule: less_induct)
  case less
  show ?case
  proof (cases q)
    case Nil
    then show ?thesis using less.prems by (simp add: list_drain_Nil)
  next
    case (Cons a q')
    then obtain x xs' where x: "xs = x # xs'" "repr h S a x" "list_all2 (repr h S) q' xs'" "is_Elem h a"
      using less.prems by (auto simp: list_all2_Cons1)
    then obtain s t as ys where e: "x = XElement s t as ys" using repr_Elem by blast
    have cs: "list_all2 (repr h S) (child h a) ys"
      using element_children(3,4) [OF x(2) [unfolded e]] by (simp add: list_all2_conv_all_nth)
    obtain zs where zs: "list_all2 (repr h S) (filter (is_Elem h) (child h a)) zs" "size_list size zs \<le> size_list size ys"
      "filter (is_Elem h) (nodes_list h zs (filter (is_Elem h) (child h a))) = filter (is_Elem h) (nodes_list h ys (child h a))"
      using element_trees [OF cs] by blast
    have "size_list size (xs' @ zs) < size_list size xs" using zs(2) by (simp add: x(1) e size_list_append)
    moreover have "\<forall>b \<in> set (q' @ filter (is_Elem h) (child h a)). is_Elem h b" using less.prems(2) Cons by auto
    ultimately obtain ds where ds: "list_drain (desc_step h) (q' @ filter (is_Elem h) (child h a)) (acc @ [a]) = Some (Ret (acc @ [a] @ ds))"
      "mset ds = mset (filter (is_Elem h) (nodes_list h (xs' @ zs) (q' @ filter (is_Elem h) (child h a))))"
      using less.hyps [OF _ list_all2_appendI [OF x(3) zs(1)], of "acc @ [a]"] by (metis append.assoc)
    have "mset (a # ds) = mset (filter (is_Elem h) (nodes_list h xs q))"
      using ds(2) x(4) zs(3) Cons list_all2_lengthD [OF x(3)] by (simp add: nodes_list_append x(1) e)
    then show ?thesis using ds(1) Cons by (intro exI [of _ "a # ds"]) (simp add: list_drain_Cons desc_step_def)
  qed
qed

lemma selectDescendants_all:
  assumes "repr h S e x" "is_Elem h e"
  shows "\<exists>ds. apply_selector h selectDescendants e = Some (Ret ds) \<and> mset ds = mset (elems h x e)"
proof -
  obtain q where q: "fifo_add e new_fifo = Ret q" "fifo_inv q" "fifo_contents q = [e]" by (rule ring_start)
  obtain ds where ds: "list_drain (desc_step h) [e] [] = Some (Ret ds)" "mset ds = mset (elems h x e)"
    using descend_all [of h S "[e]" "[x]" "[]"] assms by (auto simp: elems_def)
  have "drain fifo_len fifo_remove (descend h) q [] = Some (Ret ds)"
    using ds(1) by (intro ring.drain_to_list [OF desc_follows _ q(2,3)])
  then show ?thesis using ds(2) q(1) by (simp add: apply_selector_def)
qed

text \<open>A place to search from: the elements of a tree with no parent above it.\<close>

definition searchable :: "heap \<Rightarrow> xml \<Rightarrow> addr \<Rightarrow> bool" where
  "searchable h x a \<longleftrightarrow> linked h \<and> (\<exists>S. repr h S a x) \<and> is_Elem h a \<and> parent (h ! a) = None"

lemma elems_top: "searchable h x a \<Longrightarrow> a \<in> set (elems h x a)"
  by (simp add: searchable_def elems_def nodes_self)

lemma elems_tree:
  assumes "searchable h x a" "e \<in> set (elems h x a)"
  obtains S s t as ys where "repr h S e (XElement s t as ys)"
  proof -
  obtain S where "repr h S a x" using assms(1) by (auto simp: searchable_def)
  then obtain y where y: "repr h S e y" using nodes_repr assms(2) unfolding elems_def by fastforce
  moreover have "is_Elem h e" using assms(2) by (simp add: elems_def)
  ultimately show thesis using that repr_Elem [OF y] by blast
qed

lemma nodes_child:
  "repr h S a x \<Longrightarrow> e \<in> set (nodes h x a) \<Longrightarrow> is_Elem h e \<Longrightarrow> set (child h e) \<subseteq> set (nodes h x a)"
proof (induction x arbitrary: a)
  case (XElement s t as xs)
  note c = element_children [OF XElement.prems(1)]
  have sub: "set (nodes h (xs ! i) (child h a ! i)) \<subseteq> set (nodes h (XElement s t as xs) a)" if "i < length xs" for i
    using that c(3) by (auto simp: nodes_list_mem)
  show ?case
  proof (cases "e = a")
    case True
    show ?thesis
    proof
      fix b assume "b \<in> set (child h e)"
      then obtain i where "i < length xs" "b = child h a ! i" using True c(3) by (auto simp: in_set_conv_nth)
      then show "b \<in> set (nodes h (XElement s t as xs) a)" using sub [of i] nodes_self by fast
    qed
  next
    case False
    then obtain i where i: "i < length xs" "e \<in> set (nodes h (xs ! i) (child h a ! i))"
      using XElement.prems(2) c(3) by (auto simp: nodes_list_mem)
    then have "set (child h e) \<subseteq> set (nodes h (xs ! i) (child h a ! i))"
      using XElement.IH [of "xs ! i" "child h a ! i"] c(4) XElement.prems(3) by simp
    then show ?thesis using sub [OF i(1)] by (rule order_trans)
  qed
qed (auto simp: repr_Elem)

lemma elems_children: "searchable h x a \<Longrightarrow> e \<in> set (elems h x a) \<Longrightarrow> set (filter (is_Elem h) (child h e)) \<subseteq> set (elems h x a)"
  using nodes_child by (fastforce simp: elems_def searchable_def)

lemma elems_rise:
  assumes "searchable h x a" "e \<in> set (elems h x a)"
  obtains ps where "rises h e ps a" "set ps \<subseteq> set (nodes h x a) - {a}"
  proof -
  obtain S where "linked h" "repr h S a x" using assms(1) by (auto simp: searchable_def)
  then show thesis using that rises_nodes [of h S a x e] assms(2) by (auto simp: elems_def)
qed

lemma elems_parent:
  assumes "searchable h x a" "e \<in> set (elems h x a)" "parent (h ! e) = Some p"
  shows "p \<in> set (elems h x a)"
proof -
  obtain S where S: "linked h" "repr h S a x" "parent (h ! a) = None" using assms(1) by (auto simp: searchable_def)
  have "p \<in> set (nodes h x a)" using nodes_parent [OF S(1,2), of e] assms(2,3) S(3) by (cases "e = a") (auto simp: elems_def)
  moreover have "is_Elem h p"
  proof -
    obtain ps where "rises h e ps a" by (rule elems_rise [OF assms(1,2)])
    then show ?thesis using assms(3) S(3) by (cases ps) (auto intro!: child_Elem)
  qed
  ultimately show ?thesis by (simp add: elems_def)
qed

lemma below_elems:
  assumes "searchable h x a" "e \<in> set (elems h x a)" "repr h S e y"
  shows "set (elems h y e) \<subseteq> set (elems h x a)"
  using assms(2,3)
proof (induction y arbitrary: e)
  case (XElement s t as ys)
  note c = element_children [OF XElement.prems(2)]
  have "set (filter (is_Elem h) (nodes h (ys ! i) (child h e ! i))) \<subseteq> set (elems h x a)" if i: "i < length ys" for i
  proof (cases "is_Elem h (child h e ! i)")
    case True
    have "child h e ! i \<in> set (elems h x a)" using elems_children [OF assms(1) XElement.prems(1)] True i c(3) by auto
    then show ?thesis using XElement.IH [of "ys ! i" "child h e ! i"] c(4) [OF i] i by (simp add: elems_def)
  next
    case False
    then have "nodes h (ys ! i) (child h e ! i) = [child h e ! i]" using repr_Elem [OF c(4) [OF i]] by (cases "ys ! i") auto
    then show ?thesis using False by simp
  qed
  then show ?case using XElement.prems(1) c(3) by (auto simp: elems_def nodes_list_mem)
qed (auto simp: elems_def)

lemma selector_ends:
  assumes "searchable h x a" "e \<in> set (elems h x a)"
  shows "\<exists>cs. apply_selector h s e = Some (Ret cs) \<and> set cs \<subseteq> set (elems h x a)"
proof -
  obtain ps where ps: "rises h e ps a" by (rule elems_rise [OF assms])
  have top: "parent (h ! a) = None" using assms(1) by (simp add: searchable_def)
  note ch = elems_children [OF assms]
  show ?thesis
  proof (cases s)
    case selectRoot
    then show ?thesis using rises_root [OF ps top] elems_top [OF assms(1)] by (simp add: apply_selector_def)
  next
    case selectParent
    then show ?thesis using elems_parent [OF assms] by (auto simp: apply_selector_def split: option.splits)
  next
    case selectDescendants
    obtain S sp t as ys where r: "repr h S e (XElement sp t as ys)" by (rule elems_tree [OF assms])
    have "is_Elem h e" using assms(2) by (simp add: elems_def)
    from selectDescendants_all [OF r this] obtain ds where "apply_selector h selectDescendants e = Some (Ret ds)"
      "mset ds = mset (elems h (XElement sp t as ys) e)" by blast
    moreover have "set ds = set (elems h (XElement sp t as ys) e)" using \<open>mset ds = _\<close> by (metis set_mset_mset)
    ultimately show ?thesis using selectDescendants below_elems [OF assms r] by simp
  next
    case (selectChildrenByTag sp t)
    then show ?thesis using ch by (auto simp: apply_selector_def elem_match_def)
  qed (use ch assms(2) in \<open>simp_all add: apply_selector_def\<close>)
qed

lemma filter_fn_ends:
  assumes "searchable h x a" "set cs \<subseteq> set (elems h x a)"
  shows "\<exists>ds. filter_fn h fn P cs = Some ds \<and> set ds \<subseteq> set cs"
  using assms(2)
proof (induction cs)
  case (Cons c cs)
  obtain ps where ps: "rises h c ps a" by (rule elems_rise [OF assms(1), of c]) (use Cons.prems in simp)
  have top: "parent (h ! a) = None" using assms(1) by (simp add: searchable_def)
  have "\<exists>v. fn_value h fn c = Some v"
    using rises_local [OF ps top] rises_default [OF ps top] by (cases fn) (simp_all add: fn_value_def NamespaceURI_def)
  then show ?case using Cons by auto
qed simp

text \<open>The one filter that panics asks for the position that has no opposite among the 64 bit integers.\<close>

definition safe_filter :: "path_filter option \<Rightarrow> bool" where
  "safe_filter f \<longleftrightarrow> (case f of None \<Rightarrow> False | Some (filterPos i) \<Rightarrow> - (2 ^ 63) < i \<and> i < 2 ^ 63 | _ \<Rightarrow> True)"

lemma filter_ends:
  assumes "searchable h x a" "set cs \<subseteq> set (elems h x a)" "safe_filter f"
  shows "\<exists>ds. apply_filter h f cs = Some (Ret ds) \<and> set ds \<subseteq> set cs"
proof -
  obtain g where f: "f = Some g" using assms(3) by (cases f) (simp_all add: safe_filter_def)
  show ?thesis
  proof (cases g)
    case (filterPos i)
    then have "- (2 ^ 63) < i" "i < 2 ^ 63" using assms(3) f by (simp_all add: safe_filter_def)
    then have "signed_take_bit 63 (- i) = - i" by (intro signed_take_bit_int_eq_self) simp_all
    then show ?thesis using filterPos f by (auto simp: apply_filter_def)
  next
    case (filterFunc fn)
    then show ?thesis using filter_fn_ends [OF assms(1,2), of fn "\<lambda>v. v \<noteq> []"] f by (auto simp: apply_filter_def)
  next
    case (filterFuncVal fn v)
    then show ?thesis using filter_fn_ends [OF assms(1,2), of fn "\<lambda>w. w = v"] f by (auto simp: apply_filter_def)
  qed (auto simp: apply_filter_def f)
qed

lemma filters_end:
  "searchable h x a \<Longrightarrow> set cs \<subseteq> set (elems h x a) \<Longrightarrow> \<forall>f \<in> set fs. safe_filter f \<Longrightarrow>
   \<exists>ds. apply_filters h fs cs = Some (Ret ds) \<and> set ds \<subseteq> set (elems h x a)"
proof (induction fs arbitrary: cs)
  case (Cons f fs)
  obtain ds where "apply_filter h f cs = Some (Ret ds)" "set ds \<subseteq> set cs" using filter_ends [OF Cons.prems(1,2), of f] Cons.prems(3) by auto
  then show ?case using Cons.IH [OF Cons.prems(1), of ds] Cons.prems by auto
qed simp

definition safe_path :: "segment list \<Rightarrow> bool" where
  "safe_path path \<longleftrightarrow> (\<forall>seg \<in> set path. \<forall>f \<in> set (filters seg). safe_filter f)"

lemma apply_all_ends:
  assumes "searchable h x a" "set es \<subseteq> set (elems h x a)" "\<forall>f \<in> set (filters seg). safe_filter f"
  shows "\<exists>ds. apply_all h seg es = Some (Ret ds) \<and> set ds \<subseteq> set (elems h x a)"
  using assms(2)
proof (induction es)
  case (Cons e es)
  then have e: "e \<in> set (elems h x a)" by simp
  obtain cs where cs: "apply_selector h (sel seg) e = Some (Ret cs)" "set cs \<subseteq> set (elems h x a)"
    using selector_ends [OF assms(1) e] by blast
  obtain ds where "apply_filters h (filters seg) cs = Some (Ret ds)" "set ds \<subseteq> set (elems h x a)"
    using filters_end [OF assms(1) cs(2) assms(3)] by blast
  then show ?case using Cons cs(1) by (auto simp: segment_apply_def)
qed simp

lemma path_ends:
  "searchable h x a \<Longrightarrow> set es \<subseteq> set (elems h x a) \<Longrightarrow> safe_path path \<Longrightarrow>
   \<exists>ds. path_elems h path es = Some (Ret ds) \<and> set ds \<subseteq> set (elems h x a)"
proof (induction path arbitrary: es)
  case (Cons seg path)
  obtain cs where "apply_all h seg es = Some (Ret cs)" "set cs \<subseteq> set (elems h x a)"
    using apply_all_ends [OF Cons.prems(1,2), of seg] Cons.prems(3) by (auto simp: safe_path_def)
  then show ?case using Cons.IH [OF Cons.prems(1), of cs] Cons.prems(3) by (simp add: safe_path_def)
qed simp

lemma keep_first_set: "set (keep_first cs) = set cs" "distinct (keep_first cs)"
  by (simp_all add: keep_first_def)

lemma traverse_ends:
  assumes "searchable h x a" "e \<in> set (elems h x a)" "safe_path path" "path \<noteq> []"
  shows "\<exists>es cs. traverse h e path = Some (Ret es) \<and> path_elems h path [e] = Some (Ret cs) \<and> es = keep_first cs \<and> set es \<subseteq> set (elems h x a)"
proof -
  obtain cs where cs: "path_elems h path [e] = Some (Ret cs)" "set cs \<subseteq> set (elems h x a)"
    using path_ends [OF assms(1) _ assms(3), of "[e]"] assms(2) by auto
  then show ?thesis using traverse_levels [OF assms(4) cs(1)] by (simp add: keep_first_set)
qed

subsection \<open>Compiled paths\<close>

text \<open>Positions in a compiled path are 64 bit integers, and no filter is missing.\<close>

definition ok_filter :: "path_filter option \<Rightarrow> bool" where
  "ok_filter f \<longleftrightarrow> (case f of None \<Rightarrow> False | Some (filterPos i) \<Rightarrow> - (2 ^ 63) \<le> i \<and> i < 2 ^ 63 | _ \<Rightarrow> True)"

lemma digits_value_nonneg: "list_all digit ds \<Longrightarrow> 0 \<le> digits_value ds"
proof (induction ds rule: rev_induct)
  case (snoc d ds)
  then show ?case by (simp add: digits_value_def digit_def)
qed (simp add: digits_value_def)

lemma enumerate_pos: "0 < n \<Longrightarrow> list_all (\<lambda>(i, c). P c \<or> i = 0 \<and> Q c) (enumerate n cs) \<longleftrightarrow> list_all P cs"
  by (induction cs arbitrary: n) auto

lemma Atoi_bounds: "isInteger s \<Longrightarrow> - (2 ^ 63) \<le> Atoi s \<and> Atoi s < 2 ^ 63"
proof (cases s)
  case (Cons c cs)
  assume "isInteger s"
  then have "list_all digit cs" "digit c \<or> c = CHR ''-''"
    using enumerate_pos [of 1 digit "\<lambda>c. c = CHR ''-''" cs] by (auto simp: isInteger_def Cons)
  then show ?thesis using digits_value_nonneg [of cs] digits_value_nonneg [of s] by (auto simp: Atoi_def Cons)
qed (simp add: Atoi_def)

lemma parseFilter_ok: "parseFilter s = Ret (f, None) \<Longrightarrow> ok_filter f"
  using Atoi_bounds [of s]
  by (auto simp: parseFilter_def ok_filter_def Let_def split: if_splits option.splits prod.splits)

lemma parse_filters_step:
  assumes "parse_filters (p # ps) fs err = Ret (fs', None)"
  obtains f e where "parseFilter (butlast p) = Ret (f, e)" "parse_filters ps (fs @ [f]) (if e = None then err else e) = Ret (fs', None)"
  using assms by (auto split: if_splits outcome.splits)

lemma parse_filters_err: "parse_filters ps fs err = Ret (fs', None) \<Longrightarrow> err = None"
proof (induction ps arbitrary: fs err)
  case (Cons p ps)
  obtain f e where "parse_filters ps (fs @ [f]) (if e = None then err else e) = Ret (fs', None)" by (rule parse_filters_step [OF Cons.prems])
  from Cons.IH [OF this] show ?case by (simp split: if_splits)
qed simp

lemma parse_filters_ok: "parse_filters ps fs err = Ret (fs', None) \<Longrightarrow> \<forall>f \<in> set fs. ok_filter f \<Longrightarrow> \<forall>f \<in> set fs'. ok_filter f"
proof (induction ps arbitrary: fs err)
  case (Cons p ps)
  obtain f e where f: "parseFilter (butlast p) = Ret (f, e)" "parse_filters ps (fs @ [f]) (if e = None then err else e) = Ret (fs', None)"
    by (rule parse_filters_step [OF Cons.prems(1)])
  have "e = None" using parse_filters_err [OF f(2)] by (simp split: if_splits)
  then have "\<forall>g \<in> set (fs @ [f]). ok_filter g" using Cons.prems(2) f(1) parseFilter_ok by auto
  then show ?case by (rule Cons.IH [OF f(2)])
qed simp

definition ok_path :: "segment list \<Rightarrow> bool" where
  "ok_path path \<longleftrightarrow> (\<forall>seg \<in> set path. \<forall>f \<in> set (filters seg). ok_filter f)"

lemma parse_segments_length: "parse_segments ss segs = Ret (path, None) \<Longrightarrow> length path = length segs + length ss"
  by (induction ss arbitrary: segs) (fastforce split: outcome.splits option.splits)+

lemma parse_segments_ok:
  "parse_segments ss segs = Ret (path, None) \<Longrightarrow> ok_path segs \<Longrightarrow> ok_path path"
proof (induction ss arbitrary: segs)
  case (Cons s ss)
  obtain seg where seg: "parseSegment s = Ret (seg, None)" "parse_segments ss (segs @ [seg]) = Ret (path, None)"
    using Cons.prems(1) by (auto split: outcome.splits option.splits)
  have "\<forall>f \<in> set (filters seg). ok_filter f"
    using seg(1) parse_filters_ok [of "tl (split_byte (CHR ''['') s)" "[]" None] by (auto simp: parseSegment_def Let_def split: outcome.splits)
  then have "ok_path (segs @ [seg])" using Cons.prems(2) by (auto simp: ok_path_def)
  then show ?case by (rule Cons.IH [OF seg(2)])
qed simp

lemma compile_ok: "CompilePath p = Ret (Inr path) \<Longrightarrow> ok_path path \<and> path \<noteq> []"
proof -
  assume "CompilePath p = Ret (Inr path)"
  then have "parsePath p = Ret (path, None)" by (auto simp: CompilePath_def split: outcome.splits option.splits)
  then obtain s segs where s: "parse_segments (splitPath s) segs = Ret (path, None)" "ok_path segs"
    by (auto simp: parsePath_def Let_def ok_path_def split: if_splits)
  have "split_path q cur s \<noteq> []" for q cur by (induction s arbitrary: q cur) simp_all
  then show ?thesis using parse_segments_ok [OF s] parse_segments_length [OF s(1)] by (auto simp: splitPath_def)
qed

definition min_pos :: path_filter where
  "min_pos = filterPos (- (2 ^ 63))"

lemma ok_safe: "ok_path path \<Longrightarrow> \<forall>seg \<in> set path. Some min_pos \<notin> set (filters seg) \<Longrightarrow> safe_path path"
proof -
  assume a: "ok_path path" "\<forall>seg \<in> set path. Some min_pos \<notin> set (filters seg)"
  have "safe_filter f" if "ok_filter f" "f \<noteq> Some min_pos" for f
    using that by (cases f) (auto simp: ok_filter_def safe_filter_def min_pos_def split: path_filter.splits)
  then show "safe_path path" using a unfolding ok_path_def safe_path_def by blast
qed

end
