(* ===== verification/Xml_Relative.thy ===== *)
theory Xml_Relative
  imports Xml_Traverse
begin

section \<open>Package goxml: paths of elements lead back to them\<close>

text \<open>
  \<^verbatim>\<open>GetPath\<close> and \<^verbatim>\<open>GetRelativePath\<close> of \<^verbatim>\<open>goxml/goxml.go\<close> print a path, \<^verbatim>\<open>CompilePath\<close> of \<^verbatim>\<open>goxml/path.go\<close> reads it.
  Where tags are plain, the element is among those a search for its own path finds.
\<close>

subsection \<open>Compiling what was joined\<close>

definition clean :: "string \<Rightarrow> bool" where
  "clean s \<longleftrightarrow> s \<noteq> [] \<and> CHR ''/'' \<notin> set s \<and> CHR ''['' \<notin> set s \<and> sq \<notin> set s"

definition plain_tag :: "string \<Rightarrow> bool" where
  "plain_tag t \<longleftrightarrow> clean t \<and> CHR '':'' \<notin> set t \<and> t \<noteq> ''.'' \<and> t \<noteq> ''..'' \<and> t \<noteq> ''*''"

definition bare :: "selector \<Rightarrow> segment" where
  "bare s = \<lparr>sel = s, filters = []\<rparr>"

lemma split_path_clean: "CHR ''/'' \<notin> set s \<Longrightarrow> sq \<notin> set s \<Longrightarrow> split_path False cur (s @ rest) = split_path False (cur @ s) rest"
  by (induction s arbitrary: cur) auto

lemma splitPath_join: "ss \<noteq> [] \<Longrightarrow> \<forall>s \<in> set ss. clean s \<Longrightarrow> splitPath (strings_Join ss ''/'') = ss"
  unfolding splitPath_def
proof (induction ss "''/'' :: string" rule: strings_Join.induct)
  case (2 s)
  then show ?case using split_path_clean [of s "[]" "[]"] by (simp add: clean_def)
next
  case (3 s t ts)
  then show ?case using split_path_clean [of s "[]" "''/'' @ strings_Join (t # ts) ''/''"] by (simp add: clean_def)
qed simp

lemma split_byte_none: "c \<notin> set s \<Longrightarrow> split_byte c s = [s]"
  by (induction s) auto

lemma parseSegment_clean: "clean s \<Longrightarrow> parseSegment s = Ret (bare (parseSelector s), None)"
  by (simp add: parseSegment_def clean_def split_byte_none bare_def)

lemma parse_segments_clean:
  "\<forall>s \<in> set ss. clean s \<Longrightarrow> parse_segments ss segs = Ret (segs @ map (bare \<circ> parseSelector) ss, None)"
  by (induction ss arbitrary: segs) (simp_all add: parseSegment_clean)

lemma join_ends: "ss \<noteq> [] \<Longrightarrow> \<forall>s \<in> set ss. clean s \<Longrightarrow>
  strings_Join ss ''/'' \<noteq> [] \<and> hd (strings_Join ss ''/'') \<noteq> CHR ''/'' \<and> last (strings_Join ss ''/'') \<noteq> CHR ''/''"
proof (induction ss "''/'' :: string" rule: strings_Join.induct)
  case (3 s t ts)
  then show ?case by (cases s) (auto simp: clean_def)
qed (auto simp: clean_def dest: hd_in_set last_in_set)

lemma no_slashes: "last s \<noteq> CHR ''/'' \<Longrightarrow> \<not> has_suffix s ''//''"
proof
  assume "last s \<noteq> CHR ''/''" "has_suffix s ''//''"
  then have d: "drop (length s - 2) s = ''//''" by (simp add: has_suffix_def numeral_2_eq_2)
  have "s = take (length s - 2) s @ ''//''" using append_take_drop_id [of "length s - 2" s] unfolding d by simp
  then have "last s = CHR ''/''" by (metis last.simps last_appendR list.distinct(1))
  then show False using \<open>last s \<noteq> CHR ''/''\<close> by simp
qed

lemma compile_join:
  assumes "ss \<noteq> []" "\<forall>s \<in> set ss. clean s"
  shows "MustCompilePath (strings_Join ss ''/'') = Ret (map (bare \<circ> parseSelector) ss)"
    and "MustCompilePath (''/'' @ strings_Join ss ''/'') = Ret (bare selectRoot # map (bare \<circ> parseSelector) ss)"
proof -
  let ?p = "strings_Join ss ''/''"
  note e = join_ends [OF assms]
  have t: "take 1 ?p \<noteq> ''/''" using e by (cases ?p) auto
  have s: "\<not> has_suffix ?p ''//''" "\<not> has_suffix (''/'' @ ?p) ''//''" using e by (simp_all add: no_slashes)
  show "MustCompilePath ?p = Ret (map (bare \<circ> parseSelector) ss)"
    using t s(1) by (simp add: MustCompilePath_def CompilePath_def parsePath_def splitPath_join [OF assms] parse_segments_clean [OF assms(2)])
  show "MustCompilePath (''/'' @ ?p) = Ret (bare selectRoot # map (bare \<circ> parseSelector) ss)"
    using s(2) by (simp add: MustCompilePath_def CompilePath_def parsePath_def splitPath_join [OF assms] parse_segments_clean [OF assms(2)] bare_def)
qed

subsection \<open>Where selectors lead\<close>

fun leads :: "heap \<Rightarrow> selector list \<Rightarrow> addr \<Rightarrow> addr \<Rightarrow> bool" where
  "leads h [] a b \<longleftrightarrow> a = b"
| "leads h (s # ss) a b \<longleftrightarrow> (\<exists>cs c. apply_selector h s a = Some (Ret cs) \<and> c \<in> set cs \<and> leads h ss c b)"

lemma leads_append: "leads h ss a c \<Longrightarrow> leads h ts c b \<Longrightarrow> leads h (ss @ ts) a b"
  by (induction ss arbitrary: a) auto

lemma apply_all_mem:
  "apply_all h (bare s) es = Some (Ret ds) \<Longrightarrow> e \<in> set es \<Longrightarrow> apply_selector h s e = Some (Ret cs) \<Longrightarrow> set cs \<subseteq> set ds"
proof (induction es arbitrary: ds)
  case (Cons x es)
  then show ?case
    by (cases "apply_selector h s x"; cases "apply_all h (bare s) es")
      (auto simp: segment_apply_def bare_def bind_res_def split: outcome.splits)
qed simp

lemma leads_found:
  "path_elems h (map bare ss) es = Some (Ret cs) \<Longrightarrow> a \<in> set es \<Longrightarrow> leads h ss a b \<Longrightarrow> b \<in> set cs"
proof (induction ss arbitrary: es a)
  case (Cons s ss)
  obtain ds where ds: "apply_all h (bare s) es = Some (Ret ds)" "path_elems h (map bare ss) ds = Some (Ret cs)"
    using Cons.prems(1) by (auto simp: bind_res_def split: option.splits outcome.splits)
  obtain as c where "apply_selector h s a = Some (Ret as)" "c \<in> set as" "leads h ss c b" using Cons.prems(3) by auto
  then show ?case using Cons.IH [OF ds(2)] apply_all_mem [OF ds(1) Cons.prems(2)] by blast
qed simp

lemma leads_search:
  assumes "searchable h x r" "a \<in> set (elems h x r)" "leads h ss a b" "ss \<noteq> []" "MustCompilePath p = Ret (map bare ss)"
  shows "\<exists>es. FindElements h a p = Some (Ret es) \<and> b \<in> set es"
proof -
  have "safe_path (map bare ss)" by (simp add: safe_path_def bare_def)
  then obtain es cs where "traverse h a (map bare ss) = Some (Ret es)" "path_elems h (map bare ss) [a] = Some (Ret cs)" "es = keep_first cs"
    using traverse_ends [OF assms(1,2), of "map bare ss"] assms(4) by auto
  then show ?thesis using leads_found [of h ss "[a]" cs a b] assms(3,5) by (simp add: FindElements_def FindElementsPath_def keep_first_set)
qed

subsection \<open>The way up and down\<close>

lemma rises_up: "rises h b ps a \<Longrightarrow> leads h (replicate (length ps) selectParent) b a"
  by (induction ps arbitrary: b) (auto simp: apply_selector_def)

lemma parse_plain: "plain_tag t \<Longrightarrow> parseSelector t = selectChildrenByTag [] t"
proof -
  assume "plain_tag t"
  moreover from this have "spaceDecompose t = ([], t)"
    by (simp add: plain_tag_def spaceDecompose_def index_byte_None [THEN iffD2])
  ultimately show ?thesis by (simp add: parseSelector_def plain_tag_def clean_def)
qed

lemma rises_down:
  "rises h b ps a \<Longrightarrow> \<forall>c \<in> set ps. is_Elem h c \<and> plain_tag (tag h c) \<Longrightarrow> leads h (map (parseSelector \<circ> tag h) (rev ps)) a b"
proof (induction ps arbitrary: b)
  case (Cons c ps)
  then obtain p where p: "c = b" "b \<in> set (child h p)" "rises h p ps a" by auto
  have "leads h [parseSelector (tag h b)] p b"
    using Cons.prems(2) p(1,2) by (auto simp: parse_plain apply_selector_def elem_match_def spaceMatch_def)
  then show ?case using Cons.IH [OF p(3)] Cons.prems(2) p(1) leads_append by simp
qed simp

lemma rises_split: "rises h b ps a \<Longrightarrow> c \<in> set (ps @ [a]) \<Longrightarrow> \<exists>qs. rises h b qs c \<and> c \<notin> set qs \<and> set qs \<subseteq> set ps"
proof (induction ps arbitrary: b)
  case Nil
  then show ?case by (intro exI [of _ "[]"]) simp
next
  case (Cons d ps)
  show ?case
  proof (cases "c = b")
    case True
    then show ?thesis by (intro exI [of _ "[]"]) simp
  next
    case False
    then obtain p qs where "d = b" "parent (h ! b) = Some p" "b \<in> set (child h p)" "rises h p qs c" "c \<notin> set qs" "set qs \<subseteq> set ps"
      using Cons by fastforce
    then show ?thesis using False by (intro exI [of _ "b # qs"]) auto
  qed
qed

lemma rises_first:
  "rises h b ps a \<Longrightarrow> a \<in> P \<Longrightarrow> \<exists>qs c. rises h b qs c \<and> c \<in> P \<and> set qs \<inter> P = {} \<and> set qs \<subseteq> set ps"
proof (induction ps arbitrary: b)
  case Nil
  then show ?case by (intro exI [of _ "[]"] exI [of _ a]) simp
next
  case (Cons d ps)
  show ?case
  proof (cases "b \<in> P")
    case True
    then show ?thesis by (intro exI [of _ "[]"] exI [of _ b]) simp
  next
    case False
    then obtain p qs c where "d = b" "parent (h ! b) = Some p" "b \<in> set (child h p)" "rises h p qs c" "c \<in> P" "set qs \<inter> P = {}" "set qs \<subseteq> set ps"
      using Cons by fastforce
    then show ?thesis using False by (intro exI [of _ "b # qs"] exI [of _ c]) auto
  qed
qed

lemma rises_take: "rises h b ps a \<Longrightarrow> i \<le> length ps \<Longrightarrow> rises h b (take i (ps @ [a])) ((ps @ [a]) ! i)"
proof (induction ps arbitrary: b i)
  case (Cons c ps)
  then show ?case by (cases i) auto
qed simp

lemma walk_steps:
  "walk_to h src None acc = Some (acc, None)" "walk_to h src (Some src) acc = Some (acc, Some src)"
  "a \<noteq> src \<Longrightarrow> walk_to h src (Some a) acc = walk_to h src (parent (h ! a)) (acc @ [a])"
  using walk_to.simps [of h src _ acc] by simp_all

lemma walk_found: "rises h e ps src \<Longrightarrow> src \<notin> set ps \<Longrightarrow> walk_to h src (Some e) acc = Some (acc @ ps, Some src)"
  by (induction ps arbitrary: e acc) (auto simp: walk_steps)

lemma walk_miss: "rises h e ps r \<Longrightarrow> parent (h ! r) = None \<Longrightarrow> src \<notin> set (ps @ [r]) \<Longrightarrow> walk_to h src (Some e) acc = Some (acc @ ps @ [r], None)"
  by (induction ps arbitrary: e acc) (auto simp: walk_steps)

lemma findPathIndex_found: "a \<in> set path \<Longrightarrow> \<exists>i < length path. findPathIndex a path = Some i \<and> path ! i = a"
  by (induction path) (auto simp: less_Suc_eq_0_disj)

lemma findPathIndex_none: "findPathIndex a path = None \<longleftrightarrow> a \<notin> set path"
  by (induction path) auto

lemma climb_found:
  "rises h s qs c \<Longrightarrow> set qs \<inter> set path = {} \<Longrightarrow> findPathIndex c path = Some i \<Longrightarrow> climb_to h path (Some s) n = Some (n + length qs, Some i)"
proof (induction qs arbitrary: s n)
  case Nil
  then show ?case using climb_to.simps [of h path "Some s" n] by simp
next
  case (Cons q qs)
  then obtain p where p: "q = s" "parent (h ! s) = Some p" "rises h p qs c" by auto
  have "findPathIndex s path = None" using Cons.prems(2) p(1) by (simp add: findPathIndex_none)
  then show ?case using climb_to.simps [of h path "Some s" n] Cons.IH [OF p(3), of "Suc n"] Cons.prems(2,3) p(2) by simp
qed

lemma clean_dots: "clean ''.''" "clean ''..''" "parseSelector ''.'' = selectSelf" "parseSelector ''..'' = selectParent"
  by (simp_all add: clean_def parseSelector_def)

lemma dots_up: "map parseSelector (replicate n ''..'') = replicate n selectParent"
  by (simp add: clean_dots)

text \<open>Ways up inside a tree whose tags, below the top, are plain.\<close>

definition plain_below :: "heap \<Rightarrow> xml \<Rightarrow> addr \<Rightarrow> bool" where
  "plain_below h x r \<longleftrightarrow> (\<forall>c \<in> set (elems h x r). c \<noteq> r \<longrightarrow> plain_tag (tag h c))"

lemma rises_elems:
  "rises h b ps a \<Longrightarrow> is_Elem h b \<Longrightarrow> set ps \<subseteq> set (nodes h x r) - {r} \<Longrightarrow> plain_below h x r \<Longrightarrow>
   \<forall>c \<in> set ps. is_Elem h c \<and> plain_tag (tag h c)"
proof (induction ps arbitrary: b)
  case (Cons c ps)
  then obtain p where p: "c = b" "b \<in> set (child h p)" "rises h p ps a" by auto
  have "is_Elem h p" using p(2) by (auto intro!: child_Elem)
  moreover have "is_Elem h b" "b \<in> set (nodes h x r)" "b \<noteq> r" "set ps \<subseteq> set (nodes h x r) - {r}" using Cons.prems(2,3) p(1) by simp_all
  moreover have "plain_tag (tag h b)" using calculation(2-4) Cons.prems(4) by (simp add: plain_below_def elems_def)
  ultimately show ?case using Cons.IH [OF p(3)] Cons.prems(4) p(1) by simp
qed simp

lemma plain_clean: "\<forall>c \<in> set ps. is_Elem h c \<and> plain_tag (tag h c) \<Longrightarrow> \<forall>s \<in> set (map (tag h) (rev ps)). clean s"
  by (auto simp: plain_tag_def)

lemma rises_plain:
  assumes "searchable h x r" "e \<in> set (elems h x r)" "plain_below h x r"
  obtains ps where "rises h e ps r" "\<forall>c \<in> set ps. is_Elem h c \<and> plain_tag (tag h c)"
proof -
  obtain ps where "rises h e ps r" "set ps \<subseteq> set (nodes h x r) - {r}" by (rule elems_rise [OF assms(1,2)])
  then show thesis using that rises_elems [of h e ps r x r] assms(2,3) by (simp add: elems_def)
qed

lemma relative_below:
  assumes "rises h e ps src" "src \<notin> set ps" "\<forall>c \<in> set ps. is_Elem h c \<and> plain_tag (tag h c)"
  shows "GetRelativePath h e (Some src) = Some (strings_Join (''.'' # map (tag h) (rev ps)) ''/'')"
    and "leads h (map parseSelector (''.'' # map (tag h) (rev ps))) src e"
proof -
  show "GetRelativePath h e (Some src) = Some (strings_Join (''.'' # map (tag h) (rev ps)) ''/'')"
    using walk_found [OF assms(1,2), of "[]"] by (cases "rev ps") (auto simp: GetRelativePath_def)
  show "leads h (map parseSelector (''.'' # map (tag h) (rev ps))) src e"
    using rises_down [OF assms(1,3)] by (simp add: clean_dots apply_selector_def comp_def)
qed

lemma relative_across:
  assumes "rises h e ps r" "rises h src qs r" "parent (h ! r) = None" "src \<notin> set (ps @ [r])"
    and "\<forall>c \<in> set ps. is_Elem h c \<and> plain_tag (tag h c)"
  shows "\<exists>n i. GetRelativePath h e (Some src) = Some (strings_Join (replicate (Suc n) ''..'' @ map (tag h) (rev (take i ps))) ''/'')
    \<and> leads h (map parseSelector (replicate (Suc n) ''..'' @ map (tag h) (rev (take i ps)))) src e"
proof -
  let ?path = "ps @ [r]"
  obtain pre c where c: "rises h src pre c" "c \<in> set ?path" "set pre \<inter> set ?path = {}"
    using rises_first [OF assms(2), of "set ?path"] by auto
  obtain i where i: "i < length ?path" "findPathIndex c ?path = Some i" "?path ! i = c"
    using findPathIndex_found [OF c(2)] by blast
  then have t: "take i ?path = take i ps" by simp
  obtain n where n: "length pre = Suc n" using c(1,2) assms(4) by (cases pre) auto
  have r: "rises h e (take i ps) c" using rises_take [OF assms(1), of i] i t by simp
  have w: "walk_to h src (Some e) [] = Some (?path, None)" using walk_miss [OF assms(1,3,4), of "[]"] by simp
  have g: "GetRelativePath h e (Some src) = Some (strings_Join (replicate (Suc n) ''..'' @ map (tag h) (rev (take i ps))) ''/'')"
    using climb_found [OF c(1,3) i(2), of 0] using i(1) by (simp add: GetRelativePath_def w n)
  have "leads h (map (parseSelector \<circ> tag h) (rev (take i ps))) c e"
    using rises_down [OF r] assms(5) by (meson in_set_takeD)
  then have "leads h (replicate (Suc n) selectParent @ map (parseSelector \<circ> tag h) (rev (take i ps))) src e"
    using rises_up [OF c(1)] unfolding n by (rule leads_append [rotated])
  then show ?thesis using g by (intro exI [of _ n] exI [of _ i]) (simp only: map_append dots_up map_map simp_thms)
qed

lemma relative_path_leads:
  assumes "searchable h x r" "e \<in> set (elems h x r)" "src \<in> set (elems h x r)" "plain_below h x r"
  shows "\<exists>ss. GetRelativePath h e (Some src) = Some (strings_Join ss ''/'') \<and> ss \<noteq> [] \<and> (\<forall>s \<in> set ss. clean s)
    \<and> leads h (map parseSelector ss) src e"
proof -
  obtain ps where ps: "rises h e ps r" "\<forall>c \<in> set ps. is_Elem h c \<and> plain_tag (tag h c)" by (rule rises_plain [OF assms(1,2,4)])
  obtain qs where qs: "rises h src qs r" by (rule elems_rise [OF assms(1,3)])
  show ?thesis
  proof (cases "src \<in> set (ps @ [r])")
    case True
    then obtain us where us: "rises h e us src" "src \<notin> set us" "set us \<subseteq> set ps" using rises_split [OF ps(1)] by blast
    then have p: "\<forall>c \<in> set us. is_Elem h c \<and> plain_tag (tag h c)" using ps(2) by blast
    show ?thesis
      using relative_below [OF us(1,2) p] plain_clean [OF p] clean_dots
      by (intro exI [of _ "''.'' # map (tag h) (rev us)"]) simp
  next
    case False
    have "parent (h ! r) = None" using assms(1) by (simp add: searchable_def)
    from relative_across [OF ps(1) qs this False ps(2)] obtain n i where
      ni: "GetRelativePath h e (Some src) = Some (strings_Join (replicate (Suc n) ''..'' @ map (tag h) (rev (take i ps))) ''/'')"
      "leads h (map parseSelector (replicate (Suc n) ''..'' @ map (tag h) (rev (take i ps)))) src e" by blast
    have "\<forall>s \<in> set (map (tag h) (rev (take i ps))). clean s" using ps(2) by (intro plain_clean) (meson in_set_takeD)
    then show ?thesis using ni clean_dots
      by (intro exI [of _ "replicate (Suc n) ''..'' @ map (tag h) (rev (take i ps))"]) auto
  qed
qed

text \<open>Paths from the root: a document is an element without a tag, which the path leaves out.\<close>

lemma path_tags_steps:
  "path_tags h None acc = Some acc"
  "path_tags h (Some a) acc = path_tags h (parent (h ! a)) (if tag h a \<noteq> [] then acc @ [tag h a] else acc)"
  using path_tags.simps [of h None acc] path_tags.simps [of h "Some a" acc] by simp_all

lemma path_tags_rises:
  "rises h e ps r \<Longrightarrow> parent (h ! r) = None \<Longrightarrow> tag h r = [] \<Longrightarrow> \<forall>c \<in> set ps. is_Elem h c \<and> plain_tag (tag h c) \<Longrightarrow>
   path_tags h (Some e) acc = Some (acc @ map (tag h) ps)"
  by (induction ps arbitrary: e acc) (auto simp: path_tags_steps plain_tag_def clean_def)

lemma absolute_path_leads:
  assumes "searchable h x r" "e \<in> set (elems h x r)" "src \<in> set (elems h x r)" "plain_below h x r" "tag h r = []" "e \<noteq> r"
  shows "\<exists>ss. GetPath h e = Some (''/'' @ strings_Join ss ''/'') \<and> ss \<noteq> [] \<and> (\<forall>s \<in> set ss. clean s)
    \<and> leads h (selectRoot # map parseSelector ss) src e"
proof -
  obtain ps where ps: "rises h e ps r" "\<forall>c \<in> set ps. is_Elem h c \<and> plain_tag (tag h c)" by (rule rises_plain [OF assms(1,2,4)])
  obtain qs where qs: "rises h src qs r" by (rule elems_rise [OF assms(1,3)])
  have top: "parent (h ! r) = None" using assms(1) by (simp add: searchable_def)
  have "ps \<noteq> []" using ps(1) assms(6) by auto
  moreover have "GetPath h e = Some (''/'' @ strings_Join (map (tag h) (rev ps)) ''/'')"
    using path_tags_rises [OF ps(1) top assms(5) ps(2), of "[]"] by (simp add: GetPath_def rev_map)
  moreover have "leads h (selectRoot # map parseSelector (map (tag h) (rev ps))) src e"
    using rises_down [OF ps] rises_root [OF qs top] by (simp add: apply_selector_def)
  ultimately show ?thesis using plain_clean [OF ps(2)] by (intro exI [of _ "map (tag h) (rev ps)"]) simp
qed

end
