(* ===== verification/Xml_Decode.thy ===== *)
theory Xml_Decode
  imports Xml_Tree
begin

section \<open>Package goxml: the decoder it reads with\<close>

text \<open>
  \<^verbatim>\<open>RawToken\<close> of the decoder in Go's \<^verbatim>\<open>encoding/xml\<close>, which \<^verbatim>\<open>readFrom\<close> of \<^verbatim>\<open>goxml/goxml.go\<close> calls until it returns an error, on
  bytes that need no conversion. The tables of Unicode beyond ASCII and what the decoder makes of an XML declaration are parameters. Then what it
  reads of the text that a tree is written as.
\<close>

record xml_library =
  letters :: "rune \<Rightarrow> bool"
  extenders :: "rune \<Rightarrow> bool"
  declaration_error :: "string \<Rightarrow> string option"

record strictness =
  Strict :: bool
  entities :: "(string \<rightharpoonup> string) option"

subsection \<open>Names\<close>

definition isNameByte :: "char \<Rightarrow> bool" where
  "isNameByte c \<longleftrightarrow> in_range 65 90 c \<or> in_range 97 122 c \<or> in_range 48 57 c \<or> c = CHR ''_'' \<or> c = CHR '':'' \<or> c = CHR ''.'' \<or> c = CHR ''-''"

definition name_byte :: "char \<Rightarrow> bool" where
  "name_byte c \<longleftrightarrow> \<not> ascii c \<or> isNameByte c"

definition name_first :: "xml_library \<Rightarrow> rune \<Rightarrow> bool" where
  "name_first lib r = (if r < 128 then r = 58 \<or> (65 \<le> r \<and> r \<le> 90) \<or> r = 95 \<or> (97 \<le> r \<and> r \<le> 122) else letters lib r)"

definition name_second :: "xml_library \<Rightarrow> rune \<Rightarrow> bool" where
  "name_second lib r = (if r < 128 then r = 45 \<or> r = 46 \<or> (48 \<le> r \<and> r \<le> 57) else extenders lib r)"

definition isName :: "xml_library \<Rightarrow> string \<Rightarrow> bool" where
  "isName lib s =
     (case chunks s of
        [] \<Rightarrow> False
      | (r, b) # rest \<Rightarrow> \<not> (r = RuneError \<and> length b = 1) \<and> name_first lib r
          \<and> list_all (\<lambda>(r, b). \<not> (r = RuneError \<and> length b = 1) \<and> (name_first lib r \<or> name_second lib r)) rest)"

definition eof :: string where
  "eof = ''unexpected EOF''"

definition read_name :: "xml_library \<Rightarrow> string \<Rightarrow> string \<Rightarrow> string + string \<times> string" where
  "read_name lib msg s =
     (let n = takeWhile name_byte s; rest = dropWhile name_byte s
      in if s = [] then Inl eof else if n = [] then Inl msg else if rest = [] then Inl eof
         else if isName lib n then Inr (n, rest) else Inl ''invalid XML name'')"

definition nsname :: "string \<Rightarrow> (string \<times> string) option" where
  "nsname n =
     (if 1 < count_list n (CHR '':'') then None
      else Some (let (pre, local) = spaceDecompose n in if pre = [] \<or> local = [] then ([], n) else (pre, local)))"

definition read_nsname :: "xml_library \<Rightarrow> string \<Rightarrow> string \<Rightarrow> string + (string \<times> string) \<times> string" where
  "read_nsname lib msg s =
     (case read_name lib msg s of
        Inl e \<Rightarrow> Inl e
      | Inr (n, rest) \<Rightarrow> (case nsname n of None \<Rightarrow> Inl msg | Some q \<Rightarrow> Inr (q, rest)))"

definition skip_space :: "string \<Rightarrow> string" where
  "skip_space s = dropWhile (\<lambda>c. c = sp \<or> c = cr \<or> c = nl \<or> c = tab) s"

subsection \<open>Text\<close>

definition hex_digit :: "char \<Rightarrow> bool" where
  "hex_digit c \<longleftrightarrow> digit c \<or> in_range 97 102 c \<or> in_range 65 70 c"

definition digit_value :: "char \<Rightarrow> nat" where
  "digit_value c = (if digit c then byte c - 48 else if in_range 97 102 c then byte c - 87 else byte c - 55)"

definition number :: "nat \<Rightarrow> string \<Rightarrow> nat" where
  "number base = foldl (\<lambda>n c. n * base + digit_value c) 0"

definition named_entities :: "string \<rightharpoonup> string" where
  "named_entities = map_of [(''lt'', ''<''), (''gt'', ''>''), (''amp'', ''&''), (''apos'', [sq]), (''quot'', [dq])]"

text \<open>
  What follows an ampersand: the text that it stands for, when it does, what has been read, and the rest.
\<close>

definition number_reference :: "nat \<Rightarrow> string \<Rightarrow> string \<Rightarrow> string + string option \<times> string \<times> string" where
  "number_reference base begun s =
     (let isd = (if base = 16 then hex_digit else digit); ds = takeWhile isd s
      in case dropWhile isd s of
           [] \<Rightarrow> Inl eof
         | c # rest \<Rightarrow>
             Inr (if c \<noteq> CHR '';'' then (None, begun @ ds, c # rest)
                  else (if ds \<noteq> [] \<and> number base ds \<le> 0x10FFFF then Some (encode_rune (number base ds)) else None, begun @ ds @ [c], rest)))"

definition named_reference :: "xml_library \<Rightarrow> (string \<rightharpoonup> string) option \<Rightarrow> string \<Rightarrow> string + string option \<times> string \<times> string" where
  "named_reference lib ent s =
     (let n = takeWhile name_byte s
      in case dropWhile name_byte s of
           [] \<Rightarrow> Inl eof
         | c # rest \<Rightarrow>
             Inr (if c \<noteq> CHR '';'' then (None, n, c # rest)
                  else (if \<not> isName lib n then None
                        else case named_entities n of Some x \<Rightarrow> Some x | None \<Rightarrow> Option.bind ent (\<lambda>m. m n), n @ [c], rest)))"

definition read_reference :: "xml_library \<Rightarrow> (string \<rightharpoonup> string) option \<Rightarrow> string \<Rightarrow> string + string option \<times> string \<times> string" where
  "read_reference lib ent s =
     (case s of
        [] \<Rightarrow> Inl eof
      | c # t \<Rightarrow>
          if c = CHR ''#''
          then case t of
                 [] \<Rightarrow> Inl eof
               | x # u \<Rightarrow> if x = CHR ''x'' then number_reference 16 ''#x'' u else number_reference 10 ''#'' t
          else named_reference lib ent s)"

lemma number_reference_le:
  assumes "number_reference base begun s = Inr (x, raw, rest)"
  shows "length rest \<le> length s"
proof -
  let ?P = "if base = 16 then hex_digit else digit"
  obtain c u where u: "dropWhile ?P s = c # u" using assms by (cases "dropWhile ?P s") (simp_all add: number_reference_def Let_def)
  then have "rest = c # u \<or> rest = u" using assms by (simp add: number_reference_def Let_def split: if_splits)
  then show ?thesis using length_dropWhile_le [of ?P s] u by auto
qed

lemma named_reference_le:
  assumes "named_reference lib ent s = Inr (x, raw, rest)"
  shows "length rest \<le> length s"
proof -
  obtain c u where u: "dropWhile name_byte s = c # u" using assms by (cases "dropWhile name_byte s") (simp_all add: named_reference_def Let_def)
  then have "rest = c # u \<or> rest = u" using assms by (auto simp: named_reference_def Let_def split: if_splits)
  then show ?thesis using length_dropWhile_le [of name_byte s] u by auto
qed

lemma read_reference_le: "read_reference lib ent s = Inr (x, raw, rest) \<Longrightarrow> length rest \<le> length s"
  by (auto simp: read_reference_def dest!: number_reference_le named_reference_le split: list.splits if_splits)

function text_loop :: "xml_library \<Rightarrow> strictness \<Rightarrow> char option \<Rightarrow> bool \<Rightarrow> char \<Rightarrow> char \<Rightarrow> string \<Rightarrow> string \<Rightarrow> string + string \<times> string" where
  "text_loop lib cfg quote cdata b0 b1 buf [] =
     (if cdata then Inl ''unexpected EOF in CDATA section'' else Inr (buf, []))"
| "text_loop lib cfg quote cdata b0 b1 buf (b # s) =
     (if quote = None \<and> b0 = CHR '']'' \<and> b1 = CHR '']'' \<and> b = CHR ''>''
      then if cdata then Inr (take (length buf - 2) buf, s) else Inl ''unescaped ]]> not in CDATA section''
      else if b = CHR ''<'' \<and> \<not> cdata
      then if quote \<noteq> None then Inl ''unescaped < inside quoted string'' else Inr (buf, b # s)
      else if quote = Some b then Inr (buf, s)
      else if b = CHR ''&'' \<and> \<not> cdata
      then case read_reference lib (entities cfg) s of
             Inl e \<Rightarrow> Inl e
           | Inr (Some x, raw, rest) \<Rightarrow> text_loop lib cfg quote cdata (CHR 0x00) (CHR 0x00) (buf @ x) rest
           | Inr (None, raw, rest) \<Rightarrow>
               if Strict cfg then Inl ''invalid character entity''
               else text_loop lib cfg quote cdata (CHR 0x00) (CHR 0x00) (buf @ b # raw) rest
      else text_loop lib cfg quote cdata b1 b (if b = cr then buf @ [nl] else if b1 = cr \<and> b = nl then buf else buf @ [b]) s)"
  by pat_completeness auto
termination
  by (relation "measure (\<lambda>(lib, cfg, quote, cdata, b0, b1, buf, s). length s)") (auto dest!: read_reference_le)

definition valid_text :: "string \<Rightarrow> bool" where
  "valid_text s \<longleftrightarrow> list_all (\<lambda>(r, b). \<not> bad_rune r (length b)) (chunks s)"

definition read_text :: "xml_library \<Rightarrow> strictness \<Rightarrow> char option \<Rightarrow> bool \<Rightarrow> string \<Rightarrow> string + string \<times> string" where
  "read_text lib cfg quote cdata s =
     (case text_loop lib cfg quote cdata (CHR 0x00) (CHR 0x00) [] s of
        Inl e \<Rightarrow> Inl e
      | Inr (data, rest) \<Rightarrow> if valid_text data then Inr (data, rest) else Inl ''illegal character code'')"

subsection \<open>Tags\<close>

definition unquoted_byte :: "char \<Rightarrow> bool" where
  "unquoted_byte c \<longleftrightarrow> in_range 97 122 c \<or> in_range 65 90 c \<or> in_range 48 57 c \<or> c = CHR ''_'' \<or> c = CHR '':'' \<or> c = CHR ''-''"

definition attrval :: "xml_library \<Rightarrow> strictness \<Rightarrow> string \<Rightarrow> string + string \<times> string" where
  "attrval lib cfg s =
     (case s of
        [] \<Rightarrow> Inl eof
      | q # t \<Rightarrow>
          if q = dq \<or> q = sq then read_text lib cfg (Some q) False t
          else if Strict cfg then Inl ''unquoted or missing attribute value in element''
          else if dropWhile unquoted_byte s = [] then Inl eof
          else Inr (takeWhile unquoted_byte s, dropWhile unquoted_byte s))"

definition read_attr :: "xml_library \<Rightarrow> strictness \<Rightarrow> string \<Rightarrow> string + (string \<times> string \<times> string) \<times> string" where
  "read_attr lib cfg s =
     (case read_nsname lib ''expected attribute name in element'' s of
        Inl e \<Rightarrow> Inl e
      | Inr ((pre, k), u) \<Rightarrow>
          (case skip_space u of
             [] \<Rightarrow> Inl eof
           | c # v \<Rightarrow>
               if c \<noteq> CHR ''=''
               then if Strict cfg then Inl ''attribute name without = in element'' else Inr ((pre, k, k), c # v)
               else (case attrval lib cfg (skip_space v) of
                       Inl e \<Rightarrow> Inl e
                     | Inr (x, rest) \<Rightarrow> Inr ((pre, k, x), rest))))"

lemma text_loop_le: "text_loop lib cfg quote cdata b0 b1 buf s = Inr (data, rest) \<Longrightarrow> length rest \<le> length s"
proof (induction lib cfg quote cdata b0 b1 buf s rule: text_loop.induct)
  case (2 lib cfg quote cdata b0 b1 buf b s)
  show ?case
  proof (cases "read_reference lib (entities cfg) s")
    case (Inr y)
    obtain x raw u where y: "y = (x, raw, u)" by (cases y)
    have "length u \<le> length s" using read_reference_le Inr y by blast
    then show ?thesis using 2 Inr y by (cases x) (auto split: if_splits, (metis le_SucI le_trans)+)
  qed (use 2 in \<open>auto split: if_splits\<close>)
qed (auto split: if_splits)

lemma read_text_le: "read_text lib cfg quote cdata s = Inr (data, rest) \<Longrightarrow> length rest \<le> length s"
  using text_loop_le by (auto simp: read_text_def split: sum.splits if_splits)

lemma skip_space_le: "length (skip_space s) \<le> length s"
  by (simp add: skip_space_def length_dropWhile_le)

lemma read_name_less: "read_name lib msg s = Inr (n, rest) \<Longrightarrow> length rest < length s"
proof -
  assume a: "read_name lib msg s = Inr (n, rest)"
  then have "takeWhile name_byte s \<noteq> []" "rest = dropWhile name_byte s" by (auto simp: read_name_def Let_def split: if_splits)
  moreover have "length s = length (takeWhile name_byte s) + length (dropWhile name_byte s)" by (metis length_append takeWhile_dropWhile_id)
  ultimately show ?thesis by simp
qed

lemma read_nsname_less: "read_nsname lib msg s = Inr (q, rest) \<Longrightarrow> length rest < length s"
  using read_name_less by (fastforce simp: read_nsname_def split: sum.splits option.splits)

lemma attrval_le: "attrval lib cfg s = Inr (x, rest) \<Longrightarrow> length rest \<le> length s"
  using read_text_le [of lib cfg _ False "tl s" x rest, THEN le_SucI] length_dropWhile_le [of unquoted_byte s]
  by (cases s) (auto simp: attrval_def simp del: dropWhile.simps takeWhile.simps split: if_splits)

lemma read_attr_less:
  assumes "read_attr lib cfg s = Inr (a, rest)"
  shows "length rest < length s"
proof -
  obtain pre k u where q: "read_nsname lib ''expected attribute name in element'' s = Inr ((pre, k), u)"
    using assms by (auto simp: read_attr_def split: sum.splits)
  note e = assms [unfolded read_attr_def q, simplified]
  obtain c v where c: "skip_space u = c # v" using e by (cases "skip_space u") simp_all
  have u: "length (c # v) < length s" using read_nsname_less [OF q] skip_space_le [of u] c by simp
  show ?thesis
  proof (cases "c = CHR ''=''")
    case True
    then obtain x where "attrval lib cfg (skip_space v) = Inr (x, rest)"
      using e c by (cases "attrval lib cfg (skip_space v)") (simp_all split: prod.splits)
    then show ?thesis using attrval_le skip_space_le [of v] u by fastforce
  qed (use e u in \<open>auto simp: c split: if_splits\<close>)
qed

text \<open>The attributes, and whether the tag closes its element.\<close>

function attr_loop :: "xml_library \<Rightarrow> strictness \<Rightarrow> (string \<times> string \<times> string) list \<Rightarrow> string \<Rightarrow> string + (string \<times> string \<times> string) list \<times> bool \<times> string" where
  "attr_loop lib cfg as s =
     (case skip_space s of
        [] \<Rightarrow> Inl eof
      | b # t \<Rightarrow>
          if b = CHR ''/''
          then case t of [] \<Rightarrow> Inl eof | c # u \<Rightarrow> if c = CHR ''>'' then Inr (as, True, u) else Inl ''expected /> in element''
          else if b = CHR ''>'' then Inr (as, False, t)
          else case read_attr lib cfg (b # t) of
                 Inl e \<Rightarrow> Inl e
               | Inr (a, rest) \<Rightarrow> attr_loop lib cfg (as @ [a]) rest)"
  by pat_completeness auto
termination
proof (relation "measure (\<lambda>(lib, cfg, as, s). length s)", goal_cases)
  case (2 lib cfg as s b t p a rest)
  then show ?case using read_attr_less [of lib cfg "b # t" a rest] skip_space_le [of s] by simp
qed simp

declare attr_loop.simps [simp del]

lemma attr_loop_less: "attr_loop lib cfg as s = Inr (as', e, rest) \<Longrightarrow> length rest < length s"
proof (induction lib cfg as s rule: attr_loop.induct)
  case (1 lib cfg as s)
  obtain b t where b: "skip_space s = b # t" using 1(2) by (subst (asm) attr_loop.simps) (auto split: list.splits)
  have l: "Suc (length t) \<le> length s" using skip_space_le [of s] b by simp
  show ?case
  proof (cases "b = CHR ''/'' \<or> b = CHR ''>''")
    case True
    then show ?thesis using 1(2) b l by (subst (asm) attr_loop.simps) (auto split: list.splits if_splits)
  next
    case False
    then obtain a u where a: "read_attr lib cfg (b # t) = Inr (a, u)" "attr_loop lib cfg (as @ [a]) u = Inr (as', e, rest)"
      using 1(2) b by (subst (asm) attr_loop.simps) (auto split: sum.splits)
    have "length rest < length u" using 1(1) [OF b _ _ a(1) refl a(2)] False by simp
    then show ?thesis using read_attr_less [OF a(1)] l by simp
  qed
qed

subsection \<open>Comments, directives and instructions\<close>

fun comment_loop :: "char \<Rightarrow> char \<Rightarrow> string \<Rightarrow> string \<Rightarrow> string + string \<times> string" where
  "comment_loop b0 b1 buf [] = Inl eof"
| "comment_loop b0 b1 buf (b # s) =
     (if b0 = CHR ''-'' \<and> b1 = CHR ''-''
      then if b \<noteq> CHR ''>'' then Inl ''invalid sequence -- not allowed in comments'' else Inr (take (length buf - 2) buf, s)
      else comment_loop b1 b (buf @ [b]) s)"

fun procinst_loop :: "char \<Rightarrow> string \<Rightarrow> string \<Rightarrow> string + string \<times> string" where
  "procinst_loop b0 buf [] = Inl eof"
| "procinst_loop b0 buf (b # s) =
     (if b0 = CHR ''?'' \<and> b = CHR ''>'' then Inr (take (length buf - 1) buf, s) else procinst_loop b (buf @ [b]) s)"

fun skip_comment :: "char \<Rightarrow> char \<Rightarrow> string \<Rightarrow> string option" where
  "skip_comment b0 b1 [] = None"
| "skip_comment b0 b1 (b # s) =
     (if b0 = CHR ''-'' \<and> b1 = CHR ''-'' \<and> b = CHR ''>'' then Some s else skip_comment b1 b s)"

lemma skip_comment_less: "skip_comment b0 b1 s = Some rest \<Longrightarrow> length rest < length s"
  by (induction b0 b1 s rule: skip_comment.induct) (auto split: if_splits)

text \<open>
  Angle brackets nest outside quotes; a comment counts as a space. The code looks for the three characters behind a bracket one by one,
  and goes on with the first that differs.
\<close>

function directive_loop :: "char option \<Rightarrow> nat \<Rightarrow> string \<Rightarrow> string \<Rightarrow> string + string \<times> string" where
  "directive_loop inquote depth buf [] = Inl eof"
| "directive_loop inquote depth buf (b # s) =
     (if inquote = None \<and> b = CHR ''>'' \<and> depth = 0 then Inr (buf, s)
      else if inquote = Some b then directive_loop None depth (buf @ [b]) s
      else if inquote \<noteq> None then directive_loop inquote depth (buf @ [b]) s
      else if b = sq \<or> b = dq then directive_loop (Some b) depth (buf @ [b]) s
      else if b = CHR ''>'' then directive_loop None (depth - 1) (buf @ [b]) s
      else if b = CHR ''<''
      then if take 3 s = ''!--''
           then case skip_comment (CHR 0x00) (CHR 0x00) (drop 3 s) of None \<Rightarrow> Inl eof | Some rest \<Rightarrow> directive_loop None depth (buf @ [sp]) rest
           else directive_loop None (Suc depth) (buf @ [b]) s
      else directive_loop None depth (buf @ [b]) s)"
  by pat_completeness auto
termination
  by (relation "measure (\<lambda>(q, n, buf, s). length s)") (auto dest!: skip_comment_less)

lemma comment_loop_less: "comment_loop b0 b1 buf s = Inr (x, rest) \<Longrightarrow> length rest < length s"
  by (induction b0 b1 buf s rule: comment_loop.induct) (auto split: if_splits)

lemma procinst_loop_less: "procinst_loop b0 buf s = Inr (x, rest) \<Longrightarrow> length rest < length s"
  by (induction b0 buf s rule: procinst_loop.induct) (auto split: if_splits)

lemma directive_loop_less: "directive_loop q n buf s = Inr (x, rest) \<Longrightarrow> length rest < length s"
proof (induction q n buf s rule: directive_loop.induct)
  case (2 q n buf b s)
  then show ?case
    by (cases "skip_comment (CHR 0x00) (CHR 0x00) (drop 3 s)") (auto dest!: skip_comment_less split: if_splits)
qed simp

subsection \<open>Tokens\<close>

datatype dec_token = TEOF | TError string | TRaw "raw list" string

definition end_tag :: "xml_library \<Rightarrow> string \<Rightarrow> dec_token" where
  "end_tag lib s =
     (case read_nsname lib ''expected element name after </'' s of
        Inl e \<Rightarrow> TError e
      | Inr ((pre, local), t) \<Rightarrow>
          (case skip_space t of
             [] \<Rightarrow> TError eof
           | b # rest \<Rightarrow> if b = CHR ''>'' then TRaw [REnd pre local] rest else TError ''invalid characters between </ and >''))"

definition procinst_tag :: "xml_library \<Rightarrow> string \<Rightarrow> dec_token" where
  "procinst_tag lib s =
     (case read_name lib ''expected target name after <?'' s of
        Inl e \<Rightarrow> TError e
      | Inr (target, t) \<Rightarrow>
          (case procinst_loop (CHR 0x00) [] (skip_space t) of
             Inl e \<Rightarrow> TError e
           | Inr (data, rest) \<Rightarrow>
               (case (if target = ''xml'' then declaration_error lib data else None) of
                  Some e \<Rightarrow> TError e
                | None \<Rightarrow> TRaw [RProcInst target data] rest)))"

definition bang_tag :: "xml_library \<Rightarrow> strictness \<Rightarrow> string \<Rightarrow> dec_token" where
  "bang_tag lib cfg s =
     (case s of
        [] \<Rightarrow> TError eof
      | b # t \<Rightarrow>
          if b = CHR ''-''
          then case t of
                 [] \<Rightarrow> TError eof
               | c # u \<Rightarrow>
                   if c \<noteq> CHR ''-'' then TError ''invalid sequence <!- not part of <!--''
                   else (case comment_loop (CHR 0x00) (CHR 0x00) [] u of Inl e \<Rightarrow> TError e | Inr (d, rest) \<Rightarrow> TRaw [RComment d] rest)
          else if b = CHR ''[''
          then if take 6 t = ''CDATA[''
               then (case read_text lib cfg None True (drop 6 t) of Inl e \<Rightarrow> TError e | Inr (d, rest) \<Rightarrow> TRaw [RChar d] rest)
               else TError (if length t < 6 \<and> take (length t) ''CDATA['' = t then eof else ''invalid <![ sequence'')
          else (case directive_loop None 0 [b] t of Inl e \<Rightarrow> TError e | Inr (d, rest) \<Rightarrow> TRaw [RDirective d] rest))"

text \<open>A tag that closes its element gives two tokens, the second in the next call.\<close>

definition start_tag :: "xml_library \<Rightarrow> strictness \<Rightarrow> string \<Rightarrow> dec_token" where
  "start_tag lib cfg s =
     (case read_nsname lib ''expected element name after <'' s of
        Inl e \<Rightarrow> TError e
      | Inr ((pre, local), t) \<Rightarrow>
          (case attr_loop lib cfg [] t of
             Inl e \<Rightarrow> TError e
           | Inr (as, ends, rest) \<Rightarrow> TRaw (RStart pre local as # (if ends then [REnd pre local] else [])) rest))"

definition rawToken :: "xml_library \<Rightarrow> strictness \<Rightarrow> string \<Rightarrow> dec_token" where
  "rawToken lib cfg s =
     (case s of
        [] \<Rightarrow> TEOF
      | b # t \<Rightarrow>
          if b \<noteq> CHR ''<''
          then (case read_text lib cfg None False s of Inl e \<Rightarrow> TError e | Inr (d, rest) \<Rightarrow> TRaw [RChar d] rest)
          else (case t of
                  [] \<Rightarrow> TError eof
                | c # u \<Rightarrow>
                    if c = CHR ''/'' then end_tag lib u
                    else if c = CHR ''?'' then procinst_tag lib u
                    else if c = CHR ''!'' then bang_tag lib cfg u
                    else start_tag lib cfg t))"

lemma tag_less:
  "end_tag lib s = TRaw ts rest \<Longrightarrow> length rest < length s"
  "procinst_tag lib s = TRaw ts rest \<Longrightarrow> length rest < length s"
  "start_tag lib cfg s = TRaw ts rest \<Longrightarrow> length rest < length s"
proof -
  assume a: "end_tag lib s = TRaw ts rest"
  then obtain q t where q: "read_nsname lib ''expected element name after </'' s = Inr (q, t)" by (auto simp: end_tag_def split: sum.splits)
  have "length rest < length (skip_space t)"
    using a by (cases q; cases "skip_space t") (auto simp: end_tag_def q split: if_splits)
  then show "length rest < length s" using read_nsname_less [OF q] skip_space_le [of t] by simp
next
  assume a: "procinst_tag lib s = TRaw ts rest"
  then obtain n t where n: "read_name lib ''expected target name after <?'' s = Inr (n, t)" by (auto simp: procinst_tag_def split: sum.splits)
  obtain d where "procinst_loop (CHR 0x00) [] (skip_space t) = Inr (d, rest)"
    using a n by (cases "procinst_loop (CHR 0x00) [] (skip_space t)") (auto simp: procinst_tag_def split: option.splits if_splits)
  then have "length rest < length (skip_space t)" by (rule procinst_loop_less)
  then show "length rest < length s" using read_name_less [OF n] skip_space_le [of t] by simp
next
  assume a: "start_tag lib cfg s = TRaw ts rest"
  then obtain q t where q: "read_nsname lib ''expected element name after <'' s = Inr (q, t)" by (auto simp: start_tag_def split: sum.splits)
  obtain as e where "attr_loop lib cfg [] t = Inr (as, e, rest)"
    using a q by (cases q; cases "attr_loop lib cfg [] t") (auto simp: start_tag_def)
  then have "length rest < length t" by (rule attr_loop_less)
  then show "length rest < length s" using read_nsname_less [OF q] by simp
qed

lemma bang_tag_less: "bang_tag lib cfg s = TRaw ts rest \<Longrightarrow> length rest < length s"
proof -
  assume a: "bang_tag lib cfg s = TRaw ts rest"
  then obtain b t where s: "s = b # t" by (cases s) (simp_all add: bang_tag_def)
  consider (comment) u x where "t = CHR ''-'' # u" "comment_loop (CHR 0x00) (CHR 0x00) [] u = Inr (x, rest)"
    | (cdata) x where "read_text lib cfg None True (drop 6 t) = Inr (x, rest)"
    | (directive) x where "directive_loop None 0 [b] t = Inr (x, rest)"
    using a s by (auto simp: bang_tag_def split: if_splits list.splits sum.splits)
  then show ?thesis
  proof cases
    case comment
    then show ?thesis using comment_loop_less [OF comment(2)] s by simp
  next
    case cdata
    then show ?thesis using read_text_le [OF cdata] s by simp
  next
    case directive
    then show ?thesis using directive_loop_less [OF directive] s by simp
  qed
qed

text \<open>Text that does not begin with a tag is not empty.\<close>

lemma text_first: "s = b # t \<Longrightarrow> b \<noteq> CHR ''<'' \<Longrightarrow> read_text lib cfg None False s = Inr (d, rest) \<Longrightarrow> length rest < length s"
proof -
  assume s: "s = b # t" "b \<noteq> CHR ''<''" "read_text lib cfg None False s = Inr (d, rest)"
  then have l: "text_loop lib cfg None False (CHR 0x00) (CHR 0x00) [] (b # t) = Inr (d, rest)" by (auto simp: read_text_def split: sum.splits if_splits)
  show ?thesis
  proof (cases "b = CHR ''&''")
    case True
    then obtain x raw u where u: "read_reference lib (entities cfg) t = Inr (x, raw, u)" using l by (auto split: sum.splits)
    have "length rest \<le> length u" using l True u by (cases x) (auto dest!: text_loop_le split: if_splits)
    then show ?thesis using read_reference_le [OF u] s(1) by simp
  qed (use l s(1,2) in \<open>auto dest!: text_loop_le split: if_splits\<close>)
qed

lemma rawToken_less: "rawToken lib cfg s = TRaw ts rest \<Longrightarrow> length rest < length s"
proof -
  assume a: "rawToken lib cfg s = TRaw ts rest"
  then obtain b t where s: "s = b # t" by (cases s) (simp_all add: rawToken_def)
  show ?thesis
  proof (cases "b = CHR ''<''")
    case True
    then obtain c u where u: "t = c # u" using a s by (cases t) (simp_all add: rawToken_def)
    consider "end_tag lib u = TRaw ts rest" | "procinst_tag lib u = TRaw ts rest" | "bang_tag lib cfg u = TRaw ts rest" | "start_tag lib cfg t = TRaw ts rest"
      using a s u True by (auto simp: rawToken_def split: if_splits)
    then show ?thesis by cases (use s u in \<open>auto dest!: tag_less bang_tag_less\<close>)
  next
    case False
    then obtain d where "read_text lib cfg None False s = Inr (d, rest)" using a s by (auto simp: rawToken_def split: sum.splits)
    then show ?thesis using text_first [OF s False] by simp
  qed
qed

function raw_tokens :: "xml_library \<Rightarrow> strictness \<Rightarrow> string \<Rightarrow> raw list \<times> string option" where
  "raw_tokens lib cfg s =
     (case rawToken lib cfg s of
        TEOF \<Rightarrow> ([], None)
      | TError e \<Rightarrow> ([], Some e)
      | TRaw ts rest \<Rightarrow> apfst ((@) ts) (raw_tokens lib cfg rest))"
  by pat_completeness auto
termination
  by (relation "measure (\<lambda>(lib, cfg, s). length s)") (auto dest: rawToken_less)

declare raw_tokens.simps [simp del]

text \<open>The decoder with the settings of a document whose \<^verbatim>\<open>CharsetReader\<close> leaves the bytes as they are.\<close>

definition xml_decoder :: "xml_library \<Rightarrow> ReadSettings \<Rightarrow> string \<Rightarrow> raw list \<times> string option" where
  "xml_decoder lib settings = raw_tokens lib \<lparr>Strict = \<not> Permissive settings, entities = Entity settings\<rparr>"

subsection \<open>What is read of what was written\<close>

lemma chunks_ascii: "ascii c \<Longrightarrow> chunks (c # cs) = (byte c, [c]) # chunks cs" "chunks [] = []"
  by (simp_all add: chunks.simps [of "c # cs"] chunks.simps [of "[]"] decode_rune_ascii)

lemma valid_text_step: "s \<noteq> [] \<Longrightarrow> decode_rune s = (r, w) \<Longrightarrow> valid_text s \<longleftrightarrow> \<not> bad_rune r w \<and> valid_text (drop w s)"
  using decode_rune_width_le [of s] unfolding valid_text_def by (subst chunks.simps) (simp add: min_absorb2)

lemma char_codes: "char_of (9 :: nat) = tab" "char_of (10 :: nat) = nl" "char_of (13 :: nat) = cr"
  by code_simp+

lemma reference_read:
  "(name, x) \<in> set references \<Longrightarrow> \<exists>raw. read_reference lib ent (name @ y) = Inr (Some [x], raw, y)"
  unfolding references_def read_reference_def named_reference_def number_reference_def
  by (auto simp: Let_def name_byte_def isNameByte_def in_range_def ascii_def isName_def chunks_ascii name_first_def name_second_def
      named_entities_def hex_digit_def digit_def digit_value_def number_def encode_rune_def char_codes)

text \<open>Text without any character that means something.\<close>

lemma text_plain:
  "b1 \<noteq> cr \<Longrightarrow> cr \<notin> set p \<Longrightarrow> CHR ''&'' \<notin> set p \<Longrightarrow> CHR ''<'' \<notin> set p \<Longrightarrow> (\<And>q. quote = Some q \<Longrightarrow> q \<notin> set p) \<Longrightarrow>
   (quote = None \<Longrightarrow> CHR ''>'' \<notin> set p) \<Longrightarrow>
   \<exists>c0 c1. c1 \<noteq> cr \<and> text_loop lib cfg quote False b0 b1 buf (p @ rest) = text_loop lib cfg quote False c0 c1 (buf @ p) rest"
proof (induction p arbitrary: b0 b1 buf)
  case (Cons b p)
  have "\<exists>c0 c1. c1 \<noteq> cr \<and> text_loop lib cfg quote False b1 b (buf @ [b]) (p @ rest) = text_loop lib cfg quote False c0 c1 ((buf @ [b]) @ p) rest"
    by (rule Cons.IH) (use Cons.prems in auto)
  then show ?case using Cons.prems by (cases quote) auto
qed auto

lemma raw_no_bracket: "s \<noteq> [] \<Longrightarrow> decode_rune s = (r, w) \<Longrightarrow> escape_rune m r w = None \<Longrightarrow> m \<noteq> escapeCanonicalAttr \<Longrightarrow> CHR ''>'' \<notin> set (take w s)"
proof -
  assume a: "s \<noteq> []" "decode_rune s = (r, w)" "escape_rune m r w = None" "m \<noteq> escapeCanonicalAttr"
  obtain c cs where s: "s = c # cs" using a(1) by (cases s) auto
  show ?thesis
  proof (cases "ascii c")
    case True
    then show ?thesis using a s by (auto simp: decode_rune_ascii escape_rune_def)
  next
    case False
    then show ?thesis using decode_rune_nonascii [OF False, of cs] a(2) s by (auto simp: nonascii_run_def ascii_def)
  qed
qed

lemma text_escaped:
  assumes "quote = Some dq \<and> m \<noteq> escapeCanonicalText \<or> quote = None \<and> m \<noteq> escapeCanonicalAttr"
  shows "valid_text v \<Longrightarrow> (m = escapeNormal \<longrightarrow> cr \<notin> set v) \<Longrightarrow> b1 \<noteq> cr \<Longrightarrow>
   \<exists>c0 c1. c1 \<noteq> cr \<and> text_loop lib cfg quote False b0 b1 buf (escapeString v m @ rest) = text_loop lib cfg quote False c0 c1 (buf @ v) rest"
proof (induction v arbitrary: b0 b1 buf rule: escape_induct)
  case (step s r w)
  note e = escape_step [OF step(1,2), of m, folded escapeString_def]
  have v: "\<not> bad_rune r w" "valid_text (drop w s)" using valid_text_step [OF step(1,2)] step(4) by simp_all
  have c: "m = escapeNormal \<longrightarrow> cr \<notin> set (take w s) \<and> cr \<notin> set (drop w s)" using step(5) by (auto dest: in_set_takeD in_set_dropD)
  have tail: "\<exists>c0 c1. c1 \<noteq> cr \<and> text_loop lib cfg quote False d0 d1 buf' (escapeString (drop w s) m @ rest)
      = text_loop lib cfg quote False c0 c1 (buf' @ drop w s) rest" if "d1 \<noteq> cr" for d0 d1 buf'
    by (rule step(3) [OF v(2)]) (use c that in auto)
  from step(1,2) show ?case
  proof (cases rule: escape_rune_cases [where m = m])
    case (ref name x)
    obtain raw where "read_reference lib (entities cfg) (name @ escapeString (drop w s) m @ rest) = Inr (Some [x], raw, escapeString (drop w s) m @ rest)"
      using reference_read [OF ref(1)] by blast
    moreover have "buf @ s = (buf @ [x]) @ drop w s" using ref(3) append_take_drop_id [of w s] by simp
    ultimately show ?thesis using tail [of "CHR 0x00" "CHR 0x00" "buf @ [x]"] ref(2) e assms by auto
  next
    case raw
    obtain d0 d1 where d: "d1 \<noteq> cr" "text_loop lib cfg quote False b0 b1 buf (take w s @ escapeString (drop w s) m @ rest)
        = text_loop lib cfg quote False d0 d1 (buf @ take w s) (escapeString (drop w s) m @ rest)"
      using text_plain [of b1 "take w s" quote lib cfg b0 buf "escapeString (drop w s) m @ rest"] raw raw_no_bracket [OF step(1,2) raw(1)] assms c step(6) by auto
    show ?thesis using tail [OF d(1), of d0 "buf @ take w s"] d(2) raw(1) e by simp
  qed (use v in simp)
qed auto

lemma read_escaped_value:
  assumes "valid_text v" "m = escapeNormal \<longrightarrow> cr \<notin> set v" "m \<noteq> escapeCanonicalText"
  shows "read_text lib cfg (Some dq) False (escapeString v m @ dq # rest) = Inr (v, rest)"
  using text_escaped [of "Some dq" m v "CHR 0x00" lib cfg "CHR 0x00" "[]" "dq # rest"] assms by (auto simp: read_text_def)

definition at_tag :: "string \<Rightarrow> bool" where
  "at_tag s \<longleftrightarrow> s = [] \<or> hd s = CHR ''<''"

lemma read_escaped_text:
  assumes "valid_text v" "m = escapeNormal \<longrightarrow> cr \<notin> set v" "m \<noteq> escapeCanonicalAttr" "at_tag rest"
  shows "read_text lib cfg None False (escapeString v m @ rest) = Inr (v, rest)"
  using text_escaped [of None m v "CHR 0x00" lib cfg "CHR 0x00" "[]" rest] assms by (cases rest) (auto simp: read_text_def at_tag_def)

subsection \<open>Names and tags that can be read\<close>

definition plain_name :: "xml_library \<Rightarrow> string \<Rightarrow> bool" where
  "plain_name lib n \<longleftrightarrow> n \<noteq> [] \<and> list_all name_byte n \<and> isName lib n"

definition ns_name :: "xml_library \<Rightarrow> string \<Rightarrow> string \<Rightarrow> bool" where
  "ns_name lib s t \<longleftrightarrow> plain_name lib (full_name s t) \<and> nsname (full_name s t) = Some (s, t)"

lemma takeWhile_name: "list_all P n \<Longrightarrow> \<not> P c \<Longrightarrow> takeWhile P (n @ c # rest) = n \<and> dropWhile P (n @ c # rest) = c # rest"
  by (induction n) auto

lemma read_plain_name: "plain_name lib n \<Longrightarrow> \<not> name_byte c \<Longrightarrow> read_name lib msg (n @ c # rest) = Inr (n, c # rest)"
  using takeWhile_name [of name_byte n c rest] by (auto simp: read_name_def plain_name_def Let_def)

lemma read_ns_name: "ns_name lib s t \<Longrightarrow> \<not> name_byte c \<Longrightarrow> read_nsname lib msg (full_name s t @ c # rest) = Inr ((s, t), c # rest)"
  by (simp add: read_nsname_def ns_name_def read_plain_name)

lemma not_name_byte [simp]:
  "\<not> name_byte sp" "\<not> name_byte (CHR ''>'')" "\<not> name_byte (CHR ''/'')" "\<not> name_byte (CHR ''='')" "\<not> name_byte (CHR ''?'')"
  "\<not> name_byte (CHR ''!'')" "\<not> name_byte (CHR ''<'')" "\<not> name_byte cr" "\<not> name_byte nl" "\<not> name_byte tab"
  by (simp_all add: name_byte_def isNameByte_def in_range_def ascii_def)

lemma plain_name_hd: "plain_name lib n \<Longrightarrow> \<exists>c cs. n = c # cs \<and> name_byte c"
  by (cases n) (auto simp: plain_name_def)

lemma skip_space_name: "plain_name lib n \<Longrightarrow> skip_space (n @ rest) = n @ rest"
  using plain_name_hd [of lib n] by (auto simp: skip_space_def)

definition readable_attr :: "xml_library \<Rightarrow> WriteSettings \<Rightarrow> string \<times> string \<times> string \<Rightarrow> bool" where
  "readable_attr lib ws = (\<lambda>(k, n, v). ns_name lib k n \<and> valid_text v \<and> (\<not> CanonicalAttrVal ws \<longrightarrow> cr \<notin> set v))"

lemma read_written_attr:
  assumes "readable_attr lib ws a"
  shows "read_attr lib cfg (write_triple ws a @ rest) = Inr (a, rest)"
proof -
  obtain k n v where a: "a = (k, n, v)" by (cases a)
  let ?m = "if CanonicalAttrVal ws then escapeCanonicalAttr else escapeNormal"
  have n: "ns_name lib k n" and "read_text lib cfg (Some dq) False (escapeString v ?m @ dq # rest) = Inr (v, rest)"
    using assms read_escaped_value [of v ?m lib cfg rest] by (auto simp: a readable_attr_def)
  then show ?thesis
    using read_ns_name [OF n, of "CHR ''=''" "''expected attribute name in element''" "dq # escapeString v ?m @ dq # rest"]
    by (simp add: a write_triple_def read_attr_def skip_space_def attrval_def)
qed

lemma read_written_attrs:
  "list_all (readable_attr lib ws) as \<Longrightarrow>
   attr_loop lib cfg acc (concat (map (\<lambda>a. '' '' @ write_triple ws a) as) @ rest) = attr_loop lib cfg (acc @ as) rest"
proof (induction as arbitrary: acc)
  case (Cons a as)
  obtain k n v where a: "a = (k, n, v)" by (cases a)
  let ?rest = "concat (map (\<lambda>a. '' '' @ write_triple ws a) as) @ rest"
  have "plain_name lib (full_name k n)" using Cons.prems a by (simp add: readable_attr_def ns_name_def)
  moreover obtain u where u: "write_triple ws a = full_name k n @ u" by (simp add: a write_triple_def)
  moreover obtain c cs where c: "full_name k n = c # cs" "name_byte c" using plain_name_hd calculation(1) by blast
  ultimately have s: "skip_space (write_triple ws a @ ?rest) = c # cs @ u @ ?rest" using skip_space_name [of lib "full_name k n"] by simp
  have "c \<noteq> CHR ''/''" "c \<noteq> CHR ''>''" using c(2) by auto
  moreover have "read_attr lib cfg (c # cs @ u @ ?rest) = Inr (a, ?rest)" using read_written_attr [of lib ws a cfg ?rest] Cons.prems u c(1) by simp
  moreover have "skip_space (sp # write_triple ws a @ ?rest) = skip_space (write_triple ws a @ ?rest)" by (simp add: skip_space_def)
  ultimately show ?case using Cons.IH [of "acc @ [a]"] Cons.prems s by (subst attr_loop.simps) simp
qed simp

lemma attr_loop_end: "attr_loop lib cfg as (CHR ''>'' # rest) = Inr (as, False, rest)" "attr_loop lib cfg as (CHR ''/'' # CHR ''>'' # rest) = Inr (as, True, rest)"
  by (simp_all add: attr_loop.simps skip_space_def)

lemma raw_tokens_step: "rawToken lib cfg s = TRaw ts rest \<Longrightarrow> raw_tokens lib cfg s = apfst ((@) ts) (raw_tokens lib cfg rest)"
  by (subst raw_tokens.simps) simp

lemma read_start:
  assumes "ns_name lib s t" "list_all (readable_attr lib ws) as"
  shows "rawToken lib cfg (''<'' @ full_name s t @ concat (map (\<lambda>a. '' '' @ write_triple ws a) as) @ ''>'' @ rest) = TRaw [RStart s t as] rest"
    "rawToken lib cfg (''<'' @ full_name s t @ concat (map (\<lambda>a. '' '' @ write_triple ws a) as) @ ''/>'' @ rest) = TRaw [RStart s t as, REnd s t] rest"
proof -
  let ?as = "concat (map (\<lambda>a. '' '' @ write_triple ws a) as)"
  obtain c cs where c: "full_name s t = c # cs" "name_byte c" using assms(1) plain_name_hd unfolding ns_name_def by blast
  have c': "c \<noteq> CHR ''/''" "c \<noteq> CHR ''?''" "c \<noteq> CHR ''!''" using c(2) by auto
  have n: "read_nsname lib msg (full_name s t @ ?as @ z # zs) = Inr ((s, t), ?as @ z # zs)" if "\<not> name_byte z" for msg z zs
    using read_ns_name [OF assms(1)] that by (cases as) simp_all
  have l: "attr_loop lib cfg [] (?as @ u) = attr_loop lib cfg as u" for u using read_written_attrs [OF assms(2), of cfg "[]" u] by simp
  have go: "rawToken lib cfg (''<'' @ full_name s t @ u) = start_tag lib cfg (full_name s t @ u)" for u using c(1) c' by (simp add: rawToken_def)
  show "rawToken lib cfg (''<'' @ full_name s t @ ?as @ ''>'' @ rest) = TRaw [RStart s t as] rest"
    unfolding go using n [of "CHR ''>''"] l [of "CHR ''>'' # rest"] by (simp add: start_tag_def attr_loop_end)
  show "rawToken lib cfg (''<'' @ full_name s t @ ?as @ ''/>'' @ rest) = TRaw [RStart s t as, REnd s t] rest"
    unfolding go using n [of "CHR ''/''"] l [of "CHR ''/'' # CHR ''>'' # rest"] by (simp add: start_tag_def attr_loop_end)
qed

lemma read_end: "ns_name lib s t \<Longrightarrow> rawToken lib cfg (''</'' @ full_name s t @ ''>'' @ rest) = TRaw [REnd s t] rest"
  using read_ns_name [of lib s t "CHR ''>''"] by (simp add: rawToken_def end_tag_def skip_space_def)

text \<open>No two dashes in a comment nor one at its end, no end of an instruction within it, quotes and angle brackets of a directive in pairs.\<close>

fun free_of :: "char \<Rightarrow> char \<Rightarrow> string \<Rightarrow> bool" where
  "free_of a b (x # y # s) \<longleftrightarrow> \<not> (x = a \<and> y = b) \<and> free_of a b (y # s)"
| "free_of a b _ \<longleftrightarrow> True"

fun balanced :: "char option \<Rightarrow> nat \<Rightarrow> string \<Rightarrow> bool" where
  "balanced q n [] \<longleftrightarrow> q = None \<and> n = 0"
| "balanced (Some c) n (x # s) \<longleftrightarrow> balanced (if x = c then None else Some c) n s"
| "balanced None n (x # s) \<longleftrightarrow>
     (if x = sq \<or> x = dq then balanced (Some x) n s
      else if x = CHR ''>'' then 0 < n \<and> balanced None (n - 1) s
      else if x = CHR ''<'' then take 3 s \<noteq> ''!--'' \<and> balanced None (Suc n) s
      else balanced None n s)"

lemma read_comment_loop:
  "free_of (CHR ''-'') (CHR ''-'') (b1 # d @ ''-'') \<Longrightarrow> \<not> (b0 = CHR ''-'' \<and> b1 = CHR ''-'') \<Longrightarrow>
   comment_loop b0 b1 buf (d @ ''-->'' @ rest) = Inr (buf @ d, rest)"
proof (induction d arbitrary: b0 b1 buf)
  case (Cons b d)
  have "comment_loop b1 b (buf @ [b]) (d @ ''-->'' @ rest) = Inr ((buf @ [b]) @ d, rest)" by (rule Cons.IH) (use Cons.prems in auto)
  then show ?case using Cons.prems(2) by auto
qed auto

lemma read_procinst_loop:
  "free_of (CHR ''?'') (CHR ''>'') (b0 # i) \<Longrightarrow> procinst_loop b0 buf (i @ ''?>'' @ rest) = Inr (buf @ i, rest)"
proof (induction i arbitrary: b0 buf)
  case (Cons b i)
  have "procinst_loop b (buf @ [b]) (i @ ''?>'' @ rest) = Inr ((buf @ [b]) @ i, rest)" by (rule Cons.IH) (use Cons.prems in auto)
  then show ?case using Cons.prems by auto
qed auto

lemma no_comment: "take 3 s \<noteq> ''!--'' \<Longrightarrow> take 3 (s @ CHR ''>'' # rest) \<noteq> ''!--''"
  by (cases s; cases "tl s"; cases "tl (tl s)") (auto simp: numeral_3_eq_3)

lemma read_directive_loop: "balanced q n d \<Longrightarrow> directive_loop q n buf (d @ CHR ''>'' # rest) = Inr (buf @ d, rest)"
proof (induction q n d arbitrary: buf rule: balanced.induct)
  case (2 c n x s)
  then show ?case by (cases "x = c") auto
next
  case (3 n x s)
  then show ?case using no_comment [of s rest] by (auto split: if_splits)
qed auto

fun is_text :: "xml \<Rightarrow> bool" where
  "is_text (XChar d f) \<longleftrightarrow> True"
| "is_text x \<longleftrightarrow> False"

fun apart :: "xml list \<Rightarrow> bool" where
  "apart (x # y # xs) \<longleftrightarrow> \<not> (is_text x \<and> is_text y) \<and> apart (y # xs)"
| "apart _ \<longleftrightarrow> True"

fun decodable :: "xml_library \<Rightarrow> WriteSettings \<Rightarrow> xml \<Rightarrow> bool" where
  "decodable lib ws (XElement s t as xs) \<longleftrightarrow> ns_name lib s t \<and> list_all (readable_attr lib ws) as \<and> apart xs \<and> list_all (decodable lib ws) xs"
| "decodable lib ws (XChar d f) \<longleftrightarrow> d \<noteq> [] \<and> \<not> IsCData f \<and> valid_text d \<and> (\<not> CanonicalText ws \<longrightarrow> cr \<notin> set d)"
| "decodable lib ws (XComment d) \<longleftrightarrow> free_of (CHR ''-'') (CHR ''-'') (d @ ''-'')"
| "decodable lib ws (XDirective d) \<longleftrightarrow> (case d of [] \<Rightarrow> False | c # cs \<Rightarrow> c \<noteq> CHR ''-'' \<and> c \<noteq> CHR ''['' \<and> balanced None 0 cs)"
| "decodable lib ws (XProcInst t i) \<longleftrightarrow> plain_name lib t \<and> free_of (CHR ''?'') (CHR ''>'') i \<and> skip_space i = i
     \<and> (t = ''xml'' \<longrightarrow> declaration_error lib i = None)"

lemma free_of_Cons: "c \<noteq> a \<Longrightarrow> free_of a b (c # s) = free_of a b s"
  by (cases s) auto

lemma read_leaf:
  "decodable lib ws (XComment d) \<Longrightarrow> rawToken lib cfg (write_xml ws (XComment d) @ rest) = TRaw [RComment d] rest"
  "decodable lib ws (XDirective d) \<Longrightarrow> rawToken lib cfg (write_xml ws (XDirective d) @ rest) = TRaw [RDirective d] rest"
  "decodable lib ws (XProcInst t i) \<Longrightarrow> rawToken lib cfg (write_xml ws (XProcInst t i) @ rest) = TRaw [RProcInst t i] rest"
proof -
  assume "decodable lib ws (XComment d)"
  then show "rawToken lib cfg (write_xml ws (XComment d) @ rest) = TRaw [RComment d] rest"
    using read_comment_loop [of "CHR 0x00" d "CHR 0x00" "[]" rest] by (simp add: rawToken_def bang_tag_def free_of_Cons)
next
  assume "decodable lib ws (XDirective d)"
  then show "rawToken lib cfg (write_xml ws (XDirective d) @ rest) = TRaw [RDirective d] rest"
    using read_directive_loop [of None 0 "tl d" "[hd d]" rest] by (cases d) (simp_all add: rawToken_def bang_tag_def)
next
  assume d: "decodable lib ws (XProcInst t i)"
  let ?u = "(if i \<noteq> [] then '' '' @ i else []) @ ''?>'' @ rest"
  have "read_name lib msg (t @ ?u) = Inr (t, ?u)" for msg using read_plain_name [of lib t] d by (cases i) simp_all
  moreover have "skip_space ?u = i @ ''?>'' @ rest"
  proof (cases i)
    case (Cons c cs)
    have "\<not> (c = sp \<or> c = cr \<or> c = nl \<or> c = tab)"
    proof
      assume "c = sp \<or> c = cr \<or> c = nl \<or> c = tab"
      then have "skip_space (c # cs) = skip_space cs" by (auto simp: skip_space_def)
      then show False using d Cons skip_space_le [of cs] by simp
    qed
    then show ?thesis using Cons by (simp add: skip_space_def)
  qed (simp add: skip_space_def)
  ultimately show "rawToken lib cfg (write_xml ws (XProcInst t i) @ rest) = TRaw [RProcInst t i] rest"
    using d read_procinst_loop [of "CHR 0x00" i "[]" rest] by (simp add: rawToken_def procinst_tag_def write_procinst_def free_of_Cons)
qed

lemma escape_hd_text: "d \<noteq> [] \<Longrightarrow> \<exists>c cs. escapeString d m = c # cs \<and> c \<noteq> CHR ''<''"
proof -
  assume d: "d \<noteq> []"
  obtain r w where w: "decode_rune d = (r, w)" by fastforce
  then have "take w d \<noteq> []" using decode_rune_width [OF d] d by simp
  moreover have "\<not> (escape_rune m r w = Some [])" by (simp add: escape_rune_def replacement_def)
  ultimately have "escapeString d m \<noteq> []" using escape_step [OF d w, of m, folded escapeString_def] by (auto split: option.splits)
  then show ?thesis using escape_safe [of d m] by (cases "escapeString d m") auto
qed

lemma read_char:
  assumes "decodable lib ws (XChar d f)" "at_tag rest"
  shows "rawToken lib cfg (write_xml ws (XChar d f) @ rest) = TRaw [RChar d] rest"
proof -
  let ?m = "if CanonicalText ws then escapeCanonicalText else escapeNormal"
  obtain c cs where c: "escapeString d ?m = c # cs" "c \<noteq> CHR ''<''" using escape_hd_text [of d ?m] assms(1) by auto
  moreover have "read_text lib cfg None False (escapeString d ?m @ rest) = Inr (d, rest)"
    using assms by (intro read_escaped_text) auto
  ultimately show ?thesis using assms(1) by (simp add: write_text_def rawToken_def)
qed

lemma written_at_tag: "\<not> is_text x \<Longrightarrow> at_tag (write_xml ws x @ rest)"
  by (cases x) (simp_all add: at_tag_def write_procinst_def)

lemma read_written_list:
  assumes "\<And>x rest. x \<in> set xs \<Longrightarrow> decodable lib ws x \<Longrightarrow> (is_text x \<longrightarrow> at_tag rest) \<Longrightarrow>
      raw_tokens lib cfg (write_xml ws x @ rest) = apfst ((@) (raws x)) (raw_tokens lib cfg rest)"
    "list_all (decodable lib ws) xs" "apart xs" "at_tag rest"
  shows "raw_tokens lib cfg (concat (map (write_xml ws) xs) @ rest) = apfst ((@) (concat (map raws xs))) (raw_tokens lib cfg rest)"
  using assms
proof (induction xs)
  case (Cons x xs)
  let ?u = "concat (map (write_xml ws) xs) @ rest"
  have "at_tag ?u" if "is_text x"
    using that Cons.prems(3,4) written_at_tag by (cases xs) auto
  then have "raw_tokens lib cfg (write_xml ws x @ ?u) = apfst ((@) (raws x)) (raw_tokens lib cfg ?u)" using Cons.prems(1,2) by simp
  moreover have "apart xs" using Cons.prems(3) by (cases xs) auto
  then have "raw_tokens lib cfg ?u = apfst ((@) (concat (map raws xs))) (raw_tokens lib cfg rest)" using Cons by simp
  ultimately show ?case by (simp add: apfst_compose comp_def)
qed (simp add: apfst_def map_prod_def)

lemma read_written:
  "decodable lib ws x \<Longrightarrow> (is_text x \<longrightarrow> at_tag rest) \<Longrightarrow>
   raw_tokens lib cfg (write_xml ws x @ rest) = apfst ((@) (raws x)) (raw_tokens lib cfg rest)"
proof (induction x arbitrary: rest)
  case (XElement s t as xs)
  let ?n = "full_name s t"
  have o: "ns_name lib s t" "list_all (readable_attr lib ws) as" "list_all (decodable lib ws) xs" "apart xs" using XElement.prems(1) by simp_all
  have e: "raw_tokens lib cfg (''</'' @ ?n @ ''>'' @ rest) = apfst ((@) [REnd s t]) (raw_tokens lib cfg rest)"
    by (rule raw_tokens_step [OF read_end [OF o(1)]])
  have l: "raw_tokens lib cfg (concat (map (write_xml ws) xs) @ ''</'' @ ?n @ ''>'' @ rest)
      = apfst ((@) (concat (map raws xs))) (raw_tokens lib cfg (''</'' @ ?n @ ''>'' @ rest))"
    by (rule read_written_list [OF XElement.IH o(3,4)]) (simp_all add: at_tag_def)
  note st = raw_tokens_step [OF read_start(1) [OF o(1,2), of cfg]] raw_tokens_step [OF read_start(2) [OF o(1,2), of cfg]]
  show ?case
  proof (cases "xs = [] \<and> \<not> CanonicalEndTags ws")
    case True
    then show ?thesis using st(2) [of rest] by simp
  next
    case False
    then have "write_xml ws (XElement s t as xs) @ rest = ''<'' @ ?n @ concat (map (\<lambda>a. '' '' @ write_triple ws a) as) @ ''>''
        @ concat (map (write_xml ws) xs) @ ''</'' @ ?n @ ''>'' @ rest" by simp
    then show ?thesis using st(1) [of "concat (map (write_xml ws) xs) @ ''</'' @ ?n @ ''>'' @ rest"] l e by (simp only:) (simp add: apfst_compose comp_def)
  qed
next
  case (XChar d f)
  then show ?case using raw_tokens_step [OF read_char [of lib ws d f rest cfg]] by simp
next
  case (XComment d)
  then show ?case using raw_tokens_step [OF read_leaf(1) [of lib ws d cfg rest]] by simp
next
  case (XDirective d)
  then show ?case using raw_tokens_step [OF read_leaf(2) [of lib ws d cfg rest]] by simp
next
  case (XProcInst t i)
  then show ?case using raw_tokens_step [OF read_leaf(3) [of lib ws t i cfg rest]] by simp
qed

lemma read_document:
  assumes "list_all (decodable lib ws) xs" "apart xs"
  shows "raw_tokens lib cfg (concat (map (write_xml ws) xs)) = (concat (map raws xs), None)"
proof -
  have "raw_tokens lib cfg [] = ([], None)" by (simp add: raw_tokens.simps rawToken_def)
  then show ?thesis using read_written_list [of xs lib ws cfg "[]"] read_written assms by (simp add: at_tag_def)
qed

end
