(* ===== verification/Xml_Props.thy ===== *)
theory Xml_Props
  imports Xml_Relative Xml_Decode
begin

section \<open>Package goxml: properties\<close>

text \<open>
  The properties of \<^verbatim>\<open>goxml\<close>. The samples the witnesses use are the document \<^verbatim>\<open><a><b/>x</a>\<close> in memory
  and its tree.
\<close>

definition sample :: heap where
  "sample =
     [\<lparr>body = Element [] [] [] [1], parent = None, index = 0\<rparr>, \<lparr>body = Element [] ''a'' [] [2, 3], parent = Some 0, index = 0\<rparr>,
      \<lparr>body = Element [] ''b'' [] [], parent = Some 1, index = 0\<rparr>, \<lparr>body = CharData ''x'' 0, parent = Some 1, index = 1\<rparr>]"

definition sample_tree :: xml where
  "sample_tree = XElement [] [] [] [XElement [] ''a'' [] [XElement [] ''b'' [] [], XChar ''x'' 0]]"

definition sample_doc :: Document where
  "sample_doc = \<lparr>embedded = 0, readSettings = newReadSettings, writeSettings = newWriteSettings\<rparr>"

lemma sample_nth:
  "length sample = 4" "sample ! 0 = \<lparr>body = Element [] [] [] [1], parent = None, index = 0\<rparr>"
  "sample ! Suc 0 = \<lparr>body = Element [] ''a'' [] [2, 3], parent = Some 0, index = 0\<rparr>"
  "sample ! 2 = \<lparr>body = Element [] ''b'' [] [], parent = Some 1, index = 0\<rparr>"
  "sample ! 3 = \<lparr>body = CharData ''x'' 0, parent = Some 1, index = 1\<rparr>"
  by (simp_all add: sample_def)

lemma sample_below: "a < length sample \<longleftrightarrow> a = 0 \<or> a = Suc 0 \<or> a = 2 \<or> a = 3"
  by (auto simp: sample_nth)

lemma all_sample: "(\<forall>a < length sample. P a) \<longleftrightarrow> P 0 \<and> P (Suc 0) \<and> P 2 \<and> P 3"
  unfolding sample_below by blast

lemma sample_views:
  "child sample 0 = [1]" "child sample (Suc 0) = [2, 3]" "child sample 2 = []" "child sample 3 = []"
  "is_Elem sample 0" "is_Elem sample (Suc 0)" "is_Elem sample 2" "\<not> is_Elem sample 3"
  "tag sample 0 = []" "tag sample (Suc 0) = ''a''" "tag sample 2 = ''b''"
  by (simp_all add: child_def is_Elem_def tag_def sample_nth)

lemma sample_linked: "linked sample"
  unfolding linked_def all_sample by (simp add: sample_views sample_nth All_less_Suc)

lemma sample_listed: "listed sample 2" "listed sample 3"
  unfolding listed_def by (rule exI [of _ "Suc 0"], simp add: sample_views sample_nth(1))+

lemma sample_repr: "repr sample UNIV 0 sample_tree"
  by (simp add: sample_tree_def repr_simps sample_nth sample_below)

lemma sample_searchable: "searchable sample sample_tree 0"
  using sample_linked sample_repr by (auto simp: searchable_def sample_views sample_nth)

lemma sample_elems: "elems sample sample_tree 0 = [0, 1, 2]"
  by (simp add: elems_def sample_tree_def sample_views)

lemma sample_plain: "plain_below sample sample_tree 0"
  by (simp add: plain_below_def sample_elems sample_views plain_tag_def clean_def)

lemma map_parse: "map (bare \<circ> parseSelector) ss = map bare (map parseSelector ss)"
  by simp

subsection \<open>Trees in memory\<close>

text \<open>
  C20. Links: after any sequence of edits (new documents and tokens, adding, inserting and removing
  children, text, attributes, roots, copies of elements, indentation and reading), a child of an element
  knows the element as its parent and its position among the children, and it is in no other position and
  in no other element.
\<close>

theorem xml_links:
  assumes "edit\<^sup>*\<^sup>* [] h" "e < length h" "i < length (child h e)"
  shows "child h e ! i < length h \<and> parent (h ! (child h e ! i)) = Some e \<and> index (h ! (child h e ! i)) = int i
    \<and> (\<forall>e' < length h. \<forall>j < length (child h e'). child h e' ! j = child h e ! i \<longrightarrow> e' = e \<and> j = i)"
proof -
  have l: "linked h" using assms(1) by (rule reachable_linked)
  note c = linked_child [OF l]
  have "e' = e \<and> j = i" if "e' < length h" "j < length (child h e')" "child h e' ! j = child h e ! i" for e' j
    using c(2,3) [OF that(1,2)] c(2,3) [OF assms(2,3)] that(3) by simp
  then show ?thesis using c [OF assms(2,3)] by blast
qed

theorem xml_links_witness: 
  "let h = snd (CreateElement (snd (NewDocument [])) 0 ''a'') in child h 0 = [1] \<and> parent (h ! 1) = Some 0"
proof -
  let ?d = "snd (NewDocument [])" and ?h = "snd (CreateElement (snd (NewDocument [])) 0 ''a'')"
  have h: "?h = snd (new_token ?d (Element [] ''a'' [] []) (Some 0))"
    by (simp add: CreateElement_def newElement_token spaceDecompose_def)
  have e: "elem_at ?d 0" by (simp add: elem_at_def NewDocument_def is_Elem_def)
  have "edit ?d ?h" unfolding h using e by (intro edit.new_token) auto
  then have r: "edit\<^sup>*\<^sup>* [] ?h" using edit.new_document [of "[]"] by (meson rtranclp.rtrancl_into_rtrancl rtranclp.rtrancl_refl)
  have ch: "child ?h 0 = [1]" "length ?h = 2" unfolding h by (simp_all add: new_token_def NewDocument_def addChild_def setParent_def setIndex_def setChild_def setBody_def child_def)
  have b: "0 < length ?h" "0 < length (child ?h 0)" unfolding ch by simp_all
  show ?thesis using xml_links [OF r b] ch by (simp add: Let_def)
qed

text \<open>
  Inserting by position: the children are those without the token, with the token at the position
  asked for, except that a token that is a later child of the same element lands one position before it, and
  that moving such a token to position 0 panics.
\<close>

lemma xml_insert_child_at:
  assumes "linked h" "e < length h" "t < length h" "parent (h ! t) = None \<or> listed h t" "i < length (child h e)"
  shows "if t \<in> set (drop (Suc i) (child h e)) \<and> i = 0 then InsertChildAt h e (int i) t = Panic
    else let k = (if t \<in> set (drop (Suc i) (child h e)) then i - 1 else i); others = remove1 t (child h e)
         in \<exists>h'. InsertChildAt h e (int i) t = Ret h' \<and> linked h' \<and> child h' e = take k others @ t # drop k others
              \<and> (\<forall>a < length h. a \<noteq> e \<longrightarrow> child h' a = remove1 t (child h a))"
proof -
  have p: "proper h t" using assms(4) by (simp add: proper_def)
  show ?thesis
    using InsertChildAt_spec [OF assms(1-3) p assms(5)]
    by (cases "t \<in> set (drop (Suc i) (child h e))"; cases "i = 0") (simp_all only: insert_position_def Let_def if_True if_False simp_thms option.case)
qed

text \<open>
  Text: after \<^verbatim>\<open>SetText\<close> the text of an element is the string, and after \<^verbatim>\<open>SetTail\<close> of an element that is
  a child its tail is, whatever character data was there; both keep the links.
\<close>

lemma xml_set_text:
  assumes "linked h" "e < length h" "is_Elem h e"
  shows "(\<exists>h'. SetText h e str = Ret h' \<and> linked h' \<and> Text h' e = str)
    \<and> (listed h e \<longrightarrow> (\<exists>h'. SetTail h e str = Ret h' \<and> linked h' \<and> Tail h' e = Ret str))"
  using SetText_Text [OF assms] SetTail_Tail [OF assms(1,2)] by blast

lemma document_copy:
  assumes "linked h" "repr h S (embedded d) x"
  shows "\<exists>d' h'. Document_Copy h d = Some (d', h') \<and> (\<forall>a < length h. h' ! a = h ! a)
      \<and> repr h' {length h..<length h'} (embedded d') x
      \<and> (\<forall>c \<in> set (child h' (embedded d')). parent (h' ! c) = Some (length h) \<and> length h \<noteq> embedded d')"
proof -
  obtain h' where h': "Element_Copy h (embedded d) = Some (length h, h')" "length h \<le> length h'" "\<And>b. b < length h \<Longrightarrow> h' ! b = h ! b"
    "repr h' {length h..<length h'} (length h) x" by (rule Copy_tree [OF assms(2)]) blast
  have "embedded d < length h" using repr_in [OF assms(2)] by simp
  note l = Element_Copy_linked [OF assms(1) this h'(1)]
  let ?h = "h' @ [h' ! length h]" and ?n = "length h'"
  have c: "Document_Copy h d = Some (d\<lparr>embedded := ?n\<rparr>, ?h)" using h'(1) by (simp add: Document_Copy_def Element_Copy_def)
  have same: "?h ! ?n = h' ! length h" "length h < ?n" using l by simp_all
  have f: "repr ?h {length h..<length ?h} b y" if "repr h' {length h..<length h'} b y" for b y
    using that by (rule repr_frame) (auto simp: nth_append)
  have r: "repr ?h {length h..<length ?h} ?n x"
    using h'(4) by (cases rule: repr.cases) (use f same in \<open>auto intro!: repr.intros elim!: list_all2_mono\<close>)
  have p: "parent (?h ! c) = Some (length h) \<and> length h \<noteq> ?n" if "c \<in> set (child ?h ?n)" for c
  proof -
    have "c \<in> set (child h' (length h))" using that same(1) by (simp add: child_def)
    then have "c < ?n" "parent (h' ! c) = Some (length h)" using l linked_member [of h' "length h" c] by auto
    then show ?thesis using same(2) by (simp add: nth_append)
  qed
  have "\<forall>a < length h. ?h ! a = h ! a" using h'(2,3) by (simp add: nth_append)
  then show ?thesis using c r p by (intro exI [of _ "d\<lparr>embedded := ?n\<rparr>"] exI [of _ ?h]) simp
qed

text \<open>
  Copies: the copy of an element stands for the same tree, in new memory only, is linked, has no parent
  and is written as the original is. The copy of a document stands for the same tree as well, but its
  children have another element as their parent.
\<close>

lemma xml_copy:
  assumes "linked h" "repr h S e x"
  shows "(\<exists>h'. Element_Copy h e = Some (length h, h') \<and> linked h' \<and> (\<forall>a < length h. h' ! a = h ! a)
      \<and> repr h' {length h..<length h'} (length h) x \<and> parent (h' ! length h) = None \<and> writeTo h' s [length h] = writeTo h s [e])
    \<and> (embedded d = e \<longrightarrow> (\<exists>d' h'. Document_Copy h d = Some (d', h') \<and> (\<forall>a < length h. h' ! a = h ! a)
      \<and> repr h' {length h..<length h'} (embedded d') x
      \<and> (\<forall>c \<in> set (child h' (embedded d')). parent (h' ! c) = Some (length h) \<and> length h \<noteq> embedded d')))"
proof -
  obtain h' where h': "Element_Copy h e = Some (length h, h')" "length h \<le> length h'" "\<And>b. b < length h \<Longrightarrow> h' ! b = h ! b"
    "repr h' {length h..<length h'} (length h) x" by (rule Copy_tree [OF assms(2)]) blast
  have e: "e < length h" using repr_in [OF assms(2)] by simp
  have "\<exists>h'. Element_Copy h e = Some (length h, h') \<and> linked h' \<and> (\<forall>a < length h. h' ! a = h ! a)
      \<and> repr h' {length h..<length h'} (length h) x \<and> parent (h' ! length h) = None \<and> writeTo h' s [length h] = writeTo h s [e]"
    using h' Element_Copy_linked [OF assms(1) e h'(1)]
    by (intro exI [of _ h']) (simp add: writeTo_repr [OF h'(4)] writeTo_repr [OF assms(2)])
  then show ?thesis using document_copy [of h S d x] assms by blast
qed

subsection \<open>Text\<close>

text \<open>
  C21. Escaping: what is written holds no angle bracket that opens a tag, no double quote in attribute
  values and ordinary text, and no carriage return in the canonical forms; read back by an XML parser, which
  replaces references and ends of lines, it is the string with what is no XML character replaced, exactly
  when it is not an ordinary string with a carriage return.
\<close>

theorem xml_escape:
  "CHR ''<'' \<notin> set (escapeString s m)
   \<and> (m \<noteq> escapeCanonicalText \<longrightarrow> dq \<notin> set (escapeString s m)) \<and> (m \<noteq> escapeNormal \<longrightarrow> cr \<notin> set (escapeString s m))
   \<and> (unescape (eol (escapeString s m)) = sanitize s \<longleftrightarrow> (m = escapeNormal \<longrightarrow> cr \<notin> set s))"
  using escape_safe [of s m] escape_roundtrip [of s m] by simp

theorem xml_escape_witness:
  "dq \<notin> set (escapeString [dq, cr] escapeCanonicalAttr) \<and> unescape (eol (escapeString [dq, cr] escapeCanonicalAttr)) = sanitize [dq, cr]"
  using xml_escape [of "[dq, cr]" escapeCanonicalAttr] by blast

text \<open>
  C22. Writing and reading: a new document that reads, with the decoder of Go, what a document wrote stands for the same trees and writes the
  same text. The trees have names that the decoder accepts, no attribute twice, text of XML characters, without carriage returns unless it is
  written in canonical form, not empty and not beside other text, comments without two dashes, directives with quotes and brackets in
  pairs, instructions that do not contain their end; and text that is neither a CDATA section nor has another flag than the reader sets.
\<close>

theorem xml_write_read:
  assumes "list_all2 (repr h S) (child h (embedded d)) xs" "list_all readable xs" "list_all (decodable lib (writeSettings d)) xs" "apart xs"
  shows "\<exists>s h2. WriteToString h d = Some s \<and> ReadFromString (xml_decoder lib) (snd (NewDocument h)) (fst (NewDocument h)) s = (h2, None)
    \<and> list_all2 (repr h2 {length h<..<length h2}) (child h2 (length h)) xs
    \<and> WriteToString h2 (fst (NewDocument h)\<lparr>writeSettings := writeSettings d\<rparr>) = Some s"
proof -
  let ?d = "fst (NewDocument h)" and ?h = "snd (NewDocument h)" and ?s = "concat (map (write_xml (writeSettings d)) xs)"
  have w: "WriteToString h d = Some ?s" using writeTo_list [OF assms(1)] by (simp add: WriteToString_def)
  have n: "embedded ?d = length h" "readSettings ?d = newReadSettings" "length ?h = Suc (length h)" "child ?h (length h) = []" "is_Elem ?h (length h)"
    by (simp_all add: NewDocument_def child_def is_Elem_def)
  obtain h2 where h2: "readFrom ?h (length h) (concat (map raws xs), None) = (h2, None)" "adds ?h (length h) xs h2"
    by (rule readFrom_trees [OF assms(2), of "length h" ?h]) (use n in auto)
  have c: "list_all2 (repr h2 {length h<..<length h2}) (child h2 (length h)) xs"
    using h2(2) n(3,4) by (simp add: adds_def atLeastSucLessThan_greaterThanLessThan)
  show ?thesis
    using w h2(1) c writeTo_list [OF c] n(1,2) read_document [OF assms(3,4)]
    by (intro exI [of _ ?s] exI [of _ h2]) (simp add: ReadFromString_def WriteToString_def xml_decoder_def)
qed

theorem xml_write_read_witness:
  "\<exists>s h2. WriteToString sample sample_doc = Some s
    \<and> ReadFromString (xml_decoder \<lparr>letters = (\<lambda>r. False), extenders = (\<lambda>r. False), declaration_error = (\<lambda>i. None)\<rparr>)
        (snd (NewDocument sample)) (fst (NewDocument sample)) s = (h2, None)
    \<and> WriteToString h2 (fst (NewDocument sample)\<lparr>writeSettings := writeSettings sample_doc\<rparr>) = Some s"
proof -
  let ?x = "XElement [] ''a'' [] [XElement [] ''b'' [] [], XChar ''x'' 0]"
  let ?lib = "\<lparr>letters = (\<lambda>r. False), extenders = (\<lambda>r. False), declaration_error = (\<lambda>i. None)\<rparr>"
  have "list_all2 (repr sample UNIV) (child sample (embedded sample_doc)) [?x]"
    using sample_repr by (simp add: sample_tree_def sample_doc_def sample_views repr_simps sample_nth)
  moreover have "list_all readable [?x]" by (simp add: isWhitespace_def)
  moreover have "list_all (decodable ?lib (writeSettings sample_doc)) [?x]"
    by (simp add: ns_name_def plain_name_def full_name_def nsname_def spaceDecompose_def name_byte_def isNameByte_def in_range_def ascii_def isName_def chunks_ascii
        name_first_def valid_text_def bad_rune_def isInCharacterRange_def IsCData_def)
  ultimately show ?thesis using xml_write_read [of sample UNIV sample_doc "[?x]" ?lib] by auto
qed

lemma indent_twice:
  assumes "linked h" "repr h S e x" "is_Elem h e"
  shows "\<exists>h1 h2 y. indent ind h e d = Some h1 \<and> indent ind h1 e d = Some h2 \<and> linked h2 \<and> y = indent_tree ind d x
    \<and> repr h1 UNIV e y \<and> repr h2 UNIV e y \<and> content y = content x
    \<and> (\<forall>b < length h. b \<notin> set (nodes h x e) \<longrightarrow> body (h1 ! b) = body (h ! b))"
proof -
  obtain s t as xs where x: "x = XElement s t as xs" using assms(2,3) repr_Elem by blast
  let ?y = "indent_tree ind d x"
  obtain h1 where h1: "indent ind h e d = Some h1" "becomes h (set (nodes h x e)) e ?y h1"
    using indent_repr [OF assms(1) assms(2) [unfolded x]] x by blast
  have e: "e < length h" using repr_in [OF assms(2)] by simp
  have l1: "linked h1" using indent_linked [OF assms(1) e assms(3) h1(1)] .
  have r1: "repr h1 UNIV e ?y" using h1(2) repr_mono by (auto simp: becomes_def)
  have "indent_tree ind d x = XElement s t as (if strip xs = [] then [] else indent_list ind d (strip xs) False True)"
    unfolding x by (rule indent_tree.simps)
  then obtain ys where y: "?y = XElement s t as ys" by blast
  obtain h2 where h2: "indent ind h1 e d = Some h2" "becomes h1 (set (nodes h1 ?y e)) e (indent_tree ind d ?y) h2"
    using indent_repr [OF l1 r1 [unfolded y]] y by metis
  have r2: "repr h2 UNIV e ?y" using h2(2) repr_mono by (auto simp: becomes_def indent_idem)
  have e1: "e < length h1" "is_Elem h1 e" using repr_in [OF r1] repr_Elem [OF r1] y by auto
  have "linked h2" using indent_linked [OF l1 e1 h2(1)] .
  then show ?thesis using h1 h2(1) r1 r2 content_indent [of ind d x] by (auto simp: becomes_def)
qed

text \<open>
  C23. Indentation: on a linked tree \<^verbatim>\<open>Indent\<close> and \<^verbatim>\<open>IndentTabs\<close> end, change no token outside the tree, keep all of the tree but the
  character data marked as white space, and doing it again changes neither the tree nor what is written.
\<close>

theorem xml_indent:
  assumes "linked h" "repr h S (embedded d) x" "is_Elem h (embedded d)" "f = (\<lambda>h. Indent h d spaces) \<or> f = (\<lambda>h. IndentTabs h d)"
  shows "\<exists>h1 h2 y. f h = Some h1 \<and> f h1 = Some h2 \<and> linked h2 \<and> repr h1 UNIV (embedded d) y \<and> repr h2 UNIV (embedded d) y
    \<and> content y = content x \<and> writeTo h1 s [embedded d] = writeTo h2 s [embedded d]
    \<and> (\<forall>b < length h. b \<notin> set (nodes h x (embedded d)) \<longrightarrow> body (h1 ! b) = body (h ! b))"
proof -
  obtain ind where "\<And>h. f h = indent ind h (embedded d) 0" using assms(4) by (auto simp: Indent_def IndentTabs_def)
  moreover obtain h1 h2 where h: "indent ind h (embedded d) 0 = Some h1" "indent ind h1 (embedded d) 0 = Some h2" "linked h2"
    "repr h1 UNIV (embedded d) (indent_tree ind 0 x)" "repr h2 UNIV (embedded d) (indent_tree ind 0 x)" "content (indent_tree ind 0 x) = content x"
    "\<forall>b < length h. b \<notin> set (nodes h x (embedded d)) \<longrightarrow> body (h1 ! b) = body (h ! b)"
    using indent_twice [OF assms(1-3), of ind 0] by blast
  moreover have "writeTo h1 s [embedded d] = writeTo h2 s [embedded d]" using writeTo_repr [OF h(4)] writeTo_repr [OF h(5)] by simp
  ultimately show ?thesis by (intro exI [of _ h1] exI [of _ h2] exI [of _ "indent_tree ind 0 x"]) simp
qed

theorem xml_indent_witness:
  "\<exists>h1 h2. Indent sample sample_doc 2 = Some h1 \<and> Indent h1 sample_doc 2 = Some h2 \<and> writeTo h1 newWriteSettings [0] = writeTo h2 newWriteSettings [0]"
proof -
  have "embedded sample_doc = 0" by (simp add: sample_doc_def)
  then show ?thesis
    using xml_indent [of sample UNIV sample_doc sample_tree "\<lambda>h. Indent h sample_doc 2" 2 newWriteSettings] sample_linked sample_repr sample_views(5) by auto
qed

subsection \<open>Paths\<close>

text \<open>
  C24. Searching: in a linked tree with no parent above it, a search for a path that compiles always ends,
  unless the path asks for the least of the 64 bit integers as a position, and finds, once each, the elements
  that the composition of the segments gives, level by level, all of them in the tree.
\<close>

theorem xml_search:
  assumes "linked h" "repr h S r x" "is_Elem h r" "parent (h ! r) = None" "e \<in> set (nodes h x r)" "is_Elem h e"
    and "CompilePath p = Ret (Inr path)" "\<forall>seg \<in> set path. Some (filterPos (- (2 ^ 63))) \<notin> set (filters seg)"
  shows "\<exists>es cs. FindElements h e p = Some (Ret es) \<and> path_elems h path [e] = Some (Ret cs) \<and> es = rev (remdups (rev cs))
    \<and> set es \<subseteq> set (nodes h x r) \<and> FindElement h e p = Some (Ret (if es = [] then None else Some (hd es)))"
proof -
  have s: "searchable h x r" using assms(1-4) by (auto simp: searchable_def)
  have e: "e \<in> set (elems h x r)" using assms(5,6) by (simp add: elems_def)
  have p: "safe_path path" "path \<noteq> []" using compile_ok [OF assms(7)] ok_safe [of path] assms(8) by (auto simp: min_pos_def)
  have m: "MustCompilePath p = Ret path" using assms(7) by (simp add: MustCompilePath_def)
  obtain es cs where es: "traverse h e path = Some (Ret es)" "path_elems h path [e] = Some (Ret cs)" "es = keep_first cs" "set es \<subseteq> set (elems h x r)"
    using traverse_ends [OF s e p] by blast
  have "FindElement h e p = Some (Ret (if es = [] then None else Some (hd es)))"
    using es(1) m by (cases es) (simp_all add: FindElement_def FindElementPath_def)
  moreover have "set es \<subseteq> set (nodes h x r)" using es(4) by (auto simp: elems_def)
  ultimately show ?thesis using es m by (auto simp: FindElements_def FindElementsPath_def keep_first_def)
qed

theorem xml_search_witness:
  "FindElements sample 0 ''a/b'' = Some (Ret [2]) \<and> FindElement sample 0 ''a/b'' = Some (Ret (Some 2))"
proof -
  have c: "CompilePath ''a/b'' = Ret (Inr [bare (selectChildrenByTag [] ''a''), bare (selectChildrenByTag [] ''b'')])"
    by (simp add: CompilePath_def parsePath_def has_suffix_def splitPath_def parseSegment_def parseSelector_def spaceDecompose_def bare_def)
  have "parent (sample ! 0) = None" by (simp add: sample_nth)
  note f = xml_search [OF sample_linked sample_repr sample_views(5) this nodes_self sample_views(5) c]
  have "path_elems sample [bare (selectChildrenByTag [] ''a''), bare (selectChildrenByTag [] ''b'')] [0] = Some (Ret [2])"
    by (simp add: segment_apply_def apply_selector_def elem_match_def sample_views spaceMatch_def bare_def)
  then show ?thesis using f by (simp add: bare_def)
qed

text \<open>
  C25. Own paths: in a linked tree whose tags, below the top, are plain (not empty, no dots or star alone, no slash, bracket, quote or
  colon), the path of an element relative to any other, searched for from the other, finds the element, and
  so does the absolute path where the top is a document.
\<close>

theorem xml_own_path:
  assumes "linked h" "repr h S r x" "is_Elem h r" "parent (h ! r) = None" "e \<in> set (nodes h x r)" "is_Elem h e" "src \<in> set (nodes h x r)" "is_Elem h src"
    and "\<forall>c \<in> set (nodes h x r). is_Elem h c \<and> c \<noteq> r \<longrightarrow> plain_tag (tag h c)"
  shows "(\<exists>p es. GetRelativePath h e (Some src) = Some p \<and> FindElements h src p = Some (Ret es) \<and> e \<in> set es)
    \<and> (tag h r = [] \<and> e \<noteq> r \<longrightarrow> (\<exists>p es. GetPath h e = Some p \<and> FindElements h src p = Some (Ret es) \<and> e \<in> set es))"
proof (intro conjI impI)
  have s: "searchable h x r" using assms(1-4) by (auto simp: searchable_def)
  have e: "e \<in> set (elems h x r)" "src \<in> set (elems h x r)" using assms(5-8) by (simp_all add: elems_def)
  have p: "plain_below h x r" using assms(9) by (simp add: plain_below_def elems_def)
  obtain ss where ss: "GetRelativePath h e (Some src) = Some (strings_Join ss ''/'')" "ss \<noteq> []" "\<forall>s \<in> set ss. clean s"
    "leads h (map parseSelector ss) src e" using relative_path_leads [OF s e p] by blast
  show "\<exists>p es. GetRelativePath h e (Some src) = Some p \<and> FindElements h src p = Some (Ret es) \<and> e \<in> set es"
    using leads_search [OF s e(2) ss(4), of "strings_Join ss ''/''"] compile_join(1) [OF ss(2,3)] ss(1,2) by simp
  assume t: "tag h r = [] \<and> e \<noteq> r"
  obtain us where us: "GetPath h e = Some (''/'' @ strings_Join us ''/'')" "us \<noteq> []" "\<forall>s \<in> set us. clean s"
    "leads h (selectRoot # map parseSelector us) src e" using absolute_path_leads [OF s e p] t by blast
  show "\<exists>p es. GetPath h e = Some p \<and> FindElements h src p = Some (Ret es) \<and> e \<in> set es"
    using leads_search [OF s e(2) us(4), of "''/'' @ strings_Join us ''/''"] compile_join(2) [OF us(2,3)] us(1) by simp
qed

theorem xml_own_path_witness:
  "(\<exists>p es. GetRelativePath sample 2 (Some 0) = Some p \<and> FindElements sample 0 p = Some (Ret es) \<and> 2 \<in> set es)
   \<and> (\<exists>p es. GetPath sample 2 = Some p \<and> FindElements sample 0 p = Some (Ret es) \<and> 2 \<in> set es)"
proof -
  have "2 \<in> set (nodes sample sample_tree 0)" "0 \<in> set (nodes sample sample_tree 0)" by (simp_all add: sample_tree_def sample_views)
  moreover have "\<forall>c \<in> set (nodes sample sample_tree 0). is_Elem sample c \<and> c \<noteq> 0 \<longrightarrow> plain_tag (tag sample c)"
    using sample_plain by (simp add: plain_below_def elems_def)
  ultimately show ?thesis
    using xml_own_path [OF sample_linked sample_repr, of 2 0] sample_views(5,7,9) sample_nth(2) by simp
qed

lemma compile_single:
  assumes "CHR ''/'' \<notin> set p" "p \<noteq> []"
  shows "CompilePath p = (case parseSegment p of Panic \<Rightarrow> Panic | Ret (seg, Some e) \<Rightarrow> Ret (Inl e) | Ret (seg, None) \<Rightarrow> Ret (Inr [seg]))"
proof -
  have "split_path q cur p = [cur @ p]" for q cur using assms(1) by (induction p arbitrary: q cur) auto
  then have "splitPath p = [p]" by (simp add: splitPath_def)
  moreover have "last p \<noteq> CHR ''/''" "hd p \<noteq> CHR ''/''" using assms by (metis last_in_set, metis hd_in_set)
  moreover from this have "\<not> has_suffix p ''//''" "take 1 p \<noteq> ''/''" using no_slashes assms(2) by (auto simp: take_Suc)
  ultimately show ?thesis by (simp add: CompilePath_def parsePath_def split: outcome.split option.split)
qed

lemma one_filter:
  assumes "CHR ''['' \<notin> set s" "CHR ''['' \<notin> set f"
  shows "split_byte (CHR ''['') (s @ CHR ''['' # f) = [s, f]"
  using assms by (induction s) (auto simp: split_byte_none)

lemma index_quote: "sq \<notin> set v \<Longrightarrow> str_index [sq] (v @ sq # w) = Some (length v)"
  by (induction v) auto

text \<open>
  Paths that do not compile: an opening bracket at the end of a segment and a filter with a value and no key are
  not reported as errors but panic; an empty filter is reported.
\<close>

lemma xml_path_panics:
  assumes "clean s" "\<forall>c \<in> set v. c \<noteq> sq \<and> c \<noteq> CHR ''/'' \<and> c \<noteq> CHR ''[''"
  shows "CompilePath (s @ ''['') = Panic \<and> CompilePath (s @ ''[='' @ [sq] @ v @ [sq] @ '']'') = Panic
    \<and> CompilePath (s @ ''[]'') = Ret (Inl ''path contains an empty filter expression.'')"
proof -
  have q: "CHR ''/'' \<notin> set s" "CHR ''['' \<notin> set s" "s \<noteq> []" using assms(1) by (simp_all add: clean_def)
  have v: "sq \<notin> set v" "CHR ''/'' \<notin> set v" "CHR ''['' \<notin> set v" using assms(2) by auto
  let ?f = "''='' @ [sq] @ v @ [sq]"
  have "parseFilter ?f = Panic"
    using index_quote [OF v(1), of "[]"] by (simp add: parseFilter_def nextIndex_def)
  moreover have "split_byte (CHR ''['') (s @ ''['' @ ?f @ '']'') = [s, ?f @ '']'']" using one_filter [OF q(2), of "?f @ '']''"] v(3) by simp
  ultimately have "parseSegment (s @ ''['' @ ?f @ '']'') = Panic" by (simp add: parseSegment_def butlast_append)
  moreover have "parseSegment (s @ ''['') = Panic" using one_filter [OF q(2), of "[]"] by (simp add: parseSegment_def)
  moreover have "\<exists>seg. parseSegment (s @ ''[]'') = Ret (seg, Some ''path contains an empty filter expression.'')"
    using one_filter [OF q(2), of "'']''"] by (simp add: parseSegment_def parseFilter_def)
  ultimately show ?thesis
    using q v compile_single [of "s @ ''[''"] compile_single [of "s @ ''['' @ ?f @ '']''"] compile_single [of "s @ ''[]''"] by auto
qed

end
