(* ===== verification/Rfb_Wire.thy ===== *)
theory Rfb_Wire
  imports Vnc_Passwd Go_Prelude Outcome
begin

section \<open>Remote frame buffer: connections\<close>

text \<open>
  What \<^verbatim>\<open>vnc/vncclient\<close> and \<^verbatim>\<open>vnc/vncserver/rfb\<close> use of connections. A connection holds the bytes that will
  still come in before the peer closes it, the bytes written, and for each coming call of \<^verbatim>\<open>Write\<close> the error it
  fails with, if any. An operation ends with a value, an error that is returned or a panic, and leaves
  the connection changed. Records that extend a connection are the state of a client and of a server.
\<close>

datatype rfb_error =
    EOF | ErrUnexpectedEOF | WriteError string
  | VersionTooShort | VersionSyntax | VersionRest | MajorTooOld nat | MinorTooOld nat
  | NoSecurityTypes string | NoSuitableAuth | SecurityFailed string
  | UnsupportedEncoding "32 word" | NotLatin1 rune | OtherError string

datatype 'a ioresult = Done 'a | Fail rfb_error | Crash

record conn =
  inb :: bytes
  outb :: bytes
  werrs :: "string option list"

type_synonym ('s, 'a) io = "'s \<Rightarrow> 'a ioresult \<times> 's"

definition return_io :: "'a \<Rightarrow> ('s, 'a) io" where
  "return_io x c = (Done x, c)"

definition fail_io :: "rfb_error \<Rightarrow> ('s, 'a) io" where
  "fail_io e c = (Fail e, c)"

definition crash_io :: "('s, 'a) io" where
  "crash_io c = (Crash, c)"

definition bind_io :: "('s, 'a) io \<Rightarrow> ('a \<Rightarrow> ('s, 'b) io) \<Rightarrow> ('s, 'b) io" where
  "bind_io m f c = (case m c of (Done x, c') \<Rightarrow> f x c' | (Fail e, c') \<Rightarrow> (Fail e, c') | (Crash, c') \<Rightarrow> (Crash, c'))"

definition modify_io :: "('s \<Rightarrow> 's) \<Rightarrow> ('s, unit) io" where
  "modify_io f c = (Done (), f c)"

definition get_io :: "('s \<Rightarrow> 'a) \<Rightarrow> ('s, 'a) io" where
  "get_io f c = (Done (f c), c)"

fun times_io :: "nat \<Rightarrow> ('s, 'a) io \<Rightarrow> ('s, 'a list) io" where
  "times_io 0 m = return_io []"
| "times_io (Suc n) m = bind_io m (\<lambda>x. bind_io (times_io n m) (\<lambda>xs. return_io (x # xs)))"

text \<open>\<^verbatim>\<open>io.ReadFull\<close>, which \<^verbatim>\<open>binary.Read\<close> uses as well.\<close>

definition read_full :: "nat \<Rightarrow> ('z conn_scheme, bytes) io" where
  "read_full n c =
     (if n = 0 then (Done [], c)
      else if inb c = [] then (Fail EOF, c)
      else if length (inb c) < n then (Fail ErrUnexpectedEOF, c\<lparr>inb := []\<rparr>)
      else (Done (take n (inb c)), c\<lparr>inb := drop n (inb c)\<rparr>))"

definition read8 :: "('z conn_scheme, 8 word) io" where
  "read8 = bind_io (read_full 1) (\<lambda>b. return_io (b ! 0))"

definition read16 :: "('z conn_scheme, 16 word) io" where
  "read16 = bind_io (read_full 2) (\<lambda>b. return_io (the (of_be16 b)))"

definition read32 :: "('z conn_scheme, 32 word) io" where
  "read32 = bind_io (read_full 4) (\<lambda>b. return_io (of_be32 b))"

definition write_conn :: "bytes \<Rightarrow> ('z conn_scheme, unit) io" where
  "write_conn b c =
     (case werrs c of
        Some e # es \<Rightarrow> (Fail (WriteError e), c\<lparr>werrs := es\<rparr>)
      | ws \<Rightarrow> (Done (), c\<lparr>outb := outb c @ b, werrs := tl ws\<rparr>))"

text \<open>Pixels in the byte order of the format.\<close>

definition le16 :: "16 word \<Rightarrow> bytes" where
  "le16 v = rev (be16 v)"

definition le32 :: "32 word \<Rightarrow> bytes" where
  "le32 v = rev (be32 v)"

definition of_le16 :: "bytes \<Rightarrow> 16 word" where
  "of_le16 b = ucast (b ! 0) OR push_bit 8 (ucast (b ! 1))"

definition of_le32 :: "bytes \<Rightarrow> 32 word" where
  "of_le32 b = of_be32 (rev (take 4 b))"

subsection \<open>Laws\<close>

named_theorems io "reading and writing step by step"

lemma bind_return [io]: "bind_io (return_io x) f = f x" "bind_io (fail_io e) f = fail_io e" "bind_io crash_io f = crash_io"
  by (simp_all add: fun_eq_iff bind_io_def return_io_def fail_io_def crash_io_def)

lemma bind_bind [io]: "bind_io (bind_io m f) g = bind_io m (\<lambda>x. bind_io (f x) g)"
  by (auto simp: fun_eq_iff bind_io_def split: prod.split ioresult.split)

lemma bind_get [io]: "bind_io (get_io g) f c = f (g c) c" "bind_io (modify_io k) h c = h () (k c)"
  by (simp_all add: bind_io_def get_io_def modify_io_def)

lemma bind_Done: "m c = (Done x, c') \<Longrightarrow> bind_io m f c = f x c'"
  by (simp add: bind_io_def)

lemma bind_Fail: "m c = (Fail e, c') \<Longrightarrow> bind_io m f c = (Fail e, c')"
  by (simp add: bind_io_def)

lemma bind_Crash: "m c = (Crash, c') \<Longrightarrow> bind_io m f c = (Crash, c')"
  by (simp add: bind_io_def)

lemma returns: "return_io x c = (Done x, c)" "fail_io e c = (Fail e, c)" "crash_io c = (Crash, c)" "modify_io k c = (Done (), k c)" "get_io g c = (Done (g c), c)"
  by (simp_all add: return_io_def fail_io_def crash_io_def modify_io_def get_io_def)

lemma read_full_append: "inb c = b @ rest \<Longrightarrow> length b = n \<Longrightarrow> bind_io (read_full n) f c = f b (c\<lparr>inb := rest\<rparr>)"
  by (cases "b = []") (auto simp: bind_io_def read_full_def)

lemma read8_step: "inb c = b # rest \<Longrightarrow> bind_io read8 f c = f b (c\<lparr>inb := rest\<rparr>)"
  unfolding read8_def bind_bind by (subst read_full_append [of c "[b]" rest]) (simp_all add: io returns)

lemma read16_step: "inb c = be16 v @ rest \<Longrightarrow> bind_io read16 f c = f v (c\<lparr>inb := rest\<rparr>)"
  unfolding read16_def bind_bind by (subst read_full_append [of c "be16 v" rest]) (use of_be16_be16 [of v "[]"] in \<open>simp_all add: io returns\<close>)

lemma read32_step: "inb c = be32 v @ rest \<Longrightarrow> bind_io read32 f c = f v (c\<lparr>inb := rest\<rparr>)"
  unfolding read32_def bind_bind by (subst read_full_append [of c "be32 v" rest]) (simp_all add: io returns)

lemma write_step: "werrs c = [] \<Longrightarrow> bind_io (write_conn b) f c = f () (c\<lparr>outb := outb c @ b\<rparr>)"
  by (cases c) (simp add: bind_io_def write_conn_def)

lemma write_last: "werrs c = [] \<Longrightarrow> write_conn b c = (Done (), c\<lparr>outb := outb c @ b\<rparr>)"
  by (cases c) (simp add: write_conn_def)

lemma times_read:
  assumes "\<And>x c rest. x \<in> set xs \<Longrightarrow> P c \<Longrightarrow> inb c = enc x @ rest \<Longrightarrow> m c = (Done (val x), c\<lparr>inb := rest\<rparr>)"
    and "\<And>c r. P c \<Longrightarrow> P (c\<lparr>inb := r\<rparr>)"
  shows "P c \<Longrightarrow> inb c = concat (map enc xs) @ rest \<Longrightarrow> times_io (length xs) m c = (Done (map val xs), c\<lparr>inb := rest\<rparr>)"
  using assms(1)
proof (induction xs arbitrary: c)
  case Nil
  then show ?case by (simp add: returns)
next
  case (Cons x xs)
  have "m c = (Done (val x), c\<lparr>inb := concat (map enc xs) @ rest\<rparr>)" using Cons.prems by simp
  moreover have "times_io (length xs) m (c\<lparr>inb := concat (map enc xs) @ rest\<rparr>) = (Done (map val xs), c\<lparr>inb := rest\<rparr>)"
    using Cons.IH [of "c\<lparr>inb := concat (map enc xs) @ rest\<rparr>"] Cons.prems(1,3) assms(2) by simp
  ultimately show ?case by (simp add: bind_io_def return_io_def)
qed

lemma of_le16_le16: "of_le16 (le16 v) = v"
proof -
  have "(ucast (ucast v :: 8 word) OR push_bit 8 (ucast (ucast (drop_bit 8 v) :: 8 word)) :: 16 word) = v"
    by (rule bit_word_eqI) (auto simp: bit_simps)
  then show ?thesis by (simp add: of_le16_def le16_def be16_def)
qed

lemma length_le [simp]: "length (le16 v) = 2" "length (le32 w) = 4"
  by (simp_all add: le16_def le32_def)

lemma of_le32_le32: "of_le32 (le32 v) = v"
  by (simp add: of_le32_def le32_def)

text \<open>A reading operation takes bytes from the front of the input and leaves no more than there was.\<close>

definition consumes :: "('z conn_scheme, 'a) io \<Rightarrow> bool" where
  "consumes m \<longleftrightarrow> (\<forall>c. length (inb (snd (m c))) \<le> length (inb c))"

lemma consumes_bind: "consumes m \<Longrightarrow> (\<And>x. consumes (f x)) \<Longrightarrow> consumes (bind_io m f)"
  unfolding consumes_def
proof
  fix c
  assume m: "\<forall>c. length (inb (snd (m c))) \<le> length (inb c)" and f: "\<And>x. \<forall>c. length (inb (snd (f x c))) \<le> length (inb c)"
  obtain r c' where r: "m c = (r, c')" by (cases "m c")
  then have "length (inb c') \<le> length (inb c)" using m [rule_format, of c] by simp
  then show "length (inb (snd (bind_io m f c))) \<le> length (inb c)" using f r by (cases r) (auto simp: bind_io_def intro: order_trans)
qed

lemma consumes_basic:
  "consumes (return_io x)" "consumes (fail_io e)" "consumes crash_io" "consumes (get_io g)" "consumes (read_full n)" "consumes (write_conn b)"
  by (auto simp: consumes_def returns read_full_def write_conn_def split: list.split option.split)

lemma consumes_read: "consumes read8" "consumes read16" "consumes read32"
  by (simp_all add: read8_def read16_def read32_def consumes_bind consumes_basic)

lemma consumes_times: "consumes m \<Longrightarrow> consumes (times_io n m)"
  by (induction n) (simp_all add: consumes_bind consumes_basic)

end
