(* ===== verification/Rfb_Client.thy ===== *)
theory Rfb_Client
  imports Rfb_Wire Block_Modes
begin

section \<open>Remote frame buffer: the client\<close>

text \<open>
  \<^verbatim>\<open>vnc/vncclient\<close>. The state of a client is its connection with the fields of \<^verbatim>\<open>ClientConn\<close>. Encodings and
  messages that users of the package supply are given by a record of readers; \<^verbatim>\<open>ServerMessageCh\<close> is the list
  of the messages sent over it.
\<close>

subsection \<open>Colours and pixel formats (\<^verbatim>\<open>color.go\<close>, \<^verbatim>\<open>pixel_format.go\<close>)\<close>

record Color =
  R :: "16 word"
  G :: "16 word"
  B :: "16 word"

definition no_color :: Color where
  "no_color = \<lparr>R = 0, G = 0, B = 0\<rparr>"

record ClientPixelFormat =
  BPP :: "8 word"
  Depth :: "8 word"
  BigEndian :: bool
  TrueColor :: bool
  RedMax :: "16 word"
  GreenMax :: "16 word"
  BlueMax :: "16 word"
  RedShift :: "8 word"
  GreenShift :: "8 word"
  BlueShift :: "8 word"

definition no_format :: ClientPixelFormat where
  "no_format = \<lparr>BPP = 0, Depth = 0, BigEndian = False, TrueColor = False, RedMax = 0, GreenMax = 0, BlueMax = 0,
     RedShift = 0, GreenShift = 0, BlueShift = 0\<rparr>"

text \<open>The sixteen bytes are read into a structure whose fields keep their values where nothing is read.\<close>

definition parse_format :: "bytes \<Rightarrow> ClientPixelFormat \<Rightarrow> ClientPixelFormat" where
  "parse_format raw result =
     (let r1 = result\<lparr>BPP := raw ! 0, Depth := raw ! 1\<rparr>;
          r2 = (if raw ! 2 \<noteq> 0 then r1\<lparr>BigEndian := True\<rparr> else r1)
      in if raw ! 3 \<noteq> 0
         then r2\<lparr>TrueColor := True, RedMax := the (Uint16 raw 4), GreenMax := the (Uint16 raw 6), BlueMax := the (Uint16 raw 8),
                RedShift := raw ! 10, GreenShift := raw ! 11, BlueShift := raw ! 12\<rparr>
         else r2)"

definition readPixelFormat :: "ClientPixelFormat \<Rightarrow> ('z conn_scheme, ClientPixelFormat) io" where
  "readPixelFormat result = bind_io (read_full 16) (\<lambda>raw. return_io (parse_format raw result))"

text \<open>The buffer has room for 64 bytes, all zero, so that its first sixteen are there.\<close>

definition writePixelFormat :: "ClientPixelFormat \<Rightarrow> bytes" where
  "writePixelFormat f =
     (let buf = [BPP f, Depth f, of_bool (BigEndian f), of_bool (TrueColor f)]
            @ (if TrueColor f then be16 (RedMax f) @ be16 (GreenMax f) @ be16 (BlueMax f) @ [RedShift f, GreenShift f, BlueShift f] else [])
      in take 16 (buf @ replicate (64 - length buf) 0))"

subsection \<open>State\<close>

datatype ClientAuth = ClientAuthNone | PasswordAuth string

datatype pixels = RawEncoding "Color list" | OtherEncoding bytes

record Rectangle =
  X :: "16 word"
  Y :: "16 word"
  Width :: "16 word"
  Height :: "16 word"
  Enc :: pixels

datatype ServerMessage =
    FramebufferUpdateMessage "Rectangle list"
  | SetColorMapEntriesMessage "16 word" "Color list"
  | BellMessage
  | ServerCutTextMessage string
  | OtherMessage bytes

record ClientConfig =
  Auth :: "ClientAuth list option"
  Exclusive :: bool
  HasMessageCh :: bool

record ClientConn = conn +
  ColorMap :: "Color list"
  Encs :: "32 word list"
  FrameBufferWidth :: "16 word"
  FrameBufferHeight :: "16 word"
  DesktopName :: string
  PixelFormat :: ClientPixelFormat
  messages :: "ServerMessage list"

record extensions =
  enc_read :: "32 word \<Rightarrow> Rectangle \<Rightarrow> (ClientConn, bytes) io"
  msg_read :: "8 word \<Rightarrow> (ClientConn, bytes) io option"

definition new_client :: "bytes \<Rightarrow> string option list \<Rightarrow> ClientConn" where
  "new_client input errs =
     \<lparr>inb = input, outb = [], werrs = errs, ColorMap = replicate 256 no_color, Encs = [], FrameBufferWidth = 0, FrameBufferHeight = 0,
      DesktopName = [], PixelFormat = no_format, messages = []\<rparr>"

subsection \<open>Requests (\<^verbatim>\<open>client.go\<close>)\<close>

text \<open>
  The message of \<open>CutText\<close> is cut from a buffer at the length that the bytes of the text would need: it is
  filled up with zeros as far as the capacity of the buffer goes, and panics beyond it.
\<close>

definition CutText :: "nat \<Rightarrow> string \<Rightarrow> (ClientConn, unit) io" where
  "CutText cap str =
     (case filter (\<lambda>r. r > 255) (runes str) of
        r # _ \<Rightarrow> fail_io (NotLatin1 r)
      | [] \<Rightarrow>
          let buf = [6, 0, 0, 0] @ be32 (word_of_nat (length str)) @ map word_of_nat (runes str);
              dataLength = 8 + length str
          in if dataLength > cap then crash_io
             else write_conn (take dataLength (buf @ replicate (cap - length buf) 0)))"

definition FramebufferUpdateRequest :: "bool \<Rightarrow> 16 word \<Rightarrow> 16 word \<Rightarrow> 16 word \<Rightarrow> 16 word \<Rightarrow> (ClientConn, unit) io" where
  "FramebufferUpdateRequest incremental x y width height =
     write_conn ([3, of_bool incremental] @ be16 x @ be16 y @ be16 width @ be16 height)"

text \<open>\<open>KeyEvent\<close> writes its values one by one.\<close>

fun write_each :: "bytes list \<Rightarrow> ('z conn_scheme, unit) io" where
  "write_each [] = return_io ()"
| "write_each (b # bs) = bind_io (write_conn b) (\<lambda>_. write_each bs)"

definition KeyEvent :: "32 word \<Rightarrow> bool \<Rightarrow> (ClientConn, unit) io" where
  "KeyEvent keysym down = write_each [[4], [of_bool down], [0], [0], be32 keysym]"

definition PointerEvent :: "8 word \<Rightarrow> 16 word \<Rightarrow> 16 word \<Rightarrow> (ClientConn, unit) io" where
  "PointerEvent msk x y = write_conn ([5, msk] @ be16 x @ be16 y)"

definition SetEncodings :: "32 word list \<Rightarrow> (ClientConn, unit) io" where
  "SetEncodings encs =
     bind_io (write_conn ([2, 0] @ be16 (word_of_nat (length encs)) @ concat (map be32 encs)))
       (\<lambda>_. modify_io (\<lambda>c. c\<lparr>Encs := encs\<rparr>))"

definition SetPixelFormat :: "ClientPixelFormat \<Rightarrow> (ClientConn, unit) io" where
  "SetPixelFormat format =
     bind_io (write_conn ([0, 0, 0, 0] @ writePixelFormat format))
       (\<lambda>_. modify_io (\<lambda>c. c\<lparr>ColorMap := replicate 256 no_color\<rparr>))"

subsection \<open>Authentication (\<^verbatim>\<open>client_auth.go\<close>)\<close>

definition reverse_table :: "nat list" where
  "reverse_table =
     [0, 128, 64, 192, 32, 160, 96, 224, 16, 144, 80, 208, 48, 176, 112, 240,
      8, 136, 72, 200, 40, 168, 104, 232, 24, 152, 88, 216, 56, 184, 120, 248,
      4, 132, 68, 196, 36, 164, 100, 228, 20, 148, 84, 212, 52, 180, 116, 244,
      12, 140, 76, 204, 44, 172, 108, 236, 28, 156, 92, 220, 60, 188, 124, 252,
      2, 130, 66, 194, 34, 162, 98, 226, 18, 146, 82, 210, 50, 178, 114, 242,
      10, 138, 74, 202, 42, 170, 106, 234, 26, 154, 90, 218, 58, 186, 122, 250,
      6, 134, 70, 198, 38, 166, 102, 230, 22, 150, 86, 214, 54, 182, 118, 246,
      14, 142, 78, 206, 46, 174, 110, 238, 30, 158, 94, 222, 62, 190, 126, 254,
      1, 129, 65, 193, 33, 161, 97, 225, 17, 145, 81, 209, 49, 177, 113, 241,
      9, 137, 73, 201, 41, 169, 105, 233, 25, 153, 89, 217, 57, 185, 121, 249,
      5, 133, 69, 197, 37, 165, 101, 229, 21, 149, 85, 213, 53, 181, 117, 245,
      13, 141, 77, 205, 45, 173, 109, 237, 29, 157, 93, 221, 61, 189, 125, 253,
      3, 131, 67, 195, 35, 163, 99, 227, 19, 147, 83, 211, 51, 179, 115, 243,
      11, 139, 75, 203, 43, 171, 107, 235, 27, 155, 91, 219, 59, 187, 123, 251,
      7, 135, 71, 199, 39, 167, 103, 231, 23, 151, 87, 215, 55, 183, 119, 247,
      15, 143, 79, 207, 47, 175, 111, 239, 31, 159, 95, 223, 63, 191, 127, 255]"

definition reverseBits :: "8 word \<Rightarrow> 8 word" where
  "reverseBits b = word_of_nat (reverse_table ! unat b)"

definition auth_encrypt :: "string \<Rightarrow> bytes \<Rightarrow> bytes" where
  "auth_encrypt key b =
     (let k = map reverseBits (to_bytes (take 8 key)); keyBytes = k @ replicate (8 - length k) 0
      in des_encrypt keyBytes (take 8 b) @ des_encrypt keyBytes (take 8 (drop 8 b)))"

definition SecurityType :: "ClientAuth \<Rightarrow> 8 word" where
  "SecurityType a = (case a of ClientAuthNone \<Rightarrow> 1 | PasswordAuth p \<Rightarrow> 2)"

definition auth_Handshake :: "ClientAuth \<Rightarrow> ('z conn_scheme, unit) io" where
  "auth_Handshake a =
     (case a of
        ClientAuthNone \<Rightarrow> return_io ()
      | PasswordAuth p \<Rightarrow> bind_io (read_full 16) (\<lambda>randomValue. write_conn (auth_encrypt p randomValue)))"

subsection \<open>Handshake (\<^verbatim>\<open>client.go\<close>)\<close>

text \<open>
  \<^verbatim>\<open>fmt.Sscanf\<close> with the format \<^verbatim>\<open>RFB %d.%d\n\<close>, on runes: how many numbers were read, the numbers, and whether
  the scan ended in an error. A blank of the format stands for at least one blank that is no line feed, a number may be
  preceded by such blanks, and the line feed of the format by blanks or the end.
\<close>

definition blank :: "rune \<Rightarrow> bool" where
  "blank r \<longleftrightarrow> unicode_IsSpace r \<and> r \<noteq> 10"

definition digit_rune :: "rune \<Rightarrow> bool" where
  "digit_rune r \<longleftrightarrow> 48 \<le> r \<and> r \<le> 57"

definition scan_number :: "rune list \<Rightarrow> (nat \<times> rune list) option" where
  "scan_number rs =
     (let ds = dropWhile blank rs; d = takeWhile digit_rune ds
      in if d = [] then None else Some (foldl (\<lambda>n r. 10 * n + (r - 48)) 0 d, dropWhile digit_rune ds))"

definition scan_version :: "rune list \<Rightarrow> nat \<times> nat \<times> nat \<times> bool" where
  "scan_version rs =
     (case rs of
        r1 # r2 # r3 # r4 # rest \<Rightarrow>
          if r1 = 82 \<and> r2 = 70 \<and> r3 = 66 \<and> blank r4
          then (case scan_number rest of
                  None \<Rightarrow> (0, 0, 0, True)
                | Some (major, rest1) \<Rightarrow>
                    (case rest1 of
                       [] \<Rightarrow> (1, major, 0, True)
                     | r # rest2 \<Rightarrow>
                         if r \<noteq> 46 then (1, major, 0, True)
                         else case scan_number rest2 of
                                None \<Rightarrow> (1, major, 0, True)
                              | Some (minor, rest3) \<Rightarrow>
                                  (2, major, minor, case dropWhile blank rest3 of [] \<Rightarrow> False | r # _ \<Rightarrow> r \<noteq> 10)))
          else (0, 0, 0, True)
      | _ \<Rightarrow> (0, 0, 0, True))"

definition pvLen :: nat where
  "pvLen = 12"

definition parseProtocolVersion :: "bytes \<Rightarrow> rfb_error + nat \<times> nat" where
  "parseProtocolVersion pv =
     (if length pv < pvLen then Inl VersionTooShort
      else case scan_version (runes (of_bytes pv)) of
             (l, major, minor, err) \<Rightarrow> if l \<noteq> 2 then Inl VersionSyntax else if err then Inl VersionRest else Inr (major, minor))"

definition readErrorReason :: "('z conn_scheme, string) io" where
  "readErrorReason c =
     (case bind_io read32 (\<lambda>n. read_full (unat n)) c of
        (Done b, c') \<Rightarrow> (Done (of_bytes b), c')
      | (_, c') \<Rightarrow> (Done ''<error>'', c'))"

definition find_auth :: "ClientAuth list \<Rightarrow> 8 word list \<Rightarrow> ClientAuth option" where
  "find_auth as types = find (\<lambda>a. SecurityType a \<in> set types) as"

definition server_init :: "(ClientConn, unit) io" where
  "server_init =
     bind_io read16 (\<lambda>w. bind_io (modify_io (\<lambda>c. c\<lparr>FrameBufferWidth := w\<rparr>)) (\<lambda>_.
     bind_io read16 (\<lambda>h. bind_io (modify_io (\<lambda>c. c\<lparr>FrameBufferHeight := h\<rparr>)) (\<lambda>_.
     bind_io (get_io PixelFormat) (\<lambda>old. bind_io (readPixelFormat old) (\<lambda>pf. bind_io (modify_io (\<lambda>c. c\<lparr>PixelFormat := pf\<rparr>)) (\<lambda>_.
     bind_io read32 (\<lambda>n. bind_io (read_full (unat n)) (\<lambda>name. modify_io (\<lambda>c. c\<lparr>DesktopName := of_bytes name\<rparr>))))))))))"

definition security :: "ClientConfig \<Rightarrow> (ClientConn, unit) io" where
  "security cfg =
     bind_io read8 (\<lambda>numSecurityTypes.
       if numSecurityTypes = 0 then bind_io readErrorReason (\<lambda>s. fail_io (NoSecurityTypes s))
       else bind_io (read_full (unat numSecurityTypes)) (\<lambda>types.
         case find_auth (case Auth cfg of None \<Rightarrow> [ClientAuthNone] | Some as \<Rightarrow> as) types of
           None \<Rightarrow> fail_io NoSuitableAuth
         | Some auth \<Rightarrow>
             bind_io (write_conn [SecurityType auth]) (\<lambda>_.
             bind_io (auth_Handshake auth) (\<lambda>_.
             bind_io read32 (\<lambda>securityResult.
               if securityResult = 1 then bind_io readErrorReason (\<lambda>s. fail_io (SecurityFailed s)) else return_io ())))))"

definition handshake :: "ClientConfig \<Rightarrow> (ClientConn, unit) io" where
  "handshake cfg =
     bind_io (read_full pvLen) (\<lambda>pv.
       case parseProtocolVersion pv of
         Inl e \<Rightarrow> fail_io e
       | Inr (maxMajor, maxMinor) \<Rightarrow>
           if maxMajor < 3 then fail_io (MajorTooOld maxMajor)
           else if maxMinor < 8 then fail_io (MinorTooOld maxMinor)
           else bind_io (write_conn (to_bytes (''RFB 003.008'' @ [CHR 0x0A]))) (\<lambda>_.
                bind_io (security cfg) (\<lambda>_.
                bind_io (write_conn [of_bool (\<not> Exclusive cfg)]) (\<lambda>_. server_init))))"

subsection \<open>Pixels and messages (\<^verbatim>\<open>encoding.go\<close>, \<^verbatim>\<open>server_messages.go\<close>)\<close>

definition raw_pixel :: "ClientPixelFormat \<Rightarrow> bytes \<Rightarrow> 32 word" where
  "raw_pixel f b =
     (if BPP f = 8 then ucast (b ! 0)
      else if BPP f = 16 then ucast (if BigEndian f then the (of_be16 b) else of_le16 b)
      else if BPP f = 32 then (if BigEndian f then of_be32 b else of_le32 b)
      else 0)"

definition channel :: "32 word \<Rightarrow> 8 word \<Rightarrow> 16 word \<Rightarrow> 16 word" where
  "channel v shift mx = ucast (drop_bit (unat shift) v AND ucast mx)"

definition read_pixel :: "(ClientConn, Color) io" where
  "read_pixel =
     bind_io (get_io PixelFormat) (\<lambda>f.
     bind_io (get_io ColorMap) (\<lambda>cm.
     bind_io (read_full (unat (BPP f) div 8)) (\<lambda>b.
       let v = raw_pixel f b
       in if TrueColor f
          then return_io \<lparr>R = channel v (RedShift f) (RedMax f), G = channel v (GreenShift f) (GreenMax f), B = channel v (BlueShift f) (BlueMax f)\<rparr>
          else if unat v < length cm then return_io (cm ! unat v) else crash_io)))"

definition RawEncoding_Read :: "16 word \<Rightarrow> 16 word \<Rightarrow> (ClientConn, pixels) io" where
  "RawEncoding_Read width height = bind_io (times_io (unat height * unat width) read_pixel) (\<lambda>cs. return_io (RawEncoding cs))"

definition read_rectangle :: "extensions \<Rightarrow> (ClientConn, Rectangle) io" where
  "read_rectangle ext =
     bind_io read16 (\<lambda>x. bind_io read16 (\<lambda>y. bind_io read16 (\<lambda>w. bind_io read16 (\<lambda>h. bind_io read32 (\<lambda>t.
     bind_io (get_io Encs) (\<lambda>encs.
       let rect = \<lparr>X = x, Y = y, Width = w, Height = h, Enc = RawEncoding []\<rparr>
       in if t = 0 then bind_io (RawEncoding_Read w h) (\<lambda>p. return_io (rect\<lparr>Enc := p\<rparr>))
          else if t \<in> set encs then bind_io (enc_read ext t rect) (\<lambda>b. return_io (rect\<lparr>Enc := OtherEncoding b\<rparr>))
          else fail_io (UnsupportedEncoding t)))))))"

definition FramebufferUpdate_Read :: "extensions \<Rightarrow> (ClientConn, ServerMessage) io" where
  "FramebufferUpdate_Read ext =
     bind_io (read_full 1) (\<lambda>_. bind_io read16 (\<lambda>numRects.
     bind_io (times_io (unat numRects) (read_rectangle ext)) (\<lambda>rects. return_io (FramebufferUpdateMessage rects))))"

definition set_color :: "16 word \<Rightarrow> Color \<Rightarrow> (ClientConn, unit) io" where
  "set_color i color c =
     (if unat i < length (ColorMap c) then (Done (), c\<lparr>ColorMap := (ColorMap c)[unat i := color]\<rparr>) else (Crash, c))"

fun read_colors :: "nat \<Rightarrow> 16 word \<Rightarrow> (ClientConn, Color list) io" where
  "read_colors 0 i = return_io []"
| "read_colors (Suc n) i =
     bind_io read16 (\<lambda>r. bind_io read16 (\<lambda>g. bind_io read16 (\<lambda>b.
       let color = \<lparr>R = r, G = g, B = b\<rparr>
       in bind_io (set_color i color) (\<lambda>_. bind_io (read_colors n (i + 1)) (\<lambda>cs. return_io (color # cs))))))"

definition SetColorMapEntries_Read :: "(ClientConn, ServerMessage) io" where
  "SetColorMapEntries_Read =
     bind_io (read_full 1) (\<lambda>_. bind_io read16 (\<lambda>first. bind_io read16 (\<lambda>n.
     bind_io (read_colors (unat n) first) (\<lambda>cs. return_io (SetColorMapEntriesMessage first cs)))))"

definition ServerCutText_Read :: "(ClientConn, ServerMessage) io" where
  "ServerCutText_Read =
     bind_io (read_full 1) (\<lambda>_. bind_io read32 (\<lambda>n. bind_io (read_full (unat n)) (\<lambda>b. return_io (ServerCutTextMessage (of_bytes b)))))"

text \<open>The map of readers: a message of the user takes the place of one of the package.\<close>

definition message_reader :: "extensions \<Rightarrow> 8 word \<Rightarrow> (ClientConn, ServerMessage) io option" where
  "message_reader ext t =
     (case msg_read ext t of
        Some rd \<Rightarrow> Some (bind_io rd (\<lambda>b. return_io (OtherMessage b)))
      | None \<Rightarrow>
          if t = 0 then Some (FramebufferUpdate_Read ext)
          else if t = 1 then Some SetColorMapEntries_Read
          else if t = 2 then Some (return_io BellMessage)
          else if t = 3 then Some ServerCutText_Read
          else None)"

text \<open>One round of the loop gives the message read, or nothing where the loop breaks.\<close>

definition main_step :: "extensions \<Rightarrow> (ClientConn, ServerMessage option) io" where
  "main_step ext c =
     (case read8 c of
        (Done t, c1) \<Rightarrow>
          (case message_reader ext t of
             None \<Rightarrow> (Done None, c1)
           | Some rd \<Rightarrow>
               (case rd c1 of (Done m, c2) \<Rightarrow> (Done (Some m), c2) | (Fail e, c2) \<Rightarrow> (Done None, c2) | (Crash, c2) \<Rightarrow> (Crash, c2)))
      | (Fail e, c1) \<Rightarrow> (Done None, c1)
      | (Crash, c1) \<Rightarrow> (Crash, c1))"

partial_function (option) mainLoop :: "ClientConfig \<Rightarrow> extensions \<Rightarrow> ClientConn \<Rightarrow> (unit ioresult \<times> ClientConn) option" where
  "mainLoop cfg ext c =
     (case main_step ext c of
        (Done None, c') \<Rightarrow> Some (Done (), c')
      | (Done (Some m), c') \<Rightarrow> mainLoop cfg ext (if HasMessageCh cfg then c'\<lparr>messages := messages c' @ [m]\<rparr> else c')
      | (Fail e, c') \<Rightarrow> Some (Done (), c')
      | (Crash, c') \<Rightarrow> Some (Crash, c'))"

end
