(* ===== verification/Rfb_Server.thy ===== *)
theory Rfb_Server
  imports Rfb_Wire
begin

section \<open>Remote frame buffer: the server\<close>

text \<open>
  \<^verbatim>\<open>vnc/vncserver/rfb/rfb.go\<close>. The state of a connection extends the bytes of the peer by the fields of \<^verbatim>\<open>Conn\<close>;
  channels are lists with the capacity they were made with. \<^verbatim>\<open>failf\<close> panics: in \<^verbatim>\<open>serve\<close> the panic is recovered
  and ends the connection, an error here, but in the goroutine \<^verbatim>\<open>pushFramesLoop\<close> nothing recovers it and it ends
  the program, \<open>Panic\<close> here; what a message had sent before is then not kept. The two goroutines, the producer of frames and the consumer of events are the
  steps of \<open>server_step\<close>, which sends a message as a whole: the code holds the lock of the image while it does,
  but none for the format. Writing after the connection was closed adds to the bytes written all the same.
\<close>

subsection \<open>Pixel formats and images\<close>

record ServerPixelFormat =
  sBPP :: "8 word"
  sDepth :: "8 word"
  sBigEndian :: "8 word"
  sTrueColour :: "8 word"
  sRedMax :: "16 word"
  sGreenMax :: "16 word"
  sBlueMax :: "16 word"
  sRedShift :: "8 word"
  sGreenShift :: "8 word"
  sBlueShift :: "8 word"

definition isScreensThousands :: "ServerPixelFormat \<Rightarrow> bool" where
  "isScreensThousands f \<longleftrightarrow>
     sBPP f = 16 \<and> (sDepth f = 16 \<or> sDepth f = 15) \<and> sTrueColour f \<noteq> 0
     \<and> sRedMax f = 0x1f \<and> sGreenMax f = 0x1f \<and> sBlueMax f = 0x1f \<and> sRedShift f = 10 \<and> sGreenShift f = 5 \<and> sBlueShift f = 0"

definition default_format :: ServerPixelFormat where
  "default_format = \<lparr>sBPP = 16, sDepth = 16, sBigEndian = 0, sTrueColour = 1, sRedMax = 0x1f, sGreenMax = 0x1f, sBlueMax = 0x1f,
     sRedShift = 0xa, sGreenShift = 0x5, sBlueShift = 0\<rparr>"

text \<open>
  Images of the library: an \<^verbatim>\<open>image.RGBA\<close> with its bytes and stride, or another one with the function that gives
  the 16 bit channels of a point.
\<close>

record bounds =
  MinX :: int
  MinY :: int
  Dx :: int
  Dy :: int

datatype image = RGBAImage (Pix: bytes) (Stride: int) bounds | OtherImage bounds "int \<Rightarrow> int \<Rightarrow> 32 word \<times> 32 word \<times> 32 word"

definition Bounds :: "image \<Rightarrow> bounds" where
  "Bounds im = (case im of RGBAImage p s b \<Rightarrow> b | OtherImage b f \<Rightarrow> b)"

definition widen :: "8 word \<Rightarrow> 32 word" where
  "widen v = ucast v OR push_bit 8 (ucast v)"

text \<open>\<^verbatim>\<open>im.At(x, y).RGBA()\<close> without the alpha channel.\<close>

definition At_RGBA :: "image \<Rightarrow> int \<Rightarrow> int \<Rightarrow> (32 word \<times> 32 word \<times> 32 word) outcome" where
  "At_RGBA im x y =
     (case im of
        OtherImage b f \<Rightarrow> Ret (f x y)
      | RGBAImage pix stride b \<Rightarrow>
          if x < MinX b \<or> x \<ge> MinX b + Dx b \<or> y < MinY b \<or> y \<ge> MinY b + Dy b then Ret (0, 0, 0)
          else let i = (y - MinY b) * stride + (x - MinX b) * 4
               in if i < 0 \<or> i + 4 > int (length pix) then Panic
                  else Ret (widen (pix ! nat i), widen (pix ! (nat i + 1)), widen (pix ! (nat i + 2))))"

subsection \<open>Sending pixels\<close>

definition inRange :: "32 word \<Rightarrow> 16 word \<Rightarrow> 32 word outcome" where
  "inRange v mx = (if mx = 0x1f then Ret (drop_bit (16 - 5) v) else Panic)"

definition pixel_value :: "ServerPixelFormat \<Rightarrow> 32 word \<times> 32 word \<times> 32 word \<Rightarrow> 32 word outcome" where
  "pixel_value f = (\<lambda>(r16, g16, b16).
     case inRange r16 (sRedMax f) of Panic \<Rightarrow> Panic | Ret r \<Rightarrow>
     (case inRange g16 (sGreenMax f) of Panic \<Rightarrow> Panic | Ret g \<Rightarrow>
     (case inRange b16 (sBlueMax f) of Panic \<Rightarrow> Panic | Ret b \<Rightarrow>
        Ret (push_bit (unat (sRedShift f)) r OR push_bit (unat (sGreenShift f)) g OR push_bit (unat (sBlueShift f)) b))))"

definition pixel_bytes :: "ServerPixelFormat \<Rightarrow> 32 word \<Rightarrow> bytes outcome" where
  "pixel_bytes f v =
     (if sBPP f = 32 then Ret (if sBigEndian f \<noteq> 0 then be32 v else le32 v)
      else if sBPP f = 16 then Ret (if sBigEndian f \<noteq> 0 then be16 (ucast v) else le16 (ucast v))
      else if sBPP f = 8 then Ret [ucast v]
      else Panic)"

definition push_pixel :: "ServerPixelFormat \<Rightarrow> image \<Rightarrow> int \<times> int \<Rightarrow> bytes outcome" where
  "push_pixel f im = (\<lambda>(x, y).
     case At_RGBA im x y of Panic \<Rightarrow> Panic | Ret c \<Rightarrow>
     (case pixel_value f c of Panic \<Rightarrow> Panic | Ret v \<Rightarrow> pixel_bytes f v))"

fun concat_outcomes :: "('a \<Rightarrow> bytes outcome) \<Rightarrow> 'a list \<Rightarrow> bytes outcome" where
  "concat_outcomes g [] = Ret []"
| "concat_outcomes g (x # xs) =
     (case g x of Panic \<Rightarrow> Panic | Ret b \<Rightarrow> (case concat_outcomes g xs of Panic \<Rightarrow> Panic | Ret bs \<Rightarrow> Ret (b @ bs)))"

definition points :: "int \<Rightarrow> int \<Rightarrow> (int \<times> int) list" where
  "points width height = concat (map (\<lambda>y. map (\<lambda>x. (x, y)) [0..width - 1]) [0..height - 1])"

definition pushGenericLocked :: "ServerPixelFormat \<Rightarrow> image \<Rightarrow> bytes outcome" where
  "pushGenericLocked f im = concat_outcomes (push_pixel f im) (points (Dx (Bounds im)) (Dy (Bounds im)))"

text \<open>The loop of the fast path, with the position in the pixel and the value built so far.\<close>

fun thousands_loop :: "bool \<Rightarrow> nat \<Rightarrow> 16 word \<Rightarrow> bytes \<Rightarrow> bytes" where
  "thousands_loop be i u16 [] = []"
| "thousands_loop be i u16 (v # vs) =
     (if i mod 4 = 0 then thousands_loop be (Suc i) (push_bit 7 (ucast (v AND 248))) vs
      else if i mod 4 = 1 then thousands_loop be (Suc i) (u16 OR push_bit 2 (ucast (v AND 248))) vs
      else if i mod 4 = 2 then thousands_loop be (Suc i) (u16 OR ucast (drop_bit 3 v)) vs
      else (let hb = ucast (drop_bit 8 u16); lb = ucast u16 in (if be then [hb, lb] else [lb, hb]) @ thousands_loop be (Suc i) u16 vs))"

definition pushRGBAScreensThousandsLocked :: "ServerPixelFormat \<Rightarrow> bytes \<Rightarrow> bytes" where
  "pushRGBAScreensThousandsLocked f pix = thousands_loop (sBigEndian f \<noteq> 0) 0 0 pix"

definition pushImage :: "ServerPixelFormat \<Rightarrow> image \<Rightarrow> bytes outcome" where
  "pushImage f im =
     (let b = Bounds im
      in if MinX b \<noteq> 0 \<or> MinY b \<noteq> 0 then Panic
         else if sTrueColour f = 0 then Panic
         else let head = [0, 0] @ be16 1 @ be16 0 @ be16 0 @ be16 (word_of_int (Dx b)) @ be16 (word_of_int (Dy b)) @ be32 0
              in case (case im of
                         RGBAImage pix s b' \<Rightarrow>
                           if isScreensThousands f then Ret (pushRGBAScreensThousandsLocked f pix) else pushGenericLocked f im
                       | OtherImage b' g \<Rightarrow> pushGenericLocked f im) of
                   Panic \<Rightarrow> Panic
                 | Ret p \<Rightarrow> Ret (head @ p))"

record FrameBufferUpdateRequest =
  IncrementalFlag :: "8 word"
  reqX :: "16 word"
  reqY :: "16 word"
  reqWidth :: "16 word"
  reqHeight :: "16 word"

definition pushFrame :: "ServerPixelFormat \<Rightarrow> image option \<Rightarrow> FrameBufferUpdateRequest \<Rightarrow> bytes outcome" where
  "pushFrame f lst ur =
     (case lst of
        None \<Rightarrow> Ret []
      | Some im \<Rightarrow>
          if IncrementalFlag ur \<noteq> 0
          then Ret ([0, 0] @ be16 1 @ be16 0 @ be16 0 @ be16 (word_of_int (Dx (Bounds im))) @ be16 (word_of_int (Dy (Bounds im)))
                 @ be32 1 @ be16 0 @ be16 0)
          else pushImage f im)"

subsection \<open>Connections\<close>

record Server =
  width :: int
  height :: int

definition NewServer :: "int \<Rightarrow> int \<Rightarrow> Server" where
  "NewServer w h = \<lparr>width = (if w < 1 then 1 else w), height = (if h < 1 then 1 else h)\<rparr>"

datatype client_event = KeyEv "8 word" "32 word" | PointerEv "8 word" "16 word" "16 word"

text \<open>Where \<^verbatim>\<open>serve\<close> stands: before a command, in the second part of an update request, or at its end.\<close>

datatype place = Idle | Updating | Closed

text \<open>
  Where \<^verbatim>\<open>pushFramesLoop\<close> stands: waiting in its \<open>select\<close>; before the test of \<open>TrueColour\<close>; in \<open>isScreensThousands\<close>; before the read of
  \<open>BigEndian\<close> in the fast path; in the loop over pixels with the points still to send; or returned. \<^verbatim>\<open>handleSetPixelFormat\<close> may
  change the format between any two reads of it, so the formats that the reads so far have seen are listed.
\<close>

datatype pusher =
    PWaiting
  | PTrueColour image
  | PChoosing image "ServerPixelFormat list"
  | PFast image
  | PPixels image "(int \<times> int) list" "ServerPixelFormat list"
  | PReturned

record sconn = conn +
  format :: ServerPixelFormat
  gotFirstFrame :: bool
  lastFrame :: "image option"
  feed :: "image list"
  fbupc :: "FrameBufferUpdateRequest list"
  event :: "client_event list"
  place :: place
  pusher :: pusher
  crashed :: bool

definition newConn :: "bytes \<Rightarrow> sconn" where
  "newConn input =
     \<lparr>inb = input, outb = [], werrs = [],
      format = \<lparr>sBPP = 0, sDepth = 0, sBigEndian = 0, sTrueColour = 0, sRedMax = 0, sGreenMax = 0, sBlueMax = 0, sRedShift = 0, sGreenShift = 0, sBlueShift = 0\<rparr>,
      gotFirstFrame = False, lastFrame = None, feed = [], fbupc = [], event = [], place = Idle, pusher = PWaiting, crashed = False\<rparr>"

definition put :: "bytes \<Rightarrow> (sconn, unit) io" where
  "put b = modify_io (\<lambda>c. c\<lparr>outb := outb c @ b\<rparr>)"

text \<open>\<^verbatim>\<open>ReadSlice('\n')\<close> on a buffer of 4096 bytes.\<close>

definition read_line :: "(sconn, bytes) io" where
  "read_line c =
     (let l = takeWhile (\<lambda>b. b \<noteq> 10) (inb c)
      in if length l < length (inb c) \<and> length l < 4096
         then (Done (l @ [10]), c\<lparr>inb := drop (Suc (length l)) (inb c)\<rparr>)
         else (Fail (OtherError ''reading client protocol version''), c))"

definition v3 :: bytes where
  "v3 = to_bytes (''RFB 003.003'' @ [CHR 0x0A])"

definition v7 :: bytes where
  "v7 = to_bytes (''RFB 003.007'' @ [CHR 0x0A])"

definition v8 :: bytes where
  "v8 = to_bytes (''RFB 003.008'' @ [CHR 0x0A])"

fun bytes_ge :: "bytes \<Rightarrow> bytes \<Rightarrow> bool" where
  "bytes_ge xs [] = True"
| "bytes_ge [] (y # ys) = False"
| "bytes_ge (x # xs) (y # ys) = (if x = y then bytes_ge xs ys else x > y)"

definition server_init_bytes :: "Server \<Rightarrow> ServerPixelFormat \<Rightarrow> bytes" where
  "server_init_bytes s f =
     be16 (word_of_int (width s)) @ be16 (word_of_int (height s))
     @ [sBPP f, sDepth f, sBigEndian f, sTrueColour f] @ be16 (sRedMax f) @ be16 (sGreenMax f) @ be16 (sBlueMax f)
     @ [sRedShift f, sGreenShift f, sBlueShift f, 0, 0, 0] @ be32 6 @ to_bytes ''rfb-go''"

definition serve_auth :: "bytes \<Rightarrow> (sconn, unit) io" where
  "serve_auth ver =
     (if bytes_ge ver v7
      then bind_io (put [1, 1]) (\<lambda>_. bind_io read8 (\<lambda>wanted.
             if wanted \<noteq> 1 then fail_io (OtherError ''client wanted auth type'') else return_io ()))
      else put (be32 1))"

definition serve_handshake :: "Server \<Rightarrow> (sconn, unit) io" where
  "serve_handshake s =
     bind_io (put v8) (\<lambda>_. bind_io read_line (\<lambda>ver.
       if ver \<noteq> v3 \<and> ver \<noteq> v7 \<and> ver \<noteq> v8 then fail_io (OtherError ''bogus client-requested security type'')
       else bind_io (serve_auth ver) (\<lambda>_.
            bind_io (if bytes_ge ver v8 then put (be32 0) else return_io ()) (\<lambda>_.
            bind_io read8 (\<lambda>wantShared.
            bind_io (modify_io (\<lambda>c. c\<lparr>format := default_format\<rparr>)) (\<lambda>_. put (server_init_bytes s default_format)))))))"

subsection \<open>Commands\<close>

definition handleSetPixelFormat :: "(sconn, unit) io" where
  "handleSetPixelFormat =
     bind_io (times_io 3 read8) (\<lambda>_.
     bind_io read8 (\<lambda>bpp. bind_io read8 (\<lambda>depth. bind_io read8 (\<lambda>be. bind_io read8 (\<lambda>tc.
     bind_io read16 (\<lambda>rm. bind_io read16 (\<lambda>gm. bind_io read16 (\<lambda>bm.
     bind_io read8 (\<lambda>rs. bind_io read8 (\<lambda>gs. bind_io read8 (\<lambda>bs. bind_io (times_io 3 read8) (\<lambda>_.
       modify_io (\<lambda>c. c\<lparr>format := \<lparr>sBPP = bpp, sDepth = depth, sBigEndian = be, sTrueColour = tc, sRedMax = rm, sGreenMax = gm, sBlueMax = bm,
         sRedShift = rs, sGreenShift = gs, sBlueShift = bs\<rparr>\<rparr>)))))))))))))"

definition handleSetEncodings :: "(sconn, unit) io" where
  "handleSetEncodings =
     bind_io (times_io 1 read8) (\<lambda>_. bind_io read16 (\<lambda>numEncodings.
     bind_io (times_io (unat numEncodings) read32) (\<lambda>_. return_io ())))"

definition read_request :: "(sconn, FrameBufferUpdateRequest) io" where
  "read_request =
     bind_io read8 (\<lambda>i. bind_io read16 (\<lambda>x. bind_io read16 (\<lambda>y. bind_io read16 (\<lambda>w. bind_io read16 (\<lambda>h.
       return_io \<lparr>IncrementalFlag = i, reqX = x, reqY = y, reqWidth = w, reqHeight = h\<rparr>)))))"

text \<open>\<open>select\<close> with a default: an event is dropped when the channel of sixteen is full.\<close>

definition send_event :: "client_event \<Rightarrow> (sconn, unit) io" where
  "send_event e = modify_io (\<lambda>c. if length (event c) < 16 then c\<lparr>event := event c @ [e]\<rparr> else c)"

definition handleKeyEvent :: "(sconn, unit) io" where
  "handleKeyEvent = bind_io read8 (\<lambda>down. bind_io (times_io 2 read8) (\<lambda>_. bind_io read32 (\<lambda>key. send_event (KeyEv down key))))"

definition handlePointerEvent :: "(sconn, unit) io" where
  "handlePointerEvent = bind_io read8 (\<lambda>m. bind_io read16 (\<lambda>x. bind_io read16 (\<lambda>y. send_event (PointerEv m x y))))"

definition handle :: "8 word \<Rightarrow> (sconn, unit) io" where
  "handle cmd =
     (if cmd = 0 then handleSetPixelFormat
      else if cmd = 2 then handleSetEncodings
      else if cmd = 5 then handlePointerEvent
      else if cmd = 4 then handleKeyEvent
      else fail_io (OtherError ''unsupported command type''))"

text \<open>
  The next command, or \<open>None\<close> while \<^verbatim>\<open>serve\<close> waits: for the first frame, which the first update request takes
  from the feed, or for room among the 128 requests.
\<close>

definition serve_next :: "sconn \<Rightarrow> sconn option" where
  "serve_next c =
     (case place c of
        Closed \<Rightarrow> None
      | Idle \<Rightarrow>
          (case read8 c of
             (Done cmd, c1) \<Rightarrow>
               if cmd = 3
               then if gotFirstFrame c then Some (c1\<lparr>place := Updating\<rparr>)
                    else (case feed c of
                            [] \<Rightarrow> None
                          | li # rest \<Rightarrow> Some (c1\<lparr>feed := rest, lastFrame := Some li, gotFirstFrame := True, place := Updating\<rparr>))
               else Some (case handle cmd c1 of (Done _, c2) \<Rightarrow> c2 | (_, c2) \<Rightarrow> c2\<lparr>place := Closed\<rparr>)
           | (_, c1) \<Rightarrow> Some (c1\<lparr>place := Closed\<rparr>))
      | Updating \<Rightarrow>
          (case read_request c of
             (Done req, c1) \<Rightarrow> if length (fbupc c) < 128 then Some (c1\<lparr>fbupc := fbupc c @ [req], place := Idle\<rparr>) else None
           | (_, c1) \<Rightarrow> Some (c1\<lparr>place := Closed\<rparr>)))"

text \<open>The two cases of \<^verbatim>\<open>pushFramesLoop\<close>, up to the first read of the format.\<close>

definition push_head :: bytes where
  "push_head = [0, 0] @ be16 1"

definition push_rectangle :: "image \<Rightarrow> bytes" where
  "push_rectangle im = be16 0 @ be16 0 @ be16 (word_of_int (Dx (Bounds im))) @ be16 (word_of_int (Dy (Bounds im))) @ be32 0"

definition push_none :: "image \<Rightarrow> bytes" where
  "push_none im = push_head @ be16 0 @ be16 0 @ be16 (word_of_int (Dx (Bounds im))) @ be16 (word_of_int (Dy (Bounds im))) @ be32 1 @ be16 0 @ be16 0"

definition push_image :: "image \<Rightarrow> sconn \<Rightarrow> sconn" where
  "push_image im c =
     (if MinX (Bounds im) \<noteq> 0 \<or> MinY (Bounds im) \<noteq> 0 then c\<lparr>crashed := True\<rparr>
      else c\<lparr>outb := outb c @ push_head, pusher := PTrueColour im\<rparr>)"

definition push_request :: "sconn \<Rightarrow> sconn option" where
  "push_request c =
     (case fbupc c of
        [] \<Rightarrow> None
      | ur # rest \<Rightarrow>
          Some (case lastFrame c of
                  None \<Rightarrow> c\<lparr>fbupc := rest\<rparr>
                | Some im \<Rightarrow>
                    if IncrementalFlag ur \<noteq> 0 then c\<lparr>fbupc := rest, outb := outb c @ push_none im\<rparr>
                    else push_image im (c\<lparr>fbupc := rest\<rparr>)))"

definition push_feed :: "sconn \<Rightarrow> sconn option" where
  "push_feed c =
     (case feed c of [] \<Rightarrow> None | li # rest \<Rightarrow> Some (push_image li (c\<lparr>feed := rest, lastFrame := Some li\<rparr>)))"

text \<open>
  The reads of \<open>isScreensThousands\<close>, one after the other; those behind a false one make no difference. Then those of
  one pixel in \<open>pushGenericLocked\<close>: the maxima, each with a panic in \<open>inRange\<close>, the shifts, the bits per pixel and the order of bytes.
\<close>

definition thousands_reads :: "ServerPixelFormat list \<Rightarrow> bool" where
  "thousands_reads fs \<longleftrightarrow> sBPP (fs ! 0) = 16 \<and> (sDepth (fs ! 1) = 16 \<or> sDepth (fs ! 2) = 15) \<and> sTrueColour (fs ! 3) \<noteq> 0
     \<and> sRedMax (fs ! 4) = 0x1f \<and> sGreenMax (fs ! 5) = 0x1f \<and> sBlueMax (fs ! 6) = 0x1f
     \<and> sRedShift (fs ! 7) = 10 \<and> sGreenShift (fs ! 8) = 5 \<and> sBlueShift (fs ! 9) = 0"

definition pixel_reads :: "ServerPixelFormat list \<Rightarrow> ServerPixelFormat" where
  "pixel_reads fs = (fs ! 6)\<lparr>sRedMax := sRedMax (fs ! 0), sGreenMax := sGreenMax (fs ! 1), sBlueMax := sBlueMax (fs ! 2),
     sRedShift := sRedShift (fs ! 3), sGreenShift := sGreenShift (fs ! 4), sBlueShift := sBlueShift (fs ! 5), sBigEndian := sBigEndian (fs ! 7)\<rparr>"

definition read_panics :: "image \<Rightarrow> int \<times> int \<Rightarrow> nat \<Rightarrow> ServerPixelFormat \<Rightarrow> bool" where
  "read_panics im p k f =
     (if k = 0 then At_RGBA im (fst p) (snd p) = Panic \<or> sRedMax f \<noteq> 0x1f
      else if k = 1 then sGreenMax f \<noteq> 0x1f
      else if k = 2 then sBlueMax f \<noteq> 0x1f
      else if k = 6 then sBPP f \<noteq> 32 \<and> sBPP f \<noteq> 16 \<and> sBPP f \<noteq> 8
      else False)"

definition start_pixels :: "image \<Rightarrow> pusher" where
  "start_pixels im = PPixels im (points (Dx (Bounds im)) (Dy (Bounds im))) []"

definition push_next :: "sconn \<Rightarrow> sconn option" where
  "push_next c =
     (case pusher c of
        PTrueColour im \<Rightarrow>
          Some (if sTrueColour (format c) = 0 then c\<lparr>crashed := True\<rparr>
                else c\<lparr>outb := outb c @ push_rectangle im, pusher := (case im of RGBAImage pix s b \<Rightarrow> PChoosing im [] | OtherImage b g \<Rightarrow> start_pixels im)\<rparr>)
      | PChoosing im fs \<Rightarrow>
          (let fs' = fs @ [format c]
           in Some (c\<lparr>pusher := (if length fs' < 10 then PChoosing im fs' else if thousands_reads fs' then PFast im else start_pixels im)\<rparr>))
      | PFast im \<Rightarrow>
          Some (c\<lparr>outb := outb c @ (case im of RGBAImage pix s b \<Rightarrow> pushRGBAScreensThousandsLocked (format c) pix | OtherImage b g \<Rightarrow> []), pusher := PWaiting\<rparr>)
      | PPixels im [] fs \<Rightarrow> Some (c\<lparr>pusher := PWaiting\<rparr>)
      | PPixels im (p # ps) fs \<Rightarrow>
          (let fs' = fs @ [format c]
           in Some (if read_panics im p (length fs) (format c) then c\<lparr>crashed := True\<rparr>
                    else if length fs' < 8 then c\<lparr>pusher := PPixels im (p # ps) fs'\<rparr>
                    else case push_pixel (pixel_reads fs') im p of
                           Panic \<Rightarrow> c\<lparr>crashed := True\<rparr>
                         | Ret b \<Rightarrow> c\<lparr>outb := outb c @ b, pusher := PPixels im ps []\<rparr>))
      | _ \<Rightarrow> None)"

inductive server_step :: "image set \<Rightarrow> sconn \<Rightarrow> sconn \<Rightarrow> bool" for I where
  serve: "\<not> crashed c \<Longrightarrow> serve_next c = Some c' \<Longrightarrow> server_step I c c'"
| push_request: "\<not> crashed c \<Longrightarrow> gotFirstFrame c \<Longrightarrow> pusher c = PWaiting \<Longrightarrow> push_request c = Some c' \<Longrightarrow> server_step I c c'"
| push_feed: "\<not> crashed c \<Longrightarrow> gotFirstFrame c \<Longrightarrow> pusher c = PWaiting \<Longrightarrow> push_feed c = Some c' \<Longrightarrow> server_step I c c'"
| push_next: "\<not> crashed c \<Longrightarrow> push_next c = Some c' \<Longrightarrow> server_step I c c'"
| push_return: "\<not> crashed c \<Longrightarrow> pusher c = PWaiting \<Longrightarrow> place c = Closed \<Longrightarrow> fbupc c = [] \<Longrightarrow> server_step I c (c\<lparr>pusher := PReturned\<rparr>)"
| offer: "\<not> crashed c \<Longrightarrow> li \<in> I \<Longrightarrow> length (feed c) < 16 \<Longrightarrow> server_step I c (c\<lparr>feed := feed c @ [li]\<rparr>)"
| consume: "\<not> crashed c \<Longrightarrow> event c = e # es \<Longrightarrow> server_step I c (c\<lparr>event := es\<rparr>)"

inductive_cases server_step_cases: "server_step I c c'"

end
