(* ===== verification/Rfb_Pixels.thy ===== *)
theory Rfb_Pixels
  imports Rfb_Client Rfb_Server
begin

section \<open>Remote frame buffer: pixels from server to client\<close>

text \<open>
  The fast path of the server against its generic path, and what the raw encoding of the client reads from
  either: the five high bits of each channel of each pixel.
\<close>

subsection \<open>One pixel\<close>

definition pixel16 :: "8 word \<Rightarrow> 8 word \<Rightarrow> 8 word \<Rightarrow> 16 word" where
  "pixel16 r g b = (push_bit 7 (ucast (r AND 248)) OR push_bit 2 (ucast (g AND 248))) OR ucast (drop_bit 3 b)"

definition order16 :: "bool \<Rightarrow> 16 word \<Rightarrow> bytes" where
  "order16 be v = (if be then be16 v else le16 v)"

lemma thousands_quad:
  "thousands_loop be (4 * k) u (r # g # b # a # rest) = order16 be (pixel16 r g b) @ thousands_loop be (4 * Suc k) (pixel16 r g b) rest"
proof -
  have m: "Suc (4 * k) mod 4 = 1" "Suc (Suc (4 * k)) mod 4 = 2" "Suc (Suc (Suc (4 * k))) mod 4 = 3"
    by (simp_all add: mod_Suc)
  have k: "4 * Suc k = Suc (Suc (Suc (Suc (4 * k))))" by simp
  show ?thesis unfolding k by (simp add: m pixel16_def order16_def be16_def le16_def Let_def)
qed

lemma thousands_quads:
  "length pix = 4 * n \<Longrightarrow>
   thousands_loop be (4 * k) u pix = concat (map (\<lambda>j. order16 be (pixel16 (pix ! (4 * j)) (pix ! (4 * j + 1)) (pix ! (4 * j + 2)))) [0..<n])"
proof (induction n arbitrary: pix k u)
  case (Suc n)
  then obtain r g b a rest where p: "pix = r # g # b # a # rest" "length rest = 4 * n"
    by (auto simp: length_Suc_conv Suc_length_conv numeral_eq_Suc)
  have "map (\<lambda>j. order16 be (pixel16 (pix ! (4 * j)) (pix ! (4 * j + 1)) (pix ! (4 * j + 2)))) [0..<Suc n]
      = order16 be (pixel16 r g b) # map (\<lambda>j. order16 be (pixel16 (rest ! (4 * j)) (rest ! (4 * j + 1)) (rest ! (4 * j + 2)))) [0..<n]"
    by (simp add: p(1) map_upt_Suc del: upt_Suc)
  then show ?case using Suc.IH [OF p(2), of "Suc k" "pixel16 r g b"] thousands_quad [of be k u r g b a rest] p(1) by simp
qed simp

text \<open>The generic path computes the same value from the widened channels.\<close>

lemma high_bits: "drop_bit 11 (widen v) = ucast (drop_bit 3 v)"
proof (rule bit_word_eqI)
  fix n assume "n < LENGTH(32)"
  have "\<not> bit v (11 + n)" "bit v (3 + n) \<Longrightarrow> n < 5" using bit_imp_le_length [of v "11 + n"] bit_imp_le_length [of v "3 + n"] by auto
  then show "bit (drop_bit 11 (widen v)) n = bit (ucast (drop_bit 3 v) :: 32 word) n"
    by (auto simp: widen_def bit_simps)
qed

lemma bit_248: "bit (248 :: 8 word) i \<longleftrightarrow> 3 \<le> i \<and> i < 8"
proof (cases "i < 8")
  case True
  then have "i = 0 \<or> i = 1 \<or> i = 2 \<or> i = 3 \<or> i = 4 \<or> i = 5 \<or> i = 6 \<or> i = 7" by auto
  then show ?thesis by (elim disjE) simp_all
qed (auto dest: bit_imp_le_length)

lemma and_248: "r AND 248 = push_bit 3 (drop_bit 3 r)" for r :: "8 word"
  by (rule bit_word_eqI, unfold bit_and_iff bit_248) (auto simp: bit_simps)

lemma pixel_generic:
  "ucast (push_bit 10 (ucast (drop_bit 3 r)) OR push_bit 5 (ucast (drop_bit 3 g)) OR push_bit 0 (ucast (drop_bit 3 b)) :: 32 word) = pixel16 r g b"
proof (rule bit_word_eqI)
  fix n assume "n < LENGTH(16)"
  then have n: "n < 16" by simp
  have out: "\<not> bit x i" if "8 \<le> i" for x :: "8 word" and i using that by (auto dest: bit_imp_le_length)
  show "bit (ucast (push_bit 10 (ucast (drop_bit 3 r)) OR push_bit 5 (ucast (drop_bit 3 g)) OR push_bit 0 (ucast (drop_bit 3 b)) :: 32 word) :: 16 word) n
      = bit (pixel16 r g b) n"
    unfolding pixel16_def and_248 using n by (auto simp: bit_simps out dest: bit_imp_le_length)
qed

text \<open>What the client reads from a pixel: five bits of each channel.\<close>

definition five :: "8 word \<Rightarrow> 16 word" where
  "five v = ucast (drop_bit 3 v)"

lemma channel_bits:
  "channel (ucast (pixel16 r g b)) 10 31 = five r" "channel (ucast (pixel16 r g b)) 5 31 = five g" "channel (ucast (pixel16 r g b)) 0 31 = five b"
proof -
  have m: "(31 :: 32 word) = mask 5" by (simp add: mask_eq_exp_minus_1)
  have out: "\<not> bit x i" if "8 \<le> i" for x :: "8 word" and i using that by (auto dest: bit_imp_le_length)
  show "channel (ucast (pixel16 r g b)) 10 31 = five r"
    by (rule bit_word_eqI) (auto simp: channel_def five_def m pixel16_def and_248 bit_simps out dest: bit_imp_le_length)
  show "channel (ucast (pixel16 r g b)) 5 31 = five g"
    by (rule bit_word_eqI) (auto simp: channel_def five_def m pixel16_def and_248 bit_simps out dest: bit_imp_le_length)
  show "channel (ucast (pixel16 r g b)) 0 31 = five b"
    by (rule bit_word_eqI) (auto simp: channel_def five_def m pixel16_def and_248 bit_simps out dest: bit_imp_le_length)
qed

subsection \<open>Whole images\<close>

lemma points_index: "points (int w) (int h) = map (\<lambda>j. (int (j mod w), int (j div w))) [0..<w * h]"
proof (induction h)
  case 0
  then show ?case by (simp add: points_def)
next
  case (Suc h)
  have y: "[0..int (Suc h) - 1] = [0..int h - 1] @ [int h]"
    by (metis (no_types, opaque_lifting) add.commute add_diff_cancel_left' of_nat_0_le_iff of_nat_Suc upto_rec2)
  have x: "[0..int w - 1] = map int [0..<w]" by (intro nth_equalityI) (auto simp: nth_upto)
  have u: "[0..<w * Suc h] = [0..<w * h] @ map (\<lambda>i. w * h + i) [0..<w]"
    using upt_add_eq_append [of 0 "w * h" w] by (simp add: map_add_upt add.commute)
  have "points (int w) (int (Suc h)) = points (int w) (int h) @ map (\<lambda>i. (int i, int h)) [0..<w]"
    unfolding points_def y by (simp add: x)
  also have "map (\<lambda>i. (int i, int h)) [0..<w] = map (\<lambda>j. (int (j mod w), int (j div w))) (map (\<lambda>i. w * h + i) [0..<w])" by auto
  finally show ?case unfolding u Suc map_append .
qed

text \<open>An image in memory without gaps.\<close>

definition packed :: "nat \<Rightarrow> nat \<Rightarrow> bytes \<Rightarrow> image" where
  "packed w h pix = RGBAImage pix (4 * int w) \<lparr>MinX = 0, MinY = 0, Dx = int w, Dy = int h\<rparr>"

lemma At_packed:
  assumes "length pix = 4 * (w * h)" "j < w * h"
  shows "At_RGBA (packed w h pix) (int (j mod w)) (int (j div w)) = Ret (widen (pix ! (4 * j)), widen (pix ! (4 * j + 1)), widen (pix ! (4 * j + 2)))"
proof -
  have w: "0 < w" using assms(2) by (cases w) auto
  have d: "j div w < h" using assms(2) by (simp add: less_mult_imp_div_less mult.commute)
  have "int j = int (j div w) * int w + int (j mod w)" by (metis div_mult_mod_eq of_nat_add of_nat_mult)
  then have i: "int (j div w) * (4 * int w) + int (j mod w) * 4 = 4 * int j" by simp
  have "4 * j + 4 \<le> length pix" using assms by simp
  then have b: "4 * int j + 4 \<le> int (length pix)" by simp
  have n: "nat (4 * int j) = 4 * j" by simp
  have "j mod w < w" using w by simp
  then show ?thesis using d b by (simp add: At_RGBA_def packed_def Let_def i n zmod_int [symmetric] zdiv_int [symmetric])
qed

lemma thousands_pixel:
  assumes "isScreensThousands f"
  shows "pixel_value f (widen r, widen g, widen b) = Ret (push_bit 10 (ucast (drop_bit 3 r)) OR push_bit 5 (ucast (drop_bit 3 g)) OR push_bit 0 (ucast (drop_bit 3 b)))"
  using assms by (simp add: isScreensThousands_def pixel_value_def inRange_def high_bits)

lemma thousands_bytes:
  assumes "isScreensThousands f"
  shows "pixel_bytes f v = Ret (order16 (sBigEndian f \<noteq> 0) (ucast v))"
  using assms by (simp add: isScreensThousands_def pixel_bytes_def order16_def)

lemma concat_outcomes_Ret: "(\<And>x. x \<in> set xs \<Longrightarrow> g x = Ret (k x)) \<Longrightarrow> concat_outcomes g xs = Ret (concat (map k xs))"
  by (induction xs) simp_all

text \<open>The fast path is the generic path.\<close>

definition image_bytes :: "bool \<Rightarrow> nat \<Rightarrow> bytes \<Rightarrow> bytes" where
  "image_bytes be n pix = concat (map (\<lambda>j. order16 be (pixel16 (pix ! (4 * j)) (pix ! (4 * j + 1)) (pix ! (4 * j + 2)))) [0..<n])"

lemma fast_path:
  assumes "isScreensThousands f" "length pix = 4 * (w * h)"
  shows "pushRGBAScreensThousandsLocked f pix = image_bytes (sBigEndian f \<noteq> 0) (w * h) pix"
    and "pushGenericLocked f (packed w h pix) = Ret (image_bytes (sBigEndian f \<noteq> 0) (w * h) pix)"
proof -
  show "pushRGBAScreensThousandsLocked f pix = image_bytes (sBigEndian f \<noteq> 0) (w * h) pix"
    using thousands_quads [OF assms(2), of _ 0 0] by (simp add: pushRGBAScreensThousandsLocked_def image_bytes_def)
  let ?k = "\<lambda>j. order16 (sBigEndian f \<noteq> 0) (pixel16 (pix ! (4 * j)) (pix ! (4 * j + 1)) (pix ! (4 * j + 2)))"
  have p: "push_pixel f (packed w h pix) (int (j mod w), int (j div w)) = Ret (?k j)" if "j < w * h" for j
    using At_packed [OF assms(2) that] pixel_generic by (simp add: push_pixel_def thousands_pixel [OF assms(1)] thousands_bytes [OF assms(1)])
  have "concat_outcomes (push_pixel f (packed w h pix)) (map (\<lambda>j. (int (j mod w), int (j div w))) js) = Ret (concat (map ?k js))"
    if "set js \<subseteq> {..<w * h}" for js
    using that by (induction js) (simp_all add: p)
  then show "pushGenericLocked f (packed w h pix) = Ret (image_bytes (sBigEndian f \<noteq> 0) (w * h) pix)"
    by (simp add: pushGenericLocked_def Bounds_def packed_def [of w h pix] points_index image_bytes_def) (simp add: packed_def subset_iff)
qed

subsection \<open>What the client reads\<close>

definition client_format :: "ServerPixelFormat \<Rightarrow> ClientPixelFormat" where
  "client_format f = \<lparr>BPP = sBPP f, Depth = sDepth f, BigEndian = (sBigEndian f \<noteq> 0), TrueColor = (sTrueColour f \<noteq> 0),
     RedMax = sRedMax f, GreenMax = sGreenMax f, BlueMax = sBlueMax f, RedShift = sRedShift f, GreenShift = sGreenShift f, BlueShift = sBlueShift f\<rparr>"

definition color5 :: "bytes \<Rightarrow> nat \<Rightarrow> Color" where
  "color5 pix j = \<lparr>R = five (pix ! (4 * j)), G = five (pix ! (4 * j + 1)), B = five (pix ! (4 * j + 2))\<rparr>"

lemma read_thousands_pixel:
  assumes "isScreensThousands f" "PixelFormat c = client_format f" "inb c = order16 (sBigEndian f \<noteq> 0) (pixel16 r g b) @ rest"
  shows "read_pixel c = (Done \<lparr>R = five r, G = five g, B = five b\<rparr>, c\<lparr>inb := rest\<rparr>)"
proof -
  have l: "length (order16 be v) = 2" for be v by (simp add: order16_def)
  let ?b = "order16 (sBigEndian f \<noteq> 0) (pixel16 r g b)"
  have b: "unat (BPP (client_format f)) div 8 = 2" using assms(1) by (simp add: client_format_def isScreensThousands_def)
  have "raw_pixel (client_format f) ?b = ucast (pixel16 r g b)"
    using assms(1) of_be16_be16 [of "pixel16 r g b" "[]"]
    by (simp add: raw_pixel_def client_format_def isScreensThousands_def order16_def of_le16_le16)
  then show ?thesis
    using assms(1) channel_bits [of r g b] unfolding read_pixel_def
    by (simp add: io returns assms(2) b read_full_append [OF assms(3) l] Let_def) (simp add: client_format_def isScreensThousands_def)
qed

lemma read_raw_image:
  assumes "isScreensThousands f" "PixelFormat c = client_format f" "inb c = image_bytes (sBigEndian f \<noteq> 0) (w * h) pix @ rest" "w < 2 ^ 16" "h < 2 ^ 16"
  shows "RawEncoding_Read (word_of_nat w) (word_of_nat h) c = (Done (RawEncoding (map (color5 pix) [0..<w * h])), c\<lparr>inb := rest\<rparr>)"
proof -
  let ?enc = "\<lambda>j. order16 (sBigEndian f \<noteq> 0) (pixel16 (pix ! (4 * j)) (pix ! (4 * j + 1)) (pix ! (4 * j + 2)))"
  have "times_io (length [0..<w * h]) read_pixel c = (Done (map (color5 pix) [0..<w * h]), c\<lparr>inb := rest\<rparr>)"
  proof (rule times_read [where P = "\<lambda>c. PixelFormat c = client_format f" and enc = ?enc])
    fix j and c :: ClientConn and rest assume "PixelFormat c = client_format f" "inb c = ?enc j @ rest"
    then show "read_pixel c = (Done (color5 pix j), c\<lparr>inb := rest\<rparr>)" using read_thousands_pixel [OF assms(1)] by (simp add: color5_def)
  qed (use assms(2,3) in \<open>simp_all add: image_bytes_def\<close>)
  moreover have "unat (word_of_nat h :: 16 word) * unat (word_of_nat w :: 16 word) = length [0..<w * h]"
    using assms(4,5) by (simp add: unat_of_nat mult.commute)
  ultimately show ?thesis by (simp add: RawEncoding_Read_def bind_io_def return_io_def)
qed

lemma pushImage_packed:
  assumes "isScreensThousands f" "length pix = 4 * (w * h)"
  shows "pushImage f (packed w h pix) = Ret ([0, 0] @ be16 1 @ be16 0 @ be16 0 @ be16 (word_of_nat w) @ be16 (word_of_nat h) @ be32 0
    @ image_bytes (sBigEndian f \<noteq> 0) (w * h) pix)"
proof -
  have "sTrueColour f \<noteq> 0" using assms(1) by (simp add: isScreensThousands_def)
  then show ?thesis using fast_path(1) [OF assms] assms(1) by (simp add: pushImage_def packed_def Bounds_def Let_def)
qed

lemma update_read:
  assumes "msg_read ext 0 = None" "inb c = [0, 0] @ be16 1 @ be16 x @ be16 y @ be16 w @ be16 h @ be32 t @ rest"
  shows "main_step ext c =
    (case (if t = 0 then bind_io (RawEncoding_Read w h) (\<lambda>p. return_io \<lparr>X = x, Y = y, Width = w, Height = h, Enc = p\<rparr>)
           else if t \<in> set (Encs c) then bind_io (enc_read ext t \<lparr>X = x, Y = y, Width = w, Height = h, Enc = RawEncoding []\<rparr>) (\<lambda>b. return_io \<lparr>X = x, Y = y, Width = w, Height = h, Enc = OtherEncoding b\<rparr>)
           else fail_io (UnsupportedEncoding t)) (c\<lparr>inb := rest\<rparr>) of
       (Done r, c') \<Rightarrow> (Done (Some (FramebufferUpdateMessage [r])), c') | (Fail e, c') \<Rightarrow> (Done None, c') | (Crash, c') \<Rightarrow> (Crash, c'))"
proof -
  let ?c = "c\<lparr>inb := [0] @ be16 1 @ be16 x @ be16 y @ be16 w @ be16 h @ be32 t @ rest\<rparr>"
  have r8: "read8 c = (Done 0, ?c)" using read8_step [of c 0 _ return_io] assms(2) by (simp add: returns bind_io_def split: prod.splits ioresult.splits)
  have u: "times_io (unat (1 :: 16 word)) m = bind_io m (\<lambda>r. return_io [r])" for m :: "(ClientConn, Rectangle) io" by (simp add: bind_return)
  have "FramebufferUpdate_Read ext ?c = bind_io (read_rectangle ext) (\<lambda>r. return_io (FramebufferUpdateMessage [r])) (c\<lparr>inb := be16 x @ be16 y @ be16 w @ be16 h @ be32 t @ rest\<rparr>)"
    unfolding FramebufferUpdate_Read_def
    by (subst read_full_append [of _ "[0]"], simp, simp, subst read16_step, simp, unfold u, simp add: io)
  moreover have "read_rectangle ext (c\<lparr>inb := be16 x @ be16 y @ be16 w @ be16 h @ be32 t @ rest\<rparr>) =
      (if t = 0 then bind_io (RawEncoding_Read w h) (\<lambda>p. return_io \<lparr>X = x, Y = y, Width = w, Height = h, Enc = p\<rparr>)
       else if t \<in> set (Encs c) then bind_io (enc_read ext t \<lparr>X = x, Y = y, Width = w, Height = h, Enc = RawEncoding []\<rparr>) (\<lambda>b. return_io \<lparr>X = x, Y = y, Width = w, Height = h, Enc = OtherEncoding b\<rparr>)
       else fail_io (UnsupportedEncoding t)) (c\<lparr>inb := rest\<rparr>)"
    unfolding read_rectangle_def
    by ((subst read16_step, simp)+, subst read32_step, simp, simp add: bind_get Let_def)
  ultimately show ?thesis
    unfolding main_step_def r8
    by (auto simp: message_reader_def assms(1) bind_io_def returns split: prod.splits ioresult.splits)
qed

end
