(* ===== verification/Rfb_Session.thy ===== *)
theory Rfb_Session
  imports Rfb_Pixels
begin

section \<open>Remote frame buffer: client and server together\<close>

text \<open>
  The handshake of the client against the one of the server, and the requests of the client against the
  commands of the server.
\<close>

subsection \<open>Handshake\<close>

lemma version_bytes: "length v8 = 12" "takeWhile (\<lambda>b. b \<noteq> 10) (v8 @ rest) = butlast v8" "butlast v8 @ [10] = v8" "bytes_ge v8 v7" "bytes_ge v8 v8"
  by (simp_all add: v8_def v7_def to_bytes_def)

lemma version_8: "parseProtocolVersion v8 = Inr (3, 8)"
proof -
  have "runes (of_bytes v8) = map byte (''RFB 003.008'' @ [CHR 0x0A])"
    unfolding v8_def of_to_bytes by (rule runes_ascii) (simp add: ascii_def)
  then have "runes (of_bytes v8) = [82, 70, 66, 32, 48, 48, 51, 46, 48, 48, 56, 10]" by simp
  then show ?thesis by (simp add: parseProtocolVersion_def version_bytes(1) pvLen_def scan_version_def scan_number_def blank_def digit_rune_def unicode_IsSpace_def)
qed

definition server_hello :: "Server \<Rightarrow> bytes" where
  "server_hello s = v8 @ [1, 1] @ be32 0 @ server_init_bytes s default_format"

definition client_hello :: "8 word \<Rightarrow> bytes" where
  "client_hello shared = v8 @ [1, shared]"

lemma serve_handshake_client:
  "serve_handshake s (newConn (client_hello sh @ rest)) =
     (Done (), (newConn rest)\<lparr>outb := server_hello s, format := default_format\<rparr>)"
proof -
  have l: "read_line ((newConn (client_hello sh @ rest))\<lparr>outb := v8\<rparr>) = (Done v8, (newConn (1 # sh # rest))\<lparr>outb := v8\<rparr>)"
    using version_bytes by (simp add: read_line_def client_hello_def newConn_def Let_def)
  have a: "serve_auth v8 ((newConn (1 # sh # rest))\<lparr>outb := v8\<rparr>) = (Done (), (newConn (sh # rest))\<lparr>outb := v8 @ [1, 1]\<rparr>)"
    unfolding serve_auth_def put_def by (simp add: version_bytes bind_get) (subst read8_step, simp add: newConn_def, simp add: returns newConn_def)
  have o: "outb (newConn (client_hello sh @ rest)) = []" by (simp add: newConn_def)
  show ?thesis
    unfolding serve_handshake_def put_def [of v8] bind_get o append_Nil
    apply (subst bind_Done [where m = read_line, OF l])
    apply (simp add: version_bytes)
    apply (subst bind_Done [where m = "serve_auth v8", OF a])
    apply (simp add: put_def bind_get)
    apply (subst read8_step, simp add: newConn_def)
    apply (simp add: bind_get returns newConn_def server_hello_def)
    done
qed

lemma auth_none: "find_auth as [1] = Some a \<Longrightarrow> a = ClientAuthNone"
  by (cases a) (auto simp: find_auth_def find_Some_iff SecurityType_def dest: sym)

lemma parse_default:
  "parse_format ([sBPP f, sDepth f, sBigEndian f, sTrueColour f] @ be16 (sRedMax f) @ be16 (sGreenMax f) @ be16 (sBlueMax f) @ [sRedShift f, sGreenShift f, sBlueShift f, 0, 0, 0]) no_format
   = (if sTrueColour f \<noteq> 0 then client_format f else no_format\<lparr>BPP := sBPP f, Depth := sDepth f, BigEndian := (sBigEndian f \<noteq> 0)\<rparr>)"
  (is "parse_format ?b no_format = _")
proof -
  have "Uint16 ?b 4 = Some (sRedMax f)" using Uint16_app [of 4 "[sBPP f, sDepth f, sBigEndian f, sTrueColour f]"] by simp
  moreover have "Uint16 ?b 6 = Some (sGreenMax f)" using Uint16_app [of 6 "[sBPP f, sDepth f, sBigEndian f, sTrueColour f] @ be16 (sRedMax f)"] by simp
  moreover have "Uint16 ?b 8 = Some (sBlueMax f)" using Uint16_app [of 8 "[sBPP f, sDepth f, sBigEndian f, sTrueColour f] @ be16 (sRedMax f) @ be16 (sGreenMax f)"] by simp
  moreover have "?b ! 0 = sBPP f" "?b ! 1 = sDepth f" "?b ! 2 = sBigEndian f" "?b ! 3 = sTrueColour f" "?b ! 10 = sRedShift f" "?b ! 11 = sGreenShift f" "?b ! 12 = sBlueShift f"
    by (simp_all add: be16_def)
  ultimately show ?thesis unfolding parse_format_def Let_def by (simp add: no_format_def client_format_def)
qed

lemma init_read:
  assumes "PixelFormat c = no_format" "inb c = server_init_bytes s default_format @ rest"
  shows "server_init c = (Done (), c\<lparr>inb := rest, FrameBufferWidth := word_of_int (width s), FrameBufferHeight := word_of_int (height s),
    PixelFormat := client_format default_format, DesktopName := ''rfb-go''\<rparr>)"
proof -
  let ?f = default_format
  let ?pf = "[sBPP ?f, sDepth ?f, sBigEndian ?f, sTrueColour ?f] @ be16 (sRedMax ?f) @ be16 (sGreenMax ?f) @ be16 (sBlueMax ?f) @ [sRedShift ?f, sGreenShift ?f, sBlueShift ?f, 0, 0, 0]"
  have pf: "length ?pf = 16" "parse_format ?pf no_format = client_format ?f"
    using parse_default [of ?f] by (simp_all add: default_format_def)
  have i: "inb c = be16 (word_of_int (width s)) @ be16 (word_of_int (height s)) @ ?pf @ be32 6 @ to_bytes ''rfb-go'' @ rest"
    using assms(2) by (simp add: server_init_bytes_def)
  show ?thesis
    unfolding server_init_def readPixelFormat_def bind_bind
    apply (subst read16_step [OF i])
    apply (simp only: bind_get)
    apply (subst read16_step, simp)
    apply (simp only: bind_get)
    apply (subst read_full_append [of _ ?pf], simp, rule pf)
    apply (simp only: bind_return)
    apply (simp add: bind_get assms(1) pf(2) [unfolded append_Cons append_Nil])
    apply (subst read32_step, simp)
    apply (subst read_full_append [of _ "to_bytes ''rfb-go''"], simp, simp)
    apply (cases c, simp add: returns)
    done
qed

definition auths :: "ClientConfig \<Rightarrow> ClientAuth list" where
  "auths cfg = (case Auth cfg of None \<Rightarrow> [ClientAuthNone] | Some as \<Rightarrow> as)"

lemma security_none:
  assumes "ClientAuthNone \<in> set (auths cfg)" "inb c = [1, 1] @ be32 0 @ rest" "werrs c = []"
  shows "security cfg c = (Done (), c\<lparr>inb := rest, outb := outb c @ [1]\<rparr>)"
proof -
  have "find_auth (auths cfg) [1] \<noteq> None" using assms(1) by (auto simp: find_auth_def find_None_iff SecurityType_def)
  then have f: "find_auth (auths cfg) [1] = Some ClientAuthNone" using auth_none by (cases "find_auth (auths cfg) [1]") auto
  show ?thesis
    unfolding security_def auths_def [symmetric]
    apply (subst read8_step [of c 1 "1 # be32 0 @ rest"], simp add: assms(2))
    apply simp
    apply (subst read_full_append [of _ "[1]" "be32 0 @ rest"], simp, simp)
    apply (simp add: f SecurityType_def auth_Handshake_def bind_return)
    apply (subst write_step, simp add: assms(3))
    apply (subst read32_step, simp)
    apply (cases c, simp add: returns)
    done
qed

lemma handshake_server:
  assumes "ClientAuthNone \<in> set (auths cfg)"
  shows "handshake cfg (new_client (server_hello s @ rest) []) =
    (Done (), (new_client rest [])\<lparr>outb := client_hello (of_bool (\<not> Exclusive cfg)), FrameBufferWidth := word_of_int (width s),
       FrameBufferHeight := word_of_int (height s), PixelFormat := client_format default_format, DesktopName := ''rfb-go''\<rparr>)"
proof -
  let ?c = "(new_client ([1, 1] @ be32 0 @ server_init_bytes s default_format @ rest) [])\<lparr>outb := v8\<rparr>"
  let ?d = "(new_client (server_init_bytes s default_format @ rest) [])\<lparr>outb := v8 @ [1]\<rparr>"
  define sh where "sh = (of_bool (\<not> Exclusive cfg) :: 8 word)"
  let ?e = "(new_client (server_init_bytes s default_format @ rest) [])\<lparr>outb := v8 @ [1, sh]\<rparr>"
  have sec: "security cfg ?c = (Done (), ?d)"
    using security_none [OF assms, of ?c "server_init_bytes s default_format @ rest"] by (simp add: new_client_def)
  have i: "server_init ?e = (Done (), (new_client rest [])\<lparr>outb := client_hello (sh), FrameBufferWidth := word_of_int (width s),
       FrameBufferHeight := word_of_int (height s), PixelFormat := client_format default_format, DesktopName := ''rfb-go''\<rparr>)"
    using init_read [of ?e s rest] by (simp add: new_client_def client_hello_def)
  show ?thesis
    unfolding handshake_def v8_def [symmetric] sh_def [symmetric]
    apply (subst read_full_append [of _ v8 "[1, 1] @ be32 0 @ server_init_bytes s default_format @ rest"])
      apply (simp add: new_client_def server_hello_def)
     apply (simp add: version_bytes pvLen_def)
    apply (simp add: version_8)
    apply (subst write_step, simp add: new_client_def)
    apply (subst bind_Done [where m = "security cfg" and c' = ?d])
     apply (use sec in \<open>simp add: new_client_def\<close>)
    apply (subst write_step, simp add: new_client_def)
    apply (use i in \<open>simp add: new_client_def\<close>)
    done
qed

subsection \<open>Requests\<close>

datatype request =
    SetFormat ClientPixelFormat
  | SetEncs "32 word list"
  | Update bool "16 word" "16 word" "16 word" "16 word"
  | Key "32 word" bool
  | Pointer "8 word" "16 word" "16 word"

definition send :: "request \<Rightarrow> (ClientConn, unit) io" where
  "send r =
     (case r of
        SetFormat f \<Rightarrow> SetPixelFormat f
      | SetEncs es \<Rightarrow> SetEncodings es
      | Update i x y w h \<Rightarrow> FramebufferUpdateRequest i x y w h
      | Key k down \<Rightarrow> KeyEvent k down
      | Pointer m x y \<Rightarrow> PointerEvent m x y)"

definition wire :: "request \<Rightarrow> bytes" where
  "wire r =
     (case r of
        SetFormat f \<Rightarrow> [0, 0, 0, 0] @ writePixelFormat f
      | SetEncs es \<Rightarrow> [2, 0] @ be16 (word_of_nat (length es)) @ concat (map be32 es)
      | Update i x y w h \<Rightarrow> [3, of_bool i] @ be16 x @ be16 y @ be16 w @ be16 h
      | Key k down \<Rightarrow> [4, of_bool down, 0, 0] @ be32 k
      | Pointer m x y \<Rightarrow> [5, m] @ be16 x @ be16 y)"

lemma send_wire:
  assumes "werrs c = []"
  shows "\<exists>c'. send r c = (Done (), c') \<and> outb c' = outb c @ wire r \<and> inb c' = inb c \<and> werrs c' = [] \<and> PixelFormat c' = PixelFormat c"
proof (cases r)
  case (Key k down)
  then show ?thesis using assms by (simp add: send_def wire_def KeyEvent_def write_step returns)
qed (use assms in \<open>simp_all add: send_def wire_def SetPixelFormat_def SetEncodings_def FramebufferUpdateRequest_def PointerEvent_def write_step write_last returns\<close>)

text \<open>The format a server has after a request: without true colour its other fields are zero.\<close>

definition server_format :: "ClientPixelFormat \<Rightarrow> ServerPixelFormat" where
  "server_format f =
     (let tc = TrueColor f
      in \<lparr>sBPP = BPP f, sDepth = Depth f, sBigEndian = of_bool (BigEndian f), sTrueColour = of_bool tc,
          sRedMax = (if tc then RedMax f else 0), sGreenMax = (if tc then GreenMax f else 0), sBlueMax = (if tc then BlueMax f else 0),
          sRedShift = (if tc then RedShift f else 0), sGreenShift = (if tc then GreenShift f else 0), sBlueShift = (if tc then BlueShift f else 0)\<rparr>)"

definition format_bytes :: "ServerPixelFormat \<Rightarrow> bytes" where
  "format_bytes f = [sBPP f, sDepth f, sBigEndian f, sTrueColour f] @ be16 (sRedMax f) @ be16 (sGreenMax f) @ be16 (sBlueMax f)
     @ [sRedShift f, sGreenShift f, sBlueShift f, 0, 0, 0]"

lemma writePixelFormat_bytes: "writePixelFormat f = format_bytes (server_format f)"
proof -
  have z: "be16 0 = [0, 0]" by (simp add: be16_def)
  have r: "replicate 60 (0 :: 8 word) = replicate 12 0 @ replicate 48 0" "replicate 51 (0 :: 8 word) = replicate 3 0 @ replicate 48 0"
    by (simp_all flip: replicate_add)
  show ?thesis
    by (cases "TrueColor f") (simp_all add: writePixelFormat_def Let_def format_bytes_def server_format_def z r, simp_all add: numeral_eq_Suc)
qed

lemma read_three_bytes: "inb c = x # y # z # rest \<Longrightarrow> bind_io (times_io 3 read8) f c = f [x, y, z] (c\<lparr>inb := rest\<rparr>)"
  by (simp add: numeral_3_eq_3 bind_bind bind_return read8_step)

lemma read_two_bytes: "inb c = x # y # rest \<Longrightarrow> bind_io (times_io 2 read8) f c = f [x, y] (c\<lparr>inb := rest\<rparr>)"
  by (simp add: numeral_2_eq_2 bind_bind bind_return read8_step)

lemma handleSetPixelFormat_read:
  assumes "inb c = [0, 0, 0] @ format_bytes g @ rest"
  shows "handleSetPixelFormat c = (Done (), c\<lparr>inb := rest, format := g\<rparr>)"
proof -
  have i: "inb c = 0 # 0 # 0 # format_bytes g @ rest" using assms by simp
  show ?thesis
    unfolding handleSetPixelFormat_def
    apply (subst read_three_bytes [OF i])
    apply (simp add: format_bytes_def read8_step read16_step)
    apply (subst read_three_bytes, simp)
    apply (cases c, simp add: returns)
    done
qed

lemma handleSetEncodings_read:
  assumes "inb c = 0 # be16 (word_of_nat (length es)) @ concat (map be32 es) @ rest" "length es < 2 ^ 16"
  shows "handleSetEncodings c = (Done (), c\<lparr>inb := rest\<rparr>)"
proof -
  have n: "unat (word_of_nat (length es) :: 16 word) = length es" using assms(2) by (simp add: unat_of_nat)
  have t: "times_io (length es) read32 (c\<lparr>inb := concat (map be32 es) @ rest\<rparr>) = (Done es, c\<lparr>inb := rest\<rparr>)"
  proof -
    have "read32 d = (Done x, d\<lparr>inb := r\<rparr>)" if "inb d = be32 x @ r" for d :: sconn and x r
      using read32_step [OF that, of return_io] by (simp add: bind_io_def returns split: prod.splits ioresult.splits)
    then show ?thesis using times_read [of es "\<lambda>c. True" be32 read32 "\<lambda>x. x" "c\<lparr>inb := concat (map be32 es) @ rest\<rparr>" rest] by simp
  qed
  show ?thesis
    unfolding handleSetEncodings_def
    by (simp add: bind_bind bind_return, subst read8_step [OF assms(1)], subst read16_step, simp, simp add: n bind_Done [where m = "times_io _ _", OF t] returns)
qed

definition add_event :: "client_event \<Rightarrow> sconn \<Rightarrow> sconn" where
  "add_event e c = (if length (event c) < 16 then c\<lparr>event := event c @ [e]\<rparr> else c)"

definition first_frame :: "sconn \<Rightarrow> sconn" where
  "first_frame c = (if gotFirstFrame c then c else c\<lparr>feed := tl (feed c), lastFrame := Some (hd (feed c)), gotFirstFrame := True\<rparr>)"

definition effect :: "request \<Rightarrow> sconn \<Rightarrow> sconn" where
  "effect r c =
     (case r of
        SetFormat f \<Rightarrow> c\<lparr>format := server_format f\<rparr>
      | SetEncs es \<Rightarrow> c
      | Update i x y w h \<Rightarrow>
          (first_frame c)\<lparr>fbupc := fbupc c @ [\<lparr>IncrementalFlag = of_bool i, reqX = x, reqY = y, reqWidth = w, reqHeight = h\<rparr>]\<rparr>
      | Key k down \<Rightarrow> add_event (KeyEv (of_bool down) k) c
      | Pointer m x y \<Rightarrow> add_event (PointerEv m x y) c)"

text \<open>The server takes the request at once, unless it has to wait for a frame or for room.\<close>

definition ready :: "request \<Rightarrow> sconn \<Rightarrow> bool" where
  "ready r c \<longleftrightarrow>
     (case r of
        SetEncs es \<Rightarrow> length es < 2 ^ 16
      | Update i x y w h \<Rightarrow> (gotFirstFrame c \<or> feed c \<noteq> []) \<and> length (fbupc c) < 128
      | _ \<Rightarrow> True)"

lemma read8_first: "inb c = b # rest \<Longrightarrow> read8 c = (Done b, c\<lparr>inb := rest\<rparr>)"
  using read8_step [of c b rest return_io] by (simp add: bind_io_def returns split: prod.splits ioresult.splits)

lemma serve_command:
  assumes "place c = Idle" "inb c = cmd # rest" "cmd \<noteq> 3" "handle cmd (c\<lparr>inb := rest\<rparr>) = (Done (), c')"
  shows "serve_next c = Some c'"
  using assms by (simp add: serve_next_def read8_first)

lemma serve_update:
  assumes "place c = Idle" "inb c = wire (Update i x y w h) @ rest" "ready (Update i x y w h) c"
  shows "\<exists>c1. serve_next c = Some c1 \<and> crashed c1 = crashed c \<and> serve_next c1 = Some (effect (Update i x y w h) (c\<lparr>inb := rest\<rparr>))"
proof -
  let ?r = "of_bool i # be16 x @ be16 y @ be16 w @ be16 h @ rest"
  let ?q = "\<lparr>IncrementalFlag = of_bool i, reqX = x, reqY = y, reqWidth = w, reqHeight = h\<rparr>"
  let ?c = "(first_frame (c\<lparr>inb := ?r\<rparr>))\<lparr>place := Updating\<rparr>"
  have b: "inb c = 3 # ?r" using assms(2) by (simp add: wire_def)
  have "serve_next c = Some ?c"
    using assms(1,3) by (cases "feed c") (auto simp: serve_next_def read8_first [OF b] first_frame_def ready_def)
  moreover have inc: "inb ?c = ?r" "fbupc ?c = fbupc c" "crashed ?c = crashed c" by (simp_all add: first_frame_def)
  have "read_request ?c = (Done ?q, ?c\<lparr>inb := rest\<rparr>)"
    unfolding read_request_def by (subst read8_step [OF inc(1)]) (simp add: read16_step returns)
  then have "serve_next ?c = Some (effect (Update i x y w h) (c\<lparr>inb := rest\<rparr>))"
    using assms(1,3) inc(2) by (simp add: serve_next_def ready_def effect_def first_frame_def)
  ultimately show ?thesis using inc(3) by blast
qed

lemma serve_request:
  assumes "\<not> crashed c" "place c = Idle" "inb c = wire r @ rest" "ready r c"
  shows "(server_step I)\<^sup>*\<^sup>* c (effect r (c\<lparr>inb := rest\<rparr>))"
proof -
  have one: "(server_step I)\<^sup>*\<^sup>* c c'" if "serve_next c = Some c'" for c' using server_step.serve [OF assms(1) that] by blast
  show ?thesis
  proof (cases r)
    case (SetFormat f)
    have "handle 0 (c\<lparr>inb := [0, 0, 0] @ format_bytes (server_format f) @ rest\<rparr>) = (Done (), c\<lparr>inb := rest, format := server_format f\<rparr>)"
      using handleSetPixelFormat_read [of "c\<lparr>inb := [0, 0, 0] @ format_bytes (server_format f) @ rest\<rparr>"] by (simp add: handle_def)
    then show ?thesis
      using one serve_command [OF assms(2), of 0] assms(3) SetFormat by (simp add: wire_def effect_def writePixelFormat_bytes)
  next
    case (SetEncs es)
    have "handle 2 (c\<lparr>inb := 0 # be16 (word_of_nat (length es)) @ concat (map be32 es) @ rest\<rparr>) = (Done (), c\<lparr>inb := rest\<rparr>)"
      using handleSetEncodings_read [of "c\<lparr>inb := 0 # be16 (word_of_nat (length es)) @ concat (map be32 es) @ rest\<rparr>"] assms(4) SetEncs
      by (simp add: handle_def ready_def)
    then show ?thesis using one serve_command [OF assms(2), of 2] assms(3) SetEncs by (simp add: wire_def effect_def)
  next
    case (Update i x y w h)
    then obtain c1 where "serve_next c = Some c1" "\<not> crashed c1" "serve_next c1 = Some (effect r (c\<lparr>inb := rest\<rparr>))"
      using serve_update [OF assms(2)] assms(1,3,4) by blast
    then show ?thesis using one server_step.serve by (meson rtranclp.rtrancl_into_rtrancl)
  next
    case (Key k down)
    have "handle 4 (c\<lparr>inb := of_bool down # 0 # 0 # be32 k @ rest\<rparr>) = (Done (), effect r (c\<lparr>inb := rest\<rparr>))"
      unfolding Key
      by (simp add: handle_def handleKeyEvent_def read8_step read_two_bytes read32_step send_event_def returns effect_def add_event_def)
    then show ?thesis using one serve_command [OF assms(2), of 4] assms(3) Key by (simp add: wire_def)
  next
    case (Pointer m x y)
    have "handle 5 (c\<lparr>inb := m # be16 x @ be16 y @ rest\<rparr>) = (Done (), effect r (c\<lparr>inb := rest\<rparr>))"
      unfolding Pointer
      by (simp add: handle_def handlePointerEvent_def read8_step read16_step send_event_def returns effect_def add_event_def)
    then show ?thesis using one serve_command [OF assms(2), of 5] assms(3) Pointer by (simp add: wire_def)
  qed
qed

end
