(* ===== verification/Rfb_Guard.thy ===== *)
theory Rfb_Guard
  imports Rfb_Session
begin

section \<open>Remote frame buffer: what cannot and what can go wrong\<close>

text \<open>
  Invariants of the server's connection under all interleavings, when its program dies, and when the loop of the
  client ends or panics.
\<close>

subsection \<open>The server\<close>

text \<open>What a command may change.\<close>

definition kept :: "sconn \<Rightarrow> sconn \<Rightarrow> bool" where
  "kept c c' \<longleftrightarrow> outb c' = outb c \<and> gotFirstFrame c' = gotFirstFrame c \<and> lastFrame c' = lastFrame c
     \<and> feed c' = feed c \<and> fbupc c' = fbupc c \<and> place c' = place c \<and> pusher c' = pusher c \<and> crashed c' = crashed c
     \<and> (length (event c) \<le> 16 \<longrightarrow> length (event c') \<le> 16)"

definition keeps :: "(sconn, 'a) io \<Rightarrow> bool" where
  "keeps m \<longleftrightarrow> (\<forall>c. kept c (snd (m c)))"

lemma kept_trans: "kept a b \<Longrightarrow> kept b c \<Longrightarrow> kept a c"
  by (simp add: kept_def)

lemma keepsD: "keeps m \<Longrightarrow> m c = (r, c') \<Longrightarrow> kept c c'"
  by (metis keeps_def snd_conv)

lemma keeps_bind: "keeps m \<Longrightarrow> (\<And>x. keeps (f x)) \<Longrightarrow> keeps (bind_io m f)"
  unfolding keeps_def
proof
  fix c
  assume m: "\<forall>c. kept c (snd (m c))" and f: "\<And>x. \<forall>c. kept c (snd (f x c))"
  obtain r c' where r: "m c = (r, c')" by (cases "m c")
  then have "kept c c'" using m [rule_format, of c] by simp
  then show "kept c (snd (bind_io m f c))" using f r kept_trans by (cases r) (auto simp: bind_io_def)
qed

lemma keeps_basic: "keeps (return_io x)" "keeps (fail_io e)" "keeps (read_full n)" "keeps (send_event ev)" "keeps (modify_io (\<lambda>c. c\<lparr>format := g\<rparr>))"
  by (auto simp: keeps_def kept_def returns read_full_def send_event_def)

lemma keeps_read: "keeps read8" "keeps read16" "keeps read32"
  unfolding read8_def read16_def read32_def by (intro keeps_bind keeps_basic)+

lemma keeps_times: "keeps m \<Longrightarrow> keeps (times_io n m)"
  by (induction n) (auto intro: keeps_bind keeps_basic)

lemma keeps_handle: "keeps (handle cmd)" "keeps read_request"
  unfolding handle_def handleSetPixelFormat_def handleSetEncodings_def handlePointerEvent_def handleKeyEvent_def read_request_def
  by (auto intro!: keeps_bind keeps_basic keeps_read keeps_times)

text \<open>Formats and images that can be sent.\<close>

definition good_format :: "ServerPixelFormat \<Rightarrow> bool" where
  "good_format f \<longleftrightarrow> sTrueColour f \<noteq> 0 \<and> sRedMax f = 0x1f \<and> sGreenMax f = 0x1f \<and> sBlueMax f = 0x1f \<and> (sBPP f = 8 \<or> sBPP f = 16 \<or> sBPP f = 32)"

definition good_image :: "image \<Rightarrow> bool" where
  "good_image im \<longleftrightarrow> MinX (Bounds im) = 0 \<and> MinY (Bounds im) = 0 \<and> (\<forall>x y. At_RGBA im x y \<noteq> Panic)"

text \<open>
  What the server writes after the handshake while the formats in force are in \<open>F\<close>: update messages without pixels, with the pixels of the
  fast path, or with each pixel as the eight reads of it saw the format; and the beginning of the message that is being written.
\<close>

definition pixels_sent :: "ServerPixelFormat set \<Rightarrow> image \<Rightarrow> (int \<times> int) list \<Rightarrow> bytes list \<Rightarrow> bool" where
  "pixels_sent F im = list_all2 (\<lambda>p b. \<exists>fs. length fs = 8 \<and> set fs \<subseteq> F \<and> push_pixel (pixel_reads fs) im p = Ret b)"

definition update_message :: "ServerPixelFormat set \<Rightarrow> image set \<Rightarrow> bytes \<Rightarrow> bool" where
  "update_message F I m \<longleftrightarrow> (\<exists>im \<in> I. m = push_none im
     \<or> (\<exists>pix s b fs. \<exists>f \<in> F. im = RGBAImage pix s b \<and> length fs = 10 \<and> set fs \<subseteq> F \<and> thousands_reads fs \<and> m = push_head @ push_rectangle im @ pushRGBAScreensThousandsLocked f pix)
     \<or> (\<exists>bs. m = push_head @ push_rectangle im @ concat bs \<and> pixels_sent F im (points (Dx (Bounds im)) (Dy (Bounds im))) bs))"

definition begun :: "ServerPixelFormat set \<Rightarrow> image set \<Rightarrow> pusher \<Rightarrow> bytes \<Rightarrow> bool" where
  "begun F I p part = (case p of
       PTrueColour im \<Rightarrow> im \<in> I \<and> part = push_head
     | PChoosing im fs \<Rightarrow> im \<in> I \<and> length fs < 10 \<and> set fs \<subseteq> F \<and> part = push_head @ push_rectangle im \<and> (\<exists>pix s b. im = RGBAImage pix s b)
     | PFast im \<Rightarrow> im \<in> I \<and> part = push_head @ push_rectangle im \<and> (\<exists>pix s b. im = RGBAImage pix s b)
         \<and> (\<exists>fs. length fs = 10 \<and> set fs \<subseteq> F \<and> thousands_reads fs)
     | PPixels im ps fs \<Rightarrow> im \<in> I \<and> length fs < 8 \<and> set fs \<subseteq> F \<and> (\<exists>qs bs. points (Dx (Bounds im)) (Dy (Bounds im)) = qs @ ps \<and> pixels_sent F im qs bs
         \<and> part = push_head @ push_rectangle im @ concat bs)
     | _ \<Rightarrow> part = [])"

definition sent :: "ServerPixelFormat set \<Rightarrow> image set \<Rightarrow> bytes \<Rightarrow> pusher \<Rightarrow> bytes \<Rightarrow> bool" where
  "sent F I hello p out \<longleftrightarrow> (\<exists>ms part. out = hello @ concat ms @ part \<and> (\<forall>m \<in> set ms. update_message F I m) \<and> begun F I p part)"

definition server_inv :: "ServerPixelFormat set \<Rightarrow> image set \<Rightarrow> bytes \<Rightarrow> sconn \<Rightarrow> bool" where
  "server_inv F I hello c \<longleftrightarrow>
     length (event c) \<le> 16 \<and> length (feed c) \<le> 16 \<and> length (fbupc c) \<le> 128 \<and> set (feed c) \<subseteq> I
     \<and> (case lastFrame c of None \<Rightarrow> \<not> gotFirstFrame c | Some im \<Rightarrow> gotFirstFrame c \<and> im \<in> I)
     \<and> (\<not> gotFirstFrame c \<longrightarrow> fbupc c = [] \<and> place c \<noteq> Updating)
     \<and> sent F I hello (pusher c) (outb c)"

text \<open>A message that is complete, and one that goes on.\<close>

lemma sent_whole: "sent F I hello p out \<Longrightarrow> (\<And>part. begun F I p part \<Longrightarrow> update_message F I (part @ b)) \<Longrightarrow> sent F I hello PWaiting (out @ b)"
proof -
  assume "sent F I hello p out" and w: "\<And>part. begun F I p part \<Longrightarrow> update_message F I (part @ b)"
  then obtain ms part where "out = hello @ concat ms @ part" "\<forall>m \<in> set ms. update_message F I m" "begun F I p part" by (auto simp: sent_def)
  then show ?thesis using w [of part] unfolding sent_def by (intro exI [of _ "ms @ [part @ b]"] exI [of _ "[]"]) (simp add: begun_def)
qed

lemma sent_more: "sent F I hello p out \<Longrightarrow> (\<And>part. begun F I p part \<Longrightarrow> begun F I q (part @ b)) \<Longrightarrow> sent F I hello q (out @ b)"
proof -
  assume "sent F I hello p out" and w: "\<And>part. begun F I p part \<Longrightarrow> begun F I q (part @ b)"
  then obtain ms part where "out = hello @ concat ms @ part" "\<forall>m \<in> set ms. update_message F I m" "begun F I p part" by (auto simp: sent_def)
  then show ?thesis using w [of part] unfolding sent_def by (intro exI [of _ ms] exI [of _ "part @ b"]) simp
qed

lemma sent_same: "sent F I hello p out \<Longrightarrow> (\<And>part. begun F I p part \<Longrightarrow> begun F I q part) \<Longrightarrow> sent F I hello q out"
  using sent_more [of F I hello p out q "[]"] by simp

lemma begun_pixels: "im \<in> I \<Longrightarrow> begun F I (start_pixels im) (push_head @ push_rectangle im)"
  by (simp add: begun_def start_pixels_def pixels_sent_def)

lemma inv_serve:
  assumes "server_inv F I hello c" "\<not> crashed c" "serve_next c = Some c'"
  shows "server_inv F I hello c'"
proof -
  have base: "server_inv F I hello (d\<lparr>place := p\<rparr>)" if "kept c d" "p = Updating \<Longrightarrow> gotFirstFrame c" for d p
    using assms(1,2) that by (auto simp: server_inv_def kept_def split: option.splits)
  have stay: "server_inv F I hello d" if "kept c d" for d
    using assms(1,2) that by (auto simp: server_inv_def kept_def split: option.splits)
  show ?thesis
  proof (cases "place c")
    case Idle
    obtain r c1 where r: "read8 c = (r, c1)" by (cases "read8 c")
    note k = keepsD [OF keeps_read(1) r]
    show ?thesis
    proof (cases r)
      case (Done cmd)
      obtain q c2 where q: "handle cmd c1 = (q, c2)" by (cases "handle cmd c1")
      note k2 = kept_trans [OF k keepsD [OF keeps_handle(1) q]]
      show ?thesis
      proof (cases "cmd = 3")
        case True
        show ?thesis
        proof (cases "gotFirstFrame c")
          case False
          then obtain li rest where l: "feed c = li # rest" "c' = c1\<lparr>feed := rest, lastFrame := Some li, gotFirstFrame := True, place := Updating\<rparr>"
            using assms(3) Idle r Done True by (auto simp: serve_next_def split: list.splits)
          then show ?thesis using assms(1,2) k by (auto simp: server_inv_def kept_def)
        qed (use base [OF k] assms(3) Idle r Done True in \<open>auto simp: serve_next_def\<close>)
      next
        case False
        then show ?thesis
          using assms(3) Idle r Done q base [OF k2, of Closed] stay [OF k2] by (auto simp: serve_next_def split: ioresult.splits)
      qed
    qed (use base [OF k, of Closed] assms(3) Idle r in \<open>auto simp: serve_next_def\<close>)
  next
    case Updating
    obtain r c1 where r: "read_request c = (r, c1)" by (cases "read_request c")
    note k = keepsD [OF keeps_handle(2) r]
    show ?thesis
    proof (cases r)
      case (Done req)
      then have c': "c' = c1\<lparr>fbupc := fbupc c @ [req], place := Idle\<rparr>" "length (fbupc c) < 128"
        using assms(3) Updating r by (auto simp: serve_next_def split: if_splits)
      then show ?thesis using assms(1,2) k Updating by (auto simp: server_inv_def kept_def split: option.splits)
    qed (use base [OF k, of Closed] assms(3) Updating r in \<open>auto simp: serve_next_def\<close>)
  qed (use assms in \<open>simp add: serve_next_def\<close>)
qed

lemma inv_push_image:
  assumes "server_inv F I hello c" "pusher c = PWaiting" "im \<in> I"
  shows "server_inv F I hello (push_image im c)"
proof -
  have "sent F I hello (PTrueColour im) (outb c @ push_head)"
    by (rule sent_more [of F I hello PWaiting]) (use assms in \<open>simp_all add: server_inv_def begun_def\<close>)
  then show ?thesis using assms(1) by (auto simp: push_image_def server_inv_def split: option.splits)
qed

lemma inv_push_next:
  assumes "server_inv F I hello c" "push_next c = Some c'" "format c \<in> F"
  shows "server_inv F I hello c'"
proof -
  have s: "sent F I hello (pusher c) (outb c)" using assms(1) by (simp add: server_inv_def)
  have upd: "server_inv F I hello (c\<lparr>outb := out, pusher := q\<rparr>)" if "sent F I hello q out" for out q
    using assms(1) that by (auto simp: server_inv_def split: option.splits)
  have cr: "server_inv F I hello (c\<lparr>crashed := True\<rparr>)" using assms(1) by (auto simp: server_inv_def split: option.splits)
  have same: "server_inv F I hello (c\<lparr>pusher := q\<rparr>)" if "sent F I hello q (outb c)" for q
    using assms(1) that by (auto simp: server_inv_def split: option.splits)
  show ?thesis
  proof (cases "pusher c")
    case (PTrueColour im)
    have "sent F I hello (case im of RGBAImage pix s b \<Rightarrow> PChoosing im [] | OtherImage b g \<Rightarrow> start_pixels im) (outb c @ push_rectangle im)"
      by (rule sent_more [OF s]) (use PTrueColour begun_pixels [of im I F] in \<open>auto simp: begun_def [of F I "PTrueColour _"] begun_def [of F I "PChoosing _ _"] split: image.splits\<close>)
    then show ?thesis using assms(2) PTrueColour upd cr by (auto simp: push_next_def)
  next
    case (PChoosing im fs)
    let ?fs = "fs @ [format c]"
    have "sent F I hello q (outb c)" if "q = (if length ?fs < 10 then PChoosing im ?fs else if thousands_reads ?fs then PFast im else start_pixels im)" for q
    proof (rule sent_same [OF s])
      fix part assume "begun F I (pusher c) part"
      then have b: "im \<in> I" "length fs < 10" "set ?fs \<subseteq> F" "part = push_head @ push_rectangle im" "\<exists>pix s b. im = RGBAImage pix s b"
        using PChoosing assms(3) by (auto simp: begun_def)
      moreover have "\<exists>gs. length gs = 10 \<and> set gs \<subseteq> F \<and> thousands_reads gs" if "\<not> length ?fs < 10" "thousands_reads ?fs"
        using b(2,3) that by (intro exI [of _ ?fs]) simp
      ultimately show "begun F I q part" using that begun_pixels [of im I F] by (auto simp: begun_def [of F I "PChoosing _ _"] begun_def [of F I "PFast _"])
    qed
    then show ?thesis using assms(2) PChoosing same by (auto simp: push_next_def Let_def)
  next
    case (PFast im)
    obtain pix st b where im: "im = RGBAImage pix st b" "im \<in> I" using s PFast by (auto simp: sent_def begun_def)
    have "sent F I hello PWaiting (outb c @ pushRGBAScreensThousandsLocked (format c) pix)"
      by (rule sent_whole [OF s]) (use PFast im assms(3) in \<open>auto simp: begun_def update_message_def\<close>)
    then show ?thesis using assms(2) PFast im(1) upd by (auto simp: push_next_def)
  next
    case (PPixels im ps fs)
    let ?fs = "fs @ [format c]"
    show ?thesis
    proof (cases ps)
      case Nil
      have "update_message F I part" if "begun F I (PPixels im [] fs) part" for part
        using that by (auto simp: begun_def update_message_def)
      then have "sent F I hello PWaiting (outb c @ [])" using s PPixels Nil by (intro sent_whole [OF s]) simp
      then show ?thesis using assms(2) PPixels Nil same by (auto simp: push_next_def)
    next
      case (Cons p qs)
      have next_p: "sent F I hello (PPixels im qs []) (outb c @ b)" if b: "push_pixel (pixel_reads ?fs) im p = Ret b" "\<not> length ?fs < 8" for b
      proof (rule sent_more [OF s])
        fix part assume "begun F I (pusher c) part"
        then obtain ds bs where d: "im \<in> I" "length fs < 8" "set ?fs \<subseteq> F" "points (Dx (Bounds im)) (Dy (Bounds im)) = ds @ p # qs"
            "pixels_sent F im ds bs" "part = push_head @ push_rectangle im @ concat bs"
          using PPixels Cons assms(3) by (auto simp: begun_def)
        have "length ?fs = 8 \<and> set ?fs \<subseteq> F \<and> push_pixel (pixel_reads ?fs) im p = Ret b" using d(2,3) b by simp
        then have "pixels_sent F im (ds @ [p]) (bs @ [b])" using d(5) unfolding pixels_sent_def by (blast intro: list_all2_appendI)
        then show "begun F I (PPixels im qs []) (part @ b)"
          using d by (auto simp: begun_def intro!: exI [of _ "ds @ [p]"] exI [of _ "bs @ [b]"])
      qed
      have "sent F I hello (PPixels im ps ?fs) (outb c)" if "length ?fs < 8" by (rule sent_same [OF s]) (use PPixels assms(3) that in \<open>simp add: begun_def\<close>)
      then show ?thesis using assms(2) PPixels Cons same cr next_p upd by (auto simp: push_next_def Let_def split: if_splits outcome.splits)
    qed
  qed (use assms(2) in \<open>auto simp: push_next_def\<close>)
qed

lemma server_step_inv: "server_step I c c' \<Longrightarrow> format c \<in> F \<Longrightarrow> server_inv F I hello c \<Longrightarrow> server_inv F I hello c'"
proof (induction rule: server_step.induct)
  case (serve c c')
  then show ?case using inv_serve [OF serve.prems(2) serve.hyps] by simp
next
  case (push_request c c')
  obtain im where im: "lastFrame c = Some im" "im \<in> I" using push_request(2,6) by (auto simp: server_inv_def split: option.splits)
  obtain ur rest where u: "fbupc c = ur # rest" using push_request(4) by (cases "fbupc c") (simp_all add: push_request_def)
  have i: "server_inv F I hello (c\<lparr>fbupc := rest\<rparr>)" using push_request(2,6) u by (auto simp: server_inv_def split: option.splits)
  have "sent F I hello PWaiting (outb c @ push_none im)"
    by (rule sent_whole [of F I hello PWaiting]) (use push_request(3,6) im(2) in \<open>auto simp: server_inv_def begun_def update_message_def\<close>)
  then have "server_inv F I hello (c\<lparr>fbupc := rest, outb := outb c @ push_none im\<rparr>)" using i push_request(3) by (auto simp: server_inv_def split: option.splits)
  then show ?case using inv_push_image [OF i _ im(2)] push_request(3,4) im(1) u by (auto simp: push_request_def split: if_splits)
next
  case (push_feed c c')
  obtain li rest where l: "feed c = li # rest" using push_feed(4) by (cases "feed c") (simp_all add: push_feed_def)
  have "li \<in> I" using push_feed(6) l by (simp add: server_inv_def)
  moreover have "server_inv F I hello (c\<lparr>feed := rest, lastFrame := Some li\<rparr>)" using push_feed(2,6) l by (auto simp: server_inv_def split: option.splits)
  ultimately show ?case using inv_push_image [of F I hello "c\<lparr>feed := rest, lastFrame := Some li\<rparr>" li] push_feed(3,4) l by (auto simp: push_feed_def)
next
  case (push_next c c')
  then show ?case using inv_push_next by blast
next
  case (push_return c)
  have "sent F I hello PReturned (outb c)" by (rule sent_same [of F I hello PWaiting]) (use push_return in \<open>simp_all add: server_inv_def begun_def\<close>)
  then show ?case using push_return by (auto simp: server_inv_def split: option.splits)
qed (auto simp: server_inv_def split: option.splits)

text \<open>Runs in which every format in force is in \<open>F\<close>.\<close>

abbreviation run_with :: "ServerPixelFormat set \<Rightarrow> image set \<Rightarrow> sconn \<Rightarrow> sconn \<Rightarrow> bool" where
  "run_with F I \<equiv> (\<lambda>a b. server_step I a b \<and> format a \<in> F)\<^sup>*\<^sup>*"

lemma server_reach_inv: "run_with F I c c' \<Longrightarrow> server_inv F I hello c \<Longrightarrow> server_inv F I hello c'"
  by (induction rule: rtranclp_induct) (auto intro: server_step_inv)

text \<open>As long as the formats in force and the images are good nothing panics: then the mixture that the reads of a pixel see is good too.\<close>

lemma serve_quiet:
  assumes "serve_next c = Some c'"
  shows "pusher c' = pusher c \<and> crashed c' = crashed c"
proof -
  obtain r c1 where r: "read8 c = (r, c1)" by (cases "read8 c")
  obtain q c2 where q: "read_request c = (q, c2)" by (cases "read_request c")
  have k: "kept c c1" "kept c c2" using keepsD [OF keeps_read(1) r] keepsD [OF keeps_handle(2) q] by auto
  have h: "kept c c3" if "handle cmd c1 = (w, c3)" for cmd w c3 using kept_trans [OF k(1) keepsD [OF keeps_handle(1) that]] .
  show ?thesis
  proof (cases "place c")
    case Idle
    show ?thesis
    proof (cases r)
      case (Done cmd)
      obtain w c3 where w: "handle cmd c1 = (w, c3)" by (cases "handle cmd c1")
      then show ?thesis using assms Idle r Done k(1) h [OF w]
        by (auto simp: serve_next_def kept_def split: if_splits list.splits ioresult.splits)
    qed (use assms Idle r k(1) in \<open>auto simp: serve_next_def kept_def\<close>)
  next
    case Updating
    then show ?thesis using assms q k(2) by (auto simp: serve_next_def kept_def split: ioresult.splits if_splits)
  qed (use assms in \<open>simp add: serve_next_def\<close>)
qed

lemma good_mixture: "length fs = 8 \<Longrightarrow> \<forall>f \<in> set fs. good_format f \<Longrightarrow> good_image im \<Longrightarrow> push_pixel (pixel_reads fs) im p \<noteq> Panic"
proof -
  assume l: "length fs = 8" and g: "\<forall>f \<in> set fs. good_format f" and im: "good_image im"
  have "good_format (fs ! 0)" "good_format (fs ! 1)" "good_format (fs ! 2)" "good_format (fs ! 6)" using g l by auto
  then show ?thesis using im
    by (cases p) (auto simp: push_pixel_def pixel_value_def inRange_def pixel_bytes_def pixel_reads_def good_format_def good_image_def split: outcome.splits)
qed

lemma good_next:
  assumes "push_next c = Some c'" "format c \<in> F" "\<forall>f \<in> F. good_format f" "\<forall>im \<in> I. good_image im" "\<not> crashed c" "sent F I hello (pusher c) out"
  shows "\<not> crashed c'"
proof (cases "pusher c")
  case (PTrueColour im)
  then show ?thesis using assms by (auto simp: push_next_def good_format_def)
next
  case (PPixels im ps fs)
  show ?thesis
  proof (cases ps)
    case (Cons p qs)
    have im: "good_image im" "length fs < 8" "\<forall>f \<in> set (fs @ [format c]). good_format f" using assms PPixels by (auto simp: sent_def begun_def)
    have "\<not> read_panics im p (length fs) (format c)" using im by (auto simp: read_panics_def good_image_def good_format_def)
    moreover have "push_pixel (pixel_reads (fs @ [format c])) im p \<noteq> Panic" if "\<not> length (fs @ [format c]) < 8" using good_mixture [OF _ im(3,1)] that im(2) by simp
    ultimately show ?thesis using assms(1,5) PPixels Cons im by (auto simp: push_next_def Let_def split: if_splits outcome.splits)
  qed (use assms PPixels in \<open>auto simp: push_next_def\<close>)
qed (use assms in \<open>auto simp: push_next_def Let_def\<close>)

lemma good_step:
  assumes "server_step I c c'" "format c \<in> F" "\<forall>f \<in> F. good_format f" "\<forall>im \<in> I. good_image im" "server_inv F I hello c" "\<not> crashed c"
  shows "\<not> crashed c'"
proof -
  have start: "\<not> crashed (push_image im d)" if "im \<in> I" "\<not> crashed d" for im d
    using that assms(4) by (auto simp: push_image_def good_image_def)
  show ?thesis
    using assms(1)
  proof cases
    case serve
    then show ?thesis using serve_quiet by auto
  next
    case push_request
    have "im \<in> I" if "lastFrame c = Some im" for im using that assms(5) by (simp add: server_inv_def)
    then show ?thesis using push_request start by (auto simp: push_request_def split: list.splits option.splits if_splits)
  next
    case push_feed
    have "li \<in> I" if "feed c = li # rest" for li rest using that assms(5) by (simp add: server_inv_def)
    then show ?thesis using push_feed start by (auto simp: push_feed_def split: list.splits)
  next
    case push_next
    then show ?thesis using good_next [OF _ assms(2-4,6), of c' hello "outb c"] assms(5) by (simp add: server_inv_def)
  qed (use assms in auto)
qed

lemma good_run:
  assumes "run_with F I c c'" "\<forall>f \<in> F. good_format f" "\<forall>im \<in> I. good_image im" "server_inv F I hello c" "\<not> crashed c"
  shows "\<not> crashed c' \<and> server_inv F I hello c'"
  using assms(1)
proof (induction rule: rtranclp_induct)
  case (step y z)
  then show ?case using good_step [of I y z F hello] server_step_inv assms(2,3) by blast
qed (use assms in simp)

text \<open>A push that no change of the format disturbs writes what \<open>pushImage\<close> gives for the format, and panics where it panics.\<close>

lemma next_run: "push_next c = Some c' \<Longrightarrow> \<not> crashed c \<Longrightarrow> (server_step I)\<^sup>*\<^sup>* c' d \<Longrightarrow> (server_step I)\<^sup>*\<^sup>* c d"
  by (meson converse_rtranclp_into_rtranclp server_step.push_next)

lemma choosing_run:
  "pusher c = PChoosing im (replicate k f) \<Longrightarrow> format c = f \<Longrightarrow> \<not> crashed c \<Longrightarrow> k < 10 \<Longrightarrow>
   (server_step I)\<^sup>*\<^sup>* c (c\<lparr>pusher := (if isScreensThousands f then PFast im else start_pixels im)\<rparr>)"
proof (induction "10 - k" arbitrary: k c)
  case (Suc n)
  have r: "replicate k f @ [f] = replicate (Suc k) f" by (simp add: replicate_append_same)
  show ?case
  proof (cases "Suc k < 10")
    case True
    let ?c = "c\<lparr>pusher := PChoosing im (replicate (Suc k) f)\<rparr>"
    have "push_next c = Some ?c" using Suc.prems True r by (simp add: push_next_def Let_def)
    moreover have "(server_step I)\<^sup>*\<^sup>* ?c (?c\<lparr>pusher := (if isScreensThousands f then PFast im else start_pixels im)\<rparr>)"
      by (rule Suc.hyps(1) [of "Suc k" ?c]) (use Suc.hyps(2) Suc.prems True in simp_all)
    ultimately show ?thesis using next_run [OF _ Suc.prems(3)] by simp
  next
    case False
    then have k: "k = 9" using Suc.prems by simp
    have "thousands_reads (replicate 10 f) \<longleftrightarrow> isScreensThousands f" by (auto simp: thousands_reads_def isScreensThousands_def)
    then have "push_next c = Some (c\<lparr>pusher := (if isScreensThousands f then PFast im else start_pixels im)\<rparr>)"
      using Suc.prems k r by (simp add: push_next_def Let_def)
    then show ?thesis using next_run [OF _ Suc.prems(3)] by blast
  qed
qed simp

lemma pixel_run:
  "pusher c = PPixels im (p # ps) (replicate k f) \<Longrightarrow> format c = f \<Longrightarrow> \<not> crashed c \<Longrightarrow> k < 8 \<Longrightarrow> push_pixel f im p = Ret b \<Longrightarrow>
   (server_step I)\<^sup>*\<^sup>* c (c\<lparr>outb := outb c @ b, pusher := PPixels im ps []\<rparr>)"
proof (induction "8 - k" arbitrary: k c)
  case (Suc n)
  have r: "replicate k f @ [f] = replicate (Suc k) f" by (simp add: replicate_append_same)
  have ok: "\<not> read_panics im p k f"
    using Suc.prems(5) by (cases p) (auto simp: read_panics_def push_pixel_def pixel_value_def inRange_def pixel_bytes_def split: outcome.splits if_splits)
  show ?case
  proof (cases "Suc k < 8")
    case True
    let ?c = "c\<lparr>pusher := PPixels im (p # ps) (replicate (Suc k) f)\<rparr>"
    have "push_next c = Some ?c" using Suc.prems True r ok by (simp add: push_next_def Let_def)
    moreover have "(server_step I)\<^sup>*\<^sup>* ?c (?c\<lparr>outb := outb ?c @ b, pusher := PPixels im ps []\<rparr>)"
      by (rule Suc.hyps(1) [of "Suc k" ?c]) (use Suc.hyps(2) Suc.prems True in simp_all)
    ultimately show ?thesis using next_run [OF _ Suc.prems(3)] by simp
  next
    case False
    then have k: "k = 7" using Suc.prems by simp
    have "pixel_reads (replicate 8 f) = f" by (simp add: pixel_reads_def)
    then have "push_next c = Some (c\<lparr>outb := outb c @ b, pusher := PPixels im ps []\<rparr>)"
      using Suc.prems k r ok by (simp add: push_next_def Let_def)
    then show ?thesis using next_run [OF _ Suc.prems(3)] by blast
  qed
qed simp

lemma pixels_run:
  "pusher c = PPixels im ps [] \<Longrightarrow> format c = f \<Longrightarrow> \<not> crashed c \<Longrightarrow> concat_outcomes (push_pixel f im) ps = Ret bs \<Longrightarrow>
   (server_step I)\<^sup>*\<^sup>* c (c\<lparr>outb := outb c @ bs, pusher := PWaiting\<rparr>)"
proof (induction ps arbitrary: c bs)
  case Nil
  then have "push_next c = Some (c\<lparr>outb := outb c @ bs, pusher := PWaiting\<rparr>)" by (cases c) (simp add: push_next_def)
  then show ?case using next_run [OF _ Nil.prems(3)] by blast
next
  case (Cons p ps)
  obtain b bs' where b: "push_pixel f im p = Ret b" "concat_outcomes (push_pixel f im) ps = Ret bs'" "bs = b @ bs'"
    using Cons.prems(4) by (auto split: outcome.splits)
  let ?c = "c\<lparr>outb := outb c @ b, pusher := PPixels im ps []\<rparr>"
  have "(server_step I)\<^sup>*\<^sup>* c ?c" using Cons.prems b(1) by (intro pixel_run [where k = 0]) simp_all
  moreover have "(server_step I)\<^sup>*\<^sup>* ?c (?c\<lparr>outb := outb ?c @ bs', pusher := PWaiting\<rparr>)" using Cons.prems b(2) by (intro Cons.IH) simp_all
  ultimately show ?case using b(3) by simp
qed

lemma push_undisturbed:
  assumes "pusher c = PWaiting" "\<not> crashed c" "pushImage (format c) im = Ret m"
  shows "(server_step I)\<^sup>*\<^sup>* (push_image im c) (c\<lparr>outb := outb c @ m\<rparr>)"
proof -
  let ?f = "format c" and ?c1 = "c\<lparr>outb := outb c @ push_head, pusher := PTrueColour im\<rparr>"
  let ?c2 = "\<lambda>q. c\<lparr>outb := outb c @ push_head @ push_rectangle im, pusher := q\<rparr>"
  have i: "push_image im c = ?c1" using assms(3) by (simp add: push_image_def pushImage_def Let_def split: if_splits)
  have n: "push_next ?c1 = Some (?c2 (case im of RGBAImage pix s b \<Rightarrow> PChoosing im [] | OtherImage b g \<Rightarrow> start_pixels im))"
    using assms(3) by (simp add: push_next_def pushImage_def Let_def split: if_splits)
  have w: "c\<lparr>outb := outb c @ m, pusher := PWaiting\<rparr> = c\<lparr>outb := outb c @ m\<rparr>" using assms(1) by (cases c) simp
  have slow: "(server_step I)\<^sup>*\<^sup>* (?c2 (start_pixels im)) (c\<lparr>outb := outb c @ m\<rparr>)" if "pushGenericLocked ?f im = Ret bs" "m = push_head @ push_rectangle im @ bs" for bs
    using pixels_run [of "?c2 (start_pixels im)" im _ ?f bs I] that assms(2) w by (simp add: start_pixels_def pushGenericLocked_def)
  have "(server_step I)\<^sup>*\<^sup>* (?c2 (case im of RGBAImage pix s b \<Rightarrow> PChoosing im [] | OtherImage b g \<Rightarrow> start_pixels im)) (c\<lparr>outb := outb c @ m\<rparr>)"
  proof (cases im)
    case (RGBAImage pix st b)
    have ch: "(server_step I)\<^sup>*\<^sup>* (?c2 (PChoosing im [])) (?c2 (if isScreensThousands ?f then PFast im else start_pixels im))"
      using choosing_run [of "?c2 (PChoosing im [])" im 0 ?f I] assms(2) by simp
    show ?thesis
    proof (cases "isScreensThousands ?f")
      case True
      then have m: "m = push_head @ push_rectangle im @ pushRGBAScreensThousandsLocked ?f pix"
        using assms(3) RGBAImage by (simp add: pushImage_def Let_def push_head_def push_rectangle_def split: if_splits)
      then have "push_next (?c2 (PFast im)) = Some (c\<lparr>outb := outb c @ m\<rparr>)" using w RGBAImage by (simp add: push_next_def)
      then have "(server_step I)\<^sup>*\<^sup>* (?c2 (PFast im)) (c\<lparr>outb := outb c @ m\<rparr>)" using next_run assms(2) by fastforce
      then show ?thesis using ch True RGBAImage by (simp add: rtranclp_trans)
    next
      case False
      then obtain bs where "pushGenericLocked ?f im = Ret bs" "m = push_head @ push_rectangle im @ bs"
        using assms(3) RGBAImage by (auto simp: pushImage_def Let_def push_head_def push_rectangle_def split: if_splits outcome.splits)
      from slow [OF this] show ?thesis using ch False RGBAImage by (simp add: rtranclp_trans)
    qed
  next
    case (OtherImage b g)
    then obtain bs where "pushGenericLocked ?f im = Ret bs" "m = push_head @ push_rectangle im @ bs"
      using assms(3) by (auto simp: pushImage_def Let_def push_head_def push_rectangle_def split: if_splits outcome.splits)
    from slow [OF this] show ?thesis using OtherImage by simp
  qed
  from next_run [OF n _ this] show ?thesis unfolding i using assms(2) by simp
qed

lemma request_undisturbed:
  assumes "pusher c = PWaiting" "\<not> crashed c" "gotFirstFrame c" "fbupc c = ur # rest" "pushFrame (format c) (lastFrame c) ur = Ret m"
  shows "(server_step I)\<^sup>*\<^sup>* c (c\<lparr>fbupc := rest, outb := outb c @ m\<rparr>)"
proof -
  have step: "server_step I c c'" if "push_request c = Some c'" for c' using assms(1-3) that by (intro server_step.push_request)
  show ?thesis
  proof (cases "lastFrame c")
    case None
    then show ?thesis using step assms(4,5) by (intro r_into_rtranclp) (auto simp: push_request_def pushFrame_def)
  next
    case (Some im)
    show ?thesis
    proof (cases "IncrementalFlag ur = 0")
      case True
      then have "(server_step I)\<^sup>*\<^sup>* (push_image im (c\<lparr>fbupc := rest\<rparr>)) (c\<lparr>fbupc := rest, outb := outb c @ m\<rparr>)"
        using push_undisturbed [of "c\<lparr>fbupc := rest\<rparr>" im m I] assms(1,2,5) Some by (simp add: pushFrame_def)
      moreover have "server_step I c (push_image im (c\<lparr>fbupc := rest\<rparr>))" using step assms(4) Some True by (simp add: push_request_def)
      ultimately show ?thesis by (rule converse_rtranclp_into_rtranclp [rotated])
    next
      case False
      then show ?thesis using step assms(4,5) Some by (intro r_into_rtranclp) (auto simp: push_request_def pushFrame_def push_none_def push_head_def)
    qed
  qed
qed

text \<open>A client can end the program: it asks for a format the server does not support and then for a frame.\<close>

lemma push_crashes:
  assumes "sTrueColour (format c) = 0 \<or> sRedMax (format c) \<noteq> 31" "0 < Dx (Bounds im)" "0 < Dy (Bounds im)" "\<not> crashed c"
  shows "\<exists>d. (server_step I)\<^sup>*\<^sup>* (push_image im c) d \<and> crashed d"
proof (cases "MinX (Bounds im) \<noteq> 0 \<or> MinY (Bounds im) \<noteq> 0")
  case True
  then show ?thesis by (intro exI [of _ "push_image im c"]) (simp add: push_image_def)
next
  case False
  let ?c1 = "c\<lparr>outb := outb c @ push_head, pusher := PTrueColour im\<rparr>"
  let ?c2 = "\<lambda>q. c\<lparr>outb := outb c @ push_head @ push_rectangle im, pusher := q\<rparr>"
  have i: "push_image im c = ?c1" using False by (simp add: push_image_def)
  show ?thesis
  proof (cases "sTrueColour (format c) = 0")
    case True
    then have "push_next ?c1 = Some (?c1\<lparr>crashed := True\<rparr>)" by (simp add: push_next_def)
    then show ?thesis unfolding i using next_run [of ?c1 _ I] assms(4) by (intro exI [of _ "?c1\<lparr>crashed := True\<rparr>"]) simp
  next
    case tc: False
    then have r: "sRedMax (format c) \<noteq> 31" using assms(1) by simp
    have n: "push_next ?c1 = Some (?c2 (case im of RGBAImage pix s b \<Rightarrow> PChoosing im [] | OtherImage b g \<Rightarrow> start_pixels im))"
      using tc by (simp add: push_next_def)
    have "\<not> isScreensThousands (format c)" using r by (simp add: isScreensThousands_def)
    then have "(server_step I)\<^sup>*\<^sup>* (?c2 (PChoosing im [])) (?c2 (start_pixels im))"
      using choosing_run [of "?c2 (PChoosing im [])" im 0 "format c" I] assms(4) by simp
    then have "(server_step I)\<^sup>*\<^sup>* (?c2 (case im of RGBAImage pix s b \<Rightarrow> PChoosing im [] | OtherImage b g \<Rightarrow> start_pixels im)) (?c2 (start_pixels im))"
      by (cases im) simp_all
    from next_run [OF n _ this] have 1: "(server_step I)\<^sup>*\<^sup>* ?c1 (?c2 (start_pixels im))" using assms(4) by simp
    have "points (Dx (Bounds im)) (Dy (Bounds im)) \<noteq> []" using assms(2,3) by (auto simp: points_def)
    then obtain p ps where "points (Dx (Bounds im)) (Dy (Bounds im)) = p # ps" by (cases "points (Dx (Bounds im)) (Dy (Bounds im))") auto
    then have "push_next (?c2 (start_pixels im)) = Some ((?c2 (start_pixels im))\<lparr>crashed := True\<rparr>)"
      using r by (simp add: push_next_def start_pixels_def read_panics_def Let_def)
    from server_step.push_next [OF _ this, of I] have "server_step I (?c2 (start_pixels im)) ((?c2 (start_pixels im))\<lparr>crashed := True\<rparr>)" using assms(4) by simp
    then show ?thesis unfolding i using 1 by (intro exI [of _ "(?c2 (start_pixels im))\<lparr>crashed := True\<rparr>"]) (auto intro: rtranclp.rtrancl_into_rtrancl)
  qed
qed

definition fresh :: "bytes \<Rightarrow> Server \<Rightarrow> sconn" where
  "fresh input s = (newConn input)\<lparr>outb := server_hello s, format := default_format\<rparr>"

lemma fresh_inv: "server_inv F I (server_hello s) (fresh input s)"
  by (auto simp: server_inv_def fresh_def newConn_def sent_def begun_def intro!: exI [of _ "[]"])

lemma client_crashes_server:
  assumes "im \<in> I" "0 < Dx (Bounds im)" "0 < Dy (Bounds im)" "\<not> TrueColor f \<or> RedMax f \<noteq> 31"
  shows "\<exists>c. (server_step I)\<^sup>*\<^sup>* (fresh (wire (SetFormat f) @ wire (Update False x y w h) @ rest) s) c \<and> crashed c"
proof -
  let ?c0 = "fresh (wire (SetFormat f) @ wire (Update False x y w h) @ rest) s"
  let ?c1 = "?c0\<lparr>feed := [im]\<rparr>"
  let ?c2 = "effect (SetFormat f) (?c1\<lparr>inb := wire (Update False x y w h) @ rest\<rparr>)"
  let ?c3 = "effect (Update False x y w h) (?c2\<lparr>inb := rest\<rparr>)"
  let ?c4 = "?c3\<lparr>fbupc := []\<rparr>"
  have "server_step I ?c0 ?c1" using server_step.offer [of ?c0 im I] assms(1) by (simp add: fresh_def newConn_def)
  moreover have "(server_step I)\<^sup>*\<^sup>* ?c1 ?c2" by (rule serve_request) (simp_all add: fresh_def newConn_def ready_def)
  moreover have "(server_step I)\<^sup>*\<^sup>* ?c2 ?c3" by (rule serve_request) (simp_all add: fresh_def newConn_def ready_def effect_def)
  moreover have "server_step I ?c3 (push_image im ?c4)"
    by (rule server_step.push_request) (simp_all add: push_request_def effect_def first_frame_def fresh_def newConn_def)
  moreover obtain d where "(server_step I)\<^sup>*\<^sup>* (push_image im ?c4) d" "crashed d"
    using push_crashes [of ?c4 im I] assms(2-4) by (auto simp: effect_def first_frame_def fresh_def newConn_def server_format_def Let_def)
  ultimately show ?thesis by (meson converse_rtranclp_into_rtranclp rtranclp.rtrancl_into_rtrancl rtranclp_trans)
qed

subsection \<open>The client\<close>

lemma consumes_message:
  assumes "\<And>t r. consumes (enc_read ext t r)" "\<And>t rd. msg_read ext t = Some rd \<Longrightarrow> consumes rd" "message_reader ext t = Some rd"
  shows "consumes rd"
proof -
  have px: "consumes read_pixel" unfolding read_pixel_def Let_def by (intro consumes_bind consumes_basic) (auto intro: consumes_basic)
  have rect: "consumes (read_rectangle ext)"
    unfolding read_rectangle_def RawEncoding_Read_def Let_def
    by (auto intro!: consumes_bind consumes_basic consumes_read consumes_times px assms(1))
  have col: "consumes (read_colors n i)" for n i
  proof (induction n arbitrary: i)
    case (Suc n)
    have "consumes (set_color j color)" for j color by (simp add: consumes_def set_color_def)
    then show ?case using Suc by (auto simp: Let_def intro!: consumes_bind consumes_basic consumes_read)
  qed (simp add: consumes_basic)
  show ?thesis
    using assms(2,3) unfolding message_reader_def FramebufferUpdate_Read_def SetColorMapEntries_Read_def ServerCutText_Read_def
    by (auto split: option.splits if_splits intro!: consumes_bind consumes_basic consumes_read consumes_times rect col)
qed

lemma main_step_less:
  assumes "\<And>t r. consumes (enc_read ext t r)" "\<And>t rd. msg_read ext t = Some rd \<Longrightarrow> consumes rd" "main_step ext c = (Done (Some m), c')"
  shows "length (inb c') < length (inb c)"
proof -
  obtain t c1 where t: "read8 c = (Done t, c1)" using assms(3) by (auto simp: main_step_def split: prod.splits ioresult.splits)
  obtain b rest where b: "inb c = b # rest" using t by (cases "inb c") (simp_all add: read8_def bind_io_def read_full_def)
  then have c1: "length (inb c1) < length (inb c)" using t read8_first [OF b] by auto
  obtain rd where rd: "message_reader ext t = Some rd" "rd c1 = (Done m, c')"
    using assms(3) t by (auto simp: main_step_def split: prod.splits ioresult.splits option.splits)
  have "consumes rd" by (rule consumes_message [OF _ _ rd(1)]) (rule assms(1), rule assms(2), assumption)
  then have "length (inb (snd (rd c1))) \<le> length (inb c1)" unfolding consumes_def by (rule spec)
  then show ?thesis using c1 rd(2) by simp
qed

lemma mainLoop_ends:
  assumes "\<And>t r. consumes (enc_read ext t r)" "\<And>t rd. msg_read ext t = Some rd \<Longrightarrow> consumes rd"
  shows "\<exists>r. mainLoop cfg ext c = Some r"
proof (induction "length (inb c)" arbitrary: c rule: less_induct)
  case less
  show ?case
  proof (cases "main_step ext c")
    case (Pair r c')
    then show ?thesis
    proof (cases "\<exists>m. r = Done (Some m)")
      case True
      then obtain m where m: "main_step ext c = (Done (Some m), c')" using Pair by blast
      let ?d = "if HasMessageCh cfg then c'\<lparr>messages := messages c' @ [m]\<rparr> else c'"
      have "length (inb ?d) < length (inb c)" using main_step_less [OF assms m] by simp
      then obtain r where "mainLoop cfg ext ?d = Some r" using less.hyps [of ?d] by blast
      then show ?thesis using mainLoop.simps [of cfg ext c] m by simp
    next
      case False
      then show ?thesis using Pair mainLoop.simps [of cfg ext c] by (auto split: ioresult.splits option.splits)
    qed
  qed
qed

text \<open>A server can make the client panic with an index into the map of 256 colours.\<close>

lemma client_color_panic:
  assumes "msg_read ext 1 = None" "length (ColorMap c) = 256" "256 \<le> unat first" "n \<noteq> 0"
    "inb c = [1, 0] @ be16 first @ be16 n @ be16 r @ be16 g @ be16 b @ rest"
  shows "fst (main_step ext c) = Crash"
proof -
  obtain k where k: "unat n = Suc k" using assms(4) by (cases "unat n") (simp_all add: unat_eq_0)
  have r8: "read8 c = (Done 1, c\<lparr>inb := [0] @ be16 first @ be16 n @ be16 r @ be16 g @ be16 b @ rest\<rparr>)" using assms(5) by (intro read8_first) simp
  have sc: "set_color first col d = (Crash, d)" if "ColorMap d = ColorMap c" for col d using that assms(2,3) by (simp add: set_color_def)
  let ?d = "c\<lparr>inb := be16 r @ be16 g @ be16 b @ rest\<rparr>"
  have rc: "read_colors (Suc k) first ?d = (Crash, c\<lparr>inb := rest\<rparr>)"
    unfolding read_colors.simps
    by (subst read16_step, simp, subst read16_step, simp, subst read16_step, simp, unfold Let_def, subst bind_Crash [where m = "set_color _ _", OF sc]) simp_all
  have "SetColorMapEntries_Read (c\<lparr>inb := [0] @ be16 first @ be16 n @ be16 r @ be16 g @ be16 b @ rest\<rparr>) = (Crash, c\<lparr>inb := rest\<rparr>)"
    unfolding SetColorMapEntries_Read_def
    by (subst read_full_append [of _ "[0]"], simp, simp, subst read16_step, simp, subst read16_step, simp, unfold k, subst bind_Crash [where m = "read_colors _ _"]) (use rc in \<open>simp_all del: read_colors.simps\<close>)
  then show ?thesis unfolding main_step_def r8 by (simp add: message_reader_def assms(1))
qed

section \<open>Remote frame buffer: what the client builds\<close>

text \<open>
  Reading operations that keep an invariant of the client, give values of a certain shape and panic only where that
  is allowed: the messages of the client have as many pixels as their sizes say, and its map of
  colours keeps its 256 entries.
\<close>

definition shaped :: "('s \<Rightarrow> bool) \<Rightarrow> bool \<Rightarrow> ('s, 'a) io \<Rightarrow> ('a \<Rightarrow> bool) \<Rightarrow> bool" where
  "shaped P E m Q \<longleftrightarrow>
     (\<forall>c. P c \<longrightarrow> (case m c of (Done x, c') \<Rightarrow> P c' \<and> Q x | (Fail e, c') \<Rightarrow> P c' | (Crash, c') \<Rightarrow> P c' \<and> E))"

lemma shapedI:
  assumes "\<And>c r c'. P c \<Longrightarrow> m c = (r, c') \<Longrightarrow> P c' \<and> (\<forall>x. r = Done x \<longrightarrow> Q x) \<and> (r = Crash \<longrightarrow> E)"
  shows "shaped P E m Q"
  unfolding shaped_def
proof (intro allI impI)
  fix c assume "P c"
  then have "P (snd (m c)) \<and> (\<forall>x. fst (m c) = Done x \<longrightarrow> Q x) \<and> (fst (m c) = Crash \<longrightarrow> E)" using assms [of c "fst (m c)" "snd (m c)"] by simp
  then show "case m c of (Done x, c') \<Rightarrow> P c' \<and> Q x | (Fail e, c') \<Rightarrow> P c' | (Crash, c') \<Rightarrow> P c' \<and> E"
    by (cases "m c"; cases "fst (m c)") simp_all
qed

lemma shapedD:
  assumes "shaped P E m Q" "P c" "m c = (r, c')"
  shows "P c' \<and> (\<forall>x. r = Done x \<longrightarrow> Q x) \<and> (r = Crash \<longrightarrow> E)"
proof -
  have "case m c of (Done x, c') \<Rightarrow> P c' \<and> Q x | (Fail e, c') \<Rightarrow> P c' | (Crash, c') \<Rightarrow> P c' \<and> E" by (rule assms(1) [unfolded shaped_def, rule_format, OF assms(2)])
  then show ?thesis using assms(3) by (cases r) simp_all
qed

lemma shaped_bind: "shaped P E m S \<Longrightarrow> (\<And>x. S x \<Longrightarrow> shaped P E (f x) Q) \<Longrightarrow> shaped P E (bind_io m f) Q"
proof (rule shapedI)
  fix c r c' assume m: "shaped P E m S" and f: "\<And>x. S x \<Longrightarrow> shaped P E (f x) Q" and c: "P c" "bind_io m f c = (r, c')"
  obtain q d where q: "m c = (q, d)" by (cases "m c")
  note d = shapedD [OF m c(1) q]
  show "P c' \<and> (\<forall>x. r = Done x \<longrightarrow> Q x) \<and> (r = Crash \<longrightarrow> E)"
  proof (cases q)
    case (Done x)
    then have x: "shaped P E (f x) Q" "f x d = (r, c')" using d f c(2) q by (simp_all add: bind_io_def)
    show ?thesis by (rule shapedD [OF x(1) _ x(2)]) (simp add: d)
  qed (use d c(2) q in \<open>auto simp: bind_io_def\<close>)
qed

lemma shaped_allow: "shaped P E m Q \<Longrightarrow> (E \<Longrightarrow> E') \<Longrightarrow> shaped P E' m Q"
  by (rule shapedI, drule (2) shapedD) simp

lemma shaped_basic: "Q x \<Longrightarrow> shaped P E (return_io x) Q" "shaped P E (fail_io e) Q" "E \<Longrightarrow> shaped P E crash_io Q"
  by (simp_all add: shaped_def returns)

lemma shaped_get: "(\<And>c. P c \<Longrightarrow> Q (g c)) \<Longrightarrow> shaped P E (get_io g) Q"
  by (simp add: shaped_def returns)

lemma shaped_times: "shaped P E m Q \<Longrightarrow> shaped P E (times_io n m) (\<lambda>xs. length xs = n \<and> (\<forall>x \<in> set xs. Q x))"
proof (induction n)
  case (Suc n)
  then show ?case unfolding times_io.simps by (intro shaped_bind [OF Suc.prems] shaped_bind [OF Suc.IH [OF Suc.prems]] shaped_basic) auto
qed (simp add: shaped_basic)

subsection \<open>Clients\<close>

definition colours :: "ClientPixelFormat \<Rightarrow> ClientConn \<Rightarrow> bool" where
  "colours f c \<longleftrightarrow> length (ColorMap c) = 256 \<and> PixelFormat c = f"

definition wf_rectangle :: "Rectangle \<Rightarrow> bool" where
  "wf_rectangle r \<longleftrightarrow> (case Enc r of RawEncoding cs \<Rightarrow> length cs = unat (Height r) * unat (Width r) | OtherEncoding b \<Rightarrow> True)"

definition wf_message :: "ServerMessage \<Rightarrow> bool" where
  "wf_message m \<longleftrightarrow>
     (case m of FramebufferUpdateMessage rs \<Rightarrow> length rs < 2 ^ 16 \<and> (\<forall>r \<in> set rs. wf_rectangle r)
      | SetColorMapEntriesMessage first cs \<Rightarrow> cs \<noteq> [] \<longrightarrow> unat first + length cs \<le> 256
      | _ \<Rightarrow> True)"

text \<open>Formats for which a pixel may name a colour that is not in the map.\<close>

definition wide :: "ClientPixelFormat \<Rightarrow> bool" where
  "wide f \<longleftrightarrow> \<not> TrueColor f \<and> (BPP f = 16 \<or> BPP f = 32)"

lemma shaped_read_full: "shaped (colours f) E (read_full n) (\<lambda>b. length b = n)"
  by (auto simp: shaped_def read_full_def colours_def)

lemma shaped_reads: "shaped (colours f) E read8 (\<lambda>_. True)" "shaped (colours f) E read16 (\<lambda>_. True)" "shaped (colours f) E read32 (\<lambda>_. True)"
  unfolding read8_def read16_def read32_def by (auto intro!: shaped_bind [OF shaped_read_full] shaped_basic)

lemma unat_less_16: "unat (n :: 16 word) < 65536"
  using unsigned_less [of n] by simp

lemma raw_pixel_byte: "\<not> TrueColor f \<Longrightarrow> \<not> wide f \<Longrightarrow> unat (raw_pixel f b) < 256"
proof -
  assume "\<not> TrueColor f" "\<not> wide f"
  moreover have "unat (ucast (b ! 0) :: 32 word) < 256" using unsigned_less [of "b ! 0", where 'a = nat] by (simp add: unsigned_ucast_eq take_bit_nat_eq_self)
  ultimately show ?thesis by (auto simp: wide_def raw_pixel_def)
qed

lemma shaped_pixel: "shaped (colours f) (wide f) read_pixel (\<lambda>_. True)"
proof -
  have "shaped (colours f) (wide f)
      (let v = raw_pixel g b in if TrueColor g
          then return_io \<lparr>R = channel v (RedShift g) (RedMax g), G = channel v (GreenShift g) (GreenMax g), B = channel v (BlueShift g) (BlueMax g)\<rparr>
          else if unat v < length cm then return_io (cm ! unat v) else crash_io) (\<lambda>_. True)" if "g = f" "length cm = 256" for g cm b
    using that raw_pixel_byte [of f b] unfolding Let_def by (auto intro!: shaped_basic)
  then show ?thesis
    unfolding read_pixel_def
    by (intro shaped_bind [OF shaped_get [where Q = "\<lambda>g. g = f"]] shaped_bind [OF shaped_get [where Q = "\<lambda>cm. length cm = 256"]] shaped_bind [OF shaped_read_full])
      (auto simp: colours_def)
qed

lemma shaped_rectangle:
  assumes "\<And>t r. shaped (colours f) (wide f) (enc_read ext t r) (\<lambda>_. True)"
  shows "shaped (colours f) (wide f) (read_rectangle ext) wf_rectangle"
proof -
  have raw: "shaped (colours f) (wide f) (RawEncoding_Read w h) (\<lambda>p. \<exists>cs. p = RawEncoding cs \<and> length cs = unat h * unat w)" for w h
    unfolding RawEncoding_Read_def by (intro shaped_bind [OF shaped_times [OF shaped_pixel]] shaped_basic) auto
  show ?thesis
    unfolding read_rectangle_def Let_def
    by (auto simp: wf_rectangle_def intro!: shaped_bind [OF shaped_reads(2)] shaped_bind [OF shaped_reads(3)] shaped_bind [OF shaped_get [where Q = "\<lambda>_. True"]]
      shaped_bind [OF raw] shaped_bind [OF assms] shaped_basic)
qed

lemma shaped_set_color: "shaped (colours f) True (set_color i color) (\<lambda>_. unat i < 256)"
  by (auto simp: shaped_def set_color_def colours_def)

lemma shaped_colors: "shaped (colours f) True (read_colors n i) (\<lambda>cs. length cs = n \<and> (cs \<noteq> [] \<longrightarrow> unat i + n \<le> 256))"
proof (induction n arbitrary: i)
  case (Suc n)
  have "unat (i + 1) = unat i + 1" if "unat i < 256"
  proof -
    have "unat i + unat (1 :: 16 word) < 2 ^ LENGTH(16)" using that by simp
    then show ?thesis by (simp add: unat_plus_simple [THEN iffD1] no_olen_add_nat)
  qed
  then show ?case
    unfolding read_colors.simps Let_def
    by (intro shaped_bind [OF shaped_reads(2)] shaped_bind [OF shaped_set_color] shaped_bind [OF Suc.IH] shaped_basic) auto
qed (simp add: shaped_basic)

lemma shaped_message:
  assumes "\<And>t r. shaped (colours f) (wide f) (enc_read ext t r) (\<lambda>_. True)"
    "\<And>t rd. msg_read ext t = Some rd \<Longrightarrow> shaped (colours f) False rd (\<lambda>_. True)" "message_reader ext t = Some rd"
  shows "shaped (colours f) (t = 1 \<or> t = 0 \<and> wide f) rd wf_message"
proof (cases "msg_read ext t")
  case (Some user)
  then show ?thesis
    using assms(3) unfolding message_reader_def
    by (auto simp: wf_message_def intro!: shaped_bind [OF shaped_allow [OF assms(2)]] shaped_basic)
next
  case None
  have "shaped (colours f) (wide f) (FramebufferUpdate_Read ext) wf_message"
    unfolding FramebufferUpdate_Read_def
    by (auto simp: wf_message_def unat_less_16 intro!: shaped_bind [OF shaped_read_full] shaped_bind [OF shaped_reads(2)] shaped_bind [OF shaped_times [OF shaped_rectangle [OF assms(1)]]] shaped_basic)
  moreover have "shaped (colours f) True SetColorMapEntries_Read wf_message"
    unfolding SetColorMapEntries_Read_def
    by (auto simp: wf_message_def intro!: shaped_bind [OF shaped_read_full] shaped_bind [OF shaped_reads(2)] shaped_bind [OF shaped_colors] shaped_basic)
  moreover have "shaped (colours f) E (return_io BellMessage) wf_message" "shaped (colours f) E ServerCutText_Read wf_message" for E
    unfolding ServerCutText_Read_def
    by (auto simp: wf_message_def intro!: shaped_bind [OF shaped_read_full] shaped_bind [OF shaped_reads(3)] shaped_basic)
  ultimately show ?thesis
    using assms(3) None unfolding message_reader_def by (auto split: if_splits)
qed

lemma main_step_shaped:
  assumes "\<And>t r. shaped (colours (PixelFormat c)) False (enc_read ext t r) (\<lambda>_. True)"
    "\<And>t rd. msg_read ext t = Some rd \<Longrightarrow> shaped (colours (PixelFormat c)) False rd (\<lambda>_. True)"
    "length (ColorMap c) = 256" "main_step ext c = (r, c')"
  shows "colours (PixelFormat c) c' \<and> (\<forall>m. r = Done (Some m) \<longrightarrow> wf_message m)
    \<and> (r = Crash \<longrightarrow> (\<exists>t rest. inb c = t # rest \<and> (t = 1 \<or> t = 0 \<and> wide (PixelFormat c))))"
proof (cases "inb c")
  case Nil
  then show ?thesis using assms(3,4) by (auto simp: main_step_def read8_def bind_io_def read_full_def colours_def)
next
  case (Cons t rest)
  have c1: "colours (PixelFormat c) (c\<lparr>inb := rest\<rparr>)" using assms(3) by (simp add: colours_def)
  show ?thesis
  proof (cases "message_reader ext t")
    case None
    then show ?thesis using assms(4) c1 by (auto simp: main_step_def read8_first [OF Cons] colours_def)
  next
    case (Some rd)
    have "shaped (colours (PixelFormat c)) (t = 1 \<or> t = 0 \<and> wide (PixelFormat c)) rd wf_message"
      using shaped_message [OF shaped_allow [OF assms(1)] assms(2) Some] by simp
    note rd = this
    obtain q d where q: "rd (c\<lparr>inb := rest\<rparr>) = (q, d)" by (cases "rd (c\<lparr>inb := rest\<rparr>)")
    have "colours (PixelFormat c) d \<and> (\<forall>x. q = Done x \<longrightarrow> wf_message x) \<and> (q = Crash \<longrightarrow> t = 1 \<or> t = 0 \<and> wide (PixelFormat c))"
      by (rule shapedD [OF rd c1 q])
    then show ?thesis using assms(4) Some Cons q by (cases q) (auto simp: main_step_def read8_first [OF Cons])
  qed
qed

end
