(* ===== verification/Rfb_Exchange.thy ===== *)
theory Rfb_Exchange
  imports Rfb_Session Vnc_Standard
begin

section \<open>Remote frame buffer: no side waits for the other\<close>

text \<open>
  The handshake as an exchange: each side writes what it can from the bytes the other has written so far, and
  after seven rounds both have written all of their parts.
\<close>

definition server_says :: "Server \<Rightarrow> bytes \<Rightarrow> bytes" where
  "server_says s b = outb (snd (serve_handshake s (newConn b)))"

definition client_says :: "ClientConfig \<Rightarrow> bytes \<Rightarrow> bytes" where
  "client_says cfg b = outb (snd (handshake cfg (new_client b [])))"

fun exchange :: "Server \<Rightarrow> ClientConfig \<Rightarrow> nat \<Rightarrow> bytes \<times> bytes" where
  "exchange s cfg 0 = ([], [])"
| "exchange s cfg (Suc n) = (case exchange s cfg n of (a, b) \<Rightarrow> (server_says s b, client_says cfg a))"

lemma empty_read: "inb c = [] \<Longrightarrow> read8 c = (Fail EOF, c)" "inb c = [] \<Longrightarrow> read16 c = (Fail EOF, c)" "inb c = [] \<Longrightarrow> read32 c = (Fail EOF, c)"
  by (simp_all add: read8_def read16_def read32_def bind_io_def read_full_def)

lemma empty_bind:
  "inb c = [] \<Longrightarrow> bind_io read8 f c = (Fail EOF, c)" "inb c = [] \<Longrightarrow> bind_io read16 g c = (Fail EOF, c)" "inb c = [] \<Longrightarrow> bind_io read32 h c = (Fail EOF, c)"
  by (simp_all add: bind_Fail [where m = read8, OF empty_read(1)] bind_Fail [where m = read16, OF empty_read(2)] bind_Fail [where m = read32, OF empty_read(3)])

lemma server_parts:
  "server_says s [] = v8" "server_says s v8 = v8 @ [1, 1]" "server_says s (v8 @ [1]) = v8 @ [1, 1] @ be32 0"
  "server_says s (client_hello sh) = server_hello s"
proof -
  show "server_says s (client_hello sh) = server_hello s" using serve_handshake_client [of s sh "[]"] by (simp add: server_says_def newConn_def)
  show "server_says s [] = v8"
    by (simp add: server_says_def serve_handshake_def put_def bind_get bind_Fail [where m = read_line] read_line_def newConn_def)
  have l: "read_line ((newConn (v8 @ rest))\<lparr>outb := v8\<rparr>) = (Done v8, (newConn rest)\<lparr>outb := v8\<rparr>)" for rest
    using version_bytes by (simp add: read_line_def newConn_def Let_def)
  have o: "outb (newConn b) = []" for b by (simp add: newConn_def)
  have a: "serve_auth v8 ((newConn [])\<lparr>outb := v8\<rparr>) = (Fail EOF, (newConn [])\<lparr>outb := v8 @ [1, 1]\<rparr>)"
    "serve_auth v8 ((newConn [1])\<lparr>outb := v8\<rparr>) = (Done (), (newConn [])\<lparr>outb := v8 @ [1, 1]\<rparr>)"
    unfolding serve_auth_def put_def by (simp_all add: version_bytes bind_get newConn_def empty_bind read8_step returns)
  show "server_says s v8 = v8 @ [1, 1]"
    unfolding server_says_def serve_handshake_def put_def [of v8] bind_get o append_Nil
    using l [of "[]"] by (simp add: bind_Done [where m = read_line] version_bytes bind_Fail [where m = "serve_auth v8", OF a(1)])
  show "server_says s (v8 @ [1]) = v8 @ [1, 1] @ be32 0"
    unfolding server_says_def serve_handshake_def put_def [of v8] bind_get o append_Nil
    unfolding bind_Done [where m = read_line, OF l] by (simp add: version_bytes bind_Done [where m = "serve_auth v8", OF a(2)]) (simp add: put_def bind_get empty_bind newConn_def)
qed

lemma client_parts:
  assumes "ClientAuthNone \<in> set (auths cfg)"
  shows "client_says cfg [] = []" "client_says cfg v8 = v8" "client_says cfg (v8 @ [1, 1]) = v8 @ [1]"
    "client_says cfg (v8 @ [1, 1] @ be32 0) = client_hello (of_bool (\<not> Exclusive cfg))"
proof -
  define sh where "sh = (of_bool (\<not> Exclusive cfg) :: 8 word)"
  have "read_full pvLen (new_client [] []) = (Fail EOF, new_client [] [])" by (simp add: read_full_def pvLen_def new_client_def)
  then have "handshake cfg (new_client [] []) = (Fail EOF, new_client [] [])" unfolding handshake_def by (rule bind_Fail)
  then show "client_says cfg [] = []" unfolding client_says_def by simp (simp add: new_client_def)
  have h: "handshake cfg (new_client (v8 @ rest) []) =
      bind_io (security cfg) (\<lambda>_. bind_io (write_conn [sh]) (\<lambda>_. server_init)) ((new_client rest [])\<lparr>outb := v8\<rparr>)" for rest
    unfolding handshake_def v8_def [symmetric] sh_def [symmetric]
    apply (subst read_full_append [of _ v8 rest])
      apply (simp add: new_client_def)
     apply (simp add: version_bytes pvLen_def)
    apply (simp add: version_8)
    apply (subst write_step, simp add: new_client_def)
    apply (simp add: new_client_def)
    done
  have "find_auth (auths cfg) [1] \<noteq> None" using assms by (auto simp: find_auth_def find_None_iff SecurityType_def)
  then have f: "find_auth (auths cfg) [1] = Some ClientAuthNone" using auth_none by (cases "find_auth (auths cfg) [1]") auto
  have s0: "security cfg ((new_client [] [])\<lparr>outb := v8\<rparr>) = (Fail EOF, (new_client [] [])\<lparr>outb := v8\<rparr>)"
    unfolding security_def by (simp add: empty_bind new_client_def)
  have s1: "security cfg ((new_client [1, 1] [])\<lparr>outb := v8\<rparr>) = (Fail EOF, (new_client [] [])\<lparr>outb := v8 @ [1]\<rparr>)"
    unfolding security_def auths_def [symmetric]
    apply (subst read8_step [of _ 1 "[1]"], simp add: new_client_def)
    apply simp
    apply (subst read_full_append [of _ "[1]" "[]"], simp, simp)
    apply (simp add: f SecurityType_def auth_Handshake_def bind_return)
    apply (subst write_step, simp add: new_client_def)
    apply (simp add: empty_bind new_client_def)
    done
  have s2: "security cfg ((new_client ([1, 1] @ be32 0) [])\<lparr>outb := v8\<rparr>) = (Done (), (new_client [] [])\<lparr>outb := v8 @ [1]\<rparr>)"
    using security_none [OF assms, of "(new_client ([1, 1] @ be32 0) [])\<lparr>outb := v8\<rparr>" "[]"] by (simp add: new_client_def)
  show "client_says cfg v8 = v8"
    using h [of "[]"] by (simp add: client_says_def bind_Fail [where m = "security cfg", OF s0])
  show "client_says cfg (v8 @ [1, 1]) = v8 @ [1]"
    by (simp add: client_says_def h bind_Fail [where m = "security cfg", OF s1])
  show "client_says cfg (v8 @ [1, 1] @ be32 0) = client_hello (of_bool (\<not> Exclusive cfg))"
    unfolding client_says_def h bind_Done [where m = "security cfg", OF s2] sh_def [symmetric]
    by (subst write_step, simp add: new_client_def, simp add: server_init_def empty_bind client_hello_def new_client_def)
qed

lemma client_last:
  "ClientAuthNone \<in> set (auths cfg) \<Longrightarrow> client_says cfg (server_hello s) = client_hello (of_bool (\<not> Exclusive cfg))"
  using handshake_server [of cfg s "[]"] by (simp add: client_says_def)

lemma exchange_rounds:
  assumes "ClientAuthNone \<in> set (auths cfg)"
  shows "exchange s cfg (7 + n) = (server_hello s, client_hello (of_bool (\<not> Exclusive cfg)))"
proof (induction n)
  case 0
  define sh where "sh = (of_bool (\<not> Exclusive cfg) :: 8 word)"
  note parts = server_parts(1-3) server_parts(4) [of s sh] client_parts [OF assms, folded sh_def]
  show ?case unfolding sh_def [symmetric] by (simp add: numeral_eq_Suc parts [unfolded append_Cons append_Nil])
next
  case (Suc n)
  show ?case unfolding add_Suc_right exchange.simps Suc by (simp only: prod.case server_parts(4) client_last [OF assms])
qed

section \<open>Remote frame buffer: password authentication\<close>

text \<open>
  The answer of the client to a challenge is made with the cipher of the library and a key whose bytes are reversed by
  a table. It is the answer of the cipher of \<^verbatim>\<open>endec/vncpasswd\<close> for the plain password.
\<close>

definition reversed :: "nat \<Rightarrow> nat" where
  "reversed n = horner_sum of_bool 2 (rev (map (bit n) [0..<8]))"

lemma bit_reversed: "i < 8 \<Longrightarrow> bit (reversed n) (7 - i) = bit n i"
  using diff_less_Suc [of 7 i] by (simp add: reversed_def bit_horner_sum_bit_iff rev_nth del: upt_rec_numeral)

lemma reversed_sum:
  "reversed n = 128 * (n mod 2) + 64 * (n div 2 mod 2) + 32 * (n div 4 mod 2) + 16 * (n div 8 mod 2)
     + 8 * (n div 16 mod 2) + 4 * (n div 32 mod 2) + 2 * (n div 64 mod 2) + n div 128 mod 2"
proof -
  have b: "of_bool (bit n k) = n div 2 ^ k mod 2" for k by (simp add: bit_iff_odd mod2_eq_if)
  have "[0..<8] = [0, 1, 2, 3, 4, 5, 6, 7 :: nat]" by (simp add: upt_rec)
  then show ?thesis by (simp only: reversed_def list.map rev.simps append.simps horner_sum_simps b) (simp add: distrib_left)
qed

primrec agrees :: "nat \<Rightarrow> nat list \<Rightarrow> bool" where
  "agrees n [] = True"
| "agrees n (r # rs) = (reversed n = r \<and> agrees (n + 1) rs)"

lemma agrees_nth: "agrees n rs \<Longrightarrow> i < length rs \<Longrightarrow> rs ! i = reversed (n + i)"
proof (induction rs arbitrary: n i)
  case (Cons r rs)
  then show ?case by (cases i) auto
qed simp

lemma reverse_table_agrees: "agrees 0 reverse_table" "length reverse_table = 256"
  by (simp_all add: reverse_table_def reversed_sum)

lemma bit_reverse: "i < 8 \<Longrightarrow> bit (reverseBits b) (7 - i) = bit b i"
proof -
  assume i: "i < 8"
  have "unat b < 256" using unsigned_less [of b] by simp
  then have "reverseBits b = word_of_nat (reversed (unat b))" using agrees_nth [OF reverse_table_agrees(1), of "unat b"] by (simp add: reverseBits_def reverse_table_agrees(2))
  then show ?thesis using diff_less_Suc [of 7 i] bit_reversed [OF i, of "unat b"] by (simp add: bit_simps)
qed

lemma key_reversed: "block_bits (map reverseBits k) = key_bits k"
proof -
  have "map (\<lambda>i. bit (reverseBits w) (7 - i)) [0..<8] = map (bit w) [0..<8]" for w by (rule map_cong) (simp_all add: bit_reverse)
  then show ?thesis unfolding block_bits_def key_bits_def by (simp only: map_map comp_def)
qed

lemma reversed_key: "(let k = map reverseBits (to_bytes (take 8 p)) in k @ replicate (8 - length k) 0) = map reverseBits (clipped (to_bytes p))"
proof -
  have "reverseBits 0 = 0" by (simp add: reverseBits_def reverse_table_def)
  then show ?thesis by (simp add: clipped_def Let_def to_bytes_def take_map min_def)
qed

lemma des_reversed:
  assumes "length k = 8" "length b = 8"
  shows "des_encrypt (map reverseBits k) b = des_block k b"
proof -
  have l: "length (des_block k b) = 8"
    using deskey_EN0 [of k] des_first [of k b "replicate 8 0"] assms by fastforce
  have "block_bits (des_encrypt (map reverseBits k) b) = block_bits (des_block k b)"
    using assms(2) unfolding des_encrypt_def key_reversed des_block_standard [OF eq_refl [OF assms(1) [symmetric]] assms(2)] using DES_inverse_DES [of "block_bits b" "key_bits k"] by (subst block_bits_of_bits) simp_all
  then show ?thesis using l by (intro block_bits_inj) (simp_all add: des_encrypt_def)
qed

lemma auth_answer:
  assumes "length challenge = 16"
  shows "auth_encrypt p challenge = des_block (clipped (to_bytes p)) (take 8 challenge) @ des_block (clipped (to_bytes p)) (drop 8 challenge)"
  using assms unfolding auth_encrypt_def Let_def reversed_key [unfolded Let_def] by (simp add: des_reversed)

end
