(* ===== verification/Rfb_Props.thy ===== *)
theory Rfb_Props
  imports Rfb_Guard Rfb_Exchange
begin

section \<open>Remote frame buffer: properties\<close>

text \<open>
  The client and the server of the repository against each other: the handshake, the requests, the pictures; what
  the server keeps in every interleaving of its goroutines; and the messages and the answers of the client.
\<close>

subsection \<open>Handshake\<close>

text \<open>
  C26. A client without authentication and a server come through the handshake: from the bytes the other has written
  so far each writes the next part, after seven rounds all is written, and with these bytes
  both end without an error, the client with the size of the server, its pixel format and its name, and the server
  with the bytes behind the handshake still to be read.
\<close>

theorem rfb_handshake:
  assumes "ClientAuthNone \<in> set (auths cfg)"
  shows "exchange s cfg (7 + n) = (server_hello s, client_hello (of_bool (\<not> Exclusive cfg)))
    \<and> serve_handshake s (newConn (client_hello sh @ rest)) = (Done (), fresh rest s)
    \<and> (\<exists>c. handshake cfg (new_client (server_hello s @ rest) []) = (Done (), c)
         \<and> outb c = client_hello (of_bool (\<not> Exclusive cfg)) \<and> inb c = rest
         \<and> FrameBufferWidth c = word_of_int (width s) \<and> FrameBufferHeight c = word_of_int (height s)
         \<and> DesktopName c = ''rfb-go'' \<and> PixelFormat c = client_format (format (fresh rest s)))"
  using exchange_rounds [OF assms, of s n] serve_handshake_client [of s sh rest] handshake_server [OF assms, of s rest]
  by (simp add: fresh_def new_client_def)

theorem rfb_handshake_witness:
  "\<exists>cfg. exchange (NewServer 640 480) cfg 9 = (server_hello (NewServer 640 480), client_hello 1)"
proof -
  let ?cfg = "\<lparr>Auth = None, Exclusive = False, HasMessageCh = True\<rparr>"
  have "exchange (NewServer 640 480) ?cfg (7 + 2) = (server_hello (NewServer 640 480), client_hello 1)"
    using rfb_handshake [of ?cfg "NewServer 640 480" 2 0 "[]"] by (simp add: auths_def)
  then show ?thesis by (intro exI [of _ ?cfg]) simp
qed

subsection \<open>Requests\<close>

fun send_all :: "request list \<Rightarrow> (ClientConn, unit) io" where
  "send_all [] = return_io ()"
| "send_all (r # rs) = bind_io (send r) (\<lambda>_. send_all rs)"

fun ready_all :: "request list \<Rightarrow> sconn \<Rightarrow> bool" where
  "ready_all [] c = True"
| "ready_all (r # rs) c = (ready r c \<and> ready_all rs (effect r c))"

lemma send_all_wire:
  "werrs c = [] \<Longrightarrow> \<exists>c'. send_all rs c = (Done (), c') \<and> outb c' = outb c @ concat (map wire rs) \<and> PixelFormat c' = PixelFormat c"
proof (induction rs arbitrary: c)
  case (Cons r rs)
  obtain c1 where c1: "send r c = (Done (), c1)" "outb c1 = outb c @ wire r" "werrs c1 = []" "PixelFormat c1 = PixelFormat c"
    using send_wire [OF Cons.prems] by blast
  obtain c2 where "send_all rs c1 = (Done (), c2)" "outb c2 = outb c1 @ concat (map wire rs)" "PixelFormat c2 = PixelFormat c1" using Cons.IH [OF c1(3)] by blast
  then show ?case using c1 by (simp add: bind_Done [where m = "send r", OF c1(1)])
qed (simp add: returns)

lemma effect_input: "effect r (c\<lparr>inb := i\<rparr>) = (effect r c)\<lparr>inb := i\<rparr>"
  by (cases r) (simp_all add: effect_def add_event_def first_frame_def)

lemma effect_stays: "crashed (effect r c) = crashed c" "place (effect r c) = place c"
  by (cases r; simp add: effect_def add_event_def first_frame_def)+

lemma ready_input: "ready_all rs (c\<lparr>inb := i\<rparr>) = ready_all rs c"
proof (induction rs arbitrary: c)
  case (Cons r rs)
  have "ready r (c\<lparr>inb := i\<rparr>) = ready r c" by (cases r) (simp_all add: ready_def)
  then show ?case using Cons.IH [of "effect r c"] by (simp add: effect_input)
qed simp

lemma fold_effect_input: "fold effect rs (c\<lparr>inb := i\<rparr>) = (fold effect rs c)\<lparr>inb := i\<rparr>"
  by (induction rs arbitrary: c) (simp_all add: effect_input)

lemma serve_all:
  "\<not> crashed c \<Longrightarrow> place c = Idle \<Longrightarrow> ready_all rs c \<Longrightarrow> inb c = concat (map wire rs) @ rest
   \<Longrightarrow> (server_step I)\<^sup>*\<^sup>* c ((fold effect rs c)\<lparr>inb := rest\<rparr>)"
proof (induction rs arbitrary: c)
  case Nil
  then have "c\<lparr>inb := rest\<rparr> = c" by simp
  then show ?case by simp
next
  case (Cons r rs)
  let ?d = "effect r (c\<lparr>inb := concat (map wire rs) @ rest\<rparr>)"
  have "(server_step I)\<^sup>*\<^sup>* c ?d" using Cons.prems by (intro serve_request) simp_all
  moreover have "(server_step I)\<^sup>*\<^sup>* ?d ((fold effect rs ?d)\<lparr>inb := rest\<rparr>)"
    using Cons.prems by (intro Cons.IH) (simp_all add: effect_stays effect_input ready_input)
  moreover have "(fold effect rs ?d)\<lparr>inb := rest\<rparr> = (fold effect (r # rs) c)\<lparr>inb := rest\<rparr>" by (simp add: effect_input fold_effect_input)
  ultimately show ?case by (metis rtranclp_trans)
qed

text \<open>
  C27. Requests of the client reach the server: what the client writes for a sequence of requests, the server reads
  as their effects in order, the format, the update requests and the events, as long as it does not have to wait
  for a frame or for room. The client itself keeps the format it had, also after asking for another one.
\<close>

theorem rfb_requests:
  assumes "werrs cl = []" "\<not> crashed srv" "place srv = Idle" "ready_all rs srv"
  shows "\<exists>cl' b. send_all rs cl = (Done (), cl') \<and> outb cl' = outb cl @ b \<and> PixelFormat cl' = PixelFormat cl
    \<and> (\<forall>rest. (server_step I)\<^sup>*\<^sup>* (srv\<lparr>inb := b @ rest\<rparr>) ((fold effect rs srv)\<lparr>inb := rest\<rparr>))"
proof -
  obtain cl' where cl: "send_all rs cl = (Done (), cl')" "outb cl' = outb cl @ concat (map wire rs)" "PixelFormat cl' = PixelFormat cl"
    using send_all_wire [OF assms(1)] by blast
  have "(server_step I)\<^sup>*\<^sup>* (srv\<lparr>inb := concat (map wire rs) @ rest\<rparr>) ((fold effect rs srv)\<lparr>inb := rest\<rparr>)" for rest
    using serve_all [of "srv\<lparr>inb := concat (map wire rs) @ rest\<rparr>" rs rest I] assms(2-4) by (simp add: ready_input fold_effect_input)
  then show ?thesis using cl by blast
qed

theorem rfb_requests_witness:
  "\<exists>cl' b. send_all [SetFormat no_format, Key 65 True, Pointer 1 20 30] (new_client [] []) = (Done (), cl') \<and> outb cl' = b
    \<and> PixelFormat cl' = no_format
    \<and> (\<forall>rest. (server_step {})\<^sup>*\<^sup>* ((fresh [] (NewServer 2 2))\<lparr>inb := b @ rest\<rparr>)
         ((fresh rest (NewServer 2 2))\<lparr>format := server_format no_format, event := [KeyEv 1 65, PointerEv 1 20 30]\<rparr>))"
proof -
  let ?rs = "[SetFormat no_format, Key 65 True, Pointer 1 20 30]" and ?srv = "fresh [] (NewServer 2 2)"
  have e: "(fold effect ?rs ?srv)\<lparr>inb := rest\<rparr> = (fresh rest (NewServer 2 2))\<lparr>format := server_format no_format, event := [KeyEv 1 65, PointerEv 1 20 30]\<rparr>" for rest
    by (simp add: effect_def add_event_def fresh_def newConn_def)
  have "werrs (new_client [] []) = []" "\<not> crashed ?srv" "place ?srv = Idle" "ready_all ?rs ?srv" "outb (new_client [] []) = []" "PixelFormat (new_client [] []) = no_format"
    by (simp_all add: new_client_def fresh_def newConn_def ready_def)
  then show ?thesis using rfb_requests [of "new_client [] []" ?srv ?rs "{}"] unfolding e by simp
qed

subsection \<open>Pictures\<close>

text \<open>
  C28. The fast path for formats of five bits a channel writes the same bytes as the generic path, for images in memory
  without gaps; and a client with that format reads the message as one rectangle of the image
  with the five high bits of each channel of each pixel.
\<close>

theorem rfb_pictures:
  assumes "isScreensThousands f" "length pix = 4 * (w * h)" "w < 2 ^ 16" "h < 2 ^ 16"
    and "msg_read ext 0 = None" "PixelFormat c = client_format f"
  shows "pushGenericLocked f (packed w h pix) = Ret (pushRGBAScreensThousandsLocked f pix)
    \<and> (\<exists>m. pushImage f (packed w h pix) = Ret m
         \<and> (\<forall>rest. main_step ext (c\<lparr>inb := m @ rest\<rparr>) =
              (Done (Some (FramebufferUpdateMessage [\<lparr>X = 0, Y = 0, Width = word_of_nat w, Height = word_of_nat h, Enc = RawEncoding (map (color5 pix) [0..<w * h])\<rparr>])),
               c\<lparr>inb := rest\<rparr>)))"
proof -
  let ?m = "[0, 0] @ be16 1 @ be16 0 @ be16 0 @ be16 (word_of_nat w) @ be16 (word_of_nat h) @ be32 0 @ image_bytes (sBigEndian f \<noteq> 0) (w * h) pix"
  have "main_step ext (c\<lparr>inb := ?m @ rest\<rparr>) =
      (Done (Some (FramebufferUpdateMessage [\<lparr>X = 0, Y = 0, Width = word_of_nat w, Height = word_of_nat h, Enc = RawEncoding (map (color5 pix) [0..<w * h])\<rparr>])),
       c\<lparr>inb := rest\<rparr>)" for rest
    using update_read [OF assms(5), of "c\<lparr>inb := ?m @ rest\<rparr>" 0 0 "word_of_nat w" "word_of_nat h" 0 "image_bytes (sBigEndian f \<noteq> 0) (w * h) pix @ rest"]
      read_raw_image [OF assms(1), of "c\<lparr>inb := image_bytes (sBigEndian f \<noteq> 0) (w * h) pix @ rest\<rparr>" w h pix rest] assms(3,4,6)
    by (simp add: bind_io_def return_io_def)
  then show ?thesis using fast_path [OF assms(1,2)] pushImage_packed [OF assms(1,2)] by simp
qed

theorem rfb_pictures_witness:
  "\<exists>m. pushImage default_format (packed 1 1 [255, 128, 8, 0]) = Ret m
    \<and> main_step \<lparr>enc_read = (\<lambda>t r. fail_io EOF), msg_read = (\<lambda>t. None)\<rparr> ((new_client m [])\<lparr>PixelFormat := client_format default_format\<rparr>) =
        (Done (Some (FramebufferUpdateMessage [\<lparr>X = 0, Y = 0, Width = 1, Height = 1, Enc = RawEncoding [\<lparr>R = 31, G = 16, B = 1\<rparr>]\<rparr>])),
         (new_client [] [])\<lparr>PixelFormat := client_format default_format\<rparr>)"
proof -
  let ?ext = "\<lparr>enc_read = (\<lambda>t r. fail_io EOF), msg_read = (\<lambda>t. None)\<rparr>" and ?c = "(new_client [] [])\<lparr>PixelFormat := client_format default_format\<rparr>"
  let ?f = "FramebufferUpdateMessage [\<lparr>X = 0, Y = 0, Width = 1, Height = 1, Enc = RawEncoding [\<lparr>R = 31, G = 16, B = 1\<rparr>]\<rparr>]"
  have "isScreensThousands default_format" by (simp add: isScreensThousands_def default_format_def)
  then obtain m where m: "pushImage default_format (packed 1 1 [255, 128, 8, 0]) = Ret m"
      "main_step ?ext (?c\<lparr>inb := m @ []\<rparr>) = (Done (Some ?f), ?c\<lparr>inb := []\<rparr>)"
    using rfb_pictures [of default_format "[255, 128, 8, 0]" 1 1 ?ext ?c] by (simp add: color5_def five_def) (metis append_Nil2)
  moreover have "?c\<lparr>inb := m @ []\<rparr> = (new_client m [])\<lparr>PixelFormat := client_format default_format\<rparr>" "?c\<lparr>inb := []\<rparr> = ?c" by (simp_all add: new_client_def)
  ultimately show ?thesis by simp
qed

subsection \<open>The server\<close>

text \<open>
  C29. In every interleaving of the two goroutines of a connection, the producer of frames and the consumer of events,
  whatever the client sends: the channels stay within their capacity, no update is sent before the
  first frame, and all that is written is the handshake, then whole update messages, then the beginning of the message that
  is being written, which is empty between two pushes. The format may change between two reads of a push, so one message may mix
  formats, even within a pixel, but each read sees a format that was in force during the run: with \<open>F\<close> the formats in force, the
  program does not panic as long as all of \<open>F\<close> are formats that the server can send and the images can be read at every point of them.
  A request that waits can be answered in full: if nothing comes between, with the message that \<^verbatim>\<open>pushFrame\<close> gives for the format in force.
\<close>

theorem rfb_server_invariant:
  assumes "serve_handshake s (newConn (client_hello sh @ input)) = (Done (), c0)"
    "(\<lambda>a b. server_step I a b \<and> format a \<in> F)\<^sup>*\<^sup>* c0 c"
  shows "length (event c) \<le> 16 \<and> length (feed c) \<le> 16 \<and> length (fbupc c) \<le> 128 \<and> set (feed c) \<subseteq> I
    \<and> (gotFirstFrame c \<longleftrightarrow> lastFrame c \<noteq> None)
    \<and> (lastFrame c = None \<longrightarrow> fbupc c = [])
    \<and> (\<exists>ms part. outb c = server_hello s @ concat ms @ part \<and> (\<forall>m \<in> set ms. update_message F I m) \<and> begun F I (pusher c) part
         \<and> (pusher c = PWaiting \<longrightarrow> part = []))
    \<and> ((\<forall>f \<in> F. good_format f) \<and> (\<forall>im \<in> I. good_image im) \<longrightarrow> \<not> crashed c)
    \<and> (\<forall>ur rest m. \<not> crashed c \<and> pusher c = PWaiting \<and> fbupc c = ur # rest \<and> pushFrame (format c) (lastFrame c) ur = Ret m \<longrightarrow>
         (server_step I)\<^sup>*\<^sup>* c (c\<lparr>fbupc := rest, outb := outb c @ m\<rparr>))"
proof -
  have c0: "c0 = fresh input s" using assms(1) serve_handshake_client [of s sh input] by (simp add: fresh_def)
  have inv: "server_inv F I (server_hello s) c" using server_reach_inv [OF assms(2)] fresh_inv c0 by simp
  then obtain ms part where "outb c = server_hello s @ concat ms @ part" "\<forall>m \<in> set ms. update_message F I m" "begun F I (pusher c) part"
    by (auto simp: server_inv_def sent_def)
  moreover have "pusher c = PWaiting \<longrightarrow> part = []" using calculation(3) by (auto simp: begun_def)
  moreover have "\<not> crashed c" if "\<forall>f \<in> F. good_format f" "\<forall>im \<in> I. good_image im"
    using good_run [OF assms(2) that, of "server_hello s"] fresh_inv c0 by (simp add: fresh_def newConn_def)
  moreover have "(server_step I)\<^sup>*\<^sup>* c (c\<lparr>fbupc := rest, outb := outb c @ m\<rparr>)"
    if "\<not> crashed c \<and> pusher c = PWaiting \<and> fbupc c = ur # rest \<and> pushFrame (format c) (lastFrame c) ur = Ret m" for ur rest m
    using request_undisturbed that inv by (auto simp: server_inv_def)
  moreover have "gotFirstFrame c \<longleftrightarrow> lastFrame c \<noteq> None" "lastFrame c = None \<longrightarrow> fbupc c = []"
    using inv by (auto simp: server_inv_def split: option.splits)
  ultimately show ?thesis using inv by (auto simp: server_inv_def)
qed

theorem rfb_server_invariant_witness:
  "\<exists>c. (server_step {packed 1 1 [0, 0, 0, 0]})\<^sup>*\<^sup>* (fresh (wire (Key 65 True)) (NewServer 1 1)) c \<and> event c = [KeyEv 1 65]
    \<and> (\<exists>ms. outb c = server_hello (NewServer 1 1) @ concat ms \<and> (\<forall>m \<in> set ms. update_message UNIV {packed 1 1 [0, 0, 0, 0]} m))"
proof -
  let ?I = "{packed 1 1 [0, 0, 0, 0]}" and ?s = "NewServer 1 1"
  let ?c = "effect (Key 65 True) ((fresh (wire (Key 65 True)) ?s)\<lparr>inb := []\<rparr>)"
  have h: "serve_handshake ?s (newConn (client_hello 1 @ wire (Key 65 True))) = (Done (), fresh (wire (Key 65 True)) ?s)"
    using serve_handshake_client [of ?s 1 "wire (Key 65 True)"] by (simp add: fresh_def)
  have r: "(server_step ?I)\<^sup>*\<^sup>* (fresh (wire (Key 65 True)) ?s) ?c" by (intro serve_request) (simp_all add: fresh_def newConn_def ready_def)
  then have "run_with UNIV ?I (fresh (wire (Key 65 True)) ?s) ?c" by simp
  from rfb_server_invariant [OF h this] have "\<exists>ms. outb ?c = server_hello ?s @ concat ms \<and> (\<forall>m \<in> set ms. update_message UNIV ?I m)"
    by (fastforce simp: effect_def add_event_def fresh_def newConn_def)
  then show ?thesis using r by (intro exI [of _ ?c]) (simp add: effect_def add_event_def fresh_def newConn_def)
qed

text \<open>
  C30. A client can end the program of the server: it asks for a format without true colour or with another maximum,
  and then for a frame.
\<close>

theorem rfb_client_ends_server:
  assumes "im \<in> I" "0 < Dx (Bounds im)" "0 < Dy (Bounds im)" "\<not> TrueColor f \<or> RedMax f \<noteq> 31"
  shows "\<exists>cl c. send_all [SetFormat f, Update False x y w h] (new_client [] []) = (Done (), cl)
    \<and> (server_step I)\<^sup>*\<^sup>* (fresh (outb cl) s) c \<and> crashed c"
proof -
  obtain cl where "send_all [SetFormat f, Update False x y w h] (new_client [] []) = (Done (), cl)"
      "outb cl = wire (SetFormat f) @ wire (Update False x y w h) @ []"
    using send_all_wire [of "new_client [] []" "[SetFormat f, Update False x y w h]"] by (auto simp: new_client_def)
  then show ?thesis using client_crashes_server [OF assms, of x y w h "[]" s] by fastforce
qed

theorem rfb_client_ends_server_witness:
  "\<exists>cl c. send_all [SetFormat no_format, Update False 0 0 1 1] (new_client [] []) = (Done (), cl)
    \<and> (server_step {packed 1 1 [0, 0, 0, 0]})\<^sup>*\<^sup>* (fresh (outb cl) (NewServer 1 1)) c \<and> crashed c"
  using rfb_client_ends_server [of "packed 1 1 [0, 0, 0, 0]" "{packed 1 1 [0, 0, 0, 0]}" no_format 0 0 1 1 "NewServer 1 1"]
  by (simp add: packed_def Bounds_def no_format_def)

subsection \<open>The client\<close>

text \<open>
  C31. The messages a client reads have the shape they claim: a raw rectangle has as many colours as its size, changed
  colours lie within the map of 256, which keeps its size as the format does; and reading panics at most on a
  message with colours of the map, or on pixels of 16 or 32 bits without true colour.
\<close>

theorem rfb_messages:
  assumes "\<And>t r. shaped (colours (PixelFormat c)) False (enc_read ext t r) (\<lambda>_. True)"
    "\<And>t rd. msg_read ext t = Some rd \<Longrightarrow> shaped (colours (PixelFormat c)) False rd (\<lambda>_. True)"
    "length (ColorMap c) = 256" "main_step ext c = (r, c')"
  shows "length (ColorMap c') = 256 \<and> PixelFormat c' = PixelFormat c
    \<and> (\<forall>rects. r = Done (Some (FramebufferUpdateMessage rects)) \<longrightarrow>
         length rects < 2 ^ 16 \<and> (\<forall>q \<in> set rects. \<forall>cs. Enc q = RawEncoding cs \<longrightarrow> length cs = unat (Height q) * unat (Width q)))
    \<and> (\<forall>first cs. r = Done (Some (SetColorMapEntriesMessage first cs)) \<longrightarrow> cs \<noteq> [] \<longrightarrow> unat first + length cs \<le> 256)
    \<and> (r = Crash \<longrightarrow> (\<exists>t rest. inb c = t # rest \<and> (t = 1 \<or> t = 0 \<and> \<not> TrueColor (PixelFormat c) \<and> BPP (PixelFormat c) \<in> {16, 32})))"
proof -
  have m: "colours (PixelFormat c) c' \<and> (\<forall>m. r = Done (Some m) \<longrightarrow> wf_message m)
      \<and> (r = Crash \<longrightarrow> (\<exists>t rest. inb c = t # rest \<and> (t = 1 \<or> t = 0 \<and> wide (PixelFormat c))))"
    by (rule main_step_shaped [OF _ _ assms(3,4)]) (rule assms(1), rule assms(2), assumption)
  then have "length (ColorMap c') = 256 \<and> PixelFormat c' = PixelFormat c" by (simp add: colours_def)
  moreover have "\<forall>rects. r = Done (Some (FramebufferUpdateMessage rects)) \<longrightarrow>
      length rects < 2 ^ 16 \<and> (\<forall>q \<in> set rects. \<forall>cs. Enc q = RawEncoding cs \<longrightarrow> length cs = unat (Height q) * unat (Width q))"
    using m by (fastforce simp: wf_message_def wf_rectangle_def split: pixels.splits)
  moreover have "\<forall>first cs. r = Done (Some (SetColorMapEntriesMessage first cs)) \<longrightarrow> cs \<noteq> [] \<longrightarrow> unat first + length cs \<le> 256"
    using m by (auto simp: wf_message_def)
  moreover have "r = Crash \<longrightarrow> (\<exists>t rest. inb c = t # rest \<and> (t = 1 \<or> t = 0 \<and> \<not> TrueColor (PixelFormat c) \<and> BPP (PixelFormat c) \<in> {16, 32}))"
    using m by (auto simp: wide_def)
  ultimately show ?thesis by blast
qed

theorem rfb_messages_witness:
  "\<exists>r c'. main_step \<lparr>enc_read = (\<lambda>t r. fail_io EOF), msg_read = (\<lambda>t. None)\<rparr> (new_client [2] []) = (r, c') \<and> r \<noteq> Crash \<and> length (ColorMap c') = 256"
proof -
  let ?ext = "\<lparr>enc_read = (\<lambda>t r. fail_io EOF), msg_read = (\<lambda>t. None)\<rparr>"
  obtain r c' where r: "main_step ?ext (new_client [2] []) = (r, c')" by (cases "main_step ?ext (new_client [2] [])")
  have i: "inb (new_client [2] []) = [2]" "length (ColorMap (new_client [2] [])) = 256" by (simp_all add: new_client_def)
  have "length (ColorMap c') = 256 \<and> (r = Crash \<longrightarrow> (\<exists>t rest. inb (new_client [2] []) = t # rest \<and> (t = 1 \<or> t = 0)))"
    using rfb_messages [OF _ _ i(2) r] by (auto simp: shaped_basic)
  then show ?thesis using r i(1) by auto
qed

text \<open>
  The loop of the client ends on every input, whatever the server sends, when the readers of the user do not put bytes
  back: every round takes at least one byte.
\<close>

lemma rfb_loop_ends:
  assumes "\<And>t r. consumes (enc_read ext t r)" "\<And>t rd. msg_read ext t = Some rd \<Longrightarrow> consumes rd"
  shows "\<exists>r c'. mainLoop cfg ext c = Some (r, c')"
proof -
  have "\<exists>r. mainLoop cfg ext c = Some r" by (rule mainLoop_ends) (rule assms(1), rule assms(2), assumption)
  then show ?thesis by (metis surj_pair)
qed

text \<open>
  C32. The answer of the client to a challenge is the one of \<^verbatim>\<open>endec/vncpasswd\<close>: each half of the challenge encrypted
  by the block cipher of that package under the password, cut to eight bytes or filled up with zeros. The table
  of the client reverses the bits of the bytes of the key, as that package does in its key schedule.
\<close>

theorem rfb_password:
  assumes "length challenge = 16" "inb c = challenge @ rest" "werrs c = []"
  shows "\<exists>ks a b. deskey (clipped (to_bytes p)) EN0 = Ret ks
    \<and> des ks (take 8 challenge) (replicate 8 0) = Ret a \<and> des ks (drop 8 challenge) (replicate 8 0) = Ret b
    \<and> auth_Handshake (PasswordAuth p) c = (Done (), c\<lparr>inb := rest, outb := outb c @ a @ b\<rparr>)"
proof -
  let ?k = "clipped (to_bytes p)"
  obtain ks where ks: "deskey ?k EN0 = Ret ks" using deskey_EN0 [of ?k] by auto
  have d: "des ks (take 8 challenge) (replicate 8 0) = Ret (des_block ?k (take 8 challenge))"
    "des ks (drop 8 challenge) (replicate 8 0) = Ret (des_block ?k (drop 8 challenge))"
    using des_first [of ?k "take 8 challenge" "replicate 8 0" ks] des_first [of ?k "drop 8 challenge" "replicate 8 0" ks] ks assms(1) by simp_all
  have "auth_Handshake (PasswordAuth p) c = write_conn (auth_encrypt p challenge) (c\<lparr>inb := rest\<rparr>)"
    unfolding auth_Handshake_def by (simp add: read_full_append [OF assms(2,1)])
  then have "auth_Handshake (PasswordAuth p) c = (Done (), c\<lparr>inb := rest, outb := outb c @ des_block ?k (take 8 challenge) @ des_block ?k (drop 8 challenge)\<rparr>)"
    using assms(3) by (simp add: write_last auth_answer [OF assms(1)])
  then show ?thesis using ks d by blast
qed

theorem rfb_password_witness:
  "\<exists>ks a b c'. deskey (clipped (to_bytes ''secret'')) EN0 = Ret ks
    \<and> des ks (replicate 8 1) (replicate 8 0) = Ret a \<and> des ks (replicate 8 2) (replicate 8 0) = Ret b
    \<and> auth_Handshake (PasswordAuth ''secret'') (new_client (replicate 8 1 @ replicate 8 2) []) = (Done (), c') \<and> outb c' = a @ b"
  using rfb_password [of "replicate 8 1 @ replicate 8 2" "new_client (replicate 8 1 @ replicate 8 2) []" "[]" "''secret''"]
  by (fastforce simp: new_client_def)

end
