(* ===== verification/Go_Time.thy ===== *)
theory Go_Time
  imports Go_Prelude
begin

section \<open>Calendar\<close>

text \<open>
  What the packages use of \<^verbatim>\<open>time\<close>. An instant is the number of nanoseconds since the first day of the year 0 in
  the proleptic Gregorian calendar; the local zone is a fixed offset to it, in nanoseconds. Days are counted from that day too.
  \<open>time_Date\<close> normalises its arguments as the library does, since it is linear in all of them but the year and
  the month. The limits of the library's 64 bit seconds are far outside of the years used.
\<close>

type_synonym instant = int

abbreviation Second :: int where
  "Second \<equiv> 1000000000"

abbreviation Minute :: int where
  "Minute \<equiv> 60000000000"

abbreviation Hour :: int where
  "Hour \<equiv> 3600000000000"

abbreviation Day_ns :: int where
  "Day_ns \<equiv> 86400000000000"

definition leap :: "int \<Rightarrow> int" where
  "leap y = (if y mod 4 = 0 \<and> (y mod 100 \<noteq> 0 \<or> y mod 400 = 0) then 1 else 0)"

definition year_start :: "int \<Rightarrow> int" where
  "year_start y = 365 * y + (y + 3) div 4 - (y + 99) div 100 + (y + 399) div 400"

definition month_start :: "int \<Rightarrow> int \<Rightarrow> int" where
  "month_start y m =
     (if m = 1 then 0 else if m = 2 then 31
      else leap y + (if m = 3 then 59 else if m = 4 then 90 else if m = 5 then 120 else if m = 6 then 151
        else if m = 7 then 181 else if m = 8 then 212 else if m = 9 then 243 else if m = 10 then 273
        else if m = 11 then 304 else 334))"

definition month_length :: "int \<Rightarrow> int \<Rightarrow> int" where
  "month_length y m = (if m = 2 then 28 + leap y else if m = 4 \<or> m = 6 \<or> m = 9 \<or> m = 11 then 30 else 31)"

definition month_of :: "int \<Rightarrow> int \<Rightarrow> int" where
  "month_of y k =
     (if k < 31 then 1
      else let j = k - leap y in
        if j < 59 then 2 else if j < 90 then 3 else if j < 120 then 4 else if j < 151 then 5
        else if j < 181 then 6 else if j < 212 then 7 else if j < 243 then 8 else if j < 273 then 9
        else if j < 304 then 10 else if j < 334 then 11 else 12)"

definition year_of :: "int \<Rightarrow> int" where
  "year_of n = (let y = 400 * n div 146097 in if n < year_start y then y - 1 else if year_start (y + 1) \<le> n then y + 1 else y)"

text \<open>The date of a day, and the day of a date whose month and day may lie outside of the year and the month.\<close>

definition civil :: "int \<Rightarrow> int \<times> int \<times> int" where
  "civil n = (let y = year_of n; k = n - year_start y; m = month_of y k in (y, m, k - month_start y m + 1))"

definition day_number :: "int \<Rightarrow> int \<Rightarrow> int \<Rightarrow> int" where
  "day_number y m d = (let y' = y + (m - 1) div 12; m' = (m - 1) mod 12 + 1 in year_start y' + month_start y' m' + d - 1)"

definition weekday :: "int \<Rightarrow> int" where
  "weekday n = (n + 6) mod 7"

definition local_day :: "int \<Rightarrow> instant \<Rightarrow> int" where
  "local_day zone t = (t + zone) div Day_ns"

definition clock_ns :: "int \<Rightarrow> instant \<Rightarrow> int" where
  "clock_ns zone t = (t + zone) mod Day_ns"

definition time_Date :: "int \<Rightarrow> int \<Rightarrow> int \<Rightarrow> int \<Rightarrow> int \<Rightarrow> int \<Rightarrow> int \<Rightarrow> int \<Rightarrow> instant" where
  "time_Date zone y m d hh mm ss ns = day_number y m d * Day_ns + hh * Hour + mm * Minute + ss * Second + ns - zone"

subsection \<open>Laws\<close>

lemma div_up:
  fixes y c :: int
  assumes "0 < c"
  shows "(y + c) div c = (y + (c - 1)) div c + (if y mod c = 0 then 1 else 0)" "y \<le> c * ((y + (c - 1)) div c)" "c * ((y + (c - 1)) div c) \<le> y + (c - 1)"
proof -
  define q r where "q = y div c" "r = y mod c"
  have y: "y = c * q + r" "0 \<le> r" "r < c" using assms by (simp_all add: q_r_def)
  have d: "(y + (c - 1)) div c = q + (if r = 0 then 0 else 1)"
  proof (cases "r = 0")
    case True
    then have "y + (c - 1) = (c - 1) + q * c" using y by simp
    then show ?thesis using True assms by (simp add: div_pos_pos_trivial)
  next
    case False
    then have "y + (c - 1) = (r - 1) + (q + 1) * c" using y by (simp add: algebra_simps)
    moreover have "(r - 1) div c = 0" using y False by (simp add: div_pos_pos_trivial)
    moreover have "((r - 1) + (q + 1) * c) div c = (q + 1) + (r - 1) div c" using assms by (intro div_mult_self1) simp
    ultimately have "(y + (c - 1)) div c = q + 1" by (simp only: add_0_right)
    then show ?thesis using False by simp
  qed
  have "(y + c) div c = q + 1" using assms by (simp add: q_r_def div_add_self2)
  then show "(y + c) div c = (y + (c - 1)) div c + (if y mod c = 0 then 1 else 0)" using d by (simp add: q_r_def)
  show "y \<le> c * ((y + (c - 1)) div c)" "c * ((y + (c - 1)) div c) \<le> y + (c - 1)"
    using d y by (simp_all add: algebra_simps)
qed

lemmas div_up_4 = div_up [of 4, simplified] and div_up_100 = div_up [of 100, simplified] and div_up_400 = div_up [of 400, simplified]

lemma year_length: "year_start (y + 1) = year_start y + 365 + leap y"
proof -
  have m: "y mod 4 = 0" if "y mod 100 = 0" using that by presburger
  have "(400 :: int) = 100 * 4" by simp
  then have "y mod 100 = 0" if "y mod 400 = 0" using that by (metis dvd_mult_left mod_0_imp_dvd mod_eq_0_iff_dvd)
  note m400 = this
  have *: "((if A then 1 else 0) - (if B then 1 else 0) + (if C then 1 else 0) :: int) = (if A \<and> (\<not> B \<or> C) then 1 else 0)"
    if "B \<Longrightarrow> A" "C \<Longrightarrow> B" for A B C using that by auto
  have s: "y + 1 + 3 = y + 4" "y + 1 + 99 = y + 100" "y + 1 + 399 = y + 400" by simp_all
  have "year_start (y + 1) = year_start y + 365 + ((if y mod 4 = 0 then 1 else 0) - (if y mod 100 = 0 then 1 else 0) + (if y mod 400 = 0 then 1 else 0))"
    unfolding year_start_def s div_up_4(1) div_up_100(1) div_up_400(1) by (simp only: ring_distribs mult_1_right diff_conv_add_uminus minus_add_distrib ac_simps)
  also have "((if y mod 4 = 0 then 1 else 0) - (if y mod 100 = 0 then 1 else 0) + (if y mod 400 = 0 then 1 else 0)) = leap y"
    unfolding leap_def by (rule *) (fact m, fact m400)
  finally show ?thesis .
qed

lemma leap_cases: "leap y = 0 \<or> leap y = 1"
  by (simp add: leap_def)

lemma year_start_bounds: "146097 * y - 396 \<le> 400 * year_start y" "400 * year_start y \<le> 146097 * y + 699"
proof -
  define a b c where abc: "a = (y + 3) div 4" "b = (y + 99) div 100" "c = (y + 399) div 400"
  have h: "y \<le> 4 * a" "4 * a \<le> y + 3" "y \<le> 100 * b" "100 * b \<le> y + 99" "y \<le> 400 * c" "400 * c \<le> y + 399"
    unfolding abc by (rule div_up_4(2,3) div_up_100(2,3) div_up_400(2,3))+
  have "100 * y \<le> 400 * a" "400 * b \<le> 4 * y + 396" using h(1,4) by simp_all
  then show "146097 * y - 396 \<le> 400 * year_start y" using h(5) unfolding year_start_def abc [symmetric] ring_distribs by linarith
  have "400 * a \<le> 100 * y + 300" "4 * y \<le> 400 * b" using h(2,3) by simp_all
  then show "400 * year_start y \<le> 146097 * y + 699" using h(6) unfolding year_start_def abc [symmetric] ring_distribs by linarith
qed

lemma year_of_range: "year_start (year_of n) \<le> n \<and> n < year_start (year_of n + 1)"
proof -
  define y where "y = 400 * n div 146097"
  have y: "146097 * y \<le> 400 * n" "400 * n < 146097 * (y + 1)" 
    using mult_div_mod_eq [of 146097 "400 * n"] pos_mod_bound [of 146097 "400 * n"] pos_mod_sign [of 146097 "400 * n"] unfolding y_def [symmetric] by (simp_all add: algebra_simps)
  have "year_start (y - 1) \<le> n" using year_start_bounds(2) [of "y - 1"] y by (simp add: algebra_simps)
  moreover have "n < year_start (y + 2)" using year_start_bounds(1) [of "y + 2"] y by (simp add: algebra_simps)
  ultimately show ?thesis by (auto simp: year_of_def Let_def y_def [symmetric] add.commute)
qed

lemma year_start_mono: "a \<le> b \<Longrightarrow> year_start a \<le> year_start b"
proof (induction "nat (b - a)" arbitrary: b)
  case (Suc k)
  then have "year_start a \<le> year_start (b - 1)" by simp
  then show ?case using year_length [of "b - 1"] leap_cases [of "b - 1"] by auto
qed simp

lemma year_of_unique: "year_start y \<le> n \<Longrightarrow> n < year_start (y + 1) \<Longrightarrow> year_of n = y"
proof (rule ccontr)
  assume n: "year_start y \<le> n" "n < year_start (y + 1)" "year_of n \<noteq> y"
  then consider "year_of n + 1 \<le> y" | "y + 1 \<le> year_of n" by linarith
  then show False
  proof cases
    case 1
    then show False using year_start_mono [OF 1] year_of_range [of n] n by linarith
  next
    case 2
    then show False using year_start_mono [OF 2] year_of_range [of n] n by linarith
  qed
qed

lemma month_of_range:
  assumes "0 \<le> k" "k < 365 + leap y"
  shows "1 \<le> month_of y k \<and> month_of y k \<le> 12 \<and> month_start y (month_of y k) \<le> k
    \<and> k < month_start y (month_of y k) + month_length y (month_of y k)"
  using assms leap_cases [of y] by (auto simp: month_of_def month_start_def month_length_def Let_def)

lemma month_cases: "1 \<le> m \<Longrightarrow> m \<le> 12 \<Longrightarrow> (m :: int) = 1 \<or> m = 2 \<or> m = 3 \<or> m = 4 \<or> m = 5 \<or> m = 6 \<or> m = 7 \<or> m = 8 \<or> m = 9 \<or> m = 10 \<or> m = 11 \<or> m = 12"
  by arith

lemma month_of_start:
  assumes "1 \<le> m" "m \<le> 12" "1 \<le> d" "d \<le> month_length y m"
  shows "month_of y (month_start y m + d - 1) = m" "0 \<le> month_start y m + d - 1" "month_start y m + d - 1 < 365 + leap y"
proof -
  have "month_of y (month_start y m + d - 1) = m \<and> 0 \<le> month_start y m + d - 1 \<and> month_start y m + d - 1 < 365 + leap y"
    using month_cases [OF assms(1,2)] assms(3,4) leap_cases [of y]
    by (elim disjE) (simp_all add: month_of_def month_start_def month_length_def Let_def)
  then show "month_of y (month_start y m + d - 1) = m" "0 \<le> month_start y m + d - 1" "month_start y m + d - 1 < 365 + leap y" by blast+
qed

text \<open>Both directions of the correspondence between days and dates.\<close>

lemma day_number_plain: "1 \<le> m \<Longrightarrow> m \<le> 12 \<Longrightarrow> day_number y m d = year_start y + month_start y m + d - 1"
  by (simp add: day_number_def Let_def mod_pos_pos_trivial div_pos_pos_trivial)

lemma civil_day: "civil n = (y, m, d) \<Longrightarrow> day_number y m d = n \<and> 1 \<le> m \<and> m \<le> 12 \<and> 1 \<le> d \<and> d \<le> month_length y m"
proof -
  assume "civil n = (y, m, d)"
  then have c: "y = year_of n" "m = month_of y (n - year_start y)" "d = n - year_start y - month_start y m + 1" by (auto simp: civil_def Let_def)
  have "0 \<le> n - year_start y" "n - year_start y < 365 + leap y" using year_of_range [of n] year_length [of y] c(1) by auto
  then have "1 \<le> m \<and> m \<le> 12 \<and> month_start y m \<le> n - year_start y \<and> n - year_start y < month_start y m + month_length y m"
    unfolding c(2) by (rule month_of_range)
  then show ?thesis using c(3) by (simp add: day_number_plain)
qed

lemma day_civil:
  assumes "1 \<le> m" "m \<le> 12" "1 \<le> d" "d \<le> month_length y m"
  shows "civil (day_number y m d) = (y, m, d)"
proof -
  let ?n = "day_number y m d"
  have n: "?n = year_start y + month_start y m + d - 1" using assms by (simp add: day_number_plain)
  have "year_of ?n = y" using month_of_start(2,3) [OF assms] n year_length [of y] by (intro year_of_unique) auto
  moreover have "?n - year_start y = month_start y m + d - 1" using n by simp
  ultimately show ?thesis using month_of_start(1) [OF assms] by (simp add: civil_def Let_def)
qed

lemma day_number_shift: "day_number y m (d + k) = day_number y m d + k"
  by (simp add: day_number_def Let_def)

lemma weekday_shift: "weekday (n + k) = (weekday n + k) mod 7"
  by (simp add: weekday_def mod_simps algebra_simps)

lemma weekday_range: "0 \<le> weekday n" "weekday n < 7"
  by (simp_all add: weekday_def)

lemma month_next:
  assumes "1 \<le> m" "m \<le> 12"
  shows "day_number y (m + 1) 1 = day_number y m 1 + month_length y m"
proof (cases "m = 12")
  case True
  then show ?thesis using year_length [of y] by (simp add: day_number_def Let_def month_start_def month_length_def)
next
  case False
  then show ?thesis
    using assms month_cases [OF assms] leap_cases [of y] by (auto simp: day_number_plain month_start_def month_length_def)
qed

lemma month_length_range: "28 \<le> month_length y m" "month_length y m \<le> 31"
  using leap_cases [of y] by (auto simp: month_length_def)

text \<open>Instants by their day and the time of the day.\<close>

lemma instant_split: "t = local_day zone t * Day_ns + clock_ns zone t - zone"
  by (simp add: local_day_def clock_ns_def mult.commute)

lemma clock_range: "0 \<le> clock_ns zone t" "clock_ns zone t < Day_ns"
  by (simp_all add: clock_ns_def)

lemma local_day_at: "0 \<le> c \<Longrightarrow> c < Day_ns \<Longrightarrow> local_day zone (n * Day_ns + c - zone) = n"
  "0 \<le> c \<Longrightarrow> c < Day_ns \<Longrightarrow> clock_ns zone (n * Day_ns + c - zone) = c"
  by (simp_all add: local_day_def clock_ns_def)

section \<open>Time stamps\<close>

text \<open>
  \<^verbatim>\<open>Format\<close> and \<^verbatim>\<open>Parse\<close> of \<^verbatim>\<open>time\<close> for the layout \<^verbatim>\<open>2006_01_02T15_04_05.000Z0700\<close> of the log files: year, month, day, hour,
  minute, second and milliseconds, then \<^verbatim>\<open>Z\<close> or the offset of the zone in hours and minutes. Reading takes the hour with
  one or two digits and a comma for the period, and checks the ranges, as the library does.
\<close>

definition pad_digits :: "nat \<Rightarrow> nat \<Rightarrow> string" where
  "pad_digits k n = map (\<lambda>i. char_of (48 + n div 10 ^ i mod 10)) (rev [0..<k])"

definition zone_text :: "int \<Rightarrow> string" where
  "zone_text zone =
     (let mins = zone div Minute
      in if zone = 0 then ''Z''
         else (if mins < 0 then ''-'' else ''+'') @ pad_digits 2 (nat (\<bar>mins\<bar> div 60)) @ pad_digits 2 (nat (\<bar>mins\<bar> mod 60)))"

definition time_Format :: "int \<Rightarrow> instant \<Rightarrow> string" where
  "time_Format zone t =
     (case civil (local_day zone t) of (y, m, d) \<Rightarrow>
        let c = clock_ns zone t
        in pad_digits 4 (nat y) @ ''_'' @ pad_digits 2 (nat m) @ ''_'' @ pad_digits 2 (nat d) @ ''T''
           @ pad_digits 2 (nat (c div Hour)) @ ''_'' @ pad_digits 2 (nat (c div Minute mod 60)) @ ''_''
           @ pad_digits 2 (nat (c div Second mod 60)) @ ''.'' @ pad_digits 3 (nat (c div 1000000 mod 1000)) @ zone_text zone)"

definition is_digit :: "char \<Rightarrow> bool" where
  "is_digit c \<longleftrightarrow> in_range 48 57 c"

definition digits_number :: "string \<Rightarrow> nat" where
  "digits_number ds = foldl (\<lambda>n c. 10 * n + (byte c - 48)) 0 ds"

definition take_digits :: "nat \<Rightarrow> string \<Rightarrow> (nat \<times> string) option" where
  "take_digits k s = (if length s < k \<or> \<not> list_all is_digit (take k s) then None else Some (digits_number (take k s), drop k s))"

definition getnum :: "bool \<Rightarrow> string \<Rightarrow> (nat \<times> string) option" where
  "getnum fixed s =
     (case s of
        [] \<Rightarrow> None
      | a # r \<Rightarrow>
          if \<not> is_digit a then None
          else case r of
                 b # r' \<Rightarrow> if is_digit b then Some (digits_number [a, b], r') else if fixed then None else Some (digits_number [a], r)
               | [] \<Rightarrow> if fixed then None else Some (digits_number [a], []))"

definition take_char :: "char \<Rightarrow> string \<Rightarrow> string option" where
  "take_char c s = (case s of a # r \<Rightarrow> if a = c then Some r else None | [] \<Rightarrow> None)"

definition parse_zone :: "string \<Rightarrow> (int \<times> string) option" where
  "parse_zone s =
     (case s of
        [] \<Rightarrow> None
      | c # r \<Rightarrow>
          if c = CHR ''Z'' then Some (0, r)
          else case take_digits 2 r of
                 None \<Rightarrow> None
               | Some (hr, r1) \<Rightarrow>
                   (case take_digits 2 r1 of
                      None \<Rightarrow> None
                    | Some (mm, r2) \<Rightarrow>
                        if hr > 24 \<or> mm > 60 then None
                        else if c = CHR ''+'' then Some ((int hr * 60 + int mm) * Minute, r2)
                        else if c = CHR ''-'' then Some (- ((int hr * 60 + int mm) * Minute), r2)
                        else None))"

definition time_Parse :: "string \<Rightarrow> instant option" where
  "time_Parse s =
     Option.bind (take_digits 4 s) (\<lambda>(y, s). Option.bind (take_char CHR ''_'' s) (\<lambda>s.
     Option.bind (getnum True s) (\<lambda>(m, s). Option.bind (take_char CHR ''_'' s) (\<lambda>s.
     Option.bind (getnum True s) (\<lambda>(d, s). Option.bind (take_char CHR ''T'' s) (\<lambda>s.
     Option.bind (getnum False s) (\<lambda>(hh, s). Option.bind (take_char CHR ''_'' s) (\<lambda>s.
     Option.bind (getnum True s) (\<lambda>(mm, s). Option.bind (take_char CHR ''_'' s) (\<lambda>s.
     Option.bind (getnum True s) (\<lambda>(ss, s).
     case s of
       [] \<Rightarrow> None
     | p # s \<Rightarrow>
         if p \<noteq> CHR ''.'' \<and> p \<noteq> CHR '','' then None
         else Option.bind (take_digits 3 s) (\<lambda>(ms, s). Option.bind (parse_zone s) (\<lambda>(zone, s).
           if s \<noteq> [] \<or> m < 1 \<or> m > 12 \<or> hh > 23 \<or> mm > 59 \<or> ss > 59 \<or> d < 1 \<or> int d > month_length (int y) (int m) then None
           else Some (time_Date zone (int y) (int m) (int d) (int hh) (int mm) (int ss) (int ms * 1000000)))))))))))))))"

subsection \<open>Round trip\<close>

lemma digit_of: "n < 10 \<Longrightarrow> is_digit (char_of (48 + n)) \<and> byte (char_of (48 + n)) = 48 + n"
  by (simp add: is_digit_def in_range_def of_char_of)

lemma pad_digits_Suc: "pad_digits (Suc k) n = char_of (48 + n div 10 ^ k mod 10) # pad_digits k n"
  by (simp add: pad_digits_def)

lemma pad_digits_props: "length (pad_digits k n) = k" "list_all is_digit (pad_digits k n)"
  by (auto simp: pad_digits_def list_all_iff digit_of)

lemma digits_pad: "foldl (\<lambda>n c. 10 * n + (byte c - 48)) a (pad_digits k n) = a * 10 ^ k + n mod 10 ^ k"
proof (induction k arbitrary: a)
  case (Suc k)
  have "n mod 10 ^ Suc k = 10 ^ k * (n div 10 ^ k mod 10) + n mod 10 ^ k" using mod_mult2_eq [of n "10 ^ k" 10] by (simp add: mult.commute)
  then show ?case using Suc.IH [of "10 * a + n div 10 ^ k mod 10"] digit_of [of "n div 10 ^ k mod 10"]
    by (simp add: pad_digits_Suc algebra_simps)
qed (simp add: pad_digits_def)

lemma digits_number_pad: "n < 10 ^ k \<Longrightarrow> digits_number (pad_digits k n) = n"
  using digits_pad [of 0 k n] by (simp add: digits_number_def)

lemma take_digits_pad: "n < 10 ^ k \<Longrightarrow> take_digits k (pad_digits k n @ rest) = Some (n, rest)"
  by (simp add: take_digits_def pad_digits_props digits_number_pad)

lemma getnum_pad: "n < 100 \<Longrightarrow> getnum fixed (pad_digits 2 n @ rest) = Some (n, rest)"
  using digit_of [of "n div 10"] digit_of [of "n mod 10"]
  by (simp add: numeral_2_eq_2 pad_digits_def getnum_def digits_number_def)

lemma parse_zone_text:
  assumes "zone mod Minute = 0" "\<bar>zone\<bar> \<le> 24 * Hour"
  shows "parse_zone (zone_text zone @ rest) = Some (zone, rest)"
proof (cases "zone = 0")
  case True
  then show ?thesis by (simp add: zone_text_def Let_def parse_zone_def)
next
  case False
  define mins where "mins = zone div Minute"
  have z: "zone = mins * Minute" using div_mult_mod_eq [of zone Minute] assms(1) unfolding mins_def by linarith
  then have m: "\<bar>mins\<bar> \<le> 1440" "mins \<noteq> 0" using assms(2) False by auto
  define hr mm where "hr = nat (\<bar>mins\<bar> div 60)" "mm = nat (\<bar>mins\<bar> mod 60)"
  have h: "hr \<le> 24" "mm < 60" "\<bar>mins\<bar> = int hr * 60 + int mm" using m(1) by (auto simp: hr_mm_def)
  have t: "zone_text zone = (if mins < 0 then ''-'' else ''+'') @ pad_digits 2 hr @ pad_digits 2 mm"
    using False by (simp add: zone_text_def Let_def mins_def hr_mm_def)
  have "take_digits 2 (pad_digits 2 hr @ pad_digits 2 mm @ rest) = Some (hr, pad_digits 2 mm @ rest)" "take_digits 2 (pad_digits 2 mm @ rest) = Some (mm, rest)"
    using take_digits_pad [of hr 2] take_digits_pad [of mm 2] h by simp_all
  then show ?thesis using h z m(2) unfolding t parse_zone_def by (auto simp: abs_if split: if_splits)
qed

text \<open>Reading a stamp gives the instant back up to its millisecond, in the years that are written with four digits.\<close>

lemma Parse_Format:
  assumes "zone mod Minute = 0" "\<bar>zone\<bar> \<le> 24 * Hour" "civil (local_day zone t) = (y, m, d)" "0 \<le> y" "y < 10000"
  shows "time_Parse (time_Format zone t) = Some (t - (t + zone) mod 1000000)"
proof -
  define c where "c = clock_ns zone t"
  have c: "0 \<le> c" "c < Day_ns" using clock_range [of zone t] by (simp_all add: c_def)
  have dm: "1 \<le> m" "m \<le> 12" "1 \<le> d" "d \<le> month_length y m" "d \<le> 31" "day_number y m d = local_day zone t"
    using civil_day [OF assms(3)] month_length_range(2) [of y m] by auto
  define hh mi ss ms where hs: "hh = nat (c div Hour)" "mi = nat (c div Minute mod 60)" "ss = nat (c div Second mod 60)" "ms = nat (c div 1000000 mod 1000)"
  have r: "hh < 24" "mi < 60" "ss < 60" "ms < 1000" using c by (auto simp: hs nat_less_iff)
  have v: "int hh * Hour + int mi * Minute + int ss * Second + int ms * 1000000 = c - c mod 1000000"
  proof -
    have e: "c mod 1000000 = c - 1000000 * (c div 1000000)" by (simp add: minus_mult_div_eq_mod [symmetric])
    define q where "q = c div 1000000"
    have q: "c div Second = q div 1000" "c div Minute = q div 1000 div 60" "c div Hour = q div 1000 div 60 div 60"
      by (simp_all add: q_def zdiv_zmult2_eq [symmetric])
    have "q = 1000 * (q div 1000) + q mod 1000" "q div 1000 = 60 * (q div 1000 div 60) + q div 1000 mod 60"
      "q div 1000 div 60 = 60 * (q div 1000 div 60 div 60) + q div 1000 div 60 mod 60" by simp_all
    moreover have "0 \<le> q" "0 \<le> q div 1000" "0 \<le> q div 1000 div 60" "0 \<le> q div 1000 div 60 div 60" using c by (simp_all add: q_def pos_imp_zdiv_nonneg_iff)
    moreover have "int (nat (q mod 1000)) = q mod 1000" "int (nat (q div 1000 mod 60)) = q div 1000 mod 60" "int (nat (q div 1000 div 60 mod 60)) = q div 1000 div 60 mod 60"
      "int (nat (q div 1000 div 60 div 60)) = q div 1000 div 60 div 60" using calculation by simp_all
    moreover have "c - (c - 1000000 * q) = 1000000 * q" by simp
    ultimately show ?thesis unfolding e hs q q_def [symmetric] by linarith
  qed
  have mod: "c mod 1000000 = (t + zone) mod 1000000" by (simp add: c_def clock_ns_def mod_mod_cancel)
  have f: "time_Format zone t = pad_digits 4 (nat y) @ ''_'' @ pad_digits 2 (nat m) @ ''_'' @ pad_digits 2 (nat d) @ ''T''
     @ pad_digits 2 hh @ ''_'' @ pad_digits 2 mi @ ''_'' @ pad_digits 2 ss @ ''.'' @ pad_digits 3 ms @ zone_text zone"
    by (simp add: time_Format_def assms(3) Let_def hs c_def)
  have n: "nat y < 10 ^ 4" "nat m < 100" "nat d < 100" "ms < 10 ^ 3" using assms(4,5) dm r by auto
  have p: "getnum True (pad_digits 2 hh @ x) = Some (hh, x)" "getnum True (pad_digits 2 mi @ x) = Some (mi, x)" "getnum True (pad_digits 2 ss @ x) = Some (ss, x)"
    "getnum False (pad_digits 2 hh @ x) = Some (hh, x)" for x
    using getnum_pad r by simp_all
  have "time_Parse (time_Format zone t) = Some (time_Date zone y m d (int hh) (int mi) (int ss) (int ms * 1000000))"
    using r dm n parse_zone_text [OF assms(1,2), of "[]"] assms(4)
    by (simp add: time_Parse_def f take_digits_pad getnum_pad p take_char_def)
  also have "time_Date zone y m d (int hh) (int mi) (int ss) (int ms * 1000000) = t - (t + zone) mod 1000000"
  proof -
    have "time_Date zone y m d (int hh) (int mi) (int ss) (int ms * 1000000)
        = local_day zone t * Day_ns + (int hh * Hour + int mi * Minute + int ss * Second + int ms * 1000000) - zone"
      by (simp add: time_Date_def dm(6))
    then show ?thesis using v mod instant_split [of t zone] by (simp add: c_def [symmetric])
  qed
  finally show ?thesis .
qed

end
