(* ===== verification/Sched.thy ===== *)
theory Sched
  imports Go_Time Go_Prelude Outcome
begin

section \<open>Package sched: jobs\<close>

text \<open>
  \<^verbatim>\<open>sched/sched.go\<close>. A schedule is one of the four structures that implement the interface; a job owns its schedule, so
  it is a value of the job. \<^verbatim>\<open>time.Now\<close> is an argument; the two functions of \<^verbatim>\<open>gotimeutils\<close> that give
  the last day of this and of the next month are parameters. Channels are the lists of what is in
  them, \<open>None\<close> for a nil channel.
\<close>

datatype sched_error = BadChaining | BadTime | RecurrentZero | NotRecurrent | TooManyArguments | MissingFunction | AlreadyStart | NeedSetFunc

record daily =
  dhour :: int
  dmin :: int
  dsec :: int

datatype schedule = Recurrent int int bool | Daily daily | Weekly int daily | Monthly int daily

definition EndOfMonth :: int where
  "EndOfMonth = 0"

record month_ends =
  EndOfMonth_Day :: "instant \<Rightarrow> int"
  EndOfNextMonth_Day :: "instant \<Rightarrow> int"

subsection \<open>The next run\<close>

definition int64 :: "int \<Rightarrow> int" where
  "int64 x = (x + 2 ^ 63) mod 2 ^ 64 - 2 ^ 63"

definition recurrent_next :: "int \<Rightarrow> int \<Rightarrow> bool \<Rightarrow> (sched_error + int) \<times> bool" where
  "recurrent_next u p d =
     (if u = 0 \<or> p = 0 then (Inl RecurrentZero, d)
      else if \<not> d then (Inr 0, True)
      else (Inr (int64 (u * p)), d))"

definition setTime :: "int \<Rightarrow> int \<Rightarrow> int \<Rightarrow> daily \<Rightarrow> daily" where
  "setTime h m s d = d\<lparr>dhour := h, dmin := m, dsec := s\<rparr>"

definition at_clock :: "int \<Rightarrow> instant \<Rightarrow> int \<Rightarrow> daily \<Rightarrow> instant" where
  "at_clock zone now n d = (case civil (local_day zone now) of (y, m, day) \<Rightarrow> time_Date zone y m (day + n) (dhour d) (dmin d) (dsec d) 0)"

definition daily_nextRunAt :: "int \<Rightarrow> instant \<Rightarrow> daily \<Rightarrow> instant" where
  "daily_nextRunAt zone now d = (let date = at_clock zone now 0 d in if now < date then date else at_clock zone now 1 d)"

definition weekly_nextRunAt :: "int \<Rightarrow> instant \<Rightarrow> int \<Rightarrow> daily \<Rightarrow> instant" where
  "weekly_nextRunAt zone now day d =
     (let n = day - weekday (local_day zone now);
          numDays = (if n = 0 then (if now > at_clock zone now 0 d then 7 else 0) else if n < 0 then n + 7 else n)
      in at_clock zone now numDays d)"

definition monthly_nextRunAt :: "int \<Rightarrow> month_ends \<Rightarrow> instant \<Rightarrow> int \<Rightarrow> daily \<Rightarrow> instant" where
  "monthly_nextRunAt zone ends now mday d =
     (case civil (local_day zone now) of (y, m, day) \<Rightarrow>
        let numDayOfThisMonth = EndOfMonth_Day ends now;
            numDays =
              (if mday = EndOfMonth
               then if day = numDayOfThisMonth
                    then (if now > at_clock zone now 0 d then EndOfNextMonth_Day ends now else 0)
                    else numDayOfThisMonth - day
               else let deltalDays = mday - day
                    in if deltalDays = 0
                       then (if now > at_clock zone now 0 d then numDayOfThisMonth - day + mday else 0)
                       else if deltalDays < 0 then numDayOfThisMonth - day + mday
                       else 0)
        in at_clock zone now numDays d)"

text \<open>\<^verbatim>\<open>time.Until\<close> reads the clock again, at \<open>later\<close>.\<close>

definition nextDurationWaitToRun :: "int \<Rightarrow> month_ends \<Rightarrow> instant \<Rightarrow> instant \<Rightarrow> schedule \<Rightarrow> (sched_error + int) \<times> schedule" where
  "nextDurationWaitToRun zone ends now later s =
     (case s of
        Recurrent u p d \<Rightarrow> (case recurrent_next u p d of (r, d') \<Rightarrow> (r, Recurrent u p d'))
      | Daily d \<Rightarrow> (Inr (daily_nextRunAt zone now d - later), s)
      | Weekly w d \<Rightarrow> (Inr (weekly_nextRunAt zone now w d - later), s)
      | Monthly m d \<Rightarrow> (Inr (monthly_nextRunAt zone ends now m d - later), s))"

subsection \<open>Times of the day\<close>

text \<open>\<^verbatim>\<open>strings.Split\<close> at a byte and \<^verbatim>\<open>strconv.Atoi\<close>.\<close>

fun split_byte :: "char \<Rightarrow> string \<Rightarrow> string list" where
  "split_byte c [] = [[]]"
| "split_byte c (x # xs) = (if x = c then [] # split_byte c xs else (case split_byte c xs of [] \<Rightarrow> [[x]] | w # ws \<Rightarrow> (x # w) # ws))"

definition digit :: "char \<Rightarrow> bool" where
  "digit c \<longleftrightarrow> in_range 48 57 c"

definition decimal_value :: "string \<Rightarrow> int" where
  "decimal_value ds = foldl (\<lambda>n c. 10 * n + (int (byte c) - 48)) 0 ds"

definition strconv_Atoi :: "string \<Rightarrow> int option" where
  "strconv_Atoi s =
     (let (neg, ds) = (case s of c # cs \<Rightarrow> if c = CHR ''-'' then (True, cs) else if c = CHR ''+'' then (False, cs) else (False, s) | [] \<Rightarrow> (False, []));
          v = (if neg then - decimal_value ds else decimal_value ds)
      in if ds = [] \<or> \<not> list_all digit ds \<or> v < - (2 ^ 63) \<or> v \<ge> 2 ^ 63 then None else Some v)"

definition parseTime :: "string \<Rightarrow> sched_error + int \<times> int \<times> int" where
  "parseTime str =
     (let (hourStr, minStr, secStr) =
        (case split_byte CHR '':'' str of
           [h] \<Rightarrow> (h, ''0'', ''0'') | [h, m] \<Rightarrow> (h, m, ''0'') | [h, m, s] \<Rightarrow> (h, m, s) | _ \<Rightarrow> ([], [], []))
      in case strconv_Atoi hourStr of None \<Rightarrow> Inl BadTime | Some hour \<Rightarrow>
         (case strconv_Atoi minStr of None \<Rightarrow> Inl BadTime | Some mn \<Rightarrow>
         (case strconv_Atoi secStr of None \<Rightarrow> Inl BadTime | Some sec \<Rightarrow>
            if hour > 23 \<or> mn > 59 \<or> sec > 59 then Inl BadTime else Inr (hour, mn, sec))))"

subsection \<open>Building jobs\<close>

record Job =
  fn :: "nat option"
  Quit :: "bool list option"
  skipWait :: "bool list option"
  err :: "sched_error option"
  sched_of :: "schedule option"
  isRunning :: bool
  isStart :: bool

definition new_job :: "schedule option \<Rightarrow> Job" where
  "new_job s = \<lparr>fn = None, Quit = None, skipWait = None, err = None, sched_of = s, isRunning = False, isStart = False\<rparr>"

definition midnight :: daily where
  "midnight = \<lparr>dhour = 0, dmin = 0, dsec = 0\<rparr>"

definition Every :: "int list \<Rightarrow> Job" where
  "Every ts = (case ts of [] \<Rightarrow> new_job None | t # _ \<Rightarrow> new_job (Some (Recurrent t 0 False)))"

definition MDay :: "int \<Rightarrow> Job \<Rightarrow> Job" where
  "MDay d j =
     (case sched_of j of
        None \<Rightarrow> j\<lparr>sched_of := Some (Monthly d midnight)\<rparr>
      | Some (Monthly _ t) \<Rightarrow> j\<lparr>sched_of := Some (Monthly d t)\<rparr>
      | Some _ \<Rightarrow> j\<lparr>err := Some BadChaining\<rparr>)"

definition RNotImmediately :: "Job \<Rightarrow> Job" where
  "RNotImmediately j =
     (case sched_of j of Some (Recurrent u p _) \<Rightarrow> j\<lparr>sched_of := Some (Recurrent u p True)\<rparr> | _ \<Rightarrow> j\<lparr>err := Some BadChaining\<rparr>)"

definition At :: "string \<Rightarrow> Job \<Rightarrow> Job" where
  "At hourTime j =
     (if err j \<noteq> None then j
      else case parseTime hourTime of
        Inl e \<Rightarrow> j\<lparr>err := Some e\<rparr>
      | Inr (h, m, s) \<Rightarrow>
          (case sched_of j of
             Some (Daily d) \<Rightarrow> j\<lparr>sched_of := Some (Daily (setTime h m s d))\<rparr>
           | Some (Weekly w d) \<Rightarrow> j\<lparr>sched_of := Some (Weekly w (setTime h m s d))\<rparr>
           | Some (Monthly n d) \<Rightarrow> j\<lparr>sched_of := Some (Monthly n (setTime h m s d))\<rparr>
           | _ \<Rightarrow> j\<lparr>err := Some BadChaining\<rparr>))"

definition Job_Every :: "int list \<Rightarrow> Job \<Rightarrow> (sched_error + int) \<times> Job" where
  "Job_Every ts j =
     (case ts of
        [] \<Rightarrow> (case sched_of j of Some (Recurrent u p d) \<Rightarrow> (Inr u, j) | _ \<Rightarrow> (Inl NotRecurrent, j))
      | [t] \<Rightarrow> (case sched_of j of Some (Recurrent u p d) \<Rightarrow> (Inr t, j\<lparr>sched_of := Some (Recurrent t p d)\<rparr>) | _ \<Rightarrow> (Inl NotRecurrent, j))
      | _ \<Rightarrow> (Inl TooManyArguments, j))"

definition dayOfWeek :: "int \<Rightarrow> Job \<Rightarrow> Job" where
  "dayOfWeek d j = (if sched_of j \<noteq> None then j\<lparr>err := Some BadChaining\<rparr> else j)\<lparr>sched_of := Some (Weekly d midnight)\<rparr>"

definition WMonday :: "Job \<Rightarrow> Job" where "WMonday = dayOfWeek 1"
definition WTuesday :: "Job \<Rightarrow> Job" where "WTuesday = dayOfWeek 2"
definition WWednesday :: "Job \<Rightarrow> Job" where "WWednesday = dayOfWeek 3"
definition WThursday :: "Job \<Rightarrow> Job" where "WThursday = dayOfWeek 4"
definition WFriday :: "Job \<Rightarrow> Job" where "WFriday = dayOfWeek 5"
definition WSaturday :: "Job \<Rightarrow> Job" where "WSaturday = dayOfWeek 6"
definition WSunday :: "Job \<Rightarrow> Job" where "WSunday = dayOfWeek 0"

definition DDay :: "Job \<Rightarrow> Job" where
  "DDay j =
     (case sched_of j of None \<Rightarrow> j | Some (Daily _) \<Rightarrow> j | Some _ \<Rightarrow> j\<lparr>err := Some BadChaining\<rparr>)\<lparr>sched_of := Some (Daily midnight)\<rparr>"

text \<open>The type assertion in \<open>timeOfDay\<close> panics when the schedule is not recurrent.\<close>

definition timeOfDay :: "int \<Rightarrow> Job \<Rightarrow> Job outcome" where
  "timeOfDay d j =
     (if err j \<noteq> None then Ret j
      else case sched_of j of Some (Recurrent u _ dn) \<Rightarrow> Ret (j\<lparr>sched_of := Some (Recurrent u d dn)\<rparr>) | _ \<Rightarrow> Panic)"

definition ESeconds :: "Job \<Rightarrow> Job outcome" where "ESeconds = timeOfDay Second"
definition EMinutes :: "Job \<Rightarrow> Job outcome" where "EMinutes = timeOfDay Minute"
definition EHours :: "Job \<Rightarrow> Job outcome" where "EHours = timeOfDay Hour"

definition SetFunc :: "nat \<Rightarrow> Job \<Rightarrow> Job" where
  "SetFunc f j =
     (if err j \<noteq> None then j
      else (if Quit j = None then j\<lparr>Quit := Some [], skipWait := Some []\<rparr> else j)\<lparr>fn := Some f\<rparr>)"

text \<open>\<open>SkipIfWait\<close> waits forever on a nil channel, and while the one place of the channel is taken.\<close>

definition SkipIfWait :: "Job \<Rightarrow> Job option" where
  "SkipIfWait j =
     (if isRunning j then Some j
      else case skipWait j of Some [] \<Rightarrow> Some (j\<lparr>skipWait := Some [True]\<rparr>) | _ \<Rightarrow> None)"

text \<open>\<open>Run\<close>: whether the goroutine of the job was started, or the error returned.\<close>

definition Run :: "nat list \<Rightarrow> Job \<Rightarrow> (sched_error + unit) \<times> Job" where
  "Run fs j =
     (case err j of
        Some e \<Rightarrow> (Inl e, j)
      | None \<Rightarrow>
          (case fs of
             [] \<Rightarrow> if fn j = None then (Inl MissingFunction, j)
                   else if isStart j then (Inl AlreadyStart, j)
                   else (Inr (), j\<lparr>isStart := True, Quit := Some [], skipWait := Some []\<rparr>)
           | f # _ \<Rightarrow> let j1 = j\<lparr>fn := Some f\<rparr>
                      in if isStart j1 then (Inl AlreadyStart, j1)
                         else (Inr (), j1\<lparr>isStart := True, Quit := Some [], skipWait := Some []\<rparr>)))"

text \<open>\<open>runCheck\<close>: the time after which the job is run once.\<close>

definition runCheck :: "int \<Rightarrow> month_ends \<Rightarrow> instant \<Rightarrow> instant \<Rightarrow> Job \<Rightarrow> ((sched_error + int) \<times> Job) outcome" where
  "runCheck zone ends now later j =
     (if fn j = None then Ret (Inl NeedSetFunc, j)
      else case err j of
        Some e \<Rightarrow> Ret (Inl e, j)
      | None \<Rightarrow>
          if isStart j then Ret (Inl AlreadyStart, j)
          else case sched_of j of
                 None \<Rightarrow> Panic
               | Some sc \<Rightarrow>
                   (case nextDurationWaitToRun zone ends now later sc of
                      (r, sc') \<Rightarrow> Ret (r, j\<lparr>isStart := True, sched_of := Some sc'\<rparr>)))"

subsection \<open>Running jobs\<close>

text \<open>
  The goroutine of \<open>Run\<close> and the goroutines of \<open>runJob\<close> it starts, each of which checks the flag, sets it, calls
  the function and clears it, in steps of their own. \<open>fired\<close> lists the instants at which \<open>runJob\<close> was started and whether the timer did it, \<open>due\<close> is
  when the timer of the current round runs out; the first one has the duration 0.
\<close>

datatype task = Checking | Setting | Calling | Clearing | Finished

record sched_state =
  job :: Job
  clock :: instant
  due :: instant
  stopped :: bool
  tasks :: "task list"
  fired :: "(instant \<times> bool) list"
  dead :: bool

definition start_state :: "instant \<Rightarrow> Job \<Rightarrow> sched_state" where
  "start_state t j = \<lparr>job = j, clock = t, due = t, stopped = False, tasks = [], fired = [], dead = False\<rparr>"

text \<open>The end of a round: an error leaves the duration 0; without a schedule the call panics, which nothing recovers.\<close>

definition rearm :: "int \<Rightarrow> month_ends \<Rightarrow> sched_state \<Rightarrow> sched_state" where
  "rearm zone ends s =
     (case sched_of (job s) of
        None \<Rightarrow> s\<lparr>dead := True\<rparr>
      | Some sc \<Rightarrow>
          (case nextDurationWaitToRun zone ends (clock s) (clock s) sc of
             (r, sc') \<Rightarrow> s\<lparr>job := (job s)\<lparr>sched_of := Some sc'\<rparr>, due := clock s + (case r of Inl e \<Rightarrow> 0 | Inr d \<Rightarrow> d)\<rparr>))"

definition spawn :: "bool \<Rightarrow> sched_state \<Rightarrow> sched_state" where
  "spawn timer s = s\<lparr>tasks := tasks s @ [Checking], fired := fired s @ [(clock s, timer)]\<rparr>"

definition task_step :: "task \<Rightarrow> Job \<Rightarrow> task \<times> Job" where
  "task_step t j =
     (case t of
        Checking \<Rightarrow> (if isRunning j then Finished else Setting, j)
      | Setting \<Rightarrow> (Calling, j\<lparr>isRunning := True\<rparr>)
      | Calling \<Rightarrow> (Clearing, j)
      | Clearing \<Rightarrow> (Finished, j\<lparr>isRunning := False\<rparr>)
      | Finished \<Rightarrow> (Finished, j))"

inductive sched_step :: "int \<Rightarrow> month_ends \<Rightarrow> sched_state \<Rightarrow> sched_state \<Rightarrow> bool" for zone ends where
  tick: "\<not> dead s \<Longrightarrow> 0 \<le> d \<Longrightarrow> sched_step zone ends s (s\<lparr>clock := clock s + d\<rparr>)"
| quit: "\<not> dead s \<Longrightarrow> \<not> stopped s \<Longrightarrow> Quit (job s) = Some (b # bs) \<Longrightarrow> sched_step zone ends s (s\<lparr>job := (job s)\<lparr>Quit := Some bs\<rparr>, stopped := True\<rparr>)"
| skip: "\<not> dead s \<Longrightarrow> \<not> stopped s \<Longrightarrow> skipWait (job s) = Some (b # bs) \<Longrightarrow>
    sched_step zone ends s (rearm zone ends (spawn False (s\<lparr>job := (job s)\<lparr>skipWait := Some bs\<rparr>\<rparr>)))"
| fire: "\<not> dead s \<Longrightarrow> \<not> stopped s \<Longrightarrow> due s \<le> clock s \<Longrightarrow> sched_step zone ends s (rearm zone ends (spawn True s))"
| task: "\<not> dead s \<Longrightarrow> i < length (tasks s) \<Longrightarrow> task_step (tasks s ! i) (job s) = (t, j) \<Longrightarrow>
    sched_step zone ends s (s\<lparr>tasks := (tasks s)[i := t], job := j\<rparr>)"
| user_quit: "\<not> dead s \<Longrightarrow> Quit (job s) = Some [] \<Longrightarrow> sched_step zone ends s (s\<lparr>job := (job s)\<lparr>Quit := Some [True]\<rparr>\<rparr>)"
| user_skip: "\<not> dead s \<Longrightarrow> SkipIfWait (job s) = Some j \<Longrightarrow> sched_step zone ends s (s\<lparr>job := j\<rparr>)"

end
