(* ===== verification/Sched_Props.thy ===== *)
theory Sched_Props
  imports Sched
begin

section \<open>Package sched: when a job is due\<close>

text \<open>
  The next run is the first instant from now on at which the schedule is due, by its day and the time of the day.
\<close>

definition tod :: "daily \<Rightarrow> int" where
  "tod d = dhour d * Hour + dmin d * Minute + dsec d * Second"

definition valid_time :: "daily \<Rightarrow> bool" where
  "valid_time d \<longleftrightarrow> 0 \<le> dhour d \<and> dhour d \<le> 23 \<and> 0 \<le> dmin d \<and> dmin d \<le> 59 \<and> 0 \<le> dsec d \<and> dsec d \<le> 59"

definition day_of_month :: "int \<Rightarrow> instant \<Rightarrow> int" where
  "day_of_month zone t = snd (snd (civil (local_day zone t)))"

definition month_days :: "int \<Rightarrow> instant \<Rightarrow> int" where
  "month_days zone t = (case civil (local_day zone t) of (y, m, d) \<Rightarrow> month_length y m)"

definition next_month_days :: "int \<Rightarrow> instant \<Rightarrow> int" where
  "next_month_days zone t = (case civil (local_day zone t) of (y, m, d) \<Rightarrow> if m = 12 then month_length (y + 1) 1 else month_length y (m + 1))"

text \<open>What the code relies on of \<^verbatim>\<open>gotimeutils\<close>.\<close>

definition month_ends_ok :: "int \<Rightarrow> month_ends \<Rightarrow> bool" where
  "month_ends_ok zone ends \<longleftrightarrow> (\<forall>t. EndOfMonth_Day ends t = month_days zone t \<and> EndOfNextMonth_Day ends t = next_month_days zone t)"

lemma tod_range: "valid_time d \<Longrightarrow> 0 \<le> tod d \<and> tod d < Day_ns"
  by (simp add: tod_def valid_time_def)

lemma at_clock_eq: "at_clock zone now n d = (local_day zone now + n) * Day_ns + tod d - zone"
proof -
  obtain y m day where c: "civil (local_day zone now) = (y, m, day)" by (cases "civil (local_day zone now)") auto
  then have "day_number y m (day + n) = local_day zone now + n" using civil_day [OF c] by (simp add: day_number_shift)
  then show ?thesis by (simp add: at_clock_def c time_Date_def tod_def)
qed

lemma at_clock_day:
  assumes "valid_time d"
  shows "local_day zone (at_clock zone now n d) = local_day zone now + n" "clock_ns zone (at_clock zone now n d) = tod d"
  unfolding at_clock_eq using local_day_at tod_range [OF assms] by blast+

text \<open>Instants at the same time of the day are ordered by their days.\<close>

lemma due_later:
  assumes "clock_ns zone t = tod d" "local_day zone now + n \<le> local_day zone t"
  shows "at_clock zone now n d \<le> t"
  using instant_split [of t zone] assms unfolding at_clock_eq by (metis add_right_mono diff_right_mono mult_right_mono zero_le_numeral)

lemma due_day:
  assumes "valid_time d" "clock_ns zone t = tod d" "now \<le> t"
  shows "local_day zone now \<le> local_day zone t"
  using assms(3) unfolding local_day_def by (intro zdiv_mono1) simp_all

lemma due_strict:
  assumes "valid_time d" "clock_ns zone t = tod d" "now \<le> t" "at_clock zone now 0 d < now"
  shows "local_day zone now + 1 \<le> local_day zone t"
proof (rule ccontr)
  assume "\<not> local_day zone now + 1 \<le> local_day zone t"
  then have "local_day zone t = local_day zone now" using due_day [OF assms(1-3)] by simp
  then have "t = at_clock zone now 0 d" using instant_split [of t zone] assms(2) unfolding at_clock_eq by simp
  then show False using assms(3,4) by simp
qed

lemma daily_next:
  assumes "valid_time d"
  shows "now < daily_nextRunAt zone now d" "clock_ns zone (daily_nextRunAt zone now d) = tod d"
    "\<And>t. now < t \<Longrightarrow> clock_ns zone t = tod d \<Longrightarrow> daily_nextRunAt zone now d \<le> t"
proof -
  have one: "now < at_clock zone now 1 d"
    using instant_split [of now zone] clock_range(2) [of zone now] tod_range [OF assms] unfolding at_clock_eq by (simp add: algebra_simps)
  then show "now < daily_nextRunAt zone now d" by (simp add: daily_nextRunAt_def Let_def)
  show "clock_ns zone (daily_nextRunAt zone now d) = tod d" using at_clock_day(2) [OF assms] by (simp add: daily_nextRunAt_def Let_def)
  fix t assume t: "now < t" "clock_ns zone t = tod d"
  have day: "local_day zone now \<le> local_day zone t" using due_day [OF assms t(2)] t(1) by simp
  show "daily_nextRunAt zone now d \<le> t"
  proof (cases "now < at_clock zone now 0 d")
    case True
    then show ?thesis using due_later [OF t(2), of now 0] day by (simp add: daily_nextRunAt_def Let_def)
  next
    case False
    have "local_day zone t \<noteq> local_day zone now"
    proof
      assume "local_day zone t = local_day zone now"
      then have "t = at_clock zone now 0 d" using instant_split [of t zone] t(2) unfolding at_clock_eq by simp
      then show False using False t(1) by simp
    qed
    then show ?thesis using False due_later [OF t(2), of now 1] day by (simp add: daily_nextRunAt_def Let_def)
  qed
qed

lemma weekday_step:
  assumes "weekday a = w" "b \<le> a" "0 \<le> w" "w < 7"
  shows "b + (w - weekday b) mod 7 \<le> a"
proof -
  have "w = (weekday b + (a - b)) mod 7" using weekday_shift [of b "a - b"] assms(1) by simp
  then have "(w - weekday b) mod 7 = (a - b) mod 7" by (metis add_diff_cancel_left' mod_diff_left_eq)
  moreover have "(a - b) mod 7 \<le> a - b" using assms(2) by (simp add: zmod_le_nonneg_dividend)
  ultimately show ?thesis by simp
qed

lemma weekly_next:
  assumes "valid_time d" "0 \<le> w" "w < 7"
  shows "now \<le> weekly_nextRunAt zone now w d" "clock_ns zone (weekly_nextRunAt zone now w d) = tod d"
    "weekday (local_day zone (weekly_nextRunAt zone now w d)) = w"
    "\<And>t. now \<le> t \<Longrightarrow> clock_ns zone t = tod d \<Longrightarrow> weekday (local_day zone t) = w \<Longrightarrow> weekly_nextRunAt zone now w d \<le> t"
proof -
  define N where "N = local_day zone now"
  define k where "k = (w - weekday N) mod 7"
  define n where "n = (if k = 0 \<and> now > at_clock zone now 0 d then 7 else k)"
  have wk: "k = (if w - weekday N < 0 then w - weekday N + 7 else w - weekday N)"
  proof (cases "w - weekday N < 0")
    case True
    have "k = (w - weekday N + 7) mod 7" unfolding k_def by (rule mod_add_self2 [symmetric])
    also have "\<dots> = w - weekday N + 7" using True weekday_range [of N] assms(2,3) by (intro mod_pos_pos_trivial) simp_all
    finally show ?thesis using True by simp
  qed (use weekday_range [of N] assms(2,3) in \<open>simp add: k_def mod_pos_pos_trivial\<close>)
  have r: "weekly_nextRunAt zone now w d = at_clock zone now n d"
    using weekday_range [of N] assms(2) unfolding weekly_nextRunAt_def Let_def N_def [symmetric] n_def wk by (auto split: if_splits)
  have dk: "weekday (N + n) = w"
    using weekday_range [of N] assms(2,3) by (auto simp: weekday_shift n_def wk mod_pos_pos_trivial split: if_splits)
  show "clock_ns zone (weekly_nextRunAt zone now w d) = tod d" unfolding r by (rule at_clock_day(2) [OF assms(1)])
  show "weekday (local_day zone (weekly_nextRunAt zone now w d)) = w" unfolding r at_clock_day(1) [OF assms(1)] N_def [symmetric] by (rule dk)
  show "now \<le> weekly_nextRunAt zone now w d"
  proof (cases "1 \<le> n")
    case True
    have "now < (N + 1) * Day_ns + tod d - zone" using instant_split [of now zone] clock_range(2) [of zone now] tod_range [OF assms(1)] unfolding N_def by (simp add: algebra_simps)
    also have "\<dots> \<le> (N + n) * Day_ns + tod d - zone" using True by simp
    finally show ?thesis unfolding r at_clock_eq N_def by simp
  next
    case False
    then have "n = 0" "\<not> now > at_clock zone now 0 d" using wk weekday_range [of N] assms(2,3) by (auto simp: n_def split: if_splits)
    then show ?thesis unfolding r by simp
  qed
  fix t assume t: "now \<le> t" "clock_ns zone t = tod d" "weekday (local_day zone t) = w"
  have a: "N + k \<le> local_day zone t" unfolding k_def using weekday_step [OF t(3) _ assms(2,3)] due_day [OF assms(1) t(2,1)] N_def by simp
  show "weekly_nextRunAt zone now w d \<le> t"
  proof (cases "k = 0 \<and> now > at_clock zone now 0 d")
    case True
    then have "N + 1 \<le> local_day zone t" using due_strict [OF assms(1) t(2,1)] N_def by simp
    moreover have "local_day zone t - N = 7 * ((local_day zone t - N) div 7)"
    proof -
      have "w = (weekday N + (local_day zone t - N)) mod 7" using weekday_shift [of N "local_day zone t - N"] t(3) by simp
      moreover have "w = weekday N" using True wk weekday_range [of N] assms(2,3) by (auto split: if_splits)
      ultimately have "(local_day zone t - N) mod 7 = 0" by presburger
      then show ?thesis by (metis add.right_neutral mult_div_mod_eq)
    qed
    ultimately have "N + 7 \<le> local_day zone t" by presburger
    then show ?thesis unfolding r using True due_later [OF t(2), of now n] N_def by (simp add: n_def)
  next
    case False
    then show ?thesis unfolding r using a due_later [OF t(2), of now n] N_def by (auto simp: n_def)
  qed
qed

text \<open>Months.\<close>

lemma civil_rest:
  assumes "civil n = (y, m, d)" "0 \<le> k" "d + k \<le> month_length y m"
  shows "civil (n + k) = (y, m, d + k)"
proof -
  have c: "day_number y m d = n" "1 \<le> m" "m \<le> 12" "1 \<le> d" using civil_day [OF assms(1)] by auto
  then have "n + k = day_number y m (d + k)" by (simp add: day_number_shift)
  then show ?thesis using day_civil [of m "d + k" y] c assms(2,3) by simp
qed

definition next_month :: "int \<Rightarrow> int \<Rightarrow> int \<times> int" where
  "next_month y m = (if m = 12 then (y + 1, 1) else (y, m + 1))"

lemma civil_next:
  assumes "civil n = (y, m, d)" "next_month y m = (y', m')" "1 \<le> j" "j \<le> month_length y' m'"
  shows "civil (n + (month_length y m - d + j)) = (y', m', j)"
proof -
  have c: "day_number y m d = n" "1 \<le> m" "m \<le> 12" using civil_day [OF assms(1)] by auto
  have "day_number y (m + 1) j = day_number y m 1 + month_length y m + (j - 1)"
    using month_next [OF c(2,3), of y] day_number_shift [of y "m + 1" 1 "j - 1"] by simp
  also have "day_number y m 1 = n - (d - 1)" using day_number_shift [of y m 1 "d - 1"] c(1) by simp
  finally have "n + (month_length y m - d + j) = day_number y (m + 1) j" by simp
  also have "\<dots> = day_number y' m' j" using assms(2) c(2,3) by (auto simp: next_month_def day_number_def Let_def split: if_splits)
  finally show ?thesis using day_civil [of m' j y'] assms(2-4) c(2,3) by (auto simp: next_month_def split: if_splits)
qed

lemma civil_next_month: "civil (local_day zone now) = (y, m, d) \<Longrightarrow> next_month_days zone now = (case next_month y m of (y', m') \<Rightarrow> month_length y' m')"
  by (simp add: next_month_days_def next_month_def)

text \<open>The first day from \<open>n\<close> on with a day of the month, when the day is behind and the next month has it.\<close>

lemma first_day_in_next:
  assumes c: "civil n = (y, m, d)" and nm: "next_month y m = (y', m')" and j: "1 \<le> j" "j \<le> d" "j \<le> month_length y' m'"
    and a: "n \<le> a" "snd (snd (civil a)) = j" "j = d \<Longrightarrow> n < a"
  shows "n + (month_length y m - d + j) \<le> a"
proof (rule ccontr)
  assume "\<not> n + (month_length y m - d + j) \<le> a"
  then have lt: "a < n + (month_length y m - d + j)" by simp
  show False
  proof (cases "a \<le> n + (month_length y m - d)")
    case True
    then have "civil (n + (a - n)) = (y, m, d + (a - n))" using a(1) by (intro civil_rest [OF c]) simp_all
    then have "d + (a - n) = j" using a(2) by simp
    then show False using j(2) a(1,3) by linarith
  next
    case False
    define i where "i = a - n - (month_length y m - d)"
    have "1 \<le> i" "i < j" using False lt by (simp_all add: i_def)
    then have "civil (n + (month_length y m - d + i)) = (y', m', i)" using j(3) by (intro civil_next [OF c nm]) simp_all
    then show False using a(2) \<open>i < j\<close> by (simp add: i_def)
  qed
qed

lemma now_before_next:
  assumes "valid_time d" "1 \<le> n"
  shows "now \<le> at_clock zone now n d"
proof -
  have "now < (local_day zone now + 1) * Day_ns + tod d - zone"
    using instant_split [of now zone] clock_range(2) [of zone now] tod_range [OF assms(1)] by (simp add: algebra_simps)
  also have "\<dots> \<le> (local_day zone now + n) * Day_ns + tod d - zone" using assms(2) by simp
  finally show ?thesis unfolding at_clock_eq by simp
qed

lemma monthly_passed:
  assumes "month_ends_ok zone ends" "valid_time d" "1 \<le> k" "k \<le> day_of_month zone now" "k \<le> next_month_days zone now"
    and "k < day_of_month zone now \<or> at_clock zone now 0 d < now"
  shows "now \<le> monthly_nextRunAt zone ends now k d" "clock_ns zone (monthly_nextRunAt zone ends now k d) = tod d"
    "day_of_month zone (monthly_nextRunAt zone ends now k d) = k"
    "\<And>t. now \<le> t \<Longrightarrow> clock_ns zone t = tod d \<Longrightarrow> day_of_month zone t = k \<Longrightarrow> monthly_nextRunAt zone ends now k d \<le> t"
proof -
  obtain y m day where c: "civil (local_day zone now) = (y, m, day)" by (cases "civil (local_day zone now)") auto
  obtain y' m' where nm: "next_month y m = (y', m')" by (cases "next_month y m")
  have day: "day_of_month zone now = day" by (simp add: day_of_month_def c)
  have len: "EndOfMonth_Day ends now = month_length y m" using assms(1) c by (simp add: month_ends_ok_def month_days_def)
  have k': "k \<le> month_length y' m'" using assms(5) civil_next_month [OF c] nm by simp
  define n where "n = month_length y m - day + k"
  have n: "1 \<le> n" using civil_day [OF c] assms(3) by (simp add: n_def)
  have r: "monthly_nextRunAt zone ends now k d = at_clock zone now n d"
    using assms(3,4,6) day unfolding monthly_nextRunAt_def c by (auto simp: EndOfMonth_def len n_def Let_def)
  show "now \<le> monthly_nextRunAt zone ends now k d" unfolding r by (rule now_before_next [OF assms(2) n])
  show "clock_ns zone (monthly_nextRunAt zone ends now k d) = tod d" unfolding r by (rule at_clock_day(2) [OF assms(2)])
  show "day_of_month zone (monthly_nextRunAt zone ends now k d) = k"
    unfolding r day_of_month_def at_clock_day(1) [OF assms(2)] n_def using civil_next [OF c nm assms(3) k'] by simp
  fix t assume t: "now \<le> t" "clock_ns zone t = tod d" "day_of_month zone t = k"
  have "local_day zone now + n \<le> local_day zone t" unfolding n_def
  proof (rule first_day_in_next [OF c nm assms(3) _ k'])
    show "k \<le> day" using assms(4) day by simp
    show "local_day zone now \<le> local_day zone t" by (rule due_day [OF assms(2) t(2,1)])
    show "snd (snd (civil (local_day zone t))) = k" using t(3) by (simp add: day_of_month_def)
    show "local_day zone now < local_day zone t" if "k = day" using due_strict [OF assms(2) t(2,1)] assms(6) day that by simp
  qed
  then show "monthly_nextRunAt zone ends now k d \<le> t" unfolding r by (rule due_later [OF t(2)])
qed

lemma monthly_today:
  assumes "k = day_of_month zone now \<or> day_of_month zone now < k" "1 \<le> k" "k = day_of_month zone now \<Longrightarrow> now \<le> at_clock zone now 0 d"
  shows "monthly_nextRunAt zone ends now k d = at_clock zone now 0 d"
proof -
  obtain y m day where c: "civil (local_day zone now) = (y, m, day)" by (cases "civil (local_day zone now)") auto
  then have day: "day_of_month zone now = day" by (simp add: day_of_month_def)
  show ?thesis using assms unfolding monthly_nextRunAt_def c day by (auto simp: EndOfMonth_def Let_def)
qed

subsection \<open>Times of the day\<close>

definition two_digits :: "nat \<Rightarrow> string" where
  "two_digits n = [char_of (48 + n div 10), char_of (48 + n mod 10)]"

lemma digit_char: "n < 10 \<Longrightarrow> digit (char_of (48 + n)) \<and> byte (char_of (48 + n)) = 48 + n \<and> char_of (48 + n) \<noteq> CHR '':'' \<and> char_of (48 + n) \<noteq> CHR ''-'' \<and> char_of (48 + n) \<noteq> CHR ''+''"
proof -
  assume n: "n < 10"
  have b: "byte (char_of (48 + n)) = 48 + n" using n by (simp add: of_char_of)
  have "char_of (48 + n) \<noteq> c" if "byte c < 48 \<or> 57 < byte c" for c using b n that by auto
  then show ?thesis using b n by (simp add: digit_def in_range_def)
qed

lemma Atoi_two: "n < 100 \<Longrightarrow> strconv_Atoi (two_digits n) = Some (int n)"
proof -
  assume n: "n < 100"
  have a: "n div 10 < 10" "n mod 10 < 10" using n by auto
  have "int n = 10 * int (n div 10) + int (n mod 10)" by (metis mult_div_mod_eq of_nat_add of_nat_mult of_nat_numeral)
  then show ?thesis using digit_char [OF a(1)] digit_char [OF a(2)] n by (simp add: strconv_Atoi_def two_digits_def decimal_value_def)
qed

lemma split_two: "split_byte CHR '':'' (two_digits n @ rest) = (case split_byte CHR '':'' rest of w # ws \<Rightarrow> (two_digits n @ w) # ws)" if "n < 100"
proof -
  have "n div 10 < 10" "n mod 10 < 10" using that by auto
  then have "char_of (48 + n div 10) \<noteq> CHR '':''" "char_of (48 + n mod 10) \<noteq> CHR '':''" using digit_char by blast+
  moreover have "split_byte c xs \<noteq> []" for c xs by (induction xs) (auto split: list.splits)
  ultimately show ?thesis by (auto simp: two_digits_def split: list.splits)
qed

text \<open>Times written with two digits each are read as they are; negative hours are taken as well.\<close>

lemma parseTime_plain:
  assumes "h < 24" "m < 60" "s < 60"
  shows "parseTime (two_digits h @ '':'' @ two_digits m @ '':'' @ two_digits s) = Inr (int h, int m, int s)"
proof -
  have "split_byte CHR '':'' (two_digits s) = [two_digits s]" using split_two [of s "[]"] assms(3) by simp
  then have "split_byte CHR '':'' (two_digits h @ '':'' @ two_digits m @ '':'' @ two_digits s) = [two_digits h, two_digits m, two_digits s]"
    using assms by (simp add: split_two)
  then show ?thesis using assms by (simp add: parseTime_def Atoi_two)
qed

lemma parseTime_negative: "parseTime ''-5'' = Inr (- 5, 0, 0)"
  by (simp add: parseTime_def strconv_Atoi_def decimal_value_def digit_def in_range_def)

section \<open>Package sched: properties\<close>

text \<open>
  When jobs are due, what their times of the day are, and how a running job is started again and again.
\<close>

text \<open>
  C33. The next run of a daily job is the first instant after now at its time of the day; the next run of a weekly job the
  first instant from now on at its time of the day on its day of the week.
\<close>

theorem sched_next_run:
  assumes "valid_time d" "0 \<le> w" "w < 7"
  shows "now < daily_nextRunAt zone now d \<and> clock_ns zone (daily_nextRunAt zone now d) = tod d
    \<and> (\<forall>t. now < t \<longrightarrow> clock_ns zone t = tod d \<longrightarrow> daily_nextRunAt zone now d \<le> t)
    \<and> now \<le> weekly_nextRunAt zone now w d \<and> clock_ns zone (weekly_nextRunAt zone now w d) = tod d
    \<and> weekday (local_day zone (weekly_nextRunAt zone now w d)) = w
    \<and> (\<forall>t. now \<le> t \<longrightarrow> clock_ns zone t = tod d \<longrightarrow> weekday (local_day zone t) = w \<longrightarrow> weekly_nextRunAt zone now w d \<le> t)"
  using daily_next [OF assms(1)] weekly_next [OF assms] by blast

theorem sched_next_run_witness:
  "(17 * Day_ns + 10 * Hour) < daily_nextRunAt 0 (17 * Day_ns + 10 * Hour) \<lparr>dhour = 8, dmin = 30, dsec = 0\<rparr>
    \<and> weekday (local_day 0 (weekly_nextRunAt 0 (17 * Day_ns + 10 * Hour) 1 \<lparr>dhour = 8, dmin = 30, dsec = 0\<rparr>)) = 1"
  using sched_next_run [of "\<lparr>dhour = 8, dmin = 30, dsec = 0\<rparr>" 1 "17 * Day_ns + 10 * Hour" 0] by (simp add: valid_time_def)

text \<open>
  C34. A monthly job whose day has passed in this month, or is today with its time over, is due on that day of the next month
  if that month has it, and not before. But when its day is still to come in this month the job is due
  today: with the time of the day over, at an instant that has passed.
\<close>

theorem sched_monthly:
  assumes "month_ends_ok zone ends" "valid_time d" "1 \<le> k"
  shows "(k \<le> next_month_days zone now \<longrightarrow> k < day_of_month zone now \<or> k = day_of_month zone now \<and> at_clock zone now 0 d < now \<longrightarrow>
      now \<le> monthly_nextRunAt zone ends now k d \<and> clock_ns zone (monthly_nextRunAt zone ends now k d) = tod d
      \<and> day_of_month zone (monthly_nextRunAt zone ends now k d) = k
      \<and> (\<forall>t. now \<le> t \<longrightarrow> clock_ns zone t = tod d \<longrightarrow> day_of_month zone t = k \<longrightarrow> monthly_nextRunAt zone ends now k d \<le> t))
    \<and> (day_of_month zone now < k \<longrightarrow>
      local_day zone (monthly_nextRunAt zone ends now k d) = local_day zone now
      \<and> (tod d < clock_ns zone now \<longrightarrow> monthly_nextRunAt zone ends now k d < now))"
proof (intro conjI impI)
  assume k: "k \<le> next_month_days zone now" "k < day_of_month zone now \<or> k = day_of_month zone now \<and> at_clock zone now 0 d < now"
  then have "k \<le> day_of_month zone now" "k < day_of_month zone now \<or> at_clock zone now 0 d < now" by auto
  note m = monthly_passed [OF assms this(1) k(1) this(2)]
  show "now \<le> monthly_nextRunAt zone ends now k d" "clock_ns zone (monthly_nextRunAt zone ends now k d) = tod d"
    "day_of_month zone (monthly_nextRunAt zone ends now k d) = k"
    "\<forall>t. now \<le> t \<longrightarrow> clock_ns zone t = tod d \<longrightarrow> day_of_month zone t = k \<longrightarrow> monthly_nextRunAt zone ends now k d \<le> t" using m by blast+
next
  assume k: "day_of_month zone now < k"
  have r: "monthly_nextRunAt zone ends now k d = at_clock zone now 0 d" using monthly_today [of k zone now d ends] k assms(3) by simp
  show "local_day zone (monthly_nextRunAt zone ends now k d) = local_day zone now" unfolding r at_clock_day(1) [OF assms(2)] by simp
  assume "tod d < clock_ns zone now"
  then show "monthly_nextRunAt zone ends now k d < now" unfolding r at_clock_eq using instant_split [of now zone] by simp
qed

theorem sched_monthly_witness:
  "\<exists>ends. month_ends_ok 0 ends
    \<and> monthly_nextRunAt 0 ends (738000 * Day_ns + 10 * Hour) 31 \<lparr>dhour = 8, dmin = 30, dsec = 0\<rparr> < 738000 * Day_ns + 10 * Hour"
proof -
  let ?ends = "\<lparr>EndOfMonth_Day = month_days 0, EndOfNextMonth_Day = next_month_days 0\<rparr>" and ?d = "\<lparr>dhour = 8, dmin = 30, dsec = 0\<rparr>"
  let ?now = "738000 * Day_ns + 10 * Hour"
  have ok: "month_ends_ok 0 ?ends" "valid_time ?d" by (simp_all add: month_ends_ok_def valid_time_def)
  have "day_of_month 0 ?now < 31"
    by (simp add: day_of_month_def local_day_def civil_def year_of_def year_start_def month_of_def month_start_def leap_def Let_def)
  moreover have "tod ?d < clock_ns 0 ?now" by (simp add: tod_def clock_ns_def)
  ultimately have "monthly_nextRunAt 0 ?ends ?now 31 ?d < ?now" using sched_monthly [OF ok, of 31 ?now] by simp
  then show ?thesis using ok(1) by blast
qed

subsection \<open>Running\<close>

definition wait_after :: "int \<Rightarrow> int \<Rightarrow> bool \<Rightarrow> nat \<Rightarrow> int" where
  "wait_after u p d i = (if i = 0 \<and> \<not> d then 0 else int64 (u * p))"

definition recurring :: "instant \<Rightarrow> int \<Rightarrow> int \<Rightarrow> bool \<Rightarrow> sched_state \<Rightarrow> bool" where
  "recurring t u p d s \<longleftrightarrow>
     sched_of (job s) = Some (Recurrent u p (d \<or> fired s \<noteq> [])) \<and> \<not> dead s
     \<and> due s = (if fired s = [] then t else fst (last (fired s)) + wait_after u p d (length (fired s) - 1))
     \<and> (\<forall>i. Suc i < length (fired s) \<longrightarrow> snd (fired s ! Suc i) \<longrightarrow> fst (fired s ! i) + wait_after u p d i \<le> fst (fired s ! Suc i))"

lemma recurring_fire:
  assumes "recurring t u p d s" "u \<noteq> 0" "p \<noteq> 0" "timer \<Longrightarrow> due s \<le> clock s"
  shows "recurring t u p d (rearm zone ends (spawn timer s))" "fired (rearm zone ends (spawn timer s)) = fired s @ [(clock s, timer)]"
proof -
  have sc: "sched_of (job (spawn timer s)) = Some (Recurrent u p (d \<or> fired s \<noteq> []))" using assms(1) by (simp add: recurring_def spawn_def)
  let ?s = "rearm zone ends (spawn timer s)"
  have r: "?s = (spawn timer s)\<lparr>job := (job s)\<lparr>sched_of := Some (Recurrent u p True)\<rparr>, due := clock s + wait_after u p d (length (fired s))\<rparr>"
    using assms(2,3) unfolding rearm_def sc by (auto simp: nextDurationWaitToRun_def recurrent_next_def wait_after_def spawn_def)
  show f: "fired ?s = fired s @ [(clock s, timer)]" unfolding r by (simp add: spawn_def)
  have gap: "fst (fired s ! i) + wait_after u p d i \<le> clock s" if "Suc i = length (fired s)" timer for i
  proof -
    have "fired s \<noteq> []" "length (fired s) - 1 = i" using that(1) by auto
    then show ?thesis using assms(1,4) that(2) by (simp add: recurring_def last_conv_nth)
  qed
  have "fst (fired ?s ! i) + wait_after u p d i \<le> fst (fired ?s ! Suc i)" if "Suc i < length (fired ?s)" "snd (fired ?s ! Suc i)" for i
  proof (cases "Suc i < length (fired s)")
    case True
    then show ?thesis using assms(1) that(2) unfolding f by (simp add: recurring_def nth_append)
  next
    case False
    then have "Suc i = length (fired s)" using that(1) f by simp
    then show ?thesis using gap that(2) unfolding f by (simp add: nth_append)
  qed
  moreover have "sched_of (job ?s) = Some (Recurrent u p True)" "\<not> dead ?s" "due ?s = clock s + wait_after u p d (length (fired s))"
    using assms(1) unfolding r by (simp_all add: recurring_def spawn_def)
  ultimately show "recurring t u p d ?s" using f unfolding recurring_def by simp
qed

lemma recurring_step: "sched_step zone ends s s' \<Longrightarrow> u \<noteq> 0 \<Longrightarrow> p \<noteq> 0 \<Longrightarrow> recurring t u p d s \<Longrightarrow> recurring t u p d s'"
proof (induction rule: sched_step.induct)
  case (skip s b bs)
  then have "recurring t u p d (s\<lparr>job := (job s)\<lparr>skipWait := Some bs\<rparr>\<rparr>)" by (simp add: recurring_def)
  then show ?case by (rule recurring_fire(1)) (use skip in simp_all)
next
  case (fire s)
  show ?case by (rule recurring_fire(1) [OF fire(6,4,5)]) (use fire in simp)
next
  case (task s i tk j)
  have "sched_of j = sched_of (job s)" using task(3) by (cases "tasks s ! i") (auto simp: task_step_def split: if_splits)
  then show ?case using task by (simp add: recurring_def)
next
  case (user_skip s j)
  have "sched_of j = sched_of (job s)" using user_skip(2) by (auto simp: SkipIfWait_def split: if_splits option.splits list.splits)
  then show ?case using user_skip by (simp add: recurring_def)
qed (simp_all add: recurring_def)

lemma recurring_reach: "(sched_step zone ends)\<^sup>*\<^sup>* s s' \<Longrightarrow> u \<noteq> 0 \<Longrightarrow> p \<noteq> 0 \<Longrightarrow> recurring t u p d s \<Longrightarrow> recurring t u p d s'"
  by (induction rule: rtranclp_induct) (auto intro: recurring_step)

text \<open>
  C35. A recurrent job is started again and again: in every reachable state that is not stopped the timer can start it once more, and
  two starts by the timer are at least its period apart, except that the second may follow the first at once when the job was
  declared to run immediately. The first start is due at once in any case, also after \<open>RNotImmediately\<close>.
\<close>

theorem sched_recurrent:
  assumes "u \<noteq> 0" "p \<noteq> 0" "sched_of j = Some (Recurrent u p d)" "(sched_step zone ends)\<^sup>*\<^sup>* (start_state t j) s"
  shows "(\<forall>i. Suc i < length (fired s) \<longrightarrow> snd (fired s ! Suc i) \<longrightarrow> (d \<or> 0 < i) \<longrightarrow> fst (fired s ! i) + int64 (u * p) \<le> fst (fired s ! Suc i))
    \<and> (\<not> stopped s \<longrightarrow> (\<exists>s'. (sched_step zone ends)\<^sup>*\<^sup>* s s' \<and> fired s' = fired s @ [(max (clock s) (due s), True)]))
    \<and> (\<exists>s'. sched_step zone ends (start_state t j) s' \<and> fired s' = [(t, True)])"
proof -
  have i: "recurring t u p d (start_state t j)" using assms(3) by (simp add: recurring_def start_state_def)
  have r: "recurring t u p d s" by (rule recurring_reach [OF assms(4,1,2) i])
  have gaps: "\<forall>i. Suc i < length (fired s) \<longrightarrow> snd (fired s ! Suc i) \<longrightarrow> (d \<or> 0 < i) \<longrightarrow> fst (fired s ! i) + int64 (u * p) \<le> fst (fired s ! Suc i)"
    using r by (auto simp: recurring_def wait_after_def)
  have "\<exists>s'. (sched_step zone ends)\<^sup>*\<^sup>* s s' \<and> fired s' = fired s @ [(max (clock s) (due s), True)]" if "\<not> stopped s"
  proof -
    let ?s = "s\<lparr>clock := clock s + max 0 (due s - clock s)\<rparr>"
    have c: "clock ?s = max (clock s) (due s)" by (simp add: max_def)
    have nd: "\<not> dead s" using r by (simp add: recurring_def)
    have "sched_step zone ends s ?s" by (rule sched_step.tick [OF nd]) simp
    moreover have rs: "recurring t u p d ?s" using r by (simp add: recurring_def)
    have "sched_step zone ends ?s (rearm zone ends (spawn True ?s))" using nd that by (intro sched_step.fire) (simp_all add: max_def)
    moreover have "fired (rearm zone ends (spawn True ?s)) = fired s @ [(max (clock s) (due s), True)]"
      using recurring_fire(2) [OF rs assms(1,2), of True zone ends] c by simp
    ultimately show ?thesis by (meson converse_rtranclp_into_rtranclp r_into_rtranclp)
  qed
  moreover have "\<exists>s'. sched_step zone ends (start_state t j) s' \<and> fired s' = [(t, True)]"
  proof -
    have "sched_step zone ends (start_state t j) (rearm zone ends (spawn True (start_state t j)))" by (rule sched_step.fire) (simp_all add: start_state_def)
    moreover have "fired (rearm zone ends (spawn True (start_state t j))) = [(t, True)]"
      using recurring_fire(2) [OF i assms(1,2), of True zone ends] by (simp add: start_state_def)
    ultimately show ?thesis by blast
  qed
  ultimately show ?thesis using gaps by blast
qed

theorem sched_recurrent_witness:
  "\<exists>j s'. ESeconds (RNotImmediately (Every [5])) = Ret j
    \<and> sched_step 0 \<lparr>EndOfMonth_Day = month_days 0, EndOfNextMonth_Day = next_month_days 0\<rparr> (start_state 0 j) s' \<and> fired s' = [(0, True)]"
proof -
  let ?j = "(RNotImmediately (Every [5]))\<lparr>sched_of := Some (Recurrent 5 Second True)\<rparr>"
  have "ESeconds (RNotImmediately (Every [5])) = Ret ?j" by (simp add: ESeconds_def timeOfDay_def RNotImmediately_def Every_def new_job_def)
  moreover have "\<exists>s'. sched_step 0 \<lparr>EndOfMonth_Day = month_days 0, EndOfNextMonth_Day = next_month_days 0\<rparr> (start_state 0 ?j) s' \<and> fired s' = [(0, True)]"
    using sched_recurrent [of 5 Second ?j True 0 "\<lparr>EndOfMonth_Day = month_days 0, EndOfNextMonth_Day = next_month_days 0\<rparr>" 0 "start_state 0 ?j"] by simp
  ultimately show ?thesis by blast
qed

text \<open>
  Two calls of the function of a job can overlap: the check of the flag and its setting are separate steps.
\<close>

lemma sched_overlap:
  assumes "u \<noteq> 0" "p \<noteq> 0" "sched_of j = Some (Recurrent u p False)" "\<not> isRunning j"
  shows "\<exists>s. (sched_step zone ends)\<^sup>*\<^sup>* (start_state t j) s \<and> tasks s = [Calling, Calling]"
proof -
  have i: "recurring t u p False (start_state t j)" using assms(3) by (simp add: recurring_def start_state_def)
  let ?s1 = "rearm zone ends (spawn True (start_state t j))" and ?s2 = "rearm zone ends (spawn True (rearm zone ends (spawn True (start_state t j))))"
  have s1: "sched_step zone ends (start_state t j) ?s1" by (rule sched_step.fire) (simp_all add: start_state_def)
  have f1: "recurring t u p False ?s1" "fired ?s1 = [(t, True)]"
    using recurring_fire [OF i assms(1,2), of True zone ends] by (simp_all add: start_state_def)
  have p1: "clock ?s1 = t \<and> \<not> stopped ?s1 \<and> \<not> dead ?s1 \<and> tasks ?s1 = [Checking] \<and> \<not> isRunning (job ?s1) \<and> due ?s1 = t"
    using f1 assms by (auto simp: recurring_def wait_after_def rearm_def spawn_def start_state_def nextDurationWaitToRun_def recurrent_next_def)
  have s2: "sched_step zone ends ?s1 ?s2" using p1 by (intro sched_step.fire) simp_all
  have f2: "recurring t u p False ?s2" using recurring_fire(1) [OF f1(1) assms(1,2), of True zone ends] p1 by simp
  then obtain sc where "sched_of (job ?s1) = Some sc" using f1(1) by (simp add: recurring_def)
  then have p2: "\<not> dead ?s2 \<and> tasks ?s2 = [Checking, Checking] \<and> \<not> isRunning (job ?s2)"
    using p1 f2 unfolding rearm_def [of _ _ "spawn True _"] by (auto simp: spawn_def recurring_def split: prod.splits)
  let ?j = "job ?s2"
  let ?a = "?s2\<lparr>tasks := [Setting, Checking], job := ?j\<rparr>" and ?b = "?s2\<lparr>tasks := [Setting, Setting], job := ?j\<rparr>"
  let ?c = "?s2\<lparr>tasks := [Calling, Setting], job := ?j\<lparr>isRunning := True\<rparr>\<rparr>" and ?d = "?s2\<lparr>tasks := [Calling, Calling], job := ?j\<lparr>isRunning := True\<rparr>\<rparr>"
  have "sched_step zone ends ?s2 ?a" using sched_step.task [of ?s2 0 Setting ?j zone ends] p2 by (simp add: task_step_def)
  moreover have "sched_step zone ends ?a ?b" using sched_step.task [of ?a 1 Setting ?j zone ends] p2 by (simp add: task_step_def)
  moreover have "sched_step zone ends ?b ?c" using sched_step.task [of ?b 0 Calling "?j\<lparr>isRunning := True\<rparr>" zone ends] p2 by (simp add: task_step_def)
  moreover have "sched_step zone ends ?c ?d" using sched_step.task [of ?c 1 Calling "?j\<lparr>isRunning := True\<rparr>" zone ends] p2 by (simp add: task_step_def)
  ultimately have "(sched_step zone ends)\<^sup>*\<^sup>* (start_state t j) ?d" using s1 s2 by (meson converse_rtranclp_into_rtranclp rtranclp.rtrancl_refl)
  then show ?thesis by (intro exI [of _ ?d]) simp
qed

text \<open>A job without a schedule runs once and then ends the program.\<close>

lemma sched_without_schedule: "\<exists>j s. Run [f] (Every []) = (Inr (), j) \<and> sched_step zone ends (start_state t j) s \<and> dead s"
proof -
  let ?j = "(Every [])\<lparr>fn := Some f, isStart := True, Quit := Some [], skipWait := Some []\<rparr>"
  have "Run [f] (Every []) = (Inr (), ?j)" by (simp add: Run_def Every_def new_job_def)
  moreover have "sched_step zone ends (start_state t ?j) (rearm zone ends (spawn True (start_state t ?j)))" by (rule sched_step.fire) (simp_all add: start_state_def)
  moreover have "dead (rearm zone ends (spawn True (start_state t ?j)))" by (simp add: rearm_def spawn_def start_state_def Every_def new_job_def)
  ultimately show ?thesis by blast
qed

end
