(* ===== verification/Log_Rotate.thy ===== *)
theory Log_Rotate
  imports Go_Time Outcome "HOL-Library.AList" "HOL-Library.Word"
begin

section \<open>Package slogrus: rotating log files\<close>

text \<open>
  \<^verbatim>\<open>slogrus/logrotate.go\<close>. The state is that of the logger and of the directory of the log file: a list of names with
  files or directories. Every call of the operating system may fail: \<open>faults\<close> gives for each coming call the error
  it ends with, and how many bytes a failing write has written. Paths are names inside the directory; the words that \<open>openNew\<close> puts before the text of an error are left out. The current time is part of the
  state. \<open>linux\<close> tells which of the two versions of \<^verbatim>\<open>chown\<close> is built: the one of Linux changes the owner of a file that has to exist.
\<close>

datatype entry = Directory (dir_size: nat) | File (data: string) (mode: nat)

record RotateConf =
  base :: string
  MaxSize :: int
  MaxAgeDays :: int
  MaxBackups :: int
  LocalTime :: bool
  Compress :: bool
  zone_of :: int
  linux :: bool

record lstate =
  dirents :: "(string \<times> entry) list"
  faults :: "(string \<times> nat) option list"
  now :: instant
  lsize :: int
  opened :: bool
  millStarted :: bool
  millCh :: bool

type_synonym 'a act = "lstate \<Rightarrow> (string + 'a) \<times> lstate"

definition bind_act :: "'a act \<Rightarrow> ('a \<Rightarrow> 'b act) \<Rightarrow> 'b act" where
  "bind_act m f s = (case m s of (Inl e, s') \<Rightarrow> (Inl e, s') | (Inr x, s') \<Rightarrow> f x s')"

definition ret :: "'a \<Rightarrow> 'a act" where
  "ret x s = (Inr x, s)"

definition fail_act :: "string \<Rightarrow> 'a act" where
  "fail_act e s = (Inl e, s)"

definition upd :: "(lstate \<Rightarrow> lstate) \<Rightarrow> unit act" where
  "upd f s = (Inr (), f s)"

subsection \<open>Operating system\<close>

definition sys_call :: "unit act" where
  "sys_call s =
     (case faults s of
        [] \<Rightarrow> (Inr (), s)
      | None # fs \<Rightarrow> (Inr (), s\<lparr>faults := fs\<rparr>)
      | Some (e, n) # fs \<Rightarrow> (Inl e, s\<lparr>faults := fs\<rparr>))"

definition put_file :: "string \<Rightarrow> entry \<Rightarrow> (string \<times> entry) list \<Rightarrow> (string \<times> entry) list" where
  "put_file name e ds = AList.update name e ds"

definition drop_file :: "string \<Rightarrow> (string \<times> entry) list \<Rightarrow> (string \<times> entry) list" where
  "drop_file name ds = filter (\<lambda>p. fst p \<noteq> name) ds"

definition not_exist :: string where
  "not_exist = ''no such file or directory''"

definition os_Stat :: "string \<Rightarrow> entry act" where
  "os_Stat name = bind_act sys_call (\<lambda>_ s. case map_of (dirents s) name of None \<Rightarrow> (Inl not_exist, s) | Some e \<Rightarrow> (Inr e, s))"

definition os_Rename :: "string \<Rightarrow> string \<Rightarrow> unit act" where
  "os_Rename old new = bind_act sys_call (\<lambda>_ s.
     case map_of (dirents s) old of
       None \<Rightarrow> (Inl not_exist, s)
     | Some e \<Rightarrow> if (case map_of (dirents s) new of Some (Directory _) \<Rightarrow> True | _ \<Rightarrow> False) then (Inl ''file exists'', s)
                 else (Inr (), s\<lparr>dirents := put_file new e (drop_file old (dirents s))\<rparr>))"

definition chown :: "bool \<Rightarrow> string \<Rightarrow> unit act" where
  "chown lnx name =
     (if \<not> lnx then ret ()
      else bind_act sys_call (\<lambda>_ s. case map_of (dirents s) name of None \<Rightarrow> (Inl not_exist, s) | Some e \<Rightarrow> (Inr (), s)))"

definition os_OpenTrunc :: "string \<Rightarrow> nat \<Rightarrow> unit act" where
  "os_OpenTrunc name md = bind_act sys_call (\<lambda>_ s.
     case map_of (dirents s) name of
       None \<Rightarrow> (Inr (), s\<lparr>dirents := put_file name (File [] md) (dirents s)\<rparr>)
     | Some (Directory _) \<Rightarrow> (Inl ''is a directory'', s)
     | Some (File d m) \<Rightarrow> (Inr (), s\<lparr>dirents := put_file name (File [] m) (dirents s)\<rparr>))"

definition os_OpenAppend :: "string \<Rightarrow> unit act" where
  "os_OpenAppend name = bind_act sys_call (\<lambda>_ s.
     case map_of (dirents s) name of Some (File d m) \<Rightarrow> (Inr (), s) | Some (Directory _) \<Rightarrow> (Inl ''is a directory'', s) | None \<Rightarrow> (Inl not_exist, s))"

definition os_Remove :: "string \<Rightarrow> unit act" where
  "os_Remove name = bind_act sys_call (\<lambda>_ s.
     case map_of (dirents s) name of None \<Rightarrow> (Inl not_exist, s) | Some e \<Rightarrow> (Inr (), s\<lparr>dirents := drop_file name (dirents s)\<rparr>))"

definition append_file :: "string \<Rightarrow> string \<Rightarrow> lstate \<Rightarrow> lstate" where
  "append_file name p s =
     (case map_of (dirents s) name of Some (File d m) \<Rightarrow> s\<lparr>dirents := put_file name (File (d @ p) m) (dirents s)\<rparr> | _ \<Rightarrow> s)"

subsection \<open>The logger\<close>

definition max_size :: "RotateConf \<Rightarrow> int" where
  "max_size cfg = (if MaxSize cfg = 0 then 10240 * 1024 else MaxSize cfg * 1024)"

text \<open>\<^verbatim>\<open>filepath.Ext\<close>: from the last period on.\<close>

definition Ext :: "string \<Rightarrow> string" where
  "Ext name = (let r = takeWhile (\<lambda>c. c \<noteq> CHR ''.'') (rev name) in if length r < length name then CHR ''.'' # rev r else [])"

definition prefixAndExt :: "RotateConf \<Rightarrow> string \<times> string" where
  "prefixAndExt cfg = (take (length (base cfg) - length (Ext (base cfg))) (base cfg) @ ''-'', Ext (base cfg))"

definition backupName :: "RotateConf \<Rightarrow> instant \<Rightarrow> string" where
  "backupName cfg t =
     (let ext = Ext (base cfg); prefix = take (length (base cfg) - length ext) (base cfg)
      in prefix @ ''-'' @ time_Format (if LocalTime cfg then zone_of cfg else 0) t @ ext)"

definition mill :: "lstate \<Rightarrow> lstate" where
  "mill s = s\<lparr>millStarted := True, millCh := True\<rparr>"

definition close_log :: "unit act" where
  "close_log s = (if \<not> opened s then (Inr (), s) else (case sys_call s of (r, s') \<Rightarrow> (r, s'\<lparr>opened := False\<rparr>)))"

definition openNew :: "RotateConf \<Rightarrow> unit act" where
  "openNew cfg =
     bind_act sys_call (\<lambda>_. \<lambda>s0.
       case os_Stat (base cfg) s0 of
         (r, s1) \<Rightarrow>
           bind_act
             (case r of
                Inl e \<Rightarrow> ret 384
              | Inr info \<Rightarrow>
                  bind_act (os_Rename (base cfg) (backupName cfg (now s1))) (\<lambda>_.
                  bind_act (chown (linux cfg) (base cfg)) (\<lambda>_. ret (case info of File d m \<Rightarrow> m | Directory _ \<Rightarrow> 0))))
             (\<lambda>md. bind_act (os_OpenTrunc (base cfg) md) (\<lambda>_. upd (\<lambda>s. s\<lparr>opened := True, lsize := 0\<rparr>))) s1)"

definition rotate :: "RotateConf \<Rightarrow> unit act" where
  "rotate cfg = bind_act close_log (\<lambda>_. bind_act (openNew cfg) (\<lambda>_. upd mill))"

definition openExistingOrNew :: "RotateConf \<Rightarrow> int \<Rightarrow> unit act" where
  "openExistingOrNew cfg writeLen =
     bind_act (upd mill) (\<lambda>_. \<lambda>s0.
       case os_Stat (base cfg) s0 of
         (Inl e, s1) \<Rightarrow> if e = not_exist then openNew cfg s1 else (Inl (''error getting log file info: '' @ e), s1)
       | (Inr info, s1) \<Rightarrow>
           let sz = (case info of File d m \<Rightarrow> int (length d) | Directory n \<Rightarrow> int n)
           in if sz + writeLen \<ge> max_size cfg then rotate cfg s1
              else (case os_OpenAppend (base cfg) s1 of
                      (Inl e, s2) \<Rightarrow> openNew cfg s2
                    | (Inr _, s2) \<Rightarrow> (Inr (), s2\<lparr>opened := True, lsize := sz\<rparr>)))"

definition file_Write :: "RotateConf \<Rightarrow> string \<Rightarrow> int act" where
  "file_Write cfg p s =
     (case faults s of
        Some (e, n) # fs \<Rightarrow>
          (let k = min n (length p); s' = append_file (base cfg) (take k p) s
           in (Inl e, s'\<lparr>faults := fs, lsize := lsize s + int k\<rparr>))
      | fs \<Rightarrow> (Inr (int (length p)), (append_file (base cfg) p s)\<lparr>faults := tl fs, lsize := lsize s + int (length p)\<rparr>))"

text \<open>One round of \<^verbatim>\<open>writeFromBuffToFile\<close>, with the bytes taken from the buffer.\<close>

definition write_chunk :: "RotateConf \<Rightarrow> string \<Rightarrow> int act" where
  "write_chunk cfg p s =
     (if int (length p) > max_size cfg then (Inl ''write length exceeds maximum file size'', s)
      else bind_act (if \<not> opened s then openExistingOrNew cfg (int (length p)) else ret ()) (\<lambda>_. \<lambda>s1.
             bind_act (if lsize s1 + int (length p) > max_size cfg then rotate cfg else ret ()) (\<lambda>_. file_Write cfg p) s1) s)"

subsection \<open>Old log files\<close>

definition has_prefix :: "string \<Rightarrow> string \<Rightarrow> bool" where
  "has_prefix s p \<longleftrightarrow> take (length p) s = p"

definition has_suffix :: "string \<Rightarrow> string \<Rightarrow> bool" where
  "has_suffix s x \<longleftrightarrow> length x \<le> length s \<and> drop (length s - length x) s = x"

definition compressSuffix :: string where
  "compressSuffix = ''.gz''"

text \<open>A name shorter than its prefix and extension together makes the slice panic: \<open>None\<close>.\<close>

definition timeFromName :: "string \<Rightarrow> string \<Rightarrow> string \<Rightarrow> instant option option" where
  "timeFromName name prefix ext =
     (if \<not> has_prefix name prefix \<or> \<not> has_suffix name ext then Some None
      else if length name < length prefix + length ext then None
      else Some (time_Parse (take (length name - length ext - length prefix) (drop (length prefix) name))))"

type_synonym logInfo = "instant \<times> string"

definition log_info :: "RotateConf \<Rightarrow> string \<times> entry \<Rightarrow> logInfo option option" where
  "log_info cfg = (\<lambda>(name, e).
     case prefixAndExt cfg of (prefix, ext) \<Rightarrow>
       if is_Directory e then Some None
       else case timeFromName name prefix ext of
              None \<Rightarrow> None
            | Some (Some t) \<Rightarrow> Some (Some (t, name))
            | Some None \<Rightarrow>
                (case timeFromName name prefix (ext @ compressSuffix) of
                   None \<Rightarrow> None
                 | Some (Some t) \<Rightarrow> Some (Some (t, name))
                 | Some None \<Rightarrow> Some None))"

fun collect :: "('a \<Rightarrow> 'b option option) \<Rightarrow> 'a list \<Rightarrow> 'b list option" where
  "collect f [] = Some []"
| "collect f (x # xs) =
     (case f x of None \<Rightarrow> None | Some r \<Rightarrow>
       (case collect f xs of None \<Rightarrow> None | Some ys \<Rightarrow> Some (case r of None \<Rightarrow> ys | Some y \<Rightarrow> y # ys)))"

text \<open>Newest first; among equal times in the order of the directory.\<close>

definition byFormatTime :: "logInfo list \<Rightarrow> logInfo list" where
  "byFormatTime fs = sort_key (\<lambda>f. - fst f) fs"

definition getOldLogFiles :: "RotateConf \<Rightarrow> logInfo list option act" where
  "getOldLogFiles cfg = bind_act sys_call (\<lambda>_ s. (Inr (map_option byFormatTime (collect (log_info cfg) (dirents s))), s))"

definition trim_gz :: "string \<Rightarrow> string" where
  "trim_gz name = (if has_suffix name compressSuffix then take (length name - length compressSuffix) name else name)"

text \<open>The names seen so far, as a list without repetitions.\<close>

fun keep_loop :: "nat \<Rightarrow> string list \<Rightarrow> logInfo list \<Rightarrow> logInfo list \<times> logInfo list" where
  "keep_loop k preserved [] = ([], [])"
| "keep_loop k preserved (f # fs) =
     (let fname = trim_gz (snd f); preserved' = List.insert fname preserved;
          (remaining, remove) = keep_loop k preserved' fs
      in if length preserved' > k then (remaining, f # remove) else (f # remaining, remove))"

definition too_many :: "RotateConf \<Rightarrow> logInfo list \<Rightarrow> logInfo list \<times> logInfo list" where
  "too_many cfg fs =
     (if 0 < MaxBackups cfg \<and> MaxBackups cfg < int (length fs) then keep_loop (nat (MaxBackups cfg)) [] fs else (fs, []))"

definition too_old :: "RotateConf \<Rightarrow> instant \<Rightarrow> logInfo list \<Rightarrow> logInfo list \<times> logInfo list" where
  "too_old cfg t fs =
     (if 0 < MaxAgeDays cfg
      then let cutoff = t - signed_take_bit 63 (24 * Hour * MaxAgeDays cfg) in (filter (\<lambda>f. \<not> fst f < cutoff) fs, filter (\<lambda>f. fst f < cutoff) fs)
      else (fs, []))"

text \<open>Errors do not end the loops; the first one is kept.\<close>

fun remove_all :: "logInfo list \<Rightarrow> string option \<Rightarrow> lstate \<Rightarrow> string option \<times> lstate" where
  "remove_all [] err s = (err, s)"
| "remove_all (f # fs) err s =
     (case os_Remove (snd f) s of (r, s') \<Rightarrow> remove_all fs (if err = None then (case r of Inl e \<Rightarrow> Some e | Inr _ \<Rightarrow> None) else err) s')"

text \<open>\<^verbatim>\<open>endec.GzipFile\<close> without a password: \<open>gz\<close> is the compression, a failing copy leaves the beginning.\<close>

definition GzipFile :: "(string \<Rightarrow> string) \<Rightarrow> string \<Rightarrow> string \<Rightarrow> unit act" where
  "GzipFile gz dst src =
     bind_act (os_OpenAppend src) (\<lambda>_. bind_act (os_Stat src) (\<lambda>info.
     bind_act (os_OpenTrunc dst (mode info)) (\<lambda>_. \<lambda>s.
       (case faults s of
          Some (e, n) # fs \<Rightarrow> (Inl e, (append_file dst (take n (gz (data info))) s)\<lparr>faults := fs\<rparr>)
        | fs \<Rightarrow> os_Remove src ((append_file dst (gz (data info)) s)\<lparr>faults := tl fs\<rparr>)))))"

fun compress_all :: "RotateConf \<Rightarrow> (string \<Rightarrow> string) \<Rightarrow> logInfo list \<Rightarrow> string option \<Rightarrow> lstate \<Rightarrow> string option \<times> lstate" where
  "compress_all cfg gz [] err s = (err, s)"
| "compress_all cfg gz (f # fs) err s =
     (case os_Stat (snd f) s of (i, s1) \<Rightarrow>
     (case GzipFile gz (snd f @ compressSuffix) (snd f) s1 of (r, s2) \<Rightarrow>
       let err1 = (if err = None then (case r of Inl e \<Rightarrow> Some e | Inr _ \<Rightarrow> None) else err)
       in case i of
            Inl _ \<Rightarrow> compress_all cfg gz fs err1 s2
          | Inr _ \<Rightarrow>
              if err1 = None
              then (case chown (linux cfg) (snd f @ compressSuffix) s2 of
                      (Inl e, s3) \<Rightarrow> compress_all cfg gz fs (Some e) s3
                    | (Inr _, s3) \<Rightarrow> compress_all cfg gz fs None s3)
              else compress_all cfg gz fs err1 s2))"

text \<open>\<open>millRunOnce\<close>: the error it returns, or \<open>None\<close> for the outer option where it panics.\<close>

definition millRunOnce :: "RotateConf \<Rightarrow> (string \<Rightarrow> string) \<Rightarrow> lstate \<Rightarrow> (string option \<times> lstate) option" where
  "millRunOnce cfg gz s =
     (if MaxBackups cfg = 0 \<and> MaxAgeDays cfg = 0 \<and> \<not> Compress cfg then Some (None, s)
      else case getOldLogFiles cfg s of
        (Inl e, s1) \<Rightarrow> Some (Some e, s1)
      | (Inr None, s1) \<Rightarrow> None
      | (Inr (Some files), s1) \<Rightarrow>
          (case too_many cfg files of (files1, rm1) \<Rightarrow>
          (case too_old cfg (now s1) files1 of (files2, rm2) \<Rightarrow>
          (case remove_all (rm1 @ rm2) None s1 of (err, s2) \<Rightarrow>
             Some (compress_all cfg gz (if Compress cfg then filter (\<lambda>f. \<not> has_suffix (snd f) compressSuffix) files2 else []) err s2)))))"

subsection \<open>Goroutines\<close>

text \<open>
  \<open>Write\<close> puts its bytes into the buffer. The goroutine of \<^verbatim>\<open>writeFromBuffToFile\<close> takes bytes from its front, at least one and as many as the
  buffer gives (\<^verbatim>\<open>goring\<close> is not part of the repository: \<open>n\<close> stands for its choice), and writes them. The
  goroutine of \<^verbatim>\<open>millRun\<close> waits for a message. An outcome \<open>None\<close> is a panic, which ends the program.
\<close>

datatype log_event = LWrite string | LRound instant nat | LMill instant

definition millRun :: "RotateConf \<Rightarrow> (string \<Rightarrow> string) \<Rightarrow> instant \<Rightarrow> lstate \<Rightarrow> lstate option" where
  "millRun cfg gz t s =
     (if \<not> millCh s then Some s
      else map_option snd (millRunOnce cfg gz (s\<lparr>now := t, millCh := False\<rparr>)))"

definition log_step :: "RotateConf \<Rightarrow> (string \<Rightarrow> string) \<Rightarrow> log_event \<Rightarrow> string \<times> lstate \<Rightarrow> (string \<times> lstate) option" where
  "log_step cfg gz ev = (\<lambda>(buff, s).
     case ev of
       LWrite p \<Rightarrow> Some (buff @ p, s)
     | LRound t n \<Rightarrow>
         if take n buff = [] then Some (buff, s)
         else Some (drop n buff, snd (write_chunk cfg (take n buff) (s\<lparr>now := t\<rparr>)))
     | LMill t \<Rightarrow> map_option (Pair buff) (millRun cfg gz t s))"

fun log_run :: "RotateConf \<Rightarrow> (string \<Rightarrow> string) \<Rightarrow> log_event list \<Rightarrow> string \<times> lstate \<Rightarrow> (string \<times> lstate) option" where
  "log_run cfg gz [] st = Some st"
| "log_run cfg gz (ev # evs) st = Option.bind (log_step cfg gz ev st) (log_run cfg gz evs)"

subsection \<open>Levels\<close>

text \<open>The levels a hook fires for; \<^verbatim>\<open>logrus.AllLevels\<close> is an argument.\<close>

definition Levels :: "32 word list \<Rightarrow> 32 word \<Rightarrow> 32 word list outcome" where
  "Levels AllLevels level =
     (if level \<ge> 100 then Ret [100 - level]
      else if unat level + 1 \<le> length AllLevels then Ret (take (unat level + 1) AllLevels)
      else Panic)"

end
