(* ===== verification/Log_Refine.thy ===== *)
theory Log_Refine
  imports Log_Rotate
begin

section \<open>Package slogrus: what is kept of a log\<close>

text \<open>
  The log as its backups, oldest first, and the current file, against the files of the directory.
\<close>

type_synonym alog = "string list \<times> string option \<times> bool"

text \<open>A rotation moves the file aside. With the \<^verbatim>\<open>chown\<close> of Linux it fails after that, and what was to be written is lost.\<close>

definition rotated :: "RotateConf \<Rightarrow> string list \<Rightarrow> string \<Rightarrow> string \<Rightarrow> alog" where
  "rotated cfg bs c p = (bs @ [c], if linux cfg then None else Some p, \<not> linux cfg)"

definition abs_write :: "RotateConf \<Rightarrow> string \<Rightarrow> alog \<Rightarrow> alog" where
  "abs_write cfg p = (\<lambda>(bs, cur, op).
     if int (length p) > max_size cfg then (bs, cur, op)
     else case cur of
            None \<Rightarrow> (bs, Some p, True)
          | Some c \<Rightarrow>
              if (if op then int (length c + length p) > max_size cfg else int (length c + length p) \<ge> max_size cfg)
              then rotated cfg bs c p else (bs, Some (c @ p), True))"

definition log_holds :: "RotateConf \<Rightarrow> string list \<Rightarrow> lstate \<Rightarrow> alog \<Rightarrow> bool" where
  "log_holds cfg names s = (\<lambda>(bs, cur, op).
     faults s = [] \<and> opened s = op \<and> (op \<longrightarrow> (\<exists>c. cur = Some c \<and> lsize s = int (length c)))
     \<and> (case cur of None \<Rightarrow> map_of (dirents s) (base cfg) = None | Some c \<Rightarrow> (\<exists>m. map_of (dirents s) (base cfg) = Some (File c m)))
     \<and> length names = length bs \<and> distinct names \<and> base cfg \<notin> set names
     \<and> (\<forall>i < length bs. \<exists>m. map_of (dirents s) (names ! i) = Some (File (bs ! i) m))
     \<and> (\<forall>n. map_of (dirents s) n \<noteq> None \<longrightarrow> n = base cfg \<or> n \<in> set names))"

subsection \<open>Without faults\<close>

lemma sys_call_ok [simp]: "faults s = [] \<Longrightarrow> sys_call s = (Inr (), s)"
  by (simp add: sys_call_def)

lemma sys_ok [simp]: "faults s = [] \<Longrightarrow> bind_act sys_call f s = f () s"
  by (simp add: bind_act_def sys_call_def)

lemma act_simps [simp]: "bind_act (ret x) f = f x" "bind_act (upd g) h s = h () (g s)" "ret x s = (Inr x, s)" "upd g s = (Inr (), g s)"
  by (simp_all add: bind_act_def ret_def upd_def fun_eq_iff)

lemma map_of_put [simp]: "map_of (put_file n e ds) = (map_of ds)(n \<mapsto> e)"
  by (simp add: put_file_def update_conv')

lemma map_of_drop [simp]: "map_of (drop_file n ds) = (map_of ds)(n := None)"
  unfolding drop_file_def by (induction ds) (auto simp: fun_eq_iff)

lemma Stat_ok [simp]: "faults s = [] \<Longrightarrow> os_Stat n s = (case map_of (dirents s) n of None \<Rightarrow> Inl not_exist | Some e \<Rightarrow> Inr e, s)"
  by (simp add: os_Stat_def split: option.splits)

lemma bind_Inr: "m s = (Inr x, s') \<Longrightarrow> bind_act m f s = f x s'" "m s = (Inl e, s') \<Longrightarrow> bind_act m f s = (Inl e, s')"
  by (simp_all add: bind_act_def)

lemma openNew_missing:
  assumes "faults s = []" "map_of (dirents s) (base cfg) = None"
  shows "openNew cfg s = (Inr (), s\<lparr>dirents := put_file (base cfg) (File [] 384) (dirents s), opened := True, lsize := 0\<rparr>)"
  using assms by (simp add: openNew_def os_OpenTrunc_def bind_Inr(1))

lemma openNew_there:
  assumes "faults s = []" "map_of (dirents s) (base cfg) = Some (File c m)" "backupName cfg (now s) \<noteq> base cfg" "map_of (dirents s) (backupName cfg (now s)) = None"
  shows "openNew cfg s =
     (let s1 = s\<lparr>dirents := put_file (backupName cfg (now s)) (File c m) (drop_file (base cfg) (dirents s))\<rparr>
      in if linux cfg then (Inl not_exist, s1)
         else (Inr (), s1\<lparr>dirents := put_file (base cfg) (File [] m) (dirents s1), opened := True, lsize := 0\<rparr>))"
proof -
  let ?s1 = "s\<lparr>dirents := put_file (backupName cfg (now s)) (File c m) (drop_file (base cfg) (dirents s))\<rparr>"
  have r: "os_Rename (base cfg) (backupName cfg (now s)) s = (Inr (), ?s1)" using assms by (simp add: os_Rename_def)
  have ch: "chown (linux cfg) (base cfg) ?s1 = (if linux cfg then Inl not_exist else Inr (), ?s1)" using assms by (simp add: chown_def)
  show ?thesis
  proof (cases "linux cfg")
    case True
    then show ?thesis using assms ch by (simp add: openNew_def bind_act_def r)
  next
    case False
    then have "chown False (base cfg) ?s1 = (Inr (), ?s1)" using ch by simp
    then show ?thesis using assms False by (simp add: openNew_def bind_act_def r os_OpenTrunc_def chown_def ret_def)
  qed
qed

lemma Ext_parts: "take (length name - length (Ext name)) name @ Ext name = name"
proof -
  define r d where "r = takeWhile (\<lambda>c. c \<noteq> CHR ''.'') (rev name)" and "d = dropWhile (\<lambda>c. c \<noteq> CHR ''.'') (rev name)"
  have e: "name = rev d @ rev r" unfolding r_def d_def by (metis rev_append rev_rev_ident takeWhile_dropWhile_id)
  have x: "Ext name = (if length r < length name then CHR ''.'' # rev r else [])" by (simp add: Ext_def Let_def r_def)
  show ?thesis
  proof (cases d)
    case Nil
    then have "length r = length name" using e by simp
    then show ?thesis using x by simp
  next
    case (Cons c ds)
    then have "c = CHR ''.''" using hd_dropWhile [of "\<lambda>c. c \<noteq> CHR ''.''" "rev name"] d_def by auto
    then have n: "name = rev ds @ CHR ''.'' # rev r" using e Cons by simp
    then have "length name = length ds + Suc (length r)" by simp
    then have "Ext name = CHR ''.'' # rev r" using x by simp
    then show ?thesis by (subst (3) n, subst n) (simp add: n)
  qed
qed

lemma base_parts: "take (length (base cfg) - length (Ext (base cfg))) (base cfg) @ Ext (base cfg) = base cfg"
  by (rule Ext_parts)

lemma backup_not_base: "backupName cfg t \<noteq> base cfg"
proof
  assume "backupName cfg t = base cfg"
  then have "length (backupName cfg t) = length (take (length (base cfg) - length (Ext (base cfg))) (base cfg) @ Ext (base cfg))" by (simp only: base_parts)
  then show False by (simp add: backupName_def Let_def)
qed

subsection \<open>One write\<close>

lemma rel_mill [simp]: "log_holds cfg names (mill s) a = log_holds cfg names s a" "log_holds cfg names (s\<lparr>now := t\<rparr>) a = log_holds cfg names s a"
  unfolding log_holds_def mill_def by (simp_all split: option.split prod.split)

lemma rel_append:
  assumes "log_holds cfg names s (bs, Some c, True)"
  shows "fst (file_Write cfg p s) = Inr (int (length p)) \<and> log_holds cfg names (snd (file_Write cfg p s)) (bs, Some (c @ p), True)"
proof -
  obtain m where m: "map_of (dirents s) (base cfg) = Some (File c m)" using assms by (auto simp: log_holds_def)
  have n: "names ! i \<noteq> base cfg" if "i < length bs" for i using assms that by (auto simp: log_holds_def in_set_conv_nth)
  have "faults s = []" "lsize s = int (length c)" using assms by (auto simp: log_holds_def)
  then show ?thesis using assms m n by (auto simp: file_Write_def append_file_def log_holds_def)
qed

lemma rel_new:
  assumes "log_holds cfg names s (bs, None, op)"
  shows "fst (openNew cfg s) = Inr () \<and> log_holds cfg names (snd (openNew cfg s)) (bs, Some [], True)"
proof -
  have n: "names ! i \<noteq> base cfg" if "i < length bs" for i using assms that by (auto simp: log_holds_def in_set_conv_nth)
  show ?thesis using assms n openNew_missing [of s cfg] by (auto simp: log_holds_def)
qed

lemma rel_open: "log_holds cfg names s (bs, Some c, op) \<Longrightarrow> log_holds cfg names (s\<lparr>opened := True, lsize := int (length c)\<rparr>) (bs, Some c, True)"
  by (auto simp: log_holds_def)

lemma rotate_there:
  assumes "faults s = []" "map_of (dirents s) (base cfg) = Some (File c m)" "map_of (dirents s) (backupName cfg (now s)) = None"
  shows "rotate cfg s =
     (let s1 = s\<lparr>opened := False, dirents := put_file (backupName cfg (now s)) (File c m) (drop_file (base cfg) (dirents s))\<rparr>
      in if linux cfg then (Inl not_exist, s1)
         else (Inr (), mill (s1\<lparr>dirents := put_file (base cfg) (File [] m) (dirents s1), opened := True, lsize := 0\<rparr>)))"
proof -
  let ?s = "s\<lparr>opened := False\<rparr>"
  have "close_log s = (Inr (), ?s)" using assms(1) by (cases "opened s") (simp_all add: close_log_def)
  moreover have "openNew cfg ?s = (let s1 = ?s\<lparr>dirents := put_file (backupName cfg (now s)) (File c m) (drop_file (base cfg) (dirents s))\<rparr>
      in if linux cfg then (Inl not_exist, s1) else (Inr (), s1\<lparr>dirents := put_file (base cfg) (File [] m) (dirents s1), opened := True, lsize := 0\<rparr>))"
    using openNew_there [of ?s cfg c m] assms backup_not_base [of cfg "now s"] by simp
  ultimately show ?thesis by (simp add: rotate_def bind_act_def Let_def upd_def)
qed

lemma rel_rotate:
  assumes "log_holds cfg names s (bs, Some c, op)" "backupName cfg (now s) \<notin> set names"
  shows "fst (rotate cfg s) = (if linux cfg then Inl not_exist else Inr ())
    \<and> log_holds cfg (names @ [backupName cfg (now s)]) (snd (rotate cfg s)) (rotated cfg bs c [])"
proof -
  obtain m where m: "map_of (dirents s) (base cfg) = Some (File c m)" using assms by (auto simp: log_holds_def)
  let ?b = "backupName cfg (now s)"
  have b: "?b \<noteq> base cfg" by (rule backup_not_base)
  have free: "map_of (dirents s) ?b = None" using assms b by (auto simp: log_holds_def)
  have f: "faults s = []" using assms by (simp add: log_holds_def)
  have old: "names ! i \<noteq> base cfg \<and> names ! i \<noteq> ?b \<and> (\<exists>m. map_of (dirents s) (names ! i) = Some (File (bs ! i) m))" if "i < length bs" for i
    using assms that by (auto simp: log_holds_def in_set_conv_nth)
  have l: "length names = length bs" using assms by (simp add: log_holds_def)
  have "\<exists>k. map_of ((dirents s)) (names ! i) = Some (File (bs ! i) k)" if "i < length bs" for i using old that by blast
  then have files: "\<exists>k. ((map_of (dirents s))(base cfg := x, ?b \<mapsto> File c m)) ((names @ [?b]) ! i) = Some (File ((bs @ [c]) ! i) k)" if "i < Suc (length bs)" for i x
    using that old l by (cases "i < length bs") (auto simp: nth_append less_Suc_eq)
  have files': "\<exists>k. ((map_of (dirents s))(?b \<mapsto> File c m, base cfg := x)) ((names @ [?b]) ! i) = Some (File ((bs @ [c]) ! i) k)" if "i < Suc (length bs)" for i x
    using files [OF that, of x] b by (simp add: fun_upd_twist)
  have dom: "n = base cfg \<or> n \<in> set (names @ [?b])" if "((map_of (dirents s))(base cfg := x, ?b \<mapsto> File c m)) n \<noteq> None" for n x
    using that assms by (auto simp: log_holds_def split: if_splits)
  have fin: "distinct (names @ [?b]) \<and> base cfg \<notin> set (names @ [?b])" using assms b by (auto simp: log_holds_def)
  show ?thesis
    using rotate_there [OF f m free] f fin l b files files' dom unfolding rotated_def log_holds_def
    by (auto simp: Let_def mill_def fun_upd_twist)
qed

lemma write_chunk_rel:
  assumes "log_holds cfg names s (bs, cur, op)" "backupName cfg (now s) \<notin> set names"
  shows "\<exists>names'. log_holds cfg names' (snd (write_chunk cfg p s)) (abs_write cfg p (bs, cur, op)) \<and> (names' = names \<or> names' = names @ [backupName cfg (now s)])"
proof (cases "int (length p) > max_size cfg")
  case True
  then show ?thesis using assms by (intro exI [of _ names]) (simp add: write_chunk_def abs_write_def)
next
  case small: False
  have f: "faults s = []" using assms(1) by (simp add: log_holds_def)
  show ?thesis
  proof (cases op)
    case True
    then obtain c where c: "cur = Some c" "lsize s = int (length c)" "opened s" using assms(1) by (auto simp: log_holds_def)
    show ?thesis
    proof (cases "lsize s + int (length p) > max_size cfg")
      case rot: True
      note r = rel_rotate [OF assms(1) [unfolded c(1)] assms(2)]
      show ?thesis
      proof (cases "linux cfg")
        case True
        then have "write_chunk cfg p s = (Inl not_exist, snd (rotate cfg s))" using small c(3) rot r by (cases "rotate cfg s") (simp add: write_chunk_def bind_act_def)
        then show ?thesis using r small rot c \<open>op\<close> True by (auto simp: abs_write_def rotated_def)
      next
        case False
        then have w: "write_chunk cfg p s = file_Write cfg p (snd (rotate cfg s))" using small c(3) rot r by (cases "rotate cfg s") (simp add: write_chunk_def bind_act_def)
        have "log_holds cfg (names @ [backupName cfg (now s)]) (snd (rotate cfg s)) (bs @ [c], Some [], True)" using r False by (simp add: rotated_def)
        then show ?thesis using rel_append [of cfg _ _ "bs @ [c]" "[]" p] w small rot c \<open>op\<close> False by (auto simp: abs_write_def rotated_def)
      qed
    next
      case False
      then have "write_chunk cfg p s = file_Write cfg p s" using small c by (simp add: write_chunk_def)
      then show ?thesis using rel_append [of cfg names s bs c p] assms(1) small False c \<open>op\<close> by (auto simp: abs_write_def)
    qed
  next
    case False
    then have o: "\<not> opened s" using assms(1) by (simp add: log_holds_def)
    let ?s = "mill s"
    have ms: "log_holds cfg names ?s (bs, cur, op)" "now ?s = now s" "faults ?s = []" using assms(1) by simp (simp_all add: mill_def f)
    let ?m = "bind_act (openExistingOrNew cfg (int (length p)))
      (\<lambda>_. \<lambda>s1. bind_act (if lsize s1 + int (length p) > max_size cfg then rotate cfg else ret ()) (\<lambda>_. file_Write cfg p) s1) s"
    have w: "write_chunk cfg p s = ?m" using small o by (simp add: write_chunk_def)
    have new: "\<exists>names'. log_holds cfg names' (snd ?m) a \<and> names' = ns"
      if "openExistingOrNew cfg (int (length p)) s = (Inr (), s1)" "log_holds cfg ns s1 (bs', Some c, True)" "int (length c + length p) \<le> max_size cfg" "a = (bs', Some (c @ p), True)" for s1 ns bs' c a
    proof -
      have "lsize s1 = int (length c)" using that(2) by (auto simp: log_holds_def)
      then have "?m = file_Write cfg p s1" using that(1,3) by (simp add: bind_act_def [of "openExistingOrNew _ _"])
      then show ?thesis using rel_append [OF that(2), of p] that(4) by auto
    qed
    show ?thesis
    proof (cases cur)
      case None
      have e: "openExistingOrNew cfg (int (length p)) s = openNew cfg ?s" using ms None by (simp add: openExistingOrNew_def log_holds_def)
      obtain s1 where "openNew cfg ?s = (Inr (), s1)" "log_holds cfg names s1 (bs, Some [], True)"
        using rel_new [of cfg names ?s bs op] ms(1) None by (cases "openNew cfg ?s") auto
      then show ?thesis using new [of s1 names bs "[]"] e w small None by (auto simp: abs_write_def)
    next
      case (Some c)
      obtain m where m: "map_of (dirents ?s) (base cfg) = Some (File c m)" using ms(1) Some by (auto simp: log_holds_def)
      show ?thesis
      proof (cases "int (length c) + int (length p) \<ge> max_size cfg")
        case rot: True
        have e: "openExistingOrNew cfg (int (length p)) s = rotate cfg ?s" using ms(3) m rot by (simp add: openExistingOrNew_def)
        note r = rel_rotate [OF ms(1) [unfolded Some]]
        show ?thesis
        proof (cases "linux cfg")
          case True
          then have "?m = (Inl not_exist, snd (rotate cfg ?s))" using e r assms(2) ms(2) by (cases "rotate cfg ?s") (simp add: bind_act_def [of "openExistingOrNew _ _"])
          then show ?thesis using w r assms(2) ms(2) small rot Some False True by (auto simp: abs_write_def rotated_def)
        next
          case nl: False
          then obtain s1 where "rotate cfg ?s = (Inr (), s1)" "log_holds cfg (names @ [backupName cfg (now s)]) s1 (bs @ [c], Some [], True)"
            using r assms(2) ms(2) by (cases "rotate cfg ?s") (auto simp: rotated_def)
          then show ?thesis using new [of s1 "names @ [backupName cfg (now s)]" "bs @ [c]" "[]"] e w small rot Some False nl by (auto simp: abs_write_def rotated_def)
        qed
      next
        case le: False
        have e: "openExistingOrNew cfg (int (length p)) s = (Inr (), ?s\<lparr>opened := True, lsize := int (length c)\<rparr>)"
          using ms(3) m le by (simp add: openExistingOrNew_def os_OpenAppend_def)
        have "log_holds cfg names (?s\<lparr>opened := True, lsize := int (length c)\<rparr>) (bs, Some c, True)" using rel_open ms(1) Some by blast
        from new [OF e this _ refl] obtain names' where "log_holds cfg names' (snd ?m) (bs, Some (c @ p), True)" "names' = names" using le by auto
        moreover have "abs_write cfg p (bs, cur, op) = (bs, Some (c @ p), True)" using small le Some False by (simp add: abs_write_def)
        ultimately show ?thesis unfolding w by auto
      qed
    qed
  qed
qed

subsection \<open>Many writes\<close>

definition name_zone :: "RotateConf \<Rightarrow> int" where
  "name_zone cfg = (if LocalTime cfg then zone_of cfg else 0)"

definition stamp :: "RotateConf \<Rightarrow> instant \<Rightarrow> int" where
  "stamp cfg t = (t + name_zone cfg) div 1000000"

text \<open>Zones are whole minutes and at most a day off, and years have four digits.\<close>

definition stamp_ok :: "RotateConf \<Rightarrow> instant \<Rightarrow> bool" where
  "stamp_ok cfg t \<longleftrightarrow> name_zone cfg mod Minute = 0 \<and> \<bar>name_zone cfg\<bar> \<le> 24 * Hour
     \<and> 0 \<le> fst (civil (local_day (name_zone cfg) t)) \<and> fst (civil (local_day (name_zone cfg) t)) < 10000"

lemma stamp_parse: "stamp_ok cfg t \<Longrightarrow> time_Parse (time_Format (name_zone cfg) t) = Some (stamp cfg t * 1000000 - name_zone cfg)"
proof -
  assume ok: "stamp_ok cfg t"
  obtain y m d where "civil (local_day (name_zone cfg) t) = (y, m, d)" by (cases "civil (local_day (name_zone cfg) t)") auto
  then have "time_Parse (time_Format (name_zone cfg) t) = Some (t - (t + name_zone cfg) mod 1000000)" using ok by (intro Parse_Format) (auto simp: stamp_ok_def)
  moreover have "t - (t + name_zone cfg) mod 1000000 = stamp cfg t * 1000000 - name_zone cfg"
    using div_mult_mod_eq [of "t + name_zone cfg" 1000000] unfolding stamp_def by linarith
  ultimately show ?thesis by simp
qed

lemma backup_inj: "stamp_ok cfg t \<Longrightarrow> stamp_ok cfg t' \<Longrightarrow> backupName cfg t = backupName cfg t' \<Longrightarrow> stamp cfg t = stamp cfg t'"
proof -
  assume ok: "stamp_ok cfg t" "stamp_ok cfg t'" and "backupName cfg t = backupName cfg t'"
  then have "time_Format (name_zone cfg) t = time_Format (name_zone cfg) t'" by (simp add: backupName_def Let_def name_zone_def split: if_splits)
  then show ?thesis using stamp_parse [OF ok(1)] stamp_parse [OF ok(2)] by simp
qed

definition later_stamps :: "RotateConf \<Rightarrow> instant list \<Rightarrow> bool" where
  "later_stamps cfg ts \<longleftrightarrow> sorted_wrt (<) (map (stamp cfg) ts) \<and> (\<forall>t \<in> set ts. stamp_ok cfg t)"

definition round_times :: "log_event list \<Rightarrow> instant list" where
  "round_times evs = concat (map (\<lambda>ev. case ev of LRound t n \<Rightarrow> [t] | _ \<Rightarrow> []) evs)"

definition written_text :: "log_event list \<Rightarrow> string" where
  "written_text evs = concat (map (\<lambda>ev. case ev of LWrite p \<Rightarrow> p | _ \<Rightarrow> []) evs)"

text \<open>Backups made before the rounds still to come.\<close>

definition earlier :: "RotateConf \<Rightarrow> string list \<Rightarrow> instant list \<Rightarrow> bool" where
  "earlier cfg names ts \<longleftrightarrow> (\<forall>n \<in> set names. \<exists>t'. n = backupName cfg t' \<and> stamp_ok cfg t' \<and> (\<forall>t \<in> set ts. stamp cfg t' < stamp cfg t))"

lemma earlier_fresh: "earlier cfg names (t # ts) \<Longrightarrow> stamp_ok cfg t \<Longrightarrow> backupName cfg t \<notin> set names"
proof
  assume e: "earlier cfg names (t # ts)" "stamp_ok cfg t" "backupName cfg t \<in> set names"
  then obtain t' where "backupName cfg t = backupName cfg t'" "stamp_ok cfg t'" "stamp cfg t' < stamp cfg t" by (auto simp: earlier_def)
  then show False using backup_inj [OF e(2)] by fastforce
qed

lemma earlier_next:
  assumes "earlier cfg names (t # ts)" "later_stamps cfg (t # ts)" "names' = names \<or> names' = names @ [backupName cfg t]"
  shows "earlier cfg names' ts"
proof -
  have "earlier cfg names ts" using assms(1) unfolding earlier_def by fastforce
  moreover have "earlier cfg [backupName cfg t] ts" using assms(2) by (auto simp: earlier_def later_stamps_def)
  ultimately show ?thesis using assms(3) by (auto simp: earlier_def)
qed

lemma mill_idle:
  assumes "MaxBackups cfg = 0" "MaxAgeDays cfg = 0" "\<not> Compress cfg" "log_holds cfg names s a"
  shows "\<exists>s'. millRun cfg gz t s = Some s' \<and> log_holds cfg names s' a"
proof -
  have "log_holds cfg names (s\<lparr>now := t, millCh := False\<rparr>) a" using assms(4) by (cases a; cases "fst (snd a)") (simp_all add: log_holds_def)
  then show ?thesis using assms by (auto simp: millRun_def millRunOnce_def)
qed

lemma log_run_rel:
  assumes "MaxBackups cfg = 0" "MaxAgeDays cfg = 0" "\<not> Compress cfg"
    and "log_holds cfg names s a" "later_stamps cfg (round_times evs)" "earlier cfg names (round_times evs)"
  shows "\<exists>ps names' buff' s'. log_run cfg gz evs (buff, s) = Some (buff', s') \<and> buff @ written_text evs = concat ps @ buff'
    \<and> log_holds cfg names' s' (fold (abs_write cfg) ps a)"
  using assms(4-6)
proof (induction evs arbitrary: names s a buff)
  case Nil
  then show ?case by - (rule exI [of _ "[]"], rule exI [of _ names], rule exI [of _ buff], rule exI [of _ s], simp add: written_text_def)
next
  case (Cons ev evs)
  show ?case
  proof (cases ev)
    case (LWrite p)
    then obtain ps names' buff' s' where "log_run cfg gz evs (buff @ p, s) = Some (buff', s')" "(buff @ p) @ written_text evs = concat ps @ buff'"
        "log_holds cfg names' s' (fold (abs_write cfg) ps a)"
      using Cons.IH [of names s a "buff @ p"] Cons.prems by (auto simp: round_times_def)
    then show ?thesis using LWrite by - (rule exI [of _ ps], rule exI [of _ names'], rule exI [of _ buff'], rule exI [of _ s'], simp add: log_step_def written_text_def)
  next
    case (LMill t)
    obtain s1 where s1: "millRun cfg gz t s = Some s1" "log_holds cfg names s1 a" using mill_idle [OF assms(1-3) Cons.prems(1)] by blast
    then obtain ps names' buff' s' where "log_run cfg gz evs (buff, s1) = Some (buff', s')" "buff @ written_text evs = concat ps @ buff'"
        "log_holds cfg names' s' (fold (abs_write cfg) ps a)"
      using Cons.IH [of names s1 a buff] Cons.prems LMill by (auto simp: round_times_def)
    then show ?thesis using LMill s1 by - (rule exI [of _ ps], rule exI [of _ names'], rule exI [of _ buff'], rule exI [of _ s'], simp add: log_step_def written_text_def)
  next
    case (LRound t n)
    have ts: "round_times (ev # evs) = t # round_times evs" using LRound by (simp add: round_times_def)
    have later: "later_stamps cfg (round_times evs)" "stamp_ok cfg t" using Cons.prems(2) ts by (simp_all add: later_stamps_def)
    have we: "written_text (ev # evs) = written_text evs" using LRound by (simp add: written_text_def)
    show ?thesis
    proof (cases "take n buff = []")
      case True
      have "earlier cfg names (round_times evs)" using Cons.prems(3) ts unfolding earlier_def by auto
      then obtain ps names' buff' s' where "log_run cfg gz evs (buff, s) = Some (buff', s')" "buff @ written_text evs = concat ps @ buff'"
          "log_holds cfg names' s' (fold (abs_write cfg) ps a)"
        using Cons.IH [of names s a buff] Cons.prems(1) later(1) by blast
      then show ?thesis using LRound True we by - (rule exI [of _ ps], rule exI [of _ names'], rule exI [of _ buff'], rule exI [of _ s'], auto simp: log_step_def)
    next
      case False
      let ?p = "take n buff" and ?s = "s\<lparr>now := t\<rparr>"
      obtain bs cur op where a: "a = (bs, cur, op)" by (cases a) auto
      obtain names1 where n1: "log_holds cfg names1 (snd (write_chunk cfg ?p ?s)) (abs_write cfg ?p a)" "names1 = names \<or> names1 = names @ [backupName cfg t]"
        using write_chunk_rel [of cfg names ?s bs cur op ?p] Cons.prems(1) a earlier_fresh [OF Cons.prems(3) [unfolded ts] later(2)] by auto
      have "earlier cfg names1 (round_times evs)" using earlier_next [OF _ _ n1(2)] Cons.prems(2,3) ts by simp
      then obtain ps names' buff' s' where r: "log_run cfg gz evs (drop n buff, snd (write_chunk cfg ?p ?s)) = Some (buff', s')"
          "drop n buff @ written_text evs = concat ps @ buff'" "log_holds cfg names' s' (fold (abs_write cfg) ps (abs_write cfg ?p a))"
        using Cons.IH [OF n1(1) later(1), of "drop n buff"] by blast
      have "buff @ written_text evs = ?p @ concat ps @ buff'" using r(2) by (metis append_assoc append_take_drop_id)
      then show ?thesis using LRound False we r(1,3) by - (rule exI [of _ "?p # ps"], rule exI [of _ names'], rule exI [of _ buff'], rule exI [of _ s'], simp add: log_step_def)
    qed
  qed
qed

text \<open>What the abstract log keeps.\<close>

definition log_text :: "alog \<Rightarrow> string" where
  "log_text = (\<lambda>(bs, cur, op). concat bs @ (case cur of None \<Rightarrow> [] | Some c \<Rightarrow> c))"

definition fits :: "RotateConf \<Rightarrow> alog \<Rightarrow> bool" where
  "fits cfg = (\<lambda>(bs, cur, op). (\<forall>b \<in> set bs. int (length b) \<le> max_size cfg) \<and> (case cur of None \<Rightarrow> True | Some c \<Rightarrow> int (length c) \<le> max_size cfg))"

lemma abs_write_fits: "fits cfg a \<Longrightarrow> fits cfg (abs_write cfg p a)"
  by (cases a) (auto simp: fits_def abs_write_def rotated_def split: option.splits)

lemma abs_write_text:
  "\<not> linux cfg \<Longrightarrow> log_text (abs_write cfg p a) = log_text a @ (if int (length p) \<le> max_size cfg then p else [])"
  by (cases a) (auto simp: log_text_def abs_write_def rotated_def split: option.splits)

lemma abs_run: "fits cfg a \<Longrightarrow> fits cfg (fold (abs_write cfg) ps a)"
  "\<not> linux cfg \<Longrightarrow> log_text (fold (abs_write cfg) ps a) = log_text a @ concat (filter (\<lambda>p. int (length p) \<le> max_size cfg) ps)"
  by (induction ps arbitrary: a) (simp_all add: abs_write_fits abs_write_text)

end
