(* ===== verification/Log_Props.thy ===== *)
theory Log_Props
  imports Log_Refine
begin

section \<open>Package slogrus: properties of log files\<close>





definition sample_conf :: "int \<Rightarrow> bool \<Rightarrow> RotateConf" where
  "sample_conf k lnx = \<lparr>base = ''a.log'', MaxSize = 1, MaxAgeDays = 0, MaxBackups = k, LocalTime = False, Compress = False, zone_of = 0, linux = lnx\<rparr>"

definition sample_state :: "(string \<times> entry) list \<Rightarrow> lstate" where
  "sample_state ds = \<lparr>dirents = ds, faults = [], now = 0, lsize = 0, opened = False, millStarted = False, millCh = False\<rparr>"

lemma sample_facts: "max_size (sample_conf k lnx) = 1024" "base (sample_conf k lnx) = ''a.log''" "linux (sample_conf k lnx) = lnx" "name_zone (sample_conf k lnx) = 0"
  "MaxBackups (sample_conf k lnx) = k" "MaxAgeDays (sample_conf k lnx) = 0" "\<not> Compress (sample_conf k lnx)"
  by (simp_all add: sample_conf_def max_size_def name_zone_def)


text \<open>
  C37. On Linux a write that needs a rotation is lost: the current file is moved aside, changing the owner of the file that is no
  longer there fails, and the write ends with that error, with no current file and the bytes in none of the files.
\<close>

theorem log_rotation_loses:
  assumes "linux cfg" "faults s = []" "opened s" "map_of (dirents s) (base cfg) = Some (File c m)" "lsize s = int (length c)"
    and "map_of (dirents s) (backupName cfg (now s)) = None" "int (length p) \<le> max_size cfg" "max_size cfg < int (length c + length p)"
  shows "fst (write_chunk cfg p s) = Inl not_exist
    \<and> map_of (dirents (snd (write_chunk cfg p s))) = (map_of (dirents s))(base cfg := None, backupName cfg (now s) \<mapsto> File c m)
    \<and> \<not> opened (snd (write_chunk cfg p s))"
proof -
  have "write_chunk cfg p s = (Inl not_exist, snd (rotate cfg s))"
    using rotate_there [OF assms(2,4,6)] assms by (simp add: write_chunk_def bind_act_def Let_def)
  then show ?thesis using rotate_there [OF assms(2,4,6)] assms(1) by (simp add: Let_def)
qed

theorem log_rotation_loses_witness:
  "fst (write_chunk (sample_conf 1 True) (replicate 600 CHR ''y'') ((sample_state [(''a.log'', File (replicate 600 CHR ''x'') 0)])\<lparr>opened := True, lsize := 600\<rparr>)) = Inl not_exist"
proof -
  let ?s = "(sample_state [(''a.log'', File (replicate 600 CHR ''x'') 0)])\<lparr>opened := True, lsize := 600\<rparr>"
  have "backupName (sample_conf 1 True) (now ?s) \<noteq> ''a.log''" using backup_not_base [of "sample_conf 1 True" "now ?s"] by (simp add: sample_conf_def)
  then show ?thesis
    using log_rotation_loses [of "sample_conf 1 True" ?s "replicate 600 CHR ''x''" 0 "replicate 600 CHR ''y''"]
    by (simp add: sample_state_def sample_conf_def max_size_def)
qed

subsection \<open>Old files\<close>

lemma keep_loop_prefix:
  assumes "keep_loop k preserved fs = (remaining, remove)" "distinct preserved"
  shows "fs = remaining @ remove \<and> (remaining \<noteq> [] \<longrightarrow> card (set preserved \<union> trim_gz ` snd ` set remaining) \<le> k)
    \<and> (\<forall>f rest. remove = f # rest \<longrightarrow> k < card (set preserved \<union> trim_gz ` snd ` set (remaining @ [f])))"
  using assms
proof (induction fs arbitrary: preserved remaining remove)
  case (Cons f fs)
  let ?p = "List.insert (trim_gz (snd f)) preserved"
  obtain rem1 rm where r: "keep_loop k ?p fs = (rem1, rm)" by (cases "keep_loop k ?p fs")
  have d: "distinct ?p" "card (set ?p) = length ?p" using Cons.prems(2) by (simp, metis distinct_card distinct_insert)
  note ih = Cons.IH [OF r d(1)]
  have u: "set ?p \<union> A = set preserved \<union> insert (trim_gz (snd f)) A" for A by auto
  show ?case
  proof (cases "length ?p > k")
    case True
    have "rem1 = []"
    proof (rule ccontr)
      assume "rem1 \<noteq> []"
      then have "card (set ?p \<union> trim_gz ` snd ` set rem1) \<le> k" using ih by blast
      moreover have "card (set ?p) \<le> card (set ?p \<union> trim_gz ` snd ` set rem1)" by (intro card_mono) auto
      ultimately show False using True d(2) by simp
    qed
    then have "remaining = [] \<and> remove = f # fs" using Cons.prems(1) r True ih by (simp add: Let_def)
    then show ?thesis using True d(2) u [of "{}"] by auto
  next
    case False
    then have rr: "remaining = f # rem1" "remove = rm" using Cons.prems(1) r by (auto simp: Let_def)
    have "card (set preserved \<union> trim_gz ` snd ` set remaining) \<le> k"
    proof (cases "rem1 = []")
      case True
      then show ?thesis using False d(2) rr(1) u [of "{}"] by simp
    next
      case False
      then show ?thesis using ih rr(1) u [of "trim_gz ` snd ` set rem1"] by simp
    qed
    moreover have "k < card (set preserved \<union> trim_gz ` snd ` set (remaining @ [g]))" if "remove = g # rest" for g rest
    proof -
      have "k < card (set ?p \<union> trim_gz ` snd ` set (rem1 @ [g]))" using ih that rr(2) by blast
      also have "set ?p \<union> trim_gz ` snd ` set (rem1 @ [g]) = set preserved \<union> trim_gz ` snd ` set (remaining @ [g])" using rr(1) by auto
      finally show ?thesis .
    qed
    ultimately show ?thesis using ih rr by auto
  qed
qed simp

lemma remove_all_drops:
  "faults s = [] \<Longrightarrow> dirents (snd (remove_all fs err s)) = filter (\<lambda>p. fst p \<notin> snd ` set fs) (dirents s) \<and> faults (snd (remove_all fs err s)) = []"
proof (induction fs arbitrary: err s)
  case (Cons f fs)
  have r: "\<exists>r. os_Remove (snd f) s = (r, s\<lparr>dirents := drop_file (snd f) (dirents s)\<rparr>)"
  proof (cases "map_of (dirents s) (snd f)")
    case None
    then have "drop_file (snd f) (dirents s) = dirents s" by (force simp: drop_file_def map_of_eq_None_iff filter_id_conv)
    then show ?thesis using Cons.prems None by (simp add: os_Remove_def)
  qed (use Cons.prems in \<open>simp add: os_Remove_def\<close>)
  then obtain r where "os_Remove (snd f) s = (r, s\<lparr>dirents := drop_file (snd f) (dirents s)\<rparr>)" by blast
  then show ?case using Cons.IH [of "s\<lparr>dirents := drop_file (snd f) (dirents s)\<rparr>"] Cons.prems by (simp add: drop_file_def)
qed simp

lemma own_name: "stamp_ok cfg t \<Longrightarrow> log_info cfg (backupName cfg t, File d m) = Some (Some (stamp cfg t * 1000000 - name_zone cfg, backupName cfg t))"
  using stamp_parse [of cfg t] by (simp add: log_info_def prefixAndExt_def backupName_def Let_def timeFromName_def has_prefix_def has_suffix_def name_zone_def split: if_splits)

lemma collect_member: "collect f xs = Some ys \<Longrightarrow> x \<in> set xs \<Longrightarrow> f x = Some (Some y) \<Longrightarrow> y \<in> set ys"
  by (induction xs arbitrary: ys) (auto split: option.splits)

lemma too_many_keeps:
  assumes "0 < MaxBackups cfg" "too_many cfg fs = (keep, rm)"
  shows "fs = keep @ rm \<and> int (card (trim_gz ` snd ` set keep)) \<le> MaxBackups cfg
      \<and> (\<forall>f rest. rm = f # rest \<longrightarrow> MaxBackups cfg < int (card (trim_gz ` snd ` set (keep @ [f]))))"
proof (cases "MaxBackups cfg < int (length fs)")
  case True
  then have "keep_loop (nat (MaxBackups cfg)) [] fs = (keep, rm)" using assms by (simp add: too_many_def)
  from keep_loop_prefix [OF this] show ?thesis using assms(1) by (cases "keep = []") (auto simp: nat_less_iff le_nat_iff)
next
  case False
  then have "keep = fs" "rm = []" using assms(2) by (simp_all add: too_many_def)
  moreover have "card (trim_gz ` snd ` set fs) \<le> length fs" by (metis card_image_le card_length finite_imageI finite_set le_trans)
  ultimately show ?thesis using False by simp
qed

lemma removed_names: "n \<in> snd ` (A \<union> {x \<in> K. P x}) \<longleftrightarrow> (\<exists>f \<in> K \<union> A. snd f = n \<and> (f \<in> A \<or> P f))"
  by blast

lemma age_limit: "0 \<le> d \<Longrightarrow> d \<le> 100000 \<Longrightarrow> signed_take_bit 63 (24 * Hour * d) = 24 * Hour * d"
  by (rule signed_take_bit_int_eq_self) auto

text \<open>
  C38. Retention without compression: when a limit on the number of backups is set, a round of the mill keeps, of the log files newest first by the
  time in their names, the longest beginning with at most that many different names, counting a compressed file as its
  original; when a limit on the age is set too, it removes of these the files whose time is more than that many days ago. It removes all other
  log files and nothing else. The backups of the logger are recognised by their names, with the time of their rotation.
\<close>

theorem log_retention:
  assumes "0 < MaxBackups cfg" "0 \<le> MaxAgeDays cfg" "MaxAgeDays cfg \<le> 100000" "\<not> Compress cfg" "faults s = []" "collect (log_info cfg) (dirents s) = Some logs"
  shows "\<exists>keep rm s'. millRunOnce cfg gz s = Some s' \<and> keep @ rm = byFormatTime logs
    \<and> dirents (snd s') = filter (\<lambda>p. \<not> (\<exists>f \<in> set logs. snd f = fst p \<and> (f \<in> set rm \<or> 0 < MaxAgeDays cfg \<and> fst f < now s - 24 * Hour * MaxAgeDays cfg))) (dirents s)
    \<and> (\<forall>a \<in> set keep. \<forall>b \<in> set rm. fst b \<le> fst a)
    \<and> int (card (trim_gz ` snd ` set keep)) \<le> MaxBackups cfg
    \<and> (\<forall>f rest. rm = f # rest \<longrightarrow> MaxBackups cfg < int (card (trim_gz ` snd ` set (keep @ [f]))))
    \<and> (\<forall>t d m. stamp_ok cfg t \<longrightarrow> (backupName cfg t, File d m) \<in> set (dirents s) \<longrightarrow> (stamp cfg t * 1000000 - name_zone cfg, backupName cfg t) \<in> set logs)"
proof -
  define fs where "fs = byFormatTime logs"
  obtain keep rm where k: "too_many cfg fs = (keep, rm)" by (cases "too_many cfg fs")
  note p = too_many_keeps [OF assms(1) k]
  have m: "set logs = set keep \<union> set rm" using p fs_def by (metis byFormatTime_def set_append set_sort)
  let ?old = "filter (\<lambda>f. 0 < MaxAgeDays cfg \<and> fst f < now s - 24 * Hour * MaxAgeDays cfg) keep"
  have o: "snd (too_old cfg (now s) keep) = ?old" using age_limit [OF assms(2,3)] by (simp add: too_old_def Let_def)
  have s1: "getOldLogFiles cfg s = (Inr (Some fs), s)" using assms(5,6) by (simp add: getOldLogFiles_def fs_def)
  have "millRunOnce cfg gz s = Some (remove_all (rm @ ?old) None s)"
    using assms(1,4) s1 k o by (simp add: millRunOnce_def split_beta)
  moreover have "dirents (snd (remove_all (rm @ ?old) None s))
      = filter (\<lambda>p. \<not> (\<exists>f \<in> set logs. snd f = fst p \<and> (f \<in> set rm \<or> 0 < MaxAgeDays cfg \<and> fst f < now s - 24 * Hour * MaxAgeDays cfg))) (dirents s)"
  proof -
    have "fst q \<in> snd ` set (rm @ ?old) \<longleftrightarrow> (\<exists>f \<in> set logs. snd f = fst q \<and> (f \<in> set rm \<or> 0 < MaxAgeDays cfg \<and> fst f < now s - 24 * Hour * MaxAgeDays cfg))" for q :: "string \<times> entry"
      unfolding m set_append set_filter by (rule removed_names)
    then show ?thesis using remove_all_drops [OF assms(5), of "rm @ ?old" None] by simp
  qed
  moreover have "\<forall>a \<in> set keep. \<forall>b \<in> set rm. fst b \<le> fst a"
  proof -
    have "sorted (map (\<lambda>f. - fst f) (keep @ rm))" using p unfolding fs_def byFormatTime_def by (metis sorted_sort_key)
    then show ?thesis by (auto simp: sorted_append)
  qed
  moreover have "\<forall>t d m. stamp_ok cfg t \<longrightarrow> (backupName cfg t, File d m) \<in> set (dirents s) \<longrightarrow> (stamp cfg t * 1000000 - name_zone cfg, backupName cfg t) \<in> set logs"
    using collect_member [OF assms(6)] own_name by blast
  ultimately show ?thesis using p fs_def by blast
qed

theorem log_retention_witness:
  "\<exists>keep rm s'. millRunOnce (sample_conf 1 False) id (sample_state [(backupName (sample_conf 1 False) 0, File ''x'' 0), (backupName (sample_conf 1 False) 5000000, File ''y'' 0)]) = Some s'
    \<and> keep @ rm = byFormatTime [(0, backupName (sample_conf 1 False) 0), (5000000, backupName (sample_conf 1 False) 5000000)] \<and> card (trim_gz ` snd ` set keep) \<le> 1"
proof -
  let ?c = "sample_conf 1 False" and ?a = "backupName (sample_conf 1 False) 0" and ?b = "backupName (sample_conf 1 False) 5000000"
  let ?s = "sample_state [(?a, File ''x'' 0), (?b, File ''y'' 0)]"
  have "fst (civil 0) = 0" by (simp add: civil_def year_of_def year_start_def Let_def)
  then have ok: "stamp_ok ?c 0" "stamp_ok ?c 5000000" by (simp_all add: stamp_ok_def sample_facts local_day_def)
  have c: "collect (log_info ?c) (dirents ?s) = Some [(0, ?a), (5000000, ?b)]"
    using own_name [OF ok(1)] own_name [OF ok(2)] by (simp add: sample_state_def stamp_def sample_facts)
  have f: "0 < MaxBackups ?c" "0 \<le> MaxAgeDays ?c" "MaxAgeDays ?c \<le> 100000" "\<not> Compress ?c" "faults ?s = []" by (simp_all add: sample_conf_def sample_state_def)
  obtain keep rm s' where "millRunOnce ?c id ?s = Some s'" "keep @ rm = byFormatTime [(0, ?a), (5000000, ?b)]" "int (card (trim_gz ` snd ` set keep)) \<le> MaxBackups ?c"
    using log_retention [OF f c, of id] by blast
  then show ?thesis unfolding sample_facts(5) by fastforce
qed

end
