(* ===== verification/File_Lock.thy ===== *)
theory File_Lock
  imports Outcome
begin

section \<open>Package lockedfile: locks on files\<close>

text \<open>
  \<^verbatim>\<open>lockedfile/internal/filelock/filelock_fcntl.go\<close>. Files and inodes are numbers; the channel a waiting call adds to a queue
  stands for the file that will be sent over it. The sections under the mutex are functions on the two maps; calls that run at the
  same time are the steps of \<open>lock_step\<close>, in which a file has one call in progress at most, as the package asks
  for. Errors of \<^verbatim>\<open>fcntl\<close> that are tried again change nothing; the pauses between them are not modelled.
\<close>

type_synonym fileid = nat
type_synonym inode = nat

record inodeLock =
  owner :: "fileid option"
  queue :: "fileid list"

record lock_table =
  inodes :: "fileid \<Rightarrow> inode option"
  locks :: "inode \<Rightarrow> inodeLock option"

definition no_lock :: inodeLock where
  "no_lock = \<lparr>owner = None, queue = []\<rparr>"

definition lock_of :: "lock_table \<Rightarrow> inode \<Rightarrow> inodeLock" where
  "lock_of t i = (case locks t i of None \<Rightarrow> no_lock | Some l \<Rightarrow> l)"

definition empty_table :: lock_table where
  "empty_table = \<lparr>inodes = (\<lambda>f. None), locks = (\<lambda>i. None)\<rparr>"

datatype entered = Changed | Proceed | Wait

definition lock_section :: "lock_table \<Rightarrow> fileid \<Rightarrow> inode \<Rightarrow> entered \<times> lock_table" where
  "lock_section t f ino =
     (if inodes t f \<noteq> None \<and> inodes t f \<noteq> Some ino then (Changed, t)
      else let t1 = t\<lparr>inodes := (inodes t)(f \<mapsto> ino)\<rparr>; l = lock_of t ino
           in if owner l = Some f then (Proceed, t1\<lparr>locks := (locks t)(ino \<mapsto> l)\<rparr>)
              else if owner l = None then (Proceed, t1\<lparr>locks := (locks t)(ino \<mapsto> l\<lparr>owner := Some f\<rparr>)\<rparr>)
              else (Wait, t1\<lparr>locks := (locks t)(ino \<mapsto> l\<lparr>queue := queue l @ [f]\<rparr>)\<rparr>))"

text \<open>The owner that \<open>unlock\<close> finds; it panics unless this is the file itself.\<close>

definition unlock_owner :: "lock_table \<Rightarrow> fileid \<Rightarrow> fileid option" where
  "unlock_owner t f = (case inodes t f of None \<Rightarrow> None | Some ino \<Rightarrow> owner (lock_of t ino))"

definition unlock_section :: "lock_table \<Rightarrow> fileid \<Rightarrow> inode \<Rightarrow> lock_table \<times> fileid option" where
  "unlock_section t f ino =
     (let l = lock_of t ino; t1 = t\<lparr>inodes := (inodes t)(f := None)\<rparr>
      in case queue l of
           [] \<Rightarrow> (t1\<lparr>locks := (locks t)(ino := None)\<rparr>, None)
         | g # q \<Rightarrow> (t1\<lparr>locks := (locks t)(ino \<mapsto> \<lparr>owner = Some g, queue = q\<rparr>)\<rparr>, Some g))"

subsection \<open>Calls at the same time\<close>

text \<open>
  Where the call for a file stands: in \<open>lock\<close> waiting to send, calling \<^verbatim>\<open>setlkw\<close>, holding the lock after its return, or about to unlock
  after an error; in \<open>unlock\<close> after its check, or after its \<^verbatim>\<open>setlkw\<close>.
\<close>

datatype phase = Free | Waiting inode | Setting inode | Held inode | Failing inode | Clearing inode | Releasing inode

record lock_state =
  table :: lock_table
  phase :: "fileid \<Rightarrow> phase"
  panicked :: bool

definition lock_init :: lock_state where
  "lock_init = \<lparr>table = empty_table, phase = (\<lambda>f. Free), panicked = False\<rparr>"

inductive lock_step :: "(fileid \<Rightarrow> inode) \<Rightarrow> lock_state \<Rightarrow> lock_state \<Rightarrow> bool" for stat where
  enter_changed: "\<not> panicked s \<Longrightarrow> phase s f = Free \<Longrightarrow> lock_section (table s) f (stat f) = (Changed, t) \<Longrightarrow> lock_step stat s (s\<lparr>table := t\<rparr>)"
| enter_free: "\<not> panicked s \<Longrightarrow> phase s f = Free \<Longrightarrow> lock_section (table s) f (stat f) = (Proceed, t) \<Longrightarrow>
    lock_step stat s (s\<lparr>table := t, phase := (phase s)(f := Setting (stat f))\<rparr>)"
| enter_wait: "\<not> panicked s \<Longrightarrow> phase s f = Free \<Longrightarrow> lock_section (table s) f (stat f) = (Wait, t) \<Longrightarrow>
    lock_step stat s (s\<lparr>table := t, phase := (phase s)(f := Waiting (stat f))\<rparr>)"
| enter_again: "\<not> panicked s \<Longrightarrow> phase s f = Held i \<Longrightarrow> lock_section (table s) f (stat f) = (Proceed, t) \<Longrightarrow>
    lock_step stat s (s\<lparr>table := t, phase := (phase s)(f := Setting (stat f))\<rparr>)"
| set_ok: "\<not> panicked s \<Longrightarrow> phase s f = Setting i \<Longrightarrow> lock_step stat s (s\<lparr>phase := (phase s)(f := Held i)\<rparr>)"
| set_fail: "\<not> panicked s \<Longrightarrow> phase s f = Setting i \<Longrightarrow> lock_step stat s (s\<lparr>phase := (phase s)(f := Failing i)\<rparr>)"
| unlock_check: "\<not> panicked s \<Longrightarrow> phase s f = Held i \<or> phase s f = Failing i \<Longrightarrow>
    lock_step stat s (if unlock_owner (table s) f = Some f then s\<lparr>phase := (phase s)(f := Clearing i)\<rparr> else s\<lparr>panicked := True\<rparr>)"
| clear: "\<not> panicked s \<Longrightarrow> phase s f = Clearing i \<Longrightarrow> lock_step stat s (s\<lparr>phase := (phase s)(f := Releasing i)\<rparr>)"
| release: "\<not> panicked s \<Longrightarrow> phase s f = Releasing i \<Longrightarrow> unlock_section (table s) f i = (t, None) \<Longrightarrow>
    lock_step stat s (s\<lparr>table := t, phase := (phase s)(f := Free)\<rparr>)"
| hand_over: "\<not> panicked s \<Longrightarrow> phase s f = Releasing i \<Longrightarrow> unlock_section (table s) f i = (t, Some g) \<Longrightarrow> phase s g = Waiting i \<Longrightarrow>
    lock_step stat s (s\<lparr>table := t, phase := (phase s)(f := Free, g := Setting i)\<rparr>)"

subsection \<open>Invariant\<close>

definition active :: "phase \<Rightarrow> inode \<Rightarrow> bool" where
  "active p i \<longleftrightarrow> p = Setting i \<or> p = Held i \<or> p = Failing i \<or> p = Clearing i \<or> p = Releasing i"

definition lock_inv :: "(fileid \<Rightarrow> inode) \<Rightarrow> lock_state \<Rightarrow> bool" where
  "lock_inv stat s \<longleftrightarrow>
     \<not> panicked s
     \<and> (\<forall>f. inodes (table s) f = (if phase s f = Free then None else Some (stat f)))
     \<and> (\<forall>f i. active (phase s f) i \<longleftrightarrow> owner (lock_of (table s) i) = Some f)
     \<and> (\<forall>f i. phase s f = Waiting i \<longleftrightarrow> f \<in> set (queue (lock_of (table s) i)))
     \<and> (\<forall>f i. (active (phase s f) i \<or> phase s f = Waiting i) \<longrightarrow> i = stat f)
     \<and> (\<forall>i. distinct (queue (lock_of (table s) i)) \<and> (owner (lock_of (table s) i) = None \<longrightarrow> queue (lock_of (table s) i) = []))"

lemma lock_of_upd: "lock_of (t\<lparr>locks := (locks t)(i := x)\<rparr>) j = (if j = i then (case x of None \<Rightarrow> no_lock | Some l \<Rightarrow> l) else lock_of t j)"
  "lock_of (t\<lparr>inodes := m\<rparr>) j = lock_of t j"
  by (simp_all add: lock_of_def)

lemma active_simps [simp]: "active (Setting j) i = (i = j)" "active (Held j) i = (i = j)" "active (Failing j) i = (i = j)" "active (Clearing j) i = (i = j)" "active (Releasing j) i = (i = j)"
  "\<not> active Free i" "\<not> active (Waiting j) i"
  by (auto simp: active_def)

lemma invD:
  assumes "lock_inv stat s"
  shows "owner (lock_of (table s) i) = Some f \<longleftrightarrow> active (phase s f) i" "f \<in> set (queue (lock_of (table s) i)) \<longleftrightarrow> phase s f = Waiting i"
    "active (phase s f) i \<Longrightarrow> i = stat f" "phase s f = Waiting i \<Longrightarrow> i = stat f"
    "inodes (table s) f = (if phase s f = Free then None else Some (stat f))"
    "distinct (queue (lock_of (table s) i))" "owner (lock_of (table s) i) = None \<Longrightarrow> queue (lock_of (table s) i) = []" "\<not> panicked s"
  using assms by (auto simp: lock_inv_def)

lemma inv_phase:
  assumes "lock_inv stat s" "active (phase s f) i" "active p i" "\<And>j. j \<noteq> i \<Longrightarrow> \<not> active p j"
  shows "lock_inv stat (s\<lparr>phase := (phase s)(f := p)\<rparr>)"
proof -
  have p: "p \<noteq> Free" "\<And>j. p \<noteq> Waiting j" using assms(3) by (auto simp: active_def)
  have q: "phase s f \<noteq> Free" "\<And>j. phase s f \<noteq> Waiting j" using assms(2) by (auto simp: active_def)
  have a: "active p j \<longleftrightarrow> active (phase s f) j" for j
  proof -
    have "active (phase s f) j \<longleftrightarrow> j = i" using assms(2) by (cases "phase s f") auto
    then show ?thesis using assms(3,4) by auto
  qed
  show ?thesis using assms(1) p q a unfolding lock_inv_def by auto
qed

lemma inv_enter:
  assumes "lock_inv stat s" "phase s f = Free" "lock_section (table s) f (stat f) = (r, t)"
  shows "r \<noteq> Changed"
    "r = Proceed \<Longrightarrow> lock_inv stat (s\<lparr>table := t, phase := (phase s)(f := Setting (stat f))\<rparr>)"
    "r = Wait \<Longrightarrow> lock_inv stat (s\<lparr>table := t, phase := (phase s)(f := Waiting (stat f))\<rparr>)"
proof -
  let ?i = "stat f" and ?l = "lock_of (table s) (stat f)"
  have n: "inodes (table s) f = None" using assms(1,2) by (simp add: lock_inv_def)
  have own: "owner (lock_of (table s) i) \<noteq> Some f" "f \<notin> set (queue (lock_of (table s) i))" for i
    using invD(1,2) [OF assms(1)] assms(2) by simp_all
  show "r \<noteq> Changed" using assms(3) n by (auto simp: lock_section_def Let_def split: if_splits)
  show "lock_inv stat (s\<lparr>table := t, phase := (phase s)(f := Setting ?i)\<rparr>)" if "r = Proceed"
  proof -
    have o: "owner ?l = None" and t: "t = (table s)\<lparr>inodes := (inodes (table s))(f \<mapsto> ?i), locks := (locks (table s))(?i \<mapsto> ?l\<lparr>owner := Some f\<rparr>)\<rparr>"
      using assms(3) that n own(1) by (auto simp: lock_section_def Let_def split: if_splits)
    have l: "lock_of t j = (if j = ?i then ?l\<lparr>owner := Some f\<rparr> else lock_of (table s) j)" for j by (simp add: t lock_of_def)
    have "queue ?l = []" using assms(1) o by (simp add: lock_inv_def)
    moreover have "\<not> active (phase s g) ?i" for g using assms(1) o by (simp add: lock_inv_def)
    ultimately show ?thesis using assms(1,2) own l unfolding lock_inv_def by (auto simp: t)
  qed
  show "lock_inv stat (s\<lparr>table := t, phase := (phase s)(f := Waiting ?i)\<rparr>)" if "r = Wait"
  proof -
    have o: "owner ?l \<noteq> None" and t: "t = (table s)\<lparr>inodes := (inodes (table s))(f \<mapsto> ?i), locks := (locks (table s))(?i \<mapsto> ?l\<lparr>queue := queue ?l @ [f]\<rparr>)\<rparr>"
      using assms(3) that n own(1) by (auto simp: lock_section_def Let_def split: if_splits)
    have l: "lock_of t j = (if j = ?i then ?l\<lparr>queue := queue ?l @ [f]\<rparr> else lock_of (table s) j)" for j by (simp add: t lock_of_def)
    show ?thesis using assms(1,2) own l o unfolding lock_inv_def by (auto simp: t)
  qed
qed

lemma inv_table: "lock_inv stat s \<Longrightarrow> (\<And>j. lock_of t j = lock_of (table s) j) \<Longrightarrow> inodes t = inodes (table s) \<Longrightarrow> lock_inv stat (s\<lparr>table := t\<rparr>)"
  unfolding lock_inv_def by (clarsimp simp del: not_None_eq)

lemma inv_again:
  assumes "lock_inv stat s" "phase s f = Held i" "lock_section (table s) f (stat f) = (r, t)"
  shows "r = Proceed" "lock_inv stat (s\<lparr>table := t, phase := (phase s)(f := Setting (stat f))\<rparr>)"
proof -
  have i: "i = stat f" using invD(3) [OF assms(1), of f i] assms(2) by simp
  have o: "owner (lock_of (table s) i) = Some f" using invD(1) [OF assms(1)] assms(2) by simp
  have n: "inodes (table s) f = Some (stat f)" using assms(1,2) by (simp add: lock_inv_def)
  have t: "t = (table s)\<lparr>inodes := inodes (table s), locks := (locks (table s))(i \<mapsto> lock_of (table s) i)\<rparr>" and "r = Proceed"
    using assms(3) i o n by (auto simp: lock_section_def Let_def fun_upd_idem)
  then show "r = Proceed" by simp
  have l: "lock_of t j = lock_of (table s) j" "inodes t = inodes (table s)" for j by (simp_all add: t lock_of_def split: option.split)
  have "lock_inv stat (s\<lparr>phase := (phase s)(f := Setting (stat f))\<rparr>)" using inv_phase [of stat s f i "Setting i"] assms(1,2) i by simp
  then show "lock_inv stat (s\<lparr>table := t, phase := (phase s)(f := Setting (stat f))\<rparr>)"
    using inv_table [of stat "s\<lparr>phase := (phase s)(f := Setting (stat f))\<rparr>" t] l by (cases s) simp
qed

lemma inv_unlock:
  assumes "lock_inv stat s" "phase s f = Releasing i" "unlock_section (table s) f i = (t, h)"
  shows "h = None \<Longrightarrow> lock_inv stat (s\<lparr>table := t, phase := (phase s)(f := Free)\<rparr>)"
    "h = Some g \<Longrightarrow> phase s g = Waiting i \<and> queue (lock_of (table s) i) = g # queue (lock_of t i) \<and> lock_inv stat (s\<lparr>table := t, phase := (phase s)(f := Free, g := Setting i)\<rparr>)"
proof -
  let ?l = "lock_of (table s) i"
  have o: "owner ?l = Some f" using invD(1) [OF assms(1)] assms(2) by simp
  have act: "active (phase s g) i \<longleftrightarrow> g = f" for g using assms(1) o by (auto simp: lock_inv_def)
  show "lock_inv stat (s\<lparr>table := t, phase := (phase s)(f := Free)\<rparr>)" if "h = None"
  proof -
    have q: "queue ?l = []" and t: "t = (table s)\<lparr>inodes := (inodes (table s))(f := None), locks := (locks (table s))(i := None)\<rparr>"
      using assms(3) that by (auto simp: unlock_section_def Let_def split: list.splits)
    have l: "lock_of t j = (if j = i then no_lock else lock_of (table s) j)" for j by (simp add: t lock_of_def)
    have nw: "phase s g \<noteq> Waiting i" for g using assms(1) q by (simp add: lock_inv_def)
    have no: "owner (lock_of (table s) j) \<noteq> Some f" if "j \<noteq> i" for j using invD(1) [OF assms(1)] assms(2) that by simp
    have nq: "f \<notin> set (queue (lock_of (table s) j))" for j using invD(2) [OF assms(1)] assms(2) by simp
    show ?thesis using assms(1,2) l act nw no nq unfolding lock_inv_def by (auto simp: t no_lock_def)
  qed
  assume "h = Some g"
  then obtain q where q: "queue ?l = g # q" and t: "t = (table s)\<lparr>inodes := (inodes (table s))(f := None), locks := (locks (table s))(i \<mapsto> \<lparr>owner = Some g, queue = q\<rparr>)\<rparr>"
    using assms(3) by (auto simp: unlock_section_def Let_def split: list.splits)
  have l: "lock_of t j = (if j = i then \<lparr>owner = Some g, queue = q\<rparr> else lock_of (table s) j)" for j by (simp add: t lock_of_def)
  have g: "phase s g = Waiting i" using assms(1) q by (simp add: lock_inv_def)
  have gf: "g \<noteq> f" using g assms(2) by auto
  have no: "owner (lock_of (table s) j) \<noteq> Some f" if "j \<noteq> i" for j using invD(1) [OF assms(1)] assms(2) that by simp
  have nog: "owner (lock_of (table s) j) \<noteq> Some g" for j using invD(1) [OF assms(1)] g by simp
  have nq: "f \<notin> set (queue (lock_of (table s) j))" for j using invD(2) [OF assms(1)] assms(2) by simp
  have nqg: "g \<notin> set (queue (lock_of (table s) j))" if "j \<noteq> i" for j using invD(2) [OF assms(1)] g that by simp
  have d: "distinct (g # q)" using invD(6) [OF assms(1), of i] q by simp
  have "lock_inv stat (s\<lparr>table := t, phase := (phase s)(f := Free, g := Setting i)\<rparr>)"
    unfolding lock_inv_def
  proof (intro conjI allI)
    show "\<not> panicked (s\<lparr>table := t, phase := (phase s)(f := Free, g := Setting i)\<rparr>)" using assms(1) by (simp add: lock_inv_def)
    fix h
    show "inodes (table (s\<lparr>table := t, phase := (phase s)(f := Free, g := Setting i)\<rparr>)) h = (if phase (s\<lparr>table := t, phase := (phase s)(f := Free, g := Setting i)\<rparr>) h = Free then None else Some (stat h))"
      using invD(5) [OF assms(1), of h] g gf by (auto simp: t)
    fix j
    show "active (phase (s\<lparr>table := t, phase := (phase s)(f := Free, g := Setting i)\<rparr>) h) j \<longleftrightarrow> owner (lock_of (table (s\<lparr>table := t, phase := (phase s)(f := Free, g := Setting i)\<rparr>)) j) = Some h"
      using assms(1) act gf no nog l by (auto simp: lock_inv_def)
    show "phase (s\<lparr>table := t, phase := (phase s)(f := Free, g := Setting i)\<rparr>) h = Waiting j \<longleftrightarrow> h \<in> set (queue (lock_of (table (s\<lparr>table := t, phase := (phase s)(f := Free, g := Setting i)\<rparr>)) j))"
      using invD(2) [OF assms(1), of h j] invD(2) [OF assms(1), of f i] assms(2) q gf nqg d l by auto
    show "active (phase (s\<lparr>table := t, phase := (phase s)(f := Free, g := Setting i)\<rparr>) h) j \<or> phase (s\<lparr>table := t, phase := (phase s)(f := Free, g := Setting i)\<rparr>) h = Waiting j \<longrightarrow> j = stat h"
      using assms(1) g by (auto simp: lock_inv_def)
  next
    fix j
    show "distinct (queue (lock_of (table (s\<lparr>table := t, phase := (phase s)(f := Free, g := Setting i)\<rparr>)) j))" using assms(1) d l by (auto simp: lock_inv_def)
    show "owner (lock_of (table (s\<lparr>table := t, phase := (phase s)(f := Free, g := Setting i)\<rparr>)) j) = None \<longrightarrow> queue (lock_of (table (s\<lparr>table := t, phase := (phase s)(f := Free, g := Setting i)\<rparr>)) j) = []"
      using assms(1) l by (auto simp: lock_inv_def)
  qed
  then show "phase s g = Waiting i \<and> queue ?l = g # queue (lock_of t i) \<and> lock_inv stat (s\<lparr>table := t, phase := (phase s)(f := Free, g := Setting i)\<rparr>)"
    using g q l by simp
qed

lemma inv_step: "lock_step stat s s' \<Longrightarrow> lock_inv stat s \<Longrightarrow> lock_inv stat s'"
proof (induction rule: lock_step.induct)
  case (unlock_check s f i)
  have a: "active (phase s f) i" using unlock_check(2) by auto
  then have "owner (lock_of (table s) i) = Some f" "i = stat f" "phase s f \<noteq> Free"
    using invD(1,3) [OF unlock_check(3)] by (simp, blast, auto)
  then have "unlock_owner (table s) f = Some f" using invD(5) [OF unlock_check(3), of f] by (simp add: unlock_owner_def)
  then show ?case using unlock_check(3) a inv_phase [of stat s f i "Clearing i"] by auto
next
  case (enter_changed s f t)
  then show ?case using inv_enter(1) by blast
next
  case (enter_again s f i t)
  then show ?case using inv_again(2) by blast
next
  case (release s f i t)
  then show ?case using inv_unlock(1) by blast
next
  case (hand_over s f i t g)
  then show ?case using inv_unlock(2) by blast
next
  case (enter_free s f t)
  then show ?case using inv_enter(2) by blast
next
  case (enter_wait s f t)
  then show ?case using inv_enter(3) by blast
next
  case (set_ok s f i)
  then show ?case using inv_phase [of stat s f i "Held i"] by simp
next
  case (set_fail s f i)
  then show ?case using inv_phase [of stat s f i "Failing i"] by simp
next
  case (clear s f i)
  then show ?case using inv_phase [of stat s f i "Releasing i"] by simp
qed

lemma inv_init: "lock_inv stat lock_init"
  by (simp add: lock_inv_def lock_init_def lock_of_def empty_table_def no_lock_def)

lemma inv_reach: "(lock_step stat)\<^sup>*\<^sup>* lock_init s \<Longrightarrow> lock_inv stat s"
  by (induction rule: rtranclp_induct) (auto intro: inv_step inv_init)

end
