(* ===== verification/Locked_File.thy ===== *)
theory Locked_File
  imports Outcome "HOL-Library.Word"
begin

section \<open>Package lockedfile: files and mutexes\<close>

text \<open>
  \<^verbatim>\<open>lockedfile/lockedfile.go\<close>, \<^verbatim>\<open>lockedfile_filelock.go\<close> and \<^verbatim>\<open>mutex.go\<close>. The state is one file and one descriptor for it.
  Every call of the operating system takes the next entry of \<open>plan\<close>: \<open>None\<close> lets it succeed, \<open>Some n\<close> makes it fail,
  a write after \<open>n\<close> bytes. A call that would wait for a lock returns when it has it; the queue behind it is in the
  theory of the locks. \<open>journal\<close> records, for each change of the content, the lock held at that moment.
\<close>

type_synonym data = "8 word list"

datatype lockType = readLock | writeLock

record fstate =
  content :: "data option"
  regular :: bool
  is_open :: bool
  held :: "lockType option"
  plan :: "nat option list"
  journal :: "lockType option list"

datatype access = O_RDONLY | O_WRONLY | O_RDWR

record flags =
  access :: access
  O_CREATE :: bool
  O_TRUNC :: bool

datatype file_error = Sys | NotExist | ErrClosed | MISSING_FILE | CanNotTrylock | Reader | User

type_synonym io = "file_error option \<times> fstate"

subsection \<open>Operating system\<close>

definition sys :: "fstate \<Rightarrow> nat option \<times> fstate" where
  "sys s = (case plan s of [] \<Rightarrow> (None, s) | p # ps \<Rightarrow> (p, s\<lparr>plan := ps\<rparr>))"

definition store :: "data \<Rightarrow> fstate \<Rightarrow> fstate" where
  "store c s = s\<lparr>content := Some c, journal := journal s @ [held s]\<rparr>"

definition bytes_of :: "fstate \<Rightarrow> data" where
  "bytes_of s = (case content s of None \<Rightarrow> [] | Some c \<Rightarrow> c)"

definition os_OpenFile :: "flags \<Rightarrow> fstate \<Rightarrow> io" where
  "os_OpenFile fl s =
     (case sys s of
        (Some n, s1) \<Rightarrow> (Some Sys, s1)
      | (None, s1) \<Rightarrow>
          if content s1 \<noteq> None then (None, s1\<lparr>is_open := True\<rparr>)
          else if O_CREATE fl then (None, s1\<lparr>content := Some [], is_open := True\<rparr>)
          else (Some NotExist, s1))"

definition os_Close :: "fstate \<Rightarrow> io" where
  "os_Close s =
     (if \<not> is_open s then (Some ErrClosed, s)
      else case sys s of (r, s1) \<Rightarrow> (map_option (\<lambda>n. Sys) r, s1\<lparr>is_open := False, held := None\<rparr>))"

definition os_Stat :: "fstate \<Rightarrow> io" where
  "os_Stat s = (case sys s of (r, s1) \<Rightarrow> (map_option (\<lambda>n. Sys) r, s1))"

definition resize :: "nat \<Rightarrow> data \<Rightarrow> data" where
  "resize n c = take n c @ replicate (n - length c) 0"

definition os_Truncate :: "nat \<Rightarrow> fstate \<Rightarrow> io" where
  "os_Truncate n s =
     (case sys s of
        (Some k, s1) \<Rightarrow> (Some Sys, s1)
      | (None, s1) \<Rightarrow> (None, store (resize n (bytes_of s1)) s1))"

definition overwrite :: "data \<Rightarrow> nat \<Rightarrow> data \<Rightarrow> data" where
  "overwrite xs off c = resize off c @ xs @ drop (off + length xs) c"

definition os_WriteAt :: "data \<Rightarrow> nat \<Rightarrow> fstate \<Rightarrow> io" where
  "os_WriteAt xs off s =
     (case sys s of
        (Some k, s1) \<Rightarrow> (Some Sys, if min k (length xs) = 0 then s1 else store (overwrite (take k xs) off (bytes_of s1)) s1)
      | (None, s1) \<Rightarrow> (None, if xs = [] then s1 else store (overwrite xs off (bytes_of s1)) s1))"

definition io_ReadAll :: "fstate \<Rightarrow> (file_error + data) \<times> fstate" where
  "io_ReadAll s = (case sys s of (Some k, s1) \<Rightarrow> (Inl Sys, s1) | (None, s1) \<Rightarrow> (Inr (bytes_of s1), s1))"

subsection \<open>Locks of the operating system\<close>

definition flock :: "lockType option \<Rightarrow> fstate \<Rightarrow> io" where
  "flock lt s =
     (if \<not> is_open s then (Some ErrClosed, s)
      else case sys s of (Some k, s1) \<Rightarrow> (Some Sys, s1) | (None, s1) \<Rightarrow> (None, s1\<lparr>held := lt\<rparr>))"

definition Lock :: "fstate \<Rightarrow> io" where
  "Lock = flock (Some writeLock)"

definition RLock :: "fstate \<Rightarrow> io" where
  "RLock = flock (Some readLock)"

definition Unlock :: "fstate \<Rightarrow> io" where
  "Unlock = flock None"

subsection \<open>Locked files\<close>

definition openFile :: "flags \<Rightarrow> fstate \<Rightarrow> io" where
  "openFile flag s =
     (case os_OpenFile flag s of
        (Some e, s1) \<Rightarrow> (Some e, s1)
      | (None, s1) \<Rightarrow>
          (case (if access flag = O_WRONLY \<or> access flag = O_RDWR then Lock s1 else RLock s1) of
             (Some e, s2) \<Rightarrow> (Some e, snd (os_Close s2))
           | (None, s2) \<Rightarrow>
               if O_TRUNC flag then
                 (case os_Truncate 0 s2 of
                    (None, s3) \<Rightarrow> (None, s3)
                  | (Some e, s3) \<Rightarrow>
                      (case os_Stat s3 of (st, s4) \<Rightarrow>
                         if st \<noteq> None \<or> regular s4 then (Some e, snd (os_Close (snd (Unlock s4)))) else (None, s4)))
               else (None, s2)))"

definition closeFile :: "fstate \<Rightarrow> io" where
  "closeFile s = (case Unlock s of (err, s1) \<Rightarrow> (case os_Close s1 of (closeErr, s2) \<Rightarrow> (if err = None then closeErr else err, s2)))"

text \<open>\<open>Close\<close> takes and returns the flag \<open>closed\<close> of the structure.\<close>

definition Close :: "bool \<Rightarrow> fstate \<Rightarrow> file_error option \<times> bool \<times> fstate" where
  "Close closed s = (if closed then (Some ErrClosed, True, s) else case closeFile s of (e, s1) \<Rightarrow> (e, True, s1))"

definition close_file :: "fstate \<Rightarrow> io" where
  "close_file s = (case Close False s of (e, c, s1) \<Rightarrow> (e, s1))"

definition Open :: "fstate \<Rightarrow> io" where
  "Open = openFile \<lparr>access = O_RDONLY, O_CREATE = False, O_TRUNC = False\<rparr>"

definition Create :: "fstate \<Rightarrow> io" where
  "Create = openFile \<lparr>access = O_RDWR, O_CREATE = True, O_TRUNC = True\<rparr>"

definition Edit :: "fstate \<Rightarrow> io" where
  "Edit = openFile \<lparr>access = O_RDWR, O_CREATE = True, O_TRUNC = False\<rparr>"

definition Read :: "fstate \<Rightarrow> (file_error + data) \<times> fstate" where
  "Read s =
     (case Open s of
        (Some e, s1) \<Rightarrow> (Inl e, s1)
      | (None, s1) \<Rightarrow> (case io_ReadAll s1 of (r, s2) \<Rightarrow> (r, snd (close_file s2))))"

text \<open>A reader gives its pieces and then ends, or fails.\<close>

fun io_Copy :: "data list \<Rightarrow> bool \<Rightarrow> nat \<Rightarrow> fstate \<Rightarrow> io" where
  "io_Copy [] bad off s = (if bad then Some Reader else None, s)"
| "io_Copy (c # cs) bad off s =
     (if c = [] then io_Copy cs bad off s else case os_WriteAt c off s of
        (Some e, s1) \<Rightarrow> (Some e, s1)
      | (None, s1) \<Rightarrow> io_Copy cs bad (off + length c) s1)"

definition Write :: "data list \<Rightarrow> bool \<Rightarrow> fstate \<Rightarrow> io" where
  "Write pieces bad s =
     (case openFile \<lparr>access = O_WRONLY, O_CREATE = True, O_TRUNC = True\<rparr> s of
        (Some e, s1) \<Rightarrow> (Some e, s1)
      | (None, s1) \<Rightarrow>
          (case io_Copy pieces bad 0 s1 of (err, s2) \<Rightarrow>
            (case close_file s2 of (closeErr, s3) \<Rightarrow> (if err = None then closeErr else err, s3))))"

definition roll_back :: "data \<Rightarrow> fstate \<Rightarrow> fstate" where
  "roll_back old s = (case os_WriteAt old 0 s of (None, s1) \<Rightarrow> snd (os_Truncate (length old) s1) | (Some e, s1) \<Rightarrow> s1)"

definition replace_old :: "data \<Rightarrow> data \<Rightarrow> fstate \<Rightarrow> io" where
  "replace_old old new s =
     (if length old \<le> length new then os_WriteAt (take (length old) new) 0 s
      else case os_WriteAt new 0 s of
             (Some e, s1) \<Rightarrow> (Some e, s1)
           | (None, s1) \<Rightarrow> os_Truncate (length new) s1)"

definition transform_open :: "(data \<Rightarrow> file_error + data) \<Rightarrow> fstate \<Rightarrow> io" where
  "transform_open t s =
     (case io_ReadAll s of
        (Inl e, s1) \<Rightarrow> (Some e, s1)
      | (Inr old, s1) \<Rightarrow>
          (case t old of
             Inl e \<Rightarrow> (Some e, s1)
           | Inr new \<Rightarrow>
               (case (if length old < length new then os_WriteAt (drop (length old) new) (length old) s1 else (None, s1)) of
                  (Some e, s2) \<Rightarrow> (Some e, snd (os_Truncate (length old) s2))
                | (None, s2) \<Rightarrow>
                    (case replace_old old new s2 of
                       (None, s3) \<Rightarrow> (None, s3)
                     | (Some e, s3) \<Rightarrow> (Some e, roll_back old s3)))))"

definition Transform :: "(data \<Rightarrow> file_error + data) \<Rightarrow> fstate \<Rightarrow> io" where
  "Transform t s =
     (case Edit s of
        (Some e, s1) \<Rightarrow> (Some e, s1)
      | (None, s1) \<Rightarrow> (case transform_open t s1 of (r, s2) \<Rightarrow> (r, snd (close_file s2))))"

subsection \<open>Mutexes\<close>

text \<open>
  The lock in memory: a writer, or a number of readers. A call that waits for it is \<open>None\<close>, which leaves the state to the others;
  releasing what is not held is a fatal error.
\<close>

datatype rw = Writer | Readers nat

definition rw_Lock :: "rw \<Rightarrow> rw res" where
  "rw_Lock r = (if r = Readers 0 then Some (Ret Writer) else None)"

definition rw_Unlock :: "rw \<Rightarrow> rw res" where
  "rw_Unlock r = (if r = Writer then Some (Ret (Readers 0)) else Some Panic)"

definition rw_RLock :: "rw \<Rightarrow> rw res" where
  "rw_RLock r = (case r of Writer \<Rightarrow> None | Readers n \<Rightarrow> Some (Ret (Readers (Suc n))))"

definition rw_RUnlock :: "rw \<Rightarrow> rw res" where
  "rw_RUnlock r = (case r of Readers (Suc n) \<Rightarrow> Some (Ret (Readers n)) | x \<Rightarrow> Some Panic)"

record Mutex =
  Path :: string
  mu :: rw

definition MutexAt :: "string \<Rightarrow> Mutex" where
  "MutexAt path = \<lparr>Path = path, mu = Readers 0\<rparr>"

type_synonym mres = "(file_error option \<times> Mutex \<times> fstate) res"

definition lock_flags :: flags where
  "lock_flags = \<lparr>access = O_RDWR, O_CREATE = True, O_TRUNC = False\<rparr>"

definition rlock_flags :: flags where
  "rlock_flags = \<lparr>access = O_RDONLY, O_CREATE = False, O_TRUNC = False\<rparr>"

definition open_locked :: "flags \<Rightarrow> rw \<Rightarrow> Mutex \<Rightarrow> fstate \<Rightarrow> mres" where
  "open_locked fl r m s =
     (case openFile fl s of
        (None, s1) \<Rightarrow> Some (Ret (None, m\<lparr>mu := r\<rparr>, s1))
      | (Some e, s1) \<Rightarrow> bind_res (rw_Unlock r) (\<lambda>r1. Some (Ret (Some e, m\<lparr>mu := r1\<rparr>, s1))))"

definition Mutex_Lock :: "Mutex \<Rightarrow> fstate \<Rightarrow> mres" where
  "Mutex_Lock m s =
     (if Path m = '''' then Some (Ret (Some MISSING_FILE, m, s))
      else bind_res (rw_Lock (mu m)) (\<lambda>r. open_locked lock_flags r m s))"

definition Mutex_TryLock :: "Mutex \<Rightarrow> fstate \<Rightarrow> mres" where
  "Mutex_TryLock m s =
     (if Path m = '''' then Some (Ret (Some MISSING_FILE, m, s))
      else case rw_Lock (mu m) of
             None \<Rightarrow> Some (Ret (Some CanNotTrylock, m, s))
           | Some x \<Rightarrow> bind_res (Some x) (\<lambda>r. open_locked lock_flags r m s))"

definition Mutex_RLock :: "Mutex \<Rightarrow> fstate \<Rightarrow> mres" where
  "Mutex_RLock m s =
     (if Path m = '''' then Some (Ret (Some MISSING_FILE, m, s))
      else bind_res (rw_RLock (mu m)) (\<lambda>r. open_locked rlock_flags r m s))"

definition Mutex_TryRLock :: "Mutex \<Rightarrow> fstate \<Rightarrow> mres" where
  "Mutex_TryRLock m s =
     (if Path m = '''' then Some (Ret (Some MISSING_FILE, m, s))
      else case rw_RLock (mu m) of
             None \<Rightarrow> Some (Ret (Some CanNotTrylock, m, s))
           | Some x \<Rightarrow> bind_res (Some x) (\<lambda>r. open_locked rlock_flags r m s))"

text \<open>The functions the calls return; the second release is of a closed file, whose error is dropped.\<close>

definition unlock_fun :: "Mutex \<Rightarrow> fstate \<Rightarrow> mres" where
  "unlock_fun m s = bind_res (rw_Unlock (mu m)) (\<lambda>r. Some (Ret (None, m\<lparr>mu := r\<rparr>, snd (Unlock (snd (close_file s))))))"

definition runlock_fun :: "Mutex \<Rightarrow> fstate \<Rightarrow> mres" where
  "runlock_fun m s = bind_res (rw_RUnlock (mu m)) (\<lambda>r. Some (Ret (None, m\<lparr>mu := r\<rparr>, snd (Unlock (snd (close_file s))))))"

end
