(* ===== verification/Lock_Props.thy ===== *)
theory Lock_Props
  imports File_Lock Locked_File
begin

section \<open>Laws of the locks and of the locked files\<close>

text \<open>
  A file that waits can be brought to the front of its queue; every call on a locked file keeps the descriptor and its lock and changes
  the content under it, and what a write or a change of length leaves behind when it fails.
\<close>

subsection \<open>Progress\<close>

abbreviation lock_runs :: "(fileid \<Rightarrow> inode) \<Rightarrow> lock_state \<Rightarrow> lock_state \<Rightarrow> bool" where
  "lock_runs stat \<equiv> (lock_step stat)\<^sup>*\<^sup>*"

lemma inv_runs: "lock_runs stat s s' \<Longrightarrow> lock_inv stat s \<Longrightarrow> lock_inv stat s'"
  by (induction rule: rtranclp_induct) (auto intro: inv_step)

lemma to_releasing:
  assumes "lock_inv stat s" "active (phase s f) i"
  shows "\<exists>s'. lock_runs stat s s' \<and> phase s' f = Releasing i \<and> table s' = table s"
proof -
  have p: "\<not> panicked s" by (rule invD(8) [OF assms(1)])
  have own: "owner (lock_of (table s) i) = Some f" "i = stat f" "phase s f \<noteq> Free"
    using invD(1,3) [OF assms(1)] assms(2) by (simp, blast, auto)
  then have u: "unlock_owner (table s) f = Some f" using invD(5) [OF assms(1), of f] by (simp add: unlock_owner_def)
  have clear: "lock_runs stat x (x\<lparr>phase := (phase x)(f := Releasing i)\<rparr>)" if "phase x f = Clearing i" "\<not> panicked x" for x
    using lock_step.clear that by blast
  have check: "lock_runs stat x (x\<lparr>phase := (phase x)(f := Releasing i)\<rparr>)"
    if "phase x f = Held i \<or> phase x f = Failing i" "\<not> panicked x" "table x = table s" for x
  proof -
    have "lock_step stat x (x\<lparr>phase := (phase x)(f := Clearing i)\<rparr>)" using unlock_check [of x f i stat] that u by simp
    moreover have "lock_runs stat (x\<lparr>phase := (phase x)(f := Clearing i)\<rparr>) (x\<lparr>phase := (phase x)(f := Releasing i)\<rparr>)"
      using clear [of "x\<lparr>phase := (phase x)(f := Clearing i)\<rparr>"] that by simp
    ultimately show ?thesis by (rule converse_rtranclp_into_rtranclp)
  qed
  have set: "lock_runs stat s (s\<lparr>phase := (phase s)(f := Releasing i)\<rparr>)" if "phase s f = Setting i"
  proof -
    have "lock_step stat s (s\<lparr>phase := (phase s)(f := Held i)\<rparr>)" using set_ok that p by blast
    moreover have "lock_runs stat (s\<lparr>phase := (phase s)(f := Held i)\<rparr>) (s\<lparr>phase := (phase s)(f := Releasing i)\<rparr>)"
      using check [of "s\<lparr>phase := (phase s)(f := Held i)\<rparr>"] p by simp
    ultimately show ?thesis by (rule converse_rtranclp_into_rtranclp)
  qed
  have "lock_runs stat s (s\<lparr>phase := (phase s)(f := Releasing i)\<rparr>) \<or> phase s f = Releasing i"
    using assms(2) set check [of s] clear [of s] p by (auto simp: active_def)
  then show ?thesis
  proof
    assume "lock_runs stat s (s\<lparr>phase := (phase s)(f := Releasing i)\<rparr>)"
    then show ?thesis by (intro exI [of _ "s\<lparr>phase := (phase s)(f := Releasing i)\<rparr>"]) simp
  qed blast
qed

lemma to_head:
  assumes "lock_inv stat s" "queue (lock_of (table s) i) = g # q"
  shows "\<exists>s'. lock_runs stat s s' \<and> phase s' g = Setting i \<and> queue (lock_of (table s') i) = q"
proof -
  have "owner (lock_of (table s) i) \<noteq> None" using invD(7) [OF assms(1), of i] assms(2) by auto
  then obtain f where "active (phase s f) i" using invD(1) [OF assms(1)] by auto
  then obtain s1 where s1: "lock_runs stat s s1" "phase s1 f = Releasing i" "table s1 = table s"
    using to_releasing [OF assms(1)] by blast
  have inv: "lock_inv stat s1" by (rule inv_runs [OF s1(1) assms(1)])
  obtain t where t: "unlock_section (table s1) f i = (t, Some g)"
    using assms(2) s1(3) by (simp add: unlock_section_def Let_def)
  have g: "phase s1 g = Waiting i" "queue (lock_of t i) = q"
    using inv_unlock(2) [OF inv s1(2) t] assms(2) s1(3) by auto
  have "lock_step stat s1 (s1\<lparr>table := t, phase := (phase s1)(f := Free, g := Setting i)\<rparr>)"
    using hand_over [OF invD(8) [OF inv] s1(2) t g(1)] .
  then show ?thesis
    using s1(1) g(2) by (intro exI [of _ "s1\<lparr>table := t, phase := (phase s1)(f := Free, g := Setting i)\<rparr>"]) simp
qed

lemma to_front: "lock_inv stat s \<Longrightarrow> f \<in> set (queue (lock_of (table s) i)) \<Longrightarrow> \<exists>s'. lock_runs stat s s' \<and> phase s' f = Setting i"
proof (induction "queue (lock_of (table s) i)" arbitrary: s)
  case (Cons g q)
  obtain s1 where s1: "lock_runs stat s s1" "phase s1 g = Setting i" "queue (lock_of (table s1) i) = q"
    using to_head [OF Cons.prems(1) Cons.hyps(2) [symmetric]] by blast
  show ?case
  proof (cases "f = g")
    case False
    then have "f \<in> set (queue (lock_of (table s1) i))" using Cons.prems(2) Cons.hyps(2) [symmetric] s1(3) by auto
    then obtain s2 where "lock_runs stat s1 s2" "phase s2 f = Setting i"
      using Cons.hyps(1) [OF s1(3) [symmetric] inv_runs [OF s1(1) Cons.prems(1)]] by blast
    then show ?thesis using s1(1) by (blast intro: rtranclp_trans)
  qed (use s1 in blast)
qed simp

lemma waits_in_order:
  assumes "lock_step stat s s'" "lock_inv stat s" "queue (lock_of (table s) i) = a @ f # b"
  shows "(\<exists>c. queue (lock_of (table s') i) = a @ f # c) \<or> (\<exists>g a' c. a = g # a' \<and> queue (lock_of (table s') i) = a' @ f # c)
    \<or> a = [] \<and> phase s' f = Setting i"
  using assms
proof (induction rule: lock_step.induct)
  case (enter_again s g j t)
  have "t = (table s)\<lparr>inodes := (inodes (table s))(g \<mapsto> stat g), locks := (locks (table s))(stat g \<mapsto> lock_of (table s) (stat g))\<rparr>"
    using enter_again(3) invD(1) [OF enter_again(4), of "stat g" g] invD(3) [OF enter_again(4), of g j] enter_again(2)
    by (auto simp: lock_section_def Let_def split: if_splits)
  then have "lock_of t i = lock_of (table s) i" by (simp add: lock_of_def split: option.split)
  then show ?case using enter_again(5) by simp
next
  case (release s g j t)
  have "queue (lock_of (table s) j) = []" "t = (table s)\<lparr>inodes := (inodes (table s))(g := None), locks := (locks (table s))(j := None)\<rparr>"
    using release(3) by (auto simp: unlock_section_def Let_def split: list.splits)
  then have "i \<noteq> j" "lock_of t i = lock_of (table s) i" using release(5) by (auto simp: lock_of_def)
  then show ?case using release(5) by simp
next
  case (hand_over s g j t h)
  obtain q where q: "queue (lock_of (table s) j) = h # q"
    "t = (table s)\<lparr>inodes := (inodes (table s))(g := None), locks := (locks (table s))(j \<mapsto> \<lparr>owner = Some h, queue = q\<rparr>)\<rparr>"
    using hand_over(3) by (auto simp: unlock_section_def Let_def split: list.splits)
  show ?case
  proof (cases "i = j")
    case True
    then have "queue (lock_of t i) = q" "a @ f # b = h # q" using q hand_over(6) by (simp_all add: lock_of_def)
    then have "a = [] \<and> h = f \<or> (\<exists>a'. a = h # a' \<and> queue (lock_of t i) = a' @ f # b)" by (cases a) auto
    then show ?thesis using True by auto
  next
    case False
    then have "lock_of t i = lock_of (table s) i" using q by (simp add: lock_of_def)
    then show ?thesis using hand_over(6) by simp
  qed
qed (auto simp: lock_section_def Let_def lock_of_def no_lock_def split: if_splits option.splits)

subsection \<open>Calls on a locked file\<close>

definition faulty :: "fstate \<Rightarrow> nat" where
  "faulty s = length (filter (\<lambda>x. x \<noteq> None) (plan s))"

text \<open>What every call on an open file keeps, and that its changes are made under the lock.\<close>

definition under_lock :: "fstate \<Rightarrow> fstate \<Rightarrow> bool" where
  "under_lock s s' \<longleftrightarrow>
     is_open s' = is_open s \<and> held s' = held s \<and> regular s' = regular s \<and> (\<exists>js. journal s' = journal s @ js \<and> set js \<subseteq> {held s})"

lemma under_lock_refl [simp]: "under_lock s s"
  by (simp add: under_lock_def)

lemma under_lock_trans [trans]: "under_lock s s' \<Longrightarrow> under_lock s' s'' \<Longrightarrow> under_lock s s''"
  by (fastforce simp: under_lock_def)

lemma sys_cases:
  obtains (good) ps where "sys s = (None, s\<lparr>plan := ps\<rparr>)" "\<And>x. faulty (x\<lparr>plan := ps\<rparr>) = faulty s"
  | (bad) n ps where "sys s = (Some n, s\<lparr>plan := ps\<rparr>)" "\<And>x. Suc (faulty (x\<lparr>plan := ps\<rparr>)) = faulty s"
proof (cases "plan s")
  case Nil
  then have "sys s = (None, s\<lparr>plan := []\<rparr>)" by (cases s) (simp add: sys_def)
  moreover have "\<And>x. faulty (x\<lparr>plan := []\<rparr>) = faulty s" using Nil by (simp add: faulty_def)
  ultimately show ?thesis by (rule good)
next
  case (Cons p ps)
  then have s: "sys s = (p, s\<lparr>plan := ps\<rparr>)" by (simp add: sys_def)
  show ?thesis
  proof (cases p)
    case None
    then show ?thesis using s Cons by (intro good [of ps]) (simp_all add: faulty_def)
  next
    case (Some n)
    then show ?thesis using s Cons by (intro bad [of n ps]) (simp_all add: faulty_def)
  qed
qed

lemma store_simps [simp]:
  "content (store c s) = Some c" "bytes_of (store c s) = c" "faulty (store c s) = faulty s" "under_lock s (store c s)"
  by (simp_all add: store_def bytes_of_def faulty_def under_lock_def)

lemma bytes_of_Some: "content s = Some c \<Longrightarrow> bytes_of s = c"
  by (simp add: bytes_of_def)

lemma under_lock_plan [simp]: "under_lock s (s\<lparr>plan := ps\<rparr>)"
  by (simp add: under_lock_def)

lemma under_lock_store: "under_lock s (store c (s\<lparr>plan := ps\<rparr>))"
  using under_lock_trans [OF under_lock_plan store_simps(4)] .

lemma overwrite_nil: "off \<le> length c \<Longrightarrow> overwrite [] off c = c"
  by (simp add: overwrite_def resize_def)

lemma WriteAt_laws:
  assumes "os_WriteAt xs off s = (r, s')" "content s = Some c" "off \<le> length c"
  shows "under_lock s s'"
    "r = None \<Longrightarrow> content s' = Some (overwrite xs off c) \<and> faulty s' = faulty s"
    "r \<noteq> None \<Longrightarrow> Suc (faulty s') = faulty s \<and> (\<exists>k. content s' = Some (overwrite (take k xs) off c))"
proof -
  have "under_lock s s' \<and> (r = None \<longrightarrow> content s' = Some (overwrite xs off c) \<and> faulty s' = faulty s)
    \<and> (r \<noteq> None \<longrightarrow> Suc (faulty s') = faulty s \<and> (\<exists>k. content s' = Some (overwrite (take k xs) off c)))"
  proof (cases rule: sys_cases [of s])
    case (good ps)
    then show ?thesis
      using assms by (auto simp: os_WriteAt_def bytes_of_def overwrite_nil under_lock_store)
  next
    case (bad n ps)
    then show ?thesis
      using assms overwrite_nil [OF assms(3)] by (auto simp: os_WriteAt_def bytes_of_def under_lock_store min_def intro: exI [of _ n] split: if_splits)
  qed
  then show "under_lock s s'"
    "r = None \<Longrightarrow> content s' = Some (overwrite xs off c) \<and> faulty s' = faulty s"
    "r \<noteq> None \<Longrightarrow> Suc (faulty s') = faulty s \<and> (\<exists>k. content s' = Some (overwrite (take k xs) off c))"
    by simp_all
qed

lemma Truncate_laws:
  assumes "os_Truncate n s = (r, s')" "content s = Some c"
  shows "under_lock s s'"
    "r = None \<Longrightarrow> content s' = Some (resize n c) \<and> faulty s' = faulty s"
    "r \<noteq> None \<Longrightarrow> Suc (faulty s') = faulty s \<and> content s' = Some c"
proof -
  have "under_lock s s' \<and> (r = None \<longrightarrow> content s' = Some (resize n c) \<and> faulty s' = faulty s)
    \<and> (r \<noteq> None \<longrightarrow> Suc (faulty s') = faulty s \<and> content s' = Some c)"
    by (cases rule: sys_cases [of s]) (use assms in \<open>auto simp: os_Truncate_def bytes_of_def under_lock_store\<close>)
  then show "under_lock s s'"
    "r = None \<Longrightarrow> content s' = Some (resize n c) \<and> faulty s' = faulty s"
    "r \<noteq> None \<Longrightarrow> Suc (faulty s') = faulty s \<and> content s' = Some c"
    by simp_all
qed

lemma no_fault_WriteAt: "faulty s = 0 \<Longrightarrow> content s = Some c \<Longrightarrow> off \<le> length c \<Longrightarrow> fst (os_WriteAt xs off s) = None"
  by (cases rule: sys_cases [of s]) (simp_all add: os_WriteAt_def)

lemma no_fault_Truncate: "faulty s = 0 \<Longrightarrow> content s = Some c \<Longrightarrow> fst (os_Truncate n s) = None"
  by (cases rule: sys_cases [of s]) (simp_all add: os_Truncate_def)

subsection \<open>Taking back a change\<close>

text \<open>Bytes from the old ones on, cut to the old length, are the old bytes, whatever was written behind or over them.\<close>

lemma resize_overwrite_old: "resize (length old) (overwrite old 0 c) = old"
  by (simp add: resize_def overwrite_def)

lemma resize_overwrite_tail: "length old \<le> off \<Longrightarrow> off \<le> length c \<Longrightarrow> take (length old) c = old \<Longrightarrow> resize (length old) (overwrite xs off c) = old"
  by (auto simp: resize_def overwrite_def)

lemma overwrite_tail: "overwrite ys (length old) old = old @ ys"
  by (simp add: resize_def overwrite_def)

lemma roll_back_restores:
  assumes "content s = Some c"
  shows "under_lock s (roll_back old s)" "faulty s = 0 \<Longrightarrow> content (roll_back old s) = Some old"
proof -
  obtain r s1 where w: "os_WriteAt old 0 s = (r, s1)" by fastforce
  obtain r2 s2 where t: "os_Truncate (length old) s1 = (r2, s2)" by fastforce
  note W = WriteAt_laws [OF w assms]
  have c1: "\<exists>c1. content s1 = Some c1" using W by (cases r) auto
  then obtain c1 where c1: "content s1 = Some c1" by blast
  note T = Truncate_laws [OF t c1]
  show "under_lock s (roll_back old s)"
    using W(1) T(1) w t by (cases r) (auto simp: roll_back_def intro: under_lock_trans)
  assume z: "faulty s = 0"
  then have r: "r = None" using no_fault_WriteAt [OF z assms, of 0 old] w by simp
  then have "r2 = None" using no_fault_Truncate [of s1 c1 "length old"] W(2) z c1 t by simp
  then show "content (roll_back old s) = Some old"
    using r w t T(2) W(2) c1 by (simp add: roll_back_def resize_overwrite_old)
qed

lemma replace_old_laws:
  assumes "replace_old old new s = (r, s')" "content s = Some (old @ drop (length old) new)"
  shows "under_lock s s'" "r = None \<Longrightarrow> content s' = Some new" "content s' \<noteq> None" "r \<noteq> None \<Longrightarrow> Suc (faulty s') = faulty s"
proof -
  have "under_lock s s' \<and> (r = None \<longrightarrow> content s' = Some new) \<and> content s' \<noteq> None \<and> (r \<noteq> None \<longrightarrow> Suc (faulty s') = faulty s)"
  proof (cases "length old \<le> length new")
    case True
    then have w: "os_WriteAt (take (length old) new) 0 s = (r, s')" using assms(1) by (simp add: replace_old_def)
    show ?thesis using WriteAt_laws [OF w assms(2)] True by (cases r) (auto simp: overwrite_def resize_def)
  next
    case False
    obtain r1 s1 where w: "os_WriteAt new 0 s = (r1, s1)" by fastforce
    obtain r2 s2 where t: "os_Truncate (length new) s1 = (r2, s2)" by fastforce
    note W = WriteAt_laws [OF w assms(2)]
    obtain c1 where c1: "content s1 = Some c1" using W by (cases r1) auto
    note T = Truncate_laws [OF t c1]
    show ?thesis
    proof (cases r1)
      case None
      then show ?thesis
        using None assms(1) w t W(1,2) T c1 False under_lock_trans [OF W(1) T(1)] by (cases r2) (auto simp: replace_old_def resize_overwrite_old)
    next
      case (Some e)
      then show ?thesis using assms(1) w W False c1 by (auto simp: replace_old_def)
    qed
  qed
  then show "under_lock s s'" "r = None \<Longrightarrow> content s' = Some new" "content s' \<noteq> None" "r \<noteq> None \<Longrightarrow> Suc (faulty s') = faulty s"
    by simp_all
qed

lemma write_part:
  assumes "content s = Some old"
    "(if length old < length new then os_WriteAt (drop (length old) new) (length old) s else (None, s)) = (r, s')"
  shows "under_lock s s'" "r = None \<Longrightarrow> content s' = Some (old @ drop (length old) new) \<and> faulty s' = faulty s"
    "r \<noteq> None \<Longrightarrow> Suc (faulty s') = faulty s \<and> (\<exists>ys. content s' = Some (old @ ys))"
proof -
  have "under_lock s s' \<and> (r = None \<longrightarrow> content s' = Some (old @ drop (length old) new) \<and> faulty s' = faulty s)
    \<and> (r \<noteq> None \<longrightarrow> Suc (faulty s') = faulty s \<and> (\<exists>ys. content s' = Some (old @ ys)))"
  proof (cases "length old < length new")
    case True
    then have w: "os_WriteAt (drop (length old) new) (length old) s = (r, s')" using assms(2) by simp
    show ?thesis using WriteAt_laws [OF w assms(1)] by (auto simp: overwrite_tail)
  qed (use assms in auto)
  then show "under_lock s s'" "r = None \<Longrightarrow> content s' = Some (old @ drop (length old) new) \<and> faulty s' = faulty s"
    "r \<noteq> None \<Longrightarrow> Suc (faulty s') = faulty s \<and> (\<exists>ys. content s' = Some (old @ ys))"
    by simp_all
qed

definition transformed :: "(data \<Rightarrow> file_error + data) \<Rightarrow> fstate \<Rightarrow> data \<Rightarrow> file_error option \<Rightarrow> fstate \<Rightarrow> bool" where
  "transformed t s old r s' \<longleftrightarrow>
     (r = None \<longrightarrow> (\<exists>new. t old = Inr new \<and> content s' = Some new)) \<and> (r \<noteq> None \<and> faulty s \<le> 1 \<longrightarrow> content s' = Some old)"

lemma transform_tail:
  assumes "content s1 = Some old" "faulty s1 \<le> faulty s" "t old = Inr new"
    "(if length old < length new then os_WriteAt (drop (length old) new) (length old) s1 else (None, s1)) = (r, s2)"
    "(case r of Some e \<Rightarrow> (Some e, snd (os_Truncate (length old) s2))
      | None \<Rightarrow> (case replace_old old new s2 of (None, s3) \<Rightarrow> (None, s3) | (Some e, s3) \<Rightarrow> (Some e, roll_back old s3))) = (r', s')"
  shows "under_lock s1 s' \<and> transformed t s old r' s'"
proof (cases r)
  case (Some e)
  note L = write_part [OF assms(1,4)]
  obtain ys where ys: "content s2 = Some (old @ ys)" "Suc (faulty s2) = faulty s1" using L(3) Some by auto
  obtain r3 s3 where t: "os_Truncate (length old) s2 = (r3, s3)" by fastforce
  note T = Truncate_laws [OF t ys(1)]
  have "r3 = None" if "faulty s \<le> 1" using no_fault_Truncate [OF _ ys(1), of "length old"] t that ys(2) assms(2) by simp
  then show ?thesis
    using Some assms(5) t T(2) under_lock_trans [OF L(1) T(1)] by (auto simp: transformed_def resize_def)
next
  case None
  note L = write_part [OF assms(1,4)]
  have c: "content s2 = Some (old @ drop (length old) new)" "faulty s2 = faulty s1" using L(2) None by auto
  obtain r3 s3 where t: "replace_old old new s2 = (r3, s3)" by fastforce
  note R = replace_old_laws [OF t c(1)]
  obtain c3 where c3: "content s3 = Some c3" using R(3) by blast
  note B = roll_back_restores [OF c3, of old]
  show ?thesis
  proof (cases r3)
    case None
    then show ?thesis using \<open>r = None\<close> assms(3,5) t R(2) under_lock_trans [OF L(1) R(1)] by (auto simp: transformed_def)
  next
    case (Some e)
    then have "content (roll_back old s3) = Some old" if "faulty s \<le> 1" using B(2) R(4) c(2) that assms(2) by simp
    then show ?thesis
      using Some \<open>r = None\<close> assms(5) t under_lock_trans [OF under_lock_trans [OF L(1) R(1)] B(1)] by (auto simp: transformed_def)
  qed
qed

lemma transform_open_laws:
  assumes "transform_open t s = (r, s')" "content s = Some old"
  shows "under_lock s s' \<and> transformed t s old r s'"
proof (cases rule: sys_cases [of s])
  case (bad n ps)
  then show ?thesis using assms by (auto simp: transform_open_def io_ReadAll_def transformed_def)
next
  case (good ps)
  then have rd: "io_ReadAll s = (Inr old, s\<lparr>plan := ps\<rparr>)" using assms(2) by (simp add: io_ReadAll_def bytes_of_def)
  show ?thesis
  proof (cases "t old")
    case (Inl e)
    then show ?thesis using assms rd by (auto simp: transform_open_def transformed_def)
  next
    case (Inr new)
    obtain r2 s2 where p: "(if length old < length new then os_WriteAt (drop (length old) new) (length old) (s\<lparr>plan := ps\<rparr>) else (None, s\<lparr>plan := ps\<rparr>)) = (r2, s2)"
      by fastforce
    have "under_lock (s\<lparr>plan := ps\<rparr>) s' \<and> transformed t s old r s'"
      by (rule transform_tail [where t = t and new = new and old = old, OF _ _ Inr p]) (use assms good rd Inr p in \<open>auto simp: transform_open_def split: option.splits\<close>)
    then show ?thesis using under_lock_trans [OF under_lock_plan] by blast
  qed
qed

section \<open>Properties of the locks and of the locked files\<close>

text \<open>What the package promises: exclusion and order for the locks, all or nothing for a change of a file, and the release of a mutex.\<close>

lemma openFile_Edit:
  assumes "\<not> is_open s" "held s = None" "Edit s = (r, s')"
  shows "bytes_of s' = bytes_of s \<and> journal s' = journal s \<and> faulty s' \<le> faulty s
    \<and> (if r = None then is_open s' \<and> held s' = Some writeLock \<and> content s' = Some (bytes_of s) else \<not> is_open s' \<and> held s' = None)"
proof (cases rule: sys_cases [of s])
  case (bad n ps)
  then show ?thesis using assms bad(2) [of s] by (auto simp: Edit_def openFile_def os_OpenFile_def bytes_of_def)
next
  case (good ps)
  define x where "x = s\<lparr>plan := ps, content := Some (bytes_of s), is_open := True\<rparr>"
  have o: "os_OpenFile \<lparr>access = O_RDWR, O_CREATE = True, O_TRUNC = False\<rparr> s = (None, x)"
    using good by (cases s) (auto simp: os_OpenFile_def x_def bytes_of_def)
  have x: "bytes_of x = bytes_of s" "journal x = journal s" "faulty x = faulty s" "is_open x" "held x = None" "content x = Some (bytes_of s)"
    using good(2) [of x] assms(2) by (simp_all add: x_def bytes_of_def faulty_def)
  show ?thesis
  proof (cases rule: sys_cases [of x])
    case (good qs)
    then show ?thesis
      using assms(3) o x good(2) [of "x\<lparr>held := Some writeLock\<rparr>"] by (auto simp: Edit_def openFile_def Lock_def flock_def bytes_of_def faulty_def)
  next
    case (bad n qs)
    note b = bad
    have e: "Edit s = (Some Sys, snd (os_Close (x\<lparr>plan := qs\<rparr>)))"
      using o x(4) bad(1) by (simp add: Edit_def openFile_def Lock_def flock_def)
    show ?thesis
    proof (cases rule: sys_cases [of "x\<lparr>plan := qs\<rparr>"])
      case (good us)
      then show ?thesis using assms(3) e x b(2) [of x] good(2) [of "x\<lparr>is_open := False, held := None\<rparr>"] by (auto simp: os_Close_def bytes_of_def faulty_def)
    next
      case (bad k us)
      then show ?thesis using assms(3) e x b(2) [of x] bad(2) [of "x\<lparr>is_open := False, held := None\<rparr>"] by (auto simp: os_Close_def bytes_of_def faulty_def)
    qed
  qed
qed

lemma close_file_laws:
  assumes "is_open s"
  shows "content (snd (close_file s)) = content s \<and> journal (snd (close_file s)) = journal s
    \<and> \<not> is_open (snd (close_file s)) \<and> held (snd (close_file s)) = None"
proof -
  have c: "content (snd (os_Close x)) = content x \<and> journal (snd (os_Close x)) = journal x \<and> \<not> is_open (snd (os_Close x)) \<and> held (snd (os_Close x)) = None"
    if "is_open x" for x
    using that by (cases rule: sys_cases [of x]) (simp_all add: os_Close_def)
  have u: "content (snd (Unlock s)) = content s \<and> journal (snd (Unlock s)) = journal s \<and> is_open (snd (Unlock s))"
    using assms by (cases rule: sys_cases [of s]) (simp_all add: Unlock_def flock_def)
  have "snd (close_file s) = snd (os_Close (snd (Unlock s)))"
    by (simp add: close_file_def Close_def closeFile_def split: prod.split)
  then show ?thesis using u c [of "snd (Unlock s)"] by simp
qed

text \<open>
  C39. Whatever order the calls of \<open>lock\<close>, and of \<open>unlock\<close> for a file that is locked, take, on any number of files and inodes: \<open>unlock\<close> never finds another owner and never
  panics; for an inode one call at most is past the queue, from before its \<^verbatim>\<open>fcntl\<close> to its release; the calls that wait for an
  inode are those in its queue, and there is an owner whenever one waits; a waiting call only moves forward, one place at a time, and from the first
  place to the lock; and the calls under way can be continued to bring any waiting call to the lock.
\<close>

theorem lock_exclusion:
  assumes "lock_runs stat lock_init s"
  shows "\<not> panicked s
    \<and> (active (phase s f) i \<and> active (phase s g) i \<longrightarrow> f = g)
    \<and> (phase s f = Waiting i \<longrightarrow> f \<in> set (queue (lock_of (table s) i)) \<and> (\<exists>h. h \<noteq> f \<and> active (phase s h) i)
         \<and> (\<exists>s'. lock_runs stat s s' \<and> phase s' f = Setting i))
    \<and> (queue (lock_of (table s) i) = a @ f # b \<and> lock_step stat s s1 \<longrightarrow>
         (\<exists>c. queue (lock_of (table s1) i) = a @ f # c) \<or> (\<exists>h a' c. a = h # a' \<and> queue (lock_of (table s1) i) = a' @ f # c)
         \<or> a = [] \<and> phase s1 f = Setting i)"
proof (intro conjI impI)
  have inv: "lock_inv stat s" by (rule inv_reach [OF assms])
  show "\<not> panicked s" by (rule invD(8) [OF inv])
  show "f = g" if "active (phase s f) i \<and> active (phase s g) i"
    using invD(1) [OF inv, of i f] invD(1) [OF inv, of i g] that by simp
  show q: "f \<in> set (queue (lock_of (table s) i))" if "phase s f = Waiting i" using invD(2) [OF inv] that by simp
  show "\<exists>h. h \<noteq> f \<and> active (phase s h) i" if w: "phase s f = Waiting i"
  proof -
    have "owner (lock_of (table s) i) \<noteq> None" using invD(7) [OF inv, of i] q [OF w] by force
    then obtain h where "active (phase s h) i" using invD(1) [OF inv] by auto
    then show ?thesis using w by (intro exI [of _ h]) auto
  qed
  show "\<exists>s'. lock_runs stat s s' \<and> phase s' f = Setting i" if "phase s f = Waiting i" using to_front [OF inv q [OF that]] .
  show "(\<exists>c. queue (lock_of (table s1) i) = a @ f # c) \<or> (\<exists>h a' c. a = h # a' \<and> queue (lock_of (table s1) i) = a' @ f # c)
         \<or> a = [] \<and> phase s1 f = Setting i"
    if "queue (lock_of (table s) i) = a @ f # b \<and> lock_step stat s s1" using waits_in_order [OF _ inv] that by blast
qed

text \<open>Two files of one inode: the first is past the queue and the second waits, and can come to the lock.\<close>

definition two_calls :: lock_state where
  "two_calls = \<lparr>table = \<lparr>inodes = (\<lambda>f. None)(1 \<mapsto> 7, 2 \<mapsto> 7), locks = (\<lambda>i. None)(7 \<mapsto> \<lparr>owner = Some 1, queue = [2]\<rparr>)\<rparr>,
     phase = (\<lambda>f. Free)(1 := Setting 7, 2 := Waiting 7), panicked = False\<rparr>"

lemma two_calls_reached: "lock_runs (\<lambda>f. 7) lock_init two_calls"
proof -
  let ?s = "\<lparr>table = \<lparr>inodes = (\<lambda>f. None)(1 \<mapsto> 7), locks = (\<lambda>i. None)(7 \<mapsto> \<lparr>owner = Some 1, queue = []\<rparr>)\<rparr>,
     phase = (\<lambda>f. Free)(1 := Setting 7), panicked = False\<rparr>"
  have "lock_step (\<lambda>f. 7) lock_init ?s"
    using enter_free [of lock_init 1 "\<lambda>f. 7" "table ?s"] by (simp add: lock_init_def lock_section_def empty_table_def lock_of_def no_lock_def)
  moreover have "lock_step (\<lambda>f. 7) ?s two_calls"
    using enter_wait [of ?s 2 "\<lambda>f. 7" "table two_calls"] by (simp add: two_calls_def lock_section_def lock_of_def)
  ultimately show ?thesis by (meson converse_rtranclp_into_rtranclp r_into_rtranclp)
qed

theorem lock_exclusion_witness: "\<exists>s'. lock_runs (\<lambda>f. 7) two_calls s' \<and> phase s' 2 = Setting 7"
  using lock_exclusion [OF two_calls_reached, of 2 7] by (simp add: two_calls_def)

text \<open>
  C40. A change of a file by \<open>Transform\<close>, with any call of the operating system failing at any point: at the end the descriptor is closed and the lock
  released; the content is written only under the write lock; when no error is returned the file holds what the function gave for the old content;
  when one is returned and one call at most has failed, a write after any number of bytes included, the file holds its old content.
\<close>

theorem locked_transform:
  assumes "\<not> is_open s" "held s = None" "Transform t s = (r, s')"
  shows "\<not> is_open s' \<and> held s' = None
    \<and> (\<exists>js. journal s' = journal s @ js \<and> set js \<subseteq> {Some writeLock})
    \<and> (r = None \<longrightarrow> (\<exists>new. t (bytes_of s) = Inr new \<and> content s' = Some new))
    \<and> (r \<noteq> None \<and> faulty s \<le> 1 \<longrightarrow> bytes_of s' = bytes_of s)"
proof -
  obtain r1 s1 where e: "Edit s = (r1, s1)" by fastforce
  note E = openFile_Edit [OF assms(1,2) e]
  show ?thesis
  proof (cases r1)
    case (Some x)
    then show ?thesis using assms(3) e E by (auto simp: Transform_def)
  next
    case None
    obtain r2 s2 where o: "transform_open t s1 = (r2, s2)" by fastforce
    have s1: "is_open s1" "held s1 = Some writeLock" "content s1 = Some (bytes_of s)" "journal s1 = journal s" "faulty s1 \<le> faulty s"
      using E None by auto
    have L: "under_lock s1 s2" "transformed t s1 (bytes_of s) r2 s2" using transform_open_laws [OF o s1(3)] by auto
    have "is_open s2" using L(1) s1(1) by (simp add: under_lock_def)
    note C = close_file_laws [OF this]
    have r: "r = r2" "s' = snd (close_file s2)" using assms(3) e o None by (auto simp: Transform_def)
    have "\<exists>js. journal s2 = journal s @ js \<and> set js \<subseteq> {Some writeLock}" using L(1) s1(2,4) by (auto simp: under_lock_def)
    then show ?thesis using r C L(2) s1(5) by (auto simp: transformed_def bytes_of_def)
  qed
qed

text \<open>The tail is written, the write over the old bytes fails after one byte, and the file is as before.\<close>

definition abc_file :: fstate where
  "abc_file = \<lparr>content = Some [1, 2, 3], regular = True, is_open = False, held = None, plan = [None, None, None, None, Some 1], journal = []\<rparr>"

theorem locked_transform_witness:
  "fst (Transform (\<lambda>c. Inr [9, 8, 7, 6, 5]) abc_file) = Some Sys \<and> bytes_of (snd (Transform (\<lambda>c. Inr [9, 8, 7, 6, 5]) abc_file)) = [1, 2, 3]"
proof -
  obtain r x where T: "Transform (\<lambda>c. Inr [9, 8, 7, 6, 5]) abc_file = (r, x)" by fastforce
  have "fst (Transform (\<lambda>c. Inr [9, 8, 7, 6, 5]) abc_file) = Some Sys" by code_simp
  moreover have "\<not> is_open abc_file" "held abc_file = None" "faulty abc_file \<le> 1" "bytes_of abc_file = [1, 2, 3]"
    by (simp_all add: abc_file_def faulty_def bytes_of_def)
  ultimately show ?thesis
    using locked_transform [OF _ _ T] T by simp
qed

subsection \<open>Mutexes\<close>

text \<open>A mutex that was locked is released with its file closed, and is then as before.\<close>

lemma mutex_release:
  assumes "Path m \<noteq> ''''" "\<not> is_open s" "held s = None" "Mutex_Lock m s = Some (Ret (None, m1, s1))"
  shows "mu m = Readers 0 \<and> held s1 = Some writeLock
    \<and> (\<exists>s2. unlock_fun m1 s1 = Some (Ret (None, m, s2)) \<and> \<not> is_open s2 \<and> held s2 = None \<and> bytes_of s2 = bytes_of s)"
proof -
  have e: "lock_flags = \<lparr>access = O_RDWR, O_CREATE = True, O_TRUNC = False\<rparr>" by (simp add: lock_flags_def)
  have m: "mu m = Readers 0" using assms(1,4) by (auto simp: Mutex_Lock_def rw_Lock_def split: if_splits)
  obtain r x where o: "Edit s = (r, x)" by fastforce
  have d: "r = None" "m1 = m\<lparr>mu := Writer\<rparr>" "s1 = x"
    using assms(1,4) m o by (auto simp: Mutex_Lock_def rw_Lock_def open_locked_def Edit_def e rw_Unlock_def split: option.splits)
  have x: "is_open x" "held x = Some writeLock" "bytes_of x = bytes_of s" using openFile_Edit [OF assms(2,3) o] d by auto
  note C = close_file_laws [OF x(1)]
  have "snd (Unlock (snd (close_file x))) = snd (close_file x)" using C by (simp add: Unlock_def flock_def)
  moreover have "m\<lparr>mu := Readers 0\<rparr> = m" using m by (cases m) simp
  ultimately show ?thesis using C x d m by (auto simp: unlock_fun_def rw_Unlock_def bytes_of_def)
qed

text \<open>A read lock on a file that can not be opened ends the program: the error path releases a writer where a reader was counted.\<close>

lemma read_lock_fatal:
  assumes "Path m \<noteq> ''''" "mu m = Readers n" "fst (openFile rlock_flags s) \<noteq> None"
  shows "Mutex_RLock m s = Some Panic \<and> Mutex_TryRLock m s = Some Panic"
  using assms by (auto simp: Mutex_RLock_def Mutex_TryRLock_def rw_RLock_def open_locked_def rw_Unlock_def split: prod.splits option.splits)

end
