(* ===== verification/Spec2Isabelle.thy ===== *)
theory Spec2Isabelle
  imports Hashmap_Props Map_Empty Words_Props Net_Props Sed_Props Ssh_Props Vnc_Props Endec_Props Xml_Props Rfb_Props Sched_Props Log_Props Lock_Props
begin

text \<open>
  Verification of \<^verbatim>\<open>gosutils\<close>, a collection of Go packages that call each other little. The
  development models the packages with logic of their own, each as a group of theories that ends in
  a theory of properties; the properties are numbered through the groups.

  \<^bold>\<open>Base.\<close> \<open>Go_Prelude\<close>: strings as byte lists, runes, UTF-8 decoding and the range loop over a string,
  with the lemmas the scanners share. \<open>Outcome\<close>: the result of an operation that may panic or not
  return (\<open>None\<close> never returns, \<open>Some Panic\<close> a run-time panic, \<open>Some (Ret x)\<close> a result). \<open>Wire\<close>: slices,
  big-endian integers, the CRC of \<^verbatim>\<open>hash/crc32\<close> and the contract of a codec (\<open>wire_codec\<close>).

  \<^bold>\<open>hashmap\<close> (\<^verbatim>\<open>src/hashmap/{mapint64,mapempty}.go\<close>). \<open>Linear_Probing\<close> is the theory of the table layout
  as a locale over a table of slots; \<open>Map_Spec\<close> the contract of a map (\<open>map_adt\<close>) and what a client may
  conclude from it; \<open>Map_Int64\<close>, \<open>Map_Int64_Ops\<close> the record \<open>MapInt64\<close> with its 64 bit
  words, its loops as \<open>partial_function (option)\<close> (a probe that finds no free slot does not return), and
  the interpretations; \<open>Map_Empty\<close> the set of keys. \<open>Hashmap_Props\<close>: the map answers every sequence of
  operations as a finite map does, grows, deletes by shifting and enumerates exactly; and the
  deletion of the free key that makes later lookups loop.

  \<^bold>\<open>Command lines\<close> (\<^verbatim>\<open>src/sconv/sconv.go\<close>, \<^verbatim>\<open>src/cmdshellwords/*.go\<close>). \<open>Argv_Spec\<close> is the contract of
  writing and reading an argument list; \<open>Sconv\<close> and \<open>Shellwords\<close> are the two implementations, one with
  \<open>goto\<close> labels, one as a loop over a state record, both interpreted. \<open>Words_Props\<close>: both round trips,
  the equivalence of \<open>splitWord\<close> with a grammar, the reported positions, and inputs that are lost or
  panic.

  \<^bold>\<open>Packets\<close> (\<^verbatim>\<open>src/ethernet/{ethernet,vlan}.go\<close>, \<^verbatim>\<open>src/arp/{packet,client}.go\<close>). \<open>Ethernet\<close>,
  \<open>Ethernet_Laws\<close>, \<open>Arp\<close>: marshalling with the code's index arithmetic (the ARP buffer size is computed in
  uint8 and wraps) and the interpretations of the codec contract; \<open>Arp_Client\<close>: the client over a
  connection given by what it will read. \<open>Net_Props\<close>: round trips in both directions, exact error
  conditions, no panics on any input, error detection of the check sequence, and address resolution.

  \<^bold>\<open>gosed\<close> (\<^verbatim>\<open>src/gosed/*.go\<close>). \<open>Sed_Lex\<close>, \<open>Sed_Parse\<close>, \<open>Sed_VM\<close>, \<open>Sed_Engine\<close>: the lexer, the compiler (with
  fuel one more than the number of tokens, shown to be enough), the machine that runs a program
  lazily into the reader's slices, and the functions on files with the bounded channel between lexer
  and parser. \<open>Sed_Lazy\<close> and \<open>Sed_Copy\<close> show by simulation that the slices do not matter, \<open>Sed_Safe\<close> that
  compiled programs do not panic, \<open>Sed_Script\<close> evaluates commands and scripts, \<open>Sed_Props\<close>
  states the properties. Regular expressions and files are parameters; what is relied on (matches in
  order and inside the string, \<open>rx_ok\<close>) is a hypothesis with a witness.

  \<^bold>\<open>ssh\_config\<close> (\<^verbatim>\<open>src/ssh_config/*.go\<close>). \<open>Ssh_Lex\<close> is the state machine of the lexer, \<open>Ssh_Config\<close> the
  tree of hosts and nodes with lookup and printing, \<open>Ssh_Parse\<close> the parser with nested files (fuel 7
  bounds the depth, which the code limits to 5), \<open>Ssh_Settings\<close> validation and the settings. \<open>Ssh_Safe\<close>:
  decoding never panics; \<open>Ssh_Print\<close> and \<open>Ssh_Roundtrip\<close>: printing and reading back; \<open>Ssh_Lookup\<close>: globs and
  lookup order; \<open>Ssh_Props\<close>: the properties. Files, globbing and the lower case letters beyond ASCII are
  parameters.

  \<^bold>\<open>endec/vncpasswd\<close> (\<^verbatim>\<open>src/endec/vncpasswd/vncpasswd.go\<close>). \<open>Vnc_Des\<close> is the cipher on 32 bit words with its
  tables and the key schedule that the code keeps in a global variable, \<open>Vnc_Cipher\<close> its decryption law,
  \<open>Vnc_Passwd\<close> the exported functions with their slices. \<open>Des_Standard\<close> is DES as FIPS 46-3 writes it, on
  lists of bits, and \<open>Vnc_Standard\<close> relates the two. \<open>Vnc_Props\<close>: the cipher is DES for the key with the
  bits of its bytes reversed, passwords come back, and when the answer to a challenge panics.

  \<^bold>\<open>endec\<close> (\<^verbatim>\<open>src/endec/{d3des,aes,endec}.go\<close>). \<open>Block_Modes\<close> has the block and the chained mode over the
  contract \<open>block_cipher\<close>, interpreted for DES; \<open>Base64\<close> the encodings of the Go library; \<open>Endec_Des\<close>,
  \<open>Endec_Aes\<close> and \<open>Endec_Text\<close> the functions of the three files, with AES, its authenticated mode and MD5
  as parameters and what is random as an argument. \<open>Endec_Props\<close>: the round trips with the exact inputs
  on which they fail, and the ranges of random choices.

  \<^bold>\<open>goxml\<close> (\<^verbatim>\<open>src/goxml/{helpers,goxml,path}.go\<close>). Tokens point to their parent and elements to their
  children, so the state is a memory, a list of tokens. \<open>Xml_Fifo\<close> is the queue in a ring and the stack,
  with the contract \<open>fifo_queue\<close> and the loops that drain a queue; \<open>Xml_Text\<close> escaping, indentation strings
  and prefixes; \<open>Xml_Heap\<close> the tokens and the operations on children and text; \<open>Xml_Doc\<close> attributes, name
  spaces, paths of elements, copies, writing, indentation, reading and documents, with the decoder of
  \<^verbatim>\<open>encoding/xml\<close> as a parameter; \<open>Xml_Decode\<close> that decoder, token by token, and what it reads of a written tree; \<open>Xml_Path\<close> the compiler of paths and the search. Functions that walk along
  pointers return an option, \<open>None\<close> where a cycle keeps them from returning, and are proved to return on trees. \<open>Xml_Links\<close>,
  \<open>Xml_Ops\<close> and \<open>Xml_Edits\<close> show that every edit keeps the links between parents and children;
  \<open>Xml_Tree\<close> and \<open>Xml_Indent\<close> relate a memory to a tree and the operations to functions on trees; \<open>Xml_Traverse\<close>
  and \<open>Xml_Relative\<close> say what a search finds. \<open>Xml_Props\<close> states the properties.

  \<^bold>\<open>vnc\<close> (\<^verbatim>\<open>src/vnc/vncclient/*.go\<close>, \<^verbatim>\<open>src/vnc/vncserver/rfb/rfb.go\<close>). \<open>Rfb_Wire\<close> is a connection with the
  bytes still to come, the bytes written and the failures of writing, and operations on it that end with a
  value, an error or a panic; \<open>Rfb_Client\<close> and \<open>Rfb_Server\<close> are the two programs over it, the server with its two
  goroutines and its channels as the step relation \<open>server_step\<close>, where a push reads the format field by field while a
  command may change it in between (the assignment of the format is one step). \<open>Rfb_Pixels\<close> relates the pixels sent to those read,
  \<open>Rfb_Session\<close> and \<open>Rfb_Exchange\<close> put the two sides together, \<open>Rfb_Guard\<close> has the invariant of the server and the loop
  of the client and the shape of what it reads; its answer to a challenge is in \<open>Rfb_Exchange\<close>. \<open>Rfb_Props\<close> states
  the properties.

  \<^bold>\<open>sched\<close> (\<^verbatim>\<open>src/sched/sched.go\<close>). \<open>Go_Time\<close> is the calendar: instants in nanoseconds, days, months and
  the function \<^verbatim>\<open>time.Date\<close> that carries days over the ends of months, in a zone of fixed offset. \<open>Sched\<close> has the
  schedules, the chained calls that build a job and the goroutine that starts it, a step relation over a clock, a
  timer and the calls still running. \<open>Sched_Props\<close> shows when jobs are due and states the properties. The last days
  of this and of the next month come from a library and are parameters with their meaning as a hypothesis.

  \<^bold>\<open>slogrus\<close> (\<^verbatim>\<open>src/slogrus/{logrotate,chown_linux}.go\<close>). \<open>Go_Time\<close> also formats and parses the time in the name of a
  backup; \<open>Log_Rotate\<close> is the logger over a directory in which any system call may fail, and its runs: writes into the
  buffer, portions of it that the goroutine takes, whose lengths are left open, and rounds of the mill; \<open>Log_Refine\<close> shows that it keeps
  the files of an abstract log, \<open>Log_Props\<close> states the properties. The compression is a parameter.

  \<^bold>\<open>lockedfile\<close> (\<^verbatim>\<open>src/lockedfile/*.go\<close>). \<open>File_Lock\<close> has the tables of the \<^verbatim>\<open>fcntl\<close> version and its calls at
  the same time as the step relation \<open>lock_step\<close>, with its invariant; \<open>Locked_File\<close> the functions on files and mutexes,
  every call of the system failing as a plan says; \<open>Lock_Props\<close> the progress of
  waiting calls, the effect of failing writes and the properties.

  \<^bold>\<open>Not modelled.\<close> Locks and goroutines (every exported method holds its lock for its whole body, and
  channels are the lists of what is sent over them, except where blocking or interleaving is the
  point, as in \<open>Sed_Engine\<close>, \<open>Rfb_Server\<close>, \<open>Sched\<close>, \<open>Log_Rotate\<close> and \<open>File_Lock\<close>); the packages around processes, terminals, sockets, services and third-party libraries,
  which consist of calls into them; vendored code; packages on reflection. The manifest lists them.
\<close>

end
